(* ===== verification/Prelude.thy ===== *)
theory Prelude
  imports Complex_Main "HOL-Library.Word"
begin

text \<open>
  Shared vocabulary of the development: bytes and JavaScript numbers as the TypeScript
  sources use them, errors as values, and the generic facts about lists and integers that
  the component theories share.

  \<^item> A \<open>Uint8Array\<close> is a list of 8-bit words; storing a number into it keeps its low
    eight bits (\<open>to_byte\<close>), reading gives \<open>uint\<close>.
  \<^item> A \<open>number\<close> that the code only ever uses as an integer is an \<open>int\<close> (or a \<open>nat\<close>
    where it is a count).  The bitwise operators convert their operands to 32 bits first, as
    ECMAScript does; \<open>js_and\<close>, \<open>js_or\<close>, \<open>js_xor\<close> and \<open>js_shl\<close> read the result as
    signed, \<open>js_ushr\<close> as unsigned.
  \<^item> Where the code tests a \<open>number\<close> with \<open>Number.isFinite\<close> or
    \<open>Number.isInteger\<close>, the argument is a \<open>jsnum\<close>, which has NaN, the two infinities,
    negative zero and the finite (rational) numbers.  Rounding of inexact double arithmetic
    is not modelled.
  \<^item> A \<open>throw\<close> is the left side of a sum, a normal return the right side.
\<close>

unbundle bit_operations_syntax

named_theorems js_ops \<open>how the 32-bit operators act on in-range integers\<close>

section \<open>Bytes\<close>

type_synonym byte = "8 word"
type_synonym bytes = "byte list"

definition to_byte :: "int \<Rightarrow> byte" where
  "to_byte n = word_of_int n"

lemma uint_byte_bounds: "0 \<le> uint (b :: byte)" "uint (b :: byte) < 256"
  using unsigned_less [of b, where ?'a = int] by simp_all

lemma uint_to_byte [simp]: "uint (to_byte n) = n mod 256"
  by (simp add: to_byte_def uint_word_of_int)

lemma to_byte_uint [simp]: "to_byte (uint b) = b"
  by (simp add: to_byte_def)

lemma to_byte_literal [simp]: "to_byte (numeral k) = numeral k" "to_byte 0 = 0" "to_byte 1 = 1"
  by (simp_all add: to_byte_def)

lemma to_byte_mod [simp]: "to_byte (n mod 256) = to_byte n"
  by (rule word_uint_eqI) simp

lemma uint_to_byte_small: "0 \<le> n \<Longrightarrow> n < 256 \<Longrightarrow> uint (to_byte n) = n"
  by simp

lemma unat_to_byte [simp]: "n < 256 \<Longrightarrow> unat (to_byte (int n)) = n"
proof -
  assume "n < 256"
  then have "uint (to_byte (int n)) = int n" by (intro uint_to_byte_small) simp_all
  then show ?thesis by (simp only: unat_eq_nat_uint nat_int)
qed

lemma uint_byte_mod [simp]: "uint (b :: byte) mod 256 = uint b"
  using uint_byte_bounds [of b] by simp

section \<open>The 32-bit operators\<close>

definition js_and :: "int \<Rightarrow> int \<Rightarrow> int" where
  "js_and a b = sint ((word_of_int a :: 32 word) AND word_of_int b)"

definition js_or :: "int \<Rightarrow> int \<Rightarrow> int" where
  "js_or a b = sint ((word_of_int a :: 32 word) OR word_of_int b)"

definition js_xor :: "int \<Rightarrow> int \<Rightarrow> int" where
  "js_xor a b = sint ((word_of_int a :: 32 word) XOR word_of_int b)"

definition js_shl :: "int \<Rightarrow> nat \<Rightarrow> int" where
  "js_shl a k = sint (push_bit k (word_of_int a :: 32 word))"

definition js_ushr :: "int \<Rightarrow> nat \<Rightarrow> int" where
  "js_ushr a k = uint (drop_bit k (word_of_int a :: 32 word))"

lemma sint_word32 [js_ops]: "0 \<le> n \<Longrightarrow> n < 2 ^ 31 \<Longrightarrow> sint (word_of_int n :: 32 word) = n"
  by (simp add: signed_of_int signed_take_bit_int_eq_self)

lemma word_and_of_int: "(word_of_int a :: 'a::len word) AND word_of_int b = word_of_int (a AND b)"
  by (metis (no_types) word_and_def wi_hom_syms(1) of_int_and_eq)

lemma word_or_of_int: "(word_of_int a :: 'a::len word) OR word_of_int b = word_of_int (a OR b)"
  by (metis of_int_or_eq)

lemma word_xor_of_int: "(word_of_int a :: 'a::len word) XOR word_of_int b = word_of_int (a XOR b)"
  by (metis of_int_xor_eq)

lemma js_ushr_eq: "js_ushr a k = (a mod 2 ^ 32) div 2 ^ k"
  unfolding js_ushr_def unsigned_drop_bit_eq
  by (simp add: drop_bit_eq_div uint_word_of_int take_bit_eq_mod)

lemma js_ushr_in_range [js_ops]: "0 \<le> a \<Longrightarrow> a < 2 ^ 32 \<Longrightarrow> js_ushr a k = a div 2 ^ k"
  by (simp add: js_ushr_eq)

lemma js_and_mask: "k \<le> 31 \<Longrightarrow> js_and a (mask k) = a mod 2 ^ k"
proof -
  assume k: "k \<le> 31"
  have "a mod 2 ^ k < 2 ^ k" by simp
  also have "(2::int) ^ k \<le> 2 ^ 31" using k by (rule power_increasing) simp
  finally have b: "a mod 2 ^ k < 2 ^ 31" .
  have "js_and a (mask k) = sint (word_of_int (take_bit k a) :: 32 word)"
    by (simp only: js_and_def word_and_of_int take_bit_eq_mask)
  also have "\<dots> = a mod 2 ^ k"
    using b by (simp only: take_bit_eq_mod) (intro sint_word32, simp_all)
  finally show ?thesis .
qed

lemma js_and_lit [js_ops]:
  "js_and a 1 = a mod 2" "js_and a 7 = a mod 8" "js_and a 15 = a mod 16"
  "js_and a 255 = a mod 256" "js_and a 65535 = a mod 65536"
  using js_and_mask [of 1 a] js_and_mask [of 3 a] js_and_mask [of 4 a] js_and_mask [of 8 a]
    js_and_mask [of 16 a]
  by (simp_all add: mask_eq_exp_minus_1)

text \<open>Combining a high part, shifted, with a low part of \<open>k\<close> bits.\<close>

lemma and_shift_zero:
  fixes h l :: int
  assumes "0 \<le> l" "l < 2 ^ k"
  shows "(push_bit k h) AND l = 0"
proof (rule bit_eqI)
  fix n
  have "take_bit k l = l" using assms by (simp add: take_bit_int_eq_self)
  then have "bit l n \<Longrightarrow> n < k" by (metis bit_take_bit_iff)
  then show "bit (push_bit k h AND l) n = bit 0 n"
    by (auto simp: bit_and_iff bit_push_bit_iff)
qed

lemma or_shift_eq_add:
  fixes h l :: int
  assumes "0 \<le> l" "l < 2 ^ k"
  shows "(push_bit k h) OR l = h * 2 ^ k + l"
  using disjunctive_add_eq_or [OF and_shift_zero [OF assms, of h]]
  by (simp add: push_bit_eq_mult)

lemma xor_shift_eq_add:
  fixes h l :: int
  assumes "0 \<le> l" "l < 2 ^ k"
  shows "(push_bit k h) XOR l = h * 2 ^ k + l"
  using disjunctive_add_eq_xor [OF and_shift_zero [OF assms, of h]]
  by (simp add: push_bit_eq_mult)

lemma push_bit_of_int_word: "push_bit k (word_of_int a :: 'a::len word) = word_of_int (push_bit k a)"
  by (simp add: push_bit_eq_mult)

lemma js_shl_in_range [js_ops]: "0 \<le> a \<Longrightarrow> a * 2 ^ k < 2 ^ 31 \<Longrightarrow> js_shl a k = a * 2 ^ k"
proof -
  assume h: "0 \<le> a" "a * 2 ^ k < 2 ^ 31"
  have "js_shl a k = sint (word_of_int (a * 2 ^ k) :: 32 word)"
    unfolding js_shl_def push_bit_of_int_word push_bit_eq_mult [of k a] ..
  also have "\<dots> = a * 2 ^ k" using h by (intro sint_word32) simp_all
  finally show ?thesis .
qed

lemma js_or_shift: "0 \<le> h \<Longrightarrow> 0 \<le> l \<Longrightarrow> l < 2 ^ k \<Longrightarrow> h * 2 ^ k + l < 2 ^ 31 \<Longrightarrow>
    js_or (h * 2 ^ k) l = h * 2 ^ k + l"
  unfolding js_or_def word_or_of_int or_shift_eq_add [of l k h, unfolded push_bit_eq_mult]
  by (rule sint_word32) simp_all

text \<open>The big-endian 16-bit read \<open>(hi << 8) | lo\<close> of the protocol code.\<close>

lemma js_be16 [js_ops]:
  "0 \<le> h \<Longrightarrow> h < 256 \<Longrightarrow> 0 \<le> l \<Longrightarrow> l < 256 \<Longrightarrow> js_or (js_shl h 8) l = h * 256 + l"
  using js_or_shift [of h l 8] by (simp add: js_shl_in_range)

lemma js_be16_bytes [js_ops, simp]:
  "js_or (js_shl (uint (h :: byte)) 8) (uint (l :: byte)) = uint h * 256 + uint l"
  by (intro js_be16 uint_byte_bounds)

text \<open>XOR-ing a number with its own low part clears that part.\<close>

lemma xor_low_part:
  fixes c :: int
  shows "c XOR (c mod 2 ^ k) = (c div 2 ^ k) * 2 ^ k"
proof -
  have "c XOR take_bit k c = push_bit k (drop_bit k c)"
    by (rule bit_eqI) (auto simp: bit_simps)
  then show ?thesis
    by (simp add: take_bit_eq_mod push_bit_eq_mult drop_bit_eq_div)
qed

lemma js_xor_in_range [js_ops]:
  "0 \<le> a \<Longrightarrow> a < 2 ^ n \<Longrightarrow> 0 \<le> b \<Longrightarrow> b < 2 ^ n \<Longrightarrow> n \<le> 31 \<Longrightarrow> js_xor a b = a XOR b"
proof -
  assume h: "0 \<le> a" "a < 2 ^ n" "0 \<le> b" "b < 2 ^ n" "n \<le> 31"
  have "(2::int) ^ n \<le> 2 ^ 31" using h(5) by (rule power_increasing) simp
  moreover have "0 \<le> a XOR b" using h by simp
  moreover have "a XOR b < 2 ^ n" using h by (simp add: XOR_upper)
  ultimately show ?thesis
    unfolding js_xor_def word_xor_of_int by (intro sint_word32) simp_all
qed

section \<open>Numbers that may not be integers\<close>

datatype jsnum = NaN | PosInf | NegInf | NegZero | Num rat

fun js_rat :: "jsnum \<Rightarrow> rat option" where
  "js_rat (Num r) = Some r"
| "js_rat NegZero = Some 0"
| "js_rat _ = None"

definition js_isFinite :: "jsnum \<Rightarrow> bool" where
  "js_isFinite n = (js_rat n \<noteq> None)"

definition js_isInteger :: "jsnum \<Rightarrow> bool" where
  "js_isInteger n = (case js_rat n of None \<Rightarrow> False | Some r \<Rightarrow> of_int \<lfloor>r\<rfloor> = r)"

definition js_int :: "int \<Rightarrow> jsnum" where
  "js_int i = Num (of_int i)"

text \<open>\<open>Math.floor\<close> and \<open>Math.trunc\<close> of a finite number, as an integer; the callers
  that are modelled test finiteness first.\<close>

definition js_floor :: "jsnum \<Rightarrow> int" where
  "js_floor n = (case js_rat n of None \<Rightarrow> 0 | Some r \<Rightarrow> \<lfloor>r\<rfloor>)"

definition js_trunc :: "jsnum \<Rightarrow> int" where
  "js_trunc n = (case js_rat n of None \<Rightarrow> 0 | Some r \<Rightarrow> (if r < 0 then \<lceil>r\<rceil> else \<lfloor>r\<rfloor>))"

lemma js_int_simps [simp]:
  "js_rat (js_int i) = Some (of_int i)" "js_isFinite (js_int i)" "js_isInteger (js_int i)"
  "js_floor (js_int i) = i" "js_trunc (js_int i) = i"
  by (simp_all add: js_int_def js_isFinite_def js_isInteger_def js_floor_def js_trunc_def)

text \<open>\<open>Number.isSafeInteger\<close>\<close>

definition js_safe :: "jsnum \<Rightarrow> bool" where
  "js_safe v \<longleftrightarrow> js_isInteger v \<and> \<bar>js_floor v\<bar> \<le> 2 ^ 53 - 1"

lemma js_isInteger_imp_finite: "js_isInteger n \<Longrightarrow> js_isFinite n"
  by (auto simp: js_isInteger_def js_isFinite_def split: option.splits)

section \<open>Errors\<close>

text \<open>What a \<open>throw\<close> carries, as far as callers tell errors apart.\<close>

datatype js_error = RangeError | TypeError | PlainError string

definition bind_ok :: "'e + 'a \<Rightarrow> ('a \<Rightarrow> 'e + 'b) \<Rightarrow> 'e + 'b" where
  "bind_ok m f = (case m of Inl e \<Rightarrow> Inl e | Inr x \<Rightarrow> f x)"

lemma bind_ok_simps [simp]: "bind_ok (Inl e) f = Inl e" "bind_ok (Inr x) f = f x"
  by (simp_all add: bind_ok_def)

lemma bind_ok_eq_Inr: "bind_ok m f = Inr y \<longleftrightarrow> (\<exists>x. m = Inr x \<and> f x = Inr y)"
  by (cases m) simp_all

fun mapM_ok :: "('a \<Rightarrow> 'e + 'b) \<Rightarrow> 'a list \<Rightarrow> 'e + 'b list" where
  "mapM_ok f [] = Inr []"
| "mapM_ok f (x # xs) = bind_ok (f x) (\<lambda>y. bind_ok (mapM_ok f xs) (\<lambda>ys. Inr (y # ys)))"

lemma mapM_ok_Inr: "(\<And>x. x \<in> set xs \<Longrightarrow> f x = Inr (g x)) \<Longrightarrow> mapM_ok f xs = Inr (map g xs)"
  by (induction xs) simp_all

section \<open>Lists\<close>

lemma sum_list_drop_take: "sum_list (take n xs) + sum_list (drop n xs) = (sum_list xs :: nat)"
  by (metis append_take_drop_id sum_list_append)

lemma length_concat_sum: "length (concat xss) = sum_list (map length xss)"
  by (simp add: length_concat)

lemma nth_drop_take: "take (Suc 0) (drop i xs) = (if i < length xs then [xs ! i] else [])"
  by (simp add: take_Suc_conv_app_nth Cons_nth_drop_Suc [symmetric])

end
