(* ===== verification/SerialRxQueue.thy ===== *)
theory SerialRxQueue
  imports Prelude "HOL-Library.Sublist"
begin

text \<open>
  The bounded receive buffer of a serial connection, \<open>SerialRxQueue\<close> in
  \<open>src/lib/serial-rx-queue.ts\<close>.  The record keeps the backing array with its dead prefix:
  a released slot (\<open>chunks[head] = undefined\<close>) is \<open>None\<close>, and reading one would be the
  TypeError that the model returns as \<open>None\<close>.  The abstraction \<open>rxq_live\<close> forgets the
  dead prefix; the lemmas show that the queue then is the plain list of the newest chunks,
  that exactly the oldest bytes are discarded and reported, and that the array stays below
  twice the chunk limit.
\<close>

section \<open>State and operations\<close>

record rx_queue =
  rxq_maxBytes :: nat
  rxq_maxChunks :: nat
  rxq_chunks :: "bytes option list"
  rxq_head :: nat
  rxq_byteLength :: nat
  rxq_droppedSinceDrain :: nat
  rxq_totalDropped :: nat
  rxq_overflowNotified :: bool

record enqueue_result =
  er_droppedBytes :: nat
  er_droppedSinceDrain :: nat
  er_totalDroppedBytes :: nat
  er_overflowStarted :: bool
  er_pendingBytes :: nat
  er_pendingChunks :: nat

record drain_result =
  dr_chunks :: "bytes option list"
  dr_byteLength :: nat
  dr_droppedSinceDrain :: nat

definition rxq_liveCount :: "rx_queue \<Rightarrow> nat" where
  "rxq_liveCount q = length (rxq_chunks q) - rxq_head q"

text \<open>\<open>positiveInteger\<close>: \<open>None\<close> is the RangeError.\<close>

definition rxq_positiveInteger :: "jsnum \<Rightarrow> nat option" where
  "rxq_positiveInteger v =
     (case js_rat v of None \<Rightarrow> None | Some r \<Rightarrow> if r < 1 then None else Some (nat \<lfloor>r\<rfloor>))"

definition rxq_new :: "jsnum \<Rightarrow> jsnum \<Rightarrow> rx_queue option" where
  "rxq_new mb mc =
     (case rxq_positiveInteger mb of
        None \<Rightarrow> None
      | Some b \<Rightarrow> (case rxq_positiveInteger mc of
          None \<Rightarrow> None
        | Some c \<Rightarrow> Some \<lparr>rxq_maxBytes = b, rxq_maxChunks = c, rxq_chunks = [], rxq_head = 0,
            rxq_byteLength = 0, rxq_droppedSinceDrain = 0, rxq_totalDropped = 0,
            rxq_overflowNotified = False\<rparr>))"

definition rxq_recordDrop :: "nat \<Rightarrow> rx_queue \<Rightarrow> rx_queue" where
  "rxq_recordDrop count q =
     (if count \<le> 0 then q
      else q\<lparr>rxq_droppedSinceDrain := rxq_droppedSinceDrain q + count,
             rxq_totalDropped := rxq_totalDropped q + count,
             rxq_overflowNotified := True\<rparr>)"

definition rxq_pushLive :: "bytes \<Rightarrow> rx_queue \<Rightarrow> rx_queue" where
  "rxq_pushLive chunk q =
     (let q' = (if rxq_head q > 0 \<and> 2 * rxq_head q \<ge> length (rxq_chunks q)
                then q\<lparr>rxq_chunks := drop (rxq_head q) (rxq_chunks q), rxq_head := 0\<rparr> else q)
      in q'\<lparr>rxq_chunks := rxq_chunks q' @ [Some chunk]\<rparr>)"

text \<open>The \<open>while\<close> loop of \<open>enqueue\<close>, for an incoming chunk of \<open>n\<close> bytes.\<close>

function rxq_dropOldest :: "nat \<Rightarrow> rx_queue \<Rightarrow> rx_queue option" where
  "rxq_dropOldest n q =
     (if rxq_liveCount q > 0 \<and>
         (rxq_byteLength q + n > rxq_maxBytes q \<or> rxq_liveCount q \<ge> rxq_maxChunks q)
      then (case rxq_chunks q ! rxq_head q of
              None \<Rightarrow> None
            | Some dropped \<Rightarrow>
                rxq_dropOldest n (rxq_recordDrop (length dropped)
                  (q\<lparr>rxq_chunks := (rxq_chunks q)[rxq_head q := None],
                     rxq_head := rxq_head q + 1,
                     rxq_byteLength := rxq_byteLength q - length dropped\<rparr>)))
      else Some q)"
  by pat_completeness auto
termination
  by (relation "measure (\<lambda>(n, q). rxq_liveCount q)")
    (auto simp: rxq_liveCount_def rxq_recordDrop_def)

declare rxq_dropOldest.simps [simp del]

definition rxq_enqueue :: "bytes \<Rightarrow> rx_queue \<Rightarrow> (rx_queue \<times> enqueue_result) option" where
  "rxq_enqueue bs q =
     (case rxq_dropOldest (length bs) q of
        None \<Rightarrow> None
      | Some q1 \<Rightarrow>
          let q2 = (if length bs > rxq_maxBytes q1
                    then let retained = drop (length bs - rxq_maxBytes q1) bs;
                             q' = rxq_pushLive retained
                                    (rxq_recordDrop (length bs - length retained) q1)
                         in q'\<lparr>rxq_byteLength := rxq_byteLength q' + length retained\<rparr>
                    else let q' = rxq_pushLive bs q1
                         in q'\<lparr>rxq_byteLength := rxq_byteLength q' + length bs\<rparr>)
          in Some (q2, \<lparr>er_droppedBytes = rxq_totalDropped q2 - rxq_totalDropped q,
                 er_droppedSinceDrain = rxq_droppedSinceDrain q2,
                 er_totalDroppedBytes = rxq_totalDropped q2,
                 er_overflowStarted = (\<not> rxq_overflowNotified q \<and> rxq_overflowNotified q2),
                 er_pendingBytes = rxq_byteLength q2,
                 er_pendingChunks = rxq_liveCount q2\<rparr>))"

definition rxq_drain :: "rx_queue \<Rightarrow> rx_queue \<times> drain_result" where
  "rxq_drain q =
     (q\<lparr>rxq_chunks := [], rxq_head := 0, rxq_byteLength := 0, rxq_droppedSinceDrain := 0\<rparr>,
      \<lparr>dr_chunks = (if rxq_head q = 0 then rxq_chunks q else drop (rxq_head q) (rxq_chunks q)),
       dr_byteLength = rxq_byteLength q,
       dr_droppedSinceDrain = rxq_droppedSinceDrain q\<rparr>)"

definition rxq_clearPending :: "rx_queue \<Rightarrow> rx_queue" where
  "rxq_clearPending q =
     q\<lparr>rxq_chunks := [], rxq_head := 0, rxq_byteLength := 0, rxq_droppedSinceDrain := 0\<rparr>"

definition rxq_reset :: "rx_queue \<Rightarrow> rx_queue" where
  "rxq_reset q = (rxq_clearPending q)\<lparr>rxq_totalDropped := 0, rxq_overflowNotified := False\<rparr>"

section \<open>Abstraction and invariant\<close>

definition rxq_live :: "rx_queue \<Rightarrow> bytes list" where
  "rxq_live q = map the (drop (rxq_head q) (rxq_chunks q))"

abbreviation total :: "bytes list \<Rightarrow> nat" where
  "total cs \<equiv> length (concat cs)"

text \<open>What holds between the statements of an operation: the live region is defined and its
  size is \<open>byteLength\<close>.\<close>

definition rxq_wf :: "rx_queue \<Rightarrow> bool" where
  "rxq_wf q \<longleftrightarrow> rxq_head q \<le> length (rxq_chunks q) \<and>
     drop (rxq_head q) (rxq_chunks q) = map Some (rxq_live q) \<and>
     rxq_byteLength q = total (rxq_live q) \<and>
     1 \<le> rxq_maxBytes q \<and> 1 \<le> rxq_maxChunks q \<and>
     rxq_droppedSinceDrain q \<le> rxq_totalDropped q \<and>
     (rxq_overflowNotified q \<longleftrightarrow> rxq_totalDropped q > 0)"

text \<open>What holds between operations.\<close>

definition rxq_inv :: "rx_queue \<Rightarrow> bool" where
  "rxq_inv q \<longleftrightarrow> rxq_wf q \<and> rxq_byteLength q \<le> rxq_maxBytes q \<and>
     rxq_liveCount q \<le> rxq_maxChunks q \<and>
     (rxq_head q = 0 \<or> 2 * rxq_head q < length (rxq_chunks q))"

text \<open>The specification: evict whole chunks from the old end until the new chunk fits.\<close>

fun evict :: "nat \<Rightarrow> nat \<Rightarrow> nat \<Rightarrow> bytes list \<Rightarrow> bytes list" where
  "evict B C n [] = []"
| "evict B C n (c # cs) =
     (if total (c # cs) + n > B \<or> length (c # cs) \<ge> C then evict B C n cs else c # cs)"

definition newest :: "nat \<Rightarrow> bytes \<Rightarrow> bytes" where
  "newest B bs = drop (length bs - B) bs"

lemma suffix_evict: "suffix (evict B C n cs) cs"
  by (induction cs) (auto simp: suffix_ConsI)

lemma evict_fits:
  "evict B C n cs = [] \<or> total (evict B C n cs) + n \<le> B \<and> length (evict B C n cs) < C"
  by (induction cs) auto

lemma evict_id: "total cs + n \<le> B \<Longrightarrow> length cs < C \<Longrightarrow> evict B C n cs = cs"
  by (cases cs) auto

lemma total_suffix: "suffix xs ys \<Longrightarrow> total xs \<le> total ys"
  by (auto simp: suffix_def)

lemma concat_suffix: "suffix xs ys \<Longrightarrow> concat xs = drop (total ys - total xs) (concat ys)"
  by (auto simp: suffix_def)

section \<open>The loop and the push, on the abstract queue\<close>

lemma rxq_liveCount_live: "rxq_liveCount q = length (rxq_live q)"
  by (simp add: rxq_liveCount_def rxq_live_def)

lemma rxq_live_head:
  assumes "rxq_wf q" "rxq_liveCount q > 0"
  obtains c where "rxq_chunks q ! rxq_head q = Some c"
    and "rxq_live q = c # map the (drop (Suc (rxq_head q)) (rxq_chunks q))"
    and "drop (Suc (rxq_head q)) (rxq_chunks q) = map Some (tl (rxq_live q))"
proof -
  from assms have h: "rxq_head q < length (rxq_chunks q)" by (simp add: rxq_liveCount_def)
  from Cons_nth_drop_Suc [OF h] assms(1)
  have d: "rxq_chunks q ! rxq_head q # drop (Suc (rxq_head q)) (rxq_chunks q)
      = map Some (rxq_live q)" by (simp add: rxq_wf_def)
  then obtain c cs where l: "rxq_live q = c # cs" by (cases "rxq_live q") auto
  from d l show thesis by (intro that [of c]) (auto simp: rxq_live_def comp_def)
qed

lemma rxq_dropOldest_step:
  assumes "rxq_wf q" "rxq_chunks q ! rxq_head q = Some c" "rxq_liveCount q > 0"
  defines "q' \<equiv> rxq_recordDrop (length c) (q\<lparr>rxq_chunks := (rxq_chunks q)[rxq_head q := None],
     rxq_head := rxq_head q + 1, rxq_byteLength := rxq_byteLength q - length c\<rparr>)"
  shows "rxq_wf q'" "rxq_live q = c # rxq_live q'"
    "rxq_maxBytes q' = rxq_maxBytes q" "rxq_maxChunks q' = rxq_maxChunks q"
    "rxq_totalDropped q' = rxq_totalDropped q + length c"
    "rxq_droppedSinceDrain q' = rxq_droppedSinceDrain q + length c"
    "length (rxq_chunks q') = length (rxq_chunks q)"
proof -
  obtain d where d: "rxq_chunks q ! rxq_head q = Some d"
    "rxq_live q = d # map the (drop (Suc (rxq_head q)) (rxq_chunks q))"
    "drop (Suc (rxq_head q)) (rxq_chunks q) = map Some (tl (rxq_live q))"
    using rxq_live_head [OF assms(1,3)] .
  have l': "rxq_live q' = map the (drop (Suc (rxq_head q)) (rxq_chunks q))"
    by (simp add: q'_def rxq_recordDrop_def rxq_live_def)
  show l: "rxq_live q = c # rxq_live q'" using d assms(2) l' by simp
  show "rxq_wf q'" using assms(1,3) l d(3) l'
    by (auto simp: rxq_wf_def q'_def rxq_recordDrop_def rxq_liveCount_def)
qed (simp_all add: q'_def rxq_recordDrop_def)

lemma rxq_dropOldest_spec:
  assumes "rxq_wf q"
  shows "\<exists>q'. rxq_dropOldest n q = Some q' \<and> rxq_wf q' \<and>
    rxq_live q' = evict (rxq_maxBytes q) (rxq_maxChunks q) n (rxq_live q) \<and>
    rxq_maxBytes q' = rxq_maxBytes q \<and> rxq_maxChunks q' = rxq_maxChunks q \<and>
    rxq_totalDropped q' + total (rxq_live q') = rxq_totalDropped q + total (rxq_live q) \<and>
    rxq_droppedSinceDrain q' + total (rxq_live q') = rxq_droppedSinceDrain q + total (rxq_live q)"
  using assms
proof (induction n q rule: rxq_dropOldest.induct)
  case (1 n q)
  show ?case
  proof (cases "rxq_liveCount q > 0 \<and>
      (rxq_byteLength q + n > rxq_maxBytes q \<or> rxq_liveCount q \<ge> rxq_maxChunks q)")
    case False
    have "evict (rxq_maxBytes q) (rxq_maxChunks q) n (rxq_live q) = rxq_live q"
      using False "1.prems"
      by (cases "rxq_live q") (auto simp: rxq_liveCount_live rxq_wf_def)
    moreover have "rxq_dropOldest n q = Some q"
      using False by (subst rxq_dropOldest.simps) auto
    ultimately show ?thesis using "1.prems" by simp
  next
    case True
    obtain c where c: "rxq_chunks q ! rxq_head q = Some c"
      using rxq_live_head "1.prems" True by blast
    let ?q' = "rxq_recordDrop (length c) (q\<lparr>rxq_chunks := (rxq_chunks q)[rxq_head q := None],
       rxq_head := rxq_head q + 1, rxq_byteLength := rxq_byteLength q - length c\<rparr>)"
    note s = rxq_dropOldest_step [OF "1.prems" c conjunct1 [OF True]]
    have e: "rxq_dropOldest n q = rxq_dropOldest n ?q'"
      using True c by (subst rxq_dropOldest.simps) simp
    have ev: "evict (rxq_maxBytes q) (rxq_maxChunks q) n (rxq_live q)
        = evict (rxq_maxBytes ?q') (rxq_maxChunks ?q') n (rxq_live ?q')"
      using True "1.prems" s(2-4) by (auto simp: rxq_liveCount_live rxq_wf_def)
    show ?thesis
      unfolding e ev using "1.IH" [OF True c s(1)] s(2-6) by (auto simp: ac_simps)
  qed
qed

lemma rxq_pushLive_simps [simp]:
  "rxq_live (rxq_pushLive c q) = rxq_live q @ [c]" if "rxq_head q \<le> length (rxq_chunks q)"
  using that by (simp add: rxq_pushLive_def rxq_live_def Let_def)

lemma rxq_pushLive_fields [simp]:
  "rxq_maxBytes (rxq_pushLive c q) = rxq_maxBytes q"
  "rxq_maxChunks (rxq_pushLive c q) = rxq_maxChunks q"
  "rxq_byteLength (rxq_pushLive c q) = rxq_byteLength q"
  "rxq_totalDropped (rxq_pushLive c q) = rxq_totalDropped q"
  "rxq_droppedSinceDrain (rxq_pushLive c q) = rxq_droppedSinceDrain q"
  "rxq_overflowNotified (rxq_pushLive c q) = rxq_overflowNotified q"
  by (simp_all add: rxq_pushLive_def Let_def)

lemma rxq_live_byteLength [simp]: "rxq_live (q\<lparr>rxq_byteLength := k\<rparr>) = rxq_live q"
  by (simp add: rxq_live_def)

lemma rxq_recordDrop_fields [simp]:
  "rxq_live (rxq_recordDrop k q) = rxq_live q"
  "rxq_chunks (rxq_recordDrop k q) = rxq_chunks q"
  "rxq_head (rxq_recordDrop k q) = rxq_head q"
  "rxq_maxBytes (rxq_recordDrop k q) = rxq_maxBytes q"
  "rxq_maxChunks (rxq_recordDrop k q) = rxq_maxChunks q"
  "rxq_byteLength (rxq_recordDrop k q) = rxq_byteLength q"
  "rxq_totalDropped (rxq_recordDrop k q) = rxq_totalDropped q + k"
  "rxq_droppedSinceDrain (rxq_recordDrop k q) = rxq_droppedSinceDrain q + k"
  by (simp_all add: rxq_recordDrop_def rxq_live_def)

lemma rxq_wf_recordDrop: "rxq_wf q \<Longrightarrow> rxq_wf (rxq_recordDrop k q)"
  by (auto simp: rxq_wf_def) (auto simp: rxq_recordDrop_def)

lemma rxq_wf_push:
  fixes c :: bytes
  assumes "rxq_wf q"
  defines "q' \<equiv> (rxq_pushLive c q)\<lparr>rxq_byteLength := rxq_byteLength (rxq_pushLive c q) + length c\<rparr>"
  shows "rxq_wf q'" "rxq_live q' = rxq_live q @ [c]"
    "rxq_head q' = 0 \<or> 2 * rxq_head q' < length (rxq_chunks q')"
proof -
  have h: "rxq_head q \<le> length (rxq_chunks q)" using assms by (simp add: rxq_wf_def)
  then show "rxq_live q' = rxq_live q @ [c]" by (simp add: q'_def)
  show "rxq_wf q'" using assms(1) h
    by (auto simp: rxq_wf_def q'_def) (auto simp: rxq_pushLive_def Let_def)
  show "rxq_head q' = 0 \<or> 2 * rxq_head q' < length (rxq_chunks q')"
    by (auto simp: q'_def rxq_pushLive_def Let_def)
qed

section \<open>The operations, on the abstract queue\<close>

lemma rxq_enqueue_spec:
  assumes "rxq_inv q"
  obtains q' r where "rxq_enqueue bs q = Some (q', r)" "rxq_inv q'"
    "rxq_live q' = evict (rxq_maxBytes q) (rxq_maxChunks q) (length bs) (rxq_live q)
       @ [newest (rxq_maxBytes q) bs]"
    "rxq_totalDropped q' + total (rxq_live q') = rxq_totalDropped q + total (rxq_live q) + length bs"
    "rxq_droppedSinceDrain q' + total (rxq_live q')
       = rxq_droppedSinceDrain q + total (rxq_live q) + length bs"
    "rxq_maxBytes q' = rxq_maxBytes q" "rxq_maxChunks q' = rxq_maxChunks q"
    "er_droppedBytes r = rxq_totalDropped q' - rxq_totalDropped q"
    "er_droppedSinceDrain r = rxq_droppedSinceDrain q'"
    "er_totalDroppedBytes r = rxq_totalDropped q'"
    "er_overflowStarted r = (rxq_totalDropped q = 0 \<and> 0 < rxq_totalDropped q')"
    "er_pendingBytes r = total (rxq_live q')" "er_pendingChunks r = length (rxq_live q')"
proof -
  let ?B = "rxq_maxBytes q" and ?C = "rxq_maxChunks q" and ?n = "length bs"
  have wf: "rxq_wf q" using assms by (simp add: rxq_inv_def)
  from rxq_dropOldest_spec [OF wf, of ?n] obtain q1 where
    q1: "rxq_dropOldest ?n q = Some q1" "rxq_wf q1" "rxq_live q1 = evict ?B ?C ?n (rxq_live q)"
      "rxq_maxBytes q1 = ?B" "rxq_maxChunks q1 = ?C"
      "rxq_totalDropped q1 + total (rxq_live q1) = rxq_totalDropped q + total (rxq_live q)"
      "rxq_droppedSinceDrain q1 + total (rxq_live q1) = rxq_droppedSinceDrain q + total (rxq_live q)"
    by blast
  define qd where "qd = (if ?n > ?B then rxq_recordDrop (?n - ?B) q1 else q1)"
  define c where "c = newest ?B bs"
  define q2 where "q2 = (rxq_pushLive c qd)\<lparr>rxq_byteLength := rxq_byteLength (rxq_pushLive c qd) + length c\<rparr>"
  have B: "1 \<le> ?B" using wf by (simp add: rxq_wf_def)
  have wfd: "rxq_wf qd" and lived: "rxq_live qd = rxq_live q1" "rxq_maxBytes qd = ?B" "rxq_maxChunks qd = ?C"
    using q1(2,4,5) by (simp_all add: qd_def rxq_wf_recordDrop)
  note p = rxq_wf_push [OF wfd, of c, folded q2_def]
  have enq: "rxq_enqueue bs q = Some (q2, \<lparr>er_droppedBytes = rxq_totalDropped q2 - rxq_totalDropped q,
      er_droppedSinceDrain = rxq_droppedSinceDrain q2, er_totalDroppedBytes = rxq_totalDropped q2,
      er_overflowStarted = (\<not> rxq_overflowNotified q \<and> rxq_overflowNotified q2),
      er_pendingBytes = rxq_byteLength q2, er_pendingChunks = rxq_liveCount q2\<rparr>)"
    using B by (auto simp: rxq_enqueue_def q1(1,4) q2_def qd_def c_def newest_def Let_def)
  have drops: "rxq_totalDropped q2 = rxq_totalDropped q1 + (?n - ?B)"
    "rxq_droppedSinceDrain q2 = rxq_droppedSinceDrain q1 + (?n - ?B)"
    by (simp_all add: q2_def qd_def)
  have lc: "length c = min ?n ?B" by (auto simp: c_def newest_def)
  have fits: "total (rxq_live q2) \<le> ?B \<and> length (rxq_live q2) \<le> ?C"
    using evict_fits [of ?B ?C ?n "rxq_live q"] wf lc
    by (auto simp: p(2) lived q1(3) rxq_wf_def)
  have same: "rxq_maxBytes q2 = ?B" "rxq_maxChunks q2 = ?C"
    using lived by (simp_all add: q2_def)
  have "rxq_inv q2" using p fits same by (auto simp: rxq_inv_def rxq_liveCount_live rxq_wf_def)
  moreover have "rxq_live q2 = evict ?B ?C ?n (rxq_live q) @ [newest ?B bs]"
    by (simp add: p(2) lived q1(3) c_def)
  ultimately show thesis
    using p(1) wf drops q1(6,7) lc same lived
    by (intro that [OF enq]) (auto simp: p(2) rxq_wf_def rxq_liveCount_live)
qed

lemma rxq_drain_spec:
  assumes "rxq_inv q"
  shows "rxq_inv (fst (rxq_drain q))" "rxq_live (fst (rxq_drain q)) = []"
    "rxq_totalDropped (fst (rxq_drain q)) = rxq_totalDropped q"
    "dr_chunks (snd (rxq_drain q)) = map Some (rxq_live q)"
    "dr_byteLength (snd (rxq_drain q)) = total (rxq_live q)"
  using assms by (auto simp: rxq_drain_def rxq_inv_def rxq_wf_def rxq_live_def rxq_liveCount_def)

lemma rxq_clear_spec:
  assumes "rxq_inv q"
  shows "rxq_inv (rxq_clearPending q)" "rxq_live (rxq_clearPending q) = []"
    "rxq_inv (rxq_reset q)" "rxq_live (rxq_reset q) = []"
  using assms
  by (auto simp: rxq_clearPending_def rxq_reset_def rxq_inv_def rxq_wf_def rxq_live_def
      rxq_liveCount_def)

lemma rxq_new_inv: "rxq_new mb mc = Some q \<Longrightarrow> rxq_inv q \<and> rxq_live q = [] \<and> rxq_totalDropped q = 0"
  by (auto simp: rxq_new_def rxq_positiveInteger_def rxq_inv_def rxq_wf_def rxq_live_def
      rxq_liveCount_def le_nat_iff le_floor_iff split: option.splits if_splits)

section \<open>The interface a receive pipeline relies on\<close>

text \<open>
  The pipeline puts native chunks in and takes everything out at a drain; \<open>clearPending\<close>
  and \<open>reset\<close> throw the content away.  What it may rely on is that content only ever
  leaves at the old end: a put keeps a suffix of the old content followed by the new bytes.
\<close>

datatype buffer_op = Put bytes | Take | Discard

fun buffer_run :: "(bytes \<Rightarrow> 's \<Rightarrow> 's option) \<Rightarrow> ('s \<Rightarrow> 's \<times> bytes) \<Rightarrow> ('s \<Rightarrow> 's) \<Rightarrow>
    's \<Rightarrow> buffer_op list \<Rightarrow> ('s \<times> bytes) option" where
  "buffer_run put tak dis s [] = Some (s, [])"
| "buffer_run put tak dis s (Put bs # ops) =
     (case put bs s of None \<Rightarrow> None | Some s' \<Rightarrow> buffer_run put tak dis s' ops)"
| "buffer_run put tak dis s (Take # ops) =
     map_option (\<lambda>(s', out). (s', snd (tak s) @ out)) (buffer_run put tak dis (fst (tak s)) ops)"
| "buffer_run put tak dis s (Discard # ops) = buffer_run put tak dis (dis s) ops"

fun op_input :: "buffer_op \<Rightarrow> bytes" where
  "op_input (Put bs) = bs"
| "op_input _ = []"

locale byte_buffer =
  fixes put :: "bytes \<Rightarrow> 's \<Rightarrow> 's option"
    and tak :: "'s \<Rightarrow> 's \<times> bytes"
    and dis :: "'s \<Rightarrow> 's"
    and contents :: "'s \<Rightarrow> bytes"
    and lost :: "'s \<Rightarrow> nat"
    and inv :: "'s \<Rightarrow> bool"
  assumes put_ok: "inv s \<Longrightarrow> \<exists>s'. put bs s = Some s' \<and> inv s' \<and>
      suffix (contents s') (contents s @ bs) \<and>
      lost s' + length (contents s') = lost s + length (contents s) + length bs"
    and take_ok: "inv s \<Longrightarrow> inv (fst (tak s)) \<and> contents (fst (tak s)) = [] \<and>
      snd (tak s) = contents s \<and> lost (fst (tak s)) = lost s"
    and discard_ok: "inv s \<Longrightarrow> inv (dis s) \<and> contents (dis s) = []"
begin

lemma run_total:
  "inv s \<Longrightarrow> \<exists>s' out. buffer_run put tak dis s ops = Some (s', out) \<and> inv s'"
proof (induction ops arbitrary: s)
  case (Cons op ops)
  show ?case
  proof (cases op)
    case (Put bs)
    then show ?thesis using Cons put_ok [OF Cons.prems, of bs] by fastforce
  next
    case Take
    then show ?thesis using Cons.IH [of "fst (tak s)"] take_ok [OF Cons.prems] by auto
  next
    case Discard
    then show ?thesis using Cons.IH [of "dis s"] discard_ok [OF Cons.prems] by auto
  qed
qed simp

lemma run_in_order:
  "inv s \<Longrightarrow> buffer_run put tak dis s ops = Some (s', out) \<Longrightarrow>
    subseq (out @ contents s') (contents s @ concat (map op_input ops))"
proof (induction ops arbitrary: s out)
  case (Cons op ops)
  show ?case
  proof (cases op)
    case (Put bs)
    then obtain s1 where s1: "put bs s = Some s1" "inv s1" "suffix (contents s1) (contents s @ bs)"
      using put_ok [OF Cons.prems(1), of bs] by blast
    then have "subseq (out @ contents s') (contents s1 @ concat (map op_input ops))"
      using Cons Put by simp
    also have "subseq \<dots> ((contents s @ bs) @ concat (map op_input ops))"
      using s1(3) by (intro list_emb_append_mono) (auto intro: suffix_imp_subseq)
    finally show ?thesis using Put by simp
  next
    case Take
    then show ?thesis
      using Cons.IH [of "fst (tak s)"] Cons.prems take_ok [OF Cons.prems(1)]
      by (auto intro: list_emb_append_mono)
  next
    case Discard
    then show ?thesis
      using Cons.IH [of "dis s"] Cons.prems discard_ok [OF Cons.prems(1)]
      by (auto intro: list_emb_append2)
  qed
qed simp

lemma run_conserves:
  "inv s \<Longrightarrow> buffer_run put tak dis s ops = Some (s', out) \<Longrightarrow> Discard \<notin> set ops \<Longrightarrow>
    length out + length (contents s') + lost s'
      = length (contents s) + lost s + length (concat (map op_input ops))"
proof (induction ops arbitrary: s out)
  case (Cons op ops)
  show ?case
  proof (cases op)
    case (Put bs)
    then show ?thesis using Cons put_ok [OF Cons.prems(1), of bs] by fastforce
  next
    case Take
    then show ?thesis
      using Cons.IH [of "fst (tak s)"] Cons.prems take_ok [OF Cons.prems(1)] by fastforce
  next
    case Discard
    then show ?thesis using Cons.prems by simp
  qed
qed simp

end

definition rxq_put :: "bytes \<Rightarrow> rx_queue \<Rightarrow> rx_queue option" where
  "rxq_put bs q = map_option fst (rxq_enqueue bs q)"

definition rxq_take :: "rx_queue \<Rightarrow> rx_queue \<times> bytes" where
  "rxq_take q = (let (q', r) = rxq_drain q in (q', concat (map the (dr_chunks r))))"

definition rxq_run :: "rx_queue \<Rightarrow> buffer_op list \<Rightarrow> (rx_queue \<times> bytes) option" where
  "rxq_run = buffer_run rxq_put rxq_take rxq_clearPending"

lemma suffix_evict_newest:
  assumes "1 \<le> B"
  shows "suffix (concat (evict B C (length bs) cs) @ newest B bs) (concat cs @ bs)"
proof (cases "length bs > B")
  case True
  then have "evict B C (length bs) cs = []" using evict_fits [of B C "length bs" cs] by auto
  then show ?thesis
    by (auto simp: newest_def suffix_append intro: suffix_drop)
next
  case False
  obtain zs where "cs = zs @ evict B C (length bs) cs"
    using suffix_evict [of B C "length bs" cs] by (auto simp: suffix_def)
  then have "concat cs @ bs = concat zs @ concat (evict B C (length bs) cs) @ bs"
    by (metis append_assoc concat_append)
  with False show ?thesis by (auto simp: newest_def suffix_def)
qed

interpretation rxq: byte_buffer rxq_put rxq_take rxq_clearPending
    "\<lambda>q. concat (rxq_live q)" rxq_totalDropped rxq_inv
proof
  fix q bs
  assume i: "rxq_inv q"
  then have "1 \<le> rxq_maxBytes q" by (simp add: rxq_inv_def rxq_wf_def)
  with i show "\<exists>q'. rxq_put bs q = Some q' \<and> rxq_inv q' \<and>
      suffix (concat (rxq_live q')) (concat (rxq_live q) @ bs) \<and>
      rxq_totalDropped q' + total (rxq_live q') = rxq_totalDropped q + total (rxq_live q) + length bs"
    by (elim rxq_enqueue_spec [of q bs]) (auto simp: rxq_put_def suffix_evict_newest)
next
  fix q
  assume i: "rxq_inv q"
  show "rxq_inv (fst (rxq_take q)) \<and> concat (rxq_live (fst (rxq_take q))) = [] \<and>
      snd (rxq_take q) = concat (rxq_live q) \<and>
      rxq_totalDropped (fst (rxq_take q)) = rxq_totalDropped q"
    using rxq_drain_spec [OF i] by (auto simp: rxq_take_def split: prod.splits)
  show "rxq_inv (rxq_clearPending q) \<and> concat (rxq_live (rxq_clearPending q)) = []"
    using rxq_clear_spec [OF i] by simp
qed

section \<open>Properties\<close>

text \<open>In every state the constructor and the operations can produce, \<open>enqueue\<close> returns
  (it never reads a released slot) and acts as the plain list of chunks of the specification:
  whole chunks leave at the old end only until the new one fits, and a chunk longer than the
  limit is cut to its newest bytes.  The invariant with both limits holds again, and the
  backing array is shorter than twice the chunk limit.\<close>

theorem rxq_enqueue_refines:
  assumes "rxq_inv q"
  shows "\<exists>q' r. rxq_enqueue bs q = Some (q', r) \<and> rxq_inv q' \<and>
    rxq_live q' = evict (rxq_maxBytes q) (rxq_maxChunks q) (length bs) (rxq_live q)
      @ [newest (rxq_maxBytes q) bs] \<and>
    total (rxq_live q') \<le> rxq_maxBytes q \<and> length (rxq_live q') \<le> rxq_maxChunks q \<and>
    length (rxq_chunks q') < 2 * rxq_maxChunks q + 1"
proof -
  obtain q' r where e: "rxq_enqueue bs q = Some (q', r)" "rxq_inv q'"
    "rxq_live q' = evict (rxq_maxBytes q) (rxq_maxChunks q) (length bs) (rxq_live q)
       @ [newest (rxq_maxBytes q) bs]"
    "rxq_maxBytes q' = rxq_maxBytes q" "rxq_maxChunks q' = rxq_maxChunks q"
    using rxq_enqueue_spec [OF assms, of bs] by metis
  have "length (rxq_chunks q') < 2 * rxq_maxChunks q + 1"
    using e(2,5) by (auto simp: rxq_inv_def rxq_liveCount_def)
  with e show ?thesis by (auto simp: rxq_inv_def rxq_wf_def rxq_liveCount_live)
qed

definition rxq_example :: rx_queue where
  "rxq_example = \<lparr>rxq_maxBytes = 4, rxq_maxChunks = 2, rxq_chunks = [None, Some [1, 2], Some [3]],
     rxq_head = 1, rxq_byteLength = 3, rxq_droppedSinceDrain = 1, rxq_totalDropped = 1,
     rxq_overflowNotified = True\<rparr>"

lemma rxq_example_inv: "rxq_inv rxq_example"
  by (simp add: rxq_example_def rxq_inv_def rxq_wf_def rxq_live_def rxq_liveCount_def)

theorem rxq_enqueue_refines_witness:
  "\<exists>q' r. rxq_enqueue [4, 5] rxq_example = Some (q', r) \<and> rxq_live q' = [[3], [4, 5]]"
  using rxq_enqueue_refines [OF rxq_example_inv, of "[4, 5]"]
  by (auto simp: rxq_example_def rxq_live_def newest_def)

text \<open>The bytes that stay are exactly the newest ones and the report is exact: after
  \<open>enqueue\<close> the content is the old content followed by the new bytes, less precisely
  \<open>droppedBytes\<close> bytes at the old end; \<open>totalDroppedBytes\<close> grows by that amount,
  \<open>pendingBytes\<close> and \<open>pendingChunks\<close> describe the new content, and
  \<open>overflowStarted\<close> is reported exactly at the first loss.\<close>

theorem rxq_enqueue_keeps_newest:
  assumes "rxq_inv q" "rxq_enqueue bs q = Some (q', r)"
  shows "concat (rxq_live q') = drop (er_droppedBytes r) (concat (rxq_live q) @ bs) \<and>
    er_totalDroppedBytes r = rxq_totalDropped q + er_droppedBytes r \<and>
    er_pendingBytes r = total (rxq_live q') \<and> er_pendingChunks r = length (rxq_live q') \<and>
    er_overflowStarted r = (rxq_totalDropped q = 0 \<and> 0 < er_droppedBytes r)"
proof -
  have B: "1 \<le> rxq_maxBytes q" using assms(1) by (simp add: rxq_inv_def rxq_wf_def)
  obtain q2 r2 where e: "rxq_enqueue bs q = Some (q2, r2)"
    "rxq_live q2 = evict (rxq_maxBytes q) (rxq_maxChunks q) (length bs) (rxq_live q)
       @ [newest (rxq_maxBytes q) bs]"
    "rxq_totalDropped q2 + total (rxq_live q2) = rxq_totalDropped q + total (rxq_live q) + length bs"
    "er_droppedBytes r2 = rxq_totalDropped q2 - rxq_totalDropped q"
    "er_totalDroppedBytes r2 = rxq_totalDropped q2"
    "er_overflowStarted r2 = (rxq_totalDropped q = 0 \<and> 0 < rxq_totalDropped q2)"
    "er_pendingBytes r2 = total (rxq_live q2)" "er_pendingChunks r2 = length (rxq_live q2)"
    using rxq_enqueue_spec [OF assms(1), of bs] by metis
  have q2: "q2 = q'" "r2 = r" using e(1) assms(2) by simp_all
  obtain zs where zs: "concat (rxq_live q) @ bs = zs @ concat (rxq_live q')"
    using suffix_evict_newest [OF B, of "rxq_maxChunks q" bs "rxq_live q"] e(2)
    by (auto simp: q2 suffix_def)
  then have "length zs + total (rxq_live q') = total (rxq_live q) + length bs"
    by (metis length_append)
  with e(3) have "rxq_totalDropped q' = rxq_totalDropped q + length zs" by (simp add: q2)
  with zs e show ?thesis by (auto simp: q2)
qed

theorem rxq_enqueue_keeps_newest_witness:
  "\<exists>q' r. rxq_enqueue [4, 5] rxq_example = Some (q', r) \<and>
    concat (rxq_live q') = drop (er_droppedBytes r) ([1, 2, 3] @ [4, 5]) \<and>
    er_totalDroppedBytes r = 1 + er_droppedBytes r"
proof -
  obtain q' r where e: "rxq_enqueue [4, 5] rxq_example = Some (q', r)"
    using rxq_enqueue_spec [OF rxq_example_inv, of "[4, 5]"] by metis
  show ?thesis
    using e rxq_enqueue_keeps_newest [OF rxq_example_inv e]
    by (auto simp: rxq_example_def rxq_live_def)
qed

text \<open>Over any sequence of enqueues, drains and clears from a fresh queue, the drained
  bytes followed by the pending ones are a subsequence of what arrived: nothing is reordered,
  duplicated or invented, and no operation fails.  Without a clear the accounting is exact:
  drained, pending and dropped bytes add up to the bytes received.\<close>

theorem rxq_run_in_order:
  assumes "rxq_new mb mc = Some q"
  shows "\<exists>q' out. rxq_run q ops = Some (q', out) \<and> rxq_inv q' \<and>
    subseq (out @ concat (rxq_live q')) (concat (map op_input ops)) \<and>
    (Discard \<notin> set ops \<longrightarrow>
      length out + rxq_byteLength q' + rxq_totalDropped q' = length (concat (map op_input ops)))"
proof -
  have q: "rxq_inv q" "rxq_live q = []" "rxq_totalDropped q = 0"
    using rxq_new_inv [OF assms] by auto
  obtain q' out where r: "buffer_run rxq_put rxq_take rxq_clearPending q ops = Some (q', out)"
      "rxq_inv q'"
    using rxq.run_total [OF q(1)] by blast
  show ?thesis
    using r q rxq.run_in_order [OF q(1) r(1)] rxq.run_conserves [OF q(1) r(1)]
    by (auto simp: rxq_run_def rxq_inv_def rxq_wf_def)
qed

theorem rxq_run_in_order_witness:
  "\<exists>q q' out. rxq_new (js_int 4) (js_int 2) = Some q \<and>
    rxq_run q [Put [1, 2, 3], Put [4, 5], Take, Put [6]] = Some (q', out) \<and>
    subseq (out @ concat (rxq_live q')) [1, 2, 3, 4, 5, 6] \<and>
    length out + rxq_byteLength q' + rxq_totalDropped q' = 6"
proof -
  obtain q where q: "rxq_new (js_int 4) (js_int 2) = Some q"
    by (auto simp: rxq_new_def rxq_positiveInteger_def)
  show ?thesis
    using q rxq_run_in_order [OF q, of "[Put [1, 2, 3], Put [4, 5], Take, Put [6]]"] by auto
qed

end
