(* ===== verification/Machine.thy ===== *)
theory Machine
  imports Prelude
begin

text \<open>
  Step relations and their invariants.  A stateful component is modelled as an initial state and
  a relation \<open>step s event s'\<close>; \<open>reaches\<close> is the reachability of that relation, and
  the locale states once what every component must show of its invariant and what follows.
\<close>

section \<open>Runs\<close>

inductive reaches :: "('s \<Rightarrow> 'e \<Rightarrow> 's \<Rightarrow> bool) \<Rightarrow> 's \<Rightarrow> 's \<Rightarrow> bool" for step s where
  reaches_refl [intro]: "reaches step s s"
| reaches_step: "reaches step s t \<Longrightarrow> step t ev u \<Longrightarrow> reaches step s u"

lemma reaches_trans: "reaches step s t \<Longrightarrow> reaches step t u \<Longrightarrow> reaches step s u"
  by (rotate_tac, induction rule: reaches.induct) (auto intro: reaches_step)

lemma reaches_one: "step s ev t \<Longrightarrow> reaches step s t"
  by (rule reaches_step [OF reaches_refl])

text \<open>The event loop of a deterministic component: the events in order.\<close>

fun run_events :: "('e \<Rightarrow> 's \<Rightarrow> 's) \<Rightarrow> 'e list \<Rightarrow> 's \<Rightarrow> 's" where
  "run_events f [] s = s"
| "run_events f (e # es) s = run_events f es (f e s)"

lemma run_events_append: "run_events f (es @ es') s = run_events f es' (run_events f es s)"
  by (induction es arbitrary: s) simp_all

lemma run_events_reaches:
  "(\<And>s e. step s e (f e s)) \<Longrightarrow> reaches step s (run_events f es s)"
  by (induction es arbitrary: s) (auto intro: reaches_trans [OF reaches_one])

definition runs_by :: "('e \<Rightarrow> 's \<Rightarrow> 's) \<Rightarrow> 's \<Rightarrow> 'e \<Rightarrow> 's \<Rightarrow> bool" where
  "runs_by f s e s' \<longleftrightarrow> s' = f e s"

lemma reaches_runs_by: "reaches (runs_by f) s (run_events f es s)"
  by (rule run_events_reaches) (simp add: runs_by_def)

section \<open>Invariants\<close>

locale invariant_machine =
  fixes step :: "'s \<Rightarrow> 'e \<Rightarrow> 's \<Rightarrow> bool" and start :: "'s \<Rightarrow> bool" and inv :: "'s \<Rightarrow> bool"
  assumes inv_start: "start s \<Longrightarrow> inv s"
    and inv_step: "inv s \<Longrightarrow> step s ev s' \<Longrightarrow> inv s'"
begin

lemma inv_kept: "reaches step s t \<Longrightarrow> inv s \<Longrightarrow> inv t"
  by (induction rule: reaches.induct) (auto intro: inv_step)

lemma reachable_inv: "start s \<Longrightarrow> reaches step s t \<Longrightarrow> inv t"
  by (metis inv_kept inv_start)

end

text \<open>A measurable quantity that no step decreases: it only grows along a run.\<close>

locale monotone_machine =
  fixes step :: "'s \<Rightarrow> 'e \<Rightarrow> 's \<Rightarrow> bool" and le :: "'s \<Rightarrow> 's \<Rightarrow> bool"
  assumes le_refl: "le s s"
    and le_trans: "le s t \<Longrightarrow> le t u \<Longrightarrow> le s u"
    and le_step: "step s ev s' \<Longrightarrow> le s s'"
begin

lemma le_run: "reaches step s t \<Longrightarrow> le s t"
  by (induction rule: reaches.induct) (auto intro: le_refl le_trans le_step)

end

end
