(* ===== verification/RxPipeline.thy ===== *)
theory RxPipeline
  imports SerialRxQueue Machine
begin

text \<open>
  The receive path of a serial connection: the inactivity framer and the UI publisher of
  \<open>src/lib/serial-rx-scheduler.ts\<close>, the frame gap of \<open>src/lib/serial-framing.ts\<close>, and
  \<open>createRxPipeline\<close> of \<open>src/features/serial/application/rx-pipeline.ts\<close>, which composes
  them with the bounded queue of theory \<open>SerialRxQueue\<close>.

  A scheduler object hands callbacks to the host, as timers or microtasks; a callback is what its
  closure captured, the generation and for a timer its handle.  The host may run the callbacks it
  holds in any order and at any time, and cancelling a timer is not relied on: a cancelled callback
  may still run, and the generation is what makes it harmless.  The collaborators of the pipeline
  (the sink, the transaction mirror, the observers) are recorded as the calls made to them; the
  sink's answer to a frame is a parameter.  They are taken not to call back into the pipeline.
\<close>

section \<open>Frame gap\<close>

definition normalizeRxFrameGapMs :: "jsnum option \<Rightarrow> int" where
  "normalizeRxFrameGapMs v =
     (case v of None \<Rightarrow> 5
      | Some n \<Rightarrow> (case js_rat n of None \<Rightarrow> 5 | Some r \<Rightarrow> max 1 (min 1000 \<lfloor>r\<rfloor>)))"

section \<open>The drain scheduler\<close>

datatype drain_callback = DrainTimer nat nat | DrainMicrotask nat

fun dc_generation :: "drain_callback \<Rightarrow> nat" where
  "dc_generation (DrainTimer h g) = g"
| "dc_generation (DrainMicrotask g) = g"

text \<open>\<open>ds_callbacks\<close> are the callbacks the host holds; \<open>ds_handles\<close> numbers the timers.\<close>

record drain_scheduler =
  ds_gap :: int
  ds_timer :: "nat option"
  ds_immediate :: bool
  ds_generation :: nat
  ds_callbacks :: "drain_callback list"
  ds_handles :: nat

definition new_drain_scheduler :: "jsnum option \<Rightarrow> drain_scheduler" where
  "new_drain_scheduler inactivityGapMs = \<lparr>ds_gap = normalizeRxFrameGapMs inactivityGapMs, ds_timer = None, ds_immediate = False,
     ds_generation = 0, ds_callbacks = [], ds_handles = 0\<rparr>"

text \<open>What is pending: bytes and chunks.\<close>

type_synonym rx_pending = "nat \<times> nat"

definition nothing_pending :: "rx_pending \<Rightarrow> bool" where
  "nothing_pending p \<longleftrightarrow> fst p \<le> 0 \<or> snd p \<le> 0"

definition ds_dropTimer :: "drain_scheduler \<Rightarrow> drain_scheduler" where
  "ds_dropTimer d = (if ds_timer d \<noteq> None then d\<lparr>ds_timer := None, ds_generation := ds_generation d + 1\<rparr> else d)"

definition ds_notify :: "rx_pending \<Rightarrow> drain_scheduler \<Rightarrow> drain_scheduler" where
  "ds_notify p d =
     (if nothing_pending p then d
      else if fst p \<ge> 64 * 1024 \<or> snd p \<ge> 64 then
        let d1 = ds_dropTimer d in
        if ds_immediate d1 then d1
        else d1\<lparr>ds_immediate := True, ds_callbacks := ds_callbacks d1 @ [DrainMicrotask (ds_generation d1)]\<rparr>
      else if ds_immediate d then d
      else
        let d1 = ds_dropTimer d in
        d1\<lparr>ds_timer := Some (ds_handles d1), ds_handles := ds_handles d1 + 1,
           ds_callbacks := ds_callbacks d1 @ [DrainTimer (ds_handles d1) (ds_generation d1)]\<rparr>)"

definition ds_invalidate :: "drain_scheduler \<Rightarrow> drain_scheduler" where
  "ds_invalidate d = d\<lparr>ds_generation := ds_generation d + 1, ds_immediate := False, ds_timer := None\<rparr>"

text \<open>\<open>getPending\<close> and \<open>drain\<close> are the constructor's arguments, functions of the host's
  state.\<close>

definition ds_drainPending :: "('q \<Rightarrow> rx_pending) \<Rightarrow> ('q \<Rightarrow> 'q) \<Rightarrow> 'q \<times> drain_scheduler \<Rightarrow> 'q \<times> drain_scheduler" where
  "ds_drainPending getPending drain s =
     (let (q, d) = s in
      if nothing_pending (getPending q) then (q, d)
      else let q' = drain q in (q', ds_notify (getPending q') d))"

definition ds_flushNow :: "('q \<Rightarrow> rx_pending) \<Rightarrow> ('q \<Rightarrow> 'q) \<Rightarrow> 'q \<times> drain_scheduler \<Rightarrow> 'q \<times> drain_scheduler" where
  "ds_flushNow getPending drain s = ds_drainPending getPending drain (fst s, ds_invalidate (snd s))"

definition ds_run :: "('q \<Rightarrow> rx_pending) \<Rightarrow> ('q \<Rightarrow> 'q) \<Rightarrow> drain_callback \<Rightarrow> 'q \<times> drain_scheduler \<Rightarrow> 'q \<times> drain_scheduler" where
  "ds_run getPending drain cb s =
     (let (q, d) = s in
      if cb \<notin> set (ds_callbacks d) then s
      else
        let d1 = d\<lparr>ds_callbacks := remove1 cb (ds_callbacks d)\<rparr> in
        if dc_generation cb \<noteq> ds_generation d1 then (q, d1)
        else (case cb of
            DrainMicrotask _ \<Rightarrow> ds_drainPending getPending drain (q, d1\<lparr>ds_immediate := False\<rparr>)
          | DrainTimer _ _ \<Rightarrow> ds_drainPending getPending drain (q, d1\<lparr>ds_timer := None\<rparr>)))"

section \<open>The UI publisher\<close>

record ui_publisher =
  up_timer :: "nat option"
  up_dirty :: bool
  up_generation :: nat
  up_callbacks :: "(nat \<times> nat \<times> int) list"
  up_handles :: nat

definition new_ui_publisher :: ui_publisher where
  "new_ui_publisher = \<lparr>up_timer = None, up_dirty = False, up_generation = 0, up_callbacks = [], up_handles = 0\<rparr>"

text \<open>A callback is its handle, generation and delay.\<close>

definition up_schedule :: "bool \<Rightarrow> ui_publisher \<Rightarrow> ui_publisher" where
  "up_schedule visible u =
     (if \<not> up_dirty u \<or> up_timer u \<noteq> None then u
      else
        let delay = (if visible then 17 else 250) in
        u\<lparr>up_timer := Some (up_handles u), up_handles := up_handles u + 1,
          up_callbacks := up_callbacks u @ [(up_handles u, up_generation u, delay)]\<rparr>)"

definition up_cancelTimer :: "ui_publisher \<Rightarrow> ui_publisher" where
  "up_cancelTimer u = u\<lparr>up_generation := up_generation u + 1, up_timer := None\<rparr>"

definition up_markDirty :: "bool \<Rightarrow> ui_publisher \<Rightarrow> ui_publisher" where
  "up_markDirty visible u = up_schedule visible (u\<lparr>up_dirty := True\<rparr>)"

definition up_visibilityChanged :: "bool \<Rightarrow> ui_publisher \<Rightarrow> ui_publisher" where
  "up_visibilityChanged visible u = (if \<not> up_dirty u then u else up_schedule visible (up_cancelTimer u))"

text \<open>The result tells whether \<open>publish\<close> is called.\<close>

definition up_flushNow :: "ui_publisher \<Rightarrow> bool \<times> ui_publisher" where
  "up_flushNow u =
     (let u1 = up_cancelTimer u in
      if \<not> up_dirty u1 then (False, u1) else (True, u1\<lparr>up_dirty := False\<rparr>))"

definition up_cancel :: "ui_publisher \<Rightarrow> ui_publisher" where
  "up_cancel u = (up_cancelTimer u)\<lparr>up_dirty := False\<rparr>"

definition up_run :: "nat \<times> nat \<times> int \<Rightarrow> ui_publisher \<Rightarrow> bool \<times> ui_publisher" where
  "up_run cb u =
     (if cb \<notin> set (up_callbacks u) then (False, u)
      else
        let u1 = u\<lparr>up_callbacks := remove1 cb (up_callbacks u)\<rparr> in
        if fst (snd cb) \<noteq> up_generation u1 then (False, u1)
        else (True, u1\<lparr>up_timer := None, up_dirty := False\<rparr>))"

section \<open>The pipeline\<close>

text \<open>\<open>set\<close> writes a chunk into the merged array and throws beyond its end; an undefined
  chunk throws too.\<close>

fun merge_chunks :: "bytes \<Rightarrow> nat \<Rightarrow> bytes option list \<Rightarrow> bytes option" where
  "merge_chunks merged pos [] = Some merged"
| "merge_chunks merged pos (None # cs) = None"
| "merge_chunks merged pos (Some c # cs) =
     (if pos + length c > length merged then None
      else merge_chunks (take pos merged @ c @ drop (pos + length c) merged) (pos + length c) cs)"

definition concatUint8Arrays :: "bytes option list \<Rightarrow> nat \<Rightarrow> bytes option" where
  "concatUint8Arrays chunks totalLength =
     (case chunks of [] \<Rightarrow> Some [] | [c] \<Rightarrow> c | _ \<Rightarrow> merge_chunks (replicate totalLength 0) 0 chunks)"

text \<open>The parameter \<open>'cb\<close> is the type of raw byte observers, \<open>'f\<close> that of terminal
  frames.  \<open>rp_error\<close> and \<open>rp_totalDropped\<close> are the shared refs of the connection; the
  last group of fields are the calls made so far; a publication is recorded with the dropped bytes it reports and the number of
  frames that had been logged.\<close>

record ('cb, 'f) rx_pipeline =
  rp_queue :: rx_queue
  rp_overflowErrorMessage :: "string option"
  rp_ui :: ui_publisher
  rp_drain :: drain_scheduler
  rp_retired :: "drain_scheduler list"
  rp_observers :: "'cb list"
  rp_visible :: bool
  rp_error :: "string option"
  rp_totalDropped :: nat
  rp_mirrored :: "(nat \<times> bytes) list"
  rp_observed :: "('cb \<times> bytes) list"
  rp_overflows :: "nat list"
  rp_frames :: "bytes list"
  rp_logged :: "'f list"
  rp_published :: "(nat \<times> nat) list"

text \<open>The sink's answer to \<open>addFrame\<close>, from the frames it was given before.\<close>

type_synonym 'f frame_sink = "bytes list \<Rightarrow> bytes \<Rightarrow> 'f option"

definition new_rx_pipeline :: "bool \<Rightarrow> ('cb, 'f) rx_pipeline option" where
  "new_rx_pipeline visible =
     map_option (\<lambda>q. \<lparr>rp_queue = q, rp_overflowErrorMessage = None, rp_ui = new_ui_publisher,
        rp_drain = new_drain_scheduler (Some (js_int (normalizeRxFrameGapMs (Some (js_int 0))))), rp_retired = [],
        rp_observers = [], rp_visible = visible, rp_error = None, rp_totalDropped = 0, rp_mirrored = [], rp_observed = [],
        rp_overflows = [], rp_frames = [], rp_logged = [], rp_published = []\<rparr>)
       (rxq_new (js_int (1024 * 1024 * 2)) (js_int 512))"

definition rp_getPending :: "('cb, 'f) rx_pipeline \<Rightarrow> rx_pending" where
  "rp_getPending p = (rxq_byteLength (rp_queue p), rxq_liveCount (rp_queue p))"

definition rp_publish :: "bool \<times> ui_publisher \<Rightarrow> ('cb, 'f) rx_pipeline \<Rightarrow> ('cb, 'f) rx_pipeline" where
  "rp_publish r p = (if fst r then p\<lparr>rp_ui := snd r, rp_published := rp_published p @ [(rp_totalDropped p, length (rp_logged p))]\<rparr> else p\<lparr>rp_ui := snd r\<rparr>)"

definition flushQueue :: "'f frame_sink \<Rightarrow> ('cb, 'f) rx_pipeline \<Rightarrow> ('cb, 'f) rx_pipeline" where
  "flushQueue sink p =
     (if rxq_liveCount (rp_queue p) = 0 then p
      else
        let (q, r) = rxq_drain (rp_queue p); p1 = p\<lparr>rp_queue := q\<rparr> in
        (case concatUint8Arrays (dr_chunks r) (dr_byteLength r) of
           None \<Rightarrow> p1
         | Some data \<Rightarrow>
             let p2 = p1\<lparr>rp_frames := rp_frames p1 @ [data]\<rparr> in
             (case sink (rp_frames p1) data of
                None \<Rightarrow> p2
              | Some frame \<Rightarrow> p2\<lparr>rp_logged := rp_logged p2 @ [frame], rp_ui := up_markDirty (rp_visible p2) (rp_ui p2)\<rparr>)))"

definition on_drain :: "(('cb, 'f) rx_pipeline \<times> drain_scheduler \<Rightarrow> ('cb, 'f) rx_pipeline \<times> drain_scheduler) \<Rightarrow>
    ('cb, 'f) rx_pipeline \<Rightarrow> ('cb, 'f) rx_pipeline" where
  "on_drain f p = (let (p1, d) = f (p, rp_drain p) in p1\<lparr>rp_drain := d\<rparr>)"

definition resetRxDrain :: "jsnum option \<Rightarrow> ('cb, 'f) rx_pipeline \<Rightarrow> ('cb, 'f) rx_pipeline" where
  "resetRxDrain rxFrameGapMs p =
     p\<lparr>rp_retired := rp_retired p @ [ds_invalidate (rp_drain p)],
       rp_drain := new_drain_scheduler (Some (js_int (normalizeRxFrameGapMs rxFrameGapMs)))\<rparr>"

definition cancelRxDrain :: "('cb, 'f) rx_pipeline \<Rightarrow> ('cb, 'f) rx_pipeline" where
  "cancelRxDrain p = p\<lparr>rp_drain := ds_invalidate (rp_drain p)\<rparr>"

definition cancelUiPublisher :: "('cb, 'f) rx_pipeline \<Rightarrow> ('cb, 'f) rx_pipeline" where
  "cancelUiPublisher p = p\<lparr>rp_ui := up_cancel (rp_ui p)\<rparr>"

definition resetQueue :: "('cb, 'f) rx_pipeline \<Rightarrow> ('cb, 'f) rx_pipeline" where
  "resetQueue p = p\<lparr>rp_queue := rxq_reset (rp_queue p), rp_overflowErrorMessage := None\<rparr>"

definition clearPendingQueue :: "('cb, 'f) rx_pipeline \<Rightarrow> ('cb, 'f) rx_pipeline" where
  "clearPendingQueue p = p\<lparr>rp_queue := rxq_clearPending (rp_queue p)\<rparr>"

definition enqueueReceivedBytes :: "bytes \<Rightarrow> nat \<Rightarrow> ('cb, 'f) rx_pipeline \<Rightarrow> ('cb, 'f) rx_pipeline" where
  "enqueueReceivedBytes bs generation p =
     (if length bs = 0 then p
      else
        let p1 = p\<lparr>rp_mirrored := rp_mirrored p @ [(generation, bs)],
                   rp_observed := rp_observed p @ map (\<lambda>cb. (cb, bs)) (rp_observers p)\<rparr> in
        (case rxq_enqueue bs (rp_queue p1) of
           None \<Rightarrow> p1
         | Some (q, result) \<Rightarrow>
             let p2 = p1\<lparr>rp_queue := q, rp_totalDropped := er_totalDroppedBytes result,
                          rp_overflows := rp_overflows p1 @ (if er_overflowStarted result then [er_totalDroppedBytes result] else [])\<rparr>;
                 p3 = (if er_droppedSinceDrain result > 0 then
                         p2\<lparr>rp_overflowErrorMessage := Some ''SERIAL_RX_OVERFLOW'', rp_error := Some ''SERIAL_RX_OVERFLOW''\<rparr>
                       else if rp_overflowErrorMessage p2 \<noteq> None \<and> rp_error p2 = rp_overflowErrorMessage p2 then
                         p2\<lparr>rp_error := None, rp_overflowErrorMessage := None\<rparr>
                       else p2)
             in p3\<lparr>rp_drain := ds_notify (rp_getPending p3) (rp_drain p3)\<rparr>))"

definition flushRxAndPublish :: "'f frame_sink \<Rightarrow> ('cb, 'f) rx_pipeline \<Rightarrow> ('cb, 'f) rx_pipeline" where
  "flushRxAndPublish sink p =
     (let p1 = on_drain (ds_flushNow rp_getPending (flushQueue sink)) p in rp_publish (up_flushNow (rp_ui p1)) p1)"

text \<open>A \<open>Set\<close> of observers keeps insertion order.\<close>

definition rawBytes :: "'cb \<Rightarrow> ('cb, 'f) rx_pipeline \<Rightarrow> ('cb, 'f) rx_pipeline" where
  "rawBytes cb p = (if cb \<in> set (rp_observers p) then p else p\<lparr>rp_observers := rp_observers p @ [cb]\<rparr>)"

definition rawBytes_off :: "'cb \<Rightarrow> ('cb, 'f) rx_pipeline \<Rightarrow> ('cb, 'f) rx_pipeline" where
  "rawBytes_off cb p = p\<lparr>rp_observers := removeAll cb (rp_observers p)\<rparr>"

definition visibilityChanged :: "('cb, 'f) rx_pipeline \<Rightarrow> ('cb, 'f) rx_pipeline" where
  "visibilityChanged p = p\<lparr>rp_ui := up_visibilityChanged (rp_visible p) (rp_ui p)\<rparr>"

definition clearOverflowTracking :: "('cb, 'f) rx_pipeline \<Rightarrow> ('cb, 'f) rx_pipeline" where
  "clearOverflowTracking p = p\<lparr>rp_overflowErrorMessage := None\<rparr>"

definition clearRawByteObservers :: "('cb, 'f) rx_pipeline \<Rightarrow> ('cb, 'f) rx_pipeline" where
  "clearRawByteObservers p = p\<lparr>rp_observers := []\<rparr>"

definition cancelPublishers :: "('cb, 'f) rx_pipeline \<Rightarrow> ('cb, 'f) rx_pipeline" where
  "cancelPublishers p = p\<lparr>rp_drain := ds_invalidate (rp_drain p), rp_ui := up_cancel (rp_ui p)\<rparr>"

text \<open>The events: native bytes with their connection generation, the host running a callback of
  the current drain, of a retired one or of the publisher, the document's visibility, and the calls.\<close>

datatype 'cb rx_event =
    Received bytes nat
  | RunDrain drain_callback
  | RunRetired nat drain_callback
  | RunUi "nat \<times> nat \<times> int"
  | Visibility bool
  | VisibilityChanged
  | FlushAndPublish
  | ResetDrain "jsnum option"
  | CancelDrain
  | CancelUi
  | CancelPublishers
  | ResetQueue
  | ClearPending
  | Observe 'cb
  | Unobserve 'cb
  | ClearObservers
  | ClearOverflow
  | ClearDropped

fun rx_step :: "'f frame_sink \<Rightarrow> 'cb rx_event \<Rightarrow> ('cb, 'f) rx_pipeline \<Rightarrow> ('cb, 'f) rx_pipeline" where
  "rx_step sink (Received bs g) p = enqueueReceivedBytes bs g p"
| "rx_step sink (RunDrain cb) p = on_drain (ds_run rp_getPending (flushQueue sink) cb) p"
| "rx_step sink (RunRetired k cb) p =
     (if k < length (rp_retired p)
      then let (p1, d) = ds_run rp_getPending (flushQueue sink) cb (p, rp_retired p ! k) in p1\<lparr>rp_retired := (rp_retired p1)[k := d]\<rparr>
      else p)"
| "rx_step sink (RunUi cb) p = rp_publish (up_run cb (rp_ui p)) p"
| "rx_step sink (Visibility v) p = p\<lparr>rp_visible := v\<rparr>"
| "rx_step sink VisibilityChanged p = visibilityChanged p"
| "rx_step sink FlushAndPublish p = flushRxAndPublish sink p"
| "rx_step sink (ResetDrain gap) p = resetRxDrain gap p"
| "rx_step sink CancelDrain p = cancelRxDrain p"
| "rx_step sink CancelUi p = cancelUiPublisher p"
| "rx_step sink CancelPublishers p = cancelPublishers p"
| "rx_step sink ResetQueue p = resetQueue p"
| "rx_step sink ClearPending p = clearPendingQueue p"
| "rx_step sink (Observe cb) p = rawBytes cb p"
| "rx_step sink (Unobserve cb) p = rawBytes_off cb p"
| "rx_step sink ClearObservers p = clearRawByteObservers p"
| "rx_step sink ClearOverflow p = clearOverflowTracking p"
| "rx_step sink ClearDropped p = p\<lparr>rp_totalDropped := 0\<rparr>"

text \<open>What the connection life cycle does to the pipeline before it opens a port: it replaces the drain, flushes, cancels what is
  scheduled, resets the queue and the count of dropped bytes.\<close>

definition connect_events :: "jsnum option \<Rightarrow> 'cb rx_event list" where
  "connect_events rxFrameGapMs = [ResetDrain rxFrameGapMs, FlushAndPublish, CancelDrain, CancelUi, ResetQueue, ClearDropped]"

section \<open>The drain scheduler keeps one callback for its client\<close>

definition ds_armed :: "drain_scheduler \<Rightarrow> bool" where
  "ds_armed d \<longleftrightarrow> ds_timer d \<noteq> None \<or> ds_immediate d"

definition ds_live :: "drain_scheduler \<Rightarrow> drain_callback list" where
  "ds_live d = filter (\<lambda>cb. dc_generation cb = ds_generation d) (ds_callbacks d)"

text \<open>Of the callbacks the host holds, the ones of the current generation are exactly the one the
  scheduler believes in; no callback is from a later generation.\<close>

definition ds_ok :: "drain_scheduler \<Rightarrow> bool" where
  "ds_ok d \<longleftrightarrow>
     ds_live d = (case ds_timer d of Some h \<Rightarrow> [DrainTimer h (ds_generation d)]
       | None \<Rightarrow> if ds_immediate d then [DrainMicrotask (ds_generation d)] else []) \<and>
     (ds_timer d \<noteq> None \<longrightarrow> \<not> ds_immediate d) \<and>
     (\<forall>cb \<in> set (ds_callbacks d). dc_generation cb \<le> ds_generation d)"

lemma ds_ok_new: "ds_ok (new_drain_scheduler gap) \<and> \<not> ds_armed (new_drain_scheduler gap)"
  by (simp add: new_drain_scheduler_def ds_ok_def ds_live_def ds_armed_def)

lemma live_bump: "\<forall>cb \<in> set (ds_callbacks d). dc_generation cb \<le> ds_generation d \<Longrightarrow>
    filter (\<lambda>cb. dc_generation cb = Suc (ds_generation d)) (ds_callbacks d) = []"
  by (auto simp: filter_empty_conv)

lemma ds_ok_invalidate: "ds_ok d \<Longrightarrow> ds_ok (ds_invalidate d) \<and> \<not> ds_armed (ds_invalidate d)"
  using live_bump [of d] by (auto simp: ds_ok_def ds_live_def ds_armed_def ds_invalidate_def)

lemma ds_ok_dropTimer: "ds_ok d \<Longrightarrow> ds_ok (ds_dropTimer d) \<and> ds_timer (ds_dropTimer d) = None \<and> ds_immediate (ds_dropTimer d) = ds_immediate d"
  using live_bump [of d] by (auto simp: ds_ok_def ds_live_def ds_dropTimer_def)

lemma ds_ok_notify: "ds_ok d \<Longrightarrow> ds_ok (ds_notify p d)"
  using ds_ok_dropTimer [of d] by (auto simp: ds_notify_def Let_def ds_ok_def ds_live_def)

lemma armed_notify: "ds_ok d \<Longrightarrow> \<not> nothing_pending p \<or> ds_armed d \<Longrightarrow> ds_armed (ds_notify p d)"
  using ds_ok_dropTimer [of d] by (auto simp: ds_notify_def Let_def ds_armed_def)

lemma armed_live: "ds_ok d \<Longrightarrow> ds_armed d \<Longrightarrow> \<exists>cb \<in> set (ds_callbacks d). dc_generation cb = ds_generation d"
proof -
  assume "ds_ok d" "ds_armed d"
  then have "ds_live d \<noteq> []" by (auto simp: ds_ok_def ds_armed_def split: option.splits)
  then show ?thesis by (auto simp: ds_live_def filter_empty_conv)
qed

lemma live_armed: "ds_ok d \<Longrightarrow> cb \<in> set (ds_callbacks d) \<Longrightarrow> dc_generation cb = ds_generation d \<Longrightarrow> ds_live d = [cb]"
proof -
  assume d: "ds_ok d" "cb \<in> set (ds_callbacks d)" "dc_generation cb = ds_generation d"
  then have "cb \<in> set (ds_live d)" by (simp add: ds_live_def)
  then show ?thesis using d(1) by (auto simp: ds_ok_def split: option.splits if_splits)
qed

lemma remove_stale:
  assumes "ds_ok d" "dc_generation cb \<noteq> ds_generation d"
  shows "ds_ok (d\<lparr>ds_callbacks := remove1 cb (ds_callbacks d)\<rparr>) \<and> ds_armed (d\<lparr>ds_callbacks := remove1 cb (ds_callbacks d)\<rparr>) = ds_armed d"
proof -
  let ?d = "d\<lparr>ds_callbacks := remove1 cb (ds_callbacks d)\<rparr>"
  have l: "ds_live ?d = ds_live d" using assms(2) by (simp add: ds_live_def filter_remove1 remove1_idem)
  have "\<forall>cb \<in> set (remove1 cb (ds_callbacks d)). dc_generation cb \<le> ds_generation d"
    using assms(1) set_remove1_subset [of cb "ds_callbacks d"] by (auto simp: ds_ok_def)
  then show ?thesis using assms(1) unfolding ds_ok_def l by (cases "ds_timer d") (simp_all add: ds_armed_def)
qed

lemma remove_live:
  assumes "ds_ok d" "cb \<in> set (ds_callbacks d)" "dc_generation cb = ds_generation d"
  shows "ds_ok (d\<lparr>ds_callbacks := remove1 cb (ds_callbacks d), ds_timer := None, ds_immediate := False\<rparr>)"
proof -
  have "filter (\<lambda>cb. dc_generation cb = ds_generation d) (remove1 cb (ds_callbacks d)) = []"
    using live_armed [OF assms] by (simp add: filter_remove1 ds_live_def)
  moreover have "\<forall>cb \<in> set (remove1 cb (ds_callbacks d)). dc_generation cb \<le> ds_generation d"
    using assms(1) set_remove1_subset [of cb "ds_callbacks d"] by (auto simp: ds_ok_def)
  ultimately show ?thesis by (simp add: ds_ok_def ds_live_def)
qed

lemma ds_ok_timer: "ds_ok d \<Longrightarrow> ds_live d = [DrainTimer h g] \<Longrightarrow> \<not> ds_immediate d"
  by (cases "ds_timer d"; cases "ds_immediate d") (simp_all add: ds_ok_def)

lemma ds_ok_microtask: "ds_ok d \<Longrightarrow> ds_live d = [DrainMicrotask g] \<Longrightarrow> ds_timer d = None"
  by (cases "ds_timer d"; cases "ds_immediate d") (simp_all add: ds_ok_def)

lemma live_kind:
  "ds_ok d \<Longrightarrow> DrainTimer h (ds_generation d) \<in> set (ds_callbacks d) \<Longrightarrow> \<not> ds_immediate d"
  "ds_ok d \<Longrightarrow> DrainMicrotask (ds_generation d) \<in> set (ds_callbacks d) \<Longrightarrow> ds_timer d = None"
  by (rule ds_ok_timer, assumption, rule live_armed, assumption+, simp,
      rule ds_ok_microtask, assumption, rule live_armed, assumption+, simp)

lemma ds_run_live:
  assumes "ds_ok d" "cb \<in> set (ds_callbacks d)" "dc_generation cb = ds_generation d"
  shows "ds_run g f cb (q, d) =
    ds_drainPending g f (q, d\<lparr>ds_callbacks := remove1 cb (ds_callbacks d), ds_timer := None, ds_immediate := False\<rparr>)"
proof (cases cb)
  case (DrainTimer h k)
  then have "ds_immediate d = False" using live_kind(1) [OF assms(1), of h] assms by simp
  then have "d\<lparr>ds_callbacks := remove1 cb (ds_callbacks d), ds_timer := None\<rparr> =
      d\<lparr>ds_callbacks := remove1 cb (ds_callbacks d), ds_timer := None, ds_immediate := False\<rparr>"
    by (cases d) simp
  then show ?thesis using assms by (simp add: ds_run_def Let_def DrainTimer)
next
  case (DrainMicrotask k)
  then have "ds_timer d = None" using live_kind(2) [OF assms(1)] assms by simp
  then have "d\<lparr>ds_callbacks := remove1 cb (ds_callbacks d), ds_immediate := False\<rparr> =
      d\<lparr>ds_callbacks := remove1 cb (ds_callbacks d), ds_timer := None, ds_immediate := False\<rparr>"
    by (cases d) simp
  then show ?thesis using assms by (simp add: ds_run_def Let_def DrainMicrotask)
qed

lemma ds_run_stale:
  "cb \<in> set (ds_callbacks d) \<Longrightarrow> dc_generation cb \<noteq> ds_generation d \<Longrightarrow>
    ds_run g f cb (q, d) = (q, d\<lparr>ds_callbacks := remove1 cb (ds_callbacks d)\<rparr>)"
  by (simp add: ds_run_def)

lemma ds_run_unknown: "cb \<notin> set (ds_callbacks d) \<Longrightarrow> ds_run g f cb (q, d) = (q, d)"
  by (simp add: ds_run_def)

text \<open>What the scheduler relies on, and what it gives: the client's drain keeps the client's own
  contract, and then every operation of the scheduler keeps it and leaves pending work with a live
  callback, even when a drain leaves a tail.\<close>

locale drain_host =
  fixes getPending :: "'q \<Rightarrow> rx_pending" and drain :: "'q \<Rightarrow> 'q" and good :: "'q \<Rightarrow> bool"
  assumes drain_good: "good q \<Longrightarrow> good (drain q)"
begin

definition scheduled :: "'q \<times> drain_scheduler \<Rightarrow> bool" where
  "scheduled s \<longleftrightarrow> ds_ok (snd s) \<and> (\<not> nothing_pending (getPending (fst s)) \<longrightarrow> ds_armed (snd s))"

lemma drainPending_good: "good q \<Longrightarrow> good (fst (ds_drainPending getPending drain (q, d)))"
  by (simp add: ds_drainPending_def Let_def drain_good)

lemma drainPending_scheduled: "ds_ok d \<Longrightarrow> scheduled (ds_drainPending getPending drain (q, d))"
  using ds_ok_notify [of d] armed_notify [of d] by (simp add: ds_drainPending_def Let_def scheduled_def)

lemma run_good: "good q \<Longrightarrow> ds_ok d \<Longrightarrow> good (fst (ds_run getPending drain cb (q, d)))"
proof -
  assume q: "good q" and d: "ds_ok d"
  consider (unknown) "cb \<notin> set (ds_callbacks d)" | (stale) "cb \<in> set (ds_callbacks d)" "dc_generation cb \<noteq> ds_generation d"
    | (live) "cb \<in> set (ds_callbacks d)" "dc_generation cb = ds_generation d" by blast
  then show ?thesis
  proof cases
    case unknown
    then show ?thesis using q by (simp add: ds_run_unknown)
  next
    case stale
    then show ?thesis using q by (simp add: ds_run_stale)
  next
    case live
    then show ?thesis using drainPending_good [OF q] by (simp add: ds_run_live [OF d])
  qed
qed

lemma run_ok: "ds_ok d \<Longrightarrow> ds_ok (snd (ds_run getPending drain cb (q, d)))"
proof -
  assume d: "ds_ok d"
  consider (unknown) "cb \<notin> set (ds_callbacks d)" | (stale) "cb \<in> set (ds_callbacks d)" "dc_generation cb \<noteq> ds_generation d"
    | (live) "cb \<in> set (ds_callbacks d)" "dc_generation cb = ds_generation d" by blast
  then show ?thesis
  proof cases
    case unknown
    then show ?thesis using d by (simp add: ds_run_unknown)
  next
    case stale
    then show ?thesis using remove_stale [OF d] by (simp add: ds_run_stale)
  next
    case live
    then show ?thesis using drainPending_scheduled [OF remove_live [OF d live]] by (simp add: ds_run_live [OF d live] scheduled_def)
  qed
qed

lemma run_scheduled: "scheduled (q, d) \<Longrightarrow> scheduled (ds_run getPending drain cb (q, d))"
proof -
  assume s: "scheduled (q, d)"
  then have d: "ds_ok d" by (simp add: scheduled_def)
  consider (unknown) "cb \<notin> set (ds_callbacks d)" | (stale) "cb \<in> set (ds_callbacks d)" "dc_generation cb \<noteq> ds_generation d"
    | (live) "cb \<in> set (ds_callbacks d)" "dc_generation cb = ds_generation d" by blast
  then show ?thesis
  proof cases
    case unknown
    then show ?thesis using s by (simp add: ds_run_unknown)
  next
    case stale
    then show ?thesis using remove_stale [OF d stale(2)] s by (simp add: ds_run_stale scheduled_def)
  next
    case live
    then show ?thesis using drainPending_scheduled [OF remove_live [OF d live]] by (simp add: ds_run_live [OF d live])
  qed
qed

lemma flush_good: "good q \<Longrightarrow> good (fst (ds_flushNow getPending drain (q, d)))"
  by (simp add: ds_flushNow_def drainPending_good)

lemma flush_scheduled: "ds_ok d \<Longrightarrow> scheduled (ds_flushNow getPending drain (q, d))"
  using drainPending_scheduled ds_ok_invalidate [of d] by (simp add: ds_flushNow_def)

text \<open>Running the live callback drains what is pending.\<close>

lemma live_drains:
  "scheduled (q, d) \<Longrightarrow> \<not> nothing_pending (getPending q) \<Longrightarrow>
    \<exists>cb \<in> set (ds_callbacks d). fst (ds_run getPending drain cb (q, d)) = drain q"
proof -
  assume s: "scheduled (q, d)" and p: "\<not> nothing_pending (getPending q)"
  then have d: "ds_ok d" and a: "ds_armed d" by (simp_all add: scheduled_def)
  obtain cb where cb: "cb \<in> set (ds_callbacks d)" "dc_generation cb = ds_generation d" using armed_live [OF d a] by blast
  have "fst (ds_run getPending drain cb (q, d)) = drain q"
    using p by (simp add: ds_run_live [OF d cb] ds_drainPending_def Let_def)
  then show ?thesis using cb(1) by blast
qed

text \<open>A scheduler that was cancelled never drains again, whatever callbacks the host still holds.\<close>

lemma cancelled_inert:
  "ds_ok d \<Longrightarrow> \<not> ds_armed d \<Longrightarrow> fst (ds_run getPending drain cb (q, d)) = q \<and>
    ds_ok (snd (ds_run getPending drain cb (q, d))) \<and> \<not> ds_armed (snd (ds_run getPending drain cb (q, d)))"
proof -
  assume d: "ds_ok d" and a: "\<not> ds_armed d"
  have s: "dc_generation cb \<noteq> ds_generation d" if "cb \<in> set (ds_callbacks d)"
    using live_armed [OF d that] d a by (auto simp: ds_ok_def ds_armed_def split: option.splits if_splits)
  show ?thesis
  proof (cases "cb \<in> set (ds_callbacks d)")
    case True
    then show ?thesis using s remove_stale [OF d, of cb] a by (simp add: ds_run_stale)
  next
    case False
    then show ?thesis using d a by (simp add: ds_run_unknown)
  qed
qed

end

section \<open>The publisher keeps one callback for what is dirty\<close>

definition up_ok :: "ui_publisher \<Rightarrow> bool" where
  "up_ok u \<longleftrightarrow>
     (case up_timer u of
        None \<Rightarrow> filter (\<lambda>cb. fst (snd cb) = up_generation u) (up_callbacks u) = []
      | Some h \<Rightarrow> \<exists>delay. filter (\<lambda>cb. fst (snd cb) = up_generation u) (up_callbacks u) = [(h, up_generation u, delay)]) \<and>
     (\<forall>cb \<in> set (up_callbacks u). fst (snd cb) \<le> up_generation u) \<and>
     (up_dirty u \<longleftrightarrow> up_timer u \<noteq> None)"

lemma up_bump: "\<forall>cb \<in> set (up_callbacks u). fst (snd cb) \<le> up_generation u \<Longrightarrow>
    filter (\<lambda>cb. fst (snd cb) = Suc (up_generation u)) (up_callbacks u) = []"
  by (auto simp: filter_empty_conv)

lemma up_ok_new: "up_ok new_ui_publisher"
  by (simp add: up_ok_def new_ui_publisher_def)

lemma up_ok_markDirty: "up_ok u \<Longrightarrow> up_ok (up_markDirty v u)"
  by (cases "up_timer u") (auto simp: up_ok_def up_markDirty_def up_schedule_def Let_def)

lemma up_ok_visibility: "up_ok u \<Longrightarrow> up_ok (up_visibilityChanged v u)"
  using up_bump [of u] by (auto simp: up_ok_def up_visibilityChanged_def up_cancelTimer_def up_schedule_def Let_def le_Suc_eq)

lemma up_ok_flush: "up_ok u \<Longrightarrow> up_ok (snd (up_flushNow u))"
  using up_bump [of u] by (auto simp: up_ok_def up_flushNow_def up_cancelTimer_def Let_def le_Suc_eq)

lemma up_ok_cancel: "up_ok u \<Longrightarrow> up_ok (up_cancel u)"
  using up_bump [of u] by (auto simp: up_ok_def up_cancel_def up_cancelTimer_def le_Suc_eq)

lemma up_live: "up_ok u \<Longrightarrow> cb \<in> set (up_callbacks u) \<Longrightarrow> fst (snd cb) = up_generation u \<Longrightarrow>
    up_timer u \<noteq> None \<and> filter (\<lambda>cb. fst (snd cb) = up_generation u) (up_callbacks u) = [cb]"
proof -
  assume u: "up_ok u" "cb \<in> set (up_callbacks u)" "fst (snd cb) = up_generation u"
  define F where "F = filter (\<lambda>cb. fst (snd cb) = up_generation u) (up_callbacks u)"
  have m: "cb \<in> set F" using u by (simp add: F_def)
  show ?thesis
  proof (cases "up_timer u")
    case None
    then have "F = []" using u(1) by (simp add: up_ok_def F_def)
    then show ?thesis using m by simp
  next
    case (Some h)
    then obtain delay where "F = [(h, up_generation u, delay)]" using u(1) by (auto simp: up_ok_def F_def)
    then show ?thesis using m Some by (simp add: F_def)
  qed
qed

lemma up_ok_run: "up_ok u \<Longrightarrow> up_ok (snd (up_run cb u))"
proof -
  assume u: "up_ok u"
  have sub: "\<forall>x \<in> set (remove1 cb (up_callbacks u)). fst (snd x) \<le> up_generation u"
    using u set_remove1_subset [of cb "up_callbacks u"] by (auto simp: up_ok_def)
  consider (unknown) "cb \<notin> set (up_callbacks u)" | (stale) "cb \<in> set (up_callbacks u)" "fst (snd cb) \<noteq> up_generation u"
    | (live) "cb \<in> set (up_callbacks u)" "fst (snd cb) = up_generation u" by blast
  then show ?thesis
  proof cases
    case unknown
    then show ?thesis using u by (simp add: up_run_def)
  next
    case stale
    then have "filter (\<lambda>cb. fst (snd cb) = up_generation u) (remove1 cb (up_callbacks u)) =
        filter (\<lambda>cb. fst (snd cb) = up_generation u) (up_callbacks u)"
      by (simp add: filter_remove1 remove1_idem)
    then show ?thesis using stale u sub by (cases "up_timer u") (simp_all add: up_run_def up_ok_def)
  next
    case live
    then have "filter (\<lambda>cb. fst (snd cb) = up_generation u) (remove1 cb (up_callbacks u)) = []"
      using up_live [OF u live] by (simp add: filter_remove1)
    then show ?thesis using live sub by (simp add: up_run_def up_ok_def)
  qed
qed

lemma up_dirty_publishes: "up_ok u \<Longrightarrow> up_dirty u \<Longrightarrow> \<exists>cb \<in> set (up_callbacks u). fst (up_run cb u)"
proof -
  assume u: "up_ok u" "up_dirty u"
  then obtain h delay where F: "filter (\<lambda>cb. fst (snd cb) = up_generation u) (up_callbacks u) = [(h, up_generation u, delay)]"
    by (auto simp: up_ok_def)
  have "(h, up_generation u, delay) \<in> set (filter (\<lambda>cb. fst (snd cb) = up_generation u) (up_callbacks u))"
    unfolding F by simp
  then have "(h, up_generation u, delay) \<in> set (up_callbacks u)" by simp
  then show ?thesis by (intro bexI [of _ "(h, up_generation u, delay)"]) (simp_all add: up_run_def Let_def)
qed

section \<open>The pipeline captures every byte in order\<close>

lemma merge_chunks_concat:
  "pos + total cs \<le> length merged \<Longrightarrow>
    merge_chunks merged pos (map Some cs) = Some (take pos merged @ concat cs @ drop (pos + total cs) merged)"
proof (induction cs arbitrary: merged pos)
  case (Cons c cs)
  let ?m = "take pos merged @ c @ drop (pos + length c) merged"
  have "pos + length c + total cs \<le> length ?m" using Cons.prems by simp
  from Cons.IH [OF this] show ?case using Cons.prems by (simp add: ac_simps)
qed simp

lemma concat_chunks: "concatUint8Arrays (map Some cs) (total cs) = Some (concat cs)"
proof (cases cs)
  case (Cons c ds)
  show ?thesis
  proof (cases ds)
    case Nil
    then show ?thesis using Cons by (simp add: concatUint8Arrays_def)
  next
    case (Cons d es)
    have "concatUint8Arrays (map Some cs) (total cs) = merge_chunks (replicate (total cs) 0) 0 (map Some cs)"
      using \<open>cs = c # ds\<close> Cons by (simp add: concatUint8Arrays_def)
    then show ?thesis using merge_chunks_concat [of 0 cs "replicate (total cs) 0"] by simp
  qed
qed (simp add: concatUint8Arrays_def)

definition rx_content :: "('cb, 'f) rx_pipeline \<Rightarrow> bytes" where
  "rx_content p = concat (rxq_live (rp_queue p))"

definition rx_stream :: "('cb, 'f) rx_pipeline \<Rightarrow> bytes" where
  "rx_stream p = concat (rp_frames p) @ rx_content p"

definition rx_good :: "('cb, 'f) rx_pipeline \<Rightarrow> bool" where
  "rx_good p \<longleftrightarrow> rxq_inv (rp_queue p) \<and> up_ok (rp_ui p)"

text \<open>What a drain leaves as it is.\<close>

definition rx_view :: "('cb, 'f) rx_pipeline \<Rightarrow> bytes \<times> nat \<times> (nat \<times> bytes) list \<times> drain_scheduler \<times> drain_scheduler list" where
  "rx_view p = (rx_stream p, rxq_totalDropped (rp_queue p), rp_mirrored p, rp_drain p, rp_retired p)"

lemma pending_content: "rxq_inv (rp_queue p) \<Longrightarrow> nothing_pending (rp_getPending p) \<longleftrightarrow> rx_content p = []"
  by (cases "rxq_live (rp_queue p)")
    (auto simp: nothing_pending_def rp_getPending_def rx_content_def rxq_inv_def rxq_wf_def rxq_liveCount_live)

lemma flush_spec:
  assumes "rxq_inv (rp_queue p)" "up_ok (rp_ui p)"
  shows "rxq_inv (rp_queue (flushQueue sink p)) \<and> up_ok (rp_ui (flushQueue sink p)) \<and>
    concat (rp_frames (flushQueue sink p)) = concat (rp_frames p) @ rx_content p \<and> rx_content (flushQueue sink p) = [] \<and>
    rxq_totalDropped (rp_queue (flushQueue sink p)) = rxq_totalDropped (rp_queue p) \<and>
    rp_mirrored (flushQueue sink p) = rp_mirrored p \<and> rp_drain (flushQueue sink p) = rp_drain p \<and> rp_retired (flushQueue sink p) = rp_retired p"
proof (cases "rxq_liveCount (rp_queue p) = 0")
  case True
  then have "rx_content p = []" by (simp add: rx_content_def rxq_liveCount_live)
  then show ?thesis using assms True by (simp add: flushQueue_def)
next
  case False
  obtain q r where qr: "rxq_drain (rp_queue p) = (q, r)" by (cases "rxq_drain (rp_queue p)")
  have d: "rxq_inv q" "rxq_live q = []" "rxq_totalDropped q = rxq_totalDropped (rp_queue p)"
    "concatUint8Arrays (dr_chunks r) (dr_byteLength r) = Some (rx_content p)"
    using rxq_drain_spec [OF assms(1)] concat_chunks [of "rxq_live (rp_queue p)"] by (simp_all add: qr rx_content_def)
  show ?thesis
    by (cases "sink (rp_frames p) (rx_content p)")
      (use False d assms up_ok_markDirty [OF assms(2)] in \<open>simp_all add: flushQueue_def qr Let_def rx_content_def\<close>)
qed

interpretation rx: drain_host rp_getPending "flushQueue sink" "\<lambda>p. rx_good p \<and> rx_view p = v" for sink v
  by unfold_locales (use flush_spec in \<open>auto simp: rx_good_def rx_view_def rx_stream_def\<close>)

definition rx_inv :: "('cb, 'f) rx_pipeline \<Rightarrow> bool" where
  "rx_inv p \<longleftrightarrow> rx_good p \<and> ds_ok (rp_drain p) \<and> (\<forall>d \<in> set (rp_retired p). ds_ok d \<and> \<not> ds_armed d)"

definition rx_scheduled :: "('cb, 'f) rx_pipeline \<Rightarrow> bool" where
  "rx_scheduled p \<longleftrightarrow> drain_host.scheduled rp_getPending (p, rp_drain p)"

lemma scheduled_iff: "drain_host.scheduled rp_getPending (p, d) \<longleftrightarrow> ds_ok d \<and> (\<not> nothing_pending (rp_getPending p) \<longrightarrow> ds_armed d)"
  by (simp add: rx.scheduled_def)

fun rx_input :: "'cb rx_event \<Rightarrow> bytes" where
  "rx_input (Received bs g) = bs"
| "rx_input _ = []"

definition discards :: "'cb rx_event \<Rightarrow> bool" where
  "discards e \<longleftrightarrow> e = ResetQueue \<or> e = ClearPending"

definition disarms :: "'cb rx_event \<Rightarrow> bool" where
  "disarms e \<longleftrightarrow> e = CancelDrain \<or> e = CancelPublishers \<or> (\<exists>gap. e = ResetDrain gap)"

text \<open>What one event does to the bytes.\<close>

definition advances :: "bytes \<Rightarrow> ('cb, 'f) rx_pipeline \<Rightarrow> ('cb, 'f) rx_pipeline \<Rightarrow> bool" where
  "advances bs p p' \<longleftrightarrow> subseq (rx_stream p') (rx_stream p @ bs) \<and> concat (map snd (rp_mirrored p')) = concat (map snd (rp_mirrored p)) @ bs"

definition conserves :: "bytes \<Rightarrow> ('cb, 'f) rx_pipeline \<Rightarrow> ('cb, 'f) rx_pipeline \<Rightarrow> bool" where
  "conserves bs p p' \<longleftrightarrow>
     length (rx_stream p') + rxq_totalDropped (rp_queue p') = length (rx_stream p) + rxq_totalDropped (rp_queue p) + length bs"

lemma same_view: "rx_stream p' = rx_stream p \<Longrightarrow> rp_mirrored p' = rp_mirrored p \<Longrightarrow>
    rxq_totalDropped (rp_queue p') = rxq_totalDropped (rp_queue p) \<Longrightarrow> advances [] p p' \<and> conserves [] p p'"
  by (simp add: advances_def conserves_def)

lemma on_drain_spec:
  assumes "rx_inv p"
    and "rx_good (fst (f (p, rp_drain p))) \<and> rx_view (fst (f (p, rp_drain p))) = rx_view p"
    and "ds_ok (snd (f (p, rp_drain p)))"
  shows "rx_inv (on_drain f p) \<and> advances [] p (on_drain f p) \<and> conserves [] p (on_drain f p)"
proof -
  obtain p1 d where f: "f (p, rp_drain p) = (p1, d)" by (cases "f (p, rp_drain p)")
  have v: "rx_stream p1 = rx_stream p" "rp_mirrored p1 = rp_mirrored p" "rp_retired p1 = rp_retired p"
    "rxq_totalDropped (rp_queue p1) = rxq_totalDropped (rp_queue p)"
    using assms(2) by (simp_all add: f rx_view_def)
  have "rx_inv (p1\<lparr>rp_drain := d\<rparr>)" using assms by (simp add: f rx_inv_def v rx_good_def)
  moreover have "rx_stream (p1\<lparr>rp_drain := d\<rparr>) = rx_stream p" using v(1) by (simp add: rx_stream_def rx_content_def)
  ultimately show ?thesis using same_view [of "p1\<lparr>rp_drain := d\<rparr>" p] v by (simp add: on_drain_def f)
qed

lemma run_spec:
  assumes "rx_inv p"
  shows "rx_inv (on_drain (ds_run rp_getPending (flushQueue sink) cb) p) \<and>
    advances [] p (on_drain (ds_run rp_getPending (flushQueue sink) cb) p) \<and>
    conserves [] p (on_drain (ds_run rp_getPending (flushQueue sink) cb) p)"
  by (rule on_drain_spec [OF assms])
    (use assms rx.run_good [of p "rx_view p" "rp_drain p" sink cb] rx.run_ok [of "rp_drain p" sink cb p] in \<open>simp_all add: rx_inv_def\<close>)

lemma flushNow_spec:
  assumes "rx_inv p"
  shows "rx_inv (on_drain (ds_flushNow rp_getPending (flushQueue sink)) p) \<and>
    advances [] p (on_drain (ds_flushNow rp_getPending (flushQueue sink)) p) \<and>
    conserves [] p (on_drain (ds_flushNow rp_getPending (flushQueue sink)) p)"
  by (rule on_drain_spec [OF assms])
    (use assms rx.flush_good [of p "rx_view p" sink "rp_drain p"] rx.flush_scheduled [of "rp_drain p" sink p]
      in \<open>simp_all add: rx_inv_def rx.scheduled_def\<close>)

lemma publish_spec:
  assumes "rx_inv p" "up_ok (snd r)"
  shows "rx_inv (rp_publish r p) \<and> advances [] p (rp_publish r p) \<and> conserves [] p (rp_publish r p)"
proof -
  have "rx_stream (rp_publish r p) = rx_stream p" "rp_mirrored (rp_publish r p) = rp_mirrored p" "rp_queue (rp_publish r p) = rp_queue p"
    "rp_ui (rp_publish r p) = snd r" "rp_drain (rp_publish r p) = rp_drain p" "rp_retired (rp_publish r p) = rp_retired p"
    by (simp_all add: rp_publish_def rx_stream_def rx_content_def)
  then show ?thesis using assms same_view [of "rp_publish r p" p] by (simp add: rx_inv_def rx_good_def)
qed

lemma received_spec:
  assumes "rx_inv p"
  shows "rx_inv (enqueueReceivedBytes bs g p) \<and> advances bs p (enqueueReceivedBytes bs g p) \<and> conserves bs p (enqueueReceivedBytes bs g p) \<and>
    (bs \<noteq> [] \<longrightarrow> rx_scheduled (enqueueReceivedBytes bs g p))"
proof (cases "bs = []")
  case True
  then show ?thesis using assms by (simp add: enqueueReceivedBytes_def advances_def conserves_def)
next
  case False
  have q: "rxq_inv (rp_queue p)" and u: "up_ok (rp_ui p)" and d: "ds_ok (rp_drain p)" using assms by (simp_all add: rx_inv_def rx_good_def)
  obtain q' where q': "rxq_put bs (rp_queue p) = Some q'" "rxq_inv q'" "suffix (concat (rxq_live q')) (concat (rxq_live (rp_queue p)) @ bs)"
    "rxq_totalDropped q' + total (rxq_live q') = rxq_totalDropped (rp_queue p) + total (rxq_live (rp_queue p)) + length bs"
    using rxq.put_ok [OF q, of bs] by auto
  then obtain r where r: "rxq_enqueue bs (rp_queue p) = Some (q', r)" by (auto simp: rxq_put_def)
  let ?p = "enqueueReceivedBytes bs g p"
  have e: "rp_queue ?p = q'" "rp_frames ?p = rp_frames p" "rp_mirrored ?p = rp_mirrored p @ [(g, bs)]" "rp_ui ?p = rp_ui p"
    "rp_drain ?p = ds_notify (rp_getPending ?p) (rp_drain p)" "rp_retired ?p = rp_retired p"
    using False by (simp_all add: enqueueReceivedBytes_def r Let_def rp_getPending_def)
  have ok: "ds_ok (rp_drain ?p)" unfolding e(5) by (rule ds_ok_notify [OF d])
  have "rx_scheduled ?p" unfolding rx_scheduled_def scheduled_iff using ok armed_notify [OF d, of "rp_getPending ?p"] by (auto simp: e(5))
  moreover have "rx_inv ?p" using assms ok q'(2) by (simp add: rx_inv_def rx_good_def e)
  moreover have "subseq (rx_stream ?p) (rx_stream p @ bs)"
    using q'(3) by (simp add: rx_stream_def rx_content_def e list_emb_append_mono suffix_imp_subseq)
  moreover have "length (rx_stream ?p) + rxq_totalDropped q' = length (rx_stream p) + rxq_totalDropped (rp_queue p) + length bs"
    using q'(4) by (simp add: rx_stream_def rx_content_def e)
  ultimately show ?thesis by (simp add: advances_def conserves_def e)
qed

lemma retired_spec:
  assumes "rx_inv p"
  shows "rx_inv (rx_step sink (RunRetired k cb) p) \<and> advances [] p (rx_step sink (RunRetired k cb) p) \<and>
    conserves [] p (rx_step sink (RunRetired k cb) p) \<and> rx_content (rx_step sink (RunRetired k cb) p) = rx_content p \<and>
    rp_drain (rx_step sink (RunRetired k cb) p) = rp_drain p"
proof (cases "k < length (rp_retired p)")
  case True
  have d: "ds_ok (rp_retired p ! k)" "\<not> ds_armed (rp_retired p ! k)" using assms True by (simp_all add: rx_inv_def)
  obtain p1 d1 where r: "ds_run rp_getPending (flushQueue sink) cb (p, rp_retired p ! k) = (p1, d1)"
    by (cases "ds_run rp_getPending (flushQueue sink) cb (p, rp_retired p ! k)")
  have i: "p1 = p" "ds_ok d1" "\<not> ds_armed d1" using rx.cancelled_inert [OF d, of sink cb p] by (simp_all add: r)
  have e: "rx_step sink (RunRetired k cb) p = p\<lparr>rp_retired := (rp_retired p)[k := d1]\<rparr>" using True by (simp add: r i(1))
  have s: "rx_stream (p\<lparr>rp_retired := (rp_retired p)[k := d1]\<rparr>) = rx_stream p" by (simp add: rx_stream_def rx_content_def)
  have "\<forall>d \<in> set ((rp_retired p)[k := d1]). ds_ok d \<and> \<not> ds_armed d"
    using assms i set_update_subset_insert [of "rp_retired p" k d1] by (auto simp: rx_inv_def)
  then show ?thesis unfolding e using assms same_view [OF s] by (simp add: rx_inv_def rx_good_def rx_content_def)
qed (use assms in \<open>simp add: advances_def conserves_def\<close>)

lemma clear_spec:
  assumes "rx_inv p" "rxq_inv q" "rxq_live q = []"
  shows "rx_inv (p\<lparr>rp_queue := q, rp_overflowErrorMessage := m\<rparr>) \<and> advances [] p (p\<lparr>rp_queue := q, rp_overflowErrorMessage := m\<rparr>)"
  using assms by (auto simp: rx_inv_def rx_good_def advances_def rx_stream_def rx_content_def intro!: prefix_imp_subseq)

text \<open>The remaining calls touch neither bytes nor counts.\<close>

lemma quiet_spec:
  assumes "rx_inv p" "rp_queue p' = rp_queue p" "rp_frames p' = rp_frames p" "rp_mirrored p' = rp_mirrored p"
    "up_ok (rp_ui p')" "ds_ok (rp_drain p')" "\<forall>d \<in> set (rp_retired p'). ds_ok d \<and> \<not> ds_armed d"
  shows "rx_inv p' \<and> advances [] p p' \<and> conserves [] p p'"
  using assms same_view [of p' p] by (simp add: rx_inv_def rx_good_def rx_stream_def rx_content_def)

lemma rx_step_spec:
  assumes "rx_inv p"
  shows "rx_inv (rx_step sink e p) \<and> advances (rx_input e) p (rx_step sink e p) \<and> (\<not> discards e \<longrightarrow> conserves (rx_input e) p (rx_step sink e p))"
proof -
  have u: "up_ok (rp_ui p)" and d: "ds_ok (rp_drain p)" and q: "rxq_inv (rp_queue p)" and r: "\<forall>d \<in> set (rp_retired p). ds_ok d \<and> \<not> ds_armed d"
    using assms by (simp_all add: rx_inv_def rx_good_def)
  note Q = quiet_spec [OF assms] and di = ds_ok_invalidate [OF d]
  show ?thesis
  proof (cases e)
    case (Received bs g)
    then show ?thesis using received_spec [OF assms, of bs g] by simp
  next
    case (RunDrain cb)
    then show ?thesis using run_spec [OF assms, of sink cb] by simp
  next
    case (RunRetired k cb)
    then show ?thesis using retired_spec [OF assms, of sink k cb] by simp
  next
    case (RunUi cb)
    then show ?thesis using publish_spec [OF assms up_ok_run [OF u, of cb]] by simp
  next
    case FlushAndPublish
    let ?p = "on_drain (ds_flushNow rp_getPending (flushQueue sink)) p"
    have 1: "rx_inv ?p" "advances [] p ?p" "conserves [] p ?p" using flushNow_spec [OF assms, of sink] by simp_all
    have "up_ok (snd (up_flushNow (rp_ui ?p)))" using 1(1) by (simp add: up_ok_flush rx_inv_def rx_good_def)
    from publish_spec [OF 1(1) this] have 2: "rx_inv (rx_step sink e p)" "advances [] ?p (rx_step sink e p)" "conserves [] ?p (rx_step sink e p)"
      by (simp_all add: FlushAndPublish flushRxAndPublish_def Let_def)
    then show ?thesis using 1 subseq_order.trans by (auto simp: FlushAndPublish advances_def conserves_def simp del: rx_step.simps)
  next
    case (ResetDrain gap)
    show ?thesis using Q [of "rx_step sink e p"] u r di ds_ok_new by (auto simp: ResetDrain resetRxDrain_def)
  next
    case ResetQueue
    then show ?thesis using clear_spec [OF assms rxq_clear_spec(3,4) [OF q]] by (simp add: resetQueue_def discards_def)
  next
    case ClearPending
    then show ?thesis using clear_spec [OF assms rxq_clear_spec(1,2) [OF q], of "rp_overflowErrorMessage p"]
      by (simp add: clearPendingQueue_def discards_def)
  qed (use Q [of "rx_step sink e p"] u d r di up_ok_cancel [OF u] up_ok_visibility [OF u] in
    \<open>auto simp: visibilityChanged_def cancelRxDrain_def cancelUiPublisher_def cancelPublishers_def rawBytes_def rawBytes_off_def
      clearRawByteObservers_def clearOverflowTracking_def\<close>)
qed

lemma scheduled_quiet:
  "rx_scheduled p \<Longrightarrow> rp_queue p' = rp_queue p \<Longrightarrow> rp_drain p' = rp_drain p \<Longrightarrow> rx_scheduled p'"
  by (simp add: rx_scheduled_def scheduled_iff rp_getPending_def)

lemma scheduled_empty: "rx_inv p \<Longrightarrow> rx_content p = [] \<Longrightarrow> rx_scheduled p"
  using pending_content [of p] by (simp add: rx_scheduled_def scheduled_iff rx_inv_def rx_good_def)

lemma on_drain_scheduled: "drain_host.scheduled rp_getPending (f (p, rp_drain p)) \<Longrightarrow> rx_scheduled (on_drain f p)"
  by (cases "f (p, rp_drain p)") (simp add: on_drain_def rx_scheduled_def scheduled_iff rp_getPending_def)

text \<open>Events after which queued bytes have a live callback, whatever was cancelled before.\<close>

fun refreshes :: "'cb rx_event \<Rightarrow> bool" where
  "refreshes (Received bs g) = (bs \<noteq> [])"
| "refreshes e = (e = FlushAndPublish \<or> e = ResetQueue \<or> e = ClearPending)"

lemma refresh_scheduled:
  assumes "rx_inv p" "refreshes e"
  shows "rx_scheduled (rx_step sink e p)"
proof (cases e)
  case (Received bs g)
  then show ?thesis using received_spec [OF assms(1), of bs g] assms(2) by simp
next
  case FlushAndPublish
  let ?p = "on_drain (ds_flushNow rp_getPending (flushQueue sink)) p"
  have "rx_scheduled ?p" by (rule on_drain_scheduled, rule rx.flush_scheduled) (use assms(1) in \<open>simp add: rx_inv_def\<close>)
  then show ?thesis by (rule scheduled_quiet) (simp_all add: FlushAndPublish flushRxAndPublish_def Let_def rp_publish_def)
next
  case ResetQueue
  have "rx_inv (rx_step sink e p)" using rx_step_spec [OF assms(1), of sink e] by blast
  then show ?thesis by (rule scheduled_empty)
    (use rxq_clear_spec(4) [of "rp_queue p"] assms(1) in \<open>simp add: ResetQueue resetQueue_def rx_content_def rx_inv_def rx_good_def\<close>)
next
  case ClearPending
  have "rx_inv (rx_step sink e p)" using rx_step_spec [OF assms(1), of sink e] by blast
  then show ?thesis by (rule scheduled_empty)
    (use rxq_clear_spec(2) [of "rp_queue p"] assms(1) in \<open>simp add: ClearPending clearPendingQueue_def rx_content_def rx_inv_def rx_good_def\<close>)
qed (use assms(2) in simp_all)

lemma rx_step_scheduled:
  assumes "rx_inv p" "rx_scheduled p" "\<not> disarms e"
  shows "rx_scheduled (rx_step sink e p)"
proof (cases e)
  case (Received bs g)
  then show ?thesis using received_spec [OF assms(1), of bs g] assms(2) by (cases "bs = []") (simp_all add: enqueueReceivedBytes_def)
next
  case (RunDrain cb)
  show ?thesis unfolding RunDrain rx_step.simps
    by (rule on_drain_scheduled, rule rx.run_scheduled) (use assms(2) in \<open>simp add: rx_scheduled_def\<close>)
next
  case (RunRetired k cb)
  have i: "rx_inv (rx_step sink e p)" using rx_step_spec [OF assms(1), of sink e] by blast
  have c: "rx_content (rx_step sink e p) = rx_content p" "rp_drain (rx_step sink e p) = rp_drain p"
    using retired_spec [OF assms(1), of sink k cb] by (simp_all add: RunRetired)
  have "nothing_pending (rp_getPending (rx_step sink e p)) = nothing_pending (rp_getPending p)"
    using pending_content [of p] pending_content [of "rx_step sink e p"] i assms(1) by (simp add: c rx_inv_def rx_good_def)
  then show ?thesis using assms(2) by (simp add: rx_scheduled_def scheduled_iff c)
next
  case FlushAndPublish
  then show ?thesis by (intro refresh_scheduled assms(1)) simp
next
  case ResetQueue
  then show ?thesis by (intro refresh_scheduled assms(1)) simp
next
  case ClearPending
  then show ?thesis by (intro refresh_scheduled assms(1)) simp
qed (use assms(3) scheduled_quiet [OF assms(2), of "rx_step sink e p"] in
    \<open>auto simp: disarms_def rp_publish_def visibilityChanged_def cancelUiPublisher_def rawBytes_def rawBytes_off_def
      clearRawByteObservers_def clearOverflowTracking_def\<close>)

lemma rx_run_spec:
  "rx_inv p \<Longrightarrow> rx_inv (run_events (rx_step sink) es p) \<and> advances (concat (map rx_input es)) p (run_events (rx_step sink) es p) \<and>
    ((\<forall>e \<in> set es. \<not> discards e) \<longrightarrow> conserves (concat (map rx_input es)) p (run_events (rx_step sink) es p)) \<and>
    ((\<forall>e \<in> set es. \<not> disarms e) \<longrightarrow> rx_scheduled p \<longrightarrow> rx_scheduled (run_events (rx_step sink) es p))"
proof (induction es arbitrary: p)
  case Nil
  then show ?case by (simp add: advances_def conserves_def)
next
  case (Cons e es)
  let ?p = "rx_step sink e p"
  have 1: "rx_inv ?p" "advances (rx_input e) p ?p" "\<not> discards e \<Longrightarrow> conserves (rx_input e) p ?p"
    using rx_step_spec [OF Cons.prems, of sink e] by simp_all
  note IH = Cons.IH [OF 1(1)]
  have "subseq (rx_stream ?p @ concat (map rx_input es)) (rx_stream p @ rx_input e @ concat (map rx_input es))"
    using 1(2) list_emb_append_mono [of "(=)" "rx_stream ?p" "rx_stream p @ rx_input e" "concat (map rx_input es)" "concat (map rx_input es)"]
    by (simp add: advances_def)
  then have "advances (concat (map rx_input (e # es))) p (run_events (rx_step sink) (e # es) p)"
    using IH 1(2) subseq_order.trans by (auto simp: advances_def)
  moreover have "conserves (concat (map rx_input (e # es))) p (run_events (rx_step sink) (e # es) p)" if "\<forall>x \<in> set (e # es). \<not> discards x"
    using IH 1(3) that by (simp add: conserves_def)
  moreover have "rx_scheduled (run_events (rx_step sink) (e # es) p)" if "\<forall>x \<in> set (e # es). \<not> disarms x" "rx_scheduled p"
    using IH rx_step_scheduled [OF Cons.prems that(2), of e sink] that by simp
  ultimately show ?case using IH by simp
qed

lemma new_pipeline_spec:
  assumes "new_rx_pipeline v = Some p"
  shows "rx_inv p \<and> rx_stream p = [] \<and> rp_mirrored p = [] \<and> rxq_totalDropped (rp_queue p) = 0"
proof -
  obtain q where q: "rxq_new (js_int (1024 * 1024 * 2)) (js_int 512) = Some q" "rp_queue p = q" "rp_frames p = []" "rp_ui p = new_ui_publisher"
    "rp_retired p = []" "rp_mirrored p = []" "rp_drain p = new_drain_scheduler (Some (js_int (normalizeRxFrameGapMs (Some (js_int 0)))))"
    using assms by (auto simp: new_rx_pipeline_def)
  then show ?thesis using rxq_new_inv [OF q(1)] ds_ok_new up_ok_new by (auto simp: rx_inv_def rx_good_def rx_stream_def rx_content_def)
qed

lemma fresh_queue: "rxq_new (js_int 2097152) (js_int 512) = Some \<lparr>rxq_maxBytes = 2097152, rxq_maxChunks = 512, rxq_chunks = [], rxq_head = 0,
    rxq_byteLength = 0, rxq_droppedSinceDrain = 0, rxq_totalDropped = 0, rxq_overflowNotified = False\<rparr>"
  by (simp add: rxq_new_def rxq_positiveInteger_def)

lemma first_chunk:
  assumes "new_rx_pipeline v = Some p"
  shows "rx_content (enqueueReceivedBytes [1, 2] 0 p) = [1, 2]"
proof -
  have "rp_queue p = \<lparr>rxq_maxBytes = 2097152, rxq_maxChunks = 512, rxq_chunks = [], rxq_head = 0,
    rxq_byteLength = 0, rxq_droppedSinceDrain = 0, rxq_totalDropped = 0, rxq_overflowNotified = False\<rparr>"
    using assms by (auto simp: new_rx_pipeline_def fresh_queue)
  then show ?thesis
    by (simp add: enqueueReceivedBytes_def rx_content_def rxq_enqueue_def rxq_dropOldest.simps rxq_liveCount_def rxq_pushLive_def rxq_live_def Let_def)
qed

section \<open>What is thrown away\<close>

text \<open>A reset of the queue forgets its bytes and its count of dropped ones, a clear its bytes.\<close>

fun thrown_by :: "'cb rx_event \<Rightarrow> ('cb, 'f) rx_pipeline \<Rightarrow> nat" where
  "thrown_by ResetQueue p = length (rx_content p) + rxq_totalDropped (rp_queue p)"
| "thrown_by ClearPending p = length (rx_content p)"
| "thrown_by _ p = 0"

fun thrown_away :: "'f frame_sink \<Rightarrow> 'cb rx_event list \<Rightarrow> ('cb, 'f) rx_pipeline \<Rightarrow> nat" where
  "thrown_away sink [] p = 0"
| "thrown_away sink (e # es) p = thrown_by e p + thrown_away sink es (rx_step sink e p)"

lemma step_accounts:
  assumes "rx_inv p"
  shows "length (rx_stream (rx_step sink e p)) + rxq_totalDropped (rp_queue (rx_step sink e p)) + thrown_by e p =
    length (rx_stream p) + rxq_totalDropped (rp_queue p) + length (rx_input e)"
proof (cases "discards e")
  case False
  then show ?thesis using rx_step_spec [OF assms, of sink e] by (cases e) (simp_all add: conserves_def discards_def del: rx_step.simps)
next
  case True
  then consider "e = ResetQueue" | "e = ClearPending" by (auto simp: discards_def)
  then show ?thesis
    using rxq_clear_spec(2,4) [of "rp_queue p"] assms
    by cases (simp_all add: resetQueue_def clearPendingQueue_def rx_stream_def rx_content_def rx_inv_def rx_good_def rxq_reset_def rxq_clearPending_def)
qed

lemma run_accounts:
  "rx_inv p \<Longrightarrow> length (rx_stream (run_events (rx_step sink) es p)) + rxq_totalDropped (rp_queue (run_events (rx_step sink) es p)) +
      thrown_away sink es p =
    length (rx_stream p) + rxq_totalDropped (rp_queue p) + length (concat (map rx_input es))"
proof (induction es arbitrary: p)
  case (Cons e es)
  have "rx_inv (rx_step sink e p)" using rx_step_spec [OF Cons.prems, of sink e] by simp
  from Cons.IH [OF this] show ?case using step_accounts [OF Cons.prems, of sink e] by (simp del: rx_step.simps)
qed simp

lemma nothing_thrown: "list_all (\<lambda>e. e \<noteq> ResetQueue \<and> e \<noteq> ClearPending) es \<Longrightarrow> thrown_away sink es p = 0"
proof (induction es arbitrary: p)
  case (Cons e es)
  then show ?case by (cases e) (simp_all del: rx_step.simps)
qed simp

section \<open>What is published\<close>

text \<open>Logged frames that no publication has shown yet, counted from the calls made.\<close>

definition unpublished :: "('cb, 'f) rx_pipeline \<Rightarrow> bool" where
  "unpublished p \<longleftrightarrow> (if rp_published p = [] then 0 else snd (last (rp_published p))) < length (rp_logged p)"

definition stops_publishing :: "'cb rx_event \<Rightarrow> bool" where
  "stops_publishing e \<longleftrightarrow> e = CancelUi \<or> e = CancelPublishers"

definition told :: "('cb, 'f) rx_pipeline \<Rightarrow> bool" where
  "told p \<longleftrightarrow> (unpublished p \<longrightarrow> up_dirty (rp_ui p))"

text \<open>A drain logs nothing, or logs a frame and marks the publisher.\<close>

definition logs :: "'f list \<Rightarrow> ui_publisher \<Rightarrow> (nat \<times> nat) list \<Rightarrow> ('cb, 'f) rx_pipeline \<Rightarrow> bool" where
  "logs l u x p \<longleftrightarrow> rp_published p = x \<and> (rp_logged p = l \<and> rp_ui p = u \<or> rp_logged p \<noteq> l \<and> length l \<le> length (rp_logged p) \<and> up_dirty (rp_ui p))"

lemma dirty_simps [simp]: "up_dirty (up_schedule v u) = up_dirty u" "up_dirty (up_markDirty v u)" "up_dirty (up_visibilityChanged v u) = up_dirty u"
  "up_dirty (up_cancelTimer u) = up_dirty u"
  by (simp_all add: up_schedule_def up_markDirty_def up_visibilityChanged_def up_cancelTimer_def Let_def)

lemma flush_logs: "logs l u x p \<Longrightarrow> logs l u x (flushQueue sink p)"
  by (auto simp: logs_def flushQueue_def Let_def split: prod.split option.split)

interpretation rx_logs: drain_host rp_getPending "flushQueue sink" "logs l u x" for sink l u x
  by unfold_locales (rule flush_logs)

lemma logs_start: "logs (rp_logged p) (rp_ui p) (rp_published p) p"
  by (simp add: logs_def)

lemma logs_told:
  assumes "logs (rp_logged p) (rp_ui p) (rp_published p) q" "rp_logged r = rp_logged q" "rp_ui r = rp_ui q" "rp_published r = rp_published q"
    "told p \<or> rp_logged r \<noteq> rp_logged p"
  shows "told r"
  using assms by (auto simp: logs_def told_def unpublished_def)

lemma published_ui: "up_ok u \<Longrightarrow> up_run cb u = (b, u') \<Longrightarrow> \<not> b \<Longrightarrow> up_dirty u' = up_dirty u"
  by (auto simp: up_run_def Let_def split: if_splits)

lemma publish_told:
  assumes "fst r \<or> up_dirty (snd r) = up_dirty (rp_ui p)"
  shows "told p \<Longrightarrow> told (rp_publish r p)" "fst r \<Longrightarrow> \<not> unpublished (rp_publish r p)" "rp_logged (rp_publish r p) = rp_logged p"
  using assms by (auto simp: told_def unpublished_def rp_publish_def)

lemma flush_publishes:
  assumes "told p"
  shows "told (rp_publish (up_flushNow (rp_ui p)) p) \<and> \<not> unpublished (rp_publish (up_flushNow (rp_ui p)) p)"
  using assms by (auto simp: told_def unpublished_def rp_publish_def up_flushNow_def Let_def)

lemma flushNow_logs: "rx_inv p \<Longrightarrow> logs (rp_logged p) (rp_ui p) (rp_published p) (on_drain (ds_flushNow rp_getPending (flushQueue sink)) p)"
  using rx_logs.flush_good [OF logs_start, of p sink "rp_drain p"] by (auto simp: on_drain_def logs_def split: prod.split)

lemma step_told:
  assumes "rx_inv p" "\<not> stops_publishing e" "told p \<or> rp_logged (rx_step sink e p) \<noteq> rp_logged p"
  shows "told (rx_step sink e p)"
proof (cases e)
  case (RunDrain cb)
  have "logs (rp_logged p) (rp_ui p) (rp_published p) (fst (ds_run rp_getPending (flushQueue sink) cb (p, rp_drain p)))"
    using rx_logs.run_good [OF logs_start, of "rp_drain p" p sink cb] assms(1) by (simp add: rx_inv_def)
  then show ?thesis
    by (rule logs_told) (use assms(3) in \<open>simp_all add: RunDrain on_drain_def split_beta\<close>)
next
  case (RunRetired k cb)
  show ?thesis
  proof (cases "k < length (rp_retired p)")
    case True
    have "logs (rp_logged p) (rp_ui p) (rp_published p) (fst (ds_run rp_getPending (flushQueue sink) cb (p, rp_retired p ! k)))"
      using rx_logs.run_good [OF logs_start, of "rp_retired p ! k" p sink cb] assms(1) True by (simp add: rx_inv_def)
    then show ?thesis
      by (rule logs_told) (use assms(3) True in \<open>simp_all add: RunRetired split_beta\<close>)
  qed (use assms(3) in \<open>simp add: RunRetired\<close>)
next
  case (RunUi cb)
  have "fst (up_run cb (rp_ui p)) \<or> up_dirty (snd (up_run cb (rp_ui p))) = up_dirty (rp_ui p)" by (auto simp: up_run_def Let_def)
  then show ?thesis using publish_told [of "up_run cb (rp_ui p)" p] assms(3) by (auto simp: RunUi)
next
  case FlushAndPublish
  let ?p = "on_drain (ds_flushNow rp_getPending (flushQueue sink)) p"
  have l: "rp_logged (rx_step sink e p) = rp_logged ?p" by (simp add: FlushAndPublish flushRxAndPublish_def Let_def rp_publish_def)
  have "told ?p" by (rule logs_told [OF flushNow_logs [OF assms(1)]]) (use assms(3) in \<open>simp_all add: l\<close>)
  then show ?thesis using flush_publishes [of ?p] by (simp add: FlushAndPublish flushRxAndPublish_def Let_def)
next
  case (Received bs g)
  have "rp_logged (enqueueReceivedBytes bs g p) = rp_logged p \<and> rp_published (enqueueReceivedBytes bs g p) = rp_published p \<and>
      rp_ui (enqueueReceivedBytes bs g p) = rp_ui p"
    by (simp add: enqueueReceivedBytes_def Let_def split: option.split prod.split)
  then show ?thesis using assms(3) by (simp add: Received told_def unpublished_def)
qed (use assms(2,3) in \<open>auto simp: stops_publishing_def told_def unpublished_def resetRxDrain_def cancelRxDrain_def resetQueue_def
      clearPendingQueue_def rawBytes_def rawBytes_off_def clearRawByteObservers_def clearOverflowTracking_def visibilityChanged_def split: if_splits\<close>)

lemma run_told:
  assumes "rx_inv p" "list_all (\<lambda>e. \<not> stops_publishing e) es" "told p \<or> rp_logged (run_events (rx_step sink) es p) \<noteq> rp_logged p"
  shows "told (run_events (rx_step sink) es p)"
  using assms
proof (induction es arbitrary: p)
  case (Cons e es)
  let ?p = "rx_step sink e p"
  have i: "rx_inv ?p" using rx_step_spec [OF Cons.prems(1), of sink e] by simp
  show ?case
  proof (cases "told p \<or> rp_logged ?p \<noteq> rp_logged p")
    case True
    then show ?thesis using Cons.IH [OF i] step_told [OF Cons.prems(1), of e sink] Cons.prems(2) by simp
  next
    case False
    then show ?thesis using Cons.IH [OF i] Cons.prems(2,3) by simp
  qed
qed simp

lemma run_rescheduled:
  assumes "rx_inv p" "list_all (\<lambda>e. \<not> disarms e) es" "rx_scheduled p \<or> list_ex refreshes es"
  shows "rx_scheduled (run_events (rx_step sink) es p)"
  using assms
proof (induction es arbitrary: p)
  case (Cons e es)
  have i: "rx_inv (rx_step sink e p)" using rx_step_spec [OF Cons.prems(1), of sink e] by simp
  have "rx_scheduled (rx_step sink e p) \<or> list_ex refreshes es"
    using Cons.prems rx_step_scheduled [OF Cons.prems(1), of e sink] refresh_scheduled [OF Cons.prems(1), of e sink] by auto
  then show ?case using Cons.IH [OF i] Cons.prems(2) by simp
qed simp

lemma connect_flushes:
  assumes "rx_inv p"
  shows "rx_content (run_events (rx_step sink) (connect_events gap) p) = [] \<and>
    concat (rp_frames (run_events (rx_step sink) (connect_events gap) p)) = concat (rp_frames p) @ rx_content p \<and>
    (told p \<longrightarrow> \<not> unpublished (run_events (rx_step sink) (connect_events gap) p))"
proof -
  let ?q = "resetRxDrain gap p"
  let ?f = "on_drain (ds_flushNow rp_getPending (flushQueue sink)) ?q"
  have i: "rx_inv ?q" using rx_step_spec [OF assms, of sink "ResetDrain gap"] by simp
  have same: "rx_content ?q = rx_content p" "rp_frames ?q = rp_frames p" "told ?q = told p"
    by (simp_all add: resetRxDrain_def rx_content_def told_def unpublished_def)
  have f: "concat (rp_frames ?f) = concat (rp_frames ?q) @ rx_content ?q"
  proof (cases "rx_content ?q = []")
    case True
    then have "nothing_pending (rp_getPending ?q)" using pending_content [of ?q] i by (simp add: rx_inv_def rx_good_def)
    then show ?thesis using True by (simp add: on_drain_def ds_flushNow_def ds_drainPending_def)
  next
    case False
    then have "\<not> nothing_pending (rp_getPending ?q)" using pending_content [of ?q] i by (simp add: rx_inv_def rx_good_def)
    then show ?thesis using flush_spec [of ?q sink] i
      by (simp add: on_drain_def ds_flushNow_def ds_drainPending_def Let_def rx_inv_def rx_good_def)
  qed
  have t: "told ?f" if "told p"
    by (rule logs_told [OF flushNow_logs [OF i, of sink]]) (use that same(3) in simp_all)
  let ?g = "rp_publish (up_flushNow (rp_ui ?f)) ?f"
  have r: "run_events (rx_step sink) (connect_events gap) p =
      (resetQueue (cancelUiPublisher (cancelRxDrain ?g)))\<lparr>rp_totalDropped := 0\<rparr>"
    by (simp add: connect_events_def flushRxAndPublish_def Let_def)
  have "rx_inv ?g" using rx_step_spec [OF i, of sink FlushAndPublish] by (simp add: flushRxAndPublish_def Let_def)
  then have "rxq_live (rxq_reset (rp_queue ?g)) = []" using rxq_clear_spec(4) [of "rp_queue ?g"] by (simp add: rx_inv_def rx_good_def)
  then have "rx_content (run_events (rx_step sink) (connect_events gap) p) = []"
    unfolding r by (simp add: resetQueue_def cancelUiPublisher_def cancelRxDrain_def rx_content_def)
  moreover have "concat (rp_frames (run_events (rx_step sink) (connect_events gap) p)) = concat (rp_frames p) @ rx_content p"
    unfolding r using f same by (simp add: resetQueue_def cancelUiPublisher_def cancelRxDrain_def rp_publish_def)
  moreover have "told p \<longrightarrow> \<not> unpublished (run_events (rx_step sink) (connect_events gap) p)"
  proof -
    have "unpublished ((resetQueue (cancelUiPublisher (cancelRxDrain q)))\<lparr>rp_totalDropped := 0\<rparr>) = unpublished q" for q :: "('a, 'b) rx_pipeline"
      by (simp add: resetQueue_def cancelUiPublisher_def cancelRxDrain_def unpublished_def)
    then show ?thesis unfolding r using t flush_publishes [of ?f] by simp
  qed
  ultimately show ?thesis by blast
qed

section \<open>Properties\<close>

text \<open>C4. The pipeline never reorders, duplicates or invents a byte, and accounts for every one.  After any sequence of
  native chunks, timer and microtask callbacks (the current scheduler's, cancelled ones, those of
  replaced schedulers), flushes, resets and cancellations, the captured frames followed by what is
  still queued are a subsequence of the bytes received; the captured, queued and dropped bytes and those that a reset or a clear of the
  queue threw away (a reset also forgets the count of the dropped ones) add up exactly to the received ones, and without
  a reset or a clear nothing is thrown away; and the transaction mirror saw every byte.\<close>

theorem rx_capture_in_order:
  assumes "new_rx_pipeline v = Some p"
  shows "subseq (concat (rp_frames (run_events (rx_step sink) es p)) @ rx_content (run_events (rx_step sink) es p)) (concat (map rx_input es)) \<and>
    length (concat (rp_frames (run_events (rx_step sink) es p))) + length (rx_content (run_events (rx_step sink) es p)) +
      rxq_totalDropped (rp_queue (run_events (rx_step sink) es p)) + thrown_away sink es p = length (concat (map rx_input es)) \<and>
    (if list_all (\<lambda>e. e \<noteq> ResetQueue \<and> e \<noteq> ClearPending) es then thrown_away sink es p = 0 else True) \<and>
    concat (map snd (rp_mirrored (run_events (rx_step sink) es p))) = concat (map rx_input es)"
proof -
  have n: "rx_inv p" "rx_stream p = []" "rp_mirrored p = []" "rxq_totalDropped (rp_queue p) = 0" using new_pipeline_spec [OF assms] by simp_all
  have t: "list_all (\<lambda>e. e \<noteq> ResetQueue \<and> e \<noteq> ClearPending) es \<longrightarrow> thrown_away sink es p = 0" using nothing_thrown by blast
  have a: "advances (concat (map rx_input es)) p (run_events (rx_step sink) es p)" using rx_run_spec [OF n(1), of sink es] by blast
  show ?thesis using a run_accounts [OF n(1), of sink es] t
    by (simp only: advances_def n append_Nil list.map concat.simps list.size rx_stream_def [of "run_events (rx_step sink) es p"] length_append if_True if_bool_eq_conj) simp
qed

lemma rx_capture_in_order_witness:
  "\<exists>p. new_rx_pipeline True = Some p \<and>
    subseq (concat (rp_frames (run_events (rx_step (\<lambda>_ _. Some ())) [Received [1, 2] 0, FlushAndPublish, Received [3] 0 :: unit rx_event] p)) @
      rx_content (run_events (rx_step (\<lambda>_ _. Some ())) [Received [1, 2] 0, FlushAndPublish, Received [3] 0 :: unit rx_event] p)) [1, 2, 3]"
proof -
  obtain p :: "(unit, unit) rx_pipeline" where p: "new_rx_pipeline True = Some p" by (simp add: new_rx_pipeline_def fresh_queue)
  show ?thesis
    using p conjunct1 [OF rx_capture_in_order [OF p, of "\<lambda>_ _. Some ()" "[Received [1, 2] 0, FlushAndPublish, Received [3] 0 :: unit rx_event]"]]
    by (intro exI [of _ p]) (simp del: run_events.simps)
qed

text \<open>C5. Received bytes and captured frames do not get stuck.  Take any run of the pipeline, with any cancellations and resets in it, and
  go on with any further events.  If these do not cancel or replace the drain, and the queue was empty at their start or they contain bytes, a
  flush, a reset or a clear of the queue, then whenever bytes are queued the host holds a callback whose running captures all of them
  as one frame.  If they do not cancel the publisher, and no logged frame was unpublished at their start or one has been logged since,
  then whenever logged frames are unpublished the host holds a publisher callback after which none is.  And the calls that
  prepare a new connection, which do cancel both, capture everything that was queued, leave the queue empty, and leave
  no frame unpublished whose publication was still due.\<close>

theorem rx_never_stuck:
  assumes "new_rx_pipeline v = Some p\<^sub>0"
  shows "let p = run_events (rx_step sink) es\<^sub>0 p\<^sub>0; q = run_events (rx_step sink) es p; c = run_events (rx_step sink) (connect_events gap) p in
    (if list_all (\<lambda>e. \<not> disarms e) es \<and> (rx_content p = [] \<or> list_ex refreshes es) \<and> rx_content q \<noteq> []
     then \<exists>cb \<in> set (ds_callbacks (rp_drain q)).
       concat (rp_frames (rx_step sink (RunDrain cb) q)) = concat (rp_frames q) @ rx_content q \<and> rx_content (rx_step sink (RunDrain cb) q) = []
     else True) \<and>
    (if list_all (\<lambda>e. \<not> stops_publishing e) es \<and> (\<not> unpublished p \<or> rp_logged q \<noteq> rp_logged p) \<and> unpublished q
     then \<exists>cb \<in> set (up_callbacks (rp_ui q)). \<not> unpublished (rx_step sink (RunUi cb) q)
     else True) \<and>
    rx_content c = [] \<and> concat (rp_frames c) = concat (rp_frames p) @ rx_content p \<and>
    (if up_dirty (rp_ui p) \<or> \<not> unpublished p then \<not> unpublished c else True)"
proof -
  define p where "p = run_events (rx_step sink) es\<^sub>0 p\<^sub>0"
  define q where "q = run_events (rx_step sink) es p"
  have ip: "rx_inv p" using rx_run_spec [of p\<^sub>0 sink es\<^sub>0] new_pipeline_spec [OF assms] by (simp add: p_def)
  have iq: "rx_inv q" using rx_run_spec [OF ip, of sink es] by (simp add: q_def)
  then have g: "rxq_inv (rp_queue q)" "up_ok (rp_ui q)" by (simp_all add: rx_inv_def rx_good_def)
  have "\<exists>cb \<in> set (ds_callbacks (rp_drain q)). concat (rp_frames (rx_step sink (RunDrain cb) q)) = concat (rp_frames q) @ rx_content q \<and>
      rx_content (rx_step sink (RunDrain cb) q) = []"
    if a: "list_all (\<lambda>e. \<not> disarms e) es" "rx_content p = [] \<or> list_ex refreshes es" "rx_content q \<noteq> []"
  proof -
    have s: "rx_scheduled q" using run_rescheduled [OF ip a(1), of sink] scheduled_empty [OF ip] a(2) by (auto simp: q_def)
    have "\<not> nothing_pending (rp_getPending q)" using a(3) pending_content [OF g(1)] by simp
    from rx.live_drains [OF _ this, of "rp_drain q" sink] s obtain cb where cb: "cb \<in> set (ds_callbacks (rp_drain q))"
        "fst (ds_run rp_getPending (flushQueue sink) cb (q, rp_drain q)) = flushQueue sink q"
      by (auto simp: rx_scheduled_def)
    then show ?thesis using flush_spec [OF g, of sink]
      by (intro bexI [OF _ cb(1)]) (simp add: on_drain_def split_beta rx_content_def)
  qed
  moreover have "\<exists>cb \<in> set (up_callbacks (rp_ui q)). \<not> unpublished (rx_step sink (RunUi cb) q)"
    if a: "list_all (\<lambda>e. \<not> stops_publishing e) es" "\<not> unpublished p \<or> rp_logged q \<noteq> rp_logged p" "unpublished q"
  proof -
    have "told q" using run_told [OF ip a(1), of sink] a(2) by (auto simp: q_def told_def)
    then obtain cb where cb: "cb \<in> set (up_callbacks (rp_ui q))" "fst (up_run cb (rp_ui q))"
      using up_dirty_publishes [OF g(2)] a(3) by (auto simp: told_def)
    then show ?thesis using publish_told(2) [of "up_run cb (rp_ui q)" q] by (intro bexI [OF _ cb(1)]) simp
  qed
  moreover note connect_flushes [OF ip, of sink gap]
  ultimately show ?thesis by (simp add: p_def [symmetric] q_def [symmetric] told_def Let_def)
qed

lemma rx_never_stuck_witness:
  "\<exists>p cb. new_rx_pipeline True = Some p \<and>
    concat (rp_frames (rx_step (\<lambda>_ _. None :: unit option) (RunDrain cb) (run_events (rx_step (\<lambda>_ _. None :: unit option)) [Received [1, 2] 0 :: unit rx_event] p)))
      = concat (rp_frames (run_events (rx_step (\<lambda>_ _. None :: unit option)) [Received [1, 2] 0 :: unit rx_event] p)) @ [1, 2]"
proof -
  obtain p :: "(unit, unit) rx_pipeline" where p: "new_rx_pipeline True = Some p" by (simp add: new_rx_pipeline_def fresh_queue)
  from conjunct1 [OF rx_never_stuck [OF p, of "\<lambda>_ _. None" "[]" "[Received [1, 2] 0 :: unit rx_event]" None, unfolded Let_def]] obtain cb where
    "concat (rp_frames (rx_step (\<lambda>_ _. None :: unit option) (RunDrain cb) (enqueueReceivedBytes [1, 2] 0 p))) = concat (rp_frames (enqueueReceivedBytes [1, 2] 0 p)) @ [1, 2]"
    by (auto simp: first_chunk [OF p] disarms_def simp del: rx_step.simps(2))
  then show ?thesis using p by (intro exI [of _ p] exI [of _ cb]) simp
qed

end
