(* ===== verification/ProtocolParser.thy ===== *)
theory ProtocolParser
  imports Prelude
begin

text \<open>
  The streaming frame parser, \<open>ProtocolParser\<close> in \<open>src/lib/protocol-parser.ts\<close>,
  with its three byte modes (delimiter, fixed size, length field).  The record keeps the
  backing array with its live window \<open>[start, end)\<close>, the absolute stream offset and the
  search offset that saves delimiter mode from rescanning.

  The first part translates the class.  The second shows that the window is all that matters
  (\<open>append\<close>, \<open>compactBuffer\<close> and the growth of the array only change the
  representation), that the saved search offset never skips a match, and that feeding is
  byte by byte: the frames, offsets and counters do not depend on how callers chunk the
  stream.
\<close>

section \<open>Configuration\<close>

datatype length_size = Size1 | Size2 | Size4

fun field_width :: "length_size \<Rightarrow> nat" where
  "field_width Size1 = 1"
| "field_width Size2 = 2"
| "field_width Size4 = 4"

text \<open>A configuration as a caller writes it, and as \<open>validateAndCloneConfig\<close> returns it.\<close>

datatype raw_config =
    RawDelimiter "jsnum list" bool
  | RawLength jsnum jsnum bool jsnum
  | RawFixed jsnum
  | RawSmp

datatype byte_config =
    Delimiter bytes bool
  | Length nat length_size bool nat
  | Fixed nat

definition MAX_LENGTH_FRAME_BYTES :: nat where "MAX_LENGTH_FRAME_BYTES = 1048576"
definition MAX_FIXED_FRAME_BYTES :: nat where "MAX_FIXED_FRAME_BYTES = 65535"
definition MAX_DELIMITER_BYTES :: nat where "MAX_DELIMITER_BYTES = 256"
definition DEFAULT_MAX_PENDING_BYTES :: nat where "DEFAULT_MAX_PENDING_BYTES = 1048576"
definition BUFFER_COMPACT_THRESHOLD :: nat where "BUFFER_COMPACT_THRESHOLD = 65536"

definition assertIntegerRange :: "jsnum \<Rightarrow> int \<Rightarrow> int \<Rightarrow> js_error + nat" where
  "assertIntegerRange v lo hi =
     (if \<not> js_isInteger v \<or> js_floor v < lo \<or> js_floor v > hi then Inl RangeError
      else Inr (nat (js_floor v)))"

fun assertBytes :: "jsnum list \<Rightarrow> js_error + bytes" where
  "assertBytes [] = Inr []"
| "assertBytes (v # vs) =
     (case assertIntegerRange v 0 255 of
        Inl e \<Rightarrow> Inl e
      | Inr n \<Rightarrow> (case assertBytes vs of Inl e \<Rightarrow> Inl e | Inr ns \<Rightarrow> Inr (to_byte (int n) # ns)))"

definition parse_length_size :: "jsnum \<Rightarrow> length_size option" where
  "parse_length_size v =
     (if v = js_int 1 then Some Size1 else if v = js_int 2 then Some Size2
      else if v = js_int 4 then Some Size4 else None)"

fun validateAndCloneConfig :: "raw_config \<Rightarrow> js_error + byte_config" where
  "validateAndCloneConfig (RawFixed n) =
     (case assertIntegerRange n 1 (int MAX_FIXED_FRAME_BYTES) of
        Inl e \<Rightarrow> Inl e | Inr k \<Rightarrow> Inr (Fixed k))"
| "validateAndCloneConfig (RawDelimiter ds incl) =
     (case assertIntegerRange (js_int (int (length ds))) 1 (int MAX_DELIMITER_BYTES) of
        Inl e \<Rightarrow> Inl e
      | Inr _ \<Rightarrow> (case assertBytes ds of Inl e \<Rightarrow> Inl e | Inr bs \<Rightarrow> Inr (Delimiter bs incl)))"
| "validateAndCloneConfig (RawLength off sz be adj) =
     (case parse_length_size sz of
        None \<Rightarrow> Inl RangeError
      | Some s \<Rightarrow>
          (case assertIntegerRange off 0 (int MAX_LENGTH_FRAME_BYTES - int (field_width s)) of
             Inl e \<Rightarrow> Inl e
           | Inr k \<Rightarrow> (case assertIntegerRange adj 0 (int MAX_LENGTH_FRAME_BYTES) of
               Inl e \<Rightarrow> Inl e | Inr a \<Rightarrow> Inr (Length k s be a))))"
| "validateAndCloneConfig RawSmp = Inl RangeError"

section \<open>Searching\<close>

text \<open>\<open>indexOfArrayLike\<close>: the inner loop from \<open>j\<close>, then the outer loop from \<open>i\<close>;
  \<open>None\<close> is the result \<open>-1\<close>.\<close>

function match_inner :: "'a list \<Rightarrow> 'a list \<Rightarrow> nat \<Rightarrow> nat \<Rightarrow> bool" where
  "match_inner hay needle i j =
     (if j < length needle - 1 then
        (if hay ! (i + j) \<noteq> needle ! j then False else match_inner hay needle i (j + 1))
      else True)"
  by pat_completeness auto
termination
  by (relation "measure (\<lambda>(hay, needle, i, j). length needle - j)") auto

function match_outer :: "'a list \<Rightarrow> 'a list \<Rightarrow> nat \<Rightarrow> nat option" where
  "match_outer hay needle i =
     (if i \<le> length hay - length needle then
        (if hay ! i \<noteq> needle ! 0 \<or>
            hay ! (i + length needle - 1) \<noteq> needle ! (length needle - 1)
         then match_outer hay needle (i + 1)
         else if match_inner hay needle i 1 then Some i
         else match_outer hay needle (i + 1))
      else None)"
  by pat_completeness auto
termination
  by (relation "measure (\<lambda>(hay, needle, i). length hay + 1 - i)") auto

declare match_inner.simps [simp del] match_outer.simps [simp del]

definition indexOfArrayLike :: "'a list \<Rightarrow> 'a list \<Rightarrow> nat \<Rightarrow> nat option" where
  "indexOfArrayLike hay needle frm =
     (if needle = [] then Some 0
      else if length needle > length hay then None
      else match_outer hay needle frm)"

section \<open>Parser state\<close>

record parsed_frame =
  pf_data :: bytes
  pf_offset :: nat

record parser =
  pp_buffer :: bytes
  pp_start :: nat
  pp_end :: nat
  pp_absStart :: nat
  pp_searchOff :: nat
  pp_maxPending :: nat
  pp_discarded :: nat
  pp_overflow :: nat
  pp_resync :: nat
  pp_config :: byte_config

definition normalized_limit :: "jsnum option \<Rightarrow> nat" where
  "normalized_limit opt =
     (case opt of
        None \<Rightarrow> DEFAULT_MAX_PENDING_BYTES
      | Some v \<Rightarrow> if js_isFinite v then nat (max 1 (js_floor v)) else DEFAULT_MAX_PENDING_BYTES)"

definition pp_new :: "raw_config \<Rightarrow> jsnum option \<Rightarrow> js_error + parser" where
  "pp_new raw opt =
     (case validateAndCloneConfig raw of
        Inl e \<Rightarrow> Inl e
      | Inr cfg \<Rightarrow> Inr \<lparr>pp_buffer = [], pp_start = 0, pp_end = 0, pp_absStart = 0, pp_searchOff = 0,
          pp_maxPending = (case cfg of
              Delimiter d _ \<Rightarrow> min DEFAULT_MAX_PENDING_BYTES (max (normalized_limit opt) (length d))
            | _ \<Rightarrow> DEFAULT_MAX_PENDING_BYTES),
          pp_discarded = 0, pp_overflow = 0, pp_resync = 0, pp_config = cfg\<rparr>)"

definition pp_pending :: "parser \<Rightarrow> nat" where
  "pp_pending p = pp_end p - pp_start p"

definition pp_view :: "parser \<Rightarrow> bytes" where
  "pp_view p = take (pp_end p - pp_start p) (drop (pp_start p) (pp_buffer p))"

definition pp_consume :: "nat \<Rightarrow> parser \<Rightarrow> parser" where
  "pp_consume n p = p\<lparr>pp_start := pp_start p + n, pp_absStart := pp_absStart p + n\<rparr>"

definition pp_reset :: "parser \<Rightarrow> parser" where
  "pp_reset p = p\<lparr>pp_buffer := [], pp_start := 0, pp_end := 0, pp_absStart := 0, pp_searchOff := 0,
     pp_discarded := 0, pp_overflow := 0, pp_resync := 0\<rparr>"

text \<open>\<open>append\<close>: \<open>set_at\<close> is \<open>buffer.set(input, at)\<close>, \<open>move_down\<close> is
  \<open>copyWithin(0, start, end)\<close>.\<close>

definition set_at :: "bytes \<Rightarrow> nat \<Rightarrow> bytes \<Rightarrow> bytes" where
  "set_at buf i xs = take i buf @ xs @ drop (i + length xs) buf"

definition move_down :: "bytes \<Rightarrow> nat \<Rightarrow> nat \<Rightarrow> bytes" where
  "move_down buf s e = set_at buf 0 (take (e - s) (drop s buf))"

function grow_capacity :: "nat \<Rightarrow> nat \<Rightarrow> nat" where
  "grow_capacity cap need = (if 0 < cap \<and> cap < need then grow_capacity (cap * 2) need else cap)"
  by pat_completeness auto
termination
  by (relation "measure (\<lambda>(cap, need). need - cap)") auto

declare grow_capacity.simps [simp del]

definition pp_append :: "bytes \<Rightarrow> parser \<Rightarrow> parser" where
  "pp_append input p =
     (let live = pp_pending p; need = live + length input; buf = pp_buffer p in
      if length buf - pp_end p \<ge> length input then
        p\<lparr>pp_buffer := set_at buf (pp_end p) input, pp_end := pp_end p + length input\<rparr>
      else if pp_start p > 0 \<and> length buf \<ge> need then
        p\<lparr>pp_buffer := set_at (move_down buf (pp_start p) (pp_end p)) live input,
          pp_start := 0, pp_end := live + length input\<rparr>
      else
        let capacity = grow_capacity (max 64 (if length buf = 0 then 64 else length buf)) need in
        p\<lparr>pp_buffer := set_at (set_at (replicate capacity 0) 0
              (take (pp_end p - pp_start p) (drop (pp_start p) buf))) live input,
          pp_start := 0, pp_end := need\<rparr>)"

definition pp_compactBuffer :: "parser \<Rightarrow> parser" where
  "pp_compactBuffer p =
     (if pp_start p = 0 then p
      else if pp_start p \<ge> pp_end p then
        p\<lparr>pp_start := 0, pp_end := 0, pp_searchOff := pp_absStart p\<rparr>
      else if pp_start p \<ge> BUFFER_COMPACT_THRESHOLD \<or> pp_start p \<ge> pp_pending p then
        p\<lparr>pp_buffer := move_down (pp_buffer p) (pp_start p) (pp_end p),
          pp_end := pp_pending p, pp_start := 0\<rparr>
      else p)"

definition pp_enforcePendingLimit :: "parser \<Rightarrow> parser" where
  "pp_enforcePendingLimit p =
     (case pp_config p of
        Delimiter d _ \<Rightarrow>
          if pp_pending p \<le> pp_maxPending p then p
          else let discard = pp_pending p - (length d - 1); p' = pp_consume discard p
               in p'\<lparr>pp_discarded := pp_discarded p' + discard, pp_overflow := pp_overflow p' + 1,
                     pp_resync := pp_resync p' + 1,
                     pp_searchOff := max (pp_searchOff p') (pp_absStart p')\<rparr>
      | _ \<Rightarrow> p)"

definition length_value :: "bool \<Rightarrow> bytes \<Rightarrow> nat" where
  "length_value be field =
     foldl (\<lambda>acc b. acc * 256 + unat b) 0 (if be then field else rev field)"

definition pp_extractOne :: "parser \<Rightarrow> parsed_frame option \<times> parser" where
  "pp_extractOne p =
     (let view = pp_view p; frameOffset = pp_absStart p in
      case pp_config p of
        Fixed k \<Rightarrow>
          if length view < k then (None, p)
          else (Some \<lparr>pf_data = take k view, pf_offset = frameOffset\<rparr>, pp_consume k p)
      | Delimiter delim incl \<Rightarrow>
          (case indexOfArrayLike view delim (pp_searchOff p - pp_absStart p) of
             None \<Rightarrow> (None, p\<lparr>pp_searchOff := pp_absStart p + (length view + 1 - length delim)\<rparr>)
           | Some m \<Rightarrow>
               let dataLength = (if incl then m + length delim else m) in
               if dataLength > pp_maxPending p then (None, p)
               else let p' = pp_consume (m + length delim) p
                    in (Some \<lparr>pf_data = take dataLength view, pf_offset = frameOffset\<rparr>,
                        p'\<lparr>pp_searchOff := pp_absStart p'\<rparr>))
      | Length off sz be adj \<Rightarrow>
          let headerEnd = off + field_width sz in
          if length view < headerEnd then (None, p)
          else let len = adj + length_value be (take (field_width sz) (drop off view)) in
            if len < headerEnd \<or> len > MAX_LENGTH_FRAME_BYTES then
              let p' = pp_consume 1 p
              in (None, p'\<lparr>pp_discarded := pp_discarded p' + 1, pp_resync := pp_resync p' + 1\<rparr>)
            else if length view < len then (None, p)
            else (Some \<lparr>pf_data = take len view, pf_offset = frameOffset\<rparr>, pp_consume len p))"

section \<open>What the search returns\<close>

definition match_at :: "'a list \<Rightarrow> 'a list \<Rightarrow> nat \<Rightarrow> bool" where
  "match_at hay needle i \<longleftrightarrow> i + length needle \<le> length hay \<and>
     take (length needle) (drop i hay) = needle"

lemma match_at_nth:
  "match_at hay needle i \<longleftrightarrow> i + length needle \<le> length hay \<and>
     (\<forall>j < length needle. hay ! (i + j) = needle ! j)"
  by (auto simp: match_at_def list_eq_iff_nth_eq)

lemma match_inner_iff:
  "match_inner hay needle i j \<longleftrightarrow> (\<forall>k. j \<le> k \<and> k < length needle - 1 \<longrightarrow> hay ! (i + k) = needle ! k)"
proof (induction hay needle i j rule: match_inner.induct)
  case (1 hay needle i j)
  show ?case
  proof (cases "j < length needle - 1 \<and> hay ! (i + j) = needle ! j")
    case True
    then have "match_inner hay needle i j = match_inner hay needle i (j + 1)"
      by (subst match_inner.simps) auto
    with True "1.IH" show ?thesis by (auto simp: Suc_le_eq) (metis le_neq_implies_less)
  next
    case False
    then show ?thesis by (subst match_inner.simps) auto
  qed
qed

lemma match_step:
  assumes "needle \<noteq> []" "i + length needle \<le> length hay"
  shows "match_at hay needle i \<longleftrightarrow> hay ! i = needle ! 0 \<and>
    hay ! (i + length needle - 1) = needle ! (length needle - 1) \<and> match_inner hay needle i 1"
proof
  assume m: "match_at hay needle i"
  then have "hay ! (i + 0) = needle ! 0"
    "hay ! (i + (length needle - 1)) = needle ! (length needle - 1)"
    using assms by (simp_all only: match_at_nth) auto
  with m assms show "hay ! i = needle ! 0 \<and>
    hay ! (i + length needle - 1) = needle ! (length needle - 1) \<and> match_inner hay needle i 1"
    by (auto simp: match_inner_iff match_at_nth Nat.add_diff_assoc2 Suc_le_eq)
next
  assume h: "hay ! i = needle ! 0 \<and>
    hay ! (i + length needle - 1) = needle ! (length needle - 1) \<and> match_inner hay needle i 1"
  have "hay ! (i + j) = needle ! j" if j: "j < length needle" for j
  proof -
    consider "j = 0" | "j = length needle - 1" | "1 \<le> j \<and> j < length needle - 1"
      using j by linarith
    then show ?thesis
    proof cases
      case 2
      then have "i + j = i + length needle - 1" using assms by (cases needle) auto
      with h 2 show ?thesis by simp
    qed (use h in \<open>auto simp: match_inner_iff\<close>)
  qed
  then show "match_at hay needle i" using assms by (auto simp: match_at_nth)
qed

lemma match_outer_spec:
  assumes "needle \<noteq> []" "length needle \<le> length hay"
  shows "case match_outer hay needle i of
      None \<Rightarrow> \<forall>k \<ge> i. \<not> match_at hay needle k
    | Some m \<Rightarrow> i \<le> m \<and> match_at hay needle m \<and> (\<forall>k. i \<le> k \<and> k < m \<longrightarrow> \<not> match_at hay needle k)"
  using assms
proof (induction hay needle i rule: match_outer.induct)
  case (1 hay needle i)
  let ?in = "i \<le> length hay - length needle"
  have le: "i + length needle \<le> length hay" if ?in using that "1.prems" by simp
  consider "\<not> ?in" | "?in" "match_at hay needle i" | "?in" "\<not> match_at hay needle i" by blast
  then show ?case
  proof cases
    case 1
    then show ?thesis using "1.prems" by (subst match_outer.simps) (auto simp: match_at_def)
  next
    case 2
    then have "match_outer hay needle i = Some i"
      using match_step [OF _ le] "1.prems" by (subst match_outer.simps) auto
    with 2 show ?thesis by auto
  next
    case 3
    then have e: "match_outer hay needle i = match_outer hay needle (i + 1)"
      using match_step [OF _ le] "1.prems" by (subst match_outer.simps) auto
    have ih: "case match_outer hay needle (i + 1) of
        None \<Rightarrow> \<forall>k \<ge> i + 1. \<not> match_at hay needle k
      | Some m \<Rightarrow> i + 1 \<le> m \<and> match_at hay needle m \<and>
          (\<forall>k. i + 1 \<le> k \<and> k < m \<longrightarrow> \<not> match_at hay needle k)"
      using "1.IH" 3 match_step [OF _ le] "1.prems" by blast
    have split: "k \<ge> i \<Longrightarrow> k = i \<or> k \<ge> i + 1" for k by linarith
    show ?thesis unfolding e using ih 3(2) by (auto split: option.splits dest: split)
  qed
qed

lemma indexOfArrayLike_spec:
  assumes "needle \<noteq> []"
  shows "case indexOfArrayLike hay needle frm of
      None \<Rightarrow> \<forall>k \<ge> frm. \<not> match_at hay needle k
    | Some m \<Rightarrow> frm \<le> m \<and> match_at hay needle m \<and>
        (\<forall>k. frm \<le> k \<and> k < m \<longrightarrow> \<not> match_at hay needle k)"
  using assms match_outer_spec [where needle = needle and hay = hay and i = frm]
  by (auto simp: indexOfArrayLike_def match_at_def)

lemma indexOfArrayLike_bound:
  "indexOfArrayLike hay needle frm = Some m \<Longrightarrow> m + length needle \<le> length hay"
  using indexOfArrayLike_spec [where needle = needle and hay = hay and frm = frm]
  by (cases "needle = []") (auto simp: indexOfArrayLike_def match_at_def)

section \<open>Draining and feeding\<close>

lemma length_pp_view: "length (pp_view p) \<le> pp_end p - pp_start p"
  by (simp add: pp_view_def)

lemma pp_consume_simps [simp]:
  "pp_start (pp_consume n p) = pp_start p + n" "pp_end (pp_consume n p) = pp_end p"
  "pp_absStart (pp_consume n p) = pp_absStart p + n" "pp_buffer (pp_consume n p) = pp_buffer p"
  "pp_searchOff (pp_consume n p) = pp_searchOff p" "pp_maxPending (pp_consume n p) = pp_maxPending p"
  "pp_config (pp_consume n p) = pp_config p" "pp_discarded (pp_consume n p) = pp_discarded p"
  "pp_overflow (pp_consume n p) = pp_overflow p" "pp_resync (pp_consume n p) = pp_resync p"
  by (simp_all add: pp_consume_def)

lemma field_width_pos: "0 < field_width s"
  by (cases s) simp_all

text \<open>One extraction either keeps the window or consumes \<open>k\<close> bytes of it.\<close>

lemma pp_extractOne_consumes:
  obtains k where "k \<le> length (pp_view p)" "pp_start (snd (pp_extractOne p)) = pp_start p + k"
    "pp_end (snd (pp_extractOne p)) = pp_end p"
proof (cases "pp_config p")
  case (Delimiter d incl)
  show ?thesis
  proof (cases "indexOfArrayLike (pp_view p) d (pp_searchOff p - pp_absStart p)")
    case None
    with Delimiter show ?thesis by (intro that [of 0]) (simp_all add: pp_extractOne_def Let_def)
  next
    case (Some m)
    with Delimiter indexOfArrayLike_bound [OF Some] show ?thesis
      by (cases "(if incl then m + length d else m) > pp_maxPending p")
        (auto intro: that [of 0] that [of "m + length d"] simp: pp_extractOne_def Let_def)
  qed
next
  case (Length off sz be adj)
  let ?len = "adj + length_value be (take (field_width sz) (drop off (pp_view p)))"
  show ?thesis
  proof (cases "length (pp_view p) < off + field_width sz")
    case True
    with Length show ?thesis by (intro that [of 0]) (simp_all add: pp_extractOne_def Let_def)
  next
    case False
    with Length field_width_pos [of sz] show ?thesis
      by (cases "?len < off + field_width sz \<or> ?len > MAX_LENGTH_FRAME_BYTES";
          cases "length (pp_view p) < ?len")
        (auto intro: that [of 0] that [of 1] that [of ?len] simp: pp_extractOne_def Let_def)
  qed
next
  case (Fixed n)
  then show ?thesis
    by (cases "length (pp_view p) < n")
      (auto intro: that [of 0] that [of n] simp: pp_extractOne_def Let_def)
qed

lemma pp_extractOne_decreases:
  assumes "pp_extractOne p = (f, p')" "pp_start p' \<noteq> pp_start p"
  shows "pp_end p' - pp_start p' < pp_end p - pp_start p"
proof -
  obtain k where k: "k \<le> length (pp_view p)" "pp_start p' = pp_start p + k" "pp_end p' = pp_end p"
    using pp_extractOne_consumes [of p] assms(1) by auto
  with assms(2) length_pp_view [of p] show ?thesis by auto
qed

function pp_drain :: "parser \<Rightarrow> parsed_frame list \<times> parser" where
  "pp_drain p =
     (let (frame, p') = pp_extractOne p;
          out = (case frame of None \<Rightarrow> [] | Some f \<Rightarrow> [f])
      in if pp_start p' = pp_start p then (out, p')
         else let (rest, p'') = pp_drain p' in (out @ rest, p''))"
  by pat_completeness auto
termination
  by (relation "measure (\<lambda>p. pp_end p - pp_start p)") (auto dest: pp_extractOne_decreases [OF sym])

declare pp_drain.simps [simp del]

text \<open>The bounded slices of delimiter mode: at most one byte past the ceiling at a time.\<close>

function pp_feed_delimiter :: "bytes \<Rightarrow> parser \<Rightarrow> parsed_frame list \<times> parser" where
  "pp_feed_delimiter input p =
     (if input = [] then ([], p)
      else let room = pp_maxPending p - pp_pending p;
               tk = min (length input) (max 1 (room + 1));
               (frames, p1) = pp_drain (pp_append (take tk input) p);
               (rest, p2) = pp_feed_delimiter (drop tk input)
                 (pp_compactBuffer (pp_enforcePendingLimit p1))
           in (frames @ rest, p2))"
  by pat_completeness auto
termination
  by (relation "measure (\<lambda>(input, p). length input)") auto

declare pp_feed_delimiter.simps [simp del]

definition pp_feed :: "bytes \<Rightarrow> parser \<Rightarrow> parsed_frame list \<times> parser" where
  "pp_feed input p =
     (if input = [] then ([], p)
      else case pp_config p of
        Delimiter _ _ \<Rightarrow> pp_feed_delimiter input p
      | _ \<Rightarrow> let (frames, p1) = pp_drain (pp_append input p)
             in (frames, pp_compactBuffer p1))"

section \<open>The live window\<close>

definition pp_rep :: "parser \<Rightarrow> bool" where
  "pp_rep p \<longleftrightarrow> pp_start p \<le> pp_end p \<and> pp_end p \<le> length (pp_buffer p)"

lemma pp_view_length: "pp_rep p \<Longrightarrow> length (pp_view p) = pp_pending p"
  by (auto simp: pp_rep_def pp_view_def pp_pending_def)

lemma grow_capacity_ge: "0 < cap \<Longrightarrow> need \<le> grow_capacity cap need"
  by (induction cap need rule: grow_capacity.induct) (subst grow_capacity.simps, auto)

lemma take_set_at:
  "i \<le> length buf \<Longrightarrow> take (i + length xs) (set_at buf i xs) = take i buf @ xs"
  by (simp add: set_at_def)

lemma length_set_at: "i + length xs \<le> length buf \<Longrightarrow> length (set_at buf i xs) = length buf"
  by (simp add: set_at_def)

lemma take_move_down:
  "s \<le> e \<Longrightarrow> e \<le> length buf \<Longrightarrow> take (e - s) (move_down buf s e) = take (e - s) (drop s buf)"
  by (simp add: move_down_def set_at_def)

lemma length_move_down: "s \<le> e \<Longrightarrow> e \<le> length buf \<Longrightarrow> length (move_down buf s e) = length buf"
  by (simp add: move_down_def set_at_def)

lemma pp_view_append_in_place:
  assumes "s \<le> e" "e \<le> length buf"
  shows "take (e + length xs - s) (drop s (set_at buf e xs)) = take (e - s) (drop s buf) @ xs"
proof -
  have "take (e + length xs - s) (drop s (set_at buf e xs)) = drop s (take (e + length xs) (set_at buf e xs))"
    by (simp add: drop_take)
  also have "\<dots> = drop s (take e buf @ xs)" using assms by (simp add: take_set_at)
  also have "\<dots> = take (e - s) (drop s buf) @ xs" using assms by (simp add: drop_take)
  finally show ?thesis .
qed

lemma pp_append_spec:
  assumes "pp_rep p"
  shows "pp_rep (pp_append xs p) \<and> pp_view (pp_append xs p) = pp_view p @ xs"
proof -
  let ?b = "pp_buffer p" and ?s = "pp_start p" and ?e = "pp_end p"
  let ?live = "?e - ?s"
  have r: "?s \<le> ?e" "?e \<le> length ?b" using assms by (simp_all add: pp_rep_def)
  consider "length ?b - ?e \<ge> length xs"
    | "\<not> length ?b - ?e \<ge> length xs" "?s > 0 \<and> length ?b \<ge> ?live + length xs"
    | "\<not> length ?b - ?e \<ge> length xs" "\<not> (?s > 0 \<and> length ?b \<ge> ?live + length xs)" by blast
  then show ?thesis
  proof cases
    case 1
    then show ?thesis using r pp_view_append_in_place [OF r, of xs]
      by (simp add: pp_append_def pp_rep_def pp_view_def Let_def length_set_at)
  next
    case 2
    have l: "?live \<le> length (move_down ?b ?s ?e)" using r by (simp add: length_move_down)
    show ?thesis using 2 r take_set_at [OF l, of xs] take_move_down [OF r]
      by (simp add: pp_append_def pp_rep_def pp_view_def pp_pending_def Let_def length_set_at
          length_move_down)
  next
    case 3
    define cap where "cap = grow_capacity (max 64 (if length ?b = 0 then 64 else length ?b))
        (?live + length xs)"
    define buf where "buf = set_at (replicate cap 0) 0 (take ?live (drop ?s ?b))"
    have cap: "?live + length xs \<le> cap" unfolding cap_def by (rule grow_capacity_ge) simp
    have lb: "length buf = cap" using cap r by (simp add: buf_def length_set_at)
    have tb: "take ?live buf = take ?live (drop ?s ?b)"
      using take_set_at [of 0 "replicate cap 0" "take ?live (drop ?s ?b)"] r by (simp add: buf_def)
    have "pp_append xs p = p\<lparr>pp_buffer := set_at buf ?live xs, pp_start := 0, pp_end := ?live + length xs\<rparr>"
      using 3 by (auto simp: pp_append_def Let_def pp_pending_def cap_def buf_def)
    then show ?thesis using cap take_set_at [of ?live buf xs] tb
      by (simp add: pp_rep_def pp_view_def length_set_at lb)
  qed
qed

lemma pp_append_fields [simp]:
  "pp_absStart (pp_append xs p) = pp_absStart p" "pp_searchOff (pp_append xs p) = pp_searchOff p"
  "pp_maxPending (pp_append xs p) = pp_maxPending p" "pp_config (pp_append xs p) = pp_config p"
  "pp_discarded (pp_append xs p) = pp_discarded p" "pp_overflow (pp_append xs p) = pp_overflow p"
  "pp_resync (pp_append xs p) = pp_resync p"
  by (simp_all add: pp_append_def Let_def)

lemma pp_consume_spec:
  "pp_rep p \<Longrightarrow> n \<le> length (pp_view p) \<Longrightarrow>
    pp_rep (pp_consume n p) \<and> pp_view (pp_consume n p) = drop n (pp_view p)"
  by (auto simp: pp_rep_def pp_view_def drop_take ac_simps)

lemma pp_compact_spec:
  "pp_rep p \<Longrightarrow> pp_rep (pp_compactBuffer p) \<and> pp_view (pp_compactBuffer p) = pp_view p"
  using take_move_down [of "pp_start p" "pp_end p" "pp_buffer p"]
    length_move_down [of "pp_start p" "pp_end p" "pp_buffer p"]
  by (auto simp: pp_compactBuffer_def pp_rep_def pp_view_def pp_pending_def)

lemma pp_compact_fields [simp]:
  "pp_absStart (pp_compactBuffer p) = pp_absStart p"
  "pp_maxPending (pp_compactBuffer p) = pp_maxPending p" "pp_config (pp_compactBuffer p) = pp_config p"
  "pp_discarded (pp_compactBuffer p) = pp_discarded p" "pp_overflow (pp_compactBuffer p) = pp_overflow p"
  "pp_resync (pp_compactBuffer p) = pp_resync p"
  by (simp_all add: pp_compactBuffer_def)

lemma pp_compact_searchOff:
  "pp_searchOff (pp_compactBuffer p) - pp_absStart p \<le> pp_searchOff p - pp_absStart p"
  by (simp add: pp_compactBuffer_def)

section \<open>The specification: one byte at a time\<close>

text \<open>
  The state a caller can observe: the unframed bytes, the absolute offset of the first one
  and the counters.  \<open>extraction\<close> says what one step may take from the unframed bytes:
  the frame (or none, when a byte with an implausible length is dropped) and the number of
  bytes it consumes.
\<close>

record stream_state =
  ss_pend :: bytes
  ss_off :: nat
  ss_disc :: nat
  ss_ovf :: nat
  ss_rsy :: nat

definition pp_abs :: "parser \<Rightarrow> stream_state" where
  "pp_abs p = \<lparr>ss_pend = pp_view p, ss_off = pp_absStart p, ss_disc = pp_discarded p,
     ss_ovf = pp_overflow p, ss_rsy = pp_resync p\<rparr>"

fun extraction :: "byte_config \<Rightarrow> nat \<Rightarrow> bytes \<Rightarrow> (bytes option \<times> nat) option" where
  "extraction (Fixed n) mx v = (if length v < n then None else Some (Some (take n v), n))"
| "extraction (Delimiter d incl) mx v =
     (case indexOfArrayLike v d 0 of
        None \<Rightarrow> None
      | Some m \<Rightarrow>
          let dl = (if incl then m + length d else m) in
          if dl > mx then None else Some (Some (take dl v), m + length d))"
| "extraction (Length off sz be adj) mx v =
     (if length v < off + field_width sz then None
      else let len = adj + length_value be (take (field_width sz) (drop off v)) in
        if len < off + field_width sz \<or> len > MAX_LENGTH_FRAME_BYTES then Some (None, 1)
        else if length v < len then None else Some (Some (take len v), len))"

definition took :: "bytes option \<Rightarrow> nat \<Rightarrow> stream_state \<Rightarrow> stream_state" where
  "took fo k s = s\<lparr>ss_pend := drop k (ss_pend s), ss_off := ss_off s + k,
     ss_disc := ss_disc s + (if fo = None then k else 0),
     ss_rsy := ss_rsy s + (if fo = None then 1 else 0)\<rparr>"

definition frame_of :: "bytes option \<Rightarrow> nat \<Rightarrow> parsed_frame list" where
  "frame_of fo off = (case fo of None \<Rightarrow> [] | Some d \<Rightarrow> [\<lparr>pf_data = d, pf_offset = off\<rparr>])"

function spec_drain :: "byte_config \<Rightarrow> nat \<Rightarrow> stream_state \<Rightarrow> parsed_frame list \<times> stream_state" where
  "spec_drain cfg mx s =
     (case extraction cfg mx (ss_pend s) of
        None \<Rightarrow> ([], s)
      | Some (fo, k) \<Rightarrow>
          if k = 0 \<or> k > length (ss_pend s) then ([], s)
          else let (fs, s') = spec_drain cfg mx (took fo k s) in (frame_of fo (ss_off s) @ fs, s'))"
  by pat_completeness auto
termination
  by (relation "measure (\<lambda>(cfg, mx, s). length (ss_pend s))") (auto simp: took_def)

declare spec_drain.simps [simp del]

fun spec_overflow :: "byte_config \<Rightarrow> nat \<Rightarrow> stream_state \<Rightarrow> stream_state" where
  "spec_overflow (Delimiter d incl) mx s =
     (if length (ss_pend s) \<le> mx then s
      else let k = length (ss_pend s) - (length d - 1) in
        s\<lparr>ss_pend := drop k (ss_pend s), ss_off := ss_off s + k, ss_disc := ss_disc s + k,
          ss_ovf := ss_ovf s + 1, ss_rsy := ss_rsy s + 1\<rparr>)"
| "spec_overflow _ mx s = s"

definition spec_slice :: "byte_config \<Rightarrow> nat \<Rightarrow> bytes \<Rightarrow> stream_state \<Rightarrow> parsed_frame list \<times> stream_state" where
  "spec_slice cfg mx bs s =
     (let (fs, s') = spec_drain cfg mx (s\<lparr>ss_pend := ss_pend s @ bs\<rparr>) in (fs, spec_overflow cfg mx s'))"

fun spec_feed :: "byte_config \<Rightarrow> nat \<Rightarrow> bytes \<Rightarrow> stream_state \<Rightarrow> parsed_frame list \<times> stream_state" where
  "spec_feed cfg mx [] s = ([], s)"
| "spec_feed cfg mx (b # bs) s =
     (let (fs, s1) = spec_slice cfg mx [b] s; (gs, s2) = spec_feed cfg mx bs s1 in (fs @ gs, s2))"

lemma spec_feed_append:
  "spec_feed cfg mx (xs @ ys) s =
     (let (fs, s1) = spec_feed cfg mx xs s; (gs, s2) = spec_feed cfg mx ys s1 in (fs @ gs, s2))"
  by (induction xs arbitrary: s) (auto simp: Let_def split: prod.splits)

section \<open>Extraction does not depend on what follows\<close>

fun valid_config :: "byte_config \<Rightarrow> nat \<Rightarrow> bool" where
  "valid_config (Delimiter d incl) mx \<longleftrightarrow> d \<noteq> [] \<and> length d \<le> mx"
| "valid_config (Fixed n) mx \<longleftrightarrow> 0 < n"
| "valid_config (Length _ _ _ _) mx \<longleftrightarrow> True"

lemma match_at_append: "match_at v d i \<Longrightarrow> match_at (v @ w) d i"
  by (auto simp: match_at_def)

lemma match_at_append_iff: "i + length d \<le> length v \<Longrightarrow> match_at (v @ w) d i = match_at v d i"
  by (auto simp: match_at_def)

lemma index_Some_iff:
  assumes "d \<noteq> []"
  shows "indexOfArrayLike v d frm = Some m \<longleftrightarrow>
    frm \<le> m \<and> match_at v d m \<and> (\<forall>k. frm \<le> k \<and> k < m \<longrightarrow> \<not> match_at v d k)"
proof
  assume "indexOfArrayLike v d frm = Some m"
  then show "frm \<le> m \<and> match_at v d m \<and> (\<forall>k. frm \<le> k \<and> k < m \<longrightarrow> \<not> match_at v d k)"
    using indexOfArrayLike_spec [OF assms, of frm v] by simp
next
  assume m: "frm \<le> m \<and> match_at v d m \<and> (\<forall>k. frm \<le> k \<and> k < m \<longrightarrow> \<not> match_at v d k)"
  show "indexOfArrayLike v d frm = Some m"
    using indexOfArrayLike_spec [OF assms, of frm v] m
    by (auto split: option.splits) (metis linorder_neqE_nat)
qed

lemma index_None_iff:
  assumes "d \<noteq> []"
  shows "indexOfArrayLike v d frm = None \<longleftrightarrow> (\<forall>k \<ge> frm. \<not> match_at v d k)"
  using indexOfArrayLike_spec [OF assms, of frm v] by (auto split: option.splits)

lemma index_append:
  assumes "d \<noteq> []" "indexOfArrayLike v d frm = Some m"
  shows "indexOfArrayLike (v @ w) d frm = Some m"
proof -
  from assms have m: "frm \<le> m" "match_at v d m" "\<forall>k. frm \<le> k \<and> k < m \<longrightarrow> \<not> match_at v d k"
    by (simp_all add: index_Some_iff)
  have "\<not> match_at (v @ w) d k" if "frm \<le> k" "k < m" for k
    using that m match_at_append_iff [of k d v w] by (auto simp: match_at_def [of v d m])
  with m show ?thesis using assms(1) by (simp add: index_Some_iff match_at_append)
qed

lemma extraction_append:
  assumes "valid_config cfg mx" "extraction cfg mx v = Some (fo, k)"
  shows "extraction cfg mx (v @ w) = Some (fo, k)"
proof (cases cfg)
  case (Delimiter d incl)
  with assms obtain m where m: "indexOfArrayLike v d 0 = Some m" "d \<noteq> []" by (auto split: option.splits)
  have "m + length d \<le> length v" using m(1) by (rule indexOfArrayLike_bound)
  then show ?thesis using assms(2) Delimiter m index_append [OF m(2,1), of w]
    by (auto simp: Let_def split: if_splits)
next
  case (Length off sz be adj)
  with assms(2) show ?thesis by (auto simp: Let_def split: if_splits)
next
  case (Fixed n)
  with assms(2) show ?thesis by (auto split: if_splits)
qed

lemma extraction_consumes:
  assumes "valid_config cfg mx" "extraction cfg mx v = Some (fo, k)"
  shows "0 < k \<and> k \<le> length v"
proof (cases cfg)
  case (Delimiter d incl)
  with assms show ?thesis using indexOfArrayLike_bound [of v d 0]
    by (auto simp: Let_def split: option.splits if_splits)
next
  case (Length off sz be adj)
  with assms(2) field_width_pos [of sz] show ?thesis by (auto simp: Let_def split: if_splits)
next
  case (Fixed n)
  with assms show ?thesis by (auto split: if_splits)
qed

lemma spec_drain_None: "extraction cfg mx (ss_pend s) = None \<Longrightarrow> spec_drain cfg mx s = ([], s)"
  by (subst spec_drain.simps) simp

lemma spec_drain_Some:
  "valid_config cfg mx \<Longrightarrow> extraction cfg mx (ss_pend s) = Some (fo, k) \<Longrightarrow>
    spec_drain cfg mx s =
      (frame_of fo (ss_off s) @ fst (spec_drain cfg mx (took fo k s)), snd (spec_drain cfg mx (took fo k s)))"
  using extraction_consumes [of cfg mx "ss_pend s" fo k]
  by (subst spec_drain.simps) (auto split: prod.splits)

lemma spec_drain_append:
  assumes "valid_config cfg mx"
  shows "spec_drain cfg mx (s\<lparr>ss_pend := ss_pend s @ w\<rparr>) =
    (let (fs, s1) = spec_drain cfg mx s; (gs, s2) = spec_drain cfg mx (s1\<lparr>ss_pend := ss_pend s1 @ w\<rparr>)
     in (fs @ gs, s2))"
  using assms
proof (induction cfg mx s rule: spec_drain.induct)
  case (1 cfg mx s)
  show ?case
  proof (cases "extraction cfg mx (ss_pend s)")
    case None
    then show ?thesis by (simp add: spec_drain_None split: prod.splits)
  next
    case (Some e)
    then obtain fo k where e: "extraction cfg mx (ss_pend s) = Some (fo, k)" by (cases e) auto
    note k = extraction_consumes [OF "1.prems" e]
    have e': "extraction cfg mx (ss_pend (s\<lparr>ss_pend := ss_pend s @ w\<rparr>)) = Some (fo, k)"
      using extraction_append [OF "1.prems" e] by simp
    have t: "took fo k (s\<lparr>ss_pend := ss_pend s @ w\<rparr>)
        = (took fo k s)\<lparr>ss_pend := ss_pend (took fo k s) @ w\<rparr>"
      using k by (simp add: took_def)
    have ih: "spec_drain cfg mx ((took fo k s)\<lparr>ss_pend := ss_pend (took fo k s) @ w\<rparr>) =
      (let (fs, s1) = spec_drain cfg mx (took fo k s);
           (gs, s2) = spec_drain cfg mx (s1\<lparr>ss_pend := ss_pend s1 @ w\<rparr>) in (fs @ gs, s2))"
      using "1.IH" [OF e refl] k "1.prems" by auto
    show ?thesis
      unfolding spec_drain_Some [OF "1.prems" e'] spec_drain_Some [OF "1.prems" e] t ih
      by (auto simp: Let_def split: prod.splits)
  qed
qed

lemma spec_drain_stuck:
  assumes "valid_config cfg mx"
  shows "extraction cfg mx (ss_pend (snd (spec_drain cfg mx s))) = None \<and>
    length (ss_pend (snd (spec_drain cfg mx s))) \<le> length (ss_pend s)"
  using assms
proof (induction cfg mx s rule: spec_drain.induct)
  case (1 cfg mx s)
  show ?case
  proof (cases "extraction cfg mx (ss_pend s)")
    case (Some e)
    then obtain fo k where e: "extraction cfg mx (ss_pend s) = Some (fo, k)" by (cases e) auto
    show ?thesis using "1.IH" [OF e refl] extraction_consumes [OF "1.prems" e] "1.prems"
      by (auto simp: spec_drain_Some [OF "1.prems" e] took_def)
  qed (simp add: spec_drain_None)
qed

lemma spec_overflow_id: "length (ss_pend s) \<le> mx \<Longrightarrow> spec_overflow cfg mx s = s"
  by (cases cfg) auto

lemma spec_overflow_unlimited: "(\<And>d i. cfg \<noteq> Delimiter d i) \<Longrightarrow> spec_overflow cfg mx s = s"
  by (cases cfg) auto

text \<open>A slice that never passes the ceiling by more than its last byte is the byte-wise feed.\<close>

lemma spec_slice_bytewise:
  assumes "valid_config cfg mx" "bs \<noteq> []"
    and "(\<exists>d i. cfg = Delimiter d i) \<Longrightarrow> length (ss_pend s) + length bs \<le> mx + 1"
  shows "spec_slice cfg mx bs s = spec_feed cfg mx bs s"
  using assms
proof (induction bs arbitrary: s)
  case (Cons b bs)
  show ?case
  proof (cases "bs = []")
    case True
    then show ?thesis by (simp split: prod.splits)
  next
    case False
    let ?s1 = "snd (spec_drain cfg mx (s\<lparr>ss_pend := ss_pend s @ [b]\<rparr>))"
    have l1: "length (ss_pend ?s1) \<le> length (ss_pend s) + 1"
      using spec_drain_stuck [OF Cons.prems(1), of "s\<lparr>ss_pend := ss_pend s @ [b]\<rparr>"] by simp
    have ov: "spec_overflow cfg mx ?s1 = ?s1"
    proof (cases "\<exists>d i. cfg = Delimiter d i")
      case True
      have "1 \<le> length bs" using False by (cases bs) auto
      with True Cons.prems(3) l1 show ?thesis by (intro spec_overflow_id) simp
    qed (blast intro: spec_overflow_unlimited)
    have ih: "spec_slice cfg mx bs ?s1 = spec_feed cfg mx bs ?s1"
      using Cons.prems False l1 by (intro Cons.IH) auto
    have "spec_drain cfg mx (s\<lparr>ss_pend := ss_pend s @ b # bs\<rparr>) =
      (let (fs, s1) = spec_drain cfg mx (s\<lparr>ss_pend := ss_pend s @ [b]\<rparr>);
           (gs, s2) = spec_drain cfg mx (s1\<lparr>ss_pend := ss_pend s1 @ bs\<rparr>) in (fs @ gs, s2))"
      using spec_drain_append [OF Cons.prems(1), of "s\<lparr>ss_pend := ss_pend s @ [b]\<rparr>" bs] by simp
    then show ?thesis
      using ih ov by (simp add: spec_slice_def Let_def split: prod.splits) auto
  qed
qed simp

section \<open>The class refines the specification\<close>

definition rel_search :: "parser \<Rightarrow> nat" where
  "rel_search p = pp_searchOff p - pp_absStart p"

text \<open>Inside a drain: no match starts before the saved search offset.\<close>

definition drain_inv :: "parser \<Rightarrow> bool" where
  "drain_inv p \<longleftrightarrow> pp_rep p \<and> valid_config (pp_config p) (pp_maxPending p) \<and>
     (\<forall>d i. pp_config p = Delimiter d i \<longrightarrow> (\<forall>k < rel_search p. \<not> match_at (pp_view p) d k))"

text \<open>Between calls: nothing can be extracted, the ceiling holds, and only the suffix that
  could begin a delimiter is left to search.\<close>

definition pp_inv :: "parser \<Rightarrow> bool" where
  "pp_inv p \<longleftrightarrow> pp_rep p \<and> valid_config (pp_config p) (pp_maxPending p) \<and>
     extraction (pp_config p) (pp_maxPending p) (pp_view p) = None \<and>
     (\<forall>d i. pp_config p = Delimiter d i \<longrightarrow> length (pp_view p) \<le> pp_maxPending p \<and>
        rel_search p \<le> length (pp_view p) + 1 - length d)"

lemma index_from_search:
  assumes "drain_inv p" "pp_config p = Delimiter d i"
  shows "indexOfArrayLike (pp_view p) d (pp_searchOff p - pp_absStart p) = indexOfArrayLike (pp_view p) d 0"
proof -
  have d: "d \<noteq> []" and n: "\<And>k. k < rel_search p \<Longrightarrow> \<not> match_at (pp_view p) d k"
    using assms by (auto simp: drain_inv_def)
  show ?thesis
  proof (cases "indexOfArrayLike (pp_view p) d 0")
    case None
    then have "indexOfArrayLike (pp_view p) d frm = None" for frm
      using index_None_iff [OF d] by blast
    then show ?thesis by (simp only:)
  next
    case (Some m)
    then have m: "match_at (pp_view p) d m" "\<forall>k < m. \<not> match_at (pp_view p) d k"
      using index_Some_iff [OF d] by blast+
    have "rel_search p \<le> m" using n m(1) not_le_imp_less by blast
    then have "indexOfArrayLike (pp_view p) d (rel_search p) = Some m"
      using m index_Some_iff [OF d] by blast
    with Some show ?thesis by (simp add: rel_search_def)
  qed
qed

lemma extractOne_stuck:
  assumes "drain_inv p" "extraction (pp_config p) (pp_maxPending p) (pp_view p) = None"
  obtains p' where "pp_extractOne p = (None, p')" "pp_start p' = pp_start p" "pp_abs p' = pp_abs p"
    "pp_rep p'" "pp_config p' = pp_config p" "pp_maxPending p' = pp_maxPending p"
    "\<forall>d i. pp_config p = Delimiter d i \<longrightarrow> rel_search p' \<le> length (pp_view p) + 1 - length d"
proof (cases "pp_config p")
  case (Delimiter d incl)
  note ix = index_from_search [OF assms(1) Delimiter]
  have rep: "pp_rep p" and d: "d \<noteq> []" using assms(1) Delimiter by (auto simp: drain_inv_def)
  show ?thesis
  proof (cases "indexOfArrayLike (pp_view p) d 0")
    case None
    with Delimiter ix rep show ?thesis
      by (intro that [of "p\<lparr>pp_searchOff := pp_absStart p + (length (pp_view p) + 1 - length d)\<rparr>"])
        (simp_all add: pp_extractOne_def Let_def pp_abs_def pp_view_def pp_rep_def rel_search_def)
  next
    case (Some m)
    have "match_at (pp_view p) d m" "m + length d \<le> length (pp_view p)"
      using Some d by (auto simp: index_Some_iff match_at_def)
    moreover then have "rel_search p \<le> m"
      using assms(1) Delimiter by (auto simp: drain_inv_def not_less [symmetric])
    ultimately show ?thesis using Some Delimiter ix rep assms(2)
      by (intro that [of p]) (auto simp: pp_extractOne_def Let_def split: if_splits)
  qed
next
  case (Length off sz be adj)
  with assms show ?thesis
    by (intro that [of p]) (auto simp: pp_extractOne_def Let_def drain_inv_def split: if_splits)
next
  case (Fixed n)
  with assms show ?thesis
    by (intro that [of p]) (auto simp: pp_extractOne_def Let_def drain_inv_def split: if_splits)
qed

lemma extractOne_takes:
  assumes "drain_inv p" "extraction (pp_config p) (pp_maxPending p) (pp_view p) = Some (fo, k)"
  obtains p' f where "pp_extractOne p = (f, p')" "pp_start p' = pp_start p + k" "drain_inv p'"
    "pp_abs p' = took fo k (pp_abs p)" "pp_config p' = pp_config p" "pp_maxPending p' = pp_maxPending p"
    "(case f of None \<Rightarrow> [] | Some f \<Rightarrow> [f]) = frame_of fo (pp_absStart p)"
proof -
  have rep: "pp_rep p" and vc: "valid_config (pp_config p) (pp_maxPending p)"
    using assms(1) by (simp_all add: drain_inv_def)
  have k: "k \<le> length (pp_view p)" using extraction_consumes [OF vc assms(2)] by simp
  note c = pp_consume_spec [OF rep k]
  have view: "pp_view (q\<lparr>pp_searchOff := a\<rparr>) = pp_view q" "pp_rep (q\<lparr>pp_searchOff := a\<rparr>) = pp_rep q"
    "pp_view (q\<lparr>pp_discarded := a, pp_resync := b\<rparr>) = pp_view q"
    "pp_rep (q\<lparr>pp_discarded := a, pp_resync := b\<rparr>) = pp_rep q" for q a b
    by (simp_all add: pp_view_def pp_rep_def)
  show thesis
  proof (cases "pp_config p")
    case (Delimiter d incl)
    with assms(2) obtain m where m: "indexOfArrayLike (pp_view p) d 0 = Some m" by (auto split: option.splits)
    show ?thesis
      using Delimiter index_from_search [OF assms(1) Delimiter] m assms(2) c vc view
      by (intro that [of "Some \<lparr>pf_data = the fo, pf_offset = pp_absStart p\<rparr>"
            "(pp_consume k p)\<lparr>pp_searchOff := pp_absStart (pp_consume k p)\<rparr>"])
        (auto simp: pp_extractOne_def Let_def frame_of_def took_def pp_abs_def drain_inv_def
          rel_search_def split: if_splits)
  next
    case (Length off sz be adj)
    show ?thesis
    proof (cases fo)
      case None
      with assms(2) Length c vc view show ?thesis
        by (intro that [of None "(pp_consume 1 p)\<lparr>pp_discarded := pp_discarded p + 1,
              pp_resync := pp_resync p + 1\<rparr>"])
          (auto simp: pp_extractOne_def Let_def frame_of_def took_def pp_abs_def drain_inv_def
            split: if_splits)
    next
      case (Some d)
      with assms(2) Length c vc show ?thesis
        by (intro that [of "Some \<lparr>pf_data = d, pf_offset = pp_absStart p\<rparr>" "pp_consume k p"])
          (auto simp: pp_extractOne_def Let_def frame_of_def took_def pp_abs_def drain_inv_def
            split: if_splits)
    qed
  next
    case (Fixed n)
    with assms(2) c vc show ?thesis
      by (intro that [of "Some \<lparr>pf_data = the fo, pf_offset = pp_absStart p\<rparr>" "pp_consume k p"])
        (auto simp: pp_extractOne_def Let_def frame_of_def took_def pp_abs_def drain_inv_def
          split: if_splits)
  qed
qed

lemma pp_drain_refines:
  assumes "drain_inv p" "pp_drain p = (fs, p')"
  shows "spec_drain (pp_config p) (pp_maxPending p) (pp_abs p) = (fs, pp_abs p') \<and> pp_rep p' \<and>
    pp_config p' = pp_config p \<and> pp_maxPending p' = pp_maxPending p \<and>
    (\<forall>d i. pp_config p = Delimiter d i \<longrightarrow> rel_search p' \<le> length (pp_view p') + 1 - length d)"
  using assms
proof (induction p arbitrary: fs rule: pp_drain.induct)
  case (1 p)
  have vc: "valid_config (pp_config p) (pp_maxPending p)" using "1.prems"(1) by (simp add: drain_inv_def)
  have pend: "ss_pend (pp_abs q) = pp_view q" "ss_off (pp_abs q) = pp_absStart q" for q
    by (simp_all add: pp_abs_def)
  show ?case
  proof (cases "extraction (pp_config p) (pp_maxPending p) (pp_view p)")
    case None
    obtain q where q: "pp_extractOne p = (None, q)" "pp_start q = pp_start p" "pp_abs q = pp_abs p"
      "pp_rep q" "pp_config q = pp_config p" "pp_maxPending q = pp_maxPending p"
      "\<forall>d i. pp_config p = Delimiter d i \<longrightarrow> rel_search q \<le> length (pp_view p) + 1 - length d"
      using extractOne_stuck [OF "1.prems"(1) None] .
    have "pp_drain p = ([], q)" using q by (subst pp_drain.simps) simp
    with "1.prems"(2) q None show ?thesis by (auto simp: spec_drain_None pp_abs_def)
  next
    case (Some e)
    then obtain fo k where e: "extraction (pp_config p) (pp_maxPending p) (pp_view p) = Some (fo, k)"
      by (cases e) auto
    obtain q f where q: "pp_extractOne p = (f, q)" "pp_start q = pp_start p + k" "drain_inv q"
      "pp_abs q = took fo k (pp_abs p)" "pp_config q = pp_config p" "pp_maxPending q = pp_maxPending p"
      "(case f of None \<Rightarrow> [] | Some f \<Rightarrow> [f]) = frame_of fo (pp_absStart p)"
      using extractOne_takes [OF "1.prems"(1) e] .
    have ne: "pp_start q \<noteq> pp_start p" using extraction_consumes [OF vc e] q(2) by simp
    obtain gs where gs: "pp_drain q = (gs, p')" "fs = frame_of fo (pp_absStart p) @ gs"
      using "1.prems"(2) q(1,7) ne
      by (subst (asm) pp_drain.simps) (auto simp: Let_def split: prod.splits)
    note ih = "1.IH" [OF q(1) [symmetric] refl refl ne q(3) gs(1)]
    show ?thesis using ih gs(2) q(4-6) spec_drain_Some [OF vc, of "pp_abs p"] e
      by (simp add: pend)
  qed
qed

lemma append_drain_inv:
  assumes "pp_inv p"
  shows "drain_inv (pp_append xs p) \<and> pp_abs (pp_append xs p) = (pp_abs p)\<lparr>ss_pend := pp_view p @ xs\<rparr>"
proof -
  have rep: "pp_rep p" using assms by (simp add: pp_inv_def)
  note a = pp_append_spec [OF rep, of xs]
  have "\<not> match_at (pp_view p @ xs) d k"
    if c: "pp_config p = Delimiter d i" and k: "k < rel_search p" for d i k
  proof -
    have d: "d \<noteq> []" "length (pp_view p) \<le> pp_maxPending p"
      "rel_search p \<le> length (pp_view p) + 1 - length d"
      "extraction (Delimiter d i) (pp_maxPending p) (pp_view p) = None"
      using assms c by (auto simp: pp_inv_def)
    have none: "indexOfArrayLike (pp_view p) d 0 = None"
    proof (cases "indexOfArrayLike (pp_view p) d 0")
      case (Some m)
      with indexOfArrayLike_bound [OF Some] d show ?thesis by (auto simp: Let_def split: if_splits)
    qed
    have "k + length d \<le> length (pp_view p)" using k d by linarith
    with none d(1) show ?thesis by (simp add: match_at_append_iff index_None_iff)
  qed
  then show ?thesis using assms a
    by (auto simp: drain_inv_def pp_inv_def rel_search_def pp_abs_def)
qed

lemma enforce_refines:
  assumes "pp_rep p" "valid_config (pp_config p) (pp_maxPending p)"
    and "extraction (pp_config p) (pp_maxPending p) (pp_view p) = None"
    and "\<forall>d i. pp_config p = Delimiter d i \<longrightarrow> rel_search p \<le> length (pp_view p) + 1 - length d"
  defines "q \<equiv> pp_enforcePendingLimit p"
  shows "pp_inv q \<and> pp_abs q = spec_overflow (pp_config p) (pp_maxPending p) (pp_abs p) \<and>
    pp_config q = pp_config p \<and> pp_maxPending q = pp_maxPending p"
proof (cases "pp_config p")
  case (Delimiter d incl)
  have len: "pp_pending p = length (pp_view p)" using pp_view_length [OF assms(1)] by simp
  show ?thesis
  proof (cases "pp_pending p \<le> pp_maxPending p")
    case True
    with Delimiter assms len show ?thesis
      by (simp add: pp_enforcePendingLimit_def pp_inv_def pp_abs_def)
  next
    case False
    have d: "d \<noteq> []" "length d \<le> pp_maxPending p" using assms(2) Delimiter by auto
    let ?k = "length (pp_view p) - (length d - 1)"
    have "?k \<le> length (pp_view p)" by simp
    note c = pp_consume_spec [OF assms(1) this]
    have l: "length (pp_view (pp_consume ?k p)) = length d - 1" using c d False len by simp
    have nomatch: "indexOfArrayLike (pp_view (pp_consume ?k p)) d 0 = None"
      using d l by (cases d) (simp_all add: indexOfArrayLike_def)
    have view: "pp_view (r\<lparr>pp_discarded := a, pp_overflow := b, pp_resync := c, pp_searchOff := e\<rparr>) = pp_view r"
      "pp_rep (r\<lparr>pp_discarded := a, pp_overflow := b, pp_resync := c, pp_searchOff := e\<rparr>) = pp_rep r"
      for r a b c e by (simp_all add: pp_view_def pp_rep_def)
    have "rel_search p \<le> ?k" using assms(4) Delimiter d False len by (cases d) auto
    then have rel: "pp_searchOff p \<le> pp_absStart p + ?k" by (simp add: rel_search_def)
    show ?thesis
      using False Delimiter c d len nomatch l rel
      by (simp add: q_def pp_enforcePendingLimit_def Let_def pp_inv_def pp_abs_def view rel_search_def max_def)
  qed
qed (use assms in \<open>simp_all add: pp_enforcePendingLimit_def pp_inv_def\<close>)

lemma compact_refines:
  assumes "pp_inv p"
  shows "pp_inv (pp_compactBuffer p) \<and> pp_abs (pp_compactBuffer p) = pp_abs p"
proof -
  have rep: "pp_rep p" using assms by (simp add: pp_inv_def)
  show ?thesis using assms pp_compact_spec [OF rep] pp_compact_searchOff [of p]
    by (auto simp: pp_inv_def pp_abs_def rel_search_def)
qed

text \<open>One slice: append, drain, enforce, compact.\<close>

lemma slice_refines:
  assumes "pp_inv p" "pp_drain (pp_append xs p) = (fs, p1)"
  defines "q \<equiv> pp_compactBuffer (pp_enforcePendingLimit p1)"
  shows "spec_slice (pp_config p) (pp_maxPending p) xs (pp_abs p) = (fs, pp_abs q) \<and> pp_inv q \<and>
    pp_config q = pp_config p \<and> pp_maxPending q = pp_maxPending p"
proof -
  let ?c = "pp_config p" and ?m = "pp_maxPending p"
  have vc: "valid_config ?c ?m" using assms(1) by (simp add: pp_inv_def)
  note a = append_drain_inv [OF assms(1), of xs]
  have d: "spec_drain ?c ?m ((pp_abs p)\<lparr>ss_pend := pp_view p @ xs\<rparr>) = (fs, pp_abs p1)" "pp_rep p1"
    "pp_config p1 = ?c" "pp_maxPending p1 = ?m"
    "\<forall>d i. ?c = Delimiter d i \<longrightarrow> rel_search p1 \<le> length (pp_view p1) + 1 - length d"
    using pp_drain_refines [OF conjunct1 [OF a] assms(2)] a by simp_all
  have stuck: "extraction ?c ?m (pp_view p1) = None"
    using spec_drain_stuck [OF vc, of "(pp_abs p)\<lparr>ss_pend := pp_view p @ xs\<rparr>"] d(1)
    by (simp add: pp_abs_def)
  have e: "pp_inv (pp_enforcePendingLimit p1)"
    "pp_abs (pp_enforcePendingLimit p1) = spec_overflow ?c ?m (pp_abs p1)"
    "pp_config (pp_enforcePendingLimit p1) = ?c" "pp_maxPending (pp_enforcePendingLimit p1) = ?m"
    using enforce_refines [of p1] d(2-5) vc stuck by simp_all
  have pend: "ss_pend (pp_abs p) = pp_view p" by (simp add: pp_abs_def)
  show ?thesis using d(1) e compact_refines [OF e(1)]
    by (simp add: q_def spec_slice_def pend)
qed

lemma enforce_non_delimiter: "\<nexists>d i. pp_config p = Delimiter d i \<Longrightarrow> pp_enforcePendingLimit p = p"
  by (cases "pp_config p") (simp_all add: pp_enforcePendingLimit_def)

lemma pp_feed_delimiter_refines:
  assumes "pp_inv p" "pp_config p = Delimiter d i" "pp_feed_delimiter xs p = (fs, q)"
  shows "spec_feed (pp_config p) (pp_maxPending p) xs (pp_abs p) = (fs, pp_abs q) \<and> pp_inv q \<and>
    pp_config q = pp_config p \<and> pp_maxPending q = pp_maxPending p"
  using assms
proof (induction xs p arbitrary: fs rule: pp_feed_delimiter.induct)
  case (1 xs p)
  let ?c = "pp_config p" and ?m = "pp_maxPending p"
  show ?case
  proof (cases "xs = []")
    case True
    with "1.prems" show ?thesis by (subst (asm) pp_feed_delimiter.simps) auto
  next
    case False
    define room where "room = ?m - pp_pending p"
    define tk where "tk = min (length xs) (max 1 (room + 1))"
    obtain gs p1 where dr: "pp_drain (pp_append (take tk xs) p) = (gs, p1)" by fastforce
    define p2 where "p2 = pp_compactBuffer (pp_enforcePendingLimit p1)"
    obtain hs where hs: "pp_feed_delimiter (drop tk xs) p2 = (hs, q)" "fs = gs @ hs"
      using "1.prems"(3) False dr
      by (subst (asm) pp_feed_delimiter.simps)
        (auto simp: Let_def room_def tk_def p2_def split: prod.splits)
    note sl = slice_refines [OF "1.prems"(1) dr, folded p2_def]
    have len: "length (pp_view p) = pp_pending p" "length (pp_view p) \<le> ?m"
      using "1.prems"(1,2) pp_view_length by (auto simp: pp_inv_def)
    have vc: "valid_config ?c ?m" using "1.prems"(1) by (simp add: pp_inv_def)
    have tk: "take tk xs \<noteq> []" "length (pp_view p) + length (take tk xs) \<le> ?m + 1"
      using False len by (auto simp: tk_def room_def)
    have bytewise: "spec_slice ?c ?m (take tk xs) (pp_abs p) = spec_feed ?c ?m (take tk xs) (pp_abs p)"
      using spec_slice_bytewise [OF vc tk(1)] tk(2) by (simp add: pp_abs_def)
    have ih: "spec_feed (pp_config p2) (pp_maxPending p2) (drop tk xs) (pp_abs p2) = (hs, pp_abs q) \<and>
      pp_inv q \<and> pp_config q = pp_config p2 \<and> pp_maxPending q = pp_maxPending p2"
      using "1.IH" [OF False room_def tk_def dr [symmetric] refl] sl "1.prems"(2) hs(1)
      by (simp add: p2_def)
    have one: "spec_feed ?c ?m (take tk xs) (pp_abs p) = (gs, pp_abs p2)"
      using sl bytewise by metis
    have two: "spec_feed ?c ?m (drop tk xs) (pp_abs p2) = (hs, pp_abs q)"
      using ih sl by metis
    have "spec_feed ?c ?m (take tk xs @ drop tk xs) (pp_abs p) = (gs @ hs, pp_abs q)"
      by (simp only: spec_feed_append one two Let_def prod.case)
    then show ?thesis using ih sl hs(2) by simp
  qed
qed

lemma pp_feed_refines:
  assumes "pp_inv p" "pp_feed xs p = (fs, q)"
  shows "spec_feed (pp_config p) (pp_maxPending p) xs (pp_abs p) = (fs, pp_abs q) \<and> pp_inv q \<and>
    pp_config q = pp_config p \<and> pp_maxPending q = pp_maxPending p"
proof -
  consider "xs = []" | d i where "xs \<noteq> []" "pp_config p = Delimiter d i"
    | "xs \<noteq> []" "\<nexists>d i. pp_config p = Delimiter d i" by blast
  then show ?thesis
  proof cases
    case 1
    with assms show ?thesis by (simp add: pp_feed_def)
  next
    case 2
    then show ?thesis using assms pp_feed_delimiter_refines [OF assms(1) 2(2), of xs]
      by (simp add: pp_feed_def)
  next
    case 3
    have vc: "valid_config (pp_config p) (pp_maxPending p)" using assms(1) by (simp add: pp_inv_def)
    obtain p1 where p1: "pp_drain (pp_append xs p) = (fs, p1)" "q = pp_compactBuffer p1"
      using assms(2) 3 by (cases "pp_config p") (auto simp: pp_feed_def Let_def split: prod.splits)
    have "pp_config p1 = pp_config p"
      using pp_drain_refines [OF conjunct1 [OF append_drain_inv [OF assms(1)]] p1(1)] by simp
    then have e: "pp_enforcePendingLimit p1 = p1" using 3 by (simp add: enforce_non_delimiter)
    have "spec_slice (pp_config p) (pp_maxPending p) xs (pp_abs p)
        = spec_feed (pp_config p) (pp_maxPending p) xs (pp_abs p)"
      using 3 by (intro spec_slice_bytewise [OF vc]) auto
    then show ?thesis using slice_refines [OF assms(1) p1(1)] by (simp add: e p1(2))
  qed
qed

section \<open>Construction\<close>

lemma assertIntegerRange_Inr:
  "assertIntegerRange v lo hi = Inr n \<Longrightarrow> 0 \<le> lo \<Longrightarrow> lo \<le> int n \<and> int n \<le> hi"
  by (auto simp: assertIntegerRange_def split: if_splits)

lemma assertBytes_length: "assertBytes vs = Inr bs \<Longrightarrow> length bs = length vs"
  by (induction vs arbitrary: bs) (auto split: sum.splits)

lemma validate_valid:
  assumes "validateAndCloneConfig raw = Inr cfg"
  shows "valid_config cfg (max n MAX_DELIMITER_BYTES) \<and>
    (\<forall>d i. cfg = Delimiter d i \<longrightarrow> d \<noteq> [] \<and> length d \<le> MAX_DELIMITER_BYTES)"
proof (cases raw)
  case (RawDelimiter ds incl)
  with assms obtain k bs where k: "assertIntegerRange (js_int (int (length ds))) 1 (int MAX_DELIMITER_BYTES) = Inr k"
    "assertBytes ds = Inr bs" "cfg = Delimiter bs incl"
    by (auto split: sum.splits)
  have "1 \<le> length ds \<and> length ds \<le> MAX_DELIMITER_BYTES"
    using k(1) by (auto simp: assertIntegerRange_def Suc_le_eq split: if_splits)
  with k assertBytes_length [OF k(2)] show ?thesis by auto
next
  case (RawFixed n)
  with assms show ?thesis by (auto split: sum.splits dest: assertIntegerRange_Inr)
qed (use assms in \<open>auto split: sum.splits option.splits\<close>)

definition stream_start :: stream_state where
  "stream_start = \<lparr>ss_pend = [], ss_off = 0, ss_disc = 0, ss_ovf = 0, ss_rsy = 0\<rparr>"

lemma extraction_Nil: "valid_config cfg mx \<Longrightarrow> extraction cfg mx [] = None"
  using field_width_pos by (cases cfg) (auto simp: indexOfArrayLike_def)

lemma pp_new_inv:
  assumes "pp_new raw opt = Inr p"
  shows "pp_inv p \<and> pp_abs p = stream_start"
proof -
  obtain cfg where c: "validateAndCloneConfig raw = Inr cfg"
    using assms by (auto simp: pp_new_def split: sum.splits)
  have p: "pp_config p = cfg" "pp_view p = []" "pp_rep p" "rel_search p = 0" "pp_abs p = stream_start"
    "pp_maxPending p = (case cfg of
        Delimiter d _ \<Rightarrow> min DEFAULT_MAX_PENDING_BYTES (max (normalized_limit opt) (length d))
      | _ \<Rightarrow> DEFAULT_MAX_PENDING_BYTES)"
    using assms c by (auto simp: pp_new_def pp_view_def pp_rep_def rel_search_def pp_abs_def stream_start_def)
  have vc: "valid_config cfg (pp_maxPending p)"
    using validate_valid [OF c, of 0] p(6)
    by (cases cfg) (auto simp: DEFAULT_MAX_PENDING_BYTES_def MAX_DELIMITER_BYTES_def)
  then show ?thesis using p extraction_Nil [OF vc] by (auto simp: pp_inv_def)
qed

lemma pp_reset_inv:
  assumes "pp_inv p"
  shows "pp_inv (pp_reset p) \<and> pp_abs (pp_reset p) = stream_start"
proof -
  have vc: "valid_config (pp_config p) (pp_maxPending p)" using assms by (simp add: pp_inv_def)
  show ?thesis using vc extraction_Nil [OF vc]
    by (auto simp: pp_reset_def pp_inv_def pp_abs_def pp_view_def pp_rep_def rel_search_def stream_start_def)
qed

section \<open>What the frames are\<close>

definition segment :: "bytes \<Rightarrow> parsed_frame \<Rightarrow> bool" where
  "segment st f \<longleftrightarrow> pf_offset f + length (pf_data f) \<le> length st \<and>
     take (length (pf_data f)) (drop (pf_offset f) st) = pf_data f"

text \<open>In order and without overlap, from offset \<open>lo\<close> to offset \<open>hi\<close>.\<close>

fun chained :: "nat \<Rightarrow> parsed_frame list \<Rightarrow> nat \<Rightarrow> bool" where
  "chained lo [] hi \<longleftrightarrow> lo \<le> hi"
| "chained lo (f # fs) hi \<longleftrightarrow> lo \<le> pf_offset f \<and> chained (pf_offset f + length (pf_data f)) fs hi"

fun delimiter_bytes :: "byte_config \<Rightarrow> nat" where
  "delimiter_bytes (Delimiter d False) = length d"
| "delimiter_bytes _ = 0"

definition wire_bytes :: "byte_config \<Rightarrow> parsed_frame list \<Rightarrow> nat" where
  "wire_bytes cfg fs = sum_list (map (\<lambda>f. length (pf_data f) + delimiter_bytes cfg) fs)"

fun mode_ok :: "byte_config \<Rightarrow> nat \<Rightarrow> bytes \<Rightarrow> bool" where
  "mode_ok (Fixed n) mx b \<longleftrightarrow> length b = n"
| "mode_ok (Delimiter d False) mx b \<longleftrightarrow> length b \<le> mx \<and> indexOfArrayLike (b @ d) d 0 = Some (length b)"
| "mode_ok (Delimiter d True) mx b \<longleftrightarrow> length b \<le> mx \<and> indexOfArrayLike b d 0 = Some (length b - length d)"
| "mode_ok (Length off sz be adj) mx b \<longleftrightarrow>
     off + field_width sz \<le> length b \<and> length b \<le> MAX_LENGTH_FRAME_BYTES \<and>
     length b = adj + length_value be (take (field_width sz) (drop off b))"

text \<open>The same as a specification of the wire format, without the parser's own search and
  accumulation: the first delimiter of the wire ends the frame, and the field's value is its
  bytes by weight.\<close>

definition first_delimiter :: "bytes \<Rightarrow> bytes \<Rightarrow> nat \<Rightarrow> bool" where
  "first_delimiter xs d n \<longleftrightarrow> n + length d \<le> length xs \<and> take (length d) (drop n xs) = d \<and>
     (\<forall>k < n. take (length d) (drop k xs) \<noteq> d)"

fun le_value :: "bytes \<Rightarrow> nat" where
  "le_value [] = 0"
| "le_value (b # bs) = unat b + 256 * le_value bs"

fun frame_ok :: "byte_config \<Rightarrow> nat \<Rightarrow> bytes \<Rightarrow> bool" where
  "frame_ok (Fixed n) mx b \<longleftrightarrow> length b = n"
| "frame_ok (Delimiter d incl) mx b \<longleftrightarrow> length b \<le> mx \<and>
     (if incl then length d \<le> length b \<and> first_delimiter b d (length b - length d)
      else first_delimiter (b @ d) d (length b))"
| "frame_ok (Length off sz be adj) mx b \<longleftrightarrow>
     off + field_width sz \<le> length b \<and> length b \<le> MAX_LENGTH_FRAME_BYTES \<and>
     length b = adj + le_value (let field = take (field_width sz) (drop off b) in if be then rev field else field)"

lemma length_value_eq: "length_value be field = le_value (if be then rev field else field)"
proof -
  have "foldl (\<lambda>acc b. acc * 256 + unat b) 0 xs = le_value (rev xs)" for xs :: bytes
    by (induction xs rule: rev_induct) simp_all
  then show ?thesis by (simp add: length_value_def)
qed

lemma first_delimiter_iff: "d \<noteq> [] \<Longrightarrow> indexOfArrayLike xs d 0 = Some n \<longleftrightarrow> first_delimiter xs d n"
  by (auto simp: index_Some_iff first_delimiter_def match_at_def)

lemma frame_ok_iff: "valid_config cfg mx \<Longrightarrow> frame_ok cfg mx b \<longleftrightarrow> mode_ok cfg mx b"
proof (cases cfg)
  case (Delimiter d incl)
  assume "valid_config cfg mx"
  then have d: "d \<noteq> []" using Delimiter by simp
  have "first_delimiter b d (length b - length d) \<Longrightarrow> length d \<le> length b" by (auto simp: first_delimiter_def)
  then show ?thesis using Delimiter first_delimiter_iff [OF d] by (cases incl) auto
qed (auto simp: length_value_eq Let_def)

lemma chained_mono: "chained lo fs mid \<Longrightarrow> mid \<le> hi \<Longrightarrow> chained lo fs hi"
  by (induction lo fs mid rule: chained.induct) auto

lemma chained_append: "chained lo fs mid \<Longrightarrow> chained mid gs hi \<Longrightarrow> chained lo (fs @ gs) hi"
proof (induction lo fs mid rule: chained.induct)
  case (1 lo mid)
  then show ?case by (cases gs) auto
qed auto

lemma segment_append: "segment st f \<Longrightarrow> segment (st @ ws) f"
  by (auto simp: segment_def)

lemma index_prefix:
  assumes "d \<noteq> []" "indexOfArrayLike v d 0 = Some m" "m + length d \<le> n"
  shows "indexOfArrayLike (take n v) d 0 = Some m"
proof -
  have m: "match_at v d m" "\<forall>k < m. \<not> match_at v d k"
    using assms by (simp_all add: index_Some_iff)
  have v: "v = take n v @ drop n v" by simp
  have b: "m + length d \<le> length (take n v)"
    using indexOfArrayLike_bound [OF assms(2)] assms(3) by simp
  have "match_at (take n v) d m" using match_at_append_iff [OF b, of "drop n v"] m(1) by simp
  moreover have "\<not> match_at (take n v) d k" if "k < m" for k
    using match_at_append [of "take n v" d k "drop n v"] m(2) that by auto
  ultimately show ?thesis using assms(1) by (simp add: index_Some_iff)
qed

lemma extraction_frame:
  assumes "valid_config cfg mx" "extraction cfg mx v = Some (Some b, k)"
  shows "b = take (length b) v \<and> k = length b + delimiter_bytes cfg \<and> mode_ok cfg mx b"
proof (cases cfg)
  case (Delimiter d incl)
  with assms(2) obtain m where m: "indexOfArrayLike v d 0 = Some m" by (auto split: option.splits)
  have d: "d \<noteq> []" using assms(1) Delimiter by simp
  have le: "m + length d \<le> length v" using m by (rule indexOfArrayLike_bound)
  have pre: "indexOfArrayLike (take (m + length d) v) d 0 = Some m"
    by (rule index_prefix [OF d m]) simp
  have "match_at v d m" using m d by (simp add: index_Some_iff)
  then have "take (m + length d) v = take m v @ d" by (simp add: match_at_def take_add)
  with assms(2) Delimiter m le pre show ?thesis
    by (cases incl) (auto simp: Let_def split: if_splits)
next
  case (Length off sz be adj)
  define len where "len = adj + length_value be (take (field_width sz) (drop off v))"
  have b: "off + field_width sz \<le> len" "len \<le> MAX_LENGTH_FRAME_BYTES" "len \<le> length v"
    "b = take len v" "k = len"
    using assms(2) Length by (auto simp add: Let_def len_def [symmetric] split: if_splits)
  have "take (field_width sz) (drop off (take len v)) = take (field_width sz) (drop off v)"
    using b(1) by (simp add: drop_take min_absorb1)
  then have "adj + length_value be (take (field_width sz) (drop off b)) = len"
    by (simp add: b(4) len_def)
  with b Length show ?thesis by simp
next
  case (Fixed n)
  with assms(2) show ?thesis by (auto split: if_splits)
qed

lemma extraction_drop: "extraction cfg mx v = Some (None, k) \<Longrightarrow> k = 1"
  by (cases cfg) (auto simp: Let_def split: if_splits option.splits)

text \<open>The state after some of the stream \<open>st\<close> has been consumed up to \<open>ss_off\<close>.\<close>

definition on_stream :: "bytes \<Rightarrow> stream_state \<Rightarrow> bool" where
  "on_stream st s \<longleftrightarrow> ss_off s \<le> length st \<and> ss_pend s = drop (ss_off s) st"

definition stream_step :: "byte_config \<Rightarrow> nat \<Rightarrow> bytes \<Rightarrow> stream_state \<Rightarrow> parsed_frame list \<Rightarrow>
    stream_state \<Rightarrow> bool" where
  "stream_step cfg mx st s fs s' \<longleftrightarrow> on_stream st s' \<and> chained (ss_off s) fs (ss_off s') \<and>
     (\<forall>f \<in> set fs. segment st f \<and> mode_ok cfg mx (pf_data f)) \<and>
     ss_off s' + ss_disc s = ss_off s + wire_bytes cfg fs + ss_disc s'"

lemma stream_step_trans:
  "stream_step cfg mx st s fs s1 \<Longrightarrow> stream_step cfg mx st s1 gs s2 \<Longrightarrow>
    stream_step cfg mx st s (fs @ gs) s2"
  by (auto simp: stream_step_def wire_bytes_def intro: chained_append)

lemma stream_step_took:
  assumes "valid_config cfg mx" "on_stream st s" "extraction cfg mx (ss_pend s) = Some (fo, k)"
  shows "stream_step cfg mx st s (frame_of fo (ss_off s)) (took fo k s)"
proof -
  have k: "k \<le> length (ss_pend s)" using extraction_consumes [OF assms(1,3)] by simp
  have on: "on_stream st (took fo k s)" using assms(2) k by (auto simp: on_stream_def took_def add.commute)
  show ?thesis
  proof (cases fo)
    case None
    with on extraction_drop [of cfg mx "ss_pend s" k] assms(3) show ?thesis
      by (simp add: stream_step_def frame_of_def wire_bytes_def took_def)
  next
    case (Some b)
    with extraction_frame [OF assms(1)] assms(3)
    have b: "b = take (length b) (ss_pend s)" "k = length b + delimiter_bytes cfg" "mode_ok cfg mx b"
      by auto
    have "length b \<le> length (ss_pend s)" using k b(2) by simp
    then have "segment st \<lparr>pf_data = b, pf_offset = ss_off s\<rparr>"
      using assms(2) b(1) by (auto simp: segment_def on_stream_def)
    with on Some b(2,3) show ?thesis
      by (simp add: stream_step_def frame_of_def wire_bytes_def took_def)
  qed
qed

lemma drain_stream:
  assumes "valid_config cfg mx" "on_stream st s" "spec_drain cfg mx s = (fs, s')"
  shows "stream_step cfg mx st s fs s'"
  using assms
proof (induction cfg mx s arbitrary: fs rule: spec_drain.induct)
  case (1 cfg mx s)
  show ?case
  proof (cases "extraction cfg mx (ss_pend s)")
    case None
    with "1.prems" show ?thesis by (simp add: spec_drain_None stream_step_def wire_bytes_def)
  next
    case (Some e)
    then obtain fo k where e: "extraction cfg mx (ss_pend s) = Some (fo, k)" by (cases e) auto
    note t = stream_step_took [OF "1.prems"(1,2) e]
    obtain gs where g: "spec_drain cfg mx (took fo k s) = (gs, s')" "fs = frame_of fo (ss_off s) @ gs"
      using "1.prems"(3) spec_drain_Some [OF "1.prems"(1) e]
      by (cases "spec_drain cfg mx (took fo k s)") auto
    have "stream_step cfg mx st (took fo k s) gs s'"
      using "1.IH" [OF e refl _ "1.prems"(1) _ g(1)] extraction_consumes [OF "1.prems"(1) e] t
      by (auto simp: stream_step_def)
    with t g(2) show ?thesis using stream_step_trans by simp
  qed
qed

lemma overflow_stream: "on_stream st s \<Longrightarrow> stream_step cfg mx st s [] (spec_overflow cfg mx s)"
  by (cases cfg) (auto simp: stream_step_def on_stream_def wire_bytes_def Let_def add.commute)

lemma feed_stream:
  assumes "valid_config cfg mx" "on_stream st s" "spec_feed cfg mx xs s = (fs, s')"
  shows "stream_step cfg mx (st @ xs) s fs s'"
  using assms
proof (induction xs arbitrary: st s fs)
  case Nil
  then show ?case by (simp add: stream_step_def wire_bytes_def)
next
  case (Cons b bs)
  let ?s = "s\<lparr>ss_pend := ss_pend s @ [b]\<rparr>"
  obtain gs s1 where g: "spec_drain cfg mx ?s = (gs, s1)" by fastforce
  let ?s2 = "spec_overflow cfg mx s1"
  obtain hs where h: "spec_feed cfg mx bs ?s2 = (hs, s')" "fs = gs @ hs"
    using Cons.prems(3) g by (auto simp: spec_slice_def Let_def split: prod.splits)
  have "on_stream (st @ [b]) ?s" using Cons.prems(2) by (simp add: on_stream_def)
  from drain_stream [OF Cons.prems(1) this g]
  have g': "stream_step cfg mx (st @ [b]) s gs s1" by (simp add: stream_step_def)
  then have one: "stream_step cfg mx (st @ [b]) s gs ?s2"
    using stream_step_trans [OF g' overflow_stream] by (simp add: stream_step_def)
  then have two: "stream_step cfg mx ((st @ [b]) @ bs) ?s2 hs s'"
    by (intro Cons.IH [OF Cons.prems(1) _ h(1)]) (simp add: stream_step_def)
  have "\<forall>f \<in> set gs. segment ((st @ [b]) @ bs) f"
    using one segment_append unfolding stream_step_def by blast
  with one two have "stream_step cfg mx ((st @ [b]) @ bs) s (gs @ hs) s'"
    by (auto simp: stream_step_def wire_bytes_def intro: chained_append)
  with h(2) show ?case by simp
qed

text \<open>A whole run of the class, from construction, one call of \<open>feed\<close> per chunk.\<close>

fun pp_feed_all :: "bytes list \<Rightarrow> parser \<Rightarrow> parsed_frame list \<times> parser" where
  "pp_feed_all [] p = ([], p)"
| "pp_feed_all (c # cs) p =
     (let (fs, p1) = pp_feed c p; (gs, p2) = pp_feed_all cs p1 in (fs @ gs, p2))"

lemma pp_feed_all_refines:
  "pp_inv p \<Longrightarrow> pp_feed_all cs p = (fs, q) \<Longrightarrow>
    spec_feed (pp_config p) (pp_maxPending p) (concat cs) (pp_abs p) = (fs, pp_abs q) \<and> pp_inv q \<and>
    pp_config q = pp_config p \<and> pp_maxPending q = pp_maxPending p"
proof (induction cs arbitrary: p fs)
  case (Cons c cs)
  obtain gs p1 where g: "pp_feed c p = (gs, p1)" by fastforce
  obtain hs where h: "pp_feed_all cs p1 = (hs, q)" "fs = gs @ hs"
    using Cons.prems(2) g by (auto split: prod.splits)
  have r: "spec_feed (pp_config p) (pp_maxPending p) c (pp_abs p) = (gs, pp_abs p1)" "pp_inv p1"
    "pp_config p1 = pp_config p" "pp_maxPending p1 = pp_maxPending p"
    using pp_feed_refines [OF Cons.prems(1) g] by simp_all
  have i: "spec_feed (pp_config p) (pp_maxPending p) (concat cs) (pp_abs p1) = (hs, pp_abs q)" "pp_inv q"
    "pp_config q = pp_config p" "pp_maxPending q = pp_maxPending p"
    using Cons.IH [OF r(2) h(1)] r(3,4) by simp_all
  show ?case using i(2-4) h(2) by (simp add: spec_feed_append r(1) i(1))
qed simp

section \<open>Round trip\<close>

text \<open>How a sender puts a payload on the wire, and when the ceiling leaves room for it.\<close>

fun on_wire :: "byte_config \<Rightarrow> bytes \<Rightarrow> bytes" where
  "on_wire (Delimiter d False) b = b @ d"
| "on_wire _ b = b"

fun wire_fits :: "byte_config \<Rightarrow> nat \<Rightarrow> bytes \<Rightarrow> bool" where
  "wire_fits (Delimiter d incl) mx b \<longleftrightarrow> length (on_wire (Delimiter d incl) b) \<le> mx + 1"
| "wire_fits _ mx b \<longleftrightarrow> True"

fun frames_at :: "byte_config \<Rightarrow> nat \<Rightarrow> bytes list \<Rightarrow> parsed_frame list" where
  "frames_at cfg off [] = []"
| "frames_at cfg off (b # bs) =
     \<lparr>pf_data = b, pf_offset = off\<rparr> # frames_at cfg (off + length (on_wire cfg b)) bs"

lemma extraction_on_wire:
  assumes "valid_config cfg mx" "mode_ok cfg mx b"
  shows "extraction cfg mx (on_wire cfg b) = Some (Some b, length (on_wire cfg b)) \<and> on_wire cfg b \<noteq> []"
proof (cases cfg)
  case (Delimiter d incl)
  with assms show ?thesis
    using indexOfArrayLike_bound [of b d 0 "length b - length d"]
    by (cases incl) (auto simp: Let_def)
next
  case (Length off sz be adj)
  define len where "len = adj + length_value be (take (field_width sz) (drop off b))"
  have "off + field_width sz \<le> length b" "length b \<le> MAX_LENGTH_FRAME_BYTES" "len = length b"
    using assms(2) unfolding Length mode_ok.simps len_def [symmetric] by auto
  moreover have "0 < field_width sz" by (rule field_width_pos)
  ultimately show ?thesis using Length by (auto simp: Let_def len_def [symmetric])
next
  case (Fixed n)
  with assms show ?thesis by auto
qed

lemma spec_feed_on_wire:
  assumes "valid_config cfg mx" "mode_ok cfg mx b" "wire_fits cfg mx b" "ss_pend s = []"
  shows "spec_feed cfg mx (on_wire cfg b) s =
    ([\<lparr>pf_data = b, pf_offset = ss_off s\<rparr>], s\<lparr>ss_off := ss_off s + length (on_wire cfg b)\<rparr>)"
proof -
  note e = extraction_on_wire [OF assms(1,2)]
  let ?s = "s\<lparr>ss_pend := on_wire cfg b\<rparr>" and ?k = "length (on_wire cfg b)"
  have t: "took (Some b) ?k ?s = s\<lparr>ss_off := ss_off s + ?k\<rparr>"
    using assms(4) by (simp add: took_def)
  have stop: "spec_drain cfg mx (s\<lparr>ss_off := ss_off s + ?k\<rparr>) = ([], s\<lparr>ss_off := ss_off s + ?k\<rparr>)"
    using assms(4) extraction_Nil [OF assms(1)] by (simp add: spec_drain_None)
  have "spec_drain cfg mx ?s = ([\<lparr>pf_data = b, pf_offset = ss_off s\<rparr>], s\<lparr>ss_off := ss_off s + ?k\<rparr>)"
    using spec_drain_Some [OF assms(1), of ?s "Some b" ?k] e by (simp add: t stop frame_of_def)
  moreover have "spec_overflow cfg mx (s\<lparr>ss_off := ss_off s + ?k\<rparr>) = s\<lparr>ss_off := ss_off s + ?k\<rparr>"
    using assms(4) by (simp add: spec_overflow_id)
  ultimately have "spec_slice cfg mx (on_wire cfg b) s =
    ([\<lparr>pf_data = b, pf_offset = ss_off s\<rparr>], s\<lparr>ss_off := ss_off s + ?k\<rparr>)"
    using assms(4) by (simp add: spec_slice_def)
  moreover have "spec_slice cfg mx (on_wire cfg b) s = spec_feed cfg mx (on_wire cfg b) s"
    using assms e by (intro spec_slice_bytewise) auto
  ultimately show ?thesis by simp
qed

lemma spec_feed_messages:
  assumes "valid_config cfg mx" "\<forall>b \<in> set bs. mode_ok cfg mx b \<and> wire_fits cfg mx b" "ss_pend s = []"
  shows "spec_feed cfg mx (concat (map (on_wire cfg) bs)) s =
    (frames_at cfg (ss_off s) bs, s\<lparr>ss_off := ss_off s + length (concat (map (on_wire cfg) bs))\<rparr>)"
  using assms
proof (induction bs arbitrary: s)
  case (Cons b bs)
  have "spec_feed cfg mx (on_wire cfg b) s =
    ([\<lparr>pf_data = b, pf_offset = ss_off s\<rparr>], s\<lparr>ss_off := ss_off s + length (on_wire cfg b)\<rparr>)"
    using Cons.prems by (intro spec_feed_on_wire) auto
  moreover have "spec_feed cfg mx (concat (map (on_wire cfg) bs)) (s\<lparr>ss_off := ss_off s + length (on_wire cfg b)\<rparr>)
    = (frames_at cfg (ss_off s + length (on_wire cfg b)) bs,
       s\<lparr>ss_off := ss_off s + length (on_wire cfg b) + length (concat (map (on_wire cfg) bs))\<rparr>)"
    using Cons.IH [of "s\<lparr>ss_off := ss_off s + length (on_wire cfg b)\<rparr>"] Cons.prems by simp
  ultimately show ?case by (simp add: spec_feed_append add.assoc)
qed simp

section \<open>Properties\<close>

text \<open>C2. However the received bytes are cut into chunks, the parser yields the same frames
  at the same absolute offsets, the same counters and the same unframed remainder: two
  chunkings of one stream into a parser between calls cannot be told apart.\<close>

theorem pp_feed_chunking_irrelevant:
  assumes "pp_inv p" "concat cs = concat ds"
  shows "fst (pp_feed_all cs p) = fst (pp_feed_all ds p) \<and>
    pp_abs (snd (pp_feed_all cs p)) = pp_abs (snd (pp_feed_all ds p))"
proof -
  obtain fs q gs r where "pp_feed_all cs p = (fs, q)" "pp_feed_all ds p = (gs, r)" by fastforce
  with pp_feed_all_refines [OF assms(1), of cs] pp_feed_all_refines [OF assms(1), of ds] assms(2)
  show ?thesis by simp
qed

text \<open>C1. The class implements the byte-at-a-time specification and keeps its invariant: one
  \<open>feed\<close> returns exactly the frames \<open>spec_feed\<close> takes from the unframed remainder, with the
  same offset and counters, for every valid construction and every number of earlier feeds.\<close>

theorem pp_feed_refines_spec:
  assumes "pp_new raw limit = Inr p0" "p = snd (pp_feed_all cs p0)"
  shows "spec_feed (pp_config p) (pp_maxPending p) xs (pp_abs p) =
    (fst (pp_feed xs p), pp_abs (snd (pp_feed xs p))) \<and> pp_inv (snd (pp_feed xs p))"
proof -
  obtain fs where "pp_feed_all cs p0 = (fs, p)" using assms(2) by (metis prod.collapse)
  with pp_feed_all_refines pp_new_inv [OF assms(1)] have inv: "pp_inv p" by blast
  obtain gs q where "pp_feed xs p = (gs, q)" by fastforce
  with pp_feed_refines [OF inv this] show ?thesis by simp
qed

text \<open>C3. Every frame is a verbatim piece of the received stream at the offset it carries,
  frames are in stream order without overlap, each satisfies its mode (fixed size; nothing
  before the delimiter matches it and the length is within the ceiling; the embedded length
  field gives the frame's own length), and the remainder is the stream's unconsumed suffix.\<close>

theorem pp_frames_from_stream:
  assumes "pp_new raw limit = Inr p0" "pp_feed_all cs p0 = (fs, p)"
  shows "(\<forall>f \<in> set fs. segment (concat cs) f \<and> frame_ok (pp_config p) (pp_maxPending p) (pf_data f)) \<and>
    chained 0 fs (pp_absStart p) \<and> pp_view p = drop (pp_absStart p) (concat cs) \<and>
    pp_absStart p \<le> length (concat cs)"
proof -
  have n: "pp_inv p0" "pp_abs p0 = stream_start" using pp_new_inv [OF assms(1)] by simp_all
  have r: "spec_feed (pp_config p) (pp_maxPending p) (concat cs) stream_start = (fs, pp_abs p)" "pp_inv p"
    using pp_feed_all_refines [OF n(1) assms(2)] n(2) by simp_all
  have "stream_step (pp_config p) (pp_maxPending p) ([] @ concat cs) stream_start fs (pp_abs p)"
    using r by (intro feed_stream) (simp_all add: pp_inv_def on_stream_def stream_start_def)
  moreover have "valid_config (pp_config p) (pp_maxPending p)" using r(2) by (simp add: pp_inv_def)
  ultimately show ?thesis by (auto simp: stream_step_def on_stream_def pp_abs_def stream_start_def frame_ok_iff)
qed

text \<open>No byte is lost or counted twice: at any time the bytes fed since construction are
  the bytes of the emitted frames (with their stripped delimiters), the discarded bytes the
  counter reports, and the bytes still pending.\<close>

theorem pp_bytes_conserved:
  assumes "pp_new raw limit = Inr p0" "pp_feed_all cs p0 = (fs, p)"
  shows "length (concat cs) = wire_bytes (pp_config p) fs + pp_discarded p + pp_pending p"
proof -
  have n: "pp_inv p0" "pp_abs p0 = stream_start" using pp_new_inv [OF assms(1)] by simp_all
  have r: "spec_feed (pp_config p) (pp_maxPending p) (concat cs) stream_start = (fs, pp_abs p)" "pp_inv p"
    using pp_feed_all_refines [OF n(1) assms(2)] n(2) by simp_all
  have "stream_step (pp_config p) (pp_maxPending p) ([] @ concat cs) stream_start fs (pp_abs p)"
    using r by (intro feed_stream) (simp_all add: pp_inv_def on_stream_def stream_start_def)
  then have "pp_absStart p = wire_bytes (pp_config p) fs + pp_discarded p"
    "pp_view p = drop (pp_absStart p) (concat cs)" "pp_absStart p \<le> length (concat cs)"
    by (auto simp: stream_step_def on_stream_def pp_abs_def stream_start_def)
  moreover have "length (pp_view p) = pp_pending p" using r(2) by (simp add: pp_view_length pp_inv_def)
  ultimately show ?thesis by simp
qed

text \<open>Memory is bounded: after every feed the pending bytes stay within the delimiter
  ceiling, below the largest length-prefixed frame, or below the fixed frame size.\<close>

theorem pp_pending_bounded:
  assumes "pp_new raw limit = Inr p0" "p = snd (pp_feed_all cs p0)"
  shows "pp_pending p \<le> (case pp_config p of Delimiter d incl \<Rightarrow> pp_maxPending p
      | Length off sz be adj \<Rightarrow> MAX_LENGTH_FRAME_BYTES + off + field_width sz
      | Fixed n \<Rightarrow> n - 1)"
proof -
  obtain fs where "pp_feed_all cs p0 = (fs, p)" using assms(2) by (metis prod.collapse)
  with pp_feed_all_refines pp_new_inv [OF assms(1)] have inv: "pp_inv p" by blast
  then have "length (pp_view p) = pp_pending p" by (simp add: pp_view_length pp_inv_def)
  with inv show ?thesis
    by (auto simp: pp_inv_def Let_def split: byte_config.splits if_splits)
qed

text \<open>C6. Round trip: payloads that fit the mode and the ceiling, put on the wire one after
  the other and fed in any chunking to a new parser, come back as exactly those payloads at
  their offsets, with nothing discarded, overflowed or left pending.\<close>

theorem pp_roundtrip:
  assumes "pp_new raw limit = Inr p0" "pp_feed_all cs p0 = (fs, p)"
    and "concat cs = concat (map (on_wire (pp_config p0)) bs)"
    and "\<forall>b \<in> set bs. frame_ok (pp_config p0) (pp_maxPending p0) b \<and> wire_fits (pp_config p0) (pp_maxPending p0) b"
  shows "fs = frames_at (pp_config p0) 0 bs \<and> map pf_data fs = bs \<and> pp_discarded p = 0 \<and>
    pp_overflow p = 0 \<and> pp_view p = []"
proof -
  have n: "pp_inv p0" "pp_abs p0 = stream_start" using pp_new_inv [OF assms(1)] by simp_all
  have vc: "valid_config (pp_config p0) (pp_maxPending p0)" using n(1) by (simp add: pp_inv_def)
  have ok: "\<forall>b \<in> set bs. mode_ok (pp_config p0) (pp_maxPending p0) b \<and> wire_fits (pp_config p0) (pp_maxPending p0) b"
    using assms(4) frame_ok_iff [OF vc] by simp
  have e: "(fs, pp_abs p) = (frames_at (pp_config p0) 0 bs, stream_start\<lparr>ss_off := length (concat cs)\<rparr>)"
    using pp_feed_all_refines [OF n(1) assms(2)] spec_feed_messages [OF vc ok, of stream_start]
      n(2) assms(3)
    by (simp add: stream_start_def)
  have "map pf_data (frames_at c off bs) = bs" for c off by (induction bs arbitrary: off) auto
  with e show ?thesis by (simp add: pp_abs_def stream_start_def)
qed

text \<open>A frame that overflows the ceiling by exactly its last delimiter byte, with the
  delimiter included in frames, is discarded but the delimiter's tail stays pending and
  becomes the beginning of the next frame, although no delimiter can begin there: the
  resynchronisation treats a complete delimiter as a possible partial one.\<close>

theorem pp_overflow_keeps_delimiter_tail:
  assumes "pp_new raw limit = Inr p0" "pp_config p0 = Delimiter d True" "2 \<le> length d"
    and "indexOfArrayLike (b @ d) d 0 = Some (length b)" "length b + length d = pp_maxPending p0 + 1"
  shows "fst (pp_feed (b @ d) p0) = [] \<and> pp_view (snd (pp_feed (b @ d) p0)) = tl d"
proof -
  have n: "pp_inv p0" "pp_abs p0 = stream_start" using pp_new_inv [OF assms(1)] by simp_all
  let ?c = "Delimiter d True" and ?m = "pp_maxPending p0"
  have vc: "valid_config ?c ?m" using n(1) assms(2) by (simp add: pp_inv_def)
  have "extraction ?c ?m (b @ d) = None" using assms(4,5) by simp
  then have "spec_drain ?c ?m (stream_start\<lparr>ss_pend := b @ d\<rparr>) = ([], stream_start\<lparr>ss_pend := b @ d\<rparr>)"
    by (simp add: spec_drain_None)
  moreover have "drop (length b + length d - (length d - 1)) (b @ d) = tl d"
    using assms(3) by (cases d) auto
  ultimately have s: "fst (spec_slice ?c ?m (b @ d) stream_start) = [] \<and>
    ss_pend (snd (spec_slice ?c ?m (b @ d) stream_start)) = tl d"
    using assms(5) by (simp add: spec_slice_def Let_def stream_start_def)
  have "spec_slice ?c ?m (b @ d) stream_start = spec_feed ?c ?m (b @ d) stream_start"
    using assms(3,5) by (intro spec_slice_bytewise [OF vc]) (auto simp: stream_start_def)
  moreover obtain fs q where f: "pp_feed (b @ d) p0 = (fs, q)" by fastforce
  ultimately show ?thesis
    using s pp_feed_refines [OF n(1) f] n(2) assms(2) by (simp add: pp_abs_def)
qed

section \<open>Witnesses\<close>

text \<open>A CRLF parser with a small ceiling and a length-prefixed one, and the bytes they are
  fed.\<close>

definition crlf_config :: "bool \<Rightarrow> raw_config" where
  "crlf_config incl = RawDelimiter [js_int 13, js_int 10] incl"

definition crlf_parser :: "bool \<Rightarrow> parser" where
  "crlf_parser incl = (case pp_new (crlf_config incl) (Some (js_int 4)) of Inr p \<Rightarrow> p | Inl _ \<Rightarrow> undefined)"

lemma crlf_new: "pp_new (crlf_config incl) (Some (js_int 4)) = Inr (crlf_parser incl)"
  by (simp add: crlf_parser_def crlf_config_def pp_new_def assertIntegerRange_def MAX_DELIMITER_BYTES_def)

lemma crlf_fields: "pp_config (crlf_parser incl) = Delimiter [13, 10] incl" "pp_maxPending (crlf_parser incl) = 4"
  by (simp_all add: crlf_parser_def crlf_config_def pp_new_def assertIntegerRange_def
      MAX_DELIMITER_BYTES_def DEFAULT_MAX_PENDING_BYTES_def normalized_limit_def)

lemma crlf_inv: "pp_inv (crlf_parser incl)"
  using pp_new_inv [OF crlf_new] by simp

lemma crlf_feed_config: "pp_config (snd (pp_feed_all cs (crlf_parser incl))) = Delimiter [13, 10] incl"
  "pp_maxPending (snd (pp_feed_all cs (crlf_parser incl))) = 4"
  using pp_feed_all_refines [OF crlf_inv [of incl] prod.collapse [symmetric], where cs = cs]
  by (simp_all add: crlf_fields)

lemma crlf_search: "indexOfArrayLike [97, 13, 10] [13, 10 :: byte] 0 = Some (1 :: nat)"
  "indexOfArrayLike [98, 98, 13, 10] [13, 10 :: byte] 0 = Some (2 :: nat)"
  "indexOfArrayLike [97, 98, 99, 13, 10] [13, 10 :: byte] 0 = Some (3 :: nat)"
  by code_simp+

theorem pp_feed_chunking_irrelevant_witness:
  "fst (pp_feed_all [[97], [98, 13], [10, 99]] (crlf_parser False)) =
     fst (pp_feed_all [[97, 98, 13, 10, 99]] (crlf_parser False))"
  using pp_feed_chunking_irrelevant [OF crlf_inv, of "[[97], [98, 13], [10, 99]]" "[[97, 98, 13, 10, 99]]" False]
  by simp

theorem pp_feed_refines_spec_witness:
  "pp_inv (snd (pp_feed [10] (snd (pp_feed_all [[97, 13]] (crlf_parser False)))))"
  using pp_feed_refines_spec [OF crlf_new [of False] refl, where xs = "[10]" and cs = "[[97, 13]]"] by blast

theorem pp_frames_from_stream_witness:
  "chained 0 (fst (pp_feed_all [[97, 98, 13, 10, 99]] (crlf_parser False)))
     (pp_absStart (snd (pp_feed_all [[97, 98, 13, 10, 99]] (crlf_parser False))))"
  using pp_frames_from_stream [OF crlf_new [of False] prod.collapse [symmetric], where cs = "[[97, 98, 13, 10, 99]]"]
  by blast

theorem pp_bytes_conserved_witness:
  "5 = wire_bytes (Delimiter [13, 10] False) (fst (pp_feed_all [[97, 98], [13, 10, 99]] (crlf_parser False)))
     + pp_discarded (snd (pp_feed_all [[97, 98], [13, 10, 99]] (crlf_parser False)))
     + pp_pending (snd (pp_feed_all [[97, 98], [13, 10, 99]] (crlf_parser False)))"
  using pp_bytes_conserved [OF crlf_new [of False] prod.collapse [symmetric], where cs = "[[97, 98], [13, 10, 99]]"]
  by (simp only: crlf_feed_config) simp

theorem pp_pending_bounded_witness:
  "pp_pending (snd (pp_feed_all [[97, 98, 99, 100, 101, 102]] (crlf_parser False))) \<le> 4"
  using pp_pending_bounded [OF crlf_new [of False] refl, where cs = "[[97, 98, 99, 100, 101, 102]]"]
  by (simp only: crlf_feed_config byte_config.case)

theorem pp_roundtrip_witness:
  "map pf_data (fst (pp_feed_all [[97, 13], [10, 98, 98, 13], [10]] (crlf_parser False))) = [[97], [98, 98]]"
  using pp_roundtrip [OF crlf_new [of False] prod.collapse [symmetric],
      where cs = "[[97, 13], [10, 98, 98, 13], [10]]" and bs = "[[97], [98, 98]]"]
  by (simp add: crlf_fields crlf_search frame_ok_iff del: frame_ok.simps)

theorem pp_overflow_keeps_delimiter_tail_witness:
  "fst (pp_feed [97, 98, 99, 13, 10] (crlf_parser True)) = [] \<and>
   pp_view (snd (pp_feed [97, 98, 99, 13, 10] (crlf_parser True))) = [10]"
  using pp_overflow_keeps_delimiter_tail [OF crlf_new [of True], where d = "[13, 10]" and b = "[97, 98, 99]"]
  by (simp add: crlf_fields crlf_search)

end
