(* ===== verification/Crc16.thy ===== *)
theory Crc16
  imports Prelude
begin

text \<open>
  CRC-16/Modbus, \<open>crc16Modbus\<close>, \<open>crc16ModbusFoldByte\<close> and \<open>verifyCrc\<close> of
  \<open>src/lib/modbus/modbus-core.ts\<close>, on \<open>int\<close> with the 32-bit JavaScript operators.
  The lemmas show that the running value stays in 16 bits, that the incremental fold is the
  whole computation, that the register update loses no information, and hence that a frame
  with one corrupted byte never passes the check its original passed.
\<close>

section \<open>The code\<close>

definition crc_bit :: "int \<Rightarrow> int" where
  "crc_bit crc = (if js_and crc 1 \<noteq> 0 then js_xor (js_ushr crc 1) 40961 else js_ushr crc 1)"

definition crc_byte :: "int \<Rightarrow> byte \<Rightarrow> int" where
  "crc_byte crc b = (crc_bit ^^ 8) (js_xor crc (uint b))"

definition crc16Modbus :: "bytes \<Rightarrow> int" where
  "crc16Modbus bs = js_and (foldl crc_byte 65535 bs) 65535"

definition crc16ModbusFoldByte :: "int \<Rightarrow> int \<Rightarrow> int" where
  "crc16ModbusFoldByte crc b = js_and ((crc_bit ^^ 8) (js_xor crc (js_and b 255))) 65535"

definition verifyCrc :: "bytes \<Rightarrow> bool" where
  "verifyCrc frame =
     (if length frame < 4 then False
      else let n = length frame; crc = crc16Modbus (take (n - 2) frame)
        in js_and crc 255 = uint (frame ! (n - 2)) \<and>
           js_and (js_ushr crc 8) 255 = uint (frame ! (n - 1)))"

text \<open>\<open>withCrc\<close> of \<open>modbus-transport.ts\<close>: low byte first.\<close>

definition withCrc :: "bytes \<Rightarrow> bytes" where
  "withCrc adu = (let crc = crc16Modbus adu
     in adu @ [to_byte (js_and crc 255), to_byte (js_and (js_ushr crc 8) 255)])"

section \<open>Sixteen bits\<close>

definition u16 :: "int \<Rightarrow> bool" where
  "u16 n \<longleftrightarrow> 0 \<le> n \<and> n < 65536"

lemma u16_intro [intro]: "0 \<le> n \<Longrightarrow> n < 65536 \<Longrightarrow> u16 n"
  by (simp add: u16_def)

lemma u16_xor: "u16 a \<Longrightarrow> u16 b \<Longrightarrow> js_xor a b = a XOR b \<and> u16 (a XOR b)"
  using js_xor_in_range [of a 16 b] XOR_upper [of a 16 b] by (simp add: u16_def)

lemma u16_byte: "u16 (uint (b :: byte))"
  using uint_byte_bounds [of b] by (simp add: u16_def)

lemma crc_bit_eq:
  "u16 c \<Longrightarrow> crc_bit c = (if c mod 2 = 1 then (c div 2) XOR 40961 else c div 2)"
  using u16_xor [of "c div 2" 40961]
  by (auto simp: crc_bit_def u16_def js_and_lit js_ushr_in_range mod2_eq_if)

lemma u16_crc_bit: "u16 c \<Longrightarrow> u16 (crc_bit c)"
  using u16_xor [of "c div 2" 40961] by (auto simp: crc_bit_eq) (auto simp: u16_def)

lemma u16_crc_bits: "u16 c \<Longrightarrow> u16 ((crc_bit ^^ k) c)"
  by (induction k) (simp_all add: u16_crc_bit)

lemma u16_crc_byte: "u16 c \<Longrightarrow> u16 (crc_byte c b)"
  using u16_xor [OF _ u16_byte, of c b] by (simp add: crc_byte_def u16_crc_bits)

lemma u16_crc_fold: "u16 c \<Longrightarrow> u16 (foldl crc_byte c bs)"
  by (induction bs arbitrary: c) (simp_all add: u16_crc_byte)

lemma u16_mask: "u16 c \<Longrightarrow> js_and c 65535 = c"
  by (simp add: js_and_lit u16_def)

lemma crc16_eq_fold: "crc16Modbus bs = foldl crc_byte 65535 bs"
  using u16_crc_fold [of 65535 bs] by (auto simp: crc16Modbus_def u16_mask u16_def)

lemma u16_crc16: "u16 (crc16Modbus bs)"
  unfolding crc16_eq_fold by (rule u16_crc_fold) (simp add: u16_def)

lemma fold_byte_eq: "u16 c \<Longrightarrow> crc16ModbusFoldByte c (uint b) = crc_byte c b"
  using u16_crc_byte [of c b] by (simp add: crc16ModbusFoldByte_def crc_byte_def js_and_lit(4) u16_mask)

section \<open>The update loses nothing\<close>

lemma not_bit_15: "0 \<le> x \<Longrightarrow> x < 32768 \<Longrightarrow> \<not> bit (x :: int) 15"
proof -
  assume "0 \<le> x" "x < 32768"
  then have "take_bit 15 x = x" by (intro take_bit_int_eq_self) simp_all
  then show ?thesis by (metis bit_take_bit_iff less_irrefl)
qed

lemma crc_bit_high:
  assumes "u16 c"
  shows "bit (crc_bit c) 15 = (c mod 2 = 1)"
proof -
  have "\<not> bit (c div 2) 15"
    by (rule not_bit_15) (use assms in \<open>auto simp: u16_def\<close>)
  moreover have "bit (40961 :: int) 15" by simp
  ultimately show ?thesis by (simp add: crc_bit_eq [OF assms] bit_xor_iff)
qed

lemma crc_bit_inj:
  assumes "u16 c" "u16 d" "crc_bit c = crc_bit d"
  shows "c = d"
proof -
  have par: "(c mod 2 = 1) = (d mod 2 = 1)"
    using crc_bit_high [OF assms(1)] crc_bit_high [OF assms(2)] assms(3) by simp
  have "c div 2 = d div 2"
  proof (cases "c mod 2 = 1")
    case True
    with par assms have "(c div 2) XOR 40961 = (d div 2) XOR 40961" by (simp add: crc_bit_eq)
    then have "((c div 2) XOR 40961) XOR 40961 = ((d div 2) XOR 40961) XOR 40961" by simp
    then show ?thesis by (simp add: xor.assoc)
  qed (use par assms in \<open>simp add: crc_bit_eq\<close>)
  moreover have "c mod 2 = d mod 2" using par by (metis not_mod_2_eq_1_eq_0)
  ultimately show ?thesis by (metis div_mult_mod_eq)
qed

lemma crc_bits_inj: "u16 c \<Longrightarrow> u16 d \<Longrightarrow> (crc_bit ^^ k) c = (crc_bit ^^ k) d \<Longrightarrow> c = d"
  by (induction k) (auto dest: crc_bit_inj [rotated 2] intro: u16_crc_bits)

lemma crc_byte_inj_state:
  assumes "u16 c" "u16 d" "crc_byte c b = crc_byte d b"
  shows "c = d"
proof -
  have "c XOR uint b = d XOR uint b"
    using assms u16_xor [OF assms(1) u16_byte] u16_xor [OF assms(2) u16_byte]
    by (auto simp: crc_byte_def intro: crc_bits_inj)
  then have "(c XOR uint b) XOR uint b = (d XOR uint b) XOR uint b" by simp
  then show ?thesis by (simp add: xor.assoc)
qed

lemma crc_byte_inj_byte:
  assumes "u16 c" "crc_byte c a = crc_byte c b"
  shows "a = b"
proof -
  have "c XOR uint a = c XOR uint b"
    using assms u16_xor [OF assms(1) u16_byte]
    by (auto simp: crc_byte_def intro: crc_bits_inj)
  then have "c XOR (c XOR uint a) = c XOR (c XOR uint b)" by simp
  then have "uint a = uint b" by (simp add: xor.assoc [symmetric])
  then show ?thesis by (rule word_uint_eqI)
qed

lemma crc_fold_inj: "u16 c \<Longrightarrow> u16 d \<Longrightarrow> foldl crc_byte c bs = foldl crc_byte d bs \<Longrightarrow> c = d"
  by (induction bs arbitrary: c d) (auto intro: crc_byte_inj_state u16_crc_byte dest: u16_crc_byte)

lemma crc_one_byte:
  assumes "a \<noteq> b"
  shows "crc16Modbus (xs @ a # ys) \<noteq> crc16Modbus (xs @ b # ys)"
proof
  let ?c = "foldl crc_byte 65535 xs"
  assume "crc16Modbus (xs @ a # ys) = crc16Modbus (xs @ b # ys)"
  then have "foldl crc_byte (crc_byte ?c a) ys = foldl crc_byte (crc_byte ?c b) ys"
    by (simp add: crc16_eq_fold)
  moreover have "u16 ?c" by (intro u16_crc_fold) (simp add: u16_def)
  ultimately have "crc_byte ?c a = crc_byte ?c b" using crc_fold_inj u16_crc_byte by blast
  with \<open>u16 ?c\<close> assms show False using crc_byte_inj_byte by blast
qed

section \<open>The check\<close>

lemma verifyCrc_iff:
  "verifyCrc frame \<longleftrightarrow> 4 \<le> length frame \<and>
    drop (length frame - 2) frame =
      [to_byte (crc16Modbus (take (length frame - 2) frame)),
       to_byte (crc16Modbus (take (length frame - 2) frame) div 256)]"
proof (cases "4 \<le> length frame")
  case True
  let ?n = "length frame" and ?c = "crc16Modbus (take (length frame - 2) frame)"
  have c: "u16 ?c" by (rule u16_crc16)
  have d: "drop (?n - 2) frame = [frame ! (?n - 2), frame ! (?n - 1)]"
    using True by (intro nth_equalityI) (auto simp: less_Suc_eq numeral_2_eq_2)
  have eq: "(to_byte n = b) = (n mod 256 = uint b)" for n and b :: byte
    by (metis uint_to_byte word_uint_eqI)
  have "js_ushr ?c 8 = ?c div 256" "js_and ?c 255 = ?c mod 256"
    using c by (simp_all add: js_ushr_in_range js_and_lit u16_def)
  then show ?thesis using True
    by (simp add: verifyCrc_def Let_def d js_and_lit(4)) (metis eq)
qed (simp add: verifyCrc_def)

lemma u16_bytes_eq:
  assumes "u16 m" "u16 n" "to_byte m = to_byte n" "to_byte (m div 256) = to_byte (n div 256)"
  shows "m = n"
proof -
  have small: "k div 256 mod 256 = k div 256" if "u16 k" for k
  proof (rule mod_pos_pos_trivial)
    show "0 \<le> k div 256" "k div 256 < 256" using that by (auto simp: u16_def)
  qed
  have "m mod 256 = n mod 256" using arg_cong [OF assms(3), of uint] by (simp only: uint_to_byte)
  moreover have "m div 256 = n div 256"
    using arg_cong [OF assms(4), of uint] small [OF assms(1)] small [OF assms(2)]
    by (simp only: uint_to_byte)
  ultimately have "m div 256 * 256 + m mod 256 = n div 256 * 256 + n mod 256" by (simp only:)
  then show ?thesis by (simp only: div_mult_mod_eq)
qed

lemma withCrc_eq: "withCrc adu = adu @ [to_byte (crc16Modbus adu), to_byte (crc16Modbus adu div 256)]"
proof -
  have "js_ushr (crc16Modbus adu) 8 = crc16Modbus adu div 256"
    using u16_crc16 [of adu] by (simp add: js_ushr_in_range u16_def)
  then show ?thesis by (simp add: withCrc_def Let_def js_and_lit(4))
qed

lemma withCrc_verifies: "2 \<le> length adu \<Longrightarrow> verifyCrc (withCrc adu)"
  by (simp add: verifyCrc_iff withCrc_eq)

section \<open>Properties\<close>

text \<open>Folding the bytes one at a time from \<open>0xffff\<close> with the incremental step gives
  the CRC of the whole buffer, from any prefix onwards.\<close>

theorem crc_fold_is_whole:
  "foldl (\<lambda>crc b. crc16ModbusFoldByte crc (uint b)) (crc16Modbus xs) ys = crc16Modbus (xs @ ys)"
proof -
  have "u16 c \<Longrightarrow> foldl (\<lambda>crc b. crc16ModbusFoldByte crc (uint b)) c ys = foldl crc_byte c ys" for c
    by (induction ys arbitrary: c) (simp_all add: fold_byte_eq u16_crc_byte)
  with u16_crc16 [of xs] show ?thesis by (simp add: crc16_eq_fold)
qed

text \<open>Corrupting one byte of a frame, in its body or in the CRC itself, is always
  detected: if a frame passes the check, no frame that differs from it in exactly one byte
  passes.\<close>

theorem single_byte_error_detected:
  assumes "verifyCrc (xs @ a # ys)" "a \<noteq> b"
  shows "\<not> verifyCrc (xs @ b # ys)"
proof
  assume v: "verifyCrc (xs @ b # ys)"
  let ?k = "length xs + 1 + length ys - 2"
  let ?trail = "\<lambda>bs. [to_byte (crc16Modbus (take ?k bs)), to_byte (crc16Modbus (take ?k bs) div 256)]"
  have l: "4 \<le> length xs + 1 + length ys" using v by (simp add: verifyCrc_iff)
  have fa: "drop ?k (xs @ a # ys) = ?trail (xs @ a # ys)" and fb: "drop ?k (xs @ b # ys) = ?trail (xs @ b # ys)"
    using v assms(1) by (simp_all add: verifyCrc_iff)
  show False
  proof (cases "length xs < ?k")
    case True
    then obtain zs where z: "take ?k (xs @ a # ys) = xs @ a # zs" "take ?k (xs @ b # ys) = xs @ b # zs"
      by (cases "?k - length xs") auto
    have "drop ?k (xs @ a # ys) = drop ?k (xs @ b # ys)"
      using True by (cases "?k - length xs") auto
    with fa fb have t: "?trail (xs @ a # ys) = ?trail (xs @ b # ys)" by simp
    have "crc16Modbus (xs @ a # zs) = crc16Modbus (xs @ b # zs)"
      using t unfolding z by (intro u16_bytes_eq u16_crc16) (simp_all only: list.inject)
    with crc_one_byte [OF assms(2)] show False by blast
  next
    case False
    then have "take ?k (xs @ a # ys) = take ?k (xs @ b # ys)" by simp
    with fa fb have "drop ?k (xs @ a # ys) = drop ?k (xs @ b # ys)" by simp
    with \<open>take ?k (xs @ a # ys) = take ?k (xs @ b # ys)\<close>
    have "xs @ a # ys = xs @ b # ys" by (metis append_take_drop_id)
    with assms(2) show False by simp
  qed
qed

section \<open>Witnesses\<close>

text \<open>The test vector of the source: \<open>01 04 02 12 34\<close> has the CRC \<open>B4 47\<close>.\<close>

lemma crc_byte_eval:
  "u16 c \<Longrightarrow> crc_byte c b = (crc_bit ^^ 8) (c XOR uint b)"
  using u16_xor [OF _ u16_byte, of c b] by (simp add: crc_byte_def)

lemma crc_bit_eval:
  "0 \<le> c \<Longrightarrow> c < 65536 \<Longrightarrow> crc_bit c = (if c mod 2 = 1 then (c div 2) XOR 40961 else c div 2)"
  by (rule crc_bit_eq) (simp add: u16_def)

lemma crc_bits_8:
  "(crc_bit ^^ 8) c = crc_bit (crc_bit (crc_bit (crc_bit (crc_bit (crc_bit (crc_bit (crc_bit c)))))))"
  by (simp add: eval_nat_numeral)

lemma crc_vector: "withCrc [1, 4, 2, 18, 52] = [1, 4, 2, 18, 52, 180, 71]"
  by (simp add: withCrc_eq crc16_eq_fold crc_byte_eval u16_def crc_bit_eval crc_bits_8)

theorem single_byte_error_detected_witness:
  "verifyCrc [1, 4, 2, 18, 52, 180, 71] \<and> \<not> verifyCrc [1, 4, 2, 19, 52, 180, 71]"
proof -
  have v: "verifyCrc ([1, 4, 2] @ 18 # [52, 180, 71])"
    using withCrc_verifies [of "[1, 4, 2, 18, 52]"] by (simp add: crc_vector)
  have "\<not> verifyCrc ([1, 4, 2] @ 19 # [52, 180, 71])"
    by (rule single_byte_error_detected [OF v]) simp
  with v show ?thesis by simp
qed

end
