(* ===== verification/ModbusCore.thy ===== *)
theory ModbusCore
  imports Crc16
begin

text \<open>
  The protocol data units of \<open>src/lib/modbus/modbus-core.ts\<close>: request builders with their
  range checks, the response parser, and the typed register values (integers of 8, 16 and
  32 bits, IEEE single precision, in both register orders).

  Requests are judged by a reader of the Modbus layout (\<open>decode_request\<close>), responses by
  the encodings a server sends, values by the round trip through register words.
  A quantity or address argument is a \<open>jsnum\<close>, because the builders check it; register
  words and results are integers.
\<close>

section \<open>Function codes and limits\<close>

datatype value_type = TBool | TUint8 | TInt8 | TUint16 | TInt16
  | TUint32BE | TInt32BE | TFloat32BE | TUint32LE | TInt32LE | TFloat32LE

definition limit_readBits :: int where "limit_readBits = 2000"
definition limit_readRegisters :: int where "limit_readRegisters = 125"
definition limit_writeBits :: int where "limit_writeBits = 1968"
definition limit_writeRegisters :: int where "limit_writeRegisters = 123"

definition isByteValueType :: "value_type \<Rightarrow> bool" where
  "isByteValueType t = (t = TUint8 \<or> t = TInt8)"

definition registerSpan :: "value_type \<Rightarrow> nat" where
  "registerSpan t = (if t = TBool \<or> isByteValueType t \<or> t = TUint16 \<or> t = TInt16 then 1 else 2)"

definition registerCountForValues :: "value_type \<Rightarrow> int \<Rightarrow> int" where
  "registerCountForValues t n =
     (let valueCount = max 1 n in
      if isByteValueType t then (valueCount + 1) div 2
      else if t = TBool then valueCount
      else valueCount * int (registerSpan t))"

definition maxValueCountForRegisters :: "value_type \<Rightarrow> int \<Rightarrow> int" where
  "maxValueCountForRegisters t registerLimit =
     (if isByteValueType t then registerLimit * 2 else if t = TBool then registerLimit else registerLimit div int (registerSpan t))"

definition isBitFc :: "int \<Rightarrow> bool" where
  "isBitFc fc = (fc = 1 \<or> fc = 2 \<or> fc = 5 \<or> fc = 15)"

definition isReadFc :: "int \<Rightarrow> bool" where
  "isReadFc fc = (fc = 1 \<or> fc = 2 \<or> fc = 3 \<or> fc = 4)"

section \<open>Request builders\<close>

definition assertU16 :: "jsnum \<Rightarrow> js_error + int" where
  "assertU16 v = (if \<not> js_isInteger v \<or> js_floor v < 0 \<or> js_floor v > 65535
     then Inl RangeError else Inr (js_floor v))"

definition assertQuantity :: "jsnum \<Rightarrow> int \<Rightarrow> js_error + int" where
  "assertQuantity v mx = (if \<not> js_isInteger v \<or> js_floor v < 1 \<or> js_floor v > mx
     then Inl RangeError else Inr (js_floor v))"

text \<open>\<open>(n >>> 8) & 0xff, n & 0xff\<close>.\<close>

definition be16 :: "int \<Rightarrow> bytes" where
  "be16 n = [to_byte (js_and (js_ushr n 8) 255), to_byte (js_and n 255)]"

definition buildReadRequestPdu :: "int \<Rightarrow> jsnum \<Rightarrow> jsnum \<Rightarrow> js_error + bytes" where
  "buildReadRequestPdu fc start cnt =
     (if \<not> isReadFc fc then Inl RangeError
      else bind_ok (assertU16 start) (\<lambda>s.
        bind_ok (assertQuantity cnt (if isBitFc fc then limit_readBits else limit_readRegisters)) (\<lambda>c.
          Inr (to_byte fc # be16 s @ be16 c))))"

definition buildWriteSingleCoilPdu :: "jsnum \<Rightarrow> bool \<Rightarrow> js_error + bytes" where
  "buildWriteSingleCoilPdu addr on =
     bind_ok (assertU16 addr) (\<lambda>a. Inr (5 # be16 a @ [if on then 255 else 0, 0]))"

definition buildWriteSingleRegisterPdu :: "jsnum \<Rightarrow> jsnum \<Rightarrow> js_error + bytes" where
  "buildWriteSingleRegisterPdu addr v =
     bind_ok (assertU16 addr) (\<lambda>a. bind_ok (assertU16 v) (\<lambda>w. Inr (6 # be16 a @ be16 w)))"

definition pack_coils :: "bool list \<Rightarrow> bytes" where
  "pack_coils bs =
     foldl (\<lambda>data i. if bs ! i then data[i div 8 := data ! (i div 8) OR push_bit (i mod 8) 1] else data)
       (replicate ((length bs + 7) div 8) 0) [0..<length bs]"

definition buildWriteMultipleCoilsPdu :: "jsnum \<Rightarrow> bool list \<Rightarrow> js_error + bytes" where
  "buildWriteMultipleCoilsPdu start bs =
     bind_ok (assertU16 start) (\<lambda>s.
       bind_ok (assertQuantity (js_int (int (length bs))) limit_writeBits) (\<lambda>c.
         let byteCount = (length bs + 7) div 8 in
         Inr (15 # be16 s @ be16 c @ to_byte (int byteCount) # pack_coils bs)))"

definition buildWriteMultipleRegistersPdu :: "jsnum \<Rightarrow> jsnum list \<Rightarrow> js_error + bytes" where
  "buildWriteMultipleRegistersPdu start vs =
     bind_ok (assertU16 start) (\<lambda>s.
       bind_ok (assertQuantity (js_int (int (length vs))) limit_writeRegisters) (\<lambda>c.
         bind_ok (mapM_ok assertU16 vs) (\<lambda>ws.
           Inr (16 # be16 s @ be16 c @ to_byte (c * 2) # concat (map be16 ws)))))"

section \<open>Responses\<close>

datatype modbus_response =
    ReadBits (r_slave: int) (r_fc: int) (r_bits: "bool list")
  | ReadRegs (r_slave: int) (r_fc: int) (r_regs: "int list")
  | WriteAck (r_slave: int) (r_fc: int) (r_addr: int) (r_count: int)
  | ExceptionResponse (r_slave: int) (r_fc: int) (r_code: int)

definition unpack_bits :: "bytes \<Rightarrow> bool list" where
  "unpack_bits data = concat (map (\<lambda>b. map (bit b) [0..<8]) data)"

definition be_word :: "byte \<Rightarrow> byte \<Rightarrow> int" where
  "be_word hi lo = js_or (js_shl (uint hi) 8) (uint lo)"

fun be_words :: "bytes \<Rightarrow> int list" where
  "be_words (hi # lo # rest) = be_word hi lo # be_words rest"
| "be_words _ = []"

definition parse_pdu :: "int \<Rightarrow> bytes \<Rightarrow> modbus_response option" where
  "parse_pdu slave pdu =
     (let fc = uint (pdu ! 0) in
      if js_and fc 128 \<noteq> 0 then
        (if length pdu \<noteq> 2 then None else Some (ExceptionResponse slave fc (uint (pdu ! 1))))
      else if fc = 1 \<or> fc = 2 then
        (if length pdu < 2 then None
         else if length pdu \<noteq> 2 + unat (pdu ! 1) then None
         else Some (ReadBits slave fc (unpack_bits (drop 2 pdu))))
      else if fc = 3 \<or> fc = 4 then
        (if length pdu < 2 then None
         else if length pdu \<noteq> 2 + unat (pdu ! 1) \<or> unat (pdu ! 1) mod 2 \<noteq> 0 then None
         else Some (ReadRegs slave fc (be_words (drop 2 pdu))))
      else if fc = 5 \<or> fc = 6 then
        (if length pdu \<noteq> 5 then None
         else Some (WriteAck slave fc (be_word (pdu ! 1) (pdu ! 2)) 1))
      else if fc = 15 \<or> fc = 16 then
        (if length pdu \<noteq> 5 then None
         else Some (WriteAck slave fc (be_word (pdu ! 1) (pdu ! 2)) (be_word (pdu ! 3) (pdu ! 4))))
      else None)"

definition parseResponse :: "bool \<Rightarrow> bytes \<Rightarrow> bool \<Rightarrow> int option \<Rightarrow> modbus_response option" where
  "parseResponse verifyCrcFlag frame optPduOnly optSlave =
     (let pduOnly = (\<not> verifyCrcFlag \<and> optPduOnly);
          minLen = (if verifyCrcFlag then 4 else if pduOnly then 2 else 3) in
      if length frame < minLen then None
      else if verifyCrcFlag \<and> \<not> verifyCrc frame then None
      else let pduLen = (if verifyCrcFlag then length frame - 2 else length frame);
               slave = (if pduOnly then (case optSlave of None \<Rightarrow> 0 | Some s \<Rightarrow> s) else uint (frame ! 0));
               pdu = (if pduOnly then take pduLen frame else drop 1 (take pduLen frame))
           in parse_pdu slave pdu)"

section \<open>IEEE single precision\<close>

text \<open>\<open>DataView.setFloat32\<close> and \<open>getFloat32\<close> on the 32 bits of a single.  A finite number
  times \<open>2 ^ 126\<close> lies in binade \<open>j\<close> (below \<open>2 ^ (j + 1)\<close>, subnormals sharing binade 0) and
  keeps 23 bits below \<open>2 ^ j\<close>, rounded half to even.\<close>

function find_binade :: "rat \<Rightarrow> nat \<Rightarrow> nat" where
  "find_binade y j = (if j < 254 \<and> 2 ^ (j + 1) \<le> y then find_binade y (j + 1) else j)"
  by pat_completeness auto
termination
  by (relation "measure (\<lambda>(y, j). 254 - j)") auto

declare find_binade.simps [simp del]

definition round_half_even :: "rat \<Rightarrow> int" where
  "round_half_even x =
     (let f = \<lfloor>x\<rfloor>; d = x - of_int f in
      if d < 1 / 2 then f else if d > 1 / 2 then f + 1 else if f mod 2 = 0 then f else f + 1)"

fun float32_bits :: "jsnum \<Rightarrow> int" where
  "float32_bits NaN = 0x7fc00000"
| "float32_bits PosInf = 0x7f800000"
| "float32_bits NegInf = 0xff800000"
| "float32_bits NegZero = 0x80000000"
| "float32_bits (Num r) =
     (let y = \<bar>r\<bar> * 2 ^ 126; j = find_binade y 0;
          b = min (int j * 2 ^ 23 + round_half_even (y * 2 ^ 23 / 2 ^ j)) 0x7f800000
      in if r < 0 then 0x80000000 + b else b)"

definition float32_value :: "int \<Rightarrow> jsnum" where
  "float32_value n =
     (let s = n div 2 ^ 31; e = n div 2 ^ 23 mod 256; f = n mod 2 ^ 23 in
      if e = 255 then (if f \<noteq> 0 then NaN else if s = 1 then NegInf else PosInf)
      else let y = (if e = 0 then of_int f else of_int (2 ^ 23 + f) * 2 ^ nat (e - 1)) / (2 ^ 23 * 2 ^ 126)
        in if y = 0 then (if s = 1 then NegZero else Num 0) else Num (if s = 1 then - y else y))"

section \<open>Register values\<close>

text \<open>A missing word reads as 0: the operators turn \<open>undefined\<close> into 0.\<close>

definition reg_at :: "int list \<Rightarrow> nat \<Rightarrow> int" where
  "reg_at regs i = (if i < length regs then regs ! i else 0)"

definition toInt8 :: "int \<Rightarrow> int" where
  "toInt8 u8 = (let v = js_and u8 255 in if v \<ge> 128 then v - 256 else v)"

definition toInt16 :: "int \<Rightarrow> int" where
  "toInt16 w = (let v = js_and w 65535 in if v \<ge> 32768 then v - 65536 else v)"

definition toInt32 :: "int \<Rightarrow> int \<Rightarrow> int" where
  "toInt32 hi lo = (let v = js_and hi 65535 * 65536 + js_and lo 65535
     in if v \<ge> 2147483648 then v - 4294967296 else v)"

definition decodeFloat32BE :: "int \<Rightarrow> int \<Rightarrow> jsnum" where
  "decodeFloat32BE hi lo = float32_value (js_and hi 65535 * 65536 + js_and lo 65535)"

definition encodeFloat32BE :: "jsnum \<Rightarrow> int \<times> int" where
  "encodeFloat32BE v = (let n = float32_bits v in (n div 65536, n mod 65536))"

definition is_le_type :: "value_type \<Rightarrow> bool" where
  "is_le_type t = (t = TUint32LE \<or> t = TInt32LE \<or> t = TFloat32LE)"

definition u32Halves :: "value_type \<Rightarrow> int list \<Rightarrow> int \<times> int" where
  "u32Halves t regs =
     (if is_le_type t then (js_ushr (reg_at regs 1) 0, js_ushr (reg_at regs 0) 0)
      else (js_ushr (reg_at regs 0) 0, js_ushr (reg_at regs 1) 0))"

definition emitU32Words :: "value_type \<Rightarrow> int \<Rightarrow> int \<Rightarrow> int list" where
  "emitU32Words t hi lo =
     (if is_le_type t then [js_and lo 65535, js_and hi 65535] else [js_and hi 65535, js_and lo 65535])"

definition decodeValue :: "value_type \<Rightarrow> int list \<Rightarrow> jsnum" where
  "decodeValue t regs =
     (if t = TBool then js_int (if reg_at regs 0 \<noteq> 0 then 1 else 0)
      else if t = TUint8 then js_int (js_and (js_ushr (reg_at regs 0) 8) 255)
      else if t = TInt8 then js_int (toInt8 (js_and (js_ushr (reg_at regs 0) 8) 255))
      else if t = TUint16 then js_int (js_and (reg_at regs 0) 65535)
      else if t = TInt16 then js_int (toInt16 (reg_at regs 0))
      else let (hi, lo) = u32Halves t regs in
        if t = TUint32BE \<or> t = TUint32LE then js_int (hi * 65536 + lo)
        else if t = TInt32BE \<or> t = TInt32LE then js_int (toInt32 hi lo)
        else decodeFloat32BE hi lo)"

function chunk :: "nat \<Rightarrow> 'a list \<Rightarrow> 'a list list" where
  "chunk n xs = (if 0 < n \<and> n \<le> length xs then take n xs # chunk n (drop n xs) else [])"
  by pat_completeness auto
termination
  by (relation "measure (\<lambda>(n, xs). length xs)") auto

declare chunk.simps [simp del]

definition decode_byte_pair :: "value_type \<Rightarrow> int \<Rightarrow> jsnum list" where
  "decode_byte_pair t reg =
     (let hi = js_and (js_ushr reg 8) 255; lo = js_and reg 255 in
      [js_int (if t = TInt8 then toInt8 hi else hi), js_int (if t = TInt8 then toInt8 lo else lo)])"

definition decodeValues :: "value_type \<Rightarrow> int list \<Rightarrow> jsnum list" where
  "decodeValues t regs =
     (if isByteValueType t then concat (map (decode_byte_pair t) regs)
      else map (decodeValue t) (chunk (registerSpan t) regs))"

text \<open>\<open>Math.max(min, Math.min(max, Math.trunc(v)))\<close>.  The callers either reject NaN or
  pass the result to a bitwise operator, which reads it as 0.\<close>

fun clampInteger :: "jsnum \<Rightarrow> int \<Rightarrow> int \<Rightarrow> int" where
  "clampInteger NaN lo hi = 0"
| "clampInteger PosInf lo hi = max lo hi"
| "clampInteger NegInf lo hi = lo"
| "clampInteger v lo hi = max lo (min hi (js_trunc v))"

definition encodeValue :: "value_type \<Rightarrow> jsnum \<Rightarrow> js_error + int list" where
  "encodeValue t v =
     (if \<not> js_isFinite v then Inl RangeError
      else if t = TBool then Inr [if js_rat v = Some 0 then 0 else 1]
      else if t = TUint8 then Inr [js_shl (clampInteger v 0 255) 8]
      else if t = TInt8 then Inr [js_shl (js_and (clampInteger v (-128) 127) 255) 8]
      else if t = TUint16 then Inr [clampInteger v 0 65535]
      else if t = TInt16 then Inr [js_and (clampInteger v (-32768) 32767) 65535]
      else if t = TUint32BE \<or> t = TUint32LE then
        (let u32 = clampInteger v 0 4294967295
         in Inr (emitU32Words t (js_and (js_ushr u32 16) 65535) (js_and u32 65535)))
      else if t = TInt32BE \<or> t = TInt32LE then
        (let i32 = clampInteger v (-2147483648) 2147483647;
             u32 = (if i32 < 0 then i32 + 4294967296 else i32)
         in Inr (emitU32Words t (js_and (js_ushr u32 16) 65535) (js_and u32 65535)))
      else (let (hi, lo) = encodeFloat32BE v in Inr (emitU32Words t hi lo)))"

definition encode_byte :: "value_type \<Rightarrow> jsnum \<Rightarrow> int" where
  "encode_byte t v =
     (if t = TInt8 then js_and (clampInteger v (-128) 127) 255 else clampInteger v 0 255)"

fun encode_byte_pairs :: "value_type \<Rightarrow> jsnum list \<Rightarrow> int list" where
  "encode_byte_pairs t [] = []"
| "encode_byte_pairs t [v] = [js_or (js_shl (encode_byte t v) 8) (encode_byte t (js_int 0))]"
| "encode_byte_pairs t (v # w # vs) =
     js_or (js_shl (encode_byte t v) 8) (encode_byte t w) # encode_byte_pairs t vs"

definition encodeValues :: "value_type \<Rightarrow> jsnum list \<Rightarrow> js_error + int list" where
  "encodeValues t vs =
     (if isByteValueType t then Inr (encode_byte_pairs t vs)
      else bind_ok (mapM_ok (encodeValue t) vs) (\<lambda>ws. Inr (concat ws)))"

fun js_clamp_floor :: "int \<Rightarrow> int \<Rightarrow> jsnum \<Rightarrow> jsnum" where
  "js_clamp_floor lo hi NaN = NaN"
| "js_clamp_floor lo hi PosInf = js_int (max lo hi)"
| "js_clamp_floor lo hi NegInf = js_int lo"
| "js_clamp_floor lo hi v = js_int (max lo (min hi (js_floor v)))"

definition clampSlave :: "jsnum \<Rightarrow> jsnum" where "clampSlave n = js_clamp_floor 0 247 n"
definition clampU16 :: "jsnum \<Rightarrow> jsnum" where "clampU16 n = js_clamp_floor 0 65535 n"

section \<open>Words of two bytes\<close>

lemma even_top_bit: "0 \<le> (x :: int) \<Longrightarrow> x < 256 \<Longrightarrow> even (x div 128) = (x < 128)"
proof (cases "x < 128")
  case False
  assume "x < 256"
  with False have "(x - 128) div 128 = 0" by (intro div_pos_pos_trivial) simp_all
  then have "x div 128 = 1" using div_add_self2 [of 128 "x - 128"] by simp
  with False show ?thesis by simp
qed simp

lemma js_and_128: "(js_and (uint (b :: byte)) 128 = 0) = (uint b < 128)"
proof -
  have b: "0 \<le> uint b AND 128" "uint b AND 128 \<le> 128" by (simp_all add: AND_upper2)
  have "js_and (uint b) 128 = sint (word_of_int (uint b AND 128) :: 32 word)"
    by (simp only: js_and_def word_and_of_int)
  also have "\<dots> = uint b AND 128" using b by (intro sint_word32) auto
  finally have "(js_and (uint b) 128 = 0) = (\<not> bit (uint b) 7)"
    using and_exp_eq_0_iff_not_bit [of "uint b" 7] by simp
  also have "\<dots> = (uint b < 128)"
    using even_top_bit [OF uint_byte_bounds] by (simp add: bit_iff_odd)
  finally show ?thesis .
qed

lemma be_word_eq [simp]: "be_word h l = uint h * 256 + uint l"
  by (simp add: be_word_def)

lemma be16_eq: "u16 n \<Longrightarrow> be16 n = [to_byte (n div 256), to_byte n]"
proof -
  assume "u16 n"
  then have "js_ushr n 8 = n div 256" by (simp add: js_ushr_in_range u16_def)
  then show ?thesis by (simp add: be16_def js_and_lit(4))
qed

lemma be16_word: "u16 n \<Longrightarrow> n div 256 mod 256 * 256 + n mod 256 = n"
proof -
  assume n: "u16 n"
  have "n div 256 mod 256 = n div 256"
    by (rule mod_pos_pos_trivial) (use n in \<open>auto simp: u16_def\<close>)
  then show ?thesis by simp
qed

lemma length_be16 [simp]: "length (be16 n) = 2"
  by (simp add: be16_def)

lemma be_words_be16: "\<forall>w \<in> set ws. u16 w \<Longrightarrow> be_words (concat (map be16 ws)) = ws"
  by (induction ws) (simp_all add: be16_eq be16_word)

lemma length_concat_be16: "length (concat (map be16 ws)) = 2 * length ws"
  by (induction ws) simp_all

lemma assertU16_Inr: "assertU16 v = Inr n \<longleftrightarrow> js_isInteger v \<and> u16 (js_floor v) \<and> n = js_floor v"
  by (auto simp: assertU16_def u16_def)

lemma assertQuantity_Inr:
  "assertQuantity v mx = Inr n \<longleftrightarrow> js_isInteger v \<and> 1 \<le> js_floor v \<and> js_floor v \<le> mx \<and> n = js_floor v"
  by (auto simp: assertQuantity_def)

lemma assertU16_int: "u16 n \<Longrightarrow> assertU16 (js_int n) = Inr n"
  by (simp add: assertU16_Inr)

lemma assertU16_cases: "assertU16 v = Inl RangeError \<or> (\<exists>n. assertU16 v = Inr n)"
  by (simp add: assertU16_def)

section \<open>Coil packing\<close>

lemma bit_mark: "j < 8 \<Longrightarrow> bit (push_bit m (1 :: byte)) j = (j = m)"
  by (auto simp: bit_push_bit_iff bit_1_iff simp del: push_bit_of_1)

lemma pack_coils_prefix:
  assumes "n \<le> length bs"
  defines "D m \<equiv> foldl (\<lambda>data i. if bs ! i then data[i div 8 := data ! (i div 8) OR push_bit (i mod 8) 1] else data)
       (replicate ((length bs + 7) div 8) (0 :: byte)) [0..<m]"
  shows "length (D n) = (length bs + 7) div 8 \<and>
    (\<forall>k < (length bs + 7) div 8. \<forall>j < 8. bit (D n ! k) j = (8 * k + j < n \<and> bs ! (8 * k + j)))"
  using assms(1)
proof (induction n)
  case 0
  then show ?case by (simp add: D_def)
next
  case (Suc n)
  let ?N = "(length bs + 7) div 8"
  have ih: "length (D n) = ?N" "\<And>k j. k < ?N \<Longrightarrow> j < 8 \<Longrightarrow> bit (D n ! k) j = (8 * k + j < n \<and> bs ! (8 * k + j))"
    using Suc by auto
  have step: "D (Suc n) = (if bs ! n then (D n)[n div 8 := D n ! (n div 8) OR push_bit (n mod 8) 1] else D n)"
    by (simp add: D_def)
  have n: "n div 8 < ?N" using Suc.prems by linarith
  have key: "bit (D (Suc n) ! k) j = (8 * k + j < Suc n \<and> bs ! (8 * k + j))" if kj: "k < ?N" "j < 8" for k j
  proof (cases "k = n div 8 \<and> j = n mod 8")
    case True
    then have e: "8 * k + j = n" by simp
    with True n ih kj show ?thesis
      by (simp add: step bit_or_iff bit_mark del: push_bit_of_1)
  next
    case False
    have e: "8 * k + j \<noteq> n"
    proof
      assume "8 * k + j = n"
      then have "n div 8 = k" "n mod 8 = j" using kj by auto
      with False show False by simp
    qed
    have "bit (D (Suc n) ! k) j = bit (D n ! k) j"
    proof (cases "bs ! n \<and> k = n div 8")
      case True
      with False have "j \<noteq> n mod 8" by simp
      with True n ih kj show ?thesis by (simp add: step bit_or_iff bit_mark del: push_bit_of_1)
    next
      case False
      then show ?thesis by (auto simp: step nth_list_update)
    qed
    with ih kj e show ?thesis by auto
  qed
  show ?case using key ih(1) by (simp add: step)
qed

lemma length_pack_coils: "length (pack_coils bs) = (length bs + 7) div 8"
  using pack_coils_prefix [of "length bs" bs] by (simp add: pack_coils_def)

lemma bit_pack_coils:
  "k < (length bs + 7) div 8 \<Longrightarrow> j < 8 \<Longrightarrow>
    bit (pack_coils bs ! k) j = (8 * k + j < length bs \<and> bs ! (8 * k + j))"
  using pack_coils_prefix [of "length bs" bs] by (simp add: pack_coils_def)

lemma length_unpack_bits: "length (unpack_bits data) = 8 * length data"
  by (induction data) (simp_all add: unpack_bits_def)

lemma nth_unpack_bits: "i < 8 * length data \<Longrightarrow> unpack_bits data ! i = bit (data ! (i div 8)) (i mod 8)"
proof (induction data arbitrary: i)
  case (Cons b data)
  show ?case
  proof (cases "i < 8")
    case True
    then show ?thesis by (simp add: unpack_bits_def nth_append)
  next
    case False
    then obtain m where m: "i = m + 8" by (metis le_add_diff_inverse2 not_less)
    have "unpack_bits (b # data) ! i = unpack_bits data ! m"
      by (simp add: m unpack_bits_def nth_append)
    also have "\<dots> = bit (data ! (m div 8)) (m mod 8)" using Cons m by simp
    finally show ?thesis by (simp add: m)
  qed
qed simp

lemma unpack_pack: "take (length bs) (unpack_bits (pack_coils bs)) = bs"
proof (rule nth_equalityI)
  show "length (take (length bs) (unpack_bits (pack_coils bs))) = length bs"
    by (simp add: length_unpack_bits length_pack_coils)
next
  fix i assume "i < length (take (length bs) (unpack_bits (pack_coils bs)))"
  then have i: "i < length bs" by simp
  then have "i div 8 < (length bs + 7) div 8" by linarith
  then show "take (length bs) (unpack_bits (pack_coils bs)) ! i = bs ! i"
    using i by (simp add: nth_unpack_bits length_pack_coils bit_pack_coils)
qed

section \<open>How a server reads a request\<close>

text \<open>The layout of the eight public functions, as the receiving side reads them.\<close>

datatype request =
    ReadRequest int int int
  | WriteCoilRequest int bool
  | WriteRegisterRequest int int
  | WriteCoilsRequest int "bool list"
  | WriteRegistersRequest int "int list"

definition decode_request :: "bytes \<Rightarrow> request option" where
  "decode_request pdu =
     (if length pdu < 5 then None
      else let fc = uint (pdu ! 0); a = be_word (pdu ! 1) (pdu ! 2); c = be_word (pdu ! 3) (pdu ! 4);
               rest = drop 6 pdu
      in if fc \<in> {1, 2, 3, 4} \<and> length pdu = 5 then Some (ReadRequest fc a c)
         else if fc = 5 \<and> length pdu = 5 \<and> c = 65280 then Some (WriteCoilRequest a True)
         else if fc = 5 \<and> length pdu = 5 \<and> c = 0 then Some (WriteCoilRequest a False)
         else if fc = 6 \<and> length pdu = 5 then Some (WriteRegisterRequest a c)
         else if fc = 15 \<and> length pdu \<ge> 6 \<and> uint (pdu ! 5) = (c + 7) div 8 \<and>
             int (length rest) = uint (pdu ! 5) then
           Some (WriteCoilsRequest a (take (nat c) (unpack_bits rest)))
         else if fc = 16 \<and> length pdu \<ge> 6 \<and> uint (pdu ! 5) = 2 * c \<and> int (length rest) = 2 * c then
           Some (WriteRegistersRequest a (be_words rest))
         else None)"

lemma decode_request_read:
  "isReadFc fc \<Longrightarrow> u16 s \<Longrightarrow> u16 c \<Longrightarrow>
    decode_request (to_byte fc # be16 s @ be16 c) = Some (ReadRequest fc s c)"
  by (auto simp: decode_request_def isReadFc_def be16_eq be16_word Let_def)

lemma decode_request_coil:
  "u16 a \<Longrightarrow> decode_request (5 # be16 a @ [if on then 255 else 0, 0]) = Some (WriteCoilRequest a on)"
  by (simp add: decode_request_def be16_eq be16_word Let_def)

lemma decode_request_register:
  "u16 a \<Longrightarrow> u16 w \<Longrightarrow> decode_request (6 # be16 a @ be16 w) = Some (WriteRegisterRequest a w)"
  by (simp add: decode_request_def be16_eq be16_word Let_def)

lemma decode_request_coils:
  assumes "u16 a" "length bs \<le> 1968"
  shows "decode_request (15 # be16 a @ be16 (int (length bs)) @ to_byte (int ((length bs + 7) div 8)) # pack_coils bs)
    = Some (WriteCoilsRequest a bs)"
proof -
  have c: "u16 (int (length bs))" using assms(2) by (auto simp: u16_def)
  define k where "k = (length bs + 7) div 8"
  have k: "k < 256" "int k = (int (length bs) + 7) div 8" using assms(2) by (simp_all add: k_def zdiv_int)
  have m: "uint (to_byte (int k)) = int k" using k(1) by (intro uint_to_byte_small) simp_all
  have l: "length (pack_coils bs) = k" by (simp add: length_pack_coils k_def)
  show ?thesis using c m l unpack_pack [of bs]
    by (simp add: decode_request_def be16_eq be16_word assms(1) Let_def k_def [symmetric] k(2) [symmetric])
qed

lemma decode_request_registers:
  assumes "u16 a" "length ws \<le> 123" "\<forall>w \<in> set ws. u16 w"
  shows "decode_request (16 # be16 a @ be16 (int (length ws)) @ to_byte (int (length ws) * 2) # concat (map be16 ws))
    = Some (WriteRegistersRequest a ws)"
proof -
  have c: "u16 (int (length ws))" using assms(2) by (auto simp: u16_def)
  have m: "uint (to_byte (int (length ws) * 2)) = int (length ws) * 2"
    using assms(2) by (intro uint_to_byte_small) auto
  show ?thesis using c m be_words_be16 [OF assms(3)] length_concat_be16 [of ws]
    by (simp add: decode_request_def be16_eq be16_word assms(1) Let_def)
qed

section \<open>How a server answers\<close>

datatype answer =
    BitsAnswer int "bool list"
  | RegsAnswer int "int list"
  | EchoAnswer int int int
  | ExceptionAnswer int int

fun encode_answer :: "answer \<Rightarrow> bytes" where
  "encode_answer (BitsAnswer fc bs) = to_byte fc # to_byte (int ((length bs + 7) div 8)) # pack_coils bs"
| "encode_answer (RegsAnswer fc ws) = to_byte fc # to_byte (2 * int (length ws)) # concat (map be16 ws)"
| "encode_answer (EchoAnswer fc a c) = to_byte fc # be16 a @ be16 c"
| "encode_answer (ExceptionAnswer fc code) = [to_byte (fc + 128), to_byte code]"

fun answer_ok :: "answer \<Rightarrow> bool" where
  "answer_ok (BitsAnswer fc bs) = ((fc = 1 \<or> fc = 2) \<and> length bs \<le> 2000)"
| "answer_ok (RegsAnswer fc ws) = ((fc = 3 \<or> fc = 4) \<and> length ws \<le> 125 \<and> list_all u16 ws)"
| "answer_ok (EchoAnswer fc a c) = ((fc = 5 \<or> fc = 6 \<or> fc = 15 \<or> fc = 16) \<and> u16 a \<and> u16 c)"
| "answer_ok (ExceptionAnswer fc code) = (1 \<le> fc \<and> fc < 128 \<and> 0 \<le> code \<and> code < 256)"

text \<open>What the client should see of it.  Bit answers come in whole bytes, so the parser
  returns the padding too: only the first \<open>length bs\<close> bits are determined by the request.\<close>

fun answer_seen :: "int \<Rightarrow> answer \<Rightarrow> modbus_response \<Rightarrow> bool" where
  "answer_seen slave (BitsAnswer fc bs) r = (\<exists>pad. r = ReadBits slave fc (bs @ pad) \<and> length pad < 8)"
| "answer_seen slave (RegsAnswer fc ws) r = (r = ReadRegs slave fc ws)"
| "answer_seen slave (EchoAnswer fc a c) r =
     (r = WriteAck slave fc a (if fc = 5 \<or> fc = 6 then 1 else c))"
| "answer_seen slave (ExceptionAnswer fc code) r = (r = ExceptionResponse slave (fc + 128) code)"

lemma unpack_pack_pad:
  obtains pad where "unpack_bits (pack_coils bs) = bs @ pad" "length pad < 8"
proof
  show "unpack_bits (pack_coils bs) = bs @ drop (length bs) (unpack_bits (pack_coils bs))"
    using unpack_pack [of bs] append_take_drop_id [of "length bs" "unpack_bits (pack_coils bs)"] by metis
  show "length (drop (length bs) (unpack_bits (pack_coils bs))) < 8"
    by (simp add: length_unpack_bits length_pack_coils)
qed

lemma no_exception_bit: "0 \<le> fc \<Longrightarrow> fc < 128 \<Longrightarrow> js_and (fc mod 256) 128 = 0"
  using js_and_128 [of "to_byte fc"] by simp

lemma parse_read_bits:
  "fc = 1 \<or> fc = 2 \<Longrightarrow> length data < 256 \<Longrightarrow>
    parse_pdu slave (to_byte fc # to_byte (int (length data)) # data) = Some (ReadBits slave fc (unpack_bits data))"
  using no_exception_bit [of fc] by (elim disjE) (simp_all add: parse_pdu_def)

lemma parse_read_regs:
  "fc = 3 \<or> fc = 4 \<Longrightarrow> 2 * length ws < 256 \<Longrightarrow> \<forall>w \<in> set ws. u16 w \<Longrightarrow>
    parse_pdu slave (to_byte fc # to_byte (int (2 * length ws)) # concat (map be16 ws)) = Some (ReadRegs slave fc ws)"
  using unat_to_byte [of "2 * length ws"] no_exception_bit [of fc]
  by (elim disjE) (simp_all add: parse_pdu_def be_words_be16 length_concat_be16)

lemma parse_echo:
  assumes "fc = 5 \<or> fc = 6 \<or> fc = 15 \<or> fc = 16" "u16 a" "u16 c"
  shows "parse_pdu slave (to_byte fc # be16 a @ be16 c) = Some (WriteAck slave fc a (if fc = 5 \<or> fc = 6 then 1 else c))"
  using assms(1) no_exception_bit [of fc]
  by (elim disjE) (simp_all add: parse_pdu_def be16_eq be16_word assms(2,3))

lemma parse_exception:
  assumes "1 \<le> fc" "fc < 128" "0 \<le> code" "code < 256"
  shows "parse_pdu slave [to_byte (fc + 128), to_byte code] = Some (ExceptionResponse slave (fc + 128) code)"
  using js_and_128 [of "to_byte (fc + 128)"] assms by (simp add: parse_pdu_def)

lemma parse_encode_answer:
  assumes "answer_ok a"
  shows "\<exists>r. parse_pdu slave (encode_answer a) = Some r \<and> answer_seen slave a r"
proof (cases a)
  case (BitsAnswer fc bs)
  obtain pad where p: "unpack_bits (pack_coils bs) = bs @ pad" "length pad < 8"
    by (rule unpack_pack_pad)
  have "fc = 1 \<or> fc = 2" "length (pack_coils bs) < 256" using BitsAnswer assms by (auto simp: length_pack_coils)
  from parse_read_bits [OF this] show ?thesis using BitsAnswer p by (simp add: length_pack_coils)
next
  case (RegsAnswer fc ws)
  then have "fc = 3 \<or> fc = 4" "2 * length ws < 256" "\<forall>w \<in> set ws. u16 w"
    using assms by (auto simp: list_all_iff)
  from parse_read_regs [OF this] show ?thesis using RegsAnswer by simp
next
  case (EchoAnswer fc x c)
  with assms show ?thesis using parse_echo [of fc x c slave] by simp
next
  case (ExceptionAnswer fc code)
  with assms show ?thesis using parse_exception [of fc code slave] by simp
qed

lemma parse_response_ok:
  assumes "answer_ok a" "0 \<le> slave" "slave < 256"
  shows "(\<exists>r. parseResponse True (withCrc (to_byte slave # encode_answer a)) False None = Some r \<and>
      answer_seen slave a r) \<and>
    (\<exists>r. parseResponse False (encode_answer a) True (Some slave) = Some r \<and> answer_seen slave a r)"
proof -
  obtain r where r: "parse_pdu slave (encode_answer a) = Some r" "answer_seen slave a r"
    using parse_encode_answer [OF assms(1)] by blast
  have l: "2 \<le> length (encode_answer a)" by (cases a) (simp_all add: be16_def)
  then have ne: "encode_answer a \<noteq> []" by auto
  let ?f = "withCrc (to_byte slave # encode_answer a)"
  have v: "verifyCrc ?f" by (rule withCrc_verifies) (use l in simp)
  have "take (length ?f - 2) ?f = to_byte slave # encode_answer a" "length ?f = 3 + length (encode_answer a)"
    by (simp_all add: withCrc_eq)
  moreover have "?f ! 0 = to_byte slave" by (simp add: withCrc_eq)
  ultimately have "parseResponse True ?f False None = Some r"
    using v l ne r(1) assms(2,3) by (simp add: parseResponse_def Let_def)
  moreover have "parseResponse False (encode_answer a) True (Some slave) = Some r"
    using l r(1) by (simp add: parseResponse_def Let_def)
  ultimately show ?thesis using r(2) by blast
qed

section \<open>Properties\<close>

text \<open>When each builder succeeds, and the request a server then reads.  Every other
  argument raises \<open>RangeError\<close>.\<close>

definition u16_arg :: "jsnum \<Rightarrow> bool" where
  "u16_arg v \<longleftrightarrow> js_isInteger v \<and> 0 \<le> js_floor v \<and> js_floor v \<le> 65535"

definition quantity_arg :: "jsnum \<Rightarrow> int \<Rightarrow> bool" where
  "quantity_arg v mx \<longleftrightarrow> js_isInteger v \<and> 1 \<le> js_floor v \<and> js_floor v \<le> mx"

lemma assertU16_eq: "assertU16 v = (if u16_arg v then Inr (js_floor v) else Inl RangeError)"
  by (auto simp: assertU16_def u16_arg_def)

lemma assertQuantity_eq:
  "assertQuantity v mx = (if quantity_arg v mx then Inr (js_floor v) else Inl RangeError)"
  by (auto simp: assertQuantity_def quantity_arg_def)

lemma u16_arg: "u16_arg v \<Longrightarrow> u16 (js_floor v)"
  by (auto simp: u16_arg_def)

lemma mapM_assertU16:
  "mapM_ok assertU16 vs = (if list_all u16_arg vs then Inr (map js_floor vs) else Inl RangeError)"
  by (induction vs) (auto simp: assertU16_eq)

text \<open>The read builder accepts exactly a read function, a 16-bit start and a quantity
  within the function's limit, and then a server reads the same function, start and
  quantity from the bytes; anything else is a \<open>RangeError\<close>.\<close>

theorem read_request_correct:
  "buildReadRequestPdu fc start cnt =
     (if isReadFc fc \<and> u16_arg start \<and> quantity_arg cnt (if isBitFc fc then 2000 else 125)
      then Inr (to_byte fc # be16 (js_floor start) @ be16 (js_floor cnt)) else Inl RangeError) \<and>
   (buildReadRequestPdu fc start cnt = Inr pdu \<longrightarrow>
     decode_request pdu = Some (ReadRequest fc (js_floor start) (js_floor cnt)))"
proof (intro conjI impI)
  show e: "buildReadRequestPdu fc start cnt =
     (if isReadFc fc \<and> u16_arg start \<and> quantity_arg cnt (if isBitFc fc then 2000 else 125)
      then Inr (to_byte fc # be16 (js_floor start) @ be16 (js_floor cnt)) else Inl RangeError)"
    by (simp add: buildReadRequestPdu_def assertU16_eq assertQuantity_eq limit_readBits_def
        limit_readRegisters_def)
  assume "buildReadRequestPdu fc start cnt = Inr pdu"
  with e have h: "isReadFc fc" "u16_arg start" "u16 (js_floor cnt)"
    "pdu = to_byte fc # be16 (js_floor start) @ be16 (js_floor cnt)"
    by (auto simp: quantity_arg_def u16_def split: if_splits)
  then show "decode_request pdu = Some (ReadRequest fc (js_floor start) (js_floor cnt))"
    using decode_request_read u16_arg by simp
qed

text \<open>The four write builders: each accepts exactly the 16-bit addresses and values and
  the quantities its function allows, and the server reads back the same address, values
  and, coil by coil, the same states.\<close>

theorem write_requests_correct:
  "(case buildWriteSingleCoilPdu addr on of
      Inl e \<Rightarrow> e = RangeError \<and> \<not> u16_arg addr
    | Inr pdu \<Rightarrow> u16_arg addr \<and> decode_request pdu = Some (WriteCoilRequest (js_floor addr) on)) \<and>
   (case buildWriteSingleRegisterPdu addr v of
      Inl e \<Rightarrow> e = RangeError \<and> \<not> (u16_arg addr \<and> u16_arg v)
    | Inr pdu \<Rightarrow> u16_arg addr \<and> u16_arg v \<and>
        decode_request pdu = Some (WriteRegisterRequest (js_floor addr) (js_floor v))) \<and>
   (case buildWriteMultipleCoilsPdu addr bs of
      Inl e \<Rightarrow> e = RangeError \<and> \<not> (u16_arg addr \<and> 1 \<le> length bs \<and> length bs \<le> 1968)
    | Inr pdu \<Rightarrow> u16_arg addr \<and> 1 \<le> length bs \<and> length bs \<le> 1968 \<and>
        decode_request pdu = Some (WriteCoilsRequest (js_floor addr) bs)) \<and>
   (case buildWriteMultipleRegistersPdu addr vs of
      Inl e \<Rightarrow> e = RangeError \<and> \<not> (u16_arg addr \<and> 1 \<le> length vs \<and> length vs \<le> 123 \<and> list_all u16_arg vs)
    | Inr pdu \<Rightarrow> u16_arg addr \<and> 1 \<le> length vs \<and> length vs \<le> 123 \<and> list_all u16_arg vs \<and>
        decode_request pdu = Some (WriteRegistersRequest (js_floor addr) (map js_floor vs)))"
proof (intro conjI)
  show "case buildWriteSingleCoilPdu addr on of
      Inl e \<Rightarrow> e = RangeError \<and> \<not> u16_arg addr
    | Inr pdu \<Rightarrow> u16_arg addr \<and> decode_request pdu = Some (WriteCoilRequest (js_floor addr) on)"
    using decode_request_coil [OF u16_arg, of addr on]
    by (simp add: buildWriteSingleCoilPdu_def assertU16_eq)
  show "case buildWriteSingleRegisterPdu addr v of
      Inl e \<Rightarrow> e = RangeError \<and> \<not> (u16_arg addr \<and> u16_arg v)
    | Inr pdu \<Rightarrow> u16_arg addr \<and> u16_arg v \<and>
        decode_request pdu = Some (WriteRegisterRequest (js_floor addr) (js_floor v))"
    using decode_request_register [OF u16_arg u16_arg, of addr v]
    by (simp add: buildWriteSingleRegisterPdu_def assertU16_eq)
  show "case buildWriteMultipleCoilsPdu addr bs of
      Inl e \<Rightarrow> e = RangeError \<and> \<not> (u16_arg addr \<and> 1 \<le> length bs \<and> length bs \<le> 1968)
    | Inr pdu \<Rightarrow> u16_arg addr \<and> 1 \<le> length bs \<and> length bs \<le> 1968 \<and>
        decode_request pdu = Some (WriteCoilsRequest (js_floor addr) bs)"
    using decode_request_coils [OF u16_arg, of addr bs]
    by (auto simp: buildWriteMultipleCoilsPdu_def assertU16_eq assertQuantity_eq quantity_arg_def
        limit_writeBits_def Let_def)
  have ws: "\<forall>w \<in> set (map js_floor vs). u16 w" if "list_all u16_arg vs"
    using that u16_arg by (auto simp: list_all_iff)
  show "case buildWriteMultipleRegistersPdu addr vs of
      Inl e \<Rightarrow> e = RangeError \<and> \<not> (u16_arg addr \<and> 1 \<le> length vs \<and> length vs \<le> 123 \<and> list_all u16_arg vs)
    | Inr pdu \<Rightarrow> u16_arg addr \<and> 1 \<le> length vs \<and> length vs \<le> 123 \<and> list_all u16_arg vs \<and>
        decode_request pdu = Some (WriteRegistersRequest (js_floor addr) (map js_floor vs))"
    using decode_request_registers [OF u16_arg _ ws, of addr]
    by (auto simp: buildWriteMultipleRegistersPdu_def assertU16_eq assertQuantity_eq quantity_arg_def
        limit_writeRegisters_def mapM_assertU16 Let_def)
qed

text \<open>Every well-formed answer of a server, sent over RTU with its CRC or as a bare PDU,
  parses to what it says: the bits (with fewer than eight padding bits), the register words,
  the echoed address and count, or the exception code.\<close>

theorem parse_response_correct:
  assumes "answer_ok a" "0 \<le> slave" "slave < 256"
  shows "(\<exists>r. parseResponse True (withCrc (to_byte slave # encode_answer a)) False None = Some r \<and>
      answer_seen slave a r) \<and>
    (\<exists>r. parseResponse False (encode_answer a) True (Some slave) = Some r \<and> answer_seen slave a r)"
  using parse_response_ok [OF assms] by blast

section \<open>Witnesses\<close>

theorem read_request_correct_witness:
  "decode_request [3, 0, 107, 0, 3] = Some (ReadRequest 3 107 3)"
  using read_request_correct [of 3 "js_int 107" "js_int 3" "[3, 0, 107, 0, 3]"]
  by (simp add: isReadFc_def isBitFc_def u16_arg_def quantity_arg_def be16_eq u16_def)

theorem parse_response_correct_witness:
  "parseResponse True (withCrc (to_byte 17 # encode_answer (RegsAnswer 3 [555, 0, 100]))) False None
     = Some (ReadRegs 17 3 [555, 0, 100])"
  using parse_response_correct [of "RegsAnswer 3 [555, 0, 100]" 17] by (simp add: u16_def)

end
