(* ===== verification/ModbusValues.thy ===== *)
theory ModbusValues
  imports ModbusCore
begin

text \<open>
  The typed register values of \<open>modbus-core.ts\<close> (\<open>encodeValue(s)\<close>, \<open>decodeValue(s)\<close>):
  encoding and decoding are inverse to each other, in both register orders, for whole lists
  and for IEEE singles including subnormals and negative zero.
\<close>

section \<open>Singles\<close>

lemma find_binade_unique:
  assumes "j \<le> k" "k \<le> 254" "\<forall>i. j \<le> i \<and> i < k \<longrightarrow> 2 ^ (i + 1) \<le> y" "y < 2 ^ (k + 1)"
  shows "find_binade y j = k"
  using assms
proof (induction y j rule: find_binade.induct)
  case (1 y j)
  show ?case
  proof (cases "j = k")
    case True
    with "1.prems" show ?thesis by (subst find_binade.simps) (simp add: not_le)
  next
    case False
    with "1.prems" have c: "j < 254 \<and> 2 ^ (j + 1) \<le> y" by auto
    with "1.prems" False have "find_binade y (j + 1) = k" by (intro "1.IH") auto
    then show ?thesis using c by (subst find_binade.simps) simp
  qed
qed

lemma round_half_even_int [simp]: "round_half_even (of_int m) = m"
  by (simp add: round_half_even_def)

text \<open>A single with exponent field \<open>e\<close> and fraction \<open>f\<close>, as binade and significand.\<close>

lemma find_binade_single:
  assumes "0 \<le> f" "f < 2 ^ 23" "k \<le> 253"
  shows "find_binade (of_int (2 ^ 23 + f) * 2 ^ k / 2 ^ 23) 0 = k"
    and "find_binade (of_int f / 2 ^ 23) 0 = 0"
proof -
  let ?y = "of_int (2 ^ 23 + f) * 2 ^ k / 2 ^ 23 :: rat"
  have m: "(2 ^ 23 :: rat) \<le> of_int (2 ^ 23 + f)" "of_int (2 ^ 23 + f) < (2 ^ 24 :: rat)"
    using assms(1,2) by (simp_all add: of_int_less_iff [of _ "2 ^ 24", symmetric, simplified])
  have lo: "2 ^ k \<le> ?y" using mult_right_mono [OF m(1), of "2 ^ k"] by (simp add: field_simps)
  have hi: "?y < 2 ^ (k + 1)"
    using mult_strict_right_mono [OF m(2), of "2 ^ k"] by (simp add: field_simps)
  have "2 ^ (i + 1) \<le> ?y" if "i < k" for i
  proof -
    have "(2::rat) ^ (i + 1) \<le> 2 ^ k" using that by (intro power_increasing) simp_all
    with lo show ?thesis by linarith
  qed
  with hi assms(3) show "find_binade ?y 0 = k" by (intro find_binade_unique) auto
  have "of_int f < (2 ^ 23 :: rat)" using assms(2) by (simp add: of_int_less_iff [of _ "2 ^ 23", symmetric, simplified])
  then show "find_binade (of_int f / 2 ^ 23) 0 = 0" by (intro find_binade_unique) (auto simp: field_simps)
qed

lemma float32_fields:
  "(n :: int) = q * 2 ^ 23 + f \<Longrightarrow> q = s * 256 + e \<Longrightarrow> n = s * 2 ^ 31 + e * 2 ^ 23 + f"
  by simp

lemma float32_parts:
  fixes n :: int
  assumes "0 \<le> n" "n < 2 ^ 32"
  shows "n = n div 2 ^ 31 * 2 ^ 31 + (n div 2 ^ 23 mod 256) * 2 ^ 23 + n mod 2 ^ 23"
    and "n div 2 ^ 31 = 0 \<or> n div 2 ^ 31 = 1"
proof -
  have a: "n div 2 ^ 23 div 256 = n div 2 ^ 31" by (simp add: zdiv_zmult2_eq [symmetric])
  have "n = n div 2 ^ 23 * 2 ^ 23 + n mod 2 ^ 23" by simp
  moreover have "n div 2 ^ 23 = n div 2 ^ 31 * 256 + n div 2 ^ 23 mod 256"
    unfolding a [symmetric] by simp
  ultimately show "n = n div 2 ^ 31 * 2 ^ 31 + (n div 2 ^ 23 mod 256) * 2 ^ 23 + n mod 2 ^ 23"
    by (rule float32_fields)
  show "n div 2 ^ 31 = 0 \<or> n div 2 ^ 31 = 1" using assms by auto
qed

lemma float32_bits_value:
  assumes n: "0 \<le> n" "n < 2 ^ 32" and fin: "n div 2 ^ 23 mod 256 \<noteq> 255"
  shows "float32_bits (float32_value n) = n"
proof -
  define s where "s = n div 2 ^ 31"
  define e where "e = n div 2 ^ 23 mod 256"
  define f where "f = n mod 2 ^ 23"
  have nn: "n = s * 2 ^ 31 + e * 2 ^ 23 + f" and s: "s = 0 \<or> s = 1"
    using float32_parts [OF n] unfolding s_def e_def f_def by blast+
  have f: "0 \<le> f" "f < 2 ^ 23" unfolding f_def by (rule pos_mod_sign, simp, rule pos_mod_bound, simp)
  have "0 \<le> e" "e < 256" unfolding e_def by (rule pos_mod_sign, simp, rule pos_mod_bound, simp)
  moreover have "e \<noteq> 255" using fin unfolding e_def .
  ultimately have e: "0 \<le> e" "e < 255" by simp_all
  define j where "j = (if e = 0 then 0 else nat (e - 1))"
  define m where "m = (if e = 0 then f else 2 ^ 23 + f)"
  define y :: rat where "y = of_int m * 2 ^ j / 2 ^ 23"
  have jm: "int j * 2 ^ 23 + m = e * 2 ^ 23 + f" "j \<le> 253" using e by (auto simp: j_def m_def)
  have "y * 2 ^ 23 / 2 ^ j = of_int m" by (simp add: y_def)
  then have b1: "round_half_even (y * 2 ^ 23 / 2 ^ j) = m" by (simp only: round_half_even_int)
  have b2: "find_binade y 0 = j"
  proof (cases "e = 0")
    case True
    then have "y = of_int f / 2 ^ 23" "j = 0" by (simp_all add: y_def m_def j_def)
    then show ?thesis using find_binade_single(2) [OF f jm(2)] by (simp only:)
  next
    case False
    then have "y = of_int (2 ^ 23 + f) * 2 ^ j / 2 ^ 23" by (simp only: y_def m_def if_False)
    then show ?thesis using find_binade_single(1) [OF f jm(2)] by (simp only:)
  qed
  have y0: "0 \<le> y" using f by (simp add: y_def m_def)
  have v: "float32_value n = (if y = 0 then (if s = 1 then NegZero else Num 0)
      else Num (if s = 1 then - (y / 2 ^ 126) else y / 2 ^ 126))"
  proof -
    have num: "(if e = 0 then of_int f else of_int (2 ^ 23 + f) * 2 ^ nat (e - 1)) = (of_int m * 2 ^ j :: rat)"
      by (simp add: m_def j_def)
    have y: "(of_int m * 2 ^ j :: rat) / (2 ^ 23 * 2 ^ 126) = y / 2 ^ 126"
      unfolding y_def divide_divide_eq_left ..
    have "(y / 2 ^ 126 = 0) = (y = 0)" by (simp only: divide_eq_0_iff) simp
    with e show ?thesis
      unfolding float32_value_def Let_def s_def [symmetric] e_def [symmetric] f_def [symmetric] num y
      by (simp only: if_False) auto
  qed
  have mag: "float32_bits (Num r) = (if r < 0 then 2 ^ 31 + (e * 2 ^ 23 + f) else e * 2 ^ 23 + f)"
    if "\<bar>r\<bar> * 2 ^ 126 = y" for r
  proof -
    have "e * 2 ^ 23 + f \<le> 0x7f800000" using e f by simp
    with b1 b2 jm(1) that show ?thesis by (simp add: Let_def)
  qed
  show ?thesis
  proof (cases "y = 0")
    case True
    then have "m = 0" by (simp add: y_def)
    then have "e = 0" "f = 0" using f by (auto simp: m_def split: if_splits)
    with v True nn s mag [of 0] show ?thesis by auto
  next
    case False
    with y0 have pos: "0 < y" by simp
    then have p: "float32_bits (Num (y / 2 ^ 126)) = e * 2 ^ 23 + f"
      using mag [of "y / 2 ^ 126"] by (simp del: float32_bits.simps)
    from pos have q: "float32_bits (Num (- (y / 2 ^ 126))) = 2 ^ 31 + (e * 2 ^ 23 + f)"
      using mag [of "- (y / 2 ^ 126)"] by (simp del: float32_bits.simps)
    from s show ?thesis
    proof
      assume s: "s = 0"
      then have "float32_value n = Num (y / 2 ^ 126)" using v False by simp
      then have "float32_bits (float32_value n) = e * 2 ^ 23 + f" using p by (simp only:)
      with nn s show ?thesis by simp
    next
      assume s: "s = 1"
      then have "float32_value n = Num (- (y / 2 ^ 126))" using v False by simp
      then have "float32_bits (float32_value n) = 2 ^ 31 + (e * 2 ^ 23 + f)" using q by (simp only:)
      with nn s show ?thesis by simp
    qed
  qed
qed

lemma float32_value_finite:
  assumes "js_isFinite (float32_value n)"
  shows "n div 2 ^ 23 mod 256 \<noteq> 255"
  using assms by (auto simp: float32_value_def Let_def js_isFinite_def split: if_splits)

section \<open>One value\<close>

lemma u16_shift: "u16 x \<Longrightarrow> js_ushr x 0 = x"
  by (auto simp: u16_def js_ushr_in_range)

lemma u16_low: "u16 x \<Longrightarrow> x mod 65536 = x"
  by (auto simp: u16_def)

lemma u16_pair:
  "u16 hi \<Longrightarrow> u16 lo \<Longrightarrow> (hi * 65536 + lo) div 65536 = hi \<and> (hi * 65536 + lo) mod 65536 = lo"
  by (auto simp: u16_def)

lemma byte_halves: "u16 w \<Longrightarrow> js_and (js_ushr w 8) 255 = w div 256 \<and> w div 256 < 256 \<and> 0 \<le> w div 256"
proof -
  assume w: "u16 w"
  then have b: "0 \<le> w div 256" "w div 256 < 256" by (auto simp: u16_def)
  then show ?thesis using w by (simp add: js_ushr_in_range js_and_lit(4) u16_def)
qed

lemma u32_pair:
  assumes "u16 hi" "u16 lo"
  shows "js_and (js_ushr (hi * 65536 + lo) 16) 65535 = hi \<and> js_and (hi * 65536 + lo) 65535 = lo"
proof -
  have "0 \<le> hi * 65536 + lo" "hi * 65536 + lo < 2 ^ 32" using assms by (auto simp: u16_def)
  then have "js_ushr (hi * 65536 + lo) 16 = hi" using u16_pair [OF assms] by (simp add: js_ushr_in_range)
  then show ?thesis using u16_pair [OF assms] assms by (simp add: js_and_lit(5) u16_low)
qed

lemma emit_halves:
  "u16 a \<Longrightarrow> u16 b \<Longrightarrow> u32Halves t [a, b] = (hi, lo) \<Longrightarrow> emitU32Words t hi lo = [a, b] \<and> u16 hi \<and> u16 lo"
  by (auto simp: u32Halves_def emitU32Words_def reg_at_def u16_shift js_and_lit u16_low split: if_splits)

lemma clamp_int: "lo \<le> i \<Longrightarrow> i \<le> hi \<Longrightarrow> clampInteger (js_int i) lo hi = i"
  using js_int_simps(5) [of i] by (simp add: js_int_def)

lemma encode_decode_pair:
  assumes ab: "u16 a" "u16 b" and t: "registerSpan t = 2" and fin: "js_isFinite (decodeValue t [a, b])"
  shows "encodeValue t (decodeValue t [a, b]) = Inr [a, b]"
proof -
  obtain hi lo where h: "u32Halves t [a, b] = (hi, lo)" by fastforce
  have e: "emitU32Words t hi lo = [a, b]" "u16 hi" "u16 lo" using emit_halves [OF ab h] by simp_all
  have r: "0 \<le> hi * 65536 + lo" "hi * 65536 + lo < 2 ^ 32" using e by (auto simp: u16_def)
  consider "t = TUint32BE \<or> t = TUint32LE" | "t = TInt32BE \<or> t = TInt32LE" | "t = TFloat32BE \<or> t = TFloat32LE"
    using t by (cases t) (auto simp: registerSpan_def isByteValueType_def)
  then show ?thesis
  proof cases
    case 1
    then have "decodeValue t [a, b] = js_int (hi * 65536 + lo)" by (auto simp: decodeValue_def h)
    with 1 show ?thesis using r e u32_pair [OF e(2,3)] by (auto simp: encodeValue_def clamp_int Let_def)
  next
    case 2
    then have d: "decodeValue t [a, b] = js_int (toInt32 hi lo)" by (auto simp: decodeValue_def h)
    have v: "toInt32 hi lo = (if hi * 65536 + lo \<ge> 2147483648 then hi * 65536 + lo - 4294967296 else hi * 65536 + lo)"
      using e by (simp add: toInt32_def js_and_lit u16_low)
    have c: "clampInteger (js_int (toInt32 hi lo)) (-2147483648) 2147483647 = toInt32 hi lo"
      using r by (intro clamp_int) (auto simp: v)
    have u: "(if toInt32 hi lo < 0 then toInt32 hi lo + 4294967296 else toInt32 hi lo) = hi * 65536 + lo"
      using r by (auto simp: v)
    from 2 show ?thesis using e u32_pair [OF e(2,3)] unfolding d
      by (auto simp: encodeValue_def Let_def c u)
  next
    case 3
    then have d: "decodeValue t [a, b] = float32_value (hi * 65536 + lo)"
      using e by (auto simp: decodeValue_def h decodeFloat32BE_def js_and_lit u16_low)
    have "(hi * 65536 + lo) div 2 ^ 23 mod 256 \<noteq> 255" using float32_value_finite fin unfolding d .
    from float32_bits_value [OF r this] have "encodeFloat32BE (decodeValue t [a, b]) = (hi, lo)"
      using u16_pair [OF e(2,3)] by (simp add: encodeFloat32BE_def d)
    with 3 fin e show ?thesis by (auto simp: encodeValue_def)
  qed
qed

lemma toInt16_eq: "u16 a \<Longrightarrow> toInt16 a = (if 32768 \<le> a then a - 65536 else a)"
  by (simp add: toInt16_def js_and_lit u16_low)

lemma toInt8_eq: "0 \<le> a \<Longrightarrow> a < 256 \<Longrightarrow> toInt8 a = (if 128 \<le> a then a - 256 else a)"
  by (simp add: toInt8_def js_and_lit)

lemma toInt16_mod: "u16 a \<Longrightarrow> toInt16 a mod 65536 = a"
proof -
  assume a: "u16 a"
  have "(a - 65536) mod 65536 = a mod 65536" by simp
  then show ?thesis using a by (simp add: toInt16_eq u16_low)
qed

lemma toInt8_mod: "0 \<le> a \<Longrightarrow> a < 256 \<Longrightarrow> toInt8 a mod 256 = a"
proof -
  assume a: "0 \<le> a" "a < 256"
  have "(a - 256) mod 256 = a mod 256" by simp
  then show ?thesis using a by (simp add: toInt8_eq)
qed

lemma encode_decode_single:
  assumes "u16 a" "t = TBool \<and> a \<le> 1 \<or> t = TUint16 \<or> t = TInt16"
  shows "encodeValue t (decodeValue t [a]) = Inr [a]"
proof -
  have a: "0 \<le> a" "a < 65536" using assms(1) by (auto simp: u16_def)
  have c: "clampInteger (js_int (toInt16 a)) (-32768) 32767 = toInt16 a"
    using a assms(1) by (intro clamp_int) (simp_all add: toInt16_eq)
  consider "t = TBool" "a = 0 \<or> a = 1" | "t = TUint16" | "t = TInt16" using assms(2) a by fastforce
  then show ?thesis
  proof cases
    case 1
    then show ?thesis by (auto simp: decodeValue_def encodeValue_def reg_at_def)
  next
    case 2
    then show ?thesis using a by (simp add: decodeValue_def encodeValue_def reg_at_def js_and_lit clamp_int)
  next
    case 3
    then show ?thesis using a c toInt16_mod [OF assms(1)]
      by (simp add: decodeValue_def encodeValue_def reg_at_def js_and_lit)
  qed
qed

lemma encode_byte_decode:
  "isByteValueType t \<Longrightarrow> 0 \<le> a \<Longrightarrow> a < 256 \<Longrightarrow> encode_byte t (js_int (if t = TInt8 then toInt8 a else a)) = a"
  using clamp_int [of "-128" "toInt8 a" 127] toInt8_mod [of a]
  by (auto simp: encode_byte_def isByteValueType_def js_and_lit clamp_int toInt8_eq)

lemma encode_decode_bytes:
  assumes "isByteValueType t" "u16 a"
  shows "encode_byte_pairs t (decode_byte_pair t a @ vs) = a # encode_byte_pairs t vs"
proof -
  have h: "js_and (js_ushr a 8) 255 = a div 256" "0 \<le> a div 256" "a div 256 < 256"
    using byte_halves [OF assms(2)] by simp_all
  have l: "0 \<le> a mod 256" "a mod 256 < 256" by simp_all
  have "js_or (js_shl (a div 256) 8) (a mod 256) = a" using js_be16 [OF h(2,3) l] by simp
  then show ?thesis
    using encode_byte_decode [OF assms(1) h(2,3)] encode_byte_decode [OF assms(1) l]
    unfolding decode_byte_pair_def Let_def h(1) unfolding js_and_lit(4) by simp
qed

section \<open>Lists of values\<close>

lemma chunk_1: "chunk (Suc 0) xs = map (\<lambda>x. [x]) xs"
  by (induction xs) (subst chunk.simps, simp)+

lemma chunk_2: "chunk 2 (a # b # xs) = [a, b] # chunk 2 xs" "chunk 2 [a] = []" "chunk 2 [] = ([] :: 'a list list)"
  by (subst chunk.simps, simp)+

text \<open>Words that a value of the type can produce: a coil word is 0 or 1, and two-register
  types need whole pairs.\<close>

definition words_ok :: "value_type \<Rightarrow> int list \<Rightarrow> bool" where
  "words_ok t ws \<longleftrightarrow> list_all u16 ws \<and> (t = TBool \<longrightarrow> list_all (\<lambda>w. w \<le> 1) ws) \<and>
     length ws mod registerSpan t = 0 \<and> list_all js_isFinite (decodeValues t ws)"

lemma words_roundtrip_pairs:
  assumes t: "registerSpan t = 2"
  shows "list_all u16 ws \<Longrightarrow> even (length ws) \<Longrightarrow> list_all js_isFinite (map (decodeValue t) (chunk 2 ws)) \<Longrightarrow>
    bind_ok (mapM_ok (encodeValue t) (map (decodeValue t) (chunk 2 ws))) (\<lambda>ws. Inr (concat ws)) = Inr ws"
proof (induction ws rule: induct_list012)
  case (3 a b ws)
  have "encodeValue t (decodeValue t [a, b]) = Inr [a, b]"
    using "3.prems" t by (intro encode_decode_pair) (simp_all add: chunk_2)
  with "3.IH"(1) "3.prems" show ?case
    by (cases "mapM_ok (encodeValue t) (map (decodeValue t) (chunk 2 ws))") (simp_all add: chunk_2)
qed (simp_all add: chunk_2)

lemma words_roundtrip:
  assumes "words_ok t ws"
  shows "encodeValues t (decodeValues t ws) = Inr ws"
proof -
  have u: "list_all u16 ws" using assms by (simp add: words_ok_def)
  consider "isByteValueType t" | "\<not> isByteValueType t" "registerSpan t = 1" | "\<not> isByteValueType t" "registerSpan t = 2"
    by (cases t) (auto simp: registerSpan_def isByteValueType_def)
  then show ?thesis
  proof cases
    case 1
    have "encode_byte_pairs t (concat (map (decode_byte_pair t) ws)) = ws"
      using u by (induction ws) (simp_all add: encode_decode_bytes [OF 1])
    with 1 show ?thesis by (simp add: encodeValues_def decodeValues_def)
  next
    case 2
    then have t: "t = TBool \<or> t = TUint16 \<or> t = TInt16"
      by (cases t) (auto simp: registerSpan_def isByteValueType_def)
    have "encodeValue t (decodeValue t [w]) = Inr [w]" if "w \<in> set ws" for w
      using that t assms by (intro encode_decode_single) (auto simp: words_ok_def list_all_iff)
    then have "mapM_ok (encodeValue t) (map (\<lambda>w. decodeValue t [w]) ws) = Inr (map (\<lambda>w. [w]) ws)"
      by (induction ws) simp_all
    moreover have "concat (map (\<lambda>w. [w]) ws) = ws" by (induction ws) simp_all
    ultimately show ?thesis using 2 by (simp add: encodeValues_def decodeValues_def chunk_1 comp_def)
  next
    case 3
    with assms words_roundtrip_pairs [OF 3(2), of ws] show ?thesis
      by (auto simp: encodeValues_def decodeValues_def words_ok_def)
  qed
qed

text \<open>Values the type holds exactly.\<close>

definition int_in :: "jsnum \<Rightarrow> int \<Rightarrow> int \<Rightarrow> bool" where
  "int_in v lo hi \<longleftrightarrow> v = js_int (js_floor v) \<and> lo \<le> js_floor v \<and> js_floor v \<le> hi"

fun representable :: "value_type \<Rightarrow> jsnum \<Rightarrow> bool" where
  "representable TBool v = int_in v 0 1"
| "representable TUint8 v = int_in v 0 255"
| "representable TInt8 v = int_in v (-128) 127"
| "representable TUint16 v = int_in v 0 65535"
| "representable TInt16 v = int_in v (-32768) 32767"
| "representable TUint32BE v = int_in v 0 4294967295"
| "representable TUint32LE v = int_in v 0 4294967295"
| "representable TInt32BE v = int_in v (-2147483648) 2147483647"
| "representable TInt32LE v = int_in v (-2147483648) 2147483647"
| "representable _ v = (js_isFinite v \<and> float32_value (float32_bits v) = v)"

lemma int_inD: "int_in v lo hi \<Longrightarrow> \<exists>i. v = js_int i \<and> lo \<le> i \<and> i \<le> hi"
  by (auto simp: int_in_def)

lemma find_binade_le: "j \<le> 254 \<Longrightarrow> find_binade y j \<le> 254"
proof (induction y j rule: find_binade.induct)
  case (1 y j)
  then show ?case by (subst find_binade.simps) auto
qed

lemma round_half_even_nonneg: "0 \<le> x \<Longrightarrow> 0 \<le> round_half_even x"
  by (auto simp: round_half_even_def Let_def)

lemma float32_bits_range: "0 \<le> float32_bits v \<and> float32_bits v < 2 ^ 32"
proof (cases v)
  case (Num r)
  define b where "b = (let y = \<bar>r\<bar> * 2 ^ 126; j = find_binade y 0
    in min (int j * 2 ^ 23 + round_half_even (y * 2 ^ 23 / 2 ^ j)) 0x7f800000)"
  have "0 \<le> b" "b \<le> 0x7f800000" by (auto simp: b_def Let_def intro!: add_nonneg_nonneg round_half_even_nonneg)
  moreover have "float32_bits v = (if r < 0 then 0x80000000 + b else b)"
    using Num by (simp add: b_def Let_def)
  ultimately show ?thesis by auto
qed simp_all

lemma halves_emit:
  "u16 hi \<Longrightarrow> u16 lo \<Longrightarrow> u32Halves t (emitU32Words t hi lo) = (hi, lo) \<and>
    list_all u16 (emitU32Words t hi lo) \<and> length (emitU32Words t hi lo) = 2"
  by (auto simp: u32Halves_def emitU32Words_def reg_at_def u16_shift js_and_lit u16_low)

lemma u32_split:
  assumes "0 \<le> n" "n < 2 ^ 32"
  shows "js_and (js_ushr n 16) 65535 = n div 65536 \<and> js_and n 65535 = n mod 65536 \<and>
    u16 (n div 65536) \<and> u16 (n mod 65536)"
proof -
  have b: "0 \<le> n div 65536" "n div 65536 < 65536" using assms by auto
  then show ?thesis using assms by (simp add: js_ushr_in_range js_and_lit u16_def)
qed

text \<open>What one value encodes to: as many 16-bit words as the type spans, which decode back.\<close>

definition encodes :: "value_type \<Rightarrow> jsnum \<Rightarrow> int list \<Rightarrow> bool" where
  "encodes t v ws \<longleftrightarrow> encodeValue t v = Inr ws \<and> length ws = registerSpan t \<and>
     list_all u16 ws \<and> decodeValue t ws = v"

lemma encodes_single:
  assumes "representable t v" "t = TBool \<or> t = TUint16 \<or> t = TInt16"
  shows "\<exists>ws. encodes t v ws"
  using assms(2)
proof (elim disjE)
  assume t: "t = TBool"
  then have "v = js_int 0 \<or> v = js_int 1" using assms(1) by (auto dest!: int_inD) (smt (verit))
  with t show ?thesis
    by (intro exI [of _ "[if js_rat v = Some 0 then 0 else 1]"])
      (auto simp: encodes_def encodeValue_def decodeValue_def reg_at_def registerSpan_def u16_def)
next
  assume t: "t = TUint16"
  then obtain i where i: "v = js_int i" "0 \<le> i" "i \<le> 65535" using assms(1) by (auto dest: int_inD)
  with t show ?thesis
    by (intro exI [of _ "[i]"])
      (simp add: encodes_def encodeValue_def decodeValue_def reg_at_def registerSpan_def u16_def clamp_int js_and_lit)
next
  assume t: "t = TInt16"
  then obtain i where i: "v = js_int i" "-32768 \<le> i" "i \<le> 32767" using assms(1) by (auto dest: int_inD)
  have m: "u16 (i mod 65536)" by (simp add: u16_def)
  have "toInt16 (i mod 65536) = i"
  proof (cases "0 \<le> i")
    case True
    with i have "i mod 65536 = i" by simp
    with m i True show ?thesis by (simp add: toInt16_eq)
  next
    case False
    have "i mod 65536 = (i + 65536) mod 65536" by simp
    also have "\<dots> = i + 65536" using False i by (intro mod_pos_pos_trivial) simp_all
    finally show ?thesis using m i False by (simp add: toInt16_eq)
  qed
  with t i m show ?thesis
    by (intro exI [of _ "[i mod 65536]"])
      (simp add: encodes_def encodeValue_def decodeValue_def reg_at_def registerSpan_def clamp_int js_and_lit
        isByteValueType_def)
qed

lemma encodes_uint32:
  assumes "v = js_int i" "0 \<le> i" "i \<le> 4294967295" "t = TUint32BE \<or> t = TUint32LE"
  shows "\<exists>ws. encodes t v ws"
proof -
  let ?ws = "emitU32Words t (i div 65536) (i mod 65536)"
  have i: "0 \<le> i" "i < 2 ^ 32" using assms by simp_all
  note h = u32_split [OF i] halves_emit [of "i div 65536" "i mod 65536" t]
  have "encodes t v ?ws" using assms(4) h assms(2,3)
    by (auto simp: encodes_def assms(1) encodeValue_def decodeValue_def registerSpan_def
        isByteValueType_def clamp_int Let_def)
  then show ?thesis ..
qed

lemma encodes_int32:
  assumes "v = js_int i" "-2147483648 \<le> i" "i \<le> 2147483647" "t = TInt32BE \<or> t = TInt32LE"
  shows "\<exists>ws. encodes t v ws"
proof -
  define n where "n = (if i < 0 then i + 4294967296 else i)"
  let ?ws = "emitU32Words t (n div 65536) (n mod 65536)"
  have n: "0 \<le> n" "n < 2 ^ 32" using assms(2,3) by (auto simp: n_def)
  note h = u32_split [OF n] halves_emit [of "n div 65536" "n mod 65536" t]
  have "toInt32 (n div 65536) (n mod 65536) = (if 2147483648 \<le> n then n - 4294967296 else n)"
    using h(1) by (simp add: toInt32_def js_and_lit u16_low)
  also have "\<dots> = i" using assms(2,3) by (auto simp: n_def)
  finally have d: "toInt32 (n div 65536) (n mod 65536) = i" .
  have e: "encodeValue t v = Inr ?ws"
    using assms(4) conjunct1 [OF h(1)] conjunct1 [OF conjunct2 [OF h(1)]]
    by (auto simp: encodeValue_def assms(1) clamp_int assms(2,3) Let_def n_def [symmetric])
  have "encodes t v ?ws" using assms(4) h d e
    by (auto simp: encodes_def assms(1) decodeValue_def registerSpan_def isByteValueType_def)
  then show ?thesis ..
qed

lemma encodes_float32:
  assumes "js_isFinite v" "float32_value (float32_bits v) = v" "t = TFloat32BE \<or> t = TFloat32LE"
  shows "\<exists>ws. encodes t v ws"
proof -
  define n where "n = float32_bits v"
  let ?ws = "emitU32Words t (n div 65536) (n mod 65536)"
  have n: "0 \<le> n" "n < 2 ^ 32" using float32_bits_range [of v] by (simp_all add: n_def)
  note h = u32_split [OF n] halves_emit [of "n div 65536" "n mod 65536" t]
  have "decodeFloat32BE (n div 65536) (n mod 65536) = v"
    using h(1) assms(2) by (simp add: decodeFloat32BE_def js_and_lit u16_low n_def [symmetric])
  with assms h have "encodes t v ?ws"
    by (auto simp: encodes_def encodeValue_def decodeValue_def registerSpan_def isByteValueType_def
        encodeFloat32BE_def n_def [symmetric] Let_def)
  then show ?thesis ..
qed

lemma encodes_value:
  assumes "representable t v" "\<not> isByteValueType t"
  shows "\<exists>ws. encodes t v ws"
proof (cases "t = TBool \<or> t = TUint16 \<or> t = TInt16")
  case True
  with encodes_single [OF assms(1)] show ?thesis by blast
next
  case False
  with assms show ?thesis
    by (cases t) (auto simp: isByteValueType_def dest!: int_inD
        intro: encodes_uint32 encodes_int32 encodes_float32)
qed

lemma chunk_append: "length ws = n \<Longrightarrow> 0 < n \<Longrightarrow> chunk n (ws @ rest) = ws # chunk n rest"
  by (subst chunk.simps) simp

lemma encode_values_words:
  assumes "\<not> isByteValueType t" "list_all (representable t) vs"
  shows "\<exists>ws. encodeValues t vs = Inr ws \<and> length ws = registerSpan t * length vs \<and>
    list_all u16 ws \<and> decodeValues t ws = vs"
  using assms(2)
proof (induction vs)
  case Nil
  have "0 < registerSpan t" by (simp add: registerSpan_def)
  then show ?case using assms(1) by (simp add: encodeValues_def decodeValues_def) (subst chunk.simps, simp)
next
  case (Cons v vs)
  then obtain ws where ws: "encodeValues t vs = Inr ws" "length ws = registerSpan t * length vs"
    "list_all u16 ws" "decodeValues t ws = vs" by auto
  obtain w where w: "encodes t v w" using encodes_value assms(1) Cons.prems by auto
  have "0 < registerSpan t" by (simp add: registerSpan_def)
  then have "decodeValues t (w @ ws) = v # vs"
    using w ws(4) assms(1) chunk_append [of w "registerSpan t" ws] by (simp add: decodeValues_def encodes_def)
  moreover have "encodeValues t (v # vs) = Inr (w @ ws)"
    using w ws(1) assms(1) by (auto simp: encodeValues_def encodes_def bind_ok_eq_Inr)
  ultimately show ?case using w ws(2,3) by (intro exI [of _ "w @ ws"]) (simp add: encodes_def)
qed

lemma encode_byte_range:
  "isByteValueType t \<Longrightarrow> representable t v \<Longrightarrow>
    0 \<le> encode_byte t v \<and> encode_byte t v < 256 \<and>
    js_int (if t = TInt8 then toInt8 (encode_byte t v) else encode_byte t v) = v"
proof -
  assume t: "isByteValueType t" and v: "representable t v"
  consider i where "t = TUint8" "v = js_int i" "0 \<le> i" "i \<le> 255"
    | i where "t = TInt8" "v = js_int i" "-128 \<le> i" "i \<le> 127"
    using t v by (auto simp: isByteValueType_def dest!: int_inD)
  then show ?thesis
  proof cases
    case 1
    then show ?thesis by (simp add: encode_byte_def clamp_int)
  next
    case 2
    have e: "encode_byte t v = i mod 256" using 2 by (simp add: encode_byte_def clamp_int js_and_lit)
    have "toInt8 (i mod 256) = i"
    proof (cases "0 \<le> i")
      case True
      with 2 show ?thesis by (simp add: toInt8_eq)
    next
      case False
      have "i mod 256 = (i + 256) mod 256" by simp
      also have "\<dots> = i + 256" using False 2 by (intro mod_pos_pos_trivial) simp_all
      finally show ?thesis using 2 False by (simp add: toInt8_eq)
    qed
    with e 2 show ?thesis by simp
  qed
qed

lemma decode_encode_pair:
  assumes t: "isByteValueType t" and v: "representable t v" "representable t w"
  defines "p \<equiv> js_or (js_shl (encode_byte t v) 8) (encode_byte t w)"
  shows "decode_byte_pair t p = [v, w] \<and> u16 p"
proof -
  note a = encode_byte_range [OF t v(1)] and b = encode_byte_range [OF t v(2)]
  have p: "p = encode_byte t v * 256 + encode_byte t w" using a b by (simp add: p_def js_be16)
  then have u: "u16 p" using a b by (simp add: u16_def)
  have h: "js_and (js_ushr p 8) 255 = encode_byte t v" "js_and p 255 = encode_byte t w"
    using byte_halves [OF u] a b p by (simp_all add: js_and_lit)
  show ?thesis unfolding decode_byte_pair_def Let_def h using a b u by simp
qed

lemma encode_bytes_words:
  assumes "isByteValueType t" "list_all (representable t) vs"
  shows "2 * length (encode_byte_pairs t vs) \<le> length vs + 1 \<and> length vs \<le> 2 * length (encode_byte_pairs t vs) \<and>
    list_all u16 (encode_byte_pairs t vs) \<and>
    take (length vs) (concat (map (decode_byte_pair t) (encode_byte_pairs t vs))) = vs"
  using assms
proof (induction t vs rule: encode_byte_pairs.induct)
  case (2 t v)
  have "representable t (js_int 0)" using "2.prems"(1) by (auto simp: isByteValueType_def int_in_def)
  then show ?case using decode_encode_pair [of t v "js_int 0"] "2.prems" by simp
next
  case (3 t v w vs)
  then show ?case using decode_encode_pair [of t v w] by auto
qed simp

lemma values_roundtrip:
  assumes "list_all (representable t) vs"
  shows "\<exists>ws. encodeValues t vs = Inr ws \<and> list_all u16 ws \<and> take (length vs) (decodeValues t ws) = vs \<and>
    (vs \<noteq> [] \<longrightarrow> int (length ws) = registerCountForValues t (int (length vs)))"
proof (cases "isByteValueType t")
  case True
  let ?ws = "encode_byte_pairs t vs"
  note b = encode_bytes_words [OF True assms]
  have "int (length ?ws) = (int (length vs) + 1) div 2" using b by linarith
  then show ?thesis using b True
    by (auto simp: encodeValues_def decodeValues_def registerCountForValues_def Suc_le_eq)
next
  case False
  obtain ws where ws: "encodeValues t vs = Inr ws" "length ws = registerSpan t * length vs"
    "list_all u16 ws" "decodeValues t ws = vs"
    using encode_values_words [OF False assms] by blast
  have "max 1 (int (length vs)) = int (length vs)" if "vs \<noteq> []" using that by (cases vs) auto
  then have "int (length ws) = registerCountForValues t (int (length vs))" if "vs \<noteq> []"
    using False ws(2) that by (simp add: registerCountForValues_def registerSpan_def)
  with ws show ?thesis by auto
qed

section \<open>Properties\<close>

text \<open>Encoding undoes decoding: every list of register words a type can carry (whole
  pairs for 32-bit types; no NaN or infinity for singles) decodes to values that encode to
  the same words, in either register order.\<close>

theorem encode_decode_words:
  assumes "words_ok t ws"
  shows "encodeValues t (decodeValues t ws) = Inr ws"
  using assms by (rule words_roundtrip)

text \<open>Decoding undoes encoding: values the type holds exactly encode without error to
  16-bit words, as many as \<open>registerCountForValues\<close> says, and the first values decoded from
  those words are the original ones.\<close>

theorem decode_encode_values:
  assumes "list_all (representable t) vs" "vs \<noteq> []"
  shows "\<exists>ws. encodeValues t vs = Inr ws \<and> list_all u16 ws \<and>
    int (length ws) = registerCountForValues t (int (length vs)) \<and>
    take (length vs) (decodeValues t ws) = vs"
  using values_roundtrip [OF assms(1)] assms(2) by blast

section \<open>Witnesses\<close>

lemma float_words_ok: "words_ok TFloat32LE [0, 16256]"
proof -
  have d: "decodeValues TFloat32LE [0, 16256] = [decodeValue TFloat32LE [0, 16256]]"
    by (simp add: decodeValues_def isByteValueType_def registerSpan_def chunk_2)
  have "decodeValue TFloat32LE [0, 16256] = float32_value 1065353216"
    by (simp add: decodeValue_def u32Halves_def is_le_type_def reg_at_def decodeFloat32BE_def
        js_ushr_in_range js_and_lit)
  moreover have "js_isFinite (float32_value 1065353216)"
    by (simp add: float32_value_def js_isFinite_def)
  ultimately show ?thesis by (simp add: words_ok_def d u16_def registerSpan_def isByteValueType_def)
qed

theorem encode_decode_words_witness:
  "encodeValues TFloat32LE (decodeValues TFloat32LE [0, 16256]) = Inr [0, 16256]"
  by (rule encode_decode_words [OF float_words_ok])

theorem decode_encode_values_witness:
  "\<exists>ws. encodeValues TInt8 [js_int (-1), js_int 5, js_int (-128)] = Inr ws \<and> length ws = 2"
  using decode_encode_values [of TInt8 "[js_int (-1), js_int 5, js_int (-128)]"]
  by (auto simp: int_in_def registerCountForValues_def isByteValueType_def)

end
