(* ===== verification/ModbusTransport.thy ===== *)
theory ModbusTransport
  imports ModbusCore
begin

text \<open>
  Framing of \<open>src/lib/modbus/modbus-transport.ts\<close>: wrapping a PDU for RTU (address and CRC)
  or leaving it bare, and the scanner that finds complete responses in the received bytes.

  The scanner is shown to be the leftmost greedy search for CRC-valid responses: what it
  returns is cut out of the buffer in order, the remainder starts after the last response,
  and a response behind noise is found.  A whole read transaction against a server's memory
  closes the theory.
\<close>

section \<open>Requests\<close>

datatype transport = RTU | PDU

definition frameRequest :: "transport \<Rightarrow> int \<Rightarrow> bytes \<Rightarrow> bytes" where
  "frameRequest tr slave pdu = (case tr of PDU \<Rightarrow> pdu | RTU \<Rightarrow> withCrc (to_byte (js_and slave 255) # pdu))"

definition readRequest :: "transport \<Rightarrow> int \<Rightarrow> int \<Rightarrow> jsnum \<Rightarrow> jsnum \<Rightarrow> js_error + bytes" where
  "readRequest tr slave fc start cnt =
     bind_ok (buildReadRequestPdu fc start cnt) (\<lambda>pdu. Inr (frameRequest tr slave pdu))"

definition writeSingleCoilRequest :: "transport \<Rightarrow> int \<Rightarrow> jsnum \<Rightarrow> bool \<Rightarrow> js_error + bytes" where
  "writeSingleCoilRequest tr slave addr on =
     bind_ok (buildWriteSingleCoilPdu addr on) (\<lambda>pdu. Inr (frameRequest tr slave pdu))"

definition writeSingleRegisterRequest :: "transport \<Rightarrow> int \<Rightarrow> jsnum \<Rightarrow> jsnum \<Rightarrow> js_error + bytes" where
  "writeSingleRegisterRequest tr slave addr v =
     bind_ok (buildWriteSingleRegisterPdu addr v) (\<lambda>pdu. Inr (frameRequest tr slave pdu))"

definition writeMultipleCoilsRequest :: "transport \<Rightarrow> int \<Rightarrow> jsnum \<Rightarrow> bool list \<Rightarrow> js_error + bytes" where
  "writeMultipleCoilsRequest tr slave start bs =
     bind_ok (buildWriteMultipleCoilsPdu start bs) (\<lambda>pdu. Inr (frameRequest tr slave pdu))"

definition writeMultipleRegistersRequest :: "transport \<Rightarrow> int \<Rightarrow> jsnum \<Rightarrow> jsnum list \<Rightarrow> js_error + bytes" where
  "writeMultipleRegistersRequest tr slave start vs =
     bind_ok (buildWriteMultipleRegistersPdu start vs) (\<lambda>pdu. Inr (frameRequest tr slave pdu))"

section \<open>Scanning\<close>

record scan_result =
  sr_frames :: "bytes list"
  sr_remainder :: bytes

definition rtuResponseLength :: "bytes \<Rightarrow> nat \<Rightarrow> nat option" where
  "rtuResponseLength buf off =
     (let fc = uint (buf ! (off + 1)) in
      if js_and fc 128 \<noteq> 0 then Some 5
      else if fc = 5 \<or> fc = 6 \<or> fc = 15 \<or> fc = 16 then Some 8
      else if fc \<noteq> 1 \<and> fc \<noteq> 2 \<and> fc \<noteq> 3 \<and> fc \<noteq> 4 then None
      else let byteCount = unat (buf ! (off + 2)) in
        if byteCount < 1 \<or> byteCount > 250 then None
        else if (fc = 3 \<or> fc = 4) \<and> byteCount mod 2 \<noteq> 0 then None
        else Some (byteCount + 5))"

lemma rtu_length_bounds: "rtuResponseLength buf off = Some len \<Longrightarrow> 5 \<le> len \<and> len \<le> 255"
  by (auto simp: rtuResponseLength_def Let_def split: if_splits)

definition crc_mismatch :: "bytes \<Rightarrow> nat \<Rightarrow> nat \<Rightarrow> bool" where
  "crc_mismatch buf off en =
     (let crc = crc16Modbus (take (en - 2 - off) (drop off buf)) in
      js_and crc 255 \<noteq> uint (buf ! (en - 2)) \<or> js_ushr crc 8 \<noteq> uint (buf ! (en - 1)))"

function scan_rtu :: "bytes \<Rightarrow> nat \<Rightarrow> nat \<Rightarrow> bytes list \<times> nat" where
  "scan_rtu buf off consumed =
     (if off + 4 < length buf then
        (case rtuResponseLength buf off of
           None \<Rightarrow> scan_rtu buf (off + 1) consumed
         | Some len \<Rightarrow>
             if off + len > length buf then scan_rtu buf (off + 1) consumed
             else if crc_mismatch buf off (off + len) then scan_rtu buf (off + 1) consumed
             else let (frames, c) = scan_rtu buf (off + len) (off + len)
                  in (take len (drop off buf) # frames, c))
      else ([], consumed))"
  by pat_completeness auto
termination
  by (relation "measure (\<lambda>(buf, off, consumed). length buf - off)") (auto dest: rtu_length_bounds)

declare scan_rtu.simps [simp del]

function scan_pdu :: "bytes \<Rightarrow> jsnum option \<Rightarrow> nat \<Rightarrow> bytes list \<times> nat" where
  "scan_pdu buf expected off =
     (if off < length buf then
        (case (if js_and (uint (buf ! off)) 128 \<noteq> 0 then Some (js_int 2) else expected) of
           None \<Rightarrow> ([], off)
         | Some v \<Rightarrow>
             if \<not> js_isInteger v \<or> js_floor v < 1 \<or> js_floor v > 253 \<or> off + nat (js_floor v) > length buf
             then ([], off)
             else let len = nat (js_floor v); (frames, o') = scan_pdu buf expected (off + len)
                  in (take len (drop off buf) # frames, o'))
      else ([], off))"
  by pat_completeness auto
termination
  by (relation "measure (\<lambda>(buf, e, off). length buf - off)") auto

declare scan_pdu.simps [simp del]

definition scanResponse :: "transport \<Rightarrow> bytes \<Rightarrow> jsnum option \<Rightarrow> scan_result" where
  "scanResponse tr buf expectedLength =
     (case tr of
        PDU \<Rightarrow> let (frames, off) = scan_pdu buf expectedLength 0
               in \<lparr>sr_frames = frames, sr_remainder = drop off buf\<rparr>
      | RTU \<Rightarrow> let (frames, consumed) = scan_rtu buf 0 0
               in \<lparr>sr_frames = frames, sr_remainder = drop consumed buf\<rparr>)"

definition PDU_DEFAULT_SLAVE :: int where "PDU_DEFAULT_SLAVE = 1"

definition parseFrame :: "transport \<Rightarrow> bytes \<Rightarrow> modbus_response option" where
  "parseFrame tr frame =
     (case tr of PDU \<Rightarrow> parseResponse False frame True (Some PDU_DEFAULT_SLAVE)
      | RTU \<Rightarrow> parseResponse True frame False None)"

section \<open>The scanner as a leftmost search\<close>

text \<open>The length of the response at an offset, when there is a complete CRC-valid one.\<close>

definition response_at :: "bytes \<Rightarrow> nat \<Rightarrow> nat option" where
  "response_at buf off =
     (if off + 4 < length buf then
        case rtuResponseLength buf off of
          None \<Rightarrow> None
        | Some len \<Rightarrow> if off + len \<le> length buf \<and> verifyCrc (take len (drop off buf)) then Some len else None
      else None)"

lemma crc_mismatch_iff:
  assumes "5 \<le> len" "off + len \<le> length buf"
  shows "crc_mismatch buf off (off + len) \<longleftrightarrow> \<not> verifyCrc (take len (drop off buf))"
proof -
  let ?f = "take len (drop off buf)"
  have l: "length ?f = len" using assms by simp
  have t: "take (len - 2) ?f = take (off + len - 2 - off) (drop off buf)" using assms by simp
  have n: "?f ! (len - 2) = buf ! (off + len - 2)" "?f ! (len - 1) = buf ! (off + len - 1)"
    using assms by simp_all
  let ?c = "crc16Modbus (take (len - 2) ?f)"
  have "u16 ?c" by (rule u16_crc16)
  then have "js_and (js_ushr ?c 8) 255 = js_ushr ?c 8"
    by (auto simp: u16_def js_ushr_in_range js_and_lit)
  then show ?thesis using assms l n t by (simp add: crc_mismatch_def verifyCrc_def Let_def)
qed

lemma response_at_bounds:
  "response_at buf off = Some len \<Longrightarrow> 5 \<le> len \<and> len \<le> 255 \<and> off + len \<le> length buf \<and> off + 4 < length buf"
  using rtu_length_bounds by (auto simp: response_at_def split: if_splits option.splits)

lemma scan_rtu_step:
  "scan_rtu buf off consumed =
     (if off + 4 < length buf then
        (case response_at buf off of
           None \<Rightarrow> scan_rtu buf (off + 1) consumed
         | Some len \<Rightarrow> let (frames, c) = scan_rtu buf (off + len) (off + len)
             in (take len (drop off buf) # frames, c))
      else ([], consumed))"
proof (cases "rtuResponseLength buf off")
  case None
  then show ?thesis by (subst scan_rtu.simps) (simp add: response_at_def)
next
  case (Some len)
  note b = rtu_length_bounds [OF Some]
  show ?thesis
  proof (cases "off + len \<le> length buf")
    case True
    with Some b crc_mismatch_iff [of len off buf] show ?thesis
      by (subst scan_rtu.simps) (simp add: response_at_def)
  next
    case False
    with Some show ?thesis by (subst scan_rtu.simps) (simp add: response_at_def)
  qed
qed

text \<open>Frames with the bytes skipped before each.\<close>

fun skipped_frames :: "bytes list \<Rightarrow> bytes list \<Rightarrow> bytes" where
  "skipped_frames (g # gs) (f # fs) = g @ f @ skipped_frames gs fs"
| "skipped_frames _ _ = []"

lemma scan_rtu_decomposes:
  assumes "scan_rtu buf off consumed = (fs, c)" "consumed \<le> off" "off \<le> length buf"
  shows "\<exists>gs. length gs = length fs \<and> drop consumed buf = skipped_frames gs fs @ drop c buf \<and>
    consumed \<le> c \<and> c \<le> length buf \<and> (\<forall>f \<in> set fs. verifyCrc f \<and> response_at f 0 = Some (length f))"
  using assms
proof (induction "length buf - off" arbitrary: off consumed fs rule: less_induct)
  case less
  show ?case
  proof (cases "off + 4 < length buf")
    case False
    with less.prems show ?thesis by (subst (asm) scan_rtu_step) auto
  next
    case True
    show ?thesis
    proof (cases "response_at buf off")
      case None
      with True less.prems(1) have "scan_rtu buf (off + 1) consumed = (fs, c)"
        by (subst (asm) scan_rtu_step) simp
      with True less.prems(2) show ?thesis by (intro less.hyps [of "off + 1"]) auto
    next
      case (Some len)
      note b = response_at_bounds [OF Some]
      obtain gs where gs: "scan_rtu buf (off + len) (off + len) = (gs, c)" "fs = take len (drop off buf) # gs"
        using less.prems(1) True Some by (subst (asm) scan_rtu_step) (auto simp: Let_def split: prod.splits)
      have lt: "length buf - (off + len) < length buf - off" using b by linarith
      obtain ks where ks: "length ks = length gs" "drop (off + len) buf = skipped_frames ks gs @ drop c buf"
        "off + len \<le> c" "c \<le> length buf" "\<forall>f \<in> set gs. verifyCrc f \<and> response_at f 0 = Some (length f)"
        using less.hyps [OF lt gs(1) le_refl] b by blast
      let ?f = "take len (drop off buf)"
      have fr: "verifyCrc ?f" "rtuResponseLength buf off = Some len"
        using Some by (auto simp: response_at_def split: if_splits option.splits)
      have "rtuResponseLength ?f 0 = rtuResponseLength buf off"
        using b by (simp add: rtuResponseLength_def Let_def)
      moreover have "length ?f = len" using b by (auto simp: min_def)
      ultimately have "response_at ?f 0 = Some (length ?f)" using fr b by (simp add: response_at_def)
      moreover have "drop consumed buf = take (off - consumed) (drop consumed buf) @ ?f @ drop (off + len) buf"
      proof -
        have "drop consumed buf = take (off - consumed) (drop consumed buf) @ drop off buf"
          using less.prems(2) append_take_drop_id [of "off - consumed" "drop consumed buf"] by simp
        moreover have "drop off buf = ?f @ drop (off + len) buf"
          using append_take_drop_id [of len "drop off buf"] by (simp add: add.commute)
        ultimately show ?thesis by simp
      qed
      ultimately show ?thesis using ks gs(2) fr(1) less.prems(2)
        by (intro exI [of _ "take (off - consumed) (drop consumed buf) # ks"]) auto
    qed
  qed
qed

lemma scan_frames_ok:
  "list_all (\<lambda>f. verifyCrc f \<and> rtuResponseLength f 0 = Some (length f)) (sr_frames (scanResponse RTU buf e))"
proof -
  obtain fs c where s: "scan_rtu buf 0 0 = (fs, c)" by fastforce
  have "rtuResponseLength f 0 = Some (length f)" if "response_at f 0 = Some (length f)" for f
    using that by (auto simp: response_at_def split: if_splits option.splits)
  with scan_rtu_decomposes [OF s] s show ?thesis by (fastforce simp: scanResponse_def list_all_iff)
qed

lemma scan_rtu_skips:
  assumes "\<forall>k. off \<le> k \<and> k < m \<longrightarrow> response_at buf k = None" "off \<le> m" "m + 4 < length buf"
  shows "scan_rtu buf off consumed = scan_rtu buf m consumed"
  using assms
proof (induction "m - off" arbitrary: off)
  case (Suc n)
  then have "off < m" "response_at buf off = None" by auto
  with Suc.prems have "scan_rtu buf off consumed = scan_rtu buf (off + 1) consumed"
    by (subst scan_rtu_step) simp
  also have "\<dots> = scan_rtu buf m consumed" using Suc by (intro Suc.hyps) auto
  finally show ?case .
qed simp

lemma scan_pdu_decomposes:
  assumes "scan_pdu buf e off = (fs, c)" "off \<le> length buf"
  shows "drop off buf = concat fs @ drop c buf \<and> off \<le> c \<and> c \<le> length buf \<and>
    (\<forall>f \<in> set fs. f \<noteq> [] \<and> (if js_and (uint (hd f)) 128 \<noteq> 0 then length f = 2
       else \<exists>v. e = Some v \<and> int (length f) = js_floor v))"
  using assms
proof (induction "length buf - off" arbitrary: off fs rule: less_induct)
  case less
  let ?len = "if js_and (uint (buf ! off)) 128 \<noteq> 0 then Some (js_int 2) else e"
  consider "\<not> off < length buf \<or> ?len = None"
    | v where "off < length buf" "?len = Some v" "\<not> js_isInteger v \<or> js_floor v < 1 \<or> js_floor v > 253 \<or> off + nat (js_floor v) > length buf"
    | v where "off < length buf" "?len = Some v" "js_isInteger v" "1 \<le> js_floor v" "js_floor v \<le> 253" "off + nat (js_floor v) \<le> length buf"
    by fastforce
  then show ?case
  proof cases
    case 1
    then have "scan_pdu buf e off = ([], off)" by (subst scan_pdu.simps) auto
    with less.prems show ?thesis by simp
  next
    case 2
    then have "scan_pdu buf e off = ([], off)" by (subst scan_pdu.simps) simp
    with less.prems show ?thesis by simp
  next
    case (3 v)
    define n where "n = nat (js_floor v)"
    have n: "0 < n" "off + n \<le> length buf" "int n = js_floor v" using 3 by (simp_all add: n_def)
    obtain gs where gs: "scan_pdu buf e (off + n) = (gs, c)" "fs = take n (drop off buf) # gs"
      using less.prems(1) 3 by (subst (asm) scan_pdu.simps) (auto simp: n_def Let_def split: prod.splits)
    have lt: "length buf - (off + n) < length buf - off" using n 3(1) by linarith
    note ih = less.hyps [OF lt gs(1) n(2)]
    have d: "drop off buf = take n (drop off buf) @ drop (off + n) buf"
      using append_take_drop_id [of n "drop off buf"] by (simp add: add.commute)
    have h: "hd (take n (drop off buf)) = buf ! off" using n(1) 3(1) by (simp add: hd_drop_conv_nth)
    have l: "length (take n (drop off buf)) = n" using n by simp
    have "if js_and (uint (buf ! off)) 128 \<noteq> 0 then n = 2 else \<exists>v. e = Some v \<and> int n = js_floor v"
      using 3(2) n(3) by (auto split: if_splits)
    then show ?thesis using ih d n(1,2) gs(2) h l 3(1) by auto
  qed
qed

section \<open>A server\<close>

text \<open>What a server with the given memory answers to a read it has decoded.\<close>

definition serve_read :: "(int \<Rightarrow> int) \<Rightarrow> (int \<Rightarrow> bool) \<Rightarrow> request \<Rightarrow> answer option" where
  "serve_read regs coils q =
     (case q of
        ReadRequest fc a c \<Rightarrow>
          let addrs = map (\<lambda>i. a + int i) [0..<nat c] in
          if fc = 1 \<or> fc = 2 then Some (BitsAnswer fc (map coils addrs))
          else Some (RegsAnswer fc (map regs addrs))
      | _ \<Rightarrow> None)"

text \<open>On an RTU bus the server checks the CRC and its address, then answers.\<close>

definition rtu_server :: "(int \<Rightarrow> int) \<Rightarrow> (int \<Rightarrow> bool) \<Rightarrow> int \<Rightarrow> bytes \<Rightarrow> bytes option" where
  "rtu_server regs coils slave frame =
     (if \<not> verifyCrc frame \<or> uint (frame ! 0) \<noteq> slave then None
      else case decode_request (drop 1 (take (length frame - 2) frame)) of
        None \<Rightarrow> None
      | Some q \<Rightarrow> (case serve_read regs coils q of
          None \<Rightarrow> None
        | Some a \<Rightarrow> Some (withCrc (to_byte slave # encode_answer a))))"

text \<open>An answer the scanner can delimit: the byte count of a read answer is not zero.\<close>

fun answer_scannable :: "answer \<Rightarrow> bool" where
  "answer_scannable (BitsAnswer fc bs) = (bs \<noteq> [])"
| "answer_scannable (RegsAnswer fc ws) = (ws \<noteq> [])"
| "answer_scannable _ = True"

lemma rtu_length_answer:
  assumes "answer_ok a" "answer_scannable a"
  shows "rtuResponseLength (withCrc (to_byte slave # encode_answer a) @ rest) 0
    = Some (length (withCrc (to_byte slave # encode_answer a)))"
proof (cases a)
  case (BitsAnswer fc bs)
  define n where "n = (length bs + 7) div 8"
  have n: "1 \<le> n" "n \<le> 250" and fc: "fc = 1 \<or> fc = 2"
    using BitsAnswer assms by (auto simp: n_def Suc_le_eq div_greater_zero_iff)
  from fc show ?thesis using BitsAnswer n no_exception_bit [of fc] length_pack_coils [of bs]
    by (elim disjE) (simp_all add: rtuResponseLength_def withCrc_eq n_def [symmetric])
next
  case (RegsAnswer fc ws)
  define n where "n = 2 * length ws"
  have n: "1 \<le> n" "n \<le> 250" "even n" "2 * int (length ws) = int n" and fc: "fc = 3 \<or> fc = 4"
    using RegsAnswer assms by (auto simp: n_def Suc_le_eq)
  from fc show ?thesis using RegsAnswer n(1-3) no_exception_bit [of fc] length_concat_be16 [of ws]
    by (elim disjE) (simp_all add: rtuResponseLength_def withCrc_eq n(4) n_def [symmetric])
next
  case (EchoAnswer fc x c)
  with assms have fc: "fc = 5 \<or> fc = 6 \<or> fc = 15 \<or> fc = 16" by simp
  then show ?thesis using EchoAnswer no_exception_bit [of fc]
    by (elim disjE) (simp_all add: rtuResponseLength_def withCrc_eq)
next
  case (ExceptionAnswer fc code)
  with assms js_and_128 [of "to_byte (fc + 128)"] show ?thesis
    by (simp add: rtuResponseLength_def withCrc_eq)
qed

lemma response_at_answer:
  assumes "answer_ok a" "answer_scannable a"
  shows "response_at (noise @ withCrc (to_byte slave # encode_answer a) @ rest) (length noise)
    = Some (length (withCrc (to_byte slave # encode_answer a)))"
proof -
  let ?f = "withCrc (to_byte slave # encode_answer a)"
  have l: "5 \<le> length ?f" by (cases a) (simp_all add: withCrc_eq)
  have v: "verifyCrc ?f" using l by (intro withCrc_verifies) (simp add: withCrc_eq)
  have "rtuResponseLength (noise @ ?f @ rest) (length noise) = rtuResponseLength (?f @ rest) 0"
    by (simp only: rtuResponseLength_def nth_append_length_plus add_0)
  with rtu_length_answer [OF assms, of slave rest] l v show ?thesis
    by (simp add: response_at_def)
qed

lemma scan_finds_answer:
  assumes "answer_ok a" "answer_scannable a"
    and "\<forall>k < length noise. response_at (noise @ withCrc (to_byte slave # encode_answer a) @ rest) k = None"
  shows "\<exists>fs. sr_frames (scanResponse RTU (noise @ withCrc (to_byte slave # encode_answer a) @ rest) e)
    = withCrc (to_byte slave # encode_answer a) # fs"
proof -
  let ?f = "withCrc (to_byte slave # encode_answer a)"
  let ?buf = "noise @ ?f @ rest"
  note r = response_at_answer [OF assms(1,2), of noise slave rest]
  have "scan_rtu ?buf 0 0 = scan_rtu ?buf (length noise) 0"
    using assms(3) response_at_bounds [OF r] by (intro scan_rtu_skips) auto
  then have "\<exists>fs. fst (scan_rtu ?buf 0 0) = ?f # fs"
    using r response_at_bounds [OF r] by (subst (asm) (2) scan_rtu_step) (auto simp: Let_def split: prod.splits)
  then show ?thesis by (auto simp: scanResponse_def split: prod.splits)
qed

lemma scan_one_answer:
  assumes "answer_ok a" "answer_scannable a"
  shows "scanResponse RTU (withCrc (to_byte slave # encode_answer a)) e
    = \<lparr>sr_frames = [withCrc (to_byte slave # encode_answer a)], sr_remainder = []\<rparr>"
proof -
  let ?f = "withCrc (to_byte slave # encode_answer a)"
  have r: "response_at ?f 0 = Some (length ?f)" using response_at_answer [OF assms, of "[]" slave "[]"] by simp
  have "scan_rtu ?f (length ?f) (length ?f) = ([], length ?f)" by (subst scan_rtu_step) simp
  then have "scan_rtu ?f 0 0 = ([?f], length ?f)"
    using r response_at_bounds [OF r] by (subst scan_rtu_step) simp
  then show ?thesis by (simp add: scanResponse_def)
qed

lemma read_transaction_ok:
  fixes coils :: "int \<Rightarrow> bool"
  assumes "readRequest RTU slave fc start cnt = Inr frame" "0 \<le> slave" "slave < 256" "\<And>i. u16 (regs i)"
  defines "a \<equiv> the (serve_read regs coils (ReadRequest fc (js_floor start) (js_floor cnt)))"
  shows "\<exists>reply r. rtu_server regs coils slave frame = Some reply \<and>
    scanResponse RTU reply e = \<lparr>sr_frames = [reply], sr_remainder = []\<rparr> \<and>
    parseFrame RTU reply = Some r \<and> answer_seen slave a r"
proof -
  obtain pdu where pdu: "buildReadRequestPdu fc start cnt = Inr pdu" and f: "frame = frameRequest RTU slave pdu"
    using assms(1) by (auto simp: readRequest_def bind_ok_eq_Inr)
  have b: "isReadFc fc" "u16 (js_floor start)" "1 \<le> js_floor cnt"
    "js_floor cnt \<le> (if isBitFc fc then 2000 else 125)"
    "pdu = to_byte fc # be16 (js_floor start) @ be16 (js_floor cnt)"
    using pdu by (auto simp: buildReadRequestPdu_def assertU16_eq assertQuantity_eq
        quantity_arg_def limit_readRegisters_def limit_readBits_def u16_arg split: if_splits)
  have d: "decode_request pdu = Some (ReadRequest fc (js_floor start) (js_floor cnt))"
    using decode_request_read [of fc "js_floor start" "js_floor cnt"] b by (auto simp: u16_def split: if_splits)
  let ?reply = "withCrc (to_byte slave # encode_answer a)"
  have s: "serve_read regs coils (ReadRequest fc (js_floor start) (js_floor cnt)) = Some a"
    by (simp add: a_def serve_read_def Let_def)
  have ok: "answer_ok a" "answer_scannable a"
    using b assms(4) by (auto simp: a_def serve_read_def Let_def list_all_iff isBitFc_def isReadFc_def split: if_splits)
  have fr: "frame = withCrc (to_byte slave # pdu)" by (simp add: f frameRequest_def js_and_lit)
  have "verifyCrc frame" unfolding fr by (rule withCrc_verifies) (simp add: b(5))
  moreover have "uint (frame ! 0) = slave" using assms(2,3) by (simp add: fr withCrc_eq)
  moreover have "drop 1 (take (length frame - 2) frame) = pdu" by (simp add: fr withCrc_eq)
  ultimately have "rtu_server regs coils slave frame = Some ?reply" using d s by (simp add: rtu_server_def)
  moreover obtain r where "parseFrame RTU ?reply = Some r" "answer_seen slave a r"
    using parse_response_ok [OF ok(1) assms(2,3)] by (auto simp: parseFrame_def)
  ultimately show ?thesis using scan_one_answer [OF ok, of slave e] by blast
qed

section \<open>Properties\<close>

text \<open>What the RTU scanner returns is cut out of the buffer: skipped bytes and frames
  alternate up to the remainder, every frame passes the CRC check and has exactly the length
  its function code and byte count announce, and the remainder begins right after the last
  frame, so no byte of it is lost to the next call.\<close>

theorem scan_rtu_sound:
  "\<exists>gs. length gs = length (sr_frames (scanResponse RTU buf e)) \<and>
     buf = skipped_frames gs (sr_frames (scanResponse RTU buf e)) @ sr_remainder (scanResponse RTU buf e) \<and>
     list_all (\<lambda>f. verifyCrc f \<and> rtuResponseLength f 0 = Some (length f)) (sr_frames (scanResponse RTU buf e))"
proof -
  obtain fs c where s: "scan_rtu buf 0 0 = (fs, c)" by fastforce
  have "rtuResponseLength f 0 = Some (length f)" if "response_at f 0 = Some (length f)" for f
    using that by (auto simp: response_at_def split: if_splits option.splits)
  with scan_rtu_decomposes [OF s] s show ?thesis
    by (fastforce simp: scanResponse_def list_all_iff)
qed

text \<open>A server's answer is found behind noise: if no CRC-valid response starts in the
  bytes before it, the first frame of the scan is that answer, whatever follows it.\<close>

theorem scan_finds_answer_after_noise:
  assumes "answer_ok a" "answer_scannable a"
    and "\<forall>k < length noise. response_at (noise @ withCrc (to_byte slave # encode_answer a) @ rest) k = None"
  shows "sr_frames (scanResponse RTU (noise @ withCrc (to_byte slave # encode_answer a) @ rest) e) \<noteq> [] \<and>
    hd (sr_frames (scanResponse RTU (noise @ withCrc (to_byte slave # encode_answer a) @ rest) e))
      = withCrc (to_byte slave # encode_answer a)"
  using scan_finds_answer [OF assms, of e] by auto

text \<open>The PDU scanner splits the buffer without loss: the frames in order followed by the
  remainder are the buffer, and every frame is a two-byte exception or has the expected
  length.\<close>

theorem scan_pdu_sound:
  "concat (sr_frames (scanResponse PDU buf e)) @ sr_remainder (scanResponse PDU buf e) = buf \<and>
   list_all (\<lambda>f. if js_and (uint (hd f)) 128 \<noteq> 0 then length f = 2
       else \<exists>v. e = Some v \<and> int (length f) = js_floor v) (sr_frames (scanResponse PDU buf e))"
proof -
  obtain fs c where s: "scan_pdu buf e 0 = (fs, c)" by fastforce
  with scan_pdu_decomposes [OF s] show ?thesis by (simp add: scanResponse_def list_all_iff)
qed

text \<open>A register read over RTU returns the server's memory: the request the master
  builds is accepted by a server at that address, whose reply scans as one frame with
  nothing left over, and that frame parses to the words stored at the requested addresses.\<close>

theorem read_transaction_correct:
  assumes "readRequest RTU slave fc start cnt = Inr frame" "fc = 3 \<or> fc = 4"
    and "0 \<le> slave" "slave < 256" "\<And>i. u16 (regs i)"
  shows "\<exists>reply. rtu_server regs coils slave frame = Some reply \<and>
    scanResponse RTU reply e = \<lparr>sr_frames = [reply], sr_remainder = []\<rparr> \<and>
    parseFrame RTU reply =
      Some (ReadRegs slave fc (map (\<lambda>i. regs (js_floor start + int i)) [0..<nat (js_floor cnt)]))"
  using read_transaction_ok [OF assms(1,3,4,5), where coils = coils and e = e] assms(2)
  by (auto simp: serve_read_def Let_def comp_def)

section \<open>Witnesses\<close>

theorem scan_finds_answer_after_noise_witness:
  "hd (sr_frames (scanResponse RTU ([] @ withCrc (to_byte 1 # encode_answer (EchoAnswer 6 3 9)) @ [7]) None))
     = withCrc (to_byte 1 # encode_answer (EchoAnswer 6 3 9))"
  using scan_finds_answer_after_noise [of "EchoAnswer 6 3 9" "[]" 1 "[7]" None] by (simp add: u16_def)

theorem read_transaction_correct_witness:
  "\<exists>reply. rtu_server (\<lambda>i. i mod 65536) (\<lambda>_. False) 17
       (case readRequest RTU 17 3 (js_int 107) (js_int 3) of Inr f \<Rightarrow> f | Inl _ \<Rightarrow> []) = Some reply \<and>
     parseFrame RTU reply = Some (ReadRegs 17 3 (map (\<lambda>i. (107 + int i) mod 65536) [0..<3]))"
proof -
  obtain f where f: "readRequest RTU 17 3 (js_int 107) (js_int 3) = Inr f"
    by (simp add: readRequest_def buildReadRequestPdu_def assertU16_eq assertQuantity_eq u16_arg_def
        quantity_arg_def isReadFc_def isBitFc_def limit_readRegisters_def)
  have "u16 (i mod 65536)" for i by (simp add: u16_def)
  with read_transaction_correct [OF f, where regs = "\<lambda>i. i mod 65536" and coils = "\<lambda>_. False" and e = None] f
  show ?thesis by auto
qed

end
