(* ===== verification/ModbusBatches.thy ===== *)
theory ModbusBatches
  imports ModbusTransport "HOL-Library.Product_Lexorder" "HOL-Library.Multiset"
begin

text \<open>
  Grouping register rows into requests, \<open>src/lib/modbus/modbus-batches.ts\<close>: readable rows
  are sorted, merged when contiguous and split at the protocol's limits; writable rows are
  filtered, sorted and merged under the limit.

  The lemmas say that no row is lost or duplicated, that every row sits at its own address
  within its batch, and that every read batch is within the limit of its function.
\<close>

section \<open>Rows\<close>

text \<open>A row of the register table.  An absent or null field is \<open>None\<close>.\<close>

record modbus_register =
  mr_id :: string
  mr_name :: string
  mr_slave :: int
  mr_fc :: int
  mr_address :: int
  mr_quantity :: "jsnum option"
  mr_type :: value_type
  mr_unit :: "string option"
  mr_channel :: "int option"
  mr_value :: "jsnum option"
  mr_values :: "jsnum list option"
  mr_valueTs :: "jsnum option"
  mr_periodicRead :: bool
  mr_periodicWrite :: bool

record read_batch =
  rb_slave :: int
  rb_fc :: int
  rb_start :: int
  rb_count :: int
  rb_rows :: "(modbus_register \<times> int) list"

datatype write_kind = Coil | Register

record write_batch =
  wb_slave :: int
  wb_kind :: write_kind
  wb_fc :: int
  wb_start :: int
  wb_count :: int
  wb_rows :: "modbus_register list"

definition clampInt :: "jsnum option \<Rightarrow> int \<Rightarrow> int \<Rightarrow> int" where
  "clampInt v lo hi =
     (let n = (case v of Some x \<Rightarrow> if js_isFinite x then js_floor x else lo | None \<Rightarrow> lo)
      in max lo (min hi n))"

definition modbusDataValueCount :: "modbus_register \<Rightarrow> int" where
  "modbusDataValueCount reg =
     clampInt (mr_quantity reg) 1
       (if isBitFc (mr_fc reg) then limit_readBits
        else if mr_fc reg = 16 then maxValueCountForRegisters (mr_type reg) limit_writeRegisters
        else if isReadFc (mr_fc reg) then maxValueCountForRegisters (mr_type reg) limit_readRegisters
        else 1)"

definition read_limit :: "int \<Rightarrow> int" where
  "read_limit fc = (if isBitFc fc then limit_readBits else limit_readRegisters)"

definition modbusReadRowCount :: "modbus_register \<Rightarrow> int" where
  "modbusReadRowCount reg =
     (let dataCount = modbusDataValueCount reg in
      if isBitFc (mr_fc reg) then dataCount
      else min (read_limit (mr_fc reg)) (registerCountForValues (mr_type reg) dataCount))"

definition modbusWriteRowValues :: "modbus_register \<Rightarrow> jsnum list" where
  "modbusWriteRowValues reg =
     (let cnt = modbusDataValueCount reg;
          single = (if mr_fc reg = 16 \<and> cnt > 1 then []
            else case mr_value reg of
                None \<Rightarrow> []
              | Some v \<Rightarrow> if js_isFinite v then [v] else [])
      in case mr_values reg of
        None \<Rightarrow> single
      | Some vs \<Rightarrow>
          let values = filter js_isFinite vs in
          if mr_fc reg = 16 then (if int (length values) \<ge> cnt then take (nat cnt) values else [])
          else if values \<noteq> [] then take (nat cnt) values
          else single)"

section \<open>Read batches\<close>

definition read_key :: "modbus_register \<Rightarrow> int \<times> int \<times> int" where
  "read_key r = (mr_slave r, mr_fc r, mr_address r)"

definition readable :: "modbus_register list \<Rightarrow> modbus_register list" where
  "readable regs = sort_key read_key (filter (\<lambda>r. isReadFc (mr_fc r)) regs)"

definition read_step :: "read_batch list \<Rightarrow> modbus_register \<Rightarrow> read_batch list" where
  "read_step batches reg =
     (let span = modbusReadRowCount reg in
      if batches \<noteq> [] \<and> rb_slave (last batches) = mr_slave reg \<and> rb_fc (last batches) = mr_fc reg \<and>
         rb_start (last batches) + rb_count (last batches) = mr_address reg
      then butlast batches @ [(last batches)\<lparr>rb_count := rb_count (last batches) + span,
             rb_rows := rb_rows (last batches) @ [(reg, mr_address reg - rb_start (last batches))]\<rparr>]
      else batches @ [\<lparr>rb_slave = mr_slave reg, rb_fc = mr_fc reg, rb_start = mr_address reg,
             rb_count = span, rb_rows = [(reg, 0)]\<rparr>])"

fun take_rows :: "int \<Rightarrow> int \<Rightarrow> int \<Rightarrow> (modbus_register \<times> int) list \<Rightarrow> (modbus_register \<times> int) list \<times> int" where
  "take_rows mx shift used [] = ([], used)"
| "take_rows mx shift used ((reg, off) # rows) =
     (let span = modbusReadRowCount reg in
      if used + span > mx then ([], used)
      else let (taken, u) = take_rows mx shift (used + span) rows in ((reg, off - shift) # taken, u))"

text \<open>The outer loop does not end when a row exceeds the limit on its own; \<open>None\<close> is that.\<close>

partial_function (option) split_loop ::
  "read_batch \<Rightarrow> int \<Rightarrow> (modbus_register \<times> int) list \<Rightarrow> int \<Rightarrow> read_batch list option" where
  "split_loop batch mx remaining cursor =
     (if remaining = [] then Some []
      else let (sliceRows, used) = take_rows mx (cursor - rb_start batch) 0 remaining
           in Option.bind (split_loop batch mx (drop (length sliceRows) remaining) (cursor + used))
             (\<lambda>rest. Some (\<lparr>rb_slave = rb_slave batch, rb_fc = rb_fc batch, rb_start = cursor,
                rb_count = used, rb_rows = sliceRows\<rparr> # rest)))"

definition splitReadBatch :: "read_batch \<Rightarrow> read_batch list option" where
  "splitReadBatch batch =
     (if rb_count batch \<le> read_limit (rb_fc batch) then Some [batch]
      else split_loop batch (read_limit (rb_fc batch)) (rb_rows batch) (rb_start batch))"

fun flat_map_opt :: "('a \<Rightarrow> 'b list option) \<Rightarrow> 'a list \<Rightarrow> 'b list option" where
  "flat_map_opt f [] = Some []"
| "flat_map_opt f (x # xs) =
     Option.bind (f x) (\<lambda>ys. Option.bind (flat_map_opt f xs) (\<lambda>zs. Some (ys @ zs)))"

definition buildModbusReadBatches :: "modbus_register list \<Rightarrow> read_batch list option" where
  "buildModbusReadBatches regs = flat_map_opt splitReadBatch (foldl read_step [] (readable regs))"

section \<open>Write batches\<close>

text \<open>The row values are finite, so encoding them does not throw (\<open>writeRowSpan_ok\<close>).\<close>

definition encoded_words :: "modbus_register \<Rightarrow> int list" where
  "encoded_words reg =
     (case encodeValues (mr_type reg) (modbusWriteRowValues reg) of Inl _ \<Rightarrow> [] | Inr ws \<Rightarrow> ws)"

definition writeRowSpan :: "modbus_register \<Rightarrow> int" where
  "writeRowSpan reg =
     (if mr_fc reg = 5 then int (length (modbusWriteRowValues reg)) else int (length (encoded_words reg)))"

definition writeKindRank :: "modbus_register \<Rightarrow> int" where
  "writeKindRank reg = (if mr_fc reg = 5 then 0 else 1)"

definition writeBatchFc :: "write_kind \<Rightarrow> int \<Rightarrow> int \<Rightarrow> int" where
  "writeBatchFc kind cnt requestedFc =
     (if kind = Coil then (if cnt = 1 then 5 else 15) else if requestedFc = 16 then 16 else 6)"

definition canMergeWriteRows :: "write_batch \<Rightarrow> modbus_register \<Rightarrow> bool" where
  "canMergeWriteRows b reg =
     (if wb_kind b = Coil then mr_fc reg = 5 else wb_fc b = 16 \<and> mr_fc reg = 16)"

definition write_key :: "modbus_register \<Rightarrow> int \<times> int \<times> int \<times> int" where
  "write_key r = (mr_slave r, writeKindRank r, mr_address r, mr_fc r)"

definition writable :: "modbus_register list \<Rightarrow> modbus_register list" where
  "writable regs = sort_key write_key
     (filter (\<lambda>r. mr_fc r \<noteq> 6 \<or> writeRowSpan r = 1)
       (filter (\<lambda>r. modbusWriteRowValues r \<noteq> [])
         (filter (\<lambda>r. mr_fc r = 5 \<or> mr_fc r = 6 \<or> mr_fc r = 16) regs)))"

definition write_step :: "write_batch list \<Rightarrow> modbus_register \<Rightarrow> write_batch list" where
  "write_step batches reg =
     (let kind = (if mr_fc reg = 5 then Coil else Register); span = writeRowSpan reg;
          mx = (if kind = Coil then limit_writeBits else limit_writeRegisters); b = last batches in
      if batches \<noteq> [] \<and> wb_slave b = mr_slave reg \<and> wb_kind b = kind \<and> canMergeWriteRows b reg \<and>
         wb_start b + wb_count b = mr_address reg \<and> wb_count b + span \<le> mx
      then butlast batches @ [b\<lparr>wb_rows := wb_rows b @ [reg], wb_count := wb_count b + span,
             wb_fc := writeBatchFc kind (wb_count b + span) (mr_fc reg)\<rparr>]
      else batches @ [\<lparr>wb_slave = mr_slave reg, wb_kind = kind, wb_fc = writeBatchFc kind span (mr_fc reg),
             wb_start = mr_address reg, wb_count = span, wb_rows = [reg]\<rparr>])"

definition buildModbusWriteBatches :: "modbus_register list \<Rightarrow> write_batch list" where
  "buildModbusWriteBatches regs = foldl write_step [] (writable regs)"

definition encodeModbusRegisterWriteValues :: "write_batch \<Rightarrow> int list" where
  "encodeModbusRegisterWriteValues b =
     (if wb_kind b \<noteq> Register then [] else concat (map encoded_words (wb_rows b)))"

definition encodeModbusCoilWriteValues :: "write_batch \<Rightarrow> bool list" where
  "encodeModbusCoilWriteValues b =
     (if wb_kind b \<noteq> Coil then []
      else concat (map (\<lambda>reg. map (\<lambda>v. js_rat v \<noteq> Some 0) (modbusWriteRowValues reg)) (wb_rows b)))"

section \<open>Counts\<close>

lemma clampInt_bounds: "lo \<le> hi \<Longrightarrow> lo \<le> clampInt v lo hi \<and> clampInt v lo hi \<le> hi"
  by (auto simp: clampInt_def Let_def)

lemma maxValueCount_pos: "2 \<le> n \<Longrightarrow> 1 \<le> maxValueCountForRegisters t n"
  by (auto simp: maxValueCountForRegisters_def registerSpan_def)

lemma data_count_pos: "1 \<le> modbusDataValueCount reg"
  unfolding modbusDataValueCount_def
  using maxValueCount_pos [of limit_writeRegisters "mr_type reg"] maxValueCount_pos [of limit_readRegisters "mr_type reg"]
  by (auto simp: limit_readBits_def limit_writeRegisters_def limit_readRegisters_def intro: conjunct1 [OF clampInt_bounds])

lemma register_count_pos: "1 \<le> n \<Longrightarrow> 1 \<le> registerCountForValues t n"
  by (auto simp: registerCountForValues_def registerSpan_def Let_def)

lemma read_limit_pos: "1 \<le> read_limit fc"
  by (simp add: read_limit_def limit_readBits_def limit_readRegisters_def)

lemma read_row_count: "1 \<le> modbusReadRowCount reg \<and> modbusReadRowCount reg \<le> read_limit (mr_fc reg)"
proof -
  have "modbusDataValueCount reg \<le> 2000" if "isBitFc (mr_fc reg)"
    using that clampInt_bounds [of 1 2000 "mr_quantity reg"]
    by (simp add: modbusDataValueCount_def limit_readBits_def)
  then show ?thesis using data_count_pos [of reg] register_count_pos [OF data_count_pos] read_limit_pos
    by (auto simp: modbusReadRowCount_def Let_def read_limit_def limit_readBits_def limit_readRegisters_def)
qed

section \<open>Contiguous rows\<close>

text \<open>From \<open>off\<close> on, each row follows the one before and stands at its own address.\<close>

fun rows_contiguous :: "int \<Rightarrow> int \<Rightarrow> int \<Rightarrow> int \<Rightarrow> (modbus_register \<times> int) list \<Rightarrow> int \<Rightarrow> bool" where
  "rows_contiguous slave fc start off [] cnt \<longleftrightarrow> cnt = off"
| "rows_contiguous slave fc start off ((reg, o') # rows) cnt \<longleftrightarrow>
     o' = off \<and> mr_address reg = start + off \<and> mr_slave reg = slave \<and> mr_fc reg = fc \<and>
     rows_contiguous slave fc start (off + modbusReadRowCount reg) rows cnt"

definition batch_ok :: "read_batch \<Rightarrow> bool" where
  "batch_ok b \<longleftrightarrow> rb_rows b \<noteq> [] \<and> isReadFc (rb_fc b) \<and>
     rows_contiguous (rb_slave b) (rb_fc b) (rb_start b) 0 (rb_rows b) (rb_count b)"

abbreviation batch_regs :: "read_batch list \<Rightarrow> modbus_register list" where
  "batch_regs bs \<equiv> concat (map (\<lambda>b. map fst (rb_rows b)) bs)"

lemma rows_contiguous_snoc:
  "rows_contiguous s f st off rows cnt \<Longrightarrow> mr_address reg = st + cnt \<Longrightarrow> mr_slave reg = s \<Longrightarrow> mr_fc reg = f \<Longrightarrow>
    rows_contiguous s f st off (rows @ [(reg, cnt)]) (cnt + modbusReadRowCount reg)"
  by (induction rows arbitrary: off) auto

lemma read_step_ok:
  assumes "list_all batch_ok bs" "isReadFc (mr_fc reg)"
  shows "list_all batch_ok (read_step bs reg) \<and> batch_regs (read_step bs reg) = batch_regs bs @ [reg]"
proof (cases "bs \<noteq> [] \<and> rb_slave (last bs) = mr_slave reg \<and> rb_fc (last bs) = mr_fc reg \<and>
         rb_start (last bs) + rb_count (last bs) = mr_address reg")
  case True
  then obtain cs b where bs: "bs = cs @ [b]" by (metis append_butlast_last_id)
  have "mr_address reg - rb_start b = rb_count b" using True bs by simp
  then show ?thesis using True assms bs
    by (auto simp: read_step_def Let_def batch_ok_def intro!: rows_contiguous_snoc)
next
  case False
  then show ?thesis using assms
    unfolding read_step_def Let_def if_not_P [OF False] by (simp add: batch_ok_def)
qed

lemma read_fold_ok:
  "list_all batch_ok bs \<Longrightarrow> \<forall>r \<in> set regs. isReadFc (mr_fc r) \<Longrightarrow>
    list_all batch_ok (foldl read_step bs regs) \<and> batch_regs (foldl read_step bs regs) = batch_regs bs @ regs"
proof (induction regs arbitrary: bs)
  case (Cons r regs)
  then show ?case using read_step_ok [of bs r] by auto
qed simp

lemma take_rows_ok:
  assumes "rows_contiguous s f st off rows cnt" "take_rows mx shift used rows = (taken, u)" "off = used + shift"
  shows "rows_contiguous s f (st + shift) used taken u \<and> map fst taken = map fst (take (length taken) rows) \<and>
    rows_contiguous s f st (u + shift) (drop (length taken) rows) cnt \<and> used \<le> u \<and> (used \<le> mx \<longrightarrow> u \<le> mx) \<and>
    length taken \<le> length rows"
  using assms
proof (induction rows arbitrary: off used taken u)
  case (Cons row rows)
  obtain reg o' where row: "row = (reg, o')" by fastforce
  show ?case
  proof (cases "used + modbusReadRowCount reg > mx")
    case True
    with Cons.prems row show ?thesis by simp
  next
    case False
    then obtain tk where tk: "take_rows mx shift (used + modbusReadRowCount reg) rows = (tk, u)"
      "taken = (reg, o' - shift) # tk"
      using Cons.prems(2) row by (auto simp: Let_def split: prod.splits)
    have "off + modbusReadRowCount reg = used + modbusReadRowCount reg + shift" using Cons.prems(3) by simp
    with Cons.IH [OF _ tk(1)] Cons.prems(1) row have ih:
      "rows_contiguous s f (st + shift) (used + modbusReadRowCount reg) tk u \<and> map fst tk = map fst (take (length tk) rows) \<and>
       rows_contiguous s f st (u + shift) (drop (length tk) rows) cnt \<and> used + modbusReadRowCount reg \<le> u \<and>
       (used + modbusReadRowCount reg \<le> mx \<longrightarrow> u \<le> mx) \<and> length tk \<le> length rows" by auto
    show ?thesis using ih tk(2) row Cons.prems(1,3) False read_row_count [of reg] by auto
  qed
qed auto

lemma split_loop_ok:
  assumes "rows_contiguous (rb_slave b) (rb_fc b) (rb_start b) (cursor - rb_start b) rows cnt"
    and "mx = read_limit (rb_fc b)" "isReadFc (rb_fc b)"
  shows "\<exists>out. split_loop b mx rows cursor = Some out \<and> list_all batch_ok out \<and>
    batch_regs out = map fst rows \<and> list_all (\<lambda>c. rb_fc c = rb_fc b \<and> rb_count c \<le> mx) out"
  using assms(1)
proof (induction "length rows" arbitrary: rows cursor rule: less_induct)
  case less
  show ?case
  proof (cases rows)
    case Nil
    then show ?thesis by (simp add: split_loop.simps)
  next
    case (Cons row rest)
    obtain reg o' where row: "row = (reg, o')" by fastforce
    obtain tk u where tk: "take_rows mx (cursor - rb_start b) 0 rows = (tk, u)" by fastforce
    note t = take_rows_ok [OF less.prems tk, simplified]
    have "mr_fc reg = rb_fc b" using less.prems Cons row by simp
    then have "modbusReadRowCount reg \<le> mx" using read_row_count [of reg] assms(2) by simp
    then have ne: "tk \<noteq> []" using tk Cons row by (auto simp: Let_def split: prod.splits)
    then have lt: "length (drop (length tk) rows) < length rows" using Cons by simp
    have "rows_contiguous (rb_slave b) (rb_fc b) (rb_start b) (cursor + u - rb_start b) (drop (length tk) rows) cnt"
      using t by (simp add: algebra_simps)
    from less.hyps [OF lt this] obtain out where out:
      "split_loop b mx (drop (length tk) rows) (cursor + u) = Some out" "list_all batch_ok out"
      "batch_regs out = map fst (drop (length tk) rows)" "list_all (\<lambda>c. rb_fc c = rb_fc b \<and> rb_count c \<le> mx) out" by blast
    let ?c = "\<lparr>rb_slave = rb_slave b, rb_fc = rb_fc b, rb_start = cursor, rb_count = u, rb_rows = tk\<rparr>"
    have s: "split_loop b mx rows cursor = Some (?c # out)"
      using Cons tk out(1) by (subst split_loop.simps) simp
    have c: "batch_ok ?c" using t ne assms(3) by (simp add: batch_ok_def)
    have u: "u \<le> mx" using t assms(2) read_limit_pos [of "rb_fc b"] by simp
    have "map fst tk @ map fst (drop (length tk) rows) = map fst rows"
      using t by (metis append_take_drop_id map_append)
    with s c u out(2-4) show ?thesis by auto
  qed
qed

lemma splitReadBatch_ok:
  assumes "batch_ok b"
  shows "\<exists>out. splitReadBatch b = Some out \<and> list_all batch_ok out \<and>
    batch_regs out = map fst (rb_rows b) \<and> list_all (\<lambda>c. rb_count c \<le> read_limit (rb_fc c)) out"
proof (cases "rb_count b \<le> read_limit (rb_fc b)")
  case True
  with assms show ?thesis by (simp add: splitReadBatch_def)
next
  case False
  obtain out where out: "split_loop b (read_limit (rb_fc b)) (rb_rows b) (rb_start b) = Some out"
    "list_all batch_ok out" "batch_regs out = map fst (rb_rows b)"
    "list_all (\<lambda>c. rb_fc c = rb_fc b \<and> rb_count c \<le> read_limit (rb_fc b)) out"
    using split_loop_ok [of b "rb_start b" "rb_rows b" "rb_count b"] assms by (auto simp: batch_ok_def)
  with False show ?thesis by (auto simp: splitReadBatch_def list_all_iff)
qed

lemma flat_map_split_ok:
  "list_all batch_ok bs \<Longrightarrow> \<exists>out. flat_map_opt splitReadBatch bs = Some out \<and> list_all batch_ok out \<and>
    batch_regs out = batch_regs bs \<and> list_all (\<lambda>c. rb_count c \<le> read_limit (rb_fc c)) out"
proof (induction bs)
  case (Cons b bs)
  then obtain xs ys where "splitReadBatch b = Some xs" "list_all batch_ok xs"
    "batch_regs xs = map fst (rb_rows b)" "list_all (\<lambda>c. rb_count c \<le> read_limit (rb_fc c)) xs"
    "flat_map_opt splitReadBatch bs = Some ys" "list_all batch_ok ys" "batch_regs ys = batch_regs bs"
    "list_all (\<lambda>c. rb_count c \<le> read_limit (rb_fc c)) ys"
    using splitReadBatch_ok [of b] by auto
  then show ?case by simp
qed simp

lemma read_batches_ok:
  "\<exists>bs. buildModbusReadBatches regs = Some bs \<and> list_all batch_ok bs \<and> batch_regs bs = readable regs \<and>
    list_all (\<lambda>b. rb_count b \<le> read_limit (rb_fc b)) bs"
proof -
  have "\<forall>r \<in> set (readable regs). isReadFc (mr_fc r)" by (simp add: readable_def)
  with read_fold_ok [of "[]" "readable regs"] flat_map_split_ok [of "foldl read_step [] (readable regs)"]
  show ?thesis by (simp add: buildModbusReadBatches_def)
qed

lemma contiguous_count: "rows_contiguous s f st off rows cnt \<Longrightarrow> off + int (length rows) \<le> cnt"
proof (induction rows arbitrary: off)
  case (Cons row rows)
  obtain reg o' where row: "row = (reg, o')" by fastforce
  from Cons.IH [of "off + modbusReadRowCount reg"] Cons.prems row read_row_count [of reg] show ?case by auto
qed simp

lemma batch_count_pos: "batch_ok b \<Longrightarrow> 1 \<le> rb_count b"
  using contiguous_count [of "rb_slave b" "rb_fc b" "rb_start b" 0 "rb_rows b" "rb_count b"]
  by (cases "rb_rows b") (auto simp: batch_ok_def)

lemma contiguous_rows:
  "rows_contiguous s f st off rows cnt \<Longrightarrow> (reg, o') \<in> set rows \<Longrightarrow>
    mr_address reg = st + o' \<and> mr_slave reg = s \<and> mr_fc reg = f \<and> off \<le> o' \<and> o' + modbusReadRowCount reg \<le> cnt"
proof (induction rows arbitrary: off)
  case (Cons row rows)
  obtain reg' o2 where row: "row = (reg', o2)" by fastforce
  show ?case
  proof (cases "(reg, o') = row")
    case True
    with Cons.prems row contiguous_count [of s f st "off + modbusReadRowCount reg" rows cnt] show ?thesis by auto
  next
    case False
    with Cons.IH [of "off + modbusReadRowCount reg'"] Cons.prems row read_row_count [of reg'] show ?thesis by auto
  qed
qed simp

section \<open>What a written row encodes to\<close>

lemma js_shl_byte: "0 \<le> a \<Longrightarrow> a < 256 \<Longrightarrow> js_shl a 8 = a * 256"
  by (simp add: js_shl_in_range)

lemma clampInteger_range: "js_isFinite v \<Longrightarrow> lo \<le> hi \<Longrightarrow> lo \<le> clampInteger v lo hi \<and> clampInteger v lo hi \<le> hi"
  by (cases v) (auto simp: js_isFinite_def)

lemma emit_u16: "list_all u16 (emitU32Words t hi lo) \<and> length (emitU32Words t hi lo) = 2"
  by (simp add: emitU32Words_def js_and_lit u16_def)

lemma encodeValue_words:
  assumes "js_isFinite v"
  shows "\<exists>ws. encodeValue t v = Inr ws \<and> length ws = registerSpan t \<and> list_all u16 ws"
proof -
  have b: "0 \<le> clampInteger v 0 255" "clampInteger v 0 255 < 256"
    using clampInteger_range [OF assms, of 0 255] by simp_all
  have w: "0 \<le> clampInteger v 0 65535" "clampInteger v 0 65535 < 65536"
    using clampInteger_range [OF assms, of 0 65535] by simp_all
  have m: "0 \<le> clampInteger v (-128) 127 mod 256" "clampInteger v (-128) 127 mod 256 < 256" by simp_all
  show ?thesis
    by (cases t) (use assms b w m emit_u16 in \<open>simp_all add: encodeValue_def registerSpan_def
        isByteValueType_def js_shl_byte js_and_lit u16_def Let_def split: prod.splits\<close>)
qed

lemma encode_byte_finite: "js_isFinite v \<Longrightarrow> 0 \<le> encode_byte t v \<and> encode_byte t v < 256"
  using clampInteger_range [of v 0 255] by (auto simp: encode_byte_def js_and_lit)

lemma encode_byte_pairs_words:
  "list_all js_isFinite vs \<Longrightarrow> length (encode_byte_pairs t vs) = (length vs + 1) div 2 \<and>
    list_all u16 (encode_byte_pairs t vs)"
proof (induction t vs rule: encode_byte_pairs.induct)
  case (2 t v)
  have "0 \<le> encode_byte t (js_int 0) \<and> encode_byte t (js_int 0) < 256" by (rule encode_byte_finite) simp
  with 2 encode_byte_finite [of v t] show ?case by (auto simp: js_be16 u16_def)
next
  case (3 t v w vs)
  then show ?case using encode_byte_finite [of v t] encode_byte_finite [of w t] by (auto simp: js_be16 u16_def)
qed simp

lemma encodeValues_words:
  assumes "list_all js_isFinite vs"
  shows "\<exists>ws. encodeValues t vs = Inr ws \<and> list_all u16 ws \<and>
    length ws = (if isByteValueType t then (length vs + 1) div 2 else registerSpan t * length vs)"
proof (cases "isByteValueType t")
  case True
  with encode_byte_pairs_words [OF assms] show ?thesis by (simp add: encodeValues_def)
next
  case False
  have "\<exists>wss. mapM_ok (encodeValue t) vs = Inr wss \<and> list_all u16 (concat wss) \<and>
    length (concat wss) = registerSpan t * length vs"
    using assms
  proof (induction vs)
    case (Cons v vs)
    then obtain wss ws where "mapM_ok (encodeValue t) vs = Inr wss" "list_all u16 (concat wss)"
      "length (concat wss) = registerSpan t * length vs" "encodeValue t v = Inr ws" "length ws = registerSpan t"
      "list_all u16 ws" using encodeValue_words [of v t] by auto
    then show ?case by simp
  qed simp
  with False show ?thesis by (auto simp: encodeValues_def)
qed

lemma row_values_finite: "list_all js_isFinite (modbusWriteRowValues reg)"
  by (auto simp: modbusWriteRowValues_def Let_def list_all_iff split: option.splits if_splits dest: in_set_takeD)

lemma row_values_length: "int (length (modbusWriteRowValues reg)) \<le> modbusDataValueCount reg"
  using data_count_pos [of reg]
  by (auto simp: modbusWriteRowValues_def Let_def split: option.splits)

lemma writeRowSpan_ok:
  "encodeValues (mr_type reg) (modbusWriteRowValues reg) = Inr (encoded_words reg) \<and>
   list_all u16 (encoded_words reg) \<and>
   length (encoded_words reg) = (if isByteValueType (mr_type reg) then (length (modbusWriteRowValues reg) + 1) div 2
     else registerSpan (mr_type reg) * length (modbusWriteRowValues reg))"
  using encodeValues_words [OF row_values_finite, of "mr_type reg" reg] by (auto simp: encoded_words_def)

lemma span_limit_16:
  assumes "mr_fc reg = 16"
  shows "writeRowSpan reg \<le> limit_writeRegisters"
proof -
  have "modbusDataValueCount reg \<le> maxValueCountForRegisters (mr_type reg) limit_writeRegisters"
    using assms maxValueCount_pos [of limit_writeRegisters "mr_type reg"]
      clampInt_bounds [of 1 "maxValueCountForRegisters (mr_type reg) limit_writeRegisters" "mr_quantity reg"]
    by (simp add: modbusDataValueCount_def isBitFc_def limit_writeRegisters_def)
  with row_values_length [of reg]
  have n: "int (length (modbusWriteRowValues reg)) \<le> maxValueCountForRegisters (mr_type reg) 123"
    by (simp add: limit_writeRegisters_def)
  show ?thesis
    using n writeRowSpan_ok [of reg] assms
    by (auto simp: writeRowSpan_def limit_writeRegisters_def maxValueCountForRegisters_def registerSpan_def
        isByteValueType_def split: if_splits)
qed

lemma span_pos: "modbusWriteRowValues reg \<noteq> [] \<Longrightarrow> 1 \<le> writeRowSpan reg"
  using writeRowSpan_ok [of reg]
  by (cases "modbusWriteRowValues reg") (auto simp: writeRowSpan_def registerSpan_def)

section \<open>Write batches are well formed\<close>

fun wrows_contiguous :: "int \<Rightarrow> int \<Rightarrow> int \<Rightarrow> modbus_register list \<Rightarrow> int \<Rightarrow> bool" where
  "wrows_contiguous slave start off [] cnt \<longleftrightarrow> cnt = off"
| "wrows_contiguous slave start off (reg # rows) cnt \<longleftrightarrow>
     mr_address reg = start + off \<and> mr_slave reg = slave \<and> modbusWriteRowValues reg \<noteq> [] \<and>
     wrows_contiguous slave start (off + writeRowSpan reg) rows cnt"

definition write_batch_ok :: "write_batch \<Rightarrow> bool" where
  "write_batch_ok b \<longleftrightarrow> wb_rows b \<noteq> [] \<and>
     wrows_contiguous (wb_slave b) (wb_start b) 0 (wb_rows b) (wb_count b) \<and>
     (if wb_kind b = Coil
      then list_all (\<lambda>r. mr_fc r = 5) (wb_rows b) \<and> wb_fc b = (if wb_count b = 1 then 5 else 15) \<and>
        (wb_count b \<le> 1968 \<or> length (wb_rows b) = 1)
      else wb_count b \<le> 123 \<and>
        (wb_fc b = 6 \<and> wb_count b = 1 \<and> length (wb_rows b) = 1 \<and> list_all (\<lambda>r. mr_fc r = 6) (wb_rows b) \<or>
         wb_fc b = 16 \<and> list_all (\<lambda>r. mr_fc r = 16) (wb_rows b)))"

definition row_writable :: "modbus_register \<Rightarrow> bool" where
  "row_writable r \<longleftrightarrow> (mr_fc r = 5 \<or> mr_fc r = 6 \<or> mr_fc r = 16) \<and> modbusWriteRowValues r \<noteq> [] \<and>
     (mr_fc r = 6 \<longrightarrow> writeRowSpan r = 1)"

abbreviation written_regs :: "write_batch list \<Rightarrow> modbus_register list" where
  "written_regs bs \<equiv> concat (map wb_rows bs)"

lemma wrows_contiguous_snoc:
  "wrows_contiguous s st off rows cnt \<Longrightarrow> mr_address reg = st + cnt \<Longrightarrow> mr_slave reg = s \<Longrightarrow>
    modbusWriteRowValues reg \<noteq> [] \<Longrightarrow> wrows_contiguous s st off (rows @ [reg]) (cnt + writeRowSpan reg)"
  by (induction rows arbitrary: off) auto

lemma wrows_count: "wrows_contiguous s st off rows cnt \<Longrightarrow> off + int (length rows) \<le> cnt"
proof (induction rows arbitrary: off)
  case (Cons reg rows)
  with span_pos [of reg] show ?case by fastforce
qed simp

lemma write_batch_new:
  assumes "row_writable reg"
  shows "write_batch_ok \<lparr>wb_slave = mr_slave reg, wb_kind = (if mr_fc reg = 5 then Coil else Register),
    wb_fc = writeBatchFc (if mr_fc reg = 5 then Coil else Register) (writeRowSpan reg) (mr_fc reg),
    wb_start = mr_address reg, wb_count = writeRowSpan reg, wb_rows = [reg]\<rparr>"
  using assms span_limit_16 [of reg]
  by (auto simp: write_batch_ok_def row_writable_def writeBatchFc_def limit_writeRegisters_def)

lemma write_batch_merge:
  assumes "write_batch_ok b" "row_writable reg" "wb_kind b = (if mr_fc reg = 5 then Coil else Register)"
    and "wb_slave b = mr_slave reg" "canMergeWriteRows b reg" "wb_start b + wb_count b = mr_address reg"
    and "wb_count b + writeRowSpan reg \<le> (if wb_kind b = Coil then limit_writeBits else limit_writeRegisters)"
  shows "write_batch_ok (b\<lparr>wb_rows := wb_rows b @ [reg], wb_count := wb_count b + writeRowSpan reg,
    wb_fc := writeBatchFc (wb_kind b) (wb_count b + writeRowSpan reg) (mr_fc reg)\<rparr>)"
proof -
  have v: "modbusWriteRowValues reg \<noteq> []" using assms(2) by (simp add: row_writable_def)
  have c: "wrows_contiguous (wb_slave b) (wb_start b) 0 (wb_rows b @ [reg]) (wb_count b + writeRowSpan reg)"
    using assms(1,4,6) v by (intro wrows_contiguous_snoc) (auto simp: write_batch_ok_def)
  have "1 \<le> wb_count b"
    using wrows_count [of "wb_slave b" "wb_start b" 0 "wb_rows b" "wb_count b"] assms(1)
    by (cases "wb_rows b") (auto simp: write_batch_ok_def)
  with span_pos [OF v] have "wb_count b + writeRowSpan reg \<noteq> 1" by linarith
  with c assms show ?thesis
    by (cases "wb_kind b") (auto simp: write_batch_ok_def writeBatchFc_def canMergeWriteRows_def
        limit_writeBits_def limit_writeRegisters_def split: if_splits)
qed

lemma write_step_ok:
  assumes "list_all write_batch_ok bs" "row_writable reg"
  shows "list_all write_batch_ok (write_step bs reg) \<and> written_regs (write_step bs reg) = written_regs bs @ [reg]"
proof -
  let ?k = "if mr_fc reg = 5 then Coil else Register" and ?b = "last bs"
  let ?c = "bs \<noteq> [] \<and> wb_slave ?b = mr_slave reg \<and> wb_kind ?b = ?k \<and> canMergeWriteRows ?b reg \<and>
    wb_start ?b + wb_count ?b = mr_address reg \<and>
    wb_count ?b + writeRowSpan reg \<le> (if ?k = Coil then limit_writeBits else limit_writeRegisters)"
  show ?thesis
  proof (cases ?c)
    case True
    then obtain cs b where bs: "bs = cs @ [b]" by (metis append_butlast_last_id)
    have "write_batch_ok (b\<lparr>wb_rows := wb_rows b @ [reg], wb_count := wb_count b + writeRowSpan reg,
      wb_fc := writeBatchFc (wb_kind b) (wb_count b + writeRowSpan reg) (mr_fc reg)\<rparr>)"
      using True bs assms by (intro write_batch_merge) auto
    with True bs assms show ?thesis unfolding write_step_def Let_def if_P [OF True] by simp
  next
    case False
    from write_batch_new [OF assms(2)] assms(1) show ?thesis
      unfolding write_step_def Let_def if_not_P [OF False] by simp
  qed
qed

lemma write_fold_ok:
  "list_all write_batch_ok bs \<Longrightarrow> \<forall>r \<in> set regs. row_writable r \<Longrightarrow>
    list_all write_batch_ok (foldl write_step bs regs) \<and>
    written_regs (foldl write_step bs regs) = written_regs bs @ regs"
proof (induction regs arbitrary: bs)
  case (Cons r regs)
  then show ?case using write_step_ok [of bs r] by auto
qed simp

lemma write_batches_ok:
  "list_all write_batch_ok (buildModbusWriteBatches regs) \<and>
    written_regs (buildModbusWriteBatches regs) = writable regs"
proof -
  have "\<forall>r \<in> set (writable regs). row_writable r" by (auto simp: writable_def row_writable_def)
  with write_fold_ok [of "[]" "writable regs"] show ?thesis by (simp add: buildModbusWriteBatches_def)
qed

lemma mset_writable: "mset (writable regs) = filter_mset row_writable (mset regs)"
proof -
  have "filter_mset (\<lambda>r. (modbusWriteRowValues r \<noteq> [] \<and> (mr_fc r = 5 \<or> mr_fc r = 6 \<or> mr_fc r = 16)) \<and>
      (mr_fc r \<noteq> 6 \<or> writeRowSpan r = 1)) (mset regs) = filter_mset row_writable (mset regs)"
    by (rule filter_mset_cong) (auto simp: row_writable_def)
  then show ?thesis by (simp add: writable_def filter_filter_mset conj_commute conj_left_commute)
qed

lemma encoded_length:
  assumes "wrows_contiguous s st off rows cnt"
  shows "(list_all (\<lambda>r. mr_fc r = 5) rows \<longrightarrow>
      cnt = off + int (length (concat (map (\<lambda>r. map (\<lambda>v. js_rat v \<noteq> Some 0) (modbusWriteRowValues r)) rows)))) \<and>
    (list_all (\<lambda>r. mr_fc r \<noteq> 5) rows \<longrightarrow> cnt = off + int (length (concat (map encoded_words rows))))"
  using assms
proof (induction rows arbitrary: off)
  case (Cons reg rows)
  from Cons.IH [of "off + writeRowSpan reg"] Cons.prems show ?case by (auto simp: writeRowSpan_def)
qed simp

lemma write_batch_lengths:
  assumes "write_batch_ok b"
  shows "int (length (encodeModbusRegisterWriteValues b)) + int (length (encodeModbusCoilWriteValues b)) = wb_count b"
proof (cases "wb_kind b")
    case Coil
    with assms encoded_length [of "wb_slave b" "wb_start b" 0 "wb_rows b" "wb_count b"] show ?thesis
      by (simp add: write_batch_ok_def encodeModbusRegisterWriteValues_def encodeModbusCoilWriteValues_def)
  next
    case Register
    then have "list_all (\<lambda>r. mr_fc r \<noteq> 5) (wb_rows b)" using assms by (auto simp: write_batch_ok_def list_all_iff)
    with Register assms encoded_length [of "wb_slave b" "wb_start b" 0 "wb_rows b" "wb_count b"] show ?thesis
      by (simp add: write_batch_ok_def encodeModbusRegisterWriteValues_def encodeModbusCoilWriteValues_def)
qed

section \<open>Properties\<close>

text \<open>Reading: the split ends, every readable row is requested exactly once, in the order
  of slave, function and address, each batch stays within its function's quantity limit, and
  within a batch every row stands at its own address and has room for all its values.\<close>

theorem read_batches_complete:
  "\<exists>bs. buildModbusReadBatches regs = Some bs \<and>
     mset (batch_regs bs) = filter_mset (\<lambda>r. isReadFc (mr_fc r)) (mset regs) \<and>
     sorted (map read_key (batch_regs bs)) \<and>
     list_all (\<lambda>b. 1 \<le> rb_count b \<and> rb_count b \<le> (if isBitFc (rb_fc b) then 2000 else 125) \<and>
       list_all (\<lambda>(r, off). mr_slave r = rb_slave b \<and> mr_fc r = rb_fc b \<and> mr_address r = rb_start b + off \<and>
         0 \<le> off \<and> off + modbusReadRowCount r \<le> rb_count b) (rb_rows b)) bs"
proof -
  obtain bs where bs: "buildModbusReadBatches regs = Some bs" "list_all batch_ok bs" "batch_regs bs = readable regs"
    "list_all (\<lambda>b. rb_count b \<le> read_limit (rb_fc b)) bs"
    using read_batches_ok [of regs] by blast
  have "1 \<le> rb_count b \<and> rb_count b \<le> (if isBitFc (rb_fc b) then 2000 else 125) \<and>
       list_all (\<lambda>(r, off). mr_slave r = rb_slave b \<and> mr_fc r = rb_fc b \<and> mr_address r = rb_start b + off \<and>
         0 \<le> off \<and> off + modbusReadRowCount r \<le> rb_count b) (rb_rows b)" if "b \<in> set bs" for b
    using that bs(2,4) batch_count_pos [of b] contiguous_rows [of "rb_slave b" "rb_fc b" "rb_start b" 0 "rb_rows b" "rb_count b"]
    by (fastforce simp: list_all_iff read_limit_def limit_readBits_def limit_readRegisters_def batch_ok_def)
  with bs show ?thesis by (auto simp: list_all_iff readable_def)
qed

text \<open>Writing: every writable row is written exactly once; each batch is one coil request
  or one register request whose rows stand contiguously at their own addresses, a single
  register write holds exactly one word, register batches hold at most 123, and the flattened
  values are exactly as many as the batch counts.\<close>

theorem write_batches_complete:
  "mset (written_regs (buildModbusWriteBatches regs)) = filter_mset row_writable (mset regs) \<and>
   list_all (\<lambda>b. write_batch_ok b \<and> int (length (encodeModbusRegisterWriteValues b)) +
       int (length (encodeModbusCoilWriteValues b)) = wb_count b) (buildModbusWriteBatches regs)"
proof -
  from write_batches_ok [of regs] write_batch_lengths show ?thesis by (auto simp: mset_writable list_all_iff)
qed

text \<open>A coil row with more values than one request carries is not split: for any 1969 to
  2000 values it makes one batch that the request builder refuses with a \<open>RangeError\<close>.\<close>

theorem long_coil_row_unsendable:
  assumes "mr_fc reg = 5" "mr_quantity reg = Some (js_int n)" "mr_values reg = Some vs"
    and "list_all js_isFinite vs" "int (length vs) = n" "1969 \<le> n" "n \<le> 2000"
  shows "\<exists>b. buildModbusWriteBatches [reg] = [b] \<and> wb_fc b = 15 \<and> wb_count b = n \<and>
    buildWriteMultipleCoilsPdu (js_int (wb_start b)) (encodeModbusCoilWriteValues b) = Inl RangeError"
proof -
  have f: "filter js_isFinite vs = vs" using assms(4) by (simp add: list_all_iff filter_id_conv)
  have d: "modbusDataValueCount reg = n"
    using assms(1,2,6,7) by (simp add: modbusDataValueCount_def isBitFc_def clampInt_def limit_readBits_def)
  have v: "modbusWriteRowValues reg = vs" "vs \<noteq> []"
    using assms(1,3,5,6) f d by (auto simp: modbusWriteRowValues_def)
  have w: "writable [reg] = [reg]" "writeRowSpan reg = n"
    using assms(1,5) v by (simp_all add: writable_def writeRowSpan_def)
  let ?b = "\<lparr>wb_slave = mr_slave reg, wb_kind = Coil, wb_fc = 15, wb_start = mr_address reg, wb_count = n, wb_rows = [reg]\<rparr>"
  have "buildModbusWriteBatches [reg] = [?b]"
    using assms(1,6) w by (simp add: buildModbusWriteBatches_def write_step_def Let_def writeBatchFc_def)
  moreover have "int (length (encodeModbusCoilWriteValues ?b)) = n"
    using v assms(5) by (simp add: encodeModbusCoilWriteValues_def)
  ultimately show ?thesis using assms(6)
    by (auto simp: buildWriteMultipleCoilsPdu_def assertU16_eq assertQuantity_eq quantity_arg_def limit_writeBits_def)
qed

section \<open>Witnesses\<close>

definition long_coil_row :: modbus_register where
  "long_coil_row = \<lparr>mr_id = ''r'', mr_name = ''r'', mr_slave = 1, mr_fc = 5, mr_address = 0,
     mr_quantity = Some (js_int 1970), mr_type = TBool, mr_unit = None, mr_channel = None, mr_value = None,
     mr_values = Some (replicate 1970 (js_int 1)), mr_valueTs = None, mr_periodicRead = False,
     mr_periodicWrite = True\<rparr>"

theorem long_coil_row_unsendable_witness:
  "\<exists>b. buildModbusWriteBatches [long_coil_row] = [b] \<and> wb_count b = 1970 \<and>
     buildWriteMultipleCoilsPdu (js_int (wb_start b)) (encodeModbusCoilWriteValues b) = Inl RangeError"
  using long_coil_row_unsendable [of long_coil_row 1970 "replicate 1970 (js_int 1)"]
  by (auto simp: long_coil_row_def list_all_iff)

end
