(* ===== verification/ModbusRequests.thy ===== *)
theory ModbusRequests
  imports ModbusBatches
begin

text \<open>
  From row batches to the wire and back: \<open>modbus-request-builder.ts\<close> (request bytes and the
  expected reply length), \<open>modbus-response-mapper.ts\<close> (values and samples per row, write
  acknowledgements) and \<open>modbus-batch-runner.ts\<close> (one transaction per batch).

  The environment of the runner, its \<open>transact\<close>, \<open>shouldStop\<close> and \<open>shouldSkipBatch\<close>
  callbacks, is a set of functions on a state of the caller's choice.  The closing theorems
  run a whole read cycle against the tables of the devices on a bus, and a write batch against a
  device's memory.
\<close>

section \<open>Wire requests\<close>

record wire_request =
  wr_wire :: bytes
  wr_expectedLen :: "int option"

definition expectedReadResponseLength :: "read_batch \<Rightarrow> transport \<Rightarrow> int option" where
  "expectedReadResponseLength batch tr =
     (if tr = RTU then None
      else if isBitFc (rb_fc batch) then Some (2 + (rb_count batch + 7) div 8)
      else Some (2 + rb_count batch * 2))"

definition expectedWriteResponseLength :: "transport \<Rightarrow> int option" where
  "expectedWriteResponseLength tr = (if tr = RTU then None else Some 5)"

definition buildModbusReadWireRequest :: "transport \<Rightarrow> read_batch \<Rightarrow> js_error + wire_request" where
  "buildModbusReadWireRequest tr batch =
     bind_ok (readRequest tr (rb_slave batch) (rb_fc batch) (js_int (rb_start batch)) (js_int (rb_count batch)))
       (\<lambda>w. Inr \<lparr>wr_wire = w, wr_expectedLen = expectedReadResponseLength batch tr\<rparr>)"

text \<open>\<open>bits[0]\<close> and \<open>values[0]\<close> of an empty list are \<open>undefined\<close>: falsy, and not a 16-bit
  integer.\<close>

definition writeRequest :: "transport \<Rightarrow> write_batch \<Rightarrow> js_error + bytes" where
  "writeRequest tr batch =
     (if wb_kind batch = Coil then
        (let bs = encodeModbusCoilWriteValues batch in
         if wb_fc batch = 5
         then writeSingleCoilRequest tr (wb_slave batch) (js_int (wb_start batch)) (case bs of [] \<Rightarrow> False | b # _ \<Rightarrow> b)
         else writeMultipleCoilsRequest tr (wb_slave batch) (js_int (wb_start batch)) bs)
      else
        (let ws = encodeModbusRegisterWriteValues batch in
         if wb_fc batch = 6
         then writeSingleRegisterRequest tr (wb_slave batch) (js_int (wb_start batch))
                (case ws of [] \<Rightarrow> NaN | w # _ \<Rightarrow> js_int w)
         else writeMultipleRegistersRequest tr (wb_slave batch) (js_int (wb_start batch)) (map js_int ws)))"

definition buildModbusWriteWireRequest :: "transport \<Rightarrow> write_batch \<Rightarrow> js_error + wire_request" where
  "buildModbusWriteWireRequest tr batch =
     bind_ok (writeRequest tr batch)
       (\<lambda>w. Inr \<lparr>wr_wire = w, wr_expectedLen = expectedWriteResponseLength tr\<rparr>)"

section \<open>Mapping responses\<close>

record modbus_sample =
  ms_registerId :: string
  ms_channel :: int
  ms_value :: jsnum
  ms_ts :: jsnum

record value_update =
  vu_id :: string
  vu_value :: jsnum
  vu_values :: "jsnum list option"
  vu_ts :: jsnum

record mapped_response =
  mp_updates :: "value_update list"
  mp_samples :: "modbus_sample list"

definition emptyMapping :: mapped_response where
  "emptyMapping = \<lparr>mp_updates = [], mp_samples = []\<rparr>"

definition addValues :: "mapped_response \<Rightarrow> string \<Rightarrow> int option \<Rightarrow> jsnum list \<Rightarrow> jsnum \<Rightarrow> mapped_response" where
  "addValues mapped rid channel values ts =
     (case values of
        [] \<Rightarrow> mapped
      | v # _ \<Rightarrow>
          \<lparr>mp_updates = mp_updates mapped @ [\<lparr>vu_id = rid, vu_value = v,
               vu_values = (if length values > 1 then Some values else None), vu_ts = ts\<rparr>],
           mp_samples = mp_samples mapped @ (case channel of None \<Rightarrow> []
             | Some ch \<Rightarrow> [\<lparr>ms_registerId = rid, ms_channel = ch, ms_value = v, ms_ts = ts\<rparr>])\<rparr>)"

definition slice :: "'a list \<Rightarrow> int \<Rightarrow> int \<Rightarrow> 'a list" where
  "slice xs off n = take (nat n) (drop (nat off) xs)"

definition bits_row_values :: "bool list \<Rightarrow> modbus_register \<Rightarrow> int \<Rightarrow> jsnum list" where
  "bits_row_values bs reg off =
     map (\<lambda>b. js_int (if b then 1 else 0)) (slice bs off (modbusDataValueCount reg))"

definition regs_row_values :: "int list \<Rightarrow> modbus_register \<Rightarrow> int \<Rightarrow> jsnum list" where
  "regs_row_values regs reg off =
     take (nat (modbusDataValueCount reg)) (decodeValues (mr_type reg) (slice regs off (modbusReadRowCount reg)))"

definition mapReadBits :: "read_batch \<Rightarrow> bool list \<Rightarrow> jsnum \<Rightarrow> mapped_response" where
  "mapReadBits batch bs ts =
     foldl (\<lambda>m (reg, off). addValues m (mr_id reg) (mr_channel reg) (bits_row_values bs reg off) ts)
       emptyMapping (rb_rows batch)"

definition mapReadRegisters :: "read_batch \<Rightarrow> int list \<Rightarrow> jsnum \<Rightarrow> mapped_response" where
  "mapReadRegisters batch regs ts =
     foldl (\<lambda>m (reg, off). addValues m (mr_id reg) (mr_channel reg) (regs_row_values regs reg off) ts)
       emptyMapping (rb_rows batch)"

definition mapModbusReadResponse :: "read_batch \<Rightarrow> modbus_response \<Rightarrow> jsnum \<Rightarrow> mapped_response" where
  "mapModbusReadResponse batch r ts =
     (case r of
        ReadBits _ _ bs \<Rightarrow> mapReadBits batch bs ts
      | ReadRegs _ _ regs \<Rightarrow> mapReadRegisters batch regs ts
      | _ \<Rightarrow> emptyMapping)"

definition isExpectedModbusWriteAck :: "modbus_response option \<Rightarrow> write_batch \<Rightarrow> transport \<Rightarrow> bool" where
  "isExpectedModbusWriteAck response batch tr =
     (case response of
        Some (WriteAck slave fc addr cnt) \<Rightarrow>
          \<not> (tr = RTU \<and> slave \<noteq> js_and (wb_slave batch) 255) \<and>
          \<not> (fc \<noteq> wb_fc batch \<or> addr \<noteq> wb_start batch) \<and>
          cnt = (if wb_fc batch = 5 \<or> wb_fc batch = 6 then 1 else wb_count batch)
      | _ \<Rightarrow> False)"

section \<open>Running batches\<close>

text \<open>The periodic context of a batch: its scope and what identifies the batch there.  The
  source joins the fields into a string; the fields themselves are kept here.\<close>

datatype periodic_scope = ReadScope | WriteScope

datatype batch_key =
    ReadKey int int int int
  | WriteKey int write_kind int int int

definition modbusPeriodicReadBatchKey :: "read_batch \<Rightarrow> batch_key" where
  "modbusPeriodicReadBatchKey b = ReadKey (rb_slave b) (rb_fc b) (rb_start b) (rb_count b)"

definition modbusPeriodicWriteBatchKey :: "write_batch \<Rightarrow> batch_key" where
  "modbusPeriodicWriteBatchKey b = WriteKey (wb_slave b) (wb_kind b) (wb_fc b) (wb_start b) (wb_count b)"

record ('s, 'b) runner_env =
  env_transact :: "'s \<Rightarrow> 'b \<Rightarrow> bytes \<Rightarrow> int option \<Rightarrow> (periodic_scope \<times> batch_key) option \<Rightarrow> modbus_response option \<times> 's"
  env_shouldStop :: "'s \<Rightarrow> bool"
  env_shouldSkip :: "'s \<Rightarrow> 'b \<Rightarrow> periodic_scope \<times> batch_key \<Rightarrow> bool"

record read_run =
  rr_updates :: "value_update list"
  rr_samples :: "modbus_sample list"
  rr_statuses :: "int list"
  rr_stopped :: bool

record write_run =
  ww_sent :: int
  ww_ok :: int
  ww_statuses :: "int list"
  ww_stopped :: bool

fun run_read_loop :: "('s, read_batch) runner_env \<Rightarrow> transport \<Rightarrow> periodic_scope option \<Rightarrow> jsnum \<Rightarrow>
    read_batch list \<Rightarrow> read_run \<Rightarrow> 's \<Rightarrow> js_error + (read_run \<times> 's)" where
  "run_read_loop env tr scope ts [] res s = Inr (res, s)"
| "run_read_loop env tr scope ts (batch # batches) res s =
     (if env_shouldStop env s then Inr (res\<lparr>rr_stopped := True\<rparr>, s)
      else let ctx = map_option (\<lambda>sc. (sc, modbusPeriodicReadBatchKey batch)) scope in
        if (case ctx of None \<Rightarrow> False | Some c \<Rightarrow> env_shouldSkip env s batch c)
        then run_read_loop env tr scope ts batches res s
        else bind_ok (buildModbusReadWireRequest tr batch) (\<lambda>w.
          let (response, s') = env_transact env s batch (wr_wire w) (wr_expectedLen w) ctx in
          case response of
            None \<Rightarrow> run_read_loop env tr scope ts batches res s'
          | Some (ExceptionResponse _ _ code) \<Rightarrow>
              run_read_loop env tr scope ts batches (res\<lparr>rr_statuses := rr_statuses res @ [code]\<rparr>) s'
          | Some r \<Rightarrow>
              let mapped = mapModbusReadResponse batch r ts in
              run_read_loop env tr scope ts batches
                (res\<lparr>rr_updates := rr_updates res @ mp_updates mapped,
                   rr_samples := rr_samples res @ mp_samples mapped\<rparr>) s'))"

definition runModbusReadBatches :: "('s, read_batch) runner_env \<Rightarrow> transport \<Rightarrow> periodic_scope option \<Rightarrow> jsnum \<Rightarrow>
    read_batch list \<Rightarrow> 's \<Rightarrow> js_error + (read_run \<times> 's)" where
  "runModbusReadBatches env tr scope ts batches s =
     run_read_loop env tr scope ts batches
       \<lparr>rr_updates = [], rr_samples = [], rr_statuses = [], rr_stopped = False\<rparr> s"

fun run_write_loop :: "('s, write_batch) runner_env \<Rightarrow> transport \<Rightarrow> periodic_scope option \<Rightarrow>
    write_batch list \<Rightarrow> write_run \<Rightarrow> 's \<Rightarrow> js_error + (write_run \<times> 's)" where
  "run_write_loop env tr scope [] res s = Inr (res, s)"
| "run_write_loop env tr scope (batch # batches) res s =
     (if env_shouldStop env s then Inr (res\<lparr>ww_stopped := True\<rparr>, s)
      else let ctx = map_option (\<lambda>sc. (sc, modbusPeriodicWriteBatchKey batch)) scope in
        if (case ctx of None \<Rightarrow> False | Some c \<Rightarrow> env_shouldSkip env s batch c)
        then run_write_loop env tr scope batches res s
        else let n = int (length (wb_rows batch)); res1 = res\<lparr>ww_sent := ww_sent res + n\<rparr> in
          bind_ok (buildModbusWriteWireRequest tr batch) (\<lambda>w.
            let (response, s') = env_transact env s batch (wr_wire w) (wr_expectedLen w) ctx;
                res2 = (if isExpectedModbusWriteAck response batch tr then res1\<lparr>ww_ok := ww_ok res1 + n\<rparr>
                        else case response of
                            Some (ExceptionResponse _ _ code) \<Rightarrow> res1\<lparr>ww_statuses := ww_statuses res1 @ [code]\<rparr>
                          | _ \<Rightarrow> res1)
            in run_write_loop env tr scope batches res2 s'))"

definition runModbusWriteBatches :: "('s, write_batch) runner_env \<Rightarrow> transport \<Rightarrow> periodic_scope option \<Rightarrow>
    write_batch list \<Rightarrow> 's \<Rightarrow> js_error + (write_run \<times> 's)" where
  "runModbusWriteBatches env tr scope batches s =
     run_write_loop env tr scope batches \<lparr>ww_sent = 0, ww_ok = 0, ww_statuses = [], ww_stopped = False\<rparr> s"

section \<open>Reading the devices' memory\<close>

text \<open>The values a row should show.\<close>

definition row_values :: "(int \<Rightarrow> int) \<Rightarrow> (int \<Rightarrow> bool) \<Rightarrow> modbus_register \<Rightarrow> jsnum list" where
  "row_values regs coils r =
     (if isBitFc (mr_fc r)
      then map (\<lambda>i. js_int (if coils (mr_address r + int i) then 1 else 0)) [0..<nat (modbusDataValueCount r)]
      else take (nat (modbusDataValueCount r)) (decodeValues (mr_type r)
        (map (\<lambda>i. regs (mr_address r + int i)) [0..<nat (modbusReadRowCount r)])))"

text \<open>The tables of the whole bus: one table of words and one of bits per device and function
  code, as a device keeps its coils, inputs, holding and input registers apart.  A row shows the
  table of its own device and function code.\<close>

type_synonym word_tables = "int \<Rightarrow> int \<Rightarrow> int \<Rightarrow> int"
type_synonym bit_tables = "int \<Rightarrow> int \<Rightarrow> int \<Rightarrow> bool"

definition add_row :: "word_tables \<Rightarrow> bit_tables \<Rightarrow> jsnum \<Rightarrow> mapped_response \<Rightarrow> modbus_register \<Rightarrow> mapped_response" where
  "add_row regs coils ts m r = addValues m (mr_id r) (mr_channel r)
     (row_values (regs (mr_slave r) (mr_fc r)) (coils (mr_slave r) (mr_fc r)) r) ts"

lemma slice_map_upt:
  assumes "0 \<le> off" "0 \<le> n" "off + n \<le> cnt"
  shows "slice (map (\<lambda>i. f (st + int i)) [0..<nat cnt] @ pad) off n = map (\<lambda>i. f (st + off + int i)) [0..<nat n]"
proof (rule nth_equalityI)
  show "length (slice (map (\<lambda>i. f (st + int i)) [0..<nat cnt] @ pad) off n) = length (map (\<lambda>i. f (st + off + int i)) [0..<nat n])"
    using assms by (simp add: slice_def)
next
  fix i assume "i < length (slice (map (\<lambda>i. f (st + int i)) [0..<nat cnt] @ pad) off n)"
  then have i: "i < nat n" unfolding slice_def length_take by linarith
  with assms have "nat off + i < nat cnt" by linarith
  with i assms show "slice (map (\<lambda>i. f (st + int i)) [0..<nat cnt] @ pad) off n ! i
      = map (\<lambda>i. f (st + off + int i)) [0..<nat n] ! i"
    by (simp add: slice_def nth_append add.assoc)
qed

lemma data_count_le_row: "isBitFc (mr_fc r) \<Longrightarrow> modbusReadRowCount r = modbusDataValueCount r"
  by (simp add: modbusReadRowCount_def)

lemma map_rows:
  assumes "rows_contiguous s f st off rows cnt" "0 \<le> off"
  shows "(isBitFc f \<longrightarrow> foldl (\<lambda>m (reg, off). addValues m (mr_id reg) (mr_channel reg)
        (bits_row_values (map (\<lambda>i. coils s f (st + int i)) [0..<nat cnt] @ pad) reg off) ts) m rows
      = foldl (add_row regs coils ts) m (map fst rows)) \<and>
    (\<not> isBitFc f \<longrightarrow> foldl (\<lambda>m (reg, off). addValues m (mr_id reg) (mr_channel reg)
        (regs_row_values (map (\<lambda>i. regs s f (st + int i)) [0..<nat cnt]) reg off) ts) m rows
      = foldl (add_row regs coils ts) m (map fst rows))"
  using assms
proof (induction rows arbitrary: off m)
  case (Cons row rows)
  obtain reg o' where row: "row = (reg, o')" by fastforce
  have p: "o' = off" "mr_address reg = st + off" "mr_slave reg = s" "mr_fc reg = f"
    "rows_contiguous s f st (off + modbusReadRowCount reg) rows cnt"
    using Cons.prems(1) row by auto
  have c: "off + modbusReadRowCount reg \<le> cnt" "0 \<le> modbusReadRowCount reg"
    using contiguous_count [OF p(5)] read_row_count [of reg] by auto
  note ih = Cons.IH [OF p(5)]
  have n: "0 \<le> modbusDataValueCount reg" using data_count_pos [of reg] by simp
  show ?case
  proof (cases "isBitFc f")
    case True
    have "bits_row_values (map (\<lambda>i. coils s f (st + int i)) [0..<nat cnt] @ pad) reg o' = row_values (regs s f) (coils s f) reg"
      using slice_map_upt [of off "modbusDataValueCount reg" cnt "coils s f" st pad] True p c n Cons.prems(2)
        data_count_le_row [of reg]
      by (simp add: bits_row_values_def row_values_def comp_def)
    with True ih row p(3,4) c Cons.prems(2) show ?thesis by (simp add: add_row_def)
  next
    case False
    have "regs_row_values (map (\<lambda>i. regs s f (st + int i)) [0..<nat cnt]) reg o' = row_values (regs s f) (coils s f) reg"
      using slice_map_upt [of off "modbusReadRowCount reg" cnt "regs s f" st "[]"] False p c Cons.prems(2)
      by (simp add: regs_row_values_def row_values_def)
    with False ih row p(3,4) c Cons.prems(2) show ?thesis by (simp add: add_row_def)
  qed
qed simp

text \<open>The devices on the bus as the environment.  What answers is decided by the wire alone: the
  device whose address is the first byte of the frame, from the table of the function code that
  is the second.  The reply is scanned and parsed as the transaction runner does.\<close>

definition bus_reply :: "word_tables \<Rightarrow> bit_tables \<Rightarrow> bytes \<Rightarrow> bytes option" where
  "bus_reply regs coils wire =
     (case wire of
        slave # fc # _ \<Rightarrow> rtu_server (regs (uint slave) (uint fc)) (coils (uint slave) (uint fc)) (uint slave) wire
      | _ \<Rightarrow> None)"

definition server_env :: "word_tables \<Rightarrow> bit_tables \<Rightarrow> (unit, read_batch) runner_env" where
  "server_env regs coils = \<lparr>
     env_transact = (\<lambda>s batch wire len ctx.
       ((case bus_reply regs coils wire of
           None \<Rightarrow> None
         | Some reply \<Rightarrow> (case sr_frames (scanResponse RTU reply None) of
             [] \<Rightarrow> None | f # _ \<Rightarrow> parseFrame RTU f)), s)),
     env_shouldStop = (\<lambda>s. False), env_shouldSkip = (\<lambda>s batch ctx. False)\<rparr>"

lemma bus_reply_read:
  assumes "readRequest RTU slave fc start cnt = Inr frame" "0 \<le> slave" "slave < 256"
  shows "bus_reply regs coils frame = rtu_server (regs slave fc) (coils slave fc) slave frame"
proof -
  obtain pdu where pdu: "buildReadRequestPdu fc start cnt = Inr pdu" and f: "frame = frameRequest RTU slave pdu"
    using assms(1) by (auto simp: readRequest_def bind_ok_eq_Inr)
  then have b: "isReadFc fc" "pdu = to_byte fc # be16 (js_floor start) @ be16 (js_floor cnt)"
    by (auto simp: buildReadRequestPdu_def assertU16_eq assertQuantity_eq split: if_splits)
  have "uint (to_byte fc) = fc" using b(1) by (auto simp: isReadFc_def)
  moreover have "uint (to_byte slave) = slave" using assms(2,3) by simp
  ultimately show ?thesis by (simp add: bus_reply_def f b(2) frameRequest_def js_and_lit withCrc_eq)
qed

definition row_addressable :: "modbus_register \<Rightarrow> bool" where
  "row_addressable r \<longleftrightarrow> 0 \<le> mr_slave r \<and> mr_slave r < 256 \<and> 0 \<le> mr_address r \<and> mr_address r < 65536"

lemma addValues_append:
  "addValues m i ch vs ts = \<lparr>mp_updates = mp_updates m @ mp_updates (addValues emptyMapping i ch vs ts),
     mp_samples = mp_samples m @ mp_samples (addValues emptyMapping i ch vs ts)\<rparr>"
  by (simp add: addValues_def emptyMapping_def split: list.splits)

lemma add_rows_append:
  "foldl (add_row regs coils ts) m rs =
     \<lparr>mp_updates = mp_updates m @ mp_updates (foldl (add_row regs coils ts) emptyMapping rs),
      mp_samples = mp_samples m @ mp_samples (foldl (add_row regs coils ts) emptyMapping rs)\<rparr>"
proof (induction rs arbitrary: m)
  case (Cons r rs)
  show ?case
    using Cons [of "add_row regs coils ts m r"] Cons [of "add_row regs coils ts emptyMapping r"]
      addValues_append [of m "mr_id r" "mr_channel r" "row_values (regs (mr_slave r) (mr_fc r)) (coils (mr_slave r) (mr_fc r)) r" ts]
    by (simp add: add_row_def)
qed (simp add: emptyMapping_def)

lemma server_read_batch:
  assumes b: "batch_ok b" "rb_count b \<le> read_limit (rb_fc b)" "row_addressable (fst (hd (rb_rows b)))"
    and u: "\<And>s f i. u16 (regs s f i)"
  shows "\<exists>w r. buildModbusReadWireRequest RTU b = Inr w \<and>
    env_transact (server_env regs coils) () b (wr_wire w) (wr_expectedLen w) ctx = (Some r, ()) \<and>
    (\<forall>s f c. r \<noteq> ExceptionResponse s f c) \<and>
    mapModbusReadResponse b r ts = foldl (add_row regs coils ts) emptyMapping (map fst (rb_rows b))"
proof -
  obtain reg o' rows where rows: "rb_rows b = (reg, o') # rows"
    using b(1) by (cases "rb_rows b") (auto simp: batch_ok_def)
  have cont: "rows_contiguous (rb_slave b) (rb_fc b) (rb_start b) 0 (rb_rows b) (rb_count b)"
    and fc: "isReadFc (rb_fc b)" using b(1) by (simp_all add: batch_ok_def)
  have a: "0 \<le> rb_slave b" "rb_slave b < 256" "u16 (rb_start b)"
    using cont rows b(3) by (auto simp: row_addressable_def u16_def)
  have n: "1 \<le> rb_count b" by (rule batch_count_pos [OF b(1)])
  obtain frame where f: "readRequest RTU (rb_slave b) (rb_fc b) (js_int (rb_start b)) (js_int (rb_count b)) = Inr frame"
    using fc a(3) n b(2) by (auto simp: readRequest_def buildReadRequestPdu_def assertU16_eq
        assertQuantity_eq u16_arg_def quantity_arg_def u16_def read_limit_def)
  let ?regs = "regs (rb_slave b) (rb_fc b)" and ?coils = "coils (rb_slave b) (rb_fc b)"
  obtain reply r where r: "rtu_server ?regs ?coils (rb_slave b) frame = Some reply"
    "scanResponse RTU reply None = \<lparr>sr_frames = [reply], sr_remainder = []\<rparr>" "parseFrame RTU reply = Some r"
    "answer_seen (rb_slave b) (the (serve_read ?regs ?coils (ReadRequest (rb_fc b) (rb_start b) (rb_count b)))) r"
    using read_transaction_ok [where regs = ?regs and coils = ?coils and e = None, OF f a(1,2) u] by auto
  let ?w = "\<lparr>wr_wire = frame, wr_expectedLen = expectedReadResponseLength b RTU\<rparr>"
  have w: "buildModbusReadWireRequest RTU b = Inr ?w" using f by (simp add: buildModbusReadWireRequest_def)
  have t: "env_transact (server_env regs coils) () b (wr_wire ?w) (wr_expectedLen ?w) ctx = (Some r, ())"
    using r(1-3) by (simp add: server_env_def bus_reply_read [OF f a(1,2)])
  have m: "(\<forall>s f c. r \<noteq> ExceptionResponse s f c) \<and>
    mapModbusReadResponse b r ts = foldl (add_row regs coils ts) emptyMapping (map fst (rb_rows b))"
  proof (cases "isBitFc (rb_fc b)")
    case True
    with fc have "rb_fc b = 1 \<or> rb_fc b = 2" by (auto simp: isBitFc_def isReadFc_def)
    then obtain pad where "r = ReadBits (rb_slave b) (rb_fc b) (map (\<lambda>i. ?coils (rb_start b + int i)) [0..<nat (rb_count b)] @ pad)"
      using r(4) by (auto simp: serve_read_def Let_def comp_def)
    with True map_rows [OF cont, where coils = coils and regs = regs and ts = ts and pad = pad and m = emptyMapping]
    show ?thesis by (auto simp: mapModbusReadResponse_def mapReadBits_def)
  next
    case False
    with fc have "rb_fc b = 3 \<or> rb_fc b = 4" by (auto simp: isBitFc_def isReadFc_def)
    then have "r = ReadRegs (rb_slave b) (rb_fc b) (map (\<lambda>i. ?regs (rb_start b + int i)) [0..<nat (rb_count b)])"
      using r(4) by (auto simp: serve_read_def Let_def comp_def)
    with False map_rows [OF cont, where coils = coils and regs = regs and ts = ts and m = emptyMapping]
    show ?thesis by (auto simp: mapModbusReadResponse_def mapReadRegisters_def)
  qed
  show ?thesis using w t m by blast
qed

lemma run_read_loop_server:
  assumes "list_all batch_ok bs" "list_all (\<lambda>b. rb_count b \<le> read_limit (rb_fc b)) bs"
    and "\<forall>r \<in> set (batch_regs bs). row_addressable r" "\<And>s f i. u16 (regs s f i)"
  shows "run_read_loop (server_env regs coils) RTU scope ts bs res () =
    Inr (res\<lparr>rr_updates := rr_updates res @ mp_updates (foldl (add_row regs coils ts) emptyMapping (batch_regs bs)),
      rr_samples := rr_samples res @ mp_samples (foldl (add_row regs coils ts) emptyMapping (batch_regs bs))\<rparr>, ())"
  using assms(1-3)
proof (induction bs arbitrary: res)
  case (Cons b bs)
  have ne: "rb_rows b \<noteq> []" using Cons.prems(1) by (simp add: batch_ok_def)
  then have ad: "row_addressable (fst (hd (rb_rows b)))" using Cons.prems(3) by (cases "rb_rows b") auto
  let ?ctx = "map_option (\<lambda>sc. (sc, modbusPeriodicReadBatchKey b)) scope"
  obtain w r where wr: "buildModbusReadWireRequest RTU b = Inr w"
    "env_transact (server_env regs coils) () b (wr_wire w) (wr_expectedLen w) ?ctx = (Some r, ())"
    "\<forall>s f c. r \<noteq> ExceptionResponse s f c"
    "mapModbusReadResponse b r ts = foldl (add_row regs coils ts) emptyMapping (map fst (rb_rows b))"
    using server_read_batch [of b regs coils ?ctx ts] Cons.prems ad assms(4) by auto
  have st: "env_shouldStop (server_env regs coils) () = False" "env_shouldSkip (server_env regs coils) () b c = False" for c
    by (simp_all add: server_env_def)
  let ?m = "foldl (add_row regs coils ts) emptyMapping (map fst (rb_rows b))"
  let ?res = "res\<lparr>rr_updates := rr_updates res @ mp_updates ?m, rr_samples := rr_samples res @ mp_samples ?m\<rparr>"
  have "run_read_loop (server_env regs coils) RTU scope ts (b # bs) res () =
    run_read_loop (server_env regs coils) RTU scope ts bs ?res ()"
    using wr(3,4) by (cases r) (simp_all add: wr(1,2) st Let_def split: option.splits)
  also have "\<dots> = Inr (?res\<lparr>rr_updates := rr_updates ?res @ mp_updates (foldl (add_row regs coils ts) emptyMapping (batch_regs bs)),
      rr_samples := rr_samples ?res @ mp_samples (foldl (add_row regs coils ts) emptyMapping (batch_regs bs))\<rparr>, ())"
    using Cons.prems by (intro Cons.IH) auto
  finally show ?case
    using add_rows_append [of regs coils ts ?m "batch_regs bs"] by simp
qed (simp add: emptyMapping_def)

section \<open>Writing a server's memory\<close>

definition store :: "(int \<Rightarrow> 'a) \<Rightarrow> int \<Rightarrow> 'a list \<Rightarrow> int \<Rightarrow> 'a" where
  "store mem start xs = (\<lambda>a. if start \<le> a \<and> a < start + int (length xs) then xs ! nat (a - start) else mem a)"

text \<open>What a server does with a write request addressed to it.\<close>

definition serve_write :: "(int \<Rightarrow> int) \<times> (int \<Rightarrow> bool) \<Rightarrow> int \<Rightarrow> bytes \<Rightarrow> (int \<Rightarrow> int) \<times> (int \<Rightarrow> bool)" where
  "serve_write mem slave frame =
     (if \<not> verifyCrc frame \<or> uint (frame ! 0) \<noteq> slave then mem
      else case decode_request (drop 1 (take (length frame - 2) frame)) of
        Some (WriteCoilRequest a b) \<Rightarrow> (fst mem, store (snd mem) a [b])
      | Some (WriteRegisterRequest a w) \<Rightarrow> (store (fst mem) a [w], snd mem)
      | Some (WriteCoilsRequest a bs) \<Rightarrow> (fst mem, store (snd mem) a bs)
      | Some (WriteRegistersRequest a ws) \<Rightarrow> (store (fst mem) a ws, snd mem)
      | _ \<Rightarrow> mem)"

definition coil_values :: "modbus_register \<Rightarrow> bool list" where
  "coil_values r = map (\<lambda>v. js_rat v \<noteq> Some 0) (modbusWriteRowValues r)"

lemma row_in_concat:
  assumes "wrows_contiguous s st off rows cnt" "\<And>r. r \<in> set rows \<Longrightarrow> int (length (f r)) = writeRowSpan r"
    and "r \<in> set rows" "i < length (f r)"
  shows "st + off \<le> mr_address r \<and> nat (mr_address r - st - off) + i < length (concat (map f rows)) \<and>
    concat (map f rows) ! (nat (mr_address r - st - off) + i) = f r ! i"
  using assms
proof (induction rows arbitrary: off)
  case (Cons q rows)
  have q: "mr_address q = st + off" "int (length (f q)) = writeRowSpan q" using Cons.prems(1,2) by auto
  show ?case
  proof (cases "r = q")
    case True
    with q Cons.prems(4) show ?thesis by (simp add: nth_append)
  next
    case False
    have ih: "st + (off + writeRowSpan q) \<le> mr_address r \<and>
      nat (mr_address r - st - (off + writeRowSpan q)) + i < length (concat (map f rows)) \<and>
      concat (map f rows) ! (nat (mr_address r - st - (off + writeRowSpan q)) + i) = f r ! i"
      using Cons.prems False by (intro Cons.IH) auto
    have n: "nat (mr_address r - st - off) = length (f q) + nat (mr_address r - st - (off + writeRowSpan q))"
      using ih q(2) by linarith
    show ?thesis using ih q(2) unfolding n by (simp add: nth_append)
  qed
qed simp

lemma row_stored:
  assumes "wrows_contiguous s st 0 rows cnt" "\<And>r. r \<in> set rows \<Longrightarrow> int (length (f r)) = writeRowSpan r"
    and "r \<in> set rows" "i < length (f r)"
  shows "store mem st (concat (map f rows)) (mr_address r + int i) = f r ! i"
proof -
  have "st \<le> mr_address r" "nat (mr_address r - st) + i < length (concat (map f rows))"
    "concat (map f rows) ! (nat (mr_address r - st) + i) = f r ! i"
    using row_in_concat [OF assms] by simp_all
  moreover have "nat (mr_address r + int i - st) = nat (mr_address r - st) + i" using calculation(1) by linarith
  ultimately show ?thesis by (simp add: store_def) linarith
qed

lemma rtu_frame_pdu:
  assumes "0 \<le> slave" "slave < 256" "1 \<le> length pdu"
  shows "verifyCrc (frameRequest RTU slave pdu) \<and> uint (frameRequest RTU slave pdu ! 0) = slave \<and>
    drop 1 (take (length (frameRequest RTU slave pdu) - 2) (frameRequest RTU slave pdu)) = pdu"
proof -
  have f: "frameRequest RTU slave pdu = withCrc (to_byte slave # pdu)" by (simp add: frameRequest_def js_and_lit)
  have "verifyCrc (withCrc (to_byte slave # pdu))" using assms(3) by (intro withCrc_verifies) simp
  with assms show ?thesis unfolding f by (simp add: withCrc_eq)
qed

lemma decode_nonempty: "decode_request pdu = Some q \<Longrightarrow> 1 \<le> length pdu"
  by (auto simp: decode_request_def split: if_splits)

definition batch_effect :: "write_batch \<Rightarrow> (int \<Rightarrow> int) \<times> (int \<Rightarrow> bool) \<Rightarrow> (int \<Rightarrow> int) \<times> (int \<Rightarrow> bool)" where
  "batch_effect b mem = (store (fst mem) (wb_start b) (encodeModbusRegisterWriteValues b),
     store (snd mem) (wb_start b) (encodeModbusCoilWriteValues b))"

lemma store_Nil [simp]: "store mem a [] = mem"
  by (auto simp: store_def fun_eq_iff)

lemma write_pdu:
  assumes b: "write_batch_ok b" "0 \<le> wb_start b" "wb_start b < 65536" "wb_kind b = Coil \<longrightarrow> wb_count b \<le> 1968"
  shows "\<exists>pdu q. writeRequest RTU b = Inr (frameRequest RTU (wb_slave b) pdu) \<and> decode_request pdu = Some q \<and>
    (case q of
        WriteCoilRequest a v \<Rightarrow> (fst mem, store (snd mem) a [v])
      | WriteRegisterRequest a w \<Rightarrow> (store (fst mem) a [w], snd mem)
      | WriteCoilsRequest a bs \<Rightarrow> (fst mem, store (snd mem) a bs)
      | WriteRegistersRequest a ws \<Rightarrow> (store (fst mem) a ws, snd mem)
      | _ \<Rightarrow> mem) = batch_effect b mem"
proof -
  have a: "u16_arg (js_int (wb_start b))" "u16 (wb_start b)"
    using b(2,3) by (simp_all add: u16_arg_def u16_def)
  have c1: "1 \<le> wb_count b"
    using wrows_count [of "wb_slave b" "wb_start b" 0 "wb_rows b" "wb_count b"] b(1)
    by (cases "wb_rows b") (auto simp: write_batch_ok_def)
  have len: "wb_kind b = Coil \<Longrightarrow> int (length (encodeModbusCoilWriteValues b)) = wb_count b"
    "wb_kind b = Register \<Longrightarrow> int (length (encodeModbusRegisterWriteValues b)) = wb_count b"
    using encoded_length [of "wb_slave b" "wb_start b" 0 "wb_rows b" "wb_count b"] b(1)
    by (auto simp: write_batch_ok_def encodeModbusRegisterWriteValues_def encodeModbusCoilWriteValues_def
        list_all_iff)
  show ?thesis
  proof (cases "wb_kind b")
    case Coil
    define bs where "bs = encodeModbusCoilWriteValues b"
    have r: "encodeModbusRegisterWriteValues b = []" using Coil by (simp add: encodeModbusRegisterWriteValues_def)
    have l: "int (length bs) = wb_count b" using len(1) Coil by (simp add: bs_def)
    show ?thesis
    proof (cases "wb_fc b = 5")
      case True
      then have "wb_count b = 1" using b(1) Coil by (simp add: write_batch_ok_def split: if_splits)
      then obtain v where v: "bs = [v]" using l by (cases bs) auto
      with Coil True a decode_request_coil [OF a(2), of v] r show ?thesis
        by (auto simp: writeRequest_def writeSingleCoilRequest_def buildWriteSingleCoilPdu_def assertU16_eq
            bs_def [symmetric] batch_effect_def)
    next
      case False
      have "length bs \<le> 1968" "1 \<le> length bs" using l c1 b(4) Coil by simp_all
      with Coil False a decode_request_coils [OF a(2), of bs] r l show ?thesis
        by (auto simp: writeRequest_def writeMultipleCoilsRequest_def buildWriteMultipleCoilsPdu_def
            assertU16_eq assertQuantity_eq quantity_arg_def limit_writeBits_def bs_def [symmetric]
            batch_effect_def Let_def)
    qed
  next
    case Register
    define ws where "ws = encodeModbusRegisterWriteValues b"
    have r: "encodeModbusCoilWriteValues b = []" using Register by (simp add: encodeModbusCoilWriteValues_def)
    have l: "int (length ws) = wb_count b" using len(2) Register by (simp add: ws_def)
    have u: "list_all u16 ws"
      using writeRowSpan_ok by (auto simp: ws_def encodeModbusRegisterWriteValues_def list_all_iff)
    show ?thesis
    proof (cases "wb_fc b = 6")
      case True
      then have "wb_count b = 1" using b(1) Register by (auto simp: write_batch_ok_def)
      then obtain w where w: "ws = [w]" using l by (cases ws) auto
      with u have "u16 w" "u16_arg (js_int w)" by (auto simp: u16_def u16_arg_def)
      with w Register True a decode_request_register [OF a(2), of w] r show ?thesis
        by (auto simp: writeRequest_def writeSingleRegisterRequest_def buildWriteSingleRegisterPdu_def
            assertU16_eq ws_def [symmetric] batch_effect_def)
    next
      case False
      have n: "length ws \<le> 123" "1 \<le> length ws" using l c1 b(1) Register by (auto simp: write_batch_ok_def)
      have m: "mapM_ok assertU16 (map js_int ws) = Inr ws"
        using u by (auto simp: mapM_assertU16 list_all_iff u16_def u16_arg_def comp_def map_idI)
      show ?thesis using n m Register False a decode_request_registers [OF a(2) n(1)] u r l
        by (auto simp: writeRequest_def writeMultipleRegistersRequest_def buildWriteMultipleRegistersPdu_def
            assertU16_eq assertQuantity_eq quantity_arg_def limit_writeRegisters_def ws_def [symmetric]
            batch_effect_def list_all_iff)
    qed
  qed
qed

section \<open>Properties\<close>

text \<open>C10. A whole read cycle shows the devices' memory: for any table of addressable rows, in
  any mix of devices and function codes, the rows are batched, each batch is requested over RTU,
  answered by the device the frame names from the table of the function code it names, scanned,
  parsed and mapped back, and the updates and waveform samples are, for every readable row in the
  sorted order, the values decoded from that row's own device, own table and own address, with no
  error, no exception and no early stop.  Devices and tables hold unrelated values, so a batch
  that joined rows of two of them would show a wrong one.\<close>

theorem read_cycle_shows_memory:
  assumes "list_all row_addressable regs" "\<And>s f i. u16 (mem s f i)"
  shows "\<exists>bs run. buildModbusReadBatches regs = Some bs \<and>
    runModbusReadBatches (server_env mem coils) RTU scope ts bs () = Inr (run, ()) \<and>
    rr_updates run = mp_updates (foldl (add_row mem coils ts) emptyMapping (readable regs)) \<and>
    rr_samples run = mp_samples (foldl (add_row mem coils ts) emptyMapping (readable regs)) \<and>
    rr_statuses run = [] \<and> \<not> rr_stopped run"
proof -
  obtain bs where bs: "buildModbusReadBatches regs = Some bs" "list_all batch_ok bs" "batch_regs bs = readable regs"
    "list_all (\<lambda>b. rb_count b \<le> read_limit (rb_fc b)) bs"
    using read_batches_ok [of regs] by blast
  have "\<forall>r \<in> set (batch_regs bs). row_addressable r"
    unfolding bs(3) using assms(1) by (auto simp: readable_def list_all_iff)
  from run_read_loop_server [where regs = mem and coils = coils and scope = scope and ts = ts, OF bs(2,4) this assms(2)]
  show ?thesis using bs(1,3) by (simp add: runModbusReadBatches_def)
qed

text \<open>A row's own words or coil states, read back from a memory.\<close>

definition row_holds :: "(int \<Rightarrow> int) \<times> (int \<Rightarrow> bool) \<Rightarrow> modbus_register \<Rightarrow> bool" where
  "row_holds mem r \<longleftrightarrow> (if mr_fc r = 5
     then list_all (\<lambda>i. snd mem (mr_address r + int i) = coil_values r ! i) [0..<length (coil_values r)]
     else list_all (\<lambda>i. fst mem (mr_address r + int i) = encoded_words r ! i) [0..<length (encoded_words r)])"

lemma batch_effect_holds:
  assumes "write_batch_ok b" "r \<in> set (wb_rows b)"
  shows "row_holds (batch_effect b mem) r"
proof (cases "wb_kind b")
  case Coil
  have cont: "wrows_contiguous (wb_slave b) (wb_start b) 0 (wb_rows b) (wb_count b)" using assms(1) by (simp add: write_batch_ok_def)
  have all: "mr_fc q = 5" if "q \<in> set (wb_rows b)" for q using Coil assms(1) that by (auto simp: write_batch_ok_def list_all_iff)
  have "int (length (coil_values q)) = writeRowSpan q" if "q \<in> set (wb_rows b)" for q
    using all [OF that] by (simp add: coil_values_def writeRowSpan_def)
  from row_stored [OF cont this assms(2), where mem = "snd mem"] all [OF assms(2)] Coil show ?thesis
    by (simp add: row_holds_def list_all_iff batch_effect_def encodeModbusCoilWriteValues_def coil_values_def [abs_def])
next
  case Register
  have cont: "wrows_contiguous (wb_slave b) (wb_start b) 0 (wb_rows b) (wb_count b)" using assms(1) by (simp add: write_batch_ok_def)
  have all: "mr_fc q \<noteq> 5" if "q \<in> set (wb_rows b)" for q using Register assms(1) that by (auto simp: write_batch_ok_def list_all_iff)
  have "int (length (encoded_words q)) = writeRowSpan q" if "q \<in> set (wb_rows b)" for q
    using all [OF that] by (simp add: writeRowSpan_def)
  from row_stored [OF cont this assms(2), where mem = "fst mem"] all [OF assms(2)] Register show ?thesis
    by (simp add: row_holds_def list_all_iff batch_effect_def encodeModbusRegisterWriteValues_def)
qed

lemma batch_effect_elsewhere:
  assumes "write_batch_ok b" "a < wb_start b \<or> wb_start b + wb_count b \<le> a"
  shows "fst (batch_effect b mem) a = fst mem a \<and> snd (batch_effect b mem) a = snd mem a"
  using write_batch_lengths [OF assms(1)] assms(2) by (auto simp: batch_effect_def store_def)

lemma batch_rows_subset: "b \<in> set (buildModbusWriteBatches regs) \<Longrightarrow> set (wb_rows b) \<subseteq> set regs"
proof -
  assume "b \<in> set (buildModbusWriteBatches regs)"
  then have "set (wb_rows b) \<subseteq> set (written_regs (buildModbusWriteBatches regs))" by auto
  also have "\<dots> \<subseteq> set regs" unfolding conjunct2 [OF write_batches_ok] by (auto simp: writable_def)
  finally show ?thesis .
qed

lemma batch_addressable:
  assumes "write_batch_ok b" "\<forall>r \<in> set (wb_rows b). row_addressable r"
  shows "0 \<le> wb_slave b" "wb_slave b < 256" "0 \<le> wb_start b" "wb_start b < 65536"
proof -
  obtain r0 rows where "wb_rows b = r0 # rows" using assms(1) by (cases "wb_rows b") (auto simp: write_batch_ok_def)
  then show "0 \<le> wb_slave b" "wb_slave b < 256" "0 \<le> wb_start b" "wb_start b < 65536"
    using assms by (auto simp: row_addressable_def write_batch_ok_def)
qed

lemma served_batch:
  assumes "write_batch_ok b" "\<forall>r \<in> set (wb_rows b). row_addressable r" "wb_kind b = Coil \<longrightarrow> wb_count b \<le> 1968"
  shows "\<exists>frame. writeRequest RTU b = Inr frame \<and> serve_write mem (wb_slave b) frame = batch_effect b mem"
proof -
  note a = batch_addressable [OF assms(1,2)]
  obtain pdu q where p: "writeRequest RTU b = Inr (frameRequest RTU (wb_slave b) pdu)" "decode_request pdu = Some q"
    and e: "(case q of
        WriteCoilRequest a v \<Rightarrow> (fst mem, store (snd mem) a [v])
      | WriteRegisterRequest a w \<Rightarrow> (store (fst mem) a [w], snd mem)
      | WriteCoilsRequest a bs \<Rightarrow> (fst mem, store (snd mem) a bs)
      | WriteRegistersRequest a ws \<Rightarrow> (store (fst mem) a ws, snd mem)
      | _ \<Rightarrow> mem) = batch_effect b mem"
    using write_pdu [OF assms(1) a(3,4) assms(3), of mem] by blast
  have "serve_write mem (wb_slave b) (frameRequest RTU (wb_slave b) pdu) = batch_effect b mem"
    using rtu_frame_pdu [OF a(1,2) decode_nonempty [OF p(2)]] p(2) e by (simp add: serve_write_def)
  with p(1) show ?thesis by blast
qed

text \<open>A write batch stores its rows: the request is accepted, and a server at the batch's
  address that executes it holds, at every row's own address, the words (or coil states) the
  row's values encode to, and its memory is unchanged everywhere else.\<close>

theorem write_batch_stores_rows:
  assumes "b \<in> set (buildModbusWriteBatches regs)" "list_all row_addressable regs"
    and "wb_kind b = Coil \<longrightarrow> wb_count b \<le> 1968"
  shows "\<exists>frame. writeRequest RTU b = Inr frame \<and>
    (\<forall>r \<in> set (wb_rows b). row_holds (serve_write mem (wb_slave b) frame) r) \<and>
    (\<forall>a. a < wb_start b \<or> wb_start b + wb_count b \<le> a \<longrightarrow>
      fst (serve_write mem (wb_slave b) frame) a = fst mem a \<and> snd (serve_write mem (wb_slave b) frame) a = snd mem a)"
proof -
  have ok: "write_batch_ok b" using assms(1) write_batches_ok [of regs] by (auto simp: list_all_iff)
  have "\<forall>r \<in> set (wb_rows b). row_addressable r" using batch_rows_subset [OF assms(1)] assms(2) by (auto simp: list_all_iff)
  from served_batch [OF ok this assms(3), of mem] obtain frame
    where "writeRequest RTU b = Inr frame" "serve_write mem (wb_slave b) frame = batch_effect b mem" by blast
  then show ?thesis using batch_effect_holds [OF ok] batch_effect_elsewhere [OF ok] by (intro exI [of _ frame]) simp
qed

section \<open>Witnesses\<close>

definition holding_row :: modbus_register where
  "holding_row = \<lparr>mr_id = ''h'', mr_name = ''Holding'', mr_slave = 1, mr_fc = 3, mr_address = 100,
     mr_quantity = Some (js_int 2), mr_type = TUint16, mr_unit = None, mr_channel = Some 0, mr_value = None,
     mr_values = None, mr_valueTs = None, mr_periodicRead = True, mr_periodicWrite = False\<rparr>"

text \<open>Three rows that differ only in their device or function code, with adjacent addresses.\<close>

definition input_row :: modbus_register where
  "input_row = holding_row\<lparr>mr_id := ''i'', mr_fc := 4, mr_address := 102\<rparr>"

definition other_row :: modbus_register where
  "other_row = holding_row\<lparr>mr_id := ''o'', mr_slave := 2, mr_address := 102\<rparr>"

theorem read_cycle_shows_memory_witness:
  "\<exists>bs run. buildModbusReadBatches [holding_row, input_row, other_row] = Some bs \<and>
     runModbusReadBatches (server_env (\<lambda>s f i. (1000 * s + 100 * f + i) mod 65536) (\<lambda>_ _ _. True)) RTU None (js_int 7) bs ()
       = Inr (run, ()) \<and>
     rr_updates run = mp_updates (foldl (add_row (\<lambda>s f i. (1000 * s + 100 * f + i) mod 65536) (\<lambda>_ _ _. True) (js_int 7))
       emptyMapping (readable [holding_row, input_row, other_row])) \<and>
     rr_statuses run = [] \<and> \<not> rr_stopped run"
proof -
  have "list_all row_addressable [holding_row, input_row, other_row]"
    by (simp add: row_addressable_def holding_row_def input_row_def other_row_def)
  moreover have "u16 ((1000 * s + 100 * f + i) mod 65536)" for s f i :: int by (simp add: u16_def)
  ultimately show ?thesis
    using read_cycle_shows_memory [where regs = "[holding_row, input_row, other_row]" and
        mem = "\<lambda>s f i. (1000 * s + 100 * f + i) mod 65536" and
        coils = "\<lambda>_ _ _. True" and scope = None and ts = "js_int 7"] by blast
qed

definition write_row :: modbus_register where
  "write_row = holding_row\<lparr>mr_fc := 16, mr_values := Some [js_int 7, js_int 8]\<rparr>"

lemma write_row_batches:
  "\<exists>b. buildModbusWriteBatches [write_row] = [b] \<and> wb_kind b = Register"
  by (simp add: buildModbusWriteBatches_def writable_def write_row_def holding_row_def modbusWriteRowValues_def
      modbusDataValueCount_def isBitFc_def clampInt_def maxValueCountForRegisters_def limit_writeRegisters_def
      isByteValueType_def registerSpan_def write_step_def Let_def)

theorem write_batch_stores_rows_witness:
  "\<exists>b frame. buildModbusWriteBatches [write_row] = [b] \<and> writeRequest RTU b = Inr frame"
proof -
  obtain b where b: "buildModbusWriteBatches [write_row] = [b]" "wb_kind b = Register" using write_row_batches by blast
  moreover have "list_all row_addressable [write_row]" by (simp add: row_addressable_def write_row_def holding_row_def)
  ultimately show ?thesis using write_batch_stores_rows [of b "[write_row]" "(\<lambda>_. 0, \<lambda>_. False)"] by auto
qed

end
