(* ===== verification/ModbusRunner.thy ===== *)
theory ModbusRunner
  imports ModbusTransport
begin

text \<open>
  The half-duplex transaction runner, \<open>modbus-transaction-runner.ts\<close>: one outstanding
  request, one receive buffer, one timeout.

  The asynchronous environment is a set of events: bytes arrive, a caller starts a
  transaction, the transmit hook or the transmit result comes back for some earlier
  transaction (possibly late or more than once), an active timer fires, a caller cancels.
  A promise is a number; \<open>ru_settled\<close> holds what it was resolved with first, later
  resolutions of it do nothing.  \<open>ru_log\<close> is a ghost that records each response together
  with the request and the frame it was accepted for.
\<close>

section \<open>State\<close>

datatype 'e transaction_status = TimeoutStatus | ErrorStatus 'e

record 'c pending =
  pd_id :: nat
  pd_context :: 'c
  pd_timer :: bool
  pd_started :: bool
  pd_expectedLen :: "int option"
  pd_transport :: transport
  pd_request :: "bytes option"

record accepted =
  ac_id :: nat
  ac_transport :: transport
  ac_wire :: bytes
  ac_frame :: bytes
  ac_response :: modbus_response

record ('c, 'e) runner =
  ru_rx :: bytes
  ru_pending :: "'c pending option"
  ru_settled :: "nat \<Rightarrow> modbus_response option option"
  ru_next :: nat
  ru_statuses :: "'e transaction_status list"
  ru_timers :: "(nat \<times> 'c) set"
  ru_log :: "accepted list"

definition runner_new :: "('c, 'e) runner" where
  "runner_new = \<lparr>ru_rx = [], ru_pending = None, ru_settled = (\<lambda>_. None), ru_next = 0,
     ru_statuses = [], ru_timers = {}, ru_log = []\<rparr>"

definition MAX_MODBUS_TRANSACTION_RX_BYTES :: nat where "MAX_MODBUS_TRANSACTION_RX_BYTES = 256"
definition MODBUS_RX_PROCESS_CHUNK_BYTES :: nat where "MODBUS_RX_PROCESS_CHUNK_BYTES = 4096"

definition settle :: "nat \<Rightarrow> modbus_response option \<Rightarrow> ('c, 'e) runner \<Rightarrow> ('c, 'e) runner" where
  "settle i v s = (if ru_settled s i = None then s\<lparr>ru_settled := (ru_settled s)(i := Some v)\<rparr> else s)"

section \<open>Operations\<close>

text \<open>\<open>responseMatcher\<close>; without a request (before the bytes are built) it is false.\<close>

definition response_matches :: "transport \<Rightarrow> bytes \<Rightarrow> bytes \<Rightarrow> modbus_response \<Rightarrow> bool" where
  "response_matches tr wire frame response =
     (let slave = uint (wire ! 0);
          pdu = (if tr = RTU then drop 1 (take (length wire - 2) wire) else wire);
          fc = uint (pdu ! 0);
          quantity = be_word (pdu ! 3) (pdu ! 4) in
      if length pdu < 5 then False
      else if tr = RTU \<and> r_slave response \<noteq> slave then False
      else case response of
        ExceptionResponse _ rfc _ \<Rightarrow> rfc = js_or fc 128
      | ReadRegs _ rfc regs \<Rightarrow> rfc = fc \<and> int (length regs) = quantity
      | ReadBits _ rfc bs \<Rightarrow> rfc = fc \<and> int (length bs) = (quantity + 7) div 8 * 8
      | WriteAck _ rfc _ _ \<Rightarrow> rfc = fc \<and>
          (let off = (if tr = RTU then 1 else 0) in
           list_all (\<lambda>i. off + i + 1 < length frame \<and> frame ! (off + i + 1) = pdu ! (i + 1)) [0..<4]))"

definition retainIncompleteAdu :: "bytes \<Rightarrow> bytes" where
  "retainIncompleteAdu remainder =
     drop (length remainder - (MAX_MODBUS_TRANSACTION_RX_BYTES - 1)) remainder"

fun find_match :: "transport \<Rightarrow> bytes option \<Rightarrow> bytes list \<Rightarrow> (bytes \<times> modbus_response) option" where
  "find_match tr req [] = None"
| "find_match tr req (frame # frames) =
     (case (parseFrame tr frame, req) of
        (Some candidate, Some wire) \<Rightarrow>
          if response_matches tr wire frame candidate then Some (frame, candidate)
          else find_match tr req frames
      | _ \<Rightarrow> find_match tr req frames)"

function receive_loop :: "bytes \<Rightarrow> ('c, 'e) runner \<Rightarrow> ('c, 'e) runner" where
  "receive_loop bs s =
     (if bs = [] then s
      else case ru_pending s of
        None \<Rightarrow> s
      | Some p \<Rightarrow>
          if \<not> pd_started p then s
          else
            let rx = ru_rx s @ take MODBUS_RX_PROCESS_CHUNK_BYTES bs;
                rest = drop MODBUS_RX_PROCESS_CHUNK_BYTES bs;
                r = scanResponse (pd_transport p) rx (map_option js_int (pd_expectedLen p));
                s1 = s\<lparr>ru_rx := retainIncompleteAdu (sr_remainder r)\<rparr>
            in case find_match (pd_transport p) (pd_request p) (sr_frames r) of
                 None \<Rightarrow> receive_loop rest s1
               | Some (frame, response) \<Rightarrow>
                   receive_loop rest (settle (pd_id p) (Some response)
                     (s1\<lparr>ru_rx := [], ru_pending := None,
                        ru_timers := ru_timers s1 - {(pd_id p, pd_context p)},
                        ru_log := ru_log s1 @ [\<lparr>ac_id = pd_id p, ac_transport = pd_transport p,
                          ac_wire = the (pd_request p), ac_frame = frame, ac_response = response\<rparr>]\<rparr>)))"
  by pat_completeness auto
termination
  by (relation "measure (\<lambda>(bs, s). length bs)") (auto simp: MODBUS_RX_PROCESS_CHUNK_BYTES_def)

declare receive_loop.simps [simp del]

definition receive :: "bytes \<Rightarrow> ('c, 'e) runner \<Rightarrow> ('c, 'e) runner" where
  "receive bs s =
     (case ru_pending s of
        None \<Rightarrow> s\<lparr>ru_rx := []\<rparr>
      | Some p \<Rightarrow> if \<not> pd_started p then s\<lparr>ru_rx := []\<rparr> else receive_loop bs s)"

definition cancel :: "'e transaction_status option \<Rightarrow> ('c, 'e) runner \<Rightarrow> bool \<times> ('c, 'e) runner" where
  "cancel status s =
     (case ru_pending s of
        None \<Rightarrow> (False, s\<lparr>ru_rx := []\<rparr>)
      | Some p \<Rightarrow>
          (True, settle (pd_id p) None
             (s\<lparr>ru_rx := [], ru_pending := None, ru_timers := ru_timers s - {(pd_id p, pd_context p)},
                ru_statuses := ru_statuses s @ (case status of None \<Rightarrow> [] | Some st \<Rightarrow> [st])\<rparr>)))"

definition cancelForContext :: "'c \<Rightarrow> 'e transaction_status option \<Rightarrow> ('c, 'e) runner \<Rightarrow> bool \<times> ('c, 'e) runner" where
  "cancelForContext ctx status s =
     (case ru_pending s of
        None \<Rightarrow> (False, s)
      | Some p \<Rightarrow> if pd_context p \<noteq> ctx then (False, s) else cancel status s)"

text \<open>\<open>failSend\<close>, and the same code in the transmit result: cancel the transaction of this
  context, or resolve this promise.\<close>

definition failSend :: "nat \<Rightarrow> 'c \<Rightarrow> 'e \<Rightarrow> ('c, 'e) runner \<Rightarrow> ('c, 'e) runner" where
  "failSend i ctx e s =
     (let (cancelled, s') = cancelForContext ctx (Some (ErrorStatus e)) s
      in if cancelled then s' else settle i None s')"

definition startTimeout :: "'c \<Rightarrow> ('c, 'e) runner \<Rightarrow> ('c, 'e) runner" where
  "startTimeout ctx s =
     (case ru_pending s of
        None \<Rightarrow> s
      | Some p \<Rightarrow>
          if pd_context p \<noteq> ctx \<or> pd_timer p then s
          else s\<lparr>ru_pending := Some (p\<lparr>pd_started := True, pd_timer := True\<rparr>), ru_rx := [],
                 ru_timers := insert (pd_id p, ctx) (ru_timers s)\<rparr>)"

definition transact :: "'e \<Rightarrow> transport \<Rightarrow> 'c \<Rightarrow> 'e + bytes \<Rightarrow> int option \<Rightarrow> 'e option \<Rightarrow>
    ('c, 'e) runner \<Rightarrow> ('c, 'e) runner" where
  "transact busy tr ctx buildWire expectedLen sendThrows s0 =
     (let i = ru_next s0; s = s0\<lparr>ru_next := i + 1\<rparr> in
      if ru_pending s \<noteq> None then settle i None (s\<lparr>ru_statuses := ru_statuses s @ [ErrorStatus busy]\<rparr>)
      else
        let p = \<lparr>pd_id = i, pd_context = ctx, pd_timer = False, pd_started = False,
                 pd_expectedLen = expectedLen, pd_transport = tr, pd_request = None\<rparr>;
            s1 = s\<lparr>ru_pending := Some p, ru_rx := []\<rparr>
        in case buildWire of
             Inl e \<Rightarrow> failSend i ctx e s1
           | Inr wire \<Rightarrow>
               let s2 = s1\<lparr>ru_pending := Some (p\<lparr>pd_request := Some wire\<rparr>)\<rparr>
               in case sendThrows of
                    Some e \<Rightarrow> failSend i ctx e s2
                  | None \<Rightarrow> s2)"

section \<open>Events\<close>

datatype ('c, 'e) runner_event =
    Receive bytes
  | Transact 'e transport 'c "'e + bytes" "int option" "'e option"
  | WriteStarted nat 'c
  | SendComplete nat 'c
  | SendFailed nat 'c 'e
  | TimerFires nat 'c
  | Cancel "'e transaction_status option"

text \<open>The transmit callbacks belong to an earlier call of \<open>transact\<close> and carry its context; a
  timer fires only while it is active, and is then gone.\<close>

definition own_callback :: "('c, 'e) runner \<Rightarrow> nat \<Rightarrow> 'c \<Rightarrow> bool" where
  "own_callback s i ctx \<longleftrightarrow> i < ru_next s \<and>
     (case ru_pending s of None \<Rightarrow> True | Some p \<Rightarrow> pd_id p = i \<longrightarrow> pd_context p = ctx)"

inductive runner_step :: "('c, 'e) runner \<Rightarrow> ('c, 'e) runner_event \<Rightarrow> ('c, 'e) runner \<Rightarrow> bool" where
  step_receive: "runner_step s (Receive bs) (receive bs s)"
| step_transact: "runner_step s (Transact busy tr ctx w len th) (transact busy tr ctx w len th s)"
| step_started: "own_callback s i ctx \<Longrightarrow> runner_step s (WriteStarted i ctx) (startTimeout ctx s)"
| step_complete: "own_callback s i ctx \<Longrightarrow> runner_step s (SendComplete i ctx) (startTimeout ctx s)"
| step_failed: "own_callback s i ctx \<Longrightarrow> runner_step s (SendFailed i ctx e) (failSend i ctx e s)"
| step_timer: "(i, ctx) \<in> ru_timers s \<Longrightarrow>
    runner_step s (TimerFires i ctx)
      (snd (cancelForContext ctx (Some TimeoutStatus) (s\<lparr>ru_timers := ru_timers s - {(i, ctx)}\<rparr>)))"
| step_cancel: "runner_step s (Cancel st) (snd (cancel st s))"

inductive runner_reachable :: "('c, 'e) runner \<Rightarrow> bool" where
  reach_new: "runner_reachable runner_new"
| reach_step: "runner_reachable s \<Longrightarrow> runner_step s ev s' \<Longrightarrow> runner_reachable s'"

inductive_cases runner_stepE: "runner_step s ev s'"

section \<open>The invariant\<close>

definition runner_inv :: "('c, 'e) runner \<Rightarrow> bool" where
  "runner_inv s \<longleftrightarrow>
     length (ru_rx s) \<le> 255 \<and>
     (\<forall>i. (i < ru_next s) = (ru_settled s i \<noteq> None \<or> (\<exists>p. ru_pending s = Some p \<and> pd_id p = i))) \<and>
     (case ru_pending s of
        None \<Rightarrow> ru_rx s = [] \<and> ru_timers s = {}
      | Some p \<Rightarrow> ru_settled s (pd_id p) = None \<and> pd_timer p = pd_started p \<and>
          ru_timers s = (if pd_timer p then {(pd_id p, pd_context p)} else {}) \<and>
          (\<not> pd_started p \<longrightarrow> ru_rx s = [])) \<and>
     (\<forall>a \<in> set (ru_log s). response_matches (ac_transport a) (ac_wire a) (ac_frame a) (ac_response a) \<and>
        parseFrame (ac_transport a) (ac_frame a) = Some (ac_response a) \<and>
        ru_settled s (ac_id a) = Some (Some (ac_response a))) \<and>
     (\<forall>i r. ru_settled s i = Some (Some r) \<longrightarrow> (\<exists>a \<in> set (ru_log s). ac_id a = i \<and> ac_response a = r)) \<and>
     distinct (map ac_id (ru_log s))"

lemma runner_inv_new: "runner_inv runner_new"
  by (simp add: runner_inv_def runner_new_def)

lemma length_retain: "length (retainIncompleteAdu r) \<le> 255"
  by (simp add: retainIncompleteAdu_def MAX_MODBUS_TRANSACTION_RX_BYTES_def)

lemma find_match_Some:
  "find_match tr req frames = Some (f, r) \<Longrightarrow>
    f \<in> set frames \<and> parseFrame tr f = Some r \<and> (\<exists>wire. req = Some wire \<and> response_matches tr wire f r)"
  by (induction tr req frames rule: find_match.induct) (auto split: option.splits if_splits)

lemma settle_fields [simp]:
  "ru_rx (settle i v s) = ru_rx s" "ru_pending (settle i v s) = ru_pending s" "ru_next (settle i v s) = ru_next s"
  "ru_statuses (settle i v s) = ru_statuses s" "ru_timers (settle i v s) = ru_timers s" "ru_log (settle i v s) = ru_log s"
  by (simp_all add: settle_def)

lemma settle_settled: "ru_settled (settle i v s) = (if ru_settled s i = None then (ru_settled s)(i := Some v) else ru_settled s)"
  by (simp add: settle_def)

lemma receive_loop_stop: "ru_pending s = None \<Longrightarrow> receive_loop bs s = s"
  by (subst receive_loop.simps) simp

lemma settle_response_inv:
  assumes "runner_inv s" "ru_pending s = Some p" "response_matches (pd_transport p) wire f r"
    "parseFrame (pd_transport p) f = Some r"
  shows "runner_inv (settle (pd_id p) (Some r) (s\<lparr>ru_rx := [], ru_pending := None,
      ru_timers := ru_timers s - {(pd_id p, pd_context p)},
      ru_log := ru_log s @ [\<lparr>ac_id = pd_id p, ac_transport = pd_transport p, ac_wire = wire,
        ac_frame = f, ac_response = r\<rparr>]\<rparr>))"
proof -
  have n: "ru_settled s (pd_id p) = None" using assms(1,2) by (simp add: runner_inv_def)
  then have "pd_id p \<notin> set (map ac_id (ru_log s))" using assms(1) by (auto simp: runner_inv_def)
  with n assms show ?thesis
    by (auto simp: runner_inv_def settle_settled split: if_splits)
qed

lemma receive_loop_inv: "runner_inv s \<Longrightarrow> runner_inv (receive_loop bs s)"
proof (induction bs s rule: receive_loop.induct)
  case (1 bs s)
  show ?case
  proof (cases "bs = [] \<or> ru_pending s = None \<or> (\<exists>p. ru_pending s = Some p \<and> \<not> pd_started p)")
    case True
    then have "receive_loop bs s = s" by (subst receive_loop.simps) (auto split: option.splits)
    with "1.prems" show ?thesis by simp
  next
    case False
    then obtain p where p: "bs \<noteq> []" "ru_pending s = Some p" "pd_started p" by auto
    define r where "r = scanResponse (pd_transport p) (ru_rx s @ take MODBUS_RX_PROCESS_CHUNK_BYTES bs)
      (map_option js_int (pd_expectedLen p))"
    let ?s1 = "s\<lparr>ru_rx := retainIncompleteAdu (sr_remainder r)\<rparr>"
    have i1: "runner_inv ?s1" using "1.prems" p length_retain by (simp add: runner_inv_def)
    show ?thesis
    proof (cases "find_match (pd_transport p) (pd_request p) (sr_frames r)")
      case None
      with p have "receive_loop bs s = receive_loop (drop MODBUS_RX_PROCESS_CHUNK_BYTES bs) ?s1"
        by (subst receive_loop.simps) (simp add: r_def Let_def)
      moreover have "runner_inv (receive_loop (drop MODBUS_RX_PROCESS_CHUNK_BYTES bs) ?s1)"
        using "1.IH"(1) [OF p(1,2) _ refl refl r_def refl] None p i1 by simp
      ultimately show ?thesis by simp
    next
      case (Some fr)
      obtain f resp where fr: "fr = (f, resp)" by fastforce
      obtain wire where w: "pd_request p = Some wire" "response_matches (pd_transport p) wire f resp"
        "parseFrame (pd_transport p) f = Some resp"
        using find_match_Some [OF Some [unfolded fr]] by blast
      let ?s2 = "settle (pd_id p) (Some resp) (?s1\<lparr>ru_rx := [], ru_pending := None,
        ru_timers := ru_timers ?s1 - {(pd_id p, pd_context p)},
        ru_log := ru_log ?s1 @ [\<lparr>ac_id = pd_id p, ac_transport = pd_transport p, ac_wire = wire,
          ac_frame = f, ac_response = resp\<rparr>]\<rparr>)"
      have "receive_loop bs s = receive_loop (drop MODBUS_RX_PROCESS_CHUNK_BYTES bs) ?s2"
        using p Some fr w(1) by (subst receive_loop.simps) (simp add: r_def Let_def)
      also have "\<dots> = ?s2" by (rule receive_loop_stop) simp
      finally show ?thesis using settle_response_inv [OF i1, of p wire f resp] p w by simp
    qed
  qed
qed

lemma receive_inv: "runner_inv s \<Longrightarrow> runner_inv (receive bs s)"
  using receive_loop_inv [of s bs] by (auto simp: receive_def runner_inv_def split: option.splits)

lemma cancel_inv: "runner_inv s \<Longrightarrow> runner_inv (snd (cancel st s))"
  by (cases "ru_pending s") (auto simp: cancel_def runner_inv_def settle_settled split: if_splits)

lemma cancelForContext_inv: "runner_inv s \<Longrightarrow> runner_inv (snd (cancelForContext ctx st s))"
  using cancel_inv [of s st] by (auto simp: cancelForContext_def split: option.splits)

lemma settle_null_inv:
  "runner_inv s \<Longrightarrow> i < ru_next s \<Longrightarrow> \<forall>p. ru_pending s = Some p \<longrightarrow> pd_id p \<noteq> i \<Longrightarrow> runner_inv (settle i None s)"
  by (auto simp: runner_inv_def settle_settled split: option.splits if_splits)

lemma failSend_inv:
  assumes "runner_inv s" "own_callback s i ctx"
  shows "runner_inv (failSend i ctx e s)"
proof (cases "\<exists>p. ru_pending s = Some p \<and> pd_context p = ctx")
  case True
  then have "failSend i ctx e s = snd (cancel (Some (ErrorStatus e)) s)"
    by (auto simp: failSend_def cancelForContext_def cancel_def)
  with cancel_inv [OF assms(1)] show ?thesis by simp
next
  case False
  then have "failSend i ctx e s = settle i None s"
    by (auto simp: failSend_def cancelForContext_def split: option.splits)
  moreover have "\<forall>p. ru_pending s = Some p \<longrightarrow> pd_id p \<noteq> i" using assms(2) False by (auto simp: own_callback_def)
  ultimately show ?thesis using settle_null_inv [OF assms(1)] assms(2) by (simp add: own_callback_def)
qed

lemma startTimeout_inv: "runner_inv s \<Longrightarrow> runner_inv (startTimeout ctx s)"
  by (cases "ru_pending s") (auto simp: startTimeout_def runner_inv_def)

lemma transact_inv:
  assumes "runner_inv s"
  shows "runner_inv (transact busy tr ctx w len th s)"
proof (cases "ru_pending s")
  case (Some p)
  have "ru_settled s (ru_next s) = None" using assms by (auto simp: runner_inv_def)
  moreover have "pd_id p < ru_next s" using assms Some by (auto simp: runner_inv_def)
  ultimately show ?thesis using assms Some
    by (auto simp: transact_def Let_def runner_inv_def settle_settled less_Suc_eq split: if_splits)
next
  case None
  let ?p = "\<lparr>pd_id = ru_next s, pd_context = ctx, pd_timer = False, pd_started = False,
    pd_expectedLen = len, pd_transport = tr, pd_request = None\<rparr>"
  have new: "ru_settled s (ru_next s) = None" using assms by (auto simp: runner_inv_def)
  have swap: "s\<lparr>ru_next := n, ru_pending := q, ru_rx := []\<rparr> = s\<lparr>ru_next := n, ru_rx := [], ru_pending := q\<rparr>" for n q
    by (rule runner.equality) simp_all
  define sq where "sq q = s\<lparr>ru_next := ru_next s + 1, ru_pending := Some (?p\<lparr>pd_request := q\<rparr>), ru_rx := []\<rparr>" for q
  have i: "runner_inv (sq q)" for q
    using assms None new by (auto simp: runner_inv_def less_Suc_eq sq_def)
  have own: "own_callback (sq q) (ru_next s) ctx" for q
    by (simp add: own_callback_def sq_def)
  have "transact busy tr ctx w len th s = (case w of Inl e \<Rightarrow> failSend (ru_next s) ctx e (sq None)
    | Inr wire \<Rightarrow> (case th of Some e \<Rightarrow> failSend (ru_next s) ctx e (sq (Some wire)) | None \<Rightarrow> sq (Some wire)))"
    using None by (auto simp: transact_def Let_def sq_def swap split: sum.splits option.splits)
  then show ?thesis
    by (auto split: sum.splits option.splits intro: i failSend_inv own)
qed

lemma timer_inv:
  assumes "runner_inv s" "(i, ctx) \<in> ru_timers s"
  shows "runner_inv (snd (cancelForContext ctx (Some TimeoutStatus) (s\<lparr>ru_timers := ru_timers s - {(i, ctx)}\<rparr>))) \<and>
    ru_settled (snd (cancelForContext ctx (Some TimeoutStatus) (s\<lparr>ru_timers := ru_timers s - {(i, ctx)}\<rparr>))) i = Some None"
proof -
  obtain p where p: "ru_pending s = Some p" "pd_id p = i" "pd_context p = ctx" "ru_settled s i = None"
    using assms by (auto simp: runner_inv_def split: option.splits if_splits)
  then have "snd (cancelForContext ctx (Some TimeoutStatus) (s\<lparr>ru_timers := ru_timers s - {(i, ctx)}\<rparr>))
    = snd (cancel (Some TimeoutStatus) s)"
    by (simp add: cancelForContext_def cancel_def settle_def)
  moreover have "ru_settled (snd (cancel (Some TimeoutStatus) s)) i = Some None"
    using p by (simp add: cancel_def settle_settled)
  ultimately show ?thesis using cancel_inv [OF assms(1)] by simp
qed

lemma runner_step_inv:
  assumes "runner_step s ev s'" "runner_inv s"
  shows "runner_inv s'"
  using assms
  by (induction rule: runner_step.induct)
    (simp_all add: receive_inv transact_inv startTimeout_inv failSend_inv timer_inv cancel_inv)

lemma runner_reachable_inv: "runner_reachable s \<Longrightarrow> runner_inv s"
  by (induction rule: runner_reachable.induct) (auto intro: runner_inv_new runner_step_inv)

section \<open>A reply completes its request\<close>

lemma receive_one_reply:
  assumes "ru_pending s = Some p" "pd_started p" "pd_request p = Some wire" "ru_rx s = []" "ru_settled s (pd_id p) = None"
    and "reply \<noteq> []" "length reply \<le> 4096"
    and "scanResponse (pd_transport p) reply (map_option js_int (pd_expectedLen p)) = \<lparr>sr_frames = [reply], sr_remainder = []\<rparr>"
    and "parseFrame (pd_transport p) reply = Some r" "response_matches (pd_transport p) wire reply r"
  shows "ru_settled (receive reply s) (pd_id p) = Some (Some r) \<and> ru_pending (receive reply s) = None"
proof -
  have "drop MODBUS_RX_PROCESS_CHUNK_BYTES reply = []" "take MODBUS_RX_PROCESS_CHUNK_BYTES reply = reply"
    using assms(7) by (simp_all add: MODBUS_RX_PROCESS_CHUNK_BYTES_def)
  then have "receive reply s = settle (pd_id p) (Some r) (s\<lparr>ru_rx := [], ru_pending := None,
      ru_timers := ru_timers s - {(pd_id p, pd_context p)},
      ru_log := ru_log s @ [\<lparr>ac_id = pd_id p, ac_transport = pd_transport p, ac_wire = wire,
        ac_frame = reply, ac_response = r\<rparr>]\<rparr>)"
    using assms unfolding receive_def
    by (simp add: receive_loop.simps [of reply] receive_loop.simps [of "[]"] Let_def)
  then show ?thesis using assms(5) by (simp add: settle_settled)
qed

lemma read_reply_matches:
  assumes "readRequest RTU slave fc start cnt = Inr wire" "fc = 3 \<or> fc = 4" "0 \<le> slave" "slave < 256"
    and "length ws = nat (js_floor cnt)"
  shows "response_matches RTU wire reply (ReadRegs slave fc ws)"
proof -
  obtain pdu where pdu: "buildReadRequestPdu fc start cnt = Inr pdu" "wire = withCrc (to_byte slave # pdu)"
    using assms(1) by (auto simp: readRequest_def bind_ok_eq_Inr frameRequest_def js_and_lit)
  have b: "u16 (js_floor start)" "1 \<le> js_floor cnt" "js_floor cnt \<le> 125"
    "pdu = to_byte fc # be16 (js_floor start) @ be16 (js_floor cnt)"
    using pdu(1) assms(2) by (auto simp: buildReadRequestPdu_def assertU16_eq assertQuantity_eq
        quantity_arg_def limit_readRegisters_def isBitFc_def u16_arg split: if_splits)
  have c: "u16 (js_floor cnt)" using b(2,3) by (auto simp: u16_def)
  have w: "drop 1 (take (length wire - 2) wire) = pdu" "wire ! 0 = to_byte slave" by (simp_all add: pdu(2) withCrc_eq)
  have "int (length ws) = be_word (pdu ! 3) (pdu ! 4)"
    using assms(5) b c be16_word [OF c] by (simp add: be16_eq)
  then show ?thesis using assms(2-4) b w
    by (auto simp: response_matches_def Let_def)
qed

section \<open>Properties\<close>

text \<open>C35. Whatever the order of received bytes, transmit callbacks, timers, cancellations and new
  requests: at most 255 receive bytes are retained; every transaction ever started is either
  settled or is the single pending one (so none is forgotten); a timer is active exactly while
  the pending request has been sent; and a transaction settles with a response only if that
  response was parsed from a received frame that matches the transaction's own request, at most
  once.\<close>

theorem runner_safety:
  assumes "runner_reachable s"
  shows "length (ru_rx s) \<le> 255 \<and>
    (\<forall>i. i < ru_next s \<longleftrightarrow> (ru_settled s i \<noteq> None \<or> (\<exists>p. ru_pending s = Some p \<and> pd_id p = i))) \<and>
    (case ru_pending s of None \<Rightarrow> ru_rx s = [] \<and> ru_timers s = {}
      | Some p \<Rightarrow> ru_settled s (pd_id p) = None \<and>
          ru_timers s = (if pd_started p then {(pd_id p, pd_context p)} else {})) \<and>
    (\<forall>i r. ru_settled s i = Some (Some r) \<longrightarrow> (\<exists>a \<in> set (ru_log s). ac_id a = i \<and> ac_response a = r \<and>
        parseFrame (ac_transport a) (ac_frame a) = Some r \<and>
        response_matches (ac_transport a) (ac_wire a) (ac_frame a) r)) \<and>
    distinct (map ac_id (ru_log s))"
proof -
  note i = runner_reachable_inv [OF assms]
  have "\<exists>a \<in> set (ru_log s). ac_id a = j \<and> ac_response a = r \<and>
        parseFrame (ac_transport a) (ac_frame a) = Some r \<and>
        response_matches (ac_transport a) (ac_wire a) (ac_frame a) r" if "ru_settled s j = Some (Some r)" for j r
    using i that unfolding runner_inv_def by metis
  then show ?thesis using i by (auto simp: runner_inv_def split: option.splits)
qed

text \<open>The server's reply to a pending register read completes it: when the request has been
  sent and the reply arrives, the transaction settles with the words stored at the requested
  addresses and the runner is free for the next request.\<close>

theorem reply_completes_read:
  assumes "runner_reachable s" "ru_pending s = Some p" "pd_started p" "pd_transport p = RTU" "ru_rx s = []"
    and "pd_request p = Some wire" "readRequest RTU slave fc start cnt = Inr wire" "fc = 3 \<or> fc = 4"
    and "0 \<le> slave" "slave < 256" "\<And>i. u16 (regs i)" "rtu_server regs coils slave wire = Some reply"
  shows "ru_settled (receive reply s) (pd_id p) =
      Some (Some (ReadRegs slave fc (map (\<lambda>i. regs (js_floor start + int i)) [0..<nat (js_floor cnt)]))) \<and>
    ru_pending (receive reply s) = None"
proof -
  let ?ws = "map (\<lambda>i. regs (js_floor start + int i)) [0..<nat (js_floor cnt)]"
  let ?e = "map_option js_int (pd_expectedLen p)"
  have t: "scanResponse RTU reply ?e = \<lparr>sr_frames = [reply], sr_remainder = []\<rparr>"
    "parseFrame RTU reply = Some (ReadRegs slave fc ?ws)"
    using read_transaction_ok [where regs = regs and coils = coils and e = ?e, OF assms(7,9,10,11)] assms(8,12)
    by (auto simp: serve_read_def Let_def comp_def)
  have l: "verifyCrc reply \<and> length reply \<le> 255"
  proof -
    have "list_all (\<lambda>f. verifyCrc f \<and> rtuResponseLength f 0 = Some (length f)) (sr_frames (scanResponse RTU reply ?e))"
      using scan_frames_ok by blast
    then show ?thesis unfolding t(1) using rtu_length_bounds by fastforce
  qed
  then have "reply \<noteq> []" "length reply \<le> 4096" by (auto simp: verifyCrc_def)
  moreover have "ru_settled s (pd_id p) = None"
    using runner_reachable_inv [OF assms(1)] assms(2) by (simp add: runner_inv_def)
  moreover have "response_matches RTU wire reply (ReadRegs slave fc ?ws)"
    using assms(7-10) by (intro read_reply_matches) simp_all
  ultimately show ?thesis
    using receive_one_reply [OF assms(2,3,6,5)] t assms(4) by simp
qed

section \<open>Witnesses\<close>

definition runner_after_send :: "bytes \<Rightarrow> (string, string) runner" where
  "runner_after_send wire = startTimeout ''read'' (transact ''busy'' RTU ''read'' (Inr wire) None None runner_new)"

lemma runner_after_send_reachable: "runner_reachable (runner_after_send wire)"
proof -
  let ?t = "transact ''busy'' RTU ''read'' (Inr wire) None None runner_new :: (string, string) runner"
  have t: "runner_reachable ?t" by (rule reach_step [OF reach_new step_transact])
  have "own_callback ?t 0 ''read''" by (simp add: own_callback_def transact_def runner_new_def)
  from reach_step [OF t step_started [OF this]] show ?thesis by (simp add: runner_after_send_def)
qed

lemma runner_after_send_fields:
  "ru_pending (runner_after_send wire) = Some \<lparr>pd_id = 0, pd_context = ''read'', pd_timer = True, pd_started = True,
     pd_expectedLen = None, pd_transport = RTU, pd_request = Some wire\<rparr>"
  "ru_rx (runner_after_send wire) = []"
  by (simp_all add: runner_after_send_def startTimeout_def transact_def runner_new_def Let_def)

theorem runner_safety_witness: "length (ru_rx (receive [1, 2, 3] (runner_after_send [1, 3, 0, 0, 0, 1]))) \<le> 255"
  using runner_safety [OF reach_step [OF runner_after_send_reachable step_receive]] by blast

theorem reply_completes_read_witness:
  "\<exists>wire reply. readRequest RTU 17 3 (js_int 107) (js_int 3) = Inr wire \<and>
     rtu_server (\<lambda>i. i mod 65536) (\<lambda>_. False) 17 wire = Some reply \<and>
     ru_settled (receive reply (runner_after_send wire)) 0
       = Some (Some (ReadRegs 17 3 (map (\<lambda>i. (107 + int i) mod 65536) [0..<3])))"
proof -
  obtain f where f: "readRequest RTU 17 3 (js_int 107) (js_int 3) = Inr f"
    by (simp add: readRequest_def buildReadRequestPdu_def assertU16_eq assertQuantity_eq u16_arg_def
        quantity_arg_def isReadFc_def isBitFc_def limit_readRegisters_def)
  have u: "u16 (i mod 65536)" for i by (simp add: u16_def)
  obtain reply where r: "rtu_server (\<lambda>i. i mod 65536) (\<lambda>_. False) 17 f = Some reply"
    using read_transaction_ok [where regs = "\<lambda>i. i mod 65536" and coils = "\<lambda>_. False" and e = None, OF f _ _ u] by auto
  show ?thesis
    using reply_completes_read [where regs = "\<lambda>i. i mod 65536", OF runner_after_send_reachable
        runner_after_send_fields(1) _ _ runner_after_send_fields(2) _ f _ _ _ u r] f r
    by auto
qed

end
