(* ===== verification/ModbusPolling.thy ===== *)
theory ModbusPolling
  imports ModbusRequests ModbusRunner Machine
begin

text \<open>
  What keeps a failing Modbus poll from hammering the bus: the exponential backoff
  (\<open>modbus-backoff.ts\<close>) and the accounting of periodic outcomes
  (\<open>modbus-periodic-outcome.ts\<close>).

  Delays are computed over the rationals; where double arithmetic would overflow to infinity the
  cap applies in both.  The tracker's entry key joins scope and key with a colon; the scopes
  \<open>read\<close> and \<open>write\<close> make that injective, so the model keeps the pair.
\<close>

section \<open>Backoff\<close>

definition positiveInteger :: "jsnum option \<Rightarrow> int \<Rightarrow> int" where
  "positiveInteger v fallback =
     (case v of None \<Rightarrow> fallback
      | Some n \<Rightarrow> (case js_rat n of None \<Rightarrow> fallback | Some r \<Rightarrow> if r \<le> 0 then fallback else max 1 \<lfloor>r\<rfloor>))"

definition positiveNumber :: "jsnum option \<Rightarrow> rat \<Rightarrow> rat" where
  "positiveNumber v fallback =
     (case v of None \<Rightarrow> fallback
      | Some n \<Rightarrow> (case js_rat n of None \<Rightarrow> fallback | Some r \<Rightarrow> if r \<le> 0 then fallback else r))"

record backoff_options =
  bo_failureThreshold :: "jsnum option"
  bo_multiplier :: "jsnum option"
  bo_maxDelayMs :: "jsnum option"

record backoff =
  bk_failures :: nat
  bk_threshold :: int
  bk_multiplier :: rat
  bk_maxDelay :: int

definition new_backoff :: "backoff_options \<Rightarrow> backoff" where
  "new_backoff opts = \<lparr>bk_failures = 0, bk_threshold = positiveInteger (bo_failureThreshold opts) 2,
     bk_multiplier = positiveNumber (bo_multiplier opts) 2, bk_maxDelay = positiveInteger (bo_maxDelayMs opts) 30000\<rparr>"

definition recordFailure :: "backoff \<Rightarrow> backoff" where
  "recordFailure b = b\<lparr>bk_failures := bk_failures b + 1\<rparr>"

definition reset_backoff :: "backoff \<Rightarrow> backoff" where
  "reset_backoff b = b\<lparr>bk_failures := 0\<rparr>"

definition isBackingOff :: "backoff \<Rightarrow> bool" where
  "isBackingOff b \<longleftrightarrow> int (bk_failures b) \<ge> bk_threshold b"

definition js_round :: "rat \<Rightarrow> int" where
  "js_round r = \<lfloor>r + 1 / 2\<rfloor>"

definition delayFor :: "backoff \<Rightarrow> jsnum \<Rightarrow> int" where
  "delayFor b baseDelayMs =
     (let baseDelay = positiveInteger (Some baseDelayMs) 1 in
      if \<not> isBackingOff b then baseDelay
      else
        let exponent = nat (int (bk_failures b) - bk_threshold b + 1);
            delay = js_round (of_int baseDelay * bk_multiplier b ^ exponent)
        in min (max baseDelay (bk_maxDelay b)) (max baseDelay delay))"

lemma positiveInteger_pos: "1 \<le> d \<Longrightarrow> 1 \<le> positiveInteger v d"
  by (auto simp: positiveInteger_def split: option.splits)

lemma positiveNumber_pos: "0 < d \<Longrightarrow> 0 < positiveNumber v d"
  by (auto simp: positiveNumber_def split: option.splits)

lemma delay_exact: "isBackingOff b \<Longrightarrow>
    delayFor b base = min (max (positiveInteger (Some base) 1) (bk_maxDelay b))
      (max (positiveInteger (Some base) 1)
        (js_round (of_int (positiveInteger (Some base) 1) * bk_multiplier b ^ nat (int (bk_failures b) - bk_threshold b + 1))))"
  by (simp add: delayFor_def Let_def)

lemma js_round_int [simp]: "js_round (of_int n) = n" "js_round (numeral k) = numeral k"
proof -
  show *: "js_round (of_int n) = n" for n by (simp add: js_round_def floor_unique)
  show "js_round (numeral k) = numeral k" using * [of "numeral k"] by simp
qed

lemma js_round_mono: "x \<le> y \<Longrightarrow> js_round x \<le> js_round y"
  by (simp add: js_round_def floor_mono)

lemma delay_mono:
  assumes "1 \<le> bk_multiplier b"
  shows "delayFor b base \<le> delayFor (recordFailure b) base"
proof (cases "isBackingOff b")
  case False
  then show ?thesis by (simp add: delayFor_def Let_def)
next
  case True
  then have n: "isBackingOff (recordFailure b)" by (simp add: isBackingOff_def recordFailure_def)
  let ?B = "positiveInteger (Some base) 1"
  let ?e = "nat (int (bk_failures b) - bk_threshold b + 1)"
  have s: "nat (int (bk_failures (recordFailure b)) - bk_threshold (recordFailure b) + 1) = Suc ?e"
    using True by (simp add: recordFailure_def isBackingOff_def)
  have "0 \<le> ?B" using positiveInteger_pos [of 1 "Some base"] by simp
  then have "of_int ?B * bk_multiplier b ^ ?e \<le> of_int ?B * bk_multiplier b ^ Suc ?e"
    using assms by (intro mult_left_mono power_increasing) simp_all
  then have "js_round (of_int ?B * bk_multiplier b ^ ?e) \<le> js_round (of_int ?B * bk_multiplier b ^ Suc ?e)" by (rule js_round_mono)
  then show ?thesis unfolding delay_exact [OF True] delay_exact [OF n] s by (simp add: recordFailure_def)
qed

definition max_delay_for :: "backoff \<Rightarrow> jsnum \<Rightarrow> int" where
  "max_delay_for b base = max (positiveInteger (Some base) 1) (bk_maxDelay b)"

lemma delay_bounds: "positiveInteger (Some base) 1 \<le> delayFor b base \<and> delayFor b base \<le> max_delay_for b base"
  by (simp add: delayFor_def max_delay_for_def Let_def)

lemma multiplier_run: "bk_multiplier ((recordFailure ^^ n) b) = bk_multiplier b"
  by (induction n) (simp_all add: recordFailure_def)

lemma delay_mono_run:
  assumes "1 \<le> bk_multiplier b" "m \<le> n"
  shows "delayFor ((recordFailure ^^ m) b) base \<le> delayFor ((recordFailure ^^ n) b) base"
  using assms(2)
proof (induction rule: dec_induct)
  case (step n)
  then show ?case using delay_mono [of "(recordFailure ^^ n) b" base] assms(1) by (simp add: multiplier_run)
qed simp

lemma failures_run: "bk_failures ((recordFailure ^^ n) b) = bk_failures b + n \<and> bk_threshold ((recordFailure ^^ n) b) = bk_threshold b
    \<and> bk_maxDelay ((recordFailure ^^ n) b) = bk_maxDelay b"
  by (induction n) (simp_all add: recordFailure_def)

text \<open>The backoff is bounded and monotone.  Whatever the options and the base delay, after any
  number of consecutive failures the delay lies between the (sanitised) base delay and the larger of
  base and maximum; below the threshold it is the base delay itself; with a multiplier of at least one it never
  shrinks as failures add up; and a reset returns to the base delay.\<close>

theorem backoff_bounded_monotone:
  assumes "1 \<le> positiveNumber (bo_multiplier opts) 2" and "m \<le> n"
  shows "positiveInteger (Some base) 1 \<le> delayFor ((recordFailure ^^ n) (new_backoff opts)) base \<and>
    delayFor ((recordFailure ^^ n) (new_backoff opts)) base \<le> max (positiveInteger (Some base) 1) (positiveInteger (bo_maxDelayMs opts) 30000) \<and>
    (int n < positiveInteger (bo_failureThreshold opts) 2 \<longrightarrow>
      delayFor ((recordFailure ^^ n) (new_backoff opts)) base = positiveInteger (Some base) 1) \<and>
    delayFor ((recordFailure ^^ m) (new_backoff opts)) base \<le> delayFor ((recordFailure ^^ n) (new_backoff opts)) base \<and>
    delayFor (reset_backoff ((recordFailure ^^ n) (new_backoff opts))) base = positiveInteger (Some base) 1"
proof -
  let ?b = "(recordFailure ^^ n) (new_backoff opts)"
  have f: "bk_failures ?b = n" "bk_threshold ?b = positiveInteger (bo_failureThreshold opts) 2" "bk_maxDelay ?b = positiveInteger (bo_maxDelayMs opts) 30000"
    using failures_run [of n "new_backoff opts"] by (simp_all add: new_backoff_def)
  have "0 < positiveInteger (bo_failureThreshold opts) 2" using positiveInteger_pos [of 2 "bo_failureThreshold opts"] by simp
  then have "delayFor (reset_backoff ?b) base = positiveInteger (Some base) 1"
    by (simp add: delayFor_def reset_backoff_def isBackingOff_def f Let_def)
  moreover have "int n < positiveInteger (bo_failureThreshold opts) 2 \<longrightarrow> delayFor ?b base = positiveInteger (Some base) 1"
    by (simp add: delayFor_def isBackingOff_def f)
  moreover have "delayFor ((recordFailure ^^ m) (new_backoff opts)) base \<le> delayFor ?b base"
    by (rule delay_mono_run) (use assms in \<open>simp_all add: new_backoff_def\<close>)
  ultimately show ?thesis using delay_bounds [of base ?b] by (simp add: max_delay_for_def f)
qed

lemma backoff_bounded_monotone_witness:
  "delayFor ((recordFailure ^^ 3) (new_backoff \<lparr>bo_failureThreshold = None, bo_multiplier = None, bo_maxDelayMs = Some (Num 5000)\<rparr>)) (Num 1000) \<le> 5000"
  using backoff_bounded_monotone [of "\<lparr>bo_failureThreshold = None, bo_multiplier = None, bo_maxDelayMs = Some (Num 5000)\<rparr>" 1 3 "Num 1000"]
  by (simp add: positiveNumber_def positiveInteger_def)

section \<open>Periodic outcomes\<close>

record ('e) transaction_outcome =
  to_response :: "modbus_response option"
  to_failure :: "'e transaction_status option"

record backoff_status =
  bs_delayMs :: int
  bs_consecutiveFailures :: nat

record backoff_entry =
  be_backoff :: backoff
  be_nextAllowedAt :: int

record 'k outcome_tracker =
  ot_entries :: "periodic_scope \<times> 'k \<rightharpoonup> backoff_entry"
  ot_read :: backoff_options
  ot_write :: backoff_options

definition new_tracker :: "backoff_options \<Rightarrow> backoff_options \<Rightarrow> 'k outcome_tracker" where
  "new_tracker r w = \<lparr>ot_entries = Map.empty, ot_read = r, ot_write = w\<rparr>"

definition isCoolingDown :: "periodic_scope \<Rightarrow> 'k \<Rightarrow> int \<Rightarrow> 'k outcome_tracker \<Rightarrow> bool" where
  "isCoolingDown scope key now s =
     (case ot_entries s (scope, key) of None \<Rightarrow> False | Some e \<Rightarrow> be_nextAllowedAt e > now)"

definition resetKey :: "periodic_scope \<Rightarrow> 'k \<Rightarrow> 'k outcome_tracker \<Rightarrow> 'k outcome_tracker" where
  "resetKey scope key s = s\<lparr>ot_entries := (ot_entries s)((scope, key) := None)\<rparr>"

definition reset_tracker :: "'k outcome_tracker \<Rightarrow> 'k outcome_tracker" where
  "reset_tracker s = s\<lparr>ot_entries := Map.empty\<rparr>"

definition getConsecutiveFailures :: "periodic_scope \<Rightarrow> 'k \<Rightarrow> 'k outcome_tracker \<Rightarrow> nat" where
  "getConsecutiveFailures scope key s =
     (case ot_entries s (scope, key) of None \<Rightarrow> 0 | Some e \<Rightarrow> bk_failures (be_backoff e))"

definition isTrackablePeriodicFailure :: "'e transaction_status option \<Rightarrow> bool" where
  "isTrackablePeriodicFailure f = (case f of None \<Rightarrow> False | Some TimeoutStatus \<Rightarrow> True | Some (ErrorStatus _) \<Rightarrow> True)"

definition entryFor :: "periodic_scope \<Rightarrow> 'k \<Rightarrow> 'k outcome_tracker \<Rightarrow> backoff_entry" where
  "entryFor scope key s =
     (case ot_entries s (scope, key) of
        Some e \<Rightarrow> e
      | None \<Rightarrow> \<lparr>be_backoff = new_backoff (case scope of ReadScope \<Rightarrow> ot_read s | WriteScope \<Rightarrow> ot_write s), be_nextAllowedAt = 0\<rparr>)"

definition record_outcome :: "periodic_scope \<Rightarrow> 'k \<Rightarrow> 'e transaction_outcome \<Rightarrow> jsnum \<Rightarrow> bool \<Rightarrow> int \<Rightarrow>
    'k outcome_tracker \<Rightarrow> backoff_status option \<times> 'k outcome_tracker" where
  "record_outcome scope key outcome baseDelayMs trackFailure now s =
     (if to_response outcome \<noteq> None then (None, resetKey scope key s)
      else if \<not> trackFailure \<or> \<not> isTrackablePeriodicFailure (to_failure outcome) then (None, s)
      else
        let entry = entryFor scope key s;
            b = recordFailure (be_backoff entry)
        in if \<not> isBackingOff b then (None, s\<lparr>ot_entries := (ot_entries s)((scope, key) \<mapsto> entry\<lparr>be_backoff := b\<rparr>)\<rparr>)
           else
             let delayMs = delayFor b baseDelayMs in
             (Some \<lparr>bs_delayMs = delayMs, bs_consecutiveFailures = bk_failures b\<rparr>,
              s\<lparr>ot_entries := (ot_entries s)((scope, key) \<mapsto> entry\<lparr>be_backoff := b, be_nextAllowedAt := now + delayMs\<rparr>)\<rparr>))"

text \<open>One periodic batch finished: its scope and key, the outcome, the base delay, whether failures
  count now, and the time.\<close>

type_synonym ('k, 'e) poll_outcome = "periodic_scope \<times> 'k \<times> 'e transaction_outcome \<times> jsnum \<times> bool \<times> int"

fun track :: "('k, 'e) poll_outcome \<Rightarrow> 'k outcome_tracker \<Rightarrow> 'k outcome_tracker" where
  "track (scope, key, outcome, base, counted, now) s = snd (record_outcome scope key outcome base counted now s)"

text \<open>The specification, from the history alone: the number of counted failures of a batch since
  its last response, and the time from which it may run again.\<close>

definition after_failures :: "backoff_options \<Rightarrow> nat \<Rightarrow> backoff" where
  "after_failures opts n = (new_backoff opts)\<lparr>bk_failures := n\<rparr>"

fun history_of :: "backoff_options \<Rightarrow> periodic_scope \<times> 'k \<Rightarrow> ('k, 'e) poll_outcome list \<Rightarrow> nat \<times> int \<Rightarrow> nat \<times> int" where
  "history_of opts k [] acc = acc"
| "history_of opts k ((scope, key, outcome, base, counted, now) # es) (n, t) =
     history_of opts k es
       (if (scope, key) \<noteq> k then (n, t)
        else if to_response outcome \<noteq> None then (0, 0)
        else if counted \<and> to_failure outcome \<noteq> None then
          (n + 1, if bk_threshold (new_backoff opts) \<le> int (n + 1) then now + delayFor (after_failures opts (n + 1)) base else t)
        else (n, t))"

definition scope_options :: "periodic_scope \<Rightarrow> 'k outcome_tracker \<Rightarrow> backoff_options" where
  "scope_options scope s = (case scope of ReadScope \<Rightarrow> ot_read s | WriteScope \<Rightarrow> ot_write s)"

definition entry_history :: "periodic_scope \<Rightarrow> 'k \<Rightarrow> 'k outcome_tracker \<Rightarrow> nat \<times> int" where
  "entry_history scope key s = (bk_failures (be_backoff (entryFor scope key s)), be_nextAllowedAt (entryFor scope key s))"

definition tracker_ok :: "'k outcome_tracker \<Rightarrow> bool" where
  "tracker_ok s \<longleftrightarrow> (\<forall>scope key. be_backoff (entryFor scope key s) =
     after_failures (scope_options scope s) (bk_failures (be_backoff (entryFor scope key s))))"

lemma trackable: "isTrackablePeriodicFailure f \<longleftrightarrow> f \<noteq> None"
  by (auto simp: isTrackablePeriodicFailure_def split: option.splits transaction_status.splits)

lemma track_options: "ot_read (track e s) = ot_read s \<and> ot_write (track e s) = ot_write s"
  by (cases e) (simp add: record_outcome_def resetKey_def Let_def)

lemma track_scope_options [simp]: "scope_options scope (track e s) = scope_options scope s"
  using track_options [of e s] by (cases scope) (simp_all add: scope_options_def)

lemma new_entry: "ot_entries s (scope, key) = None \<Longrightarrow>
    entryFor scope key s = \<lparr>be_backoff = after_failures (scope_options scope s) 0, be_nextAllowedAt = 0\<rparr>"
  by (simp add: entryFor_def scope_options_def after_failures_def new_backoff_def)

lemma old_entry: "ot_entries s (scope, key) = Some e \<Longrightarrow> entryFor scope key s = e"
  by (simp add: entryFor_def)

lemma track_other:
  assumes "(sc, k) \<noteq> (scope, key)"
  shows "entryFor scope key (track (sc, k, r) s) = entryFor scope key s"
proof -
  have "ot_entries (track (sc, k, r) s) (scope, key) = ot_entries s (scope, key)"
    using assms by (cases r) (auto simp: record_outcome_def resetKey_def Let_def)
  then show ?thesis
    using track_options [of "(sc, k, r)" s] unfolding entryFor_def by (simp cong: option.case_cong periodic_scope.case_cong)
qed

lemma track_same:
  "entryFor scope key (track (scope, key, outcome, base, counted, now) s) =
     (if to_response outcome \<noteq> None then
        \<lparr>be_backoff = after_failures (scope_options scope s) 0, be_nextAllowedAt = 0\<rparr>
      else if counted \<and> to_failure outcome \<noteq> None then
        (let e = entryFor scope key s; b = recordFailure (be_backoff e)
         in if isBackingOff b then e\<lparr>be_backoff := b, be_nextAllowedAt := now + delayFor b base\<rparr> else e\<lparr>be_backoff := b\<rparr>)
      else entryFor scope key s)"
proof -
  consider (ok) "to_response outcome \<noteq> None" | (skip) "to_response outcome = None" "\<not> (counted \<and> to_failure outcome \<noteq> None)"
    | (hit) "to_response outcome = None" "counted" "to_failure outcome \<noteq> None" by blast
  then show ?thesis
  proof cases
    case ok
    have "ot_entries (resetKey scope key s) (scope, key) = None" by (simp add: resetKey_def)
    moreover have "scope_options scope (resetKey scope key s) = scope_options scope s"
      by (cases scope) (simp_all add: scope_options_def resetKey_def)
    ultimately have "entryFor scope key (resetKey scope key s) = \<lparr>be_backoff = after_failures (scope_options scope s) 0, be_nextAllowedAt = 0\<rparr>"
      by (simp add: new_entry)
    then show ?thesis using ok by (simp add: record_outcome_def)
  next
    case skip
    then show ?thesis by (auto simp: record_outcome_def trackable)
  next
    case hit
    show ?thesis
      by (rule trans [OF old_entry refl]) (use hit in \<open>simp add: record_outcome_def trackable Let_def\<close>)
  qed
qed

lemma recordFailure_after: "recordFailure (after_failures opts n) = after_failures opts (n + 1)"
  by (simp add: recordFailure_def after_failures_def)

lemma track_ok: "tracker_ok s \<Longrightarrow> tracker_ok (track e s)"
proof -
  assume ok: "tracker_ok s"
  obtain sc k outcome base counted now where e: "e = (sc, k, outcome, base, counted, now)" by (cases e) auto
  show ?thesis
    unfolding tracker_ok_def track_scope_options
  proof (intro allI)
    fix scope key
    note old = ok [unfolded tracker_ok_def, rule_format, of scope key]
    show "be_backoff (entryFor scope key (track e s)) =
      after_failures (scope_options scope s) (bk_failures (be_backoff (entryFor scope key (track e s))))"
    proof (cases "(sc, k) = (scope, key)")
      case False
      show ?thesis unfolding e track_other [OF False] by (rule old)
    next
      case True
      obtain n where n: "be_backoff (entryFor scope key s) = after_failures (scope_options scope s) n" using old by blast
      show ?thesis using True
        by (simp add: e track_same Let_def n recordFailure_after del: track.simps) (simp add: after_failures_def)
    qed
  qed
qed

interpretation tracker_safe: invariant_machine "runs_by track" "\<lambda>s. \<exists>r w. s = new_tracker r w" tracker_ok
proof unfold_locales
  fix s :: "'k outcome_tracker" assume "\<exists>r w. s = new_tracker r w"
  then show "tracker_ok s"
    by (auto simp: tracker_ok_def new_tracker_def entryFor_def scope_options_def after_failures_def new_backoff_def)
next
  fix s s' :: "'k outcome_tracker" and e assume "tracker_ok s" "runs_by track s e s'"
  then show "tracker_ok s'" by (simp add: runs_by_def track_ok)
qed

lemma history_step:
  assumes "tracker_ok s"
  shows "history_of (scope_options scope s) (scope, key) (e # es) (entry_history scope key s) =
    history_of (scope_options scope s) (scope, key) es (entry_history scope key (track e s))"
proof -
  obtain sc k outcome base counted now where e: "e = (sc, k, outcome, base, counted, now)" by (cases e) auto
  obtain n where n: "be_backoff (entryFor scope key s) = after_failures (scope_options scope s) n"
    using assms unfolding tracker_ok_def by blast
  have b: "isBackingOff (after_failures opts m) \<longleftrightarrow> bk_threshold (new_backoff opts) \<le> int m" for opts m
    by (simp add: isBackingOff_def after_failures_def)
  have f: "bk_failures (after_failures opts m) = m" for opts m by (simp add: after_failures_def)
  show ?thesis
  proof (cases "(sc, k) = (scope, key)")
    case False
    then show ?thesis unfolding e entry_history_def track_other [OF False] by simp
  next
    case True
    then show ?thesis
      by (cases "to_failure outcome"; cases "to_response outcome"; cases counted)
        (simp_all add: e entry_history_def track_same Let_def n recordFailure_after b f del: track.simps)
  qed
qed

lemma run_history:
  "tracker_ok s \<Longrightarrow> entry_history scope key (run_events track es s) =
     history_of (scope_options scope s) (scope, key) es (entry_history scope key s)"
proof (induction es arbitrary: s)
  case (Cons e es)
  show ?case using Cons.IH [OF track_ok [OF Cons.prems, of e]] history_step [OF Cons.prems, of scope key e es] by simp
qed simp

lemma consecutive_history: "getConsecutiveFailures scope key s = fst (entry_history scope key s)"
  by (simp add: getConsecutiveFailures_def entry_history_def entryFor_def new_backoff_def split: option.split)

lemma cooling_history: "0 \<le> now \<Longrightarrow> isCoolingDown scope key now s \<longleftrightarrow> now < snd (entry_history scope key s)"
  by (simp add: isCoolingDown_def entry_history_def entryFor_def split: option.split)

text \<open>The tracker refines its history.  After any sequence of periodic outcomes of any batches,
  a batch's consecutive failures are the counted failures (timeout or error, while counting was on)
  since its last response, and the batch is cooling down exactly until the last counted failure at or
  above the threshold plus the backoff delay of that count; a response clears both, and outcomes of
  other batches or of the other scope never matter.\<close>

theorem tracker_reports_history:
  assumes "0 \<le> now"
  shows "getConsecutiveFailures ReadScope key (run_events track es (new_tracker r w)) = fst (history_of r (ReadScope, key) es (0, 0)) \<and>
    getConsecutiveFailures WriteScope key (run_events track es (new_tracker r w)) = fst (history_of w (WriteScope, key) es (0, 0)) \<and>
    isCoolingDown ReadScope key now (run_events track es (new_tracker r w)) = (now < snd (history_of r (ReadScope, key) es (0, 0))) \<and>
    isCoolingDown WriteScope key now (run_events track es (new_tracker r w)) = (now < snd (history_of w (WriteScope, key) es (0, 0)))"
proof -
  have ok: "tracker_ok (new_tracker r w)" by (rule tracker_safe.inv_start) blast
  have e: "entry_history scope key (new_tracker r w) = (0, 0)" for scope
    by (simp add: entry_history_def entryFor_def new_tracker_def new_backoff_def)
  have o1: "scope_options ReadScope (new_tracker r w) = r" "scope_options WriteScope (new_tracker r w) = w"
    by (simp_all add: scope_options_def new_tracker_def)
  show ?thesis
    by (simp add: consecutive_history cooling_history [OF assms] run_history [OF ok] o1 e)
qed

lemma tracker_reports_history_witness:
  "isCoolingDown ReadScope ''k'' 4000 (run_events track
      [(ReadScope, ''k'', \<lparr>to_response = None, to_failure = Some TimeoutStatus :: string transaction_status option\<rparr>, Num 1000, True, 100),
       (WriteScope, ''k'', \<lparr>to_response = None, to_failure = Some TimeoutStatus\<rparr>, Num 1000, True, 150),
       (ReadScope, ''k'', \<lparr>to_response = None, to_failure = Some (ErrorStatus ''x'')\<rparr>, Num 1000, True, 2100)]
      (new_tracker \<lparr>bo_failureThreshold = None, bo_multiplier = None, bo_maxDelayMs = None\<rparr>
         \<lparr>bo_failureThreshold = None, bo_multiplier = None, bo_maxDelayMs = None\<rparr>))"
  by (subst conjunct1 [OF conjunct2 [OF conjunct2 [OF tracker_reports_history]]])
    (simp_all add: after_failures_def new_backoff_def positiveInteger_def positiveNumber_def delayFor_def isBackingOff_def Let_def)

end
