(* ===== verification/SerialWriteScheduler.thy ===== *)
theory SerialWriteScheduler
  imports Machine
begin

text \<open>
  The transmit queue of one connection, \<open>serial-write-scheduler.ts\<close>.

  Operations are objects shared by the queue, \<open>activeOperation\<close> and the drain coroutine, so
  they live in a store \<open>ws_ops\<close> and are named by their index, which is the order of their
  creation.  The coroutine \<open>drain\<close> is suspended at one of two awaits; \<open>ws_tasks\<close> lists
  every suspended instance (the invariant shows there is at most one).  The driver, the
  admission gate, the \<open>onWriteStarted\<close> hook, abort signals and timers are events, with the
  value or exception they produce chosen by the environment.  A driver that throws
  synchronously is one that rejects at once.  Hooks do not call back into the scheduler.

  Two ghosts: \<open>ws_calls\<close> logs the chunks handed to the driver, \<open>ws_wire\<close> the bytes of those very chunks that the driver
  reported as written and the scheduler counted, in order.  A report that comes after a shutdown has settled its operation is
  ignored by the code and not counted.
\<close>

section \<open>Data\<close>

datatype send_outcome = CompleteOutcome | PartialOutcome | FailedOutcome | CancelledOutcome

record serial_error =
  er_code :: string
  er_messageKey :: string
  er_retryable :: bool
  er_operation :: string
  er_field :: "string option"

record send_result =
  rs_outcome :: send_outcome
  rs_requested :: nat
  rs_sent :: nat
  rs_error :: "serial_error option"

definition serialError :: "string \<Rightarrow> string \<Rightarrow> bool \<Rightarrow> string option \<Rightarrow> serial_error" where
  "serialError code key retryable field = \<lparr>er_code = code, er_messageKey = key, er_retryable = retryable,
     er_operation = ''serial_send'', er_field = field\<rparr>"

definition failed_result :: "nat \<Rightarrow> serial_error \<Rightarrow> send_result" where
  "failed_result n e = \<lparr>rs_outcome = FailedOutcome, rs_requested = n, rs_sent = 0, rs_error = Some e\<rparr>"

definition writeFailure :: "nat \<Rightarrow> nat \<Rightarrow> send_result" where
  "writeFailure n sent = \<lparr>rs_outcome = (if sent > 0 then PartialOutcome else FailedOutcome), rs_requested = n,
     rs_sent = sent, rs_error = Some (serialError ''SERIAL_PARTIAL_WRITE'' ''error.serial_partial_write'' False None)\<rparr>"

definition cancelled_result :: "nat \<Rightarrow> nat \<Rightarrow> send_result" where
  "cancelled_result n sent = \<lparr>rs_outcome = CancelledOutcome, rs_requested = n, rs_sent = sent,
     rs_error = Some (serialError ''CANCELLED'' ''error.cancelled'' False None)\<rparr>"

definition denied :: "nat \<Rightarrow> nat \<Rightarrow> send_result" where
  "denied n sent = \<lparr>rs_outcome = (if sent > 0 then PartialOutcome else FailedOutcome), rs_requested = n,
     rs_sent = sent, rs_error = Some (serialError ''SECURITY_DENIED'' ''error.security_denied'' False None)\<rparr>"

definition complete_result :: "nat \<Rightarrow> send_result" where
  "complete_result n = \<lparr>rs_outcome = CompleteOutcome, rs_requested = n, rs_sent = n, rs_error = None\<rparr>"

lemmas result_defs = failed_result_def writeFailure_def cancelled_result_def denied_def complete_result_def

record write_limits =
  lm_maxOperations :: nat
  lm_maxQueuedBytes :: nat
  lm_chunkBytes :: nat

definition DEFAULT_SERIAL_WRITE_LIMITS :: write_limits where
  "DEFAULT_SERIAL_WRITE_LIMITS = \<lparr>lm_maxOperations = 256, lm_maxQueuedBytes = 4 * 1024 * 1024, lm_chunkBytes = 4096\<rparr>"

text \<open>\<open>wo_admission\<close> is the owner of a host admission; \<open>wo_startThrows\<close> says whether
  the \<open>onWriteStarted\<close> hook throws.\<close>

record write_operation =
  wo_payload :: bytes
  wo_startThrows :: bool
  wo_admission :: "string option"
  wo_sent :: nat
  wo_settled :: bool
  wo_result :: "send_result option"

text \<open>A suspended coroutine with its variables: at the call of the driver the operation, \<open>logicalChunkEnd\<close> and the \<open>chunk\<close> it was given.\<close>

datatype drain_task = AwaitWrite nat nat bytes | AwaitResult nat send_result

record write_scheduler =
  ws_limits :: write_limits
  ws_ops :: "write_operation list"
  ws_queue :: "nat list"
  ws_active :: "nat option"
  ws_draining :: bool
  ws_accepting :: bool
  ws_outOps :: int
  ws_outBytes :: int
  ws_tasks :: "drain_task list"
  ws_waiters :: "nat list"
  ws_waited :: "(nat \<times> bool) list"
  ws_grace :: "nat list"
  ws_timedOut :: "bool list"
  ws_wire :: bytes
  ws_calls :: "(nat \<times> bytes) list"

definition positive_integer_limit :: "jsnum \<Rightarrow> bool" where
  "positive_integer_limit n \<longleftrightarrow> js_isInteger n \<and> 1 \<le> js_floor n"

definition scheduler_with :: "write_limits \<Rightarrow> write_scheduler" where
  "scheduler_with l = \<lparr>ws_limits = l, ws_ops = [], ws_queue = [], ws_active = None, ws_draining = False,
     ws_accepting = True, ws_outOps = 0, ws_outBytes = 0, ws_tasks = [], ws_waiters = [], ws_waited = [],
     ws_grace = [], ws_timedOut = [], ws_wire = [], ws_calls = []\<rparr>"

definition new_scheduler :: "jsnum \<Rightarrow> jsnum \<Rightarrow> jsnum \<Rightarrow> js_error + write_scheduler" where
  "new_scheduler maxOperations maxQueuedBytes chunkBytes =
     (if \<not> positive_integer_limit maxOperations \<or> \<not> positive_integer_limit maxQueuedBytes \<or>
         \<not> positive_integer_limit chunkBytes then Inl RangeError
      else Inr (scheduler_with \<lparr>lm_maxOperations = nat (js_floor maxOperations),
        lm_maxQueuedBytes = nat (js_floor maxQueuedBytes), lm_chunkBytes = nat (js_floor chunkBytes)\<rparr>))"

text \<open>The admission gate at the three places where it is asked in one synchronous run: absent,
  or a function that answers or throws (\<open>None\<close>).\<close>

type_synonym admission_gate = "(string \<Rightarrow> bool option) option"

record hooks =
  hk_enqueue :: admission_gate
  hk_start :: admission_gate
  hk_chunk :: admission_gate

definition authorized :: "admission_gate \<Rightarrow> string option \<Rightarrow> bool" where
  "authorized gate adm =
     (case gate of
        None \<Rightarrow> True
      | Some authorize \<Rightarrow>
          (case adm of
             None \<Rightarrow> False
           | Some owner \<Rightarrow> (case authorize owner of None \<Rightarrow> False | Some b \<Rightarrow> b)))"

section \<open>Operations\<close>

abbreviation op_at :: "write_scheduler \<Rightarrow> nat \<Rightarrow> write_operation" where
  "op_at s i \<equiv> ws_ops s ! i"

abbreviation op_len :: "write_scheduler \<Rightarrow> nat \<Rightarrow> nat" where
  "op_len s i \<equiv> length (wo_payload (op_at s i))"

definition write_isIdle :: "write_scheduler \<Rightarrow> bool" where
  "write_isIdle s \<longleftrightarrow> ws_queue s = [] \<and> ws_active s = None \<and> \<not> ws_draining s"

definition resolveIdleWaiters :: "write_scheduler \<Rightarrow> write_scheduler" where
  "resolveIdleWaiters s =
     (if \<not> write_isIdle s \<or> ws_waiters s = [] then s
      else s\<lparr>ws_waiters := [], ws_waited := ws_waited s @ map (\<lambda>w. (w, True)) (ws_waiters s)\<rparr>)"

definition settle_op :: "nat \<Rightarrow> send_result \<Rightarrow> write_scheduler \<Rightarrow> write_scheduler" where
  "settle_op i result s =
     (if wo_settled (op_at s i) then s
      else s\<lparr>ws_ops := (ws_ops s)[i := op_at s i\<lparr>wo_settled := True, wo_result := Some result\<rparr>],
             ws_outBytes := max 0 (ws_outBytes s - (int (op_len s i) - int (wo_sent (op_at s i)))),
             ws_outOps := max 0 (ws_outOps s - 1)\<rparr>)"

definition await_task :: "drain_task \<Rightarrow> write_scheduler \<Rightarrow> write_scheduler" where
  "await_task t s = s\<lparr>ws_tasks := ws_tasks s @ [t]\<rparr>"

text \<open>One turn of the inner loop, from its head to the call of the driver.\<close>

definition write_chunk :: "nat \<Rightarrow> nat \<Rightarrow> hooks \<Rightarrow> write_scheduler \<Rightarrow> write_scheduler" where
  "write_chunk i logicalEnd hk s =
     (let len = op_len s i; sent = wo_sent (op_at s i) in
      if wo_settled (op_at s i) then await_task (AwaitResult i (cancelled_result len sent)) s
      else if \<not> ws_accepting s then await_task (AwaitResult i (cancelled_result len sent)) s
      else if \<not> authorized (hk_chunk hk) (wo_admission (op_at s i)) then await_task (AwaitResult i (denied len sent)) s
      else
        let chunk = take (logicalEnd - sent) (drop sent (wo_payload (op_at s i)))
        in await_task (AwaitWrite i logicalEnd chunk) (s\<lparr>ws_calls := ws_calls s @ [(i, chunk)]\<rparr>))"

text \<open>The outer loop; the constructor made \<open>chunkBytes\<close> positive, so the inner loop runs.\<close>

definition write_loop :: "nat \<Rightarrow> hooks \<Rightarrow> write_scheduler \<Rightarrow> write_scheduler" where
  "write_loop i hk s =
     (let len = op_len s i; sent = wo_sent (op_at s i) in
      if sent < len then
        if \<not> ws_accepting s then await_task (AwaitResult i (cancelled_result len sent)) s
        else write_chunk i (min (sent + lm_chunkBytes (ws_limits s)) len) hk s
      else if sent \<noteq> len then await_task (AwaitResult i (writeFailure len sent)) s
      else await_task (AwaitResult i (complete_result len)) s)"

definition writeOperation :: "nat \<Rightarrow> hooks \<Rightarrow> write_scheduler \<Rightarrow> write_scheduler" where
  "writeOperation i hk s =
     (if \<not> authorized (hk_start hk) (wo_admission (op_at s i))
      then await_task (AwaitResult i (denied (op_len s i) (wo_sent (op_at s i)))) s
      else if wo_startThrows (op_at s i) then await_task (AwaitResult i (writeFailure (op_len s i) 0)) s
      else write_loop i hk s)"

text \<open>After the driver's promise: a number, or a rejection (\<open>None\<close>).\<close>

definition after_write :: "nat \<Rightarrow> nat \<Rightarrow> bytes \<Rightarrow> jsnum option \<Rightarrow> hooks \<Rightarrow> write_scheduler \<Rightarrow> write_scheduler" where
  "after_write i logicalEnd chunk written hk s =
     (let len = op_len s i; sent = wo_sent (op_at s i);
          failure = (if ws_accepting s then writeFailure len sent else cancelled_result len sent) in
      case written of
        None \<Rightarrow> await_task (AwaitResult i failure) s
      | Some w \<Rightarrow>
          if wo_settled (op_at s i) then await_task (AwaitResult i (cancelled_result len sent)) s
          else if \<not> js_isInteger w \<or> js_floor w \<le> 0 \<or> js_floor w > int (length chunk)
          then await_task (AwaitResult i failure) s
          else
            let n = nat (js_floor w);
                s' = s\<lparr>ws_ops := (ws_ops s)[i := op_at s i\<lparr>wo_sent := sent + n\<rparr>],
                       ws_outBytes := ws_outBytes s - int n,
                       ws_wire := ws_wire s @ take n chunk\<rparr>
            in if \<not> ws_accepting s' then await_task (AwaitResult i (cancelled_result len (sent + n))) s'
               else if sent + n < logicalEnd then write_chunk i logicalEnd hk s'
               else write_loop i hk s')"

text \<open>The loop of \<open>drain\<close> from its head to the next await, or to its end.\<close>

fun drain_loop :: "nat list \<Rightarrow> hooks \<Rightarrow> write_scheduler \<Rightarrow> write_scheduler" where
  "drain_loop [] hk s = resolveIdleWaiters (s\<lparr>ws_queue := [], ws_draining := False\<rparr>)"
| "drain_loop (i # q) hk s =
     (if wo_settled (op_at s i) then drain_loop q hk s
      else writeOperation i hk (s\<lparr>ws_queue := q, ws_active := Some i\<rparr>))"

definition drain :: "hooks \<Rightarrow> write_scheduler \<Rightarrow> write_scheduler" where
  "drain hk s = (if ws_draining s then s else drain_loop (ws_queue s) hk (s\<lparr>ws_draining := True\<rparr>))"

definition after_result :: "nat \<Rightarrow> send_result \<Rightarrow> hooks \<Rightarrow> write_scheduler \<Rightarrow> write_scheduler" where
  "after_result i result hk s =
     (let s1 = settle_op i result s;
          s2 = (if ws_active s1 = Some i then s1\<lparr>ws_active := None\<rparr> else s1)
      in drain_loop (ws_queue s2) hk s2)"

text \<open>\<open>enqueue\<close> gives a promise that is already resolved, or the one of a new operation.\<close>

definition enqueue :: "bytes \<Rightarrow> bool \<Rightarrow> string option \<Rightarrow> hooks \<Rightarrow> write_scheduler \<Rightarrow>
    (send_result + nat) \<times> write_scheduler" where
  "enqueue payload startThrows adm hk s =
     (if payload = [] then
        (Inl (failed_result 0 (serialError ''INVALID_INPUT'' ''error.invalid_input'' False (Some ''payload''))), s)
      else if \<not> ws_accepting s then (Inl (cancelled_result (length payload) 0), s)
      else if \<not> authorized (hk_enqueue hk) adm then (Inl (denied (length payload) 0), s)
      else if ws_outOps s \<ge> int (lm_maxOperations (ws_limits s)) \<or>
              ws_outBytes s + int (length payload) > int (lm_maxQueuedBytes (ws_limits s)) then
        (Inl (failed_result (length payload)
           (serialError ''SERIAL_QUEUE_FULL'' ''error.serial_queue_full'' True None)), s)
      else
        let i = length (ws_ops s);
            operation = \<lparr>wo_payload = payload, wo_startThrows = startThrows, wo_admission = adm,
              wo_sent = 0, wo_settled = False, wo_result = None\<rparr>
        in (Inr i, drain hk (s\<lparr>ws_ops := ws_ops s @ [operation], ws_queue := ws_queue s @ [i],
              ws_outOps := ws_outOps s + 1, ws_outBytes := ws_outBytes s + int (length payload)\<rparr>)))"

definition waitForIdle :: "nat \<Rightarrow> bool \<Rightarrow> write_scheduler \<Rightarrow> write_scheduler" where
  "waitForIdle w aborted s =
     (if write_isIdle s then s\<lparr>ws_waited := ws_waited s @ [(w, True)]\<rparr>
      else if aborted then s\<lparr>ws_waited := ws_waited s @ [(w, False)]\<rparr>
      else resolveIdleWaiters (s\<lparr>ws_waiters := ws_waiters s @ [w]\<rparr>))"

definition onAbort :: "nat \<Rightarrow> write_scheduler \<Rightarrow> write_scheduler" where
  "onAbort w s =
     (if w \<notin> set (ws_waiters s) then s
      else s\<lparr>ws_waiters := removeAll w (ws_waiters s), ws_waited := ws_waited s @ [(w, False)]\<rparr>)"

fun cancel_queued :: "nat list \<Rightarrow> write_scheduler \<Rightarrow> write_scheduler" where
  "cancel_queued [] s = s\<lparr>ws_queue := []\<rparr>"
| "cancel_queued (i # q) s =
     cancel_queued q (settle_op i (cancelled_result (op_len s i) 0) (s\<lparr>ws_queue := q\<rparr>))"

text \<open>\<open>shutdown\<close> up to its await; the race is between the active operation and the timer.\<close>

definition shutdown :: "write_scheduler \<Rightarrow> write_scheduler" where
  "shutdown s0 =
     (let s = cancel_queued (ws_queue s0) (s0\<lparr>ws_accepting := False\<rparr>) in
      case ws_active s of
        None \<Rightarrow> s\<lparr>ws_timedOut := ws_timedOut s @ [False]\<rparr>
      | Some i \<Rightarrow>
          if wo_settled (op_at s i) then s\<lparr>ws_timedOut := ws_timedOut s @ [False]\<rparr>
          else s\<lparr>ws_grace := ws_grace s @ [i]\<rparr>)"

definition graceCompleted :: "nat \<Rightarrow> write_scheduler \<Rightarrow> write_scheduler" where
  "graceCompleted i s = s\<lparr>ws_grace := remove1 i (ws_grace s), ws_timedOut := ws_timedOut s @ [False]\<rparr>"

definition graceExpired :: "nat \<Rightarrow> write_scheduler \<Rightarrow> write_scheduler" where
  "graceExpired i s =
     (let s1 = s\<lparr>ws_grace := remove1 i (ws_grace s)\<rparr>;
          s2 = (if \<not> wo_settled (op_at s1 i)
                then settle_op i (cancelled_result (op_len s1 i) (wo_sent (op_at s1 i))) s1 else s1)
      in s2\<lparr>ws_timedOut := ws_timedOut s2 @ [True]\<rparr>)"

record write_stats =
  st_outstandingOperations :: int
  st_outstandingBytes :: int
  st_queuedOperations :: nat
  st_active :: bool
  st_accepting :: bool

definition write_stats_of :: "write_scheduler \<Rightarrow> write_stats" where
  "write_stats_of s = \<lparr>st_outstandingOperations = ws_outOps s, st_outstandingBytes = ws_outBytes s,
     st_queuedOperations = length (ws_queue s), st_active = (ws_active s \<noteq> None), st_accepting = ws_accepting s\<rparr>"

section \<open>Events\<close>

datatype write_event =
    Enqueue bytes bool "string option" hooks
  | DriverReturns "jsnum option" hooks
  | OperationReturns hooks
  | Shutdown
  | GraceCompleted nat
  | GraceExpired nat
  | WaitForIdle nat bool
  | Abort nat

inductive sched_step :: "write_scheduler \<Rightarrow> write_event \<Rightarrow> write_scheduler \<Rightarrow> bool" where
  ws_enqueue: "sched_step s (Enqueue p th adm hk) (snd (enqueue p th adm hk s))"
| ws_driver: "k < length (ws_tasks s) \<Longrightarrow> ws_tasks s ! k = AwaitWrite i e c \<Longrightarrow>
    sched_step s (DriverReturns w hk)
      (after_write i e c w hk (s\<lparr>ws_tasks := take k (ws_tasks s) @ drop (Suc k) (ws_tasks s)\<rparr>))"
| ws_return: "k < length (ws_tasks s) \<Longrightarrow> ws_tasks s ! k = AwaitResult i r \<Longrightarrow>
    sched_step s (OperationReturns hk)
      (after_result i r hk (s\<lparr>ws_tasks := take k (ws_tasks s) @ drop (Suc k) (ws_tasks s)\<rparr>))"
| ws_shutdown: "sched_step s Shutdown (shutdown s)"
| ws_graceCompleted: "i \<in> set (ws_grace s) \<Longrightarrow> wo_settled (op_at s i) \<Longrightarrow> sched_step s (GraceCompleted i) (graceCompleted i s)"
| ws_graceExpired: "i \<in> set (ws_grace s) \<Longrightarrow> sched_step s (GraceExpired i) (graceExpired i s)"
| ws_wait: "sched_step s (WaitForIdle w b) (waitForIdle w b s)"
| ws_abort: "sched_step s (Abort w) (onAbort w s)"

inductive_cases sched_stepE: "sched_step s ev s'"

section \<open>The invariant\<close>

definition result_ok :: "write_operation \<Rightarrow> send_result \<Rightarrow> bool" where
  "result_ok v r \<longleftrightarrow> rs_requested r = length (wo_payload v) \<and> rs_sent r = wo_sent v \<and>
     (rs_outcome r = CompleteOutcome \<longrightarrow> wo_sent v = length (wo_payload v) \<and> rs_error r = None) \<and>
     (rs_outcome r = FailedOutcome \<longrightarrow> wo_sent v = 0) \<and>
     (rs_outcome r = PartialOutcome \<longrightarrow> 0 < wo_sent v \<and> wo_sent v < length (wo_payload v)) \<and>
     (rs_outcome r \<noteq> CompleteOutcome \<longrightarrow> rs_error r \<noteq> None)"

definition op_ok :: "write_operation \<Rightarrow> bool" where
  "op_ok v \<longleftrightarrow> wo_payload v \<noteq> [] \<and> wo_sent v \<le> length (wo_payload v) \<and>
     (if wo_settled v then \<exists>r. wo_result v = Some r \<and> result_ok v r else wo_result v = None)"

definition op_rest :: "write_operation \<Rightarrow> nat" where
  "op_rest v = (if wo_settled v then 0 else length (wo_payload v) - wo_sent v)"

definition op_open :: "write_operation \<Rightarrow> nat" where
  "op_open v = (if wo_settled v then 0 else 1)"

definition op_written :: "write_operation \<Rightarrow> bytes" where
  "op_written v = take (wo_sent v) (wo_payload v)"

definition accounts_ok :: "write_scheduler \<Rightarrow> bool" where
  "accounts_ok s \<longleftrightarrow> (\<forall>v \<in> set (ws_ops s). op_ok v) \<and>
     ws_outBytes s = int (sum_list (map op_rest (ws_ops s))) \<and>
     ws_outOps s = int (sum_list (map op_open (ws_ops s))) \<and>
     ws_outOps s \<le> int (lm_maxOperations (ws_limits s)) \<and> ws_outBytes s \<le> int (lm_maxQueuedBytes (ws_limits s)) \<and>
     1 \<le> lm_chunkBytes (ws_limits s)"

definition order_ok :: "write_scheduler \<Rightarrow> bool" where
  "order_ok s \<longleftrightarrow> sorted_wrt (<) (ws_queue s) \<and>
     (\<forall>j \<in> set (ws_queue s). j < length (ws_ops s) \<and> \<not> wo_settled (op_at s j)) \<and>
     (\<forall>k < length (ws_ops s). \<not> wo_settled (op_at s k) \<longrightarrow> k \<in> set (ws_queue s) \<or> ws_active s = Some k) \<and>
     (\<forall>i. ws_active s = Some i \<longrightarrow> i < length (ws_ops s) \<and> (\<forall>j \<in> set (ws_queue s). i < j) \<and>
        (wo_settled (op_at s i) \<longrightarrow> \<not> ws_accepting s)) \<and>
     (\<not> ws_accepting s \<longrightarrow> ws_queue s = []) \<and>
     (\<forall>k < length (ws_ops s). (ws_active s = None \<longrightarrow> (\<exists>j \<in> set (ws_queue s). j \<le> k) \<longrightarrow> wo_sent (op_at s k) = 0) \<and>
        (\<forall>i. ws_active s = Some i \<longrightarrow> i < k \<longrightarrow> wo_sent (op_at s k) = 0))"

definition call_ok :: "write_scheduler \<Rightarrow> nat \<times> bytes \<Rightarrow> bool" where
  "call_ok s c \<longleftrightarrow> (case c of (i, bs) \<Rightarrow> i < length (ws_ops s) \<and> bs \<noteq> [] \<and> length bs \<le> lm_chunkBytes (ws_limits s) \<and>
     (\<exists>a. bs = take (length bs) (drop a (wo_payload (op_at s i)))))"

definition traffic_ok :: "write_scheduler \<Rightarrow> bool" where
  "traffic_ok s \<longleftrightarrow> ws_wire s = concat (map op_written (ws_ops s)) \<and> (\<forall>c \<in> set (ws_calls s). call_ok s c)"

definition core_ok :: "write_scheduler \<Rightarrow> bool" where
  "core_ok s \<longleftrightarrow> accounts_ok s \<and> order_ok s \<and> traffic_ok s"

abbreviation chunk_at :: "write_scheduler \<Rightarrow> nat \<Rightarrow> nat \<Rightarrow> bytes" where
  "chunk_at s i e \<equiv> take (e - wo_sent (op_at s i)) (drop (wo_sent (op_at s i)) (wo_payload (op_at s i)))"

definition task_ok :: "write_scheduler \<Rightarrow> bool" where
  "task_ok s \<longleftrightarrow> (case ws_tasks s of
       [] \<Rightarrow> \<not> ws_draining s \<and> ws_queue s = [] \<and> ws_active s = None \<and> ws_waiters s = []
     | [AwaitWrite i e c] \<Rightarrow> ws_draining s \<and> ws_active s = Some i \<and> c = chunk_at s i e \<and> wo_sent (op_at s i) < e \<and> e \<le> op_len s i \<and>
         e \<le> wo_sent (op_at s i) + lm_chunkBytes (ws_limits s)
     | [AwaitResult i r] \<Rightarrow> ws_draining s \<and> ws_active s = Some i \<and>
         (\<not> wo_settled (op_at s i) \<longrightarrow> result_ok (op_at s i) r)
     | _ \<Rightarrow> False)"

definition write_inv :: "write_scheduler \<Rightarrow> bool" where
  "write_inv s \<longleftrightarrow> core_ok s \<and> task_ok s"

lemma task_ok_iff: "task_ok s \<longleftrightarrow>
     (ws_tasks s = [] \<and> \<not> ws_draining s \<and> ws_queue s = [] \<and> ws_active s = None \<and> ws_waiters s = []) \<or>
     (\<exists>i e. ws_tasks s = [AwaitWrite i e (chunk_at s i e)] \<and> ws_draining s \<and> ws_active s = Some i \<and> wo_sent (op_at s i) < e \<and>
        e \<le> op_len s i \<and> e \<le> wo_sent (op_at s i) + lm_chunkBytes (ws_limits s)) \<or>
     (\<exists>i r. ws_tasks s = [AwaitResult i r] \<and> ws_draining s \<and> ws_active s = Some i \<and>
        (\<not> wo_settled (op_at s i) \<longrightarrow> result_ok (op_at s i) r))"
proof -
  consider "ws_tasks s = []" | t where "ws_tasks s = [t]" | t u ts where "ws_tasks s = t # u # ts"
    by (metis neq_Nil_conv)
  then show ?thesis by cases (auto simp: task_ok_def split: drain_task.splits)
qed

text \<open>Inside a synchronous run of the coroutine: nothing is suspended and \<open>i\<close> is active.\<close>

definition running :: "nat \<Rightarrow> write_scheduler \<Rightarrow> bool" where
  "running i s \<longleftrightarrow> core_ok s \<and> ws_tasks s = [] \<and> ws_draining s \<and> ws_active s = Some i"

lemma running_op:
  assumes "running i s"
  shows "i < length (ws_ops s)" "op_ok (op_at s i)" "wo_sent (op_at s i) \<le> op_len s i" "op_len s i \<noteq> 0"
  using assms by (auto simp: running_def core_ok_def order_ok_def accounts_ok_def op_ok_def)

subsection \<open>Settling\<close>

lemma sum_list_upd:
  "i < length xs \<Longrightarrow> sum_list (map f (xs[i := x])) + f (xs ! i) = sum_list (map f xs) + (f x :: nat)"
  by (induction xs arbitrary: i) (auto split: nat.splits)

lemma concat_upd_last:
  assumes "i < length xs" "\<And>k. i < k \<Longrightarrow> k < length xs \<Longrightarrow> f (xs ! k) = []"
  shows "concat (map f (xs[i := x])) = concat (map f (take i xs)) @ f x"
proof -
  have "concat (map f (drop (Suc i) xs)) = []"
    using assms(2) by (auto simp: in_set_conv_nth)
  then show ?thesis using assms(1) by (simp add: upd_conv_take_nth_drop)
qed

lemma concat_upd_same:
  "i < length xs \<Longrightarrow> f x = f (xs ! i) \<Longrightarrow> concat (map f (xs[i := x])) = concat (map f xs)"
  by (metis list_update_id map_update)

lemma settle_op_fields [simp]:
  "ws_limits (settle_op i r s) = ws_limits s" "ws_queue (settle_op i r s) = ws_queue s"
  "ws_active (settle_op i r s) = ws_active s" "ws_draining (settle_op i r s) = ws_draining s"
  "ws_accepting (settle_op i r s) = ws_accepting s" "ws_tasks (settle_op i r s) = ws_tasks s"
  "ws_waiters (settle_op i r s) = ws_waiters s" "ws_waited (settle_op i r s) = ws_waited s"
  "ws_grace (settle_op i r s) = ws_grace s" "ws_timedOut (settle_op i r s) = ws_timedOut s"
  "ws_wire (settle_op i r s) = ws_wire s" "ws_calls (settle_op i r s) = ws_calls s"
  "length (ws_ops (settle_op i r s)) = length (ws_ops s)"
  by (simp_all add: settle_op_def)

lemma settle_op_at:
  "i < length (ws_ops s) \<Longrightarrow> op_at (settle_op i r s) k =
     (if k = i \<and> \<not> wo_settled (op_at s i) then op_at s i\<lparr>wo_settled := True, wo_result := Some r\<rparr> else op_at s k)"
  by (simp add: settle_op_def)

lemma settle_op_parts [simp]:
  "i < length (ws_ops s) \<Longrightarrow> wo_payload (op_at (settle_op i r s) k) = wo_payload (op_at s k)"
  "i < length (ws_ops s) \<Longrightarrow> wo_sent (op_at (settle_op i r s) k) = wo_sent (op_at s k)"
  "i < length (ws_ops s) \<Longrightarrow> wo_settled (op_at (settle_op i r s) k) \<longleftrightarrow> wo_settled (op_at s k) \<or> k = i"
  by (auto simp: settle_op_at)

lemma settle_op_accounts:
  assumes "accounts_ok s" "i < length (ws_ops s)" "\<not> wo_settled (op_at s i) \<Longrightarrow> result_ok (op_at s i) r"
  shows "accounts_ok (settle_op i r s)"
proof (cases "wo_settled (op_at s i)")
  case True
  then show ?thesis using assms(1) by (simp add: settle_op_def)
next
  case False
  let ?v = "op_at s i\<lparr>wo_settled := True, wo_result := Some r\<rparr>"
  have ok: "op_ok (op_at s i)" using assms(1,2) by (simp add: accounts_ok_def)
  have "op_ok ?v" using ok assms(3) False by (simp add: op_ok_def result_ok_def)
  then have ops: "\<forall>v \<in> set ((ws_ops s)[i := ?v]). op_ok v"
    using assms(1) by (auto simp: accounts_ok_def dest: set_update_subset_insert [THEN subsetD])
  have "sum_list (map op_rest ((ws_ops s)[i := ?v])) + op_rest (op_at s i) = sum_list (map op_rest (ws_ops s))"
    "sum_list (map op_open ((ws_ops s)[i := ?v])) + op_open (op_at s i) = sum_list (map op_open (ws_ops s))"
    using sum_list_upd [OF assms(2), of op_rest ?v] sum_list_upd [OF assms(2), of op_open ?v]
    by (simp_all add: op_rest_def op_open_def)
  then have sums: "int (sum_list (map op_rest ((ws_ops s)[i := ?v]))) = ws_outBytes s - (int (op_len s i) - int (wo_sent (op_at s i)))"
    "int (sum_list (map op_open ((ws_ops s)[i := ?v]))) = ws_outOps s - 1"
    using assms(1) ok False by (auto simp: accounts_ok_def op_ok_def op_rest_def op_open_def of_nat_diff)
  show ?thesis using assms(1) ok False ops sums [symmetric]
    by (simp add: accounts_ok_def settle_op_def op_ok_def)
qed

lemma settle_op_call: "i < length (ws_ops s) \<Longrightarrow> call_ok (settle_op i r s) c = call_ok s c"
  by (cases c) (simp add: call_ok_def)

lemma settle_op_written:
  "i < length (ws_ops s) \<Longrightarrow> map op_written (ws_ops (settle_op i r s)) = map op_written (ws_ops s)"
  by (rule nth_equalityI) (simp_all add: op_written_def)

lemma settle_op_traffic:
  "i < length (ws_ops s) \<Longrightarrow> traffic_ok s \<Longrightarrow> traffic_ok (settle_op i r s)"
  by (simp add: traffic_ok_def settle_op_call settle_op_written)

subsection \<open>The coroutine\<close>

lemma core_ok_more [simp]:
  "core_ok (s\<lparr>ws_tasks := t\<rparr>) = core_ok s" "core_ok (s\<lparr>ws_draining := d\<rparr>) = core_ok s"
  "core_ok (s\<lparr>ws_waiters := w\<rparr>) = core_ok s" "core_ok (s\<lparr>ws_waited := v\<rparr>) = core_ok s"
  "core_ok (s\<lparr>ws_grace := g\<rparr>) = core_ok s" "core_ok (s\<lparr>ws_timedOut := o'\<rparr>) = core_ok s"
  by (simp_all add: core_ok_def accounts_ok_def order_ok_def traffic_ok_def call_ok_def)

lemma await_result_inv:
  "running i s \<Longrightarrow> (\<not> wo_settled (op_at s i) \<Longrightarrow> result_ok (op_at s i) r) \<Longrightarrow> write_inv (await_task (AwaitResult i r) s)"
  by (simp add: write_inv_def await_task_def task_ok_def running_def)

lemma result_ok_cancelled [simp]: "result_ok v (cancelled_result (length (wo_payload v)) (wo_sent v))"
  by (simp add: result_ok_def cancelled_result_def)

lemma result_ok_denied: "wo_sent v < length (wo_payload v) \<Longrightarrow> result_ok v (denied (length (wo_payload v)) (wo_sent v))"
  by (simp add: result_ok_def denied_def)

lemma result_ok_failure: "wo_sent v < length (wo_payload v) \<Longrightarrow> result_ok v (writeFailure (length (wo_payload v)) (wo_sent v))"
  by (simp add: result_ok_def writeFailure_def)

lemma result_ok_complete: "wo_sent v = length (wo_payload v) \<Longrightarrow> result_ok v (complete_result (length (wo_payload v)))"
  by (simp add: result_ok_def complete_result_def)

lemma core_add_call:
  assumes "core_ok s" "i < length (ws_ops s)" "wo_sent (op_at s i) < e" "e \<le> op_len s i"
    "e \<le> wo_sent (op_at s i) + lm_chunkBytes (ws_limits s)"
  shows "core_ok (s\<lparr>ws_calls := ws_calls s @ [(i, take (e - wo_sent (op_at s i)) (drop (wo_sent (op_at s i)) (wo_payload (op_at s i))))]\<rparr>)"
proof -
  let ?b = "take (e - wo_sent (op_at s i)) (drop (wo_sent (op_at s i)) (wo_payload (op_at s i)))"
  have l: "length ?b = e - wo_sent (op_at s i)" using assms(4) by simp
  then have "?b = take (length ?b) (drop (wo_sent (op_at s i)) (wo_payload (op_at s i)))" by simp
  then have "\<exists>a. ?b = take (length ?b) (drop a (wo_payload (op_at s i)))" by blast
  moreover have "?b \<noteq> []" using assms(3,4) by simp
  ultimately have "call_ok s (i, ?b)" using l assms(2,5) by (simp add: call_ok_def)
  then show ?thesis using assms(1)
    by (auto simp: core_ok_def accounts_ok_def order_ok_def traffic_ok_def call_ok_def)
qed

lemma write_chunk_inv:
  assumes "running i s" "wo_sent (op_at s i) < e" "e \<le> op_len s i"
    "e \<le> wo_sent (op_at s i) + lm_chunkBytes (ws_limits s)"
  shows "write_inv (write_chunk i e hk s)"
proof -
  have w: "write_inv (await_task (AwaitWrite i e (chunk_at s i e)) (s\<lparr>ws_calls := ws_calls s @ [(i, take (e - wo_sent (op_at s i)) (drop (wo_sent (op_at s i)) (wo_payload (op_at s i))))]\<rparr>))"
    using core_add_call [of s i e] assms running_op(1) [OF assms(1)]
    by (simp add: write_inv_def await_task_def task_ok_def running_def)
  show ?thesis
    using assms await_result_inv [OF assms(1)] w
    by (simp add: write_chunk_def Let_def result_ok_denied)
qed

lemma write_loop_inv:
  assumes "running i s"
  shows "write_inv (write_loop i hk s)"
proof -
  have "1 \<le> lm_chunkBytes (ws_limits s)" using assms by (simp add: running_def core_ok_def accounts_ok_def)
  then show ?thesis
    using assms await_result_inv [OF assms] write_chunk_inv [OF assms] running_op(3) [OF assms]
    by (simp add: write_loop_def Let_def result_ok_complete)
qed

lemma writeOperation_inv:
  assumes "running i s" "wo_sent (op_at s i) = 0"
  shows "write_inv (writeOperation i hk s)"
proof -
  have "op_len s i \<noteq> 0" by (rule running_op [OF assms(1)])
  then show ?thesis
    using assms await_result_inv [OF assms(1)] write_loop_inv [OF assms(1)]
      result_ok_denied [of "op_at s i"] result_ok_failure [of "op_at s i"]
    by (simp add: writeOperation_def)
qed

lemma drain_loop_inv:
  assumes "core_ok s" "ws_tasks s = []" "ws_draining s" "ws_active s = None" "ws_queue s = q"
  shows "write_inv (drain_loop q hk s)"
proof (cases q)
  case Nil
  have "s\<lparr>ws_queue := []\<rparr> = s" using assms(5) Nil by (cases s) simp
  then have "core_ok (s\<lparr>ws_queue := []\<rparr>)" using assms(1) by simp
  then have "core_ok (resolveIdleWaiters (s\<lparr>ws_queue := [], ws_draining := False\<rparr>))"
    by (simp add: resolveIdleWaiters_def)
  then show ?thesis using assms Nil
    by (simp add: write_inv_def task_ok_def resolveIdleWaiters_def write_isIdle_def)
next
  case (Cons i q')
  have o: "order_ok s" "accounts_ok s" "traffic_ok s" using assms(1) by (simp_all add: core_ok_def)
  have i: "i < length (ws_ops s)" "\<not> wo_settled (op_at s i)" "wo_sent (op_at s i) = 0" "ws_accepting s" "\<forall>j \<in> set q'. i < j"
    using o(1) assms(4,5) Cons by (auto simp: order_ok_def)
  let ?s = "s\<lparr>ws_queue := q', ws_active := Some i\<rparr>"
  have "order_ok ?s" using o(1) assms(4,5) Cons i unfolding order_ok_def by (auto dest: less_imp_le_nat)
  moreover have "accounts_ok ?s" "traffic_ok ?s" using o by (simp_all add: accounts_ok_def traffic_ok_def call_ok_def)
  ultimately have "running i ?s" using assms by (simp add: running_def core_ok_def)
  then show ?thesis using writeOperation_inv [of i ?s hk] i Cons by simp
qed

lemma core_progress:
  assumes "running i s" "\<not> wo_settled (op_at s i)" "wo_sent (op_at s i) + n \<le> op_len s i"
  shows "running i (s\<lparr>ws_ops := (ws_ops s)[i := op_at s i\<lparr>wo_sent := wo_sent (op_at s i) + n\<rparr>],
      ws_outBytes := ws_outBytes s - int n,
      ws_wire := ws_wire s @ take n (drop (wo_sent (op_at s i)) (wo_payload (op_at s i)))\<rparr>)" (is "running i ?s")
proof -
  let ?v = "op_at s i\<lparr>wo_sent := wo_sent (op_at s i) + n\<rparr>"
  have i: "i < length (ws_ops s)" and ok: "op_ok (op_at s i)" by (rule running_op [OF assms(1)])+
  have o: "order_ok s" "accounts_ok s" "traffic_ok s" "ws_active s = Some i" using assms(1) by (simp_all add: running_def core_ok_def)
  have "op_ok ?v" using ok assms(2,3) by (simp add: op_ok_def)
  then have ops: "\<forall>v \<in> set ((ws_ops s)[i := ?v]). op_ok v"
    using o(2) by (auto simp: accounts_ok_def dest: set_update_subset_insert [THEN subsetD])
  have "sum_list (map op_rest ((ws_ops s)[i := ?v])) + n = sum_list (map op_rest (ws_ops s))"
    "sum_list (map op_open ((ws_ops s)[i := ?v])) = sum_list (map op_open (ws_ops s))"
    using sum_list_upd [OF i, of op_rest ?v] sum_list_upd [OF i, of op_open ?v] assms(2,3)
    by (simp_all add: op_rest_def op_open_def)
  then have "accounts_ok ?s" using o(2) ops by (simp add: accounts_ok_def)
  moreover have "order_ok ?s" using o(1,4) i by (auto simp: order_ok_def nth_list_update)
  moreover have "traffic_ok ?s"
  proof -
    have later: "\<And>k. i < k \<Longrightarrow> k < length (ws_ops s) \<Longrightarrow> op_written (op_at s k) = []"
      using o(1,4) by (simp add: order_ok_def op_written_def)
    have "concat (map op_written (ws_ops s)) = concat (map op_written ((ws_ops s)[i := op_at s i]))" by simp
    also have "\<dots> = concat (map op_written (take i (ws_ops s))) @ op_written (op_at s i)"
      using later by (intro concat_upd_last i)
    finally have "ws_wire s @ take n (drop (wo_sent (op_at s i)) (wo_payload (op_at s i)))
        = concat (map op_written (take i (ws_ops s))) @ op_written ?v"
      using o(3) by (simp add: traffic_ok_def op_written_def take_add)
    also have "\<dots> = concat (map op_written ((ws_ops s)[i := ?v]))"
      using later by (intro concat_upd_last [symmetric] i)
    finally have "ws_wire ?s = concat (map op_written (ws_ops ?s))" by simp
    moreover have "call_ok ?s c = call_ok s c" for c by (cases c) (simp add: call_ok_def nth_list_update i)
    ultimately show ?thesis using o(3) by (simp add: traffic_ok_def)
  qed
  ultimately show ?thesis using assms(1) by (simp add: running_def core_ok_def)
qed

lemma after_write_inv:
  assumes "running i s" "wo_sent (op_at s i) < e" "e \<le> op_len s i"
    "e \<le> wo_sent (op_at s i) + lm_chunkBytes (ws_limits s)"
  shows "write_inv (after_write i e (chunk_at s i e) w hk s)"
proof -
  have f: "result_ok (op_at s i) (writeFailure (op_len s i) (wo_sent (op_at s i)))"
    using assms(2,3) by (simp add: result_ok_failure)
  show ?thesis
  proof (cases "\<exists>v. w = Some v \<and> \<not> wo_settled (op_at s i) \<and> js_isInteger v \<and> 0 < js_floor v \<and> js_floor v \<le> int (e - wo_sent (op_at s i))")
    case False
    then show ?thesis using await_result_inv [OF assms(1)] f assms(3)
      by (auto simp: after_write_def Let_def split: option.splits)
  next
    case True
    then obtain v where v: "w = Some v" "\<not> wo_settled (op_at s i)" "js_isInteger v" "0 < js_floor v"
      "js_floor v \<le> int (e - wo_sent (op_at s i))" by blast
    obtain n where fl: "js_floor v = int n" using v(4) by (metis zero_le_imp_eq_int order_less_imp_le)
    have n: "0 < n" "wo_sent (op_at s i) + n \<le> e" using v assms(2) by (simp_all add: fl)
    let ?s = "s\<lparr>ws_ops := (ws_ops s)[i := op_at s i\<lparr>wo_sent := wo_sent (op_at s i) + n\<rparr>],
      ws_outBytes := ws_outBytes s - int n,
      ws_wire := ws_wire s @ take n (drop (wo_sent (op_at s i)) (wo_payload (op_at s i)))\<rparr>"
    have i: "i < length (ws_ops s)" by (rule running_op [OF assms(1)])
    have r: "running i ?s" using core_progress [OF assms(1) v(2), of n] n assms(3) by simp
    have "write_inv (await_task (AwaitResult i (cancelled_result (op_len s i) (wo_sent (op_at s i) + n))) ?s)"
      using await_result_inv [OF r, of "cancelled_result (op_len s i) (wo_sent (op_at s i) + n)"]
        result_ok_cancelled [of "op_at ?s i"] i by simp
    moreover have "wo_sent (op_at s i) + n < e \<Longrightarrow> write_inv (write_chunk i e hk ?s)"
      using write_chunk_inv [OF r, of e hk] assms(3,4) i by simp
    moreover have "write_inv (write_loop i hk ?s)" by (rule write_loop_inv [OF r])
    moreover have "after_write i e (chunk_at s i e) w hk s =
        (if \<not> ws_accepting s then await_task (AwaitResult i (cancelled_result (op_len s i) (wo_sent (op_at s i) + n))) ?s
         else if wo_sent (op_at s i) + n < e then write_chunk i e hk ?s else write_loop i hk ?s)"
      using v(1-3) n assms(3) by (simp add: after_write_def Let_def fl)
    ultimately show ?thesis by presburger
  qed
qed

lemma after_result_inv:
  assumes "running i s" "\<not> wo_settled (op_at s i) \<Longrightarrow> result_ok (op_at s i) r"
  shows "write_inv (after_result i r hk s)"
proof -
  have i: "i < length (ws_ops s)" by (rule running_op [OF assms(1)])
  have o: "order_ok s" "accounts_ok s" "traffic_ok s" "ws_active s = Some i" using assms(1) by (simp_all add: running_def core_ok_def)
  let ?t = "(settle_op i r s)\<lparr>ws_active := None\<rparr>"
  have "accounts_ok ?t" "traffic_ok ?t"
    using settle_op_accounts [OF o(2) i assms(2)] settle_op_traffic [OF i o(3), of r]
    by (simp_all add: accounts_ok_def traffic_ok_def call_ok_def)
  moreover have "order_ok ?t"
  proof -
    have q: "\<forall>j \<in> set (ws_queue s). i < j" and z: "\<forall>k < length (ws_ops s). i < k \<longrightarrow> wo_sent (op_at s k) = 0"
      using o(1,4) unfolding order_ok_def by blast+
    have "\<forall>k < length (ws_ops s). (\<exists>j \<in> set (ws_queue s). j \<le> k) \<longrightarrow> wo_sent (op_at s k) = 0"
      using q z by (meson less_le_trans)
    moreover have "\<forall>k < length (ws_ops s). \<not> wo_settled (op_at s k) \<longrightarrow> k \<noteq> i \<longrightarrow> k \<in> set (ws_queue s)"
      using o(1,4) unfolding order_ok_def by auto
    moreover have "\<forall>j \<in> set (ws_queue s). j < length (ws_ops s) \<and> \<not> wo_settled (op_at s j) \<and> j \<noteq> i"
      using o(1) q unfolding order_ok_def by auto
    ultimately show ?thesis using o(1) i unfolding order_ok_def by simp
  qed
  ultimately have "core_ok ?t" by (simp add: core_ok_def)
  then show ?thesis using assms(1)
    by (simp add: after_result_def Let_def running_def drain_loop_inv)
qed

subsection \<open>What only grows\<close>

text \<open>Operations are never dropped or changed once settled, the bytes sent only grow, and after
  a shutdown no operation is added and the driver is not called.\<close>

definition op_le :: "write_operation \<Rightarrow> write_operation \<Rightarrow> bool" where
  "op_le v w \<longleftrightarrow> wo_payload w = wo_payload v \<and> wo_sent v \<le> wo_sent w \<and> (wo_settled v \<longrightarrow> w = v)"

definition write_le :: "write_scheduler \<Rightarrow> write_scheduler \<Rightarrow> bool" where
  "write_le s t \<longleftrightarrow> length (ws_ops s) \<le> length (ws_ops t) \<and> (\<forall>k < length (ws_ops s). op_le (op_at s k) (op_at t k)) \<and>
     (ws_accepting t \<longrightarrow> ws_accepting s) \<and> ws_limits t = ws_limits s \<and>
     (\<not> ws_accepting s \<longrightarrow> length (ws_ops t) = length (ws_ops s) \<and> ws_calls t = ws_calls s)"

lemma op_le_refl [simp]: "op_le v v"
  by (simp add: op_le_def)

lemma op_le_trans: "op_le u v \<Longrightarrow> op_le v w \<Longrightarrow> op_le u w"
  by (auto simp: op_le_def)

lemma op_le_upd [simp]: "k < length xs \<Longrightarrow> op_le (xs ! i) v \<Longrightarrow> op_le (xs ! k) (xs[i := v] ! k)"
  by (cases "k = i") simp_all

lemma op_le_changes [simp]:
  "\<not> wo_settled v \<Longrightarrow> op_le v (v\<lparr>wo_settled := b, wo_result := r\<rparr>)"
  "\<not> wo_settled v \<Longrightarrow> op_le v (v\<lparr>wo_sent := wo_sent v + n\<rparr>)"
  by (simp_all add: op_le_def)

lemma write_le_refl [simp]: "write_le s s"
  by (simp add: write_le_def)

lemma write_le_trans: "write_le s t \<Longrightarrow> write_le t u \<Longrightarrow> write_le s u"
  unfolding write_le_def by (auto intro: op_le_trans order_trans)

lemma write_le_fields:
  "ws_ops t = ws_ops s \<Longrightarrow> ws_accepting t = ws_accepting s \<Longrightarrow> ws_limits t = ws_limits s \<Longrightarrow> ws_calls t = ws_calls s \<Longrightarrow> write_le s t"
  by (simp add: write_le_def)

lemma resolve_le: "write_le s (resolveIdleWaiters s)"
  by (simp add: resolveIdleWaiters_def write_le_fields)

lemma settle_op_le: "write_le s (settle_op i r s)"
  by (simp add: settle_op_def write_le_def)

lemma await_task_le: "write_le s (await_task t s)"
  by (simp add: await_task_def write_le_fields)

lemma write_chunk_le: "write_le s (write_chunk i e hk s)"
  by (simp add: write_chunk_def Let_def await_task_le) (simp add: await_task_def write_le_def)

lemma write_loop_le: "write_le s (write_loop i hk s)"
  by (simp add: write_loop_def Let_def await_task_le write_chunk_le)

lemma writeOperation_le: "write_le s (writeOperation i hk s)"
  by (simp add: writeOperation_def await_task_le write_loop_le)

lemma drain_loop_le: "write_le s (drain_loop q hk s)"
proof (induction q hk s rule: drain_loop.induct)
  case (1 hk s)
  show ?case using write_le_trans [OF write_le_fields resolve_le] by simp
next
  case (2 i q hk s)
  then show ?case using write_le_trans [OF write_le_fields writeOperation_le] by simp
qed

lemma after_write_le: "write_le s (after_write i e c w hk s)"
proof -
  have p: "write_le s (s\<lparr>ws_ops := (ws_ops s)[i := op_at s i\<lparr>wo_sent := wo_sent (op_at s i) + n\<rparr>],
      ws_outBytes := b, ws_wire := x\<rparr>)" if "\<not> wo_settled (op_at s i)" for n b x
    using that by (simp add: write_le_def)
  show ?thesis
    by (auto simp: after_write_def Let_def await_task_le split: option.splits
        intro!: write_le_trans [OF p await_task_le] write_le_trans [OF p write_chunk_le] write_le_trans [OF p write_loop_le])
qed

lemma after_result_le: "write_le s (after_result i r hk s)"
proof -
  have "write_le s (if ws_active (settle_op i r s) = Some i then settle_op i r s\<lparr>ws_active := None\<rparr> else settle_op i r s)"
    by (auto intro: settle_op_le write_le_trans [OF settle_op_le write_le_fields])
  then show ?thesis unfolding after_result_def Let_def by (rule write_le_trans [OF _ drain_loop_le])
qed

lemma drain_le: "write_le s (drain hk s)"
  using write_le_trans [OF write_le_fields drain_loop_le] by (simp add: drain_def)

lemma enqueue_le: "write_le s (snd (enqueue p th adm hk s))"
proof -
  have "write_le s (s\<lparr>ws_ops := ws_ops s @ [v], ws_queue := q, ws_outOps := a, ws_outBytes := b\<rparr>)"
    if "ws_accepting s" for v q a b using that by (simp add: write_le_def nth_append)
  then show ?thesis
    by (simp add: enqueue_def Let_def) (blast intro: write_le_trans drain_le)
qed

lemma cancel_queued_le: "write_le s (cancel_queued q s)"
proof (induction q s rule: cancel_queued.induct)
  case (1 s)
  then show ?case by (simp add: write_le_fields)
next
  case (2 i q s)
  have "write_le s (settle_op i (cancelled_result (op_len s i) 0) (s\<lparr>ws_queue := q\<rparr>))"
    by (rule write_le_trans [OF write_le_fields settle_op_le]) simp_all
  then show ?case using 2 write_le_trans by simp
qed

lemma shutdown_le: "write_le s (shutdown s)"
proof -
  have "write_le s (s\<lparr>ws_accepting := False\<rparr>)" by (simp add: write_le_def)
  then have c: "write_le s (cancel_queued (ws_queue s) (s\<lparr>ws_accepting := False\<rparr>))"
    by (rule write_le_trans [OF _ cancel_queued_le])
  show ?thesis
    by (auto simp: shutdown_def Let_def split: option.splits intro!: write_le_trans [OF c write_le_fields])
qed

lemma graceExpired_le: "write_le s (graceExpired i s)"
proof -
  define t where "t = s\<lparr>ws_grace := remove1 i (ws_grace s)\<rparr>"
  define u where "u = (if \<not> wo_settled (op_at t i) then settle_op i (cancelled_result (op_len t i) (wo_sent (op_at t i))) t else t)"
  have "write_le s t" by (simp add: t_def write_le_fields)
  moreover have "write_le t u" by (simp add: u_def settle_op_le)
  moreover have "graceExpired i s = u\<lparr>ws_timedOut := ws_timedOut u @ [True]\<rparr>"
    by (simp only: graceExpired_def t_def u_def Let_def)
  moreover have "write_le u (u\<lparr>ws_timedOut := ws_timedOut u @ [True]\<rparr>)" by (rule write_le_fields) simp_all
  ultimately show ?thesis by (metis write_le_trans)
qed

lemma sched_step_le: "sched_step s ev s' \<Longrightarrow> write_le s s'"
proof (induction rule: sched_step.induct)
  case (ws_driver k s i e c w hk)
  show ?case by (rule write_le_trans [OF write_le_fields after_write_le]) simp_all
next
  case (ws_return k s i r hk)
  show ?case by (rule write_le_trans [OF write_le_fields after_result_le]) simp_all
next
  case (ws_wait s w b)
  have "write_le s (resolveIdleWaiters (s\<lparr>ws_waiters := v\<rparr>))" for v
    by (rule write_le_trans [OF write_le_fields resolve_le]) simp_all
  then show ?case by (simp add: waitForIdle_def write_le_fields)
qed (simp_all add: enqueue_le shutdown_le graceCompleted_def graceExpired_le onAbort_def write_le_fields)

interpretation write_growth: monotone_machine sched_step write_le
  by unfold_locales (auto intro: write_le_trans sched_step_le)

subsection \<open>The other operations\<close>

lemma grace_fields [simp]:
  "ws_grace (await_task t s) = ws_grace s" "ws_grace (resolveIdleWaiters s) = ws_grace s"
  "ws_grace (write_chunk i e hk s) = ws_grace s" "ws_grace (write_loop i hk s) = ws_grace s"
  "ws_grace (writeOperation i hk s) = ws_grace s"
  by (simp_all add: await_task_def resolveIdleWaiters_def write_chunk_def write_loop_def writeOperation_def Let_def)

lemma grace_drain [simp]: "ws_grace (drain_loop q hk s) = ws_grace s"
  by (induction q hk s rule: drain_loop.induct) simp_all

lemma grace_others [simp]:
  "ws_grace (after_write i e c w hk s) = ws_grace s" "ws_grace (after_result i r hk s) = ws_grace s"
  "ws_grace (snd (enqueue p th adm hk s)) = ws_grace s" "ws_grace (waitForIdle j b s) = ws_grace s"
  "ws_grace (onAbort j s) = ws_grace s"
  by (auto simp: after_write_def after_result_def enqueue_def drain_def waitForIdle_def onAbort_def Let_def split: option.splits)

lemma task_ok_cong:
  assumes "task_ok s" "ws_tasks t = ws_tasks s" "ws_draining t = ws_draining s" "ws_active t = ws_active s"
    "ws_waiters t = ws_waiters s" "ws_tasks s = [] \<Longrightarrow> ws_queue t = []" "ws_limits t = ws_limits s"
    "\<And>i. ws_active s = Some i \<Longrightarrow> op_le (op_at s i) (op_at t i) \<and> wo_sent (op_at t i) = wo_sent (op_at s i)"
  shows "task_ok t"
proof -
  have r: "\<not> wo_settled (op_at t i) \<Longrightarrow> wo_sent (op_at t i) = wo_sent (op_at s i) \<Longrightarrow> op_le (op_at s i) (op_at t i) \<Longrightarrow>
      result_ok (op_at s i) r \<Longrightarrow> result_ok (op_at t i) r" for i r
    by (simp add: op_le_def result_ok_def)
  consider "ws_tasks s = []" | i e where "ws_tasks s = [AwaitWrite i e (chunk_at s i e)]" | i r where "ws_tasks s = [AwaitResult i r]"
    using assms(1) unfolding task_ok_iff by blast
  then show ?thesis
  proof cases
    case 3
    then show ?thesis using assms r [of i r] by (auto simp: task_ok_iff op_le_def)
  qed (use assms in \<open>auto simp: task_ok_iff op_le_def\<close>)
qed

lemma enqueue_inv:
  assumes "write_inv s"
  shows "write_inv (snd (enqueue p th adm hk s))"
proof -
  define v where "v = \<lparr>wo_payload = p, wo_startThrows = th, wo_admission = adm, wo_sent = 0, wo_settled = False, wo_result = None\<rparr>"
  define t where "t = s\<lparr>ws_ops := ws_ops s @ [v], ws_queue := ws_queue s @ [length (ws_ops s)],
    ws_outOps := ws_outOps s + 1, ws_outBytes := ws_outBytes s + int (length p)\<rparr>"
  show ?thesis
  proof (cases "p \<noteq> [] \<and> ws_accepting s \<and> authorized (hk_enqueue hk) adm \<and>
      ws_outOps s < int (lm_maxOperations (ws_limits s)) \<and> ws_outBytes s + int (length p) \<le> int (lm_maxQueuedBytes (ws_limits s))")
    case False
    then have "snd (enqueue p th adm hk s) = s" unfolding enqueue_def Let_def by auto
    then show ?thesis using assms by simp
  next
    case True
    then have e: "snd (enqueue p th adm hk s) = drain hk t" by (simp add: enqueue_def t_def v_def Let_def)
    have o: "order_ok s" "accounts_ok s" "traffic_ok s" using assms by (simp_all add: write_inv_def core_ok_def)
    have "op_ok v" "op_rest v = length p" "op_open v = 1" "op_written v = []"
      using True by (simp_all add: v_def op_ok_def op_rest_def op_open_def op_written_def)
    then have "accounts_ok t" using o(2) True by (auto simp: accounts_ok_def t_def)
    moreover have "traffic_ok t" using o(3) \<open>op_written v = []\<close>
      by (auto simp: traffic_ok_def t_def call_ok_def nth_append)
    moreover have "order_ok t"
      using o(1) True unfolding order_ok_def by (auto simp: t_def v_def nth_append sorted_wrt_append less_Suc_eq)
    ultimately have c: "core_ok t" by (simp add: core_ok_def)
    have tk: "task_ok s" using assms by (simp add: write_inv_def)
    show ?thesis
    proof (cases "ws_draining s")
      case False
      then have "ws_tasks s = [] \<and> ws_active s = None"
        using tk by (auto simp: task_ok_iff)
      then have "write_inv (drain_loop (ws_queue t) hk (t\<lparr>ws_draining := True\<rparr>))"
        using c by (intro drain_loop_inv) (simp_all add: t_def)
      then show ?thesis using False e by (simp add: drain_def t_def)
    next
      case True
      have a: "\<And>i. ws_active s = Some i \<Longrightarrow> i < length (ws_ops s)" using o(1) by (simp add: order_ok_def)
      have "ws_tasks s \<noteq> []" using tk True by (auto simp: task_ok_iff)
      then have "task_ok t" by (intro task_ok_cong [OF tk]) (use a in \<open>simp_all add: t_def nth_append\<close>)
      then show ?thesis using c e True by (simp add: drain_def write_inv_def t_def)
    qed
  qed
qed

lemma waits_inv:
  assumes "write_inv s"
  shows "write_inv (waitForIdle j b s)" "write_inv (onAbort j s)" "write_inv (graceCompleted i s)"
proof -
  have c: "core_ok s" and t: "task_ok s" using assms by (simp_all add: write_inv_def)
  have "write_inv (resolveIdleWaiters (s\<lparr>ws_waiters := ws_waiters s @ [j]\<rparr>))"
    if "\<not> write_isIdle s"
  proof -
    have "\<not> write_isIdle (s\<lparr>ws_waiters := ws_waiters s @ [j]\<rparr>)" using that by (simp add: write_isIdle_def)
    moreover have "task_ok (s\<lparr>ws_waiters := ws_waiters s @ [j]\<rparr>)"
      using t that by (auto simp: task_ok_iff write_isIdle_def)
    ultimately show ?thesis using c by (simp add: resolveIdleWaiters_def write_inv_def)
  qed
  moreover have "task_ok (s\<lparr>ws_waited := x\<rparr>)" for x using t by (simp add: task_ok_iff)
  ultimately show "write_inv (waitForIdle j b s)" using c by (simp add: waitForIdle_def write_inv_def)
  have "task_ok (s\<lparr>ws_waiters := removeAll j (ws_waiters s), ws_waited := x\<rparr>)" for x
    using t by (auto simp: task_ok_iff)
  then show "write_inv (onAbort j s)" using c t by (simp add: onAbort_def write_inv_def)
  have "task_ok (s\<lparr>ws_grace := g, ws_timedOut := x\<rparr>)" for g x
    using t by (simp add: task_ok_iff)
  then show "write_inv (graceCompleted i s)" using c by (simp add: graceCompleted_def write_inv_def)
qed

text \<open>The queue without its head, once the head is settled.\<close>

definition order_but :: "nat \<Rightarrow> write_scheduler \<Rightarrow> bool" where
  "order_but i s \<longleftrightarrow> sorted_wrt (<) (ws_queue s) \<and>
     (\<forall>j \<in> set (ws_queue s). j < length (ws_ops s) \<and> \<not> wo_settled (op_at s j) \<and> j \<noteq> i) \<and>
     (\<forall>k < length (ws_ops s). \<not> wo_settled (op_at s k) \<longrightarrow> k \<noteq> i \<longrightarrow> k \<in> set (ws_queue s) \<or> ws_active s = Some k) \<and>
     (\<forall>a. ws_active s = Some a \<longrightarrow> a < length (ws_ops s) \<and> (\<forall>j \<in> set (ws_queue s). a < j) \<and>
        (wo_settled (op_at s a) \<longrightarrow> \<not> ws_accepting s)) \<and>
     (\<not> ws_accepting s \<longrightarrow> ws_queue s = []) \<and>
     (\<forall>k < length (ws_ops s). (ws_active s = None \<longrightarrow> (\<exists>j \<in> set (ws_queue s). j \<le> k) \<longrightarrow> wo_sent (op_at s k) = 0) \<and>
        (\<forall>a. ws_active s = Some a \<longrightarrow> a < k \<longrightarrow> wo_sent (op_at s k) = 0))"

lemma order_drop_head: "order_ok s \<Longrightarrow> ws_queue s = i # q \<Longrightarrow> order_but i (s\<lparr>ws_queue := q\<rparr>)"
  by (simp add: order_ok_def order_but_def) (metis less_irrefl)

lemma settle_op_order_gone:
  "order_but i s \<Longrightarrow> i < length (ws_ops s) \<Longrightarrow> ws_active s \<noteq> Some i \<Longrightarrow> order_ok (settle_op i r s)"
  unfolding order_ok_def order_but_def by simp

lemma settle_queued_core:
  assumes "core_ok s" "ws_queue s = i # q"
  shows "core_ok (settle_op i (cancelled_result (op_len s i) 0) (s\<lparr>ws_queue := q\<rparr>))"
proof -
  let ?s = "s\<lparr>ws_queue := q\<rparr>"
  have o: "order_ok s" "accounts_ok s" "traffic_ok s" using assms by (simp_all add: core_ok_def)
  have i: "i < length (ws_ops s)" "\<not> wo_settled (op_at s i)" "ws_accepting s" "\<forall>j \<in> set q. i < j" "ws_active s \<noteq> Some i"
    using o(1) assms(2) by (auto simp: order_ok_def)
  have z: "wo_sent (op_at s i) = 0"
    using o(1) assms(2) i(1) by (cases "ws_active s") (auto simp: order_ok_def)
  have "accounts_ok ?s" "traffic_ok ?s" using o by (simp_all add: accounts_ok_def traffic_ok_def call_ok_def)
  then have "accounts_ok (settle_op i (cancelled_result (op_len s i) 0) ?s)" "traffic_ok (settle_op i (cancelled_result (op_len s i) 0) ?s)"
    using i(1) z settle_op_accounts [of ?s i "cancelled_result (op_len s i) 0"] result_ok_cancelled [of "op_at s i"]
      settle_op_traffic [of i ?s] by simp_all
  moreover have "order_ok (settle_op i (cancelled_result (op_len s i) 0) ?s)"
    using order_drop_head [OF o(1) assms(2)] i(1,5) by (intro settle_op_order_gone) simp_all
  ultimately show ?thesis by (simp add: core_ok_def)
qed

lemma core_stop: "core_ok s \<Longrightarrow> ws_queue s = [] \<Longrightarrow> core_ok (s\<lparr>ws_accepting := False\<rparr>)"
proof -
  assume c: "core_ok s" "ws_queue s = []"
  have f: "ws_queue (s\<lparr>ws_accepting := False\<rparr>) = ws_queue s" "ws_active (s\<lparr>ws_accepting := False\<rparr>) = ws_active s"
    "ws_ops (s\<lparr>ws_accepting := False\<rparr>) = ws_ops s" "ws_accepting (s\<lparr>ws_accepting := False\<rparr>) = False" by simp_all
  have "order_ok (s\<lparr>ws_accepting := False\<rparr>)" using c unfolding core_ok_def order_ok_def f by blast
  moreover have "accounts_ok (s\<lparr>ws_accepting := False\<rparr>)" using c(1) by (simp add: core_ok_def accounts_ok_def)
  moreover have "traffic_ok (s\<lparr>ws_accepting := False\<rparr>)" using c(1) by (simp add: core_ok_def traffic_ok_def call_ok_def)
  ultimately show ?thesis by (simp add: core_ok_def)
qed

lemma cancel_queued_core: "core_ok s \<Longrightarrow> ws_queue s = q \<Longrightarrow> core_ok (cancel_queued q s)"
proof (induction q s rule: cancel_queued.induct)
  case (1 s)
  then have "cancel_queued [] s = s" by (cases s) simp
  with 1 show ?case by metis
next
  case (2 i q s)
  then show ?case using settle_queued_core [of s i q] by simp
qed

lemma cancel_queued_fields [simp]:
  "ws_queue (cancel_queued q s) = []" "ws_active (cancel_queued q s) = ws_active s"
  "ws_tasks (cancel_queued q s) = ws_tasks s" "ws_draining (cancel_queued q s) = ws_draining s"
  "ws_accepting (cancel_queued q s) = ws_accepting s" "ws_waiters (cancel_queued q s) = ws_waiters s"
  "ws_limits (cancel_queued q s) = ws_limits s" "ws_grace (cancel_queued q s) = ws_grace s"
  "length (ws_ops (cancel_queued q s)) = length (ws_ops s)"
  by (induction q s rule: cancel_queued.induct) simp_all

lemma cancel_queued_at: "k \<notin> set q \<Longrightarrow> op_at (cancel_queued q s) k = op_at s k"
  by (induction q s rule: cancel_queued.induct) (simp_all add: settle_op_def)

lemma cancel_queued_accepting:
  "cancel_queued q (s\<lparr>ws_accepting := b\<rparr>) = (cancel_queued q s)\<lparr>ws_accepting := b\<rparr>"
proof (induction q s rule: cancel_queued.induct)
  case (2 i q s)
  have "settle_op i r (s\<lparr>ws_accepting := b, ws_queue := q\<rparr>) = settle_op i r (s\<lparr>ws_queue := q\<rparr>)\<lparr>ws_accepting := b\<rparr>" for r
    by (simp add: settle_op_def)
  with 2 show ?case by simp
qed simp

lemma shutdown_inv:
  assumes "write_inv s"
  shows "write_inv (shutdown s)"
proof -
  let ?t = "(cancel_queued (ws_queue s) s)\<lparr>ws_accepting := False\<rparr>"
  have c: "core_ok (cancel_queued (ws_queue s) s)" using assms by (simp add: cancel_queued_core write_inv_def)
  then have "core_ok ?t" by (rule core_stop) simp
  moreover have "task_ok ?t"
  proof (rule task_ok_cong [of s])
    fix i assume a: "ws_active s = Some i"
    then have "i \<notin> set (ws_queue s)" using assms by (auto simp: write_inv_def core_ok_def order_ok_def)
    then show "op_le (op_at s i) (op_at ?t i) \<and> wo_sent (op_at ?t i) = wo_sent (op_at s i)"
      by (simp add: cancel_queued_at)
  qed (use assms in \<open>simp_all add: write_inv_def\<close>)
  ultimately have t: "write_inv ?t" by (simp add: write_inv_def)
  have "write_inv (?t\<lparr>ws_timedOut := x\<rparr>)" "write_inv (?t\<lparr>ws_grace := g\<rparr>)" for x g
    using t task_ok_cong [of ?t "?t\<lparr>ws_timedOut := x\<rparr>"] task_ok_cong [of ?t "?t\<lparr>ws_grace := g\<rparr>"] by (simp_all add: write_inv_def)
  then show ?thesis by (simp add: shutdown_def Let_def cancel_queued_accepting split: option.splits)
qed

definition write_ok :: "write_scheduler \<Rightarrow> bool" where
  "write_ok s \<longleftrightarrow> write_inv s \<and> (\<forall>i \<in> set (ws_grace s). i < length (ws_ops s) \<and> \<not> ws_accepting s)"

lemma graceExpired_inv:
  assumes "write_inv s" "i < length (ws_ops s)" "\<not> ws_accepting s"
  shows "write_inv (graceExpired i s)"
proof -
  define t where "t = s\<lparr>ws_grace := remove1 i (ws_grace s)\<rparr>"
  define r where "r = cancelled_result (op_len t i) (wo_sent (op_at t i))"
  have t: "write_inv t" "i < length (ws_ops t)" "\<not> ws_accepting t"
    using assms by (auto simp: t_def write_inv_def task_ok_iff)
  then have o: "order_ok t" "accounts_ok t" "traffic_ok t" "task_ok t" by (simp_all add: write_inv_def core_ok_def)
  have q: "ws_queue t = []" using o(1) t(3) by (simp add: order_ok_def)
  have "order_ok (settle_op i r t)" using o(1) t(3) q
    unfolding order_ok_def settle_op_fields settle_op_parts [OF t(2)] q by (simp only: list.set ball_empty) blast
  moreover have "accounts_ok (settle_op i r t)" "traffic_ok (settle_op i r t)"
    using settle_op_accounts [OF o(2) t(2), of r] settle_op_traffic [OF t(2) o(3)] by (simp_all add: r_def)
  moreover have "task_ok (settle_op i r t)"
  proof (rule task_ok_cong [OF o(4)])
    show "ws_tasks t = [] \<Longrightarrow> ws_queue (settle_op i r t) = []" using o(4) by (simp add: task_ok_iff)
    show "op_le (op_at t j) (op_at (settle_op i r t) j) \<and> wo_sent (op_at (settle_op i r t) j) = wo_sent (op_at t j)" for j
      using t(2) by (simp add: settle_op_at)
  qed simp_all
  ultimately have "write_inv (settle_op i r t)" by (simp add: write_inv_def core_ok_def)
  moreover have "write_inv (u\<lparr>ws_timedOut := x\<rparr>)" if "write_inv u" for u x
    using that task_ok_cong [of u "u\<lparr>ws_timedOut := x\<rparr>"] by (auto simp: write_inv_def task_ok_iff)
  ultimately show ?thesis using t(1)
    by (simp add: graceExpired_def Let_def t_def [symmetric] r_def [symmetric] del: core_ok_more)
qed

lemma task_at_inv:
  assumes "write_inv s" "k < length (ws_tasks s)" "ws_tasks s ! k = task"
  shows "take k (ws_tasks s) @ drop (Suc k) (ws_tasks s) = [] \<and>
    (case task of
       AwaitWrite i e c \<Rightarrow> running i (s\<lparr>ws_tasks := []\<rparr>) \<and> c = chunk_at s i e \<and> wo_sent (op_at s i) < e \<and> e \<le> op_len s i \<and>
         e \<le> wo_sent (op_at s i) + lm_chunkBytes (ws_limits s)
     | AwaitResult i r \<Rightarrow> running i (s\<lparr>ws_tasks := []\<rparr>) \<and> (\<not> wo_settled (op_at s i) \<longrightarrow> result_ok (op_at s i) r))"
  using assms by (auto simp: write_inv_def task_ok_iff running_def less_Suc_eq)

lemma graces_kept:
  "write_ok s \<Longrightarrow> write_le s t \<Longrightarrow> ws_grace t = ws_grace s \<Longrightarrow> write_inv t \<Longrightarrow> write_ok t"
  by (auto simp: write_ok_def write_le_def)

lemma sched_step_ok:
  assumes "write_ok s" "sched_step s ev s'"
  shows "write_ok s'"
  using assms(2,1)
proof (induction rule: sched_step.induct)
  case (ws_enqueue s p th adm hk)
  show ?case by (rule graces_kept [OF ws_enqueue enqueue_le]) (use ws_enqueue in \<open>simp_all add: enqueue_inv write_ok_def\<close>)
next
  case (ws_driver k s i e c w hk)
  have t: "take k (ws_tasks s) @ drop (Suc k) (ws_tasks s) = []" "running i (s\<lparr>ws_tasks := []\<rparr>)"
    "c = chunk_at (s\<lparr>ws_tasks := []\<rparr>) i e" "wo_sent (op_at s i) < e" "e \<le> op_len s i" "e \<le> wo_sent (op_at s i) + lm_chunkBytes (ws_limits s)"
    using task_at_inv [of s k, OF _ ws_driver.hyps(1,2)] ws_driver.prems by (simp_all add: write_ok_def)
  show ?case unfolding t(1)
    by (rule graces_kept [OF ws_driver.prems write_le_trans [OF write_le_fields after_write_le]])
      (use t(2,4-) after_write_inv [OF t(2), of e] in \<open>simp_all add: t(3)\<close>)
next
  case (ws_return k s i r hk)
  have t: "take k (ws_tasks s) @ drop (Suc k) (ws_tasks s) = []" "running i (s\<lparr>ws_tasks := []\<rparr>)"
    "\<not> wo_settled (op_at s i) \<longrightarrow> result_ok (op_at s i) r"
    using task_at_inv [of s k, OF _ ws_return.hyps(1,2)] ws_return.prems by (simp_all add: write_ok_def)
  show ?case unfolding t(1)
    by (rule graces_kept [OF ws_return.prems write_le_trans [OF write_le_fields after_result_le]])
      (use t(2-) in \<open>auto intro: after_result_inv\<close>)
next
  case (ws_shutdown s)
  have o: "\<And>i. ws_active s = Some i \<Longrightarrow> i < length (ws_ops s)" using ws_shutdown by (simp add: write_ok_def write_inv_def core_ok_def order_ok_def)
  have "write_inv (shutdown s)" using ws_shutdown by (simp add: write_ok_def shutdown_inv)
  moreover have "\<forall>i \<in> set (ws_grace (shutdown s)). i < length (ws_ops (shutdown s)) \<and> \<not> ws_accepting (shutdown s)"
    using ws_shutdown o by (auto simp: write_ok_def shutdown_def Let_def cancel_queued_accepting split: option.splits)
  ultimately show ?case by (simp add: write_ok_def)
next
  case (ws_graceCompleted i s)
  then show ?case using waits_inv(3) [of s i] by (auto simp: write_ok_def graceCompleted_def dest: notin_set_remove1)
next
  case (ws_graceExpired i s)
  have i: "i < length (ws_ops s)" "\<not> ws_accepting s" using ws_graceExpired by (auto simp: write_ok_def)
  have "ws_grace (graceExpired i s) = remove1 i (ws_grace s)" "length (ws_ops (graceExpired i s)) = length (ws_ops s)"
    "ws_accepting (graceExpired i s) = ws_accepting s" by (simp_all add: graceExpired_def Let_def)
  then show ?case using ws_graceExpired graceExpired_inv [OF _ i] by (auto simp: write_ok_def dest: notin_set_remove1)
next
  case (ws_wait s w b)
  show ?case by (rule graces_kept [OF ws_wait sched_step_le [OF sched_step.ws_wait]])
      (use ws_wait in \<open>simp_all add: waits_inv write_ok_def\<close>)
next
  case (ws_abort s w)
  show ?case by (rule graces_kept [OF ws_abort sched_step_le [OF sched_step.ws_abort]])
      (use ws_abort in \<open>simp_all add: waits_inv write_ok_def\<close>)
qed

definition fresh_scheduler :: "write_scheduler \<Rightarrow> bool" where
  "fresh_scheduler s \<longleftrightarrow> (\<exists>a b c. new_scheduler a b c = Inr s)"

lemma fresh_ok: "fresh_scheduler s \<Longrightarrow> write_ok s"
  by (auto simp: fresh_scheduler_def new_scheduler_def scheduler_with_def positive_integer_limit_def write_ok_def
      write_inv_def core_ok_def accounts_ok_def order_ok_def traffic_ok_def task_ok_def split: if_splits)

interpretation write_safe: invariant_machine sched_step fresh_scheduler write_ok
  by unfold_locales (auto intro: fresh_ok sched_step_ok)

section \<open>Draining\<close>

text \<open>One turn of the event loop with a driver that writes every chunk it is given in full.\<close>

definition driver_turn :: "hooks \<Rightarrow> write_scheduler \<Rightarrow> write_scheduler" where
  "driver_turn hk s = (case ws_tasks s of
       [AwaitWrite i e c] \<Rightarrow> after_write i e c (Some (js_int (int (length c)))) hk (s\<lparr>ws_tasks := []\<rparr>)
     | [AwaitResult i r] \<Rightarrow> after_result i r hk (s\<lparr>ws_tasks := []\<rparr>)
     | _ \<Rightarrow> s)"

definition may_write :: "hooks \<Rightarrow> write_operation \<Rightarrow> bool" where
  "may_write hk v \<longleftrightarrow> authorized (hk_start hk) (wo_admission v) \<and> authorized (hk_chunk hk) (wo_admission v) \<and> \<not> wo_startThrows v"

definition completing :: "drain_task \<Rightarrow> bool" where
  "completing t = (case t of AwaitWrite i e c \<Rightarrow> True | AwaitResult i r \<Rightarrow> rs_outcome r = CompleteOutcome)"

definition cooperative :: "hooks \<Rightarrow> write_scheduler \<Rightarrow> bool" where
  "cooperative hk s \<longleftrightarrow> ws_accepting s \<and> list_all completing (ws_tasks s) \<and>
     list_all (\<lambda>v. wo_settled v \<or> may_write hk v) (ws_ops s)"

definition smooth :: "write_scheduler \<Rightarrow> write_scheduler \<Rightarrow> bool" where
  "smooth s t \<longleftrightarrow> ws_ops t = ws_ops s \<and> ws_accepting t \<and> list_all completing (ws_tasks t)"

definition remaining_work :: "write_scheduler \<Rightarrow> nat" where
  "remaining_work s = sum_list (map op_rest (ws_ops s)) + sum_list (map op_open (ws_ops s))"

lemma write_chunk_smooth:
  "\<not> wo_settled (op_at s i) \<Longrightarrow> ws_accepting s \<Longrightarrow> may_write hk (op_at s i) \<Longrightarrow> ws_tasks s = [] \<Longrightarrow> smooth s (write_chunk i e hk s)"
  by (simp add: smooth_def write_chunk_def Let_def may_write_def await_task_def completing_def)

lemma write_loop_smooth:
  "\<not> wo_settled (op_at s i) \<Longrightarrow> ws_accepting s \<Longrightarrow> may_write hk (op_at s i) \<Longrightarrow> ws_tasks s = [] \<Longrightarrow>
    wo_sent (op_at s i) \<le> op_len s i \<Longrightarrow> smooth s (write_loop i hk s)"
  using write_chunk_smooth [of s i hk]
  by (simp add: write_loop_def Let_def smooth_def await_task_def completing_def complete_result_def)

lemma drain_loop_smooth:
  "\<forall>j \<in> set q. \<not> wo_settled (op_at s j) \<and> may_write hk (op_at s j) \<and> wo_sent (op_at s j) \<le> op_len s j \<Longrightarrow>
    ws_accepting s \<Longrightarrow> ws_tasks s = [] \<Longrightarrow> smooth s (drain_loop q hk s)"
proof (cases q)
  case Nil
  assume "ws_accepting s" "ws_tasks s = []"
  then show ?thesis using Nil by (simp add: smooth_def resolveIdleWaiters_def)
next
  case (Cons i q')
  assume a: "\<forall>j \<in> set q. \<not> wo_settled (op_at s j) \<and> may_write hk (op_at s j) \<and> wo_sent (op_at s j) \<le> op_len s j"
    "ws_accepting s" "ws_tasks s = []"
  have "smooth (s\<lparr>ws_queue := q', ws_active := Some i\<rparr>) (write_loop i hk (s\<lparr>ws_queue := q', ws_active := Some i\<rparr>))"
    using a Cons by (intro write_loop_smooth) simp_all
  then show ?thesis using a Cons by (simp add: writeOperation_def may_write_def smooth_def)
qed

lemma smooth_cooperative:
  "smooth t u \<Longrightarrow> list_all (\<lambda>v. wo_settled v \<or> may_write hk v) (ws_ops t) \<Longrightarrow> cooperative hk u"
  by (simp add: smooth_def cooperative_def)

definition advanced :: "write_scheduler \<Rightarrow> write_scheduler \<Rightarrow> bool" where
  "advanced s t \<longleftrightarrow> length (ws_ops t) = length (ws_ops s) \<and>
     (\<forall>k < length (ws_ops s). \<not> wo_settled (op_at t k) \<or> wo_settled (op_at s k) \<and> op_at t k = op_at s k \<or>
        (\<exists>r. wo_result (op_at t k) = Some r \<and> rs_outcome r = CompleteOutcome))"

lemma advanced_trans:
  assumes "advanced s t" "advanced t u"
  shows "advanced s u"
  unfolding advanced_def
proof (intro conjI allI impI)
  fix k assume k: "k < length (ws_ops s)"
  then have "k < length (ws_ops t)" using assms(1) by (simp add: advanced_def)
  with k assms show "\<not> wo_settled (op_at u k) \<or> wo_settled (op_at s k) \<and> op_at u k = op_at s k \<or>
      (\<exists>r. wo_result (op_at u k) = Some r \<and> rs_outcome r = CompleteOutcome)"
    unfolding advanced_def by metis
qed (use assms in \<open>simp add: advanced_def\<close>)

lemma may_write_upd:
  "list_all (\<lambda>v. wo_settled v \<or> may_write hk v) xs \<Longrightarrow> wo_settled w \<or> may_write hk w \<Longrightarrow>
    list_all (\<lambda>v. wo_settled v \<or> may_write hk v) (xs[i := w])"
  by (auto simp: list_all_iff dest!: set_update_subset_insert [THEN subsetD])

lemma turn_write:
  assumes "running i s" "cooperative hk s" "\<not> wo_settled (op_at s i)" "wo_sent (op_at s i) < e" "e \<le> op_len s i"
  defines "t \<equiv> after_write i e (chunk_at s i e) (Some (js_int (int (e - wo_sent (op_at s i))))) hk s"
  shows "cooperative hk t \<and> remaining_work t < remaining_work s \<and> advanced s t"
proof -
  let ?n = "e - wo_sent (op_at s i)"
  let ?v = "op_at s i\<lparr>wo_sent := e\<rparr>"
  define u where "u = s\<lparr>ws_ops := (ws_ops s)[i := ?v], ws_outBytes := ws_outBytes s - int ?n,
    ws_wire := ws_wire s @ take ?n (drop (wo_sent (op_at s i)) (wo_payload (op_at s i)))\<rparr>"
  have i: "i < length (ws_ops s)" by (rule running_op [OF assms(1)])
  have tk: "ws_tasks s = []" using assms(1) by (simp add: running_def)
  have acc: "ws_accepting s" and all: "list_all (\<lambda>v. wo_settled v \<or> may_write hk v) (ws_ops s)"
    using assms(2) by (simp_all add: cooperative_def)
  then have m: "may_write hk (op_at s i)" using assms(3) i by (metis list_all_length)
  have t: "t = write_loop i hk u"
  proof -
    obtain n where "e = wo_sent (op_at s i) + n" "0 < n" using assms(4) by (metis less_imp_add_positive)
    then show ?thesis using assms(3,5) acc by (simp add: t_def after_write_def Let_def u_def)
  qed
  have sm: "smooth u (write_loop i hk u)"
    using assms(3,5) acc tk m i by (intro write_loop_smooth) (simp_all add: u_def may_write_def)
  then have ops: "ws_ops t = (ws_ops s)[i := ?v]" by (simp add: t smooth_def u_def)
  have "cooperative hk t" unfolding t
    by (rule smooth_cooperative [OF sm]) (use all m in \<open>simp add: u_def may_write_upd may_write_def [of hk "op_at s i\<lparr>wo_sent := e\<rparr>"] may_write_def [of hk "op_at s i"]\<close>)
  moreover have "remaining_work t < remaining_work s"
    using sum_list_upd [OF i, of op_rest ?v] sum_list_upd [OF i, of op_open ?v] assms(3-5)
    by (simp add: remaining_work_def ops op_rest_def op_open_def)
  moreover have "advanced s t" using assms(3) by (auto simp: advanced_def ops nth_list_update i)
  ultimately show ?thesis by simp
qed

lemma turn_result:
  assumes "running i s" "cooperative hk s" "\<not> wo_settled (op_at s i)" "rs_outcome r = CompleteOutcome"
  defines "t \<equiv> after_result i r hk s"
  shows "cooperative hk t \<and> remaining_work t < remaining_work s \<and> advanced s t"
proof -
  let ?v = "op_at s i\<lparr>wo_settled := True, wo_result := Some r\<rparr>"
  define u where "u = settle_op i r s\<lparr>ws_active := None\<rparr>"
  have i: "i < length (ws_ops s)" by (rule running_op [OF assms(1)])
  have f: "ws_tasks s = []" "ws_active s = Some i" "order_ok s" "accounts_ok s" using assms(1) by (simp_all add: running_def core_ok_def)
  have acc: "ws_accepting s" and all: "list_all (\<lambda>v. wo_settled v \<or> may_write hk v) (ws_ops s)"
    using assms(2) by (simp_all add: cooperative_def)
  have uo: "ws_ops u = (ws_ops s)[i := ?v]" using assms(3) by (simp add: u_def settle_op_def)
  have q: "\<forall>j \<in> set (ws_queue s). j < length (ws_ops s) \<and> \<not> wo_settled (op_at s j) \<and> i \<noteq> j"
    using f(2,3) by (auto simp: order_ok_def)
  have "\<forall>j \<in> set (ws_queue s). \<not> wo_settled (op_at u j) \<and> may_write hk (op_at u j) \<and> wo_sent (op_at u j) \<le> op_len u j"
    using q all f(4) by (auto simp: uo nth_list_update list_all_length accounts_ok_def op_ok_def)
  then have sm: "smooth u (drain_loop (ws_queue s) hk u)"
    using acc f(1) by (intro drain_loop_smooth) (simp_all add: u_def)
  have t: "t = drain_loop (ws_queue s) hk u" using f(2) by (simp add: t_def after_result_def Let_def u_def)
  then have ops: "ws_ops t = (ws_ops s)[i := ?v]" using sm by (simp add: smooth_def uo)
  have "cooperative hk t" unfolding t
    by (rule smooth_cooperative [OF sm]) (use all in \<open>simp add: uo may_write_upd\<close>)
  moreover have "remaining_work t < remaining_work s"
    using sum_list_upd [OF i, of op_rest ?v] sum_list_upd [OF i, of op_open ?v] assms(3)
    by (simp add: remaining_work_def ops op_rest_def op_open_def)
  moreover have "advanced s t" using assms(3,4) by (auto simp: advanced_def ops nth_list_update i)
  ultimately show ?thesis by simp
qed

lemma driver_turn_step:
  assumes "write_ok s" "cooperative hk s" "ws_tasks s \<noteq> []"
  shows "reaches sched_step s (driver_turn hk s) \<and> write_ok (driver_turn hk s) \<and> cooperative hk (driver_turn hk s) \<and>
    remaining_work (driver_turn hk s) < remaining_work s \<and> advanced s (driver_turn hk s)"
proof -
  have inv: "core_ok s" "task_ok s" using assms(1) by (simp_all add: write_ok_def write_inv_def)
  have same: "remaining_work (s\<lparr>ws_tasks := []\<rparr>) = remaining_work s" "advanced (s\<lparr>ws_tasks := []\<rparr>) = advanced s"
    "cooperative hk (s\<lparr>ws_tasks := []\<rparr>)"
    using assms(2) by (simp_all add: remaining_work_def advanced_def cooperative_def fun_eq_iff)
  from inv(2) assms(3) consider (w) i e where "ws_tasks s = [AwaitWrite i e (chunk_at s i e)]" "ws_active s = Some i" "ws_draining s"
      "wo_sent (op_at s i) < e" "e \<le> op_len s i"
    | (r) i r where "ws_tasks s = [AwaitResult i r]" "ws_active s = Some i" "ws_draining s"
    unfolding task_ok_iff by blast
  then show ?thesis
  proof cases
    case w
    have u: "\<not> wo_settled (op_at s i)" using inv(1) w(2) assms(2) by (auto simp: core_ok_def order_ok_def cooperative_def)
    have run: "running i (s\<lparr>ws_tasks := []\<rparr>)" using inv(1) w by (simp add: running_def)
    have d: "driver_turn hk s = after_write i e (chunk_at s i e) (Some (js_int (int (e - wo_sent (op_at s i))))) hk (s\<lparr>ws_tasks := []\<rparr>)"
      using w(5) by (simp add: driver_turn_def w(1))
    have "sched_step s (DriverReturns (Some (js_int (int (e - wo_sent (op_at s i))))) hk) (driver_turn hk s)"
      using sched_step.ws_driver [of 0 s i e "chunk_at s i e"] w(1) by (simp add: d)
    then show ?thesis using turn_write [OF run same(3), of e] u w(4,5) sched_step_ok [OF assms(1)]
      by (auto simp: d same(1,2) intro: reaches_one)
  next
    case r
    have u: "\<not> wo_settled (op_at s i)" using inv(1) r(2) assms(2) by (auto simp: core_ok_def order_ok_def cooperative_def)
    have run: "running i (s\<lparr>ws_tasks := []\<rparr>)" using inv(1) r by (simp add: running_def)
    have c: "rs_outcome r = CompleteOutcome" using assms(2) r(1) by (simp add: cooperative_def completing_def)
    have d: "driver_turn hk s = after_result i r hk (s\<lparr>ws_tasks := []\<rparr>)" by (simp add: driver_turn_def r(1))
    have "sched_step s (OperationReturns hk) (driver_turn hk s)"
      using sched_step.ws_return [of 0 s i r] r(1) by (simp add: d)
    then show ?thesis using turn_result [OF run same(3) _ c] u sched_step_ok [OF assms(1)]
      by (auto simp: d same(1,2) intro: reaches_one)
  qed
qed

lemma driver_drains:
  "write_ok s \<Longrightarrow> cooperative hk s \<Longrightarrow>
    \<exists>n. reaches sched_step s ((driver_turn hk ^^ n) s) \<and> write_ok ((driver_turn hk ^^ n) s) \<and>
      ws_tasks ((driver_turn hk ^^ n) s) = [] \<and> advanced s ((driver_turn hk ^^ n) s)"
proof (induction "remaining_work s" arbitrary: s rule: less_induct)
  case less
  show ?case
  proof (cases "ws_tasks s = []")
    case True
    have "advanced s s" by (auto simp: advanced_def)
    with True less.prems show ?thesis by (intro exI [of _ 0]) auto
  next
    case False
    note step = driver_turn_step [OF less.prems False]
    obtain n where n: "reaches sched_step (driver_turn hk s) ((driver_turn hk ^^ n) (driver_turn hk s))"
      "write_ok ((driver_turn hk ^^ n) (driver_turn hk s))" "ws_tasks ((driver_turn hk ^^ n) (driver_turn hk s)) = []"
      "advanced (driver_turn hk s) ((driver_turn hk ^^ n) (driver_turn hk s))"
      using less.hyps [of "driver_turn hk s"] step by auto
    have e: "(driver_turn hk ^^ Suc n) s = (driver_turn hk ^^ n) (driver_turn hk s)" by (simp only: funpow_Suc_right comp_apply)
    show ?thesis
      using n step reaches_trans [OF _ n(1)] advanced_trans [OF _ n(4)]
      by (intro exI [of _ "Suc n"]) (simp only: e simp_thms)
  qed
qed

section \<open>Properties\<close>

lemma op_ok_result: "op_ok v \<Longrightarrow> wo_settled v = (wo_result v \<noteq> None)"
  by (auto simp: op_ok_def split: if_splits)

lemma op_ok_complete:
  "op_ok v \<Longrightarrow> wo_result v = Some r \<Longrightarrow> rs_outcome r = CompleteOutcome \<Longrightarrow> wo_sent v = length (wo_payload v)"
  by (auto simp: op_ok_def result_ok_def split: if_splits)

text \<open>C9. Whatever the callers, the driver, the gate, the timers and the aborts do: at most one
  drain coroutine is suspended (so at most one driver call is outstanding), the two counters are
  exactly the number of unsettled operations and their unsent bytes, they stay within the limits
  the scheduler was made with, and a promise has a result exactly when its operation is settled.\<close>

theorem write_queue_bounded:
  assumes "fresh_scheduler s0" "reaches sched_step s0 s"
  shows "length (ws_tasks s) \<le> 1 \<and> (ws_draining s \<longleftrightarrow> ws_tasks s \<noteq> []) \<and>
    ws_outOps s = int (length (filter (\<lambda>v. \<not> wo_settled v) (ws_ops s))) \<and>
    ws_outBytes s = int (sum_list (map (\<lambda>v. length (wo_payload v) - wo_sent v) (filter (\<lambda>v. \<not> wo_settled v) (ws_ops s)))) \<and>
    ws_outOps s \<le> int (lm_maxOperations (ws_limits s0)) \<and> ws_outBytes s \<le> int (lm_maxQueuedBytes (ws_limits s0)) \<and>
    list_all (\<lambda>v. wo_settled v = (wo_result v \<noteq> None)) (ws_ops s)"
proof -
  have ok: "core_ok s" "task_ok s" using write_safe.reachable_inv [OF assms] by (simp_all add: write_ok_def write_inv_def)
  have l: "ws_limits s = ws_limits s0" using write_growth.le_run [OF assms(2)] by (simp add: write_le_def)
  have a: "sum_list (map op_open vs) = length (filter (\<lambda>v. \<not> wo_settled v) vs)" for vs
    by (induction vs) (simp_all add: op_open_def)
  have b: "sum_list (map op_rest vs) = sum_list (map (\<lambda>v. length (wo_payload v) - wo_sent v) (filter (\<lambda>v. \<not> wo_settled v) vs))" for vs
    by (induction vs) (simp_all add: op_rest_def)
  have t: "length (ws_tasks s) \<le> 1 \<and> (ws_draining s \<longleftrightarrow> ws_tasks s \<noteq> [])"
    using ok(2) by (auto simp: task_ok_iff)
  have r: "list_all (\<lambda>v. wo_settled v = (wo_result v \<noteq> None)) (ws_ops s)"
    using ok(1) op_ok_result by (simp add: core_ok_def accounts_ok_def list_all_iff)
  show ?thesis using ok(1) l t r by (simp add: core_ok_def accounts_ok_def a b)
qed


text \<open>After \<open>shutdown\<close> the driver is not called again and nothing is accepted or left
  queued, whatever happens next; and an operation that was settled keeps its one result.\<close>

theorem write_after_shutdown:
  assumes "fresh_scheduler s0" "reaches sched_step s0 s" "reaches sched_step (shutdown s) t"
  shows "ws_calls t = ws_calls s \<and> length (ws_ops t) = length (ws_ops s) \<and> ws_queue t = [] \<and> \<not> ws_accepting t \<and>
    list_all (\<lambda>k. \<not> wo_settled (op_at s k) \<or> op_at t k = op_at s k) [0..<length (ws_ops s)]"
proof -
  have ok: "write_ok s" by (rule write_safe.reachable_inv [OF assms(1,2)])
  have sh: "\<not> ws_accepting (shutdown s)" "ws_calls (shutdown s) = ws_calls s"
  proof -
    have "ws_calls (cancel_queued q u) = ws_calls u" for q u by (induction q u rule: cancel_queued.induct) simp_all
    then show "\<not> ws_accepting (shutdown s)" "ws_calls (shutdown s) = ws_calls s"
      by (auto simp: shutdown_def Let_def split: option.splits)
  qed
  have le: "write_le (shutdown s) t" "write_le s (shutdown s)"
    using write_growth.le_run [OF assms(3)] by (simp_all add: shutdown_le)
  have "length (ws_ops (shutdown s)) = length (ws_ops s)" by (auto simp: shutdown_def Let_def split: option.splits)
  moreover have "write_ok t"
    using write_safe.inv_kept [OF assms(3)] sched_step_ok [OF ok sched_step.ws_shutdown] by blast
  moreover have "write_le s t" using write_le_trans [OF le(2,1)] .
  ultimately show ?thesis using le sh
    by (auto simp: write_le_def write_ok_def write_inv_def core_ok_def order_ok_def list_all_iff op_le_def)
qed

text \<open>C8. Nothing waits for ever: from any reachable state of an open scheduler whose gate admits the
  waiting operations, finitely many turns of a driver that writes what it is given complete every
  unsettled operation, leave the queue idle and resolve all who wait for that.\<close>

theorem write_drains:
  assumes "fresh_scheduler s0" "reaches sched_step s0 s" "cooperative hk s"
  shows "\<exists>n t. t = (driver_turn hk ^^ n) s \<and> reaches sched_step s t \<and> write_isIdle t \<and> ws_waiters t = [] \<and>
    length (ws_ops t) = length (ws_ops s) \<and>
    list_all (\<lambda>k. wo_settled (op_at s k) \<and> op_at t k = op_at s k \<or>
      (\<exists>r. wo_result (op_at t k) = Some r \<and> rs_outcome r = CompleteOutcome \<and> wo_sent (op_at t k) = op_len t k)) [0..<length (ws_ops s)]"
proof -
  obtain n where n: "reaches sched_step s ((driver_turn hk ^^ n) s)" "write_ok ((driver_turn hk ^^ n) s)"
    "ws_tasks ((driver_turn hk ^^ n) s) = []" "advanced s ((driver_turn hk ^^ n) s)"
    using driver_drains [OF write_safe.reachable_inv [OF assms(1,2)] assms(3)] by blast
  define t where "t = (driver_turn hk ^^ n) s"
  have inv: "core_ok t" "task_ok t" using n(2) by (simp_all add: t_def write_ok_def write_inv_def)
  have idle: "write_isIdle t" "ws_waiters t = []" using inv(2) n(3) by (auto simp: task_ok_iff t_def write_isIdle_def)
  have "wo_settled (op_at t k) \<and> op_ok (op_at t k)" if "k < length (ws_ops t)" for k
    using inv(1) idle(1) that by (auto simp: core_ok_def order_ok_def accounts_ok_def write_isIdle_def)
  then have "list_all (\<lambda>k. wo_settled (op_at s k) \<and> op_at t k = op_at s k \<or>
      (\<exists>r. wo_result (op_at t k) = Some r \<and> rs_outcome r = CompleteOutcome \<and> wo_sent (op_at t k) = op_len t k)) [0..<length (ws_ops s)]"
    using n(4) op_ok_complete unfolding list_all_iff advanced_def t_def [symmetric] by (metis atLeastLessThan_iff set_upt)
  moreover have "length (ws_ops t) = length (ws_ops s)" using n(4) by (simp add: advanced_def t_def)
  ultimately show ?thesis using n(1) idle t_def by blast
qed

section \<open>Witnesses\<close>

definition demo_hooks :: hooks where
  "demo_hooks = \<lparr>hk_enqueue = None, hk_start = None, hk_chunk = None\<rparr>"

definition demo_start :: write_scheduler where
  "demo_start = scheduler_with \<lparr>lm_maxOperations = 4, lm_maxQueuedBytes = 8, lm_chunkBytes = 2\<rparr>"

definition demo_busy :: write_scheduler where
  "demo_busy = snd (enqueue [4] False None demo_hooks (snd (enqueue [1, 2, 3] False None demo_hooks demo_start)))"

lemma demo_fresh: "fresh_scheduler demo_start"
proof -
  have "new_scheduler (js_int 4) (js_int 8) (js_int 2) = Inr demo_start"
    by (simp add: new_scheduler_def positive_integer_limit_def demo_start_def)
  then show ?thesis unfolding fresh_scheduler_def by blast
qed

lemma demo_reaches: "reaches sched_step demo_start demo_busy"
  unfolding demo_busy_def by (rule reaches_trans [OF reaches_one reaches_one]) (rule ws_enqueue)+

lemmas demo_simps = demo_busy_def demo_start_def demo_hooks_def scheduler_with_def enqueue_def drain_def writeOperation_def
  authorized_def write_loop_def write_chunk_def await_task_def Let_def

theorem write_queue_bounded_witness: "length (ws_tasks demo_busy) = 1 \<and> ws_outOps demo_busy = 2 \<and> ws_outBytes demo_busy \<le> 8"
  using write_queue_bounded [OF demo_fresh demo_reaches] by (simp add: demo_simps)


theorem write_after_shutdown_witness: "ws_queue (shutdown demo_busy) = [] \<and> length (ws_ops (shutdown demo_busy)) = 2"
  using write_after_shutdown [OF demo_fresh demo_reaches reaches_refl] by (simp add: demo_simps)

theorem write_drains_witness:
  "\<exists>n. write_isIdle ((driver_turn demo_hooks ^^ n) demo_busy) \<and>
     (\<exists>r. wo_result (op_at ((driver_turn demo_hooks ^^ n) demo_busy) 1) = Some r \<and> rs_outcome r = CompleteOutcome)"
proof -
  have c: "cooperative demo_hooks demo_busy"
    by (simp add: demo_simps cooperative_def completing_def may_write_def)
  have two: "length (ws_ops demo_busy) = 2" "\<not> wo_settled (op_at demo_busy 1)" by (simp_all add: demo_simps)
  show ?thesis using write_drains [OF demo_fresh demo_reaches c] two by (auto simp: numeral_2_eq_2)
qed

end
