(* ===== verification/JsStrings.thy ===== *)
theory JsStrings
  imports Prelude "HOL-Library.Sublist"
begin

text \<open>
  The string operations of JavaScript that the registries use, on strings whose code units are
  below 256 (a \<open>string\<close> of HOL): \<open>trim\<close>, character classes of the regular expressions,
  \<open>split\<close> and \<open>join\<close> on one character, and the identifier patterns.
\<close>

section \<open>Characters\<close>

definition code :: "char \<Rightarrow> nat" where
  "code c = of_char c"

definition is_space :: "char \<Rightarrow> bool" where
  "is_space c \<longleftrightarrow> code c \<in> {9, 10, 11, 12, 13, 32, 160}"

definition is_control :: "char \<Rightarrow> bool" where
  "is_control c \<longleftrightarrow> code c \<le> 31 \<or> (127 \<le> code c \<and> code c \<le> 159)"

definition is_digit :: "char \<Rightarrow> bool" where
  "is_digit c \<longleftrightarrow> 48 \<le> code c \<and> code c \<le> 57"

definition is_upper :: "char \<Rightarrow> bool" where
  "is_upper c \<longleftrightarrow> 65 \<le> code c \<and> code c \<le> 90"

definition is_lower :: "char \<Rightarrow> bool" where
  "is_lower c \<longleftrightarrow> 97 \<le> code c \<and> code c \<le> 122"

definition is_letter :: "char \<Rightarrow> bool" where
  "is_letter c \<longleftrightarrow> is_upper c \<or> is_lower c"

definition is_alnum :: "char \<Rightarrow> bool" where
  "is_alnum c \<longleftrightarrow> is_letter c \<or> is_digit c"

definition to_lower :: "char \<Rightarrow> char" where
  "to_lower c = (if is_upper c then char_of (code c + 32) else c)"

lemmas char_classes = is_space_def is_control_def is_digit_def is_upper_def is_lower_def is_letter_def is_alnum_def code_def

section \<open>Trimming\<close>

definition trim_start :: "string \<Rightarrow> string" where
  "trim_start s = dropWhile is_space s"

definition trim :: "string \<Rightarrow> string" where
  "trim s = rev (trim_start (rev (trim_start s)))"

lemma trim_eq_iff: "trim s = s \<longleftrightarrow> s = [] \<or> (\<not> is_space (hd s) \<and> \<not> is_space (last s))"
proof -
  have len: "length (trim s) \<le> length (dropWhile is_space s)"
    unfolding trim_def trim_start_def using length_dropWhile_le [of is_space "rev (dropWhile is_space s)"] by simp
  show ?thesis
  proof (cases s)
    case (Cons c cs)
    show ?thesis
    proof (cases "is_space c")
      case True
      have "length (dropWhile is_space cs) \<le> length cs" by (rule length_dropWhile_le)
      then have "length (trim s) < length s" using len True Cons by simp
      then show ?thesis using True Cons by auto
    next
      case False
      then have t: "trim s = rev (dropWhile is_space (rev s))" using Cons by (simp add: trim_def trim_start_def)
      obtain r rs where r: "rev s = r # rs" using Cons by (metis neq_Nil_conv rev_is_Nil_conv)
      have l: "last s = r" by (metis r last_rev list.sel(1) rev_rev_ident rev_is_Nil_conv hd_rev Cons list.distinct(1))
      show ?thesis
      proof (cases "is_space r")
        case True
        have "length (dropWhile is_space rs) \<le> length rs" by (rule length_dropWhile_le)
        moreover have "length s = Suc (length rs)" by (metis r length_rev length_Cons)
        ultimately have "length (trim s) < length s" unfolding t r using True by simp
        then show ?thesis using True l Cons by auto
      next
        case no: False
        then have "trim s = s" unfolding t r by (metis dropWhile.simps(2) r rev_rev_ident)
        then show ?thesis using False no l Cons by simp
      qed
    qed
  qed (simp add: trim_def trim_start_def)
qed

section \<open>Split and join on one character\<close>

fun split_on :: "char \<Rightarrow> string \<Rightarrow> string list" where
  "split_on d [] = [[]]"
| "split_on d (c # cs) = (if c = d then [] # split_on d cs
     else case split_on d cs of [] \<Rightarrow> [[c]] | p # ps \<Rightarrow> (c # p) # ps)"

fun join_with :: "char \<Rightarrow> string list \<Rightarrow> string" where
  "join_with d [] = []"
| "join_with d [p] = p"
| "join_with d (p # ps) = p @ d # join_with d ps"

lemma split_on_ne: "split_on d s \<noteq> []"
  by (induction s) (auto split: list.splits)

lemma split_on_parts: "p \<in> set (split_on d s) \<Longrightarrow> d \<notin> set p \<and> set p \<subseteq> set s"
proof (induction s arbitrary: p)
  case (Cons c cs)
  then show ?case by (fastforce split: if_splits list.splits)
qed simp

lemma split_on_append: "d \<notin> set p \<Longrightarrow> split_on d (p @ d # s) = p # split_on d s"
  by (induction p) auto

lemma split_on_none: "d \<notin> set p \<Longrightarrow> split_on d p = [p]"
  by (induction p) auto

lemma split_join: "ps \<noteq> [] \<Longrightarrow> \<forall>p \<in> set ps. d \<notin> set p \<Longrightarrow> split_on d (join_with d ps) = ps"
  by (induction d ps rule: join_with.induct) (simp_all add: split_on_none split_on_append)

section \<open>Identifiers\<close>

text \<open>\<open>/^[A-Za-z0-9][A-Za-z0-9._:-]*$/\<close>\<close>

definition is_id_char :: "char \<Rightarrow> bool" where
  "is_id_char c \<longleftrightarrow> is_alnum c \<or> c \<in> {CHR ''.'', CHR ''_'', CHR '':'', CHR ''-''}"

definition identity_pattern :: "string \<Rightarrow> bool" where
  "identity_pattern s = (case s of [] \<Rightarrow> False | c # cs \<Rightarrow> is_alnum c \<and> list_all is_id_char cs)"

text \<open>\<open>/^[a-z][a-z0-9_.-]{0,127}$/i\<close>\<close>

definition key_pattern :: "string \<Rightarrow> bool" where
  "key_pattern s = (case s of [] \<Rightarrow> False
     | c # cs \<Rightarrow> is_letter c \<and> length cs \<le> 127 \<and>
         list_all (\<lambda>c. is_alnum c \<or> c \<in> {CHR ''_'', CHR ''.'', CHR ''-''}) cs)"

lemma id_char_not_space: "is_id_char c \<Longrightarrow> \<not> is_space c"
  by (auto simp: is_id_char_def char_classes)

lemma alnum_not_space: "is_alnum c \<Longrightarrow> \<not> is_space c"
  by (auto simp: char_classes)

lemma identity_trim: "identity_pattern s \<Longrightarrow> trim s = s"
  by (cases s) (auto simp: identity_pattern_def trim_eq_iff alnum_not_space id_char_not_space list_all_iff)

end
