(* ===== verification/PortLeases.thy ===== *)
theory PortLeases
  imports JsStrings Machine
begin

text \<open>
  Ownership of serial ports within the application, \<open>port-lease-registry.ts\<close>: canonical
  port names, the registry with its two indexes, and its observers.

  A \<open>StoredPortLease\<close> is one mutable object reached through both maps, so leases live in a
  store and the maps hold their addresses; the address of a lease is its \<open>sequence\<close>.  A
  \<open>Map\<close> is an association list in insertion order.  \<open>pr_delivered\<close> logs every snapshot
  handed to an observer; an observer's exception is swallowed by the code and changes nothing.
\<close>

section \<open>Canonical port names\<close>

datatype port_platform = Windows | Unix | Other

datatype held_state = Opening | Connected | Reconnecting | LeaseFailed | Closing

record port_conflict =
  pc_ownerSessionId :: string
  pc_ownerSessionName :: string
  pc_canonicalPort :: string

datatype port_error =
    PortTypeError
  | PortLeaseInUse port_conflict
  | InvalidPortLeaseTransition held_state held_state
  | PortLeaseOwnership
  | PortLeaseRegistryShutdown
  | PortLeaseIdCollision
  | LeaseIdFactoryFailed

definition canonicalPortCharacters :: nat where "canonicalPortCharacters = 512"
definition sessionIdCharacters :: nat where "sessionIdCharacters = 256"
definition sessionNameCharacters :: nat where "sessionNameCharacters = 128"
definition leaseIdCharacters :: nat where "leaseIdCharacters = 128"

definition containsControlCharacter :: "string \<Rightarrow> bool" where
  "containsControlCharacter s = list_ex is_control s"

definition validatePortText :: "string \<Rightarrow> port_error + string" where
  "validatePortText s =
     (if length s = 0 \<or> length s > canonicalPortCharacters \<or> s \<noteq> trim s \<or> containsControlCharacter s
      then Inl PortTypeError else Inr s)"

definition validateCanonicalPort :: "string option \<Rightarrow> port_error + string" where
  "validateCanonicalPort s = (case s of None \<Rightarrow> Inl PortTypeError | Some v \<Rightarrow> validatePortText v)"

definition validateOpaqueId :: "string \<Rightarrow> nat \<Rightarrow> port_error + string" where
  "validateOpaqueId s maximum =
     (if length s = 0 \<or> length s > maximum \<or> s \<noteq> trim s \<or> \<not> identity_pattern s then Inl PortTypeError else Inr s)"

definition validateSessionName :: "string \<Rightarrow> port_error + string" where
  "validateSessionName s =
     (let normalized = trim s in
      if length normalized = 0 \<or> length normalized > sessionNameCharacters \<or> containsControlCharacter normalized
      then Inl PortTypeError else Inr normalized)"

text \<open>\<open>/^(?:\\\\\.\\)?COM([1-9]\d{0,4})$/i\<close>: the digits, when it matches.\<close>

definition com_number :: "string \<Rightarrow> string option" where
  "com_number s =
     (case s of
        a # b # c # d # ds \<Rightarrow>
          if map to_lower [a, b, c] = ''com'' \<and> is_digit d \<and> d \<noteq> CHR ''0'' \<and> length ds \<le> 4 \<and> list_all is_digit ds
          then Some (d # ds) else None
      | _ \<Rightarrow> None)"

definition device_prefix :: string where
  "device_prefix = [CHR 0x5C, CHR 0x5C, CHR ''.'', CHR 0x5C]"

definition windows_com_port :: "string \<Rightarrow> string option" where
  "windows_com_port s =
     (if take 4 s = device_prefix then com_number (drop 4 s) else com_number s)"

definition canonicalizeWindowsPort :: "string \<Rightarrow> port_error + string" where
  "canonicalizeWindowsPort s =
     (case windows_com_port s of None \<Rightarrow> Inl PortTypeError | Some ds \<Rightarrow> Inr (''COM'' @ ds))"

fun unix_parts :: "string list \<Rightarrow> port_error + string list" where
  "unix_parts [] = Inr []"
| "unix_parts (part # rest) =
     (if part = ''..'' then Inl PortTypeError
      else bind_ok (unix_parts rest) (\<lambda>ps. Inr (if part \<noteq> [] \<and> part \<noteq> ''.'' then part # ps else ps)))"

definition canonicalizeUnixPort :: "string \<Rightarrow> port_error + string" where
  "canonicalizeUnixPort s =
     (if take 5 s \<noteq> ''/dev/'' then Inl PortTypeError
      else bind_ok (unix_parts (split_on (CHR ''/'') (drop 1 s))) (\<lambda>parts.
        if parts = [] \<or> hd parts \<noteq> ''dev'' \<or> length parts < 2 then Inl PortTypeError
        else Inr (CHR ''/'' # join_with (CHR ''/'') parts)))"

definition canonicalizeOtherPort :: "string \<Rightarrow> port_error + string" where
  "canonicalizeOtherPort s =
     (if take 1 s = ''/'' \<or> take 2 s = [CHR 0x5C, CHR 0x5C] \<or>
         (length s \<ge> 3 \<and> is_letter (s ! 0) \<and> s ! 1 = CHR '':'' \<and> (s ! 2 = CHR 0x5C \<or> s ! 2 = CHR ''/''))
      then Inr s else Inl PortTypeError)"

definition canonicalizePort :: "port_platform \<Rightarrow> string \<Rightarrow> port_error + string" where
  "canonicalizePort platform port =
     bind_ok (validatePortText port) (\<lambda>input.
       case platform of
         Windows \<Rightarrow> canonicalizeWindowsPort input
       | Unix \<Rightarrow> canonicalizeUnixPort input
       | Other \<Rightarrow> canonicalizeOtherPort input)"

text \<open>\<open>detectPortPlatform\<close>; the argument is \<open>navigator.platform\<close> where there is one.\<close>

definition detectPortPlatform :: "string option \<Rightarrow> port_platform" where
  "detectPortPlatform nav =
     (let platform = (case nav of None \<Rightarrow> [] | Some p \<Rightarrow> map to_lower p) in
      if sublist ''win'' platform then Windows
      else if list_ex (\<lambda>name. sublist name platform)
                [''mac'', ''linux'', ''unix'', ''bsd'', ''sunos'', ''aix'', ''android''] then Unix
      else Other)"

section \<open>The registry\<close>

record port_owner =
  ow_sessionId :: string
  ow_sessionName :: string
  ow_canonicalPort :: string

record port_lease =
  le_leaseId :: string
  le_owner :: port_owner
  le_state :: held_state
  le_sequence :: nat

record port_grant =
  gr_leaseId :: string
  gr_owner :: port_owner
  gr_state :: held_state

text \<open>\<open>options.platform\<close>, \<open>options.canonicalizer\<close> (which may return \<open>undefined\<close>), or neither.\<close>

datatype port_policy = PlatformPolicy port_platform | CustomPolicy "string \<Rightarrow> string option" | DetectedPolicy "string option"

record port_registry =
  pr_policy :: port_policy
  pr_store :: "port_lease list"
  pr_byPort :: "(string \<times> nat) list"
  pr_byId :: "(string \<times> nat) list"
  pr_listeners :: "nat list"
  pr_shutDown :: bool
  pr_delivered :: "(nat \<times> port_grant list) list"

definition canonicalizer :: "port_policy \<Rightarrow> string \<Rightarrow> port_error + string" where
  "canonicalizer pol port =
     (case pol of
        CustomPolicy custom \<Rightarrow> bind_ok (validatePortText port) (\<lambda>p. validateCanonicalPort (custom p))
      | PlatformPolicy platform \<Rightarrow> canonicalizePort platform port
      | DetectedPolicy nav \<Rightarrow> canonicalizePort (detectPortPlatform nav) port)"

definition new_registry :: "port_platform option \<Rightarrow> (string \<Rightarrow> string option) option \<Rightarrow> string option \<Rightarrow> port_error + port_registry" where
  "new_registry platform custom nav =
     (if platform \<noteq> None \<and> custom \<noteq> None then Inl PortTypeError
      else Inr \<lparr>pr_policy = (case custom of Some c \<Rightarrow> CustomPolicy c
          | None \<Rightarrow> (case platform of Some p \<Rightarrow> PlatformPolicy p | None \<Rightarrow> DetectedPolicy nav)),
        pr_store = [], pr_byPort = [], pr_byId = [], pr_listeners = [], pr_shutDown = False, pr_delivered = []\<rparr>)"

definition freezeGrant :: "port_lease \<Rightarrow> port_grant" where
  "freezeGrant l = \<lparr>gr_leaseId = le_leaseId l, gr_owner = le_owner l, gr_state = le_state l\<rparr>"

abbreviation lease_at :: "port_registry \<Rightarrow> nat \<Rightarrow> port_lease" where
  "lease_at s a \<equiv> pr_store s ! a"

definition held :: "port_registry \<Rightarrow> port_lease list" where
  "held s = map (lease_at s \<circ> snd) (pr_byId s)"

definition port_snapshot :: "port_registry \<Rightarrow> port_grant list" where
  "port_snapshot s = map freezeGrant (sort_key le_sequence (held s))"

definition notify_ports :: "port_registry \<Rightarrow> port_registry" where
  "notify_ports s = s\<lparr>pr_delivered := pr_delivered s @ map (\<lambda>l. (l, port_snapshot s)) (pr_listeners s)\<rparr>"

definition acquire :: "string \<Rightarrow> string \<Rightarrow> string \<Rightarrow> string option \<Rightarrow> port_registry \<Rightarrow>
    (port_error + port_grant) \<times> port_registry" where
  "acquire port sessionId sessionName factory s =
     (if pr_shutDown s then (Inl PortLeaseRegistryShutdown, s)
      else case canonicalizer (pr_policy s) port of Inl e \<Rightarrow> (Inl e, s) | Inr canonical \<Rightarrow>
      (case validateOpaqueId sessionId sessionIdCharacters of Inl e \<Rightarrow> (Inl e, s) | Inr ownerId \<Rightarrow>
      (case validateSessionName sessionName of Inl e \<Rightarrow> (Inl e, s) | Inr ownerName \<Rightarrow>
      (case map_of (pr_byPort s) canonical of
         Some a \<Rightarrow>
           let owner = le_owner (lease_at s a) in
           if ow_sessionId owner = ownerId then (Inr (freezeGrant (lease_at s a)), s)
           else (Inl (PortLeaseInUse \<lparr>pc_ownerSessionId = ow_sessionId owner, pc_ownerSessionName = ow_sessionName owner,
                        pc_canonicalPort = ow_canonicalPort owner\<rparr>), s)
       | None \<Rightarrow>
           (case factory of None \<Rightarrow> (Inl LeaseIdFactoryFailed, s) | Some made \<Rightarrow>
           (case validateOpaqueId made leaseIdCharacters of Inl e \<Rightarrow> (Inl e, s) | Inr leaseId \<Rightarrow>
            if map_of (pr_byId s) leaseId \<noteq> None then (Inl PortLeaseIdCollision, s)
            else
              let a = length (pr_store s);
                  lease = \<lparr>le_leaseId = leaseId,
                    le_owner = \<lparr>ow_sessionId = ownerId, ow_sessionName = ownerName, ow_canonicalPort = canonical\<rparr>,
                    le_state = Opening, le_sequence = a\<rparr>
              in (Inr (freezeGrant lease),
                  notify_ports (s\<lparr>pr_store := pr_store s @ [lease], pr_byPort := pr_byPort s @ [(canonical, a)],
                    pr_byId := pr_byId s @ [(leaseId, a)]\<rparr>))))))))"

definition requireOwnedLease :: "string \<Rightarrow> string \<Rightarrow> port_registry \<Rightarrow> port_error + nat" where
  "requireOwnedLease leaseId sessionId s =
     bind_ok (validateOpaqueId leaseId leaseIdCharacters) (\<lambda>l.
       bind_ok (validateOpaqueId sessionId sessionIdCharacters) (\<lambda>o'.
         case map_of (pr_byId s) l of
           None \<Rightarrow> Inl PortLeaseOwnership
         | Some a \<Rightarrow> if ow_sessionId (le_owner (lease_at s a)) \<noteq> o' then Inl PortLeaseOwnership else Inr a))"

definition allowed_transition :: "held_state \<Rightarrow> held_state \<Rightarrow> bool" where
  "allowed_transition from to \<longleftrightarrow>
     (case from of
        Opening \<Rightarrow> to \<in> {Connected, LeaseFailed, Closing}
      | Connected \<Rightarrow> to \<in> {Reconnecting, LeaseFailed, Closing}
      | Reconnecting \<Rightarrow> to \<in> {Connected, LeaseFailed, Closing}
      | LeaseFailed \<Rightarrow> False
      | Closing \<Rightarrow> False)"

definition lease_transition :: "string \<Rightarrow> string \<Rightarrow> held_state \<Rightarrow> port_registry \<Rightarrow> (port_error + port_grant) \<times> port_registry" where
  "lease_transition leaseId sessionId st s =
     (if pr_shutDown s then (Inl PortLeaseRegistryShutdown, s)
      else case requireOwnedLease leaseId sessionId s of Inl e \<Rightarrow> (Inl e, s) | Inr a \<Rightarrow>
        if \<not> allowed_transition (le_state (lease_at s a)) st
        then (Inl (InvalidPortLeaseTransition (le_state (lease_at s a)) st), s)
        else
          let s' = notify_ports (s\<lparr>pr_store := (pr_store s)[a := lease_at s a\<lparr>le_state := st\<rparr>]\<rparr>)
          in (Inr (freezeGrant (lease_at s' a)), s'))"

definition drop_key :: "'k \<Rightarrow> ('k \<times> 'v) list \<Rightarrow> ('k \<times> 'v) list" where
  "drop_key k xs = filter (\<lambda>e. fst e \<noteq> k) xs"

definition release :: "string \<Rightarrow> string \<Rightarrow> port_registry \<Rightarrow> (port_error + bool) \<times> port_registry" where
  "release leaseId sessionId s =
     (case validateOpaqueId leaseId leaseIdCharacters of Inl e \<Rightarrow> (Inl e, s) | Inr l \<Rightarrow>
     (case validateOpaqueId sessionId sessionIdCharacters of Inl e \<Rightarrow> (Inl e, s) | Inr o' \<Rightarrow>
     (case map_of (pr_byId s) l of
        None \<Rightarrow> (Inr False, s)
      | Some a \<Rightarrow>
          if ow_sessionId (le_owner (lease_at s a)) \<noteq> o' then (Inr False, s)
          else (Inr True, notify_ports (s\<lparr>pr_byId := drop_key l (pr_byId s),
                  pr_byPort := drop_key (ow_canonicalPort (le_owner (lease_at s a))) (pr_byPort s)\<rparr>)))))"

fun release_all :: "port_lease list \<Rightarrow> port_registry \<Rightarrow> port_registry" where
  "release_all [] s = s"
| "release_all (l # ls) s =
     release_all ls (s\<lparr>pr_byId := drop_key (le_leaseId l) (pr_byId s),
       pr_byPort := drop_key (ow_canonicalPort (le_owner l)) (pr_byPort s)\<rparr>)"

definition releaseSession :: "string \<Rightarrow> port_registry \<Rightarrow> (port_error + nat) \<times> port_registry" where
  "releaseSession sessionId s =
     (case validateOpaqueId sessionId sessionIdCharacters of Inl e \<Rightarrow> (Inl e, s) | Inr o' \<Rightarrow>
      let owned = filter (\<lambda>l. ow_sessionId (le_owner l) = o') (held s);
          s' = release_all owned s
      in (Inr (length owned), if length owned > 0 then notify_ports s' else s'))"

definition getByPort :: "string \<Rightarrow> port_registry \<Rightarrow> port_error + port_grant option" where
  "getByPort port s = bind_ok (canonicalizer (pr_policy s) port) (\<lambda>canonical.
     Inr (map_option (freezeGrant \<circ> lease_at s) (map_of (pr_byPort s) canonical)))"

definition getBySession :: "string \<Rightarrow> port_registry \<Rightarrow> port_error + port_grant list" where
  "getBySession sessionId s = bind_ok (validateOpaqueId sessionId sessionIdCharacters) (\<lambda>o'.
     Inr (map freezeGrant (sort_key le_sequence (filter (\<lambda>l. ow_sessionId (le_owner l) = o') (held s)))))"

definition subscribe :: "nat \<Rightarrow> port_registry \<Rightarrow> port_registry" where
  "subscribe l s = s\<lparr>pr_listeners := (if l \<in> set (pr_listeners s) then pr_listeners s else pr_listeners s @ [l]),
     pr_delivered := pr_delivered s @ [(l, port_snapshot s)]\<rparr>"

definition unsubscribe :: "nat \<Rightarrow> port_registry \<Rightarrow> port_registry" where
  "unsubscribe l s = s\<lparr>pr_listeners := removeAll l (pr_listeners s)\<rparr>"

definition shutdown_registry :: "port_registry \<Rightarrow> nat \<times> port_registry" where
  "shutdown_registry s =
     (if pr_shutDown s then (0, s)
      else
        let released = length (pr_byId s);
            s1 = s\<lparr>pr_shutDown := True, pr_byId := [], pr_byPort := []\<rparr>;
            s2 = (if released > 0 then notify_ports s1 else s1)
        in (released, s2\<lparr>pr_listeners := []\<rparr>))"

section \<open>Events\<close>

datatype port_event =
    Acquire string string string "string option"
  | Transition string string held_state
  | Release string string
  | ReleaseSession string
  | Subscribe nat
  | Unsubscribe nat
  | ShutdownRegistry

fun port_apply :: "port_event \<Rightarrow> port_registry \<Rightarrow> port_registry" where
  "port_apply (Acquire p i n f) s = snd (acquire p i n f s)"
| "port_apply (Transition l i st) s = snd (lease_transition l i st s)"
| "port_apply (Release l i) s = snd (release l i s)"
| "port_apply (ReleaseSession i) s = snd (releaseSession i s)"
| "port_apply (Subscribe l) s = subscribe l s"
| "port_apply (Unsubscribe l) s = unsubscribe l s"
| "port_apply ShutdownRegistry s = snd (shutdown_registry s)"

section \<open>Canonical names are canonical\<close>

lemma to_lower_com: "map to_lower ''COM'' = ''com''"
  by (simp add: to_lower_def is_upper_def code_def) (simp add: char_of_eq_iff)

lemma com_number_lower: "com_number (a # b # c # ds) = Some r \<Longrightarrow> ds = r \<and> com_number (CHR ''C'' # CHR ''O'' # CHR ''M'' # r) = Some r"
  using to_lower_com by (cases ds) (auto simp: com_number_def split: if_splits)

lemma windows_canonical: "windows_com_port s = Some r \<Longrightarrow> windows_com_port (''COM'' @ r) = Some r"
proof -
  assume w: "windows_com_port s = Some r"
  obtain t where t: "com_number t = Some r" using w by (auto simp: windows_com_port_def split: if_splits)
  then obtain a b c ds where "t = a # b # c # ds" by (auto simp: com_number_def split: list.splits)
  with t have n: "com_number (''COM'' @ r) = Some r" using com_number_lower by simp
  have "take 4 (''COM'' @ r) \<noteq> device_prefix" by (simp add: device_prefix_def)
  then show ?thesis using n by (simp add: windows_com_port_def)
qed

lemma windows_text: "windows_com_port s = Some r \<Longrightarrow> validatePortText (''COM'' @ r) = Inr (''COM'' @ r)"
proof -
  assume w: "windows_com_port s = Some r"
  then have d: "r \<noteq> []" "length r \<le> 5" "list_all is_digit r"
    by (auto simp: windows_com_port_def com_number_def split: if_splits list.splits)
  have "\<not> is_space (last r)" using d by (metis alnum_not_space is_alnum_def last_in_set list_all_iff)
  then have "trim (''COM'' @ r) = ''COM'' @ r" using d by (simp add: trim_eq_iff char_classes)
  moreover have "\<not> containsControlCharacter (''COM'' @ r)"
    using d(3) by (auto simp: containsControlCharacter_def list_ex_iff list_all_iff char_classes)
  ultimately show ?thesis using d by (simp add: validatePortText_def canonicalPortCharacters_def)
qed

lemma unix_parts_Inr:
  "unix_parts ps = Inr qs \<longleftrightarrow> ''..'' \<notin> set ps \<and> qs = filter (\<lambda>p. p \<noteq> [] \<and> p \<noteq> ''.'') ps"
proof (induction ps arbitrary: qs)
  case (Cons p ps)
  show ?case using Cons.IH by (auto simp: bind_ok_eq_Inr)
qed auto

lemma unix_canonical:
  assumes "canonicalizeUnixPort s = Inr r"
  shows "canonicalizeUnixPort r = Inr r"
proof -
  let ?c = "CHR ''/''"
  obtain parts where p: "unix_parts (split_on ?c (drop 1 s)) = Inr parts" "parts \<noteq> []" "hd parts = ''dev''"
      "2 \<le> length parts" "r = ?c # join_with ?c parts"
    using assms by (auto simp: canonicalizeUnixPort_def bind_ok_eq_Inr split: if_splits)
  have ne: "\<forall>q \<in> set parts. q \<noteq> [] \<and> q \<noteq> ''.'' \<and> q \<noteq> ''..'' \<and> ?c \<notin> set q"
    using p(1) split_on_parts unfolding unix_parts_Inr by auto
  have split: "split_on ?c (drop 1 r) = parts" using p(2,5) ne by (simp add: split_join)
  have "filter (\<lambda>q. q \<noteq> [] \<and> q \<noteq> ''.'') parts = parts" using ne unfolding filter_id_conv by blast
  moreover have "''..'' \<notin> set parts" using ne by blast
  ultimately have parts: "unix_parts (split_on ?c (drop 1 r)) = Inr parts" unfolding split unix_parts_Inr by metis
  obtain q qs where "parts = ''dev'' # q # qs"
  proof (cases parts)
    case (Cons a as)
    then show ?thesis using p(3,4) that by (cases as) simp_all
  qed (use p(2) in simp)
  then have "take 5 r = ''/dev/''" using p(5) by simp
  then show ?thesis using parts p by (simp add: canonicalizeUnixPort_def)
qed

lemma canonicalizer_twice:
  assumes "canonicalizePort platform port = Inr r" "validatePortText r = Inr r"
  shows "canonicalizePort platform r = Inr r"
proof -
  have v: "validatePortText port = Inr port" using assms(1)
    by (auto simp: canonicalizePort_def bind_ok_eq_Inr validatePortText_def split: if_splits)
  show ?thesis
  proof (cases platform)
    case Windows
    then obtain ds where "windows_com_port port = Some ds" "r = ''COM'' @ ds"
      using assms(1) v by (auto simp: canonicalizePort_def canonicalizeWindowsPort_def split: option.splits)
    then show ?thesis using assms(2) Windows windows_canonical
      by (auto simp: canonicalizePort_def canonicalizeWindowsPort_def)
  next
    case Unix
    then show ?thesis using assms v unix_canonical by (simp add: canonicalizePort_def)
  next
    case Other
    then show ?thesis using assms v by (auto simp: canonicalizePort_def canonicalizeOtherPort_def split: if_splits)
  qed
qed

section \<open>The invariant\<close>

definition lease_valid :: "port_lease \<Rightarrow> bool" where
  "lease_valid l \<longleftrightarrow> identity_pattern (le_leaseId l) \<and> length (le_leaseId l) \<le> 128 \<and>
     identity_pattern (ow_sessionId (le_owner l)) \<and> length (ow_sessionId (le_owner l)) \<le> 256"

definition store_ok :: "port_registry \<Rightarrow> bool" where
  "store_ok s \<longleftrightarrow> (\<forall>a < length (pr_store s). le_sequence (lease_at s a) = a \<and> lease_valid (lease_at s a))"

definition index_ok :: "port_registry \<Rightarrow> bool" where
  "index_ok s \<longleftrightarrow> distinct (map fst (pr_byPort s)) \<and> distinct (map fst (pr_byId s)) \<and>
     (\<forall>(p, a) \<in> set (pr_byPort s). a < length (pr_store s) \<and> ow_canonicalPort (le_owner (lease_at s a)) = p \<and>
        (le_leaseId (lease_at s a), a) \<in> set (pr_byId s)) \<and>
     (\<forall>(l, a) \<in> set (pr_byId s). a < length (pr_store s) \<and> le_leaseId (lease_at s a) = l \<and>
        (ow_canonicalPort (le_owner (lease_at s a)), a) \<in> set (pr_byPort s)) \<and>
     (pr_shutDown s \<longrightarrow> pr_byId s = [] \<and> pr_byPort s = [])"

definition observers_ok :: "port_registry \<Rightarrow> bool" where
  "observers_ok s \<longleftrightarrow> (\<forall>l \<in> set (pr_listeners s). map_of (rev (pr_delivered s)) l = Some (port_snapshot s))"

definition port_ok :: "port_registry \<Rightarrow> bool" where
  "port_ok s \<longleftrightarrow> store_ok s \<and> index_ok s \<and> observers_ok s"

lemma distinct_key: "distinct (map fst xs) \<Longrightarrow> (k, a) \<in> set xs \<Longrightarrow> (k, b) \<in> set xs \<Longrightarrow> a = b"
  by (metis eq_key_imp_eq_value)

lemma drop_key_set [simp]: "x \<in> set (drop_key k xs) \<longleftrightarrow> x \<in> set xs \<and> fst x \<noteq> k"
  by (auto simp: drop_key_def)

lemma drop_key_distinct: "distinct (map fst xs) \<Longrightarrow> distinct (map fst (drop_key k xs))"
  by (simp add: drop_key_def distinct_map_filter)

lemma map_of_const: "l \<in> set ls \<Longrightarrow> map_of (rev (map (\<lambda>l. (l, v)) ls)) l = Some v"
  by (induction ls) (auto simp: map_add_def split: option.splits dest: map_of_SomeD)

lemma notify_fields [simp]:
  "pr_policy (notify_ports s) = pr_policy s" "pr_store (notify_ports s) = pr_store s"
  "pr_byPort (notify_ports s) = pr_byPort s" "pr_byId (notify_ports s) = pr_byId s"
  "pr_listeners (notify_ports s) = pr_listeners s" "pr_shutDown (notify_ports s) = pr_shutDown s"
  by (simp_all add: notify_ports_def)

lemma snapshot_cong: "pr_store t = pr_store s \<Longrightarrow> pr_byId t = pr_byId s \<Longrightarrow> port_snapshot t = port_snapshot s"
  by (simp add: port_snapshot_def held_def)

lemma notify_ok: "store_ok s \<Longrightarrow> index_ok s \<Longrightarrow> port_ok (notify_ports s)"
proof -
  assume s: "store_ok s" "index_ok s"
  have "port_snapshot (notify_ports s) = port_snapshot s" by (rule snapshot_cong) simp_all
  then have "observers_ok (notify_ports s)"
    by (simp add: observers_ok_def notify_ports_def rev_append map_of_const map_add_def)
  moreover have "store_ok (notify_ports s)" using s(1) by (simp add: store_ok_def)
  moreover have "index_ok (notify_ports s)" using s(2) by (simp add: index_ok_def)
  ultimately show ?thesis by (simp add: port_ok_def)
qed

lemma index_drop:
  assumes "index_ok s" "(l, a) \<in> set (pr_byId s)" "p = ow_canonicalPort (le_owner (lease_at s a))"
  shows "index_ok (s\<lparr>pr_byId := drop_key l (pr_byId s), pr_byPort := drop_key p (pr_byPort s)\<rparr>)"
proof -
  have d: "distinct (map fst (pr_byPort s))" "distinct (map fst (pr_byId s))" using assms(1) by (simp_all add: index_ok_def)
  have P: "b < length (pr_store s) \<and> ow_canonicalPort (le_owner (lease_at s b)) = q \<and> (le_leaseId (lease_at s b), b) \<in> set (pr_byId s)"
    if "(q, b) \<in> set (pr_byPort s)" for q b using assms(1) that by (auto simp: index_ok_def)
  have I: "b < length (pr_store s) \<and> le_leaseId (lease_at s b) = m \<and> (ow_canonicalPort (le_owner (lease_at s b)), b) \<in> set (pr_byPort s)"
    if "(m, b) \<in> set (pr_byId s)" for m b using assms(1) that by (auto simp: index_ok_def)
  have pa: "(p, a) \<in> set (pr_byPort s)" "le_leaseId (lease_at s a) = l" using I [OF assms(2)] assms(3) by simp_all
  have "le_leaseId (lease_at s b) \<noteq> l" if "(q, b) \<in> set (pr_byPort s)" "q \<noteq> p" for q b
    using P [OF that(1)] that(2) distinct_key [OF d(2) assms(2)] assms(3) by metis
  moreover have "ow_canonicalPort (le_owner (lease_at s b)) \<noteq> p" if "(m, b) \<in> set (pr_byId s)" "m \<noteq> l" for m b
    using I [OF that(1)] that(2) distinct_key [OF d(1) pa(1)] pa(2) by metis
  ultimately show ?thesis
    using P I d assms(1) by (auto simp: index_ok_def drop_key_distinct) (auto simp: drop_key_def)
qed

lemma owned_entry:
  "index_ok s \<Longrightarrow> l \<in> set (held s) \<Longrightarrow> \<exists>a. (le_leaseId l, a) \<in> set (pr_byId s) \<and> l = lease_at s a"
  by (fastforce simp: held_def index_ok_def)

lemma release_all_ok:
  "index_ok s \<Longrightarrow> set ls \<subseteq> set (held s) \<Longrightarrow> distinct (map le_leaseId ls) \<Longrightarrow>
    index_ok (release_all ls s) \<and> pr_store (release_all ls s) = pr_store s \<and>
    pr_byId (release_all ls s) = filter (\<lambda>e. fst e \<notin> le_leaseId ` set ls) (pr_byId s) \<and>
    pr_listeners (release_all ls s) = pr_listeners s \<and> pr_delivered (release_all ls s) = pr_delivered s"
proof (induction ls s rule: release_all.induct)
  case (2 l ls s)
  let ?t = "s\<lparr>pr_byId := drop_key (le_leaseId l) (pr_byId s), pr_byPort := drop_key (ow_canonicalPort (le_owner l)) (pr_byPort s)\<rparr>"
  obtain a where a: "(le_leaseId l, a) \<in> set (pr_byId s)" "l = lease_at s a" using owned_entry "2.prems" by fastforce
  then have t: "index_ok ?t" using index_drop "2.prems"(1) by simp
  have "set ls \<subseteq> set (held ?t)"
  proof
    fix m assume m: "m \<in> set ls"
    then obtain b where "(le_leaseId m, b) \<in> set (pr_byId s)" "m = lease_at s b" using owned_entry "2.prems" by fastforce
    moreover have "le_leaseId m \<noteq> le_leaseId l" using m "2.prems"(3) by (metis distinct.simps(2) image_eqI list.set_map list.simps(9))
    ultimately show "m \<in> set (held ?t)" by (force simp: held_def)
  qed
  then show ?case using "2.IH" [OF t] "2.prems"(3) by (auto simp: drop_key_def intro!: filter_cong)
qed simp

lemma validate_id: "validateOpaqueId x n = Inr y \<longleftrightarrow> y = x \<and> identity_pattern x \<and> length x \<le> n"
  by (auto simp: validateOpaqueId_def identity_trim identity_pattern_def)

definition fresh_lease :: "port_registry \<Rightarrow> string \<Rightarrow> string \<Rightarrow> string \<Rightarrow> string \<Rightarrow> port_lease" where
  "fresh_lease s l i name canonical = \<lparr>le_leaseId = l,
     le_owner = \<lparr>ow_sessionId = i, ow_sessionName = name, ow_canonicalPort = canonical\<rparr>,
     le_state = Opening, le_sequence = length (pr_store s)\<rparr>"

definition with_lease :: "port_lease \<Rightarrow> port_registry \<Rightarrow> port_registry" where
  "with_lease v s = s\<lparr>pr_store := pr_store s @ [v],
     pr_byPort := pr_byPort s @ [(ow_canonicalPort (le_owner v), length (pr_store s))],
     pr_byId := pr_byId s @ [(le_leaseId v, length (pr_store s))]\<rparr>"

text \<open>The two ways in which \<open>acquire\<close> returns normally.\<close>

lemma acquire_Inr:
  "acquire port i n f s = (Inr g, s') \<longleftrightarrow> \<not> pr_shutDown s \<and> identity_pattern i \<and> length i \<le> 256 \<and>
     (\<exists>canonical name. canonicalizer (pr_policy s) port = Inr canonical \<and> validateSessionName n = Inr name \<and>
       (case map_of (pr_byPort s) canonical of
          Some a \<Rightarrow> ow_sessionId (le_owner (lease_at s a)) = i \<and> g = freezeGrant (lease_at s a) \<and> s' = s
        | None \<Rightarrow> \<exists>l. f = Some l \<and> identity_pattern l \<and> length l \<le> 128 \<and> map_of (pr_byId s) l = None \<and>
            g = freezeGrant (fresh_lease s l i name canonical) \<and>
            s' = notify_ports (with_lease (fresh_lease s l i name canonical) s)))"
proof (cases "pr_shutDown s \<or> \<not> (identity_pattern i \<and> length i \<le> 256)")
  case True
  then show ?thesis
    by (auto simp: acquire_def validateOpaqueId_def identity_trim sessionIdCharacters_def split: sum.splits)
next
  case False
  then have i: "validateOpaqueId i sessionIdCharacters = Inr i" "\<not> pr_shutDown s"
    by (simp_all add: validate_id sessionIdCharacters_def)
  show ?thesis
  proof (cases "canonicalizer (pr_policy s) port")
    case (Inr canonical)
    show ?thesis
    proof (cases "validateSessionName n")
      case name: (Inr name)
      show ?thesis
      proof (cases "map_of (pr_byPort s) canonical")
        case None
        then show ?thesis using False i Inr name
          by (cases f)
            (auto simp: acquire_def Let_def fresh_lease_def with_lease_def validateOpaqueId_def identity_trim
              leaseIdCharacters_def identity_pattern_def)
      next
        case (Some a)
        then show ?thesis using False i Inr name by (auto simp: acquire_def Let_def)
      qed
    qed (use i Inr in \<open>simp add: acquire_def\<close>)
  qed (use i in \<open>simp add: acquire_def\<close>)
qed

lemma acquire_Inl: "acquire port i n f s = (Inl e, s') \<Longrightarrow> s' = s"
  by (simp add: acquire_def Let_def split: if_splits sum.splits option.splits)

lemma index_add:
  assumes "index_ok s" "map_of (pr_byPort s) (ow_canonicalPort (le_owner v)) = None"
    "map_of (pr_byId s) (le_leaseId v) = None" "\<not> pr_shutDown s"
  shows "index_ok (with_lease v s)"
proof -
  have "ow_canonicalPort (le_owner v) \<notin> fst ` set (pr_byPort s)" "le_leaseId v \<notin> fst ` set (pr_byId s)"
    using assms(2,3) by (simp_all add: map_of_eq_None_iff)
  then show ?thesis using assms(1,4) unfolding index_ok_def with_lease_def
    by (fastforce simp: nth_append)
qed

lemma acquire_ok:
  assumes "port_ok s"
  shows "port_ok (snd (acquire port i n f s))"
proof (cases "acquire port i n f s")
  case (Pair r s')
  have s: "store_ok s" "index_ok s" using assms by (simp_all add: port_ok_def)
  show ?thesis
  proof (cases r)
    case (Inl e)
    then have "s' = s" using Pair acquire_Inl by blast
    then show ?thesis using Pair assms by simp
  next
    case (Inr g)
    then obtain canonical name where c: "\<not> pr_shutDown s" "identity_pattern i" "length i \<le> 256"
      "case map_of (pr_byPort s) canonical of
          Some a \<Rightarrow> ow_sessionId (le_owner (lease_at s a)) = i \<and> g = freezeGrant (lease_at s a) \<and> s' = s
        | None \<Rightarrow> \<exists>l. f = Some l \<and> identity_pattern l \<and> length l \<le> 128 \<and> map_of (pr_byId s) l = None \<and>
            g = freezeGrant (fresh_lease s l i name canonical) \<and>
            s' = notify_ports (with_lease (fresh_lease s l i name canonical) s)"
      using Pair by (auto simp: acquire_Inr)
    show ?thesis
    proof (cases "map_of (pr_byPort s) canonical")
      case None
      then obtain l where l: "identity_pattern l" "length l \<le> 128" "map_of (pr_byId s) l = None"
        "s' = notify_ports (with_lease (fresh_lease s l i name canonical) s)" using c(4) by auto
      have "index_ok (with_lease (fresh_lease s l i name canonical) s)"
        using index_add [OF s(2)] c(1) None l(3) by (simp add: fresh_lease_def)
      moreover have "store_ok (with_lease (fresh_lease s l i name canonical) s)"
        using s(1) c(2,3) l(1,2) by (auto simp: store_ok_def with_lease_def nth_append fresh_lease_def lease_valid_def)
      ultimately show ?thesis using l(4) Pair by (simp add: notify_ok)
    next
      case (Some a)
      then show ?thesis using c(4) Pair assms by simp
    qed
  qed
qed

lemma require_owned_Inr:
  "requireOwnedLease l i s = Inr a \<Longrightarrow> map_of (pr_byId s) l = Some a \<and> ow_sessionId (le_owner (lease_at s a)) = i"
  by (auto simp: requireOwnedLease_def bind_ok_eq_Inr validateOpaqueId_def split: if_splits option.splits)

lemma state_fields [simp]:
  "le_leaseId (xs[a := (xs ! a)\<lparr>le_state := st\<rparr>] ! b) = le_leaseId (xs ! b)"
  "le_owner (xs[a := (xs ! a)\<lparr>le_state := st\<rparr>] ! b) = le_owner (xs ! b)"
  "le_sequence (xs[a := (xs ! a)\<lparr>le_state := st\<rparr>] ! b) = le_sequence (xs ! b)"
proof -
  have "xs[a := v] ! b = (if a = b \<and> a < length xs then v else xs ! b)" for v
    by (cases "a < length xs") (simp_all add: nth_list_update list_update_beyond)
  then show "le_leaseId (xs[a := (xs ! a)\<lparr>le_state := st\<rparr>] ! b) = le_leaseId (xs ! b)"
    "le_owner (xs[a := (xs ! a)\<lparr>le_state := st\<rparr>] ! b) = le_owner (xs ! b)"
    "le_sequence (xs[a := (xs ! a)\<lparr>le_state := st\<rparr>] ! b) = le_sequence (xs ! b)" by simp_all
qed

lemma index_cong:
  assumes "index_ok s" "pr_byPort t = pr_byPort s" "pr_byId t = pr_byId s" "pr_shutDown t = pr_shutDown s"
    "length (pr_store t) = length (pr_store s)"
    "\<And>b. le_leaseId (lease_at t b) = le_leaseId (lease_at s b) \<and> le_owner (lease_at t b) = le_owner (lease_at s b)"
  shows "index_ok t"
  using assms(1) unfolding index_ok_def assms(2-5) assms(6) [THEN conjunct1] assms(6) [THEN conjunct2] .

lemma index_state: "index_ok s \<Longrightarrow> index_ok (s\<lparr>pr_store := (pr_store s)[a := lease_at s a\<lparr>le_state := st\<rparr>]\<rparr>)"
  by (erule index_cong) simp_all

lemma store_state: "store_ok s \<Longrightarrow> store_ok (s\<lparr>pr_store := (pr_store s)[a := lease_at s a\<lparr>le_state := st\<rparr>]\<rparr>)"
  by (simp add: store_ok_def lease_valid_def)

lemma transition_ok: "port_ok s \<Longrightarrow> port_ok (snd (lease_transition l i st s))"
  using notify_ok [OF store_state index_state, of s] 
  by (simp add: lease_transition_def Let_def port_ok_def split: sum.splits)

lemma release_ok:
  assumes "port_ok s"
  shows "port_ok (snd (release l i s))"
proof -
  have s: "store_ok s" "index_ok s" using assms by (simp_all add: port_ok_def)
  have "port_ok (notify_ports (s\<lparr>pr_byId := drop_key l (pr_byId s),
      pr_byPort := drop_key (ow_canonicalPort (le_owner (lease_at s a))) (pr_byPort s)\<rparr>))" if "map_of (pr_byId s) l = Some a" for a l
    using index_drop [OF s(2) map_of_SomeD [OF that] refl] s(1) by (intro notify_ok) (simp_all add: store_ok_def)
  then show ?thesis using assms by (auto simp: release_def split: sum.splits option.splits)
qed

lemma held_distinct: "index_ok s \<Longrightarrow> map le_leaseId (held s) = map fst (pr_byId s)"
  by (auto simp: held_def index_ok_def)

lemma releaseSession_ok:
  assumes "port_ok s"
  shows "port_ok (snd (releaseSession i s))"
proof (cases "validateOpaqueId i sessionIdCharacters")
  case (Inl e)
  then show ?thesis using assms by (simp add: releaseSession_def)
next
  case (Inr o')
  let ?own = "filter (\<lambda>l. ow_sessionId (le_owner l) = o') (held s)"
  have s: "store_ok s" "index_ok s" using assms by (simp_all add: port_ok_def)
  have "distinct (map le_leaseId (held s))" using s(2) held_distinct [OF s(2)] by (simp add: index_ok_def)
  then have "distinct (map le_leaseId ?own)" by (rule distinct_map_filter)
  then have r: "index_ok (release_all ?own s)" "pr_store (release_all ?own s) = pr_store s"
    using release_all_ok [OF s(2), of ?own] by auto
  then have "port_ok (notify_ports (release_all ?own s))" using s(1) by (intro notify_ok) (simp_all add: store_ok_def)
  then show ?thesis using assms Inr by (simp add: releaseSession_def Let_def)
qed

lemma port_apply_ok:
  assumes "port_ok s"
  shows "port_ok (port_apply e s)"
proof (cases e)
  case (Subscribe l)
  have "port_snapshot (subscribe l s) = port_snapshot s" by (rule snapshot_cong) (simp_all add: subscribe_def)
  then show ?thesis using assms Subscribe
    by (auto simp: port_ok_def store_ok_def index_ok_def observers_ok_def subscribe_def)
next
  case (Unsubscribe l)
  have "port_snapshot (unsubscribe l s) = port_snapshot s" by (rule snapshot_cong) (simp_all add: unsubscribe_def)
  then show ?thesis using assms Unsubscribe
    by (auto simp: port_ok_def store_ok_def index_ok_def observers_ok_def unsubscribe_def)
next
  case ShutdownRegistry
  then show ?thesis using assms
    by (auto simp: port_ok_def store_ok_def index_ok_def observers_ok_def shutdown_registry_def Let_def)
qed (use assms in \<open>simp_all add: acquire_ok transition_ok release_ok releaseSession_ok\<close>)

definition fresh_registry :: "port_registry \<Rightarrow> bool" where
  "fresh_registry s \<longleftrightarrow> (\<exists>platform custom nav. new_registry platform custom nav = Inr s)"

lemma fresh_registry_ok: "fresh_registry s \<Longrightarrow> port_ok s"
  by (auto simp: fresh_registry_def new_registry_def port_ok_def store_ok_def index_ok_def observers_ok_def split: if_splits)

interpretation port_safe: invariant_machine "runs_by port_apply" fresh_registry port_ok
  by unfold_locales (auto simp: fresh_registry_ok runs_by_def port_apply_ok)

lemmas port_run_ok = port_safe.reachable_inv [OF _ reaches_runs_by]

section \<open>Properties\<close>

text \<open>C37. After any sequence of calls the two indexes of the registry describe the same leases: no
  port and no lease identifier is held twice, every held lease is found under its own port and
  its own identifier, identifiers are well formed, and what each subscribed observer saw last is
  the current snapshot.\<close>

theorem port_indexes_agree:
  assumes "fresh_registry s0" "s = run_events port_apply es s0"
  shows "distinct (map (\<lambda>l. ow_canonicalPort (le_owner l)) (held s)) \<and> distinct (map le_leaseId (held s)) \<and>
    list_all (\<lambda>l. map_of (pr_byPort s) (ow_canonicalPort (le_owner l)) = Some (le_sequence l) \<and>
      map_of (pr_byId s) (le_leaseId l) = Some (le_sequence l) \<and> lease_valid l) (held s) \<and>
    length (pr_byPort s) = length (pr_byId s) \<and>
    list_all (\<lambda>l. map_of (rev (pr_delivered s)) l = Some (port_snapshot s)) (pr_listeners s)"
proof -
  have ok: "store_ok s" "index_ok s" "observers_ok s"
    using port_run_ok [OF assms(1), of es] by (simp_all add: assms(2) port_ok_def)
  have d: "distinct (map fst (pr_byPort s))" "distinct (map fst (pr_byId s))" using ok(2) by (simp_all add: index_ok_def)
  have ent: "\<exists>a < length (pr_store s). l = lease_at s a \<and> (le_leaseId l, a) \<in> set (pr_byId s) \<and>
      (ow_canonicalPort (le_owner l), a) \<in> set (pr_byPort s)" if "l \<in> set (held s)" for l
    using that ok(2) by (fastforce simp: held_def index_ok_def)
  have each: "map_of (pr_byPort s) (ow_canonicalPort (le_owner l)) = Some (le_sequence l) \<and>
      map_of (pr_byId s) (le_leaseId l) = Some (le_sequence l) \<and> lease_valid l" if "l \<in> set (held s)" for l
    using ent [OF that] ok(1) d by (auto simp: store_ok_def)
  have ids: "distinct (map le_leaseId (held s))" using held_distinct [OF ok(2)] d(2) by simp
  have "inj_on (\<lambda>l. ow_canonicalPort (le_owner l)) (set (held s))"
    by (intro inj_onI) (metis each ent d(1) distinct_key)
  then have ports: "distinct (map (\<lambda>l. ow_canonicalPort (le_owner l)) (held s))"
    using ids by (simp add: distinct_map)
  have "snd ` set (pr_byPort s) = snd ` set (pr_byId s)"
    using ok(2) by (force simp: index_ok_def image_iff)
  moreover have "distinct (map snd (pr_byPort s))" "distinct (map snd (pr_byId s))"
  proof -
    have "fst x = ow_canonicalPort (le_owner (lease_at s (snd x)))" if "x \<in> set (pr_byPort s)" for x
      using ok(2) that unfolding index_ok_def by auto
    moreover have "fst x = le_leaseId (lease_at s (snd x))" if "x \<in> set (pr_byId s)" for x
      using ok(2) that unfolding index_ok_def by auto
    ultimately have "inj_on snd (set (pr_byPort s))" "inj_on snd (set (pr_byId s))"
      by (intro inj_onI prod_eqI; metis)+
    then show "distinct (map snd (pr_byPort s))" "distinct (map snd (pr_byId s))"
      using d by (simp_all add: distinct_map)
  qed
  ultimately have "length (pr_byPort s) = length (pr_byId s)"
    by (metis distinct_card length_map set_map)
  then show ?thesis using each ids ports ok(3) by (simp add: list_all_iff observers_ok_def)
qed

text \<open>A successful \<open>acquire\<close> is exclusive and idempotent: afterwards the port resolves to
  the granted lease, the owner acquiring again (under any spelling with the same canonical name)
  gets the same grant and changes nothing, and any other session is refused with the owner's
  identity, also without a change.\<close>

theorem acquire_exclusive:
  assumes "fresh_registry s0" "s = run_events port_apply es s0" "acquire port i n f s = (Inr g, s')"
    and "canonicalizer (pr_policy s) port2 = canonicalizer (pr_policy s) port"
    and "identity_pattern j" "length j \<le> 256" "j \<noteq> i" "validateSessionName m = Inr name"
  shows "getByPort port2 s' = Inr (Some g) \<and> ow_sessionId (gr_owner g) = i \<and> acquire port2 i n f2 s' = (Inr g, s') \<and>
    acquire port2 j m f2 s' = (Inl (PortLeaseInUse \<lparr>pc_ownerSessionId = i, pc_ownerSessionName = ow_sessionName (gr_owner g),
      pc_canonicalPort = ow_canonicalPort (gr_owner g)\<rparr>), s')"
proof -
  have s: "store_ok s" "index_ok s" using port_run_ok [OF assms(1), of es] by (simp_all add: assms(2) port_ok_def)
  obtain canonical nm where c: "\<not> pr_shutDown s" "identity_pattern i" "length i \<le> 256"
      "canonicalizer (pr_policy s) port = Inr canonical" "validateSessionName n = Inr nm"
      "case map_of (pr_byPort s) canonical of
          Some a \<Rightarrow> ow_sessionId (le_owner (lease_at s a)) = i \<and> g = freezeGrant (lease_at s a) \<and> s' = s
        | None \<Rightarrow> \<exists>l. f = Some l \<and> identity_pattern l \<and> length l \<le> 128 \<and> map_of (pr_byId s) l = None \<and>
            g = freezeGrant (fresh_lease s l i nm canonical) \<and>
            s' = notify_ports (with_lease (fresh_lease s l i nm canonical) s)"
    using assms(3) unfolding acquire_Inr by blast
  have "\<exists>a. map_of (pr_byPort s') canonical = Some a \<and> ow_sessionId (le_owner (lease_at s' a)) = i \<and>
      g = freezeGrant (lease_at s' a) \<and> pr_policy s' = pr_policy s \<and> \<not> pr_shutDown s'"
  proof (cases "map_of (pr_byPort s) canonical")
    case None
    then obtain l where l: "g = freezeGrant (fresh_lease s l i nm canonical)"
      "s' = notify_ports (with_lease (fresh_lease s l i nm canonical) s)" using c(6) by auto
    have "map_of (pr_byPort s') canonical = Some (length (pr_store s))"
      "lease_at s' (length (pr_store s)) = fresh_lease s l i nm canonical"
      using None by (simp_all add: l(2) with_lease_def fresh_lease_def map_add_def)
    then show ?thesis using l c(1) by (simp add: with_lease_def fresh_lease_def)
  next
    case (Some a)
    then show ?thesis using c by auto
  qed
  then obtain a where a: "map_of (pr_byPort s') canonical = Some a" "ow_sessionId (le_owner (lease_at s' a)) = i"
      "g = freezeGrant (lease_at s' a)" "pr_policy s' = pr_policy s" "\<not> pr_shutDown s'" by blast
  have p: "canonicalizer (pr_policy s') port2 = Inr canonical" using a(4) assms(4) c(4) by simp
  have "acquire port2 i n f2 s' = (Inr g, s')" unfolding acquire_Inr using a p c by auto
  moreover have "acquire port2 j m f2 s' = (Inl (PortLeaseInUse \<lparr>pc_ownerSessionId = i,
      pc_ownerSessionName = ow_sessionName (gr_owner g), pc_canonicalPort = ow_canonicalPort (gr_owner g)\<rparr>), s')"
    using a p assms(5-8) validate_id [of j sessionIdCharacters j]
    by (simp add: acquire_def sessionIdCharacters_def freezeGrant_def Let_def)
  ultimately show ?thesis using a p by (simp add: getByPort_def freezeGrant_def)
qed

text \<open>Canonical names: a name that was made canonical, given again (as the registry does when it
  looks a port up by the name it stored), keeps its form on every platform, wherever it is
  accepted at all; on Windows it always is.\<close>

theorem canonical_name_stable:
  assumes "canonicalizePort platform port = Inr r"
  shows "(validatePortText r = Inr r \<longrightarrow> canonicalizePort platform r = Inr r) \<and>
    (platform = Windows \<longrightarrow> canonicalizePort platform r = Inr r) \<and>
    (platform = Other \<longrightarrow> r = port)"
proof -
  have "validatePortText r = Inr r" if "platform = Windows"
    using assms that windows_text
    by (auto simp: canonicalizePort_def bind_ok_eq_Inr canonicalizeWindowsPort_def split: option.splits)
  moreover have "r = port" if "platform = Other"
    using assms that by (auto simp: canonicalizePort_def bind_ok_eq_Inr canonicalizeOtherPort_def validatePortText_def split: if_splits)
  ultimately show ?thesis using canonicalizer_twice [OF assms] by blast
qed

section \<open>Witnesses\<close>

definition demo_registry :: port_registry where
  "demo_registry = \<lparr>pr_policy = PlatformPolicy Windows, pr_store = [], pr_byPort = [], pr_byId = [],
     pr_listeners = [], pr_shutDown = False, pr_delivered = []\<rparr>"

lemma demo_registry_fresh: "fresh_registry demo_registry"
proof -
  have "new_registry (Some Windows) None None = Inr demo_registry" by (simp add: new_registry_def demo_registry_def)
  then show ?thesis unfolding fresh_registry_def by blast
qed

lemma com3: "canonicalizePort Windows ''COM3'' = Inr ''COM3''"
  by (simp add: canonicalizePort_def validatePortText_def canonicalPortCharacters_def trim_eq_iff [THEN iffD2] 
      containsControlCharacter_def char_classes canonicalizeWindowsPort_def windows_com_port_def device_prefix_def
      com_number_def to_lower_com [simplified] trim_def trim_start_def)

theorem canonical_name_stable_witness: "canonicalizePort Windows ''COM3'' = Inr ''COM3''"
  using canonical_name_stable [OF com3] by simp

theorem port_indexes_agree_witness:
  "list_all (\<lambda>l. map_of (rev (pr_delivered (run_events port_apply [Subscribe 0, Acquire ''COM3'' ''s1'' ''bench'' (Some ''l1'')] demo_registry))) l
     = Some (port_snapshot (run_events port_apply [Subscribe 0, Acquire ''COM3'' ''s1'' ''bench'' (Some ''l1'')] demo_registry)))
     (pr_listeners (run_events port_apply [Subscribe 0, Acquire ''COM3'' ''s1'' ''bench'' (Some ''l1'')] demo_registry))"
  using port_indexes_agree [OF demo_registry_fresh refl] by blast

theorem acquire_exclusive_witness:
  "\<exists>g s'. acquire ''COM3'' ''s1'' ''bench'' (Some ''l1'') demo_registry = (Inr g, s') \<and>
     fst (acquire ''COM3'' ''s2'' ''other'' (Some ''l2'') s') =
       Inl (PortLeaseInUse \<lparr>pc_ownerSessionId = ''s1'', pc_ownerSessionName = ow_sessionName (gr_owner g),
         pc_canonicalPort = ow_canonicalPort (gr_owner g)\<rparr>)"
proof -
  have ids: "identity_pattern ''s1''" "identity_pattern ''s2''" "identity_pattern ''l1''"
    by (simp_all add: identity_pattern_def is_id_char_def char_classes)
  have names: "validateSessionName ''bench'' = Inr ''bench''" "validateSessionName ''other'' = Inr ''other''"
    by (simp_all add: validateSessionName_def trim_def trim_start_def sessionNameCharacters_def
        containsControlCharacter_def char_classes)
  obtain g s' where a: "acquire ''COM3'' ''s1'' ''bench'' (Some ''l1'') demo_registry = (Inr g, s')"
    unfolding acquire_Inr using ids names com3 by (simp add: demo_registry_def canonicalizer_def)
  have r: "demo_registry = run_events port_apply [] demo_registry" by simp
  show ?thesis
    using acquire_exclusive [OF demo_registry_fresh r a refl ids(2) _ _ names(2)] a by auto
qed

end
