(* ===== verification/OperationRegistry.thy ===== *)
theory OperationRegistry
  imports JsStrings Machine
begin

text \<open>
  Long-running operations of the application and their cancellation,
  \<open>operation-registry.ts\<close>.

  A record lives only in the map (callers get frozen copies), so the map is the list of its
  records in insertion order.  Cancelling and interrupting are asynchronous: an
  \<open>invocation\<close> is the promise of one call of a cancel handler, a \<open>transition\<close> is
  the promise chained to it (\<open>then\<close>, \<open>catch\<close>, \<open>finally\<close>); their turns are events,
  so every interleaving with the synchronous calls is covered.  \<open>or_delivered\<close> logs the
  snapshots handed to observers, \<open>or_calls\<close> the calls of cancel handlers.
\<close>

section \<open>Data\<close>

datatype op_status = Queued | Running | Cancelling | Completed | Failed | Cancelled | Interrupted

datatype op_error =
    RegistryShutdown
  | DuplicateOperationId string
  | InvalidOperationTransition string op_status op_status
  | OperationError string

record ipc_error =
  ie_code :: string
  ie_messageKey :: string
  ie_retryable :: bool
  ie_operation :: string
  ie_requestId :: "string option"
  ie_field :: "string option"
  ie_limit :: "jsnum option"
  ie_actual :: "jsnum option"
  ie_retryAfterMs :: "jsnum option"

record op_record =
  op_sequence :: nat
  op_id :: string
  op_kind :: string
  op_status :: op_status
  op_workspaceId :: string
  op_sessionId :: "string option"
  op_messageKey :: "string option"
  op_completed :: "int option"
  op_total :: "int option"
  op_failure :: "ipc_error option"

definition terminal :: "op_status \<Rightarrow> bool" where
  "terminal st \<longleftrightarrow> st \<in> {Completed, Failed, Cancelled, Interrupted}"

definition legal_transition :: "op_status \<Rightarrow> op_status \<Rightarrow> bool" where
  "legal_transition from to \<longleftrightarrow>
     (case from of
        Queued \<Rightarrow> to \<in> {Running, Cancelling, Failed, Interrupted}
      | Running \<Rightarrow> to \<in> {Cancelling, Completed, Failed, Interrupted}
      | Cancelling \<Rightarrow> to \<in> {Cancelled, Completed, Failed, Interrupted}
      | _ \<Rightarrow> False)"

section \<open>Validation\<close>

definition js_isSafeInteger :: "jsnum \<Rightarrow> bool" where
  "js_isSafeInteger n \<longleftrightarrow> js_isInteger n \<and> \<bar>js_floor n\<bar> \<le> 2 ^ 53 - 1"

definition validUnit :: "jsnum \<Rightarrow> bool \<Rightarrow> op_error + int" where
  "validUnit v allowZero =
     (if \<not> js_isSafeInteger v \<or> (if allowZero then js_floor v < 0 else js_floor v \<le> 0)
      then Inl (OperationError ''unit'') else Inr (js_floor v))"

definition validIdentity :: "string \<Rightarrow> op_error + string" where
  "validIdentity v =
     (let normalized = trim v in
      if normalized = [] \<or> length normalized > 256 \<or> \<not> identity_pattern normalized
      then Inl (OperationError ''identity'') else Inr normalized)"

definition validMessageKey :: "string \<Rightarrow> op_error + string" where
  "validMessageKey v = (if \<not> key_pattern v then Inl (OperationError ''messageKey'') else Inr v)"

definition boundedErrorNumber :: "jsnum \<Rightarrow> op_error + jsnum" where
  "boundedErrorNumber v =
     (if \<not> js_isSafeInteger v \<or> js_floor v < 0 then Inl (OperationError ''non-negative'') else Inr v)"

definition opt_ok :: "('a \<Rightarrow> 'e + 'b) \<Rightarrow> 'a option \<Rightarrow> 'e + 'b option" where
  "opt_ok f x = (case x of None \<Rightarrow> Inr None | Some v \<Rightarrow> bind_ok (f v) (\<lambda>y. Inr (Some y)))"

definition normalizeError :: "ipc_error \<Rightarrow> op_error + ipc_error" where
  "normalizeError e =
     bind_ok (validMessageKey (ie_messageKey e)) (\<lambda>key.
     bind_ok (validIdentity (ie_operation e)) (\<lambda>operation.
     bind_ok (opt_ok validIdentity (ie_requestId e)) (\<lambda>requestId.
     bind_ok (opt_ok validIdentity (ie_field e)) (\<lambda>field.
     bind_ok (opt_ok boundedErrorNumber (ie_limit e)) (\<lambda>limit.
     bind_ok (opt_ok boundedErrorNumber (ie_actual e)) (\<lambda>actual.
     bind_ok (opt_ok boundedErrorNumber (ie_retryAfterMs e)) (\<lambda>retryAfterMs.
       Inr \<lparr>ie_code = ie_code e, ie_messageKey = key, ie_retryable = ie_retryable e, ie_operation = operation,
            ie_requestId = requestId, ie_field = field, ie_limit = limit, ie_actual = actual,
            ie_retryAfterMs = retryAfterMs\<rparr>)))))))"

definition validateInitialProgress :: "jsnum \<Rightarrow> jsnum \<Rightarrow> op_error + int \<times> int" where
  "validateInitialProgress completedUnits totalUnits =
     bind_ok (validUnit completedUnits True) (\<lambda>c. bind_ok (validUnit totalUnits False) (\<lambda>t.
       if c > t then Inl (OperationError ''completedUnits must not exceed totalUnits'') else Inr (c, t)))"

section \<open>The registry\<close>

datatype invocation_phase = HandlerQueued | HandlerRunning | HandlerSettled bool | InvocationDone bool

record invocation =
  iv_op :: string
  iv_phase :: invocation_phase

datatype transition_phase = Waiting | Continued | Finished

record op_transition =
  tr_op :: string
  tr_interrupt :: bool
  tr_previous :: op_status
  tr_invocation :: nat
  tr_phase :: transition_phase
  tr_result :: "op_record option option"

record op_registry =
  or_records :: "op_record list"
  or_handlers :: "string list"
  or_invocations :: "string \<rightharpoonup> nat"
  or_cancels :: "string \<rightharpoonup> nat"
  or_interrupts :: "string \<rightharpoonup> nat"
  or_sequence :: nat
  or_shuttingDown :: bool
  or_listeners :: "nat list"
  or_delivered :: "(nat \<times> op_record list) list"
  or_ivs :: "invocation list"
  or_trs :: "op_transition list"
  or_calls :: "string list"

definition new_operations :: op_registry where
  "new_operations = \<lparr>or_records = [], or_handlers = [], or_invocations = Map.empty, or_cancels = Map.empty,
     or_interrupts = Map.empty, or_sequence = 0, or_shuttingDown = False, or_listeners = [], or_delivered = [],
     or_ivs = [], or_trs = [], or_calls = []\<rparr>"

definition op_get :: "string \<Rightarrow> op_registry \<Rightarrow> op_record option" where
  "op_get i s = find (\<lambda>r. op_id r = i) (or_records s)"

definition requireRecord :: "string \<Rightarrow> op_registry \<Rightarrow> op_error + op_record" where
  "requireRecord i s = (case op_get i s of None \<Rightarrow> Inl (OperationError ''unknown operation id'') | Some r \<Rightarrow> Inr r)"

definition op_update :: "op_record \<Rightarrow> op_registry \<Rightarrow> op_registry" where
  "op_update r s = s\<lparr>or_records := map (\<lambda>q. if op_id q = op_id r then r else q) (or_records s)\<rparr>"

definition op_snapshot :: "op_registry \<Rightarrow> op_record list" where
  "op_snapshot s = sort_key op_sequence (or_records s)"

definition notify_ops :: "op_registry \<Rightarrow> op_registry" where
  "notify_ops s = s\<lparr>or_delivered := or_delivered s @ map (\<lambda>l. (l, op_snapshot s)) (or_listeners s)\<rparr>"

definition assertOpen :: "op_registry \<Rightarrow> op_error + unit" where
  "assertOpen s = (if or_shuttingDown s then Inl RegistryShutdown else Inr ())"

definition assertTransition :: "op_record \<Rightarrow> op_status \<Rightarrow> op_error + unit" where
  "assertTransition r st =
     (if \<not> legal_transition (op_status r) st then Inl (InvalidOperationTransition (op_id r) (op_status r) st) else Inr ())"

definition releaseHandlerIfTerminal :: "op_record \<Rightarrow> op_registry \<Rightarrow> op_registry" where
  "releaseHandlerIfTerminal r s =
     (if \<not> terminal (op_status r) then s else s\<lparr>or_handlers := removeAll (op_id r) (or_handlers s)\<rparr>)"

text \<open>What the callers share: store the record, release the handler of a terminal one, notify.\<close>

definition commit_record :: "op_record \<Rightarrow> op_registry \<Rightarrow> op_registry" where
  "commit_record r s = notify_ops (releaseHandlerIfTerminal r (op_update r s))"

record create_input =
  ci_operationId :: string
  ci_kind :: string
  ci_workspaceId :: string
  ci_sessionId :: "string option"
  ci_messageKey :: "string option"
  ci_progress :: "(jsnum option \<times> jsnum) option"
  ci_cancel :: bool

text \<open>\<open>sequence++\<close> happens before the remaining fields are validated.\<close>

definition op_create :: "create_input \<Rightarrow> op_registry \<Rightarrow> (op_error + op_record) \<times> op_registry" where
  "op_create inp s =
     (case bind_ok (assertOpen s) (\<lambda>_. bind_ok (validIdentity (ci_operationId inp)) (\<lambda>i.
        if op_get i s \<noteq> None then Inl (DuplicateOperationId i)
        else bind_ok (opt_ok (\<lambda>(c, t). validateInitialProgress (case c of None \<Rightarrow> js_int 0 | Some v \<Rightarrow> v) t) (ci_progress inp))
          (\<lambda>progress. Inr (i, progress)))) of
        Inl e \<Rightarrow> (Inl e, s)
      | Inr (i, progress) \<Rightarrow>
          let s1 = s\<lparr>or_sequence := or_sequence s + 1\<rparr> in
          (case bind_ok (validIdentity (ci_workspaceId inp)) (\<lambda>w.
             bind_ok (opt_ok validIdentity (ci_sessionId inp)) (\<lambda>sess.
             bind_ok (opt_ok validMessageKey (ci_messageKey inp)) (\<lambda>key.
               Inr \<lparr>op_sequence = or_sequence s, op_id = i, op_kind = ci_kind inp, op_status = Queued,
                 op_workspaceId = w, op_sessionId = sess, op_messageKey = key,
                 op_completed = map_option fst progress, op_total = map_option snd progress, op_failure = None\<rparr>))) of
             Inl e \<Rightarrow> (Inl e, s1)
           | Inr r \<Rightarrow>
               (Inr r, notify_ops (s1\<lparr>or_records := or_records s1 @ [r],
                  or_handlers := (if ci_cancel inp then or_handlers s1 @ [i] else or_handlers s1)\<rparr>))))"

definition op_transition_to :: "string \<Rightarrow> op_status \<Rightarrow> op_registry \<Rightarrow> (op_error + op_record) \<times> op_registry" where
  "op_transition_to i st s =
     (case bind_ok (assertOpen s) (\<lambda>_. bind_ok (requireRecord i s) (\<lambda>r. bind_ok (assertTransition r st) (\<lambda>_. Inr r))) of
        Inl e \<Rightarrow> (Inl e, s)
      | Inr r \<Rightarrow> let r' = r\<lparr>op_status := st\<rparr> in (Inr r', commit_record r' s))"

definition op_start :: "string \<Rightarrow> op_registry \<Rightarrow> (op_error + op_record) \<times> op_registry" where
  "op_start i s = op_transition_to i Running s"

definition op_complete :: "string \<Rightarrow> op_registry \<Rightarrow> (op_error + op_record) \<times> op_registry" where
  "op_complete i s = op_transition_to i Completed s"

text \<open>The status is assigned before \<open>normalizeError\<close>, which may throw.\<close>

definition op_fail :: "string \<Rightarrow> ipc_error \<Rightarrow> op_registry \<Rightarrow> (op_error + op_record) \<times> op_registry" where
  "op_fail i e s =
     (case bind_ok (requireRecord i s) (\<lambda>r. bind_ok (assertTransition r Failed) (\<lambda>_. Inr r)) of
        Inl err \<Rightarrow> (Inl err, s)
      | Inr r \<Rightarrow>
          let r1 = r\<lparr>op_status := Failed\<rparr> in
          (case normalizeError e of
             Inl err \<Rightarrow> (Inl err, op_update r1 s)
           | Inr n \<Rightarrow> let r2 = r1\<lparr>op_failure := Some n\<rparr> in (Inr r2, commit_record r2 s)))"

text \<open>The checks of \<open>updateProgress\<close>, giving the record with its new units.\<close>

definition progressed :: "string \<Rightarrow> jsnum \<Rightarrow> jsnum option \<Rightarrow> op_registry \<Rightarrow> op_error + op_record" where
  "progressed i completedUnits totalArg s =
     bind_ok (assertOpen s) (\<lambda>_. bind_ok (requireRecord i s) (\<lambda>r.
        if terminal (op_status r) then Inl (OperationError ''terminal'')
        else case (case totalArg of Some t \<Rightarrow> Some t | None \<Rightarrow> map_option js_int (op_total r)) of
          None \<Rightarrow> Inl (OperationError ''totalUnits is required for the first progress update'')
        | Some totalUnits \<Rightarrow>
            bind_ok (validUnit totalUnits False) (\<lambda>t.
              if op_total r \<noteq> None \<and> op_total r \<noteq> Some t then Inl (OperationError ''totalUnits is immutable'')
              else bind_ok (validUnit completedUnits True) (\<lambda>c.
                if c > t then Inl (OperationError ''completedUnits must not exceed totalUnits'')
                else if (case op_completed r of None \<Rightarrow> False | Some old \<Rightarrow> c < old)
                then Inl (OperationError ''completedUnits must be monotonic'')
                else Inr (r\<lparr>op_completed := Some c, op_total := Some t\<rparr>)))))"

text \<open>The units are assigned before the message key is validated.\<close>

definition op_updateProgress :: "string \<Rightarrow> jsnum \<Rightarrow> jsnum option \<Rightarrow> string option \<Rightarrow> op_registry \<Rightarrow>
    (op_error + op_record) \<times> op_registry" where
  "op_updateProgress i completedUnits totalArg key s =
     (case progressed i completedUnits totalArg s of
        Inl e \<Rightarrow> (Inl e, s)
      | Inr r \<Rightarrow>
          (case opt_ok validMessageKey key of
             Inl e \<Rightarrow> (Inl e, op_update r s)
           | Inr k \<Rightarrow> let r' = (case k of None \<Rightarrow> r | Some v \<Rightarrow> r\<lparr>op_messageKey := Some v\<rparr>)
                      in (Inr r', notify_ops (op_update r' s))))"

definition op_subscribe :: "nat \<Rightarrow> op_registry \<Rightarrow> op_registry" where
  "op_subscribe l s = s\<lparr>or_listeners := (if l \<in> set (or_listeners s) then or_listeners s else or_listeners s @ [l]),
     or_delivered := or_delivered s @ [(l, op_snapshot s)]\<rparr>"

definition op_unsubscribe :: "nat \<Rightarrow> op_registry \<Rightarrow> op_registry" where
  "op_unsubscribe l s = s\<lparr>or_listeners := removeAll l (or_listeners s)\<rparr>"

section \<open>Cancellation\<close>

definition invokeCancelHandler :: "string \<Rightarrow> op_registry \<Rightarrow> nat \<times> op_registry" where
  "invokeCancelHandler i s =
     (case or_invocations s i of
        Some v \<Rightarrow> (v, s)
      | None \<Rightarrow>
          let v = length (or_ivs s) in
          (v, s\<lparr>or_ivs := or_ivs s @ [\<lparr>iv_op = i, iv_phase = (if i \<in> set (or_handlers s) then HandlerQueued else HandlerSettled True)\<rparr>],
                or_invocations := (or_invocations s)(i \<mapsto> v)\<rparr>))"

datatype op_promise = Resolved op_record | SharedTransition nat

text \<open>The common part of \<open>cancel\<close> and \<open>interrupt\<close> once no transition is under way.\<close>

definition begin_cancelling :: "bool \<Rightarrow> op_record \<Rightarrow> op_registry \<Rightarrow> (op_error + op_promise) \<times> op_registry" where
  "begin_cancelling isInterrupt r s =
     (case assertTransition r Cancelling of
        Inl e \<Rightarrow> (Inl e, s)
      | Inr _ \<Rightarrow>
          let s1 = notify_ops (op_update (r\<lparr>op_status := Cancelling\<rparr>) s);
              (v, s2) = invokeCancelHandler (op_id r) s1;
              t = length (or_trs s2);
              s3 = s2\<lparr>or_trs := or_trs s2 @ [\<lparr>tr_op = op_id r, tr_interrupt = isInterrupt, tr_previous = op_status r,
                     tr_invocation = v, tr_phase = Waiting, tr_result = None\<rparr>]\<rparr>
          in (Inr (SharedTransition t),
              if isInterrupt then s3\<lparr>or_interrupts := (or_interrupts s3)(op_id r \<mapsto> t)\<rparr>
              else s3\<lparr>or_cancels := (or_cancels s3)(op_id r \<mapsto> t)\<rparr>))"

definition op_cancel :: "string \<Rightarrow> op_registry \<Rightarrow> (op_error + op_promise) \<times> op_registry" where
  "op_cancel i s =
     (case requireRecord i s of Inl e \<Rightarrow> (Inl e, s) | Inr r \<Rightarrow>
      if terminal (op_status r) then (Inr (Resolved r), s)
      else case or_cancels s i of Some t \<Rightarrow> (Inr (SharedTransition t), s) | None \<Rightarrow>
      (case or_interrupts s i of Some t \<Rightarrow> (Inr (SharedTransition t), s) | None \<Rightarrow>
      (case assertOpen s of Inl e \<Rightarrow> (Inl e, s) | Inr _ \<Rightarrow> begin_cancelling False r s)))"

definition op_interrupt :: "string \<Rightarrow> op_registry \<Rightarrow> (op_error + op_promise) \<times> op_registry" where
  "op_interrupt i s =
     (case requireRecord i s of Inl e \<Rightarrow> (Inl e, s) | Inr r \<Rightarrow>
      if terminal (op_status r) then (Inr (Resolved r), s)
      else case or_cancels s i of Some t \<Rightarrow> (Inr (SharedTransition t), s) | None \<Rightarrow>
      (case or_interrupts s i of Some t \<Rightarrow> (Inr (SharedTransition t), s) | None \<Rightarrow> begin_cancelling True r s))"

definition active_ids :: "op_registry \<Rightarrow> string list" where
  "active_ids s = map op_id (filter (\<lambda>r. \<not> terminal (op_status r)) (or_records s))"

text \<open>\<open>interruptActive\<close> up to its \<open>Promise.all\<close>.\<close>

definition interruptActive :: "op_registry \<Rightarrow> op_registry" where
  "interruptActive s = fold (\<lambda>i s. snd (op_interrupt i s)) (active_ids s) s"

definition op_shutdown :: "op_registry \<Rightarrow> op_registry" where
  "op_shutdown s = (if or_shuttingDown s then s else interruptActive (s\<lparr>or_shuttingDown := True\<rparr>))"

section \<open>The turns of the promises\<close>

definition call_handler :: "nat \<Rightarrow> op_registry \<Rightarrow> op_registry" where
  "call_handler v s = s\<lparr>or_ivs := (or_ivs s)[v := (or_ivs s ! v)\<lparr>iv_phase := HandlerRunning\<rparr>],
     or_calls := or_calls s @ [iv_op (or_ivs s ! v)]\<rparr>"

definition handler_settles :: "nat \<Rightarrow> bool \<Rightarrow> op_registry \<Rightarrow> op_registry" where
  "handler_settles v ok s = s\<lparr>or_ivs := (or_ivs s)[v := (or_ivs s ! v)\<lparr>iv_phase := HandlerSettled ok\<rparr>]\<rparr>"

definition invocation_finally :: "nat \<Rightarrow> bool \<Rightarrow> op_registry \<Rightarrow> op_registry" where
  "invocation_finally v ok s = s\<lparr>or_ivs := (or_ivs s)[v := (or_ivs s ! v)\<lparr>iv_phase := InvocationDone ok\<rparr>],
     or_invocations := (or_invocations s)(iv_op (or_ivs s ! v) := None)\<rparr>"

text \<open>The \<open>then\<close> and \<open>catch\<close> callbacks; the record is never missing, it is not removed.\<close>

definition transition_continues :: "nat \<Rightarrow> bool \<Rightarrow> op_registry \<Rightarrow> op_registry" where
  "transition_continues t ok s =
     (let tr = or_trs s ! t in
      case op_get (tr_op tr) s of
        None \<Rightarrow> s\<lparr>or_trs := (or_trs s)[t := tr\<lparr>tr_phase := Continued, tr_result := Some None\<rparr>]\<rparr>
      | Some current \<Rightarrow>
          let r = (if op_status current \<noteq> Cancelling then current
                   else if ok then current\<lparr>op_status := (if tr_interrupt tr then Interrupted else Cancelled)\<rparr>
                   else current\<lparr>op_status := tr_previous tr\<rparr>);
              s1 = (if op_status current \<noteq> Cancelling then s else commit_record r s)
          in s1\<lparr>or_trs := (or_trs s1)[t := tr\<lparr>tr_phase := Continued, tr_result := Some (if ok then Some r else None)\<rparr>]\<rparr>)"

definition transition_finally :: "nat \<Rightarrow> op_registry \<Rightarrow> op_registry" where
  "transition_finally t s =
     (let tr = or_trs s ! t; s1 = s\<lparr>or_trs := (or_trs s)[t := tr\<lparr>tr_phase := Finished\<rparr>]\<rparr> in
      if tr_interrupt tr then s1\<lparr>or_interrupts := (or_interrupts s1)(tr_op tr := None)\<rparr>
      else s1\<lparr>or_cancels := (or_cancels s1)(tr_op tr := None)\<rparr>)"

datatype op_event =
    Create create_input
  | Start string
  | Complete string
  | Fail string ipc_error
  | UpdateProgress string jsnum "jsnum option" "string option"
  | CancelOp string
  | InterruptOp string
  | InterruptActive
  | ShutdownOps
  | SubscribeOps nat
  | UnsubscribeOps nat
  | CallHandler nat
  | HandlerSettles nat bool
  | InvocationFinally nat bool
  | TransitionContinues nat bool
  | TransitionFinally nat

inductive op_step :: "op_registry \<Rightarrow> op_event \<Rightarrow> op_registry \<Rightarrow> bool" where
  "op_step s (Create inp) (snd (op_create inp s))"
| "op_step s (Start i) (snd (op_start i s))"
| "op_step s (Complete i) (snd (op_complete i s))"
| "op_step s (Fail i e) (snd (op_fail i e s))"
| "op_step s (UpdateProgress i c t k) (snd (op_updateProgress i c t k s))"
| "op_step s (CancelOp i) (snd (op_cancel i s))"
| "op_step s (InterruptOp i) (snd (op_interrupt i s))"
| "op_step s InterruptActive (interruptActive s)"
| "op_step s ShutdownOps (op_shutdown s)"
| "op_step s (SubscribeOps l) (op_subscribe l s)"
| "op_step s (UnsubscribeOps l) (op_unsubscribe l s)"
| "v < length (or_ivs s) \<Longrightarrow> iv_phase (or_ivs s ! v) = HandlerQueued \<Longrightarrow> op_step s (CallHandler v) (call_handler v s)"
| "v < length (or_ivs s) \<Longrightarrow> iv_phase (or_ivs s ! v) = HandlerRunning \<Longrightarrow> op_step s (HandlerSettles v ok) (handler_settles v ok s)"
| "v < length (or_ivs s) \<Longrightarrow> iv_phase (or_ivs s ! v) = HandlerSettled ok \<Longrightarrow> op_step s (InvocationFinally v ok) (invocation_finally v ok s)"
| "t < length (or_trs s) \<Longrightarrow> tr_phase (or_trs s ! t) = Waiting \<Longrightarrow>
     iv_phase (or_ivs s ! tr_invocation (or_trs s ! t)) = InvocationDone ok \<Longrightarrow>
     op_step s (TransitionContinues t ok) (transition_continues t ok s)"
| "t < length (or_trs s) \<Longrightarrow> tr_phase (or_trs s ! t) = Continued \<Longrightarrow> op_step s (TransitionFinally t) (transition_finally t s)"

inductive_cases op_stepE: "op_step s ev s'"

section \<open>Records only move forward\<close>

definition oprec_le :: "op_record \<Rightarrow> op_record \<Rightarrow> bool" where
  "oprec_le r q \<longleftrightarrow> op_sequence q = op_sequence r \<and> op_id q = op_id r \<and> op_kind q = op_kind r \<and>
     op_workspaceId q = op_workspaceId r \<and> op_sessionId q = op_sessionId r \<and>
     (terminal (op_status r) \<longrightarrow> q = r) \<and>
     (case op_completed r of None \<Rightarrow> True | Some c \<Rightarrow> \<exists>d. op_completed q = Some d \<and> c \<le> d) \<and>
     (op_total r \<noteq> None \<longrightarrow> op_total q = op_total r)"

definition ops_le :: "op_registry \<Rightarrow> op_registry \<Rightarrow> bool" where
  "ops_le s t \<longleftrightarrow> length (or_records s) \<le> length (or_records t) \<and>
     (\<forall>k < length (or_records s). oprec_le (or_records s ! k) (or_records t ! k))"

definition op_valid :: "op_record \<Rightarrow> bool" where
  "op_valid r \<longleftrightarrow> identity_pattern (op_id r) \<and>
     (case op_completed r of None \<Rightarrow> True | Some c \<Rightarrow> (\<exists>t. op_total r = Some t \<and> 0 \<le> c \<and> c \<le> t))"

definition ids_ok :: "op_registry \<Rightarrow> bool" where
  "ids_ok s \<longleftrightarrow> distinct (map op_id (or_records s)) \<and> (\<forall>r \<in> set (or_records s). op_valid r)"

lemma oprec_le_refl [simp]: "oprec_le r r"
  by (simp add: oprec_le_def split: option.splits)

lemma oprec_le_trans: "oprec_le p q \<Longrightarrow> oprec_le q r \<Longrightarrow> oprec_le p r"
  by (cases "op_completed p"; cases "op_completed q") (fastforce simp: oprec_le_def)+

lemma ops_le_refl [simp]: "ops_le s s"
  by (simp add: ops_le_def)

lemma ops_le_trans: "ops_le s t \<Longrightarrow> ops_le t u \<Longrightarrow> ops_le s u"
  unfolding ops_le_def by (meson less_le_trans oprec_le_trans order_trans)

lemma ops_le_same: "or_records t = or_records s \<Longrightarrow> ops_le s t"
  by (simp add: ops_le_def)

lemma op_get_Some: "op_get i s = Some r \<Longrightarrow> r \<in> set (or_records s) \<and> op_id r = i"
  by (auto simp: op_get_def find_Some_iff)

lemma get_update: "op_get i s = Some r \<Longrightarrow> op_id q = i \<Longrightarrow> op_get i (op_update q s) = Some q"
proof -
  assume a: "op_get i s = Some r" "op_id q = i"
  have "find (\<lambda>p. op_id p = i) (map (\<lambda>p. if op_id p = i then q else p) xs) = Some q"
    if "find (\<lambda>p. op_id p = i) xs = Some r" for xs
    using that a(2) by (induction xs) (auto split: if_splits)
  then show ?thesis using a by (simp add: op_get_def op_update_def)
qed

lemma op_get_unique: "ids_ok s \<Longrightarrow> r \<in> set (or_records s) \<Longrightarrow> op_get (op_id r) s = Some r"
proof -
  assume a: "ids_ok s" "r \<in> set (or_records s)"
  then obtain q where "op_get (op_id r) s = Some q" by (fastforce simp: op_get_def find_None_iff)
  with a op_get_Some [of "op_id r" s q] show ?thesis
    by (metis distinct_map ids_ok_def inj_onD)
qed

lemma op_get_None: "op_get i s = None \<longleftrightarrow> i \<notin> op_id ` set (or_records s)"
  by (auto simp: op_get_def find_None_iff)

lemma update_records [simp]: "or_records (op_update r s) = map (\<lambda>q. if op_id q = op_id r then r else q) (or_records s)"
  by (simp add: op_update_def)

lemma update_forward:
  assumes "ids_ok s" "op_get i s = Some q" "oprec_le q r" "op_valid r" "or_records t = or_records (op_update r s)"
  shows "ops_le s t \<and> ids_ok t"
proof -
  have q: "q \<in> set (or_records s)" "op_id q = i" "op_id r = i" using op_get_Some [OF assms(2)] assms(3) by (auto simp: oprec_le_def)
  have same: "p = q" if "p \<in> set (or_records s)" "op_id p = i" for p
    using op_get_unique [OF assms(1) that(1)] assms(2) that(2) by simp
  have "map op_id (or_records t) = map op_id (or_records s)" using q(3) by (auto simp: assms(5) comp_def)
  moreover have "\<forall>p \<in> set (or_records t). op_valid p" using assms(1,4,5) by (auto simp: ids_ok_def)
  moreover have "oprec_le (or_records s ! k) (or_records t ! k)" if "k < length (or_records s)" for k
    using that same [of "or_records s ! k"] assms(3,5) q(3) by (cases "op_id (or_records s ! k) = i") auto
  ultimately show ?thesis using assms(1) by (simp add: ops_le_def ids_ok_def assms(5) del: map_map)
qed

lemma rest_fields [simp]:
  "or_records (notify_ops s) = or_records s" "or_records (releaseHandlerIfTerminal r s) = or_records s"
  "or_records (commit_record r s) = or_records (op_update r s)" "or_records (snd (invokeCancelHandler i s)) = or_records s"
  by (simp_all add: notify_ops_def releaseHandlerIfTerminal_def commit_record_def invokeCancelHandler_def Let_def split: option.splits)

definition forward :: "op_registry \<Rightarrow> op_registry \<Rightarrow> bool" where
  "forward s t \<longleftrightarrow> ops_le s t \<and> ids_ok t"

lemma forward_same: "ids_ok s \<Longrightarrow> or_records t = or_records s \<Longrightarrow> forward s t"
  by (simp add: forward_def ops_le_same ids_ok_def)

lemma forward_trans: "forward s t \<Longrightarrow> forward t u \<Longrightarrow> forward s u"
  by (auto simp: forward_def intro: ops_le_trans)

lemma status_forward:
  assumes "ids_ok s" "op_get i s = Some r" "legal_transition (op_status r) st \<or> \<not> terminal (op_status r)"
    "or_records t = or_records (op_update (r\<lparr>op_status := st, op_failure := e\<rparr>) s)"
  shows "forward s t"
  unfolding forward_def
proof (rule update_forward [OF assms(1,2) _ _ assms(4)])
  have v: "op_valid r" using assms(1) op_get_Some [OF assms(2)] by (simp add: ids_ok_def)
  have "\<not> terminal (op_status r)" using assms(3) by (auto simp: legal_transition_def terminal_def split: op_status.splits)
  then show "oprec_le r (r\<lparr>op_status := st, op_failure := e\<rparr>)" by (simp add: oprec_le_def split: option.splits)
  show "op_valid (r\<lparr>op_status := st, op_failure := e\<rparr>)" using v by (simp add: op_valid_def split: option.splits)
qed

lemma status_forward':
  assumes "ids_ok s" "op_get i s = Some r" "legal_transition (op_status r) st \<or> \<not> terminal (op_status r)"
    "or_records t = or_records (op_update (r\<lparr>op_status := st\<rparr>) s)"
  shows "forward s t"
proof -
  have "r\<lparr>op_status := st\<rparr> = r\<lparr>op_status := st, op_failure := op_failure r\<rparr>" by (cases r) simp
  then show ?thesis using status_forward [OF assms(1-3)] assms(4) by metis
qed

lemma create_forward:
  assumes "ids_ok s"
  shows "forward s (snd (op_create inp s))"
proof (cases "or_records (snd (op_create inp s)) = or_records s")
  case True
  with assms show ?thesis by (rule forward_same)
next
  case False
  then obtain i progress w sess key where c: "validIdentity (ci_operationId inp) = Inr i" "op_get i s = None"
      "opt_ok (\<lambda>(c, t). validateInitialProgress (case c of None \<Rightarrow> js_int 0 | Some v \<Rightarrow> v) t) (ci_progress inp) = Inr progress"
      "or_records (snd (op_create inp s)) = or_records s @ [\<lparr>op_sequence = or_sequence s, op_id = i, op_kind = ci_kind inp, op_status = Queued,
         op_workspaceId = w, op_sessionId = sess, op_messageKey = key,
         op_completed = map_option fst progress, op_total = map_option snd progress, op_failure = None\<rparr>]"
    by (auto simp: op_create_def Let_def bind_ok_eq_Inr split: sum.splits if_splits)
  have p: "\<exists>t. map_option snd progress = Some t \<and> 0 \<le> x \<and> x \<le> t" if "map_option fst progress = Some x" for x
    using c(3) that by (auto simp: opt_ok_def validateInitialProgress_def validUnit_def bind_ok_eq_Inr split: option.splits if_splits)
  have "identity_pattern i" using c(1) by (auto simp: validIdentity_def Let_def split: if_splits)
  then have "op_valid \<lparr>op_sequence = or_sequence s, op_id = i, op_kind = ci_kind inp, op_status = Queued,
         op_workspaceId = w, op_sessionId = sess, op_messageKey = key,
         op_completed = map_option fst progress, op_total = map_option snd progress, op_failure = None\<rparr>"
    using p by (cases progress) (fastforce simp: op_valid_def)+
  then show ?thesis using assms c(2,4) by (auto simp: forward_def ops_le_def ids_ok_def nth_append op_get_None)
qed

lemma require_Inr: "requireRecord i s = Inr r \<longleftrightarrow> op_get i s = Some r"
  by (simp add: requireRecord_def split: option.splits)

lemma assert_Inr: "assertTransition r st = Inr u \<longleftrightarrow> legal_transition (op_status r) st"
  by (simp add: assertTransition_def)

lemma transition_to_forward:
  assumes "ids_ok s"
  shows "forward s (snd (op_transition_to i st s))"
proof (cases "bind_ok (assertOpen s) (\<lambda>_. bind_ok (requireRecord i s) (\<lambda>r. bind_ok (assertTransition r st) (\<lambda>_. Inr r)))")
  case (Inl e)
  then show ?thesis using forward_same [OF assms] by (simp add: op_transition_to_def)
next
  case (Inr r)
  then have r: "op_get i s = Some r" "legal_transition (op_status r) st" by (auto simp: bind_ok_eq_Inr require_Inr assert_Inr)
  show ?thesis using status_forward' [OF assms r(1), of st] r(2) Inr by (simp add: op_transition_to_def Let_def)
qed

lemma fail_forward:
  assumes "ids_ok s"
  shows "forward s (snd (op_fail i e s))"
proof (cases "bind_ok (requireRecord i s) (\<lambda>r. bind_ok (assertTransition r Failed) (\<lambda>_. Inr r))")
  case (Inl e)
  then show ?thesis using forward_same [OF assms] by (simp add: op_fail_def)
next
  case (Inr r)
  then have r: "op_get i s = Some r" "legal_transition (op_status r) Failed" by (auto simp: bind_ok_eq_Inr require_Inr assert_Inr)
  show ?thesis
  proof (cases "normalizeError e")
    case (Inl err)
    then show ?thesis using status_forward' [OF assms r(1), of Failed] r(2) Inr \<open>bind_ok _ _ = Inr r\<close> by (simp add: op_fail_def Let_def)
  next
    case (Inr n)
    then show ?thesis using status_forward [OF assms r(1), of Failed _ "Some n"] r(2) \<open>bind_ok _ _ = Inr r\<close> by (simp add: op_fail_def Let_def)
  qed
qed

lemma progressed_Inr:
  assumes "progressed i c t s = Inr r" "ids_ok s"
  shows "\<exists>q. op_get i s = Some q \<and> oprec_le q r \<and> op_valid r"
proof -
  obtain q a b where q: "op_get i s = Some q" "\<not> terminal (op_status q)" "validUnit c True = Inr a"
    "op_total q = None \<or> op_total q = Some b" "a \<le> b" "\<not> (case op_completed q of None \<Rightarrow> False | Some old \<Rightarrow> a < old)"
    "r = q\<lparr>op_completed := Some a, op_total := Some b\<rparr>"
    using assms(1)
    by (auto simp: progressed_def bind_ok_eq_Inr require_Inr not_less split: if_splits option.splits)
  have "0 \<le> a" using q(3) by (simp add: validUnit_def split: if_splits)
  moreover have "op_valid q" using op_get_Some [OF q(1)] assms(2) by (simp add: ids_ok_def)
  ultimately have "op_valid r" using q(5,7) by (simp add: op_valid_def)
  moreover have "oprec_le q r" using q(2,4,6,7) by (auto simp: oprec_le_def not_less split: option.splits)
  ultimately show ?thesis using q(1) by blast
qed

lemma message_forward: "oprec_le q r \<Longrightarrow> op_valid r \<Longrightarrow> \<not> terminal (op_status q) \<Longrightarrow> oprec_le q (r\<lparr>op_messageKey := m\<rparr>) \<and> op_valid (r\<lparr>op_messageKey := m\<rparr>)"
  by (simp add: oprec_le_def op_valid_def split: option.splits)

lemma progress_forward:
  assumes "ids_ok s"
  shows "forward s (snd (op_updateProgress i c t k s))"
proof (cases "progressed i c t s")
  case (Inl e)
  then show ?thesis using forward_same [OF assms] by (simp add: op_updateProgress_def)
next
  case (Inr r)
  then obtain q where q: "op_get i s = Some q" "oprec_le q r" "op_valid r" using progressed_Inr assms by blast
  have nt: "\<not> terminal (op_status q)" using Inr q(1)
    by (auto simp: progressed_def bind_ok_eq_Inr require_Inr split: if_splits)
  have "forward s v" if "or_records v = or_records (op_update r s)" for v
    using update_forward [OF assms q that] by (simp add: forward_def)
  moreover have "forward s v" if "or_records v = or_records (op_update (r\<lparr>op_messageKey := m\<rparr>) s)" for v m
    using update_forward [OF assms q(1) _ _ that] message_forward [OF q(2,3) nt] by (simp add: forward_def)
  ultimately show ?thesis using Inr
    by (auto simp: op_updateProgress_def Let_def simp del: update_records split: sum.splits option.splits)
qed

lemma begin_forward:
  assumes "ids_ok s" "op_get (op_id r) s = Some r"
  shows "forward s (snd (begin_cancelling b r s))"
proof (cases "legal_transition (op_status r) Cancelling")
  case True
  have "or_records (snd (begin_cancelling b r s)) = or_records (op_update (r\<lparr>op_status := Cancelling\<rparr>) s)"
    using True by (simp add: begin_cancelling_def assertTransition_def Let_def split_def)
  then show ?thesis using status_forward' [OF assms, of Cancelling] True by simp
next
  case False
  then show ?thesis using forward_same [OF assms(1)] by (simp add: begin_cancelling_def assertTransition_def)
qed

lemma interrupt_forward: "ids_ok s \<Longrightarrow> forward s (snd (op_interrupt i s))"
  using begin_forward [of s] forward_same [of s s] op_get_Some [of i s]
  by (auto simp: op_interrupt_def require_Inr split: sum.splits option.splits)

lemma cancel_forward: "ids_ok s \<Longrightarrow> forward s (snd (op_cancel i s))"
  using begin_forward [of s] forward_same [of s s] op_get_Some [of i s]
  by (auto simp: op_cancel_def require_Inr split: sum.splits option.splits)

lemma interrupt_all_forward: "ids_ok s \<Longrightarrow> forward s (fold (\<lambda>i s. snd (op_interrupt i s)) is s)"
proof (induction "is" arbitrary: s)
  case (Cons i js)
  have "forward s (snd (op_interrupt i s))" by (rule interrupt_forward [OF Cons.prems])
  moreover have "ids_ok (snd (op_interrupt i s))" using calculation by (simp add: forward_def)
  ultimately have "forward s (fold (\<lambda>i s. snd (op_interrupt i s)) js (snd (op_interrupt i s)))"
    using Cons.IH forward_trans by blast
  then show ?case by simp
qed (simp add: forward_def)

lemma continues_forward:
  assumes "ids_ok s"
  shows "forward s (transition_continues t ok s)"
proof (cases "op_get (tr_op (or_trs s ! t)) s")
  case None
  then show ?thesis using forward_same [OF assms] by (simp add: transition_continues_def Let_def)
next
  case (Some r)
  show ?thesis
  proof (cases "op_status r = Cancelling")
    case True
    define st where "st = (if ok then (if tr_interrupt (or_trs s ! t) then Interrupted else Cancelled) else tr_previous (or_trs s ! t))"
    have "or_records (transition_continues t ok s) = or_records (op_update (r\<lparr>op_status := st\<rparr>) s)"
      using Some True by (simp add: transition_continues_def Let_def st_def)
    then show ?thesis using status_forward' [OF assms Some, of st] True by (simp add: terminal_def)
  next
    case False
    then show ?thesis using forward_same [OF assms] Some by (simp add: transition_continues_def Let_def)
  qed
qed

lemma op_step_forward: "op_step s ev s' \<Longrightarrow> ids_ok s \<Longrightarrow> forward s s'"
proof (induction rule: op_step.induct)
  case (9 s)
  have "ids_ok (s\<lparr>or_shuttingDown := True\<rparr>)" using 9 by (simp add: ids_ok_def)
  then have "forward (s\<lparr>or_shuttingDown := True\<rparr>) (interruptActive (s\<lparr>or_shuttingDown := True\<rparr>))" if "\<not> or_shuttingDown s"
    using interrupt_all_forward by (simp add: interruptActive_def)
  moreover have "forward s (s\<lparr>or_shuttingDown := True\<rparr>)" using forward_same [OF 9] by simp
  ultimately have "forward s (interruptActive (s\<lparr>or_shuttingDown := True\<rparr>))" if "\<not> or_shuttingDown s"
    using forward_trans that by blast
  then show ?case using forward_same [OF 9] by (simp add: op_shutdown_def)
qed (simp_all add: create_forward op_start_def op_complete_def transition_to_forward fail_forward progress_forward
      cancel_forward interrupt_forward interruptActive_def interrupt_all_forward continues_forward
      forward_same op_subscribe_def op_unsubscribe_def call_handler_def handler_settles_def invocation_finally_def
      transition_finally_def Let_def)

interpretation ops_ids: invariant_machine op_step "\<lambda>s. s = new_operations" ids_ok
proof unfold_locales
  show "s = new_operations \<Longrightarrow> ids_ok s" for s by (simp add: ids_ok_def new_operations_def)
  show "ids_ok s \<Longrightarrow> op_step s ev s' \<Longrightarrow> ids_ok s'" for s ev s' using op_step_forward by (simp add: forward_def)
qed

lemma ops_run_forward: "reaches op_step s t \<Longrightarrow> ids_ok s \<Longrightarrow> forward s t"
proof (induction rule: reaches.induct)
  case (reaches_step t ev u)
  then show ?case using op_step_forward forward_trans forward_def by blast
qed (simp add: forward_def)

section \<open>No operation stays in cancelling\<close>

definition cancelling_ids :: "op_registry \<Rightarrow> string set" where
  "cancelling_ids s = op_id ` {r \<in> set (or_records s). op_status r = Cancelling}"

definition registered :: "op_registry \<Rightarrow> op_transition \<Rightarrow> nat option" where
  "registered s tr = (if tr_interrupt tr then or_interrupts s else or_cancels s) (tr_op tr)"

definition cancel_ok :: "op_registry \<Rightarrow> bool" where
  "cancel_ok s \<longleftrightarrow>
     (\<forall>i \<in> cancelling_ids s. \<exists>t < length (or_trs s). tr_phase (or_trs s ! t) = Waiting \<and> tr_op (or_trs s ! t) = i) \<and>
     (\<forall>t < length (or_trs s). tr_phase (or_trs s ! t) \<noteq> Finished \<longrightarrow> registered s (or_trs s ! t) = Some t) \<and>
     (\<forall>t < length (or_trs s). tr_previous (or_trs s ! t) \<in> {Queued, Running} \<and> tr_invocation (or_trs s ! t) < length (or_ivs s)) \<and>
     (\<forall>i. or_cancels s i = None \<or> or_interrupts s i = None) \<and>
     (\<forall>i v. or_invocations s i = Some v \<longrightarrow> v < length (or_ivs s))"

lemma cancel_ok_cong:
  assumes "cancel_ok s" "or_trs t = or_trs s" "or_cancels t = or_cancels s" "or_interrupts t = or_interrupts s"
    "cancelling_ids t \<subseteq> cancelling_ids s" "length (or_ivs t) = length (or_ivs s)"
    "\<And>i v. or_invocations t i = Some v \<Longrightarrow> or_invocations s i = Some v"
  shows "cancel_ok t"
proof -
  have "registered t = registered s" by (simp add: registered_def fun_eq_iff assms(3,4))
  moreover have "\<forall>i v. or_invocations t i = Some v \<longrightarrow> v < length (or_ivs s)"
    using assms(1,7) unfolding cancel_ok_def by blast
  moreover have "\<forall>i \<in> cancelling_ids t. \<exists>t < length (or_trs s). tr_phase (or_trs s ! t) = Waiting \<and> tr_op (or_trs s ! t) = i"
    using assms(1,5) unfolding cancel_ok_def by blast
  ultimately show ?thesis using assms(1) by (simp add: cancel_ok_def assms(2-4,6))
qed

lemma cancelling_update: "op_status r \<noteq> Cancelling \<Longrightarrow> cancelling_ids (op_update r s) \<subseteq> cancelling_ids s"
  by (auto simp: cancelling_ids_def)

lemma cancelling_same: "or_records t = or_records s \<Longrightarrow> cancelling_ids t = cancelling_ids s"
  by (simp add: cancelling_ids_def)

lemma cancelling_keep: "op_get (op_id r) s = Some q \<Longrightarrow> op_status r = op_status q \<Longrightarrow> cancelling_ids (op_update r s) \<subseteq> cancelling_ids s"
proof -
  assume q: "op_get (op_id r) s = Some q" "op_status r = op_status q"
  have "op_id p \<in> cancelling_ids s" if "p \<in> set (or_records (op_update r s))" "op_status p = Cancelling" for p
    using that op_get_Some [OF q(1)] q(2) by (auto simp: cancelling_ids_def image_iff)
  then show ?thesis by (auto simp: cancelling_ids_def)
qed

lemma cancelling_more [simp]:
  "cancelling_ids (notify_ops s) = cancelling_ids s" "cancelling_ids (commit_record r s) = cancelling_ids (op_update r s)"
  by (simp_all add: cancelling_ids_def)

lemma quiet_fields [simp]:
  "or_trs (notify_ops s) = or_trs s" "or_cancels (notify_ops s) = or_cancels s" "or_interrupts (notify_ops s) = or_interrupts s"
  "or_ivs (notify_ops s) = or_ivs s" "or_invocations (notify_ops s) = or_invocations s"
  "or_trs (op_update r s) = or_trs s" "or_cancels (op_update r s) = or_cancels s" "or_interrupts (op_update r s) = or_interrupts s"
  "or_ivs (op_update r s) = or_ivs s" "or_invocations (op_update r s) = or_invocations s"
  "or_trs (commit_record r s) = or_trs s" "or_cancels (commit_record r s) = or_cancels s" "or_interrupts (commit_record r s) = or_interrupts s"
  "or_ivs (commit_record r s) = or_ivs s" "or_invocations (commit_record r s) = or_invocations s"
  by (simp_all add: notify_ops_def op_update_def commit_record_def releaseHandlerIfTerminal_def)

lemma cancel_ok_create: "cancel_ok s \<Longrightarrow> cancel_ok (snd (op_create inp s))"
proof -
  assume c: "cancel_ok s"
  have "cancelling_ids (snd (op_create inp s)) \<subseteq> cancelling_ids s"
    by (auto simp: op_create_def Let_def bind_ok_eq_Inr cancelling_ids_def split: sum.splits if_splits)
  moreover have "or_trs (snd (op_create inp s)) = or_trs s" "or_cancels (snd (op_create inp s)) = or_cancels s"
    "or_interrupts (snd (op_create inp s)) = or_interrupts s" "or_ivs (snd (op_create inp s)) = or_ivs s"
    "or_invocations (snd (op_create inp s)) = or_invocations s"
    by (auto simp: op_create_def Let_def split: sum.splits)
  ultimately show ?thesis by (intro cancel_ok_cong [OF c]) simp_all
qed

lemma cancel_ok_update:
  "cancel_ok s \<Longrightarrow> op_status r \<noteq> Cancelling \<Longrightarrow> cancel_ok (op_update r s)"
  "cancel_ok s \<Longrightarrow> op_status r \<noteq> Cancelling \<Longrightarrow> cancel_ok (commit_record r s)"
  by (erule cancel_ok_cong; simp del: update_records add: cancelling_update)+

lemma cancel_ok_keep:
  "cancel_ok s \<Longrightarrow> op_get (op_id r) s = Some q \<Longrightarrow> op_status r = op_status q \<Longrightarrow> cancel_ok (op_update r s)"
  "cancel_ok s \<Longrightarrow> op_get (op_id r) s = Some q \<Longrightarrow> op_status r = op_status q \<Longrightarrow> cancel_ok (notify_ops (op_update r s))"
  by (erule cancel_ok_cong; simp del: update_records add: cancelling_keep)+

lemma cancel_ok_moves:
  assumes "cancel_ok s"
  shows "cancel_ok (snd (op_start i s))" "cancel_ok (snd (op_complete i s))" "cancel_ok (snd (op_fail i e s))"
  using assms cancel_ok_update [of s]
  by (auto simp: op_start_def op_complete_def op_fail_def op_transition_to_def Let_def simp del: update_records split: sum.splits)

lemma progressed_status:
  "progressed i c t s = Inr r \<Longrightarrow> \<exists>q. op_get (op_id r) s = Some q \<and> op_status r = op_status q"
  using op_get_Some [of i s]
  by (auto simp: progressed_def bind_ok_eq_Inr require_Inr split: if_splits option.splits)

lemma cancel_ok_progress: "cancel_ok s \<Longrightarrow> cancel_ok (snd (op_updateProgress i c t k s))"
proof (cases "progressed i c t s")
  case (Inr r)
  assume c: "cancel_ok s"
  obtain q where q: "op_get (op_id r) s = Some q" "op_status r = op_status q" using progressed_status [OF Inr] by blast
  show ?thesis using Inr cancel_ok_keep [OF c q] cancel_ok_keep(2) [OF c, of "r\<lparr>op_messageKey := m\<rparr>" q for m] q
    by (auto simp: op_updateProgress_def Let_def simp del: update_records split: sum.splits option.splits)
qed (simp add: op_updateProgress_def)

lemma cancel_ok_begin:
  assumes "cancel_ok s" "op_get (op_id r) s = Some r" "or_cancels s (op_id r) = None" "or_interrupts s (op_id r) = None"
  shows "cancel_ok (snd (begin_cancelling b r s))"
proof (cases "legal_transition (op_status r) Cancelling")
  case False
  then show ?thesis using assms(1) by (simp add: begin_cancelling_def assertTransition_def)
next
  case True
  define s1 where "s1 = notify_ops (op_update (r\<lparr>op_status := Cancelling\<rparr>) s)"
  obtain v s2 where inv: "invokeCancelHandler (op_id r) s1 = (v, s2)" by fastforce
  define tr where "tr = \<lparr>tr_op = op_id r, tr_interrupt = b, tr_previous = op_status r, tr_invocation = v, tr_phase = Waiting, tr_result = None\<rparr>"
  define u where "u = snd (begin_cancelling b r s)"
  have prev: "op_status r \<in> {Queued, Running}" using True by (auto simp: legal_transition_def split: op_status.splits)
  have s2: "or_trs s2 = or_trs s" "or_cancels s2 = or_cancels s" "or_interrupts s2 = or_interrupts s"
    "or_records s2 = or_records (op_update (r\<lparr>op_status := Cancelling\<rparr>) s)" "length (or_ivs s) \<le> length (or_ivs s2)"
    "v < length (or_ivs s2)"
    using inv assms(1) by (auto simp: s1_def invokeCancelHandler_def Let_def cancel_ok_def split: option.splits if_splits intro: less_SucI)
  have "\<And>i w. or_invocations s i = Some w \<Longrightarrow> w < length (or_ivs s)" using assms(1) unfolding cancel_ok_def by blast
  then have s2i: "w < length (or_ivs s2)" if "or_invocations s2 i = Some w" for i w
    using inv that by (fastforce simp: s1_def invokeCancelHandler_def Let_def split: option.splits if_splits)
  have f: "or_trs u = or_trs s @ [tr]" "or_ivs u = or_ivs s2" "or_invocations u = or_invocations s2"
    "or_records u = or_records (op_update (r\<lparr>op_status := Cancelling\<rparr>) s)"
    "or_cancels u = (if b then or_cancels s else (or_cancels s)(op_id r \<mapsto> length (or_trs s)))"
    "or_interrupts u = (if b then (or_interrupts s)(op_id r \<mapsto> length (or_trs s)) else or_interrupts s)"
    using True inv s2 by (simp_all add: u_def begin_cancelling_def assertTransition_def Let_def s1_def tr_def)
  have ids: "cancelling_ids u \<subseteq> insert (op_id r) (cancelling_ids s)" by (auto simp: cancelling_ids_def f)
  have "registered u (or_trs s ! t) = Some t" if "t < length (or_trs s)" "tr_phase (or_trs s ! t) \<noteq> Finished" for t
  proof -
    have "registered s (or_trs s ! t) = Some t" using assms(1) that by (simp add: cancel_ok_def)
    then show ?thesis using assms(3,4) by (auto simp: registered_def f split: if_splits)
  qed
  moreover have "registered u tr = Some (length (or_trs s))" by (simp add: registered_def f tr_def)
  moreover have "\<exists>t < length (or_trs u). tr_phase (or_trs u ! t) = Waiting \<and> tr_op (or_trs u ! t) = i" if i: "i \<in> cancelling_ids u" for i
  proof (cases "i = op_id r")
    case True
    then show ?thesis by (intro exI [of _ "length (or_trs s)"]) (simp add: f tr_def)
  next
    case False
    then obtain t where "t < length (or_trs s)" "tr_phase (or_trs s ! t) = Waiting" "tr_op (or_trs s ! t) = i"
      using i ids assms(1) unfolding cancel_ok_def by blast
    then show ?thesis by (intro exI [of _ t]) (simp add: f nth_append)
  qed
  moreover have "or_cancels u i = None \<or> or_interrupts u i = None" for i
    using assms(1,3,4) by (auto simp: f cancel_ok_def)
  moreover have "tr_previous (or_trs u ! t) \<in> {Queued, Running} \<and> tr_invocation (or_trs u ! t) < length (or_ivs u)"
    if "t < length (or_trs u)" for t
    using that assms(1) prev s2(5,6) by (auto simp: f nth_append cancel_ok_def tr_def less_Suc_eq dest: less_le_trans)
  ultimately show ?thesis unfolding u_def [symmetric] cancel_ok_def
    using s2i by (auto simp: f nth_append less_Suc_eq)
qed

lemma cancel_ok_requests:
  assumes "cancel_ok s"
  shows "cancel_ok (snd (op_cancel i s))" "cancel_ok (snd (op_interrupt i s))"
proof -
  have "cancel_ok (snd (begin_cancelling b r s))" if "op_get i s = Some r" "or_cancels s i = None" "or_interrupts s i = None" for b r
    using cancel_ok_begin [OF assms, of r b] op_get_Some [OF that(1)] that by simp
  then show "cancel_ok (snd (op_cancel i s))" "cancel_ok (snd (op_interrupt i s))"
    using assms by (auto simp: op_cancel_def op_interrupt_def require_Inr split: sum.splits option.splits)
qed

lemma cancel_ok_fold: "cancel_ok s \<Longrightarrow> cancel_ok (fold (\<lambda>i s. snd (op_interrupt i s)) js s)"
  by (induction js arbitrary: s) (simp_all add: cancel_ok_requests)

lemma continues_cancelling:
  assumes "ids_ok s" "tr_previous (or_trs s ! t) \<in> {Queued, Running}"
  shows "cancelling_ids (transition_continues t ok s) \<subseteq> cancelling_ids s - {tr_op (or_trs s ! t)}"
proof (cases "op_get (tr_op (or_trs s ! t)) s")
  case None
  then have "tr_op (or_trs s ! t) \<notin> cancelling_ids s" by (auto simp: op_get_None cancelling_ids_def)
  then show ?thesis using None by (simp add: transition_continues_def Let_def cancelling_ids_def)
next
  case (Some r)
  have r: "op_id r = tr_op (or_trs s ! t)" using op_get_Some [OF Some] by simp
  show ?thesis
  proof (cases "op_status r = Cancelling")
    case False
    then have "tr_op (or_trs s ! t) \<notin> cancelling_ids s"
      using op_get_unique [OF assms(1)] Some by (fastforce simp: cancelling_ids_def)
    then show ?thesis using Some False by (simp add: transition_continues_def Let_def cancelling_ids_def)
  next
    case True
    define st where "st = (if ok then (if tr_interrupt (or_trs s ! t) then Interrupted else Cancelled) else tr_previous (or_trs s ! t))"
    have st: "st \<noteq> Cancelling" using assms(2) by (auto simp: st_def)
    have "or_records (transition_continues t ok s) = or_records (op_update (r\<lparr>op_status := st\<rparr>) s)"
      using Some True by (simp add: transition_continues_def Let_def st_def)
    then have "cancelling_ids (transition_continues t ok s) = cancelling_ids (op_update (r\<lparr>op_status := st\<rparr>) s)" by (rule cancelling_same)
    also have "\<dots> \<subseteq> cancelling_ids s - {op_id r}" using st by (auto simp: cancelling_ids_def)
    finally show ?thesis using r by simp
  qed
qed

lemma continues_fields:
  "or_cancels (transition_continues t ok s) = or_cancels s" "or_interrupts (transition_continues t ok s) = or_interrupts s"
  "or_ivs (transition_continues t ok s) = or_ivs s" "or_invocations (transition_continues t ok s) = or_invocations s"
  "\<exists>res. or_trs (transition_continues t ok s) = (or_trs s)[t := (or_trs s ! t)\<lparr>tr_phase := Continued, tr_result := res\<rparr>]"
  by (auto simp: transition_continues_def Let_def split: option.splits)

lemma cancel_ok_continues:
  assumes "ids_ok s" "cancel_ok s" "t < length (or_trs s)" "tr_phase (or_trs s ! t) = Waiting"
  shows "cancel_ok (transition_continues t ok s)"
proof -
  define u where "u = transition_continues t ok s"
  obtain res where trs: "or_trs u = (or_trs s)[t := (or_trs s ! t)\<lparr>tr_phase := Continued, tr_result := res\<rparr>]"
    unfolding u_def using continues_fields(5) by blast
  have f: "or_cancels u = or_cancels s" "or_interrupts u = or_interrupts s" "or_ivs u = or_ivs s" "or_invocations u = or_invocations s"
    by (simp_all add: u_def continues_fields)
  have c: "\<forall>i \<in> cancelling_ids s. \<exists>t < length (or_trs s). tr_phase (or_trs s ! t) = Waiting \<and> tr_op (or_trs s ! t) = i"
    "\<forall>t < length (or_trs s). tr_phase (or_trs s ! t) \<noteq> Finished \<longrightarrow> registered s (or_trs s ! t) = Some t"
    "\<forall>t < length (or_trs s). tr_previous (or_trs s ! t) \<in> {Queued, Running} \<and> tr_invocation (or_trs s ! t) < length (or_ivs s)"
    "\<forall>i. or_cancels s i = None \<or> or_interrupts s i = None" "\<forall>i v. or_invocations s i = Some v \<longrightarrow> v < length (or_ivs s)"
    using assms(2) unfolding cancel_ok_def by - (elim conjE, assumption)+
  have reg: "registered u tr = registered s tr" for tr by (simp add: registered_def f)
  have ids: "cancelling_ids u \<subseteq> cancelling_ids s - {tr_op (or_trs s ! t)}"
    using continues_cancelling [OF assms(1)] c(3) assms(3) by (simp add: u_def)
  have "\<exists>t' < length (or_trs u). tr_phase (or_trs u ! t') = Waiting \<and> tr_op (or_trs u ! t') = i" if i: "i \<in> cancelling_ids u" for i
  proof -
    obtain t' where "t' < length (or_trs s)" "tr_phase (or_trs s ! t') = Waiting" "tr_op (or_trs s ! t') = i" using c(1) i ids by blast
    moreover have "t' \<noteq> t" using calculation i ids by auto
    ultimately show ?thesis by (intro exI [of _ t']) (simp add: trs)
  qed
  moreover have "registered u (or_trs u ! t') = Some t'" if "t' < length (or_trs u)" "tr_phase (or_trs u ! t') \<noteq> Finished" for t'
    using that c(2) assms(3,4) unfolding reg trs by (cases "t' = t") (auto simp: registered_def)
  moreover have "tr_previous (or_trs u ! t') \<in> {Queued, Running} \<and> tr_invocation (or_trs u ! t') < length (or_ivs u)" if "t' < length (or_trs u)" for t'
    using that c(3) by (cases "t' = t") (simp_all add: trs f)
  ultimately show ?thesis unfolding u_def [symmetric] cancel_ok_def using c(4,5) by (simp add: f)
qed

lemma cancel_ok_finally:
  assumes "cancel_ok s" "t < length (or_trs s)" "tr_phase (or_trs s ! t) = Continued"
  shows "cancel_ok (transition_finally t s)"
proof -
  define tr where "tr = or_trs s ! t"
  define u where "u = transition_finally t s"
  have f: "or_trs u = (or_trs s)[t := tr\<lparr>tr_phase := Finished\<rparr>]" "or_ivs u = or_ivs s" "or_invocations u = or_invocations s"
    "or_cancels u = (if tr_interrupt tr then or_cancels s else (or_cancels s)(tr_op tr := None))"
    "or_interrupts u = (if tr_interrupt tr then (or_interrupts s)(tr_op tr := None) else or_interrupts s)"
    "cancelling_ids u = cancelling_ids s"
    by (simp_all add: u_def transition_finally_def Let_def tr_def cancelling_ids_def)
  have c: "\<forall>i \<in> cancelling_ids s. \<exists>t < length (or_trs s). tr_phase (or_trs s ! t) = Waiting \<and> tr_op (or_trs s ! t) = i"
    "\<forall>t < length (or_trs s). tr_phase (or_trs s ! t) \<noteq> Finished \<longrightarrow> registered s (or_trs s ! t) = Some t"
    "\<forall>t < length (or_trs s). tr_previous (or_trs s ! t) \<in> {Queued, Running} \<and> tr_invocation (or_trs s ! t) < length (or_ivs s)"
    "\<forall>i. or_cancels s i = None \<or> or_interrupts s i = None" "\<forall>i v. or_invocations s i = Some v \<longrightarrow> v < length (or_ivs s)"
    using assms(1) unfolding cancel_ok_def by - (elim conjE, assumption)+
  have me: "registered s tr = Some t" using c(2) assms(2,3) by (simp add: tr_def)
  have "\<exists>t' < length (or_trs u). tr_phase (or_trs u ! t') = Waiting \<and> tr_op (or_trs u ! t') = i" if i: "i \<in> cancelling_ids u" for i
  proof -
    obtain t' where "t' < length (or_trs s)" "tr_phase (or_trs s ! t') = Waiting" "tr_op (or_trs s ! t') = i" using c(1) i f(6) by blast
    moreover have "t' \<noteq> t" using calculation assms(3) by auto
    ultimately show ?thesis by (intro exI [of _ t']) (simp add: f)
  qed
  moreover have "registered u (or_trs u ! t') = Some t'" if "t' < length (or_trs u)" "tr_phase (or_trs u ! t') \<noteq> Finished" for t'
  proof -
    have ne: "t' \<noteq> t" using that assms(2) by (auto simp: f)
    then have r: "registered s (or_trs s ! t') = Some t'" "or_trs u ! t' = or_trs s ! t'" using that c(2) by (simp_all add: f)
    have "registered s (or_trs s ! t') = registered s tr" if "tr_interrupt (or_trs s ! t') = tr_interrupt tr" "tr_op (or_trs s ! t') = tr_op tr"
      using that by (simp add: registered_def)
    then have "tr_interrupt (or_trs s ! t') \<noteq> tr_interrupt tr \<or> tr_op (or_trs s ! t') \<noteq> tr_op tr"
      using me ne r(1) by auto
    then show ?thesis using r by (auto simp: registered_def f)
  qed
  moreover have "tr_previous (or_trs u ! t') \<in> {Queued, Running} \<and> tr_invocation (or_trs u ! t') < length (or_ivs u)" if "t' < length (or_trs u)" for t'
    using that c(3) assms(2) by (cases "t' = t") (simp_all add: f tr_def)
  moreover have "or_cancels u i = None \<or> or_interrupts u i = None" for i using c(4) by (simp add: f)
  ultimately show ?thesis unfolding u_def [symmetric] cancel_ok_def using c(5) by (simp add: f(2,3))
qed

definition ops_ok :: "op_registry \<Rightarrow> bool" where
  "ops_ok s \<longleftrightarrow> ids_ok s \<and> cancel_ok s"

lemma op_step_cancel: "op_step s ev s' \<Longrightarrow> ids_ok s \<Longrightarrow> cancel_ok s \<Longrightarrow> cancel_ok s'"
proof (induction rule: op_step.induct)
  case (9 s)
  have "cancel_ok (s\<lparr>or_shuttingDown := True\<rparr>)" by (rule cancel_ok_cong [OF 9(2)]) (simp_all add: cancelling_ids_def)
  then show ?case using 9 by (simp add: op_shutdown_def interruptActive_def cancel_ok_fold)
next
  case (10 s l)
  show ?case by (rule cancel_ok_cong [OF 10(2)]) (simp_all add: op_subscribe_def cancelling_ids_def)
next
  case (11 s l)
  show ?case by (rule cancel_ok_cong [OF 11(2)]) (simp_all add: op_unsubscribe_def cancelling_ids_def)
next
  case (12 v s)
  show ?case by (rule cancel_ok_cong [OF 12(4)]) (simp_all add: call_handler_def cancelling_ids_def)
next
  case (13 v s ok)
  show ?case by (rule cancel_ok_cong [OF 13(4)]) (simp_all add: handler_settles_def cancelling_ids_def)
next
  case (14 v s ok)
  show ?case by (rule cancel_ok_cong [OF 14(4)]) (simp_all add: invocation_finally_def cancelling_ids_def split: if_splits)
qed (simp_all add: cancel_ok_create cancel_ok_moves cancel_ok_progress cancel_ok_requests interruptActive_def cancel_ok_fold
      cancel_ok_continues cancel_ok_finally)

interpretation ops_safe: invariant_machine op_step "\<lambda>s. s = new_operations" ops_ok
proof unfold_locales
  show "s = new_operations \<Longrightarrow> ops_ok s" for s
    by (simp add: ops_ok_def ids_ok_def cancel_ok_def cancelling_ids_def new_operations_def)
  show "ops_ok s \<Longrightarrow> op_step s ev s' \<Longrightarrow> ops_ok s'" for s ev s'
    using op_step_cancel op_step_forward by (simp add: ops_ok_def forward_def)
qed

interpretation ops_growth: monotone_machine op_step "\<lambda>s t. ids_ok s \<longrightarrow> forward s t"
  by unfold_locales (auto simp: forward_def intro: ops_le_trans op_step_forward dest: op_step_forward)

section \<open>Properties\<close>

text \<open>C39. Records follow their life cycle whatever is interleaved: no record disappears or changes
  its identity, a terminal record is final (status, progress, error and all), progress never goes
  back, a total once announced never changes, completed units stay between zero and the total,
  and identifiers stay unique and well formed.\<close>

theorem operations_follow_lifecycle:
  assumes "reaches op_step new_operations s" "reaches op_step s t"
  shows "length (or_records s) \<le> length (or_records t) \<and>
    list_all (\<lambda>k. op_id (or_records t ! k) = op_id (or_records s ! k) \<and>
      (if terminal (op_status (or_records s ! k)) then or_records t ! k = or_records s ! k
       else (case op_completed (or_records s ! k) of None \<Rightarrow> True
             | Some c \<Rightarrow> \<exists>d. op_completed (or_records t ! k) = Some d \<and> c \<le> d) \<and>
            (op_total (or_records s ! k) = None \<or> op_total (or_records t ! k) = op_total (or_records s ! k))))
      [0..<length (or_records s)] \<and>
    distinct (map op_id (or_records t)) \<and> list_all op_valid (or_records t)"
proof -
  have "ids_ok s" using ops_safe.reachable_inv [OF refl assms(1)] by (simp add: ops_ok_def)
  then have f: "ops_le s t" "ids_ok t" using ops_growth.le_run [OF assms(2)] by (simp_all add: forward_def)
  then show ?thesis by (auto simp: ops_le_def oprec_le_def ids_ok_def list_all_iff)
qed

definition invocation_ends :: "nat \<Rightarrow> op_registry \<Rightarrow> bool" where
  "invocation_ends v s \<longleftrightarrow> (\<exists>u ok. reaches op_step s u \<and> or_records u = or_records s \<and> or_trs u = or_trs s \<and>
     iv_phase (or_ivs u ! v) = InvocationDone ok)"

lemma invocation_ends_step:
  assumes "op_step s ev t" "or_records t = or_records s" "or_trs t = or_trs s" "invocation_ends v t"
  shows "invocation_ends v s"
proof -
  obtain u ok where u: "reaches op_step t u" "or_records u = or_records t" "or_trs u = or_trs t"
    "iv_phase (or_ivs u ! v) = InvocationDone ok" using assms(4) unfolding invocation_ends_def by blast
  have "reaches op_step s u" by (rule reaches_trans [OF reaches_one [of op_step, OF assms(1)] u(1)])
  then show ?thesis unfolding invocation_ends_def
    by (intro exI [of _ u] exI [of _ ok]) (simp add: u assms(2,3))
qed

lemma settled_ends:
  assumes "v < length (or_ivs s)" "iv_phase (or_ivs s ! v) = HandlerSettled ok"
  shows "invocation_ends v s"
proof (rule invocation_ends_step)
  show "op_step s (InvocationFinally v ok) (invocation_finally v ok s)" using assms by (rule op_step.intros)
  have "iv_phase (or_ivs (invocation_finally v ok s) ! v) = InvocationDone ok" using assms(1) by (simp add: invocation_finally_def)
  then show "invocation_ends v (invocation_finally v ok s)" unfolding invocation_ends_def using reaches_refl by fast
qed (simp_all add: invocation_finally_def)

lemma running_ends:
  assumes "v < length (or_ivs s)" "iv_phase (or_ivs s ! v) = HandlerRunning"
  shows "invocation_ends v s"
proof (rule invocation_ends_step)
  show "op_step s (HandlerSettles v True) (handler_settles v True s)" using assms by (rule op_step.intros)
  show "invocation_ends v (handler_settles v True s)" using assms(1) by (intro settled_ends) (simp_all add: handler_settles_def)
qed (simp_all add: handler_settles_def)

lemma queued_ends:
  assumes "v < length (or_ivs s)" "iv_phase (or_ivs s ! v) = HandlerQueued"
  shows "invocation_ends v s"
proof (rule invocation_ends_step)
  show "op_step s (CallHandler v) (call_handler v s)" using assms by (rule op_step.intros)
  show "invocation_ends v (call_handler v s)" using assms(1) by (intro running_ends) (simp_all add: call_handler_def)
qed (simp_all add: call_handler_def)

lemma invocation_done:
  assumes "v < length (or_ivs s)"
  shows "invocation_ends v s"
proof (cases "iv_phase (or_ivs s ! v)")
  case (InvocationDone b)
  then show ?thesis unfolding invocation_ends_def using reaches_refl by fast
qed (simp_all add: assms queued_ends running_ends settled_ends)

text \<open>No operation is stuck in cancelling: such an operation always has a cancellation or an
  interruption under way, and running that one to its end (the handler, the promises behind it)
  takes the operation out of cancelling, to cancelled or interrupted, or back to what it was.\<close>

theorem cancelling_is_transient:
  assumes "reaches op_step new_operations s" "op_get i s = Some r" "op_status r = Cancelling"
  shows "\<exists>t tr u r'. t < length (or_trs s) \<and> tr = or_trs s ! t \<and> tr_op tr = i \<and> tr_phase tr = Waiting \<and>
    registered s tr = Some t \<and> reaches op_step s u \<and> op_get i u = Some r' \<and>
    op_status r' \<in> {if tr_interrupt tr then Interrupted else Cancelled, tr_previous tr} \<and> op_status r' \<noteq> Cancelling"
proof -
  have ok: "ids_ok s" "cancel_ok s" using ops_safe.reachable_inv [OF refl assms(1)] by (simp_all add: ops_ok_def)
  have "i \<in> cancelling_ids s" using op_get_Some [OF assms(2)] assms(3) by (auto simp: cancelling_ids_def)
  then obtain t where t: "t < length (or_trs s)" "tr_phase (or_trs s ! t) = Waiting" "tr_op (or_trs s ! t) = i"
    using ok(2) unfolding cancel_ok_def by blast
  have c: "registered s (or_trs s ! t) = Some t" "tr_previous (or_trs s ! t) \<in> {Queued, Running}"
    "tr_invocation (or_trs s ! t) < length (or_ivs s)"
    using ok(2) t unfolding cancel_ok_def by simp_all
  obtain u b where u: "reaches op_step s u" "or_records u = or_records s" "or_trs u = or_trs s"
    "iv_phase (or_ivs u ! tr_invocation (or_trs s ! t)) = InvocationDone b"
    using invocation_done [OF c(3)] unfolding invocation_ends_def by blast
  have g: "op_get i u = Some r" using assms(2) u(2) by (simp add: op_get_def)
  have "op_step u (TransitionContinues t b) (transition_continues t b u)"
    using t u by (intro op_step.intros(15)) simp_all
  then have run: "reaches op_step s (transition_continues t b u)" by (rule reaches_step [OF u(1)])
  define r' where "r' = r\<lparr>op_status := (if b then (if tr_interrupt (or_trs s ! t) then Interrupted else Cancelled) else tr_previous (or_trs s ! t))\<rparr>"
  have rid: "op_id r' = i" using op_get_Some [OF assms(2)] by (simp add: r'_def)
  have "or_records (transition_continues t b u) = or_records (op_update r' u)"
    using g t u(3) assms(3) by (simp add: transition_continues_def Let_def r'_def)
  then have "op_get i (transition_continues t b u) = Some r'"
    using get_update [OF g rid] by (simp add: op_get_def)
  moreover have "op_status r' \<in> {if tr_interrupt (or_trs s ! t) then Interrupted else Cancelled, tr_previous (or_trs s ! t)}"
    by (simp add: r'_def)
  moreover have "op_status r' \<noteq> Cancelling" using c(2) by (auto simp: r'_def)
  ultimately show ?thesis using t c(1) run by blast
qed

text \<open>A failure report with an ill-formed error is half applied: \<open>fail\<close> throws, but the
  record is already failed, without an error, its cancel handler is kept and no observer is told;
  the well-formed report that the caller may send next is refused.\<close>

theorem fail_half_applied:
  assumes "op_get i s = Some r" "legal_transition (op_status r) Failed" "\<not> key_pattern (ie_messageKey e)"
  shows "\<exists>err. fst (op_fail i e s) = Inl err \<and> op_get i (snd (op_fail i e s)) = Some (r\<lparr>op_status := Failed\<rparr>) \<and>
    or_delivered (snd (op_fail i e s)) = or_delivered s \<and> or_handlers (snd (op_fail i e s)) = or_handlers s \<and>
    fst (op_fail i e2 (snd (op_fail i e s))) = Inl (InvalidOperationTransition i Failed Failed)"
proof -
  let ?r = "r\<lparr>op_status := Failed\<rparr>"
  have ri: "op_id ?r = i" using op_get_Some [OF assms(1)] by simp
  have f: "op_fail i e s = (Inl (OperationError ''messageKey''), op_update ?r s)"
    using assms by (simp add: op_fail_def requireRecord_def assertTransition_def Let_def normalizeError_def validMessageKey_def)
  have g: "op_get i (op_update ?r s) = Some ?r" by (rule get_update [OF assms(1) ri])
  then have "op_fail i e2 (op_update ?r s) = (Inl (InvalidOperationTransition i Failed Failed), op_update ?r s)"
    using ri by (simp add: op_fail_def requireRecord_def assertTransition_def legal_transition_def)
  then show ?thesis using f g by (simp add: op_update_def)
qed

section \<open>Witnesses\<close>

definition demo_input :: create_input where
  "demo_input = \<lparr>ci_operationId = ''op1'', ci_kind = ''workspace-import'', ci_workspaceId = ''w1'', ci_sessionId = None,
     ci_messageKey = None, ci_progress = None, ci_cancel = True\<rparr>"

definition demo_created :: op_registry where
  "demo_created = snd (op_create demo_input new_operations)"

definition demo_record :: op_record where
  "demo_record = \<lparr>op_sequence = 0, op_id = ''op1'', op_kind = ''workspace-import'', op_status = Queued, op_workspaceId = ''w1'',
     op_sessionId = None, op_messageKey = None, op_completed = None, op_total = None, op_failure = None\<rparr>"

lemma demo_identity: "validIdentity ''op1'' = Inr ''op1''" "validIdentity ''w1'' = Inr ''w1''"
proof -
  have "identity_pattern ''op1''" "identity_pattern ''w1''" by (simp_all add: identity_pattern_def is_id_char_def char_classes)
  then show "validIdentity ''op1'' = Inr ''op1''" "validIdentity ''w1'' = Inr ''w1''"
    by (simp_all add: validIdentity_def identity_trim)
qed

lemma demo_records: "or_records demo_created = [demo_record]"
  by (simp add: demo_created_def op_create_def demo_input_def new_operations_def assertOpen_def demo_identity op_get_def
      opt_ok_def Let_def demo_record_def)

lemma demo_reachable: "reaches op_step new_operations demo_created"
  unfolding demo_created_def by (rule reaches_one, rule op_step.intros)

lemma demo_get: "op_get ''op1'' demo_created = Some demo_record"
  by (simp add: op_get_def demo_records demo_record_def)

theorem operations_follow_lifecycle_witness:
  "length (or_records (snd (op_start ''op1'' demo_created))) \<ge> 1 \<and>
   op_id (or_records (snd (op_start ''op1'' demo_created)) ! 0) = ''op1''"
  using operations_follow_lifecycle [OF demo_reachable reaches_one [of op_step, OF op_step.intros(2)], of "''op1''"]
  by (simp add: demo_records demo_record_def)

lemma demo_cancelling: "\<exists>r. op_get ''op1'' (snd (op_cancel ''op1'' demo_created)) = Some r \<and> op_status r = Cancelling"
proof -
  have n: "or_cancels demo_created = Map.empty" "or_interrupts demo_created = Map.empty" "\<not> or_shuttingDown demo_created"
    by (simp_all add: demo_created_def op_create_def demo_input_def new_operations_def assertOpen_def demo_identity op_get_def
      opt_ok_def Let_def notify_ops_def)
  have "or_records (snd (op_cancel ''op1'' demo_created)) = [demo_record\<lparr>op_status := Cancelling\<rparr>]"
    using demo_records by (simp add: op_cancel_def requireRecord_def demo_get n assertOpen_def begin_cancelling_def
        assertTransition_def legal_transition_def terminal_def demo_record_def Let_def split_def)
  then show ?thesis by (simp add: op_get_def demo_record_def)
qed

theorem cancelling_is_transient_witness:
  "\<exists>u r'. reaches op_step (snd (op_cancel ''op1'' demo_created)) u \<and> op_get ''op1'' u = Some r' \<and> op_status r' \<noteq> Cancelling"
proof -
  have r: "reaches op_step new_operations (snd (op_cancel ''op1'' demo_created))"
    by (rule reaches_step [OF demo_reachable op_step.intros(6)])
  obtain q where q: "op_get ''op1'' (snd (op_cancel ''op1'' demo_created)) = Some q" "op_status q = Cancelling"
    using demo_cancelling by blast
  show ?thesis using cancelling_is_transient [OF r q] by blast
qed

theorem fail_half_applied_witness:
  "\<exists>err. fst (op_fail ''op1'' \<lparr>ie_code = ''x'', ie_messageKey = [], ie_retryable = False, ie_operation = ''send'', ie_requestId = None,
       ie_field = None, ie_limit = None, ie_actual = None, ie_retryAfterMs = None\<rparr> demo_created) = Inl err"
  using fail_half_applied [OF demo_get] by (simp add: demo_record_def legal_transition_def key_pattern_def)

end
