(* ===== verification/CaptureAccounting.thy ===== *)
theory CaptureAccounting
  imports Machine "HOL-Library.AList"
begin

text \<open>
  The bookkeeping of captured frames and bytes, \<open>CaptureAccountingStore\<close> in
  \<open>src/features/platform/application/capture-accounting.ts\<close>: one row per session and the
  workspace aggregates.  The \<open>Map\<close> of rows is an association list, so that the
  aggregates can be compared with the sum of the rows; numbers are integers (the deltas may be
  negative).
\<close>

section \<open>State and operations\<close>

record capture_row =
  cr_nextSequence :: int
  cr_frameCount :: int
  cr_captureBytes :: int

record capture_totals = capture_row +
  ct_sessionId :: string

record capture_store =
  cs_sessions :: "(string \<times> capture_row) list"
  cs_workspaceFrameCount :: int
  cs_workspaceCaptureBytes :: int

definition new_capture_store :: capture_store where
  "new_capture_store = \<lparr>cs_sessions = [], cs_workspaceFrameCount = 0, cs_workspaceCaptureBytes = 0\<rparr>"

definition sessionCount :: "capture_store \<Rightarrow> nat" where
  "sessionCount s = length (cs_sessions s)"

definition hasSession :: "string \<Rightarrow> capture_store \<Rightarrow> bool" where
  "hasSession sid s = (map_of (cs_sessions s) sid \<noteq> None)"

definition set_row :: "string \<Rightarrow> capture_row \<Rightarrow> capture_store \<Rightarrow> capture_store" where
  "set_row sid row s = s\<lparr>cs_sessions := AList.update sid row (cs_sessions s)\<rparr>"

definition registerSession :: "string \<Rightarrow> capture_row \<Rightarrow> capture_store \<Rightarrow> capture_store" where
  "registerSession sid registration s =
     (let s1 = set_row sid registration s in
      s1\<lparr>cs_workspaceFrameCount := cs_workspaceFrameCount s1 + cr_frameCount registration,
         cs_workspaceCaptureBytes := cs_workspaceCaptureBytes s1 + cr_captureBytes registration\<rparr>)"

definition sessionRow :: "string \<Rightarrow> capture_store \<Rightarrow> capture_row \<times> capture_store" where
  "sessionRow sid s =
     (case map_of (cs_sessions s) sid of
        Some row \<Rightarrow> (row, s)
      | None \<Rightarrow> let row = \<lparr>cr_nextSequence = 0, cr_frameCount = 0, cr_captureBytes = 0\<rparr> in (row, set_row sid row s))"

definition addWorkspaceFrames :: "int \<Rightarrow> int \<Rightarrow> capture_store \<Rightarrow> capture_store" where
  "addWorkspaceFrames count b s =
     s\<lparr>cs_workspaceFrameCount := max 0 (cs_workspaceFrameCount s + count),
       cs_workspaceCaptureBytes := max 0 (cs_workspaceCaptureBytes s + b)\<rparr>"

definition recordFrames :: "string \<Rightarrow> int \<Rightarrow> int \<Rightarrow> capture_store \<Rightarrow> capture_store" where
  "recordFrames sid count b s =
     (let (row, s1) = sessionRow sid s
      in addWorkspaceFrames count b
           (set_row sid (row\<lparr>cr_frameCount := cr_frameCount row + count, cr_captureBytes := cr_captureBytes row + b\<rparr>) s1))"

definition recordBytes :: "string \<Rightarrow> int \<Rightarrow> capture_store \<Rightarrow> capture_store" where
  "recordBytes sid b s = recordFrames sid 0 b s"

definition setSessionBytes :: "string \<Rightarrow> int \<Rightarrow> capture_store \<Rightarrow> capture_store" where
  "setSessionBytes sid captureBytes s =
     (let (row, s1) = sessionRow sid s;
          previous = cr_captureBytes row;
          s2 = set_row sid (row\<lparr>cr_captureBytes := captureBytes\<rparr>) s1
      in s2\<lparr>cs_workspaceCaptureBytes := cs_workspaceCaptureBytes s2 + (captureBytes - previous)\<rparr>)"

definition setWorkspaceBytes :: "int \<Rightarrow> capture_store \<Rightarrow> capture_store" where
  "setWorkspaceBytes captureBytes s = s\<lparr>cs_workspaceCaptureBytes := captureBytes\<rparr>"

definition snapshotRow :: "string \<Rightarrow> capture_row \<Rightarrow> capture_totals" where
  "snapshotRow sid row = capture_row.extend row \<lparr>ct_sessionId = sid\<rparr>"

definition resetSession :: "string \<Rightarrow> capture_store \<Rightarrow> capture_totals option \<times> capture_store" where
  "resetSession sid s =
     (case map_of (cs_sessions s) sid of
        None \<Rightarrow> (None, s)
      | Some row \<Rightarrow>
          (Some (snapshotRow sid row),
           addWorkspaceFrames (- cr_frameCount row) (- cr_captureBytes row)
             (set_row sid (row\<lparr>cr_nextSequence := 0, cr_frameCount := 0, cr_captureBytes := 0\<rparr>) s)))"

definition removeSession :: "string \<Rightarrow> capture_store \<Rightarrow> capture_totals option \<times> capture_store" where
  "removeSession sid s =
     (case map_of (cs_sessions s) sid of
        None \<Rightarrow> (None, s)
      | Some row \<Rightarrow>
          (Some (snapshotRow sid row),
           addWorkspaceFrames (- cr_frameCount row) (- cr_captureBytes row)
             (s\<lparr>cs_sessions := AList.delete sid (cs_sessions s)\<rparr>)))"

definition replaceWorkspace :: "capture_totals list \<Rightarrow> capture_store \<Rightarrow> capture_store" where
  "replaceWorkspace entries s =
     fold (\<lambda>e. registerSession (ct_sessionId e) (capture_row.truncate e)) entries
       (s\<lparr>cs_sessions := [], cs_workspaceFrameCount := 0, cs_workspaceCaptureBytes := 0\<rparr>)"

definition sessionTotals :: "string \<Rightarrow> capture_store \<Rightarrow> capture_totals option" where
  "sessionTotals sid s = map_option (snapshotRow sid) (map_of (cs_sessions s) sid)"

definition workspaceTotals :: "capture_store \<Rightarrow> int \<times> int" where
  "workspaceTotals s = (cs_workspaceFrameCount s, cs_workspaceCaptureBytes s)"

definition nextFrameSequence :: "string \<Rightarrow> capture_store \<Rightarrow> int option" where
  "nextFrameSequence sid s = map_option cr_nextSequence (map_of (cs_sessions s) sid)"

definition setNextFrameSequence :: "string \<Rightarrow> int \<Rightarrow> capture_store \<Rightarrow> capture_store" where
  "setNextFrameSequence sid n s = (let (row, s1) = sessionRow sid s in set_row sid (row\<lparr>cr_nextSequence := n\<rparr>) s1)"

definition allocateNextFrameSequence :: "string \<Rightarrow> capture_store \<Rightarrow> int \<times> capture_store" where
  "allocateNextFrameSequence sid s =
     (let (row, s1) = sessionRow sid s; sequence = cr_nextSequence row
      in (sequence, set_row sid (row\<lparr>cr_nextSequence := sequence + 1\<rparr>) s1))"

definition resetFrameSequence :: "string \<Rightarrow> capture_store \<Rightarrow> capture_store" where
  "resetFrameSequence sid s = (let (row, s1) = sessionRow sid s in set_row sid (row\<lparr>cr_nextSequence := 0\<rparr>) s1)"

section \<open>Aggregates\<close>

definition sum_by :: "(capture_row \<Rightarrow> int) \<Rightarrow> capture_store \<Rightarrow> int" where
  "sum_by f s = (\<Sum>x \<leftarrow> cs_sessions s. f (snd x))"

lemma sum_delete:
  "distinct (map fst xs) \<Longrightarrow> map_of xs k = Some r \<Longrightarrow>
    (\<Sum>x \<leftarrow> AList.delete k xs. f (snd x)) = (\<Sum>x \<leftarrow> xs. f (snd x)) - (f r :: int)"
proof (induction xs)
  case (Cons x xs)
  show ?case
  proof (cases "fst x = k")
    case True
    then have "k \<notin> fst ` set xs" using Cons.prems(1) by auto
    then have "AList.delete k xs = xs" by (rule AList.delete_id)
    then show ?thesis using True Cons.prems by (cases x) simp
  next
    case False
    then show ?thesis using Cons by (cases x) simp
  qed
qed simp

lemma sum_update:
  "distinct (map fst xs) \<Longrightarrow>
    (\<Sum>x \<leftarrow> AList.update k r xs. f (snd x)) =
      (\<Sum>x \<leftarrow> xs. f (snd x)) + (f r :: int) - (case map_of xs k of None \<Rightarrow> 0 | Some old \<Rightarrow> f old)"
  by (induction xs) (auto split: option.splits)

definition row_nonneg :: "capture_row \<Rightarrow> bool" where
  "row_nonneg r \<longleftrightarrow> 0 \<le> cr_frameCount r \<and> 0 \<le> cr_captureBytes r"

definition rows_ok :: "capture_store \<Rightarrow> bool" where
  "rows_ok s \<longleftrightarrow> distinct (map fst (cs_sessions s)) \<and> (\<forall>r \<in> snd ` set (cs_sessions s). row_nonneg r)"

definition balanced :: "capture_store \<Rightarrow> bool" where
  "balanced s \<longleftrightarrow> cs_workspaceFrameCount s = sum_by cr_frameCount s \<and> cs_workspaceCaptureBytes s = sum_by cr_captureBytes s"

definition old_row :: "string \<Rightarrow> capture_store \<Rightarrow> capture_row" where
  "old_row sid s = (case map_of (cs_sessions s) sid of None \<Rightarrow> \<lparr>cr_nextSequence = 0, cr_frameCount = 0, cr_captureBytes = 0\<rparr> | Some r \<Rightarrow> r)"

lemma sum_nonneg: "rows_ok s \<Longrightarrow> 0 \<le> sum_by cr_frameCount s \<and> 0 \<le> sum_by cr_captureBytes s"
  by (auto simp: rows_ok_def row_nonneg_def sum_by_def intro!: sum_list_nonneg)

lemma old_row_ok: "rows_ok s \<Longrightarrow> row_nonneg (old_row sid s)"
  by (auto simp: rows_ok_def old_row_def row_nonneg_def split: option.split dest!: map_of_SomeD)

lemma set_set [simp]: "set_row sid r (set_row sid r' s) = set_row sid r s"
  by (simp add: set_row_def AList.update_last)

lemma set_row_fields [simp]:
  "cs_workspaceFrameCount (set_row sid r s) = cs_workspaceFrameCount s"
  "cs_workspaceCaptureBytes (set_row sid r s) = cs_workspaceCaptureBytes s"
  by (simp_all add: set_row_def)

lemma sessionRow_cases: "fst (sessionRow sid s) = old_row sid s \<and> set_row sid r (snd (sessionRow sid s)) = set_row sid r s \<and>
    cs_workspaceCaptureBytes (snd (sessionRow sid s)) = cs_workspaceCaptureBytes s"
  by (simp add: sessionRow_def old_row_def Let_def split: option.split)

lemma update_subset: "set (AList.update k v xs) \<subseteq> insert (k, v) (set xs)"
  by (induction xs) auto

lemma delete_subset: "set (AList.delete k xs) \<subseteq> set xs"
  by (auto simp: AList.delete_eq)

lemma rows_set: "rows_ok s \<Longrightarrow> row_nonneg r \<Longrightarrow> rows_ok (set_row sid r s)"
  using update_subset [of sid r "cs_sessions s"] by (auto simp: rows_ok_def set_row_def AList.distinct_update)

lemma sum_set:
  "rows_ok s \<Longrightarrow> f \<lparr>cr_nextSequence = 0, cr_frameCount = 0, cr_captureBytes = 0\<rparr> = 0 \<Longrightarrow>
    sum_by f (set_row sid r s) = sum_by f s + f r - f (old_row sid s)"
  by (simp add: sum_by_def set_row_def sum_update rows_ok_def old_row_def split: option.split)

definition remove_row :: "string \<Rightarrow> capture_store \<Rightarrow> capture_store" where
  "remove_row sid s = s\<lparr>cs_sessions := AList.delete sid (cs_sessions s)\<rparr>"

lemma rows_remove: "rows_ok s \<Longrightarrow> rows_ok (remove_row sid s)"
  using delete_subset [of sid "cs_sessions s"] by (auto simp: rows_ok_def remove_row_def AList.distinct_delete)

lemma sum_remove: "rows_ok s \<Longrightarrow> map_of (cs_sessions s) sid = Some r \<Longrightarrow> sum_by f (remove_row sid s) = sum_by f s - f r"
  by (simp add: sum_by_def remove_row_def sum_delete rows_ok_def)

text \<open>Writing a row and moving the aggregates by the difference keeps the balance, and the clamp
  of \<open>addWorkspaceFrames\<close> never acts as long as the new row is not negative.\<close>

lemma add_balanced:
  assumes "rows_ok s'" "cs_workspaceFrameCount s' + c = sum_by cr_frameCount s'" "cs_workspaceCaptureBytes s' + b = sum_by cr_captureBytes s'"
  shows "rows_ok (addWorkspaceFrames c b s') \<and> balanced (addWorkspaceFrames c b s')"
  using assms sum_nonneg [OF assms(1)] by (simp add: addWorkspaceFrames_def rows_ok_def balanced_def sum_by_def)

section \<open>Disciplined use\<close>

datatype capture_op =
    Register string capture_row
  | RecordFrames string int int
  | SetSessionBytes string int
  | ResetSession string
  | RemoveSession string
  | ReplaceWorkspace "capture_totals list"
  | Allocate string
  | ResetSequence string
  | SetSequence string int

fun capture_apply :: "capture_op \<Rightarrow> capture_store \<Rightarrow> capture_store" where
  "capture_apply (Register sid row) s = registerSession sid row s"
| "capture_apply (RecordFrames sid c b) s = recordFrames sid c b s"
| "capture_apply (SetSessionBytes sid b) s = setSessionBytes sid b s"
| "capture_apply (ResetSession sid) s = snd (resetSession sid s)"
| "capture_apply (RemoveSession sid) s = snd (removeSession sid s)"
| "capture_apply (ReplaceWorkspace es) s = replaceWorkspace es s"
| "capture_apply (Allocate sid) s = snd (allocateNextFrameSequence sid s)"
| "capture_apply (ResetSequence sid) s = resetFrameSequence sid s"
| "capture_apply (SetSequence sid n) s = setNextFrameSequence sid n s"

text \<open>What the comments ask of the callers: a session is registered once, with totals that are not
  negative, and a delta or an absolute write never makes a row negative.\<close>

fun disciplined :: "capture_op \<Rightarrow> capture_store \<Rightarrow> bool" where
  "disciplined (Register sid row) s = (\<not> hasSession sid s \<and> row_nonneg row)"
| "disciplined (RecordFrames sid c b) s = (0 \<le> cr_frameCount (old_row sid s) + c \<and> 0 \<le> cr_captureBytes (old_row sid s) + b)"
| "disciplined (SetSessionBytes sid b) s = (0 \<le> b)"
| "disciplined (ReplaceWorkspace es) s = (distinct (map ct_sessionId es) \<and> (\<forall>e \<in> set es. row_nonneg (capture_row.truncate e)))"
| "disciplined _ s = True"

fun disciplined_run :: "capture_op list \<Rightarrow> capture_store \<Rightarrow> bool" where
  "disciplined_run [] s = True"
| "disciplined_run (op # ops) s = (disciplined op s \<and> disciplined_run ops (capture_apply op s))"

lemma register_balanced:
  assumes "rows_ok s" "balanced s" "\<not> hasSession sid s" "row_nonneg row"
  shows "rows_ok (registerSession sid row s) \<and> balanced (registerSession sid row s)"
proof -
  have o: "old_row sid s = \<lparr>cr_nextSequence = 0, cr_frameCount = 0, cr_captureBytes = 0\<rparr>"
    using assms(3) by (simp add: old_row_def hasSession_def)
  have "sum_by cr_frameCount (set_row sid row s) = sum_by cr_frameCount s + cr_frameCount row"
    "sum_by cr_captureBytes (set_row sid row s) = sum_by cr_captureBytes s + cr_captureBytes row"
    using sum_set [OF assms(1), of cr_frameCount sid row] sum_set [OF assms(1), of cr_captureBytes sid row] by (simp_all add: o)
  then show ?thesis using rows_set [OF assms(1,4), of sid] assms(2)
    by (simp add: registerSession_def Let_def balanced_def rows_ok_def sum_by_def)
qed

lemma write_balanced:
  assumes "rows_ok s" "balanced s" "row_nonneg r" "cr_frameCount r = cr_frameCount (old_row sid s)" "cr_captureBytes r = cr_captureBytes (old_row sid s)"
  shows "rows_ok (set_row sid r s) \<and> balanced (set_row sid r s)"
  using assms rows_set [OF assms(1,3), of sid] sum_set [OF assms(1), of cr_frameCount sid r] sum_set [OF assms(1), of cr_captureBytes sid r]
  by (simp add: balanced_def)

lemma fold_register:
  "rows_ok s \<Longrightarrow> balanced s \<Longrightarrow> distinct (map ct_sessionId es) \<Longrightarrow> (\<forall>e \<in> set es. row_nonneg (capture_row.truncate e) \<and> \<not> hasSession (ct_sessionId e) s) \<Longrightarrow>
    rows_ok (fold (\<lambda>e. registerSession (ct_sessionId e) (capture_row.truncate e)) es s) \<and>
    balanced (fold (\<lambda>e. registerSession (ct_sessionId e) (capture_row.truncate e)) es s)"
proof (induction es arbitrary: s)
  case (Cons e es)
  let ?s = "registerSession (ct_sessionId e) (capture_row.truncate e) s"
  have "rows_ok ?s \<and> balanced ?s" by (rule register_balanced) (use Cons.prems in auto)
  moreover have "\<not> hasSession (ct_sessionId x) ?s" if "x \<in> set es" for x
  proof -
    have "ct_sessionId x \<noteq> ct_sessionId e" using Cons.prems(3) that by (auto simp: image_iff)
    then show ?thesis using Cons.prems(4) that
      by (simp add: registerSession_def Let_def set_row_def hasSession_def AList.update_conv')
  qed
  ultimately show ?case using Cons.IH [of ?s] Cons.prems by simp
qed simp

lemma apply_balanced:
  assumes "rows_ok s" "balanced s" "disciplined op s"
  shows "rows_ok (capture_apply op s) \<and> balanced (capture_apply op s)"
proof -
  note row = sessionRow_cases [of _ s] and S = sum_set [OF assms(1)] and R = rows_set [OF assms(1)]
  show ?thesis
  proof (cases op)
    case (Register sid row)
    then show ?thesis using register_balanced [OF assms(1,2)] assms(3) by simp
  next
    case (RecordFrames sid c b)
    let ?r = "(old_row sid s)\<lparr>cr_frameCount := cr_frameCount (old_row sid s) + c, cr_captureBytes := cr_captureBytes (old_row sid s) + b\<rparr>"
    have "capture_apply op s = addWorkspaceFrames c b (set_row sid ?r s)"
      using row [of sid] by (simp add: RecordFrames recordFrames_def split_beta)
    moreover have "rows_ok (set_row sid ?r s)" using R assms(3) by (simp add: RecordFrames row_nonneg_def)
    ultimately show ?thesis using add_balanced [of "set_row sid ?r s" c b] S [of cr_frameCount sid ?r] S [of cr_captureBytes sid ?r] assms(2)
      by (simp add: balanced_def)
  next
    case (SetSessionBytes sid b)
    let ?r = "(old_row sid s)\<lparr>cr_captureBytes := b\<rparr>"
    have "rows_ok (set_row sid ?r s)" using R assms(3) old_row_ok [OF assms(1), of sid] by (simp add: SetSessionBytes row_nonneg_def)
    moreover have "capture_apply op s = (set_row sid ?r s)\<lparr>cs_workspaceCaptureBytes := cs_workspaceCaptureBytes s + (b - cr_captureBytes (old_row sid s))\<rparr>"
      using row [of sid] by (simp add: SetSessionBytes setSessionBytes_def split_beta Let_def)
    ultimately show ?thesis using S [of cr_frameCount sid ?r] S [of cr_captureBytes sid ?r] assms(2)
      by (simp add: balanced_def rows_ok_def sum_by_def)
  next
    case (ResetSession sid)
    show ?thesis
    proof (cases "map_of (cs_sessions s) sid")
      case None
      then show ?thesis using assms by (simp add: ResetSession resetSession_def)
    next
      case (Some r)
      let ?r = "r\<lparr>cr_nextSequence := 0, cr_frameCount := 0, cr_captureBytes := 0\<rparr>"
      have "old_row sid s = r" using Some by (simp add: old_row_def)
      then show ?thesis using add_balanced [of "set_row sid ?r s" "- cr_frameCount r" "- cr_captureBytes r"] R [of ?r sid]
          S [of cr_frameCount sid ?r] S [of cr_captureBytes sid ?r] assms(2) Some
        by (simp add: ResetSession resetSession_def balanced_def row_nonneg_def)
    qed
  next
    case (RemoveSession sid)
    show ?thesis
    proof (cases "map_of (cs_sessions s) sid")
      case None
      then show ?thesis using assms by (simp add: RemoveSession removeSession_def)
    next
      case (Some r)
      have "capture_apply op s = addWorkspaceFrames (- cr_frameCount r) (- cr_captureBytes r) (remove_row sid s)"
        by (simp add: RemoveSession removeSession_def Some remove_row_def)
      then show ?thesis using add_balanced [of "remove_row sid s" "- cr_frameCount r" "- cr_captureBytes r"]
          rows_remove [OF assms(1), of sid] sum_remove [OF assms(1) Some, of cr_frameCount] sum_remove [OF assms(1) Some, of cr_captureBytes] assms(2)
        by (simp add: balanced_def remove_row_def)
    qed
  next
    case (ReplaceWorkspace es)
    show ?thesis unfolding ReplaceWorkspace capture_apply.simps replaceWorkspace_def
      by (rule fold_register) (use assms(3) in \<open>auto simp: ReplaceWorkspace rows_ok_def balanced_def sum_by_def hasSession_def\<close>)
  next
    case (Allocate sid)
    then show ?thesis using write_balanced [OF assms(1,2), of "(old_row sid s)\<lparr>cr_nextSequence := cr_nextSequence (old_row sid s) + 1\<rparr>" sid] row [of sid]
        old_row_ok [OF assms(1), of sid]
      by (simp add: allocateNextFrameSequence_def split_beta Let_def row_nonneg_def)
  next
    case (ResetSequence sid)
    then show ?thesis using write_balanced [OF assms(1,2), of "(old_row sid s)\<lparr>cr_nextSequence := 0\<rparr>" sid] row [of sid] old_row_ok [OF assms(1), of sid]
      by (simp add: resetFrameSequence_def split_beta row_nonneg_def)
  next
    case (SetSequence sid n)
    then show ?thesis using write_balanced [OF assms(1,2), of "(old_row sid s)\<lparr>cr_nextSequence := n\<rparr>" sid] row [of sid] old_row_ok [OF assms(1), of sid]
      by (simp add: setNextFrameSequence_def split_beta row_nonneg_def)
  qed
qed

lemma run_balanced:
  "rows_ok s \<Longrightarrow> balanced s \<Longrightarrow> disciplined_run ops s \<Longrightarrow>
    rows_ok (run_events capture_apply ops s) \<and> balanced (run_events capture_apply ops s)"
  by (induction ops arbitrary: s) (use apply_balanced in \<open>auto\<close>)

section \<open>Capture sequence numbers\<close>

definition next_sequence :: "string \<Rightarrow> capture_store \<Rightarrow> int" where
  "next_sequence sid s = cr_nextSequence (old_row sid s)"

definition keeps_sequence :: "string \<Rightarrow> capture_op \<Rightarrow> bool" where
  "keeps_sequence sid op = (case op of
     Register s _ \<Rightarrow> s \<noteq> sid | ResetSession s \<Rightarrow> s \<noteq> sid | RemoveSession s \<Rightarrow> s \<noteq> sid | ReplaceWorkspace _ \<Rightarrow> False
   | ResetSequence s \<Rightarrow> s \<noteq> sid | SetSequence s _ \<Rightarrow> s \<noteq> sid | _ \<Rightarrow> True)"

text \<open>The numbers a sequence of operations hands out for one session.\<close>

fun allocated :: "string \<Rightarrow> capture_op list \<Rightarrow> capture_store \<Rightarrow> int list" where
  "allocated sid [] s = []"
| "allocated sid (op # ops) s =
     (if op = Allocate sid then [fst (allocateNextFrameSequence sid s)] else []) @ allocated sid ops (capture_apply op s)"

lemma next_set: "next_sequence sid (set_row k r s) = (if k = sid then cr_nextSequence r else next_sequence sid s)"
  by (simp add: next_sequence_def old_row_def set_row_def AList.update_conv')

lemma next_workspace [simp]:
  "next_sequence sid (s\<lparr>cs_workspaceFrameCount := x\<rparr>) = next_sequence sid s"
  "next_sequence sid (s\<lparr>cs_workspaceCaptureBytes := y\<rparr>) = next_sequence sid s"
  by (simp_all add: next_sequence_def old_row_def)

lemma next_add [simp]: "next_sequence sid (addWorkspaceFrames c b s) = next_sequence sid s"
  by (simp add: next_sequence_def old_row_def addWorkspaceFrames_def)

lemma next_remove: "k \<noteq> sid \<Longrightarrow> next_sequence sid (remove_row k s) = next_sequence sid s"
  by (simp add: next_sequence_def old_row_def remove_row_def)

lemma apply_sequence:
  assumes "keeps_sequence sid op"
  shows "next_sequence sid (capture_apply op s) = next_sequence sid s + (if op = Allocate sid then 1 else 0)"
proof (cases op)
  case (RemoveSession k)
  then have "k \<noteq> sid" using assms by (simp add: keeps_sequence_def)
  then show ?thesis using next_remove [of k sid s]
    by (simp add: RemoveSession removeSession_def remove_row_def split: option.split)
next
  case (ResetSession k)
  then have "k \<noteq> sid" using assms by (simp add: keeps_sequence_def)
  then show ?thesis by (simp add: ResetSession resetSession_def next_set split: option.split)
qed (use assms sessionRow_cases [of _ s] in \<open>auto simp: keeps_sequence_def registerSession_def recordFrames_def setSessionBytes_def
    allocateNextFrameSequence_def resetFrameSequence_def setNextFrameSequence_def Let_def split_beta next_set\<close>,
    auto simp: next_sequence_def)

lemma allocated_consecutive:
  "\<forall>op \<in> set ops. keeps_sequence sid op \<Longrightarrow>
    allocated sid ops s = map (\<lambda>i. next_sequence sid s + int i) [0..<length (filter (\<lambda>op. op = Allocate sid) ops)]"
proof (induction ops arbitrary: s)
  case (Cons op ops)
  have n: "next_sequence sid (capture_apply op s) = next_sequence sid s + (if op = Allocate sid then 1 else 0)"
    by (rule apply_sequence) (use Cons.prems in simp)
  have f: "fst (allocateNextFrameSequence sid s) = next_sequence sid s"
    using sessionRow_cases [of sid s] by (simp add: allocateNextFrameSequence_def split_beta Let_def next_sequence_def)
  have "map (\<lambda>i. a + 1 + int i) [0..<k] = map (\<lambda>i. a + int i) [1..<Suc k]" for a k
    by (simp add: map_Suc_upt [symmetric] algebra_simps del: upt_Suc)
  moreover have "[0..<Suc k] = 0 # [1..<Suc k]" for k using upt_conv_Cons [of 0 "Suc k"] by simp
  ultimately show ?case using Cons by (simp add: n f del: upt_Suc)
qed simp

text \<open>C40. The books balance.  After any sequence of store operations in which each session is
  registered once and no delta or absolute write makes a row negative, the workspace frame count
  and byte count are exactly the sums over the registered sessions (the clamp at zero never hides a
  difference), no row is negative, and the capture sequences handed out for a session, as long as it
  is not reset, are consecutive: no frame sequence is skipped or used twice.\<close>

theorem capture_books_balance:
  assumes "disciplined_run ops new_capture_store"
  shows "workspaceTotals (run_events capture_apply ops new_capture_store) =
      (sum_by cr_frameCount (run_events capture_apply ops new_capture_store),
       sum_by cr_captureBytes (run_events capture_apply ops new_capture_store)) \<and>
    rows_ok (run_events capture_apply ops new_capture_store) \<and>
    ((\<forall>op \<in> set ops'. keeps_sequence sid op) \<longrightarrow>
      allocated sid ops' (run_events capture_apply ops new_capture_store) =
      map (\<lambda>i. next_sequence sid (run_events capture_apply ops new_capture_store) + int i)
        [0..<length (filter (\<lambda>op. op = Allocate sid) ops')])"
proof -
  have "rows_ok new_capture_store" "balanced new_capture_store"
    by (simp_all add: new_capture_store_def rows_ok_def balanced_def sum_by_def)
  from run_balanced [OF this assms] show ?thesis
    using allocated_consecutive [of ops' sid] by (simp add: workspaceTotals_def balanced_def)
qed

theorem capture_books_balance_witness:
  "workspaceTotals (run_events capture_apply
      [Register ''a'' \<lparr>cr_nextSequence = 7, cr_frameCount = 2, cr_captureBytes = 20\<rparr>, RecordFrames ''b'' 1 5, Allocate ''a'', ResetSession ''b''] new_capture_store)
    = (2, 20)"
proof -
  let ?ops = "[Register ''a'' \<lparr>cr_nextSequence = 7, cr_frameCount = 2, cr_captureBytes = 20\<rparr>, RecordFrames ''b'' 1 5, Allocate ''a'', ResetSession ''b'']"
  have "disciplined_run ?ops new_capture_store"
    by (simp add: new_capture_store_def hasSession_def row_nonneg_def registerSession_def set_row_def Let_def old_row_def)
  from conjunct1 [OF capture_books_balance [OF this, of "[Allocate ''a'']" "''a''"]] show ?thesis
    by (simp add: sum_by_def new_capture_store_def registerSession_def set_row_def Let_def recordFrames_def sessionRow_def
        addWorkspaceFrames_def allocateNextFrameSequence_def resetSession_def)
qed

text \<open>A second registration of a session is not a re-baseline: the row is replaced, but its old
  totals stay in the aggregates.\<close>

lemma register_twice_drifts:
  assumes "balanced s" "rows_ok s" "map_of (cs_sessions s) sid = Some old"
  shows "cs_workspaceFrameCount (registerSession sid row s) = sum_by cr_frameCount (registerSession sid row s) + cr_frameCount old"
proof -
  have "sum_by cr_frameCount (registerSession sid row s) = sum_by cr_frameCount s + cr_frameCount row - cr_frameCount old"
    using sum_set [OF assms(2), of cr_frameCount sid row] by (simp add: registerSession_def Let_def sum_by_def old_row_def assms(3))
  then show ?thesis using assms(1) by (simp add: balanced_def registerSession_def Let_def)
qed

end
