(* ===== verification/Base64.thy ===== *)
theory Base64
  imports JsStrings
begin

text \<open>
  The base64 codec of the IPC byte channel, \<open>src/lib/base64.ts\<close>: \<open>bytesToBase64\<close> and
  \<open>base64ToBytes\<close> with their chunk loops.  \<open>btoa\<close> and \<open>atob\<close> are the platform's
  functions, written out on the arguments the code gives them: a binary string is the list of its
  bytes, and \<open>atob\<close> only ever sees whole groups of canonical text.
\<close>

section \<open>The alphabet\<close>

definition b64_char :: "nat \<Rightarrow> char" where
  "b64_char n = char_of (if n < 26 then n + 65 else if n < 52 then n + 71 else if n < 62 then n - 4 else if n = 62 then 43 else 47 :: nat)"

definition is_b64 :: "char \<Rightarrow> bool" where
  "is_b64 c \<longleftrightarrow> is_upper c \<or> is_lower c \<or> is_digit c \<or> c = CHR ''+'' \<or> c = CHR ''/''"

definition b64_value :: "char \<Rightarrow> nat" where
  "b64_value c =
     (if is_upper c then code c - 65 else if is_lower c then code c - 71 else if is_digit c then code c + 4
      else if c = CHR ''+'' then 62 else 63)"

lemma code_char [simp]: "n < 256 \<Longrightarrow> code (char_of n) = n"
  by (simp add: code_def of_char_mod_256)

lemma pad_code: "code (CHR ''='') = 61" "code (CHR ''+'') = 43" "code (CHR ''/'') = 47"
  by (simp_all add: code_def)

lemma b64_code: "n < 64 \<Longrightarrow> code (b64_char n) =
    (if n < 26 then n + 65 else if n < 52 then n + 71 else if n < 62 then n - 4 else if n = 62 then 43 else 47)"
  by (simp add: b64_char_def)

lemma code_eq: "c = d \<longleftrightarrow> code c = code d"
  by (simp add: code_def)

lemma b64_char [simp]:
  assumes "n < 64"
  shows "b64_value (b64_char n) = n" "is_b64 (b64_char n)" "b64_char n \<noteq> CHR ''=''"
  using assms
  by (auto simp: b64_value_def is_b64_def is_upper_def is_lower_def is_digit_def b64_code code_eq pad_code split: if_splits)

lemma b64_not_pad [simp]: "\<not> is_b64 (CHR ''='')"
  by (simp add: is_b64_def is_upper_def is_lower_def is_digit_def pad_code)

section \<open>One chunk\<close>

fun btoa :: "bytes \<Rightarrow> string" where
  "btoa [] = []"
| "btoa [a] = [b64_char (unat a div 4), b64_char (unat a mod 4 * 16), CHR ''='', CHR ''='']"
| "btoa [a, b] = [b64_char (unat a div 4), b64_char (unat a mod 4 * 16 + unat b div 16), b64_char (unat b mod 16 * 4), CHR ''='']"
| "btoa (a # b # c # bs) =
     [b64_char (unat a div 4), b64_char (unat a mod 4 * 16 + unat b div 16),
      b64_char (unat b mod 16 * 4 + unat c div 64), b64_char (unat c mod 64)] @ btoa bs"

definition group_bytes :: "char \<Rightarrow> char \<Rightarrow> char \<Rightarrow> char \<Rightarrow> bytes" where
  "group_bytes a b c d =
     (let x = to_byte (int (b64_value a * 4 + b64_value b div 16));
          y = to_byte (int (b64_value b mod 16 * 16 + b64_value c div 4));
          z = to_byte (int (b64_value c mod 4 * 64 + b64_value d))
      in if c = CHR ''='' then [x] else if d = CHR ''='' then [x, y] else [x, y, z])"

fun atob :: "string \<Rightarrow> bytes" where
  "atob (a # b # c # d # cs) = group_bytes a b c d @ atob cs"
| "atob _ = []"

text \<open>The regular expression \<open>CANONICAL_BASE64\<close>.\<close>

fun canonical_base64 :: "string \<Rightarrow> bool" where
  "canonical_base64 [] = True"
| "canonical_base64 [a, b, c, d] =
     (is_b64 a \<and> is_b64 b \<and> (is_b64 c \<and> (is_b64 d \<or> d = CHR ''='') \<or> c = CHR ''='' \<and> d = CHR ''=''))"
| "canonical_base64 (a # b # c # d # cs) = (is_b64 a \<and> is_b64 b \<and> is_b64 c \<and> is_b64 d \<and> canonical_base64 cs)"
| "canonical_base64 _ = False"

section \<open>The codec\<close>

text \<open>A loop that cuts its input into slices of \<open>n\<close>.\<close>

function slices :: "nat \<Rightarrow> 'a list \<Rightarrow> 'a list list" where
  "slices n xs = (if xs = [] \<or> n = 0 then [] else take n xs # slices n (drop n xs))"
  by pat_completeness auto
termination
  by (relation "measure (\<lambda>(n, xs). length xs)") auto

declare slices.simps [simp del]

definition ENCODE_CHUNK_BYTES :: nat where "ENCODE_CHUNK_BYTES = 12288"
definition BINARY_SLICE_BYTES :: nat where "BINARY_SLICE_BYTES = 4096"
definition DECODE_CHUNK_CHARS :: nat where "DECODE_CHUNK_CHARS = 32768"

definition bytesToBase64 :: "bytes \<Rightarrow> string" where
  "bytesToBase64 bs = concat (map (\<lambda>chunk. btoa (concat (slices BINARY_SLICE_BYTES chunk))) (slices ENCODE_CHUNK_BYTES bs))"

definition js_endsWith :: "string \<Rightarrow> string \<Rightarrow> bool" where
  "js_endsWith s t \<longleftrightarrow> length t \<le> length s \<and> drop (length s - length t) s = t"

text \<open>Writes beyond the end of a typed array are ignored.\<close>

definition write_all :: "nat \<Rightarrow> bytes \<Rightarrow> bytes" where
  "write_all n bs = take n bs @ replicate (n - length bs) 0"

definition base64ToBytes :: "string \<Rightarrow> bytes option" where
  "base64ToBytes v =
     (if \<not> canonical_base64 v then None
      else
        let padding = (if js_endsWith v ''=='' then 2 else if js_endsWith v ''='' then 1 else 0)
        in Some (write_all (length v div 4 * 3 - padding) (concat (map atob (slices DECODE_CHUNK_CHARS v)))))"

section \<open>The chunks do not matter\<close>

lemma concat_slices: "0 < n \<Longrightarrow> concat (slices n xs) = xs"
proof (induction n xs rule: slices.induct)
  case (1 n xs)
  then show ?case by (subst slices.simps) simp
qed

lemma btoa_append: "3 dvd length xs \<Longrightarrow> btoa (xs @ ys) = btoa xs @ btoa ys"
proof (induction xs rule: btoa.induct)
  case (4 a b c bs)
  then have "3 dvd length bs" by (simp add: numeral_3_eq_3) presburger
  then show ?case using 4 by simp
qed (simp_all, presburger+)

lemma atob_append: "4 dvd length xs \<Longrightarrow> atob (xs @ ys) = atob xs @ atob ys"
proof (induction xs rule: atob.induct)
  case (1 a b c d cs)
  then have "4 dvd length cs" by simp presburger
  then show ?case using 1 by simp
qed (simp_all, presburger+)

lemma map_slices:
  assumes "\<And>xs ys. k dvd length xs \<Longrightarrow> f (xs @ ys) = f xs @ f ys" "f [] = []" "k dvd n" "0 < n"
  shows "concat (map f (slices n xs)) = f xs"
  using assms(3,4)
proof (induction n xs rule: slices.induct)
  case (1 n xs)
  show ?case
  proof (cases "length xs \<le> n")
    case True
    then have "slices n xs = (if xs = [] then [] else [xs])" using 1(3)
      by (subst slices.simps, subst slices.simps) simp
    then show ?thesis using assms(2) by simp
  next
    case False
    then have ne: "xs \<noteq> []" by auto
    have "f (take n xs @ drop n xs) = f (take n xs) @ f (drop n xs)"
      by (rule assms(1)) (use False 1(2) in simp)
    moreover have "concat (map f (slices n (drop n xs))) = f (drop n xs)" by (rule "1.IH") (use ne 1 in simp_all)
    moreover have "slices n xs = take n xs # slices n (drop n xs)" using ne 1(3) by (subst slices.simps) simp
    ultimately show ?thesis by simp
  qed
qed

lemma bytesToBase64_eq: "bytesToBase64 bs = btoa bs"
proof -
  have "bytesToBase64 bs = concat (map btoa (slices ENCODE_CHUNK_BYTES bs))"
    by (simp add: bytesToBase64_def concat_slices BINARY_SLICE_BYTES_def)
  also have "\<dots> = btoa bs"
    by (rule map_slices [of 3]) (simp_all add: btoa_append ENCODE_CHUNK_BYTES_def)
  finally show ?thesis .
qed

lemma decode_chunks: "concat (map atob (slices DECODE_CHUNK_CHARS v)) = atob v"
  by (rule map_slices [of 4]) (simp_all add: atob_append DECODE_CHUNK_CHARS_def)

section \<open>Round trip\<close>

lemma unat_byte: "unat (b :: byte) < 256"
proof -
  have "unat b < 2 ^ LENGTH(8)" by (rule unsigned_less)
  then show ?thesis by simp
qed

lemma byte_of_unat: "n = unat (b :: byte) \<Longrightarrow> to_byte (int n) = b"
  by (simp add: to_byte_def)

lemma digits: "lo < n \<Longrightarrow> (hi * n + lo) div n = hi \<and> (hi * n + lo) mod n = (lo :: nat)"
  by simp

lemma sextets:
  fixes a b c :: nat
  assumes "a < 256" "b < 256" "c < 256"
  shows "a div 4 < 64" "a mod 4 * 16 + b div 16 < 64" "b mod 16 * 4 + c div 64 < 64" "c mod 64 < 64" "a mod 4 * 16 < 64" "b mod 16 * 4 < 64"
    and "a div 4 * 4 + (a mod 4 * 16 + b div 16) div 16 = a"
    "(a mod 4 * 16 + b div 16) mod 16 * 16 + (b mod 16 * 4 + c div 64) div 4 = b"
    "(b mod 16 * 4 + c div 64) mod 4 * 64 + c mod 64 = c"
    "(a mod 4 * 16 + b div 16) mod 16 * 16 + (b mod 16 * 4) div 4 = b"
    "a div 4 * 4 + (a mod 4 * 16) div 16 = a"
proof -
  have a: "a mod 4 < 4" and b: "b div 16 < 16" "b mod 16 < 16" and c: "c div 64 < 4" "c mod 64 < 64"
    using assms by (simp_all add: less_mult_imp_div_less)
  show "a div 4 < 64" using assms by (simp add: less_mult_imp_div_less)
  show "a mod 4 * 16 + b div 16 < 64" "a mod 4 * 16 < 64" using a b by linarith+
  show "b mod 16 * 4 + c div 64 < 64" "b mod 16 * 4 < 64" using b c by linarith+
  show "c mod 64 < 64" by (rule c(2))
  show "a div 4 * 4 + (a mod 4 * 16 + b div 16) div 16 = a" "a div 4 * 4 + (a mod 4 * 16) div 16 = a"
    using digits [OF b(1), of "a mod 4"] by simp_all
  show "(a mod 4 * 16 + b div 16) mod 16 * 16 + (b mod 16 * 4 + c div 64) div 4 = b"
    using digits [OF b(1), of "a mod 4"] digits [OF c(1), of "b mod 16"] by simp
  show "(b mod 16 * 4 + c div 64) mod 4 * 64 + c mod 64 = c"
    using digits [OF c(1), of "b mod 16"] by simp
  show "(a mod 4 * 16 + b div 16) mod 16 * 16 + (b mod 16 * 4) div 4 = b"
    using digits [OF b(1), of "a mod 4"] by simp
qed

lemma btoa_group:
  "group_bytes (b64_char (unat a div 4)) (b64_char (unat a mod 4 * 16 + unat b div 16))
     (b64_char (unat b mod 16 * 4 + unat c div 64)) (b64_char (unat c mod 64)) = [a, b, c]"
  "group_bytes (b64_char (unat a div 4)) (b64_char (unat a mod 4 * 16 + unat b div 16)) (b64_char (unat b mod 16 * 4)) (CHR ''='') = [a, b]"
  "group_bytes (b64_char (unat a div 4)) (b64_char (unat a mod 4 * 16)) (CHR ''='') (CHR ''='') = [a]"
proof -
  note S = sextets [OF unat_byte [of a] unat_byte [of b] unat_byte [of c]]
  note v = S(1-6) and e = S(7-9) and e2 = S(10,11)
  show "group_bytes (b64_char (unat a div 4)) (b64_char (unat a mod 4 * 16 + unat b div 16))
     (b64_char (unat b mod 16 * 4 + unat c div 64)) (b64_char (unat c mod 64)) = [a, b, c]"
    unfolding group_bytes_def Let_def b64_char(1) [OF v(1)] b64_char(1) [OF v(2)] b64_char(1) [OF v(3)] b64_char(1) [OF v(4)] e
    using b64_char(3) [OF v(3)] b64_char(3) [OF v(4)] by (simp add: byte_of_unat)
  show "group_bytes (b64_char (unat a div 4)) (b64_char (unat a mod 4 * 16 + unat b div 16)) (b64_char (unat b mod 16 * 4)) (CHR ''='') = [a, b]"
    unfolding group_bytes_def Let_def b64_char(1) [OF v(1)] b64_char(1) [OF v(2)] b64_char(1) [OF v(6)] e(1) e2(1)
    using b64_char(3) [OF v(6)] by (simp add: byte_of_unat)
  show "group_bytes (b64_char (unat a div 4)) (b64_char (unat a mod 4 * 16)) (CHR ''='') (CHR ''='') = [a]"
    unfolding group_bytes_def Let_def b64_char(1) [OF v(1)] b64_char(1) [OF v(5)] e2(2) by (simp add: byte_of_unat)
qed

lemma atob_btoa: "atob (btoa bs) = bs"
  by (induction bs rule: btoa.induct) (simp_all add: btoa_group)

lemma canonical_btoa: "canonical_base64 (btoa bs)"
proof (induction bs rule: btoa.induct)
  case (2 a)
  show ?case using sextets(1,5) [OF unat_byte [of a] unat_byte [of a] unat_byte [of a]] by simp
next
  case (3 a b)
  show ?case using sextets(1,2,6) [OF unat_byte [of a] unat_byte [of b] unat_byte [of b]] by simp
next
  case (4 a b c bs)
  then show ?case using sextets(1-4) [OF unat_byte [of a] unat_byte [of b] unat_byte [of c]]
    by (cases "btoa bs") simp_all
qed simp

lemma length_btoa: "length (btoa bs) = (length bs + 2) div 3 * 4"
proof (induction bs rule: btoa.induct)
  case (4 a b c bs)
  have "(length (a # b # c # bs) + 2) = (length bs + 2) + 3" by simp
  then have "(length (a # b # c # bs) + 2) div 3 = (length bs + 2) div 3 + 1" by (simp only: div_add_self2)
  then show ?case using 4 by (simp only: btoa.simps length_append) simp
qed simp_all

definition padding_of :: "string \<Rightarrow> nat" where
  "padding_of v = (if js_endsWith v ''=='' then 2 else if js_endsWith v ''='' then 1 else 0)"

lemma endsWith_group:
  "t \<noteq> [] \<Longrightarrow> length t \<le> length xs \<Longrightarrow> js_endsWith (ys @ xs) t = js_endsWith xs t"
  by (simp add: js_endsWith_def)

lemma canonical_length:
  "canonical_base64 v \<Longrightarrow> length (atob v) = length v div 4 * 3 - padding_of v \<and> padding_of v \<le> length v div 4 * 3"
proof (induction v rule: canonical_base64.induct)
  case (2 a b c d)
  then show ?case by (auto simp: padding_of_def js_endsWith_def group_bytes_def Let_def)
next
  case (3 a b c d e f)
  have "4 \<le> length (e # f)" using 3 by (cases "(e # f)" rule: canonical_base64.cases) auto
  then have "padding_of ([a, b, c, d] @ e # f) = padding_of (e # f)"
    using endsWith_group [of "''==''" "e # f" "[a, b, c, d]"] endsWith_group [of "''=''" "e # f" "[a, b, c, d]"] by (simp add: padding_of_def)
  moreover have "c \<noteq> CHR ''=''" "d \<noteq> CHR ''=''" using 3 by auto
  moreover have "length (a # b # c # d # e # f) div 4 = length (e # f) div 4 + 1" by simp
  ultimately show ?case using 3 by (simp add: group_bytes_def) linarith
qed (simp_all add: padding_of_def js_endsWith_def)

lemma base64ToBytes_eq: "base64ToBytes v = (if canonical_base64 v then Some (atob v) else None)"
proof (cases "canonical_base64 v")
  case True
  then have "length (atob v) = length v div 4 * 3 - padding_of v" using canonical_length by blast
  then show ?thesis using True
    by (simp add: base64ToBytes_def decode_chunks write_all_def padding_of_def [symmetric] Let_def del: replicate.simps)
qed (simp add: base64ToBytes_def)

text \<open>Base64 round trip: decoding what \<open>bytesToBase64\<close> made returns the bytes, for any
  length, so the chunked loops never split a group; the text is canonical and has four characters
  for every three bytes begun; and a text that is not canonical is refused.\<close>

theorem base64_roundtrip:
  "base64ToBytes (bytesToBase64 bs) = Some bs \<and> length (bytesToBase64 bs) = (length bs + 2) div 3 * 4 \<and>
   (base64ToBytes v = None) = (\<not> canonical_base64 v)"
  by (simp add: bytesToBase64_eq base64ToBytes_eq canonical_btoa atob_btoa length_btoa)

end
