(* ===== verification/SmpCbor.thy ===== *)
theory SmpCbor
  imports JsStrings
begin

text \<open>
  The bounded CBOR decoder of SMP payloads, \<open>src/lib/mcumgr-smp-cbor.ts\<close>.  The tokenizer and
  the object decoder of the package \<open>cborg\<close> are parameters: a token list that may end in an
  error, and a decoded value.  What is modelled is the code around them: the preflight that checks
  nesting, node count and big numbers on the tokens alone, the normalisation of the decoded value,
  and the accessors.
\<close>

section \<open>Values\<close>

text \<open>\<open>CborOther\<close> is a decoded object that is none of the supported kinds.  A \<open>Map\<close> is the
  list of its entries in insertion order.\<close>

datatype cbor_node =
    CborNull
  | CborUndefined
  | CborBool bool
  | CborNumber jsnum
  | CborBigint int
  | CborText string
  | CborBytes bytes
  | CborArray "cbor_node list"
  | CborMap "(cbor_node \<times> cbor_node) list"
  | CborOther

definition MAX_SMP_CBOR_DEPTH :: nat where "MAX_SMP_CBOR_DEPTH = 32"
definition MAX_SMP_CBOR_NODES :: nat where "MAX_SMP_CBOR_NODES = 4096"
definition MAX_SMP_CBOR_BIGNUM_BYTES :: nat where "MAX_SMP_CBOR_BIGNUM_BYTES = 4096"

fun cborMapValue :: "cbor_node option \<Rightarrow> string \<Rightarrow> cbor_node option" where
  "cborMapValue (Some (CborMap entries)) key = map_of entries (CborText key)"
| "cborMapValue _ key = None"

fun cborInteger :: "cbor_node option \<Rightarrow> cbor_node option" where
  "cborInteger (Some (CborNumber n)) = Some (CborNumber n)"
| "cborInteger (Some (CborBigint i)) = Some (CborBigint i)"
| "cborInteger _ = None"

fun cborText :: "cbor_node option \<Rightarrow> string option" where
  "cborText (Some (CborText s)) = Some s"
| "cborText _ = None"

section \<open>Preflight\<close>

text \<open>The tokens the preflight distinguishes.  The value of an array or map token is its length,
  infinite for an indefinite container; of a tag token its number; of a byte string token the bytes
  it carries, if the value is a byte array.\<close>

datatype cbor_token =
    TBreak
  | TArray jsnum
  | TMap jsnum
  | TTag int
  | TBytes "nat option"
  | TScalar

record container_budget =
  cbu_remaining :: "int option"
  cbu_bignum :: bool

definition numberLength :: "jsnum \<Rightarrow> int option" where
  "numberLength v = (if js_isInteger v \<and> \<bar>js_floor v\<bar> \<le> 2 ^ 53 - 1 \<and> 0 \<le> js_floor v then Some (js_floor v) else None)"

definition consumeContainerSlot :: "container_budget \<Rightarrow> container_budget option" where
  "consumeContainerSlot c =
     (case cbu_remaining c of
        None \<Rightarrow> Some c
      | Some r \<Rightarrow> if r \<le> 0 then None else Some (c\<lparr>cbu_remaining := Some (r - 1)\<rparr>))"

text \<open>The stack is kept with its top first.\<close>

fun collapseCompletedContainers :: "container_budget list \<Rightarrow> container_budget list" where
  "collapseCompletedContainers [] = []"
| "collapseCompletedContainers (c # cs) = (if cbu_remaining c = Some 0 then collapseCompletedContainers cs else c # cs)"

text \<open>The container a token opens, if any: \<open>Inl ()\<close> is the exception of \<open>numberLength\<close>.\<close>

fun opened_container :: "cbor_token \<Rightarrow> unit + container_budget option" where
  "opened_container (TArray v) =
     (if v = PosInf then Inr (Some \<lparr>cbu_remaining = None, cbu_bignum = False\<rparr>)
      else case numberLength v of None \<Rightarrow> Inl () | Some n \<Rightarrow> Inr (Some \<lparr>cbu_remaining = Some n, cbu_bignum = False\<rparr>))"
| "opened_container (TMap v) =
     (if v = PosInf then Inr (Some \<lparr>cbu_remaining = None, cbu_bignum = False\<rparr>)
      else case numberLength v of None \<Rightarrow> Inl () | Some n \<Rightarrow> Inr (Some \<lparr>cbu_remaining = Some (n * 2), cbu_bignum = False\<rparr>))"
| "opened_container (TTag t) = Inr (Some \<lparr>cbu_remaining = Some 1, cbu_bignum = (t = 2 \<or> t = 3)\<rparr>)"
| "opened_container _ = Inr None"

fun bignum_ok :: "cbor_token \<Rightarrow> bool" where
  "bignum_ok (TBytes (Some n)) = (n \<le> MAX_SMP_CBOR_BIGNUM_BYTES)"
| "bignum_ok _ = False"

text \<open>One token that is not a break: the new stack and the number of roots.\<close>

definition preflight_value :: "nat \<Rightarrow> cbor_token \<Rightarrow> container_budget list \<Rightarrow> nat \<Rightarrow> (container_budget list \<times> nat) option" where
  "preflight_value maxDepth token stack roots =
     (if stack \<noteq> [] \<and> cbu_bignum (hd stack) \<and> \<not> bignum_ok token then None
      else
        case (case stack of
            [] \<Rightarrow> if roots + 1 > 1 then None else Some ([], roots + 1)
          | c # cs \<Rightarrow> map_option (\<lambda>c'. (c' # cs, roots)) (consumeContainerSlot c)) of
          None \<Rightarrow> None
        | Some (stack1, roots1) \<Rightarrow>
            (case opened_container token of
               Inl _ \<Rightarrow> None
             | Inr None \<Rightarrow> Some (collapseCompletedContainers stack1, roots1)
             | Inr (Some c) \<Rightarrow>
                 if length (c # stack1) > maxDepth then None
                 else Some (collapseCompletedContainers (c # stack1), roots1)))"

fun preflight_loop :: "nat \<Rightarrow> nat \<Rightarrow> cbor_token list \<Rightarrow> container_budget list \<Rightarrow> nat \<Rightarrow> nat \<Rightarrow> bool" where
  "preflight_loop maxDepth maxNodes [] stack nodes roots = (roots = 1 \<and> stack = [])"
| "preflight_loop maxDepth maxNodes (token # tokens) stack nodes roots =
     (if token = TBreak then
        (case stack of
           [] \<Rightarrow> False
         | c # cs \<Rightarrow> cbu_remaining c = None \<and>
             preflight_loop maxDepth maxNodes tokens (collapseCompletedContainers cs) nodes roots)
      else if nodes + 1 > maxNodes then False
      else
        (case preflight_value maxDepth token stack roots of
           None \<Rightarrow> False
         | Some (stack1, roots1) \<Rightarrow> preflight_loop maxDepth maxNodes tokens stack1 (nodes + 1) roots1))"

text \<open>\<open>cl_tokens\<close>: the tokens, and whether the tokenizer then throws; \<open>cl_decode\<close>: the value
  or an exception.\<close>

record cbor_lib =
  cl_tokens :: "bytes \<Rightarrow> cbor_token list \<times> bool"
  cl_decode :: "bytes \<Rightarrow> cbor_node option"

definition preflightCbor :: "cbor_lib \<Rightarrow> bytes \<Rightarrow> nat \<Rightarrow> nat \<Rightarrow> bool" where
  "preflightCbor lib payload maxDepth maxNodes =
     (\<not> snd (cl_tokens lib payload) \<and> preflight_loop maxDepth maxNodes (fst (cl_tokens lib payload)) [] 0 0)"

section \<open>Normalisation\<close>

text \<open>\<open>visit\<close> gives the node rebuilt and the number of nodes visited so far; \<open>visit_all\<close>
  is the visit of a list of children in order.\<close>

fun visit_all :: "('a \<Rightarrow> nat \<Rightarrow> ('b \<times> nat) option) \<Rightarrow> 'a list \<Rightarrow> nat \<Rightarrow> ('b list \<times> nat) option" where
  "visit_all f [] nodes = Some ([], nodes)"
| "visit_all f (x # xs) nodes =
     (case f x nodes of
        None \<Rightarrow> None
      | Some (y, n) \<Rightarrow> (case visit_all f xs n of None \<Rightarrow> None | Some (ys, m) \<Rightarrow> Some (y # ys, m)))"

lemma visit_all_cong [fundef_cong]:
  "xs = ys \<Longrightarrow> n = m \<Longrightarrow> (\<And>x k. x \<in> set ys \<Longrightarrow> f x k = g x k) \<Longrightarrow> visit_all f xs n = visit_all g ys m"
proof (induction ys arbitrary: xs n m)
  case (Cons y ys)
  then show ?case by (auto split: option.split)
qed simp

function visit_node :: "nat \<Rightarrow> nat \<Rightarrow> nat \<Rightarrow> cbor_node \<Rightarrow> nat \<Rightarrow> (cbor_node \<times> nat) option" where
  "visit_node maxDepth maxNodes depth current nodes =
     (if nodes + 1 > maxNodes then None
      else if depth > maxDepth then None
      else
        (case current of
           CborArray xs \<Rightarrow>
             map_option (\<lambda>(ys, n). (CborArray ys, n)) (visit_all (visit_node maxDepth maxNodes (depth + 1)) xs (nodes + 1))
         | CborMap es \<Rightarrow>
             map_option (\<lambda>(ys, n). (CborMap ys, n))
               (visit_all (\<lambda>e n. case visit_node maxDepth maxNodes (depth + 1) (fst e) n of
                    None \<Rightarrow> None
                  | Some (k, m) \<Rightarrow> map_option (\<lambda>(v, l). ((k, v), l)) (visit_node maxDepth maxNodes (depth + 1) (snd e) m)) es (nodes + 1))
         | CborOther \<Rightarrow> None
         | _ \<Rightarrow> Some (current, nodes + 1)))"
  by pat_completeness auto
termination
proof (relation "measure (\<lambda>(a, b, c, v, d). size v)", goal_cases)
  case (2 a b c v d xs x k)
  then show ?case using size_list_estimation' [of x xs] by (simp add: less_Suc_eq_le size_list_estimation)
next
  case (3 a b c v d es e k)
  then show ?case by (cases e) (auto simp: less_Suc_eq_le intro!: size_list_estimation' [of e])
next
  case (4 a b c v d es e k)
  then show ?case by (cases e) (auto simp: less_Suc_eq_le intro!: size_list_estimation' [of e])
qed simp

declare visit_node.simps [simp del]

definition normalizeCborNode :: "cbor_node \<Rightarrow> nat \<Rightarrow> nat \<Rightarrow> cbor_node option" where
  "normalizeCborNode value maxDepth maxNodes = map_option fst (visit_node maxDepth maxNodes 1 value 0)"

definition decodeBoundedSmpCbor :: "cbor_lib \<Rightarrow> bytes \<Rightarrow> cbor_node option" where
  "decodeBoundedSmpCbor lib payload =
     (if payload = [] then None
      else if \<not> preflightCbor lib payload MAX_SMP_CBOR_DEPTH MAX_SMP_CBOR_NODES then None
      else Option.bind (cl_decode lib payload) (\<lambda>v. normalizeCborNode v MAX_SMP_CBOR_DEPTH MAX_SMP_CBOR_NODES))"

end
