(* ===== verification/SmpCodec.thy ===== *)
theory SmpCodec
  imports Base64 SmpCbor Crc16
begin

text \<open>
  The pure parts of the MCUmgr SMP parser: the metadata of \<open>src/lib/mcumgr-smp-metadata.ts\<close> that
  the parser's decisions use, and the free functions of \<open>src/lib/mcumgr-smp-parser.ts\<close> (headers,
  console markers, CRC-16/XMODEM, statuses, remote errors).

  The texts for people (names of operations, groups and commands, summaries, the message of a
  diagnostic) are not modelled; a diagnostic is its code, severity and range.
\<close>

section \<open>Metadata\<close>

datatype smp_role = SmpRequest | SmpResponse | SmpUnknown

definition smpRequestResponse :: "nat \<Rightarrow> smp_role" where
  "smpRequestResponse op = (if op = 0 \<or> op = 2 then SmpRequest else if op = 1 \<or> op = 3 then SmpResponse else SmpUnknown)"

definition expectedResponseOp :: "nat \<Rightarrow> nat option" where
  "expectedResponseOp op = (if op = 0 then Some 1 else if op = 2 then Some 3 else None)"

text \<open>The keys of \<open>COMMAND_NAMES\<close>.\<close>

definition known_commands :: "nat \<Rightarrow> nat list" where
  "known_commands grp =
     (if grp = 0 then [0, 1, 2, 3, 4, 5, 6, 7, 8] else if grp = 1 then [0, 1, 5, 6] else if grp = 2 then [0, 1]
      else if grp = 3 then [0, 1, 2, 3] else if grp = 8 then [0, 1, 2, 3, 4] else if grp = 9 then [0]
      else if grp = 10 then [0, 1, 2, 3] else if grp = 11 then [0, 1, 2, 6, 7, 8] else if grp = 63 then [0] else [])"

definition isKnownSmpCommand :: "nat \<Rightarrow> nat \<Rightarrow> bool" where
  "isKnownSmpCommand grp command \<longleftrightarrow> command \<in> set (known_commands grp)"

definition KNOWN_GROUPS :: "nat list" where
  "KNOWN_GROUPS = [0, 1, 2, 3, 8, 9, 10, 11, 63]"

section \<open>Records\<close>

datatype smp_direction = TX | RX
datatype smp_transport = SerialConsole | RawUart
datatype severity = SevWarning | SevError
datatype smp_status = StatusOk | StatusWarning | StatusError | StatusPending
datatype crc_status = CrcValid | CrcInvalid | CrcNotApplicable | CrcUnknown

record smp_diagnostic =
  dg_code :: string
  dg_severity :: severity
  dg_range :: "(nat \<times> nat) option"

record smp_header =
  hd_versionBits :: nat
  hd_op :: nat
  hd_flags :: nat
  hd_dataLength :: nat
  hd_group :: nat
  hd_sequence :: nat
  hd_command :: nat

definition statusFor :: "smp_diagnostic list \<Rightarrow> smp_status \<Rightarrow> smp_status" where
  "statusFor diagnostics fallback =
     (if list_ex (\<lambda>d. dg_severity d = SevError) diagnostics then StatusError
      else if list_ex (\<lambda>d. dg_severity d = SevWarning) diagnostics then StatusWarning
      else if fallback = StatusPending then StatusPending else StatusOk)"

section \<open>Bytes\<close>

definition SMP_HEADER_BYTES :: nat where "SMP_HEADER_BYTES = 8"

definition readU16 :: "bytes \<Rightarrow> nat \<Rightarrow> nat" where
  "readU16 bs offset = unat (bs ! offset) * 256 + unat (bs ! (offset + 1))"

definition xmodem_bit :: "int \<Rightarrow> int" where
  "xmodem_bit crc = (if js_and crc 32768 \<noteq> 0 then js_and (js_xor (js_shl crc 1) 4129) 65535 else js_and (js_shl crc 1) 65535)"

definition xmodem_byte :: "int \<Rightarrow> byte \<Rightarrow> int" where
  "xmodem_byte crc b = (xmodem_bit ^^ 8) (js_xor crc (js_shl (uint b) 8))"

definition crc16Xmodem :: "bytes \<Rightarrow> int" where
  "crc16Xmodem bs = foldl xmodem_byte 0 bs"

section \<open>Console markers\<close>

text \<open>The kind of the first marker (initial or not) and its index.\<close>

fun findConsoleMarker :: "bytes \<Rightarrow> (bool \<times> nat) option" where
  "findConsoleMarker (a # b # line) =
     (if a = 6 \<and> b = 9 then Some (True, 0)
      else if a = 4 \<and> b = 20 then Some (False, 0)
      else map_option (\<lambda>(k, i). (k, Suc i)) (findConsoleMarker (b # line)))"
| "findConsoleMarker _ = None"

fun find_initial :: "bytes \<Rightarrow> nat option" where
  "find_initial (a # b # line) = (if a = 6 \<and> b = 9 then Some 0 else map_option Suc (find_initial (b # line)))"
| "find_initial _ = None"

definition findConsoleInitialMarker :: "bytes \<Rightarrow> nat \<Rightarrow> nat option" where
  "findConsoleInitialMarker line start = map_option (\<lambda>i. start + i) (find_initial (drop start line))"

definition findLastMarkerPrefix :: "bytes \<Rightarrow> bytes" where
  "findLastMarkerPrefix bs = (if bs \<noteq> [] \<and> (last bs = 6 \<or> last bs = 4) then [last bs] else [])"

definition hasPotentialConsoleMarker :: "bytes \<Rightarrow> bool" where
  "hasPotentialConsoleMarker bs \<longleftrightarrow> findConsoleMarker bs \<noteq> None \<or> length (findLastMarkerPrefix bs) > 0"

text \<open>\<open>TextDecoder('ascii')\<close> is windows-1252: beyond 127 only the no-break space, 160, is
  white space, none is a base64 character.\<close>

definition decode_fragment :: "bytes \<Rightarrow> bytes option" where
  "decode_fragment bs = base64ToBytes (filter (\<lambda>c. \<not> is_space c) (map (\<lambda>b. char_of (unat b)) bs))"

definition lineOffsetForChunk :: "nat \<Rightarrow> nat \<Rightarrow> nat \<Rightarrow> nat" where
  "lineOffsetForChunk chunkOffset chunkLength discarded = chunkOffset + chunkLength - discarded"

section \<open>Raw headers\<close>

definition rawMessageLength :: "bytes \<Rightarrow> nat" where
  "rawMessageLength bs = SMP_HEADER_BYTES + readU16 bs 2"

definition isPlausibleRawHeader :: "bytes \<Rightarrow> nat \<Rightarrow> bool" where
  "isPlausibleRawHeader bs maxPacketBytes =
     (if length bs < SMP_HEADER_BYTES then False
      else if unat (bs ! 0) div 32 \<noteq> 0 \<or> unat (bs ! 0) mod 8 > 3 then False
      else rawMessageLength bs \<ge> SMP_HEADER_BYTES \<and> rawMessageLength bs \<le> maxPacketBytes)"

function findPlausibleRawHeader :: "bytes \<Rightarrow> nat \<Rightarrow> nat \<Rightarrow> nat option" where
  "findPlausibleRawHeader bs maxPacketBytes index =
     (if index + SMP_HEADER_BYTES \<le> length bs then
        if isPlausibleRawHeader (drop index bs) maxPacketBytes then Some index
        else findPlausibleRawHeader bs maxPacketBytes (index + 1)
      else None)"
  by pat_completeness auto
termination
  by (relation "measure (\<lambda>(bs, m, i). length bs - i)") (auto simp: SMP_HEADER_BYTES_def)

declare findPlausibleRawHeader.simps [simp del]

section \<open>Remote errors\<close>

fun cbor_zero :: "cbor_node \<Rightarrow> bool" where
  "cbor_zero (CborNumber n) = (js_rat n = Some 0)"
| "cbor_zero (CborBigint i) = (i = 0)"
| "cbor_zero _ = False"

text \<open>Whether there is a remote error: \<open>describeRemoteError\<close> gives its text.\<close>

definition describeRemoteError :: "cbor_node option \<Rightarrow> bool" where
  "describeRemoteError cbor =
     (let err = cborMapValue cbor ''err''; groupRc = cborInteger (cborMapValue err ''rc'') in
      if groupRc \<noteq> None \<and> \<not> cbor_zero (the groupRc) then True
      else let rc = cborInteger (cborMapValue cbor ''rc'') in
        if rc = None \<or> cbor_zero (the rc) then False else True)"

text \<open>The header of a message, with its seven fields.\<close>

definition smp_header_of :: "bytes \<Rightarrow> smp_header" where
  "smp_header_of message =
     \<lparr>hd_versionBits = unat (message ! 0) div 8 mod 4, hd_op = unat (message ! 0) mod 8, hd_flags = unat (message ! 1),
      hd_dataLength = readU16 message 2, hd_group = readU16 message 4, hd_sequence = unat (message ! 6), hd_command = unat (message ! 7)\<rparr>"

definition warning :: "string \<Rightarrow> nat \<Rightarrow> nat \<Rightarrow> smp_diagnostic" where
  "warning c offset n = \<lparr>dg_code = c, dg_severity = SevWarning, dg_range = Some (offset, n)\<rparr>"

definition header_diagnostics :: "bytes \<Rightarrow> smp_diagnostic list" where
  "header_diagnostics message =
     (let h = smp_header_of message; reserved = unat (message ! 0) div 32; grp = hd_group h in
      (if reserved \<noteq> 0 then [warning ''smp.header.reserved'' 0 1] else []) @
      (if hd_versionBits h > 1 then [warning ''smp.header.version'' 0 1] else []) @
      (if hd_op h > 3 then [warning ''smp.header.op'' 0 1] else []) @
      (if hd_flags h \<noteq> 0 then [warning ''smp.header.flags'' 1 1] else []) @
      (if grp \<notin> set KNOWN_GROUPS then
         [warning (if grp \<ge> 64 then ''smp.header.custom-group'' else ''smp.header.unknown-group'') 4 2]
       else if \<not> isKnownSmpCommand grp (hd_command h) then [warning ''smp.header.unknown-command'' 7 1]
       else []))"

text \<open>The payload of a message: the decoded value and what it adds to the diagnostics.\<close>

definition payload_diagnostics :: "cbor_lib \<Rightarrow> bytes \<Rightarrow> cbor_node option \<times> smp_diagnostic list" where
  "payload_diagnostics lib message =
     (let payload = drop SMP_HEADER_BYTES message; grp = hd_group (smp_header_of message);
          cbor = (if length payload > 0 then decodeBoundedSmpCbor lib payload else None);
          invalid = (if length payload > 0 \<and> cbor = None
            then [\<lparr>dg_code = ''smp.cbor.invalid'', dg_severity = (if grp \<ge> 64 then SevWarning else SevError),
                   dg_range = Some (SMP_HEADER_BYTES, length payload)\<rparr>] else []);
          remote = (if describeRemoteError cbor
            then [\<lparr>dg_code = ''smp.remote-error'', dg_severity = SevError, dg_range = Some (SMP_HEADER_BYTES, length payload)\<rparr>] else [])
      in (cbor, invalid @ remote))"

end
