(* ===== verification/SmpParser.thy ===== *)
theory SmpParser
  imports SmpCodec Machine
begin

text \<open>
  The streaming MCUmgr SMP parser, \<open>McumgrSmpParser\<close> in \<open>src/lib/mcumgr-smp-parser.ts\<close>:
  reassembly of Serial Console lines and of the Raw UART stream in both directions, decoding of
  messages, and the correlation of requests with responses.

  A record is an object that the parser returns and may change later, when its response arrives or
  its request expires; the records live in the store \<open>sp_records\<close> since the last reset, in the
  order of their numbers, and an operation returns their indexes.  Record \<open>i\<close> has the identifier
  \<open>smp-(i+1)\<close>.  Timestamps are integers.
\<close>

section \<open>State\<close>

record smp_record =
  sr_direction :: smp_direction
  sr_timestamp :: int
  sr_captureSeq :: "nat option"
  sr_data :: bytes
  sr_offset :: nat
  sr_status :: smp_status
  sr_diagnostics :: "smp_diagnostic list"
  sr_crc :: crc_status
  sr_transportData :: "bytes option"
  sr_header :: "smp_header option"
  sr_cbor :: "cbor_node option"
  sr_requestId :: "nat option"
  sr_responseId :: "nat option"
  sr_rtt :: "int option"

definition sr_endOffset :: "smp_record \<Rightarrow> nat" where
  "sr_endOffset r = sr_offset r + length (sr_data r)"

record console_assembly =
  ca_expectedBytes :: nat
  ca_body :: bytes
  ca_wireParts :: "bytes list"
  ca_timestamp :: int
  ca_captureSeq :: "nat option"
  ca_offset :: nat
  ca_lastTimestamp :: int

record raw_segment =
  rg_endOffset :: nat
  rg_timestamp :: int
  rg_captureSeq :: "nat option"

record direction_state =
  dn_inputOffset :: nat
  dn_lineBuffer :: bytes
  dn_lineBufferOffset :: nat
  dn_lineTimestamp :: int
  dn_lineCaptureSeq :: "nat option"
  dn_lineLastTimestamp :: int
  dn_console :: "console_assembly option"
  dn_rawBuffer :: bytes
  dn_rawOffset :: nat
  dn_rawTimestamp :: int
  dn_rawCaptureSeq :: "nat option"
  dn_rawLastTimestamp :: int
  dn_rawSegments :: "raw_segment list"

definition createDirectionState :: direction_state where
  "createDirectionState = \<lparr>dn_inputOffset = 0, dn_lineBuffer = [], dn_lineBufferOffset = 0, dn_lineTimestamp = 0,
     dn_lineCaptureSeq = None, dn_lineLastTimestamp = 0, dn_console = None, dn_rawBuffer = [], dn_rawOffset = 0,
     dn_rawTimestamp = 0, dn_rawCaptureSeq = None, dn_rawLastTimestamp = 0, dn_rawSegments = []\<rparr>"

record pending_request =
  pq_record :: nat
  pq_expectedOp :: nat
  pq_expiresAt :: int

record smp_parser =
  sp_transport :: smp_transport
  sp_maxPacketBytes :: nat
  sp_reassemblyTimeoutMs :: int
  sp_tx :: direction_state
  sp_rx :: direction_state
  sp_pendingRequests :: "pending_request list"
  sp_records :: "smp_record list"

definition DEFAULT_SMP_MAX_PENDING_REQUESTS :: nat where "DEFAULT_SMP_MAX_PENDING_REQUESTS = 256"
definition DEFAULT_SMP_REQUEST_TIMEOUT_MS :: int where "DEFAULT_SMP_REQUEST_TIMEOUT_MS = 30000"

text \<open>The transport is one of the two by its type; an unsupported string is \<open>None\<close>.\<close>

definition new_smp_parser :: "smp_transport option \<Rightarrow> jsnum \<Rightarrow> jsnum \<Rightarrow> js_error + smp_parser" where
  "new_smp_parser transport maxPacketBytes reassemblyTimeoutMs =
     (case transport of
        None \<Rightarrow> Inl RangeError
      | Some t \<Rightarrow>
          if \<not> js_isInteger maxPacketBytes \<or> js_floor maxPacketBytes < int SMP_HEADER_BYTES then Inl RangeError
          else if \<not> js_isInteger reassemblyTimeoutMs \<or> js_floor reassemblyTimeoutMs < 1 then Inl RangeError
          else Inr \<lparr>sp_transport = t, sp_maxPacketBytes = nat (js_floor maxPacketBytes),
            sp_reassemblyTimeoutMs = js_floor reassemblyTimeoutMs, sp_tx = createDirectionState, sp_rx = createDirectionState,
            sp_pendingRequests = [], sp_records = []\<rparr>)"

definition reset_smp :: "smp_parser \<Rightarrow> smp_parser" where
  "reset_smp p = p\<lparr>sp_tx := createDirectionState, sp_rx := createDirectionState, sp_pendingRequests := [], sp_records := []\<rparr>"

fun dir_state :: "smp_direction \<Rightarrow> smp_parser \<Rightarrow> direction_state" where
  "dir_state TX p = sp_tx p"
| "dir_state RX p = sp_rx p"

fun with_dir :: "smp_direction \<Rightarrow> (direction_state \<Rightarrow> direction_state) \<Rightarrow> smp_parser \<Rightarrow> smp_parser" where
  "with_dir TX f p = p\<lparr>sp_tx := f (sp_tx p)\<rparr>"
| "with_dir RX f p = p\<lparr>sp_rx := f (sp_rx p)\<rparr>"

abbreviation rec_at :: "smp_parser \<Rightarrow> nat \<Rightarrow> smp_record" where
  "rec_at p i \<equiv> sp_records p ! i"

definition update_rec :: "nat \<Rightarrow> (smp_record \<Rightarrow> smp_record) \<Rightarrow> smp_parser \<Rightarrow> smp_parser" where
  "update_rec i f p = p\<lparr>sp_records := (sp_records p)[i := f (rec_at p i)]\<rparr>"

definition add_rec :: "smp_record \<Rightarrow> smp_parser \<Rightarrow> nat \<times> smp_parser" where
  "add_rec r p = (length (sp_records p), p\<lparr>sp_records := sp_records p @ [r]\<rparr>)"

section \<open>Records and correlation\<close>

definition transportErrorRecord :: "smp_direction \<Rightarrow> int \<Rightarrow> nat option \<Rightarrow> nat \<Rightarrow> bytes \<Rightarrow> string \<Rightarrow> severity \<Rightarrow>
    smp_parser \<Rightarrow> nat \<times> smp_parser" where
  "transportErrorRecord direction timestamp captureSeq offset dat c sev p =
     (let diagnostics = [\<lparr>dg_code = c, dg_severity = sev, dg_range = None\<rparr>] in
      add_rec \<lparr>sr_direction = direction, sr_timestamp = timestamp, sr_captureSeq = captureSeq, sr_data = dat, sr_offset = offset,
        sr_status = statusFor diagnostics StatusOk, sr_diagnostics = diagnostics,
        sr_crc = (if sp_transport p = RawUart then CrcNotApplicable else CrcUnknown), sr_transportData = Some dat,
        sr_header = None, sr_cbor = None, sr_requestId = None, sr_responseId = None, sr_rtt = None\<rparr> p)"

definition markRequestUnmatched :: "nat \<Rightarrow> smp_parser \<Rightarrow> smp_parser" where
  "markRequestUnmatched i p =
     update_rec i (\<lambda>r. let diagnostics = sr_diagnostics r @ [\<lparr>dg_code = ''smp.transaction.unmatched-request'', dg_severity = SevWarning, dg_range = None\<rparr>]
       in r\<lparr>sr_diagnostics := diagnostics, sr_status := statusFor diagnostics StatusOk\<rparr>) p"

text \<open>\<open>expirePendingRequests\<close> goes through the table from its end.\<close>

definition expirePendingRequests :: "int \<Rightarrow> smp_parser \<Rightarrow> smp_parser" where
  "expirePendingRequests now p =
     fold (\<lambda>q. markRequestUnmatched (pq_record q)) (rev (filter (\<lambda>q. pq_expiresAt q \<le> now) (sp_pendingRequests p)))
       (p\<lparr>sp_pendingRequests := filter (\<lambda>q. pq_expiresAt q > now) (sp_pendingRequests p)\<rparr>)"

function evict_requests :: "smp_parser \<Rightarrow> smp_parser" where
  "evict_requests p =
     (if length (sp_pendingRequests p) > DEFAULT_SMP_MAX_PENDING_REQUESTS
      then evict_requests (markRequestUnmatched (pq_record (hd (sp_pendingRequests p)))
             (p\<lparr>sp_pendingRequests := tl (sp_pendingRequests p)\<rparr>))
      else p)"
  by pat_completeness auto
termination
  by (relation "measure (\<lambda>p. length (sp_pendingRequests p))")
    (auto simp: markRequestUnmatched_def update_rec_def)

declare evict_requests.simps [simp del]

definition request_matches :: "smp_parser \<Rightarrow> smp_record \<Rightarrow> smp_header \<Rightarrow> pending_request \<Rightarrow> bool" where
  "request_matches p record header q =
     (let request = rec_at p (pq_record q) in
      sr_direction request \<noteq> sr_direction record \<and> pq_expectedOp q = hd_op header \<and>
      (case sr_header request of
         None \<Rightarrow> False
       | Some h \<Rightarrow> hd_sequence h = hd_sequence header \<and> hd_group h = hd_group header \<and> hd_command h = hd_command header))"

fun find_index :: "('a \<Rightarrow> bool) \<Rightarrow> 'a list \<Rightarrow> nat option" where
  "find_index f [] = None"
| "find_index f (x # xs) = (if f x then Some 0 else map_option Suc (find_index f xs))"

definition correlate :: "nat \<Rightarrow> smp_parser \<Rightarrow> smp_parser" where
  "correlate i p0 =
     (case sr_header (rec_at p0 i) of
        None \<Rightarrow> p0
      | Some header \<Rightarrow>
          let p = expirePendingRequests (sr_timestamp (rec_at p0 i)) p0; record = rec_at p i in
          case expectedResponseOp (hd_op header) of
            Some expectedOp \<Rightarrow>
              let p1 = (if sr_status record = StatusOk then update_rec i (\<lambda>r. r\<lparr>sr_status := StatusPending\<rparr>) p else p)
              in evict_requests (p1\<lparr>sp_pendingRequests := sp_pendingRequests p1 @
                   [\<lparr>pq_record = i, pq_expectedOp = expectedOp,
                     pq_expiresAt = sr_timestamp record + DEFAULT_SMP_REQUEST_TIMEOUT_MS\<rparr>]\<rparr>)
          | None \<Rightarrow>
              if smpRequestResponse (hd_op header) \<noteq> SmpResponse then p
              else
                (case find_index (request_matches p record header) (sp_pendingRequests p) of
                   None \<Rightarrow>
                     update_rec i (\<lambda>r. let diagnostics = sr_diagnostics r @
                         [\<lparr>dg_code = ''smp.transaction.orphan-response'', dg_severity = SevWarning, dg_range = None\<rparr>]
                       in r\<lparr>sr_diagnostics := diagnostics, sr_status := statusFor diagnostics (sr_status r)\<rparr>) p
                 | Some k \<Rightarrow>
                     let j = pq_record (sp_pendingRequests p ! k);
                         rtt = max 0 (sr_timestamp record - sr_timestamp (rec_at p j));
                         p1 = p\<lparr>sp_pendingRequests := take k (sp_pendingRequests p) @ drop (Suc k) (sp_pendingRequests p)\<rparr>;
                         p2 = update_rec j (\<lambda>r. r\<lparr>sr_responseId := Some (i + 1), sr_rtt := Some rtt,
                                sr_status := statusFor (sr_diagnostics r) StatusOk\<rparr>) p1
                     in update_rec i (\<lambda>r. r\<lparr>sr_requestId := Some (j + 1), sr_rtt := Some rtt\<rparr>) p2))"

record transport_context =
  tx_direction :: smp_direction
  tx_timestamp :: int
  tx_captureSeq :: "nat option"
  tx_offset :: nat
  tx_transportData :: "bytes option"
  tx_crc :: crc_status
  tx_diagnostics :: "smp_diagnostic list"

definition message_record :: "cbor_lib \<Rightarrow> bytes \<Rightarrow> transport_context \<Rightarrow> nat \<Rightarrow> smp_record" where
  "message_record lib message context packetOffset =
     (let (cbor, more) = payload_diagnostics lib message;
          diagnostics = tx_diagnostics context @ header_diagnostics message @ more
      in \<lparr>sr_direction = tx_direction context, sr_timestamp = tx_timestamp context, sr_captureSeq = tx_captureSeq context,
          sr_data = message, sr_offset = tx_offset context + packetOffset, sr_status = statusFor diagnostics StatusOk,
          sr_diagnostics = diagnostics, sr_crc = tx_crc context, sr_transportData = tx_transportData context,
          sr_header = Some (smp_header_of message), sr_cbor = cbor, sr_requestId = None, sr_responseId = None, sr_rtt = None\<rparr>)"

definition decodeMessage :: "cbor_lib \<Rightarrow> bytes \<Rightarrow> transport_context \<Rightarrow> nat \<Rightarrow> smp_parser \<Rightarrow> nat \<times> smp_parser" where
  "decodeMessage lib message context packetOffset p =
     (let (i, p1) = add_rec (message_record lib message context packetOffset) p
      in (i, if tx_crc context \<noteq> CrcInvalid \<and> \<not> list_ex (\<lambda>d. dg_severity d = SevError) (tx_diagnostics context)
             then correlate i p1 else p1))"

definition sliceCopy :: "bytes \<Rightarrow> nat \<Rightarrow> nat \<Rightarrow> bytes" where
  "sliceCopy bs start stop = take (stop - start) (drop start bs)"

definition push_padding :: "nat \<Rightarrow> nat \<Rightarrow> nat \<Rightarrow> smp_parser \<Rightarrow> smp_parser" where
  "push_padding i offset n p =
     update_rec i (\<lambda>r. let diagnostics = sr_diagnostics r @ [warning ''smp.packet.padding'' offset n]
       in r\<lparr>sr_diagnostics := diagnostics, sr_status := statusFor diagnostics (sr_status r)\<rparr>) p"

function decode_packet :: "cbor_lib \<Rightarrow> bytes \<Rightarrow> transport_context \<Rightarrow> nat \<Rightarrow> smp_parser \<Rightarrow> nat list \<times> smp_parser" where
  "decode_packet lib packet context packetOffset p =
     (if packetOffset < length packet then
        if length packet - packetOffset < SMP_HEADER_BYTES then
          let (i, p1) = transportErrorRecord (tx_direction context) (tx_timestamp context) (tx_captureSeq context)
                (tx_offset context + packetOffset) (sliceCopy packet packetOffset (length packet)) ''smp.packet.trailing-bytes'' SevError p
          in ([i], p1)
        else
          let messageLength = SMP_HEADER_BYTES + readU16 packet (packetOffset + 2) in
          if messageLength > sp_maxPacketBytes p \<or> packetOffset + messageLength > length packet then
            let (i, p1) = transportErrorRecord (tx_direction context) (tx_timestamp context) (tx_captureSeq context)
                  (tx_offset context + packetOffset) (sliceCopy packet packetOffset (length packet)) ''smp.packet.length'' SevError p
            in ([i], p1)
          else
            let (i, p1) = decodeMessage lib (sliceCopy packet packetOffset (packetOffset + messageLength)) context packetOffset p;
                next = packetOffset + messageLength in
            if next \<ge> length packet then ([i], p1)
            else
              let aligned = min (length packet) ((next + 3) div 4 * 4);
                  p2 = (if aligned > next \<and> list_ex (\<lambda>b. b \<noteq> 0) (sliceCopy packet next aligned)
                        then push_padding i next (aligned - next) p1 else p1);
                  (rs, p3) = decode_packet lib packet context aligned p2
              in (i # rs, p3)
      else ([], p))"
  by pat_completeness auto
termination
  by (relation "measure (\<lambda>(lib, packet, context, off, p). length packet - off)") (auto simp: SMP_HEADER_BYTES_def)

declare decode_packet.simps [simp del]

definition decodeTransportPacket :: "cbor_lib \<Rightarrow> bytes \<Rightarrow> transport_context \<Rightarrow> smp_parser \<Rightarrow> nat list \<times> smp_parser" where
  "decodeTransportPacket lib packet context p = decode_packet lib packet context 0 p"

section \<open>Raw UART\<close>

record traffic_chunk =
  tc_direction :: smp_direction
  tc_data :: bytes
  tc_timestamp :: int
  tc_captureSeq :: "nat option"

definition resetRawState :: "direction_state \<Rightarrow> direction_state" where
  "resetRawState s = s\<lparr>dn_rawBuffer := [], dn_rawCaptureSeq := None, dn_rawLastTimestamp := 0, dn_rawSegments := []\<rparr>"

definition consumeRawBytes :: "nat \<Rightarrow> direction_state \<Rightarrow> direction_state" where
  "consumeRawBytes count s0 =
     (let s = s0\<lparr>dn_rawBuffer := drop count (dn_rawBuffer s0), dn_rawOffset := dn_rawOffset s0 + count\<rparr> in
      if dn_rawBuffer s = [] then s\<lparr>dn_rawCaptureSeq := None, dn_rawLastTimestamp := 0, dn_rawSegments := []\<rparr>
      else
        let segments = dropWhile (\<lambda>g. rg_endOffset g \<le> dn_rawOffset s) (dn_rawSegments s); s1 = s\<lparr>dn_rawSegments := segments\<rparr> in
        (case segments of
           [] \<Rightarrow> s1
         | g # _ \<Rightarrow> s1\<lparr>dn_rawTimestamp := rg_timestamp g, dn_rawCaptureSeq := rg_captureSeq g,
             dn_rawLastTimestamp := rg_timestamp (last segments)\<rparr>))"

lemma consume_buffer [simp]: "dn_rawBuffer (consumeRawBytes n s) = drop n (dn_rawBuffer s)"
  by (simp add: consumeRawBytes_def Let_def split: list.split)

definition raw_discard :: "bytes \<Rightarrow> nat \<Rightarrow> nat" where
  "raw_discard buffer maxPacketBytes =
     (case findPlausibleRawHeader buffer maxPacketBytes 1 of Some next \<Rightarrow> next | None \<Rightarrow> max 1 (length buffer - 7))"

text \<open>One turn of the loop of \<open>feedRaw\<close>: the bytes taken and the records made of them, or
  \<open>None\<close> when the loop stops.\<close>

definition raw_turn :: "cbor_lib \<Rightarrow> smp_direction \<Rightarrow> smp_parser \<Rightarrow> (nat list \<times> smp_parser) option" where
  "raw_turn lib direction p =
     (let s = dir_state direction p; buffer = dn_rawBuffer s in
      if length buffer < SMP_HEADER_BYTES then None
      else if \<not> isPlausibleRawHeader buffer (sp_maxPacketBytes p) then
        let discard = raw_discard buffer (sp_maxPacketBytes p);
            (i, p1) = transportErrorRecord direction (dn_rawTimestamp s) (dn_rawCaptureSeq s) (dn_rawOffset s)
              (sliceCopy buffer 0 discard) ''smp.raw.resync'' SevWarning p
        in Some ([i], with_dir direction (consumeRawBytes discard) p1)
      else
        let messageLength = rawMessageLength buffer in
        if length buffer < messageLength then None
        else
          let message = sliceCopy buffer 0 messageLength;
              context = \<lparr>tx_direction = direction, tx_timestamp = dn_rawTimestamp s, tx_captureSeq = dn_rawCaptureSeq s,
                tx_offset = dn_rawOffset s, tx_transportData = Some message, tx_crc = CrcNotApplicable, tx_diagnostics = []\<rparr>
          in Some (decodeTransportPacket lib message context (with_dir direction (consumeRawBytes messageLength) p)))"

lemma dir_with_dir [simp]: "dir_state e (with_dir d f p) = (if e = d then f (dir_state d p) else dir_state e p)"
  by (cases d; cases e) simp_all

lemma with_dir_fields [simp]:
  "sp_records (with_dir d f p) = sp_records p" "sp_pendingRequests (with_dir d f p) = sp_pendingRequests p"
  "sp_maxPacketBytes (with_dir d f p) = sp_maxPacketBytes p" "sp_transport (with_dir d f p) = sp_transport p"
  "sp_reassemblyTimeoutMs (with_dir d f p) = sp_reassemblyTimeoutMs p"
  by (cases d; simp)+

text \<open>What the record operations leave alone: the reassembly states and the configuration.\<close>

definition same_states :: "smp_parser \<Rightarrow> smp_parser \<Rightarrow> bool" where
  "same_states p q \<longleftrightarrow> sp_tx q = sp_tx p \<and> sp_rx q = sp_rx p \<and> sp_transport q = sp_transport p \<and>
     sp_maxPacketBytes q = sp_maxPacketBytes p \<and> sp_reassemblyTimeoutMs q = sp_reassemblyTimeoutMs p"

lemma same_states_refl [simp]: "same_states p p"
  by (simp add: same_states_def)

lemma same_states_trans: "same_states p q \<Longrightarrow> same_states q r \<Longrightarrow> same_states p r"
  by (simp add: same_states_def)

lemma same_states_dir: "same_states p q \<Longrightarrow> dir_state d q = dir_state d p"
  by (cases d) (simp_all add: same_states_def)

lemma same_update [simp]: "same_states p (update_rec i f q) = same_states p q" "same_states p (q\<lparr>sp_pendingRequests := x\<rparr>) = same_states p q"
  by (simp_all add: same_states_def update_rec_def)

lemma same_add [simp]: "same_states p (snd (add_rec r q)) = same_states p q"
  by (simp add: same_states_def add_rec_def)

lemma same_error [simp]: "same_states p (snd (transportErrorRecord d ts cs off dat c sev q)) = same_states p q"
  by (simp add: transportErrorRecord_def Let_def)

lemma same_mark [simp]: "same_states p (markRequestUnmatched i q) = same_states p q"
  by (simp add: markRequestUnmatched_def)

lemma same_fold_mark: "same_states p (fold (\<lambda>q. markRequestUnmatched (pq_record q)) qs r) = same_states p r"
  by (induction qs arbitrary: r) simp_all

lemma same_expire [simp]: "same_states p (expirePendingRequests now q) = same_states p q"
  by (simp add: expirePendingRequests_def same_fold_mark)

lemma same_evict: "same_states p q \<Longrightarrow> same_states p (evict_requests q)"
proof (induction q rule: evict_requests.induct)
  case (1 q)
  then show ?case by (subst evict_requests.simps) simp
qed

lemma same_correlate: "same_states p q \<Longrightarrow> same_states p (correlate i q)"
  by (auto simp: correlate_def Let_def intro!: same_evict split: option.split)

lemma same_message: "same_states p q \<Longrightarrow> same_states p (snd (decodeMessage lib m ctx off q))"
  using same_correlate [of p "snd (add_rec (message_record lib m ctx off) q)"] same_add
  by (simp add: decodeMessage_def split_beta)

text \<open>The four ways a packet goes on: nothing left, a tail shorter than a header, a bad length, a
  message (the last one, or followed by more after the padding).\<close>

lemma decode_packet_cases:
  obtains (finished) "packetOffset \<ge> length packet" "decode_packet lib packet context packetOffset p = ([], p)"
  | (error) c where "packetOffset < length packet"
      "decode_packet lib packet context packetOffset p =
        (let (i, p1) = transportErrorRecord (tx_direction context) (tx_timestamp context) (tx_captureSeq context)
           (tx_offset context + packetOffset) (sliceCopy packet packetOffset (length packet)) c SevError p in ([i], p1))"
  | (message) n where "n = SMP_HEADER_BYTES + readU16 packet (packetOffset + 2)" "n \<le> sp_maxPacketBytes p"
      "packetOffset + n \<le> length packet"
      "decode_packet lib packet context packetOffset p =
        (let (i, p1) = decodeMessage lib (sliceCopy packet packetOffset (packetOffset + n)) context packetOffset p; next = packetOffset + n in
         if next \<ge> length packet then ([i], p1)
         else
           let aligned = min (length packet) ((next + 3) div 4 * 4);
               p2 = (if aligned > next \<and> list_ex (\<lambda>b. b \<noteq> 0) (sliceCopy packet next aligned)
                     then push_padding i next (aligned - next) p1 else p1);
               (rs, p3) = decode_packet lib packet context aligned p2
           in (i # rs, p3))"
proof -
  note unfold = decode_packet.simps [of lib packet "context" packetOffset p]
  consider "packetOffset \<ge> length packet" | "packetOffset < length packet" "length packet - packetOffset < SMP_HEADER_BYTES"
    | "packetOffset < length packet" "\<not> length packet - packetOffset < SMP_HEADER_BYTES"
      "SMP_HEADER_BYTES + readU16 packet (packetOffset + 2) > sp_maxPacketBytes p \<or>
       packetOffset + (SMP_HEADER_BYTES + readU16 packet (packetOffset + 2)) > length packet"
    | "packetOffset < length packet" "\<not> length packet - packetOffset < SMP_HEADER_BYTES"
      "\<not> (SMP_HEADER_BYTES + readU16 packet (packetOffset + 2) > sp_maxPacketBytes p \<or>
       packetOffset + (SMP_HEADER_BYTES + readU16 packet (packetOffset + 2)) > length packet)" by linarith
  then show thesis
  proof cases
    case 1
    then show thesis by (intro finished) (simp_all add: unfold)
  next
    case 2
    then show thesis by (intro error [of "''smp.packet.trailing-bytes''"]) (simp_all add: unfold)
  next
    case 3
    then show thesis by (intro error [of "''smp.packet.length''"]) (simp_all only: unfold if_True if_False Let_def)
  next
    case 4
    then show thesis by (intro message [OF refl]) (simp_all only: unfold if_True if_False Let_def, linarith+)
  qed
qed

lemma same_packet: "same_states p q \<Longrightarrow> same_states p (snd (decode_packet lib packet ctx off q))"
proof (induction "length packet - off" arbitrary: off q rule: less_induct)
  case less
  show ?case
  proof (cases rule: decode_packet_cases [of packet off lib ctx q])
    case finished
    then show ?thesis using less.prems by simp
  next
    case (error c)
    then show ?thesis using less.prems by (simp add: split_beta)
  next
    case (message n)
    obtain i q1 where m: "decodeMessage lib (sliceCopy packet off (off + n)) ctx off q = (i, q1)" by (metis surj_pair)
    have q1: "same_states p q1" using same_message [OF less.prems, of lib "sliceCopy packet off (off + n)" ctx off] by (simp add: m)
    show ?thesis
    proof (cases "off + n \<ge> length packet")
      case True
      then show ?thesis using message(4) q1 by (simp add: m)
    next
      case False
      let ?a = "min (length packet) ((off + n + 3) div 4 * 4)"
      let ?q2 = "if ?a > off + n \<and> list_ex (\<lambda>b. b \<noteq> 0) (sliceCopy packet (off + n) ?a) then push_padding i (off + n) (?a - (off + n)) q1 else q1"
      have "same_states p ?q2" using q1 by (simp add: push_padding_def)
      moreover have "length packet - ?a < length packet - off" using False message(1) by (simp add: SMP_HEADER_BYTES_def)
      ultimately have "same_states p (snd (decode_packet lib packet ctx ?a ?q2))" by (intro less.hyps)
      then show ?thesis using message(4) False by (simp add: m Let_def split_beta cong: if_cong)
    qed
  qed
qed

lemma findPlausible_bounds: "findPlausibleRawHeader b m i = Some n \<Longrightarrow> i \<le> n \<and> n + SMP_HEADER_BYTES \<le> length b"
proof (induction b m i rule: findPlausibleRawHeader.induct)
  case (1 b m i)
  then show ?case by (subst (asm) (2) findPlausibleRawHeader.simps) (auto split: if_splits)
qed

lemma raw_discard_bounds: "SMP_HEADER_BYTES \<le> length b \<Longrightarrow> 0 < raw_discard b m \<and> raw_discard b m \<le> length b"
  using findPlausible_bounds [of b m 1] by (cases "findPlausibleRawHeader b m 1") (auto simp: raw_discard_def SMP_HEADER_BYTES_def)

lemma raw_turn_states:
  assumes "raw_turn lib d p = Some (rs, q)"
  shows "\<exists>n. 0 < n \<and> n \<le> length (dn_rawBuffer (dir_state d p)) \<and> same_states (with_dir d (consumeRawBytes n) p) q"
proof -
  let ?s = "dir_state d p"
  let ?b = "dn_rawBuffer ?s"
  have len: "SMP_HEADER_BYTES \<le> length ?b" using assms by (auto simp: raw_turn_def Let_def split: if_splits)
  show ?thesis
  proof (cases "isPlausibleRawHeader ?b (sp_maxPacketBytes p)")
    case True
    then have l: "rawMessageLength ?b \<le> length ?b" using assms len by (auto simp: raw_turn_def Let_def split: if_splits)
    have "0 < rawMessageLength ?b" by (simp add: rawMessageLength_def SMP_HEADER_BYTES_def)
    moreover have "same_states (with_dir d (consumeRawBytes (rawMessageLength ?b)) p) q"
      using assms len True l same_packet [OF same_states_refl]
      by (auto simp: raw_turn_def Let_def decodeTransportPacket_def split: if_splits) (metis snd_conv)+
    ultimately show ?thesis using l by blast
  next
    case False
    let ?n = "raw_discard ?b (sp_maxPacketBytes p)"
    have n: "0 < ?n \<and> ?n \<le> length ?b" using raw_discard_bounds [OF len] by blast
    obtain i p1 where e: "transportErrorRecord d (dn_rawTimestamp ?s) (dn_rawCaptureSeq ?s) (dn_rawOffset ?s)
        (sliceCopy ?b 0 ?n) ''smp.raw.resync'' SevWarning p = (i, p1)"
      by (metis surj_pair)
    have "same_states p p1" using same_error [of p d "dn_rawTimestamp ?s" "dn_rawCaptureSeq ?s" "dn_rawOffset ?s"
        "sliceCopy ?b 0 ?n" "''smp.raw.resync''" SevWarning p] by (simp add: e)
    moreover have "q = with_dir d (consumeRawBytes ?n) p1" using assms len False e by (simp add: raw_turn_def Let_def)
    ultimately have "same_states (with_dir d (consumeRawBytes ?n) p) q" by (cases d) (simp_all add: same_states_def)
    then show ?thesis using n by blast
  qed
qed

function feed_raw_loop :: "cbor_lib \<Rightarrow> smp_direction \<Rightarrow> smp_parser \<Rightarrow> nat list \<times> smp_parser" where
  "feed_raw_loop lib direction p =
     (case raw_turn lib direction p of
        None \<Rightarrow> ([], p)
      | Some (rs, p1) \<Rightarrow> (let (rs2, p2) = feed_raw_loop lib direction p1 in (rs @ rs2, p2)))"
  by pat_completeness auto
termination
proof (relation "measure (\<lambda>(lib, d, p). length (dn_rawBuffer (dir_state d p)))", simp, goal_cases)
  case (1 lib d p r rs q)
  then have "raw_turn lib d p = Some (rs, q)" by simp
  from raw_turn_states [OF this] obtain n where "0 < n" "n \<le> length (dn_rawBuffer (dir_state d p))"
      "same_states (with_dir d (consumeRawBytes n) p) q" by blast
  then show ?case using same_states_dir [of _ q d] by simp
qed

declare feed_raw_loop.simps [simp del]

definition raw_receive :: "traffic_chunk \<Rightarrow> nat \<Rightarrow> direction_state \<Rightarrow> direction_state" where
  "raw_receive chunk chunkOffset s0 =
     (let s = (if length (dn_rawBuffer s0) = 0
               then s0\<lparr>dn_rawOffset := chunkOffset, dn_rawTimestamp := tc_timestamp chunk, dn_rawCaptureSeq := tc_captureSeq chunk\<rparr> else s0)
      in s\<lparr>dn_rawSegments := dn_rawSegments s @ [\<lparr>rg_endOffset = chunkOffset + length (tc_data chunk), rg_timestamp = tc_timestamp chunk,
             rg_captureSeq = tc_captureSeq chunk\<rparr>],
           dn_rawLastTimestamp := tc_timestamp chunk, dn_rawBuffer := dn_rawBuffer s @ tc_data chunk\<rparr>)"

definition feedRaw :: "cbor_lib \<Rightarrow> traffic_chunk \<Rightarrow> nat \<Rightarrow> smp_parser \<Rightarrow> nat list \<times> smp_parser" where
  "feedRaw lib chunk chunkOffset p =
     feed_raw_loop lib (tc_direction chunk) (with_dir (tc_direction chunk) (raw_receive chunk chunkOffset) p)"

section \<open>Serial Console\<close>

text \<open>The handling of one line up to the recovery: the records made, and where in the line the
  search for another initial marker starts, if it does.\<close>

definition console_begin :: "smp_direction \<Rightarrow> bytes \<Rightarrow> nat \<Rightarrow> smp_parser \<Rightarrow> nat list \<times> smp_parser" where
  "console_begin direction line index p =
     (case dn_console (dir_state direction p) of
        Some c \<Rightarrow>
          (if findConsoleMarker line = Some (True, index) then
             let (i, p1) = transportErrorRecord direction (ca_timestamp c) (ca_captureSeq c) (ca_offset c)
                   (concat (ca_wireParts c)) ''smp.console.restarted'' SevError p
             in ([i], with_dir direction (\<lambda>s. s\<lparr>dn_console := None\<rparr>) p1)
           else ([], p))
      | None \<Rightarrow> ([], p))"

definition console_diagnostics :: "nat \<Rightarrow> bool \<Rightarrow> smp_diagnostic list" where
  "console_diagnostics extraBytes crc_ok =
     (if extraBytes > 0 then [\<lparr>dg_code = ''smp.console.trailing-bytes'', dg_severity = SevError, dg_range = None\<rparr>] else []) @
     (if \<not> crc_ok then [\<lparr>dg_code = ''smp.console.crc'', dg_severity = SevError, dg_range = None\<rparr>] else [])"

text \<open>The end of \<open>consumeConsoleLine\<close>: the packet, when its announced bytes are there.\<close>

definition console_complete :: "cbor_lib \<Rightarrow> smp_direction \<Rightarrow> smp_parser \<Rightarrow> nat list \<times> smp_parser" where
  "console_complete lib direction p =
     (case dn_console (dir_state direction p) of
        None \<Rightarrow> ([], p)
      | Some a \<Rightarrow>
          if length (ca_body a) < ca_expectedBytes a then ([], p)
          else
            let extraBytes = length (ca_body a) - ca_expectedBytes a;
                framed = take (ca_expectedBytes a) (ca_body a);
                packet = take (length framed - 2) framed;
                crc_ok = (crc16Xmodem packet = int (readU16 framed (length framed - 2)));
                context = \<lparr>tx_direction = direction, tx_timestamp = ca_timestamp a, tx_captureSeq = ca_captureSeq a,
                  tx_offset = ca_offset a, tx_transportData = Some (concat (ca_wireParts a)),
                  tx_crc = (if crc_ok then CrcValid else CrcInvalid), tx_diagnostics = console_diagnostics extraBytes crc_ok\<rparr>
            in decodeTransportPacket lib packet context (with_dir direction (\<lambda>s. s\<lparr>dn_console := None\<rparr>) p))"

record line_context =
  lc_offset :: nat
  lc_timestamp :: int
  lc_captureSeq :: "nat option"
  lc_now :: int

definition console_line :: "cbor_lib \<Rightarrow> smp_direction \<Rightarrow> bytes \<Rightarrow> bytes \<Rightarrow> line_context \<Rightarrow> bool \<Rightarrow> nat \<Rightarrow> smp_parser \<Rightarrow>
    nat list \<times> smp_parser \<times> nat option" where
  "console_line lib direction line wireLine lc initial index p0 =
     (let (rs, p) = console_begin direction line index p0;
          fail = (\<lambda>c p. let (i, p1) = transportErrorRecord direction (lc_timestamp lc) (lc_captureSeq lc) (lc_offset lc + index) wireLine c SevError p
                     in (rs @ [i], p1, Some (index + 2)))
      in
      case decode_fragment (drop (index + 2) line) of
        None \<Rightarrow>
          let (rs1, p1, again) = fail ''smp.console.base64'' p in (rs1, with_dir direction (\<lambda>s. s\<lparr>dn_console := None\<rparr>) p1, again)
      | Some fragment \<Rightarrow>
          if initial then
            if length fragment < 2 then fail ''smp.console.length-missing'' p
            else
              let expectedBytes = readU16 fragment 0 in
              if expectedBytes < SMP_HEADER_BYTES + 2 \<or> expectedBytes > sp_maxPacketBytes p + 2 then fail ''smp.console.length-invalid'' p
              else
                let (rs1, p1) = console_complete lib direction (with_dir direction (\<lambda>s. s\<lparr>dn_console := Some
                      \<lparr>ca_expectedBytes = expectedBytes, ca_body = drop 2 fragment, ca_wireParts = [wireLine], ca_timestamp = lc_timestamp lc,
                       ca_captureSeq = lc_captureSeq lc, ca_offset = lc_offset lc + index, ca_lastTimestamp = lc_now lc\<rparr>\<rparr>) p)
                in (rs @ rs1, p1, None)
          else
            (case dn_console (dir_state direction p) of
               None \<Rightarrow> fail ''smp.console.orphan-continuation'' p
             | Some a \<Rightarrow>
                 let (rs1, p1) = console_complete lib direction (with_dir direction (\<lambda>s. s\<lparr>dn_console := Some
                       (a\<lparr>ca_body := ca_body a @ fragment, ca_wireParts := ca_wireParts a @ [wireLine], ca_lastTimestamp := lc_now lc\<rparr>)\<rparr>) p)
                 in (rs @ rs1, p1, None)))"

function consumeConsoleLine :: "cbor_lib \<Rightarrow> smp_direction \<Rightarrow> bytes \<Rightarrow> bytes \<Rightarrow> line_context \<Rightarrow> nat \<Rightarrow> smp_parser \<Rightarrow> nat list \<times> smp_parser" where
  "consumeConsoleLine lib direction line wireLine lc recoveryDepth p =
     (case findConsoleMarker line of
        None \<Rightarrow> ([], p)
      | Some (initial, index) \<Rightarrow>
          (case console_line lib direction line wireLine lc initial index p of
             (rs, p1, None) \<Rightarrow> (rs, p1)
           | (rs, p1, Some searchStart) \<Rightarrow>
               if recoveryDepth \<ge> 32 then (rs, p1)
               else
                 (case findConsoleInitialMarker line searchStart of
                    None \<Rightarrow> (rs, p1)
                  | Some n \<Rightarrow>
                      let (rs2, p2) = consumeConsoleLine lib direction (drop n line) (drop n wireLine)
                            (lc\<lparr>lc_offset := lc_offset lc + n\<rparr>) (recoveryDepth + 1) p1
                      in (rs @ rs2, p2))))"
  by pat_completeness auto
termination
  by (relation "measure (\<lambda>(lib, d, line, wire, lc, depth, p). 32 - depth)") auto

declare consumeConsoleLine.simps [simp del]

text \<open>The lines and the console assembly apart.\<close>

definition same_lines :: "smp_direction \<Rightarrow> smp_parser \<Rightarrow> smp_parser \<Rightarrow> bool" where
  "same_lines d p q \<longleftrightarrow> (\<exists>c. same_states (with_dir d (\<lambda>s. s\<lparr>dn_console := c\<rparr>) p) q)"

lemma same_states_lines: "same_states p q \<Longrightarrow> same_lines d p q"
proof -
  assume "same_states p q"
  moreover have "with_dir d (\<lambda>s. s\<lparr>dn_console := dn_console (dir_state d p)\<rparr>) p = p" by (cases d) simp_all
  ultimately show ?thesis unfolding same_lines_def by metis
qed

lemma same_lines_trans: "same_lines d p q \<Longrightarrow> same_lines d q r \<Longrightarrow> same_lines d p r"
  by (cases d) (auto simp: same_lines_def same_states_def)

lemma same_lines_console [simp]: "same_lines d p (with_dir d (\<lambda>s. s\<lparr>dn_console := c\<rparr>) p)"
  unfolding same_lines_def by (intro exI [of _ c]) simp

lemma same_lines_error: "same_lines d p (snd (transportErrorRecord e ts cs off dat c sev p))"
  by (rule same_states_lines) simp

lemma same_lines_complete: "same_lines d p (snd (console_complete lib d p))"
proof -
  have "same_lines d p (snd (decode_packet lib packet ctx 0 (with_dir d (\<lambda>s. s\<lparr>dn_console := None\<rparr>) p)))" for packet ctx
    by (rule same_lines_trans [OF same_lines_console same_states_lines [OF same_packet [OF same_states_refl]]])
  then show ?thesis
    by (simp add: console_complete_def Let_def decodeTransportPacket_def same_states_lines split: option.split)
qed

lemma same_lines_begin: "same_lines d p (snd (console_begin d line index p))"
proof (cases "dn_console (dir_state d p)")
  case None
  then show ?thesis by (simp add: console_begin_def same_states_lines)
next
  case (Some c)
  show ?thesis
    using same_lines_trans [OF same_lines_error same_lines_console]
    by (simp add: console_begin_def Some split_beta same_states_lines)
qed

lemma same_lines_keep: "same_lines d p q \<Longrightarrow> same_lines d p (with_dir d (\<lambda>s. s\<lparr>dn_console := c\<rparr>) q)"
  by (rule same_lines_trans [OF _ same_lines_console])

lemma same_lines_console_line: "same_lines d p (fst (snd (console_line lib d line wire lc initial index p)))"
proof -
  obtain rs q where b: "console_begin d line index p = (rs, q)" by (metis surj_pair)
  have q: "same_lines d p q" using same_lines_begin [of d p line index] by (simp add: b)
  have e: "same_lines d p (snd (transportErrorRecord d ts cs off dat c sev q))" for ts cs off dat c sev
    by (rule same_lines_trans [OF q same_lines_error])
  have k: "same_lines d p (snd (console_complete lib d (with_dir d (\<lambda>s. s\<lparr>dn_console := c\<rparr>) q)))" for c
    by (rule same_lines_trans [OF same_lines_keep [OF q] same_lines_complete])
  show ?thesis
    by (simp add: console_line_def b Let_def split_beta e k same_lines_keep [OF e] split: option.split)
qed

lemma same_lines_consume: "same_lines d p (snd (consumeConsoleLine lib d line wire lc depth p))"
proof (induction "32 - depth" arbitrary: line wire lc depth p rule: less_induct)
  case less
  show ?case
  proof (cases "findConsoleMarker line")
    case None
    then show ?thesis by (subst consumeConsoleLine.simps) (simp add: same_states_lines)
  next
    case (Some m)
    obtain initial index where m: "m = (initial, index)" by (cases m)
    obtain rs q again where c: "console_line lib d line wire lc initial index p = (rs, q, again)" by (metis prod_cases3)
    have q: "same_lines d p q" using same_lines_console_line [of d p lib line wire lc initial index] by (simp add: c)
    have "same_lines d p (snd (consumeConsoleLine lib d line' wire' lc' (depth + 1) q))" if "depth < 32" for line' wire' lc'
      by (rule same_lines_trans [OF q less.hyps]) (use that in simp)
    then show ?thesis using q
      by (subst consumeConsoleLine.simps) (simp add: Some m c Let_def split_beta split: option.split)
  qed
qed

lemma consume_line_buffer: "dn_lineBuffer (dir_state d (snd (consumeConsoleLine lib d line wire lc depth p))) = dn_lineBuffer (dir_state d p)"
  using same_lines_consume [of d p lib line wire lc depth] by (auto simp: same_lines_def dest!: same_states_dir [where d = d])

lemma consume_line_buffer':
  "consumeConsoleLine lib d line wire lc depth p = (rs, q) \<Longrightarrow> dn_lineBuffer (dir_state d q) = dn_lineBuffer (dir_state d p)"
  using consume_line_buffer [of d lib line wire lc depth p] by simp

fun index_of :: "'a \<Rightarrow> 'a list \<Rightarrow> nat option" where
  "index_of x [] = None"
| "index_of x (y # ys) = (if y = x then Some 0 else map_option Suc (index_of x ys))"

lemma index_of_less: "index_of x ys = Some n \<Longrightarrow> n < length ys"
  by (induction ys arbitrary: n) (auto split: if_splits)

text \<open>One turn of the loop of \<open>feedConsole\<close>.\<close>

definition line_turn :: "cbor_lib \<Rightarrow> traffic_chunk \<Rightarrow> smp_parser \<Rightarrow> (nat list \<times> smp_parser) option" where
  "line_turn lib chunk p =
     (let direction = tc_direction chunk; s = dir_state direction p in
      case index_of 10 (dn_lineBuffer s) of
        None \<Rightarrow> None
      | Some newline \<Rightarrow>
          let lineWithLf = sliceCopy (dn_lineBuffer s) 0 (newline + 1);
              line0 = take newline lineWithLf;
              line = (if line0 \<noteq> [] \<and> last line0 = 13 then butlast line0 else line0);
              p1 = with_dir direction (\<lambda>s. s\<lparr>dn_lineBuffer := drop (newline + 1) (dn_lineBuffer s),
                     dn_lineBufferOffset := dn_lineBufferOffset s + newline + 1, dn_lineTimestamp := tc_timestamp chunk,
                     dn_lineCaptureSeq := tc_captureSeq chunk\<rparr>) p
          in Some (consumeConsoleLine lib direction line lineWithLf
               \<lparr>lc_offset = dn_lineBufferOffset s, lc_timestamp = dn_lineTimestamp s, lc_captureSeq = dn_lineCaptureSeq s,
                lc_now = tc_timestamp chunk\<rparr> 0 p1))"

lemma line_turn_buffer:
  "line_turn lib chunk p = Some (rs, q) \<Longrightarrow> \<exists>n < length (dn_lineBuffer (dir_state (tc_direction chunk) p)).
     dn_lineBuffer (dir_state (tc_direction chunk) q) = drop (Suc n) (dn_lineBuffer (dir_state (tc_direction chunk) p))"
proof -
  assume t: "line_turn lib chunk p = Some (rs, q)"
  let ?b = "dn_lineBuffer (dir_state (tc_direction chunk) p)"
  obtain n where n: "index_of 10 ?b = Some n" using t by (cases "index_of 10 ?b") (simp_all add: line_turn_def Let_def)
  have "dn_lineBuffer (dir_state (tc_direction chunk) q) = drop (Suc n) ?b"
    using t n by (auto simp: line_turn_def Let_def dest!: consume_line_buffer')
  then show ?thesis using index_of_less [OF n] by blast
qed

function feed_lines :: "cbor_lib \<Rightarrow> traffic_chunk \<Rightarrow> smp_parser \<Rightarrow> nat list \<times> smp_parser" where
  "feed_lines lib chunk p =
     (case line_turn lib chunk p of
        None \<Rightarrow> ([], p)
      | Some (rs, p1) \<Rightarrow> (let (rs2, p2) = feed_lines lib chunk p1 in (rs @ rs2, p2)))"
  by pat_completeness auto
termination
proof (relation "measure (\<lambda>(lib, c, p). length (dn_lineBuffer (dir_state (tc_direction c) p)))", simp, goal_cases)
  case (1 lib c p r rs q)
  then have "line_turn lib c p = Some (rs, q)" by simp
  from line_turn_buffer [OF this] show ?case by auto
qed

declare feed_lines.simps [simp del]

definition line_receive :: "traffic_chunk \<Rightarrow> nat \<Rightarrow> direction_state \<Rightarrow> direction_state" where
  "line_receive chunk chunkOffset s0 =
     (let s = (if length (dn_lineBuffer s0) = 0
               then s0\<lparr>dn_lineBufferOffset := chunkOffset, dn_lineTimestamp := tc_timestamp chunk, dn_lineCaptureSeq := tc_captureSeq chunk\<rparr> else s0)
      in s\<lparr>dn_lineLastTimestamp := tc_timestamp chunk, dn_lineBuffer := dn_lineBuffer s @ tc_data chunk\<rparr>)"

definition max_buffered_line :: "smp_parser \<Rightarrow> nat" where
  "max_buffered_line p = max 8192 (sp_maxPacketBytes p * 2)"

definition line_overflow :: "traffic_chunk \<Rightarrow> nat \<Rightarrow> smp_parser \<Rightarrow> nat list \<times> smp_parser" where
  "line_overflow chunk chunkOffset p =
     (let direction = tc_direction chunk; s = dir_state direction p in
      if length (dn_lineBuffer s) > max_buffered_line p then
        let marker = findLastMarkerPrefix (dn_lineBuffer s);
            discarded = sliceCopy (dn_lineBuffer s) 0 (length (dn_lineBuffer s) - length marker);
            p1 = with_dir direction (\<lambda>s. s\<lparr>dn_lineBuffer := marker, dn_lineBufferOffset := dn_inputOffset s - length marker\<rparr>) p
        in if length discarded > 0 then
             let (i, p2) = transportErrorRecord direction (dn_lineTimestamp s) (dn_lineCaptureSeq s)
                   (lineOffsetForChunk chunkOffset (length (tc_data chunk)) (length discarded)) discarded ''smp.console.line-overflow'' SevError p1
             in ([i], p2)
           else ([], p1)
      else ([], p))"

definition feedConsole :: "cbor_lib \<Rightarrow> traffic_chunk \<Rightarrow> nat \<Rightarrow> smp_parser \<Rightarrow> nat list \<times> smp_parser" where
  "feedConsole lib chunk chunkOffset p =
     (let (rs, p1) = feed_lines lib chunk (with_dir (tc_direction chunk) (line_receive chunk chunkOffset) p);
          (rs2, p2) = line_overflow chunk chunkOffset p1
      in (rs @ rs2, p2))"

section \<open>Timeouts\<close>

definition resetConsoleLineState :: "direction_state \<Rightarrow> direction_state" where
  "resetConsoleLineState s = s\<lparr>dn_lineBuffer := [], dn_lineCaptureSeq := None, dn_lineLastTimestamp := 0\<rparr>"

text \<open>The time of the last console activity, if a packet or a possible marker is buffered.\<close>

definition console_last :: "direction_state \<Rightarrow> int option" where
  "console_last s =
     (if hasPotentialConsoleMarker (dn_lineBuffer s) then Some (dn_lineLastTimestamp s)
      else map_option ca_lastTimestamp (dn_console s))"

definition flush_console :: "int \<Rightarrow> smp_direction \<Rightarrow> smp_parser \<Rightarrow> nat list \<times> smp_parser" where
  "flush_console now direction p =
     (let s = dir_state direction p; partialLine = hasPotentialConsoleMarker (dn_lineBuffer s) in
      case console_last s of
        None \<Rightarrow> ([], p)
      | Some t \<Rightarrow>
          if now - t \<ge> sp_reassemblyTimeoutMs p then
            let (i, p1) = (case dn_console s of
                  Some c \<Rightarrow> transportErrorRecord direction (ca_timestamp c)
                    (case ca_captureSeq c of None \<Rightarrow> dn_lineCaptureSeq s | Some q \<Rightarrow> Some q) (ca_offset c)
                    (concat (if partialLine then ca_wireParts c @ [dn_lineBuffer s] else ca_wireParts c)) ''smp.console.timeout'' SevError p
                | None \<Rightarrow> transportErrorRecord direction (dn_lineTimestamp s) (dn_lineCaptureSeq s) (dn_lineBufferOffset s)
                    (dn_lineBuffer s) ''smp.console.timeout'' SevError p);
                p2 = with_dir direction (\<lambda>s. s\<lparr>dn_console := None\<rparr>) p1
            in ([i], if partialLine then with_dir direction resetConsoleLineState p2 else p2)
          else ([], p))"

definition flush_raw :: "int \<Rightarrow> smp_direction \<Rightarrow> smp_parser \<Rightarrow> nat list \<times> smp_parser" where
  "flush_raw now direction p =
     (let s = dir_state direction p in
      if length (dn_rawBuffer s) > 0 \<and> now - dn_rawLastTimestamp s \<ge> sp_reassemblyTimeoutMs p then
        let (i, p1) = transportErrorRecord direction (dn_rawTimestamp s) (dn_rawCaptureSeq s) (dn_rawOffset s) (dn_rawBuffer s)
              ''smp.raw.timeout'' SevError p
        in ([i], with_dir direction resetRawState p1)
      else ([], p))"

definition flush_direction :: "int \<Rightarrow> smp_direction \<Rightarrow> smp_parser \<Rightarrow> nat list \<times> smp_parser" where
  "flush_direction now direction p =
     (let (rs, p1) = flush_console now direction p; (rs2, p2) = flush_raw now direction p1 in (rs @ rs2, p2))"

definition flushExpired :: "int \<Rightarrow> smp_parser \<Rightarrow> nat list \<times> smp_parser" where
  "flushExpired now p =
     (let (rs, p1) = flush_direction now TX p; (rs2, p2) = flush_direction now RX p1
      in (rs @ rs2, expirePendingRequests now p2))"

definition earlierTimestamp :: "int option \<Rightarrow> int \<Rightarrow> int option" where
  "earlierTimestamp current candidate =
     (case current of None \<Rightarrow> Some candidate | Some c \<Rightarrow> Some (if candidate < c then candidate else c))"

definition direction_expiry :: "smp_parser \<Rightarrow> smp_direction \<Rightarrow> int option \<Rightarrow> int option" where
  "direction_expiry p direction next =
     (let s = dir_state direction p;
          next1 = (case console_last s of None \<Rightarrow> next | Some t \<Rightarrow> earlierTimestamp next (t + sp_reassemblyTimeoutMs p))
      in if length (dn_rawBuffer s) > 0 then earlierTimestamp next1 (dn_rawLastTimestamp s + sp_reassemblyTimeoutMs p) else next1)"

definition nextExpiryTimestamp :: "smp_parser \<Rightarrow> int option" where
  "nextExpiryTimestamp p =
     foldl (\<lambda>next q. earlierTimestamp next (pq_expiresAt q)) (direction_expiry p RX (direction_expiry p TX None)) (sp_pendingRequests p)"

section \<open>Feeding\<close>

definition feed_smp :: "cbor_lib \<Rightarrow> traffic_chunk \<Rightarrow> smp_parser \<Rightarrow> nat list \<times> smp_parser" where
  "feed_smp lib chunk p =
     (if length (tc_data chunk) = 0 then flushExpired (tc_timestamp chunk) p
      else
        let (expired, p1) = flushExpired (tc_timestamp chunk) p;
            chunkOffset = dn_inputOffset (dir_state (tc_direction chunk) p1);
            p2 = with_dir (tc_direction chunk) (\<lambda>s. s\<lparr>dn_inputOffset := dn_inputOffset s + length (tc_data chunk)\<rparr>) p1;
            (decoded, p3) = (if sp_transport p2 = SerialConsole then feedConsole lib chunk chunkOffset p2 else feedRaw lib chunk chunkOffset p2)
        in (expired @ decoded, p3))"

definition smp_runtime_diagnostic :: "smp_direction \<Rightarrow> int \<Rightarrow> nat option \<Rightarrow> string \<Rightarrow> severity option \<Rightarrow> bytes option \<Rightarrow>
    smp_parser \<Rightarrow> nat \<times> smp_parser" where
  "smp_runtime_diagnostic direction timestamp captureSeq c sev dat p =
     transportErrorRecord direction timestamp captureSeq (dn_inputOffset (dir_state direction p))
       (case dat of None \<Rightarrow> [] | Some d \<Rightarrow> d) c (case sev of None \<Rightarrow> SevWarning | Some s \<Rightarrow> s) p"

end
