(* ===== verification/SmpRecords.thy ===== *)
theory SmpRecords
  imports SmpParser
begin

text \<open>
  What the operations of the SMP parser do to the record store: the wire part of a record (its
  direction, offset, bytes, header and check) never changes once it is made, and each decoding step appends
  exactly the records it returns.
\<close>

type_synonym wire_part = "smp_direction \<times> nat \<times> bytes \<times> smp_header option \<times> crc_status"

definition wire_of :: "smp_record \<Rightarrow> wire_part" where
  "wire_of r = (sr_direction r, sr_offset r, sr_data r, sr_header r, sr_crc r)"

definition wires :: "smp_parser \<Rightarrow> wire_part list" where
  "wires p = map wire_of (sp_records p)"

lemma length_wires [simp]: "length (wires p) = length (sp_records p)"
  by (simp add: wires_def)

lemma wires_update [simp]:
  assumes "\<And>r. wire_of (f r) = wire_of r"
  shows "wires (update_rec i f p) = wires p"
proof (cases "i < length (sp_records p)")
  case True
  then show ?thesis using assms by (simp add: wires_def update_rec_def map_update list_update_same_conv)
next
  case False
  then show ?thesis by (simp add: wires_def update_rec_def list_update_beyond)
qed

lemma wires_pending [simp]: "wires (p\<lparr>sp_pendingRequests := x\<rparr>) = wires p"
  by (simp add: wires_def)

lemma wires_with_dir [simp]: "wires (with_dir d f p) = wires p"
  by (simp add: wires_def)

lemma wires_mark [simp]: "wires (markRequestUnmatched i p) = wires p"
  unfolding markRequestUnmatched_def by (rule wires_update) (simp add: wire_of_def Let_def)

lemma wires_fold_mark [simp]: "wires (fold (\<lambda>q. markRequestUnmatched (pq_record q)) qs p) = wires p"
  by (induction qs arbitrary: p) simp_all

lemma wires_expire [simp]: "wires (expirePendingRequests now p) = wires p"
  by (simp add: expirePendingRequests_def)

lemma wires_evict [simp]: "wires (evict_requests p) = wires p"
proof (induction p rule: evict_requests.induct)
  case (1 p)
  then show ?case by (subst evict_requests.simps) simp
qed

lemma wires_correlate [simp]: "wires (correlate i p) = wires p"
  by (simp add: correlate_def Let_def wire_of_def split: option.split)

definition error_tag :: "smp_parser \<Rightarrow> smp_header option \<times> crc_status" where
  "error_tag p = (None, if sp_transport p = RawUart then CrcNotApplicable else CrcUnknown)"

lemma wires_error [simp]:
  "wires (snd (transportErrorRecord d ts cs off dat c sev p)) = wires p @ [(d, off, dat, error_tag p)]"
  "fst (transportErrorRecord d ts cs off dat c sev p) = length (sp_records p)"
  by (simp_all add: transportErrorRecord_def Let_def add_rec_def wires_def wire_of_def error_tag_def)

lemma wires_message [simp]:
  "wires (snd (decodeMessage lib m ctx off p)) = wires p @ [(tx_direction ctx, tx_offset ctx + off, m, Some (smp_header_of m), tx_crc ctx)]"
  "fst (decodeMessage lib m ctx off p) = length (sp_records p)"
proof -
  have "wires (snd (add_rec (message_record lib m ctx off) p)) = wires p @ [(tx_direction ctx, tx_offset ctx + off, m, Some (smp_header_of m), tx_crc ctx)]"
    by (simp add: add_rec_def wires_def wire_of_def message_record_def split_beta Let_def)
  then show "wires (snd (decodeMessage lib m ctx off p)) = wires p @ [(tx_direction ctx, tx_offset ctx + off, m, Some (smp_header_of m), tx_crc ctx)]"
    by (simp add: decodeMessage_def split_beta)
  show "fst (decodeMessage lib m ctx off p) = length (sp_records p)" by (simp add: decodeMessage_def split_beta add_rec_def)
qed

text \<open>A packet that is exactly one message makes exactly one record.\<close>

definition whole_message :: "nat \<Rightarrow> bytes \<Rightarrow> bool" where
  "whole_message maxPacketBytes m \<longleftrightarrow> SMP_HEADER_BYTES \<le> length m \<and> length m = SMP_HEADER_BYTES + readU16 m 2 \<and> length m \<le> maxPacketBytes"

lemma decode_whole:
  assumes "whole_message (sp_maxPacketBytes p) m"
  shows "decodeTransportPacket lib m ctx p = (let (i, q) = decodeMessage lib m ctx 0 p in ([i], q))"
proof -
  have u: "readU16 m (Suc (Suc 0)) = readU16 m 2" by (simp add: numeral_2_eq_2)
  have m: "SMP_HEADER_BYTES + readU16 m 2 = length m" "\<not> length m < SMP_HEADER_BYTES" "\<not> sp_maxPacketBytes p < length m" "m \<noteq> []"
    using assms by (auto simp: whole_message_def SMP_HEADER_BYTES_def)
  show ?thesis
    unfolding decodeTransportPacket_def by (subst decode_packet.simps) (simp add: m u sliceCopy_def Let_def)
qed

lemma decode_whole_wires:
  assumes "whole_message (sp_maxPacketBytes p) m"
  shows "wires (snd (decodeTransportPacket lib m ctx p)) = wires p @ [(tx_direction ctx, tx_offset ctx, m, Some (smp_header_of m), tx_crc ctx)]"
    "fst (decodeTransportPacket lib m ctx p) = [length (sp_records p)]"
  using wires_message [of lib m ctx 0 p] by (simp_all add: decode_whole [OF assms] split_beta)

text \<open>Events and what the parser is fed.\<close>

datatype smp_event =
    SmpFeed traffic_chunk
  | SmpFlush int

fun smp_step :: "cbor_lib \<Rightarrow> smp_event \<Rightarrow> smp_parser \<Rightarrow> smp_parser" where
  "smp_step lib (SmpFeed chunk) p = snd (feed_smp lib chunk p)"
| "smp_step lib (SmpFlush now) p = snd (flushExpired now p)"

fun smp_fed :: "smp_direction \<Rightarrow> smp_event \<Rightarrow> bytes" where
  "smp_fed d (SmpFeed chunk) = (if tc_direction chunk = d then tc_data chunk else [])"
| "smp_fed d (SmpFlush now) = []"

definition of_direction :: "smp_direction \<Rightarrow> wire_part list \<Rightarrow> wire_part list" where
  "of_direction d ws = filter (\<lambda>w. fst w = d) ws"

fun wire_data :: "wire_part \<Rightarrow> bytes" where
  "wire_data (d, off, dat, h) = dat"

text \<open>Records that follow each other without gap or overlap from an offset.\<close>

fun tiled :: "nat \<Rightarrow> wire_part list \<Rightarrow> bool" where
  "tiled off [] = True"
| "tiled off ((d, pos, dat, h) # ws) = (pos = off \<and> tiled (off + length dat) ws)"

lemma tiled_snoc: "tiled off (ws @ [(d, pos, dat, h)]) \<longleftrightarrow> tiled off ws \<and> pos = off + length (concat (map wire_data ws))"
  by (induction off ws rule: tiled.induct) auto

text \<open>A record without its direction and place.\<close>

fun wire_message :: "wire_part \<Rightarrow> bytes \<times> smp_header option \<times> crc_status" where
  "wire_message (d, off, dat, h) = (dat, h)"

abbreviation data_of :: "smp_direction \<Rightarrow> smp_parser \<Rightarrow> (bytes \<times> smp_header option \<times> crc_status) list" where
  "data_of d p \<equiv> map wire_message (of_direction d (wires p))"

end
