(* ===== verification/SmpStore.thy ===== *)
theory SmpStore
  imports SmpRecords
begin

text \<open>
  Invariants of the record store.  A locale states what an invariant needs to survive every
  operation of the parser that works for one direction; a second one, with the first for both
  directions, covers feeding and timers.
\<close>

section \<open>Operations of one direction\<close>

locale direction_store =
  fixes e :: smp_direction and I :: "smp_parser \<Rightarrow> bool"
  assumes keep_states: "I p \<Longrightarrow> I (with_dir e f p)"
    and keep_error: "I p \<Longrightarrow> I (snd (transportErrorRecord e ts cs off dat c sev p))"
    and keep_message: "I p \<Longrightarrow> tx_direction ctx = e \<Longrightarrow> I (snd (decodeMessage lib m ctx off p))"
    and keep_padding: "I p \<Longrightarrow> I (push_padding i off n p)"
begin

lemma keep_packet: "I p \<Longrightarrow> tx_direction ctx = e \<Longrightarrow> I (snd (decode_packet lib packet ctx off p))"
proof (induction "length packet - off" arbitrary: off p rule: less_induct)
  case less
  show ?case
  proof (cases rule: decode_packet_cases [of packet off lib ctx p])
    case finished
    then show ?thesis using less.prems by simp
  next
    case (error c)
    then show ?thesis using keep_error [OF less.prems(1)] less.prems(2) by (simp add: split_beta)
  next
    case (message n)
    obtain i q where m: "decodeMessage lib (sliceCopy packet off (off + n)) ctx off p = (i, q)" by (metis surj_pair)
    have q: "I q" using keep_message [OF less.prems, where lib = lib and m = "sliceCopy packet off (off + n)" and off = off] by (simp add: m)
    show ?thesis
    proof (cases "off + n \<ge> length packet")
      case True
      then show ?thesis using message(4) q by (simp add: m)
    next
      case False
      let ?a = "min (length packet) ((off + n + 3) div 4 * 4)"
      let ?r = "if ?a > off + n \<and> list_ex (\<lambda>b. b \<noteq> 0) (sliceCopy packet (off + n) ?a) then push_padding i (off + n) (?a - (off + n)) q else q"
      have "I ?r" using q keep_padding by simp
      moreover have "length packet - ?a < length packet - off" using False message(1) by (simp add: SMP_HEADER_BYTES_def)
      ultimately have "I (snd (decode_packet lib packet ctx ?a ?r))" by (intro less.hyps less.prems(2))
      then show ?thesis using message(4) False by (simp add: m Let_def split_beta cong: if_cong)
    qed
  qed
qed

lemma keep_raw_turn: "I p \<Longrightarrow> raw_turn lib e p = Some (rs, q) \<Longrightarrow> I q"
  using keep_packet keep_states keep_error
  by (auto simp: raw_turn_def Let_def decodeTransportPacket_def split_beta split: if_splits) (metis snd_conv transport_context.select_convs(1))

lemma keep_raw_loop: "I p \<Longrightarrow> I (snd (feed_raw_loop lib e p))"
proof (induction "length (dn_rawBuffer (dir_state e p))" arbitrary: p rule: less_induct)
  case less
  show ?case
  proof (cases "raw_turn lib e p")
    case None
    then show ?thesis using less.prems by (subst feed_raw_loop.simps) simp
  next
    case (Some r)
    obtain rs q where r: "raw_turn lib e p = Some (rs, q)" using Some by (cases r) auto
    obtain n where "0 < n" "n \<le> length (dn_rawBuffer (dir_state e p))" "same_states (with_dir e (consumeRawBytes n) p) q"
      using raw_turn_states [OF r] by blast
    then have "length (dn_rawBuffer (dir_state e q)) < length (dn_rawBuffer (dir_state e p))"
      by (simp add: same_states_dir)
    then have "I (snd (feed_raw_loop lib e q))" using less.hyps keep_raw_turn [OF less.prems r] by blast
    then show ?thesis using r by (subst feed_raw_loop.simps) (simp add: split_beta)
  qed
qed

lemma keep_console_begin: "I p \<Longrightarrow> I (snd (console_begin e line index p))"
  by (simp add: console_begin_def split_beta keep_states keep_error split: option.split)

lemma keep_console_complete: "I p \<Longrightarrow> I (snd (console_complete lib e p))"
  by (simp add: console_complete_def Let_def decodeTransportPacket_def keep_packet keep_states split: option.split)

lemma keep_console_line: "I p \<Longrightarrow> I (fst (snd (console_line lib e line wire lc initial index p)))"
  using keep_console_begin [of p line index]
  by (cases "console_begin e line index p")
    (simp add: console_line_def Let_def split_beta keep_states keep_error keep_console_complete split: option.split)

lemma keep_consume_line: "I p \<Longrightarrow> I (snd (consumeConsoleLine lib e line wire lc depth p))"
proof (induction "32 - depth" arbitrary: line wire lc depth p rule: less_induct)
  case less
  show ?case
  proof (cases "findConsoleMarker line")
    case None
    then show ?thesis using less.prems by (subst consumeConsoleLine.simps) simp
  next
    case (Some m)
    obtain initial index where m: "m = (initial, index)" by (cases m)
    obtain rs q again where c: "console_line lib e line wire lc initial index p = (rs, q, again)" by (metis prod_cases3)
    have q: "I q" using keep_console_line [OF less.prems, of lib line wire lc initial index] by (simp add: c)
    have "I (snd (consumeConsoleLine lib e line' wire' lc' (depth + 1) q))" if "depth < 32" for line' wire' lc'
      by (rule less.hyps) (use that q in simp_all)
    then show ?thesis using q
      by (subst consumeConsoleLine.simps) (simp add: Some m c Let_def split_beta split: option.split)
  qed
qed

lemma keep_lines: "I p \<Longrightarrow> tc_direction chunk = e \<Longrightarrow> I (snd (feed_lines lib chunk p))"
proof (induction lib chunk p rule: feed_lines.induct)
  case (1 lib chunk p)
  show ?case
  proof (cases "line_turn lib chunk p")
    case None
    then show ?thesis using 1 by (subst feed_lines.simps) simp
  next
    case (Some r)
    obtain rs q where r: "line_turn lib chunk p = Some (rs, q)" using Some by (cases r) auto
    then obtain n where "index_of 10 (dn_lineBuffer (dir_state (tc_direction chunk) p)) = Some n"
      by (cases "index_of 10 (dn_lineBuffer (dir_state (tc_direction chunk) p))") (simp_all add: line_turn_def Let_def)
    then have "I (snd (the (line_turn lib chunk p)))"
      unfolding line_turn_def Let_def by (simp only: option.case option.sel 1(3) keep_consume_line [OF keep_states [OF 1(2)]])
    then have "I q" using r by simp
    then have "I (snd (feed_lines lib chunk q))" using 1(1) [OF r refl _ 1(3)] by blast
    then show ?thesis using r by (subst feed_lines.simps) (simp add: split_beta)
  qed
qed

lemma keep_overflow: "I p \<Longrightarrow> tc_direction chunk = e \<Longrightarrow> I (snd (line_overflow chunk k p))"
  by (simp add: line_overflow_def Let_def split_beta keep_states keep_error)

lemma keep_flush_console: "I p \<Longrightarrow> I (snd (flush_console now e p))"
  by (simp add: flush_console_def Let_def split_beta keep_states keep_error split: option.split)

lemma keep_flush_raw: "I p \<Longrightarrow> I (snd (flush_raw now e p))"
  by (simp add: flush_raw_def Let_def split_beta keep_states keep_error)

lemma keep_received:
  assumes "I p" "tc_direction chunk = e"
  shows "I (snd (feedConsole lib chunk k p))" "I (snd (feedRaw lib chunk k p))"
  using keep_overflow [OF keep_lines [OF keep_states [OF assms(1)] assms(2)] assms(2)] keep_raw_loop [OF keep_states [OF assms(1)]]
  by (simp_all only: feedConsole_def feedRaw_def split_beta Let_def snd_conv assms(2))

end

section \<open>The whole parser\<close>

locale store_invariant =
  fixes I :: "smp_parser \<Rightarrow> bool"
  assumes each_direction: "direction_store e I"
    and keep_expiry: "I p \<Longrightarrow> I (expirePendingRequests now p)"

sublocale store_invariant \<subseteq> each: direction_store e I for e
  by (rule each_direction)

context store_invariant
begin

lemma keep_flush: "I p \<Longrightarrow> I (snd (flushExpired now p))"
  by (simp add: flushExpired_def flush_direction_def split_beta each.keep_flush_console each.keep_flush_raw keep_expiry)

lemma keep_feed: "I p \<Longrightarrow> I (snd (feed_smp lib chunk p))"
proof (cases "tc_data chunk = []")
  case True
  then show "I p \<Longrightarrow> I (snd (feed_smp lib chunk p))" by (simp add: feed_smp_def keep_flush)
next
  case False
  let ?f = "\<lambda>s. s\<lparr>dn_inputOffset := dn_inputOffset s + length (tc_data chunk)\<rparr>"
  let ?p2 = "with_dir (tc_direction chunk) ?f (snd (flushExpired (tc_timestamp chunk) p))"
  assume "I p"
  then have q: "I ?p2" by (intro each.keep_states keep_flush)
  have "I (snd (feedConsole lib chunk k ?p2))" "I (snd (feedRaw lib chunk k ?p2))" for k
    by (rule each.keep_received [OF q refl])+
  then show "I (snd (feed_smp lib chunk p))"
    using False unfolding feed_smp_def Let_def split_beta by (auto simp only: snd_conv length_0_conv if_False split: if_split)
qed

lemma keep_step: "I p \<Longrightarrow> I (smp_step lib ev p)"
  by (cases ev) (simp_all add: keep_feed keep_flush)

lemma keep_steps: "I p \<Longrightarrow> I (fold (smp_step lib) evs p)"
  by (induction evs arbitrary: p) (simp_all add: keep_step)

lemma keep_runtime: "I p \<Longrightarrow> I (snd (smp_runtime_diagnostic d ts cs c sev dat p))"
  by (simp add: smp_runtime_diagnostic_def each.keep_error)

end

end
