(* ===== verification/SmpRaw.thy ===== *)
theory SmpRaw
  imports SmpRecords
begin

text \<open>
  Raw UART: the records made from a direction tile its byte stream, whatever arrives, however it is
  cut into chunks and whatever times out; and a stream of whole messages is cut back into exactly
  those messages.
\<close>

section \<open>One turn of the loop\<close>

definition buffer_of :: "smp_direction \<Rightarrow> smp_parser \<Rightarrow> bytes" where
  "buffer_of d p = dn_rawBuffer (dir_state d p)"

definition offset_of :: "smp_direction \<Rightarrow> smp_parser \<Rightarrow> nat" where
  "offset_of d p = dn_rawOffset (dir_state d p)"

lemma consume_offset [simp]: "dn_rawOffset (consumeRawBytes n s) = dn_rawOffset s + n"
  by (simp add: consumeRawBytes_def Let_def split: list.split)

lemma consume_input [simp]: "dn_inputOffset (consumeRawBytes n s) = dn_inputOffset s"
  by (simp add: consumeRawBytes_def Let_def split: list.split)

lemma plausible_whole:
  "isPlausibleRawHeader b m \<Longrightarrow> rawMessageLength b \<le> length b \<Longrightarrow> whole_message m (take (rawMessageLength b) b)"
  by (simp add: isPlausibleRawHeader_def whole_message_def rawMessageLength_def readU16_def SMP_HEADER_BYTES_def min_absorb2 split: if_splits)

lemma raw_turn_spec:
  assumes "raw_turn lib d p = Some (rs, q)"
  shows "\<exists>n h. 0 < n \<and> n \<le> length (buffer_of d p) \<and> same_states (with_dir d (consumeRawBytes n) p) q \<and>
    wires q = wires p @ [(d, offset_of d p, take n (buffer_of d p), h)] \<and> rs = [length (sp_records p)]"
proof -
  let ?s = "dir_state d p"
  let ?b = "dn_rawBuffer ?s"
  let ?m = "sp_maxPacketBytes p"
  have len: "SMP_HEADER_BYTES \<le> length ?b" using assms by (auto simp: raw_turn_def Let_def split: if_splits)
  show ?thesis
  proof (cases "isPlausibleRawHeader ?b ?m")
    case True
    let ?n = "rawMessageLength ?b"
    have l: "?n \<le> length ?b" using assms len True by (auto simp: raw_turn_def Let_def split: if_splits)
    let ?c = "\<lparr>tx_direction = d, tx_timestamp = dn_rawTimestamp ?s, tx_captureSeq = dn_rawCaptureSeq ?s, tx_offset = dn_rawOffset ?s,
      tx_transportData = Some (take ?n ?b), tx_crc = CrcNotApplicable, tx_diagnostics = []\<rparr>"
    have t: "decodeTransportPacket lib (take ?n ?b) ?c (with_dir d (consumeRawBytes ?n) p) = (rs, q)"
      using assms len True l by (simp add: raw_turn_def Let_def sliceCopy_def)
    have "whole_message (sp_maxPacketBytes (with_dir d (consumeRawBytes ?n) p)) (take ?n ?b)"
      using plausible_whole [OF True l] by simp
    from decode_whole_wires [OF this, of lib ?c] t
    have w: "wires q = wires p @ [(d, dn_rawOffset ?s, take ?n ?b, Some (smp_header_of (take ?n ?b)), CrcNotApplicable)]" "rs = [length (sp_records p)]" by simp_all
    have "same_states (with_dir d (consumeRawBytes ?n) p) q"
      using same_packet [OF same_states_refl [of "with_dir d (consumeRawBytes ?n) p"], where lib = lib and packet = "take ?n ?b" and ctx = ?c and off = 0] t
      by (simp add: decodeTransportPacket_def)
    moreover have "0 < ?n" by (simp add: rawMessageLength_def SMP_HEADER_BYTES_def)
    ultimately show ?thesis using l w by (intro exI [of _ ?n] exI [of _ "(Some (smp_header_of (take ?n ?b)), CrcNotApplicable)"]) (simp add: buffer_of_def offset_of_def)
  next
    case False
    let ?n = "raw_discard ?b ?m"
    have n: "0 < ?n \<and> ?n \<le> length ?b" using raw_discard_bounds [OF len] by blast
    obtain i p1 where e: "transportErrorRecord d (dn_rawTimestamp ?s) (dn_rawCaptureSeq ?s) (dn_rawOffset ?s)
        (sliceCopy ?b 0 ?n) ''smp.raw.resync'' SevWarning p = (i, p1)"
      by (metis surj_pair)
    have q: "q = with_dir d (consumeRawBytes ?n) p1" "rs = [i]" using assms len False e by (simp_all add: raw_turn_def Let_def)
    have "same_states p p1" using same_error [of p d "dn_rawTimestamp ?s" "dn_rawCaptureSeq ?s" "dn_rawOffset ?s"
        "sliceCopy ?b 0 ?n" "''smp.raw.resync''" SevWarning p] by (simp add: e)
    then have "same_states (with_dir d (consumeRawBytes ?n) p) q" by (cases d) (simp_all add: q same_states_def)
    moreover have "wires p1 = wires p @ [(d, dn_rawOffset ?s, sliceCopy ?b 0 ?n, error_tag p)]" "i = length (sp_records p)"
      using wires_error [of d "dn_rawTimestamp ?s" "dn_rawCaptureSeq ?s" "dn_rawOffset ?s" "sliceCopy ?b 0 ?n" "''smp.raw.resync''" SevWarning p]
      by (simp_all add: e)
    then have "wires q = wires p @ [(d, dn_rawOffset ?s, take ?n ?b, error_tag p)]" "rs = [length (sp_records p)]" by (simp_all add: q sliceCopy_def)
    ultimately show ?thesis using n by (intro exI [of _ ?n] exI [of _ "error_tag p"]) (simp add: buffer_of_def offset_of_def)
  qed
qed

section \<open>Tiling\<close>

text \<open>The records of a direction cover its stream up to the buffer, which holds the rest.\<close>

definition raw_covers :: "smp_direction \<Rightarrow> bytes \<Rightarrow> smp_parser \<Rightarrow> bool" where
  "raw_covers d fed p \<longleftrightarrow>
     concat (map wire_data (of_direction d (wires p))) @ buffer_of d p = fed \<and>
     tiled 0 (of_direction d (wires p)) \<and>
     dn_inputOffset (dir_state d p) = length fed \<and>
     (buffer_of d p \<noteq> [] \<longrightarrow> offset_of d p + length (buffer_of d p) = length fed)"

lemma of_direction_snoc: "of_direction d (ws @ [(e, pos, dat, h)]) = (if e = d then of_direction d ws @ [(d, pos, dat, h)] else of_direction d ws)"
  by (simp add: of_direction_def)

text \<open>One record taken from the front of the buffer keeps the cover, and does not touch the other
  direction.\<close>

lemma covers_take:
  assumes "raw_covers d fed p" "0 < n" "n \<le> length (buffer_of d p)"
    "wires q = wires p @ [(d, offset_of d p, take n (buffer_of d p), h)]"
    "buffer_of d q = drop n (buffer_of d p)" "buffer_of d q \<noteq> [] \<longrightarrow> offset_of d q = offset_of d p + n"
    "dn_inputOffset (dir_state d q) = dn_inputOffset (dir_state d p)"
  shows "raw_covers d fed q"
proof -
  have ne: "buffer_of d p \<noteq> []" using assms(2,3) by auto
  have len: "length (concat (map wire_data (of_direction d (wires p)))) + length (buffer_of d p) = length fed"
    using assms(1) by (auto simp: raw_covers_def)
  then have "offset_of d p = length (concat (map wire_data (of_direction d (wires p))))"
    using assms(1) ne by (auto simp: raw_covers_def)
  then show ?thesis using assms ne by (auto simp: raw_covers_def of_direction_snoc tiled_snoc)
qed

lemma covers_other:
  assumes "raw_covers e fed p" "e \<noteq> d" "wires q = wires p @ [(d, pos, dat, h)] \<or> wires q = wires p" "dir_state e q = dir_state e p"
  shows "raw_covers e fed q"
  using assms by (auto simp: raw_covers_def buffer_of_def offset_of_def of_direction_snoc)

text \<open>What one turn keeps, the loop keeps.\<close>

lemma raw_loop_rule:
  assumes "P p"
    and "\<And>q r n h. P q \<Longrightarrow> 0 < n \<Longrightarrow> n \<le> length (buffer_of d q) \<Longrightarrow> same_states (with_dir d (consumeRawBytes n) q) r \<Longrightarrow>
      wires r = wires q @ [(d, offset_of d q, take n (buffer_of d q), h)] \<Longrightarrow> P r"
  shows "P (snd (feed_raw_loop lib d p))"
  using assms
proof (induction lib d p rule: feed_raw_loop.induct)
  case (1 lib d p)
  show ?case
  proof (cases "raw_turn lib d p")
    case None
    then show ?thesis using 1(2) by (subst feed_raw_loop.simps) simp
  next
    case (Some r)
    obtain rs q where r: "raw_turn lib d p = Some (rs, q)" using Some by (cases r) auto
    from raw_turn_spec [OF r] have "P q" using 1(3) [OF 1(2)] by blast
    then have "P (snd (feed_raw_loop lib d q))" by (rule 1(1) [OF r refl]) (rule 1(3))
    then show ?thesis using r by (subst feed_raw_loop.simps) (simp add: split_beta)
  qed
qed

lemma raw_loop_covers:
  assumes "raw_covers e fed p"
  shows "raw_covers e fed (snd (feed_raw_loop lib d p))"
  using assms
proof (rule raw_loop_rule)
  fix q r n h
  assume q: "raw_covers e fed q" and n: "0 < n" "n \<le> length (buffer_of d q)" "same_states (with_dir d (consumeRawBytes n) q) r"
    "wires r = wires q @ [(d, offset_of d q, take n (buffer_of d q), h)]"
  note s = same_states_dir [OF n(3)]
  show "raw_covers e fed r"
  proof (cases "e = d")
    case True
    then show ?thesis using covers_take [of d fed q n r] q n by (simp add: buffer_of_def offset_of_def s)
  next
    case False
    show ?thesis by (rule covers_other [OF q False disjI1 [OF n(4)]]) (simp add: s False)
  qed
qed

text \<open>In raw mode nothing is ever buffered for the console.\<close>

definition raw_only :: "smp_parser \<Rightarrow> bool" where
  "raw_only p \<longleftrightarrow> sp_transport p = RawUart \<and> (\<forall>d. dn_lineBuffer (dir_state d p) = [] \<and> dn_console (dir_state d p) = None)"

lemma no_potential: "\<not> hasPotentialConsoleMarker []"
  by (simp add: hasPotentialConsoleMarker_def findLastMarkerPrefix_def)

lemma flush_console_raw: "raw_only p \<Longrightarrow> flush_console now d p = ([], p)"
  by (simp add: flush_console_def raw_only_def console_last_def no_potential Let_def)

lemma flush_raw_covers:
  assumes "raw_covers e fed p"
  shows "raw_covers e fed (snd (flush_raw now d p))"
proof (cases "length (dn_rawBuffer (dir_state d p)) > 0 \<and> now - dn_rawLastTimestamp (dir_state d p) \<ge> sp_reassemblyTimeoutMs p")
  case True
  let ?s = "dir_state d p"
  obtain i p1 where t: "transportErrorRecord d (dn_rawTimestamp ?s) (dn_rawCaptureSeq ?s) (dn_rawOffset ?s) (dn_rawBuffer ?s)
      ''smp.raw.timeout'' SevError p = (i, p1)" by (metis surj_pair)
  have w: "wires p1 = wires p @ [(d, offset_of d p, take (length (buffer_of d p)) (buffer_of d p), error_tag p)]"
    using wires_error(1) [of d "dn_rawTimestamp ?s" "dn_rawCaptureSeq ?s" "dn_rawOffset ?s" "dn_rawBuffer ?s" "''smp.raw.timeout''" SevError p]
    by (simp add: t buffer_of_def offset_of_def)
  have s: "dir_state x p1 = dir_state x p" for x
    using same_states_dir [of p p1 x] same_error [of p d "dn_rawTimestamp ?s" "dn_rawCaptureSeq ?s" "dn_rawOffset ?s" "dn_rawBuffer ?s"
        "''smp.raw.timeout''" SevError p] by (simp add: t)
  have q: "snd (flush_raw now d p) = with_dir d resetRawState p1" using True by (simp add: flush_raw_def Let_def t)
  show ?thesis
  proof (cases "e = d")
    case e: True
    have "raw_covers d fed (with_dir d resetRawState p1)"
      by (rule covers_take [where n = "length (buffer_of d p)" and p = p])
        (use assms e True w in \<open>auto simp: buffer_of_def s resetRawState_def\<close>)
    then show ?thesis by (simp add: q e)
  next
    case False
    show ?thesis unfolding q
      by (rule covers_other [OF assms False disjI1]) (use w False in \<open>simp_all add: s\<close>)
  qed
next
  case False
  have "flush_raw now d p = ([], p)" unfolding flush_raw_def Let_def by (rule if_not_P [OF False])
  then show ?thesis using assms by simp
qed

lemma same_transport: "same_states p q \<Longrightarrow> sp_transport q = sp_transport p"
  by (simp add: same_states_def)

lemma raw_only_dir: "raw_only p \<Longrightarrow> sp_transport q = sp_transport p \<Longrightarrow>
    (\<And>x. dn_lineBuffer (dir_state x q) = dn_lineBuffer (dir_state x p) \<and> dn_console (dir_state x q) = dn_console (dir_state x p)) \<Longrightarrow> raw_only q"
  by (simp add: raw_only_def)

lemma consume_console [simp]:
  "dn_lineBuffer (consumeRawBytes n s) = dn_lineBuffer s" "dn_console (consumeRawBytes n s) = dn_console s"
  by (simp_all add: consumeRawBytes_def Let_def split: list.split)

lemma raw_only_flush: "raw_only p \<Longrightarrow> raw_only (snd (flush_raw now d p))"
proof -
  assume p: "raw_only p"
  let ?s = "dir_state d p"
  obtain i p1 where t: "transportErrorRecord d (dn_rawTimestamp ?s) (dn_rawCaptureSeq ?s) (dn_rawOffset ?s) (dn_rawBuffer ?s)
      ''smp.raw.timeout'' SevError p = (i, p1)" by (metis surj_pair)
  have "same_states p p1" using same_error [of p d "dn_rawTimestamp ?s" "dn_rawCaptureSeq ?s" "dn_rawOffset ?s" "dn_rawBuffer ?s"
        "''smp.raw.timeout''" SevError p] by (simp add: t)
  then have "raw_only (with_dir d resetRawState p1)"
    by (intro raw_only_dir [OF p]) (auto simp: resetRawState_def same_states_dir dest: same_states_dir, simp add: same_states_def)
  then show ?thesis using p by (simp add: flush_raw_def Let_def t)
qed

lemma raw_only_loop: "raw_only p \<Longrightarrow> raw_only (snd (feed_raw_loop lib d p))"
  by (erule raw_loop_rule, rule raw_only_dir, assumption) (simp_all add: same_transport same_states_dir)

lemma flush_raw_mode:
  assumes "raw_only p"
  shows "raw_only (snd (flushExpired now p))"
    "raw_covers e fed p \<Longrightarrow> raw_covers e fed (snd (flushExpired now p))"
    "dn_inputOffset (dir_state e (snd (flushExpired now p))) = dn_inputOffset (dir_state e p)"
proof -
  let ?p1 = "snd (flush_raw now TX p)"
  let ?p2 = "snd (flush_raw now RX ?p1)"
  have r: "raw_only ?p1" "raw_only ?p2" using raw_only_flush [OF assms] raw_only_flush [OF raw_only_flush [OF assms]] by simp_all
  have f: "snd (flushExpired now p) = expirePendingRequests now ?p2"
    by (simp add: flushExpired_def flush_direction_def flush_console_raw [OF assms] flush_console_raw [OF r(1)] split_beta)
  have s: "same_states ?p2 (expirePendingRequests now ?p2)" by simp
  show "raw_only (snd (flushExpired now p))" unfolding f
    by (rule raw_only_dir [OF r(2) same_transport [OF s]]) (simp add: same_states_dir [OF s])
  have i: "dn_inputOffset (dir_state x (snd (flush_raw now d q))) = dn_inputOffset (dir_state x q)" for x d q
    using same_error [of q d] by (simp add: flush_raw_def Let_def split_beta resetRawState_def same_states_dir [OF same_error [THEN iffD2, OF same_states_refl]])
  show "dn_inputOffset (dir_state e (snd (flushExpired now p))) = dn_inputOffset (dir_state e p)"
    unfolding f same_states_dir [OF s] i by (rule refl)
  assume c: "raw_covers e fed p"
  have "raw_covers e fed ?p2" by (rule flush_raw_covers [OF flush_raw_covers [OF c]])
  then show "raw_covers e fed (snd (flushExpired now p))"
    unfolding f raw_covers_def buffer_of_def offset_of_def same_states_dir [OF s] by simp
qed

section \<open>The whole stream\<close>

lemma plausible_length: "isPlausibleRawHeader b m \<Longrightarrow> rawMessageLength b \<le> m"
  by (simp add: isPlausibleRawHeader_def split: if_splits)

text \<open>When the loop stops, less than a packet is left.\<close>

lemma raw_turn_stop: "raw_turn lib d p = None \<Longrightarrow> SMP_HEADER_BYTES \<le> sp_maxPacketBytes p \<Longrightarrow> length (buffer_of d p) < sp_maxPacketBytes p"
  using plausible_length [of "buffer_of d p" "sp_maxPacketBytes p"]
  by (auto simp: raw_turn_def Let_def buffer_of_def split_beta split: if_splits)

lemma raw_loop_bounded:
  "SMP_HEADER_BYTES \<le> sp_maxPacketBytes p \<Longrightarrow> length (buffer_of d (snd (feed_raw_loop lib d p))) < sp_maxPacketBytes p"
proof (induction lib d p rule: feed_raw_loop.induct)
  case (1 lib d p)
  show ?case
  proof (cases "raw_turn lib d p")
    case None
    then show ?thesis using 1 raw_turn_stop by (subst feed_raw_loop.simps) simp
  next
    case (Some r)
    obtain rs q where r: "raw_turn lib d p = Some (rs, q)" using Some by (cases r) auto
    obtain n where "same_states (with_dir d (consumeRawBytes n) p) q" using raw_turn_spec [OF r] by blast
    then have m: "sp_maxPacketBytes q = sp_maxPacketBytes p" by (simp add: same_states_def)
    then have "length (buffer_of d (snd (feed_raw_loop lib d q))) < sp_maxPacketBytes p"
      using 1(1) [OF r refl] 1(2) by simp
    then show ?thesis using r by (subst feed_raw_loop.simps) (simp add: split_beta)
  qed
qed

lemma raw_loop_other: "e \<noteq> d \<Longrightarrow> dir_state e (snd (feed_raw_loop lib d p)) = dir_state e p"
  by (rule raw_loop_rule [where P = "\<lambda>q. dir_state e q = dir_state e p"]) (simp_all add: same_states_dir)

lemma raw_loop_config:
  "sp_maxPacketBytes (snd (feed_raw_loop lib d p)) = sp_maxPacketBytes p \<and>
   sp_reassemblyTimeoutMs (snd (feed_raw_loop lib d p)) = sp_reassemblyTimeoutMs p"
  by (rule raw_loop_rule [where P = "\<lambda>q. sp_maxPacketBytes q = sp_maxPacketBytes p \<and> sp_reassemblyTimeoutMs q = sp_reassemblyTimeoutMs p"])
    (simp_all add: same_states_def)

text \<open>The state between two calls.\<close>

definition raw_ok :: "smp_parser \<Rightarrow> bool" where
  "raw_ok p \<longleftrightarrow> raw_only p \<and> SMP_HEADER_BYTES \<le> sp_maxPacketBytes p \<and> (\<forall>d. length (buffer_of d p) < sp_maxPacketBytes p)"

lemma flush_raw_small:
  "sp_maxPacketBytes (snd (flush_raw now d p)) = sp_maxPacketBytes p"
  "length (buffer_of e (snd (flush_raw now d p))) \<le> length (buffer_of e p)"
proof -
  let ?s = "dir_state d p"
  obtain i p1 where t: "transportErrorRecord d (dn_rawTimestamp ?s) (dn_rawCaptureSeq ?s) (dn_rawOffset ?s) (dn_rawBuffer ?s)
      ''smp.raw.timeout'' SevError p = (i, p1)" by (metis surj_pair)
  have s: "same_states p p1" using same_error [of p d "dn_rawTimestamp ?s" "dn_rawCaptureSeq ?s" "dn_rawOffset ?s" "dn_rawBuffer ?s"
        "''smp.raw.timeout''" SevError p] by (simp add: t)
  show "sp_maxPacketBytes (snd (flush_raw now d p)) = sp_maxPacketBytes p"
    using s by (simp add: flush_raw_def Let_def t same_states_def)
  show "length (buffer_of e (snd (flush_raw now d p))) \<le> length (buffer_of e p)"
    by (simp add: flush_raw_def Let_def t same_states_dir [OF s] buffer_of_def resetRawState_def)
qed

lemma flush_raw_ok:
  assumes "raw_ok p"
  shows "raw_ok (snd (flushExpired now p))"
proof -
  let ?p2 = "snd (flush_raw now RX (snd (flush_raw now TX p)))"
  have o1: "raw_only p" using assms by (simp add: raw_ok_def)
  have f: "snd (flushExpired now p) = expirePendingRequests now ?p2"
    by (simp add: flushExpired_def flush_direction_def flush_console_raw [OF o1] flush_console_raw [OF raw_only_flush [OF o1]] split_beta)
  have s: "same_states ?p2 (expirePendingRequests now ?p2)" by simp
  have m: "sp_maxPacketBytes (expirePendingRequests now ?p2) = sp_maxPacketBytes p"
    using s flush_raw_small(1) by (simp add: same_states_def)
  have "length (buffer_of d (expirePendingRequests now ?p2)) < sp_maxPacketBytes p" for d
    using le_trans [OF flush_raw_small(2) flush_raw_small(2), of d now RX now TX p] assms
    by (auto simp: buffer_of_def same_states_dir [OF s] raw_ok_def intro: le_less_trans)
  then show ?thesis using flush_raw_mode(1) [OF o1, of now] m assms by (simp add: raw_ok_def f)
qed

lemma raw_receive_fields [simp]:
  "dn_rawBuffer (raw_receive c k s) = dn_rawBuffer s @ tc_data c"
  "dn_rawOffset (raw_receive c k s) = (if dn_rawBuffer s = [] then k else dn_rawOffset s)"
  "dn_inputOffset (raw_receive c k s) = dn_inputOffset s"
  "dn_lineBuffer (raw_receive c k s) = dn_lineBuffer s" "dn_console (raw_receive c k s) = dn_console s"
  by (simp_all add: raw_receive_def Let_def)

definition raw_arrival :: "traffic_chunk \<Rightarrow> smp_parser \<Rightarrow> smp_parser" where
  "raw_arrival c p = with_dir (tc_direction c) (raw_receive c (dn_inputOffset (dir_state (tc_direction c) p)))
     (with_dir (tc_direction c) (\<lambda>s. s\<lparr>dn_inputOffset := dn_inputOffset s + length (tc_data c)\<rparr>) p)"

lemma feed_raw_mode:
  assumes "raw_only p" "tc_data c \<noteq> []"
  shows "snd (feed_smp lib c p) = snd (feed_raw_loop lib (tc_direction c) (raw_arrival c (snd (flushExpired (tc_timestamp c) p))))"
proof -
  have "sp_transport (snd (flushExpired (tc_timestamp c) p)) = RawUart"
    using flush_raw_mode(1) [OF assms(1)] by (simp add: raw_only_def)
  then show ?thesis using assms(2) by (simp add: feed_smp_def Let_def split_beta feedRaw_def raw_arrival_def)
qed

lemma arrival_covers:
  assumes "raw_covers e fed p"
  shows "raw_covers e (fed @ (if tc_direction c = e then tc_data c else [])) (raw_arrival c p)"
  using assms by (auto simp: raw_covers_def raw_arrival_def buffer_of_def offset_of_def)

lemma arrival_only: "raw_only p \<Longrightarrow> raw_only (raw_arrival c p)"
  by (simp add: raw_only_def raw_arrival_def)

lemma raw_step:
  assumes "raw_ok p" "raw_covers e fed p"
  shows "raw_ok (smp_step lib ev p)" "raw_covers e (fed @ smp_fed e ev) (smp_step lib ev p)"
    "sp_maxPacketBytes (smp_step lib ev p) = sp_maxPacketBytes p"
proof -
  let ?flushed = "\<lambda>now. snd (flushExpired now p)"
  have only: "raw_only p" using assms(1) by (simp add: raw_ok_def)
  have m: "sp_maxPacketBytes (?flushed now) = sp_maxPacketBytes p" for now
    using flush_raw_small(1) same_expire [of _ now, THEN iffD2, OF same_states_refl]
    by (simp add: flushExpired_def flush_direction_def flush_console_raw [OF only] flush_console_raw [OF raw_only_flush [OF only]] split_beta)
      (metis same_states_def same_expire same_states_refl flush_raw_small(1))
  note fl = flush_raw_ok [OF assms(1)] flush_raw_mode(2) [OF only assms(2)]
  consider now where "ev = SmpFlush now" | c where "ev = SmpFeed c" "tc_data c = []" | c where "ev = SmpFeed c" "tc_data c \<noteq> []"
    by (cases ev) blast+
  then have "raw_ok (smp_step lib ev p) \<and> raw_covers e (fed @ smp_fed e ev) (smp_step lib ev p) \<and>
      sp_maxPacketBytes (smp_step lib ev p) = sp_maxPacketBytes p"
  proof cases
    case (1 now)
    then show ?thesis using fl m by simp
  next
    case (2 c)
    then show ?thesis using fl m by (simp add: feed_smp_def)
  next
    case (3 c)
    let ?q = "raw_arrival c (?flushed (tc_timestamp c))"
    let ?r = "snd (feed_raw_loop lib (tc_direction c) ?q)"
    have q: "sp_maxPacketBytes ?q = sp_maxPacketBytes p" by (simp add: raw_arrival_def m)
    have big: "SMP_HEADER_BYTES \<le> sp_maxPacketBytes p" using assms(1) by (simp add: raw_ok_def)
    have "length (buffer_of d ?r) < sp_maxPacketBytes p" for d
    proof (cases "d = tc_direction c")
      case True
      then show ?thesis using raw_loop_bounded [of ?q d lib] q big by simp
    next
      case False
      then have "buffer_of d ?r = buffer_of d (?flushed (tc_timestamp c))"
        by (simp add: buffer_of_def raw_loop_other raw_arrival_def)
      then show ?thesis using fl(1) [of "tc_timestamp c"] m by (simp add: raw_ok_def)
    qed
    moreover have "raw_only ?r" by (rule raw_only_loop [OF arrival_only]) (use fl(1) in \<open>simp add: raw_ok_def\<close>)
    ultimately have "raw_ok ?r" using big q by (simp add: raw_ok_def raw_loop_config)
    moreover have "raw_covers e (fed @ smp_fed e ev) ?r"
      using raw_loop_covers [OF arrival_covers [OF fl(2)]] 3 by simp
    ultimately show ?thesis using 3 feed_raw_mode [OF only 3(2)] q by (simp add: raw_loop_config)
  qed
  then show "raw_ok (smp_step lib ev p)" "raw_covers e (fed @ smp_fed e ev) (smp_step lib ev p)"
    "sp_maxPacketBytes (smp_step lib ev p) = sp_maxPacketBytes p" by blast+
qed

lemma raw_steps:
  "raw_ok p \<Longrightarrow> raw_covers e fed p \<Longrightarrow>
    raw_ok (fold (smp_step lib) evs p) \<and> raw_covers e (fed @ concat (map (smp_fed e) evs)) (fold (smp_step lib) evs p) \<and>
    sp_maxPacketBytes (fold (smp_step lib) evs p) = sp_maxPacketBytes p"
proof (induction evs arbitrary: p fed)
  case (Cons ev evs)
  from Cons.IH [OF raw_step(1,2) [OF Cons.prems]] raw_step(3) [OF Cons.prems] show ?case by simp
qed simp

lemma new_raw_ok:
  assumes "new_smp_parser (Some RawUart) maxPacket timeout = Inr p"
  shows "raw_ok p" "raw_covers e [] p"
proof -
  have e: "dir_state d p = createDirectionState" "sp_records p = []" "sp_transport p = RawUart" "SMP_HEADER_BYTES \<le> sp_maxPacketBytes p" for d
    using assms by (cases d; auto simp: new_smp_parser_def split: if_splits)+
  then show "raw_ok p" "raw_covers e [] p"
    by (simp_all add: raw_ok_def raw_only_def buffer_of_def raw_covers_def wires_def of_direction_def createDirectionState_def SMP_HEADER_BYTES_def)
qed

text \<open>Nothing of a Raw UART stream is lost, repeated or reordered: whatever is fed in either
  direction and whatever times out, the data of a direction's records followed by what is still
  buffered is exactly what that direction was fed, each record starts where the one before it
  ended, and less than one packet is ever buffered.
\<close>

theorem smp_raw_tiles:
  assumes "new_smp_parser (Some RawUart) maxPacket timeout = Inr p0" "p = fold (smp_step lib) events p0"
  shows "concat (map wire_data (of_direction d (wires p))) @ dn_rawBuffer (dir_state d p) = concat (map (smp_fed d) events) \<and>
    tiled 0 (of_direction d (wires p)) \<and> length (dn_rawBuffer (dir_state d p)) < sp_maxPacketBytes p0"
  using raw_steps [OF new_raw_ok [OF assms(1)], where e = d and evs = events and lib = lib] assms(2)
  by (simp add: raw_covers_def raw_ok_def buffer_of_def) metis

text \<open>A parser and a stream for the witnesses: a write request with the payload \<open>{}\<close> and a read
  response without payload, cut inside the first one, with traffic of the other direction and a
  timer in between.\<close>

abbreviation example_raw_parser :: smp_parser where
  "example_raw_parser \<equiv> \<lparr>sp_transport = RawUart, sp_maxPacketBytes = 16, sp_reassemblyTimeoutMs = 1000,
     sp_tx = createDirectionState, sp_rx = createDirectionState, sp_pendingRequests = [], sp_records = []\<rparr>"

abbreviation example_lib :: cbor_lib where
  "example_lib \<equiv> \<lparr>cl_tokens = \<lambda>bs. if bs = [160] then ([TMap (Num 0)], False) else ([], True),
     cl_decode = \<lambda>bs. if bs = [160] then Some (CborMap []) else None\<rparr>"

abbreviation example_raw_messages :: "bytes list" where
  "example_raw_messages \<equiv> [[2, 0, 0, 1, 0, 0, 7, 0, 160], [1, 0, 0, 0, 0, 1, 8, 2]]"

abbreviation example_raw_events :: "smp_event list" where
  "example_raw_events \<equiv>
    [SmpFeed \<lparr>tc_direction = RX, tc_data = [2, 0, 0], tc_timestamp = 10, tc_captureSeq = Some 1\<rparr>,
     SmpFeed \<lparr>tc_direction = TX, tc_data = [255], tc_timestamp = 20, tc_captureSeq = None\<rparr>,
     SmpFlush 900,
     SmpFeed \<lparr>tc_direction = RX, tc_data = [1, 0, 0, 7, 0, 160, 1, 0, 0, 0, 0, 1, 8, 2], tc_timestamp = 1000, tc_captureSeq = Some 2\<rparr>,
     SmpFlush 5000]"

lemma example_raw_new: "new_smp_parser (Some RawUart) (Num 16) (Num 1000) = Inr example_raw_parser"
  by (simp add: new_smp_parser_def js_isInteger_def js_floor_def js_isFinite_def SMP_HEADER_BYTES_def)

theorem smp_raw_tiles_witness:
  "let p = fold (smp_step example_lib) example_raw_events example_raw_parser in
     concat (map wire_data (of_direction TX (wires p))) @ dn_rawBuffer (dir_state TX p) = [255] \<and>
     tiled 0 (of_direction TX (wires p)) \<and> length (dn_rawBuffer (dir_state TX p)) < 16"
  using smp_raw_tiles [OF example_raw_new refl, of TX example_lib example_raw_events] by simp

end
