(* ===== verification/SmpRawFrames.thy ===== *)
theory SmpRawFrames
  imports SmpRaw
begin

text \<open>
  Raw UART: a stream that is a sequence of messages is cut back into exactly those messages,
  wherever the chunks are cut, as long as no message stalls for the reassembly timeout.  Traffic of
  the other direction and timer events may come in between.
\<close>

section \<open>Messages\<close>

definition raw_message :: "nat \<Rightarrow> bytes \<Rightarrow> bool" where
  "raw_message maxPacketBytes m \<longleftrightarrow> isPlausibleRawHeader m maxPacketBytes \<and> length m = rawMessageLength m"

lemma message_long: "raw_message mx m \<Longrightarrow> SMP_HEADER_BYTES \<le> length m"
  by (simp add: raw_message_def isPlausibleRawHeader_def split: if_splits)

lemma message_nonempty: "raw_message mx m \<Longrightarrow> m \<noteq> []"
  using message_long [of mx m] by (auto simp: SMP_HEADER_BYTES_def)

text \<open>The header of a buffer that starts like a message is the header of the message.\<close>

lemma header_prefix:
  assumes "b @ rest = m @ xs" "SMP_HEADER_BYTES \<le> length b" "SMP_HEADER_BYTES \<le> length m"
  shows "isPlausibleRawHeader b mx = isPlausibleRawHeader m mx" "rawMessageLength b = rawMessageLength m"
proof -
  have n: "b ! i = m ! i" if "i < 8" for i
  proof -
    have "(b @ rest) ! i = (m @ xs) ! i" using assms(1) by simp
    then show ?thesis using that assms(2,3) by (simp add: nth_append SMP_HEADER_BYTES_def)
  qed
  show l: "rawMessageLength b = rawMessageLength m"
    using n [of 2] n [of 3] by (simp add: rawMessageLength_def readU16_def)
  show "isPlausibleRawHeader b mx = isPlausibleRawHeader m mx"
    using n [of 0] assms(2,3) by (simp add: isPlausibleRawHeader_def l)
qed

text \<open>With a whole message in the buffer the loop takes it; with less it stops.\<close>

lemma turn_takes_message:
  assumes "raw_message (sp_maxPacketBytes p) m" "buffer_of d p @ rest = m @ xs" "length m \<le> length (buffer_of d p)"
  shows "\<exists>rs q. raw_turn lib d p = Some (rs, q) \<and> same_states (with_dir d (consumeRawBytes (length m)) p) q \<and>
    wires q = wires p @ [(d, offset_of d p, m, Some (smp_header_of m), CrcNotApplicable)]"
proof -
  let ?b = "dn_rawBuffer (dir_state d p)"
  have len: "SMP_HEADER_BYTES \<le> length ?b" using assms(3) message_long [OF assms(1)] by (simp add: buffer_of_def)
  have h: "isPlausibleRawHeader ?b (sp_maxPacketBytes p)" "rawMessageLength ?b = length m"
    using header_prefix [OF assms(2) _ message_long [OF assms(1)]] assms(1) len by (simp_all add: buffer_of_def raw_message_def)
  have t: "take (length m) ?b = m"
    using assms(2,3) by (metis append_eq_append_conv_if append_eq_conv_conj buffer_of_def)
  have pos: "0 < length m" using message_nonempty [OF assms(1)] by simp
  from h obtain rs q where r: "raw_turn lib d p = Some (rs, q)"
    using len assms(3) by (fastforce simp: raw_turn_def Let_def buffer_of_def)
  from raw_turn_spec [OF r] obtain n h where n: "same_states (with_dir d (consumeRawBytes n) p) q"
      "wires q = wires p @ [(d, offset_of d p, take n (buffer_of d p), h)]" "n \<le> length (buffer_of d p)" by blast
  have "length (take n (buffer_of d p)) = length m \<and> h = (Some (smp_header_of m), CrcNotApplicable)"
  proof -
    let ?s = "dir_state d p"
    let ?c = "\<lparr>tx_direction = d, tx_timestamp = dn_rawTimestamp ?s, tx_captureSeq = dn_rawCaptureSeq ?s, tx_offset = dn_rawOffset ?s,
      tx_transportData = Some m, tx_crc = CrcNotApplicable, tx_diagnostics = []\<rparr>"
    have "decodeTransportPacket lib m ?c (with_dir d (consumeRawBytes (length m)) p) = (rs, q)"
      using r len h assms(3) t by (simp add: raw_turn_def Let_def sliceCopy_def buffer_of_def)
    moreover have "whole_message (sp_maxPacketBytes (with_dir d (consumeRawBytes (length m)) p)) m"
      using plausible_whole [OF h(1)] h(2) assms(3) t by (simp add: buffer_of_def)
    ultimately have "wires q = wires p @ [(d, dn_rawOffset ?s, m, Some (smp_header_of m), CrcNotApplicable)]" using decode_whole_wires(1) [where lib = lib and ctx = ?c] by fastforce
    then show ?thesis using n(2) by simp
  qed
  then have "n = length m" "h = (Some (smp_header_of m), CrcNotApplicable)" using n(3) by simp_all
  then show ?thesis using r n t by (auto simp: buffer_of_def)
qed

lemma turn_waits:
  assumes "raw_message (sp_maxPacketBytes p) m" "buffer_of d p @ rest = m @ xs" "length (buffer_of d p) < length m"
  shows "raw_turn lib d p = None"
proof (cases "length (buffer_of d p) < SMP_HEADER_BYTES")
  case True
  then show ?thesis by (simp add: raw_turn_def Let_def buffer_of_def)
next
  case False
  then have h: "isPlausibleRawHeader (buffer_of d p) (sp_maxPacketBytes p)" "rawMessageLength (buffer_of d p) = length m"
    using header_prefix [OF assms(2) _ message_long [OF assms(1)]] assms(1) by (simp_all add: raw_message_def)
  then show ?thesis using assms(3) by (simp add: raw_turn_def Let_def buffer_of_def)
qed

text \<open>What is left after the loop: \<open>xs\<close> are the messages not completed, the first of which may
  be in the buffer in part.\<close>

definition partial_message :: "bytes \<Rightarrow> bytes list \<Rightarrow> bool" where
  "partial_message buffer ms \<longleftrightarrow> (case ms of [] \<Rightarrow> buffer = [] | m # _ \<Rightarrow> length buffer < length m)"

abbreviation decoded :: "bytes list \<Rightarrow> (bytes \<times> smp_header option \<times> crc_status) list" where
  "decoded ms \<equiv> map (\<lambda>m. (m, Some (smp_header_of m), CrcNotApplicable)) ms"

lemma loop_messages:
  "\<forall>m\<in>set ms. raw_message (sp_maxPacketBytes p) m \<Longrightarrow> buffer_of d p @ rest = concat ms \<Longrightarrow>
    \<exists>taken left. ms = taken @ left \<and> data_of d (snd (feed_raw_loop lib d p)) = data_of d p @ decoded taken \<and>
      buffer_of d (snd (feed_raw_loop lib d p)) @ rest = concat left \<and> partial_message (buffer_of d (snd (feed_raw_loop lib d p))) left"
proof (induction ms arbitrary: p)
  case Nil
  then have "raw_turn lib d p = None" by (simp add: raw_turn_def Let_def buffer_of_def SMP_HEADER_BYTES_def)
  then have "feed_raw_loop lib d p = ([], p)" by (subst feed_raw_loop.simps) simp
  then show ?case using Nil by (simp add: partial_message_def)
next
  case (Cons m ms)
  then have m: "raw_message (sp_maxPacketBytes p) m" "buffer_of d p @ rest = m @ concat ms" by simp_all
  show ?case
  proof (cases "length m \<le> length (buffer_of d p)")
    case False
    then have "raw_turn lib d p = None" using turn_waits [OF m] by simp
    then have "feed_raw_loop lib d p = ([], p)" by (subst feed_raw_loop.simps) simp
    then show ?thesis using Cons.prems False by (intro exI [of _ "[]"] exI [of _ "m # ms"]) (simp add: partial_message_def)
  next
    case True
    obtain rs q where q: "raw_turn lib d p = Some (rs, q)" "same_states (with_dir d (consumeRawBytes (length m)) p) q"
        "wires q = wires p @ [(d, offset_of d p, m, Some (smp_header_of m), CrcNotApplicable)]"
      using turn_takes_message [OF m True] by blast
    have "buffer_of d q = drop (length m) (buffer_of d p)" using same_states_dir [OF q(2), of d] by (simp add: buffer_of_def)
    moreover have "drop (length m) (buffer_of d p) @ rest = concat ms" using m(2) True by (metis append_eq_append_conv_if append_eq_conv_conj drop_append diff_is_0_eq drop0)
    moreover have "sp_maxPacketBytes q = sp_maxPacketBytes p" using q(2) by (simp add: same_states_def)
    ultimately obtain taken left where t: "ms = taken @ left" "data_of d (snd (feed_raw_loop lib d q)) = data_of d q @ decoded taken"
        "buffer_of d (snd (feed_raw_loop lib d q)) @ rest = concat left" "partial_message (buffer_of d (snd (feed_raw_loop lib d q))) left"
      using Cons.IH [of q] Cons.prems(1) by (auto simp del: append_eq_append_conv)
    have "snd (feed_raw_loop lib d p) = snd (feed_raw_loop lib d q)" using q(1) by (subst feed_raw_loop.simps) (simp add: split_beta)
    moreover have "data_of d q = data_of d p @ decoded [m]" by (simp add: q(3) of_direction_snoc)
    ultimately show ?thesis using t by (intro exI [of _ "m # taken"] exI [of _ left]) simp
  qed
qed

lemma raw_loop_data: "e \<noteq> d \<Longrightarrow> data_of e (snd (feed_raw_loop lib d p)) = data_of e p"
  by (rule raw_loop_rule [where P = "\<lambda>q. data_of e q = data_of e p"]) (simp_all add: of_direction_snoc)

section \<open>The time of the last bytes\<close>

definition received_at :: "int \<Rightarrow> direction_state \<Rightarrow> bool" where
  "received_at t s \<longleftrightarrow> dn_rawBuffer s \<noteq> [] \<longrightarrow>
     dn_rawLastTimestamp s = t \<and> (dn_rawSegments s = [] \<or> rg_timestamp (last (dn_rawSegments s)) = t)"

lemma last_dropWhile: "dropWhile f xs \<noteq> [] \<Longrightarrow> last (dropWhile f xs) = last xs"
  by (metis append_Nil2 last_append takeWhile_dropWhile_id)

lemma consume_segments:
  assumes "drop n (dn_rawBuffer s) \<noteq> []"
  defines "gs \<equiv> dropWhile (\<lambda>g. rg_endOffset g \<le> dn_rawOffset s + n) (dn_rawSegments s)"
  shows "dn_rawSegments (consumeRawBytes n s) = gs"
    "dn_rawLastTimestamp (consumeRawBytes n s) = (if gs = [] then dn_rawLastTimestamp s else rg_timestamp (last gs))"
  using assms(1) by (simp_all add: consumeRawBytes_def Let_def gs_def del: dropWhile_eq_Nil_conv split: list.split)

lemma received_consume: "received_at t s \<Longrightarrow> received_at t (consumeRawBytes n s)"
proof (cases "drop n (dn_rawBuffer s) = []")
  case False
  assume r: "received_at t s"
  let ?gs = "dropWhile (\<lambda>g. rg_endOffset g \<le> dn_rawOffset s + n) (dn_rawSegments s)"
  have "dn_rawBuffer s \<noteq> []" using False by auto
  moreover have "?gs \<noteq> [] \<Longrightarrow> last ?gs = last (dn_rawSegments s) \<and> dn_rawSegments s \<noteq> []"
    using last_dropWhile [of _ "dn_rawSegments s"] by auto
  ultimately show ?thesis using r by (auto simp: received_at_def consume_segments [OF False] simp del: dropWhile_eq_Nil_conv)
qed (simp add: received_at_def)

lemma received_loop: "received_at t (dir_state d p) \<Longrightarrow> received_at t (dir_state d (snd (feed_raw_loop lib d p)))"
  by (erule raw_loop_rule) (simp add: same_states_dir received_consume)

lemma received_now: "received_at (tc_timestamp c) (raw_receive c k s)"
  by (simp add: received_at_def raw_receive_def Let_def)

section \<open>Quiet timers\<close>

text \<open>A timer call leaves a direction alone unless its buffer holds bytes and has stalled.\<close>

definition quiet :: "smp_direction \<Rightarrow> int \<Rightarrow> smp_parser \<Rightarrow> bool" where
  "quiet d now p \<longleftrightarrow> dn_rawBuffer (dir_state d p) = [] \<or> now - dn_rawLastTimestamp (dir_state d p) < sp_reassemblyTimeoutMs p"

lemma flush_raw_quiet:
  "quiet d now p \<Longrightarrow> flush_raw now d p = ([], p)"
  unfolding flush_raw_def Let_def by (rule if_not_P) (auto simp: quiet_def)

lemma flush_raw_other:
  assumes "e \<noteq> d"
  shows "dir_state e (snd (flush_raw now d p)) = dir_state e p" "data_of e (snd (flush_raw now d p)) = data_of e p"
    "sp_reassemblyTimeoutMs (snd (flush_raw now d p)) = sp_reassemblyTimeoutMs p"
proof -
  let ?s = "dir_state d p"
  obtain i p1 where t: "transportErrorRecord d (dn_rawTimestamp ?s) (dn_rawCaptureSeq ?s) (dn_rawOffset ?s) (dn_rawBuffer ?s)
      ''smp.raw.timeout'' SevError p = (i, p1)" by (metis surj_pair)
  note e = same_error [of p d "dn_rawTimestamp ?s" "dn_rawCaptureSeq ?s" "dn_rawOffset ?s" "dn_rawBuffer ?s" "''smp.raw.timeout''" SevError p]
    wires_error(1) [of d "dn_rawTimestamp ?s" "dn_rawCaptureSeq ?s" "dn_rawOffset ?s" "dn_rawBuffer ?s" "''smp.raw.timeout''" SevError p]
  have s: "same_states p p1" "wires p1 = wires p @ [(d, dn_rawOffset ?s, dn_rawBuffer ?s, error_tag p)]" using e by (simp_all add: t)
  show "dir_state e (snd (flush_raw now d p)) = dir_state e p" "data_of e (snd (flush_raw now d p)) = data_of e p"
    "sp_reassemblyTimeoutMs (snd (flush_raw now d p)) = sp_reassemblyTimeoutMs p"
    using s assms by (simp_all add: flush_raw_def Let_def t same_states_dir of_direction_snoc) (simp add: same_states_def)
qed

lemma flush_quiet:
  assumes "raw_only p" "quiet d now p"
  shows "dir_state d (snd (flushExpired now p)) = dir_state d p" "data_of d (snd (flushExpired now p)) = data_of d p"
    "sp_reassemblyTimeoutMs (snd (flushExpired now p)) = sp_reassemblyTimeoutMs p"
proof -
  let ?p2 = "snd (flush_raw now RX (snd (flush_raw now TX p)))"
  have f: "snd (flushExpired now p) = expirePendingRequests now ?p2"
    by (simp add: flushExpired_def flush_direction_def flush_console_raw [OF assms(1)] flush_console_raw [OF raw_only_flush [OF assms(1)]] split_beta)
  have s: "same_states ?p2 (expirePendingRequests now ?p2)" by simp
  have "dir_state d ?p2 = dir_state d p \<and> data_of d ?p2 = data_of d p \<and> sp_reassemblyTimeoutMs ?p2 = sp_reassemblyTimeoutMs p"
  proof (cases d)
    case TX
    then show ?thesis using flush_raw_quiet [of TX now p] assms(2) flush_raw_other [of TX RX now p] by simp
  next
    case RX
    have o: "quiet RX now (snd (flush_raw now TX p))" using assms(2) RX flush_raw_other [of RX TX now p] by (simp add: quiet_def)
    show ?thesis using flush_raw_quiet [OF o] flush_raw_other [of RX TX now p] RX by simp
  qed
  then show "dir_state d (snd (flushExpired now p)) = dir_state d p" "data_of d (snd (flushExpired now p)) = data_of d p"
    "sp_reassemblyTimeoutMs (snd (flushExpired now p)) = sp_reassemblyTimeoutMs p"
    using s same_states_dir [OF s] by (simp_all add: f same_states_def)
qed

section \<open>The stream of messages\<close>

text \<open>Whether a stream of messages is inside a message after \<open>n\<close> bytes, and whether no message
  stalls: at every event that finds it inside a message, the last bytes are newer than the timeout.\<close>

fun mid_message :: "bytes list \<Rightarrow> nat \<Rightarrow> bool" where
  "mid_message [] n = False"
| "mid_message (m # ms) n = (if n < length m then 0 < n else mid_message ms (n - length m))"

fun event_time :: "smp_event \<Rightarrow> int" where
  "event_time (SmpFeed c) = tc_timestamp c"
| "event_time (SmpFlush now) = now"

fun no_stall :: "smp_direction \<Rightarrow> int \<Rightarrow> bytes list \<Rightarrow> nat \<Rightarrow> int \<Rightarrow> smp_event list \<Rightarrow> bool" where
  "no_stall d timeout ms n since [] = True"
| "no_stall d timeout ms n since (ev # evs) =
     ((\<not> mid_message ms n \<or> event_time ev - since < timeout) \<and>
      no_stall d timeout ms (n + length (smp_fed d ev)) (if smp_fed d ev = [] then since else event_time ev) evs)"

lemma mid_partial: "partial_message b left \<Longrightarrow> mid_message (taken @ left) (length (concat taken) + length b) \<longleftrightarrow> b \<noteq> []"
proof (induction taken)
  case Nil
  then show ?case by (cases left) (auto simp: partial_message_def)
next
  case (Cons m taken)
  then show ?case by (simp add: add.assoc)
qed

definition framed :: "smp_direction \<Rightarrow> bytes list \<Rightarrow> bytes \<Rightarrow> int \<Rightarrow> bytes \<Rightarrow> smp_parser \<Rightarrow> bool" where
  "framed d ms fed since rest p \<longleftrightarrow> raw_ok p \<and> raw_covers d fed p \<and> (\<forall>m\<in>set ms. raw_message (sp_maxPacketBytes p) m) \<and>
     (\<exists>full left. ms = full @ left \<and> data_of d p = decoded full \<and> buffer_of d p @ rest = concat left \<and> partial_message (buffer_of d p) left) \<and>
     received_at since (dir_state d p)"

lemma framed_quiet:
  assumes "framed d ms fed since rest p" "\<not> mid_message ms (length fed) \<or> now - since < sp_reassemblyTimeoutMs p"
  shows "quiet d now p"
proof -
  from assms(1) obtain full left where l: "ms = full @ left" "data_of d p = decoded full" "partial_message (buffer_of d p) left" by (auto simp: framed_def)
  have "map wire_data (of_direction d (wires p)) = map fst (data_of d p)" by (auto simp: fun_eq_iff)
  also have "\<dots> = full" by (simp add: l(2) comp_def)
  finally have "map wire_data (of_direction d (wires p)) = full" .
  moreover have "fed = concat (map wire_data (of_direction d (wires p))) @ buffer_of d p"
    using assms(1) by (simp add: framed_def raw_covers_def)
  ultimately have "length fed = length (concat full) + length (buffer_of d p)" by simp
  then have "mid_message ms (length fed) \<longleftrightarrow> buffer_of d p \<noteq> []" using mid_partial [OF l(3), of "full"] l(1) by simp
  then show ?thesis using assms by (auto simp: quiet_def framed_def received_at_def buffer_of_def)
qed

lemma framed_flush:
  assumes "framed d ms fed since rest p" "quiet d now p"
  shows "framed d ms fed since rest (snd (flushExpired now p))"
proof -
  have ok: "raw_ok p" "raw_covers d fed p" using assms(1) by (simp_all add: framed_def)
  then have o: "raw_only p" by (simp add: raw_ok_def)
  have s: "raw_ok (snd (flushExpired now p))" "raw_covers d fed (snd (flushExpired now p))"
    "sp_maxPacketBytes (snd (flushExpired now p)) = sp_maxPacketBytes p"
    using raw_step [OF ok, where ev = "SmpFlush now"] by simp_all
  show ?thesis using assms(1) s flush_quiet(1,2) [OF o assms(2)] by (simp add: framed_def buffer_of_def)
qed

lemma framed_feed:
  assumes f: "framed d ms fed since (smp_fed d ev @ rest) p" and n: "\<not> mid_message ms (length fed) \<or> event_time ev - since < sp_reassemblyTimeoutMs p"
  shows "framed d ms (fed @ smp_fed d ev) (if smp_fed d ev = [] then since else event_time ev) rest (smp_step lib ev p) \<and>
    sp_reassemblyTimeoutMs (smp_step lib ev p) = sp_reassemblyTimeoutMs p"
proof -
  let ?p1 = "snd (flushExpired (event_time ev) p)"
  have o: "raw_only p" using f by (simp add: framed_def raw_ok_def)
  have q: "quiet d (event_time ev) p" by (rule framed_quiet [OF f n])
  have f1: "framed d ms fed since (smp_fed d ev @ rest) ?p1" by (rule framed_flush [OF f q])
  have t1: "sp_reassemblyTimeoutMs ?p1 = sp_reassemblyTimeoutMs p" by (rule flush_quiet(3) [OF o q])
  consider "smp_step lib ev p = ?p1" "smp_fed d ev = []" | c where "ev = SmpFeed c" "tc_data c \<noteq> []"
    by (cases ev) (fastforce simp: feed_smp_def)+
  then show ?thesis
  proof cases
    case 1
    then show ?thesis using f1 t1 by simp
  next
    case (2 c)
    let ?e = "tc_direction c"
    let ?a = "raw_arrival c ?p1"
    let ?r = "snd (feed_raw_loop lib ?e ?a)"
    have r: "smp_step lib ev p = ?r" using feed_raw_mode [OF o 2(2)] 2(1) by simp
    have ok: "raw_ok p" "raw_covers d fed p" using f by (simp_all add: framed_def)
    have s: "raw_ok ?r" "raw_covers d (fed @ smp_fed d ev) ?r" "sp_maxPacketBytes ?r = sp_maxPacketBytes p"
      using raw_step [OF ok, where lib = lib and ev = ev] by (simp_all add: r)
    have tr: "sp_reassemblyTimeoutMs ?r = sp_reassemblyTimeoutMs p"
      using raw_loop_config [of lib ?e ?a] t1 by (simp add: raw_arrival_def)
    have ma: "sp_maxPacketBytes ?a = sp_maxPacketBytes p" using s(3) by (simp add: raw_loop_config)
    have da: "data_of d ?a = data_of d ?p1" by (simp add: raw_arrival_def)
    from f1 obtain full left where l: "ms = full @ left" "buffer_of d ?p1 @ smp_fed d ev @ rest = concat left"
        "partial_message (buffer_of d ?p1) left" "data_of d ?p1 = decoded full" by (auto simp: framed_def)
    show ?thesis
    proof (cases "?e = d")
      case True
      have b: "buffer_of d ?a @ rest = concat left" using l(2) 2 True by (simp add: raw_arrival_def buffer_of_def)
      have "\<forall>m\<in>set left. raw_message (sp_maxPacketBytes ?a) m" using f l(1) by (auto simp: framed_def ma)
      from loop_messages [OF this b] obtain taken left' where t:
        "left = taken @ left'" "data_of d ?r = data_of d ?a @ decoded taken" "buffer_of d ?r @ rest = concat left'" "partial_message (buffer_of d ?r) left'"
        unfolding True by blast
      have "received_at (tc_timestamp c) (dir_state d ?r)"
        using received_loop [of "tc_timestamp c" d ?a lib] received_now True by (simp add: raw_arrival_def)
      moreover have "ms = (full @ taken) @ left'" "data_of d ?r = decoded (full @ taken)" using l(1,4) t(1,2) da by simp_all
      moreover have "\<forall>m\<in>set ms. raw_message (sp_maxPacketBytes ?r) m" using f s(3) by (simp add: framed_def)
      ultimately have "framed d ms (fed @ smp_fed d ev) (tc_timestamp c) rest ?r"
        unfolding framed_def using s(1,2) t(3,4) by blast
      then show ?thesis unfolding r using tr 2 True by simp
    next
      case False
      have "dir_state d ?r = dir_state d ?p1" using raw_loop_other [of d ?e lib ?a] False by (simp add: raw_arrival_def)
      moreover have "data_of d ?r = data_of d ?p1"
        using raw_loop_data [of d ?e lib ?a] False by (simp add: da)
      moreover have "sp_maxPacketBytes ?p1 = sp_maxPacketBytes ?r" using raw_step(3) [OF ok, where ev = "SmpFlush (event_time ev)"] s(3) by simp
      moreover have "smp_fed d ev = []" using 2 False by simp
      ultimately have "framed d ms (fed @ smp_fed d ev) since rest ?r"
        using f1 s(1,2) by (simp add: framed_def buffer_of_def)
      then show ?thesis unfolding r using tr \<open>smp_fed d ev = []\<close> by simp
    qed
  qed
qed

lemma framed_events:
  assumes "framed d ms fed since (concat (map (smp_fed d) evs)) p" "no_stall d (sp_reassemblyTimeoutMs p) ms (length fed) since evs"
  shows "\<exists>since'. framed d ms (fed @ concat (map (smp_fed d) evs)) since' [] (fold (smp_step lib) evs p)"
  using assms
proof (induction evs arbitrary: fed since p)
  case Nil
  then show ?case by auto
next
  case (Cons ev evs)
  let ?q = "smp_step lib ev p"
  let ?since = "if smp_fed d ev = [] then since else event_time ev"
  have n: "\<not> mid_message ms (length fed) \<or> event_time ev - since < sp_reassemblyTimeoutMs p"
    "no_stall d (sp_reassemblyTimeoutMs p) ms (length (fed @ smp_fed d ev)) ?since evs"
    using Cons.prems(2) by simp_all
  have f: "framed d ms fed since (smp_fed d ev @ concat (map (smp_fed d) evs)) p" using Cons.prems(1) by simp
  from framed_feed [OF f n(1), of lib] have q: "framed d ms (fed @ smp_fed d ev) ?since (concat (map (smp_fed d) evs)) ?q"
    "sp_reassemblyTimeoutMs ?q = sp_reassemblyTimeoutMs p" by blast+
  from Cons.IH [OF q(1)] n(2) q(2) show ?case by simp
qed

text \<open>C34. A Raw UART stream of whole messages is cut back into exactly those messages, each decoded
  with its own header, in order, with nothing left in the buffer: wherever the chunks are cut,
  whatever the other direction receives and whenever timers fire, as long as no event finds the
  stream inside a message whose last bytes are older than the reassembly timeout.
\<close>

theorem smp_raw_messages:
  assumes "new_smp_parser (Some RawUart) maxPacket timeout = Inr p0"
    "list_all (raw_message (sp_maxPacketBytes p0)) messages"
    "concat (map (smp_fed d) events) = concat messages"
    "no_stall d (sp_reassemblyTimeoutMs p0) messages 0 0 events"
    "p = fold (smp_step lib) events p0"
  shows "map wire_message (of_direction d (wires p)) = map (\<lambda>m. (m, Some (smp_header_of m), CrcNotApplicable)) messages \<and>
    dn_rawBuffer (dir_state d p) = []"
proof -
  have "dir_state d p0 = createDirectionState" "sp_records p0 = []"
    using assms(1) by (cases d; auto simp: new_smp_parser_def split: if_splits)+
  then have "framed d messages [] 0 (concat (map (smp_fed d) events)) p0"
    using new_raw_ok [OF assms(1)] assms(2,3) message_nonempty [of "sp_maxPacketBytes p0" "[]"]
    by (auto simp: framed_def received_at_def createDirectionState_def buffer_of_def wires_def of_direction_def partial_message_def
        list_all_iff split: list.split)
  from framed_events [OF this, of lib] assms(4,5) obtain since where
    "framed d messages (concat (map (smp_fed d) events)) since [] p" by auto
  then obtain full left where "messages = full @ left" "data_of d p = decoded full" "buffer_of d p = concat left"
      "partial_message (buffer_of d p) left" by (auto simp: framed_def)
  moreover from this(3,4) have "left = []" by (cases left) (simp_all add: partial_message_def)
  ultimately show ?thesis by (simp add: buffer_of_def)
qed

theorem smp_raw_messages_witness:
  "let p = fold (smp_step example_lib) example_raw_events example_raw_parser in
     map wire_message (of_direction RX (wires p)) =
       [([2, 0, 0, 1, 0, 0, 7, 0, 160], Some (smp_header_of [2, 0, 0, 1, 0, 0, 7, 0, 160]), CrcNotApplicable),
        ([1, 0, 0, 0, 0, 1, 8, 2], Some (smp_header_of [1, 0, 0, 0, 0, 1, 8, 2]), CrcNotApplicable)] \<and>
     dn_rawBuffer (dir_state RX p) = []"
proof -
  have "list_all (raw_message 16) example_raw_messages"
    by (simp add: raw_message_def isPlausibleRawHeader_def rawMessageLength_def readU16_def SMP_HEADER_BYTES_def)
  then show ?thesis
    using smp_raw_messages [OF example_raw_new, of example_raw_messages RX example_raw_events _ example_lib] by (simp del: fold.simps)
qed

end
