(* ===== verification/SmpConsole.thy ===== *)
theory SmpConsole
  imports SmpStore SmpRawFrames
begin

text \<open>
  Serial Console: a packet sent as console lines comes out as exactly that packet with a valid
  check, however it is split into fragments and the lines into chunks.
\<close>

section \<open>The sender\<close>

text \<open>A packet travels as its length plus two, the packet and its CRC-16/XMODEM, cut into
  fragments; each fragment is a line: a marker, the fragment in base64, and the end of line.\<close>

definition smp_be16 :: "nat \<Rightarrow> bytes" where
  "smp_be16 n = [word_of_nat (n div 256), word_of_nat (n mod 256)]"

definition console_body :: "bytes \<Rightarrow> bytes" where
  "console_body packet = smp_be16 (length packet + 2) @ packet @ smp_be16 (nat (crc16Xmodem packet))"

definition wire_text :: "bytes \<Rightarrow> bytes" where
  "wire_text fragment = map (\<lambda>c. word_of_nat (of_char c)) (bytesToBase64 fragment)"

definition line_marker :: "bool \<Rightarrow> bytes" where
  "line_marker initial = (if initial then [6, 9] else [4, 20])"

definition console_frame :: "bool \<Rightarrow> bool \<Rightarrow> bytes \<Rightarrow> bytes" where
  "console_frame cr initial fragment = line_marker initial @ wire_text fragment @ (if cr then [13] else []) @ [10]"

fun console_frames :: "bool \<Rightarrow> bool \<Rightarrow> bytes list \<Rightarrow> bytes list" where
  "console_frames cr initial [] = []"
| "console_frames cr initial (f # fs) = console_frame cr initial f # console_frames cr False fs"

section \<open>One line\<close>

definition text_char :: "char \<Rightarrow> bool" where
  "text_char c \<longleftrightarrow> code c < 128 \<and> code c \<noteq> 10 \<and> code c \<noteq> 13 \<and> \<not> is_space c"

lemma b64_text: "n < 64 \<Longrightarrow> text_char (b64_char n)" "text_char (CHR ''='')"
  by (auto simp: b64_code text_char_def is_space_def pad_code)

lemma btoa_text: "c \<in> set (btoa bs) \<Longrightarrow> text_char c"
proof (induction bs rule: btoa.induct)
  case (2 a)
  then show ?case using b64_text sextets(1,5) [OF unat_byte [of a] unat_byte [of a] unat_byte [of a]] by auto
next
  case (3 a b)
  then show ?case using b64_text sextets(1,2,6) [OF unat_byte [of a] unat_byte [of b] unat_byte [of b]] by auto
next
  case (4 a b c bs)
  then show ?case using b64_text sextets(1-4) [OF unat_byte [of a] unat_byte [of b] unat_byte [of c]] by auto
qed simp

lemma wire_text_bytes: "b \<in> set (wire_text f) \<Longrightarrow> b \<noteq> 10 \<and> b \<noteq> 13"
proof -
  assume "b \<in> set (wire_text f)"
  then obtain c where c: "c \<in> set (btoa f)" "b = word_of_nat (code c)" by (auto simp: wire_text_def bytesToBase64_eq code_def)
  then have "code c < 256" "code c \<noteq> 10" "code c \<noteq> 13" using btoa_text [OF c(1)] by (simp_all add: text_char_def)
  then have "unat b \<noteq> 10" "unat b \<noteq> 13" using c(2) by (simp_all add: unat_of_nat)
  then show "b \<noteq> 10 \<and> b \<noteq> 13" by auto
qed

lemma decode_wire_text: "decode_fragment (wire_text f) = Some f"
proof -
  have t: "\<not> is_space c \<and> char_of (unat (word_of_nat (of_char c) :: byte)) = c" if "c \<in> set (btoa f)" for c
    using btoa_text [OF that] by (simp add: text_char_def code_def unat_of_nat)
  have "map (\<lambda>b. char_of (unat b)) (wire_text f) = btoa f"
    using t by (simp add: wire_text_def bytesToBase64_eq o_def map_idI)
  moreover have "filter (\<lambda>c. \<not> is_space c) (btoa f) = btoa f" using t by simp
  ultimately show ?thesis by (simp add: decode_fragment_def base64ToBytes_eq canonical_btoa atob_btoa)
qed

lemma find_marker: "findConsoleMarker (line_marker initial @ xs) = Some (initial, 0)"
  by (simp add: line_marker_def)

lemma line_marker_drop: "drop (Suc (Suc 0)) (line_marker initial @ xs) = xs"
  by (simp add: line_marker_def)

lemma consume_initial:
  assumes "dn_console (dir_state d p) = None" "2 \<le> length f" "SMP_HEADER_BYTES + 2 \<le> readU16 f 0" "readU16 f 0 \<le> sp_maxPacketBytes p + 2"
  shows "consumeConsoleLine lib d (line_marker True @ wire_text f) wire lc depth p =
    console_complete lib d (with_dir d (\<lambda>s. s\<lparr>dn_console := Some \<lparr>ca_expectedBytes = readU16 f 0, ca_body = drop 2 f,
      ca_wireParts = [wire], ca_timestamp = lc_timestamp lc, ca_captureSeq = lc_captureSeq lc, ca_offset = lc_offset lc,
      ca_lastTimestamp = lc_now lc\<rparr>\<rparr>) p)"
proof -
  have "console_begin d (line_marker True @ wire_text f) 0 p = ([], p)" by (simp add: console_begin_def assms(1))
  then show ?thesis using assms(2-4)
    by (subst consumeConsoleLine.simps) (simp add: find_marker console_line_def line_marker_drop decode_wire_text Let_def split_beta del: drop_append)
qed

lemma consume_next:
  assumes "dn_console (dir_state d p) = Some a"
  shows "consumeConsoleLine lib d (line_marker False @ wire_text f) wire lc depth p =
    console_complete lib d (with_dir d (\<lambda>s. s\<lparr>dn_console := Some (a\<lparr>ca_body := ca_body a @ f,
      ca_wireParts := ca_wireParts a @ [wire], ca_lastTimestamp := lc_now lc\<rparr>)\<rparr>) p)"
proof -
  have "console_begin d (line_marker False @ wire_text f) 0 p = ([], p)" by (simp add: console_begin_def assms(1) find_marker)
  then show ?thesis
    by (subst consumeConsoleLine.simps) (simp add: find_marker console_line_def line_marker_drop decode_wire_text Let_def split_beta assms del: drop_append)
qed

section \<open>The end of a packet\<close>

lemma complete_waits:
  "dn_console (dir_state d p) = Some a \<Longrightarrow> length (ca_body a) < ca_expectedBytes a \<Longrightarrow> console_complete lib d p = ([], p)"
  by (simp add: console_complete_def)

lemma mask_range: "0 \<le> js_and x 65535 \<and> js_and x 65535 < 65536"
  by (simp add: js_and_lit)

lemma xmodem_range: "0 \<le> crc16Xmodem bs \<and> crc16Xmodem bs < 65536"
proof -
  have bit: "0 \<le> xmodem_bit c \<and> xmodem_bit c < 65536" for c using mask_range by (simp add: xmodem_bit_def)
  have byte: "0 \<le> xmodem_byte c b \<and> xmodem_byte c b < 65536" for c b
    using bit [of "(xmodem_bit ^^ 7) (js_xor c (js_shl (uint b) 8))"] by (simp add: xmodem_byte_def eval_nat_numeral)
  show ?thesis unfolding crc16Xmodem_def by (induction bs rule: rev_induct) (simp_all add: byte)
qed

lemma readU16_smp_be16: "n < 65536 \<Longrightarrow> readU16 (xs @ smp_be16 n) (length xs) = n"
  by (simp add: readU16_def smp_be16_def nth_append unat_of_nat)

lemma complete_packet:
  assumes "dn_console (dir_state d p) = Some a" "ca_body a = packet @ smp_be16 (nat (crc16Xmodem packet))" "ca_expectedBytes a = length packet + 2"
    "whole_message (sp_maxPacketBytes p) packet"
  shows "data_of d (snd (console_complete lib d p)) = data_of d p @ [(packet, Some (smp_header_of packet), CrcValid)]"
    "dn_console (dir_state d (snd (console_complete lib d p))) = None"
proof -
  let ?c = "nat (crc16Xmodem packet)"
  let ?p = "with_dir d (\<lambda>s. s\<lparr>dn_console := None\<rparr>) p"
  have "?c < 65536" using xmodem_range [of packet] by auto
  then have r: "readU16 (packet @ smp_be16 ?c) (length packet) = ?c" by (rule readU16_smp_be16)
  have l: "length (smp_be16 ?c) = 2" by (simp add: smp_be16_def)
  have ok: "crc16Xmodem packet = int ?c" using xmodem_range [of packet] by simp
  let ?ctx = "\<lparr>tx_direction = d, tx_timestamp = ca_timestamp a, tx_captureSeq = ca_captureSeq a, tx_offset = ca_offset a,
    tx_transportData = Some (concat (ca_wireParts a)), tx_crc = CrcValid, tx_diagnostics = []\<rparr>"
  have c: "console_complete lib d p = decodeTransportPacket lib packet ?ctx ?p"
    using assms(1-3) r l ok by (simp add: console_complete_def Let_def console_diagnostics_def)
  have w: "whole_message (sp_maxPacketBytes ?p) packet" using assms(4) by simp
  show "data_of d (snd (console_complete lib d p)) = data_of d p @ [(packet, Some (smp_header_of packet), CrcValid)]"
    unfolding c decode_whole_wires(1) [OF w] by (simp add: of_direction_def)
  have "same_states ?p (snd (decodeTransportPacket lib packet ?ctx ?p))"
    unfolding decodeTransportPacket_def by (rule same_packet) simp
  then show "dn_console (dir_state d (snd (console_complete lib d p))) = None" by (simp add: c same_states_dir)
qed

section \<open>One fragment after the other\<close>

definition fragments :: "bytes \<Rightarrow> bytes list \<Rightarrow> bool" where
  "fragments packet fs \<longleftrightarrow> concat fs = console_body packet \<and> [] \<notin> set fs \<and> (case fs of [] \<Rightarrow> False | f # _ \<Rightarrow> 2 \<le> length f)"

text \<open>The assembly after the fragments \<open>got\<close>, with \<open>left\<close> to come.\<close>

definition assembling :: "bytes \<Rightarrow> bytes list \<Rightarrow> bytes list \<Rightarrow> direction_state \<Rightarrow> bool" where
  "assembling packet got left s \<longleftrightarrow>
     (if got = [] \<or> left = [] then dn_console s = None
      else \<exists>a. dn_console s = Some a \<and> ca_expectedBytes a = length packet + 2 \<and> ca_body a = drop 2 (concat got))"

definition sendable :: "nat \<Rightarrow> bytes \<Rightarrow> bool" where
  "sendable maxPacketBytes packet \<longleftrightarrow> whole_message maxPacketBytes packet \<and> length packet + 2 < 65536"

lemma body_split:
  assumes "fragments packet (got @ f # left)"
  shows "left \<noteq> [] \<Longrightarrow> length (drop 2 (concat (got @ [f]))) < length packet + 2"
    "left = [] \<Longrightarrow> drop 2 (concat (got @ [f])) = packet @ smp_be16 (nat (crc16Xmodem packet))"
    "got = [] \<Longrightarrow> length packet + 2 < 65536 \<Longrightarrow> 2 \<le> length f \<and> readU16 f 0 = length packet + 2"
    "got \<noteq> [] \<Longrightarrow> drop 2 (concat got) @ f = drop 2 (concat (got @ [f]))"
proof -
  have c: "concat (got @ [f]) @ concat left = console_body packet" "[] \<notin> set left" and hd2: "case got @ f # left of [] \<Rightarrow> False | f # _ \<Rightarrow> 2 \<le> length f"
    using assms by (simp_all add: fragments_def)
  have l: "length (console_body packet) = length packet + 4" by (simp add: console_body_def smp_be16_def)
  have two: "drop 2 (console_body packet) = packet @ smp_be16 (nat (crc16Xmodem packet))" by (simp add: console_body_def smp_be16_def)
  show "length (drop 2 (concat (got @ [f]))) < length packet + 2" if "left \<noteq> []"
  proof -
    have "0 < length (concat left)" using that c(2) by (cases left) auto
    then have "length (concat (got @ [f])) < length packet + 4" using c(1) l by (metis add_less_cancel_left add.commute length_append less_add_same_cancel1)
    then show ?thesis unfolding length_drop by linarith
  qed
  show "drop 2 (concat (got @ [f])) = packet @ smp_be16 (nat (crc16Xmodem packet))" if "left = []"
    using that c(1) two by simp
  show "2 \<le> length f \<and> readU16 f 0 = length packet + 2" if "got = []" "length packet + 2 < 65536"
  proof -
    have f: "2 \<le> length f" using hd2 that by simp
    then obtain x y zs where xy: "f = x # y # zs" by (metis One_nat_def Suc_1 Suc_le_length_iff)
    have "x = word_of_nat ((length packet + 2) div 256)" "y = word_of_nat ((length packet + 2) mod 256)"
      using c(1) that xy by (simp_all add: console_body_def smp_be16_def)
    moreover have "unat (word_of_nat ((length packet + 2) div 256) :: byte) = (length packet + 2) div 256"
      "unat (word_of_nat ((length packet + 2) mod 256) :: byte) = (length packet + 2) mod 256"
      using that(2) by (simp_all add: unat_of_nat less_mult_imp_div_less)
    ultimately have "readU16 f 0 = (length packet + 2) div 256 * 256 + (length packet + 2) mod 256" by (simp add: readU16_def xy)
    then show ?thesis using f by simp
  qed
  show "drop 2 (concat got) @ f = drop 2 (concat (got @ [f]))" if "got \<noteq> []"
    using that hd2 by (cases got) auto
qed

lemma fragment_line:
  assumes fs: "fragments packet (got @ f # left)" and ok: "sendable (sp_maxPacketBytes p) packet"
    and a: "assembling packet got (f # left) (dir_state d p)"
    and r: "r = snd (consumeConsoleLine lib d (line_marker (got = []) @ wire_text f) wire lc depth p)"
  shows "assembling packet (got @ [f]) left (dir_state d r)"
    "data_of d r = data_of d p @ (if left = [] then [(packet, Some (smp_header_of packet), CrcValid)] else [])"
    "left \<noteq> [] \<Longrightarrow> \<exists>c. dn_console (dir_state d r) = Some c \<and> ca_lastTimestamp c = lc_now lc"
proof -
  note b = body_split [OF fs]
  have len: "length packet + 2 < 65536" "SMP_HEADER_BYTES \<le> length packet" "length packet \<le> sp_maxPacketBytes p"
    using ok by (auto simp: sendable_def whole_message_def)
  have "\<exists>c. snd (consumeConsoleLine lib d (line_marker (got = []) @ wire_text f) wire lc depth p) =
      snd (console_complete lib d (with_dir d (\<lambda>s. s\<lparr>dn_console := Some c\<rparr>) p)) \<and>
      ca_expectedBytes c = length packet + 2 \<and> ca_body c = drop 2 (concat (got @ [f])) \<and> ca_lastTimestamp c = lc_now lc"
  proof (cases "got = []")
    case True
    have n: "dn_console (dir_state d p) = None" using a True by (simp add: assembling_def)
    show ?thesis
      using b(3) [OF True len(1)] len True consume_initial [OF n, of f lib wire lc depth] by (auto intro!: exI)
  next
    case False
    then obtain c where c: "dn_console (dir_state d p) = Some c" "ca_expectedBytes c = length packet + 2" "ca_body c = drop 2 (concat got)"
      using a by (auto simp: assembling_def)
    show ?thesis using False b(4) [OF False] c(2,3) consume_next [OF c(1), of lib f wire lc depth] by (auto intro!: exI)
  qed
  then obtain c where c: "r = snd (console_complete lib d (with_dir d (\<lambda>s. s\<lparr>dn_console := Some c\<rparr>) p))"
      "ca_expectedBytes c = length packet + 2" "ca_body c = drop 2 (concat (got @ [f]))" "ca_lastTimestamp c = lc_now lc"
    using r by auto
  let ?p = "with_dir d (\<lambda>s. s\<lparr>dn_console := Some c\<rparr>) p"
  have cc: "dn_console (dir_state d ?p) = Some c" by simp
  have "assembling packet (got @ [f]) left (dir_state d r) \<and>
    data_of d r = data_of d p @ (if left = [] then [(packet, Some (smp_header_of packet), CrcValid)] else []) \<and>
    (left = [] \<or> (\<exists>c. dn_console (dir_state d r) = Some c \<and> ca_lastTimestamp c = lc_now lc))"
  proof (cases "left = []")
    case True
    have w: "whole_message (sp_maxPacketBytes ?p) packet" using ok by (simp add: sendable_def)
    show ?thesis
      using complete_packet [OF cc _ c(2) w, of lib] c(1,3) b(2) True by (simp add: assembling_def)
  next
    case False
    have "r = ?p" using complete_waits [OF cc, of lib] b(1) [OF False] c(1-3) by simp
    then show ?thesis using False c by (simp add: assembling_def)
  qed
  then show "assembling packet (got @ [f]) left (dir_state d r)"
    "data_of d r = data_of d p @ (if left = [] then [(packet, Some (smp_header_of packet), CrcValid)] else [])"
    "left \<noteq> [] \<Longrightarrow> \<exists>c. dn_console (dir_state d r) = Some c \<and> ca_lastTimestamp c = lc_now lc" by blast+
qed

section \<open>A chunk\<close>

lemma index_of_newline:
  "10 \<notin> set ys \<Longrightarrow> index_of 10 (ys @ 10 # xs) = Some (length ys)" "10 \<notin> set ys \<Longrightarrow> index_of 10 ys = None"
  for ys :: bytes
  by (induction ys) auto

definition frame_head :: "bool \<Rightarrow> bool \<Rightarrow> bytes \<Rightarrow> bytes" where
  "frame_head cr initial f = line_marker initial @ wire_text f @ (if cr then [13] else [])"

lemma frame_split: "console_frame cr initial f = frame_head cr initial f @ [10]"
  by (simp add: console_frame_def frame_head_def)

lemma frame_head_bytes: "10 \<notin> set (frame_head cr initial f)"
  using wire_text_bytes by (auto simp: frame_head_def line_marker_def)

lemma frame_line:
  "(if frame_head cr initial f \<noteq> [] \<and> last (frame_head cr initial f) = 13 then butlast (frame_head cr initial f) else frame_head cr initial f)
    = line_marker initial @ wire_text f"
proof (cases cr)
  case True
  then have "frame_head cr initial f = (line_marker initial @ wire_text f) @ [13]" by (simp add: frame_head_def)
  then show ?thesis by (simp only: butlast_snoc last_snoc) simp
next
  case False
  have "last (line_marker initial @ wire_text f) \<noteq> 13"
    using wire_text_bytes [of "last (wire_text f)" f] by (cases "wire_text f = []") (simp_all add: line_marker_def last_append)
  then show ?thesis using False by (simp add: frame_head_def)
qed

text \<open>With a whole line in the buffer, the loop takes it.\<close>

definition line_taken :: "traffic_chunk \<Rightarrow> nat \<Rightarrow> smp_parser \<Rightarrow> smp_parser" where
  "line_taken chunk n p = with_dir (tc_direction chunk) (\<lambda>s. s\<lparr>dn_lineBuffer := drop n (dn_lineBuffer s),
     dn_lineBufferOffset := dn_lineBufferOffset s + n, dn_lineTimestamp := tc_timestamp chunk, dn_lineCaptureSeq := tc_captureSeq chunk\<rparr>) p"

lemma line_turn_frame:
  assumes "dn_lineBuffer (dir_state (tc_direction c) p) = console_frame cr initial f @ xs"
  shows "\<exists>lc. lc_now lc = tc_timestamp c \<and> line_turn lib c p = Some (consumeConsoleLine lib (tc_direction c)
    (line_marker initial @ wire_text f) (console_frame cr initial f) lc 0 (line_taken c (length (console_frame cr initial f)) p))"
proof -
  let ?s = "dir_state (tc_direction c) p"
  let ?h = "frame_head cr initial f"
  let ?lc = "\<lparr>lc_offset = dn_lineBufferOffset ?s, lc_timestamp = dn_lineTimestamp ?s, lc_captureSeq = dn_lineCaptureSeq ?s, lc_now = tc_timestamp c\<rparr>"
  have b: "dn_lineBuffer ?s = ?h @ 10 # xs" using assms by (simp add: frame_split)
  have i: "index_of 10 (dn_lineBuffer ?s) = Some (length ?h)" unfolding b by (rule index_of_newline(1)) (rule frame_head_bytes)
  have w: "sliceCopy (dn_lineBuffer ?s) 0 (length ?h + 1) = ?h @ [10]" by (simp add: b sliceCopy_def)
  have t: "take (length ?h) (?h @ [10]) = ?h" by simp
  have "line_turn lib c p = Some (consumeConsoleLine lib (tc_direction c) (line_marker initial @ wire_text f) (?h @ [10]) ?lc 0
      (line_taken c (length ?h + 1) p))"
    unfolding line_turn_def Let_def i option.case w t frame_line by (simp add: line_taken_def)
  then show ?thesis by (intro exI [of _ ?lc]) (simp add: frame_split)
qed

lemma line_turn_waits: "10 \<notin> set (dn_lineBuffer (dir_state (tc_direction c) p)) \<Longrightarrow> line_turn lib c p = None"
  by (simp add: line_turn_def Let_def index_of_newline(2))

definition partial_line :: "bool \<Rightarrow> bool \<Rightarrow> bytes \<Rightarrow> bytes list \<Rightarrow> bool" where
  "partial_line cr initial buffer fs \<longleftrightarrow>
     (case fs of [] \<Rightarrow> buffer = [] | f # _ \<Rightarrow> length buffer < length (console_frame cr initial f))"

abbreviation packet_record :: "bytes \<Rightarrow> bytes \<times> smp_header option \<times> crc_status" where
  "packet_record packet \<equiv> (packet, Some (smp_header_of packet), CrcValid)"

lemma consume_same_direction:
  "\<exists>c. dir_state d (snd (consumeConsoleLine lib d line wire lc depth p)) = (dir_state d p)\<lparr>dn_console := c\<rparr>"
  using same_lines_consume [of d p lib line wire lc depth] by (auto simp: same_lines_def dest!: same_states_dir [where d = d])

lemma loop_lines:
  assumes "fragments packet (got @ left)" "sendable (sp_maxPacketBytes p) packet" "assembling packet got left (dir_state (tc_direction c) p)"
    "dn_lineBuffer (dir_state (tc_direction c) p) @ rest = concat (console_frames cr (got = []) left)"
  shows "\<exists>taken more. left = taken @ more \<and> (let d = tc_direction c; q = snd (feed_lines lib c p); s = dir_state d q in
    assembling packet (got @ taken) more s \<and> dn_lineBuffer s @ rest = concat (console_frames cr (got @ taken = []) more) \<and>
    partial_line cr (got @ taken = []) (dn_lineBuffer s) more \<and>
    data_of d q = data_of d p @ (if taken \<noteq> [] \<and> more = [] then [packet_record packet] else []) \<and>
    dn_rawBuffer s = dn_rawBuffer (dir_state d p) \<and> dn_lineLastTimestamp s = dn_lineLastTimestamp (dir_state d p) \<and>
    (if taken = [] then dn_console s = dn_console (dir_state d p)
     else more = [] \<or> (\<exists>a. dn_console s = Some a \<and> ca_lastTimestamp a = tc_timestamp c)))"
  using assms
proof (induction left arbitrary: got p)
  case Nil
  then have "line_turn lib c p = None" by (simp add: line_turn_waits)
  then have "feed_lines lib c p = ([], p)" by (subst feed_lines.simps) simp
  then show ?case using Nil by (simp add: partial_line_def Let_def)
next
  case (Cons f left)
  let ?d = "tc_direction c"
  let ?s = "dir_state ?d p"
  let ?i = "got = []"
  let ?frame = "console_frame cr ?i f"
  have buf: "dn_lineBuffer ?s @ rest = ?frame @ concat (console_frames cr False left)" using Cons.prems(4) by simp
  show ?case
  proof (cases "length ?frame \<le> length (dn_lineBuffer ?s)")
    case False
    then have "dn_lineBuffer ?s = take (length (dn_lineBuffer ?s)) ?frame"
      using arg_cong [OF buf, of "take (length (dn_lineBuffer ?s))"] by simp
    moreover have "take (length (dn_lineBuffer ?s)) ?frame = take (length (dn_lineBuffer ?s)) (frame_head cr ?i f)"
      using False by (simp add: frame_split)
    ultimately have "10 \<notin> set (dn_lineBuffer ?s)" using frame_head_bytes [of cr ?i f] by (metis in_set_takeD)
    then have "feed_lines lib c p = ([], p)" using line_turn_waits by (subst feed_lines.simps) simp
    then show ?thesis using Cons.prems False
      by (intro exI [of _ "[]"] exI [of _ "f # left"]) (simp add: partial_line_def Let_def)
  next
    case True
    define xs where "xs = drop (length ?frame) (dn_lineBuffer ?s)"
    have tk: "take (length ?frame) (dn_lineBuffer ?s) = ?frame"
      using arg_cong [OF buf, of "take (length ?frame)"] True by simp
    have xs: "dn_lineBuffer ?s = ?frame @ xs" "xs @ rest = concat (console_frames cr False left)"
      using append_take_drop_id [of "length ?frame" "dn_lineBuffer ?s"] arg_cong [OF buf, of "drop (length ?frame)"] True
      by (simp_all add: xs_def tk)
    let ?p1 = "line_taken c (length ?frame) p"
    obtain lc where lc: "lc_now lc = tc_timestamp c"
        "line_turn lib c p = Some (consumeConsoleLine lib ?d (line_marker ?i @ wire_text f) ?frame lc 0 ?p1)"
      using line_turn_frame [OF xs(1), of lib] by blast
    define q where "q = snd (consumeConsoleLine lib ?d (line_marker ?i @ wire_text f) ?frame lc 0 ?p1)"
    have p1: "dir_state ?d ?p1 = ?s\<lparr>dn_lineBuffer := xs, dn_lineBufferOffset := dn_lineBufferOffset ?s + length ?frame,
        dn_lineTimestamp := tc_timestamp c, dn_lineCaptureSeq := tc_captureSeq c\<rparr>"
      "sp_maxPacketBytes ?p1 = sp_maxPacketBytes p" "data_of ?d ?p1 = data_of ?d p"
      by (simp_all add: line_taken_def xs(1))
    obtain k where k: "dir_state ?d q = (dir_state ?d ?p1)\<lparr>dn_console := k\<rparr>"
      using consume_same_direction unfolding q_def by metis
    have keep: "dn_lineBuffer (dir_state ?d q) = xs" "dn_rawBuffer (dir_state ?d q) = dn_rawBuffer ?s"
      "dn_lineLastTimestamp (dir_state ?d q) = dn_lineLastTimestamp ?s"
      by (simp_all add: k p1)
    have m: "sp_maxPacketBytes q = sp_maxPacketBytes p"
      using same_lines_consume [of ?d ?p1 lib "line_marker ?i @ wire_text f" ?frame lc 0] p1(2) by (auto simp: same_lines_def same_states_def q_def)
    have ok: "sendable (sp_maxPacketBytes ?p1) packet" "assembling packet got (f # left) (dir_state ?d ?p1)"
      using Cons.prems(2,3) p1 by (auto simp: assembling_def)
    note fl = fragment_line [OF Cons.prems(1) ok q_def]
    have fr: "fragments packet ((got @ [f]) @ left)" using Cons.prems(1) by simp
    have b2: "dn_lineBuffer (dir_state ?d q) @ rest = concat (console_frames cr (got @ [f] = []) left)" using keep(1) xs(2) by simp
    have fs: "snd (feed_lines lib c p) = snd (feed_lines lib c q)"
      using lc(2) by (subst feed_lines.simps) (simp add: split_beta q_def)
    from Cons.IH [OF fr _ fl(1) b2] Cons.prems(2) m obtain taken more where t: "left = taken @ more"
      "let d = ?d; r = snd (feed_lines lib c q); s = dir_state d r in
        assembling packet ((got @ [f]) @ taken) more s \<and> dn_lineBuffer s @ rest = concat (console_frames cr ((got @ [f]) @ taken = []) more) \<and>
        partial_line cr ((got @ [f]) @ taken = []) (dn_lineBuffer s) more \<and>
        data_of d r = data_of d q @ (if taken \<noteq> [] \<and> more = [] then [packet_record packet] else []) \<and>
        dn_rawBuffer s = dn_rawBuffer (dir_state d q) \<and> dn_lineLastTimestamp s = dn_lineLastTimestamp (dir_state d q) \<and>
        (if taken = [] then dn_console s = dn_console (dir_state d q)
         else more = [] \<or> (\<exists>a. dn_console s = Some a \<and> ca_lastTimestamp a = tc_timestamp c))" by auto
    have "data_of ?d (snd (feed_lines lib c q)) = data_of ?d p @ (if more = [] then [packet_record packet] else [])"
      using t fl(2) p1(3) by (cases "taken = []") (auto simp: Let_def)
    moreover have "more = [] \<or> (\<exists>a. dn_console (dir_state ?d (snd (feed_lines lib c q))) = Some a \<and> ca_lastTimestamp a = tc_timestamp c)"
      using t fl(3) lc(1) by (cases "taken = []") (auto simp: Let_def)
    ultimately show ?thesis using t keep(2,3) unfolding fs Let_def
      by (intro exI [of _ "f # taken"] exI [of _ more]) simp
  qed
qed

section \<open>The other direction and the timers\<close>

fun opposite :: "smp_direction \<Rightarrow> smp_direction" where
  "opposite TX = RX"
| "opposite RX = TX"

lemma opposite_iff: "e \<noteq> d \<longleftrightarrow> e = opposite d"
  by (cases d; cases e) simp_all

interpretation untouched: direction_store "opposite d" "\<lambda>q. dir_state d q = s \<and> data_of d q = w" for d s w
proof
  have o: "opposite d \<noteq> d" "d \<noteq> opposite d" by (cases d; simp)+
  fix p f ts cs off dat c sev
  assume p: "dir_state d p = s \<and> data_of d p = w"
  show "dir_state d (with_dir (opposite d) f p) = s \<and> data_of d (with_dir (opposite d) f p) = w" using p o by simp
  let ?q = "snd (transportErrorRecord (opposite d) ts cs off dat c sev p)"
  have "dir_state d ?q = dir_state d p" by (rule same_states_dir) simp
  then show "dir_state d ?q = s \<and> data_of d ?q = w" using p o by (simp add: of_direction_def)
next
  have o: "opposite d \<noteq> d" by (cases d) simp_all
  fix p lib m off and ctx :: transport_context
  assume p: "dir_state d p = s \<and> data_of d p = w" "tx_direction ctx = opposite d"
  let ?q = "snd (decodeMessage lib m ctx off p)"
  have "dir_state d ?q = dir_state d p" by (rule same_states_dir) (rule same_message, simp)
  then show "dir_state d ?q = s \<and> data_of d ?q = w" using p o by (simp add: of_direction_def)
next
  fix p i off n
  assume p: "dir_state d p = s \<and> data_of d p = w"
  have "wires (push_padding i off n p) = wires p"
    unfolding push_padding_def by (rule wires_update) (simp add: wire_of_def Let_def)
  moreover have "dir_state d (push_padding i off n p) = dir_state d p" by (rule same_states_dir) (simp add: push_padding_def)
  ultimately show "dir_state d (push_padding i off n p) = s \<and> data_of d (push_padding i off n p) = w" using p by simp
qed

text \<open>The configuration never changes.\<close>

definition configured :: "smp_transport \<Rightarrow> nat \<Rightarrow> int \<Rightarrow> smp_parser \<Rightarrow> bool" where
  "configured t m r p \<longleftrightarrow> sp_transport p = t \<and> sp_maxPacketBytes p = m \<and> sp_reassemblyTimeoutMs p = r"

lemma configured_same: "same_states p q \<Longrightarrow> configured t m r q = configured t m r p"
  by (simp add: configured_def same_states_def)

interpretation config: store_invariant "configured t m r" for t m r
proof (unfold_locales)
  fix p e ts cs off dat c sev f and lib :: cbor_lib and mm ctx i n now
  assume p: "configured t m r p"
  show "configured t m r (with_dir e f p)" using p by (simp add: configured_def)
  show "configured t m r (snd (transportErrorRecord e ts cs off dat c sev p))"
    using p configured_same [of p "snd (transportErrorRecord e ts cs off dat c sev p)" t m r] by simp
  show "configured t m r (snd (decodeMessage lib mm ctx off p))"
    using p configured_same [OF same_message [OF same_states_refl, of p lib mm ctx off], of t m r] by simp
  show "configured t m r (push_padding i off n p)"
    using p configured_same [of p "push_padding i off n p" t m r] by (simp add: push_padding_def)
  show "configured t m r (expirePendingRequests now p)"
    using p configured_same [of p "expirePendingRequests now p" t m r] by simp
qed

definition console_quiet :: "smp_direction \<Rightarrow> int \<Rightarrow> smp_parser \<Rightarrow> bool" where
  "console_quiet d now p \<longleftrightarrow> dn_rawBuffer (dir_state d p) = [] \<and>
     (case console_last (dir_state d p) of None \<Rightarrow> True | Some t \<Rightarrow> now - t < sp_reassemblyTimeoutMs p)"

lemma flush_direction_quiet: "console_quiet d now p \<Longrightarrow> flush_direction now d p = ([], p)"
  by (auto simp: console_quiet_def flush_direction_def flush_console_def flush_raw_def Let_def split: option.splits)

lemma flush_console_quiet:
  assumes "console_quiet d now p"
  shows "dir_state d (snd (flushExpired now p)) = dir_state d p \<and> data_of d (snd (flushExpired now p)) = data_of d p"
proof -
  have u: "dir_state d (snd (flush_direction now (opposite d) q)) = dir_state d q \<and> data_of d (snd (flush_direction now (opposite d) q)) = data_of d q" for q
    unfolding flush_direction_def split_beta Let_def snd_conv
    by (intro untouched.keep_flush_raw untouched.keep_flush_console) simp
  have x: "dir_state d (expirePendingRequests now q) = dir_state d q" for q by (rule same_states_dir) simp
  show ?thesis
  proof (cases d)
    case TX
    then show ?thesis using u [of p] x flush_direction_quiet [OF assms] by (simp add: flushExpired_def split_beta)
  next
    case RX
    let ?q = "snd (flush_direction now TX p)"
    have "sp_reassemblyTimeoutMs ?q = sp_reassemblyTimeoutMs p"
      using config.each.keep_flush_raw [OF config.each.keep_flush_console, of "sp_transport p" "sp_maxPacketBytes p" "sp_reassemblyTimeoutMs p" p now TX now TX]
      by (simp add: configured_def flush_direction_def split_beta)
    then have "console_quiet d now ?q" using assms u [of p] RX by (auto simp: console_quiet_def split: option.splits)
    then show ?thesis using u [of p] x flush_direction_quiet RX by (simp add: flushExpired_def split_beta)
  qed
qed

section \<open>Two limits of the code\<close>

text \<open>A continuation without data adds its line to the parts kept and renews the timeout, but does
  not bring the packet nearer to its end: nothing bounds the parts of an unfinished packet.\<close>

lemma empty_continuation_accumulates:
  assumes "dn_console (dir_state d p) = Some a" "length (ca_body a) < ca_expectedBytes a"
  shows "consumeConsoleLine lib d (line_marker False @ wire_text []) wire lc depth p =
    ([], with_dir d (\<lambda>s. s\<lparr>dn_console := Some (a\<lparr>ca_wireParts := ca_wireParts a @ [wire], ca_lastTimestamp := lc_now lc\<rparr>)\<rparr>) p)"
proof -
  let ?a = "a\<lparr>ca_wireParts := ca_wireParts a @ [wire], ca_lastTimestamp := lc_now lc\<rparr>"
  let ?p = "with_dir d (\<lambda>s. s\<lparr>dn_console := Some ?a\<rparr>) p"
  have "console_complete lib d ?p = ([], ?p)" by (rule complete_waits [of d ?p ?a]) (simp_all add: assms(2))
  then show ?thesis using consume_next [OF assms(1), of lib "[]" wire lc depth] by simp
qed

text \<open>When the last byte of an overlong line may start a marker and is kept, the record of the
  discarded bytes is placed one byte after where they start.\<close>

lemma overflow_offset_after_start:
  assumes "dir_state (tc_direction c) p = s" "length (dn_lineBuffer s) > max_buffered_line p" "last (dn_lineBuffer s) = 6"
    "k + length (tc_data c) = dn_lineBufferOffset s + length (dn_lineBuffer s)"
  shows "wires (snd (line_overflow c k p)) = wires p @
    [(tc_direction c, dn_lineBufferOffset s + 1, butlast (dn_lineBuffer s), error_tag p)]"
proof -
  have ne: "dn_lineBuffer s \<noteq> []" "1 < length (dn_lineBuffer s)" using assms(2) by (auto simp: max_buffered_line_def)
  have e: "error_tag (with_dir d f p) = error_tag p" for d f by (simp add: error_tag_def)
  show ?thesis
    using assms ne by (simp add: line_overflow_def Let_def split_beta findLastMarkerPrefix_def sliceCopy_def lineOffsetForChunk_def butlast_conv_take e)
qed

section \<open>The whole packet\<close>

definition active_since :: "int \<Rightarrow> direction_state \<Rightarrow> bool" where
  "active_since t s \<longleftrightarrow>
     (if dn_lineBuffer s = [] then (case dn_console s of None \<Rightarrow> True | Some a \<Rightarrow> ca_lastTimestamp a = t)
      else dn_lineLastTimestamp s = t)"

text \<open>The stream of a packet after some of its bytes, with \<open>rest\<close> to come; \<open>before\<close> are the
  records of the direction when the packet began.\<close>

definition in_packet :: "smp_direction \<Rightarrow> bool \<Rightarrow> bytes \<Rightarrow> bytes list \<Rightarrow> (bytes \<times> smp_header option \<times> crc_status) list \<Rightarrow>
    int \<Rightarrow> bytes \<Rightarrow> smp_parser \<Rightarrow> bool" where
  "in_packet d cr packet fs before t rest p \<longleftrightarrow>
     sp_transport p = SerialConsole \<and> sendable (sp_maxPacketBytes p) packet \<and> fragments packet fs \<and>
     list_all (\<lambda>l. length l \<le> 8192) (console_frames cr True fs) \<and> dn_rawBuffer (dir_state d p) = [] \<and>
     active_since t (dir_state d p) \<and>
     (\<exists>got left. fs = got @ left \<and> assembling packet got left (dir_state d p) \<and>
       dn_lineBuffer (dir_state d p) @ rest = concat (console_frames cr (got = []) left) \<and>
       partial_line cr (got = []) (dn_lineBuffer (dir_state d p)) left \<and>
       data_of d p = before @ (if left = [] then [packet_record packet] else []))"

lemma frames_append: "console_frames cr i (xs @ ys) = console_frames cr i xs @ console_frames cr (if xs = [] then i else False) ys"
  by (induction xs arbitrary: i) simp_all

lemma frame_nonempty: "console_frame cr i f \<noteq> []"
  by (simp add: console_frame_def)

lemma frames_empty: "concat (console_frames cr i fs) = [] \<longleftrightarrow> fs = []"
  by (cases fs) (simp_all add: frame_nonempty)

lemma prefix_potential:
  assumes "b @ xs = console_frame cr i f @ ys" "b \<noteq> []"
  shows "hasPotentialConsoleMarker b"
proof -
  obtain x y zs where l: "console_frame cr i f = x # y # zs" "x = 6 \<and> y = 9 \<or> x = 4 \<and> y = 20"
    by (cases i) (simp_all add: console_frame_def line_marker_def)
  consider "b = [x]" | us where "b = x # y # us"
    using assms l(1) by (cases b rule: find_initial.cases) auto
  then show ?thesis
    using l(2) by cases (auto simp: hasPotentialConsoleMarker_def findLastMarkerPrefix_def)
qed

text \<open>Inside a packet the last activity is what the timer sees; outside there is nothing to see.\<close>

lemma packet_activity:
  assumes "in_packet d cr packet fs before t rest p"
  shows "console_last (dir_state d p) = None \<or> console_last (dir_state d p) = Some t"
    "rest = [] \<or> length rest = length (concat (console_frames cr True fs)) \<Longrightarrow> console_last (dir_state d p) = None"
proof -
  let ?s = "dir_state d p"
  from assms obtain got left where g: "fs = got @ left" "assembling packet got left ?s"
      "dn_lineBuffer ?s @ rest = concat (console_frames cr (got = []) left)" "partial_line cr (got = []) (dn_lineBuffer ?s) left"
    unfolding in_packet_def by blast
  have act: "active_since t ?s" using assms by (simp add: in_packet_def)
  have none: "\<not> hasPotentialConsoleMarker []" by (simp add: hasPotentialConsoleMarker_def findLastMarkerPrefix_def)
  have pot: "hasPotentialConsoleMarker (dn_lineBuffer ?s)" if "dn_lineBuffer ?s \<noteq> []"
    using g(3) that prefix_potential [of "dn_lineBuffer ?s" rest cr "got = []"] by (cases left) auto
  show "console_last ?s = None \<or> console_last ?s = Some t"
    using act pot none by (cases "dn_lineBuffer ?s = []"; cases "dn_console ?s") (auto simp: console_last_def active_since_def)
  assume r: "rest = [] \<or> length rest = length (concat (console_frames cr True fs))"
  have "left = [] \<or> got = [] \<and> dn_lineBuffer ?s = []"
  proof (cases "rest = []")
    case True
    show ?thesis
    proof (cases left)
      case (Cons f ls)
      then have "length (dn_lineBuffer ?s) < length (console_frame cr (got = []) f)" using g(4) by (simp add: partial_line_def)
      then show ?thesis using g(3) True Cons by simp
    qed simp
  next
    case False
    then have n: "length rest = length (concat (console_frames cr True got)) + length (concat (console_frames cr (got = []) left))"
      using r g(1) by (simp add: frames_append)
    have "length (dn_lineBuffer ?s) + length rest = length (concat (console_frames cr (got = []) left))"
      using arg_cong [OF g(3), of length] by simp
    then have "dn_lineBuffer ?s = []" "concat (console_frames cr True got) = []" using n by simp_all
    then show ?thesis by (simp add: frames_empty del: concat_eq_Nil_conv)
  qed
  then show "console_last ?s = None"
    using g none by (auto simp: console_last_def assembling_def partial_line_def)
qed

lemma packet_flush:
  assumes i: "in_packet d cr packet fs before t rest p" and total: "n + length rest = length (concat (console_frames cr True fs))"
    and n: "\<not> mid_message [concat (console_frames cr True fs)] n \<or> now - t < sp_reassemblyTimeoutMs p"
  shows "in_packet d cr packet fs before t rest (snd (flushExpired now p))"
    "sp_reassemblyTimeoutMs (snd (flushExpired now p)) = sp_reassemblyTimeoutMs p"
proof -
  have "console_quiet d now p"
  proof (cases "mid_message [concat (console_frames cr True fs)] n")
    case True
    then show ?thesis using packet_activity(1) [OF i] n i by (auto simp: console_quiet_def in_packet_def)
  next
    case False
    then have "n = 0 \<or> length (concat (console_frames cr True fs)) \<le> n" by (auto split: if_splits)
    then have "length rest = 0 \<or> length rest = length (concat (console_frames cr True fs))" using total by linarith
    then have "rest = [] \<or> length rest = length (concat (console_frames cr True fs))" by simp
    then show ?thesis using packet_activity(2) [OF i] i by (simp add: console_quiet_def in_packet_def)
  qed
  from flush_console_quiet [OF this] have s: "dir_state d (snd (flushExpired now p)) = dir_state d p"
    "data_of d (snd (flushExpired now p)) = data_of d p" by blast+
  have "configured (sp_transport p) (sp_maxPacketBytes p) (sp_reassemblyTimeoutMs p) (snd (flushExpired now p))"
    by (rule config.keep_flush) (simp add: configured_def)
  then have c: "sp_transport (snd (flushExpired now p)) = sp_transport p" "sp_maxPacketBytes (snd (flushExpired now p)) = sp_maxPacketBytes p"
    "sp_reassemblyTimeoutMs (snd (flushExpired now p)) = sp_reassemblyTimeoutMs p" by (simp_all add: configured_def)
  show "in_packet d cr packet fs before t rest (snd (flushExpired now p))" using i by (simp add: in_packet_def s c)
  show "sp_reassemblyTimeoutMs (snd (flushExpired now p)) = sp_reassemblyTimeoutMs p" by (rule c(3))
qed

definition console_arrival :: "traffic_chunk \<Rightarrow> smp_parser \<Rightarrow> smp_parser" where
  "console_arrival c p = with_dir (tc_direction c) (line_receive c (dn_inputOffset (dir_state (tc_direction c) p)))
     (with_dir (tc_direction c) (\<lambda>s. s\<lparr>dn_inputOffset := dn_inputOffset s + length (tc_data c)\<rparr>) p)"

lemma line_receive_fields [simp]:
  "dn_lineBuffer (line_receive c k s) = dn_lineBuffer s @ tc_data c" "dn_lineLastTimestamp (line_receive c k s) = tc_timestamp c"
  "dn_console (line_receive c k s) = dn_console s" "dn_rawBuffer (line_receive c k s) = dn_rawBuffer s"
  by (simp_all add: line_receive_def Let_def)

lemma feed_console_mode:
  assumes "sp_transport (snd (flushExpired (tc_timestamp c) p)) = SerialConsole" "tc_data c \<noteq> []"
  shows "\<exists>k. snd (feed_smp lib c p) =
    snd (line_overflow c k (snd (feed_lines lib c (console_arrival c (snd (flushExpired (tc_timestamp c) p))))))"
  using assms by (simp add: feed_smp_def Let_def split_beta feedConsole_def console_arrival_def) blast

lemma no_overflow: "length (dn_lineBuffer (dir_state (tc_direction c) p)) \<le> 8192 \<Longrightarrow> line_overflow c k p = ([], p)"
  by (simp add: line_overflow_def Let_def max_buffered_line_def)

lemma packet_feed:
  assumes i: "in_packet d cr packet fs before t (smp_fed d ev @ rest) p"
    and total: "n + length (smp_fed d ev @ rest) = length (concat (console_frames cr True fs))"
    and n: "\<not> mid_message [concat (console_frames cr True fs)] n \<or> event_time ev - t < sp_reassemblyTimeoutMs p"
  shows "in_packet d cr packet fs before (if smp_fed d ev = [] then t else event_time ev) rest (smp_step lib ev p) \<and>
    sp_reassemblyTimeoutMs (smp_step lib ev p) = sp_reassemblyTimeoutMs p"
proof -
  let ?p1 = "snd (flushExpired (event_time ev) p)"
  note f = packet_flush [OF i total n]
  consider "smp_step lib ev p = ?p1" "smp_fed d ev = []" | c where "ev = SmpFeed c" "tc_data c \<noteq> []"
    by (cases ev) (fastforce simp: feed_smp_def)+
  then show ?thesis
  proof cases
    case 1
    then show ?thesis using f by simp
  next
    case (2 c)
    let ?e = "tc_direction c"
    let ?a = "console_arrival c ?p1"
    let ?q = "snd (feed_lines lib c ?a)"
    have con: "sp_transport (snd (flushExpired (tc_timestamp c) p)) = SerialConsole" using f(1) 2 by (simp add: in_packet_def)
    obtain k where step: "smp_step lib ev p = snd (line_overflow c k ?q)"
      using feed_console_mode [OF con 2(2), of lib] 2(1) by auto
    have c0: "configured SerialConsole (sp_maxPacketBytes ?p1) (sp_reassemblyTimeoutMs p) ?p1"
      using f by (simp add: configured_def in_packet_def)
    have ca: "configured SerialConsole (sp_maxPacketBytes ?p1) (sp_reassemblyTimeoutMs p) ?a"
      using c0 by (simp add: configured_def console_arrival_def)
    have cr: "configured SerialConsole (sp_maxPacketBytes ?p1) (sp_reassemblyTimeoutMs p) (smp_step lib ev p)"
      unfolding step by (rule config.each.keep_overflow [OF config.each.keep_lines [OF ca refl] refl])
    then have t: "sp_reassemblyTimeoutMs (smp_step lib ev p) = sp_reassemblyTimeoutMs p"
      "sp_maxPacketBytes (smp_step lib ev p) = sp_maxPacketBytes ?p1" "sp_transport (smp_step lib ev p) = SerialConsole"
      by (simp_all add: configured_def)
    from f(1) obtain got left where g: "fs = got @ left" "assembling packet got left (dir_state d ?p1)"
      "dn_lineBuffer (dir_state d ?p1) @ smp_fed d ev @ rest = concat (console_frames cr (got = []) left)"
      "partial_line cr (got = []) (dn_lineBuffer (dir_state d ?p1)) left"
      "data_of d ?p1 = before @ (if left = [] then [packet_record packet] else [])" "dn_rawBuffer (dir_state d ?p1) = []"
      by (auto simp: in_packet_def)
    have base: "fragments packet fs" "sendable (sp_maxPacketBytes ?p1) packet" "list_all (\<lambda>l. length l \<le> 8192) (console_frames cr True fs)"
      using f(1) by (simp_all add: in_packet_def)
    show ?thesis
    proof (cases "?e = d")
      case True
      have da: "dn_lineBuffer (dir_state d ?a) = dn_lineBuffer (dir_state d ?p1) @ tc_data c" "dn_console (dir_state d ?a) = dn_console (dir_state d ?p1)"
        "data_of d ?a = data_of d ?p1" "dn_rawBuffer (dir_state d ?a) = []" "dn_lineLastTimestamp (dir_state d ?a) = tc_timestamp c"
        "sp_maxPacketBytes ?a = sp_maxPacketBytes ?p1"
        using True g(6) by (simp_all add: console_arrival_def)
      have "fragments packet (got @ left)" "sendable (sp_maxPacketBytes ?a) packet" "assembling packet got left (dir_state ?e ?a)"
        "dn_lineBuffer (dir_state ?e ?a) @ rest = concat (console_frames cr (got = []) left)"
        using base(1,2) g(1,2,3) da(1,2,6) True 2 by (simp, simp, auto simp: assembling_def)
      from loop_lines [OF this, of lib] obtain taken more where m: "left = taken @ more"
        "assembling packet (got @ taken) more (dir_state d ?q)" "dn_lineBuffer (dir_state d ?q) @ rest = concat (console_frames cr (got @ taken = []) more)"
        "partial_line cr (got @ taken = []) (dn_lineBuffer (dir_state d ?q)) more"
        "data_of d ?q = data_of d ?a @ (if taken \<noteq> [] \<and> more = [] then [packet_record packet] else [])"
        "dn_rawBuffer (dir_state d ?q) = dn_rawBuffer (dir_state d ?a)" "dn_lineLastTimestamp (dir_state d ?q) = dn_lineLastTimestamp (dir_state d ?a)"
        "if taken = [] then dn_console (dir_state d ?q) = dn_console (dir_state d ?a)
         else more = [] \<or> (\<exists>a. dn_console (dir_state d ?q) = Some a \<and> ca_lastTimestamp a = tc_timestamp c)"
        unfolding Let_def True by blast
      have left: "left \<noteq> []" using g(3,4) 2 True by (auto simp: partial_line_def)
      have len: "length (dn_lineBuffer (dir_state d ?q)) \<le> 8192"
        using m(1,4) base(3) g(1) by (cases more) (auto simp: partial_line_def frames_append split: if_splits)
      have r: "smp_step lib ev p = ?q" using no_overflow [of c ?q k] len True step by simp
      have "active_since (tc_timestamp c) (dir_state d ?q)"
      proof (cases "taken = []")
        case True
        then have "dn_lineBuffer (dir_state d ?q) @ rest = dn_lineBuffer (dir_state d ?a) @ rest" using m(1,3) g(3) da(1) 2 \<open>?e = d\<close> by simp
        then have "dn_lineBuffer (dir_state d ?q) \<noteq> []" using da(1) 2 by simp
        then show ?thesis using m(7) da(5) by (simp add: active_since_def)
      next
        case False
        then have "more = [] \<longrightarrow> dn_console (dir_state d ?q) = None" using m(2) by (simp add: assembling_def)
        then show ?thesis using m(7,8) da(5) False by (auto simp: active_since_def)
      qed
      then have "in_packet d cr packet fs before (tc_timestamp c) rest ?q"
        unfolding in_packet_def using base g(1,5) m da t left
        by (intro conjI exI [of _ "got @ taken"] exI [of _ more]) (auto simp: r)
      then have "in_packet d cr packet fs before (tc_timestamp c) rest (smp_step lib ev p)" by (simp only: r)
      then show ?thesis using t(1) 2 True by (simp del: smp_step.simps)
    next
      case False
      then have e: "?e = opposite d" using opposite_iff by blast
      have "dir_state d ?a = dir_state d ?p1 \<and> data_of d ?a = data_of d ?p1" using False by (simp add: console_arrival_def)
      then have "dir_state d (smp_step lib ev p) = dir_state d ?p1 \<and> data_of d (smp_step lib ev p) = data_of d ?p1"
        unfolding step by (intro untouched.keep_overflow untouched.keep_lines e)
      moreover have "smp_fed d ev = []" using 2 False by simp
      ultimately show ?thesis using f(1) t by (simp add: in_packet_def del: smp_step.simps smp_fed.simps)
    qed
  qed
qed

lemma packet_events:
  assumes "in_packet d cr packet fs before t (concat (map (smp_fed d) evs)) p"
    "n + length (concat (map (smp_fed d) evs)) = length (concat (console_frames cr True fs))"
    "no_stall d (sp_reassemblyTimeoutMs p) [concat (console_frames cr True fs)] n t evs"
  shows "\<exists>t'. in_packet d cr packet fs before t' [] (fold (smp_step lib) evs p)"
  using assms
proof (induction evs arbitrary: n t p)
  case Nil
  then show ?case by auto
next
  case (Cons ev evs)
  let ?q = "smp_step lib ev p"
  let ?t = "if smp_fed d ev = [] then t else event_time ev"
  have n: "\<not> mid_message [concat (console_frames cr True fs)] n \<or> event_time ev - t < sp_reassemblyTimeoutMs p"
    "no_stall d (sp_reassemblyTimeoutMs p) [concat (console_frames cr True fs)] (n + length (smp_fed d ev)) ?t evs"
    using Cons.prems(3) by simp_all
  have i: "in_packet d cr packet fs before t (smp_fed d ev @ concat (map (smp_fed d) evs)) p"
    "n + length (smp_fed d ev @ concat (map (smp_fed d) evs)) = length (concat (console_frames cr True fs))"
    using Cons.prems(1,2) by simp_all
  from packet_feed [OF i n(1), of lib] have q: "in_packet d cr packet fs before ?t (concat (map (smp_fed d) evs)) ?q"
    "sp_reassemblyTimeoutMs ?q = sp_reassemblyTimeoutMs p" by blast+
  have "n + length (smp_fed d ev) + length (concat (map (smp_fed d) evs)) = length (concat (console_frames cr True fs))"
    using i(2) by simp
  from Cons.IH [OF q(1) this] n(2) q(2) show ?case by simp
qed

definition console_idle :: "smp_direction \<Rightarrow> smp_parser \<Rightarrow> bool" where
  "console_idle d p \<longleftrightarrow> sp_transport p = SerialConsole \<and> dn_lineBuffer (dir_state d p) = [] \<and>
     dn_console (dir_state d p) = None \<and> dn_rawBuffer (dir_state d p) = []"

text \<open>C33. A packet sent over the Serial Console arrives: cut into non-empty fragments, the first of at
  least the two bytes of the length, each a line of
  at most 8192 bytes ending in LF or CR LF, and the lines cut into chunks in any way, the packet is
  recorded once, with its header and a valid check, after the records the direction had, and the
  direction is idle again; traffic of the other direction and timers in between do not matter, as
  long as no event finds the packet half received with its last bytes older than the timeout.
  Outside these conditions the code gives up the packet: it refuses a longer line and a first
  fragment without the length, and it drops what has waited longer than the timeout.\<close>

theorem smp_console_packet:
  assumes "console_idle d p" "sendable (sp_maxPacketBytes p) packet" "fragments packet fs"
    "list_all (\<lambda>l. length l \<le> 8192) (console_frames cr True fs)"
    "concat (map (smp_fed d) events) = concat (console_frames cr True fs)"
    "no_stall d (sp_reassemblyTimeoutMs p) [concat (console_frames cr True fs)] 0 0 events"
    "q = fold (smp_step lib) events p"
  shows "map wire_message (of_direction d (wires q)) =
      map wire_message (of_direction d (wires p)) @ [(packet, Some (smp_header_of packet), CrcValid)] \<and>
    console_idle d q"
proof -
  have ne: "fs \<noteq> []" using assms(3) by (auto simp: fragments_def console_body_def smp_be16_def)
  then obtain f fs' where f: "fs = f # fs'" by (cases fs) auto
  have "in_packet d cr packet fs (data_of d p) 0 (concat (map (smp_fed d) events)) p"
    unfolding in_packet_def
    by (intro conjI exI [of _ "[]"] exI [of _ fs])
      (use assms(1-5) ne in \<open>auto simp: console_idle_def active_since_def assembling_def partial_line_def f console_frame_def\<close>)
  from packet_events [OF this, of 0 lib] assms(5-7) obtain t where i: "in_packet d cr packet fs (data_of d p) t [] q" by auto
  then obtain got left where g: "fs = got @ left" "assembling packet got left (dir_state d q)"
      "dn_lineBuffer (dir_state d q) = concat (console_frames cr (got = []) left)"
      "partial_line cr (got = []) (dn_lineBuffer (dir_state d q)) left"
      "data_of d q = data_of d p @ (if left = [] then [packet_record packet] else [])"
    by (auto simp: in_packet_def)
  have l: "left = []" using g(3,4) by (cases left) (simp_all add: partial_line_def)
  then show ?thesis using g i by (simp add: console_idle_def in_packet_def assembling_def)
qed

text \<open>A packet of one message, cut inside its line, with a lone line of the other direction and a
  timer in between.\<close>

abbreviation example_packet :: bytes where
  "example_packet \<equiv> [0, 0, 0, 0, 0, 0, 1, 0]"

abbreviation example_console_parser :: smp_parser where
  "example_console_parser \<equiv> \<lparr>sp_transport = SerialConsole, sp_maxPacketBytes = 16, sp_reassemblyTimeoutMs = 1000,
     sp_tx = createDirectionState, sp_rx = createDirectionState, sp_pendingRequests = [], sp_records = []\<rparr>"

abbreviation example_frame :: bytes where
  "example_frame \<equiv> console_frame True True (console_body example_packet)"

abbreviation example_console_events :: "smp_event list" where
  "example_console_events \<equiv>
    [SmpFeed \<lparr>tc_direction = TX, tc_data = take 5 example_frame, tc_timestamp = 10, tc_captureSeq = Some 1\<rparr>,
     SmpFeed \<lparr>tc_direction = RX, tc_data = [6, 9, 10], tc_timestamp = 20, tc_captureSeq = None\<rparr>,
     SmpFlush 500,
     SmpFeed \<lparr>tc_direction = TX, tc_data = drop 5 example_frame, tc_timestamp = 900, tc_captureSeq = Some 2\<rparr>]"

lemma example_frame_length: "length example_frame = 20"
  by (simp add: console_frame_def line_marker_def wire_text_def bytesToBase64_eq length_btoa console_body_def smp_be16_def)

theorem smp_console_packet_witness:
  "let q = fold (smp_step example_lib) example_console_events example_console_parser in
     map wire_message (of_direction TX (wires q)) = [(example_packet, Some (smp_header_of example_packet), CrcValid)] \<and>
     console_idle TX q"
proof -
  have idle: "console_idle TX example_console_parser" by (simp add: console_idle_def createDirectionState_def)
  have send: "sendable (sp_maxPacketBytes example_console_parser) example_packet"
    by (simp add: sendable_def whole_message_def readU16_def SMP_HEADER_BYTES_def)
  have frag: "fragments example_packet [console_body example_packet]" by (simp add: fragments_def console_body_def smp_be16_def)
  have fed: "concat (map (smp_fed TX) example_console_events) = concat (console_frames True True [console_body example_packet])" by simp
  have ne: "drop 5 example_frame \<noteq> []" "take 5 example_frame \<noteq> []" using example_frame_length by auto
  have fast: "no_stall TX (sp_reassemblyTimeoutMs example_console_parser)
      [concat (console_frames True True [console_body example_packet])] 0 0 example_console_events"
    using ne example_frame_length by simp
  have len: "list_all (\<lambda>l. length l \<le> 8192) (console_frames True True [console_body example_packet])"
    using example_frame_length by simp
  show ?thesis
    using smp_console_packet [OF idle send frag len fed fast refl, of example_lib]
    by (simp add: wires_def of_direction_def Let_def del: fold.simps)
qed

end
