(* ===== verification/SmpLinks.thy ===== *)
theory SmpLinks
  imports SmpStore SmpRaw
begin

text \<open>
  Requests and responses: the links between the records and the pending table, an invariant of
  the record store that every operation of the parser keeps.
\<close>

section \<open>Links\<close>

text \<open>A request waiting in the table.\<close>

definition waiting :: "smp_parser \<Rightarrow> pending_request \<Rightarrow> bool" where
  "waiting p q \<longleftrightarrow> pq_record q < length (sp_records p) \<and>
     (case sr_header (rec_at p (pq_record q)) of
        None \<Rightarrow> False | Some h \<Rightarrow> expectedResponseOp (hd_op h) = Some (pq_expectedOp q)) \<and>
     sr_responseId (rec_at p (pq_record q)) = None \<and>
     pq_expiresAt q = sr_timestamp (rec_at p (pq_record q)) + DEFAULT_SMP_REQUEST_TIMEOUT_MS"

text \<open>Request \<open>i\<close> answered by response \<open>j\<close>: they point at each other, came in opposite
  directions, agree in group, command and sequence number, the response has the operation the
  request expects, and came before the request expired.\<close>

definition same_transaction :: "smp_header option \<Rightarrow> smp_header option \<Rightarrow> bool" where
  "same_transaction request response \<longleftrightarrow>
     (case (request, response) of
        (Some a, Some b) \<Rightarrow> expectedResponseOp (hd_op a) = Some (hd_op b) \<and> hd_sequence a = hd_sequence b \<and>
          hd_group a = hd_group b \<and> hd_command a = hd_command b
      | _ \<Rightarrow> False)"

definition answered :: "smp_parser \<Rightarrow> nat \<Rightarrow> nat \<Rightarrow> bool" where
  "answered p i j \<longleftrightarrow>
     (let a = rec_at p i; b = rec_at p j; rtt = max 0 (sr_timestamp b - sr_timestamp a) in
      i < j \<and> j < length (sp_records p) \<and> sr_responseId a = Some (j + 1) \<and> sr_requestId b = Some (i + 1) \<and>
      sr_direction a \<noteq> sr_direction b \<and> same_transaction (sr_header a) (sr_header b) \<and>
      sr_rtt a = Some rtt \<and> sr_rtt b = Some rtt \<and> rtt < DEFAULT_SMP_REQUEST_TIMEOUT_MS)"

text \<open>The links, when the requests \<open>X\<close> are shown as pending though not in the table.\<close>

definition linked_but :: "nat set \<Rightarrow> smp_parser \<Rightarrow> bool" where
  "linked_but X p \<longleftrightarrow> distinct (map pq_record (sp_pendingRequests p)) \<and>
     (\<forall>q\<in>set (sp_pendingRequests p). waiting p q) \<and>
     (\<forall>i<length (sp_records p). \<forall>n. sr_responseId (rec_at p i) = Some n \<longrightarrow> (\<exists>j. n = j + 1 \<and> answered p i j)) \<and>
     (\<forall>j<length (sp_records p). \<forall>n. sr_requestId (rec_at p j) = Some n \<longrightarrow> (\<exists>i. n = i + 1 \<and> answered p i j)) \<and>
     (\<forall>i<length (sp_records p). sr_status (rec_at p i) = StatusPending \<longrightarrow> i \<in> pq_record ` set (sp_pendingRequests p) \<or> i \<in> X)"

definition linked :: "smp_parser \<Rightarrow> bool" where
  "linked p \<longleftrightarrow> linked_but {} p \<and> length (sp_pendingRequests p) \<le> DEFAULT_SMP_MAX_PENDING_REQUESTS"

lemma linked_butD:
  assumes "linked_but X p"
  shows "distinct (map pq_record (sp_pendingRequests p))" "q \<in> set (sp_pendingRequests p) \<Longrightarrow> waiting p q"
    "i < length (sp_records p) \<Longrightarrow> sr_responseId (rec_at p i) = Some n \<Longrightarrow> \<exists>j. n = j + 1 \<and> answered p i j"
    "i < length (sp_records p) \<Longrightarrow> sr_requestId (rec_at p i) = Some n \<Longrightarrow> \<exists>k. n = k + 1 \<and> answered p k i"
    "i < length (sp_records p) \<Longrightarrow> sr_status (rec_at p i) = StatusPending \<Longrightarrow> i \<in> pq_record ` set (sp_pendingRequests p) \<or> i \<in> X"
  using assms by (simp_all add: linked_but_def)

lemma linked_butI:
  assumes "distinct (map pq_record (sp_pendingRequests p))" "\<And>q. q \<in> set (sp_pendingRequests p) \<Longrightarrow> waiting p q"
    "\<And>i n. i < length (sp_records p) \<Longrightarrow> sr_responseId (rec_at p i) = Some n \<Longrightarrow> \<exists>j. n = j + 1 \<and> answered p i j"
    "\<And>i n. i < length (sp_records p) \<Longrightarrow> sr_requestId (rec_at p i) = Some n \<Longrightarrow> \<exists>k. n = k + 1 \<and> answered p k i"
    "\<And>i. i < length (sp_records p) \<Longrightarrow> sr_status (rec_at p i) = StatusPending \<Longrightarrow> i \<in> pq_record ` set (sp_pendingRequests p) \<or> i \<in> X"
  shows "linked_but X p"
  using assms by (simp add: linked_but_def)

text \<open>Only the records and the table matter.\<close>

lemma linked_but_cong:
  assumes "sp_records q = sp_records p" "sp_pendingRequests q = sp_pendingRequests p"
  shows "linked_but X q = linked_but X p"
proof -
  have "waiting q = waiting p" "answered q = answered p" by (simp_all add: fun_eq_iff waiting_def answered_def assms)
  then show ?thesis by (simp add: linked_but_def assms)
qed

text \<open>An update that leaves the identity and the links of a record alone.\<close>

definition core_of :: "smp_record \<Rightarrow> smp_direction \<times> int \<times> smp_header option \<times> nat option \<times> nat option \<times> int option" where
  "core_of r = (sr_direction r, sr_timestamp r, sr_header r, sr_requestId r, sr_responseId r, sr_rtt r)"

lemma core_update:
  assumes "core_of (f (rec_at p i)) = core_of (rec_at p i)"
  shows "core_of (rec_at (update_rec i f p) k) = core_of (rec_at p k)"
  using assms by (cases "i < length (sp_records p)") (auto simp: update_rec_def nth_list_update list_update_beyond)

lemma update_rec_fields [simp]:
  "length (sp_records (update_rec i f p)) = length (sp_records p)"
  "sp_pendingRequests (update_rec i f p) = sp_pendingRequests p"
  by (simp_all add: update_rec_def)

lemma same_cores:
  assumes "\<And>k. core_of (rec_at q k) = core_of (rec_at p k)" "length (sp_records q) = length (sp_records p)"
  shows "waiting q = waiting p" "answered q = answered p" "sr_responseId (rec_at q k) = sr_responseId (rec_at p k)"
    "sr_requestId (rec_at q k) = sr_requestId (rec_at p k)"
proof -
  note c = assms(1) [unfolded core_of_def prod.inject]
  show "waiting q = waiting p" by (simp add: fun_eq_iff waiting_def assms(2) c)
  show "answered q = answered p" by (simp add: fun_eq_iff answered_def Let_def assms(2) c)
  show "sr_responseId (rec_at q k) = sr_responseId (rec_at p k)" "sr_requestId (rec_at q k) = sr_requestId (rec_at p k)"
    by (simp_all add: c)
qed

lemma linked_update:
  assumes "linked_but X p" "\<And>r. core_of (f r) = core_of r" "X \<subseteq> Y \<or> (X \<subseteq> insert i Y \<and> (\<forall>r. sr_status (f r) \<noteq> StatusPending))"
    "i \<in> Y \<or> (\<forall>r. sr_status (f r) = StatusPending \<longrightarrow> sr_status r = StatusPending)"
  shows "linked_but Y (update_rec i f p)"
proof -
  have c: "core_of (rec_at (update_rec i f p) k) = core_of (rec_at p k)" for k by (rule core_update) (rule assms(2))
  note s = same_cores [OF c, simplified]
  show ?thesis
  proof (rule linked_butI)
    fix k assume k: "k < length (sp_records (update_rec i f p))" "sr_status (rec_at (update_rec i f p) k) = StatusPending"
    then show "k \<in> pq_record ` set (sp_pendingRequests (update_rec i f p)) \<or> k \<in> Y"
      using assms(3,4) linked_butD(5) [OF assms(1), of k] by (cases "k = i") (auto simp: update_rec_def nth_list_update)
  qed (use linked_butD [OF assms(1)] in \<open>simp_all add: s\<close>)
qed

section \<open>Requests that leave the table\<close>

lemma warned_status: "dg_severity d = SevWarning \<Longrightarrow> statusFor (ds @ [d]) s \<noteq> StatusPending"
  by (simp add: statusFor_def)

lemma settled_status: "statusFor ds StatusOk \<noteq> StatusPending"
  by (simp add: statusFor_def)

lemma linked_mark: "linked_but X p \<Longrightarrow> linked_but (X - {i}) (markRequestUnmatched i p)"
  unfolding markRequestUnmatched_def
  by (rule linked_update) (auto simp: core_of_def Let_def settled_status)

lemma linked_mark_all:
  "linked_but (X \<union> pq_record ` set qs) p \<Longrightarrow> X \<inter> pq_record ` set qs = {} \<Longrightarrow> distinct (map pq_record qs) \<Longrightarrow>
    linked_but X (fold (\<lambda>q. markRequestUnmatched (pq_record q)) qs p)"
proof (induction qs arbitrary: p)
  case (Cons q qs)
  have "(X \<union> pq_record ` set (q # qs)) - {pq_record q} = X \<union> pq_record ` set qs" using Cons.prems(2,3) by auto
  then have "linked_but (X \<union> pq_record ` set qs) (markRequestUnmatched (pq_record q) p)"
    using linked_mark [OF Cons.prems(1), of "pq_record q"] by simp
  then show ?case using Cons.IH Cons.prems(2,3) by simp
qed simp

lemma pending_only:
  "waiting (p\<lparr>sp_pendingRequests := ps\<rparr>) = waiting p" "answered (p\<lparr>sp_pendingRequests := ps\<rparr>) = answered p"
  by (simp_all add: fun_eq_iff waiting_def answered_def)

lemma linked_shrink:
  assumes "linked_but X p" "set ps \<subseteq> set (sp_pendingRequests p)" "distinct (map pq_record ps)"
  shows "linked_but (X \<union> pq_record ` (set (sp_pendingRequests p) - set ps)) (p\<lparr>sp_pendingRequests := ps\<rparr>)"
proof (rule linked_butI)
  let ?p = "p\<lparr>sp_pendingRequests := ps\<rparr>"
  fix i assume "i < length (sp_records ?p)" "sr_status (rec_at ?p i) = StatusPending"
  then have "i \<in> pq_record ` set (sp_pendingRequests p) \<or> i \<in> X" using linked_butD(5) [OF assms(1), of i] by simp
  then show "i \<in> pq_record ` set (sp_pendingRequests ?p) \<or> i \<in> X \<union> pq_record ` (set (sp_pendingRequests p) - set ps)" by auto
qed (use assms(2,3) linked_butD(2-4) [OF assms(1)] in \<open>auto simp: pending_only\<close>)

lemma expire_fields:
  "sp_pendingRequests (expirePendingRequests now p) = filter (\<lambda>q. pq_expiresAt q > now) (sp_pendingRequests p)"
  "length (sp_records (expirePendingRequests now p)) = length (sp_records p)"
  "core_of (rec_at (expirePendingRequests now p) k) = core_of (rec_at p k)"
proof -
  have m: "sp_pendingRequests (markRequestUnmatched i r) = sp_pendingRequests r"
    "length (sp_records (markRequestUnmatched i r)) = length (sp_records r)"
    "core_of (rec_at (markRequestUnmatched i r) k) = core_of (rec_at r k)" for i r
    by (simp_all add: markRequestUnmatched_def) (rule core_update, simp add: core_of_def Let_def)
  have "sp_pendingRequests (fold (\<lambda>q. markRequestUnmatched (pq_record q)) qs r) = sp_pendingRequests r \<and>
    length (sp_records (fold (\<lambda>q. markRequestUnmatched (pq_record q)) qs r)) = length (sp_records r) \<and>
    core_of (rec_at (fold (\<lambda>q. markRequestUnmatched (pq_record q)) qs r) k) = core_of (rec_at r k)" for qs :: "pending_request list" and r
    by (induction qs arbitrary: r) (simp_all add: m)
  from this [THEN conjunct1] this [THEN conjunct2, THEN conjunct1] this [THEN conjunct2, THEN conjunct2] show "sp_pendingRequests (expirePendingRequests now p) = filter (\<lambda>q. pq_expiresAt q > now) (sp_pendingRequests p)"
    "length (sp_records (expirePendingRequests now p)) = length (sp_records p)"
    "core_of (rec_at (expirePendingRequests now p) k) = core_of (rec_at p k)"
    by (simp_all add: expirePendingRequests_def)
qed

lemma linked_expire:
  assumes "linked p"
  shows "linked (expirePendingRequests now p)"
proof -
  let ?ps = "sp_pendingRequests p"
  let ?out = "filter (\<lambda>q. pq_expiresAt q \<le> now) ?ps"
  have l: "linked_but {} p" "length ?ps \<le> DEFAULT_SMP_MAX_PENDING_REQUESTS" using assms by (simp_all add: linked_def)
  have d: "distinct (map pq_record (filter f ?ps))" for f by (rule distinct_map_filter [OF linked_butD(1) [OF l(1)]])
  have "set ?ps - set (filter (\<lambda>q. pq_expiresAt q > now) ?ps) = set ?out" by auto
  then have "linked_but (pq_record ` set (rev ?out)) (p\<lparr>sp_pendingRequests := filter (\<lambda>q. pq_expiresAt q > now) ?ps\<rparr>)"
    using linked_shrink [OF l(1) _ d, of "\<lambda>q. pq_expiresAt q > now"] by simp
  then have "linked_but {} (expirePendingRequests now p)"
    unfolding expirePendingRequests_def
    by (intro linked_mark_all) (use d [of "\<lambda>q. pq_expiresAt q \<le> now"] in \<open>simp_all add: rev_map [symmetric]\<close>)
  moreover have "length (sp_pendingRequests (expirePendingRequests now p)) \<le> DEFAULT_SMP_MAX_PENDING_REQUESTS"
    using l(2) le_trans [OF length_filter_le] by (simp add: expire_fields(1))
  ultimately show ?thesis by (simp add: linked_def)
qed

lemma linked_evict: "linked_but {} p \<Longrightarrow> linked (evict_requests p)"
proof (induction p rule: evict_requests.induct)
  case (1 p)
  show ?case
  proof (cases "length (sp_pendingRequests p) > DEFAULT_SMP_MAX_PENDING_REQUESTS")
    case True
    then obtain q qs where q: "sp_pendingRequests p = q # qs" by (cases "sp_pendingRequests p") simp_all
    have d: "pq_record q \<notin> pq_record ` set qs" "distinct (map pq_record qs)" using linked_butD(1) [OF 1(2)] q by auto
    have "linked_but {pq_record q} (p\<lparr>sp_pendingRequests := qs\<rparr>)"
      proof -
      have "set (q # qs) - set qs = {q}" using d(1) by auto
      then show ?thesis using linked_shrink [OF 1(2), of qs] d q by auto
    qed
    from linked_mark [OF this, of "pq_record q"] show ?thesis
      using 1(1) True q by (subst evict_requests.simps) simp
  next
    case False
    then show ?thesis using 1(2) by (subst evict_requests.simps) (simp add: linked_def)
  qed
qed

section \<open>Correlation\<close>

text \<open>A record just added.\<close>

definition fresh_record :: "nat \<Rightarrow> smp_parser \<Rightarrow> bool" where
  "fresh_record i p \<longleftrightarrow> i < length (sp_records p) \<and> sr_responseId (rec_at p i) = None \<and> sr_requestId (rec_at p i) = None \<and>
     (\<forall>q\<in>set (sp_pendingRequests p). pq_record q < i)"

lemma find_index_Some: "find_index f xs = Some k \<Longrightarrow> k < length xs \<and> f (xs ! k)"
  by (induction xs arbitrary: k) (auto split: if_splits)

lemma linked_append:
  assumes "linked_but {i} p" "fresh_record i p" "waiting p q" "pq_record q = i"
  shows "linked_but {} (p\<lparr>sp_pendingRequests := sp_pendingRequests p @ [q]\<rparr>)"
proof (rule linked_butI)
  let ?p = "p\<lparr>sp_pendingRequests := sp_pendingRequests p @ [q]\<rparr>"
  show "distinct (map pq_record (sp_pendingRequests ?p))"
    using linked_butD(1) [OF assms(1)] assms(2,4) by (auto simp: fresh_record_def)
  fix k assume "k < length (sp_records ?p)" "sr_status (rec_at ?p k) = StatusPending"
  then show "k \<in> pq_record ` set (sp_pendingRequests ?p) \<or> k \<in> {}" using linked_butD(5) [OF assms(1), of k] assms(4) by auto
qed (use assms(3) linked_butD(2-4) [OF assms(1)] in \<open>auto simp: pending_only\<close>)

lemma remove_nth:
  "k < length xs \<Longrightarrow> distinct (map f xs) \<Longrightarrow>
    distinct (map f (take k xs @ drop (Suc k) xs)) \<and> f (xs ! k) \<notin> f ` set (take k xs @ drop (Suc k) xs) \<and>
    set xs = insert (xs ! k) (set (take k xs @ drop (Suc k) xs))"
proof (induction xs arbitrary: k)
  case (Cons x xs)
  show ?case
  proof (cases k)
    case (Suc m)
    have n: "m < length xs" "distinct (map f xs)" "f x \<notin> f ` set xs" using Cons.prems Suc by simp_all
    have s: "set xs = insert (xs ! m) (set (take m xs @ drop (Suc m) xs))" using Cons.IH [OF n(1,2)] by blast
    have "f x \<notin> f ` set (take m xs @ drop (Suc m) xs)" "f x \<noteq> f (xs ! m)" using n(3) unfolding s by blast+
    then show ?thesis using Cons.IH [OF n(1,2)] s Suc by auto
  qed (use Cons.prems in simp)
qed simp

lemma response_op: "same_transaction a b \<Longrightarrow> b = Some h \<Longrightarrow> expectedResponseOp (hd_op h) = None"
  by (auto simp: same_transaction_def expectedResponseOp_def split: option.splits if_splits)

text \<open>The request \<open>j\<close> at position \<open>k\<close> of the table answered by the record \<open>i\<close>.\<close>

definition answer :: "nat \<Rightarrow> nat \<Rightarrow> nat \<Rightarrow> smp_parser \<Rightarrow> smp_parser" where
  "answer i j k p =
     (let rtt = max 0 (sr_timestamp (rec_at p i) - sr_timestamp (rec_at p j));
          p1 = p\<lparr>sp_pendingRequests := take k (sp_pendingRequests p) @ drop (Suc k) (sp_pendingRequests p)\<rparr>;
          p2 = update_rec j (\<lambda>r. r\<lparr>sr_responseId := Some (i + 1), sr_rtt := Some rtt, sr_status := statusFor (sr_diagnostics r) StatusOk\<rparr>) p1
      in update_rec i (\<lambda>r. r\<lparr>sr_requestId := Some (j + 1), sr_rtt := Some rtt\<rparr>) p2)"

lemma answer_records:
  assumes "j < i" "i < length (sp_records p)"
  shows "length (sp_records (answer i j k p)) = length (sp_records p)"
    "sp_pendingRequests (answer i j k p) = take k (sp_pendingRequests p) @ drop (Suc k) (sp_pendingRequests p)"
    "m \<noteq> i \<Longrightarrow> m \<noteq> j \<Longrightarrow> rec_at (answer i j k p) m = rec_at p m"
    "rec_at (answer i j k p) j = (rec_at p j)\<lparr>sr_responseId := Some (i + 1),
       sr_rtt := Some (max 0 (sr_timestamp (rec_at p i) - sr_timestamp (rec_at p j))), sr_status := statusFor (sr_diagnostics (rec_at p j)) StatusOk\<rparr>"
    "rec_at (answer i j k p) i = (rec_at p i)\<lparr>sr_requestId := Some (j + 1),
       sr_rtt := Some (max 0 (sr_timestamp (rec_at p i) - sr_timestamp (rec_at p j)))\<rparr>"
  using assms by (simp_all add: answer_def Let_def update_rec_def)

lemma linked_answer:
  assumes l: "linked_but {} p" and fr: "fresh_record i p" and k: "k < length (sp_pendingRequests p)"
    and j: "j = pq_record (sp_pendingRequests p ! k)" and dir: "sr_direction (rec_at p j) \<noteq> sr_direction (rec_at p i)"
    and t: "same_transaction (sr_header (rec_at p j)) (sr_header (rec_at p i))"
    and rtt: "sr_timestamp (rec_at p i) < sr_timestamp (rec_at p j) + DEFAULT_SMP_REQUEST_TIMEOUT_MS"
  shows "linked_but {} (answer i j k p)"
proof -
  let ?ps = "sp_pendingRequests p"
  let ?q = "?ps ! k"
  let ?p = "answer i j k p"
  have q: "?q \<in> set ?ps" using k by simp
  have ji: "j < i" "i < length (sp_records p)" using fr q j by (auto simp: fresh_record_def)
  note r = answer_records [OF ji, where k = k]
  note rm = remove_nth [OF k linked_butD(1) [OF l]]
  have d: "distinct (map pq_record (take k ?ps @ drop (Suc k) ?ps))" "j \<notin> pq_record ` set (take k ?ps @ drop (Suc k) ?ps)"
    and sub: "set ?ps = insert ?q (set (take k ?ps @ drop (Suc k) ?ps))"
    using rm unfolding j by blast+
  have wj: "waiting p ?q" using linked_butD(2) [OF l q] .
  then have nj: "sr_responseId (rec_at p j) = None" and hj: "\<exists>h. sr_header (rec_at p j) = Some h \<and> expectedResponseOp (hd_op h) \<noteq> None"
    by (auto simp: waiting_def j split: option.splits)
  have ni: "sr_responseId (rec_at p i) = None" "sr_requestId (rec_at p i) = None" using fr by (simp_all add: fresh_record_def)
  have keep: "answered ?p a b" if "answered p a b" for a b
  proof -
    have "b \<noteq> j" using response_op [of "sr_header (rec_at p a)" "sr_header (rec_at p b)"] hj that
      by (auto simp: answered_def Let_def)
    moreover have "a \<noteq> j" "a \<noteq> i" "b \<noteq> i" using that ni nj by (auto simp: answered_def Let_def)
    ultimately show ?thesis using that r by (simp add: answered_def Let_def)
  qed
  have new: "answered ?p j i" using ji r dir t rtt by (simp add: answered_def Let_def DEFAULT_SMP_REQUEST_TIMEOUT_MS_def)
  show ?thesis
  proof (rule linked_butI)
    show "distinct (map pq_record (sp_pendingRequests ?p))" using d(1) r(2) by simp
  next
    fix q' assume "q' \<in> set (sp_pendingRequests ?p)"
    then have q': "q' \<in> set ?ps" "pq_record q' \<noteq> j" using d(2) sub r(2) by auto
    then have "pq_record q' \<noteq> i" using fr by (auto simp: fresh_record_def)
    then show "waiting ?p q'" using linked_butD(2) [OF l q'(1)] q'(2) r(1,3) by (simp add: waiting_def)
  next
    fix a n assume "a < length (sp_records ?p)" "sr_responseId (rec_at ?p a) = Some n"
    moreover have "a \<noteq> j \<Longrightarrow> sr_responseId (rec_at ?p a) = sr_responseId (rec_at p a)" using r(3,5) by (cases "a = i") simp_all
    moreover have "sr_responseId (rec_at ?p j) = Some (i + 1)" using r(4) by simp
    ultimately show "\<exists>b. n = b + 1 \<and> answered ?p a b"
      using linked_butD(3) [OF l, of a n] keep new r(1) by (cases "a = j") fastforce+
  next
    fix b n assume "b < length (sp_records ?p)" "sr_requestId (rec_at ?p b) = Some n"
    moreover have "b \<noteq> i \<Longrightarrow> sr_requestId (rec_at ?p b) = sr_requestId (rec_at p b)" using r(3,4) by (cases "b = j") simp_all
    moreover have "sr_requestId (rec_at ?p i) = Some (j + 1)" using r(5) by simp
    ultimately show "\<exists>a. n = a + 1 \<and> answered ?p a b"
      using linked_butD(4) [OF l, of b n] keep new r(1) by (cases "b = i") fastforce+
  next
    fix m assume m: "m < length (sp_records ?p)" "sr_status (rec_at ?p m) = StatusPending"
    have "m \<noteq> j" using m(2) r(4) settled_status by auto
    have "sr_status (rec_at p m) = StatusPending" using m(2) \<open>m \<noteq> j\<close> r(3,5) by (cases "m = i") auto
    then have "m \<in> pq_record ` set ?ps" using linked_butD(5) [OF l, of m] m(1) r(1) by simp
    then show "m \<in> pq_record ` set (sp_pendingRequests ?p) \<or> m \<in> {}" using sub j \<open>m \<noteq> j\<close> r(2) by auto
  qed
qed

lemma fresh_core:
  assumes "fresh_record i p" "core_of (rec_at q i) = core_of (rec_at p i)" "length (sp_records q) = length (sp_records p)"
    "set (sp_pendingRequests q) \<subseteq> set (sp_pendingRequests p)"
  shows "fresh_record i q"
  using assms by (auto simp: fresh_record_def core_of_def)

lemma linked_correlate:
  assumes "linked p0" "fresh_record i p0"
  shows "linked (correlate i p0)"
proof (cases "sr_header (rec_at p0 i)")
  case None
  then show ?thesis using assms(1) by (simp add: correlate_def)
next
  case (Some header)
  let ?p = "expirePendingRequests (sr_timestamp (rec_at p0 i)) p0"
  have l: "linked ?p" by (rule linked_expire [OF assms(1)])
  then have l0: "linked_but {} ?p" by (simp add: linked_def)
  have c: "core_of (rec_at ?p k) = core_of (rec_at p0 k)" for k by (rule expire_fields(3))
  have fr: "fresh_record i ?p" by (rule fresh_core [OF assms(2) c]) (auto simp: expire_fields)
  have h: "sr_header (rec_at ?p i) = Some header" "sr_timestamp (rec_at ?p i) = sr_timestamp (rec_at p0 i)"
    using c [of i] Some by (simp_all add: core_of_def)
  consider op where "expectedResponseOp (hd_op header) = Some op"
    | "expectedResponseOp (hd_op header) = None" "smpRequestResponse (hd_op header) \<noteq> SmpResponse"
    | "expectedResponseOp (hd_op header) = None" "smpRequestResponse (hd_op header) = SmpResponse"
      "find_index (request_matches ?p (rec_at ?p i) header) (sp_pendingRequests ?p) = None"
    | k where "expectedResponseOp (hd_op header) = None" "smpRequestResponse (hd_op header) = SmpResponse"
      "find_index (request_matches ?p (rec_at ?p i) header) (sp_pendingRequests ?p) = Some k"
    by blast
  then show ?thesis
  proof cases
    case (1 op)
    let ?p1 = "if sr_status (rec_at ?p i) = StatusOk then update_rec i (\<lambda>r. r\<lparr>sr_status := StatusPending\<rparr>) ?p else ?p"
    have c1: "core_of (rec_at ?p1 k) = core_of (rec_at ?p k)" for k
      using core_update [of "\<lambda>r. r\<lparr>sr_status := StatusPending\<rparr>" ?p i k] by (simp add: core_of_def)
    have "linked_but {i} ?p1"
    proof (cases "sr_status (rec_at ?p i) = StatusOk")
      case True
      have "linked_but {i} (update_rec i (\<lambda>r. r\<lparr>sr_status := StatusPending\<rparr>) ?p)"
        by (rule linked_update [OF l0]) (auto simp: core_of_def)
      then show ?thesis using True by simp
    next
      case False
      then show ?thesis using linked_butI [of ?p "{i}"] linked_butD [OF l0] by auto
    qed
    moreover have "fresh_record i ?p1" by (rule fresh_core [OF fr c1]) simp_all
    moreover have "waiting ?p1 \<lparr>pq_record = i, pq_expectedOp = op, pq_expiresAt = sr_timestamp (rec_at ?p i) + DEFAULT_SMP_REQUEST_TIMEOUT_MS\<rparr>"
      using same_cores(1) [of ?p1 ?p] c1 fr h 1 by (simp add: waiting_def fresh_record_def)
    ultimately have "linked_but {} (?p1\<lparr>sp_pendingRequests := sp_pendingRequests ?p1 @
        [\<lparr>pq_record = i, pq_expectedOp = op, pq_expiresAt = sr_timestamp (rec_at ?p i) + DEFAULT_SMP_REQUEST_TIMEOUT_MS\<rparr>]\<rparr>)"
      by (rule linked_append) simp
    from linked_evict [OF this] show ?thesis unfolding correlate_def Some option.case Let_def 1 .
  next
    case 2
    then show ?thesis using l unfolding correlate_def Some option.case Let_def by simp
  next
    case 3
    let ?f = "\<lambda>r. let diagnostics = sr_diagnostics r @ [\<lparr>dg_code = ''smp.transaction.orphan-response'', dg_severity = SevWarning, dg_range = None\<rparr>]
       in r\<lparr>sr_diagnostics := diagnostics, sr_status := statusFor diagnostics (sr_status r)\<rparr>"
    have "linked_but {} (update_rec i ?f ?p)"
      by (rule linked_update [OF l0]) (auto simp: core_of_def Let_def warned_status)
    then have "linked (update_rec i ?f ?p)" using l by (simp add: linked_def)
    then show ?thesis unfolding correlate_def Some option.case Let_def 3 by simp
  next
    case (4 k)
    let ?j = "pq_record (sp_pendingRequests ?p ! k)"
    have k: "k < length (sp_pendingRequests ?p)" "request_matches ?p (rec_at ?p i) header (sp_pendingRequests ?p ! k)"
      using find_index_Some [OF 4(3)] by simp_all
    have q: "sp_pendingRequests ?p ! k \<in> set (sp_pendingRequests ?p)" using k(1) by simp
    then have w: "waiting ?p (sp_pendingRequests ?p ! k)" using linked_butD(2) [OF l0] by blast
    have "pq_expiresAt (sp_pendingRequests ?p ! k) > sr_timestamp (rec_at p0 i)" using q by (simp add: expire_fields(1))
    then have t: "sr_timestamp (rec_at ?p i) < sr_timestamp (rec_at ?p ?j) + DEFAULT_SMP_REQUEST_TIMEOUT_MS" using w h by (simp add: waiting_def)
    have m: "sr_direction (rec_at ?p ?j) \<noteq> sr_direction (rec_at ?p i)" "same_transaction (sr_header (rec_at ?p ?j)) (sr_header (rec_at ?p i))"
      using k(2) w h by (auto simp: request_matches_def same_transaction_def waiting_def split: option.splits)
    have "linked_but {} (answer i ?j k ?p)" by (rule linked_answer [OF l0 fr k(1) refl m t])
    moreover have "length (sp_pendingRequests (answer i ?j k ?p)) \<le> DEFAULT_SMP_MAX_PENDING_REQUESTS"
      using l k(1) by (auto simp: answer_def Let_def linked_def min_def intro: le_trans [OF diff_le_self])
    ultimately have "linked (answer i ?j k ?p)" by (simp add: linked_def)
    then show ?thesis using h(2) unfolding correlate_def Some option.case Let_def 4 answer_def by simp
  qed
qed

text \<open>A new record that nothing points at.\<close>

lemma linked_add:
  assumes "linked p" "sr_responseId r = None" "sr_requestId r = None" "sr_status r \<noteq> StatusPending"
  shows "linked (snd (add_rec r p))" "fresh_record (length (sp_records p)) (snd (add_rec r p))"
proof -
  let ?p = "snd (add_rec r p)"
  have l: "linked_but {} p" using assms(1) by (simp add: linked_def)
  have w: "waiting p q \<Longrightarrow> waiting ?p q" for q by (auto simp: waiting_def add_rec_def nth_append)
  have a: "answered p i j \<Longrightarrow> answered ?p i j" for i j by (auto simp: answered_def Let_def add_rec_def nth_append)
  have old: "i < length (sp_records p)" "rec_at ?p i = rec_at p i" if "i < length (sp_records ?p)" "rec_at ?p i \<noteq> r" for i
    using that by (auto simp: add_rec_def nth_append less_Suc_eq)
  have "linked_but {} ?p"
  proof (rule linked_butI)
    show "distinct (map pq_record (sp_pendingRequests ?p))" using linked_butD(1) [OF l] by (simp add: add_rec_def)
  next
    fix q assume "q \<in> set (sp_pendingRequests ?p)"
    then show "waiting ?p q" using w linked_butD(2) [OF l] by (simp add: add_rec_def)
  next
    fix i n assume i: "i < length (sp_records ?p)" "sr_responseId (rec_at ?p i) = Some n"
    then have "rec_at ?p i \<noteq> r" using assms(2) by auto
    then show "\<exists>j. n = j + 1 \<and> answered ?p i j" using old [OF i(1)] i(2) linked_butD(3) [OF l, of i n] a by auto
  next
    fix i n assume i: "i < length (sp_records ?p)" "sr_requestId (rec_at ?p i) = Some n"
    then have "rec_at ?p i \<noteq> r" using assms(3) by auto
    then show "\<exists>k. n = k + 1 \<and> answered ?p k i" using old [OF i(1)] i(2) linked_butD(4) [OF l, of i n] a by auto
  next
    fix i assume i: "i < length (sp_records ?p)" "sr_status (rec_at ?p i) = StatusPending"
    then have "rec_at ?p i \<noteq> r" using assms(4) by auto
    then show "i \<in> pq_record ` set (sp_pendingRequests ?p) \<or> i \<in> {}"
      using old [OF i(1)] i(2) linked_butD(5) [OF l, of i] by (simp add: add_rec_def)
  qed
  then show "linked ?p" using assms(1) by (simp add: linked_def add_rec_def)
  show "fresh_record (length (sp_records p)) ?p"
    using linked_butD(2) [OF l] assms(2,3) by (auto simp: fresh_record_def add_rec_def waiting_def)
qed

lemma linked_states: "linked (with_dir d f p) = linked p"
  by (simp add: linked_def linked_but_cong [of "with_dir d f p" p])

lemma linked_direction: "direction_store e linked"
proof
  fix p ts cs off dat c sev
  assume "linked p"
  then show "linked (snd (transportErrorRecord e ts cs off dat c sev p))"
    by (simp add: transportErrorRecord_def Let_def linked_add settled_status)
next
  fix p lib m off and ctx :: transport_context
  assume l: "linked p"
  have "sr_status (message_record lib m ctx off) \<noteq> StatusPending"
    by (simp add: message_record_def Let_def split_beta settled_status)
  then show "linked (snd (decodeMessage lib m ctx off p))"
    using linked_add [OF l, of "message_record lib m ctx off"]
    by (simp add: decodeMessage_def split_beta linked_correlate message_record_def Let_def add_rec_def)
next
  fix p i off n
  assume l: "linked p"
  then have "linked_but {} (push_padding i off n p)"
    unfolding push_padding_def
    by (intro linked_update [of "{}"]) (auto simp: linked_def core_of_def Let_def warned_status warning_def)
  then show "linked (push_padding i off n p)" using l by (simp add: linked_def push_padding_def)
qed (simp_all add: linked_states)

interpretation links: store_invariant linked
  by unfold_locales (simp_all add: linked_states linked_direction [unfolded direction_store_def] linked_expire)

section \<open>What is proved\<close>

lemma new_linked: "new_smp_parser transport maxPacket timeout = Inr p \<Longrightarrow> linked p"
  by (auto simp: new_smp_parser_def linked_def linked_but_def split: option.splits if_splits)

text \<open>C36. Requests and responses are linked consistently, on either transport, whatever is fed and
  whenever timers fire: a response identifier on a request and a request identifier on a response
  name each other, and such a pair came in opposite directions, with the operation the request
  expects, the same group, command and sequence number, within the request timeout, with the same
  round-trip time on both; a record is shown as pending only while it is in the table, which never
  holds more than 256 requests.
\<close>

theorem smp_links:
  assumes "new_smp_parser transport maxPacket timeout = Inr p0" "p = fold (smp_step lib) events p0"
  shows "(\<forall>i<length (sp_records p).
      (\<forall>n. sr_responseId (rec_at p i) = Some n \<longrightarrow> (\<exists>j. n = j + 1 \<and> answered p i j)) \<and>
      (\<forall>n. sr_requestId (rec_at p i) = Some n \<longrightarrow> (\<exists>j. n = j + 1 \<and> answered p j i)) \<and>
      (sr_status (rec_at p i) = StatusPending \<longrightarrow> i \<in> pq_record ` set (sp_pendingRequests p))) \<and>
    distinct (map pq_record (sp_pendingRequests p)) \<and> length (sp_pendingRequests p) \<le> 256"
proof -
  have l: "linked_but {} p" "length (sp_pendingRequests p) \<le> 256"
    using links.keep_steps [OF new_linked [OF assms(1)], of lib events] assms(2)
    by (simp_all add: linked_def DEFAULT_SMP_MAX_PENDING_REQUESTS_def)
  show ?thesis using linked_butD [OF l(1)] l(2) by simp
qed

text \<open>A read request and its response, ten milliseconds later.\<close>

abbreviation example_exchange :: "smp_event list" where
  "example_exchange \<equiv>
    [SmpFeed \<lparr>tc_direction = TX, tc_data = [0, 0, 0, 0, 0, 0, 5, 0], tc_timestamp = 10, tc_captureSeq = None\<rparr>,
     SmpFeed \<lparr>tc_direction = RX, tc_data = [1, 0, 0, 0, 0, 0, 5, 0], tc_timestamp = 20, tc_captureSeq = None\<rparr>]"

theorem smp_links_witness:
  "let p = fold (smp_step example_lib) example_exchange example_raw_parser in
    (\<forall>i<length (sp_records p).
      (\<forall>n. sr_responseId (rec_at p i) = Some n \<longrightarrow> (\<exists>j. n = j + 1 \<and> answered p i j)) \<and>
      (\<forall>n. sr_requestId (rec_at p i) = Some n \<longrightarrow> (\<exists>j. n = j + 1 \<and> answered p j i)) \<and>
      (sr_status (rec_at p i) = StatusPending \<longrightarrow> i \<in> pq_record ` set (sp_pendingRequests p))) \<and>
    distinct (map pq_record (sp_pendingRequests p)) \<and> length (sp_pendingRequests p) \<le> 256"
  unfolding Let_def by (rule smp_links [OF example_raw_new refl])

end
