(* ===== verification/SmpTimers.thy ===== *)
theory SmpTimers
  imports SmpRecords
begin

text \<open>
  Timers: \<open>nextExpiryTimestamp\<close> is exactly when \<open>flushExpired\<close> next has something to do,
  so that a host that arms one timer for it misses nothing and is never woken for nothing.
\<close>

section \<open>The earliest of the deadlines\<close>

definition direction_deadlines :: "smp_parser \<Rightarrow> smp_direction \<Rightarrow> int list" where
  "direction_deadlines p d =
     (case console_last (dir_state d p) of None \<Rightarrow> [] | Some t \<Rightarrow> [t + sp_reassemblyTimeoutMs p]) @
     (if dn_rawBuffer (dir_state d p) = [] then [] else [dn_rawLastTimestamp (dir_state d p) + sp_reassemblyTimeoutMs p])"

definition deadlines :: "smp_parser \<Rightarrow> int list" where
  "deadlines p = direction_deadlines p TX @ direction_deadlines p RX @ map pq_expiresAt (sp_pendingRequests p)"

lemma earlier_fold: "foldl earlierTimestamp (Some x) xs = Some (Min (insert x (set xs)))"
proof (induction xs arbitrary: x)
  case (Cons y ys)
  have "earlierTimestamp (Some x) y = Some (min x y)" by (simp add: earlierTimestamp_def min_def)
  moreover have "Min (insert (min x y) (set ys)) = Min (insert x (insert y (set ys)))" by (simp add: insert_commute)
      (metis Min_insert finite_set list.set(1) min.assoc min.commute Min_singleton)
  ultimately show ?case by (simp add: Cons.IH)
qed simp

lemma next_expiry: "nextExpiryTimestamp p = (if deadlines p = [] then None else Some (Min (set (deadlines p))))"
proof -
  have d: "direction_expiry p d next = foldl earlierTimestamp next (direction_deadlines p d)" for d "next"
    by (simp add: direction_expiry_def direction_deadlines_def Let_def split: option.split)
  have m: "foldl (\<lambda>n q. earlierTimestamp n (pq_expiresAt q)) a qs = foldl earlierTimestamp a (map pq_expiresAt qs)" for a and qs :: "pending_request list"
    by (induction qs arbitrary: a) simp_all
  have "nextExpiryTimestamp p = foldl earlierTimestamp None (deadlines p)"
    by (simp add: nextExpiryTimestamp_def d m deadlines_def)
  also have "\<dots> = (if deadlines p = [] then None else Some (Min (set (deadlines p))))"
    by (cases "deadlines p") (simp_all add: earlier_fold earlierTimestamp_def)
  finally show ?thesis .
qed

section \<open>What a flush does\<close>

lemma error_fields:
  "sp_pendingRequests (snd (transportErrorRecord d ts cs off dat c sev p)) = sp_pendingRequests p"
  "sp_reassemblyTimeoutMs (snd (transportErrorRecord d ts cs off dat c sev p)) = sp_reassemblyTimeoutMs p"
  "dir_state x (snd (transportErrorRecord d ts cs off dat c sev p)) = dir_state x p"
proof -
  show "dir_state x (snd (transportErrorRecord d ts cs off dat c sev p)) = dir_state x p"
    by (rule same_states_dir) simp
qed (simp_all add: transportErrorRecord_def Let_def add_rec_def)

lemma flush_console_states:
  "sp_pendingRequests (snd (flush_console now d p)) = sp_pendingRequests p"
  "sp_reassemblyTimeoutMs (snd (flush_console now d p)) = sp_reassemblyTimeoutMs p"
  "e \<noteq> d \<Longrightarrow> dir_state e (snd (flush_console now d p)) = dir_state e p"
  "dn_rawBuffer (dir_state d (snd (flush_console now d p))) = dn_rawBuffer (dir_state d p)"
  "dn_rawLastTimestamp (dir_state d (snd (flush_console now d p))) = dn_rawLastTimestamp (dir_state d p)"
  by (simp_all add: flush_console_def Let_def split_beta error_fields resetConsoleLineState_def split: option.split)

lemma flush_raw_states:
  "sp_pendingRequests (snd (flush_raw now d p)) = sp_pendingRequests p"
  "sp_reassemblyTimeoutMs (snd (flush_raw now d p)) = sp_reassemblyTimeoutMs p"
  "e \<noteq> d \<Longrightarrow> dir_state e (snd (flush_raw now d p)) = dir_state e p"
  "console_last (dir_state d (snd (flush_raw now d p))) = console_last (dir_state d p)"
  by (simp_all add: flush_raw_def Let_def split_beta error_fields resetRawState_def console_last_def)

text \<open>Whether a direction has something due, and what is left of it after the flush.\<close>

lemma flush_console_due:
  "case console_last (dir_state d p) of None \<Rightarrow> flush_console now d p = ([], p)
   | Some t \<Rightarrow> if now < t + sp_reassemblyTimeoutMs p then flush_console now d p = ([], p)
       else fst (flush_console now d p) \<noteq> [] \<and> console_last (dir_state d (snd (flush_console now d p))) = None"
proof (cases "console_last (dir_state d p)")
  case (Some t)
  have n: "\<not> hasPotentialConsoleMarker []" by (simp add: hasPotentialConsoleMarker_def findLastMarkerPrefix_def)
  show ?thesis
    using Some by (auto simp: flush_console_def Let_def split_beta error_fields console_last_def resetConsoleLineState_def n split: option.split)
qed (simp add: flush_console_def Let_def)

lemma flush_raw_due:
  "if dn_rawBuffer (dir_state d p) = [] \<or> now < dn_rawLastTimestamp (dir_state d p) + sp_reassemblyTimeoutMs p
   then flush_raw now d p = ([], p)
   else fst (flush_raw now d p) \<noteq> [] \<and> dn_rawBuffer (dir_state d (snd (flush_raw now d p))) = []"
  by (auto simp: flush_raw_def Let_def split_beta error_fields resetRawState_def)

lemma flush_direction_due:
  "if \<forall>t\<in>set (direction_deadlines p d). now < t then flush_direction now d p = ([], p) else fst (flush_direction now d p) \<noteq> []"
  "t \<in> set (direction_deadlines (snd (flush_direction now d p)) d) \<Longrightarrow> now < t"
proof -
  let ?q = "snd (flush_console now d p)"
  note c = flush_console_due [where d = d and p = p and now = now] and r = flush_raw_due [where d = d and p = ?q and now = now]
  note s = flush_console_states [where p = p and now = now and d = d]
  show "if \<forall>t\<in>set (direction_deadlines p d). now < t then flush_direction now d p = ([], p) else fst (flush_direction now d p) \<noteq> []"
    using c r s by (auto simp: direction_deadlines_def flush_direction_def split_beta not_less split: option.splits if_splits)
  assume "t \<in> set (direction_deadlines (snd (flush_direction now d p)) d)"
  then show "now < t"
    using c r s flush_raw_states [where p = ?q and now = now and d = d]
    by (auto simp: direction_deadlines_def flush_direction_def split_beta split: option.splits if_splits)
qed

lemma flush_direction_states:
  "sp_pendingRequests (snd (flush_direction now d p)) = sp_pendingRequests p"
  "sp_reassemblyTimeoutMs (snd (flush_direction now d p)) = sp_reassemblyTimeoutMs p"
  "e \<noteq> d \<Longrightarrow> dir_state e (snd (flush_direction now d p)) = dir_state e p"
  by (simp_all add: flush_direction_def split_beta flush_console_states flush_raw_states)

lemma deadlines_same:
  "dir_state d q = dir_state d p \<Longrightarrow> sp_reassemblyTimeoutMs q = sp_reassemblyTimeoutMs p \<Longrightarrow> direction_deadlines q d = direction_deadlines p d"
  unfolding direction_deadlines_def by (simp only:)

lemma deadlines_other: "e \<noteq> d \<Longrightarrow> direction_deadlines (snd (flush_direction now d p)) e = direction_deadlines p e"
  by (rule deadlines_same) (simp_all add: flush_direction_states)

lemma expire_pending: "sp_pendingRequests (expirePendingRequests now p) = filter (\<lambda>q. pq_expiresAt q > now) (sp_pendingRequests p)"
proof -
  have "sp_pendingRequests (fold (\<lambda>q. markRequestUnmatched (pq_record q)) qs r) = sp_pendingRequests r" for qs :: "pending_request list" and r
    by (induction qs arbitrary: r) (simp_all add: markRequestUnmatched_def update_rec_def)
  then show ?thesis by (simp add: expirePendingRequests_def)
qed

lemma nothing_expires: "\<forall>q\<in>set (sp_pendingRequests p). pq_expiresAt q > now \<Longrightarrow> expirePendingRequests now p = p"
proof -
  assume a: "\<forall>q\<in>set (sp_pendingRequests p). pq_expiresAt q > now"
  then have "filter (\<lambda>q. pq_expiresAt q > now) (sp_pendingRequests p) = sp_pendingRequests p"
    "filter (\<lambda>q. pq_expiresAt q \<le> now) (sp_pendingRequests p) = []"
    by (auto simp: filter_id_conv filter_empty_conv)
  then show ?thesis unfolding expirePendingRequests_def by simp
qed

lemma flush_due:
  "if \<forall>t\<in>set (deadlines p). now < t then flushExpired now p = ([], p)
   else fst (flushExpired now p) \<noteq> [] \<or> sp_pendingRequests (snd (flushExpired now p)) \<noteq> sp_pendingRequests p"
proof -
  let ?q = "snd (flush_direction now TX p)"
  note t = flush_direction_due(1) [where p = p and d = TX and now = now]
  note r = flush_direction_due(1) [where p = ?q and d = RX and now = now, unfolded deadlines_other [of RX TX, simplified]]
  have f: "fst (flushExpired now p) = fst (flush_direction now TX p) @ fst (flush_direction now RX ?q)"
    "sp_pendingRequests (snd (flushExpired now p)) = filter (\<lambda>q. pq_expiresAt q > now) (sp_pendingRequests p)"
    by (simp_all add: flushExpired_def split_beta expire_pending flush_direction_states)
  show ?thesis
  proof (cases "\<forall>t\<in>set (deadlines p). now < t")
    case True
    then have "flush_direction now TX p = ([], p)" "flush_direction now RX p = ([], p)" "expirePendingRequests now p = p"
      using t r by (auto simp: deadlines_def nothing_expires)
    then show ?thesis using True by (simp add: flushExpired_def)
  next
    case False
    then consider "\<exists>t\<in>set (direction_deadlines p TX). t \<le> now" | "\<exists>t\<in>set (direction_deadlines p RX). t \<le> now"
      | "\<exists>q\<in>set (sp_pendingRequests p). pq_expiresAt q \<le> now"
      by (auto simp: deadlines_def not_less)
    then have "fst (flushExpired now p) \<noteq> [] \<or> sp_pendingRequests (snd (flushExpired now p)) \<noteq> sp_pendingRequests p"
    proof cases
      case 3
      then have "filter (\<lambda>q. pq_expiresAt q > now) (sp_pendingRequests p) \<noteq> sp_pendingRequests p"
        by (metis (mono_tags, lifting) filter_id_conv leD)
      then show ?thesis by (simp add: f)
    qed (use t r in \<open>auto simp: f split: if_splits\<close>)
    then show ?thesis by (simp only: False if_False)
  qed
qed

lemma flush_leaves:
  assumes "t \<in> set (deadlines (snd (flushExpired now p)))"
  shows "now < t"
proof -
  let ?q = "snd (flush_direction now TX p)"
  let ?r = "snd (flush_direction now RX ?q)"
  have s: "same_states ?r (expirePendingRequests now ?r)" by simp
  have "direction_deadlines (expirePendingRequests now ?r) d = direction_deadlines ?r d" for d
    by (rule deadlines_same) (use s in \<open>simp_all add: same_states_dir [OF s], simp add: same_states_def\<close>)
  then show ?thesis
    using assms flush_direction_due(2) [where t = t and now = now and p = p and d = TX] flush_direction_due(2) [where t = t and now = now and p = ?q and d = RX]
    by (auto simp: deadlines_def flushExpired_def split_beta deadlines_other expire_pending)
qed

text \<open>The deadline reported is exact, in any state: with none, or before it, a flush does nothing
  at all; at it or after it a flush reports something or lets a request expire; and after a flush
  the next deadline is in the future.
\<close>

theorem smp_expiry_exact:
  "(case nextExpiryTimestamp p of
      None \<Rightarrow> flushExpired now p = ([], p)
    | Some t \<Rightarrow>
        if now < t then flushExpired now p = ([], p)
        else (fst (flushExpired now p), sp_pendingRequests (snd (flushExpired now p))) \<noteq> ([], sp_pendingRequests p)) \<and>
   (case nextExpiryTimestamp (snd (flushExpired now p)) of None \<Rightarrow> True | Some t \<Rightarrow> now < t)"
proof (intro conjI)
  have m: "(\<forall>t\<in>set (deadlines p). now < t) \<longleftrightarrow> deadlines p = [] \<or> now < Min (set (deadlines p))"
    by (cases "deadlines p = []") simp_all
  show "case nextExpiryTimestamp p of None \<Rightarrow> flushExpired now p = ([], p)
    | Some t \<Rightarrow> if now < t then flushExpired now p = ([], p)
        else (fst (flushExpired now p), sp_pendingRequests (snd (flushExpired now p))) \<noteq> ([], sp_pendingRequests p)"
    using flush_due [where p = p and now = now] unfolding next_expiry m by (cases "deadlines p = []") (auto split: if_splits)
  show "case nextExpiryTimestamp (snd (flushExpired now p)) of None \<Rightarrow> True | Some t \<Rightarrow> now < t"
    using flush_leaves [of _ now p] unfolding next_expiry by (cases "deadlines (snd (flushExpired now p)) = []") simp_all
qed

end
