(* ===== verification/RxMirror.thy ===== *)
theory RxMirror
  imports JsStrings Machine "HOL-Library.Sublist"
begin

text \<open>
  The receive mirror of a serial transaction lease, \<open>BoundedRxMirror\<close> in
  \<open>src/features/serial/application/serial-transaction-lease.ts\<close>, with the error codes and the
  validation functions of that file.

  A read is a promise; reads are numbered, and \<open>mr_results\<close> holds how each settled one ended, in
  the order in which they settled.  The timer and the abort of a read are events that name the read;
  the code compares the pending object, so an event for a read that is no longer pending does
  nothing, whether or not it was cancelled in time.
\<close>

section \<open>Errors and validation\<close>

datatype lease_error =
    LeInvalidInput | LePermissionDenied | LeUnavailable | LeBusy | LeNotFound | LeStaleHandle | LeDisconnected
  | LeTimeout | LeCancelled | LeLimitExceeded | LePartialWrite | LeUnknownOutcome | LeProtocolError | LeIoError

text \<open>\<open>None\<close> is the \<open>RangeError\<close> of the constructor.\<close>

definition validateBoundedInteger :: "jsnum \<Rightarrow> nat \<Rightarrow> nat option" where
  "validateBoundedInteger v maximum =
     (if \<not> js_safe v \<or> js_floor v < 1 \<or> js_floor v > int maximum then None else Some (nat (js_floor v)))"

definition validateRequestInteger :: "jsnum \<Rightarrow> nat \<Rightarrow> lease_error + nat" where
  "validateRequestInteger v maximum =
     (if \<not> js_safe v \<or> js_floor v < 1 then Inl LeInvalidInput
      else if js_floor v > int maximum then Inl LeLimitExceeded
      else Inr (nat (js_floor v)))"

definition validateIdentifier :: "string \<Rightarrow> nat \<Rightarrow> lease_error + string" where
  "validateIdentifier v maximum =
     (if length v = 0 \<or> length v > maximum \<or> list_ex (\<lambda>c. code c \<le> 31 \<or> code c = 127) v then Inl LeInvalidInput else Inr v)"

section \<open>The mirror\<close>

record rx_mirror =
  mr_maxBytes :: nat
  mr_maxChunks :: nat
  mr_chunks :: "bytes list"
  mr_bytes :: nat
  mr_pending :: "(nat \<times> nat) option"
  mr_closed :: "lease_error option"
  mr_reads :: nat
  mr_results :: "(nat \<times> (lease_error + bytes)) list"

definition new_mirror :: "nat \<Rightarrow> nat \<Rightarrow> rx_mirror" where
  "new_mirror maxBytes maxChunks = \<lparr>mr_maxBytes = maxBytes, mr_maxChunks = maxChunks, mr_chunks = [], mr_bytes = 0,
     mr_pending = None, mr_closed = None, mr_reads = 0, mr_results = []\<rparr>"

datatype offer_result =
    OfferIgnored nat
  | OfferMirrored nat
  | OfferBackpressure nat nat

definition mr_append :: "bytes \<Rightarrow> rx_mirror \<Rightarrow> rx_mirror" where
  "mr_append chunk m =
     (if length chunk = 0 then m else m\<lparr>mr_chunks := mr_chunks m @ [chunk], mr_bytes := mr_bytes m + length chunk\<rparr>)"

text \<open>A pending read ends, with bytes or with an error.\<close>

definition mr_settle :: "nat \<Rightarrow> lease_error + bytes \<Rightarrow> rx_mirror \<Rightarrow> rx_mirror" where
  "mr_settle i outcome m =
     (case mr_pending m of
        None \<Rightarrow> m
      | Some (j, n) \<Rightarrow> if j \<noteq> i then m else m\<lparr>mr_pending := None, mr_results := mr_results m @ [(i, outcome)]\<rparr>)"

definition mr_offer :: "bytes \<Rightarrow> rx_mirror \<Rightarrow> offer_result \<times> rx_mirror" where
  "mr_offer input m =
     (if mr_closed m \<noteq> None \<or> length input = 0 then (OfferIgnored (mr_bytes m), m)
      else
        let pendingBytes = (case mr_pending m of None \<Rightarrow> 0 | Some (i, n) \<Rightarrow> min n (length input));
            remainderBytes = length input - pendingBytes;
            additionalChunks = (if remainderBytes > 0 then 1 else 0 :: nat)
        in if mr_bytes m + remainderBytes > mr_maxBytes m \<or> length (mr_chunks m) + additionalChunks > mr_maxChunks m
           then (OfferBackpressure (mr_bytes m) (mr_maxBytes m - mr_bytes m), m)
           else
             let m1 = (case mr_pending m of
                   Some (i, n) \<Rightarrow>
                     mr_settle i (Inr (take pendingBytes input)) (if remainderBytes > 0 then mr_append (drop pendingBytes input) m else m)
                 | None \<Rightarrow> mr_append input m)
             in (OfferMirrored (mr_bytes m1), m1))"

text \<open>The loop of \<open>take\<close>: what is written, and the chunks and byte count left.\<close>

function take_loop :: "nat \<Rightarrow> bytes list \<Rightarrow> nat \<Rightarrow> bytes \<times> bytes list \<times> nat" where
  "take_loop missing chunks n =
     (if missing = 0 then ([], chunks, n)
      else
        (case chunks of
           [] \<Rightarrow> (replicate missing 0, [], n)
         | c # cs \<Rightarrow>
             let amount = min (length c) missing;
                 (out, rest, k) = take_loop (missing - amount) (if amount = length c then cs else drop amount c # cs) (n - amount)
             in (take amount c @ out, rest, k)))"
  by pat_completeness auto
termination
  by (relation "measure (\<lambda>(missing, chunks, n). missing + length chunks)") (auto simp: min_def)

declare take_loop.simps [simp del]

definition mr_take :: "nat \<Rightarrow> rx_mirror \<Rightarrow> bytes \<times> rx_mirror" where
  "mr_take maxBytes m =
     (let (out, chunks, n) = take_loop (min maxBytes (mr_bytes m)) (mr_chunks m) (mr_bytes m)
      in (out, m\<lparr>mr_chunks := chunks, mr_bytes := n\<rparr>))"

definition mr_result :: "nat \<Rightarrow> lease_error + bytes \<Rightarrow> rx_mirror \<Rightarrow> rx_mirror" where
  "mr_result i outcome m = m\<lparr>mr_results := mr_results m @ [(i, outcome)]\<rparr>"

definition mr_read :: "nat \<Rightarrow> bool \<Rightarrow> rx_mirror \<Rightarrow> rx_mirror" where
  "mr_read maxBytes aborted m0 =
     (let i = mr_reads m0; m = m0\<lparr>mr_reads := i + 1\<rparr> in
      case mr_closed m of
        Some e \<Rightarrow> mr_result i (Inl e) m
      | None \<Rightarrow>
          if aborted then mr_result i (Inl LeCancelled) m
          else if mr_bytes m > 0 then let (out, m1) = mr_take maxBytes m in mr_result i (Inr out) m1
          else if mr_pending m \<noteq> None then mr_result i (Inl LeBusy) m
          else m\<lparr>mr_pending := Some (i, maxBytes)\<rparr>)"

definition mr_reject :: "nat \<Rightarrow> lease_error \<Rightarrow> rx_mirror \<Rightarrow> rx_mirror" where
  "mr_reject i e m = mr_settle i (Inl e) m"

definition mr_close :: "lease_error \<Rightarrow> rx_mirror \<Rightarrow> rx_mirror" where
  "mr_close e m =
     (if mr_closed m \<noteq> None then m
      else
        let m1 = m\<lparr>mr_closed := Some e, mr_chunks := [], mr_bytes := 0\<rparr>
        in (case mr_pending m1 of None \<Rightarrow> m1 | Some (i, n) \<Rightarrow> mr_reject i e m1))"

definition mr_clearBuffered :: "rx_mirror \<Rightarrow> rx_mirror" where
  "mr_clearBuffered m =
     (if mr_closed m \<noteq> None \<or> mr_bytes m = 0 then m else m\<lparr>mr_chunks := [], mr_bytes := 0\<rparr>)"

section \<open>Operations as events\<close>

datatype mirror_event =
    MrOffer bytes
  | MrRead nat bool
  | MrAbort nat
  | MrTimeout nat
  | MrClose lease_error
  | MrClear

fun mirror_step :: "mirror_event \<Rightarrow> rx_mirror \<Rightarrow> rx_mirror" where
  "mirror_step (MrOffer input) m = snd (mr_offer input m)"
| "mirror_step (MrRead n aborted) m = mr_read n aborted m"
| "mirror_step (MrAbort i) m = mr_reject i LeCancelled m"
| "mirror_step (MrTimeout i) m = mr_reject i LeTimeout m"
| "mirror_step (MrClose e) m = mr_close e m"
| "mirror_step MrClear m = mr_clearBuffered m"

text \<open>What an event adds to the mirrored stream and what it throws away of it.\<close>

fun mirrored :: "mirror_event \<Rightarrow> rx_mirror \<Rightarrow> bytes" where
  "mirrored (MrOffer input) m = (case fst (mr_offer input m) of OfferMirrored n \<Rightarrow> input | _ \<Rightarrow> [])"
| "mirrored _ m = []"

fun discarded :: "mirror_event \<Rightarrow> rx_mirror \<Rightarrow> bytes" where
  "discarded (MrClose e) m = concat (mr_chunks m)"
| "discarded MrClear m = concat (mr_chunks m)"
| "discarded _ m = []"

definition delivered :: "rx_mirror \<Rightarrow> bytes" where
  "delivered m = concat (map (\<lambda>(i, r). case r of Inl e \<Rightarrow> [] | Inr bs \<Rightarrow> bs) (mr_results m))"

section \<open>Invariant\<close>

definition mirror_ok :: "rx_mirror \<Rightarrow> bool" where
  "mirror_ok m \<longleftrightarrow> mr_bytes m = length (concat (mr_chunks m)) \<and> mr_bytes m \<le> mr_maxBytes m \<and>
     length (mr_chunks m) \<le> mr_maxChunks m \<and> [] \<notin> set (mr_chunks m) \<and>
     (mr_pending m \<noteq> None \<longrightarrow> mr_chunks m = []) \<and> (mr_closed m \<noteq> None \<longrightarrow> mr_chunks m = [] \<and> mr_pending m = None) \<and>
     (case mr_pending m of None \<Rightarrow> True | Some (i, n) \<Rightarrow> i < mr_reads m \<and> i \<notin> fst ` set (mr_results m)) \<and>
     distinct (map fst (mr_results m)) \<and>
     {i. i < mr_reads m} = fst ` set (mr_results m) \<union> (case mr_pending m of None \<Rightarrow> {} | Some (i, n) \<Rightarrow> {i})"

lemma take_loop_spec:
  "missing \<le> length (concat chunks) \<Longrightarrow> n = length (concat chunks) \<Longrightarrow> [] \<notin> set chunks \<Longrightarrow>
   take_loop missing chunks n = (out, rest, k) \<Longrightarrow>
   out @ concat rest = concat chunks \<and> length out = missing \<and> k = length (concat rest) \<and> [] \<notin> set rest \<and> length rest \<le> length chunks"
proof (induction missing chunks n arbitrary: out rest k rule: take_loop.induct)
  case (1 missing chunks n)
  show ?case
  proof (cases "missing = 0")
    case True
    then show ?thesis using 1(3-5) by (auto simp: take_loop.simps)
  next
    case False
    then obtain c cs where c: "chunks = c # cs" using 1(2) by (cases chunks) auto
    let ?a = "min (length c) missing"
    let ?cs = "if ?a = length c then cs else drop ?a c # cs"
    obtain o1 r1 k1 where t: "take_loop (missing - ?a) ?cs (n - ?a) = (o1, r1, k1)" by (metis prod_cases3)
    have o: "out = take ?a c @ o1" "rest = r1" "k = k1"
      using 1(5) False c t by (subst (asm) take_loop.simps, simp)+
    have cat: "take ?a c @ concat ?cs = concat chunks" using c by (simp add: min_def)
    have ne: "[] \<notin> set ?cs" using 1(4) c by (auto simp: min_def)
    have len: "missing - ?a \<le> length (concat ?cs)" "n - ?a = length (concat ?cs)"
      using 1(2,3) arg_cong [OF cat, of length] by (simp_all add: min_def split: if_splits)
    from 1(1) [OF False c refl len ne t] have
      "o1 @ concat r1 = concat ?cs \<and> length o1 = missing - ?a \<and> k1 = length (concat r1) \<and> [] \<notin> set r1 \<and> length r1 \<le> length ?cs" by simp
    moreover have "length ?cs \<le> length chunks" using c by simp
    ultimately show ?thesis using o cat by auto
  qed
qed

lemma mr_take_spec:
  assumes "mirror_ok m" "mr_take k m = (out, m')"
  shows "out @ concat (mr_chunks m') = concat (mr_chunks m)" "length out = min k (mr_bytes m)" "mr_bytes m' = length (concat (mr_chunks m'))"
    "[] \<notin> set (mr_chunks m')" "length (mr_chunks m') \<le> length (mr_chunks m)"
    "m' = m\<lparr>mr_chunks := mr_chunks m', mr_bytes := mr_bytes m'\<rparr>"
proof -
  obtain o1 cs n where t: "take_loop (min k (mr_bytes m)) (mr_chunks m) (mr_bytes m) = (o1, cs, n)" by (metis prod_cases3)
  then have e: "out = o1" "mr_chunks m' = cs" "mr_bytes m' = n" "m' = m\<lparr>mr_chunks := cs, mr_bytes := n\<rparr>"
    using assms(2) by (auto simp: mr_take_def)
  have "min k (mr_bytes m) \<le> length (concat (mr_chunks m))" "mr_bytes m = length (concat (mr_chunks m))" "[] \<notin> set (mr_chunks m)"
    using assms(1) by (simp_all add: mirror_ok_def)
  from take_loop_spec [OF this t] e show "out @ concat (mr_chunks m') = concat (mr_chunks m)" "length out = min k (mr_bytes m)"
    "mr_bytes m' = length (concat (mr_chunks m'))" "[] \<notin> set (mr_chunks m')" "length (mr_chunks m') \<le> length (mr_chunks m)"
    "m' = m\<lparr>mr_chunks := mr_chunks m', mr_bytes := mr_bytes m'\<rparr>" by simp_all
qed

text \<open>One step: what was delivered and is buffered, with what is thrown away, is what was there
  before with what came in.\<close>

definition mirror_flow :: "rx_mirror \<Rightarrow> bytes \<Rightarrow> bytes \<Rightarrow> rx_mirror \<Rightarrow> bool" where
  "mirror_flow m gone came m' \<longleftrightarrow> delivered m' @ concat (mr_chunks m') @ gone = delivered m @ concat (mr_chunks m) @ came"

lemma delivered_snoc: "mr_results m' = mr_results m @ [(i, r)] \<Longrightarrow> delivered m' = delivered m @ (case r of Inl e \<Rightarrow> [] | Inr bs \<Rightarrow> bs)"
  by (simp add: delivered_def)

lemma settle_pending:
  assumes "mr_pending m = Some (i, n)"
  shows "mr_settle i r m = m\<lparr>mr_pending := None, mr_results := mr_results m @ [(i, r)]\<rparr>"
  using assms by (simp add: mr_settle_def)

lemma offer_step:
  assumes "mirror_ok m"
  shows "mirror_ok (snd (mr_offer input m)) \<and> mirror_flow m [] (mirrored (MrOffer input) m) (snd (mr_offer input m))"
proof -
  let ?k = "case mr_pending m of None \<Rightarrow> 0 | Some (i, n) \<Rightarrow> min n (length input)"
  let ?r = "length input - ?k"
  consider "mr_closed m \<noteq> None \<or> input = []"
    | "mr_closed m = None" "input \<noteq> []" "mr_bytes m + ?r > mr_maxBytes m \<or> length (mr_chunks m) + (if ?r > 0 then 1 else 0) > mr_maxChunks m"
    | "mr_closed m = None" "input \<noteq> []" "\<not> (mr_bytes m + ?r > mr_maxBytes m \<or> length (mr_chunks m) + (if ?r > 0 then 1 else 0) > mr_maxChunks m)"
    by blast
  then show ?thesis
  proof cases
    case 1
    then show ?thesis using assms by (simp add: mr_offer_def mirror_flow_def)
  next
    case 2
    have "mr_offer input m = (OfferBackpressure (mr_bytes m) (mr_maxBytes m - mr_bytes m), m)"
      unfolding mr_offer_def Let_def using 2 by (simp only: simp_thms length_0_conv if_True if_False)
    then show ?thesis using assms by (simp add: mirror_flow_def)
  next
    case 3
    show ?thesis
    proof (cases "mr_pending m")
      case None
      have o: "mr_offer input m = (OfferMirrored (mr_bytes (mr_append input m)), mr_append input m)"
        using 3 None by (simp add: mr_offer_def Let_def)
      have "mirror_ok (mr_append input m)" using assms 3 None by (auto simp: mirror_ok_def mr_append_def)
      then show ?thesis using o 3(2) by (simp add: mirror_flow_def mr_append_def delivered_def)
    next
      case (Some q)
      obtain i n where q: "mr_pending m = Some (i, n)" using Some by (cases q) simp
      have c: "mr_chunks m = []" "mr_bytes m = 0" using assms q by (auto simp: mirror_ok_def)
      define m1 where "m1 = (if ?r > 0 then mr_append (drop ?k input) m else m)"
      have m1: "mr_pending m1 = Some (i, n)" "mr_results m1 = mr_results m" "mr_chunks m1 = (if ?r > 0 then [drop ?k input] else [])"
        "mr_bytes m1 = ?r" "mr_closed m1 = mr_closed m" "mr_reads m1 = mr_reads m" "mr_maxBytes m1 = mr_maxBytes m" "mr_maxChunks m1 = mr_maxChunks m"
        using q c by (auto simp: m1_def mr_append_def)
      let ?m2 = "mr_settle i (Inr (take ?k input)) m1"
      have o: "mr_offer input m = (OfferMirrored (mr_bytes ?m2), ?m2)"
        using 3 q unfolding mr_offer_def Let_def m1_def by simp
      have "mirror_ok ?m2" using assms 3 c m1 q unfolding settle_pending [OF m1(1)]
        by (auto simp: mirror_ok_def split: if_splits)
      moreover have "delivered ?m2 = delivered m @ take ?k input"
        using delivered_snoc [of ?m2 m i "Inr (take ?k input)"] settle_pending [OF m1(1)] m1(2) by simp
      moreover have "concat (mr_chunks ?m2) = drop ?k input" using m1(3) settle_pending [OF m1(1)] by simp
      ultimately show ?thesis using o c(1) by (simp add: mirror_flow_def)
    qed
  qed
qed

lemma results_old: "mirror_ok m \<Longrightarrow> (i, r) \<in> set (mr_results m) \<Longrightarrow> i < mr_reads m"
proof -
  assume ok: "mirror_ok m" and "(i, r) \<in> set (mr_results m)"
  then have "i \<in> fst ` set (mr_results m)" by force
  moreover have "{i. i < mr_reads m} = fst ` set (mr_results m) \<union> (case mr_pending m of None \<Rightarrow> {} | Some (i, n) \<Rightarrow> {i})"
    using ok by (simp only: mirror_ok_def)
  ultimately show ?thesis by blast
qed

lemma number_next: "{i. i < Suc n} = insert n {i. i < n}"
  by auto

lemma mr_result_ok:
  assumes "mirror_ok m"
  shows "mirror_ok (mr_result (mr_reads m) r (m\<lparr>mr_reads := mr_reads m + 1\<rparr>))"
proof -
  have "mr_reads m \<notin> fst ` set (mr_results m)" using results_old [OF assms, of "mr_reads m"] by force
  then show ?thesis using assms unfolding mirror_ok_def by (auto simp: mr_result_def number_next split: option.splits)
qed

lemma mr_read_step:
  assumes "mirror_ok m"
  shows "mirror_ok (mr_read k aborted m) \<and> mirror_flow m [] [] (mr_read k aborted m)"
proof -
  let ?m = "m\<lparr>mr_reads := mr_reads m + 1\<rparr>"
  have fail: "mirror_ok (mr_result (mr_reads m) (Inl e) ?m) \<and> mirror_flow m [] [] (mr_result (mr_reads m) (Inl e) ?m)" for e
    using mr_result_ok [OF assms] by (simp add: mirror_flow_def mr_result_def delivered_def)
  consider e where "mr_closed m = Some e" | "mr_closed m = None" "aborted"
    | "mr_closed m = None" "\<not> aborted" "mr_bytes m > 0"
    | "mr_closed m = None" "\<not> aborted" "mr_bytes m = 0" "mr_pending m \<noteq> None"
    | "mr_closed m = None" "\<not> aborted" "mr_bytes m = 0" "mr_pending m = None"
    by fastforce
  then show ?thesis
  proof cases
    case 3
    have np: "mr_pending m = None" using assms 3 by (auto simp: mirror_ok_def)
    obtain out m1 where t: "mr_take k ?m = (out, m1)" by (metis surj_pair)
    obtain m0 where t0: "mr_take k m = (out, m0)" and m10: "m1 = m0\<lparr>mr_reads := mr_reads m + 1\<rparr>"
      using t by (auto simp: mr_take_def split: prod.splits)
    note s = mr_take_spec [OF assms t0]
    have r: "mr_read k aborted m = mr_result (mr_reads m) (Inr out) m1" using 3 t by (simp add: mr_read_def Let_def)
    obtain cs n where m0: "m0 = m\<lparr>mr_chunks := cs, mr_bytes := n\<rparr>" using s(6) by blast
    have cs: "out @ concat cs = concat (mr_chunks m)" "n = length (concat cs)" "[] \<notin> set cs" "length cs \<le> length (mr_chunks m)"
      using s(1,3,4,5) m0 by simp_all
    have le: "length (concat cs) \<le> length (concat (mr_chunks m))" using arg_cong [OF cs(1), of length] by simp
    have "mirror_ok m0"
    proof -
      have "mr_maxBytes m \<ge> length (concat (mr_chunks m))" "length (mr_chunks m) \<le> mr_maxChunks m"
        using assms by (simp_all add: mirror_ok_def)
      then have "length (concat cs) \<le> mr_maxBytes m" "length cs \<le> mr_maxChunks m" using le cs(4) by linarith+
      then show ?thesis using assms np cs(2,3) 3(1) unfolding mirror_ok_def m0 by simp
    qed
    moreover have "mr_reads m0 = mr_reads m" "mr_results m0 = mr_results m" using m0 by simp_all
    ultimately have "mirror_ok (mr_read k aborted m)" using mr_result_ok [of m0 "Inr out"] by (simp add: r m10)
    moreover have "delivered (mr_read k aborted m) = delivered m @ out"
      using \<open>mr_results m0 = mr_results m\<close> by (simp add: r m10 mr_result_def delivered_def)
    moreover have "mr_chunks (mr_read k aborted m) = mr_chunks m0" by (simp add: r m10 mr_result_def)
    ultimately show ?thesis using s(1) by (simp add: mirror_flow_def)
  next
    case 5
    have "mr_reads m \<notin> fst ` set (mr_results m)" using results_old [OF assms, of "mr_reads m"] by force
    moreover have "mr_read k aborted m = ?m\<lparr>mr_pending := Some (mr_reads m, k)\<rparr>" using 5 by (simp add: mr_read_def Let_def)
    moreover have "mr_chunks m = []" using assms 5 by (cases "mr_chunks m") (auto simp: mirror_ok_def)
    ultimately show ?thesis using assms 5 unfolding mirror_ok_def mirror_flow_def by (auto simp: delivered_def number_next)
  qed (use fail in \<open>simp_all add: mr_read_def Let_def\<close>)
qed

lemma reject_step:
  assumes "mirror_ok m"
  shows "mirror_ok (mr_reject i e m) \<and> mirror_flow m [] [] (mr_reject i e m)"
proof (cases "\<exists>n. mr_pending m = Some (i, n)")
  case True
  then obtain n where n: "mr_pending m = Some (i, n)" by blast
  show ?thesis using assms n unfolding mr_reject_def settle_pending [OF n]
    by (auto simp: mirror_ok_def mirror_flow_def delivered_def)
next
  case False
  then have "mr_reject i e m = m" by (auto simp: mr_reject_def mr_settle_def split: option.split)
  then show ?thesis using assms by (simp add: mirror_flow_def)
qed

lemma close_step:
  assumes "mirror_ok m"
  shows "mirror_ok (mr_close e m) \<and> mirror_flow m (concat (mr_chunks m)) [] (mr_close e m)"
proof (cases "mr_closed m")
  case None
  let ?m = "m\<lparr>mr_closed := Some e, mr_chunks := [], mr_bytes := 0\<rparr>"
  show ?thesis
  proof (cases "mr_pending m")
    case p: None
    have "mr_close e m = ?m" using None p by (simp add: mr_close_def)
    then show ?thesis using assms p by (simp add: mirror_ok_def mirror_flow_def delivered_def)
  next
    case (Some q)
    obtain i n where q: "mr_pending m = Some (i, n)" using Some by (cases q) simp
    then have "mr_close e m = ?m\<lparr>mr_pending := None, mr_results := mr_results m @ [(i, Inl e)]\<rparr>"
      using None by (simp add: mr_close_def mr_reject_def mr_settle_def)
    then show ?thesis using assms q None by (auto simp: mirror_ok_def mirror_flow_def delivered_def)
  qed
next
  case (Some c)
  then show ?thesis using assms by (simp add: mr_close_def mirror_flow_def mirror_ok_def)
qed

lemma clear_step:
  assumes "mirror_ok m"
  shows "mirror_ok (mr_clearBuffered m) \<and> mirror_flow m (concat (mr_chunks m)) [] (mr_clearBuffered m)"
proof (cases "mr_closed m \<noteq> None \<or> mr_bytes m = 0")
  case True
  moreover from this have "concat (mr_chunks m) = []" using assms by (auto simp: mirror_ok_def)
  ultimately show ?thesis using assms by (simp add: mr_clearBuffered_def mirror_flow_def)
next
  case False
  then show ?thesis using assms by (auto simp: mr_clearBuffered_def mirror_flow_def delivered_def mirror_ok_def split: option.splits)
qed

lemma mirror_step_ok:
  assumes "mirror_ok m"
  shows "mirror_ok (mirror_step ev m) \<and> mirror_flow m (discarded ev m) (mirrored ev m) (mirror_step ev m)"
proof (cases ev)
  case (MrOffer input)
  then show ?thesis using offer_step [OF assms, of input] by (simp del: mirrored.simps(1))
next
  case (MrRead k aborted)
  then show ?thesis using mr_read_step [OF assms] by simp
next
  case (MrAbort i)
  then show ?thesis using reject_step [OF assms] by simp
next
  case (MrTimeout i)
  then show ?thesis using reject_step [OF assms] by simp
next
  case (MrClose e)
  then show ?thesis using close_step [OF assms] by simp
next
  case MrClear
  then show ?thesis using clear_step [OF assms] by simp
qed

section \<open>A run of the mirror\<close>

text \<open>The run of a list of events, with the bytes it mirrored and, for every event, what was thrown away.\<close>

fun mirror_run :: "mirror_event list \<Rightarrow> rx_mirror \<Rightarrow> rx_mirror" where
  "mirror_run [] m = m"
| "mirror_run (ev # evs) m = mirror_run evs (mirror_step ev m)"

fun all_mirrored :: "mirror_event list \<Rightarrow> rx_mirror \<Rightarrow> bytes" where
  "all_mirrored [] m = []"
| "all_mirrored (ev # evs) m = mirrored ev m @ all_mirrored evs (mirror_step ev m)"

fun clears :: "mirror_event \<Rightarrow> bool" where
  "clears (MrClose e) = True"
| "clears MrClear = True"
| "clears _ = False"

lemma discarded_nothing: "\<not> clears ev \<Longrightarrow> discarded ev m = []"
  by (cases ev) simp_all

lemma mirror_run_flow:
  "mirror_ok m \<Longrightarrow> mirror_ok (mirror_run evs m) \<and>
   (list_all (\<lambda>ev. \<not> clears ev) evs \<longrightarrow>
     delivered (mirror_run evs m) @ concat (mr_chunks (mirror_run evs m)) = delivered m @ concat (mr_chunks m) @ all_mirrored evs m)"
proof (induction evs arbitrary: m)
  case Nil
  then show ?case by simp
next
  case (Cons ev evs)
  have s: "mirror_ok (mirror_step ev m)" "mirror_flow m (discarded ev m) (mirrored ev m) (mirror_step ev m)"
    using mirror_step_ok [OF Cons.prems] by simp_all
  note IH = Cons.IH [OF s(1)]
  show ?case
  proof (intro conjI impI)
    show "mirror_ok (mirror_run (ev # evs) m)" using IH by simp
    assume q: "list_all (\<lambda>ev. \<not> clears ev) (ev # evs)"
    then have "delivered (mirror_step ev m) @ concat (mr_chunks (mirror_step ev m)) = delivered m @ concat (mr_chunks m) @ mirrored ev m"
      using s(2) by (simp add: mirror_flow_def discarded_nothing)
    then show "delivered (mirror_run (ev # evs) m) @ concat (mr_chunks (mirror_run (ev # evs) m)) =
        delivered m @ concat (mr_chunks m) @ all_mirrored (ev # evs) m"
      using IH q by (simp flip: append_assoc)
  qed
qed

lemma mirror_run_subseq:
  "mirror_ok m \<Longrightarrow> subseq (delivered (mirror_run evs m) @ concat (mr_chunks (mirror_run evs m)))
     (delivered m @ concat (mr_chunks m) @ all_mirrored evs m)"
proof (induction evs arbitrary: m)
  case Nil
  then show ?case by simp
next
  case (Cons ev evs)
  have s: "mirror_ok (mirror_step ev m)" "mirror_flow m (discarded ev m) (mirrored ev m) (mirror_step ev m)"
    using mirror_step_ok [OF Cons.prems] by simp_all
  have "subseq (delivered (mirror_step ev m) @ concat (mr_chunks (mirror_step ev m)))
      (delivered (mirror_step ev m) @ concat (mr_chunks (mirror_step ev m)) @ discarded ev m)"
    using subseq_rev_drop_many [OF subseq_order.refl] by (metis append_assoc)
  then have "subseq ((delivered (mirror_step ev m) @ concat (mr_chunks (mirror_step ev m))) @ all_mirrored evs (mirror_step ev m))
      ((delivered m @ concat (mr_chunks m) @ mirrored ev m) @ all_mirrored evs (mirror_step ev m))"
    using s(2) unfolding mirror_flow_def by (simp only: list_emb_append_mono subseq_order.refl)
  from subseq_order.order_trans [OF _ this] Cons.IH [OF s(1)] show ?case by simp
qed

lemma mirror_step_limits [simp]:
  "mr_maxBytes (mirror_step ev m) = mr_maxBytes m" "mr_maxChunks (mirror_step ev m) = mr_maxChunks m"
  by (cases ev; simp add: mr_offer_def mr_read_def mr_reject_def mr_settle_def mr_close_def mr_clearBuffered_def mr_append_def
        mr_result_def mr_take_def Let_def split: option.split prod.split)+

lemma mirror_run_limits [simp]:
  "mr_maxBytes (mirror_run evs m) = mr_maxBytes m" "mr_maxChunks (mirror_run evs m) = mr_maxChunks m"
  by (induction evs arbitrary: m) simp_all

lemma new_mirror_ok: "mirror_ok (new_mirror maxBytes maxChunks)"
  by (simp add: mirror_ok_def new_mirror_def)

text \<open>The receive mirror of a lease, over any sequence of offers, reads, aborts, timeouts, clears and
  closes: it stays within its byte and chunk limits and its byte count is exact; what reads delivered
  followed by what is buffered is a subsequence of what was accepted, in order, and all of it when
  nothing was cleared or closed; and every read was settled exactly once or is the one pending.\<close>

theorem mirror_fifo:
  assumes "m = mirror_run evs (new_mirror maxBytes maxChunks)"
  shows "mr_bytes m \<le> maxBytes \<and> length (mr_chunks m) \<le> maxChunks \<and> mr_bytes m = length (concat (mr_chunks m)) \<and>
    subseq (delivered m @ concat (mr_chunks m)) (all_mirrored evs (new_mirror maxBytes maxChunks)) \<and>
    (list_ex clears evs \<or> delivered m @ concat (mr_chunks m) = all_mirrored evs (new_mirror maxBytes maxChunks)) \<and>
    distinct (map fst (mr_results m)) \<and>
    {i. i < mr_reads m} = fst ` set (mr_results m) \<union> fst ` set_option (mr_pending m)"
proof -
  let ?m = "new_mirror maxBytes maxChunks"
  have z: "delivered ?m @ concat (mr_chunks ?m) @ all_mirrored evs ?m = all_mirrored evs ?m" "mr_maxBytes ?m = maxBytes" "mr_maxChunks ?m = maxChunks"
    by (simp_all add: new_mirror_def delivered_def)
  have ok: "mirror_ok m" using mirror_run_flow [OF new_mirror_ok] assms by blast
  have limits: "mr_maxBytes m = maxBytes" "mr_maxChunks m = maxChunks" using assms z by simp_all
  have cover: "{i. i < mr_reads m} = fst ` set (mr_results m) \<union> (case mr_pending m of None \<Rightarrow> {} | Some (i, n) \<Rightarrow> {i})"
    using ok by (simp only: mirror_ok_def)
  have "(case mr_pending m of None \<Rightarrow> {} | Some (i, n) \<Rightarrow> {i}) = fst ` set_option (mr_pending m)"
    by (simp split: option.split)
  moreover have "list_ex clears evs \<or> delivered m @ concat (mr_chunks m) = all_mirrored evs ?m"
    using mirror_run_flow [OF new_mirror_ok [of maxBytes maxChunks], of evs] z(1) assms by (auto simp: list_all_iff list_ex_iff)
  moreover have "subseq (delivered m @ concat (mr_chunks m)) (all_mirrored evs ?m)"
    using mirror_run_subseq [OF new_mirror_ok [of maxBytes maxChunks], of evs] by (simp only: z assms)
  moreover have "mr_bytes m \<le> maxBytes" "length (mr_chunks m) \<le> maxChunks" "mr_bytes m = length (concat (mr_chunks m))"
      "distinct (map fst (mr_results m))"
    using ok limits by (simp_all add: mirror_ok_def)
  ultimately show ?thesis using cover by simp
qed

theorem mirror_fifo_witness:
  "mr_results (mirror_run [MrOffer [1, 2, 3], MrRead 2 False, MrRead 4 False, MrRead 4 False, MrOffer [4, 5, 6, 7, 8]] (new_mirror 4 2)) =
     [(0, Inr [1, 2]), (1, Inr [3]), (2, Inr [4, 5, 6, 7])] \<and>
   mr_bytes (mirror_run [MrOffer [1, 2, 3], MrRead 2 False, MrRead 4 False, MrRead 4 False, MrOffer [4, 5, 6, 7, 8]] (new_mirror 4 2)) \<le> 4"
  by (intro conjI, code_simp, rule conjunct1 [OF mirror_fifo [OF refl]])

end
