(* ===== verification/LeaseModel.thy ===== *)
theory LeaseModel
  imports RxMirror
begin

text \<open>
  The serial transaction lease, \<open>SerialTransactionLeaseCoordinator\<close> in
  \<open>src/features/serial/application/serial-transaction-lease.ts\<close>: one owner at a time gets
  exclusive use of a connected port; automations are paused while the lease is acquired and restored
  when it ends.

  The coordinator is a state machine.  Its asynchronous methods (\<open>acquire\<close>, \<open>performRelease\<close>,
  \<open>dispose\<close>, the device operations) are cut at every \<open>await\<close>: the state records which await each
  one is at, and the reply of the port it waits for is an event, with any outcome and at any time;
  everything between two awaits is one step, as in JavaScript.  A continuation that waits for a promise of
  the coordinator itself runs in an event of its own, some time after that promise settled.

  \<^item> The port (\<open>SerialTransactionIoPort\<close>), the automations, the token factory and the timers are
    the environment.  What they are asked is appended to \<open>co_log\<close>; what they answer is in the
    events.  \<open>io.snapshot()\<close> reads \<open>co_conn\<close>, which the environment changes at will; \<open>None\<close> means that it
    throws.  A rejection carries the code of a \<open>SerialTransactionLeaseError\<close>, or \<open>None\<close> for any other error.
  \<^item> A suspension is known by the id of its automation, a lease by the number of the call that
    acquired it.
  \<^item> Listeners see snapshots only; they are called synchronously and assumed not to call back into the
    coordinator, and are left out.
\<close>

section \<open>Values\<close>

datatype lease_phase = PhIdle | PhAcquiring | PhActive | PhReleasing | PhFaulted | PhDisposed

datatype release_reason = RsReleased | RsCancelled | RsDisconnected | RsConnectionChanged | RsDisposed | RsAcquireFailed

datatype 'a reply = Resolved 'a | Rejected "lease_error option"

type_synonym connection = "(jsnum \<times> bool) option"

record output_lines =
  ol_dtr :: bool
  ol_rts :: bool
  ol_break :: bool

record input_lines =
  il_cts :: bool
  il_dsr :: bool
  il_ri :: bool
  il_cd :: bool

record lease_limits =
  lm_writeBytes :: nat
  lm_rxBytes :: nat
  lm_rxChunks :: nat
  lm_readBytes :: nat
  lm_readTimeoutMs :: nat

text \<open>The optional methods of the port.\<close>

record io_methods =
  io_clearBuffers :: bool
  io_pendingBytes :: bool
  io_setOutputLines :: bool
  io_snapshotOutputLines :: bool
  io_restoreOutputLines :: bool
  io_readInputLines :: bool

record lease_grant =
  lg_token :: string
  lg_owner :: string
  lg_generation :: nat

section \<open>Where the asynchronous methods wait\<close>

datatype manual_wait = MwWaiting | MwResolved | MwRejected

datatype acquire_pc =
    AqDrain
  | AqManual manual_wait
  | AqPause "(string \<times> nat) list"
  | AqRestore "string list" release_reason "lease_error option"

record acquisition =
  aq_number :: nat
  aq_owner :: string
  aq_generation :: nat
  aq_rxBytes :: nat
  aq_aborted :: bool
  aq_reason :: release_reason
  aq_restoreAllowed :: bool
  aq_paused :: "string list"
  aq_drained :: bool
  aq_baseline :: "output_lines option"
  aq_pc :: acquire_pc

datatype op_kind = OpWrite | OpClear string | OpPending | OpSetLines | OpReadLines

record lease_op =
  lo_number :: nat
  lo_kind :: op_kind
  lo_aborted :: bool

datatype release_pc =
    RlOp
  | RlDrain
  | RlLines
  | RlRestore "string list" nat "string list"

record active_lease =
  ls_number :: nat
  ls_grant :: lease_grant
  ls_suspensions :: "string list"
  ls_aborted :: bool
  ls_rx :: rx_mirror
  ls_baseline :: "output_lines option"
  ls_touched :: bool
  ls_op :: "lease_op option"
  ls_restoreAllowed :: bool
  ls_release :: "(release_reason \<times> release_pc) option"

record release_result =
  rr_reason :: release_reason
  rr_generation :: nat
  rr_restored :: nat
  rr_failures :: "string list"
  rr_skipped :: bool
  rr_drainFailed :: bool

datatype dispose_pc = DspNone | DspAcquisition | DspRelease | DspDone

section \<open>The coordinator\<close>

text \<open>Calls to the environment.  \<open>Suspended\<close> records a pause that returned a suspension.\<close>

datatype io_call =
    CallDrain nat
  | CallPause nat string
  | Suspended nat string
  | CallRestore nat string release_reason
  | CallOp nat nat op_kind
  | CallRestoreLines nat output_lines release_reason

datatype lease_value =
    VGrant lease_grant
  | VWritten nat
  | VUnit
  | VPending nat nat
  | VInput input_lines

record coordinator =
  co_limits :: lease_limits
  co_io :: io_methods
  co_conn :: connection
  co_phase :: lease_phase
  co_automations :: "(string \<times> nat) list"
  co_acquisition :: "acquisition option"
  co_active :: "active_lease option"
  co_tokenSequence :: nat
  co_manual :: nat
  co_faultedGeneration :: "nat option"
  co_faultCode :: "lease_error option"
  co_faultToken :: "string option"
  co_disposed :: bool
  co_dispose :: dispose_pc
  co_calls :: nat
  co_results :: "(nat \<times> (lease_error + lease_value)) list"
  co_released :: "(nat \<times> release_result) list"
  co_log :: "io_call list"

definition resolve_limits :: "jsnum \<Rightarrow> jsnum \<Rightarrow> jsnum \<Rightarrow> jsnum \<Rightarrow> jsnum \<Rightarrow> lease_limits option" where
  "resolve_limits writeBytes rxBytes rxChunks readBytes readTimeoutMs =
     (case (validateBoundedInteger writeBytes 16777216, validateBoundedInteger rxBytes 16777216,
            validateBoundedInteger rxChunks 16384, validateBoundedInteger readBytes 1048576,
            validateBoundedInteger readTimeoutMs 60000) of
        (Some w, Some b, Some c, Some r, Some t) \<Rightarrow>
          Some \<lparr>lm_writeBytes = w, lm_rxBytes = b, lm_rxChunks = c, lm_readBytes = r, lm_readTimeoutMs = t\<rparr>
      | _ \<Rightarrow> None)"

definition new_coordinator :: "lease_limits \<Rightarrow> io_methods \<Rightarrow> connection \<Rightarrow> coordinator" where
  "new_coordinator limits io conn = \<lparr>co_limits = limits, co_io = io, co_conn = conn, co_phase = PhIdle, co_automations = [],
     co_acquisition = None, co_active = None, co_tokenSequence = 0, co_manual = 0, co_faultedGeneration = None,
     co_faultCode = None, co_faultToken = None, co_disposed = False, co_dispose = DspNone, co_calls = 0, co_results = [],
     co_released = [], co_log = []\<rparr>"

definition co_record :: "io_call \<Rightarrow> coordinator \<Rightarrow> coordinator" where
  "co_record c s = s\<lparr>co_log := co_log s @ [c]\<rparr>"

definition co_result :: "nat \<Rightarrow> lease_error + lease_value \<Rightarrow> coordinator \<Rightarrow> coordinator" where
  "co_result n r s = s\<lparr>co_results := co_results s @ [(n, r)]\<rparr>"

section \<open>The connection\<close>

definition validateGeneration :: "jsnum \<Rightarrow> lease_error + nat" where
  "validateGeneration g = (if \<not> js_safe g \<or> js_floor g < 0 then Inl LeProtocolError else Inr (nat (js_floor g)))"

definition isGenerationCurrent :: "nat \<Rightarrow> connection \<Rightarrow> bool" where
  "isGenerationCurrent generation conn =
     (case conn of None \<Rightarrow> False | Some (g, up) \<Rightarrow> up \<and> validateGeneration g = Inr generation)"

definition isConnected :: "connection \<Rightarrow> bool" where
  "isConnected conn = (case conn of None \<Rightarrow> False | Some (g, up) \<Rightarrow> up)"

definition readConnectedSnapshot :: "connection \<Rightarrow> lease_error + nat" where
  "readConnectedSnapshot conn =
     (case conn of
        None \<Rightarrow> Inl LeUnavailable
      | Some (g, up) \<Rightarrow>
          (case validateGeneration g of Inl e \<Rightarrow> Inl e | Inr n \<Rightarrow> if up then Inr n else Inl LeDisconnected))"

text \<open>\<open>connectionSnapshot\<close>; an exception of \<open>io.snapshot()\<close> itself passes through.\<close>

definition connectionSnapshot :: "connection \<Rightarrow> (lease_error + nat \<times> bool) option" where
  "connectionSnapshot conn =
     (case conn of
        None \<Rightarrow> None
      | Some (g, up) \<Rightarrow> Some (case validateGeneration g of Inl e \<Rightarrow> Inl e | Inr n \<Rightarrow> Inr (n, up)))"

definition lost_error :: "connection \<Rightarrow> lease_error" where
  "lost_error conn = (if isConnected conn then LeStaleHandle else LeDisconnected)"

section \<open>Admission\<close>

definition assertIdle :: "coordinator \<Rightarrow> lease_error option" where
  "assertIdle s =
     (if co_disposed s \<or> co_phase s = PhDisposed \<or> co_phase s = PhFaulted then Some LeUnavailable
      else if co_phase s \<noteq> PhIdle then Some LeBusy else None)"

definition authorizesSchedulerWrite :: "string \<Rightarrow> coordinator \<Rightarrow> bool" where
  "authorizesSchedulerWrite ownerId s \<longleftrightarrow>
     \<not> co_disposed s \<and> (co_phase s = PhIdle \<or> co_phase s = PhAcquiring) \<and> co_manual s > 0 \<and> length ownerId > 0"

definition registerAutomation :: "string \<Rightarrow> nat \<Rightarrow> coordinator \<Rightarrow> lease_error option \<times> coordinator" where
  "registerAutomation portId port s =
     (case assertIdle s of
        Some e \<Rightarrow> (Some e, s)
      | None \<Rightarrow>
          (case validateIdentifier portId 128 of
             Inl e \<Rightarrow> (Some e, s)
           | Inr i \<Rightarrow>
               if map_of (co_automations s) i \<noteq> None then (Some LeInvalidInput, s)
               else (None, s\<lparr>co_automations := co_automations s @ [(i, port)]\<rparr>)))"

definition unregisterAutomation :: "string \<Rightarrow> nat \<Rightarrow> coordinator \<Rightarrow> lease_error option \<times> coordinator" where
  "unregisterAutomation i port s =
     (if co_phase s \<noteq> PhIdle \<or> co_disposed s then (Some LeBusy, s)
      else if map_of (co_automations s) i = Some port then (None, s\<lparr>co_automations := filter (\<lambda>(j, p). j \<noteq> i) (co_automations s)\<rparr>)
      else (None, s))"

text \<open>A manual write starts, and ends.\<close>

definition manual_start :: "coordinator \<Rightarrow> lease_error option \<times> coordinator" where
  "manual_start s = (case assertIdle s of Some e \<Rightarrow> (Some e, s) | None \<Rightarrow> (None, s\<lparr>co_manual := co_manual s + 1\<rparr>))"

definition drain_resolved :: "acquisition \<Rightarrow> acquisition" where
  "drain_resolved a = (if aq_pc a = AqManual MwWaiting then a\<lparr>aq_pc := AqManual MwResolved\<rparr> else a)"

definition manual_end :: "coordinator \<Rightarrow> coordinator" where
  "manual_end s =
     (let s1 = s\<lparr>co_manual := co_manual s - 1\<rparr>
      in if co_manual s1 = 0 then s1\<lparr>co_acquisition := map_option drain_resolved (co_acquisition s1)\<rparr> else s1)"

section \<open>Tokens\<close>

fun base36 :: "nat \<Rightarrow> string" where
  "base36 n =
     (let d = n mod 36; c = (if d < 10 then char_of (48 + d) else char_of (87 + d))
      in (if n < 36 then [] else base36 (n div 36)) @ [c])"

declare base36.simps [simp del]

text \<open>The sequence is a double: it stops growing at \<open>2 ^ 53\<close>.\<close>

definition issueToken :: "string reply \<Rightarrow> coordinator \<Rightarrow> (lease_error + string) \<times> coordinator" where
  "issueToken nonce s =
     (case nonce of
        Rejected (Some e) \<Rightarrow> (Inl e, s)
      | Rejected None \<Rightarrow> (Inl LeUnavailable, s)
      | Resolved v \<Rightarrow>
          (case validateIdentifier v (256 - 32) of
             Inl e \<Rightarrow> (Inl e, s)
           | Inr v \<Rightarrow>
               let seq = (if int (co_tokenSequence s) = 2 ^ 53 then co_tokenSequence s else co_tokenSequence s + 1);
                   s1 = s\<lparr>co_tokenSequence := seq\<rparr>
               in if int seq > 2 ^ 53 - 1 then (Inl LeLimitExceeded, s1) else (Inr (v @ ''.'' @ base36 seq), s1)))"

end
