(* ===== verification/LeaseCoordinator.thy ===== *)
theory LeaseCoordinator
  imports LeaseModel Machine
begin

text \<open>
  The operations of the lease coordinator (\<open>src/features/serial/application/serial-transaction-lease.ts\<close>)
  over the state of \<open>LeaseModel\<close>: acquisition, release, the device operations of a lease, its receive
  mirror, the reactions to the connection and disposal, and the step function over their events.
\<close>

section \<open>Release\<close>

text \<open>\<open>restoreAutomations\<close> walks the suspensions from the last to the first; the ids still to restore are
  kept in that order, the first of them being awaited.\<close>

definition start_restore :: "nat \<Rightarrow> release_reason \<Rightarrow> string list \<Rightarrow> coordinator \<Rightarrow> coordinator" where
  "start_restore n reason ids s = (case ids of [] \<Rightarrow> s | i # rest \<Rightarrow> co_record (CallRestore n i reason) s)"

definition finish_release :: "bool \<Rightarrow> bool \<Rightarrow> bool \<Rightarrow> nat \<Rightarrow> string list \<Rightarrow> release_reason \<Rightarrow> active_lease \<Rightarrow> coordinator \<Rightarrow> coordinator" where
  "finish_release drainFailed linesRestored steady restored failures reason l s =
     (let faulted = drainFailed \<or> \<not> linesRestored
      in s\<lparr>co_active := None,
           co_phase := (if co_disposed s then PhDisposed else if faulted then PhFaulted else PhIdle),
           co_faultedGeneration := (if faulted then Some (lg_generation (ls_grant l)) else None),
           co_released := co_released s @ [(ls_number l, \<lparr>rr_reason = reason, rr_generation = lg_generation (ls_grant l),
             rr_restored = restored, rr_failures = (if linesRestored then failures else ''serial.control-lines'' # failures),
             rr_skipped = (\<not> steady \<or> \<not> linesRestored), rr_drainFailed = drainFailed\<rparr>)]\<rparr>)"

definition release_restore :: "release_reason \<Rightarrow> active_lease \<Rightarrow> coordinator \<Rightarrow> coordinator" where
  "release_restore reason l s =
     start_restore (ls_number l) reason (rev (ls_suspensions l))
       (s\<lparr>co_active := Some (l\<lparr>ls_release := Some (reason, RlRestore (rev (ls_suspensions l)) 0 [])\<rparr>)\<rparr>)"

text \<open>The part of \<open>performRelease\<close> after the drain.\<close>

definition release_stable :: "bool \<Rightarrow> release_reason \<Rightarrow> active_lease \<Rightarrow> coordinator \<Rightarrow> coordinator" where
  "release_stable drainFailed reason l s =
     (let steady = ls_restoreAllowed l \<and> isGenerationCurrent (lg_generation (ls_grant l)) (co_conn s)
      in if steady \<and> ls_touched l then
           (case ls_baseline l of
              Some lines \<Rightarrow>
                if io_restoreOutputLines (co_io s) then
                  co_record (CallRestoreLines (ls_number l) lines reason)
                    (s\<lparr>co_active := Some (l\<lparr>ls_release := Some (reason, RlLines)\<rparr>)\<rparr>)
                else finish_release drainFailed False True 0 [] reason l s
            | None \<Rightarrow> finish_release drainFailed False True 0 [] reason l s)
         else if steady then release_restore reason l s
         else finish_release drainFailed True False 0 [] reason l s)"

text \<open>The part from the drain on.\<close>

definition release_drain :: "release_reason \<Rightarrow> active_lease \<Rightarrow> coordinator \<Rightarrow> coordinator" where
  "release_drain reason l s =
     (if ls_restoreAllowed l then
        co_record (CallDrain (lg_generation (ls_grant l))) (s\<lparr>co_active := Some (l\<lparr>ls_release := Some (reason, RlDrain)\<rparr>)\<rparr>)
      else release_stable False reason l s)"

definition performRelease :: "release_reason \<Rightarrow> active_lease \<Rightarrow> coordinator \<Rightarrow> coordinator" where
  "performRelease reason l s =
     (if ls_op l \<noteq> None then s\<lparr>co_active := Some (l\<lparr>ls_release := Some (reason, RlOp)\<rparr>)\<rparr>
      else release_drain reason l s)"

definition beginRelease :: "release_reason \<Rightarrow> bool \<Rightarrow> bool \<Rightarrow> active_lease \<Rightarrow> coordinator \<Rightarrow> coordinator" where
  "beginRelease reason restoreAllowed abortWrites l s =
     (let l1 = l\<lparr>ls_restoreAllowed := ls_restoreAllowed l \<and> restoreAllowed, ls_aborted := ls_aborted l \<or> abortWrites\<rparr>
      in if ls_release l \<noteq> None then s\<lparr>co_active := Some l1\<rparr>
         else performRelease reason (l1\<lparr>ls_rx := mr_close (if reason = RsDisconnected then LeDisconnected else LeCancelled) (ls_rx l)\<rparr>)
                (s\<lparr>co_phase := PhReleasing\<rparr>))"

text \<open>The continuations of a release.\<close>

definition release_op_settled :: "coordinator \<Rightarrow> coordinator" where
  "release_op_settled s =
     (case co_active s of
        Some l \<Rightarrow>
          (case ls_release l of
             Some (reason, RlOp) \<Rightarrow> if ls_op l = None then release_drain reason l s else s
           | _ \<Rightarrow> s)
      | None \<Rightarrow> s)"

definition release_drained :: "unit reply \<Rightarrow> coordinator \<Rightarrow> coordinator" where
  "release_drained r s =
     (case co_active s of
        Some l \<Rightarrow>
          (case ls_release l of
             Some (reason, RlDrain) \<Rightarrow>
               (case r of
                  Resolved u \<Rightarrow> release_stable False reason l s
                | Rejected e \<Rightarrow> release_stable True reason (l\<lparr>ls_restoreAllowed := False\<rparr>) s)
           | _ \<Rightarrow> s)
      | None \<Rightarrow> s)"

definition release_lines :: "unit reply \<Rightarrow> coordinator \<Rightarrow> coordinator" where
  "release_lines r s =
     (case co_active s of
        Some l \<Rightarrow>
          (case ls_release l of
             Some (reason, RlLines) \<Rightarrow>
               if (case r of Resolved u \<Rightarrow> isGenerationCurrent (lg_generation (ls_grant l)) (co_conn s) | Rejected e \<Rightarrow> False)
               then release_restore reason l s
               else finish_release False False True 0 [] reason l s
           | _ \<Rightarrow> s)
      | None \<Rightarrow> s)"

definition release_restored :: "unit reply \<Rightarrow> coordinator \<Rightarrow> coordinator" where
  "release_restored r s =
     (case co_active s of
        Some l \<Rightarrow>
          (case ls_release l of
             Some (reason, RlRestore (i # rest) restored failures) \<Rightarrow>
               (let (k, fs) = (case r of Resolved u \<Rightarrow> (restored + 1, failures) | Rejected e \<Rightarrow> (restored, failures @ [i]))
                in start_restore (ls_number l) reason rest
                     (s\<lparr>co_active := Some (l\<lparr>ls_release := Some (reason, RlRestore rest k fs)\<rparr>)\<rparr>))
           | _ \<Rightarrow> s)
      | None \<Rightarrow> s)"

definition release_finished :: "coordinator \<Rightarrow> coordinator" where
  "release_finished s =
     (case co_active s of
        Some l \<Rightarrow>
          (case ls_release l of
             Some (reason, RlRestore [] restored failures) \<Rightarrow> finish_release False True True restored failures reason l s
           | _ \<Rightarrow> s)
      | None \<Rightarrow> s)"

section \<open>Acquisition\<close>

definition classifyAcquisitionError :: "lease_error option \<Rightarrow> acquisition \<Rightarrow> lease_error" where
  "classifyAcquisitionError error a =
     (case error of
        Some e \<Rightarrow> e
      | None \<Rightarrow>
          if aq_aborted a then
            (case aq_reason a of RsDisconnected \<Rightarrow> LeDisconnected | RsConnectionChanged \<Rightarrow> LeStaleHandle | _ \<Rightarrow> LeCancelled)
          else LeUnavailable)"

text \<open>The end of the \<open>catch\<close> block of \<open>acquire\<close>, and the block as a whole.\<close>

definition finish_acquire :: "lease_error option \<Rightarrow> acquisition \<Rightarrow> coordinator \<Rightarrow> coordinator" where
  "finish_acquire error a s =
     (let e = classifyAcquisitionError error a; faulted = (\<not> aq_drained a \<and> e = LeUnavailable)
      in co_result (aq_number a) (Inl e)
           (s\<lparr>co_acquisition := None,
              co_phase := (if co_disposed s then PhDisposed else if faulted then PhFaulted else PhIdle),
              co_faultedGeneration := (if faulted then Some (aq_generation a) else None)\<rparr>))"

definition fail_acquire :: "lease_error option \<Rightarrow> acquisition \<Rightarrow> coordinator \<Rightarrow> coordinator" where
  "fail_acquire error a s =
     (if aq_restoreAllowed a \<and> isGenerationCurrent (aq_generation a) (co_conn s) then
        start_restore (aq_number a) (aq_reason a) (rev (aq_paused a))
          (s\<lparr>co_acquisition := Some (a\<lparr>aq_pc := AqRestore (rev (aq_paused a)) (aq_reason a) error\<rparr>)\<rparr>)
      else finish_acquire error a s)"

text \<open>The acquisition is the current one as long as it runs, so only the abort is tested.\<close>

definition throwIfAcquisitionCancelled :: "acquisition \<Rightarrow> lease_error option" where
  "throwIfAcquisitionCancelled a = (if aq_aborted a then Some LeCancelled else None)"

definition assertAcquisitionGeneration :: "acquisition \<Rightarrow> connection \<Rightarrow> lease_error option \<times> acquisition" where
  "assertAcquisitionGeneration a conn =
     (case throwIfAcquisitionCancelled a of
        Some e \<Rightarrow> (Some e, a)
      | None \<Rightarrow>
          if \<not> isGenerationCurrent (aq_generation a) conn then (Some (lost_error conn), a\<lparr>aq_restoreAllowed := False\<rparr>)
          else (None, a))"

text \<open>A snapshot that fails \<open>validOutputLines\<close> is \<open>Resolved None\<close>.\<close>

definition snapshotOutputLines :: "io_methods \<Rightarrow> output_lines option reply \<Rightarrow> lease_error + output_lines option" where
  "snapshotOutputLines io r =
     (if \<not> io_snapshotOutputLines io \<or> \<not> io_restoreOutputLines io then Inr None
      else (case r of
              Rejected (Some e) \<Rightarrow> Inl e
            | Rejected None \<Rightarrow> Inl LeUnavailable
            | Resolved None \<Rightarrow> Inl LeProtocolError
            | Resolved (Some lines) \<Rightarrow> Inr (Some lines)))"

definition activate :: "string reply \<Rightarrow> acquisition \<Rightarrow> coordinator \<Rightarrow> coordinator" where
  "activate nonce a s =
     (case issueToken nonce s of
        (Inl e, s1) \<Rightarrow> fail_acquire (Some e) a s1
      | (Inr token, s1) \<Rightarrow>
          let grant = \<lparr>lg_token = token, lg_owner = aq_owner a, lg_generation = aq_generation a\<rparr>
          in co_result (aq_number a) (Inr (VGrant grant))
               (s1\<lparr>co_active := Some \<lparr>ls_number = aq_number a, ls_grant = grant, ls_suspensions = aq_paused a, ls_aborted = False,
                     ls_rx = new_mirror (aq_rxBytes a) (lm_rxChunks (co_limits s1)), ls_baseline = aq_baseline a,
                     ls_touched = False, ls_op = None, ls_restoreAllowed = True, ls_release = None\<rparr>,
                   co_acquisition := None, co_phase := PhActive\<rparr>))"

definition pause_next :: "(string \<times> nat) list \<Rightarrow> string reply \<Rightarrow> acquisition \<Rightarrow> coordinator \<Rightarrow> coordinator" where
  "pause_next todo nonce a s =
     (case todo of
        [] \<Rightarrow> activate nonce a s
      | (i, port) # rest \<Rightarrow>
          co_record (CallPause (aq_number a) i) (s\<lparr>co_acquisition := Some (a\<lparr>aq_pc := AqPause todo\<rparr>)\<rparr>))"

definition lease_acquire :: "string \<Rightarrow> jsnum option \<Rightarrow> bool \<Rightarrow> coordinator \<Rightarrow> coordinator" where
  "lease_acquire ownerId rxBufferBytes signalAborted s0 =
     (let n = co_calls s0; s = s0\<lparr>co_calls := n + 1\<rparr> in
      case assertIdle s of
        Some e \<Rightarrow> co_result n (Inl e) s
      | None \<Rightarrow>
          let s1 = s\<lparr>co_faultCode := None, co_faultToken := None\<rparr> in
          (case validateIdentifier ownerId 256 of
             Inl e \<Rightarrow> co_result n (Inl e) s1
           | Inr owner \<Rightarrow>
               (case (case rxBufferBytes of
                        None \<Rightarrow> Inr (lm_rxBytes (co_limits s1))
                      | Some v \<Rightarrow> validateRequestInteger v (lm_rxBytes (co_limits s1))) of
                  Inl e \<Rightarrow> co_result n (Inl e) s1
                | Inr rxBytes \<Rightarrow>
                    (case readConnectedSnapshot (co_conn s1) of
                       Inl e \<Rightarrow> co_result n (Inl e) s1
                     | Inr generation \<Rightarrow>
                         let a = \<lparr>aq_number = n, aq_owner = owner, aq_generation = generation, aq_rxBytes = rxBytes,
                                  aq_aborted = signalAborted, aq_reason = (if signalAborted then RsCancelled else RsAcquireFailed),
                                  aq_restoreAllowed = True, aq_paused = [], aq_drained = False, aq_baseline = None, aq_pc = AqDrain\<rparr>;
                             s2 = s1\<lparr>co_acquisition := Some a, co_phase := PhAcquiring\<rparr>
                         in (case throwIfAcquisitionCancelled a of
                               Some e \<Rightarrow> fail_acquire (Some e) a s2
                             | None \<Rightarrow> co_record (CallDrain generation) s2)))))"

text \<open>The continuations of an acquisition.\<close>

definition acquire_drained :: "unit reply \<Rightarrow> coordinator \<Rightarrow> coordinator" where
  "acquire_drained r s =
     (case co_acquisition s of
        Some a \<Rightarrow>
          if aq_pc a \<noteq> AqDrain then s
          else (case r of
                  Rejected e \<Rightarrow> fail_acquire e a s
                | Resolved u \<Rightarrow>
                    s\<lparr>co_acquisition := Some (a\<lparr>aq_pc := AqManual
                        (if co_manual s = 0 then MwResolved else if aq_aborted a then MwRejected else MwWaiting)\<rparr>)\<rparr>)
      | None \<Rightarrow> s)"

definition acquire_manual :: "output_lines option reply \<Rightarrow> string reply \<Rightarrow> coordinator \<Rightarrow> coordinator" where
  "acquire_manual lines nonce s =
     (case co_acquisition s of
        Some a \<Rightarrow>
          (case aq_pc a of
             AqManual MwRejected \<Rightarrow> fail_acquire (Some LeCancelled) a s
           | AqManual MwResolved \<Rightarrow>
               (case assertAcquisitionGeneration (a\<lparr>aq_drained := True\<rparr>) (co_conn s) of
                  (Some e, a1) \<Rightarrow> fail_acquire (Some e) a1 s
                | (None, a1) \<Rightarrow>
                    (case snapshotOutputLines (co_io s) lines of
                       Inl e \<Rightarrow> fail_acquire (Some e) a1 s
                     | Inr baseline \<Rightarrow> pause_next (co_automations s) nonce (a1\<lparr>aq_baseline := baseline\<rparr>) s))
           | _ \<Rightarrow> s)
      | None \<Rightarrow> s)"

text \<open>An automation answers with whether it returned a suspension.\<close>

definition acquire_paused :: "bool reply \<Rightarrow> string reply \<Rightarrow> coordinator \<Rightarrow> coordinator" where
  "acquire_paused r nonce s =
     (case co_acquisition s of
        Some a \<Rightarrow>
          (case aq_pc a of
             AqPause ((i, port) # rest) \<Rightarrow>
               (case r of
                  Rejected e \<Rightarrow> fail_acquire e a s
                | Resolved suspended \<Rightarrow>
                    let a1 = (if suspended then a\<lparr>aq_paused := aq_paused a @ [i]\<rparr> else a);
                        s1 = (if suspended then co_record (Suspended (aq_number a) i) s else s)
                    in (case assertAcquisitionGeneration a1 (co_conn s1) of
                          (Some e, a2) \<Rightarrow> fail_acquire (Some e) a2 s1
                        | (None, a2) \<Rightarrow> pause_next rest nonce a2 s1))
           | _ \<Rightarrow> s)
      | None \<Rightarrow> s)"

definition acquire_restored :: "unit reply \<Rightarrow> coordinator \<Rightarrow> coordinator" where
  "acquire_restored r s =
     (case co_acquisition s of
        Some a \<Rightarrow>
          (case aq_pc a of
             AqRestore (i # rest) reason error \<Rightarrow>
               start_restore (aq_number a) reason rest
                 (s\<lparr>co_acquisition := Some (a\<lparr>aq_pc := AqRestore rest reason error\<rparr>)\<rparr>)
           | _ \<Rightarrow> s)
      | None \<Rightarrow> s)"

definition acquire_finished :: "coordinator \<Rightarrow> coordinator" where
  "acquire_finished s =
     (case co_acquisition s of
        Some a \<Rightarrow> (case aq_pc a of AqRestore [] reason error \<Rightarrow> finish_acquire error a s | _ \<Rightarrow> s)
      | None \<Rightarrow> s)"

text \<open>\<open>acquisition.controller.abort()\<close>, with the reason; it rejects a wait for the manual writes.\<close>

definition abort_acquisition :: "release_reason \<Rightarrow> acquisition \<Rightarrow> acquisition" where
  "abort_acquisition reason a =
     a\<lparr>aq_aborted := True, aq_reason := reason,
       aq_pc := (if aq_pc a = AqManual MwWaiting then AqManual MwRejected else aq_pc a)\<rparr>"

text \<open>The abort signal that the acquiring call \<open>n\<close> was given: its listener belongs to the acquisition
  while that runs, and to the lease until its release begins.\<close>

definition owner_abort :: "nat \<Rightarrow> coordinator \<Rightarrow> coordinator" where
  "owner_abort n s =
     (case co_acquisition s of
        Some a \<Rightarrow> if aq_number a = n then s\<lparr>co_acquisition := Some (abort_acquisition RsCancelled a)\<rparr> else s
      | None \<Rightarrow>
          (case co_active s of
             Some l \<Rightarrow> if ls_number l = n \<and> ls_release l = None then beginRelease RsCancelled True True l s else s
           | None \<Rightarrow> s))"

section \<open>Device operations of a lease\<close>

definition requireActiveLease :: "string \<Rightarrow> coordinator \<Rightarrow> (lease_error + active_lease) \<times> coordinator" where
  "requireActiveLease token s =
     (case (if co_faultToken s = Some token then co_faultCode s else None) of
        Some e \<Rightarrow> (Inl e, s)
      | None \<Rightarrow>
          (case co_active s of
             None \<Rightarrow> (Inl LeStaleHandle, s)
           | Some l \<Rightarrow>
               if co_phase s \<noteq> PhActive \<or> lg_token (ls_grant l) \<noteq> token then (Inl LeStaleHandle, s)
               else if \<not> isGenerationCurrent (lg_generation (ls_grant l)) (co_conn s)
               then (Inl (lost_error (co_conn s)), beginRelease RsConnectionChanged False True l s)
               else (Inr l, s)))"

definition requireLeaseForRelease :: "string \<Rightarrow> coordinator \<Rightarrow> active_lease option" where
  "requireLeaseForRelease token s =
     (case co_active s of None \<Rightarrow> None | Some l \<Rightarrow> if lg_token (ls_grant l) = token then Some l else None)"

definition startLeaseOperation :: "nat \<Rightarrow> op_kind \<Rightarrow> active_lease \<Rightarrow> active_lease" where
  "startLeaseOperation n kind l = l\<lparr>ls_op := Some \<lparr>lo_number = n, lo_kind = kind, lo_aborted = False\<rparr>\<rparr>"

definition finishLeaseOperation :: "active_lease \<Rightarrow> active_lease" where
  "finishLeaseOperation l = l\<lparr>ls_op := None\<rparr>"

text \<open>The beginning that the five device operations share, up to the call of the port: the lease, the
  checks of the operation, the operation in flight, the caller's signal.\<close>

definition begin_operation :: "op_kind \<Rightarrow> (active_lease \<Rightarrow> lease_error option) \<Rightarrow> string \<Rightarrow> bool \<Rightarrow> coordinator \<Rightarrow> coordinator" where
  "begin_operation kind check token signalAborted s0 =
     (let n = co_calls s0; s = s0\<lparr>co_calls := n + 1\<rparr> in
      case requireActiveLease token s of
        (Inl e, s1) \<Rightarrow> co_result n (Inl e) s1
      | (Inr l, s1) \<Rightarrow>
          (case check l of
             Some e \<Rightarrow> co_result n (Inl e) s1
           | None \<Rightarrow>
               if ls_op l \<noteq> None then co_result n (Inl LeBusy) s1
               else if ls_aborted l \<or> signalAborted then co_result n (Inl LeCancelled) s1
               else co_record (CallOp (ls_number l) n kind)
                      (s1\<lparr>co_active := Some ((startLeaseOperation n kind l)\<lparr>ls_touched := ls_touched l \<or> kind = OpSetLines\<rparr>)\<rparr>)))"

definition lease_write :: "string \<Rightarrow> bytes \<Rightarrow> bool \<Rightarrow> coordinator \<Rightarrow> coordinator" where
  "lease_write token payload signalAborted s =
     begin_operation OpWrite
       (\<lambda>l. if length payload = 0 then Some LeInvalidInput
            else if length payload > lm_writeBytes (co_limits s) then Some LeLimitExceeded else None)
       token signalAborted s"

definition lease_clearBuffers :: "string \<Rightarrow> string \<Rightarrow> bool \<Rightarrow> coordinator \<Rightarrow> coordinator" where
  "lease_clearBuffers token selection signalAborted s =
     begin_operation (OpClear selection)
       (\<lambda>l. if selection \<notin> {''input'', ''output'', ''all''} then Some LeInvalidInput
            else if \<not> io_clearBuffers (co_io s) then Some LeUnavailable else None)
       token signalAborted s"

definition lease_pendingBytes :: "string \<Rightarrow> bool \<Rightarrow> coordinator \<Rightarrow> coordinator" where
  "lease_pendingBytes token signalAborted s =
     begin_operation OpPending (\<lambda>l. if \<not> io_pendingBytes (co_io s) then Some LeUnavailable else None) token signalAborted s"

definition lease_setOutputLines :: "string \<Rightarrow> output_lines option \<Rightarrow> bool \<Rightarrow> coordinator \<Rightarrow> coordinator" where
  "lease_setOutputLines token lines signalAborted s =
     begin_operation OpSetLines
       (\<lambda>l. if \<not> io_setOutputLines (co_io s) then Some LeUnavailable
            else if \<not> io_restoreOutputLines (co_io s) \<or> ls_baseline l = None then Some LeUnavailable
            else if lines = None then Some LeInvalidInput else None)
       token signalAborted s"

definition lease_readInputLines :: "string \<Rightarrow> bool \<Rightarrow> coordinator \<Rightarrow> coordinator" where
  "lease_readInputLines token signalAborted s =
     begin_operation OpReadLines (\<lambda>l. if \<not> io_readInputLines (co_io s) then Some LeUnavailable else None) token signalAborted s"

text \<open>The two \<open>catch\<close> blocks: for operations with an effect on the device a lost lease makes the outcome
  unknown; for the others the error stands.\<close>

definition effect_error :: "bool \<Rightarrow> bool \<Rightarrow> lease_error option \<Rightarrow> lease_error" where
  "effect_error current aborted error =
     (if \<not> current then LeUnknownOutcome
      else if aborted then LeCancelled
      else case error of Some e \<Rightarrow> e | None \<Rightarrow> LeIoError)"

definition query_error :: "bool \<Rightarrow> lease_error option \<Rightarrow> lease_error" where
  "query_error aborted error = (if aborted then LeCancelled else case error of Some e \<Rightarrow> e | None \<Rightarrow> LeIoError)"

datatype op_reply =
    RvWrite "nat reply"
  | RvClear "unit reply"
  | RvPending "(jsnum \<times> jsnum) reply"
  | RvSetLines "unit reply"
  | RvReadLines "input_lines option reply"

definition validPendingByteCount :: "jsnum \<Rightarrow> bool" where
  "validPendingByteCount v \<longleftrightarrow> js_safe v \<and> js_floor v \<ge> 0"

fun write_outcome :: "bool \<Rightarrow> bool \<Rightarrow> nat reply \<Rightarrow> lease_error + lease_value" where
  "write_outcome current aborted (Resolved v) = (if current then Inr (VWritten v) else Inl LeUnknownOutcome)"
| "write_outcome current aborted (Rejected e) = Inl (effect_error current aborted e)"

fun unit_outcome :: "bool \<Rightarrow> bool \<Rightarrow> unit reply \<Rightarrow> lease_error + lease_value" where
  "unit_outcome current aborted (Resolved u) = (if current then Inr VUnit else Inl LeUnknownOutcome)"
| "unit_outcome current aborted (Rejected e) = Inl (effect_error current aborted e)"

fun pending_outcome :: "bool \<Rightarrow> bool \<Rightarrow> nat \<Rightarrow> (jsnum \<times> jsnum) reply \<Rightarrow> lease_error + lease_value" where
  "pending_outcome current aborted buffered (Resolved (rx, tx)) =
     (if \<not> current then Inl (query_error aborted (Some LeStaleHandle))
      else if \<not> validPendingByteCount rx \<or> \<not> validPendingByteCount tx then Inl (query_error aborted (Some LeProtocolError))
      else if js_floor rx + int buffered > 2 ^ 53 - 1 then Inl (query_error aborted (Some LeLimitExceeded))
      else Inr (VPending (nat (js_floor rx + int buffered)) (nat (js_floor tx))))"
| "pending_outcome current aborted buffered (Rejected e) = Inl (query_error aborted e)"

fun lines_outcome :: "bool \<Rightarrow> bool \<Rightarrow> input_lines option reply \<Rightarrow> lease_error + lease_value" where
  "lines_outcome current aborted (Resolved v) =
     (if \<not> current then Inl (query_error aborted (Some LeStaleHandle))
      else case v of None \<Rightarrow> Inl (query_error aborted (Some LeProtocolError)) | Some lines \<Rightarrow> Inr (VInput lines))"
| "lines_outcome current aborted (Rejected e) = Inl (query_error aborted e)"

text \<open>What the reply makes of the operation, \<open>None\<close> when it is not a reply of that operation.\<close>

fun op_outcome :: "bool \<Rightarrow> bool \<Rightarrow> nat \<Rightarrow> op_kind \<Rightarrow> op_reply \<Rightarrow> (lease_error + lease_value) option" where
  "op_outcome current aborted buffered OpWrite (RvWrite r) = Some (write_outcome current aborted r)"
| "op_outcome current aborted buffered (OpClear selection) (RvClear r) = Some (unit_outcome current aborted r)"
| "op_outcome current aborted buffered OpPending (RvPending r) = Some (pending_outcome current aborted buffered r)"
| "op_outcome current aborted buffered OpSetLines (RvSetLines r) = Some (unit_outcome current aborted r)"
| "op_outcome current aborted buffered OpReadLines (RvReadLines r) = Some (lines_outcome current aborted r)"
| "op_outcome current aborted buffered kind r = None"

definition isActiveAndCurrent :: "active_lease \<Rightarrow> coordinator \<Rightarrow> bool" where
  "isActiveAndCurrent l s \<longleftrightarrow> co_phase s = PhActive \<and> isGenerationCurrent (lg_generation (ls_grant l)) (co_conn s)"

definition clears_input :: "op_kind \<Rightarrow> lease_error + lease_value \<Rightarrow> bool" where
  "clears_input kind r \<longleftrightarrow> r = Inr VUnit \<and> (kind = OpClear ''input'' \<or> kind = OpClear ''all'')"

definition settle_operation :: "nat \<Rightarrow> op_reply \<Rightarrow> coordinator \<Rightarrow> coordinator" where
  "settle_operation n r s =
     (case co_active s of
        None \<Rightarrow> s
      | Some l \<Rightarrow>
          (case ls_op l of
             None \<Rightarrow> s
           | Some q \<Rightarrow>
               if lo_number q \<noteq> n then s
               else (case op_outcome (isActiveAndCurrent l s) (ls_aborted l \<or> lo_aborted q) (mr_bytes (ls_rx l)) (lo_kind q) r of
                       None \<Rightarrow> s
                     | Some res \<Rightarrow>
                         co_result n res
                           (s\<lparr>co_active := Some (finishLeaseOperation
                               (if clears_input (lo_kind q) res then l\<lparr>ls_rx := mr_clearBuffered (ls_rx l)\<rparr> else l))\<rparr>))))"

definition abort_operation :: "nat \<Rightarrow> coordinator \<Rightarrow> coordinator" where
  "abort_operation n s =
     (case co_active s of
        None \<Rightarrow> s
      | Some l \<Rightarrow>
          s\<lparr>co_active := Some (l\<lparr>ls_op := map_option (\<lambda>q. if lo_number q = n then q\<lparr>lo_aborted := True\<rparr> else q) (ls_op l)\<rparr>)\<rparr>)"

section \<open>Receiving\<close>

definition set_rx :: "rx_mirror \<Rightarrow> active_lease \<Rightarrow> coordinator \<Rightarrow> coordinator" where
  "set_rx m l s = s\<lparr>co_active := Some (l\<lparr>ls_rx := m\<rparr>)\<rparr>"

definition offerRx :: "nat \<Rightarrow> bytes \<Rightarrow> coordinator \<Rightarrow> offer_result \<times> coordinator" where
  "offerRx generation input s =
     (case co_active s of
        None \<Rightarrow> (OfferIgnored 0, s)
      | Some l \<Rightarrow>
          if co_phase s \<noteq> PhActive then (OfferIgnored 0, s)
          else if generation \<noteq> lg_generation (ls_grant l) \<or> \<not> isGenerationCurrent (lg_generation (ls_grant l)) (co_conn s) then
            (OfferIgnored 0, beginRelease RsConnectionChanged False True l s)
          else
            (case mr_offer input (ls_rx l) of
               (OfferBackpressure buffered capacity, m) \<Rightarrow>
                 (OfferBackpressure buffered capacity,
                  beginRelease RsCancelled True True (l\<lparr>ls_rx := mr_close LeLimitExceeded m\<rparr>)
                    (s\<lparr>co_faultCode := Some LeLimitExceeded, co_faultToken := Some (lg_token (ls_grant l))\<rparr>))
             | (offered, m) \<Rightarrow> (offered, set_rx m l s)))"

text \<open>The number of the read in the mirror, or the error the call ends with at once.\<close>

definition lease_read :: "string \<Rightarrow> jsnum \<Rightarrow> jsnum option \<Rightarrow> bool \<Rightarrow> coordinator \<Rightarrow> (lease_error + nat) \<times> coordinator" where
  "lease_read token maxBytes timeoutMs signalAborted s =
     (case requireActiveLease token s of
        (Inl e, s1) \<Rightarrow> (Inl e, s1)
      | (Inr l, s1) \<Rightarrow>
          (case validateRequestInteger maxBytes (lm_readBytes (co_limits s1)) of
             Inl e \<Rightarrow> (Inl e, s1)
           | Inr n \<Rightarrow>
               (case (case timeoutMs of
                        None \<Rightarrow> Inr (lm_readTimeoutMs (co_limits s1))
                      | Some v \<Rightarrow> validateRequestInteger v (lm_readTimeoutMs (co_limits s1))) of
                  Inl e \<Rightarrow> (Inl e, s1)
                | Inr t \<Rightarrow> (Inr (mr_reads (ls_rx l)), set_rx (mr_read n (ls_aborted l \<or> signalAborted) (ls_rx l)) l s1))))"

text \<open>The timer or the signal of read \<open>i\<close> of lease \<open>n\<close>.\<close>

definition read_event :: "lease_error \<Rightarrow> nat \<Rightarrow> nat \<Rightarrow> coordinator \<Rightarrow> coordinator" where
  "read_event e n i s =
     (case co_active s of
        None \<Rightarrow> s
      | Some l \<Rightarrow> if ls_number l = n then set_rx (mr_reject i e (ls_rx l)) l s else s)"

section \<open>Release, connection and disposal\<close>

definition lease_release :: "string \<Rightarrow> coordinator \<Rightarrow> lease_error option \<times> coordinator" where
  "lease_release token s =
     (case requireLeaseForRelease token s of
        None \<Rightarrow> (Some LeStaleHandle, s)
      | Some l \<Rightarrow> (None, beginRelease RsReleased True False l s))"

definition lease_cancel :: "string \<Rightarrow> coordinator \<Rightarrow> lease_error option \<times> coordinator" where
  "lease_cancel token s =
     (case requireLeaseForRelease token s of
        None \<Rightarrow> (Some LeStaleHandle, s)
      | Some l \<Rightarrow> (None, beginRelease RsCancelled True True l s))"

text \<open>The value the returned promise will have, and the state at its first \<open>await\<close>.\<close>

definition notifyDisconnected :: "jsnum \<Rightarrow> coordinator \<Rightarrow> (lease_error + bool) \<times> coordinator" where
  "notifyDisconnected generation s =
     (case validateGeneration generation of
        Inl e \<Rightarrow> (Inl LeInvalidInput, s)
      | Inr g \<Rightarrow>
          if map_option aq_generation (co_acquisition s) = Some g
          then (Inr True, s\<lparr>co_acquisition :=
                  map_option (\<lambda>a. abort_acquisition RsDisconnected (a\<lparr>aq_restoreAllowed := False\<rparr>)) (co_acquisition s)\<rparr>)
          else
            (case co_active s of
               None \<Rightarrow> (Inr False, s)
             | Some l \<Rightarrow>
                 if lg_generation (ls_grant l) \<noteq> g then (Inr False, s)
                 else (Inr True, beginRelease RsDisconnected False True l s)))"

definition synchronize_lease :: "coordinator \<Rightarrow> bool \<times> coordinator" where
  "synchronize_lease s =
     (case co_active s of
        None \<Rightarrow> (False, s)
      | Some l \<Rightarrow>
          if \<not> isGenerationCurrent (lg_generation (ls_grant l)) (co_conn s)
          then (True, beginRelease RsConnectionChanged False True l s)
          else (False, s))"

definition synchronizeConnection :: "coordinator \<Rightarrow> bool \<times> coordinator" where
  "synchronizeConnection s =
     (if co_phase s = PhFaulted then
        (case co_conn s of
           None \<Rightarrow> (False, s)
         | Some (g, up) \<Rightarrow>
             (case validateGeneration g of
                Inl e \<Rightarrow> (False, s)
              | Inr n \<Rightarrow>
                  if \<not> up \<or> Some n = co_faultedGeneration s then (False, s)
                  else (True, s\<lparr>co_faultedGeneration := None, co_phase := PhIdle\<rparr>)))
      else
        (case co_acquisition s of
           Some a \<Rightarrow>
             if \<not> isGenerationCurrent (aq_generation a) (co_conn s)
             then (True, s\<lparr>co_acquisition := Some (abort_acquisition RsConnectionChanged (a\<lparr>aq_restoreAllowed := False\<rparr>))\<rparr>)
             else synchronize_lease s
         | None \<Rightarrow> synchronize_lease s))"

definition dispose_finish :: "coordinator \<Rightarrow> coordinator" where
  "dispose_finish s = s\<lparr>co_phase := PhDisposed, co_faultedGeneration := None, co_automations := [], co_dispose := DspDone\<rparr>"

definition dispose_lease :: "coordinator \<Rightarrow> coordinator" where
  "dispose_lease s =
     (case co_active s of
        None \<Rightarrow> dispose_finish s
      | Some l \<Rightarrow> (beginRelease RsDisposed True True l s)\<lparr>co_dispose := DspRelease\<rparr>)"

definition dispose :: "coordinator \<Rightarrow> coordinator" where
  "dispose s =
     (if co_disposed s then s
      else
        let s1 = s\<lparr>co_disposed := True\<rparr>
        in (case co_acquisition s1 of
              Some a \<Rightarrow> s1\<lparr>co_acquisition := Some (abort_acquisition RsDisposed a), co_dispose := DspAcquisition\<rparr>
            | None \<Rightarrow> dispose_lease s1))"

definition dispose_resume :: "coordinator \<Rightarrow> coordinator" where
  "dispose_resume s =
     (case co_dispose s of
        DspAcquisition \<Rightarrow> if co_acquisition s = None then dispose_lease s else s
      | DspRelease \<Rightarrow> if co_active s = None then dispose_finish s else s
      | _ \<Rightarrow> s)"

text \<open>\<open>snapshot\<close>, which observers see.\<close>

record lease_snapshot =
  sn_phase :: lease_phase
  sn_owner :: "string option"
  sn_generation :: "nat option"
  sn_rxBytes :: nat
  sn_rxChunks :: nat
  sn_manual :: nat
  sn_manualAllowed :: bool
  sn_automations :: nat
  sn_faultCode :: "lease_error option"

definition snapshot :: "coordinator \<Rightarrow> lease_snapshot" where
  "snapshot s =
     (let owner = (case co_active s of
            Some l \<Rightarrow> Some (lg_owner (ls_grant l), lg_generation (ls_grant l))
          | None \<Rightarrow> map_option (\<lambda>a. (aq_owner a, aq_generation a)) (co_acquisition s))
      in \<lparr>sn_phase = co_phase s, sn_owner = map_option fst owner, sn_generation = map_option snd owner,
          sn_rxBytes = (case co_active s of None \<Rightarrow> 0 | Some l \<Rightarrow> mr_bytes (ls_rx l)),
          sn_rxChunks = (case co_active s of None \<Rightarrow> 0 | Some l \<Rightarrow> length (mr_chunks (ls_rx l))),
          sn_manual = co_manual s, sn_manualAllowed = (co_phase s = PhIdle \<and> \<not> co_disposed s),
          sn_automations = length (co_automations s), sn_faultCode = co_faultCode s\<rparr>)"

section \<open>The step function\<close>

datatype lease_event =
    EvConnection connection
  | EvRegister string nat
  | EvUnregister string nat
  | EvManualStart
  | EvManualEnd
  | EvAcquire string "jsnum option" bool
  | EvAcqDrained "unit reply"
  | EvAcqManual "output_lines option reply" "string reply"
  | EvAcqPaused "bool reply" "string reply"
  | EvAcqRestored "unit reply"
  | EvAcqFinished
  | EvOwnerAbort nat
  | EvWrite string bytes bool
  | EvClear string string bool
  | EvPending string bool
  | EvSetLines string "output_lines option" bool
  | EvReadLines string bool
  | EvOpSettled nat op_reply
  | EvOpAbort nat
  | EvOffer nat bytes
  | EvRead string jsnum "jsnum option" bool
  | EvReadTimeout nat nat
  | EvReadAbort nat nat
  | EvRelease string
  | EvCancel string
  | EvRelOp
  | EvRelDrained "unit reply"
  | EvRelLines "unit reply"
  | EvRelRestored "unit reply"
  | EvRelFinished
  | EvDisconnected jsnum
  | EvSynchronize
  | EvDispose
  | EvDisposeResume

fun lease_step :: "lease_event \<Rightarrow> coordinator \<Rightarrow> coordinator" where
  "lease_step (EvConnection conn) s = s\<lparr>co_conn := conn\<rparr>"
| "lease_step (EvRegister i port) s = snd (registerAutomation i port s)"
| "lease_step (EvUnregister i port) s = snd (unregisterAutomation i port s)"
| "lease_step EvManualStart s = snd (manual_start s)"
| "lease_step EvManualEnd s = (if co_manual s > 0 then manual_end s else s)"
| "lease_step (EvAcquire owner rxBufferBytes signalAborted) s = lease_acquire owner rxBufferBytes signalAborted s"
| "lease_step (EvAcqDrained r) s = acquire_drained r s"
| "lease_step (EvAcqManual lines nonce) s = acquire_manual lines nonce s"
| "lease_step (EvAcqPaused r nonce) s = acquire_paused r nonce s"
| "lease_step (EvAcqRestored r) s = acquire_restored r s"
| "lease_step EvAcqFinished s = acquire_finished s"
| "lease_step (EvOwnerAbort n) s = owner_abort n s"
| "lease_step (EvWrite token payload signalAborted) s = lease_write token payload signalAborted s"
| "lease_step (EvClear token selection signalAborted) s = lease_clearBuffers token selection signalAborted s"
| "lease_step (EvPending token signalAborted) s = lease_pendingBytes token signalAborted s"
| "lease_step (EvSetLines token lines signalAborted) s = lease_setOutputLines token lines signalAborted s"
| "lease_step (EvReadLines token signalAborted) s = lease_readInputLines token signalAborted s"
| "lease_step (EvOpSettled n r) s = settle_operation n r s"
| "lease_step (EvOpAbort n) s = abort_operation n s"
| "lease_step (EvOffer generation input) s = snd (offerRx generation input s)"
| "lease_step (EvRead token maxBytes timeoutMs signalAborted) s = snd (lease_read token maxBytes timeoutMs signalAborted s)"
| "lease_step (EvReadTimeout n i) s = read_event LeTimeout n i s"
| "lease_step (EvReadAbort n i) s = read_event LeCancelled n i s"
| "lease_step (EvRelease token) s = snd (lease_release token s)"
| "lease_step (EvCancel token) s = snd (lease_cancel token s)"
| "lease_step EvRelOp s = release_op_settled s"
| "lease_step (EvRelDrained r) s = release_drained r s"
| "lease_step (EvRelLines r) s = release_lines r s"
| "lease_step (EvRelRestored r) s = release_restored r s"
| "lease_step EvRelFinished s = release_finished s"
| "lease_step (EvDisconnected generation) s = snd (notifyDisconnected generation s)"
| "lease_step EvSynchronize s = snd (synchronizeConnection s)"
| "lease_step EvDispose s = dispose s"
| "lease_step EvDisposeResume s = dispose_resume s"

end
