(* ===== verification/LeaseSafety.thy ===== *)
theory LeaseSafety
  imports LeaseCoordinator
begin

text \<open>
  Exclusive use: the invariant that ties the coordinator's phase to its acquisition and its lease, and what
  follows for host writes and device operations.
\<close>

section \<open>The invariant\<close>

definition acquisition_ok :: "nat \<Rightarrow> bool \<Rightarrow> acquisition \<Rightarrow> bool" where
  "acquisition_ok manual disposed a \<longleftrightarrow>
     (disposed \<longrightarrow> aq_aborted a) \<and>
     (case aq_pc a of
        AqManual MwWaiting \<Rightarrow> manual > 0 \<and> \<not> aq_aborted a
      | AqManual MwResolved \<Rightarrow> manual = 0
      | AqPause todo \<Rightarrow> manual = 0 \<and> todo \<noteq> [] \<and> aq_drained a
      | _ \<Rightarrow> True)"

definition lease_core :: "active_lease \<Rightarrow> bool" where
  "lease_core l \<longleftrightarrow> mirror_ok (ls_rx l) \<and>
     (case ls_release l of
        None \<Rightarrow> \<not> ls_aborted l \<and> ls_restoreAllowed l
      | Some (reason, pc) \<Rightarrow> mr_closed (ls_rx l) \<noteq> None \<and> (pc = RlOp \<or> ls_op l = None))"

definition lease_ok :: "active_lease \<Rightarrow> bool" where
  "lease_ok l \<longleftrightarrow> lease_core l \<and> (ls_release l = None \<longrightarrow> mr_closed (ls_rx l) = None)"

text \<open>What holds when \<open>l\<close> is the lease of \<open>s\<close>, apart from what \<open>l\<close> says of itself.\<close>

definition lease_held :: "active_lease \<Rightarrow> coordinator \<Rightarrow> bool" where
  "lease_held l s \<longleftrightarrow> co_acquisition s = None \<and> co_manual s = 0 \<and> ls_number l < co_calls s \<and>
     co_phase s = (if ls_release l = None then PhActive else PhReleasing)"

definition co_ok :: "coordinator \<Rightarrow> bool" where
  "co_ok s \<longleftrightarrow>
     (case co_active s of
        Some l \<Rightarrow> lease_held l s \<and> lease_ok l \<and> (co_disposed s \<longrightarrow> ls_release l \<noteq> None)
      | None \<Rightarrow>
          (case co_acquisition s of
             Some a \<Rightarrow> co_phase s = PhAcquiring \<and> aq_number a < co_calls s \<and> acquisition_ok (co_manual s) (co_disposed s) a
           | None \<Rightarrow> co_phase s \<in> {PhIdle, PhFaulted, PhDisposed} \<and> (co_disposed s \<longleftrightarrow> co_phase s = PhDisposed)))"

named_theorems co_frame \<open>updates the invariant does not see\<close>

lemma co_ok_frame [co_frame]:
  "co_ok (s\<lparr>co_conn := v1\<rparr>) = co_ok s" "co_ok (s\<lparr>co_automations := v2\<rparr>) = co_ok s"
  "co_ok (s\<lparr>co_tokenSequence := v3\<rparr>) = co_ok s" "co_ok (s\<lparr>co_faultCode := v4\<rparr>) = co_ok s"
  "co_ok (s\<lparr>co_faultToken := v5\<rparr>) = co_ok s" "co_ok (s\<lparr>co_dispose := v6\<rparr>) = co_ok s"
  "co_ok (s\<lparr>co_results := v7\<rparr>) = co_ok s" "co_ok (s\<lparr>co_log := v8\<rparr>) = co_ok s"
  "co_ok (co_record c s) = co_ok s" "co_ok (co_result n r s) = co_ok s" "co_ok (start_restore n reason ids s) = co_ok s"
  by (simp_all add: co_ok_def lease_held_def co_record_def co_result_def start_restore_def split: list.split option.split)

lemma held_frame [co_frame]:
  "lease_held l (s\<lparr>co_tokenSequence := v3\<rparr>) = lease_held l s" "lease_held l (s\<lparr>co_faultCode := v4\<rparr>) = lease_held l s"
  "lease_held l (s\<lparr>co_faultToken := v5\<rparr>) = lease_held l s" "lease_held l (s\<lparr>co_disposed := v6\<rparr>) = lease_held l s"
  "lease_held l (s\<lparr>co_active := v7\<rparr>) = lease_held l s" "lease_held l (co_record c s) = lease_held l s"
  by (simp_all add: lease_held_def co_record_def)

lemma co_ok_calls: "co_ok s \<Longrightarrow> co_ok (s\<lparr>co_calls := co_calls s + 1\<rparr>)"
  by (auto simp: co_ok_def lease_held_def split: option.splits)

lemma co_ok_lease: "co_ok (s\<lparr>co_active := Some l\<rparr>) \<longleftrightarrow> lease_held l s \<and> lease_ok l \<and> (co_disposed s \<longrightarrow> ls_release l \<noteq> None)"
  by (simp add: co_ok_def lease_held_def)

lemma co_ok_active: "co_ok s \<Longrightarrow> co_active s = Some l \<Longrightarrow> lease_held l s \<and> lease_ok l \<and> (co_disposed s \<longrightarrow> ls_release l \<noteq> None)"
  by (simp add: co_ok_def)

lemma co_ok_acquisition:
  "co_ok s \<Longrightarrow> co_acquisition s = Some a \<Longrightarrow>
   co_active s = None \<and> co_phase s = PhAcquiring \<and> aq_number a < co_calls s \<and> acquisition_ok (co_manual s) (co_disposed s) a"
  by (auto simp: co_ok_def lease_held_def split: option.splits)

lemma co_ok_set_acquisition:
  "co_ok s \<Longrightarrow> co_acquisition s = Some a \<Longrightarrow> acquisition_ok (co_manual s) (co_disposed s) a' \<Longrightarrow> aq_number a' = aq_number a \<Longrightarrow>
   co_ok (s\<lparr>co_acquisition := Some a'\<rparr>)"
  using co_ok_acquisition [of s a] by (simp add: co_ok_def)

section \<open>Release\<close>

lemma finish_release_ok: "co_acquisition s = None \<Longrightarrow> co_ok (finish_release drainFailed linesRestored steady restored failures reason l s)"
  by (simp add: finish_release_def co_ok_def Let_def)

definition releasing :: "active_lease \<Rightarrow> coordinator \<Rightarrow> bool" where
  "releasing l s \<longleftrightarrow> co_acquisition s = None \<and> co_manual s = 0 \<and> ls_number l < co_calls s \<and> co_phase s = PhReleasing \<and>
     mirror_ok (ls_rx l) \<and> mr_closed (ls_rx l) \<noteq> None"

lemma releasing_frame [co_frame]: "releasing l (co_record c s) = releasing l s"
  by (simp add: releasing_def co_record_def)

lemma releasing_at: "releasing l s \<Longrightarrow> pc = RlOp \<or> ls_op l = None \<Longrightarrow> co_ok (s\<lparr>co_active := Some (l\<lparr>ls_release := Some (reason, pc)\<rparr>)\<rparr>)"
  by (simp add: co_ok_lease lease_held_def lease_ok_def lease_core_def releasing_def)

lemma release_restore_ok: "releasing l s \<Longrightarrow> ls_op l = None \<Longrightarrow> co_ok (release_restore reason l s)"
  by (simp add: release_restore_def co_frame releasing_at)

lemma release_stable_ok: "releasing l s \<Longrightarrow> ls_op l = None \<Longrightarrow> co_ok (release_stable drainFailed reason l s)"
  by (auto simp: release_stable_def Let_def co_frame releasing_at release_restore_ok releasing_def intro!: finish_release_ok split: option.split)

lemma release_drain_ok: "releasing l s \<Longrightarrow> ls_op l = None \<Longrightarrow> co_ok (release_drain reason l s)"
  by (simp add: release_drain_def co_frame releasing_at release_stable_ok)

lemma performRelease_ok: "releasing l s \<Longrightarrow> co_ok (performRelease reason l s)"
  by (simp add: performRelease_def releasing_at release_drain_ok)

lemma mr_close_closed: "mirror_ok m \<Longrightarrow> mirror_ok (mr_close e m) \<and> mr_closed (mr_close e m) \<noteq> None"
  using close_step [of m e] by (simp add: mr_close_def mr_reject_def mr_settle_def Let_def split: option.splits prod.split)

lemma beginRelease_ok:
  assumes "lease_held l s" "lease_core l"
  shows "co_ok (beginRelease reason restoreAllowed abortWrites l s)"
proof (cases "ls_release l")
  case None
  then have "releasing (l\<lparr>ls_restoreAllowed := ls_restoreAllowed l \<and> restoreAllowed, ls_aborted := ls_aborted l \<or> abortWrites,
      ls_rx := mr_close e (ls_rx l)\<rparr>) (s\<lparr>co_phase := PhReleasing\<rparr>)" for e
    using assms mr_close_closed [of "ls_rx l" e] by (simp add: releasing_def lease_held_def lease_core_def)
  then show ?thesis using None by (simp add: beginRelease_def Let_def performRelease_ok)
next
  case (Some r)
  then show ?thesis using assms
    by (cases r) (simp add: beginRelease_def Let_def co_ok_lease lease_held_def lease_ok_def lease_core_def)
qed

lemma active_releasing:
  assumes "co_ok s" "co_active s = Some l" "ls_release l = Some (reason, pc)"
  shows "releasing l s \<and> (pc = RlOp \<or> ls_op l = None)"
  using co_ok_active [OF assms(1,2)] assms(3) by (simp add: lease_held_def lease_ok_def lease_core_def releasing_def)

lemma release_continuations_ok:
  assumes "co_ok s"
  shows "co_ok (release_op_settled s)" "co_ok (release_drained r s)" "co_ok (release_lines r s)" "co_ok (release_restored r s)"
    "co_ok (release_finished s)"
proof -
  note a = active_releasing [OF assms]
  show "co_ok (release_op_settled s)"
    using assms a by (auto simp: release_op_settled_def release_drain_ok split: option.split prod.split release_pc.split)
  show "co_ok (release_drained r s)"
  proof (cases "\<exists>l reason. co_active s = Some l \<and> ls_release l = Some (reason, RlDrain)")
    case True
    then obtain l reason where l: "co_active s = Some l" "ls_release l = Some (reason, RlDrain)" by blast
    then have "releasing l s" "releasing (l\<lparr>ls_restoreAllowed := False\<rparr>) s" "ls_op l = None" using a [OF l] by (simp_all add: releasing_def)
    then show ?thesis using l by (simp add: release_drained_def release_stable_ok split: reply.split)
  next
    case False
    then show ?thesis using assms by (auto simp: release_drained_def split: option.split prod.split release_pc.split)
  qed
  show "co_ok (release_lines r s)"
    using assms a by (auto simp: release_lines_def release_restore_ok releasing_def split: option.split prod.split release_pc.split
        intro!: release_restore_ok finish_release_ok)
  show "co_ok (release_restored r s)"
  proof (cases "\<exists>l reason i rest k fs. co_active s = Some l \<and> ls_release l = Some (reason, RlRestore (i # rest) k fs)")
    case True
    then obtain l reason i rest k fs where l: "co_active s = Some l" "ls_release l = Some (reason, RlRestore (i # rest) k fs)" by blast
    have "co_ok (s\<lparr>co_active := Some (l\<lparr>ls_release := Some (reason, RlRestore rest j gs)\<rparr>)\<rparr>)" for j gs
      using a [OF l] by (intro releasing_at) simp_all
    then show ?thesis using l by (simp add: release_restored_def co_frame split: reply.split)
  next
    case False
    then show ?thesis using assms by (auto simp: release_restored_def split: option.split prod.split release_pc.split list.split)
  qed
  show "co_ok (release_finished s)"
    using assms a by (auto simp: release_finished_def releasing_def split: option.split prod.split release_pc.split list.split intro!: finish_release_ok)
qed

section \<open>Acquisition\<close>

definition acquiring :: "acquisition \<Rightarrow> coordinator \<Rightarrow> bool" where
  "acquiring a s \<longleftrightarrow> co_active s = None \<and> co_phase s = PhAcquiring \<and> aq_number a < co_calls s \<and> (co_disposed s \<longrightarrow> aq_aborted a)"

lemma acquiring_frame [co_frame]: "acquiring a (co_record c s) = acquiring a s" "acquiring a (s\<lparr>co_tokenSequence := n\<rparr>) = acquiring a s"
  by (simp_all add: acquiring_def co_record_def)

lemma ok_acquiring: "co_ok s \<Longrightarrow> co_acquisition s = Some a \<Longrightarrow> acquiring a s"
  using co_ok_acquisition [of s a] by (simp add: acquiring_def acquisition_ok_def)

lemma finish_acquire_ok: "co_active s = None \<Longrightarrow> co_ok (finish_acquire error a s)"
  by (simp add: finish_acquire_def co_ok_def Let_def co_result_def)

lemma fail_acquire_ok: "acquiring a s \<Longrightarrow> co_ok (fail_acquire error a s)"
  by (simp add: fail_acquire_def co_frame finish_acquire_ok acquiring_def) (simp add: co_ok_def acquisition_ok_def)

lemma assert_generation_ok:
  "assertAcquisitionGeneration a conn = (e, a') \<Longrightarrow> aq_number a' = aq_number a \<and> aq_aborted a' = aq_aborted a \<and> aq_pc a' = aq_pc a \<and>
     aq_drained a' = aq_drained a \<and> aq_paused a' = aq_paused a \<and>
     (e = None \<longrightarrow> a' = a \<and> \<not> aq_aborted a \<and> isGenerationCurrent (aq_generation a) conn)"
  by (auto simp: assertAcquisitionGeneration_def throwIfAcquisitionCancelled_def split: option.splits if_splits)

lemma issueToken_frame: "issueToken nonce s = (t, s') \<Longrightarrow> s' = s \<or> s' = s\<lparr>co_tokenSequence := co_tokenSequence s + 1\<rparr>"
  by (auto simp: issueToken_def Let_def split: reply.splits option.splits sum.splits if_splits)

lemma new_mirror_fresh: "mirror_ok (new_mirror b c) \<and> mr_closed (new_mirror b c) = None"
  by (simp add: new_mirror_ok) (simp add: new_mirror_def)

lemma activate_ok:
  assumes "acquiring a s" "co_manual s = 0" "\<not> aq_aborted a"
  shows "co_ok (activate nonce a s)"
proof -
  obtain t s' where t: "issueToken nonce s = (t, s')" by (metis surj_pair)
  have same: "acquiring a s'" "co_manual s' = 0" "\<not> co_disposed s'"
    using issueToken_frame [OF t] assms by (auto simp: co_frame acquiring_def)
  show ?thesis
  proof (cases t)
    case (Inl e)
    then show ?thesis using t same by (simp add: activate_def fail_acquire_ok)
  next
    case (Inr token)
    then show ?thesis using t same new_mirror_fresh
      by (simp add: activate_def Let_def co_frame) (simp add: co_ok_def lease_held_def lease_ok_def lease_core_def acquiring_def)
  qed
qed

lemma pause_next_ok:
  assumes "acquiring a s" "co_manual s = 0" "\<not> aq_aborted a" "aq_drained a"
  shows "co_ok (pause_next todo nonce a s)"
proof (cases todo)
  case Nil
  then show ?thesis using assms by (simp add: pause_next_def activate_ok)
next
  case (Cons p rest)
  then show ?thesis using assms
    by (cases p) (simp add: pause_next_def co_frame, simp add: co_ok_def acquisition_ok_def acquiring_def)
qed

lemma acquire_drained_ok: "co_ok s \<Longrightarrow> co_ok (acquire_drained r s)"
  using ok_acquiring [of s]
  by (auto simp: acquire_drained_def fail_acquire_ok acquisition_ok_def acquiring_def split: option.split reply.split intro!: co_ok_set_acquisition)

lemma acquire_manual_ok:
  assumes "co_ok s"
  shows "co_ok (acquire_manual lines nonce s)"
proof (cases "co_acquisition s")
  case None
  then show ?thesis using assms by (simp add: acquire_manual_def)
next
  case (Some a)
  note acq = ok_acquiring [OF assms Some] and ok = co_ok_acquisition [OF assms Some]
  consider "aq_pc a = AqManual MwRejected" | "aq_pc a = AqManual MwResolved"
    | "aq_pc a \<noteq> AqManual MwRejected" "aq_pc a \<noteq> AqManual MwResolved" by blast
  then show ?thesis
  proof cases
    case 1
    then show ?thesis using Some acq by (simp add: acquire_manual_def fail_acquire_ok)
  next
    case 2
    then have manual: "co_manual s = 0" using ok by (simp add: acquisition_ok_def)
    obtain e a1 where e: "assertAcquisitionGeneration (a\<lparr>aq_drained := True\<rparr>) (co_conn s) = (e, a1)" by (metis surj_pair)
    note as = assert_generation_ok [OF e]
    have acq1: "acquiring a1 s" using as acq by (simp add: acquiring_def)
    show ?thesis
    proof (cases e)
      case None
      then have next_ok: "co_ok (pause_next todo nonce (a1\<lparr>aq_baseline := b\<rparr>) s)" for todo b
        using as acq1 manual by (intro pause_next_ok) (simp_all add: acquiring_def)
      show ?thesis using Some 2 e None acq1 next_ok by (simp add: acquire_manual_def fail_acquire_ok split: sum.split)
    next
      case err: (Some err)
      then show ?thesis using Some 2 e acq1 by (simp add: acquire_manual_def fail_acquire_ok)
    qed
  next
    case 3
    then show ?thesis using assms Some by (auto simp: acquire_manual_def split: acquire_pc.split manual_wait.split)
  qed
qed

lemma acquire_paused_ok:
  assumes "co_ok s"
  shows "co_ok (acquire_paused r nonce s)"
proof (cases "\<exists>a i port rest. co_acquisition s = Some a \<and> aq_pc a = AqPause ((i, port) # rest)")
  case False
  then show ?thesis using assms by (auto simp: acquire_paused_def split: option.split acquire_pc.split list.split)
next
  case True
  then obtain a i port rest where Some: "co_acquisition s = Some a" and pc: "aq_pc a = AqPause ((i, port) # rest)" by blast
  note acq = ok_acquiring [OF assms Some] and ok = co_ok_acquisition [OF assms Some]
  show ?thesis
  proof (cases r)
    case (Rejected e)
    then show ?thesis using Some pc acq by (simp add: acquire_paused_def fail_acquire_ok)
  next
    case (Resolved suspended)
    let ?a = "if suspended then a\<lparr>aq_paused := aq_paused a @ [i]\<rparr> else a"
    let ?s = "if suspended then co_record (Suspended (aq_number a) i) s else s"
    obtain e a1 where e: "assertAcquisitionGeneration ?a (co_conn ?s) = (e, a1)" by (metis surj_pair)
    note as = assert_generation_ok [OF e]
    have acq1: "acquiring a1 ?s" using as acq by (simp add: acquiring_def co_record_def)
    have manual: "co_manual ?s = 0" "aq_drained a" using ok pc by (simp_all add: acquisition_ok_def co_record_def)
    have r: "acquire_paused r nonce s = (case e of Some err \<Rightarrow> fail_acquire (Some err) a1 ?s | None \<Rightarrow> pause_next rest nonce a1 ?s)"
      using Some pc Resolved e unfolding acquire_paused_def by (simp add: Let_def split: option.split)
    show ?thesis
    proof (cases e)
      case None
      then show ?thesis unfolding r using as acq1 manual by (simp add: pause_next_ok)
    next
      case (Some err)
      then show ?thesis unfolding r using acq1 by (simp add: fail_acquire_ok)
    qed
  qed
qed

lemma acquire_restoring_ok: "co_ok s \<Longrightarrow> co_ok (acquire_restored r s)" "co_ok s \<Longrightarrow> co_ok (acquire_finished s)"
  using ok_acquiring [of s]
  by (auto simp: acquire_restored_def acquire_finished_def co_frame finish_acquire_ok acquisition_ok_def acquiring_def
      split: option.split acquire_pc.split list.split intro!: co_ok_set_acquisition finish_acquire_ok)

lemma assertIdle_none: "co_ok s \<Longrightarrow> assertIdle s = None \<longleftrightarrow> co_phase s = PhIdle \<and> \<not> co_disposed s"
  by (simp add: assertIdle_def)

lemma idle_free: "co_ok s \<Longrightarrow> co_phase s = PhIdle \<Longrightarrow> co_acquisition s = None \<and> co_active s = None \<and> \<not> co_disposed s"
  by (auto simp: co_ok_def lease_held_def split: option.splits if_splits)

lemma lease_acquire_ok:
  assumes "co_ok s"
  shows "co_ok (lease_acquire owner rxBufferBytes signalAborted s)"
proof (cases "assertIdle (s\<lparr>co_calls := co_calls s + 1\<rparr>)")
  case (Some e)
  then show ?thesis using co_ok_calls [OF assms] by (simp add: lease_acquire_def Let_def co_frame)
next
  case None
  let ?s = "s\<lparr>co_calls := co_calls s + 1, co_faultCode := None, co_faultToken := None\<rparr>"
  have ok: "co_ok ?s" using co_ok_calls [OF assms] by (simp add: co_frame)
  have free: "co_active s = None" "\<not> co_disposed s"
    using None idle_free [OF assms] by (auto simp: assertIdle_def split: if_splits)
  have start: "co_ok (?s\<lparr>co_acquisition := Some a, co_phase := PhAcquiring\<rparr>) \<and> acquiring a (?s\<lparr>co_acquisition := Some a, co_phase := PhAcquiring\<rparr>)"
    if "aq_number a = co_calls s" "aq_pc a = AqDrain" for a
    using free that by (simp add: co_ok_def acquiring_def acquisition_ok_def)
  show ?thesis using None ok start
    by (auto simp: lease_acquire_def Let_def co_frame fail_acquire_ok split: sum.split option.split)
qed

lemma abort_acquisition_ok:
  "acquisition_ok manual d (abort_acquisition reason a) \<longleftrightarrow>
     (case aq_pc a of AqManual MwResolved \<Rightarrow> manual = 0 | AqPause todo \<Rightarrow> manual = 0 \<and> todo \<noteq> [] \<and> aq_drained a | _ \<Rightarrow> True)"
  by (auto simp: acquisition_ok_def abort_acquisition_def split: acquire_pc.split manual_wait.split)

lemma abort_step_ok:
  assumes "co_ok s" "co_acquisition s = Some a"
  shows "co_ok (s\<lparr>co_acquisition := Some (abort_acquisition reason (a\<lparr>aq_restoreAllowed := b\<rparr>))\<rparr>)"
    "co_ok (s\<lparr>co_disposed := True, co_acquisition := Some (abort_acquisition reason a)\<rparr>)"
    "co_ok (s\<lparr>co_acquisition := Some (abort_acquisition reason a)\<rparr>)"
  using co_ok_acquisition [OF assms] assms
  by (auto simp: co_ok_def abort_acquisition_ok acquisition_ok_def abort_acquisition_def split: acquire_pc.splits manual_wait.splits)

section \<open>Device operations, the mirror and the connection\<close>

lemma set_lease_ok: "co_ok s \<Longrightarrow> co_active s = Some l \<Longrightarrow> lease_ok l' \<Longrightarrow> ls_number l' = ls_number l \<Longrightarrow> ls_release l' = ls_release l \<Longrightarrow>
    co_ok (s\<lparr>co_active := Some l'\<rparr>)"
  using co_ok_active [of s l] by (simp add: co_ok_lease lease_held_def)

lemma begin_release_ok: "co_ok s \<Longrightarrow> co_active s = Some l \<Longrightarrow> co_ok (beginRelease reason restoreAllowed abortWrites l s)"
  using co_ok_active [of s l] by (simp add: beginRelease_ok lease_ok_def)

lemma requireActiveLease_ok:
  assumes "co_ok s" "requireActiveLease token s = (r, s')"
  shows "co_ok s' \<and> (\<forall>l. r = Inr l \<longrightarrow> s' = s \<and> co_active s = Some l \<and> ls_release l = None \<and> lg_token (ls_grant l) = token \<and>
    isGenerationCurrent (lg_generation (ls_grant l)) (co_conn s))"
proof (cases "co_active s")
  case None
  then show ?thesis using assms by (auto simp: requireActiveLease_def split: option.splits)
next
  case (Some l)
  have "co_phase s = PhActive \<longrightarrow> ls_release l = None" using co_ok_active [OF assms(1) Some] by (auto simp: lease_held_def split: if_splits)
  then show ?thesis using assms Some begin_release_ok [OF assms(1) Some]
    by (auto simp: requireActiveLease_def split: option.splits if_splits)
qed

lemma begin_operation_ok:
  assumes "co_ok s"
  shows "co_ok (begin_operation kind check token signalAborted s)"
proof -
  let ?s = "s\<lparr>co_calls := co_calls s + 1\<rparr>"
  obtain r s' where r: "requireActiveLease token ?s = (r, s')" by (metis surj_pair)
  note ok = requireActiveLease_ok [OF co_ok_calls [OF assms] r]
  show ?thesis
  proof (cases r)
    case (Inl e)
    then show ?thesis using r ok by (simp add: begin_operation_def Let_def co_frame)
  next
    case (Inr l)
    then have l: "s' = ?s" "co_active s' = Some l" "ls_release l = None" "co_ok s'" using ok by auto
    have "co_ok (s'\<lparr>co_active := Some ((startLeaseOperation n kind l)\<lparr>ls_touched := t\<rparr>)\<rparr>)" for n t
      using set_lease_ok [OF l(4,2)] co_ok_active [OF l(4,2)] l(3)
      by (simp add: startLeaseOperation_def lease_ok_def lease_core_def)
    then show ?thesis using r ok Inr l(4) by (simp add: begin_operation_def Let_def co_frame split: option.split)
  qed
qed

lemma clear_mirror_ok: "mirror_ok m \<Longrightarrow> mirror_ok (mr_clearBuffered m) \<and> mr_closed (mr_clearBuffered m) = mr_closed m"
  using clear_step [of m] by (simp add: mr_clearBuffered_def)

lemma settle_operation_ok:
  assumes "co_ok s"
  shows "co_ok (settle_operation n r s)"
proof (cases "co_active s")
  case None
  then show ?thesis using assms by (simp add: settle_operation_def)
next
  case (Some l)
  have "lease_ok (finishLeaseOperation (if b then l\<lparr>ls_rx := mr_clearBuffered (ls_rx l)\<rparr> else l))" for b
    using co_ok_active [OF assms Some] clear_mirror_ok [of "ls_rx l"]
    by (cases "ls_release l") (auto simp: finishLeaseOperation_def lease_ok_def lease_core_def)
  then have "co_ok (s\<lparr>co_active := Some (finishLeaseOperation (if b then l\<lparr>ls_rx := mr_clearBuffered (ls_rx l)\<rparr> else l))\<rparr>)" for b
    by (rule set_lease_ok [OF assms Some]) (simp_all add: finishLeaseOperation_def)
  then show ?thesis using assms Some by (simp add: settle_operation_def co_frame split: option.split)
qed

lemma abort_operation_ok: "co_ok s \<Longrightarrow> co_ok (abort_operation n s)"
  using co_ok_active [of s]
  by (auto simp: abort_operation_def lease_ok_def lease_core_def split: option.splits intro!: set_lease_ok)

lemma rx_ok: "co_ok s \<Longrightarrow> co_active s = Some l \<Longrightarrow> mirror_ok m \<Longrightarrow> mr_closed m = mr_closed (ls_rx l) \<Longrightarrow> co_ok (set_rx m l s)"
  using co_ok_active [of s l]
  by (auto simp: set_rx_def lease_ok_def lease_core_def split: option.splits intro!: set_lease_ok)

lemma offerRx_ok:
  assumes "co_ok s"
  shows "co_ok (snd (offerRx g input s))"
proof (cases "co_active s")
  case None
  then show ?thesis using assms by (simp add: offerRx_def)
next
  case (Some l)
  note ok = co_ok_active [OF assms Some]
  have m: "mirror_ok (snd (mr_offer input (ls_rx l)))" "mr_closed (snd (mr_offer input (ls_rx l))) = mr_closed (ls_rx l)"
    using offer_step [of "ls_rx l" input] ok
    by (simp_all add: lease_ok_def lease_core_def) (simp add: mr_offer_def mr_settle_def mr_append_def Let_def split: option.split prod.split)
  have "co_ok (beginRelease RsCancelled True True (l\<lparr>ls_rx := mr_close LeLimitExceeded (snd (mr_offer input (ls_rx l)))\<rparr>)
      (s\<lparr>co_faultCode := c, co_faultToken := t\<rparr>))" for c t
    using ok mr_close_closed [OF m(1)]
    by (intro beginRelease_ok) (simp_all add: co_frame lease_ok_def lease_core_def lease_held_def split: option.splits prod.splits)
  then show ?thesis using assms Some m begin_release_ok [OF assms Some] rx_ok [OF assms Some]
    by (simp add: offerRx_def split: prod.split offer_result.split) force
qed

lemma read_ok:
  assumes "co_ok s"
  shows "co_ok (snd (lease_read token maxBytes timeoutMs signalAborted s))"
proof -
  obtain r s' where r: "requireActiveLease token s = (r, s')" by (metis surj_pair)
  note ok = requireActiveLease_ok [OF assms r]
  show ?thesis
  proof (cases r)
    case (Inl e)
    then show ?thesis using r ok by (simp add: lease_read_def)
  next
    case (Inr l)
    then have l: "co_active s' = Some l" "co_ok s'" using ok by auto
    have "mirror_ok (ls_rx l)" using co_ok_active [OF l(2,1)] by (simp add: lease_ok_def lease_core_def)
    then have "mirror_ok (mr_read n b (ls_rx l))" "mr_closed (mr_read n b (ls_rx l)) = mr_closed (ls_rx l)" for n b
      using mr_read_step [of "ls_rx l" n b]
      by (simp_all add: mr_read_def mr_result_def mr_take_def Let_def split: option.split prod.split)
    then have "co_ok (set_rx (mr_read n b (ls_rx l)) l s')" for n b by (rule rx_ok [OF l(2,1)])
    then show ?thesis using r ok Inr l(2) by (simp add: lease_read_def split: sum.split)
  qed
qed

lemma read_event_ok:
  assumes "co_ok s"
  shows "co_ok (read_event e n i s)"
proof (cases "co_active s")
  case None
  then show ?thesis using assms by (simp add: read_event_def)
next
  case (Some l)
  have "mirror_ok (mr_reject i e (ls_rx l))" "mr_closed (mr_reject i e (ls_rx l)) = mr_closed (ls_rx l)"
    using reject_step [of "ls_rx l" i e] co_ok_active [OF assms Some]
    by (simp_all add: lease_ok_def lease_core_def mr_reject_def mr_settle_def split: option.split prod.split)
  then show ?thesis using assms Some rx_ok [OF assms Some] by (simp add: read_event_def)
qed

lemma release_cancel_ok: "co_ok s \<Longrightarrow> co_ok (snd (lease_release token s))" "co_ok s \<Longrightarrow> co_ok (snd (lease_cancel token s))"
  by (auto simp: lease_release_def lease_cancel_def requireLeaseForRelease_def begin_release_ok split: option.splits)

lemma disconnected_ok: "co_ok s \<Longrightarrow> co_ok (snd (notifyDisconnected g s))"
  by (auto simp: notifyDisconnected_def begin_release_ok abort_step_ok split: sum.split option.split)

lemma synchronize_ok:
  assumes "co_ok s"
  shows "co_ok (snd (synchronizeConnection s))"
proof (cases "co_phase s = PhFaulted")
  case True
  then have "co_acquisition s = None" "co_active s = None" "\<not> co_disposed s"
    using assms by (auto simp: co_ok_def lease_held_def split: option.splits if_splits)
  then have "co_ok (s\<lparr>co_faultedGeneration := None, co_phase := PhIdle\<rparr>)" by (simp add: co_ok_def)
  then show ?thesis using True assms by (simp add: synchronizeConnection_def split: option.split sum.split prod.split)
next
  case False
  then show ?thesis using assms
    by (auto simp: synchronizeConnection_def synchronize_lease_def begin_release_ok abort_step_ok split: option.split)
qed

lemma dispose_finish_ok: "co_acquisition s = None \<Longrightarrow> co_active s = None \<Longrightarrow> co_disposed s \<Longrightarrow> co_ok (dispose_finish s)"
  by (simp add: dispose_finish_def co_ok_def)

lemma dispose_ok: "co_ok s \<Longrightarrow> co_ok (dispose s)"
proof -
  assume ok: "co_ok s"
  have "co_ok (beginRelease RsDisposed True True l (s\<lparr>co_disposed := True\<rparr>))" if "co_active s = Some l" for l
    using co_ok_active [OF ok that] by (intro beginRelease_ok) (simp_all add: co_frame lease_ok_def)
  then show ?thesis using ok
    by (auto simp: dispose_def Let_def dispose_lease_def co_frame abort_step_ok split: option.split intro!: dispose_finish_ok)
qed

definition disposal_ok :: "coordinator \<Rightarrow> bool" where
  "disposal_ok s \<longleftrightarrow> (co_disposed s \<longleftrightarrow> co_dispose s \<noteq> DspNone) \<and>
     (co_dispose s = DspRelease \<or> co_dispose s = DspDone \<longrightarrow> co_acquisition s = None)"

lemma dispose_resume_ok:
  assumes "co_ok s" "disposal_ok s"
  shows "co_ok (dispose_resume s)"
proof -
  have d: "co_ok (dispose_lease s)" if "co_acquisition s = None" "co_disposed s"
    using begin_release_ok [OF assms(1)] that
    by (auto simp: dispose_lease_def co_frame split: option.split intro!: dispose_finish_ok)
  show ?thesis using assms d
    by (auto simp: dispose_resume_def disposal_ok_def split: dispose_pc.split intro!: dispose_finish_ok)
qed

lemma manual_ok:
  assumes "co_ok s"
  shows "co_ok (snd (manual_start s))" "co_manual s > 0 \<Longrightarrow> co_ok (manual_end s)"
proof -
  show "co_ok (snd (manual_start s))"
  proof (cases "assertIdle s")
    case None
    then have "co_phase s = PhIdle" by (simp add: assertIdle_def split: if_splits)
    then show ?thesis using None assms idle_free [OF assms] by (simp add: manual_start_def) (simp add: co_ok_def)
  next
    case (Some e)
    then show ?thesis using assms by (simp add: manual_start_def)
  qed
  assume pos: "co_manual s > 0"
  then have none: "co_active s = None" using assms by (auto simp: co_ok_def lease_held_def split: option.splits)
  show "co_ok (manual_end s)"
  proof (cases "co_acquisition s")
    case None
    then show ?thesis using assms none by (simp add: manual_end_def Let_def co_ok_def)
  next
    case (Some a)
    then show ?thesis using assms none pos
      by (auto simp: manual_end_def Let_def co_ok_def acquisition_ok_def drain_resolved_def split: acquire_pc.splits manual_wait.splits)
  qed
qed

section \<open>Every step\<close>

lemmas operation_defs = lease_write_def lease_clearBuffers_def lease_pendingBytes_def lease_setOutputLines_def lease_readInputLines_def

lemma register_ok: "co_ok s \<Longrightarrow> co_ok (snd (registerAutomation i port s))" "co_ok s \<Longrightarrow> co_ok (snd (unregisterAutomation i port s))"
  by (auto simp: registerAutomation_def unregisterAutomation_def co_frame split: option.split sum.split)

lemma lease_step_ok: "co_ok s \<Longrightarrow> disposal_ok s \<Longrightarrow> co_ok (lease_step ev s)"
  by (cases ev) (simp_all add: co_frame register_ok manual_ok lease_acquire_ok acquire_drained_ok acquire_manual_ok acquire_paused_ok
      acquire_restoring_ok operation_defs begin_operation_ok settle_operation_ok abort_operation_ok offerRx_ok read_ok read_event_ok
      release_cancel_ok release_continuations_ok disconnected_ok synchronize_ok dispose_ok dispose_resume_ok owner_abort_def
      begin_release_ok abort_step_ok split: option.split)

section \<open>Disposal\<close>

text \<open>What no step but disposal and \<open>acquire\<close> changes: the marks of disposal, and that there is no acquisition.\<close>

definition lease_quiet :: "coordinator \<Rightarrow> coordinator \<Rightarrow> bool" where
  "lease_quiet s s' \<longleftrightarrow> co_disposed s' = co_disposed s \<and> co_dispose s' = co_dispose s \<and> (co_acquisition s = None \<longrightarrow> co_acquisition s' = None)"

lemma quiet_refl [simp]: "lease_quiet s s"
  by (simp add: lease_quiet_def)

lemma quiet_trans: "lease_quiet s t \<Longrightarrow> lease_quiet t u \<Longrightarrow> lease_quiet s u"
  by (simp add: lease_quiet_def)

lemma quiet_disposal: "lease_quiet s s' \<Longrightarrow> disposal_ok s \<Longrightarrow> disposal_ok s'"
  by (auto simp: lease_quiet_def disposal_ok_def)

lemma release_frame [simp]:
  "co_acquisition (finish_release drainFailed linesRestored steady restored failures reason l s) = co_acquisition s"
  "co_disposed (finish_release drainFailed linesRestored steady restored failures reason l s) = co_disposed s"
  "co_dispose (finish_release drainFailed linesRestored steady restored failures reason l s) = co_dispose s"
  "co_acquisition (start_restore n reason ids s) = co_acquisition s" "co_disposed (start_restore n reason ids s) = co_disposed s"
  "co_dispose (start_restore n reason ids s) = co_dispose s"
  "co_acquisition (co_record c s) = co_acquisition s" "co_disposed (co_record c s) = co_disposed s" "co_dispose (co_record c s) = co_dispose s"
  "co_acquisition (co_result n r s) = co_acquisition s" "co_disposed (co_result n r s) = co_disposed s" "co_dispose (co_result n r s) = co_dispose s"
  by (simp_all add: finish_release_def Let_def start_restore_def co_record_def co_result_def split: list.split)

lemma release_quiet: "lease_quiet s (release_drain reason l s)" "lease_quiet s (release_stable drainFailed reason l s)" "lease_quiet s (release_restore reason l s)"
    "lease_quiet s (finish_release drainFailed linesRestored steady restored failures reason l s)"
  by (simp_all add: lease_quiet_def release_drain_def release_stable_def release_restore_def Let_def split: option.split)

lemma beginRelease_quiet: "lease_quiet s (beginRelease reason restoreAllowed abortWrites l s)"
  using release_quiet(1) [where s = "s\<lparr>co_phase := PhReleasing\<rparr>"]
  by (simp add: beginRelease_def performRelease_def Let_def lease_quiet_def)

lemma continuation_quiet: "lease_quiet s (release_op_settled s)" "lease_quiet s (release_drained u s)" "lease_quiet s (release_lines u s)"
    "lease_quiet s (release_restored u s)" "lease_quiet s (release_finished s)"
  using release_quiet
  by (simp_all add: release_op_settled_def release_drained_def release_lines_def release_finished_def split: option.split prod.split release_pc.split reply.split list.split)
    (simp add: release_restored_def lease_quiet_def split: option.split prod.split release_pc.split reply.split list.split)

lemma fail_acquire_frame:
  "co_disposed (fail_acquire error a s) = co_disposed s" "co_dispose (fail_acquire error a s) = co_dispose s"
  by (simp_all add: fail_acquire_def finish_acquire_def Let_def)

lemma pause_next_frame:
  "co_disposed (pause_next todo nonce a s) = co_disposed s" "co_dispose (pause_next todo nonce a s) = co_dispose s"
  by (auto simp: pause_next_def activate_def Let_def fail_acquire_frame dest!: issueToken_frame split: list.split prod.split sum.split)

lemma acquisition_quiet: "lease_quiet s (acquire_drained u s)" "lease_quiet s (acquire_manual lines nonce s)" "lease_quiet s (acquire_paused b nonce s)"
    "lease_quiet s (acquire_restored u s)" "lease_quiet s (acquire_finished s)"
  by (auto simp: lease_quiet_def acquire_drained_def acquire_manual_def acquire_paused_def acquire_restored_def acquire_finished_def finish_acquire_def Let_def
      fail_acquire_frame pause_next_frame split: option.split reply.split acquire_pc.split manual_wait.split sum.split prod.split list.split)

lemma requireActiveLease_quiet: "requireActiveLease token s = (r, s') \<Longrightarrow> lease_quiet s s'"
  using beginRelease_quiet by (auto simp: requireActiveLease_def split: option.splits if_splits)

lemma begin_operation_quiet: "lease_quiet s (begin_operation kind check token signalAborted s)"
proof -
  obtain r s' where r: "requireActiveLease token (s\<lparr>co_calls := co_calls s + 1\<rparr>) = (r, s')" by (metis surj_pair)
  have "lease_quiet s s'" using requireActiveLease_quiet [OF r] by (simp add: lease_quiet_def)
  then show ?thesis using r by (simp add: begin_operation_def Let_def lease_quiet_def split: sum.split option.split)
qed

lemma offerRx_quiet: "lease_quiet s (snd (offerRx g input s))"
proof -
  have "lease_quiet s (beginRelease reason b c l (s\<lparr>co_faultCode := v, co_faultToken := w\<rparr>))" for reason b c l v w
    using beginRelease_quiet [where s = "s\<lparr>co_faultCode := v, co_faultToken := w\<rparr>"] by (simp add: lease_quiet_def)
  then show ?thesis using beginRelease_quiet
    by (simp add: offerRx_def split: option.split prod.split offer_result.split) (simp add: set_rx_def lease_quiet_def)
qed

lemma read_quiet: "lease_quiet s (snd (lease_read token maxBytes timeoutMs signalAborted s))"
proof -
  obtain r s' where r: "requireActiveLease token s = (r, s')" by (metis surj_pair)
  then show ?thesis using requireActiveLease_quiet [OF r]
    by (simp add: lease_read_def split: sum.split) (simp add: set_rx_def lease_quiet_def)
qed

lemma small_quiet: "lease_quiet s (s\<lparr>co_conn := conn\<rparr>)" "lease_quiet s (snd (registerAutomation i port s))" "lease_quiet s (snd (unregisterAutomation i port s))"
    "lease_quiet s (snd (manual_start s))" "lease_quiet s (manual_end s)" "lease_quiet s (settle_operation n r s)" "lease_quiet s (abort_operation n s)"
    "lease_quiet s (read_event e n k s)"
  by (simp_all add: lease_quiet_def registerAutomation_def unregisterAutomation_def manual_start_def manual_end_def Let_def
        settle_operation_def abort_operation_def read_event_def set_rx_def split: option.split sum.split)

lemma ending_quiet: "lease_quiet s (owner_abort n s)" "lease_quiet s (snd (lease_release token s))" "lease_quiet s (snd (lease_cancel token s))"
  using beginRelease_quiet [of s]
  by (simp_all add: owner_abort_def lease_release_def lease_cancel_def split: option.split) (simp add: lease_quiet_def)

lemma connection_quiet: "lease_quiet s (snd (notifyDisconnected g s))" "lease_quiet s (snd (synchronizeConnection s))"
proof -
  have "lease_quiet s (s\<lparr>co_acquisition := map_option f (co_acquisition s)\<rparr>)" for f by (simp add: lease_quiet_def)
  then show "lease_quiet s (snd (notifyDisconnected g s))"
    using beginRelease_quiet [of s] by (simp add: notifyDisconnected_def split: sum.split option.split)
  have "lease_quiet s (s\<lparr>co_acquisition := Some a\<rparr>)" if "co_acquisition s = Some b" for a b using that by (simp add: lease_quiet_def)
  moreover have "lease_quiet s (s\<lparr>co_faultedGeneration := None, co_phase := PhIdle\<rparr>)" by (simp add: lease_quiet_def)
  moreover have "lease_quiet s (snd (synchronize_lease s))" using beginRelease_quiet [of s] by (simp add: synchronize_lease_def split: option.split)
  ultimately show "lease_quiet s (snd (synchronizeConnection s))"
    by (simp add: synchronizeConnection_def split: sum.split option.split prod.split)
qed

fun starts_or_disposes :: "lease_event \<Rightarrow> bool" where
  "starts_or_disposes (EvAcquire owner rxBufferBytes signalAborted) = True"
| "starts_or_disposes EvDispose = True"
| "starts_or_disposes EvDisposeResume = True"
| "starts_or_disposes ev = False"

lemma lease_step_quiet: "\<not> starts_or_disposes ev \<Longrightarrow> lease_quiet s (lease_step ev s)"
  by (cases ev) (simp_all add: operation_defs small_quiet ending_quiet connection_quiet continuation_quiet acquisition_quiet
      begin_operation_quiet offerRx_quiet read_quiet)

lemma acquire_disposal:
  assumes "disposal_ok s"
  shows "disposal_ok (lease_acquire owner rxBufferBytes signalAborted s)"
proof (cases "assertIdle (s\<lparr>co_calls := co_calls s + 1\<rparr>)")
  case (Some e)
  then show ?thesis using assms by (simp add: lease_acquire_def Let_def disposal_ok_def)
next
  case None
  then have "\<not> co_disposed s" by (simp add: assertIdle_def split: if_splits)
  then have "co_dispose s = DspNone" "\<not> co_disposed s" using assms by (simp_all add: disposal_ok_def)
  then show ?thesis using None
    by (auto simp: lease_acquire_def Let_def disposal_ok_def fail_acquire_frame split: sum.split option.split)
qed

lemma dispose_disposal:
  assumes "disposal_ok s"
  shows "disposal_ok (dispose s)" "disposal_ok (dispose_resume s)"
proof -
  have d: "disposal_ok (dispose_lease u)" if "co_acquisition u = None" "co_disposed u" for u
    using beginRelease_quiet [of u] that
    by (auto simp: dispose_lease_def dispose_finish_def disposal_ok_def lease_quiet_def split: option.split)
  show "disposal_ok (dispose s)" using assms d [of "s\<lparr>co_disposed := True\<rparr>"]
    by (auto simp: dispose_def Let_def disposal_ok_def split: option.split)
  show "disposal_ok (dispose_resume s)" using assms d [of s]
    by (auto simp: dispose_resume_def dispose_finish_def disposal_ok_def split: dispose_pc.split)
qed

definition lease_inv :: "coordinator \<Rightarrow> bool" where
  "lease_inv s \<longleftrightarrow> co_ok s \<and> disposal_ok s"

lemma lease_inv_step: "lease_inv s \<Longrightarrow> lease_inv (lease_step ev s)"
  using lease_step_ok [of s ev] quiet_disposal [OF lease_step_quiet, of ev s] acquire_disposal [of s] dispose_disposal [of s]
  by (cases "starts_or_disposes ev"; cases ev) (simp_all add: lease_inv_def)

lemma lease_inv_new: "lease_inv (new_coordinator limits io conn)"
  by (simp add: lease_inv_def co_ok_def disposal_ok_def new_coordinator_def)

interpretation leases: invariant_machine "runs_by lease_step" "\<lambda>s. \<exists>limits io conn. s = new_coordinator limits io conn" lease_inv
  by unfold_locales (auto simp: runs_by_def lease_inv_new lease_inv_step)

section \<open>Calls of the device\<close>

fun is_operation :: "io_call \<Rightarrow> bool" where
  "is_operation (CallOp m n kind) = True"
| "is_operation c = False"

definition device_calls :: "coordinator \<Rightarrow> io_call list" where
  "device_calls s = filter is_operation (co_log s)"

text \<open>A view of the state that only sees some results and some calls: most steps leave it alone.\<close>

locale lease_view =
  fixes view :: "coordinator \<Rightarrow> 'v" and seen :: "io_call \<Rightarrow> bool"
  assumes view_frame:
      "view (s\<lparr>co_conn := v1\<rparr>) = view s" "view (s\<lparr>co_automations := v2\<rparr>) = view s" "view (s\<lparr>co_tokenSequence := v3\<rparr>) = view s"
      "view (s\<lparr>co_faultCode := v4\<rparr>) = view s" "view (s\<lparr>co_faultToken := v5\<rparr>) = view s" "view (s\<lparr>co_dispose := v6\<rparr>) = view s"
      "view (s\<lparr>co_active := v7\<rparr>) = view s" "view (s\<lparr>co_acquisition := v8\<rparr>) = view s" "view (s\<lparr>co_phase := v9\<rparr>) = view s"
      "view (s\<lparr>co_disposed := v10\<rparr>) = view s" "view (s\<lparr>co_manual := v11\<rparr>) = view s" "view (s\<lparr>co_calls := v12\<rparr>) = view s"
      "view (s\<lparr>co_faultedGeneration := v13\<rparr>) = view s" "view (s\<lparr>co_released := v14\<rparr>) = view s"
    and view_result: "view (co_result n (Inl e) s) = view s"
    and view_record: "\<not> seen c \<Longrightarrow> view (co_record c s) = view s"
    and seen_operation: "seen c \<Longrightarrow> is_operation c"
begin

lemma view_call: "\<not> is_operation c \<Longrightarrow> view (co_record c s) = view s"
  using view_record seen_operation by blast

lemma view_restore: "view (start_restore n reason ids s) = view s"
  by (simp add: start_restore_def view_call split: list.split)

lemma view_release:
  "view (finish_release drainFailed linesRestored steady restored failures reason l s) = view s"
  "view (release_restore reason l s) = view s" "view (release_stable drainFailed reason l s) = view s"
  "view (release_drain reason l s) = view s" "view (performRelease reason l s) = view s"
  "view (beginRelease reason restoreAllowed abortWrites l s) = view s"
  by (simp_all add: finish_release_def release_restore_def release_stable_def release_drain_def performRelease_def beginRelease_def
      Let_def view_frame view_restore view_call split: option.split)

lemma view_continuation:
  "view (release_op_settled s) = view s" "view (release_drained u s) = view s" "view (release_lines u s) = view s"
  "view (release_restored u s) = view s" "view (release_finished s) = view s"
  by (simp_all add: release_op_settled_def release_drained_def release_lines_def release_restored_def release_finished_def
      view_frame view_restore view_release split: option.split prod.split release_pc.split reply.split list.split)

lemma view_fail: "view (finish_acquire error a s) = view s" "view (fail_acquire error a s) = view s"
  by (simp_all add: fail_acquire_def finish_acquire_def Let_def view_frame view_result view_restore)

lemma view_acquisition:
  "view (lease_acquire owner rxBufferBytes signalAborted s) = view s" "view (acquire_drained u s) = view s"
  "view (acquire_restored u s) = view s" "view (acquire_finished s) = view s"
  by (simp_all add: lease_acquire_def acquire_drained_def acquire_restored_def acquire_finished_def Let_def view_frame view_result view_restore
      view_call view_fail split: option.split reply.split acquire_pc.split sum.split list.split)

lemma view_require: "requireActiveLease token s = (r, s') \<Longrightarrow> view s' = view s"
  by (auto simp: requireActiveLease_def view_release split: option.splits if_splits)

lemma view_others:
  "view (snd (registerAutomation i port s)) = view s" "view (snd (unregisterAutomation i port s)) = view s"
  "view (snd (manual_start s)) = view s" "view (manual_end s) = view s" "view (abort_operation n s) = view s"
  "view (read_event e n k s) = view s" "view (owner_abort n s) = view s" "view (snd (lease_release token s)) = view s"
  "view (snd (lease_cancel token s)) = view s" "view (snd (notifyDisconnected g s)) = view s"
  "view (snd (synchronizeConnection s)) = view s" "view (dispose s) = view s" "view (dispose_resume s) = view s"
  "view (snd (offerRx gen input s)) = view s"
  by (simp_all add: registerAutomation_def unregisterAutomation_def manual_start_def manual_end_def Let_def abort_operation_def
      read_event_def set_rx_def owner_abort_def lease_release_def lease_cancel_def notifyDisconnected_def synchronizeConnection_def
      synchronize_lease_def dispose_def dispose_resume_def dispose_lease_def dispose_finish_def offerRx_def view_frame view_release
      split: option.split sum.split prod.split dispose_pc.split offer_result.split)

lemma view_read: "view (snd (lease_read token maxBytes timeoutMs signalAborted s)) = view s"
  using view_require [of token s] by (simp add: lease_read_def set_rx_def view_frame split: prod.split sum.split)

lemma view_pause:
  assumes "view (activate nonce a s) = view s"
  shows "view (pause_next todo nonce a s) = view s"
  using assms by (simp add: pause_next_def view_frame view_call split: list.split)

end

interpretation device: lease_view device_calls is_operation
  by unfold_locales (simp_all add: device_calls_def co_result_def co_record_def)

lemma device_activate: "device_calls (activate nonce a s) = device_calls s"
proof -
  have "device_calls (co_result n r t) = device_calls t" for n r t by (simp add: device_calls_def co_result_def)
  then show ?thesis
    by (auto simp: activate_def Let_def device.view_frame device.view_fail dest!: issueToken_frame split: prod.split sum.split)
qed

lemma device_others:
  "device_calls (acquire_manual lines nonce s) = device_calls s" "device_calls (acquire_paused b nonce s) = device_calls s"
  "device_calls (settle_operation n r s) = device_calls s"
proof -
  show "device_calls (acquire_manual lines nonce s) = device_calls s" "device_calls (acquire_paused b nonce s) = device_calls s"
    by (simp_all add: acquire_manual_def acquire_paused_def Let_def device.view_fail device.view_call device.view_pause device_activate
        split: option.split reply.split acquire_pc.split manual_wait.split sum.split prod.split list.split)
  show "device_calls (settle_operation n r s) = device_calls s"
    by (simp add: settle_operation_def device_calls_def co_result_def split: option.split)
qed

lemmas device_simps = device.view_frame device.view_result device.view_release device.view_continuation device.view_acquisition
  device.view_others device.view_read device_others

text \<open>The token with which an operation is asked for.\<close>

fun presented :: "lease_event \<Rightarrow> string option" where
  "presented (EvWrite token payload signalAborted) = Some token"
| "presented (EvClear token selection signalAborted) = Some token"
| "presented (EvPending token signalAborted) = Some token"
| "presented (EvSetLines token lines signalAborted) = Some token"
| "presented (EvReadLines token signalAborted) = Some token"
| "presented ev = None"

lemma begin_operation_device:
  assumes "lease_inv s" "device_calls (begin_operation kind check token signalAborted s) \<noteq> device_calls s"
  shows "\<exists>l. co_active s = Some l \<and> lg_token (ls_grant l) = token \<and> ls_release l = None \<and> ls_op l = None \<and>
    isGenerationCurrent (lg_generation (ls_grant l)) (co_conn s) \<and>
    device_calls (begin_operation kind check token signalAborted s) = device_calls s @ [CallOp (ls_number l) (co_calls s) kind] \<and>
    (\<exists>l'. co_active (begin_operation kind check token signalAborted s) = Some l' \<and> ls_number l' = ls_number l \<and>
       ls_op l' = Some \<lparr>lo_number = co_calls s, lo_kind = kind, lo_aborted = False\<rparr>)"
proof -
  let ?s = "s\<lparr>co_calls := co_calls s + 1\<rparr>"
  obtain r s' where r: "requireActiveLease token ?s = (r, s')" by (metis surj_pair)
  have ok: "co_ok ?s" using assms(1) by (intro co_ok_calls) (simp add: lease_inv_def)
  have d: "device_calls s' = device_calls s" using device.view_require [OF r] by (simp add: device.view_frame)
  show ?thesis
  proof (cases r)
    case (Inl e)
    then show ?thesis using assms(2) r d by (simp add: begin_operation_def Let_def device_simps)
  next
    case (Inr l)
    then have l: "s' = ?s" "co_active s = Some l" "ls_release l = None" "lg_token (ls_grant l) = token"
        "isGenerationCurrent (lg_generation (ls_grant l)) (co_conn s)" using requireActiveLease_ok [OF ok r] by auto
    have "check l = None \<and> ls_op l = None \<and> \<not> (ls_aborted l \<or> signalAborted)"
      using assms(2) r Inr d by (simp add: begin_operation_def Let_def device_simps split: option.splits if_splits)
    then show ?thesis using r Inr l d
      by (simp add: begin_operation_def Let_def co_record_def startLeaseOperation_def) (simp add: device_calls_def)
  qed
qed

section \<open>Properties\<close>

text \<open>C11. Exclusive use, at every reachable state of the coordinator: while there is a lease there is no acquisition
  and no host write in flight, none is admitted or authorised and no second lease can be acquired; a phase
  of idle means that there is neither acquisition nor lease; after disposal nothing is acquired and every
  remaining lease is being released.\<close>

theorem lease_is_exclusive:
  assumes "s = run_events lease_step evs (new_coordinator limits io conn)"
  shows "(case co_active s of
            None \<Rightarrow> True
          | Some l \<Rightarrow> co_acquisition s = None \<and> co_manual s = 0 \<and> \<not> authorizesSchedulerWrite host s \<and>
              manual_start s = (assertIdle s, s) \<and> assertIdle s \<noteq> None \<and>
              co_active (lease_acquire owner rxBufferBytes signalAborted s) = Some l \<and>
              co_phase s = (if ls_release l = None then PhActive else PhReleasing)) \<and>
         (if co_phase s = PhIdle then co_acquisition s = None \<and> co_active s = None else True) \<and>
         (if co_disposed s then co_phase s \<noteq> PhIdle \<and> co_phase s \<noteq> PhActive else True)"
proof -
  have inv: "co_ok s" using leases.reachable_inv [OF _ reaches_runs_by, of "new_coordinator limits io conn" evs] assms
    by (auto simp: lease_inv_def)
  have "co_acquisition s = None \<and> co_manual s = 0 \<and> \<not> authorizesSchedulerWrite host s \<and>
      manual_start s = (assertIdle s, s) \<and> assertIdle s \<noteq> None \<and> co_active (lease_acquire owner rxBufferBytes signalAborted s) = Some l \<and>
      co_phase s = (if ls_release l = None then PhActive else PhReleasing)" if l: "co_active s = Some l" for l
  proof -
    have h: "co_acquisition s = None" "co_manual s = 0" "co_phase s = (if ls_release l = None then PhActive else PhReleasing)"
      using co_ok_active [OF inv l] by (simp_all add: lease_held_def)
    then have busy: "assertIdle s \<noteq> None" by (auto simp: assertIdle_def)
    then obtain e where e: "assertIdle s = Some e" by blast
    moreover have "assertIdle (s\<lparr>co_calls := co_calls s + 1\<rparr>) = assertIdle s" by (simp add: assertIdle_def)
    ultimately have "co_active (lease_acquire owner rxBufferBytes signalAborted s) = Some l" using l
      by (simp add: lease_acquire_def Let_def co_result_def)
    moreover have "manual_start s = (assertIdle s, s)" using e by (simp add: manual_start_def)
    ultimately show ?thesis using h busy by (simp add: authorizesSchedulerWrite_def)
  qed
  moreover have "co_disposed s \<Longrightarrow> co_phase s \<noteq> PhIdle \<and> co_phase s \<noteq> PhActive"
    using inv by (auto simp: co_ok_def lease_held_def split: option.splits)
  moreover have "co_phase s = PhIdle \<Longrightarrow> co_acquisition s = None \<and> co_active s = None" using idle_free [OF inv] by blast
  ultimately show ?thesis by (cases "co_active s") simp_all
qed

definition plain_limits :: lease_limits where
  "plain_limits = \<lparr>lm_writeBytes = 16, lm_rxBytes = 16, lm_rxChunks = 4, lm_readBytes = 16, lm_readTimeoutMs = 50\<rparr>"

definition full_io :: io_methods where
  "full_io = \<lparr>io_clearBuffers = True, io_pendingBytes = True, io_setOutputLines = True, io_snapshotOutputLines = True,
     io_restoreOutputLines = True, io_readInputLines = True\<rparr>"

text \<open>A host write is under way when the lease is asked for; two automations, of which one was running.\<close>

definition example_events :: "lease_event list" where
  "example_events = [EvRegister ''poll'' 0, EvRegister ''macro'' 1, EvManualStart, EvAcquire ''guest'' None False,
     EvAcqDrained (Resolved ()), EvManualEnd,
     EvAcqManual (Resolved (Some \<lparr>ol_dtr = True, ol_rts = False, ol_break = False\<rparr>)) (Resolved ''nonce''),
     EvAcqPaused (Resolved True) (Resolved ''nonce''), EvAcqPaused (Resolved False) (Resolved ''nonce'')]"

definition example_lease :: coordinator where
  "example_lease = run_events lease_step example_events (new_coordinator plain_limits full_io (Some (Num 3, True)))"

text \<open>C12. A device operation reaches the port only from a call that presents the token of the current lease, while
  that lease is active on its own connection generation, with no other operation of it in flight and no host
  write; it is recorded once, and is then the operation in flight.\<close>

theorem operations_need_the_lease:
  assumes "s = run_events lease_step evs (new_coordinator limits io conn)"
    and "device_calls (lease_step ev s) \<noteq> device_calls s"
  shows "\<exists>l kind. co_active s = Some l \<and> presented ev = Some (lg_token (ls_grant l)) \<and> co_phase s = PhActive \<and> ls_op l = None \<and>
      co_manual s = 0 \<and> isGenerationCurrent (lg_generation (ls_grant l)) (co_conn s) \<and>
      device_calls (lease_step ev s) = device_calls s @ [CallOp (ls_number l) (co_calls s) kind] \<and>
      map_option ls_op (co_active (lease_step ev s)) = Some (Some \<lparr>lo_number = co_calls s, lo_kind = kind, lo_aborted = False\<rparr>)"
proof -
  have inv: "lease_inv s" using leases.reachable_inv [OF _ reaches_runs_by, of "new_coordinator limits io conn" evs] assms(1) by auto
  have lease_held: "co_phase s = PhActive \<and> co_manual s = 0" if "co_active s = Some l" "ls_release l = None" for l
    using co_ok_active [of s l] inv that by (simp add: lease_inv_def lease_held_def)
  have op: ?thesis if "lease_step ev s = begin_operation k check token aborted s" "presented ev = Some token" for k check token aborted
    using begin_operation_device [OF inv, of k check token aborted] assms(2) lease_held that by auto
  show ?thesis using assms(2) op by (cases ev) (simp_all add: operation_defs device_simps split: if_splits)
qed

theorem lease_is_exclusive_witness:
  "co_phase example_lease = PhActive \<and> \<not> authorizesSchedulerWrite ''host'' example_lease"
proof -
  have l: "co_phase example_lease = PhActive" "co_active example_lease \<noteq> None" by code_simp+
  then show ?thesis
    using lease_is_exclusive [of example_lease example_events plain_limits full_io "Some (Num 3, True)", where host = "''host''"]
    by (auto simp: example_lease_def)
qed

theorem operations_need_the_lease_witness:
  "\<exists>l. co_active example_lease = Some l \<and> lg_token (ls_grant l) = ''nonce.1'' \<and> co_manual example_lease = 0 \<and>
     lo_number (the (ls_op (the (co_active (lease_step (EvWrite ''nonce.1'' [1, 2] False) example_lease))))) = co_calls example_lease"
proof -
  have "device_calls example_lease = []" "device_calls (lease_step (EvWrite ''nonce.1'' [1, 2] False) example_lease) \<noteq> []" by code_simp+
  then show ?thesis
    using operations_need_the_lease [OF example_lease_def, of "EvWrite ''nonce.1'' [1, 2] False"] by auto
qed

text \<open>The error of an acquisition is classified only after its automations were restored: when the owner aborts
  in between, a failed write drain is reported as a cancellation and the coordinator is idle, where it is
  faulted otherwise.\<close>

lemma late_abort_hides_drain_failure:
  "co_phase (run_events lease_step [EvAcquire ''guest'' None False, EvAcqDrained (Rejected None), EvAcqFinished]
      (new_coordinator plain_limits full_io (Some (Num 3, True)))) = PhFaulted \<and>
   co_phase (run_events lease_step [EvAcquire ''guest'' None False, EvAcqDrained (Rejected None), EvOwnerAbort 0, EvAcqFinished]
      (new_coordinator plain_limits full_io (Some (Num 3, True)))) = PhIdle"
  by code_simp

end
