(* ===== verification/LeaseTokens.thy ===== *)
theory LeaseTokens
  imports LeaseSafety
begin

text \<open>
  Lease tokens: the base-36 sequence makes every token different from all earlier ones, whatever the nonces
  are, so that the token of a lease that ended is never taken for that of a later one.
\<close>

section \<open>Base 36\<close>

lemma base36_char: "c \<in> set (base36 n) \<Longrightarrow> of_char c \<in> {48..57::nat} \<union> {97..122}"
proof (induction n rule: base36.induct)
  case (1 n)
  have d: "n mod 36 < 36" by simp
  from 1(2) have "c \<in> set (base36 (n div 36)) \<and> \<not> n < 36 \<or> c = (if n mod 36 < 10 then char_of (48 + n mod 36) else char_of (87 + n mod 36))"
    by (subst (asm) base36.simps) (auto simp: Let_def split: if_splits)
  then show ?case
  proof
    assume "c \<in> set (base36 (n div 36)) \<and> \<not> n < 36"
    then show ?thesis using 1(1) by (auto simp: Let_def)
  next
    assume "c = (if n mod 36 < 10 then char_of (48 + n mod 36) else char_of (87 + n mod 36))"
    then show ?thesis using d by auto
  qed
qed

definition digit36 :: "nat \<Rightarrow> char" where
  "digit36 d = (if d < 10 then char_of (48 + d) else char_of (87 + d))"

lemma digit36_inj: "digit36 d = digit36 e \<Longrightarrow> d < 36 \<Longrightarrow> e < 36 \<Longrightarrow> d = e"
  by (auto simp: digit36_def char_of_eq_iff take_bit_eq_mod dest!: arg_cong [where f = "of_char :: char \<Rightarrow> nat"] split: if_splits)

lemma base36_unfold: "base36 n = (if n < 36 then [] else base36 (n div 36)) @ [digit36 (n mod 36)]"
  by (subst base36.simps) (simp add: Let_def digit36_def)

lemma base36_not_nil: "base36 n \<noteq> []"
  by (subst base36_unfold) simp

lemma base36_inj: "base36 m = base36 n \<Longrightarrow> m = n"
proof (induction m arbitrary: n rule: less_induct)
  case (less m)
  have "digit36 (m mod 36) = digit36 (n mod 36)"
    using less(2) base36_unfold [of m] base36_unfold [of n] by simp
  then have low: "m mod 36 = n mod 36" by (rule digit36_inj) simp_all
  have high: "(if m < 36 then [] else base36 (m div 36)) = (if n < 36 then [] else base36 (n div 36))"
    using less(2) base36_unfold [of m] base36_unfold [of n] by simp
  show ?case
  proof (cases "m < 36 \<or> n < 36")
    case True
    then show ?thesis using high low base36_not_nil base36_not_nil [symmetric] by (auto split: if_splits)
  next
    case False
    then have "m div 36 = n div 36" using less(1) [of "m div 36" "n div 36"] high by simp
    then show ?thesis using low by (metis div_mult_mod_eq)
  qed
qed

lemma token_sequence:
  assumes "v @ ''.'' @ base36 k = v' @ ''.'' @ base36 k'"
  shows "k = k'"
proof -
  have dot: "CHR ''.'' \<notin> set (base36 n)" for n using base36_char [of "CHR ''.''" n] by auto
  have "takeWhile (\<lambda>c. c \<noteq> CHR ''.'') (rev (base36 n) @ CHR ''.'' # r) = rev (base36 n)" for n r
    using dot [of n] by (subst takeWhile_append2) auto
  moreover have "rev (base36 k) @ CHR ''.'' # rev v = rev (base36 k') @ CHR ''.'' # rev v'"
    using arg_cong [OF assms, of rev] by simp
  ultimately have "rev (base36 k) = rev (base36 k')" by metis
  then show ?thesis using base36_inj by blast
qed

section \<open>Granted tokens\<close>

definition granted :: "nat \<times> (lease_error + lease_value) \<Rightarrow> string list" where
  "granted r = (case snd r of Inr (VGrant g) \<Rightarrow> [lg_token g] | _ \<Rightarrow> [])"

definition grants :: "coordinator \<Rightarrow> string list" where
  "grants s = concat (map granted (co_results s))"

definition token_of :: "coordinator \<Rightarrow> string option" where
  "token_of s = map_option (\<lambda>l. lg_token (ls_grant l)) (co_active s)"

interpretation granting: lease_view "\<lambda>s. (grants s, co_limits s)" "\<lambda>c. False"
  by unfold_locales (simp_all add: grants_def co_result_def co_record_def granted_def)

definition tokens_kept :: "coordinator \<Rightarrow> coordinator \<Rightarrow> bool" where
  "tokens_kept s s' \<longleftrightarrow> grants s' = grants s \<and> co_tokenSequence s' = co_tokenSequence s \<and> (token_of s' = None \<or> token_of s' = token_of s)"

lemma tokens_kept_refl [simp]: "tokens_kept s s"
  by (simp add: tokens_kept_def)

lemma release_token:
  "co_tokenSequence (release_stable drainFailed reason l s) = co_tokenSequence s"
  "co_tokenSequence (release_drain reason l s) = co_tokenSequence s"
  "co_tokenSequence (release_restore reason l s) = co_tokenSequence s"
  "co_tokenSequence (beginRelease reason restoreAllowed abortWrites l s) = co_tokenSequence s"
  "token_of (release_restore reason l s) = Some (lg_token (ls_grant l))"
  "token_of (release_stable drainFailed reason l s) \<in> {None, Some (lg_token (ls_grant l))}"
  "token_of (release_drain reason l s) \<in> {None, Some (lg_token (ls_grant l))}"
  by (simp_all add: release_restore_def release_stable_def release_drain_def performRelease_def beginRelease_def finish_release_def Let_def
      token_of_def start_restore_def co_record_def split: option.split list.split)

lemma beginRelease_token: "token_of (beginRelease reason restoreAllowed abortWrites l s) \<in> {None, Some (lg_token (ls_grant l))}"
proof -
  have "token_of (performRelease reason l' s') \<in> {None, Some (lg_token (ls_grant l'))}" for l' s'
    using release_token(7) [of reason l' s'] by (simp add: performRelease_def token_of_def)
  from this [of "l\<lparr>ls_restoreAllowed := r, ls_aborted := a, ls_rx := m\<rparr>" for r a m] show ?thesis
    by (simp add: beginRelease_def Let_def token_of_def)
qed

lemma token_of_active: "co_active s = Some l \<Longrightarrow> token_of s = Some (lg_token (ls_grant l))"
  by (simp add: token_of_def)

lemma beginRelease_tokens:
  assumes "co_active s = Some l" "ls_grant l' = ls_grant l" "co_active s' = co_active s" "co_tokenSequence s' = co_tokenSequence s" "grants s' = grants s"
  shows "tokens_kept s (beginRelease reason restoreAllowed abortWrites l' s')"
  using granting.view_release(6) [of reason restoreAllowed abortWrites l' s'] beginRelease_token [of reason restoreAllowed abortWrites l' s']
    release_token(4) [of reason restoreAllowed abortWrites l' s'] assms
  by (auto simp: tokens_kept_def token_of_active)

lemma continuation_tokens: "tokens_kept s (release_op_settled s)" "tokens_kept s (release_drained u s)" "tokens_kept s (release_lines u s)"
    "tokens_kept s (release_restored u s)" "tokens_kept s (release_finished s)"
proof -
  have g: "grants (release_op_settled s) = grants s" "grants (release_drained u s) = grants s" "grants (release_lines u s) = grants s"
    "grants (release_restored u s) = grants s" "grants (release_finished s) = grants s"
    using granting.view_continuation by simp_all
  have stable: "token_of (release_stable d reason l' s) \<in> {None, token_of s}" "token_of (release_drain reason l' s) \<in> {None, token_of s}"
    if "co_active s = Some l" "ls_grant l' = ls_grant l" for d reason l l'
    using release_token(6) [of d reason l' s] release_token(7) [of reason l' s] that by (simp_all add: token_of_active)
  show "tokens_kept s (release_op_settled s)" using g(1) stable(2) [OF _ refl]
    by (auto simp: tokens_kept_def release_op_settled_def release_token split: option.splits prod.splits release_pc.splits)
  show "tokens_kept s (release_drained u s)" unfolding tokens_kept_def using g(2) stable(1)
    by (auto simp: release_drained_def release_token split: option.splits prod.splits release_pc.splits reply.splits)
  have "token_of (finish_release d b t k fs reason l s) = None" "co_tokenSequence (finish_release d b t k fs reason l s) = co_tokenSequence s"
    for d b t k fs reason l by (simp_all add: finish_release_def Let_def token_of_def)
  then show "tokens_kept s (release_lines u s)" unfolding tokens_kept_def using g(3)
    by (auto simp: release_lines_def release_token token_of_active split: option.splits prod.splits release_pc.splits)
  show "tokens_kept s (release_restored u s)" using g(4)
    by (auto simp: tokens_kept_def release_restored_def start_restore_def co_record_def token_of_def
        split: option.splits prod.splits release_pc.splits list.splits)
  show "tokens_kept s (release_finished s)" using g(5)
    by (auto simp: tokens_kept_def release_finished_def finish_release_def Let_def token_of_def
        split: option.splits prod.splits release_pc.splits list.splits)
qed

lemma ending_tokens: "tokens_kept s (owner_abort n s)" "tokens_kept s (snd (lease_release token s))" "tokens_kept s (snd (lease_cancel token s))"
    "tokens_kept s (snd (notifyDisconnected gen s))" "tokens_kept s (snd (synchronizeConnection s))" "tokens_kept s (dispose s)"
    "tokens_kept s (dispose_resume s)"
proof -
  note b = beginRelease_tokens [of s, OF _ refl refl refl refl]
  have same: "tokens_kept s (s\<lparr>co_acquisition := a\<rparr>)" "tokens_kept s (s\<lparr>co_faultedGeneration := g, co_phase := p\<rparr>)"
    "tokens_kept s (s\<lparr>co_disposed := d, co_acquisition := a, co_dispose := e\<rparr>)" for a g p d e
    by (simp_all add: tokens_kept_def granting.view_frame grants_def token_of_def)
  show "tokens_kept s (owner_abort n s)" "tokens_kept s (snd (lease_release token s))" "tokens_kept s (snd (lease_cancel token s))"
    using b same by (auto simp: owner_abort_def lease_release_def lease_cancel_def requireLeaseForRelease_def split: option.split)
  show "tokens_kept s (snd (notifyDisconnected gen s))"
    using b same by (auto simp: notifyDisconnected_def split: option.split sum.split)
  show "tokens_kept s (snd (synchronizeConnection s))"
    using b same by (auto simp: synchronizeConnection_def synchronize_lease_def split: option.split sum.split prod.split)
  have finish: "tokens_kept s (dispose_finish t)" if "t = s\<lparr>co_disposed := d\<rparr>" "co_active s = None" for t d
    using that by (simp add: tokens_kept_def dispose_finish_def grants_def token_of_def)
  have lease: "tokens_kept s (dispose_lease t)" if t: "t = s\<lparr>co_disposed := d\<rparr>" for t d
  proof (cases "co_active s")
    case None
    then show ?thesis using t finish by (simp add: dispose_lease_def)
  next
    case (Some l)
    have "tokens_kept s (beginRelease RsDisposed True True l t)"
      using t Some by (intro beginRelease_tokens) (simp_all add: grants_def)
    then show ?thesis using t Some by (simp add: dispose_lease_def tokens_kept_def grants_def token_of_def)
  qed
  show "tokens_kept s (dispose s)" using lease [OF refl] same
    by (auto simp: dispose_def Let_def split: option.split)
  have "s = s\<lparr>co_disposed := co_disposed s\<rparr>" by simp
  from lease [OF this] finish [OF this] show "tokens_kept s (dispose_resume s)"
    by (simp add: dispose_resume_def split: dispose_pc.split)
qed

lemma require_tokens: "requireActiveLease token s = (r, s') \<Longrightarrow> tokens_kept s s'"
  using beginRelease_tokens [of s, OF _ refl refl refl refl] by (auto simp: requireActiveLease_def split: option.splits if_splits)

lemma require_lease: "requireActiveLease token s = (Inr l, s') \<Longrightarrow> s' = s \<and> co_active s = Some l"
  by (auto simp: requireActiveLease_def split: option.splits if_splits)

lemma op_outcome_no_grant: "op_outcome current aborted buffered kind r = Some res \<Longrightarrow> granted (n, res) = []"
  by (cases "(current, aborted, buffered, kind, r)" rule: op_outcome.cases)
    (auto simp: granted_def split: sum.splits lease_value.splits elim!: write_outcome.elims unit_outcome.elims pending_outcome.elims lines_outcome.elims
      split: if_splits option.splits)

lemma grants_result: "grants (co_result n r s) = grants s @ granted (n, r)"
  by (simp add: grants_def co_result_def)

lemma operation_tokens: "tokens_kept s (begin_operation kind check token signalAborted s)" "tokens_kept s (settle_operation n r s)"
    "tokens_kept s (abort_operation n s)"
proof -
  obtain r s' where r: "requireActiveLease token (s\<lparr>co_calls := co_calls s + 1\<rparr>) = (r, s')" by (metis surj_pair)
  have k: "tokens_kept s s'" using require_tokens [OF r] by (simp add: tokens_kept_def grants_def token_of_def)
  then have res: "tokens_kept s (co_result n (Inl e) s')" for n e
    by (simp add: tokens_kept_def grants_result granted_def) (simp add: co_result_def token_of_def)
  show "tokens_kept s (begin_operation kind check token signalAborted s)"
  proof (cases r)
    case (Inl e)
    then show ?thesis using r res by (simp add: begin_operation_def Let_def)
  next
    case (Inr l)
    then have l: "s' = s\<lparr>co_calls := co_calls s + 1\<rparr>" "co_active s = Some l" using require_lease r by fastforce+
    have "tokens_kept s (co_record c (s'\<lparr>co_active := Some ((startLeaseOperation n kind l)\<lparr>ls_touched := t\<rparr>)\<rparr>))" for c n t
      using l by (simp add: tokens_kept_def grants_def token_of_def co_record_def startLeaseOperation_def)
    then show ?thesis using r res Inr by (simp add: begin_operation_def Let_def split: option.split)
  qed
  show "tokens_kept s (settle_operation n r s)" for r
  proof -
    have "tokens_kept s (co_result n res (s\<lparr>co_active := Some (finishLeaseOperation l')\<rparr>))"
      if "co_active s = Some l" "ls_grant l' = ls_grant l" "granted (n, res) = []" for l l' res
      using that by (simp add: tokens_kept_def grants_result) (simp add: co_result_def token_of_def grants_def finishLeaseOperation_def)
    then show ?thesis by (simp add: settle_operation_def op_outcome_no_grant split: option.split)
  qed
  show "tokens_kept s (abort_operation n s)"
    by (simp add: abort_operation_def tokens_kept_def grants_def token_of_def split: option.split)
qed

lemma rx_tokens: "tokens_kept s (snd (offerRx gen input s))" "tokens_kept s (snd (lease_read token maxBytes timeoutMs signalAborted s))"
    "tokens_kept s (read_event e n i s)"
proof -
  have set: "tokens_kept s (set_rx m l s)" if "co_active s = Some l" for m l
    using that by (simp add: tokens_kept_def set_rx_def grants_def token_of_def)
  show "tokens_kept s (read_event e n i s)" using set by (simp add: read_event_def split: option.split)
  have "tokens_kept s (beginRelease reason b c (l\<lparr>ls_rx := m\<rparr>) (s\<lparr>co_faultCode := v, co_faultToken := w\<rparr>))"
    if "co_active s = Some l" for l m v w reason b c
    using that by (intro beginRelease_tokens) (simp_all add: grants_def)
  then show "tokens_kept s (snd (offerRx gen input s))"
    using set beginRelease_tokens [of s, OF _ refl refl refl refl]
    by (simp add: offerRx_def split: option.split prod.split offer_result.split)
  obtain r s' where r: "requireActiveLease token s = (r, s')" by (metis surj_pair)
  show "tokens_kept s (snd (lease_read token maxBytes timeoutMs signalAborted s))"
  proof (cases r)
    case (Inl e)
    then show ?thesis using r require_tokens [OF r] by (simp add: lease_read_def)
  next
    case (Inr l)
    then show ?thesis using r require_lease [of token s l s'] set by (simp add: lease_read_def split: sum.split)
  qed
qed

lemma fail_tokens: "tokens_kept s (fail_acquire error a s)" "tokens_kept s (finish_acquire error a s)"
  using granting.view_fail
  by (simp_all add: tokens_kept_def fail_acquire_def finish_acquire_def Let_def start_restore_def co_record_def co_result_def token_of_def
      split: list.split)

lemma acquisition_tokens: "tokens_kept s (lease_acquire owner rxBufferBytes signalAborted s)" "tokens_kept s (acquire_drained u s)"
    "tokens_kept s (acquire_restored u s)" "tokens_kept s (acquire_finished s)"
proof -
  have f: "co_tokenSequence (fail_acquire error a t) = co_tokenSequence t" "co_active (fail_acquire error a t) = co_active t" for error a t
    by (simp_all add: fail_acquire_def finish_acquire_def Let_def start_restore_def co_record_def co_result_def split: list.split)
  have "co_tokenSequence (lease_acquire owner rxBufferBytes signalAborted s) = co_tokenSequence s"
      "co_active (lease_acquire owner rxBufferBytes signalAborted s) = co_active s"
    by (simp_all add: lease_acquire_def Let_def f co_result_def co_record_def split: option.split sum.split)
  then show "tokens_kept s (lease_acquire owner rxBufferBytes signalAborted s)"
    using granting.view_acquisition(1) [of owner rxBufferBytes signalAborted s] by (simp add: tokens_kept_def token_of_def)
  show "tokens_kept s (acquire_drained u s)" "tokens_kept s (acquire_finished s)"
    using fail_tokens by (simp_all add: acquire_drained_def acquire_finished_def split: option.split reply.split acquire_pc.split list.split)
      (simp add: tokens_kept_def grants_def token_of_def)
  show "tokens_kept s (acquire_restored u s)"
    by (simp add: acquire_restored_def start_restore_def tokens_kept_def grants_def token_of_def co_record_def
        split: option.split acquire_pc.split list.split)
qed

section \<open>Tokens are never reused\<close>

definition numbered_token :: "nat \<Rightarrow> string \<Rightarrow> bool" where
  "numbered_token n t \<longleftrightarrow> (\<exists>v k. t = v @ ''.'' @ base36 k \<and> k \<le> n)"

definition tokens_ok :: "coordinator \<Rightarrow> bool" where
  "tokens_ok s \<longleftrightarrow> distinct (grants s) \<and> list_all (numbered_token (co_tokenSequence s)) (grants s) \<and>
     (case token_of s of None \<Rightarrow> True | Some t \<Rightarrow> grants s \<noteq> [] \<and> last (grants s) = t)"

lemma tokens_kept_ok: "tokens_kept s s' \<Longrightarrow> tokens_ok s \<Longrightarrow> tokens_ok s'"
  by (auto simp: tokens_kept_def tokens_ok_def split: option.splits)

lemma issued_token:
  assumes "issueToken nonce s = (Inr t, s')"
  shows "\<exists>v. t = v @ ''.'' @ base36 (co_tokenSequence s + 1) \<and> s' = s\<lparr>co_tokenSequence := co_tokenSequence s + 1\<rparr>"
  using assms by (auto simp: issueToken_def Let_def split: reply.splits option.splits sum.splits if_splits)

lemma numbered_mono: "numbered_token n t \<Longrightarrow> n \<le> m \<Longrightarrow> numbered_token m t"
  unfolding numbered_token_def using le_trans by blast

lemma tokens_ok_next:
  assumes "tokens_ok s"
  shows "tokens_ok (s\<lparr>co_tokenSequence := co_tokenSequence s + 1\<rparr>)"
proof -
  have same: "grants (s\<lparr>co_tokenSequence := k\<rparr>) = grants s" "token_of (s\<lparr>co_tokenSequence := k\<rparr>) = token_of s" for k
    by (simp_all add: grants_def token_of_def)
  have "list_all (numbered_token (co_tokenSequence s + 1)) (grants s)"
    using assms numbered_mono [of "co_tokenSequence s"] by (auto simp: tokens_ok_def list_all_iff)
  then show ?thesis using assms unfolding tokens_ok_def same by simp
qed

lemma activate_tokens:
  assumes "tokens_ok s"
  shows "tokens_ok (activate nonce a s)"
proof -
  obtain r s' where r: "issueToken nonce s = (r, s')" by (metis surj_pair)
  show ?thesis
  proof (cases r)
    case (Inl e)
    have "tokens_ok s'" using issueToken_frame [OF r] assms tokens_ok_next by blast
    then show ?thesis using r Inl tokens_kept_ok [OF fail_tokens(1)] by (simp add: activate_def)
  next
    case (Inr t)
    obtain v where v: "t = v @ ''.'' @ base36 (co_tokenSequence s + 1)" "s' = s\<lparr>co_tokenSequence := co_tokenSequence s + 1\<rparr>"
      using issued_token r Inr by blast
    have new: "t \<notin> set (grants s)"
    proof
      assume "t \<in> set (grants s)"
      then have "numbered_token (co_tokenSequence s) t" using assms by (simp add: tokens_ok_def list_all_iff)
      then obtain v' k where k: "t = v' @ ''.'' @ base36 k" "k \<le> co_tokenSequence s" by (auto simp: numbered_token_def)
      then show False using token_sequence [of v "co_tokenSequence s + 1" v' k] v(1) by simp
    qed
    have "numbered_token (co_tokenSequence s + 1) t" using v(1) unfolding numbered_token_def by blast
    moreover have "list_all (numbered_token (co_tokenSequence s + 1)) (grants s)"
      using assms numbered_mono by (fastforce simp: tokens_ok_def list_all_iff)
    ultimately show ?thesis using r Inr v(2) new assms
      by (simp add: activate_def Let_def tokens_ok_def grants_result) (simp add: co_result_def token_of_def grants_def granted_def)
  qed
qed

lemma record_tokens: "tokens_kept s (co_record c s)" "tokens_kept s (co_record c (s\<lparr>co_acquisition := a\<rparr>))"
  by (simp_all add: tokens_kept_def grants_def co_record_def token_of_def)

lemma pause_next_tokens: "tokens_ok s \<Longrightarrow> tokens_ok (pause_next todo nonce a s)"
  using activate_tokens tokens_kept_ok [OF record_tokens(2)] by (simp add: pause_next_def split: list.split)

lemma acquire_continues_tokens: "tokens_ok s \<Longrightarrow> tokens_ok (acquire_manual lines nonce s)" "tokens_ok s \<Longrightarrow> tokens_ok (acquire_paused b nonce s)"
proof -
  assume ok: "tokens_ok s"
  have fail: "tokens_ok t \<Longrightarrow> tokens_ok (fail_acquire e a t)" for e a t by (rule tokens_kept_ok [OF fail_tokens(1)])
  have log: "tokens_ok (co_record c s)" for c using ok by (rule tokens_kept_ok [OF record_tokens(1)])
  show "tokens_ok (acquire_manual lines nonce s)" "tokens_ok (acquire_paused b nonce s)"
    using ok fail pause_next_tokens log
    by (simp_all add: acquire_manual_def acquire_paused_def Let_def
        split: option.split reply.split acquire_pc.split manual_wait.split sum.split prod.split list.split)
qed

lemma small_tokens: "tokens_kept s (s\<lparr>co_conn := conn\<rparr>)" "tokens_kept s (snd (registerAutomation i port s))"
    "tokens_kept s (snd (unregisterAutomation i port s))" "tokens_kept s (snd (manual_start s))" "tokens_kept s (manual_end s)"
  by (simp_all add: tokens_kept_def registerAutomation_def unregisterAutomation_def manual_start_def manual_end_def Let_def grants_def
      token_of_def split: option.split sum.split)

lemma lease_step_tokens:
  assumes "tokens_ok s"
  shows "tokens_ok (lease_step ev s)"
proof -
  note k = tokens_kept_ok [OF _ assms]
  show ?thesis using assms
    by (cases ev) (simp_all add: operation_defs k [OF small_tokens(1)] k [OF small_tokens(2)] k [OF small_tokens(3)] k [OF small_tokens(4)]
      k [OF small_tokens(5)] k [OF acquisition_tokens(1)] k [OF acquisition_tokens(2)] k [OF acquisition_tokens(3)]
      k [OF acquisition_tokens(4)] acquire_continues_tokens k [OF ending_tokens(1)] k [OF ending_tokens(2)] k [OF ending_tokens(3)]
      k [OF ending_tokens(4)] k [OF ending_tokens(5)] k [OF ending_tokens(6)] k [OF ending_tokens(7)] k [OF operation_tokens(1)]
      k [OF operation_tokens(2)] k [OF operation_tokens(3)] k [OF rx_tokens(1)] k [OF rx_tokens(2)] k [OF rx_tokens(3)]
      k [OF continuation_tokens(1)] k [OF continuation_tokens(2)] k [OF continuation_tokens(3)] k [OF continuation_tokens(4)]
      k [OF continuation_tokens(5)])
qed

interpretation tokens: invariant_machine "runs_by lease_step" "\<lambda>s. \<exists>limits io conn. s = new_coordinator limits io conn" tokens_ok
proof unfold_locales
  fix s :: coordinator assume "\<exists>limits io conn. s = new_coordinator limits io conn"
  then have "grants s = []" "token_of s = None" by (auto simp: new_coordinator_def grants_def token_of_def)
  then show "tokens_ok s" by (simp add: tokens_ok_def)
qed (auto simp: runs_by_def lease_step_tokens)

text \<open>At every reachable state all tokens ever granted are different, whatever the nonces of the token factory
  are; every token but the last one granted, and every token once there is no lease, is refused by the
  device operations and by release and cancel, without any effect on the state.\<close>

theorem ended_leases_stay_ended:
  assumes "s = run_events lease_step evs (new_coordinator limits io conn)"
    and "token \<in> set (grants s)" "co_active s = None \<or> token \<in> set (butlast (grants s))"
  shows "distinct (grants s) \<and> requireLeaseForRelease token s = None \<and> snd (requireActiveLease token s) = s \<and>
    (\<exists>e. fst (requireActiveLease token s) = Inl e) \<and> lease_release token s = (Some LeStaleHandle, s) \<and>
    lease_cancel token s = (Some LeStaleHandle, s)"
proof -
  have ok: "tokens_ok s" using tokens.reachable_inv [OF _ reaches_runs_by, of "new_coordinator limits io conn" evs] assms(1) by auto
  then have d: "distinct (grants s)" by (simp add: tokens_ok_def)
  have other: "lg_token (ls_grant l) \<noteq> token" if l: "co_active s = Some l" for l
  proof -
    have last: "grants s \<noteq> []" "last (grants s) = lg_token (ls_grant l)" using ok token_of_active [OF l] by (simp_all add: tokens_ok_def)
    moreover have "distinct (butlast (grants s) @ [last (grants s)])" using d last(1) by simp
    ultimately show ?thesis using assms(3) l by auto
  qed
  then have no: "requireLeaseForRelease token s = None" by (simp add: requireLeaseForRelease_def split: option.split)
  have "\<exists>e. requireActiveLease token s = (Inl e, s)" using other by (auto simp: requireActiveLease_def split: option.split)
  then show ?thesis using d no by (auto simp: lease_release_def lease_cancel_def)
qed

definition second_lease :: coordinator where
  "second_lease = run_events lease_step
     (example_events @ [EvRelease ''nonce.1'', EvRelDrained (Resolved ()), EvRelRestored (Resolved ()), EvRelFinished] @ drop 2 example_events)
     (new_coordinator plain_limits full_io (Some (Num 3, True)))"

theorem ended_leases_stay_ended_witness:
  "grants second_lease = [''nonce.1'', ''nonce.2''] \<and> lease_release ''nonce.1'' second_lease = (Some LeStaleHandle, second_lease)"
proof -
  have g: "grants second_lease = [''nonce.1'', ''nonce.2'']" by code_simp
  then show ?thesis using ended_leases_stay_ended [OF second_lease_def, of "''nonce.1''"] by simp
qed

end
