(* ===== verification/LeaseRestore.thy ===== *)
theory LeaseRestore
  imports LeaseSafety
begin

text \<open>
  Automations are given back: an abstract protocol of one holder at a time, who suspends automations and then
  restores each of them once, from the last to the first, or skips the restoration; the coordinator
  implements it.
\<close>

section \<open>The protocol\<close>

text \<open>The holder is the acquisition under way or the lease, with what it suspended and, once it restores, what
  is left and how many are settled.\<close>

datatype restore_mark = Paused nat string | Restored nat string

record restore_spec =
  rs_calls :: nat
  rs_holder :: "(nat \<times> string list \<times> (string list \<times> nat) option) option"
  rs_trace :: "restore_mark list"
  rs_ended :: "(nat \<times> bool \<times> nat) list"

definition ask_next :: "nat \<Rightarrow> string list \<Rightarrow> restore_mark list" where
  "ask_next n ids = (case ids of [] \<Rightarrow> [] | i # rest \<Rightarrow> [Restored n i])"

inductive restore_step :: "restore_spec \<Rightarrow> unit \<Rightarrow> restore_spec \<Rightarrow> bool" where
  rs_call: "restore_step r u (r\<lparr>rs_calls := rs_calls r + 1\<rparr>)"
| rs_hold: "rs_holder r = None \<Longrightarrow>
    restore_step r u (r\<lparr>rs_calls := rs_calls r + 1, rs_holder := Some (rs_calls r, [], None)\<rparr>)"
| rs_suspend: "rs_holder r = Some (n, ids, None) \<Longrightarrow>
    restore_step r u (r\<lparr>rs_holder := Some (n, ids @ [i], None), rs_trace := rs_trace r @ [Paused n i]\<rparr>)"
| rs_begin: "rs_holder r = Some (n, ids, None) \<Longrightarrow>
    restore_step r u (r\<lparr>rs_holder := Some (n, ids, Some (rev ids, 0)), rs_trace := rs_trace r @ ask_next n (rev ids)\<rparr>)"
| rs_advance: "rs_holder r = Some (n, ids, Some (i # rest, k)) \<Longrightarrow>
    restore_step r u (r\<lparr>rs_holder := Some (n, ids, Some (rest, k + 1)), rs_trace := rs_trace r @ ask_next n rest\<rparr>)"
| rs_skip: "rs_holder r = Some (n, ids, None) \<Longrightarrow>
    restore_step r u (r\<lparr>rs_holder := None, rs_ended := rs_ended r @ [(n, True, k)]\<rparr>)"
| rs_end: "rs_holder r = Some (n, ids, Some ([], k)) \<Longrightarrow>
    restore_step r u (r\<lparr>rs_holder := None, rs_ended := rs_ended r @ [(n, False, k)]\<rparr>)"
| rs_drop: "rs_holder r = Some (n, ids, x) \<Longrightarrow> x = None \<or> (\<exists>k. x = Some ([], k)) \<Longrightarrow> restore_step r u (r\<lparr>rs_holder := None\<rparr>)"

inductive_cases restore_stepE: "restore_step r u r'"

fun paused_id :: "nat \<Rightarrow> restore_mark \<Rightarrow> string list" where
  "paused_id n (Paused m i) = (if m = n then [i] else [])"
| "paused_id n (Restored m i) = []"

fun restored_id :: "nat \<Rightarrow> restore_mark \<Rightarrow> string list" where
  "restored_id n (Restored m i) = (if m = n then [i] else [])"
| "restored_id n (Paused m i) = []"

definition paused_ids :: "nat \<Rightarrow> restore_mark list \<Rightarrow> string list" where
  "paused_ids n t = concat (map (paused_id n) t)"

definition restored_ids :: "nat \<Rightarrow> restore_mark list \<Rightarrow> string list" where
  "restored_ids n t = concat (map (restored_id n) t)"

lemma ids_append [simp]:
  "paused_ids n (t @ u) = paused_ids n t @ paused_ids n u" "restored_ids n (t @ u) = restored_ids n t @ restored_ids n u"
  by (simp_all add: paused_ids_def restored_ids_def)

lemma ids_single [simp]:
  "paused_ids n [] = []" "restored_ids n [] = []" "paused_ids n [Paused m i] = (if m = n then [i] else [])"
  "restored_ids n [Paused m i] = []" "paused_ids n (ask_next m ids) = []"
  "restored_ids n (ask_next m ids) = (if m = n then take 1 ids else [])"
  by (simp_all add: paused_ids_def restored_ids_def) (cases ids; simp add: ask_next_def)+

text \<open>The state of restoration of holder \<open>n\<close>: the holder's own, or that of one that is gone.\<close>

definition restored_so_far :: "string list \<Rightarrow> string list \<Rightarrow> (string list \<times> nat) option \<Rightarrow> bool" where
  "restored_so_far ids restored x \<longleftrightarrow>
     (case x of
        None \<Rightarrow> restored = []
      | Some (rest, k) \<Rightarrow> \<exists>past. rev ids = past @ rest \<and> k = length past \<and> restored = past @ take 1 rest)"

definition restore_ok :: "restore_spec \<Rightarrow> bool" where
  "restore_ok r \<longleftrightarrow>
     (\<forall>n \<ge> rs_calls r. paused_ids n (rs_trace r) = [] \<and> restored_ids n (rs_trace r) = []) \<and>
     (\<forall>n skipped k. (n, skipped, k) \<in> set (rs_ended r) \<longrightarrow> n < rs_calls r) \<and>
     (case rs_holder r of
        None \<Rightarrow> True
      | Some (n, ids, x) \<Rightarrow> n < rs_calls r \<and> paused_ids n (rs_trace r) = ids \<and> restored_so_far ids (restored_ids n (rs_trace r)) x \<and>
          (\<forall>skipped k. (n, skipped, k) \<notin> set (rs_ended r))) \<and>
     (\<forall>n. map_option fst (rs_holder r) \<noteq> Some n \<longrightarrow>
        restored_ids n (rs_trace r) = [] \<or> restored_ids n (rs_trace r) = rev (paused_ids n (rs_trace r))) \<and>
     (\<forall>n skipped k. (n, skipped, k) \<in> set (rs_ended r) \<longrightarrow>
        (if skipped then restored_ids n (rs_trace r) = []
        else restored_ids n (rs_trace r) = rev (paused_ids n (rs_trace r)) \<and> k = length (paused_ids n (rs_trace r))))"

lemma restored_advance: "restored_so_far ids restored (Some (i # rest, k)) \<Longrightarrow> restored_so_far ids (restored @ take (Suc 0) rest) (Some (rest, Suc k))"
  by (auto simp: restored_so_far_def)

lemma restored_end: "restored_so_far ids restored (Some ([], k)) \<Longrightarrow> restored = rev ids \<and> k = length ids"
  by (auto simp: restored_so_far_def dest: arg_cong [where f = length])

lemma restore_ok_step: "restore_step r u r' \<Longrightarrow> restore_ok r \<Longrightarrow> restore_ok r'"
proof (induction rule: restore_step.induct)
  case (rs_call r u)
  then show ?case by (auto simp: restore_ok_def split: option.splits) (blast intro: less_SucI)+
next
  case (rs_hold r u)
  then show ?case by (fastforce simp: restore_ok_def restored_so_far_def)
next
  case (rs_suspend r n ids u i)
  then show ?case by (auto simp: restore_ok_def restored_so_far_def)
next
  case (rs_begin r n ids u)
  then have "restored_ids n (rs_trace r) = []" by (simp add: restore_ok_def restored_so_far_def)
  then show ?case using rs_begin by (auto simp: restore_ok_def) (simp add: restored_so_far_def)
next
  case (rs_advance r n ids i rest k u)
  then show ?case by (auto simp: restore_ok_def restored_advance)
next
  case (rs_skip r n ids u k)
  then show ?case by (auto simp: restore_ok_def restored_so_far_def)
next
  case (rs_end r n ids k u)
  then show ?case by (auto simp: restore_ok_def dest!: restored_end)
next
  case (rs_drop r n ids x u)
  then show ?case by (auto simp: restore_ok_def restored_so_far_def dest!: restored_end)
qed

interpretation restoration: invariant_machine restore_step "\<lambda>r. r = \<lparr>rs_calls = 0, rs_holder = None, rs_trace = [], rs_ended = []\<rparr>" restore_ok
proof unfold_locales
  fix r :: restore_spec assume "r = \<lparr>rs_calls = 0, rs_holder = None, rs_trace = [], rs_ended = []\<rparr>"
  then show "restore_ok r" by (simp add: restore_ok_def)
next
  fix r r' u assume "restore_ok r" "restore_step r u r'"
  then show "restore_ok r'" by (rule restore_ok_step [rotated])
qed

section \<open>The coordinator implements it\<close>

fun mark :: "io_call \<Rightarrow> restore_mark list" where
  "mark (Suspended n i) = [Paused n i]"
| "mark (CallRestore n i reason) = [Restored n i]"
| "mark c = []"

definition lease_holds :: "active_lease \<Rightarrow> nat \<times> string list \<times> (string list \<times> nat) option" where
  "lease_holds l = (ls_number l, ls_suspensions l,
     (case ls_release l of Some (reason, RlRestore rest k fs) \<Rightarrow> Some (rest, k + length fs) | _ \<Rightarrow> None))"

definition acquisition_holds :: "acquisition \<Rightarrow> nat \<times> string list \<times> (string list \<times> nat) option" where
  "acquisition_holds a = (aq_number a, aq_paused a,
     (case aq_pc a of AqRestore rest reason error \<Rightarrow> Some (rest, length (aq_paused a) - length rest) | _ \<Rightarrow> None))"

definition holder_of :: "active_lease option \<Rightarrow> acquisition option \<Rightarrow> (nat \<times> string list \<times> (string list \<times> nat) option) option" where
  "holder_of active acq = (case active of Some l \<Rightarrow> Some (lease_holds l) | None \<Rightarrow> map_option acquisition_holds acq)"

definition restore_abs :: "coordinator \<Rightarrow> restore_spec" where
  "restore_abs s = \<lparr>rs_calls = co_calls s, rs_holder = holder_of (co_active s) (co_acquisition s),
     rs_trace = concat (map mark (co_log s)),
     rs_ended = map (\<lambda>(n, r). (n, rr_skipped r, rr_restored r + length (rr_failures r))) (co_released s)\<rparr>"

abbreviation restores :: "coordinator \<Rightarrow> coordinator \<Rightarrow> bool" where
  "restores s s' \<equiv> reaches restore_step (restore_abs s) (restore_abs s')"

text \<open>Two steps of the protocol in one of the coordinator.\<close>

lemma same_restores: "restore_abs s' = restore_abs s \<Longrightarrow> restores s s'"
  by (simp add: reaches_refl)

lemma one_restore: "restore_step (restore_abs s) () (restore_abs s') \<Longrightarrow> restores s s'"
  by (rule reaches_one)

lemma mark_start [simp]: "concat (map mark (co_log (start_restore n reason ids s))) = concat (map mark (co_log s)) @ ask_next n ids"
  by (simp add: start_restore_def ask_next_def co_record_def split: list.split)

lemma start_frame [simp]: "co_calls (start_restore n reason ids s) = co_calls s" "co_active (start_restore n reason ids s) = co_active s"
  "co_acquisition (start_restore n reason ids s) = co_acquisition s" "co_released (start_restore n reason ids s) = co_released s"
  by (simp_all add: start_restore_def co_record_def split: list.split)

text \<open>Release.  \<open>holds l s\<close>: the abstract holder of \<open>s\<close> is \<open>l\<close>, not yet restoring.\<close>

definition waits :: "active_lease \<Rightarrow> coordinator \<Rightarrow> bool" where
  "waits l s \<longleftrightarrow> co_acquisition s = None \<and> rs_holder (restore_abs s) = Some (ls_number l, ls_suspensions l, None)"

lemma finish_release_restores:
  assumes "waits l s" "\<not> steady \<or> \<not> linesRestored"
  shows "restores s (finish_release drainFailed linesRestored steady k fs reason l s)"
proof (rule one_restore)
  let ?s = "finish_release drainFailed linesRestored steady k fs reason l s"
  have h: "rs_holder (restore_abs s) = Some (ls_number l, ls_suspensions l, None)" using assms(1) by (simp add: waits_def)
  have "restore_abs ?s = restore_abs s\<lparr>rs_holder := None,
      rs_ended := rs_ended (restore_abs s) @ [(ls_number l, True, k + length (if linesRestored then fs else ''serial.control-lines'' # fs))]\<rparr>"
    using assms by (simp add: restore_abs_def finish_release_def Let_def waits_def holder_of_def)
  then show "restore_step (restore_abs s) () (restore_abs ?s)" using rs_skip [OF h] by simp
qed

lemma release_restore_restores:
  assumes "waits l s"
  shows "restores s (release_restore reason l s)"
proof (rule one_restore)
  have h: "rs_holder (restore_abs s) = Some (ls_number l, ls_suspensions l, None)" using assms by (simp add: waits_def)
  have "restore_abs (release_restore reason l s) = restore_abs s\<lparr>rs_holder := Some (ls_number l, ls_suspensions l, Some (rev (ls_suspensions l), 0)),
      rs_trace := rs_trace (restore_abs s) @ ask_next (ls_number l) (rev (ls_suspensions l))\<rparr>"
    by (simp add: restore_abs_def release_restore_def holder_of_def lease_holds_def)
  then show "restore_step (restore_abs s) () (restore_abs (release_restore reason l s))" using rs_begin [OF h] by simp
qed

lemma abs_eq: "co_calls t = co_calls s \<Longrightarrow> co_released t = co_released s \<Longrightarrow> concat (map mark (co_log t)) = concat (map mark (co_log s)) \<Longrightarrow>
    rs_holder (restore_abs t) = rs_holder (restore_abs s) \<Longrightarrow> restore_abs t = restore_abs s"
  by (simp add: restore_abs_def)

lemma waiting_pc:
  assumes "waits l s" "case pc of RlRestore rest k fs \<Rightarrow> False | _ \<Rightarrow> True"
  shows "restores s (s\<lparr>co_active := Some (l\<lparr>ls_release := Some (reason, pc)\<rparr>)\<rparr>)"
proof (rule same_restores, rule abs_eq)
  have "lease_holds (l\<lparr>ls_release := Some (reason, pc)\<rparr>) = (ls_number l, ls_suspensions l, None)"
    using assms(2) by (cases pc) (simp_all add: lease_holds_def)
  then have "rs_holder (restore_abs (s\<lparr>co_active := Some (l\<lparr>ls_release := Some (reason, pc)\<rparr>)\<rparr>)) = Some (ls_number l, ls_suspensions l, None)"
    by (simp add: restore_abs_def holder_of_def)
  then show "rs_holder (restore_abs (s\<lparr>co_active := Some (l\<lparr>ls_release := Some (reason, pc)\<rparr>)\<rparr>)) = rs_holder (restore_abs s)"
    using assms(1) by (simp add: waits_def)
qed simp_all

lemma unmarked [simp]: "mark c = [] \<Longrightarrow> restore_abs (co_record c s) = restore_abs s"
  by (simp add: restore_abs_def co_record_def)

lemma release_stable_restores: "waits l s \<Longrightarrow> restores s (release_stable drainFailed reason l s)"
  by (simp add: release_stable_def Let_def finish_release_restores release_restore_restores waiting_pc split: option.split)

lemma release_drain_restores: "waits l s \<Longrightarrow> restores s (release_drain reason l s)"
  by (simp add: release_drain_def waiting_pc release_stable_restores)

lemma waits_phase [simp]: "waits l (s\<lparr>co_phase := p\<rparr>) = waits l s"
  by (simp add: waits_def restore_abs_def)

lemma waits_same: "ls_number l' = ls_number l \<Longrightarrow> ls_suspensions l' = ls_suspensions l \<Longrightarrow> waits l' s = waits l s"
  by (simp add: waits_def)

lemma restore_abs_phase [simp]: "restore_abs (s\<lparr>co_phase := p\<rparr>) = restore_abs s"
  by (simp add: restore_abs_def)

lemma beginRelease_restores:
  assumes "co_active s = Some l" "co_acquisition s = None" "ls_number l' = ls_number l" "ls_suspensions l' = ls_suspensions l" "ls_release l' = ls_release l"
  shows "restores s (beginRelease reason restoreAllowed abortWrites l' s)"
proof (cases "ls_release l")
  case None
  have "waits (l'\<lparr>ls_restoreAllowed := a, ls_aborted := b, ls_rx := m\<rparr>) s" for a b m
    using assms None by (simp add: waits_def restore_abs_def holder_of_def lease_holds_def)
  moreover have "restores s (performRelease reason k (s\<lparr>co_phase := p\<rparr>))" if "waits k s" for k p
    using release_drain_restores [of k "s\<lparr>co_phase := p\<rparr>" reason] waiting_pc [of k "s\<lparr>co_phase := p\<rparr>" RlOp reason] that
    by (simp add: performRelease_def)
  ultimately show ?thesis using None assms(5) by (simp add: beginRelease_def Let_def)
next
  case (Some r)
  then show ?thesis using assms
    by (auto intro!: same_restores simp: beginRelease_def Let_def restore_abs_def holder_of_def lease_holds_def)
qed

lemma waits_active:
  assumes "co_ok s" "co_active s = Some l" "ls_release l = Some (reason, pc)" "case pc of RlRestore rest k fs \<Rightarrow> False | _ \<Rightarrow> True"
  shows "waits l s"
  using co_ok_active [OF assms(1,2)] assms(2-4)
  by (auto simp: lease_held_def waits_def restore_abs_def holder_of_def lease_holds_def split: release_pc.splits)

lemma continuation_restores:
  assumes "co_ok s"
  shows "restores s (release_op_settled s)" "restores s (release_drained u s)" "restores s (release_lines u s)"
    "restores s (release_restored u s)" "restores s (release_finished s)"
proof -
  have refl: "restores s s" by (rule reaches_refl)
  show "restores s (release_op_settled s)"
    using refl waits_active [OF assms, of _ _ RlOp]
    by (auto simp: release_op_settled_def split: option.split prod.split release_pc.split intro!: release_drain_restores)
  show "restores s (release_drained u s)"
  proof (cases "\<exists>l reason. co_active s = Some l \<and> ls_release l = Some (reason, RlDrain)")
    case True
    then obtain l reason where l: "co_active s = Some l" "ls_release l = Some (reason, RlDrain)" by blast
    then have "waits l s" using waits_active [OF assms l] by simp
    then show ?thesis using l waits_same [of "l\<lparr>ls_restoreAllowed := False\<rparr>" l s]
      by (simp add: release_drained_def release_stable_restores split: reply.split)
  next
    case False
    then show ?thesis using refl by (auto simp: release_drained_def split: option.split prod.split release_pc.split)
  qed
  show "restores s (release_lines u s)"
    using refl waits_active [OF assms, of _ _ RlLines]
    by (auto simp: release_lines_def split: option.split prod.split release_pc.split intro!: release_restore_restores finish_release_restores)
  show "restores s (release_restored u s)"
  proof (cases "\<exists>l reason i rest k fs. co_active s = Some l \<and> ls_release l = Some (reason, RlRestore (i # rest) k fs)")
    case True
    then obtain l reason i rest k fs where l: "co_active s = Some l" "ls_release l = Some (reason, RlRestore (i # rest) k fs)" by blast
    then have h: "rs_holder (restore_abs s) = Some (ls_number l, ls_suspensions l, Some (i # rest, k + length fs))"
      by (simp add: restore_abs_def holder_of_def lease_holds_def)
    let ?u = "\<lambda>j gs. start_restore (ls_number l) reason rest (s\<lparr>co_active := Some (l\<lparr>ls_release := Some (reason, RlRestore rest j gs)\<rparr>)\<rparr>)"
    have "restores s (?u j gs)" if "j + length gs = k + length fs + 1" for j gs
    proof (rule one_restore)
      have "restore_abs (?u j gs) = restore_abs s\<lparr>rs_holder := Some (ls_number l, ls_suspensions l, Some (rest, k + length fs + 1)),
          rs_trace := rs_trace (restore_abs s) @ ask_next (ls_number l) rest\<rparr>"
        using that by (simp add: restore_abs_def holder_of_def lease_holds_def)
      then show "restore_step (restore_abs s) () (restore_abs (?u j gs))" using rs_advance [OF h] by simp
    qed
    then show ?thesis using l by (cases u) (simp_all add: release_restored_def)
  next
    case False
    then show ?thesis using refl by (auto simp: release_restored_def split: option.split prod.split release_pc.split list.split)
  qed
  show "restores s (release_finished s)"
  proof (cases "\<exists>l reason k fs. co_active s = Some l \<and> ls_release l = Some (reason, RlRestore [] k fs)")
    case True
    then obtain l reason k fs where l: "co_active s = Some l" "ls_release l = Some (reason, RlRestore [] k fs)" by blast
    then have h: "rs_holder (restore_abs s) = Some (ls_number l, ls_suspensions l, Some ([], k + length fs))"
      by (simp add: restore_abs_def holder_of_def lease_holds_def)
    have "co_acquisition s = None" using co_ok_active [OF assms l(1)] by (simp add: lease_held_def)
    then have "restore_abs (finish_release False True True k fs reason l s) =
        restore_abs s\<lparr>rs_holder := None, rs_ended := rs_ended (restore_abs s) @ [(ls_number l, False, k + length fs)]\<rparr>"
      by (simp add: restore_abs_def finish_release_def holder_of_def)
    then have "restores s (finish_release False True True k fs reason l s)" using rs_end [OF h] by (intro one_restore) simp
    then show ?thesis using l by (simp add: release_finished_def)
  next
    case False
    then show ?thesis using refl by (auto simp: release_finished_def split: option.split prod.split release_pc.split list.split)
  qed
qed

section \<open>Acquisition\<close>

text \<open>The acquisition of \<open>s\<close> is \<open>a\<close>, not yet restoring.\<close>

definition pausing :: "acquisition \<Rightarrow> coordinator \<Rightarrow> bool" where
  "pausing a s \<longleftrightarrow> co_active s = None \<and> rs_holder (restore_abs s) = Some (aq_number a, aq_paused a, None)"

lemma finish_acquire_restores:
  assumes "co_active s = None" "rs_holder (restore_abs s) = Some (n, ids, x)" "x = None \<or> (\<exists>k. x = Some ([], k))"
  shows "restores s (finish_acquire error a s)"
proof (rule one_restore)
  have "restore_abs (finish_acquire error a s) = restore_abs s\<lparr>rs_holder := None\<rparr>"
    using assms(1) by (simp add: restore_abs_def finish_acquire_def Let_def co_result_def holder_of_def)
  then show "restore_step (restore_abs s) () (restore_abs (finish_acquire error a s))" using rs_drop [OF assms(2,3)] by simp
qed

lemma fail_acquire_restores:
  assumes "pausing a s"
  shows "restores s (fail_acquire error a s)"
proof -
  have h: "co_active s = None" "rs_holder (restore_abs s) = Some (aq_number a, aq_paused a, None)" using assms by (simp_all add: pausing_def)
  let ?u = "start_restore (aq_number a) (aq_reason a) (rev (aq_paused a))
      (s\<lparr>co_acquisition := Some (a\<lparr>aq_pc := AqRestore (rev (aq_paused a)) (aq_reason a) error\<rparr>)\<rparr>)"
  have "restore_abs ?u = restore_abs s\<lparr>rs_holder := Some (aq_number a, aq_paused a, Some (rev (aq_paused a), 0)),
      rs_trace := rs_trace (restore_abs s) @ ask_next (aq_number a) (rev (aq_paused a))\<rparr>"
    using h(1) by (simp add: restore_abs_def holder_of_def acquisition_holds_def)
  then have "restores s ?u" using rs_begin [OF h(2)] by (intro one_restore) simp
  then show ?thesis using finish_acquire_restores [OF h] by (simp add: fail_acquire_def)
qed

lemma activate_restores:
  assumes "pausing a s"
  shows "restores s (activate nonce a s)"
proof -
  obtain r s' where r: "issueToken nonce s = (r, s')" by (metis surj_pair)
  have same: "restore_abs s' = restore_abs s" "pausing a s'" using issueToken_frame [OF r] assms by (auto simp: restore_abs_def pausing_def)
  show ?thesis
  proof (cases r)
    case (Inl e)
    then show ?thesis using r fail_acquire_restores [OF same(2)] same(1) by (simp add: activate_def)
  next
    case (Inr t)
    then have "rs_holder (restore_abs (activate nonce a s)) = Some (aq_number a, aq_paused a, None)"
      using r by (simp add: activate_def Let_def co_result_def restore_abs_def holder_of_def lease_holds_def)
    then have "rs_holder (restore_abs (activate nonce a s)) = rs_holder (restore_abs s')" using same(2) by (simp add: pausing_def)
    then have "restore_abs (activate nonce a s) = restore_abs s'"
      using r Inr by (intro abs_eq) (simp_all add: activate_def Let_def co_result_def)
    then show ?thesis using same(1) by (simp add: reaches_refl)
  qed
qed

lemma pausing_same: "aq_number a' = aq_number a \<Longrightarrow> aq_paused a' = aq_paused a \<Longrightarrow> pausing a' s = pausing a s"
  by (simp add: pausing_def)

lemma acquisition_same:
  assumes "pausing a s" "aq_number a' = aq_number a" "aq_paused a' = aq_paused a"
    "case aq_pc a' of AqRestore rest reason error \<Rightarrow> False | _ \<Rightarrow> True"
  shows "restores s (s\<lparr>co_acquisition := Some a'\<rparr>)"
proof (rule same_restores, rule abs_eq)
  have "acquisition_holds a' = (aq_number a, aq_paused a, None)" using assms(2-4) by (simp add: acquisition_holds_def split: acquire_pc.splits)
  then have "rs_holder (restore_abs (s\<lparr>co_acquisition := Some a'\<rparr>)) = Some (aq_number a, aq_paused a, None)"
    using assms(1) by (simp add: restore_abs_def holder_of_def pausing_def)
  then show "rs_holder (restore_abs (s\<lparr>co_acquisition := Some a'\<rparr>)) = rs_holder (restore_abs s)"
    using assms(1) by (simp add: pausing_def)
qed simp_all

lemma acquisition_overwritten:
  "fail_acquire error a (s\<lparr>co_acquisition := x\<rparr>) = fail_acquire error a s"
  "pause_next todo nonce a (s\<lparr>co_acquisition := x\<rparr>) = pause_next todo nonce a s"
proof -
  show f: "fail_acquire error a (s\<lparr>co_acquisition := x\<rparr>) = fail_acquire error a s" for error a s x
    by (simp add: fail_acquire_def finish_acquire_def Let_def co_result_def start_restore_def co_record_def split: list.split)
  have "issueToken nonce (s\<lparr>co_acquisition := x\<rparr>) = (fst (issueToken nonce s), snd (issueToken nonce s)\<lparr>co_acquisition := x\<rparr>)"
    by (simp add: issueToken_def Let_def split: reply.split option.split sum.split)
  then have "activate nonce a (s\<lparr>co_acquisition := x\<rparr>) = activate nonce a s"
    using f by (simp add: activate_def Let_def co_result_def split: prod.split sum.split)
  then show "pause_next todo nonce a (s\<lparr>co_acquisition := x\<rparr>) = pause_next todo nonce a s"
    by (simp add: pause_next_def split: list.split)
qed

lemma pause_next_restores: "pausing a s \<Longrightarrow> restores s (pause_next todo nonce a s)"
  by (simp add: pause_next_def activate_restores acquisition_same split: list.split)

lemma pausing_acquisition:
  assumes "co_ok s" "co_acquisition s = Some a" "case aq_pc a of AqRestore rest reason error \<Rightarrow> False | _ \<Rightarrow> True"
  shows "pausing a s"
  using co_ok_acquisition [OF assms(1,2)] assms(2,3)
  by (simp add: pausing_def restore_abs_def holder_of_def acquisition_holds_def split: acquire_pc.splits)

lemma acquire_drained_restores:
  assumes "co_ok s"
  shows "restores s (acquire_drained u s)"
proof (cases "\<exists>a. co_acquisition s = Some a \<and> aq_pc a = AqDrain")
  case True
  then obtain a where a: "co_acquisition s = Some a" "aq_pc a = AqDrain" by blast
  then have p: "pausing a s" using pausing_acquisition [OF assms a(1)] by simp
  show ?thesis using a by (simp add: acquire_drained_def fail_acquire_restores [OF p] acquisition_same [OF p] split: reply.split)
next
  case False
  then show ?thesis by (auto simp: acquire_drained_def reaches_refl split: option.split)
qed

lemma acquire_manual_restores:
  assumes "co_ok s"
  shows "restores s (acquire_manual lines nonce s)"
proof (cases "\<exists>a w. co_acquisition s = Some a \<and> aq_pc a = AqManual w")
  case True
  then obtain a w where a: "co_acquisition s = Some a" "aq_pc a = AqManual w" by blast
  then have p: "pausing a s" using pausing_acquisition [OF assms a(1)] by simp
  obtain e a1 where e: "assertAcquisitionGeneration (a\<lparr>aq_drained := True\<rparr>) (co_conn s) = (e, a1)" by (metis surj_pair)
  have "pausing (a1\<lparr>aq_baseline := b\<rparr>) s" "pausing a1 s" for b
    using p assert_generation_ok [OF e] pausing_same [of a1 a s] pausing_same [of "a1\<lparr>aq_baseline := b\<rparr>" a s] by simp_all
  then show ?thesis using a e
    by (simp add: acquire_manual_def fail_acquire_restores p pause_next_restores reaches_refl split: manual_wait.split option.split sum.split)
next
  case False
  then show ?thesis by (auto simp: acquire_manual_def reaches_refl split: option.split acquire_pc.split)
qed

lemma acquire_paused_restores:
  assumes "co_ok s"
  shows "restores s (acquire_paused r nonce s)"
proof (cases "\<exists>a i port rest. co_acquisition s = Some a \<and> aq_pc a = AqPause ((i, port) # rest)")
  case False
  then show ?thesis by (auto simp: acquire_paused_def reaches_refl split: option.split acquire_pc.split list.split)
next
  case True
  then obtain a i port rest where a: "co_acquisition s = Some a" "aq_pc a = AqPause ((i, port) # rest)" by blast
  then have p: "pausing a s" using pausing_acquisition [OF assms a(1)] by simp
  show ?thesis
  proof (cases r)
    case (Rejected e)
    then show ?thesis using a p by (simp add: acquire_paused_def fail_acquire_restores)
  next
    case (Resolved suspended)
    let ?a = "if suspended then a\<lparr>aq_paused := aq_paused a @ [i]\<rparr> else a"
    let ?s = "if suspended then co_record (Suspended (aq_number a) i) s else s"
    obtain e a1 where e: "assertAcquisitionGeneration ?a (co_conn ?s) = (e, a1)" by (metis surj_pair)
    have run: "acquire_paused r nonce s = (case e of Some err \<Rightarrow> fail_acquire (Some err) a1 ?s | None \<Rightarrow> pause_next rest nonce a1 ?s)"
      using a Resolved e unfolding acquire_paused_def by (simp add: Let_def split: option.split)
    have a1: "aq_number a1 = aq_number a" "aq_paused a1 = aq_paused ?a" "case aq_pc a1 of AqRestore rest reason error \<Rightarrow> False | _ \<Rightarrow> True"
      using assert_generation_ok [OF e] a(2) by simp_all
    text \<open>The state in which the new suspension is noted down in the acquisition.\<close>
    let ?t = "?s\<lparr>co_acquisition := Some a1\<rparr>"
    have paused: "pausing a1 ?t" using p a1
      by (simp add: pausing_def restore_abs_def holder_of_def acquisition_holds_def co_record_def split: acquire_pc.splits)
    have noted: "restores s ?t"
    proof (cases suspended)
      case True
      have h: "rs_holder (restore_abs s) = Some (aq_number a, aq_paused a, None)" using p by (simp add: pausing_def)
      have "restore_abs ?t = restore_abs s\<lparr>rs_holder := Some (aq_number a, aq_paused a @ [i], None),
          rs_trace := rs_trace (restore_abs s) @ [Paused (aq_number a) i]\<rparr>"
        using p a1 True by (simp add: restore_abs_def holder_of_def acquisition_holds_def co_record_def pausing_def split: acquire_pc.splits)
      then show ?thesis using rs_suspend [OF h] by (intro one_restore) simp
    next
      case False
      then show ?thesis using acquisition_same [OF p a1(1) _ a1(3)] a1(2) by simp
    qed
    have "acquire_paused r nonce s = (case e of Some err \<Rightarrow> fail_acquire (Some err) a1 ?t | None \<Rightarrow> pause_next rest nonce a1 ?t)"
      using run by (simp only: acquisition_overwritten)
    then have "restores ?t (acquire_paused r nonce s)"
      using fail_acquire_restores [OF paused] pause_next_restores [OF paused] by (cases e) (simp_all only: option.case)
    then show ?thesis using noted by (rule reaches_trans [rotated])
  qed
qed

lemma acquire_restoring_restores:
  assumes "co_ok s" "restore_ok (restore_abs s)"
  shows "restores s (acquire_restored u s)" "restores s (acquire_finished s)"
proof -
  show "restores s (acquire_restored u s)"
  proof (cases "\<exists>a i rest reason error. co_acquisition s = Some a \<and> aq_pc a = AqRestore (i # rest) reason error")
    case True
    then obtain a i rest reason error where a: "co_acquisition s = Some a" "aq_pc a = AqRestore (i # rest) reason error" by blast
    have none: "co_active s = None" using co_ok_acquisition [OF assms(1) a(1)] by simp
    then have h: "rs_holder (restore_abs s) = Some (aq_number a, aq_paused a, Some (i # rest, length (aq_paused a) - Suc (length rest)))"
      using a by (simp add: restore_abs_def holder_of_def acquisition_holds_def)
    then have "\<exists>past. rev (aq_paused a) = past @ i # rest" using assms(2) by (auto simp: restore_ok_def restored_so_far_def)
    then have len: "Suc (length rest) \<le> length (aq_paused a)" by (auto dest: arg_cong [where f = length])
    have "restore_abs (acquire_restored u s) = restore_abs s\<lparr>rs_holder :=
          Some (aq_number a, aq_paused a, Some (rest, length (aq_paused a) - Suc (length rest) + 1)),
        rs_trace := rs_trace (restore_abs s) @ ask_next (aq_number a) rest\<rparr>"
      using a none len by (simp add: acquire_restored_def restore_abs_def holder_of_def acquisition_holds_def)
    then show ?thesis using rs_advance [OF h] by (intro one_restore) simp
  next
    case False
    then show ?thesis by (auto simp: acquire_restored_def reaches_refl split: option.split acquire_pc.split list.split)
  qed
  show "restores s (acquire_finished s)"
  proof (cases "\<exists>a reason error. co_acquisition s = Some a \<and> aq_pc a = AqRestore [] reason error")
    case True
    then obtain a reason error where a: "co_acquisition s = Some a" "aq_pc a = AqRestore [] reason error" by blast
    have "co_active s = None" using co_ok_acquisition [OF assms(1) a(1)] by simp
    then show ?thesis using a finish_acquire_restores [of s]
      by (simp add: acquire_finished_def restore_abs_def holder_of_def acquisition_holds_def)
  next
    case False
    then show ?thesis by (auto simp: acquire_finished_def reaches_refl split: option.split acquire_pc.split list.split)
  qed
qed

lemma acquire_restores:
  assumes "co_ok s"
  shows "restores s (lease_acquire owner rxBufferBytes signalAborted s)"
proof (cases "assertIdle (s\<lparr>co_calls := co_calls s + 1\<rparr>)")
  case (Some e)
  then have "restore_abs (lease_acquire owner rxBufferBytes signalAborted s) = restore_abs s\<lparr>rs_calls := rs_calls (restore_abs s) + 1\<rparr>"
    by (simp add: lease_acquire_def Let_def co_result_def restore_abs_def)
  then show ?thesis using rs_call by (intro one_restore) simp
next
  case None
  then have free: "co_acquisition s = None" "co_active s = None"
    using idle_free [OF assms] by (auto simp: assertIdle_def split: if_splits)
  have call: "restores s (co_result n (Inl e) (s\<lparr>co_calls := co_calls s + 1, co_faultCode := None, co_faultToken := None\<rparr>))" for n e
    using rs_call [of "restore_abs s"] by (intro one_restore) (simp add: co_result_def restore_abs_def)
  let ?t = "\<lambda>a. s\<lparr>co_calls := co_calls s + 1, co_faultCode := None, co_faultToken := None, co_acquisition := Some a, co_phase := PhAcquiring\<rparr>"
  have hold: "restores s (?t a)" "pausing a (?t a)" if "aq_number a = co_calls s" "aq_paused a = []" "aq_pc a = AqDrain" for a
  proof -
    have h: "rs_holder (restore_abs s) = None" using free by (simp add: restore_abs_def holder_of_def)
    have "restore_abs (?t a) = restore_abs s\<lparr>rs_calls := rs_calls (restore_abs s) + 1, rs_holder := Some (rs_calls (restore_abs s), [], None)\<rparr>"
      using that free by (simp add: restore_abs_def holder_of_def acquisition_holds_def)
    then show "restores s (?t a)" using rs_hold [OF h] by (intro one_restore) simp
    show "pausing a (?t a)" using that free by (simp add: pausing_def restore_abs_def holder_of_def acquisition_holds_def)
  qed
  have fails: "restores s (fail_acquire e a (?t a))" if "aq_number a = co_calls s" "aq_paused a = []" "aq_pc a = AqDrain" for a e
    by (rule reaches_trans [OF hold(1) fail_acquire_restores [OF hold(2)]]) (use that in simp_all)
  show ?thesis using None call hold(1) fails
    by (simp add: lease_acquire_def Let_def split: sum.split option.split)
qed

section \<open>The other events\<close>

lemma abs_frame [simp]:
  "restore_abs (s\<lparr>co_conn := v1\<rparr>) = restore_abs s" "restore_abs (s\<lparr>co_automations := v2\<rparr>) = restore_abs s"
  "restore_abs (s\<lparr>co_manual := v3\<rparr>) = restore_abs s" "restore_abs (s\<lparr>co_faultCode := v4\<rparr>) = restore_abs s"
  "restore_abs (s\<lparr>co_faultToken := v5\<rparr>) = restore_abs s" "restore_abs (s\<lparr>co_dispose := v6\<rparr>) = restore_abs s"
  "restore_abs (s\<lparr>co_disposed := v7\<rparr>) = restore_abs s" "restore_abs (s\<lparr>co_faultedGeneration := v8\<rparr>) = restore_abs s"
  "restore_abs (co_result n r s) = restore_abs s"
  by (simp_all add: restore_abs_def co_result_def)

lemma set_lease_restores:
  assumes "co_active s = Some l" "ls_number l' = ls_number l" "ls_suspensions l' = ls_suspensions l" "ls_release l' = ls_release l"
  shows "restore_abs (s\<lparr>co_active := Some l'\<rparr>) = restore_abs s"
  using assms by (simp add: restore_abs_def holder_of_def lease_holds_def)

lemma set_acquisition_restores:
  assumes "co_acquisition s = Some a" "aq_number a' = aq_number a" "aq_paused a' = aq_paused a"
    "aq_pc a' = aq_pc a \<or> (\<exists>w v. aq_pc a = AqManual w \<and> aq_pc a' = AqManual v)"
  shows "restore_abs (s\<lparr>co_acquisition := Some a'\<rparr>) = restore_abs s"
proof -
  have "acquisition_holds a' = acquisition_holds a" using assms by (auto simp: acquisition_holds_def split: acquire_pc.split)
  then show ?thesis using assms(1) by (simp add: restore_abs_def holder_of_def split: option.split)
qed

lemma begin_restores:
  assumes "co_ok s" "co_active s = Some l"
  shows "restores s (beginRelease reason restoreAllowed abortWrites l s)"
  using co_ok_active [OF assms] by (intro beginRelease_restores [OF assms(2)]) (simp_all add: lease_held_def)

lemma require_restores: "co_ok s \<Longrightarrow> requireActiveLease token s = (r, s') \<Longrightarrow> restores s s'"
  using begin_restores [of s] by (auto simp: requireActiveLease_def reaches_refl split: option.splits if_splits)

lemma call_restores: "restores s (s\<lparr>co_calls := co_calls s + 1\<rparr>)"
  using rs_call [of "restore_abs s"] by (intro one_restore) (simp add: restore_abs_def)

lemma operation_restores:
  assumes "co_ok s"
  shows "restores s (begin_operation kind check token signalAborted s)" "restores s (settle_operation n v s)" "restores s (abort_operation n s)"
proof -
  let ?s = "s\<lparr>co_calls := co_calls s + 1\<rparr>"
  obtain r s' where r: "requireActiveLease token ?s = (r, s')" by (metis surj_pair)
  note ok = requireActiveLease_ok [OF co_ok_calls [OF assms] r]
  have to: "restores s s'" by (rule reaches_trans [OF call_restores require_restores [OF co_ok_calls [OF assms] r]])
  have lease: "restore_abs (co_record (CallOp m k kind) (s'\<lparr>co_active := Some ((startLeaseOperation k kind l)\<lparr>ls_touched := t\<rparr>)\<rparr>)) = restore_abs s'"
    if "r = Inr l" for l m k t
    using ok that set_lease_restores [of s' l "(startLeaseOperation k kind l)\<lparr>ls_touched := t\<rparr>"] by (simp add: startLeaseOperation_def)
  show "restores s (begin_operation kind check token signalAborted s)"
    using r to lease by (simp add: begin_operation_def Let_def split: sum.split option.split)
  have "restore_abs (s\<lparr>co_active := Some (finishLeaseOperation l')\<rparr>) = restore_abs s"
    if "co_active s = Some l" "l' = l \<or> l' = l\<lparr>ls_rx := m\<rparr>" for l l' m
    using that by (auto simp: finishLeaseOperation_def intro!: set_lease_restores)
  then show "restores s (settle_operation n v s)"
    by (auto simp: settle_operation_def split: option.split intro!: same_restores)
  show "restores s (abort_operation n s)"
    by (auto simp: abort_operation_def split: option.split intro!: same_restores set_lease_restores)
qed

lemma rx_restores:
  assumes "co_ok s"
  shows "restores s (snd (offerRx gen input s))" "restores s (snd (lease_read token maxBytes timeoutMs signalAborted s))"
    "restores s (read_event e n i s)"
proof -
  have set: "restore_abs (set_rx m l s) = restore_abs s" if "co_active s = Some l" for m l
    using set_lease_restores [OF that, of "l\<lparr>ls_rx := m\<rparr>"] by (simp add: set_rx_def)
  then show "restores s (read_event e n i s)" by (simp add: read_event_def reaches_refl split: option.split)
  have "restores s (beginRelease reason b c (l\<lparr>ls_rx := m\<rparr>) (s\<lparr>co_faultCode := v, co_faultToken := w\<rparr>))"
    if "co_active s = Some l" for l m v w reason b c
  proof -
    have "co_acquisition s = None" using co_ok_active [OF assms that] by (simp add: lease_held_def)
    then show ?thesis using beginRelease_restores [of "s\<lparr>co_faultCode := v, co_faultToken := w\<rparr>" l "l\<lparr>ls_rx := m\<rparr>"] that by simp
  qed
  then show "restores s (snd (offerRx gen input s))"
    using set begin_restores [OF assms] by (simp add: offerRx_def reaches_refl split: option.split prod.split offer_result.split)
  obtain r s' where r: "requireActiveLease token s = (r, s')" by (metis surj_pair)
  show "restores s (snd (lease_read token maxBytes timeoutMs signalAborted s))"
    using r require_restores [OF assms r] requireActiveLease_ok [OF assms r] set
    by (cases r) (simp_all add: lease_read_def split: sum.split)
qed

lemma ending_restores:
  assumes "co_ok s"
  shows "restores s (owner_abort n s)" "restores s (snd (lease_release token s))" "restores s (snd (lease_cancel token s))"
    "restores s (snd (notifyDisconnected gen s))" "restores s (snd (synchronizeConnection s))"
proof -
  have abort: "restore_abs (s\<lparr>co_acquisition := Some (abort_acquisition reason a)\<rparr>) = restore_abs s"
    "restore_abs (s\<lparr>co_acquisition := Some (abort_acquisition reason (a\<lparr>aq_restoreAllowed := b\<rparr>))\<rparr>) = restore_abs s"
    if "co_acquisition s = Some a" for reason a b
    using that by (auto intro!: set_acquisition_restores simp: abort_acquisition_def)
  note b = begin_restores [OF assms]
  show "restores s (owner_abort n s)" "restores s (snd (lease_release token s))" "restores s (snd (lease_cancel token s))"
    using abort b by (simp_all add: owner_abort_def lease_release_def lease_cancel_def requireLeaseForRelease_def reaches_refl split: option.split)
  show "restores s (snd (notifyDisconnected gen s))"
    using abort(2) b by (auto simp: notifyDisconnected_def reaches_refl split: option.split sum.split)
  have "restore_abs (s\<lparr>co_faultedGeneration := None, co_phase := PhIdle\<rparr>) = restore_abs s" by (simp add: restore_abs_def)
  then show "restores s (snd (synchronizeConnection s))"
    using abort(2) b by (simp add: synchronizeConnection_def synchronize_lease_def reaches_refl split: option.split sum.split prod.split)
qed

lemma dispose_restores:
  assumes "co_ok s"
  shows "restores s (dispose s)" "restores s (dispose_resume s)"
proof -
  have finish: "restore_abs (dispose_finish t) = restore_abs t" for t by (simp add: dispose_finish_def restore_abs_def)
  have lease: "restores s (dispose_lease t)" if t: "t = s\<lparr>co_disposed := d\<rparr>" for t d
  proof (cases "co_active s")
    case None
    then show ?thesis using t finish by (simp add: dispose_lease_def reaches_refl)
  next
    case (Some l)
    then have "co_acquisition s = None" using co_ok_active [OF assms] by (simp add: lease_held_def)
    then show ?thesis using t Some beginRelease_restores [of t l l] by (simp add: dispose_lease_def)
  qed
  have "restore_abs (s\<lparr>co_acquisition := Some (abort_acquisition reason a)\<rparr>) = restore_abs s" if "co_acquisition s = Some a" for reason a
    using that by (auto intro!: set_acquisition_restores simp: abort_acquisition_def)
  then have "restore_abs (s\<lparr>co_disposed := d, co_acquisition := Some (abort_acquisition reason a), co_dispose := x\<rparr>) = restore_abs s"
    if "co_acquisition s = Some a" for reason a d x
    using that by (simp add: restore_abs_def)
  then show "restores s (dispose s)" using lease [OF refl]
    by (auto simp: dispose_def Let_def reaches_refl split: option.split)
  have "s = s\<lparr>co_disposed := co_disposed s\<rparr>" by simp
  from lease [OF this] finish show "restores s (dispose_resume s)"
    by (simp add: dispose_resume_def reaches_refl split: dispose_pc.split)
qed

lemma manual_restores: "restores s (snd (manual_start s))" "restores s (manual_end s)"
proof -
  show "restores s (snd (manual_start s))" by (simp add: manual_start_def reaches_refl split: option.split)
  have "acquisition_holds (drain_resolved a) = acquisition_holds a" for a by (simp add: acquisition_holds_def drain_resolved_def)
  then show "restores s (manual_end s)"
    by (auto intro!: same_restores simp: manual_end_def Let_def restore_abs_def holder_of_def option.map_comp comp_def split: option.split)
qed

lemma register_restores: "restores s (snd (registerAutomation i port s))" "restores s (snd (unregisterAutomation i port s))"
  by (simp_all add: registerAutomation_def unregisterAutomation_def reaches_refl split: option.split sum.split)

lemma lease_step_restores:
  assumes "co_ok s" "restore_ok (restore_abs s)"
  shows "restores s (lease_step ev s)"
  by (cases ev) (simp_all add: operation_defs reaches_refl register_restores manual_restores acquire_restores assms acquire_drained_restores
      acquire_manual_restores acquire_paused_restores acquire_restoring_restores ending_restores operation_restores rx_restores
      continuation_restores dispose_restores)

definition restoring_inv :: "coordinator \<Rightarrow> bool" where
  "restoring_inv s \<longleftrightarrow> lease_inv s \<and> restore_ok (restore_abs s)"

interpretation restoring: invariant_machine "runs_by lease_step" "\<lambda>s. \<exists>limits io conn. s = new_coordinator limits io conn" restoring_inv
proof unfold_locales
  fix s :: coordinator assume "\<exists>limits io conn. s = new_coordinator limits io conn"
  then have "lease_inv s" "restore_abs s = \<lparr>rs_calls = 0, rs_holder = None, rs_trace = [], rs_ended = []\<rparr>"
    by (auto simp: lease_inv_new) (simp add: restore_abs_def new_coordinator_def holder_of_def)
  then show "restoring_inv s" using restoration.inv_start by (simp add: restoring_inv_def)
next
  fix s s' ev assume inv: "restoring_inv s" and "runs_by lease_step s ev s'"
  then have s': "s' = lease_step ev s" by (simp add: runs_by_def)
  have "restores s s'" using inv lease_step_restores by (simp add: s' restoring_inv_def lease_inv_def)
  then show "restoring_inv s'" using inv restoration.inv_kept lease_inv_step by (auto simp: restoring_inv_def s')
qed

section \<open>Properties\<close>

lemma reachable_restoring: "restoring_inv (run_events lease_step evs (new_coordinator limits io conn))"
  using restoring.reachable_inv [OF _ reaches_runs_by] by blast

text \<open>C15. The coordinator refines the protocol of suspension and restoration: over any events its calls of the
  automations, its holders and the ends of its leases are a run of the protocol from its start.\<close>

theorem coordinator_refines_restoration:
  "reaches restore_step \<lparr>rs_calls = 0, rs_holder = None, rs_trace = [], rs_ended = []\<rparr>
     (restore_abs (run_events lease_step evs (new_coordinator limits io conn)))"
proof (induction evs rule: rev_induct)
  case Nil
  have "restore_abs (new_coordinator limits io conn) = \<lparr>rs_calls = 0, rs_holder = None, rs_trace = [], rs_ended = []\<rparr>"
    by (simp add: restore_abs_def new_coordinator_def holder_of_def)
  then show ?case by (simp add: reaches_refl)
next
  case (snoc ev evs)
  have "restores (run_events lease_step evs (new_coordinator limits io conn))
      (run_events lease_step (evs @ [ev]) (new_coordinator limits io conn))"
    using lease_step_restores reachable_restoring [of evs limits io conn]
    by (simp add: run_events_append restoring_inv_def lease_inv_def)
  with snoc.IH show ?case by (rule reaches_trans)
qed

text \<open>C13. Automations are restored from the last suspended to the first, each at most once: at every reachable state
  the restore calls made for an acquisition or lease are a prefix of its suspensions in reverse; they are
  none or all of them once it is over; and a release that does not report the restoration as skipped
  called all, with as many restored as the ones it does not name as failed.\<close>

theorem automations_restored_in_reverse:
  assumes "s = run_events lease_step evs (new_coordinator limits io conn)"
    and "trace = concat (map mark (co_log s))"
  shows "prefix (restored_ids n trace) (rev (paused_ids n trace)) \<and>
    (if map_option ls_number (co_active s) = Some n \<or> map_option aq_number (co_acquisition s) = Some n then True
     else restored_ids n trace = [] \<or> restored_ids n trace = rev (paused_ids n trace)) \<and>
    list_all (\<lambda>(m, r). if rr_skipped r then restored_ids m trace = []
       else restored_ids m trace = rev (paused_ids m trace) \<and> rr_restored r + length (rr_failures r) = length (paused_ids m trace)) (co_released s)"
proof -
  have inv: "restore_ok (restore_abs s)" using reachable_restoring assms(1) by (simp add: restoring_inv_def)
  have t: "rs_trace (restore_abs s) = trace" using assms(2) by (simp add: restore_abs_def)
  have over: "restored_ids n trace = [] \<or> restored_ids n trace = rev (paused_ids n trace)"
    if "map_option fst (rs_holder (restore_abs s)) \<noteq> Some n" for n
    using inv that by (simp only: restore_ok_def t) blast
  have fst: "map_option fst (rs_holder (restore_abs s)) = Some n \<longrightarrow>
      map_option ls_number (co_active s) = Some n \<or> map_option aq_number (co_acquisition s) = Some n" for n
    by (auto simp: restore_abs_def holder_of_def lease_holds_def acquisition_holds_def split: option.split)
  have "prefix (restored_ids n trace) (rev (paused_ids n trace))"
  proof (cases "map_option fst (rs_holder (restore_abs s)) = Some n")
    case True
    then obtain ids x where h: "rs_holder (restore_abs s) = Some (n, ids, x)" by auto
    then have ids: "paused_ids n trace = ids" "restored_so_far ids (restored_ids n trace) x" using inv by (simp_all add: restore_ok_def t)
    show ?thesis
    proof (cases x)
      case None
      then show ?thesis using ids by (simp add: restored_so_far_def)
    next
      case (Some y)
      then obtain past rest where "rev ids = past @ rest" "restored_ids n trace = past @ take 1 rest"
        using ids by (cases y) (auto simp: restored_so_far_def)
      then show ?thesis using ids(1) by (simp add: take_is_prefix)
    qed
  next
    case False
    then show ?thesis using over [OF False] by auto
  qed
  moreover have "list_all (\<lambda>(m, r). if rr_skipped r then restored_ids m trace = []
       else restored_ids m trace = rev (paused_ids m trace) \<and> rr_restored r + length (rr_failures r) = length (paused_ids m trace)) (co_released s)"
  proof -
    have "(m, rr_skipped r, rr_restored r + length (rr_failures r)) \<in> set (rs_ended (restore_abs s))" if "(m, r) \<in> set (co_released s)" for m r
      using that by (force simp: restore_abs_def)
    then show ?thesis using inv unfolding restore_ok_def t list_all_iff by (fastforce split: if_splits)
  qed
  ultimately show ?thesis using over fst by auto
qed

theorem automations_restored_in_reverse_witness:
  "map snd (co_released (run_events lease_step [EvRelease ''nonce.1'', EvRelDrained (Resolved ()), EvRelRestored (Rejected None), EvRelFinished] example_lease)) =
     [\<lparr>rr_reason = RsReleased, rr_generation = 3, rr_restored = 0, rr_failures = [''poll''], rr_skipped = False, rr_drainFailed = False\<rparr>] \<and>
   prefix (restored_ids 0 (concat (map mark (co_log example_lease)))) (rev (paused_ids 0 (concat (map mark (co_log example_lease)))))"
  by (intro conjI, code_simp, rule conjunct1 [OF automations_restored_in_reverse [OF example_lease_def refl]])

end
