(* ===== verification/LeaseProgress.thy ===== *)
theory LeaseProgress
  imports LeaseSafety
begin

text \<open>
  Acquisitions and releases end: what each of them waits for next, and a measure that every answer lowers and
  nothing raises.
\<close>

section \<open>What is awaited\<close>

fun replies_to :: "op_kind \<Rightarrow> op_reply \<Rightarrow> bool" where
  "replies_to OpWrite (RvWrite r) = True"
| "replies_to (OpClear selection) (RvClear r) = True"
| "replies_to OpPending (RvPending r) = True"
| "replies_to OpSetLines (RvSetLines r) = True"
| "replies_to OpReadLines (RvReadLines r) = True"
| "replies_to kind r = False"

inductive continues_acquisition :: "acquire_pc \<Rightarrow> lease_event \<Rightarrow> bool" where
  ca_drain: "continues_acquisition AqDrain (EvAcqDrained r)"
| ca_manual: "continues_acquisition (AqManual MwWaiting) EvManualEnd"
| ca_resolved: "continues_acquisition (AqManual MwResolved) (EvAcqManual lines nonce)"
| ca_rejected: "continues_acquisition (AqManual MwRejected) (EvAcqManual lines nonce)"
| ca_pause: "continues_acquisition (AqPause todo) (EvAcqPaused b nonce)"
| ca_restore: "continues_acquisition (AqRestore (i # rest) reason error) (EvAcqRestored r)"
| ca_finish: "continues_acquisition (AqRestore [] reason error) EvAcqFinished"

inductive continues_release :: "lease_op option \<Rightarrow> release_pc \<Rightarrow> lease_event \<Rightarrow> bool" where
  cr_settle: "replies_to (lo_kind q) v \<Longrightarrow> continues_release (Some q) RlOp (EvOpSettled (lo_number q) v)"
| cr_op: "continues_release None RlOp EvRelOp"
| cr_drain: "continues_release x RlDrain (EvRelDrained r)"
| cr_lines: "continues_release x RlLines (EvRelLines r)"
| cr_restore: "continues_release x (RlRestore (i # rest) k fs) (EvRelRestored r)"
| cr_finish: "continues_release x (RlRestore [] k fs) EvRelFinished"

text \<open>\<open>ev\<close> is the answer, or the continuation, that the acquisition or release of \<open>s\<close> waits for.\<close>

definition continues :: "lease_event \<Rightarrow> coordinator \<Rightarrow> bool" where
  "continues ev s \<longleftrightarrow>
     (case co_acquisition s of
        Some a \<Rightarrow> continues_acquisition (aq_pc a) ev
      | None \<Rightarrow>
          (case co_active s of
             None \<Rightarrow> False
           | Some l \<Rightarrow> (case ls_release l of None \<Rightarrow> False | Some (reason, pc) \<Rightarrow> continues_release (ls_op l) pc ev)))"

section \<open>The measure\<close>

fun acquire_work :: "nat \<Rightarrow> nat \<Rightarrow> nat \<Rightarrow> acquire_pc \<Rightarrow> nat" where
  "acquire_work automations manual paused AqDrain = 2 * automations + paused + manual + 5"
| "acquire_work automations manual paused (AqManual w) =
     2 * automations + paused + (if w = MwWaiting then manual + 1 else 1) + 2"
| "acquire_work automations manual paused (AqPause todo) = 2 * length todo + paused + 2"
| "acquire_work automations manual paused (AqRestore rest reason error) = length rest + 1"

fun release_work :: "nat \<Rightarrow> bool \<Rightarrow> release_pc \<Rightarrow> nat" where
  "release_work suspensions busy RlOp = suspensions + (if busy then 5 else 4)"
| "release_work suspensions busy RlDrain = suspensions + 3"
| "release_work suspensions busy RlLines = suspensions + 2"
| "release_work suspensions busy (RlRestore rest k fs) = length rest + 1"

definition lease_work :: "active_lease \<Rightarrow> nat" where
  "lease_work l = (case ls_release l of None \<Rightarrow> 0 | Some (reason, pc) \<Rightarrow> release_work (length (ls_suspensions l)) (ls_op l \<noteq> None) pc)"

definition work_of :: "active_lease option \<Rightarrow> acquisition option \<Rightarrow> nat \<Rightarrow> nat \<Rightarrow> nat" where
  "work_of active acq manual automations =
     (case acq of
        Some a \<Rightarrow> acquire_work automations manual (length (aq_paused a)) (aq_pc a)
      | None \<Rightarrow> (case active of None \<Rightarrow> 0 | Some l \<Rightarrow> lease_work l))"

definition work :: "coordinator \<Rightarrow> nat" where
  "work s = work_of (co_active s) (co_acquisition s) (co_manual s) (length (co_automations s))"

definition lease_pending :: "coordinator \<Rightarrow> bool" where
  "lease_pending s \<longleftrightarrow> co_phase s = PhAcquiring \<or> co_phase s = PhReleasing"

lemma work_frame [simp]:
  "work (s\<lparr>co_conn := v1\<rparr>) = work s" "work (s\<lparr>co_tokenSequence := v2\<rparr>) = work s" "work (s\<lparr>co_faultCode := v3\<rparr>) = work s"
  "work (s\<lparr>co_faultToken := v4\<rparr>) = work s" "work (s\<lparr>co_dispose := v5\<rparr>) = work s" "work (s\<lparr>co_disposed := v6\<rparr>) = work s"
  "work (s\<lparr>co_phase := v7\<rparr>) = work s" "work (s\<lparr>co_calls := v8\<rparr>) = work s" "work (s\<lparr>co_faultedGeneration := v9\<rparr>) = work s"
  "work (s\<lparr>co_released := v10\<rparr>) = work s"
  "work (co_result n r s) = work s" "work (co_record c s) = work s" "work (start_restore n reason ids s) = work s"
  by (simp_all add: work_def co_result_def co_record_def start_restore_def split: list.split)

lemma work_lease: "co_acquisition s = None \<Longrightarrow> work (s\<lparr>co_active := Some l\<rparr>) = lease_work l"
  by (simp add: work_def work_of_def)

lemma work_acquisition: "work (s\<lparr>co_acquisition := Some a\<rparr>) =
    acquire_work (length (co_automations s)) (co_manual s) (length (aq_paused a)) (aq_pc a)"
  by (simp add: work_def work_of_def)

lemma pending_cases:
  assumes "co_ok s" "lease_pending s"
  obtains (acquiring) a where "co_acquisition s = Some a" "co_active s = None" "co_phase s = PhAcquiring"
      "acquisition_ok (co_manual s) (co_disposed s) a"
      "work s = acquire_work (length (co_automations s)) (co_manual s) (length (aq_paused a)) (aq_pc a)"
    | (releasing) l reason pc where "co_acquisition s = None" "co_active s = Some l" "ls_release l = Some (reason, pc)"
      "co_phase s = PhReleasing" "pc = RlOp \<or> ls_op l = None" "co_manual s = 0"
      "work s = release_work (length (ls_suspensions l)) (ls_op l \<noteq> None) pc"
proof (cases "co_active s")
  case None
  then obtain a where "co_acquisition s = Some a" using assms by (auto simp: co_ok_def lease_pending_def split: option.splits)
  then show ?thesis using acquiring None co_ok_acquisition [OF assms(1)] by (simp add: work_def work_of_def)
next
  case (Some l)
  note ok = co_ok_active [OF assms(1) Some]
  then obtain reason pc where r: "ls_release l = Some (reason, pc)" using assms(2)
    by (cases "ls_release l") (auto simp: lease_held_def lease_pending_def)
  show ?thesis using releasing [OF _ Some r] ok r Some by (simp add: lease_held_def lease_ok_def lease_core_def work_def work_of_def lease_work_def)
qed

lemma idle_work: "co_ok s \<Longrightarrow> \<not> lease_pending s \<Longrightarrow> work s = 0"
  by (auto simp: co_ok_def lease_pending_def lease_held_def work_def work_of_def lease_work_def split: option.splits if_splits)

section \<open>Release\<close>

lemma finish_release_work [simp]: "co_acquisition s = None \<Longrightarrow> work (finish_release drainFailed linesRestored steady k fs reason l s) = 0"
  by (simp add: finish_release_def Let_def work_def work_of_def)

lemma release_restore_work: "co_acquisition s = None \<Longrightarrow> work (release_restore reason l s) = length (ls_suspensions l) + 1"
  by (simp add: release_restore_def work_lease lease_work_def)

lemma release_stable_work: "co_acquisition s = None \<Longrightarrow> work (release_stable drainFailed reason l s) \<le> length (ls_suspensions l) + 2"
  by (simp add: release_stable_def Let_def release_restore_work work_lease lease_work_def split: option.split)

lemma release_drain_work: "co_acquisition s = None \<Longrightarrow> work (release_drain reason l s) \<le> length (ls_suspensions l) + 3"
  using release_stable_work [of s False reason l] by (simp add: release_drain_def work_lease lease_work_def)

lemma beginRelease_work:
  assumes "co_acquisition s = None" "ls_release l \<noteq> None"
  shows "work (beginRelease reason restoreAllowed abortWrites l s) = lease_work l"
  using assms by (auto simp: beginRelease_def Let_def work_lease) (simp add: lease_work_def)

lemma release_continues_work:
  assumes "co_acquisition s = None" "co_active s = Some l" "ls_release l = Some (reason, pc)" "pc = RlOp \<or> ls_op l = None"
    "continues_release (ls_op l) pc ev"
  shows "work (lease_step ev s) < release_work (length (ls_suspensions l)) (ls_op l \<noteq> None) pc"
  using assms(5)
proof (cases rule: continues_release.cases)
  case (cr_settle q r)
  let ?n = "lo_number q"
  let ?res = "op_outcome (isActiveAndCurrent l s) (ls_aborted l \<or> lo_aborted q) (mr_bytes (ls_rx l)) (lo_kind q) r"
  have "?res \<noteq> None" using cr_settle by (cases "(lo_kind q, r)" rule: replies_to.cases) auto
  then obtain res where res: "?res = Some res" by blast
  let ?l = "finishLeaseOperation (if clears_input (lo_kind q) res then l\<lparr>ls_rx := mr_clearBuffered (ls_rx l)\<rparr> else l)"
  have "lease_step ev s = co_result ?n res (s\<lparr>co_active := Some ?l\<rparr>)"
    using cr_settle assms(2) res by (simp add: settle_operation_def)
  moreover have "lease_work ?l = length (ls_suspensions l) + 4"
    using assms(3) cr_settle by (simp add: finishLeaseOperation_def lease_work_def)
  ultimately show ?thesis using work_lease [OF assms(1), of ?l] cr_settle by simp
next
  case cr_op
  then show ?thesis using assms release_drain_work [OF assms(1), of reason l] by (simp add: release_op_settled_def)
next
  case (cr_drain r)
  have "work (release_stable d reason k s) < length (ls_suspensions l) + 3" if "ls_suspensions k = ls_suspensions l" for d k
    using release_stable_work [OF assms(1), of d reason k] that by simp
  then show ?thesis using cr_drain assms by (simp add: release_drained_def split: reply.split)
next
  case (cr_lines r)
  then show ?thesis using assms by (simp add: release_lines_def release_restore_work split: reply.split)
next
  case (cr_restore i rest k fs r)
  then show ?thesis using assms by (simp add: release_restored_def work_lease lease_work_def split: prod.split)
next
  case (cr_finish k fs)
  then show ?thesis using assms by (simp add: release_finished_def)
qed

section \<open>Acquisition\<close>

lemma fail_acquire_work: "co_active s = None \<Longrightarrow> work (fail_acquire error a s) \<le> length (aq_paused a) + 1"
proof -
  assume "co_active s = None"
  then have "work (finish_acquire error a s) = 0" by (simp add: finish_acquire_def Let_def work_def work_of_def co_result_def)
  then show ?thesis by (simp add: fail_acquire_def work_acquisition)
qed

lemma pause_next_work:
  assumes "co_active s = None"
  shows "work (pause_next todo nonce a s) \<le> 2 * length todo + length (aq_paused a) + 2"
proof (cases todo)
  case Nil
  obtain r s' where r: "issueToken nonce s = (r, s')" by (metis surj_pair)
  have "co_active s' = None" using issueToken_frame [OF r] assms by auto
  then have "work (activate nonce a s) \<le> length (aq_paused a) + 1" using r fail_acquire_work [of s']
    by (cases r) (simp_all add: activate_def Let_def, simp add: work_def work_of_def lease_work_def)
  then show ?thesis using Nil by (simp add: pause_next_def)
next
  case (Cons p rest)
  then show ?thesis by (cases p) (simp add: pause_next_def work_acquisition)
qed

lemma acquisition_continues_work:
  assumes "co_active s = None" "co_acquisition s = Some a" "acquisition_ok (co_manual s) d a"
    "continues_acquisition (aq_pc a) ev"
  shows "work (lease_step ev s) < acquire_work (length (co_automations s)) (co_manual s) (length (aq_paused a)) (aq_pc a)"
  using assms(4)
proof (cases rule: continues_acquisition.cases)
  case (ca_drain r)
  show ?thesis
  proof (cases r)
    case (Resolved u)
    then show ?thesis using ca_drain assms by (simp add: acquire_drained_def work_acquisition)
  next
    case (Rejected e)
    then have "lease_step ev s = fail_acquire e a s" using ca_drain assms by (simp add: acquire_drained_def)
    moreover have "work (fail_acquire e a s) \<le> length (aq_paused a) + 1" by (rule fail_acquire_work [OF assms(1)])
    ultimately show ?thesis using ca_drain by simp
  qed
next
  case ca_manual
  then have "co_manual s > 0" using assms(3) by (simp add: acquisition_ok_def)
  then obtain m where m: "co_manual s = Suc m" by (cases "co_manual s") auto
  have same: "s\<lparr>co_manual := m\<rparr> = s\<lparr>co_manual := m, co_acquisition := Some a\<rparr>" using assms(2) by simp
  show ?thesis
  proof (cases m)
    case 0
    then have "lease_step ev s = s\<lparr>co_manual := 0, co_acquisition := Some (drain_resolved a)\<rparr>"
      using ca_manual m assms(2) by (simp add: manual_end_def)
    then show ?thesis using ca_manual m by (simp add: work_acquisition drain_resolved_def)
  next
    case (Suc k)
    then have "lease_step ev s = s\<lparr>co_manual := m, co_acquisition := Some a\<rparr>"
      using ca_manual m same by (simp add: manual_end_def)
    then show ?thesis using ca_manual m by (simp add: work_acquisition)
  qed
next
  case (ca_resolved lines nonce)
  obtain e a1 where e: "assertAcquisitionGeneration (a\<lparr>aq_drained := True\<rparr>) (co_conn s) = (e, a1)" by (metis surj_pair)
  have p: "aq_paused a1 = aq_paused a" using assert_generation_ok [OF e] by simp
  have f: "work (fail_acquire x a1 s) \<le> 2 * length (co_automations s) + length (aq_paused a) + 2" for x
    using fail_acquire_work [OF assms(1), of x a1] unfolding p by linarith
  have n: "work (pause_next (co_automations s) nonce (a1\<lparr>aq_baseline := x\<rparr>) s) \<le> 2 * length (co_automations s) + length (aq_paused a) + 2" for x
    using pause_next_work [OF assms(1), of "co_automations s" nonce "a1\<lparr>aq_baseline := x\<rparr>"] p by simp
  have "lease_step ev s = (case e of Some x \<Rightarrow> fail_acquire (Some x) a1 s
      | None \<Rightarrow> (case snapshotOutputLines (co_io s) lines of Inl x \<Rightarrow> fail_acquire (Some x) a1 s
          | Inr baseline \<Rightarrow> pause_next (co_automations s) nonce (a1\<lparr>aq_baseline := baseline\<rparr>) s))"
    using ca_resolved assms(2) e by (simp add: acquire_manual_def split: option.split)
  then have "work (lease_step ev s) \<le> 2 * length (co_automations s) + length (aq_paused a) + 2"
    using f n by (simp only: split: option.split sum.split) blast
  then show ?thesis using ca_resolved by simp
next
  case (ca_rejected lines nonce)
  have "work (fail_acquire (Some LeCancelled) a s) \<le> 2 * length (co_automations s) + length (aq_paused a) + 2"
    using fail_acquire_work [OF assms(1), of "Some LeCancelled" a] by linarith
  then show ?thesis using ca_rejected assms by (simp add: acquire_manual_def less_Suc_eq_le)
next
  case (ca_pause todo r nonce)
  then obtain i port rest where todo: "todo = (i, port) # rest" using assms(3) by (cases todo) (auto simp: acquisition_ok_def)
  show ?thesis
  proof (cases r)
    case (Rejected e)
    then show ?thesis using ca_pause todo assms fail_acquire_work [OF assms(1), of e a] by (simp add: acquire_paused_def)
  next
    case (Resolved suspended)
    let ?a = "if suspended then a\<lparr>aq_paused := aq_paused a @ [i]\<rparr> else a"
    let ?s = "if suspended then co_record (Suspended (aq_number a) i) s else s"
    obtain e a1 where e: "assertAcquisitionGeneration ?a (co_conn ?s) = (e, a1)" by (metis surj_pair)
    have a1: "length (aq_paused a1) \<le> length (aq_paused a) + 1" using assert_generation_ok [OF e] by simp
    have none: "co_active ?s = None" using assms(1) by (simp add: co_record_def)
    have run: "acquire_paused r nonce s = (case e of Some err \<Rightarrow> fail_acquire (Some err) a1 ?s | None \<Rightarrow> pause_next rest nonce a1 ?s)"
      using ca_pause todo assms(2) Resolved e unfolding acquire_paused_def by (simp add: Let_def split: option.split)
    have "work (acquire_paused r nonce s) \<le> 2 * length rest + length (aq_paused a1) + 2"
      using run fail_acquire_work [OF none, of _ a1] pause_next_work [OF none, of rest nonce a1]
      by (cases e) (simp_all only: option.case, meson le_trans le_add2 add_le_mono order_refl one_le_numeral)
    then show ?thesis using ca_pause todo a1 by simp
  qed
next
  case (ca_restore i rest reason error r)
  then show ?thesis using assms by (simp add: acquire_restored_def work_acquisition)
next
  case (ca_finish reason error)
  then show ?thesis using assms by (simp add: acquire_finished_def finish_acquire_def Let_def work_def work_of_def co_result_def)
qed

lemma continues_work:
  assumes "co_ok s" "continues ev s"
  shows "work (lease_step ev s) < work s"
proof -
  have "lease_pending s" using assms co_ok_acquisition [OF assms(1)] co_ok_active [OF assms(1)]
    by (auto simp: continues_def lease_pending_def lease_held_def split: option.splits)
  with assms(1) show ?thesis
  proof (cases rule: pending_cases)
    case (acquiring a)
    then show ?thesis using assms(2) acquisition_continues_work [of s a "co_disposed s" ev] by (simp add: continues_def)
  next
    case (releasing l reason pc)
    then show ?thesis using assms(2) release_continues_work [of s l reason pc ev] by (simp add: continues_def)
  qed
qed

section \<open>Nothing else delays them\<close>

lemma begin_release_work:
  assumes "co_ok s" "lease_pending s" "co_active s = Some l" "ls_release l' = ls_release l" "ls_suspensions l' = ls_suspensions l" "ls_op l' = ls_op l"
    "co_acquisition t = None"
  shows "work (beginRelease reason restoreAllowed abortWrites l' t) = work s"
  using assms(1,2)
proof (cases rule: pending_cases)
  case (acquiring a)
  then show ?thesis using assms(3) by simp
next
  case (releasing k r pc)
  then show ?thesis using assms beginRelease_work [of t l' reason restoreAllowed abortWrites]
    by (simp add: lease_work_def)
qed

lemma pending_inactive:
  assumes "co_ok s" "lease_pending s"
  shows "co_phase s \<noteq> PhActive" "co_phase s \<noteq> PhIdle" "assertIdle s \<noteq> None" "co_active s \<noteq> None \<Longrightarrow> co_acquisition s = None"
    "assertIdle (s\<lparr>co_calls := n\<rparr>) \<noteq> None"
  using assms co_ok_active [OF assms(1)] by (auto simp: lease_pending_def assertIdle_def lease_held_def)

lemma require_pending:
  assumes "co_phase s \<noteq> PhActive"
  shows "\<exists>e. requireActiveLease token s = (Inl e, s)"
  using assms by (auto simp: requireActiveLease_def split: option.split)

lemma release_work_mono: "(x \<longrightarrow> y) \<Longrightarrow> release_work n x pc \<le> release_work n y pc"
  by (cases pc) auto

lemma operation_work:
  assumes "co_ok s" "lease_pending s"
  shows "work (begin_operation kind check token signalAborted s) = work s" "work (settle_operation n v s) \<le> work s"
    "work (abort_operation n s) = work s" "work (snd (offerRx gen input s)) = work s"
    "work (snd (lease_read token maxBytes timeoutMs signalAborted s)) = work s" "work (read_event e n i s) = work s"
proof -
  obtain err where e: "requireActiveLease token (s\<lparr>co_calls := co_calls s + 1\<rparr>) = (Inl err, s\<lparr>co_calls := co_calls s + 1\<rparr>)"
    using require_pending [of "s\<lparr>co_calls := co_calls s + 1\<rparr>" token] pending_inactive(1) [OF assms] by auto
  then show "work (begin_operation kind check token signalAborted s) = work s" by (simp add: begin_operation_def Let_def)
  obtain e' where "requireActiveLease token s = (Inl e', s)" using require_pending [of s token] pending_inactive(1) [OF assms] by auto
  then show "work (snd (lease_read token maxBytes timeoutMs signalAborted s)) = work s" by (simp add: lease_read_def)
  show "work (snd (offerRx gen input s)) = work s" using pending_inactive(1) [OF assms] by (simp add: offerRx_def split: option.split)
  have same: "work (s\<lparr>co_active := Some l'\<rparr>) \<le> work s \<and> ((ls_op l' = None) = (ls_op l = None) \<longrightarrow> work (s\<lparr>co_active := Some l'\<rparr>) = work s)"
    if l: "co_active s = Some l" "ls_release l' = ls_release l" "ls_suspensions l' = ls_suspensions l" "ls_op l = None \<longrightarrow> ls_op l' = None" for l l'
  proof -
    have none: "co_acquisition s = None" using pending_inactive(4) [OF assms] l(1) by simp
    have w: "work s = lease_work l" using l(1) none by (simp add: work_def work_of_def)
    show ?thesis unfolding work_lease [OF none] w using l
      by (auto simp: lease_work_def split: option.split prod.split intro!: release_work_mono)
  qed
  show "work (settle_operation n v s) \<le> work s"
  proof (cases "co_active s")
    case (Some l)
    have "work (s\<lparr>co_active := Some (finishLeaseOperation (if c then l\<lparr>ls_rx := m\<rparr> else l))\<rparr>) \<le> work s" for c m
      using same [OF Some, of "finishLeaseOperation (if c then l\<lparr>ls_rx := m\<rparr> else l)"] by (simp add: finishLeaseOperation_def)
    then show ?thesis using Some by (simp add: settle_operation_def split: option.split)
  qed (simp add: settle_operation_def)
  show "work (abort_operation n s) = work s"
  proof (cases "co_active s")
    case (Some l)
    then show ?thesis using same [OF Some, of "l\<lparr>ls_op := map_option (\<lambda>q. if lo_number q = n then q\<lparr>lo_aborted := True\<rparr> else q) (ls_op l)\<rparr>"]
      by (simp add: abort_operation_def)
  qed (simp add: abort_operation_def)
  show "work (read_event e n i s) = work s"
  proof (cases "co_active s")
    case (Some l)
    then show ?thesis using same [OF Some, of "l\<lparr>ls_rx := mr_reject i e (ls_rx l)\<rparr>"] by (simp add: read_event_def set_rx_def)
  qed (simp add: read_event_def)
qed

lemma abort_work:
  assumes "co_acquisition s = Some a" "t = s \<or> t = s\<lparr>co_disposed := d\<rparr>"
  shows "work (t\<lparr>co_acquisition := Some (abort_acquisition reason (a\<lparr>aq_restoreAllowed := b\<rparr>))\<rparr>) \<le> work s"
    "work (t\<lparr>co_acquisition := Some (abort_acquisition reason a)\<rparr>) \<le> work s"
  using assms by (auto simp: work_acquisition abort_acquisition_def) (simp_all add: work_def work_of_def)

lemma ending_work:
  assumes "co_ok s" "lease_pending s"
  shows "work (owner_abort n s) \<le> work s" "work (snd (lease_release token s)) \<le> work s" "work (snd (lease_cancel token s)) \<le> work s"
    "work (snd (notifyDisconnected gen s)) \<le> work s" "work (snd (synchronizeConnection s)) \<le> work s" "work (dispose s) \<le> work s"
proof -
  have b: "work (beginRelease reason x y l s) = work s" if "co_active s = Some l" for reason x y l
    using begin_release_work [OF assms that refl refl refl] pending_inactive(4) [OF assms] that by simp
  note a = abort_work [of s, OF _ disjI1 [OF refl]]
  show "work (owner_abort n s) \<le> work s" "work (snd (lease_release token s)) \<le> work s" "work (snd (lease_cancel token s)) \<le> work s"
    using a(2) b by (simp_all add: owner_abort_def lease_release_def lease_cancel_def requireLeaseForRelease_def split: option.split)
  show "work (snd (notifyDisconnected gen s)) \<le> work s"
    using a(1) b by (auto simp: notifyDisconnected_def split: option.split sum.split)
  have "co_phase s \<noteq> PhFaulted" using assms(2) by (auto simp: lease_pending_def)
  then show "work (snd (synchronizeConnection s)) \<le> work s"
    using a(1) b by (simp add: synchronizeConnection_def synchronize_lease_def split: option.split)
  let ?t = "s\<lparr>co_disposed := True\<rparr>"
  have "work (beginRelease RsDisposed True True l ?t) = work s" if "co_active s = Some l" for l
    using begin_release_work [OF assms that refl refl refl, of ?t] pending_inactive(4) [OF assms] that by simp
  moreover have "work (dispose_finish ?t) \<le> work s" if "co_active s = None" "co_acquisition s = None"
    using that by (simp add: dispose_finish_def work_def work_of_def)
  ultimately show "work (dispose s) \<le> work s"
    using abort_work(2) [of s _ ?t True] by (simp add: dispose_def Let_def dispose_lease_def split: option.split)
qed

lemma dispose_resume_work:
  assumes "co_ok s" "lease_pending s" "disposal_ok s"
  shows "work (dispose_resume s) \<le> work s"
  using assms(1,2)
proof (cases rule: pending_cases)
  case (acquiring a)
  then show ?thesis using assms(3) by (auto simp: dispose_resume_def disposal_ok_def split: dispose_pc.split)
next
  case (releasing l reason pc)
  have "work (beginRelease RsDisposed True True l s) = work s"
    by (rule begin_release_work [OF assms(1,2) releasing(2) refl refl refl releasing(1)])
  then show ?thesis using releasing by (simp add: dispose_resume_def dispose_lease_def split: dispose_pc.split)
qed

lemma refused_work:
  assumes "co_ok s" "lease_pending s"
  shows "work (snd (registerAutomation i port s)) = work s" "work (snd (unregisterAutomation i port s)) = work s"
    "work (snd (manual_start s)) = work s" "work (lease_acquire owner rxBufferBytes signalAborted s) = work s"
proof -
  obtain e where e: "assertIdle s = Some e" using pending_inactive(3) [OF assms] by blast
  obtain e' where e': "assertIdle (s\<lparr>co_calls := co_calls s + 1\<rparr>) = Some e'" using pending_inactive(5) [OF assms] by blast
  show "work (snd (registerAutomation i port s)) = work s" "work (snd (manual_start s)) = work s"
    using e by (simp_all add: registerAutomation_def manual_start_def)
  show "work (lease_acquire owner rxBufferBytes signalAborted s) = work s" using e' by (simp add: lease_acquire_def Let_def)
  show "work (snd (unregisterAutomation i port s)) = work s"
    using pending_inactive(2) [OF assms] by (simp add: unregisterAutomation_def)
qed

lemma not_continued:
  assumes "co_ok s" "\<not> continues ev s"
  shows "(\<exists>r. ev = EvAcqDrained r) \<or> (\<exists>x y. ev = EvAcqManual x y) \<or> (\<exists>x y. ev = EvAcqPaused x y) \<or> (\<exists>r. ev = EvAcqRestored r) \<or> ev = EvAcqFinished \<or>
     ev = EvRelOp \<or> (\<exists>r. ev = EvRelDrained r) \<or> (\<exists>r. ev = EvRelLines r) \<or> (\<exists>r. ev = EvRelRestored r) \<or> ev = EvRelFinished \<Longrightarrow>
     lease_step ev s = s"
  using assms co_ok_acquisition [OF assms(1)]
  by (auto simp: continues_acquisition.intros continues_release.intros continues_def acquire_drained_def acquire_manual_def acquire_paused_def acquire_restored_def acquire_finished_def
      release_op_settled_def release_drained_def release_lines_def release_restored_def release_finished_def
      split: option.splits acquire_pc.splits manual_wait.splits list.splits prod.splits release_pc.splits)

lemma manual_end_work:
  assumes "co_ok s" "lease_pending s" "co_manual s > 0"
  shows "work (manual_end s) \<le> work s"
  using assms(1,2)
proof (cases rule: pending_cases)
  case (acquiring a)
  show ?thesis
  proof (cases "continues EvManualEnd s")
    case True
    then show ?thesis using continues_work [OF assms(1) True] assms(3) by simp
  next
    case False
    then have "aq_pc a \<noteq> AqManual MwWaiting" using acquiring(1) by (auto simp: continues_def continues_acquisition.intros)
    then have d: "drain_resolved a = a" by (simp add: drain_resolved_def)
    then have "manual_end s = s\<lparr>co_manual := co_manual s - 1\<rparr>" using acquiring(1) by (simp add: manual_end_def Let_def)
    moreover have "acquire_work n (co_manual s - 1) k pc \<le> acquire_work n (co_manual s) k pc" for n k pc by (cases pc) auto
    ultimately show ?thesis using acquiring by (simp add: work_def work_of_def)
  qed
next
  case (releasing l reason pc)
  then show ?thesis using assms(3) by simp
qed

lemma lease_step_work:
  assumes "co_ok s" "disposal_ok s" "lease_pending s"
  shows "work (lease_step ev s) \<le> work s"
proof (cases "continues ev s")
  case True
  then show ?thesis using continues_work [OF assms(1)] by (simp add: less_imp_le)
next
  case False
  note same = not_continued [OF assms(1) False]
  note i = assms(1,3)
  show ?thesis using same dispose_resume_work [OF i assms(2)]
    by (cases ev) (simp_all add: operation_defs refused_work [OF i] operation_work [OF i] ending_work [OF i] manual_end_work [OF i])
qed

section \<open>Properties\<close>

lemma something_awaited:
  assumes "co_ok s" "lease_pending s"
  shows "\<exists>ev. continues ev s"
  using assms
proof (cases rule: pending_cases)
  case (acquiring a)
  have "\<exists>ev. continues_acquisition (aq_pc a) ev"
  proof (cases "aq_pc a")
    case (AqManual w)
    then show ?thesis by (cases w) (auto intro: continues_acquisition.intros)
  next
    case (AqRestore rest reason error)
    then show ?thesis by (cases rest) (auto intro: continues_acquisition.intros)
  qed (auto intro: continues_acquisition.intros)
  then show ?thesis using acquiring by (simp add: continues_def)
next
  case (releasing l reason pc)
  have reply: "\<exists>v. replies_to kind v" for kind by (cases kind) (meson replies_to.simps)+
  have "\<exists>ev. continues_release (ls_op l) pc ev"
  proof (cases pc)
    case RlOp
    then show ?thesis using reply continues_release.cr_settle continues_release.cr_op by (cases "ls_op l") fastforce+
  next
    case (RlRestore rest k fs)
    then show ?thesis by (cases rest) (auto intro: continues_release.intros)
  qed (auto intro: continues_release.intros)
  then show ?thesis using releasing by (simp add: continues_def)
qed

lemma reachable_lease: "lease_inv (run_events lease_step evs (new_coordinator limits io conn))"
  using leases.reachable_inv [OF _ reaches_runs_by] by blast

text \<open>An acquisition or a release is never stuck and ends: at every reachable state in one of those phases there is
  an answer or continuation it waits for; each of them, with whatever outcome, lowers the measure, and no
  other event raises it; the measure is zero outside these phases.\<close>

theorem acquisition_and_release_progress:
  assumes "s = run_events lease_step evs (new_coordinator limits io conn)"
  shows "(if lease_pending s then (\<exists>ev. continues ev s) \<and> work (lease_step ev s) \<le> work s else work s = 0) \<and>
    (if continues ev s then work (lease_step ev s) < work s else True)"
proof -
  have inv: "co_ok s" "disposal_ok s" using reachable_lease [of evs limits io conn] assms by (simp_all add: lease_inv_def)
  show ?thesis using something_awaited [OF inv(1)] lease_step_work [OF inv] continues_work [OF inv(1)] idle_work [OF inv(1)] by simp
qed

theorem acquisition_and_release_progress_witness:
  "lease_pending (run_events lease_step (take 6 example_events) (new_coordinator plain_limits full_io (Some (Num 3, True)))) \<and>
   (\<exists>ev. continues ev (run_events lease_step (take 6 example_events) (new_coordinator plain_limits full_io (Some (Num 3, True)))))"
proof -
  let ?s = "run_events lease_step (take 6 example_events) (new_coordinator plain_limits full_io (Some (Num 3, True)))"
  have "co_phase ?s = PhAcquiring" by code_simp
  then have "lease_pending ?s" by (simp add: lease_pending_def)
  then show ?thesis using acquisition_and_release_progress [OF refl, of "take 6 example_events" plain_limits full_io "Some (Num 3, True)"] by simp
qed

text \<open>A list of events of which each answers what is awaited when it comes.\<close>

fun answered_run :: "lease_event list \<Rightarrow> coordinator \<Rightarrow> bool" where
  "answered_run [] s = True"
| "answered_run (ev # evs) s = (continues ev s \<and> answered_run evs (lease_step ev s))"

lemma answered_bound: "lease_inv s \<Longrightarrow> answered_run evs s \<Longrightarrow> length evs + work (run_events lease_step evs s) \<le> work s"
proof (induction evs arbitrary: s)
  case (Cons ev evs)
  have "work (lease_step ev s) < work s" using Cons.prems continues_work [of s ev] by (simp add: lease_inv_def)
  moreover have "length evs + work (run_events lease_step evs (lease_step ev s)) \<le> work (lease_step ev s)"
    using Cons.IH [OF lease_inv_step [OF Cons.prems(1)]] Cons.prems(2) by simp
  ultimately show ?case by simp
qed simp

lemma can_settle: "lease_inv s \<Longrightarrow> \<exists>evs. answered_run evs s \<and> \<not> lease_pending (run_events lease_step evs s)"
proof (induction "work s" arbitrary: s rule: less_induct)
  case less
  show ?case
  proof (cases "lease_pending s")
    case False
    then have "answered_run [] s \<and> \<not> lease_pending (run_events lease_step [] s)" by simp
    then show ?thesis by blast
  next
    case True
    then obtain ev where ev: "continues ev s" using something_awaited less.prems by (auto simp: lease_inv_def)
    then have "work (lease_step ev s) < work s" using continues_work less.prems by (simp add: lease_inv_def)
    then obtain evs where "answered_run evs (lease_step ev s)" "\<not> lease_pending (run_events lease_step evs (lease_step ev s))"
      using less.hyps lease_inv_step [OF less.prems] by blast
    then have "answered_run (ev # evs) s \<and> \<not> lease_pending (run_events lease_step (ev # evs) s)" using ev by simp
    then show ?thesis by blast
  qed
qed

text \<open>C14. Whatever the answers are, an acquisition or release takes no more than \<open>work s\<close> of them: any run of answers is
  that short, an answered run that cannot go on has left the acquiring and releasing phases, and there is one.\<close>

theorem acquisition_and_release_terminate:
  assumes "s = run_events lease_step evs (new_coordinator limits io conn)"
  shows "(\<exists>answers. answered_run answers s \<and> length answers \<le> work s \<and>
           co_phase (run_events lease_step answers s) \<notin> {PhAcquiring, PhReleasing}) \<and>
         (if answered_run more_events s then length more_events \<le> work s \<and>
             ((\<nexists>ev. continues ev (run_events lease_step more_events s)) \<longrightarrow>
              co_phase (run_events lease_step more_events s) \<notin> {PhAcquiring, PhReleasing}) else True)"
proof -
  have inv: "lease_inv s" using reachable_lease assms by simp
  obtain answers where a: "answered_run answers s" "\<not> lease_pending (run_events lease_step answers s)" using can_settle [OF inv] by blast
  have "lease_inv (run_events lease_step more_events s)"
    using reachable_lease [of "evs @ more_events" limits io conn] by (simp add: assms run_events_append)
  then have "lease_pending (run_events lease_step more_events s) \<Longrightarrow> \<exists>ev. continues ev (run_events lease_step more_events s)"
    using something_awaited by (simp add: lease_inv_def)
  then show ?thesis using a answered_bound [OF inv a(1)] answered_bound [OF inv, of more_events] unfolding lease_pending_def by auto
qed

theorem acquisition_and_release_terminate_witness:
  "co_phase example_lease = PhActive \<and>
   (\<exists>answers. answered_run answers (lease_step (EvRelease ''nonce.1'') example_lease) \<and>
      co_phase (run_events lease_step answers (lease_step (EvRelease ''nonce.1'') example_lease)) \<notin> {PhAcquiring, PhReleasing})"
proof -
  have "lease_step (EvRelease ''nonce.1'') example_lease =
      run_events lease_step (example_events @ [EvRelease ''nonce.1'']) (new_coordinator plain_limits full_io (Some (Num 3, True)))"
    by (simp add: run_events_append example_lease_def del: lease_step.simps)
  moreover have "co_phase example_lease = PhActive" by code_simp
  ultimately show ?thesis
    using acquisition_and_release_terminate [of _ "example_events @ [EvRelease ''nonce.1'']" plain_limits full_io "Some (Num 3, True)"] by blast
qed

end
