(* ===== verification/MergedRope.thy ===== *)
theory MergedRope
  imports Machine
begin

text \<open>
  The index of merged terminal rows, \<open>MergedFrameRopeIndex\<close> in \<open>src/lib/merged-frame-rope.ts\<close>: frames of the
  same direction in a row are shown as one row, whose bytes are never concatenated; a row shows the last
  64 KiB, materialized on demand and kept in a small cache.

  A run is an object; runs are numbered in the order of their creation and kept in a store, so that the
  caches and the display frames refer to them by number.  The display frame of a run is named by the
  run's number too, its getters being the functions below.  A source frame's bytes are assumed not to be
  changed after it was appended.
\<close>

section \<open>State\<close>

datatype direction = DirRx | DirTx

record source_frame =
  sf_id :: string
  sf_direction :: direction
  sf_timestamp :: nat
  sf_data :: bytes

record rope_run =
  mu_id :: string
  mu_direction :: direction
  mu_timestamp :: nat
  mu_chunks :: "bytes list"
  mu_totalBytes :: nat
  mu_version :: nat
  mu_detached :: bool

record rope_index =
  mg_store :: "rope_run list"
  mg_runs :: "nat list"
  mg_tails :: "(nat \<times> nat \<times> bytes) list"
  mg_lineCounts :: "nat \<Rightarrow> (nat \<times> nat) option"

definition MAX_MERGED_VISIBLE_BYTES :: nat where
  "MAX_MERGED_VISIBLE_BYTES = 64 * 1024"

definition TAIL_CACHE_CAPACITY :: nat where
  "TAIL_CACHE_CAPACITY = 8"

definition new_rope :: rope_index where
  "new_rope = \<lparr>mg_store = [], mg_runs = [], mg_tails = [], mg_lineCounts = (\<lambda>r. None)\<rparr>"

text \<open>\<open>runByFrame\<close> holds a display frame exactly as long as its run is attached.\<close>

definition run_of :: "nat \<Rightarrow> rope_index \<Rightarrow> rope_run option" where
  "run_of i m = (if i < length (mg_store m) \<and> \<not> mu_detached (mg_store m ! i) then Some (mg_store m ! i) else None)"

section \<open>Operations\<close>

definition detach_run :: "rope_run \<Rightarrow> rope_run" where
  "detach_run r = r\<lparr>mu_detached := True, mu_chunks := [], mu_totalBytes := 0\<rparr>"

definition rope_clear :: "rope_index \<Rightarrow> rope_index" where
  "rope_clear m = m\<lparr>mg_store := map (\<lambda>(i, r). if i \<in> set (mg_runs m) then detach_run r else r) (enumerate 0 (mg_store m)),
     mg_runs := [], mg_tails := []\<rparr>"

text \<open>The first cache entry of run \<open>i\<close> and the cache without it (\<open>findIndex\<close> and \<open>splice\<close>).\<close>

fun cut_entry :: "nat \<Rightarrow> (nat \<times> nat \<times> bytes) list \<Rightarrow> (nat \<times> bytes) option \<times> (nat \<times> nat \<times> bytes) list" where
  "cut_entry i [] = (None, [])"
| "cut_entry i ((j, v, t) # tails) =
     (if j = i then (Some (v, t), tails) else (fst (cut_entry i tails), (j, v, t) # snd (cut_entry i tails)))"

definition dropTailCacheEntry :: "nat \<Rightarrow> (nat \<times> nat \<times> bytes) list \<Rightarrow> (nat \<times> nat \<times> bytes) list" where
  "dropTailCacheEntry i tails = snd (cut_entry i tails)"

definition extend_run :: "source_frame \<Rightarrow> rope_run \<Rightarrow> rope_run" where
  "extend_run f r = r\<lparr>mu_chunks := mu_chunks r @ [sf_data f], mu_totalBytes := mu_totalBytes r + length (sf_data f),
     mu_version := mu_version r + 1\<rparr>"

definition new_run :: "source_frame \<Rightarrow> rope_run" where
  "new_run f = \<lparr>mu_id = ''merged-'' @ sf_id f, mu_direction = sf_direction f, mu_timestamp = sf_timestamp f,
     mu_chunks = [sf_data f], mu_totalBytes = length (sf_data f), mu_version = 1, mu_detached = False\<rparr>"

definition rope_append :: "source_frame \<Rightarrow> rope_index \<Rightarrow> rope_index" where
  "rope_append f m =
     (if mg_runs m \<noteq> [] \<and> \<not> mu_detached (mg_store m ! last (mg_runs m)) \<and>
         mu_direction (mg_store m ! last (mg_runs m)) = sf_direction f
      then let i = last (mg_runs m)
           in m\<lparr>mg_store := (mg_store m)[i := extend_run f (mg_store m ! i)],
                mg_tails := (if mg_tails m \<noteq> [] then dropTailCacheEntry i (mg_tails m) else mg_tails m)\<rparr>
      else m\<lparr>mg_store := mg_store m @ [new_run f], mg_runs := mg_runs m @ [length (mg_store m)]\<rparr>)"

definition rope_appendRange :: "source_frame option list \<Rightarrow> nat \<Rightarrow> rope_index \<Rightarrow> rope_index" where
  "rope_appendRange source start m =
     fold (\<lambda>f m. case f of None \<Rightarrow> m | Some f \<Rightarrow> rope_append f m) (drop start source) m"

definition rope_rebuild :: "source_frame option list \<Rightarrow> rope_index \<Rightarrow> rope_index" where
  "rope_rebuild source m = rope_appendRange source 0 (rope_clear m)"

section \<open>Reading\<close>

text \<open>The copying loop of \<open>tailFor\<close>, over the chunks from the last one.\<close>

fun tail_loop :: "nat \<Rightarrow> bytes list \<Rightarrow> bytes" where
  "tail_loop n [] = replicate n 0"
| "tail_loop n (c # cs) =
     (if n = 0 then [] else let k = min n (length c) in tail_loop (n - k) cs @ drop (length c - k) c)"

definition freshTailEntry :: "nat \<Rightarrow> nat \<Rightarrow> (nat \<times> nat \<times> bytes) list \<Rightarrow> bytes option \<times> (nat \<times> nat \<times> bytes) list" where
  "freshTailEntry i version tails =
     (case cut_entry i tails of
        (None, others) \<Rightarrow> (None, others)
      | (Some (v, t), others) \<Rightarrow> if v \<noteq> version then (None, others) else (Some t, (i, v, t) # others))"

definition rememberTail :: "nat \<Rightarrow> nat \<Rightarrow> bytes \<Rightarrow> (nat \<times> nat \<times> bytes) list \<Rightarrow> (nat \<times> nat \<times> bytes) list" where
  "rememberTail i version tail tails =
     (let tails = (i, version, tail) # tails
      in if length tails > TAIL_CACHE_CAPACITY then take TAIL_CACHE_CAPACITY tails else tails)"

text \<open>The getter \<open>data\<close> of a display frame.\<close>

definition tailFor :: "nat \<Rightarrow> rope_index \<Rightarrow> bytes \<times> rope_index" where
  "tailFor i m =
     (let r = mg_store m ! i in
      if mu_detached r \<or> mu_totalBytes r = 0 then ([], m)
      else
        (case freshTailEntry i (mu_version r) (mg_tails m) of
           (Some t, tails) \<Rightarrow> (t, m\<lparr>mg_tails := tails\<rparr>)
         | (None, tails) \<Rightarrow>
             let t = tail_loop (min (mu_totalBytes r) MAX_MERGED_VISIBLE_BYTES) (rev (mu_chunks r))
             in (t, m\<lparr>mg_tails := rememberTail i (mu_version r) t tails\<rparr>)))"

definition omittedBytes :: "nat \<Rightarrow> rope_index \<Rightarrow> nat" where
  "omittedBytes i m = mu_totalBytes (mg_store m ! i) - MAX_MERGED_VISIBLE_BYTES"

text \<open>The hook of a display frame; \<open>computed\<close> is what the caller's function would return.\<close>

definition lineCountFor :: "nat \<Rightarrow> nat \<Rightarrow> rope_index \<Rightarrow> nat \<times> rope_index" where
  "lineCountFor i computed m =
     (case mg_lineCounts m i of
        Some (v, count) \<Rightarrow>
          if v = mu_version (mg_store m ! i) then (count, m)
          else (computed, m\<lparr>mg_lineCounts := (mg_lineCounts m)(i \<mapsto> (mu_version (mg_store m ! i), computed))\<rparr>)
      | None \<Rightarrow> (computed, m\<lparr>mg_lineCounts := (mg_lineCounts m)(i \<mapsto> (mu_version (mg_store m ! i), computed))\<rparr>))"

definition runDisplayLineCount :: "nat \<Rightarrow> nat \<Rightarrow> rope_index \<Rightarrow> nat \<times> rope_index" where
  "runDisplayLineCount i computed m = (case run_of i m of None \<Rightarrow> (computed, m) | Some r \<Rightarrow> lineCountFor i computed m)"

text \<open>The whole payload, for copy and export: \<open>None\<close> when the frame given is returned as it is.\<close>

definition materialize :: "nat \<Rightarrow> rope_index \<Rightarrow> source_frame option" where
  "materialize i m =
     map_option (\<lambda>r. \<lparr>sf_id = mu_id r, sf_direction = mu_direction r, sf_timestamp = mu_timestamp r, sf_data = concat (mu_chunks r)\<rparr>)
       (run_of i m)"

definition chunksFor :: "nat \<Rightarrow> rope_index \<Rightarrow> bytes list option" where
  "chunksFor i m = map_option mu_chunks (run_of i m)"

definition rope_frames :: "rope_index \<Rightarrow> rope_run list" where
  "rope_frames m = map (\<lambda>i. mg_store m ! i) (mg_runs m)"

text \<open>What a row stands for, and the last 64 KiB of it.\<close>

definition run_frame :: "rope_run \<Rightarrow> source_frame" where
  "run_frame r = \<lparr>sf_id = mu_id r, sf_direction = mu_direction r, sf_timestamp = mu_timestamp r, sf_data = concat (mu_chunks r)\<rparr>"

definition run_tail :: "rope_run \<Rightarrow> bytes" where
  "run_tail r = drop (length (concat (mu_chunks r)) - MAX_MERGED_VISIBLE_BYTES) (concat (mu_chunks r))"

section \<open>Events\<close>

text \<open>\<open>lines\<close> is the row measure of the view, a function of the bytes it sees.\<close>

datatype rope_event =
    MgClear
  | MgAppend source_frame
  | MgAppendRange "source_frame option list" nat
  | MgRebuild "source_frame option list"
  | MgData nat
  | MgLineCount nat

fun rope_step :: "(bytes \<Rightarrow> nat) \<Rightarrow> rope_event \<Rightarrow> rope_index \<Rightarrow> rope_index" where
  "rope_step lines MgClear m = rope_clear m"
| "rope_step lines (MgAppend f) m = rope_append f m"
| "rope_step lines (MgAppendRange source start) m = rope_appendRange source start m"
| "rope_step lines (MgRebuild source) m = rope_rebuild source m"
| "rope_step lines (MgData i) m = (if i \<in> set (mg_runs m) then snd (tailFor i m) else m)"
| "rope_step lines (MgLineCount i) m =
     (if i \<in> set (mg_runs m) then snd (runDisplayLineCount i (lines (run_tail (mg_store m ! i))) m) else m)"

section \<open>The reference\<close>

text \<open>Merging adjacent frames of one direction, by plain concatenation.\<close>

fun add_frame :: "source_frame \<Rightarrow> source_frame list \<Rightarrow> source_frame list" where
  "add_frame f [] = [f\<lparr>sf_id := ''merged-'' @ sf_id f\<rparr>]"
| "add_frame f [g] =
     (if sf_direction g = sf_direction f then [g\<lparr>sf_data := sf_data g @ sf_data f\<rparr>] else [g, f\<lparr>sf_id := ''merged-'' @ sf_id f\<rparr>])"
| "add_frame f (g # h # gs) = g # add_frame f (h # gs)"

definition merge_frames :: "source_frame list \<Rightarrow> source_frame list" where
  "merge_frames fs = fold add_frame fs []"

fun present :: "source_frame option list \<Rightarrow> source_frame list" where
  "present [] = []"
| "present (None # fs) = present fs"
| "present (Some f # fs) = f # present fs"

text \<open>The source frames that are shown after an event.\<close>

fun shown_step :: "rope_event \<Rightarrow> source_frame list \<Rightarrow> source_frame list" where
  "shown_step MgClear fs = []"
| "shown_step (MgAppend f) fs = fs @ [f]"
| "shown_step (MgAppendRange source start) fs = fs @ present (drop start source)"
| "shown_step (MgRebuild source) fs = present source"
| "shown_step (MgData i) fs = fs"
| "shown_step (MgLineCount i) fs = fs"

section \<open>Invariant\<close>

lemma tail_loop_drop: "n \<le> length (concat (rev cs)) \<Longrightarrow> tail_loop n cs = drop (length (concat (rev cs)) - n) (concat (rev cs))"
proof (induction cs arbitrary: n)
  case (Cons c cs)
  show ?case
  proof (cases "n \<le> length c")
    case True
    have "tail_loop 0 cs = []" by (cases cs) simp_all
    then show ?thesis using True by (auto simp: min_def)
  next
    case False
    then show ?thesis using Cons.IH [of "n - length c"] Cons.prems by (simp add: min_def)
  qed
qed simp

lemma run_tail_loop:
  "mu_totalBytes r = length (concat (mu_chunks r)) \<Longrightarrow> tail_loop (min (mu_totalBytes r) MAX_MERGED_VISIBLE_BYTES) (rev (mu_chunks r)) = run_tail r"
  using tail_loop_drop [of "min (mu_totalBytes r) MAX_MERGED_VISIBLE_BYTES" "rev (mu_chunks r)"]
  by (simp add: run_tail_def min_def)

text \<open>The tail cache by itself: \<open>current\<close> gives the version and tail of the attached runs.\<close>

definition tails_ok :: "(nat \<Rightarrow> (nat \<times> bytes) option) \<Rightarrow> (nat \<times> nat \<times> bytes) list \<Rightarrow> bool" where
  "tails_ok current tails \<longleftrightarrow> (\<forall>(i, v, t) \<in> set tails. current i = Some (v, t)) \<and> distinct (map fst tails)"

lemma cut_entry_subset: "set (snd (cut_entry i tails)) \<subseteq> set tails"
  by (induction i tails rule: cut_entry.induct) auto

lemma cut_entry_ok:
  assumes "tails_ok current tails"
  shows "tails_ok current (snd (cut_entry i tails)) \<and> i \<notin> fst ` set (snd (cut_entry i tails)) \<and>
    length (snd (cut_entry i tails)) \<le> length tails \<and>
    (fst (cut_entry i tails) \<noteq> None \<longrightarrow> length tails = Suc (length (snd (cut_entry i tails))) \<and> fst (cut_entry i tails) = current i)"
  using assms
proof (induction i tails rule: cut_entry.induct)
  case (2 i j v t tails)
  have "j \<notin> fst ` set (snd (cut_entry i tails))" using "2.prems" cut_entry_subset [of i tails] by (auto simp: tails_ok_def)
  show ?case
  proof (cases "j = i")
    case True
    then show ?thesis using "2.prems" by (simp add: tails_ok_def)
  next
    case False
    have "tails_ok current tails" "current j = Some (v, t)" using "2.prems" by (simp_all add: tails_ok_def)
    then show ?thesis using "2.IH"(1) [OF False] False \<open>j \<notin> fst ` _\<close> by (auto simp: tails_ok_def simp del: split_paired_All)
  qed
qed (simp add: tails_ok_def)

lemma tails_ok_change: "tails_ok current tails \<Longrightarrow> (\<And>j. j \<in> fst ` set tails \<Longrightarrow> current' j = current j) \<Longrightarrow> tails_ok current' tails"
  by (force simp: tails_ok_def)

definition current_tail :: "rope_index \<Rightarrow> nat \<Rightarrow> (nat \<times> bytes) option" where
  "current_tail m i = (if i \<in> set (mg_runs m) then Some (mu_version (mg_store m ! i), run_tail (mg_store m ! i)) else None)"

definition rope_ok :: "(bytes \<Rightarrow> nat) \<Rightarrow> rope_index \<Rightarrow> bool" where
  "rope_ok lines m \<longleftrightarrow>
     distinct (mg_runs m) \<and> (\<forall>i. i \<in> set (mg_runs m) \<longleftrightarrow> i < length (mg_store m) \<and> \<not> mu_detached (mg_store m ! i)) \<and>
     (\<forall>i. i \<in> set (mg_runs m) \<longrightarrow> mu_totalBytes (mg_store m ! i) = length (concat (mu_chunks (mg_store m ! i)))) \<and>
     tails_ok (current_tail m) (mg_tails m) \<and> length (mg_tails m) \<le> TAIL_CACHE_CAPACITY \<and>
     (\<forall>i v n. i \<in> set (mg_runs m) \<longrightarrow> mg_lineCounts m i = Some (v, n) \<longrightarrow>
        v < mu_version (mg_store m ! i) \<or> v = mu_version (mg_store m ! i) \<and> n = lines (run_tail (mg_store m ! i))) \<and>
     (\<forall>i. length (mg_store m) \<le> i \<longrightarrow> mg_lineCounts m i = None)"

lemma rope_okD:
  assumes "rope_ok lines m"
  shows "distinct (mg_runs m)" "i \<in> set (mg_runs m) \<longleftrightarrow> i < length (mg_store m) \<and> \<not> mu_detached (mg_store m ! i)"
    "i \<in> set (mg_runs m) \<Longrightarrow> mu_totalBytes (mg_store m ! i) = length (concat (mu_chunks (mg_store m ! i)))"
    "tails_ok (current_tail m) (mg_tails m)" "length (mg_tails m) \<le> TAIL_CACHE_CAPACITY"
    "i \<in> set (mg_runs m) \<Longrightarrow> mg_lineCounts m i = Some (v, n) \<Longrightarrow>
       v < mu_version (mg_store m ! i) \<or> v = mu_version (mg_store m ! i) \<and> n = lines (run_tail (mg_store m ! i))"
    "length (mg_store m) \<le> i \<Longrightarrow> mg_lineCounts m i = None"
  using assms unfolding rope_ok_def by blast+

section \<open>Every operation\<close>

lemma clear_ok:
  assumes "rope_ok lines m"
  shows "rope_ok lines (rope_clear m)" "rope_frames (rope_clear m) = []"
proof -
  have "mu_detached (mg_store (rope_clear m) ! i)" if "i < length (mg_store m)" for i
    using that rope_okD(2) [OF assms, of i] by (auto simp: rope_clear_def nth_enumerate_eq detach_run_def)
  moreover have "length (mg_store (rope_clear m)) = length (mg_store m)" by (simp add: rope_clear_def)
  ultimately show "rope_ok lines (rope_clear m)" unfolding rope_ok_def using rope_okD(7) [OF assms]
    by (auto simp: rope_clear_def tails_ok_def)
  show "rope_frames (rope_clear m) = []" by (simp add: rope_frames_def rope_clear_def)
qed

lemma append_ok:
  assumes "rope_ok lines m"
  shows "rope_ok lines (rope_append f m)"
proof (cases "mg_runs m \<noteq> [] \<and> \<not> mu_detached (mg_store m ! last (mg_runs m)) \<and> mu_direction (mg_store m ! last (mg_runs m)) = sf_direction f")
  case True
  let ?i = "last (mg_runs m)"
  let ?m = "m\<lparr>mg_store := (mg_store m)[?i := extend_run f (mg_store m ! ?i)], mg_tails := snd (cut_entry ?i (mg_tails m))\<rparr>"
  have m: "rope_append f m = ?m" using True by (simp add: rope_append_def Let_def dropTailCacheEntry_def)
  have i: "?i \<in> set (mg_runs m)" "?i < length (mg_store m)" using True rope_okD(2) [OF assms, of ?i] by simp_all
  note c = cut_entry_ok [OF rope_okD(4) [OF assms], of ?i]
  have "tails_ok (current_tail ?m) (snd (cut_entry ?i (mg_tails m)))"
  proof (rule tails_ok_change)
    show "tails_ok (current_tail m) (snd (cut_entry ?i (mg_tails m)))" using c by simp
    fix j assume "j \<in> fst ` set (snd (cut_entry ?i (mg_tails m)))"
    then have "j \<noteq> ?i" using c by metis
    then show "current_tail ?m j = current_tail m j" by (simp add: current_tail_def)
  qed
  moreover have "length (snd (cut_entry ?i (mg_tails m))) \<le> TAIL_CACHE_CAPACITY"
    using c rope_okD(5) [OF assms] by simp
  moreover have "v < mu_version (mg_store ?m ! j) \<or> v = mu_version (mg_store ?m ! j) \<and> n = lines (run_tail (mg_store ?m ! j))"
    if "j \<in> set (mg_runs m)" "mg_lineCounts m j = Some (v, n)" for j v n
    using rope_okD(6) [OF assms that] rope_okD(2) [OF assms, of j] that i by (auto simp: extend_run_def nth_list_update)
  moreover have "mu_totalBytes (mg_store ?m ! j) = length (concat (mu_chunks (mg_store ?m ! j)))" if "j \<in> set (mg_runs m)" for j
    using rope_okD(3) [OF assms that] rope_okD(2) [OF assms, of j] that i by (auto simp: extend_run_def nth_list_update)
  moreover have "j \<in> set (mg_runs m) \<longleftrightarrow> j < length (mg_store m) \<and> \<not> mu_detached (mg_store ?m ! j)" for j
    using rope_okD(2) [OF assms, of j] rope_okD(2) [OF assms, of ?i] i by (auto simp: extend_run_def nth_list_update)
  ultimately show ?thesis using rope_okD(1,7) [OF assms] unfolding m rope_ok_def by simp
next
  case False
  let ?n = "length (mg_store m)"
  let ?m = "m\<lparr>mg_store := mg_store m @ [new_run f], mg_runs := mg_runs m @ [?n]\<rparr>"
  have m: "rope_append f m = ?m" using False unfolding rope_append_def by (rule if_not_P)
  have fresh: "?n \<notin> set (mg_runs m)" using rope_okD(2) [OF assms, of ?n] by simp
  have old: "j \<in> set (mg_runs m) \<Longrightarrow> mg_store ?m ! j = mg_store m ! j" for j
    using rope_okD(2) [OF assms, of j] by (simp add: nth_append)
  have "tails_ok (current_tail ?m) (mg_tails m)"
  proof (rule tails_ok_change [OF rope_okD(4) [OF assms]])
    fix j assume "j \<in> fst ` set (mg_tails m)"
    then have "j \<in> set (mg_runs m)" using rope_okD(4) [OF assms] by (force simp: tails_ok_def current_tail_def split: if_splits)
    then show "current_tail ?m j = current_tail m j" using old by (simp add: current_tail_def)
  qed
  moreover have "v < mu_version (mg_store ?m ! j) \<or> v = mu_version (mg_store ?m ! j) \<and> n = lines (run_tail (mg_store ?m ! j))"
    if "j \<in> set (mg_runs ?m)" "mg_lineCounts m j = Some (v, n)" for j v n
    using that rope_okD(6) [OF assms, of j v n] rope_okD(7) [OF assms, of j] old by auto
  moreover have "mu_totalBytes (mg_store ?m ! j) = length (concat (mu_chunks (mg_store ?m ! j)))" if "j \<in> set (mg_runs ?m)" for j
    using that rope_okD(3) [OF assms, of j] old by (auto simp: new_run_def)
  moreover have "j \<in> set (mg_runs ?m) \<longleftrightarrow> j < length (mg_store ?m) \<and> \<not> mu_detached (mg_store ?m ! j)" for j
    using rope_okD(2) [OF assms, of j] by (auto simp: nth_append new_run_def less_Suc_eq)
  ultimately show ?thesis using rope_okD(1,5,7) [OF assms] fresh unfolding m rope_ok_def by simp
qed

lemma tailFor_ok:
  assumes "rope_ok lines m" "i \<in> set (mg_runs m)"
  shows "fst (tailFor i m) = run_tail (mg_store m ! i)" "rope_ok lines (snd (tailFor i m))" "rope_frames (snd (tailFor i m)) = rope_frames m"
proof -
  let ?r = "mg_store m ! i"
  have att: "\<not> mu_detached ?r" "mu_totalBytes ?r = length (concat (mu_chunks ?r))" using rope_okD(2,3) [OF assms(1), of i] assms(2) by simp_all
  note c = cut_entry_ok [OF rope_okD(4) [OF assms(1)], of i]
  have cur: "current_tail m i = Some (mu_version ?r, run_tail ?r)" using assms(2) by (simp add: current_tail_def)
  have same: "rope_ok lines (m\<lparr>mg_tails := tails\<rparr>)" if "tails_ok (current_tail m) tails" "length tails \<le> TAIL_CACHE_CAPACITY" for tails
  proof -
    have "current_tail (m\<lparr>mg_tails := tails\<rparr>) = current_tail m" by (simp add: current_tail_def fun_eq_iff)
    then show ?thesis using assms(1) that unfolding rope_ok_def by simp
  qed
  have cons: "tails_ok (current_tail m) ((i, mu_version ?r, run_tail ?r) # snd (cut_entry i (mg_tails m)))"
    using c cur by (auto simp: tails_ok_def)
  consider "mu_totalBytes ?r = 0" | v t where "mu_totalBytes ?r \<noteq> 0" "fst (cut_entry i (mg_tails m)) = Some (v, t)"
    | "mu_totalBytes ?r \<noteq> 0" "fst (cut_entry i (mg_tails m)) = None" by fastforce
  then have "fst (tailFor i m) = run_tail ?r \<and> (\<exists>tails. snd (tailFor i m) = m\<lparr>mg_tails := tails\<rparr> \<and>
      tails_ok (current_tail m) tails \<and> length tails \<le> TAIL_CACHE_CAPACITY)"
  proof cases
    case 1
    then have "m = m\<lparr>mg_tails := mg_tails m\<rparr>" "concat (mu_chunks ?r) = []" using att by auto
    then have t: "run_tail ?r = []" and "m = m\<lparr>mg_tails := mg_tails m\<rparr>" by (simp_all only: run_tail_def drop_Nil)
    moreover have "tailFor i m = ([], m)" using 1 by (simp add: tailFor_def)
    ultimately show ?thesis using rope_okD(4,5) [OF assms(1)] by (intro conjI exI [of _ "mg_tails m"]) simp_all
  next
    case (2 v t)
    then have vt: "v = mu_version ?r" "t = run_tail ?r" using c cur by auto
    then have "tailFor i m = (t, m\<lparr>mg_tails := (i, v, t) # snd (cut_entry i (mg_tails m))\<rparr>)"
      using att(1) 2 by (cases "cut_entry i (mg_tails m)") (simp add: tailFor_def Let_def freshTailEntry_def)
    then show ?thesis using cons vt 2 c rope_okD(5) [OF assms(1)] by auto
  next
    case 3
    then have "tailFor i m = (run_tail ?r, m\<lparr>mg_tails := rememberTail i (mu_version ?r) (run_tail ?r) (snd (cut_entry i (mg_tails m)))\<rparr>)"
      using att(1) run_tail_loop [OF att(2)] by (cases "cut_entry i (mg_tails m)") (simp add: tailFor_def Let_def freshTailEntry_def)
    moreover have "tails_ok (current_tail m) (take k ((i, mu_version ?r, run_tail ?r) # snd (cut_entry i (mg_tails m))))" for k
      using cons set_take_subset [of k] unfolding tails_ok_def by (metis (no_types, lifting) distinct_take subsetD take_map)
    moreover have "tails_ok (current_tail m) (rememberTail i (mu_version ?r) (run_tail ?r) (snd (cut_entry i (mg_tails m))))"
      using cons calculation(2) by (simp add: rememberTail_def Let_def)
    moreover have "length (rememberTail i (mu_version ?r) (run_tail ?r) (snd (cut_entry i (mg_tails m)))) \<le> TAIL_CACHE_CAPACITY"
      by (simp add: rememberTail_def Let_def)
    ultimately show ?thesis by (metis fst_conv snd_conv)
  qed
  then show "fst (tailFor i m) = run_tail ?r" "rope_ok lines (snd (tailFor i m))" "rope_frames (snd (tailFor i m)) = rope_frames m"
    using same by (auto simp: rope_frames_def)
qed

lemma lineCount_ok:
  assumes "rope_ok lines m" "i \<in> set (mg_runs m)"
  shows "fst (runDisplayLineCount i (lines (run_tail (mg_store m ! i))) m) = lines (run_tail (mg_store m ! i))"
    "rope_ok lines (snd (runDisplayLineCount i (lines (run_tail (mg_store m ! i))) m))"
    "rope_frames (snd (runDisplayLineCount i (lines (run_tail (mg_store m ! i))) m)) = rope_frames m"
proof -
  let ?r = "mg_store m ! i" and ?n = "lines (run_tail (mg_store m ! i))"
  let ?set = "m\<lparr>mg_lineCounts := (mg_lineCounts m)(i \<mapsto> (mu_version ?r, ?n))\<rparr>"
  have run: "run_of i m = Some ?r" "i < length (mg_store m)" using rope_okD(2) [OF assms(1), of i] assms(2) by (simp_all add: run_of_def)
  have "current_tail ?set = current_tail m" by (simp add: current_tail_def fun_eq_iff)
  moreover have "v < mu_version (mg_store ?set ! j) \<or> v = mu_version (mg_store ?set ! j) \<and> n = lines (run_tail (mg_store ?set ! j))"
    if "j \<in> set (mg_runs m)" "mg_lineCounts ?set j = Some (v, n)" for j v n
    using that rope_okD(6) [OF assms(1), of j v n] by (cases "j = i") auto
  ultimately have "rope_ok lines ?set" using rope_okD(1-5,7) [OF assms(1)] run(2) unfolding rope_ok_def by simp
  moreover have "runDisplayLineCount i ?n m = (?n, m) \<or> runDisplayLineCount i ?n m = (?n, ?set)"
    using run rope_okD(6) [OF assms] by (auto simp: runDisplayLineCount_def lineCountFor_def split: option.split)
  ultimately show "fst (runDisplayLineCount i ?n m) = ?n" "rope_ok lines (snd (runDisplayLineCount i ?n m))"
    "rope_frames (snd (runDisplayLineCount i ?n m)) = rope_frames m"
    using assms(1) by (auto simp: rope_frames_def)
qed

lemma add_frame_last:
  "add_frame f (gs @ [g]) =
     (if sf_direction g = sf_direction f then gs @ [g\<lparr>sf_data := sf_data g @ sf_data f\<rparr>] else gs @ [g, f\<lparr>sf_id := ''merged-'' @ sf_id f\<rparr>])"
  by (induction f gs rule: add_frame.induct) auto

lemma run_frame_simps [simp]:
  "run_frame (extend_run f r) = (run_frame r)\<lparr>sf_data := sf_data (run_frame r) @ sf_data f\<rparr>"
  "run_frame (new_run f) = f\<lparr>sf_id := ''merged-'' @ sf_id f\<rparr>"
  "sf_direction (run_frame r) = mu_direction r"
  by (cases f; simp add: run_frame_def extend_run_def new_run_def)+

lemma append_frames:
  assumes "rope_ok lines m"
  shows "map run_frame (rope_frames (rope_append f m)) = add_frame f (map run_frame (rope_frames m))"
proof (cases "mg_runs m = []")
  case True
  then show ?thesis by (simp add: rope_append_def rope_frames_def)
next
  case False
  then obtain js i where runs: "mg_runs m = js @ [i]" by (metis rev_exhaust)
  have i: "i < length (mg_store m)" "\<not> mu_detached (mg_store m ! i)" "i \<notin> set js"
    using rope_okD(1) [OF assms] rope_okD(2) [OF assms, of i] runs by simp_all
  have js: "j < length (mg_store m)" if "j \<in> set js" for j using rope_okD(2) [OF assms, of j] that runs by simp
  show ?thesis
  proof (cases "mu_direction (mg_store m ! i) = sf_direction f")
    case True
    have "map (\<lambda>j. run_frame ((mg_store m)[i := extend_run f (mg_store m ! i)] ! j)) js = map (\<lambda>j. run_frame (mg_store m ! j)) js"
      using i js by (intro map_cong) (auto simp: nth_list_update)
    then show ?thesis using True i runs by (simp add: rope_append_def rope_frames_def Let_def add_frame_last comp_def)
  next
    case False
    have "map (\<lambda>j. run_frame ((mg_store m @ [new_run f]) ! j)) js = map (\<lambda>j. run_frame (mg_store m ! j)) js"
      using js by (intro map_cong) (auto simp: nth_append)
    then show ?thesis using False i runs by (simp add: rope_append_def rope_frames_def add_frame_last comp_def nth_append)
  qed
qed

lemma appendRange_ok:
  assumes "rope_ok lines m"
  shows "rope_ok lines (rope_appendRange source start m) \<and>
    map run_frame (rope_frames (rope_appendRange source start m)) = fold add_frame (present (drop start source)) (map run_frame (rope_frames m))"
proof -
  have "rope_ok lines m \<Longrightarrow> rope_ok lines (fold (\<lambda>f m. case f of None \<Rightarrow> m | Some f \<Rightarrow> rope_append f m) fs m) \<and>
      map run_frame (rope_frames (fold (\<lambda>f m. case f of None \<Rightarrow> m | Some f \<Rightarrow> rope_append f m) fs m)) =
      fold add_frame (present fs) (map run_frame (rope_frames m))" for fs
    by (induction fs arbitrary: m rule: present.induct) (simp_all add: append_ok append_frames)
  then show ?thesis using assms by (simp add: rope_appendRange_def)
qed

section \<open>The view\<close>

lemma rope_step_ok:
  assumes "rope_ok lines m"
  shows "rope_ok lines (rope_step lines ev m)"
  using assms by (cases ev) (simp_all add: clear_ok append_ok appendRange_ok rope_rebuild_def tailFor_ok(2) lineCount_ok(2))

lemma rope_step_frames:
  assumes "rope_ok lines m" "map run_frame (rope_frames m) = merge_frames fs"
  shows "map run_frame (rope_frames (rope_step lines ev m)) = merge_frames (shown_step ev fs)"
  using assms appendRange_ok [OF clear_ok(1) [OF assms(1)], of _ 0]
  by (cases ev)
    (simp_all add: clear_ok append_frames appendRange_ok rope_rebuild_def tailFor_ok(3) lineCount_ok(3) merge_frames_def)

interpretation rope: invariant_machine "runs_by (rope_step lines)" "\<lambda>m. m = new_rope" "rope_ok lines" for lines
  by unfold_locales (simp_all add: runs_by_def rope_step_ok, simp add: rope_ok_def new_rope_def tails_ok_def)

lemma rope_run_ok: "rope_ok lines (run_events (rope_step lines) evs new_rope)"
  using rope.reachable_inv [OF refl reaches_runs_by] .

lemma rope_run_frames:
  "map run_frame (rope_frames (run_events (rope_step lines) evs new_rope)) = merge_frames (run_events shown_step evs [])"
proof -
  have "rope_ok lines m \<Longrightarrow> map run_frame (rope_frames m) = merge_frames fs \<Longrightarrow>
      map run_frame (rope_frames (run_events (rope_step lines) evs m)) = merge_frames (run_events shown_step evs fs)" for m fs
    by (induction evs arbitrary: m fs) (simp_all add: rope_step_ok rope_step_frames)
  then show ?thesis using rope_run_ok [of lines "[]"] by (simp add: rope_frames_def new_rope_def merge_frames_def)
qed

text \<open>What the view shows of a row: its newest bytes.\<close>

definition newest_bytes :: "bytes \<Rightarrow> bytes" where
  "newest_bytes bs = drop (length bs - MAX_MERGED_VISIBLE_BYTES) bs"

lemma run_tail_frame: "run_tail r = newest_bytes (sf_data (run_frame r))"
  by (simp add: run_tail_def newest_bytes_def run_frame_def)

lemma rows_map:
  assumes "rope_ok lines m" "\<And>i. i \<in> set (mg_runs m) \<Longrightarrow> h i = k (run_frame (mg_store m ! i))"
  shows "map h (mg_runs m) = map k (map run_frame (rope_frames m))"
  using assms by (simp add: rope_frames_def)

text \<open>C38. The merged view shows exactly the source frames: whatever sequence of appends, range appends, rebuilds, clears and
  readings, the rows are the frames appended since the last clear or rebuild with neighbours of one direction
  concatenated; every row's data are the newest 64 KiB of its payload, its omitted count is the remainder, the
  memoized line count is the measure of the bytes shown, and copying a row gives its whole payload; the cache of
  tails never holds more than eight.\<close>

theorem merged_view_is_source:
  "let m = run_events (rope_step lines) evs new_rope; rows = merge_frames (run_events shown_step evs []) in
     map run_frame (rope_frames m) = rows \<and>
     map (\<lambda>i. fst (tailFor i m)) (mg_runs m) = map (\<lambda>f. newest_bytes (sf_data f)) rows \<and>
     map (\<lambda>i. omittedBytes i m) (mg_runs m) = map (\<lambda>f. length (sf_data f) - MAX_MERGED_VISIBLE_BYTES) rows \<and>
     map (\<lambda>i. fst (runDisplayLineCount i (lines (fst (tailFor i m))) m)) (mg_runs m) = map (\<lambda>f. lines (newest_bytes (sf_data f))) rows \<and>
     map (\<lambda>i. materialize i m) (mg_runs m) = map Some rows \<and>
     map (\<lambda>i. map_option concat (chunksFor i m)) (mg_runs m) = map (\<lambda>f. Some (sf_data f)) rows \<and>
     length (mg_tails m) \<le> 8"
proof -
  let ?m = "run_events (rope_step lines) evs new_rope"
  note ok = rope_run_ok [of lines evs]
  note row = rows_map [OF ok]
  show ?thesis
    unfolding Let_def rope_run_frames [symmetric, of evs lines]
  proof (intro conjI row)
    fix i assume i: "i \<in> set (mg_runs ?m)"
    show "fst (tailFor i ?m) = newest_bytes (sf_data (run_frame (mg_store ?m ! i)))"
      using tailFor_ok(1) [OF ok i] by (simp add: run_tail_frame)
    show "omittedBytes i ?m = length (sf_data (run_frame (mg_store ?m ! i))) - MAX_MERGED_VISIBLE_BYTES"
      using rope_okD(3) [OF ok i] by (simp add: omittedBytes_def run_frame_def)
    show "fst (runDisplayLineCount i (lines (fst (tailFor i ?m))) ?m) = lines (newest_bytes (sf_data (run_frame (mg_store ?m ! i))))"
      using lineCount_ok(1) [OF ok i] tailFor_ok(1) [OF ok i] by (simp add: run_tail_frame)
    show "map_option concat (chunksFor i ?m) = Some (sf_data (run_frame (mg_store ?m ! i)))"
      using rope_okD(2) [OF ok, of i] i by (simp add: chunksFor_def run_of_def run_frame_def)
    show "materialize i ?m = Some (run_frame (mg_store ?m ! i))"
      using rope_okD(2) [OF ok, of i] i by (simp add: materialize_def run_of_def run_frame_def)
  next
    show "length (mg_tails ?m) \<le> 8" using rope_okD(5) [OF ok] by (simp add: TAIL_CACHE_CAPACITY_def)
  qed simp
qed

end
