(* ===== verification/ShutdownModel.thy ===== *)
theory ShutdownModel
  imports JsStrings Machine
begin

text \<open>
  The shutdown coordinator, \<open>ShutdownCoordinator\<close> in
  \<open>src/features/platform/shutdown/shutdown-coordinator.ts\<close>: before the application closes, registered
  participants are drained in windows of eight seconds, and the close is then confirmed or cancelled.

  The asynchronous functions are cut at their awaits.  \<open>runDrainWindow\<close> is at most once in progress
  (\<open>at_window\<close>); the \<open>runParticipantInRound\<close> of a participant waits in \<open>ap_wait\<close>, for its drain or for
  its timer.  A continuation is an event of its own, so other events may come in between; each event
  carries the time that \<open>Date.now()\<close> shows while it runs, and no order of these times is assumed.  A timer
  does not fire before it is due.  Listeners are told snapshots and are assumed not to call back.

  \<open>None\<close> as the result of a step would be a loop that does not end.
\<close>

section \<open>States and transitions\<close>

datatype shutdown_state =
    SdIdle | SdRequested | SdDraining | SdReady | SdTimedOut | SdFailed | SdConfirming | SdConfirmed | SdCancelled

fun LEGAL_TRANSITIONS :: "shutdown_state \<Rightarrow> shutdown_state list" where
  "LEGAL_TRANSITIONS SdIdle = [SdRequested]"
| "LEGAL_TRANSITIONS SdRequested = [SdDraining]"
| "LEGAL_TRANSITIONS SdDraining = [SdReady, SdTimedOut, SdFailed]"
| "LEGAL_TRANSITIONS SdReady = [SdConfirming]"
| "LEGAL_TRANSITIONS SdTimedOut = [SdDraining, SdConfirming]"
| "LEGAL_TRANSITIONS SdFailed = [SdDraining, SdConfirming]"
| "LEGAL_TRANSITIONS SdConfirming = [SdConfirmed, SdCancelled]"
| "LEGAL_TRANSITIONS SdConfirmed = []"
| "LEGAL_TRANSITIONS SdCancelled = [SdIdle]"

datatype shutdown_error =
    SdInvalidName | SdInvalidPriority | SdInvalidTimeout | SdNotIdle | SdAlreadyRegistered | SdParticipantLimit
  | SdInvalidAttemptId | SdAttemptMismatch | SdNotAllowed shutdown_state
  | SdIllegal shutdown_state shutdown_state | SdClosedWhileRunning

definition SHUTDOWN_WAIT_LIMIT_MS :: int where "SHUTDOWN_WAIT_LIMIT_MS = 8000"
definition MAX_PARTICIPANTS :: nat where "MAX_PARTICIPANTS = 64"

section \<open>Data\<close>

text \<open>What a caller registers, and the frozen copy that is kept.\<close>

record shutdown_participant =
  pd_name :: string
  pd_priority :: jsnum
  pd_timeoutMs :: jsnum
  pd_repeatableBarrier :: bool

record drain_definition =
  df_name :: string
  df_priority :: int
  df_timeoutMs :: int
  df_repeatableBarrier :: bool

record registered_participant =
  rg_definition :: drain_definition
  rg_sequence :: nat

datatype participant_status = PsPending | PsRunning | PsCompleted | PsFailed | PsTimedOut

text \<open>The promise that \<open>settleWithin\<close> returned: not there, undecided until the time given, or decided.\<close>

datatype drain_wait = WaitNone | WaitTimer int | WaitWoken bool

text \<open>\<open>ap_calls\<close> lists the rounds in which the participant's \<open>drain\<close> was called.\<close>

record attempt_participant =
  ap_definition :: drain_definition
  ap_sequence :: nat
  ap_aborted :: bool
  ap_status :: participant_status
  ap_elapsedMs :: int
  ap_startedAt :: "int option"
  ap_invoked :: bool
  ap_invocationRound :: int
  ap_settled :: bool
  ap_wait :: drain_wait
  ap_calls :: "nat list"

record participant_report =
  pp_name :: string
  pp_priority :: int
  pp_status :: participant_status
  pp_elapsedMs :: int
  pp_messageKey :: string

record shutdown_report =
  rt_attemptId :: string
  rt_state :: shutdown_state
  rt_elapsedMs :: int
  rt_participants :: "participant_report list"

record drain_outcome =
  dr_attemptId :: string
  dr_round :: nat
  dr_state :: shutdown_state
  dr_needsDecision :: bool
  dr_report :: shutdown_report

record confirmation =
  cf_attemptId :: string
  cf_forced :: bool
  cf_report :: shutdown_report

record cancellation =
  cc_attemptId :: string
  cc_report :: shutdown_report

text \<open>Where \<open>runDrainWindow\<close> is: queued, or waiting for a group with the deadline and the priorities left.\<close>

datatype drain_window = WindowNone | WindowQueued | WindowGroup int "int list"

record shutdown_attempt =
  at_attemptId :: string
  at_startedAt :: int
  at_participants :: "attempt_participant list"
  at_round :: nat
  at_closed :: bool
  at_forced :: bool
  at_window :: drain_window
  at_lastDrainResult :: "drain_outcome option"
  at_confirmation :: "confirmation option"
  at_cancellation :: "cancellation option"

text \<open>\<open>sc_handles\<close> are the closures returned by \<open>register\<close> that were not called, with the name they
  delete; \<open>sc_history\<close> lists the states entered, \<open>sc_settled\<close> how the promises of drain windows ended.\<close>

record shutdown_coordinator =
  sc_registrations :: "registered_participant list"
  sc_handles :: "(nat \<times> string) list"
  sc_registrationSequence :: nat
  sc_state :: shutdown_state
  sc_attempt :: "shutdown_attempt option"
  sc_previousReport :: "shutdown_report option"
  sc_history :: "shutdown_state list"
  sc_settled :: "(shutdown_error + drain_outcome) list"

definition new_shutdown :: shutdown_coordinator where
  "new_shutdown = \<lparr>sc_registrations = [], sc_handles = [], sc_registrationSequence = 0, sc_state = SdIdle,
     sc_attempt = None, sc_previousReport = None, sc_history = [], sc_settled = []\<rparr>"

definition acceptsNewWork :: "shutdown_coordinator \<Rightarrow> bool" where
  "acceptsNewWork s \<longleftrightarrow> sc_state s = SdIdle"

section \<open>Validation\<close>

text \<open>\<open>/^[a-z][a-z0-9.-]{0,63}$/\<close> and \<open>/^[A-Za-z0-9][A-Za-z0-9._:-]{0,127}$/\<close>\<close>

definition PARTICIPANT_NAME_PATTERN :: "string \<Rightarrow> bool" where
  "PARTICIPANT_NAME_PATTERN s = (case s of [] \<Rightarrow> False
     | c # cs \<Rightarrow> is_lower c \<and> length cs \<le> 63 \<and>
         list_all (\<lambda>c. is_lower c \<or> is_digit c \<or> c \<in> {CHR ''.'', CHR ''-''}) cs)"

definition ATTEMPT_ID_PATTERN :: "string \<Rightarrow> bool" where
  "ATTEMPT_ID_PATTERN s \<longleftrightarrow> identity_pattern s \<and> length s \<le> 128"

definition validateAttemptId :: "string \<Rightarrow> shutdown_error + string" where
  "validateAttemptId attemptId =
     (let normalized = trim attemptId in if ATTEMPT_ID_PATTERN normalized then Inr normalized else Inl SdInvalidAttemptId)"

definition validateParticipant :: "shutdown_participant \<Rightarrow> shutdown_error + unit" where
  "validateParticipant p =
     (if \<not> PARTICIPANT_NAME_PATTERN (pd_name p) then Inl SdInvalidName
      else if \<not> js_safe (pd_priority p) then Inl SdInvalidPriority
      else if \<not> js_safe (pd_timeoutMs p) \<or> js_floor (pd_timeoutMs p) < 1 \<or> js_floor (pd_timeoutMs p) > SHUTDOWN_WAIT_LIMIT_MS
      then Inl SdInvalidTimeout
      else Inr ())"

section \<open>Registration\<close>

definition sd_register :: "shutdown_participant \<Rightarrow> shutdown_coordinator \<Rightarrow> (shutdown_error + nat) \<times> shutdown_coordinator" where
  "sd_register p s =
     (case validateParticipant p of
        Inl e \<Rightarrow> (Inl e, s)
      | Inr _ \<Rightarrow>
          if sc_state s \<noteq> SdIdle then (Inl SdNotIdle, s)
          else if pd_name p \<in> set (map (df_name \<circ> rg_definition) (sc_registrations s)) then (Inl SdAlreadyRegistered, s)
          else if length (sc_registrations s) \<ge> MAX_PARTICIPANTS then (Inl SdParticipantLimit, s)
          else
            let n = sc_registrationSequence s;
                r = \<lparr>rg_definition = \<lparr>df_name = pd_name p, df_priority = js_floor (pd_priority p),
                       df_timeoutMs = js_floor (pd_timeoutMs p), df_repeatableBarrier = pd_repeatableBarrier p\<rparr>, rg_sequence = n\<rparr>
            in (Inr n, s\<lparr>sc_registrations := sc_registrations s @ [r], sc_handles := (n, pd_name p) # sc_handles s,
                         sc_registrationSequence := Suc n\<rparr>))"

definition sd_unregister :: "nat \<Rightarrow> shutdown_coordinator \<Rightarrow> shutdown_coordinator" where
  "sd_unregister n s =
     (case map_of (sc_handles s) n of
        None \<Rightarrow> s
      | Some name \<Rightarrow> s\<lparr>sc_handles := filter (\<lambda>h. fst h \<noteq> n) (sc_handles s),
            sc_registrations := filter (\<lambda>r. df_name (rg_definition r) \<noteq> name) (sc_registrations s)\<rparr>)"

definition compareRegistrations :: "registered_participant \<Rightarrow> registered_participant \<Rightarrow> int" where
  "compareRegistrations l r =
     (let d = df_priority (rg_definition r) - df_priority (rg_definition l)
      in if d \<noteq> 0 then d else int (rg_sequence l) - int (rg_sequence r))"

text \<open>\<open>Array.prototype.sort\<close>: stable, by the comparison.\<close>

fun insert_registration :: "registered_participant \<Rightarrow> registered_participant list \<Rightarrow> registered_participant list" where
  "insert_registration r [] = [r]"
| "insert_registration r (q # qs) = (if compareRegistrations r q \<le> 0 then r # q # qs else q # insert_registration r qs)"

definition sort_registrations :: "registered_participant list \<Rightarrow> registered_participant list" where
  "sort_registrations rs = foldr insert_registration rs []"

section \<open>Reports and transitions\<close>

definition elapsedSince :: "int \<Rightarrow> int \<Rightarrow> int" where
  "elapsedSince startedAt now = max 0 (now - startedAt)"

fun messageKeyFor :: "participant_status \<Rightarrow> string" where
  "messageKeyFor PsTimedOut = ''shutdown.participant.timed_out''"
| "messageKeyFor PsPending = ''shutdown.participant.pending''"
| "messageKeyFor PsRunning = ''shutdown.participant.running''"
| "messageKeyFor PsCompleted = ''shutdown.participant.completed''"
| "messageKeyFor PsFailed = ''shutdown.participant.failed''"

definition participantReport :: "int \<Rightarrow> attempt_participant \<Rightarrow> participant_report" where
  "participantReport now p = \<lparr>pp_name = df_name (ap_definition p), pp_priority = df_priority (ap_definition p), pp_status = ap_status p,
     pp_elapsedMs = (case (ap_status p, ap_startedAt p) of (PsRunning, Some t) \<Rightarrow> elapsedSince t now | _ \<Rightarrow> ap_elapsedMs p),
     pp_messageKey = messageKeyFor (ap_status p)\<rparr>"

definition makeReport :: "int \<Rightarrow> shutdown_state \<Rightarrow> shutdown_attempt \<Rightarrow> shutdown_report" where
  "makeReport now state a = \<lparr>rt_attemptId = at_attemptId a, rt_state = state, rt_elapsedMs = elapsedSince (at_startedAt a) now,
     rt_participants = map (participantReport now) (at_participants a)\<rparr>"

definition sd_transition :: "shutdown_state \<Rightarrow> shutdown_coordinator \<Rightarrow> shutdown_error + shutdown_coordinator" where
  "sd_transition next s =
     (if next \<notin> set (LEGAL_TRANSITIONS (sc_state s)) then Inl (SdIllegal (sc_state s) next)
      else Inr (s\<lparr>sc_state := next, sc_history := sc_history s @ [next]\<rparr>))"

definition classifyAttempt :: "attempt_participant list \<Rightarrow> shutdown_state" where
  "classifyAttempt ps =
     (if list_ex (\<lambda>p. ap_status p \<in> {PsPending, PsRunning, PsTimedOut}) ps then SdTimedOut
      else if list_ex (\<lambda>p. ap_status p = PsFailed) ps then SdFailed else SdReady)"

definition shouldRunInRound :: "nat \<Rightarrow> attempt_participant \<Rightarrow> bool" where
  "shouldRunInRound rnd p \<longleftrightarrow>
     (if df_repeatableBarrier (ap_definition p) then ap_invocationRound p < int rnd \<or> \<not> ap_settled p
      else ap_status p \<noteq> PsCompleted \<and> ap_status p \<noteq> PsFailed)"

section \<open>One participant\<close>

definition sd_invoke :: "int \<Rightarrow> nat \<Rightarrow> attempt_participant \<Rightarrow> attempt_participant" where
  "sd_invoke now rnd p = p\<lparr>ap_status := PsRunning, ap_startedAt := Some now, ap_elapsedMs := 0, ap_settled := False,
     ap_invocationRound := int rnd, ap_invoked := True, ap_calls := ap_calls p @ [rnd]\<rparr>"

definition startParticipant :: "int \<Rightarrow> nat \<Rightarrow> attempt_participant \<Rightarrow> attempt_participant" where
  "startParticipant now rnd p =
     (if ap_invoked p \<and> \<not> ap_settled p
      then p\<lparr>ap_status := PsRunning, ap_elapsedMs := elapsedSince (case ap_startedAt p of Some t \<Rightarrow> t | None \<Rightarrow> now) now\<rparr>
      else if ap_invoked p \<and> (\<not> df_repeatableBarrier (ap_definition p) \<or> ap_invocationRound p \<ge> int rnd) then p
      else sd_invoke now rnd p)"

definition markTimedOut :: "int \<Rightarrow> attempt_participant \<Rightarrow> attempt_participant" where
  "markTimedOut now p = p\<lparr>ap_status := PsTimedOut, ap_elapsedMs := elapsedSince (case ap_startedAt p of Some t \<Rightarrow> t | None \<Rightarrow> now) now\<rparr>"

text \<open>The await of \<open>settleWithin\<close>: a timeout that is not positive is decided at once.\<close>

definition settleWithin :: "int \<Rightarrow> int \<Rightarrow> drain_wait" where
  "settleWithin now timeoutMs = (if timeoutMs \<le> 0 then WaitWoken False else WaitTimer (now + timeoutMs))"

text \<open>\<open>runParticipantInRound\<close> from the head of its loop to its next await or its end.\<close>

partial_function (option) runParticipantInRound :: "bool \<Rightarrow> nat \<Rightarrow> int \<Rightarrow> int \<Rightarrow> attempt_participant \<Rightarrow> attempt_participant option" where
  "runParticipantInRound shut rnd deadline now p =
     (if shut \<or> now \<ge> deadline then Some (p\<lparr>ap_wait := WaitNone\<rparr>)
      else
        let p = startParticipant now rnd p
        in if \<not> ap_invoked p then Some (p\<lparr>ap_wait := WaitNone\<rparr>)
           else if ap_settled p
           then (if \<not> shouldRunInRound rnd p then Some (p\<lparr>ap_wait := WaitNone\<rparr>)
                 else runParticipantInRound shut rnd deadline now p)
           else
             let remainingWindow = max 0 (deadline - now)
             in Some (p\<lparr>ap_wait := settleWithin now (min (df_timeoutMs (ap_definition p)) remainingWindow)\<rparr>))"

declare runParticipantInRound.simps [code]

text \<open>The same from its await on, with what \<open>settleWithin\<close> said.\<close>

definition resumeParticipant :: "bool \<Rightarrow> nat \<Rightarrow> int \<Rightarrow> int \<Rightarrow> bool \<Rightarrow> attempt_participant \<Rightarrow> attempt_participant option" where
  "resumeParticipant shut rnd deadline now settled p =
     (if \<not> settled \<and> \<not> shut \<and> \<not> ap_settled p then Some ((markTimedOut now p)\<lparr>ap_wait := WaitNone\<rparr>)
      else if \<not> shouldRunInRound rnd p then Some (p\<lparr>ap_wait := WaitNone\<rparr>)
      else runParticipantInRound shut rnd deadline now p)"

section \<open>A window\<close>

definition in_group :: "int \<Rightarrow> nat \<Rightarrow> attempt_participant \<Rightarrow> bool" where
  "in_group priority rnd p \<longleftrightarrow> df_priority (ap_definition p) = priority \<and> shouldRunInRound rnd p"

fun run_group :: "bool \<Rightarrow> nat \<Rightarrow> int \<Rightarrow> int \<Rightarrow> int \<Rightarrow> attempt_participant list \<Rightarrow> attempt_participant list option" where
  "run_group shut rnd deadline now priority [] = Some []"
| "run_group shut rnd deadline now priority (p # ps) =
     Option.bind (if in_group priority rnd p then runParticipantInRound shut rnd deadline now p else Some p)
       (\<lambda>p. map_option (\<lambda>ps. p # ps) (run_group shut rnd deadline now priority ps))"

text \<open>The loop over the priorities: the attempt and whether the loop has ended.\<close>

fun drain_groups :: "int \<Rightarrow> int \<Rightarrow> int list \<Rightarrow> shutdown_attempt \<Rightarrow> (bool \<times> shutdown_attempt) option" where
  "drain_groups now deadline [] a = Some (True, a)"
| "drain_groups now deadline (priority # priorities) a =
     (if at_closed a \<or> now \<ge> deadline then Some (True, a)
      else if \<not> list_ex (in_group priority (at_round a)) (at_participants a) then drain_groups now deadline priorities a
      else map_option (\<lambda>ps. (False, a\<lparr>at_participants := ps, at_window := WindowGroup deadline priorities\<rparr>))
             (run_group (at_closed a) (at_round a) deadline now priority (at_participants a)))"

text \<open>The settled promise of the window; an \<open>async\<close> function turns what it throws into a rejection.\<close>

definition settle_window :: "shutdown_error + drain_outcome \<Rightarrow> shutdown_attempt \<Rightarrow> shutdown_coordinator \<Rightarrow> shutdown_coordinator" where
  "settle_window r a s = s\<lparr>sc_attempt := Some (a\<lparr>at_window := WindowNone\<rparr>), sc_settled := sc_settled s @ [r]\<rparr>"

definition end_participant :: "int \<Rightarrow> nat \<Rightarrow> attempt_participant \<Rightarrow> attempt_participant" where
  "end_participant now rnd p =
     (if ap_status p = PsRunning then markTimedOut now p
      else if df_repeatableBarrier (ap_definition p) \<and> ap_invocationRound p < int rnd then p\<lparr>ap_status := PsTimedOut\<rparr>
      else p)"

definition finish_window :: "int \<Rightarrow> shutdown_attempt \<Rightarrow> shutdown_coordinator \<Rightarrow> shutdown_coordinator" where
  "finish_window now a s =
     (if at_closed a then settle_window (Inl SdClosedWhileRunning) a s
      else
        let a = a\<lparr>at_participants := map (end_participant now (at_round a)) (at_participants a)\<rparr>;
            outcome = classifyAttempt (at_participants a)
        in (case sd_transition outcome s of
              Inl e \<Rightarrow> settle_window (Inl e) a s
            | Inr s \<Rightarrow>
                let report = makeReport now (sc_state s) a;
                    result = \<lparr>dr_attemptId = at_attemptId a, dr_round = at_round a, dr_state = outcome,
                               dr_needsDecision = (outcome \<noteq> SdReady), dr_report = report\<rparr>
                in settle_window (Inr result) (a\<lparr>at_lastDrainResult := Some result\<rparr>) (s\<lparr>sc_previousReport := Some report\<rparr>)))"

definition continue_window :: "int \<Rightarrow> int \<Rightarrow> int list \<Rightarrow> shutdown_attempt \<Rightarrow> shutdown_coordinator \<Rightarrow> shutdown_coordinator option" where
  "continue_window now deadline priorities a s =
     map_option (\<lambda>(ended, a). if ended then finish_window now a s else s\<lparr>sc_attempt := Some a\<rparr>)
       (drain_groups now deadline priorities a)"

definition descending_priorities :: "attempt_participant list \<Rightarrow> int list" where
  "descending_priorities ps = rev (sort (remdups (map (df_priority \<circ> ap_definition) ps)))"

definition runDrainWindow :: "int \<Rightarrow> bool \<Rightarrow> shutdown_attempt \<Rightarrow> shutdown_coordinator \<Rightarrow> shutdown_coordinator option" where
  "runDrainWindow now alreadyDraining a s =
     (case (if alreadyDraining then Inr s else sd_transition SdDraining s) of
        Inl e \<Rightarrow> Some (settle_window (Inl e) a s)
      | Inr s \<Rightarrow> continue_window now (now + SHUTDOWN_WAIT_LIMIT_MS) (descending_priorities (at_participants a)) a s)"

section \<open>Calls\<close>

definition attempt_participant_of :: "registered_participant \<Rightarrow> attempt_participant" where
  "attempt_participant_of r = \<lparr>ap_definition = rg_definition r, ap_sequence = rg_sequence r, ap_aborted = False, ap_status = PsPending,
     ap_elapsedMs = 0, ap_startedAt = None, ap_invoked = False, ap_invocationRound = -1, ap_settled = False,
     ap_wait = WaitNone, ap_calls = []\<rparr>"

text \<open>The promise returned is the one of the window of the attempt and round given.\<close>

definition requestClose :: "string \<Rightarrow> int \<Rightarrow> shutdown_coordinator \<Rightarrow> (shutdown_error + string \<times> nat) \<times> shutdown_coordinator" where
  "requestClose attemptId now s =
     (case validateAttemptId attemptId of
        Inl e \<Rightarrow> (Inl e, s)
      | Inr i \<Rightarrow>
          (case sc_attempt s of
             Some a \<Rightarrow> if at_attemptId a \<noteq> i then (Inl SdAttemptMismatch, s) else (Inr (i, at_round a), s)
           | None \<Rightarrow>
               if sc_state s \<noteq> SdIdle then (Inl (SdNotAllowed (sc_state s)), s)
               else
                 let a = \<lparr>at_attemptId = i, at_startedAt = now,
                       at_participants = map attempt_participant_of (sort_registrations (sc_registrations s)),
                       at_round = 0, at_closed = False, at_forced = False, at_window = WindowQueued, at_lastDrainResult = None,
                       at_confirmation = None, at_cancellation = None\<rparr>;
                     s = s\<lparr>sc_attempt := Some a\<rparr>
                 in (case sd_transition SdRequested s of Inl e \<Rightarrow> (Inl e, s) | Inr s \<Rightarrow> (Inr (i, 0), s))))"

definition requireAttempt :: "string \<Rightarrow> shutdown_coordinator \<Rightarrow> shutdown_error + shutdown_attempt" where
  "requireAttempt attemptId s =
     (case validateAttemptId attemptId of
        Inl e \<Rightarrow> Inl e
      | Inr i \<Rightarrow> (case sc_attempt s of
            None \<Rightarrow> Inl SdAttemptMismatch
          | Some a \<Rightarrow> if at_attemptId a \<noteq> i then Inl SdAttemptMismatch else Inr a))"

definition sd_wait :: "string \<Rightarrow> int \<Rightarrow> shutdown_coordinator \<Rightarrow> ((shutdown_error + string \<times> nat) \<times> shutdown_coordinator) option" where
  "sd_wait attemptId now s =
     (case requireAttempt attemptId s of
        Inl e \<Rightarrow> Some (Inl e, s)
      | Inr a \<Rightarrow>
          if sc_state s \<noteq> SdTimedOut \<and> sc_state s \<noteq> SdFailed then Some (Inl (SdNotAllowed (sc_state s)), s)
          else
            let a = a\<lparr>at_round := at_round a + 1\<rparr>; s = s\<lparr>sc_attempt := Some a\<rparr>
            in (case sd_transition SdDraining s of
                  Inl e \<Rightarrow> Some (Inl e, s)
                | Inr s \<Rightarrow> map_option (\<lambda>s. (Inr (at_attemptId a, at_round a), s)) (runDrainWindow now True a s)))"

definition closeAttempt :: "shutdown_attempt \<Rightarrow> shutdown_attempt" where
  "closeAttempt a = a\<lparr>at_closed := True,
     at_participants := map (\<lambda>p. if \<not> ap_settled p then p\<lparr>ap_aborted := True\<rparr> else p) (at_participants a)\<rparr>"

definition sd_cancel :: "string \<Rightarrow> int \<Rightarrow> shutdown_coordinator \<Rightarrow> (shutdown_error + cancellation) \<times> shutdown_coordinator" where
  "sd_cancel attemptId now s =
     (case requireAttempt attemptId s of
        Inl e \<Rightarrow> (Inl e, s)
      | Inr a \<Rightarrow>
          (case at_cancellation a of
             Some c \<Rightarrow> (Inr c, s)
           | None \<Rightarrow>
               if sc_state s \<noteq> SdReady \<and> sc_state s \<noteq> SdTimedOut \<and> sc_state s \<noteq> SdFailed
               then (Inl (SdNotAllowed (sc_state s)), s)
               else
                 (case sd_transition SdConfirming s of
                    Inl e \<Rightarrow> (Inl e, s)
                  | Inr s \<Rightarrow>
                      let a = closeAttempt a;
                          c = \<lparr>cc_attemptId = at_attemptId a, cc_report = makeReport now SdCancelled a\<rparr>
                      in (Inr c, s\<lparr>sc_attempt := Some (a\<lparr>at_cancellation := Some c\<rparr>)\<rparr>))))"

definition acknowledgeCancellation :: "string \<Rightarrow> shutdown_coordinator \<Rightarrow> (shutdown_error + cancellation) \<times> shutdown_coordinator" where
  "acknowledgeCancellation attemptId s =
     (case requireAttempt attemptId s of
        Inl e \<Rightarrow> (Inl e, s)
      | Inr a \<Rightarrow>
          (case at_cancellation a of
             None \<Rightarrow> (Inl (SdNotAllowed (sc_state s)), s)
           | Some c \<Rightarrow>
               if sc_state s \<noteq> SdConfirming then (Inl (SdNotAllowed (sc_state s)), s)
               else
                 (case sd_transition SdCancelled s of
                    Inl e \<Rightarrow> (Inl e, s)
                  | Inr s \<Rightarrow>
                      let s = s\<lparr>sc_previousReport := Some (cc_report c), sc_attempt := None\<rparr>
                      in (case sd_transition SdIdle s of Inl e \<Rightarrow> (Inl e, s) | Inr s \<Rightarrow> (Inr c, s)))))"

definition sd_confirm :: "shutdown_attempt \<Rightarrow> bool \<Rightarrow> int \<Rightarrow> shutdown_coordinator \<Rightarrow> (shutdown_error + confirmation) \<times> shutdown_coordinator" where
  "sd_confirm a forced now s =
     (let a = a\<lparr>at_forced := forced\<rparr>; s = s\<lparr>sc_attempt := Some a\<rparr> in
      (case sd_transition SdConfirming s of
         Inl e \<Rightarrow> (Inl e, s)
       | Inr s \<Rightarrow>
           let a = closeAttempt a;
               c = \<lparr>cf_attemptId = at_attemptId a, cf_forced = forced, cf_report = makeReport now SdConfirmed a\<rparr>
           in (Inr c, s\<lparr>sc_attempt := Some (a\<lparr>at_confirmation := Some c\<rparr>)\<rparr>)))"

definition confirmExit :: "string \<Rightarrow> int \<Rightarrow> shutdown_coordinator \<Rightarrow> (shutdown_error + confirmation) \<times> shutdown_coordinator" where
  "confirmExit attemptId now s =
     (case requireAttempt attemptId s of
        Inl e \<Rightarrow> (Inl e, s)
      | Inr a \<Rightarrow>
          (case at_confirmation a of
             Some c \<Rightarrow> (Inr c, s)
           | None \<Rightarrow> if sc_state s \<noteq> SdReady then (Inl (SdNotAllowed (sc_state s)), s) else sd_confirm a False now s))"

definition sd_force :: "string \<Rightarrow> int \<Rightarrow> shutdown_coordinator \<Rightarrow> (shutdown_error + confirmation) \<times> shutdown_coordinator" where
  "sd_force attemptId now s =
     (case requireAttempt attemptId s of
        Inl e \<Rightarrow> (Inl e, s)
      | Inr a \<Rightarrow>
          (case at_confirmation a of
             Some c \<Rightarrow> (Inr c, s)
           | None \<Rightarrow>
               if sc_state s \<noteq> SdTimedOut \<and> sc_state s \<noteq> SdFailed then (Inl (SdNotAllowed (sc_state s)), s)
               else sd_confirm a True now s))"

definition acknowledgeConfirmation :: "string \<Rightarrow> shutdown_coordinator \<Rightarrow> (shutdown_error + confirmation) \<times> shutdown_coordinator" where
  "acknowledgeConfirmation attemptId s =
     (case requireAttempt attemptId s of
        Inl e \<Rightarrow> (Inl e, s)
      | Inr a \<Rightarrow>
          (case at_confirmation a of
             None \<Rightarrow> (Inl (SdNotAllowed (sc_state s)), s)
           | Some c \<Rightarrow>
               if sc_state s \<noteq> SdConfirming then (Inl (SdNotAllowed (sc_state s)), s)
               else
                 (case sd_transition SdConfirmed s of
                    Inl e \<Rightarrow> (Inl e, s)
                  | Inr s \<Rightarrow> (Inr c, s\<lparr>sc_previousReport := Some (cf_report c)\<rparr>))))"

record shutdown_snapshot =
  ss_state :: shutdown_state
  ss_attemptId :: "string option"
  ss_acceptsNewWork :: bool
  ss_forced :: bool
  ss_report :: "shutdown_report option"

definition sd_snapshot :: "int \<Rightarrow> shutdown_coordinator \<Rightarrow> shutdown_snapshot" where
  "sd_snapshot now s = \<lparr>ss_state = sc_state s, ss_attemptId = map_option at_attemptId (sc_attempt s),
     ss_acceptsNewWork = acceptsNewWork s, ss_forced = (case sc_attempt s of None \<Rightarrow> False | Some a \<Rightarrow> at_forced a),
     ss_report = map_option (makeReport now (sc_state s)) (sc_attempt s)\<rparr>"

section \<open>Continuations\<close>

text \<open>\<open>runDrainWindow\<close> when it is queued, or when every member of the group has returned.\<close>

definition sd_window :: "int \<Rightarrow> shutdown_coordinator \<Rightarrow> shutdown_coordinator option" where
  "sd_window now s =
     (case sc_attempt s of
        None \<Rightarrow> Some s
      | Some a \<Rightarrow>
          (case at_window a of
             WindowNone \<Rightarrow> Some s
           | WindowQueued \<Rightarrow> runDrainWindow now False a s
           | WindowGroup deadline priorities \<Rightarrow>
               if list_all (\<lambda>p. ap_wait p = WaitNone) (at_participants a) then continue_window now deadline priorities a s else Some s))"

definition with_participant :: "nat \<Rightarrow> (attempt_participant \<Rightarrow> attempt_participant) \<Rightarrow> shutdown_coordinator \<Rightarrow> shutdown_coordinator" where
  "with_participant i f s =
     (case sc_attempt s of
        None \<Rightarrow> s
      | Some a \<Rightarrow>
          if i < length (at_participants a)
          then s\<lparr>sc_attempt := Some (a\<lparr>at_participants := (at_participants a)[i := f (at_participants a ! i)]\<rparr>)\<rparr> else s)"

text \<open>A pending invocation settles, and decides the \<open>settleWithin\<close> that waits for it.\<close>

definition settle_participant :: "bool \<Rightarrow> bool \<Rightarrow> int \<Rightarrow> attempt_participant \<Rightarrow> attempt_participant" where
  "settle_participant shut ok now p =
     (if ap_invoked p \<and> \<not> ap_settled p
      then
        let p = p\<lparr>ap_settled := True, ap_wait := (case ap_wait p of WaitTimer d \<Rightarrow> WaitWoken True | w \<Rightarrow> w)\<rparr>
        in if shut then p
           else p\<lparr>ap_status := (if ok then PsCompleted else PsFailed),
                  ap_elapsedMs := elapsedSince (case ap_startedAt p of Some t \<Rightarrow> t | None \<Rightarrow> now) now\<rparr>
      else p)"

definition sd_settle :: "nat \<Rightarrow> bool \<Rightarrow> int \<Rightarrow> shutdown_coordinator \<Rightarrow> shutdown_coordinator" where
  "sd_settle i ok now s =
     (case sc_attempt s of None \<Rightarrow> s | Some a \<Rightarrow> with_participant i (settle_participant (at_closed a) ok now) s)"

definition fire_timer :: "int \<Rightarrow> attempt_participant \<Rightarrow> attempt_participant" where
  "fire_timer now p = (case ap_wait p of WaitTimer d \<Rightarrow> if d \<le> now then p\<lparr>ap_wait := WaitWoken False\<rparr> else p | _ \<Rightarrow> p)"

definition sd_timer :: "nat \<Rightarrow> int \<Rightarrow> shutdown_coordinator \<Rightarrow> shutdown_coordinator" where
  "sd_timer i now s = with_participant i (fire_timer now) s"

definition sd_resume :: "nat \<Rightarrow> int \<Rightarrow> shutdown_coordinator \<Rightarrow> shutdown_coordinator option" where
  "sd_resume i now s =
     (case sc_attempt s of
        None \<Rightarrow> Some s
      | Some a \<Rightarrow>
          if i < length (at_participants a)
          then (case (at_window a, ap_wait (at_participants a ! i)) of
                  (WindowGroup deadline priorities, WaitWoken settled) \<Rightarrow>
                    map_option (\<lambda>p. with_participant i (\<lambda>_. p) s)
                      (resumeParticipant (at_closed a) (at_round a) deadline now settled (at_participants a ! i))
                | _ \<Rightarrow> Some s)
          else Some s)"

section \<open>Events\<close>

datatype shutdown_event =
    SdRegister shutdown_participant
  | SdUnregister nat
  | SdRequestClose string int
  | SdWait string int
  | SdCancel string int
  | SdAcknowledgeCancellation string
  | SdConfirmExit string int
  | SdForce string int
  | SdAcknowledgeConfirmation string
  | SdWindow int
  | SdSettle nat bool int
  | SdTimer nat int
  | SdResume nat int

fun sd_step :: "shutdown_event \<Rightarrow> shutdown_coordinator \<Rightarrow> shutdown_coordinator option" where
  "sd_step (SdRegister p) s = Some (snd (sd_register p s))"
| "sd_step (SdUnregister n) s = Some (sd_unregister n s)"
| "sd_step (SdRequestClose i t) s = Some (snd (requestClose i t s))"
| "sd_step (SdWait i t) s = map_option snd (sd_wait i t s)"
| "sd_step (SdCancel i t) s = Some (snd (sd_cancel i t s))"
| "sd_step (SdAcknowledgeCancellation i) s = Some (snd (acknowledgeCancellation i s))"
| "sd_step (SdConfirmExit i t) s = Some (snd (confirmExit i t s))"
| "sd_step (SdForce i t) s = Some (snd (sd_force i t s))"
| "sd_step (SdAcknowledgeConfirmation i) s = Some (snd (acknowledgeConfirmation i s))"
| "sd_step (SdWindow t) s = sd_window t s"
| "sd_step (SdSettle i ok t) s = Some (sd_settle i ok t s)"
| "sd_step (SdTimer i t) s = Some (sd_timer i t s)"
| "sd_step (SdResume i t) s = sd_resume i t s"

text \<open>The error that a call throws in a state, if it throws one.\<close>

definition thrown :: "'e + 'a \<Rightarrow> 'e option" where
  "thrown r = (case r of Inl e \<Rightarrow> Some e | Inr _ \<Rightarrow> None)"

fun sd_error :: "shutdown_event \<Rightarrow> shutdown_coordinator \<Rightarrow> shutdown_error option" where
  "sd_error (SdRegister p) s = thrown (fst (sd_register p s))"
| "sd_error (SdUnregister n) s = None"
| "sd_error (SdRequestClose i t) s = thrown (fst (requestClose i t s))"
| "sd_error (SdWait i t) s = Option.bind (sd_wait i t s) (\<lambda>r. thrown (fst r))"
| "sd_error (SdCancel i t) s = thrown (fst (sd_cancel i t s))"
| "sd_error (SdAcknowledgeCancellation i) s = thrown (fst (acknowledgeCancellation i s))"
| "sd_error (SdConfirmExit i t) s = thrown (fst (confirmExit i t s))"
| "sd_error (SdForce i t) s = thrown (fst (sd_force i t s))"
| "sd_error (SdAcknowledgeConfirmation i) s = thrown (fst (acknowledgeConfirmation i s))"
| "sd_error (SdWindow t) s = None"
| "sd_error (SdSettle i ok t) s = None"
| "sd_error (SdTimer i t) s = None"
| "sd_error (SdResume i t) s = None"

fun sd_run :: "shutdown_event list \<Rightarrow> shutdown_coordinator \<Rightarrow> shutdown_coordinator option" where
  "sd_run [] s = Some s"
| "sd_run (e # es) s = Option.bind (sd_step e s) (sd_run es)"

end
