(* ===== verification/ShutdownSafety.thy ===== *)
theory ShutdownSafety
  imports ShutdownModel
begin

text \<open>
  The invariant of the shutdown coordinator, and what follows: its transitions are legal and its drain
  windows are never rejected, each participant is drained at most once (a barrier at most once per round)
  and after all of higher priority, an exit without force is confirmed only when everything is drained,
  and a window ends by its deadline whatever the participants do.
\<close>

section \<open>Participants\<close>

definition done_status :: "attempt_participant \<Rightarrow> bool" where
  "done_status p \<longleftrightarrow> ap_status p = PsCompleted \<or> ap_status p = PsFailed"

definition part_ok :: "bool \<Rightarrow> nat \<Rightarrow> attempt_participant \<Rightarrow> bool" where
  "part_ok shut rnd p \<longleftrightarrow>
     (ap_invoked p \<longleftrightarrow> ap_calls p \<noteq> []) \<and>
     (ap_settled p \<longrightarrow> ap_invoked p) \<and>
     ap_invocationRound p = (if ap_calls p = [] then -1 else int (last (ap_calls p))) \<and>
     sorted_wrt (<) (ap_calls p) \<and> (\<forall>r \<in> set (ap_calls p). r \<le> rnd) \<and>
     (\<not> df_repeatableBarrier (ap_definition p) \<longrightarrow> length (ap_calls p) \<le> 1) \<and>
     (done_status p \<longrightarrow> ap_settled p) \<and>
     (ap_settled p \<and> \<not> shut \<longrightarrow> done_status p \<or>
        df_repeatableBarrier (ap_definition p) \<and> ap_status p = PsTimedOut \<and> ap_invocationRound p < int rnd) \<and>
     (ap_status p = PsRunning \<longrightarrow> ap_wait p \<noteq> WaitNone) \<and>
     (ap_wait p = WaitWoken True \<longrightarrow> ap_settled p) \<and>
     (\<forall>d. ap_wait p = WaitTimer d \<longrightarrow> \<not> ap_settled p)"

lemma part_okD:
  assumes "part_ok shut rnd p"
  shows "ap_invoked p \<longleftrightarrow> ap_calls p \<noteq> []" "ap_settled p \<Longrightarrow> ap_invoked p"
    "ap_invocationRound p = (if ap_calls p = [] then -1 else int (last (ap_calls p)))"
    "sorted_wrt (<) (ap_calls p)" "\<forall>r \<in> set (ap_calls p). r \<le> rnd"
    "\<not> df_repeatableBarrier (ap_definition p) \<Longrightarrow> length (ap_calls p) \<le> 1"
    "done_status p \<Longrightarrow> ap_settled p"
    "ap_settled p \<Longrightarrow> \<not> shut \<Longrightarrow> done_status p \<or>
       df_repeatableBarrier (ap_definition p) \<and> ap_status p = PsTimedOut \<and> ap_invocationRound p < int rnd"
    "ap_status p = PsRunning \<Longrightarrow> ap_wait p \<noteq> WaitNone" "ap_wait p = WaitWoken True \<Longrightarrow> ap_settled p"
    "ap_wait p = WaitTimer d \<Longrightarrow> \<not> ap_settled p"
  using assms unfolding part_ok_def by blast+

lemma invocationRound_le: "part_ok shut rnd p \<Longrightarrow> ap_invocationRound p \<le> int rnd"
  using part_okD(3,5) [of shut rnd p] last_in_set [of "ap_calls p"] by auto

text \<open>A participant that needs no more run has completed or failed.\<close>

lemma not_shouldRun:
  assumes "part_ok False rnd p" "\<not> shouldRunInRound rnd p"
  shows "done_status p" "ap_settled p" "df_repeatableBarrier (ap_definition p) \<Longrightarrow> ap_invocationRound p = int rnd"
proof -
  show "done_status p"
    using assms part_okD(8) [OF assms(1)] by (cases "df_repeatableBarrier (ap_definition p)") (auto simp: shouldRunInRound_def done_status_def)
  then show "ap_settled p" by (rule part_okD(7) [OF assms(1)])
  show "df_repeatableBarrier (ap_definition p) \<Longrightarrow> ap_invocationRound p = int rnd"
    using assms invocationRound_le [OF assms(1)] by (auto simp: shouldRunInRound_def split: if_splits)
qed

lemma start_shouldRun:
  assumes "part_ok False rnd p"
  shows "ap_settled (startParticipant t rnd p) \<longleftrightarrow> \<not> shouldRunInRound rnd p"
    "ap_invoked (startParticipant t rnd p)" "\<not> shouldRunInRound rnd p \<Longrightarrow> startParticipant t rnd p = p"
proof -
  have same: "startParticipant t rnd p = p \<and> ap_settled p" if "\<not> shouldRunInRound rnd p"
    using not_shouldRun [OF assms that] part_okD(2) [OF assms] by (auto simp: startParticipant_def)
  have "\<not> ap_settled (startParticipant t rnd p)" if "shouldRunInRound rnd p"
    using that part_okD(8) [OF assms] by (auto simp: startParticipant_def sd_invoke_def shouldRunInRound_def done_status_def split: if_splits)
  then show "ap_settled (startParticipant t rnd p) \<longleftrightarrow> \<not> shouldRunInRound rnd p" using same by auto
  show "ap_invoked (startParticipant t rnd p)" by (auto simp: startParticipant_def sd_invoke_def)
  show "\<not> shouldRunInRound rnd p \<Longrightarrow> startParticipant t rnd p = p" using same by simp
qed

text \<open>The loop of a participant in one piece.\<close>

definition run_once :: "nat \<Rightarrow> int \<Rightarrow> int \<Rightarrow> attempt_participant \<Rightarrow> attempt_participant" where
  "run_once rnd deadline now p =
     (if now \<ge> deadline \<or> \<not> shouldRunInRound rnd p then p\<lparr>ap_wait := WaitNone\<rparr>
      else (startParticipant now rnd p)\<lparr>ap_wait := settleWithin now (min (df_timeoutMs (ap_definition p)) (deadline - now))\<rparr>)"

lemma start_definition [simp]: "ap_definition (startParticipant t rnd p) = ap_definition p"
  by (simp add: startParticipant_def sd_invoke_def)

lemma run_participant_once:
  assumes "part_ok False rnd p"
  shows "runParticipantInRound False rnd d t p = Some (run_once rnd d t p)"
  using start_shouldRun [OF assms, of t]
  by (subst runParticipantInRound.simps) (simp add: run_once_def Let_def)

lemma part_ok_idle: "part_ok False rnd p \<Longrightarrow> ap_status p \<noteq> PsRunning \<Longrightarrow> part_ok False rnd (p\<lparr>ap_wait := WaitNone\<rparr>)"
  unfolding part_ok_def done_status_def by (cases "ap_calls p = []") auto

lemma sorted_le_last: "sorted_wrt (<) xs \<Longrightarrow> r \<in> set xs \<Longrightarrow> (r :: nat) \<le> last xs"
  by (induction xs) (auto intro: less_imp_le)

lemma part_ok_start:
  assumes "part_ok False rnd p" "shouldRunInRound rnd p"
  shows "part_ok False rnd ((startParticipant t rnd p)\<lparr>ap_wait := WaitTimer d\<rparr>)"
    "part_ok False rnd ((startParticipant t rnd p)\<lparr>ap_wait := WaitWoken False\<rparr>)"
proof -
  let ?q = "startParticipant t rnd p"
  have q: "\<not> ap_settled ?q" "ap_invoked ?q" using start_shouldRun [OF assms(1)] assms(2) by simp_all
  then have run: "ap_status ?q = PsRunning" using assms(2) part_okD(2,8) [OF assms(1)]
    by (auto simp: startParticipant_def sd_invoke_def shouldRunInRound_def done_status_def split: if_splits)
  have calls: "ap_calls ?q = ap_calls p \<and> ap_invocationRound ?q = ap_invocationRound p \<and> ap_calls p \<noteq> [] \<or>
      ap_calls ?q = ap_calls p @ [rnd] \<and> ap_invocationRound ?q = int rnd \<and> (\<forall>r \<in> set (ap_calls p). r < rnd) \<and>
      (\<not> df_repeatableBarrier (ap_definition p) \<longrightarrow> ap_calls p = [])"
  proof (cases "ap_invoked p \<and> \<not> ap_settled p")
    case True
    then show ?thesis using part_okD(1) [OF assms(1)] by (simp add: startParticipant_def)
  next
    case False
    have again: "ap_calls p \<noteq> [] \<Longrightarrow> df_repeatableBarrier (ap_definition p) \<and> ap_invocationRound p < int rnd"
      using False assms(2) part_okD(1,7,8) [OF assms(1)] by (auto simp: shouldRunInRound_def done_status_def split: if_splits)
    moreover have "\<forall>r \<in> set (ap_calls p). r < rnd" if "ap_calls p \<noteq> []"
    proof -
      have "last (ap_calls p) < rnd" using again that part_okD(3) [OF assms(1)] by simp
      moreover have "r \<le> last (ap_calls p)" if "r \<in> set (ap_calls p)" for r
        using sorted_le_last [OF part_okD(4) [OF assms(1)] that] .
      ultimately show ?thesis by fastforce
    qed
    ultimately show ?thesis using False part_okD(1) [OF assms(1)] by (auto simp: startParticipant_def sd_invoke_def)
  qed
  show "part_ok False rnd (?q\<lparr>ap_wait := WaitTimer d\<rparr>)" "part_ok False rnd (?q\<lparr>ap_wait := WaitWoken False\<rparr>)"
    using q run calls part_okD(3-6) [OF assms(1)] by (auto simp: part_ok_def done_status_def sorted_wrt_append)
qed

text \<open>Every operation on a participant.\<close>

lemma run_once_ok: "part_ok False rnd p \<Longrightarrow> ap_status p \<noteq> PsRunning \<or> t < d \<Longrightarrow> part_ok False rnd (run_once rnd d t p)"
  using part_ok_start [of rnd p] part_ok_idle [of rnd p] not_shouldRun(1) [of rnd p]
  by (auto simp: run_once_def settleWithin_def done_status_def)

lemma markTimedOut_ok: "part_ok False rnd p \<Longrightarrow> \<not> ap_settled p \<Longrightarrow> part_ok False rnd ((markTimedOut t p)\<lparr>ap_wait := WaitNone\<rparr>)"
  unfolding part_ok_def done_status_def markTimedOut_def by (cases "ap_calls p = []") auto

lemma resume_ok:
  assumes "part_ok False rnd p" "ap_wait p = WaitWoken w"
  shows "\<exists>q. resumeParticipant False rnd d t w p = Some q \<and> part_ok False rnd q \<and> ap_definition q = ap_definition p \<and>
    (d \<le> t \<longrightarrow> ap_wait q = WaitNone) \<and> (ap_wait q = WaitNone \<longrightarrow> ap_status q \<in> {PsCompleted, PsFailed, PsTimedOut}) \<and>
    (\<forall>e. ap_wait q = WaitTimer e \<longrightarrow> e \<le> d)"
proof (cases "ap_settled p")
  case False
  then have "w = False" using part_okD(10) [OF assms(1)] assms(2) by (cases w) auto
  then have "resumeParticipant False rnd d t w p = Some ((markTimedOut t p)\<lparr>ap_wait := WaitNone\<rparr>)"
    using False by (simp add: resumeParticipant_def)
  then show ?thesis using markTimedOut_ok [OF assms(1) False, of t] by (simp add: markTimedOut_def)
next
  case True
  have st: "ap_status p \<in> {PsCompleted, PsFailed, PsTimedOut}" using part_okD(8) [OF assms(1) True] by (auto simp: done_status_def)
  have res: "resumeParticipant False rnd d t w p = Some (run_once rnd d t p)"
    using True run_participant_once [OF assms(1)] by (simp add: resumeParticipant_def run_once_def)
  have "ap_wait (run_once rnd d t p) = WaitNone \<longrightarrow> ap_status (run_once rnd d t p) \<in> {PsCompleted, PsFailed, PsTimedOut}"
    using st by (simp add: run_once_def settleWithin_def)
  moreover have "ap_wait (run_once rnd d t p) = WaitTimer e \<longrightarrow> e \<le> d" for e
    by (auto simp: run_once_def settleWithin_def)
  ultimately show ?thesis using res run_once_ok [OF assms(1), of t d] st by (auto simp: run_once_def)
qed

lemma settle_participant_ok: "part_ok shut rnd p \<Longrightarrow> part_ok shut rnd (settle_participant shut ok t p)"
  unfolding settle_participant_def
  by (cases "ap_invoked p \<and> \<not> ap_settled p"; cases shut; cases "ap_calls p = []"; cases "ap_wait p")
    (auto simp: part_ok_def done_status_def Let_def)

lemma fire_timer_ok: "part_ok shut rnd p \<Longrightarrow> part_ok shut rnd (fire_timer t p)"
  by (cases "ap_wait p"; cases "ap_calls p = []") (auto simp: fire_timer_def part_ok_def done_status_def)

lemma abort_ok: "part_ok False rnd p \<Longrightarrow> part_ok True rnd p" "part_ok False rnd p \<Longrightarrow> part_ok True rnd (p\<lparr>ap_aborted := True\<rparr>)"
  by (cases "ap_calls p = []"; auto simp: part_ok_def done_status_def)+

lemma next_round_ok: "part_ok False rnd p \<Longrightarrow> part_ok False (Suc rnd) p"
  unfolding part_ok_def by fastforce

lemma end_participant_ok:
  assumes "part_ok False rnd p" "ap_wait p = WaitNone"
  shows "part_ok False rnd (end_participant t rnd p)" "ap_wait (end_participant t rnd p) = WaitNone"
    "ap_definition (end_participant t rnd p) = ap_definition p" "ap_calls (end_participant t rnd p) = ap_calls p"
    "ap_status (end_participant t rnd p) = PsCompleted \<Longrightarrow> df_repeatableBarrier (ap_definition p) \<Longrightarrow>
       ap_invocationRound (end_participant t rnd p) = int rnd"
proof -
  have run: "ap_status p \<noteq> PsRunning" using part_okD(9) [OF assms(1)] assms(2) by auto
  then have e: "end_participant t rnd p = (if df_repeatableBarrier (ap_definition p) \<and> ap_invocationRound p < int rnd
      then p\<lparr>ap_status := PsTimedOut\<rparr> else p)" by (simp add: end_participant_def)
  then show "part_ok False rnd (end_participant t rnd p)"
    using assms unfolding part_ok_def done_status_def by (cases "ap_calls p = []") auto
  show "ap_wait (end_participant t rnd p) = WaitNone" "ap_definition (end_participant t rnd p) = ap_definition p"
    "ap_calls (end_participant t rnd p) = ap_calls p"
    using assms(2) by (simp_all add: e)
  show "ap_status (end_participant t rnd p) = PsCompleted \<Longrightarrow> df_repeatableBarrier (ap_definition p) \<Longrightarrow>
       ap_invocationRound (end_participant t rnd p) = int rnd"
    using invocationRound_le [OF assms(1)] by (simp add: e split: if_splits)
qed

section \<open>Windows\<close>

definition ended_status :: "attempt_participant \<Rightarrow> bool" where
  "ended_status p \<longleftrightarrow> ap_status p \<in> {PsCompleted, PsFailed, PsTimedOut}"

abbreviation prio :: "attempt_participant \<Rightarrow> int" where
  "prio p \<equiv> df_priority (ap_definition p)"

text \<open>The members of the current group have the priority \<open>cur\<close>; those of higher priority are done for this window.\<close>

definition group_order :: "int list \<Rightarrow> attempt_participant list \<Rightarrow> bool" where
  "group_order rest ps \<longleftrightarrow> sorted_wrt (>) rest \<and>
     (\<exists>cur. (\<forall>q \<in> set rest. q < cur) \<and>
        (\<forall>p \<in> set ps. if prio p \<in> set rest then ap_wait p = WaitNone
           else cur \<le> prio p \<and> (if ap_wait p = WaitNone then ended_status p else prio p = cur)))"

text \<open>Before a group is chosen: nobody is waited for, and who is not in the remaining priorities is done.\<close>

definition drainable :: "nat \<Rightarrow> int list \<Rightarrow> attempt_participant list \<Rightarrow> bool" where
  "drainable rnd rest ps \<longleftrightarrow> sorted_wrt (>) rest \<and>
     (\<forall>p \<in> set ps. part_ok False rnd p \<and> ap_wait p = WaitNone \<and> (prio p \<in> set rest \<or> ended_status p \<and> (\<forall>q \<in> set rest. q < prio p)))"

lemma run_group_once:
  "\<forall>p \<in> set ps. part_ok False rnd p \<Longrightarrow>
   run_group False rnd d t cur ps = Some (map (\<lambda>p. if in_group cur rnd p then run_once rnd d t p else p) ps)"
  by (induction ps) (simp_all add: run_participant_once)

definition start_group :: "nat \<Rightarrow> int \<Rightarrow> int \<Rightarrow> int \<Rightarrow> int list \<Rightarrow> shutdown_attempt \<Rightarrow> shutdown_attempt" where
  "start_group rnd d t cur rest a = a\<lparr>at_participants := map (\<lambda>p. if in_group cur rnd p then run_once rnd d t p else p) (at_participants a),
     at_window := WindowGroup d rest\<rparr>"

lemma drain_groups_cases:
  assumes "drainable (at_round a) pr (at_participants a)" "\<not> at_closed a"
  shows "drain_groups t d pr a = Some (True, a) \<or>
    (\<exists>cur rest. drain_groups t d pr a = Some (False, start_group (at_round a) d t cur rest a) \<and> t < d \<and>
       drainable (at_round a) (cur # rest) (at_participants a))"
  using assms(1)
proof (induction pr)
  case Nil
  then show ?case by simp
next
  case (Cons cur rest)
  have parts: "\<forall>p \<in> set (at_participants a). part_ok False (at_round a) p" using Cons.prems by (simp add: drainable_def)
  consider "d \<le> t" | "t < d" "\<not> list_ex (in_group cur (at_round a)) (at_participants a)"
    | "t < d" "list_ex (in_group cur (at_round a)) (at_participants a)" by linarith
  then show ?case
  proof cases
    case 2
    then have idle: "done_status p" if "p \<in> set (at_participants a)" "prio p = cur" for p
      using that parts not_shouldRun(1) by (auto simp: list_ex_iff in_group_def)
    have "drainable (at_round a) rest (at_participants a)"
      using Cons.prems idle by (auto simp: drainable_def done_status_def ended_status_def)
    then show ?thesis using Cons.IH 2 assms(2) by auto
  next
    case 3
    then show ?thesis using Cons.prems assms(2) run_group_once [OF parts, of d t cur]
      by (intro disjI2 exI [of _ cur] exI [of _ rest]) (simp add: start_group_def)
  qed simp
qed

lemma start_group_ok:
  assumes "drainable rnd (cur # rest) ps" "t < d"
  defines "qs \<equiv> map (\<lambda>p. if in_group cur rnd p then run_once rnd d t p else p) ps"
  shows "\<forall>p \<in> set qs. part_ok False rnd p \<and> (\<forall>e. ap_wait p = WaitTimer e \<longrightarrow> e \<le> d)" "group_order rest qs"
proof -
  have parts: "part_ok False rnd p" "ap_wait p = WaitNone" if "p \<in> set ps" for p using assms(1) that by (auto simp: drainable_def)
  show "\<forall>p \<in> set qs. part_ok False rnd p \<and> (\<forall>e. ap_wait p = WaitTimer e \<longrightarrow> e \<le> d)"
    using parts run_once_ok assms(2) by (auto simp: qs_def) (auto simp: run_once_def settleWithin_def split: if_splits)
  have one: "if prio q \<in> set rest then ap_wait q = WaitNone
      else cur \<le> prio q \<and> (if ap_wait q = WaitNone then ended_status q else prio q = cur)" if "q \<in> set qs" for q
  proof -
    obtain p where p: "p \<in> set ps" "q = (if in_group cur rnd p then run_once rnd d t p else p)" using \<open>q \<in> set qs\<close> by (auto simp: qs_def)
    show ?thesis
    proof (cases "in_group cur rnd p")
      case True
      then have "prio q = cur" "ap_wait q \<noteq> WaitNone" using p assms(2) by (auto simp: in_group_def run_once_def settleWithin_def)
      then show ?thesis using assms(1) by (auto simp: drainable_def)
    next
      case False
      then have "prio p = cur \<Longrightarrow> done_status p" using not_shouldRun(1) [OF parts(1) [OF p(1)]] by (auto simp: in_group_def)
      then show ?thesis using False p assms(1) parts(2) [OF p(1)]
        by (fastforce simp: drainable_def ended_status_def done_status_def)
    qed
  qed
  show "group_order rest qs" unfolding group_order_def using assms(1) one by (intro conjI exI [of _ cur]) (auto simp: drainable_def)
qed

section \<open>The invariant\<close>

definition drained :: "nat \<Rightarrow> attempt_participant \<Rightarrow> bool" where
  "drained rnd p \<longleftrightarrow> ap_status p = PsCompleted \<and> (df_repeatableBarrier (ap_definition p) \<longrightarrow> ap_invocationRound p = int rnd)"

definition window_ok :: "shutdown_state \<Rightarrow> drain_window \<Rightarrow> attempt_participant list \<Rightarrow> bool" where
  "window_ok state w ps \<longleftrightarrow>
     (case w of
        WindowNone \<Rightarrow> state \<noteq> SdRequested \<and> state \<noteq> SdDraining \<and> (\<forall>p \<in> set ps. ap_wait p = WaitNone)
      | WindowQueued \<Rightarrow> state = SdRequested \<and> (\<forall>p \<in> set ps. ap_wait p = WaitNone)
      | WindowGroup d rest \<Rightarrow> state = SdDraining \<and> (\<forall>p \<in> set ps. \<forall>e. ap_wait p = WaitTimer e \<longrightarrow> e \<le> d) \<and> group_order rest ps)"

definition decisions_ok :: "shutdown_state \<Rightarrow> confirmation option \<Rightarrow> cancellation option \<Rightarrow> bool" where
  "decisions_ok state cf cc \<longleftrightarrow>
     (if state = SdConfirming then (cf = None) \<noteq> (cc = None)
      else if state = SdConfirmed then cf \<noteq> None \<and> cc = None else cf = None \<and> cc = None)"

definition att_ok :: "shutdown_state \<Rightarrow> shutdown_attempt \<Rightarrow> bool" where
  "att_ok state a \<longleftrightarrow>
     (at_closed a \<longleftrightarrow> state = SdConfirming \<or> state = SdConfirmed) \<and>
     (\<forall>p \<in> set (at_participants a). part_ok (at_closed a) (at_round a) p) \<and>
     window_ok state (at_window a) (at_participants a) \<and>
     decisions_ok state (at_confirmation a) (at_cancellation a) \<and>
     (state = SdReady \<longrightarrow> (\<forall>p \<in> set (at_participants a). drained (at_round a) p)) \<and>
     (\<forall>c. at_confirmation a = Some c \<longrightarrow>
        map (\<lambda>r. (pp_name r, pp_status r)) (rt_participants (cf_report c)) =
        map (\<lambda>p. (df_name (ap_definition p), ap_status p)) (at_participants a) \<and>
        (\<not> cf_forced c \<longrightarrow> (\<forall>p \<in> set (at_participants a). drained (at_round a) p)))"

fun legal_path :: "shutdown_state \<Rightarrow> shutdown_state list \<Rightarrow> shutdown_state \<Rightarrow> bool" where
  "legal_path x [] z \<longleftrightarrow> x = z"
| "legal_path x (y # ys) z \<longleftrightarrow> y \<in> set (LEGAL_TRANSITIONS x) \<and> legal_path y ys z"

definition sd_ok :: "shutdown_coordinator \<Rightarrow> bool" where
  "sd_ok s \<longleftrightarrow>
     (case sc_attempt s of None \<Rightarrow> sc_state s = SdIdle | Some a \<Rightarrow> sc_state s \<noteq> SdIdle \<and> sc_state s \<noteq> SdCancelled \<and> att_ok (sc_state s) a) \<and>
     legal_path SdIdle (sc_history s) (sc_state s) \<and> (\<forall>r \<in> set (sc_settled s). \<not> isl r)"

lemma legal_path_snoc: "legal_path x (ys @ [y]) z \<longleftrightarrow> y = z \<and> (\<exists>w. legal_path x ys w \<and> y \<in> set (LEGAL_TRANSITIONS w))"
  by (induction x ys z rule: legal_path.induct) auto

lemma legal_path_det: "legal_path x ys z \<Longrightarrow> legal_path x ys z' \<Longrightarrow> z = z'"
  by (induction x ys z rule: legal_path.induct) auto

definition enter :: "shutdown_state \<Rightarrow> shutdown_coordinator \<Rightarrow> shutdown_coordinator" where
  "enter next s = s\<lparr>sc_state := next, sc_history := sc_history s @ [next]\<rparr>"

lemma enter_simps [simp]:
  "sc_state (enter next s) = next" "sc_attempt (enter next s) = sc_attempt s" "sc_settled (enter next s) = sc_settled s"
  "sc_history (enter next s) = sc_history s @ [next]" "sc_registrations (enter next s) = sc_registrations s"
  "sc_previousReport (enter next s) = sc_previousReport s"
  by (simp_all add: enter_def)

lemma legal_transition: "next \<in> set (LEGAL_TRANSITIONS (sc_state s)) \<Longrightarrow> sd_transition next s = Inr (enter next s)"
  by (simp add: sd_transition_def enter_def)

lemma legal_enter: "legal_path SdIdle (sc_history s) (sc_state s) \<Longrightarrow> next \<in> set (LEGAL_TRANSITIONS (sc_state s)) \<Longrightarrow>
  legal_path SdIdle (sc_history s @ [next]) next"
  by (auto simp: legal_path_snoc)

lemma sd_okD:
  assumes "sd_ok s" "sc_attempt s = Some a"
  shows "sc_state s \<noteq> SdIdle" "sc_state s \<noteq> SdCancelled" "att_ok (sc_state s) a"
  using assms by (simp_all add: sd_ok_def)

lemma sd_ok_path: "sd_ok s \<Longrightarrow> legal_path SdIdle (sc_history s) (sc_state s)"
  by (simp add: sd_ok_def)

lemma att_okD:
  assumes "att_ok state a"
  shows "at_closed a \<longleftrightarrow> state = SdConfirming \<or> state = SdConfirmed"
    "p \<in> set (at_participants a) \<Longrightarrow> part_ok (at_closed a) (at_round a) p"
    "window_ok state (at_window a) (at_participants a)" "decisions_ok state (at_confirmation a) (at_cancellation a)"
    "state = SdReady \<Longrightarrow> p \<in> set (at_participants a) \<Longrightarrow> drained (at_round a) p"
    "at_confirmation a = Some c \<Longrightarrow>
        map (\<lambda>r. (pp_name r, pp_status r)) (rt_participants (cf_report c)) =
        map (\<lambda>p. (df_name (ap_definition p), ap_status p)) (at_participants a)"
    "at_confirmation a = Some c \<Longrightarrow> \<not> cf_forced c \<Longrightarrow> p \<in> set (at_participants a) \<Longrightarrow> drained (at_round a) p"
  using assms unfolding att_ok_def by blast+

text \<open>In a state that awaits a decision no participant is waited for.\<close>

lemma decision_idle:
  assumes "att_ok state a" "state \<noteq> SdRequested" "state \<noteq> SdDraining"
  shows "at_window a = WindowNone" "p \<in> set (at_participants a) \<Longrightarrow> ap_wait p = WaitNone"
  using att_okD(3) [OF assms(1)] assms(2,3) by (auto simp: window_ok_def split: drain_window.splits)

section \<open>Windows end or go on\<close>

lemma finish_window_ok:
  assumes "drainable (at_round a) pr (at_participants a)" "\<not> at_closed a" "at_confirmation a = None" "at_cancellation a = None"
    "sc_state s = SdDraining" "legal_path SdIdle (sc_history s) (sc_state s)" "\<forall>r \<in> set (sc_settled s). \<not> isl r"
  shows "sd_ok (finish_window t a s)" "sc_state (finish_window t a s) \<in> {SdReady, SdTimedOut, SdFailed}"
    "\<exists>b. sc_attempt (finish_window t a s) = Some b \<and> at_attemptId b = at_attemptId a \<and>
       at_participants b = map (end_participant t (at_round a)) (at_participants a)"
proof -
  let ?ps = "map (end_participant t (at_round a)) (at_participants a)"
  let ?o = "classifyAttempt ?ps"
  let ?b = "a\<lparr>at_participants := ?ps\<rparr>"
  have ps: "part_ok False (at_round a) q" "ap_wait q = WaitNone"
    "ap_status q = PsCompleted \<Longrightarrow> df_repeatableBarrier (ap_definition q) \<Longrightarrow> ap_invocationRound q = int (at_round a)" if "q \<in> set ?ps" for q
    using that assms(1) by (auto simp: drainable_def end_participant_ok)
  have o: "?o \<in> {SdReady, SdTimedOut, SdFailed}" by (simp add: classifyAttempt_def)
  then have legal: "?o \<in> set (LEGAL_TRANSITIONS (sc_state s))" using assms(5) by auto
  have ready: "drained (at_round a) q" if "?o = SdReady" "q \<in> set ?ps" for q
  proof -
    have "ap_status q = PsCompleted" using that by (cases "ap_status q") (auto simp: classifyAttempt_def list_ex_iff split: if_splits)
    then show ?thesis using ps(3) [OF that(2)] by (auto simp: drained_def)
  qed
  obtain r where fin: "sc_state (finish_window t a s) = ?o" "sc_attempt (finish_window t a s) = Some (?b\<lparr>at_lastDrainResult := Some r, at_window := WindowNone\<rparr>)"
    "sc_history (finish_window t a s) = sc_history s @ [?o]" "sc_settled (finish_window t a s) = sc_settled s @ [Inr r]"
    using assms(2) legal_transition [OF legal] by (simp add: finish_window_def settle_window_def Let_def)
  have "att_ok ?o (?b\<lparr>at_lastDrainResult := Some r, at_window := WindowNone\<rparr>)"
    using ps ready o assms(2-4) by (auto simp: att_ok_def window_ok_def decisions_ok_def simp del: set_map)
  then show "sd_ok (finish_window t a s)"
    using fin o legal_enter [OF assms(6) legal] assms(7) by (auto simp: sd_ok_def)
  show "sc_state (finish_window t a s) \<in> {SdReady, SdTimedOut, SdFailed}" using fin(1) o by simp
  show "\<exists>b. sc_attempt (finish_window t a s) = Some b \<and> at_attemptId b = at_attemptId a \<and> at_participants b = ?ps"
    using fin(2) by simp
qed

text \<open>What a step does to the calls: only a participant that is then waited for is called, once, in the round of the attempt.\<close>

definition calls_grow :: "nat \<Rightarrow> attempt_participant list \<Rightarrow> attempt_participant list \<Rightarrow> bool" where
  "calls_grow rnd = list_all2 (\<lambda>p q. ap_definition q = ap_definition p \<and>
     (ap_calls q = ap_calls p \<or> ap_calls q = ap_calls p @ [rnd] \<and> ap_wait q \<noteq> WaitNone))"

definition sd_grows :: "shutdown_coordinator \<Rightarrow> shutdown_coordinator \<Rightarrow> bool" where
  "sd_grows s s' \<longleftrightarrow>
     (case (sc_attempt s, sc_attempt s') of
        (Some a, Some b) \<Rightarrow> at_attemptId b = at_attemptId a \<and> calls_grow (at_round b) (at_participants a) (at_participants b)
      | _ \<Rightarrow> True)"

lemma calls_grow_refl [simp]: "calls_grow rnd ps ps"
  by (simp add: calls_grow_def list.rel_refl)

lemma calls_grow_map: "(\<And>p. p \<in> set ps \<Longrightarrow> ap_definition (f p) = ap_definition p \<and>
    (ap_calls (f p) = ap_calls p \<or> ap_calls (f p) = ap_calls p @ [rnd] \<and> ap_wait (f p) \<noteq> WaitNone)) \<Longrightarrow> calls_grow rnd ps (map f ps)"
  by (auto simp: calls_grow_def list_all2_conv_all_nth)

lemma start_calls: "ap_calls (startParticipant t rnd p) = ap_calls p \<or> ap_calls (startParticipant t rnd p) = ap_calls p @ [rnd]"
  by (simp add: startParticipant_def sd_invoke_def)

lemma run_once_calls: "ap_calls (run_once rnd d t p) = ap_calls p \<or>
    ap_calls (run_once rnd d t p) = ap_calls p @ [rnd] \<and> ap_wait (run_once rnd d t p) \<noteq> WaitNone"
  using start_calls [of t rnd p] by (auto simp: run_once_def settleWithin_def)

lemma run_once_definition [simp]: "ap_definition (run_once rnd d t p) = ap_definition p"
  by (simp add: run_once_def)

lemma continue_window_ok:
  assumes "drainable (at_round a) pr (at_participants a)" "\<not> at_closed a" "at_confirmation a = None" "at_cancellation a = None"
    "sc_state s = SdDraining" "legal_path SdIdle (sc_history s) (sc_state s)" "\<forall>r \<in> set (sc_settled s). \<not> isl r"
  shows "\<exists>s' b. continue_window t d pr a s = Some s' \<and> sd_ok s' \<and> sc_attempt s' = Some b \<and> at_attemptId b = at_attemptId a \<and>
    calls_grow (at_round b) (at_participants a) (at_participants b) \<and>
    (d \<le> t \<longrightarrow> sc_state s' \<in> {SdReady, SdTimedOut, SdFailed})"
  using drain_groups_cases [OF assms(1,2), of t d]
proof (elim disjE exE conjE)
  assume g: "drain_groups t d pr a = Some (True, a)"
  note fin = finish_window_ok [OF assms, of t]
  have s': "continue_window t d pr a s = Some (finish_window t a s)" using g by (simp add: continue_window_def)
  obtain b where b: "sc_attempt (finish_window t a s) = Some b" "at_attemptId b = at_attemptId a"
    "at_participants b = map (end_participant t (at_round a)) (at_participants a)"
    using fin(3) by blast
  have "calls_grow (at_round b) (at_participants a) (at_participants b)"
    unfolding b(3) using assms(1) by (intro calls_grow_map) (simp add: drainable_def end_participant_ok)
  then show ?thesis using s' fin(1,2) b(1,2) by auto
next
  fix cur rest
  assume g: "drain_groups t d pr a = Some (False, start_group (at_round a) d t cur rest a)" "t < d"
    "drainable (at_round a) (cur # rest) (at_participants a)"
  let ?b = "start_group (at_round a) d t cur rest a"
  have s': "continue_window t d pr a s = Some (s\<lparr>sc_attempt := Some ?b\<rparr>)" using g by (simp add: continue_window_def)
  note new = start_group_ok [OF g(3,2)]
  have "att_ok SdDraining ?b"
    using new assms(2-4) unfolding att_ok_def window_ok_def decisions_ok_def start_group_def by simp
  then have "sd_ok (s\<lparr>sc_attempt := Some ?b\<rparr>)" using assms(5-7) by (simp add: sd_ok_def)
  moreover have "calls_grow (at_round ?b) (at_participants a) (at_participants ?b)"
    unfolding start_group_def
    by (simp, rule calls_grow_map) (simp add: run_once_calls)
  ultimately show ?thesis using s' g(2) by (auto simp: start_group_def)
qed

section \<open>Calls and continuations keep the invariant\<close>

lemma sd_ok_cong:
  "sd_ok s \<Longrightarrow> sc_attempt s' = sc_attempt s \<Longrightarrow> sc_state s' = sc_state s \<Longrightarrow> sc_history s' = sc_history s \<Longrightarrow> sc_settled s' = sc_settled s \<Longrightarrow>
   sd_ok s' \<and> sd_grows s s'"
  by (cases "sc_attempt s") (auto simp: sd_ok_def sd_grows_def)

lemma sd_grows_refl [simp]: "sd_grows s s"
  by (simp add: sd_grows_def split: option.split)

lemma sd_register_ok: "sd_ok s \<Longrightarrow> sd_ok (snd (sd_register p s)) \<and> sd_grows s (snd (sd_register p s))"
  by (erule sd_ok_cong) (simp_all add: sd_register_def Let_def split: sum.split)

lemma unregister_ok: "sd_ok s \<Longrightarrow> sd_ok (sd_unregister n s) \<and> sd_grows s (sd_unregister n s)"
  by (erule sd_ok_cong) (simp_all add: sd_unregister_def split: option.split)

lemma new_participant_wait [simp]: "ap_wait (attempt_participant_of r) = WaitNone"
  by (simp add: attempt_participant_of_def)

lemma new_participant_ok: "part_ok False 0 (attempt_participant_of r)"
  by (simp add: part_ok_def attempt_participant_of_def done_status_def)

lemma requestClose_ok:
  assumes "sd_ok s"
  shows "sd_ok (snd (requestClose i t s)) \<and> sd_grows s (snd (requestClose i t s))"
proof (cases "\<exists>j. validateAttemptId i = Inr j \<and> sc_attempt s = None")
  case True
  then obtain j where j: "validateAttemptId i = Inr j" "sc_attempt s = None" by blast
  have idle: "sc_state s = SdIdle" using assms j(2) by (simp add: sd_ok_def)
  define a where "a = \<lparr>at_attemptId = j, at_startedAt = t,
     at_participants = map attempt_participant_of (sort_registrations (sc_registrations s)),
     at_round = 0, at_closed = False, at_forced = False, at_window = WindowQueued, at_lastDrainResult = None,
     at_confirmation = None, at_cancellation = None\<rparr>"
  have res: "snd (requestClose i t s) = enter SdRequested (s\<lparr>sc_attempt := Some a\<rparr>)"
    using j idle legal_transition [of SdRequested "s\<lparr>sc_attempt := Some a\<rparr>"] by (simp add: requestClose_def a_def Let_def)
  have "att_ok SdRequested a"
    by (auto simp: att_ok_def a_def window_ok_def decisions_ok_def new_participant_ok)
  then have "sd_ok (snd (requestClose i t s))"
    unfolding res using assms idle legal_enter [OF sd_ok_path [OF assms], of SdRequested] by (simp add: sd_ok_def)
  then show ?thesis using j(2) by (simp add: sd_grows_def)
next
  case False
  then have "snd (requestClose i t s) = s"
    by (auto simp: requestClose_def split: sum.split option.split)
  then show ?thesis using assms by simp
qed

lemma requireAttempt_Inr: "requireAttempt i s = Inr a \<Longrightarrow> sc_attempt s = Some a"
  by (auto simp: requireAttempt_def split: sum.splits option.splits if_splits)

lemma descending_drainable:
  assumes "\<And>p. p \<in> set ps \<Longrightarrow> part_ok False rnd p \<and> ap_wait p = WaitNone"
  shows "drainable rnd (descending_priorities ps) ps"
proof -
  have "sorted_wrt (<) (sort (remdups (map (df_priority \<circ> ap_definition) ps)))" by (simp add: strict_sorted_iff)
  then have "sorted_wrt (>) (descending_priorities ps)" by (simp add: descending_priorities_def sorted_wrt_rev)
  then show ?thesis using assms by (auto simp: drainable_def descending_priorities_def)
qed

lemma wait_ok:
  assumes "sd_ok s"
  shows "\<exists>r s'. sd_wait i t s = Some (r, s') \<and> sd_ok s' \<and> sd_grows s s' \<and> (\<forall>x y. r \<noteq> Inl (SdIllegal x y)) \<and> r \<noteq> Inl SdClosedWhileRunning"
proof (cases "\<exists>a. requireAttempt i s = Inr a \<and> (sc_state s = SdTimedOut \<or> sc_state s = SdFailed)")
  case True
  then obtain a where a: "requireAttempt i s = Inr a" "sc_state s = SdTimedOut \<or> sc_state s = SdFailed" by blast
  note att = requireAttempt_Inr [OF a(1)]
  note ok = sd_okD(3) [OF assms att]
  let ?a = "a\<lparr>at_round := at_round a + 1\<rparr>"
  let ?s = "enter SdDraining (s\<lparr>sc_attempt := Some ?a\<rparr>)"
  have open_: "\<not> at_closed a" using att_okD(1) [OF ok] a(2) by auto
  have parts: "part_ok False (at_round ?a) p \<and> ap_wait p = WaitNone" if "p \<in> set (at_participants ?a)" for p
    using that att_okD(2) [OF ok, of p] open_ decision_idle(2) [OF ok, of p] a(2) next_round_ok by auto
  have none: "at_confirmation a = None" "at_cancellation a = None"
    using att_okD(4) [OF ok] a(2) by (auto simp: decisions_ok_def)
  have "SdDraining \<in> set (LEGAL_TRANSITIONS (sc_state s))" using a(2) by auto
  then have tr: "sd_transition SdDraining (s\<lparr>sc_attempt := Some ?a\<rparr>) = Inr ?s"
    and path: "legal_path SdIdle (sc_history ?s) (sc_state ?s)"
    using legal_transition [of SdDraining "s\<lparr>sc_attempt := Some ?a\<rparr>"] legal_enter [OF sd_ok_path [OF assms]] by simp_all
  have settled: "\<forall>r \<in> set (sc_settled ?s). \<not> isl r" using assms by (simp add: sd_ok_def)
  obtain s' b where s': "continue_window t (t + SHUTDOWN_WAIT_LIMIT_MS) (descending_priorities (at_participants ?a)) ?a ?s = Some s'"
    "sd_ok s'" "sc_attempt s' = Some b" "at_attemptId b = at_attemptId a" "calls_grow (at_round b) (at_participants a) (at_participants b)"
    using continue_window_ok [OF descending_drainable [OF parts], of ?s t "t + SHUTDOWN_WAIT_LIMIT_MS"] open_ none path settled by auto
  have "sd_wait i t s = Some (Inr (at_attemptId a, at_round a + 1), s')"
    using a tr s'(1) by (auto simp: sd_wait_def Let_def runDrainWindow_def)
  then show ?thesis using s' att by (simp add: sd_grows_def)
next
  case False
  then obtain e where "sd_wait i t s = Some (Inl e, s)" "e \<in> {SdInvalidAttemptId, SdAttemptMismatch, SdNotAllowed (sc_state s)}"
    by (auto simp: sd_wait_def requireAttempt_def validateAttemptId_def Let_def split: sum.splits option.splits if_splits)
  then show ?thesis using assms by auto
qed

lemma closeAttempt_ok:
  assumes "att_ok state a" "state \<in> {SdReady, SdTimedOut, SdFailed}"
  shows "\<forall>p \<in> set (at_participants (closeAttempt a)). part_ok True (at_round a) p \<and> ap_wait p = WaitNone"
    "map (\<lambda>p. (df_name (ap_definition p), ap_status p)) (at_participants (closeAttempt a)) =
     map (\<lambda>p. (df_name (ap_definition p), ap_status p)) (at_participants a)"
    "(\<forall>p \<in> set (at_participants (closeAttempt a)). drained (at_round a) p) \<longleftrightarrow> (\<forall>p \<in> set (at_participants a). drained (at_round a) p)"
    "calls_grow rnd (at_participants a) (at_participants (closeAttempt a))"
proof -
  have p: "part_ok False (at_round a) p \<and> ap_wait p = WaitNone" if "p \<in> set (at_participants a)" for p
    using assms att_okD(1,2) [OF assms(1)] decision_idle(2) [OF assms(1) _ _ that] that by auto
  show "\<forall>p \<in> set (at_participants (closeAttempt a)). part_ok True (at_round a) p \<and> ap_wait p = WaitNone"
    using p by (auto simp: closeAttempt_def abort_ok)
  show "map (\<lambda>p. (df_name (ap_definition p), ap_status p)) (at_participants (closeAttempt a)) =
     map (\<lambda>p. (df_name (ap_definition p), ap_status p)) (at_participants a)"
    by (simp add: closeAttempt_def)
  show "(\<forall>p \<in> set (at_participants (closeAttempt a)). drained (at_round a) p) \<longleftrightarrow> (\<forall>p \<in> set (at_participants a). drained (at_round a) p)"
    by (auto simp: closeAttempt_def drained_def ball_Un)
  show "calls_grow rnd (at_participants a) (at_participants (closeAttempt a))"
    unfolding closeAttempt_def by (simp, rule calls_grow_map) simp
qed

lemma report_statuses: "map (\<lambda>r. (pp_name r, pp_status r)) (rt_participants (makeReport t state a)) =
    map (\<lambda>p. (df_name (ap_definition p), ap_status p)) (at_participants a)"
  by (simp add: makeReport_def participantReport_def)

lemma decide_ok:
  assumes "sd_ok s" "sc_attempt s = Some a" "sc_state s \<in> {SdReady, SdTimedOut, SdFailed}" "\<not> forced \<Longrightarrow> cc = None \<Longrightarrow> sc_state s = SdReady"
    "case cc of None \<Rightarrow> \<exists>id f st. cf = Some \<lparr>cf_attemptId = id, cf_forced = forced, cf_report = makeReport t st (closeAttempt (a\<lparr>at_forced := f\<rparr>))\<rparr> | Some _ \<Rightarrow> cf = None"
    "s' = (enter SdConfirming s)\<lparr>sc_attempt := Some ((closeAttempt a)\<lparr>at_forced := g, at_confirmation := cf, at_cancellation := cc\<rparr>)\<rparr>"
  shows "sd_ok s' \<and> sd_grows s s'"
proof -
  note att = sd_okD(3) [OF assms(1,2)]
  note close = closeAttempt_ok [OF att assms(3)]
  let ?b = "(closeAttempt a)\<lparr>at_forced := g, at_confirmation := cf, at_cancellation := cc\<rparr>"
  have same: "at_participants (closeAttempt (a\<lparr>at_forced := f\<rparr>)) = at_participants (closeAttempt a)" "at_closed (closeAttempt a)"
    "at_round (closeAttempt a) = at_round a" "at_window (closeAttempt a) = at_window a" "at_attemptId (closeAttempt a) = at_attemptId a" for f
    by (simp_all add: closeAttempt_def)
  have w: "at_window a = WindowNone" using decision_idle(1) [OF att] assms(3) by auto
  have dr: "\<forall>p \<in> set (at_participants (closeAttempt a)). drained (at_round a) p" if "\<not> forced" "cc = None"
    using assms(4) that att_okD(5) [OF att] close(3) by simp
  have rep: "map (\<lambda>r. (pp_name r, pp_status r)) (rt_participants (cf_report c)) =
      map (\<lambda>p. (df_name (ap_definition p), ap_status p)) (at_participants (closeAttempt a)) \<and> (cf_forced c = forced \<and> cc = None)" if "cf = Some c" for c
    using that assms(5) by (cases cc) (auto simp: report_statuses same(1))
  have "att_ok SdConfirming ?b"
    unfolding att_ok_def
  proof (intro conjI allI impI)
    show "decisions_ok SdConfirming (at_confirmation ?b) (at_cancellation ?b)"
      using assms(5) by (cases cc) (auto simp: decisions_ok_def)
    show "window_ok SdConfirming (at_window ?b) (at_participants ?b)" using close(1) w same by (simp add: window_ok_def)
  qed (use close(1) same rep dr in auto)
  moreover have "legal_path SdIdle (sc_history s @ [SdConfirming]) SdConfirming"
    using legal_enter [OF sd_ok_path [OF assms(1)], of SdConfirming] assms(3) by auto
  ultimately show ?thesis using assms(1,2,6) close(4) same by (simp add: sd_ok_def sd_grows_def)
qed

definition no_illegal :: "shutdown_error + 'a \<Rightarrow> bool" where
  "no_illegal r \<longleftrightarrow> (case r of Inl (SdIllegal x y) \<Rightarrow> False | Inl SdClosedWhileRunning \<Rightarrow> False | _ \<Rightarrow> True)"

lemma no_illegal_simps [simp]:
  "no_illegal (Inr x)" "no_illegal (Inl SdInvalidAttemptId)" "no_illegal (Inl SdAttemptMismatch)" "no_illegal (Inl (SdNotAllowed q))"
  "no_illegal (Inl SdInvalidName)" "no_illegal (Inl SdInvalidPriority)" "no_illegal (Inl SdInvalidTimeout)" "no_illegal (Inl SdNotIdle)"
  "no_illegal (Inl SdAlreadyRegistered)" "no_illegal (Inl SdParticipantLimit)"
  by (simp_all add: no_illegal_def)

lemma requireAttempt_error: "requireAttempt i s = Inl e \<Longrightarrow> no_illegal (Inl e)"
  by (auto simp: requireAttempt_def validateAttemptId_def Let_def split: sum.splits option.splits if_splits)

lemma cancel_ok:
  assumes "sd_ok s"
  shows "sd_ok (snd (sd_cancel i t s)) \<and> sd_grows s (snd (sd_cancel i t s)) \<and> no_illegal (fst (sd_cancel i t s))"
proof (cases "\<exists>a. requireAttempt i s = Inr a \<and> at_cancellation a = None \<and> sc_state s \<in> {SdReady, SdTimedOut, SdFailed}")
  case True
  then obtain a where a: "requireAttempt i s = Inr a" "at_cancellation a = None" "sc_state s \<in> {SdReady, SdTimedOut, SdFailed}" by blast
  note att = requireAttempt_Inr [OF a(1)]
  let ?c = "\<lparr>cc_attemptId = at_attemptId (closeAttempt a), cc_report = makeReport t SdCancelled (closeAttempt a)\<rparr>"
  have none: "at_confirmation a = None" using att_okD(4) [OF sd_okD(3) [OF assms att]] a(3) by (auto simp: decisions_ok_def)
  have "sd_transition SdConfirming s = Inr (enter SdConfirming s)" using a(3) by (intro legal_transition) auto
  then have "sd_cancel i t s = (Inr ?c, (enter SdConfirming s)\<lparr>sc_attempt := Some ((closeAttempt a)\<lparr>at_cancellation := Some ?c\<rparr>)\<rparr>)"
    using a by (auto simp: sd_cancel_def Let_def)
  moreover have "(closeAttempt a)\<lparr>at_cancellation := Some ?c\<rparr> =
      (closeAttempt a)\<lparr>at_forced := at_forced a, at_confirmation := None, at_cancellation := Some ?c\<rparr>"
    using none by (simp add: closeAttempt_def)
  ultimately show ?thesis using decide_ok [OF assms att a(3), of False "Some ?c" None t _ "at_forced a"] by simp
next
  case False
  then show ?thesis using assms requireAttempt_error [of i s]
    by (auto simp: sd_cancel_def split: sum.split option.split)
qed

lemma confirm_ok:
  assumes "sd_ok s" "sc_attempt s = Some a" "sc_state s \<in> {SdReady, SdTimedOut, SdFailed}" "\<not> forced \<Longrightarrow> sc_state s = SdReady"
  shows "sd_ok (snd (sd_confirm a forced t s)) \<and> sd_grows s (snd (sd_confirm a forced t s)) \<and> no_illegal (fst (sd_confirm a forced t s))"
proof -
  let ?a = "closeAttempt (a\<lparr>at_forced := forced\<rparr>)"
  let ?c = "\<lparr>cf_attemptId = at_attemptId a, cf_forced = forced, cf_report = makeReport t SdConfirmed ?a\<rparr>"
  have none: "at_cancellation a = None" using att_okD(4) [OF sd_okD(3) [OF assms(1,2)]] assms(3) by (auto simp: decisions_ok_def)
  have "sd_transition SdConfirming (s\<lparr>sc_attempt := Some (a\<lparr>at_forced := forced\<rparr>)\<rparr>) = Inr (enter SdConfirming (s\<lparr>sc_attempt := Some (a\<lparr>at_forced := forced\<rparr>)\<rparr>))"
    using assms(3) by (intro legal_transition) auto
  then have r: "sd_confirm a forced t s = (Inr ?c, (enter SdConfirming s)\<lparr>sc_attempt := Some (?a\<lparr>at_confirmation := Some ?c\<rparr>)\<rparr>)"
    by (simp add: sd_confirm_def Let_def enter_def closeAttempt_def)
  have "?a\<lparr>at_confirmation := Some ?c\<rparr> = (closeAttempt a)\<lparr>at_forced := forced, at_confirmation := Some ?c, at_cancellation := None\<rparr>"
    using none by (simp add: closeAttempt_def)
  then show ?thesis unfolding r using decide_ok [OF assms(1,2,3), of forced None "Some ?c" t _ forced] assms(4) by auto
qed

lemma confirmExit_ok:
  assumes "sd_ok s"
  shows "sd_ok (snd (confirmExit i t s)) \<and> sd_grows s (snd (confirmExit i t s)) \<and> no_illegal (fst (confirmExit i t s))"
proof (cases "\<exists>a. requireAttempt i s = Inr a \<and> at_confirmation a = None \<and> sc_state s = SdReady")
  case True
  then obtain a where a: "requireAttempt i s = Inr a" "at_confirmation a = None" "sc_state s = SdReady" by blast
  then show ?thesis using confirm_ok [OF assms requireAttempt_Inr [OF a(1)], of False t] by (simp add: confirmExit_def)
next
  case False
  then show ?thesis using assms requireAttempt_error [of i s]
    by (auto simp: confirmExit_def split: sum.split option.split)
qed

lemma force_ok:
  assumes "sd_ok s"
  shows "sd_ok (snd (sd_force i t s)) \<and> sd_grows s (snd (sd_force i t s)) \<and> no_illegal (fst (sd_force i t s))"
proof (cases "\<exists>a. requireAttempt i s = Inr a \<and> at_confirmation a = None \<and> (sc_state s = SdTimedOut \<or> sc_state s = SdFailed)")
  case True
  then obtain a where a: "requireAttempt i s = Inr a" "at_confirmation a = None" "sc_state s = SdTimedOut \<or> sc_state s = SdFailed" by blast
  then show ?thesis using confirm_ok [OF assms requireAttempt_Inr [OF a(1)], of True t] by (auto simp: sd_force_def)
next
  case False
  then show ?thesis using assms requireAttempt_error [of i s]
    by (auto simp: sd_force_def split: sum.split option.split)
qed

lemma acknowledgeCancellation_ok:
  assumes "sd_ok s"
  shows "sd_ok (snd (acknowledgeCancellation i s)) \<and> sd_grows s (snd (acknowledgeCancellation i s)) \<and> no_illegal (fst (acknowledgeCancellation i s))"
proof (cases "\<exists>a c. requireAttempt i s = Inr a \<and> at_cancellation a = Some c \<and> sc_state s = SdConfirming")
  case True
  then obtain a c where a: "requireAttempt i s = Inr a" "at_cancellation a = Some c" "sc_state s = SdConfirming" by blast
  let ?s = "(enter SdCancelled s)\<lparr>sc_previousReport := Some (cc_report c), sc_attempt := None\<rparr>"
  have "sd_transition SdCancelled s = Inr (enter SdCancelled s)" "sd_transition SdIdle ?s = Inr (enter SdIdle ?s)"
    using a(3) by (intro legal_transition; simp)+
  then have r: "acknowledgeCancellation i s = (Inr c, enter SdIdle ?s)" using a by (simp add: acknowledgeCancellation_def Let_def)
  have "legal_path SdIdle (sc_history s @ [SdCancelled, SdIdle]) SdIdle"
    using legal_enter [OF sd_ok_path [OF assms], of SdCancelled] legal_path_snoc [of SdIdle "sc_history s @ [SdCancelled]" SdIdle SdIdle] a(3) by auto
  then show ?thesis unfolding r using assms by (simp add: sd_ok_def sd_grows_def split: option.split)
next
  case False
  then show ?thesis using assms requireAttempt_error [of i s]
    by (auto simp: acknowledgeCancellation_def split: sum.split option.split)
qed

lemma acknowledgeConfirmation_ok:
  assumes "sd_ok s"
  shows "sd_ok (snd (acknowledgeConfirmation i s)) \<and> sd_grows s (snd (acknowledgeConfirmation i s)) \<and> no_illegal (fst (acknowledgeConfirmation i s))"
proof (cases "\<exists>a c. requireAttempt i s = Inr a \<and> at_confirmation a = Some c \<and> sc_state s = SdConfirming")
  case True
  then obtain a c where a: "requireAttempt i s = Inr a" "at_confirmation a = Some c" "sc_state s = SdConfirming" by blast
  note att = requireAttempt_Inr [OF a(1)]
  note ok = sd_okD(3) [OF assms att]
  have "sd_transition SdConfirmed s = Inr (enter SdConfirmed s)" using a(3) by (intro legal_transition) simp
  then have r: "acknowledgeConfirmation i s = (Inr c, (enter SdConfirmed s)\<lparr>sc_previousReport := Some (cf_report c)\<rparr>)"
    using a by (simp add: acknowledgeConfirmation_def)
  have "att_ok SdConfirmed a"
    using ok a(2,3) by (auto simp: att_ok_def window_ok_def decisions_ok_def split: drain_window.splits)
  moreover have "legal_path SdIdle (sc_history s @ [SdConfirmed]) SdConfirmed"
    using legal_enter [OF sd_ok_path [OF assms], of SdConfirmed] a(3) by auto
  ultimately show ?thesis unfolding r using assms att by (simp add: sd_ok_def sd_grows_def)
next
  case False
  then show ?thesis using assms requireAttempt_error [of i s]
    by (auto simp: acknowledgeConfirmation_def split: sum.split option.split)
qed

text \<open>A change of one participant.\<close>

lemma group_order_update:
  assumes "group_order rest ps" "i < length ps" "ap_definition q = ap_definition (ps ! i)"
    "ap_wait q \<noteq> WaitNone \<Longrightarrow> ap_wait (ps ! i) \<noteq> WaitNone"
    "ap_wait q = WaitNone \<Longrightarrow> ended_status q \<or> ap_wait (ps ! i) = WaitNone \<and> \<not> ended_status (ps ! i)"
  shows "group_order rest (ps[i := q])"
proof -
  obtain cur where cur: "\<forall>q \<in> set rest. q < cur" "sorted_wrt (>) rest"
    "\<forall>p \<in> set ps. if prio p \<in> set rest then ap_wait p = WaitNone
       else cur \<le> prio p \<and> (if ap_wait p = WaitNone then ended_status p else prio p = cur)"
    using assms(1) unfolding group_order_def by blast
  have "ps ! i \<in> set ps" using assms(2) by simp
  then have "if prio q \<in> set rest then ap_wait q = WaitNone
       else cur \<le> prio q \<and> (if ap_wait q = WaitNone then ended_status q else prio q = cur)"
    using cur(3) assms(3-5) by (auto split: if_splits)
  then show ?thesis using cur set_update_subset_insert [of ps i q] unfolding group_order_def
    by (intro conjI exI [of _ cur]) blast+
qed

lemma att_update:
  assumes "att_ok state a" "i < length (at_participants a)" "part_ok (at_closed a) (at_round a) q"
    "ap_definition q = ap_definition (at_participants a ! i)"
    "at_closed a \<or> state = SdReady \<Longrightarrow> ap_status q = ap_status (at_participants a ! i) \<and> ap_invocationRound q = ap_invocationRound (at_participants a ! i)"
    "ap_wait q \<noteq> WaitNone \<Longrightarrow> ap_wait (at_participants a ! i) \<noteq> WaitNone"
    "ap_wait q = WaitNone \<Longrightarrow> ended_status q \<or> ap_wait (at_participants a ! i) = WaitNone \<and> \<not> ended_status (at_participants a ! i)"
    "\<And>d rest e. at_window a = WindowGroup d rest \<Longrightarrow> ap_wait q = WaitTimer e \<Longrightarrow> e \<le> d"
  shows "att_ok state (a\<lparr>at_participants := (at_participants a)[i := q]\<rparr>)"
proof -
  let ?ps = "at_participants a" and ?qs = "(at_participants a)[i := q]"
  have sub: "p \<in> set ?qs \<Longrightarrow> p = q \<or> p \<in> set ?ps" for p using set_update_subset_insert [of ?ps i q] by auto
  have pi: "?ps ! i \<in> set ?ps" using assms(2) by simp
  have same: "drained (at_round a) q \<longleftrightarrow> drained (at_round a) (?ps ! i)" if "at_closed a \<or> state = SdReady"
    using assms(4) assms(5) [OF that] by (simp add: drained_def)
  have st: "map (\<lambda>p. (df_name (ap_definition p), ap_status p)) ?qs = map (\<lambda>p. (df_name (ap_definition p), ap_status p)) ?ps" if "at_closed a"
    using assms(2,4) assms(5) that by (simp add: map_update list_update_same_conv)
  have cl: "at_closed a" if "at_confirmation a = Some c" for c
    using that att_okD(1,4) [OF assms(1)] by (auto simp: decisions_ok_def split: if_splits)
  have win: "window_ok state (at_window a) ?qs"
  proof (cases "at_window a")
    case (WindowGroup d rest)
    then have "group_order rest ?qs"
      using att_okD(3) [OF assms(1)] by (intro group_order_update [OF _ assms(2,4,6,7)]) (simp add: window_ok_def)
    moreover have old: "state = SdDraining" "\<forall>p \<in> set ?ps. \<forall>e. ap_wait p = WaitTimer e \<longrightarrow> e \<le> d"
      using att_okD(3) [OF assms(1)] WindowGroup by (simp_all add: window_ok_def)
    moreover have "\<forall>p \<in> set ?qs. \<forall>e. ap_wait p = WaitTimer e \<longrightarrow> e \<le> d"
      using sub old(2) assms(8) [OF WindowGroup] by blast
    ultimately show ?thesis using WindowGroup by (simp add: window_ok_def)
  qed (use att_okD(3) [OF assms(1)] assms(6) pi sub in \<open>auto simp: window_ok_def\<close>)
  show ?thesis
    unfolding att_ok_def
  proof (intro conjI allI impI ballI)
    fix p assume "p \<in> set (at_participants (a\<lparr>at_participants := ?qs\<rparr>))"
    then show "part_ok (at_closed (a\<lparr>at_participants := ?qs\<rparr>)) (at_round (a\<lparr>at_participants := ?qs\<rparr>)) p"
      using sub [of p] att_okD(2) [OF assms(1)] assms(3) by auto
  next
    fix p assume "state = SdReady" "p \<in> set (at_participants (a\<lparr>at_participants := ?qs\<rparr>))"
    then show "drained (at_round (a\<lparr>at_participants := ?qs\<rparr>)) p"
      using sub [of p] att_okD(5) [OF assms(1)] same pi by auto
  next
    fix c assume c: "at_confirmation (a\<lparr>at_participants := ?qs\<rparr>) = Some c"
    then show "map (\<lambda>r. (pp_name r, pp_status r)) (rt_participants (cf_report c)) =
        map (\<lambda>p. (df_name (ap_definition p), ap_status p)) (at_participants (a\<lparr>at_participants := ?qs\<rparr>))"
      using att_okD(6) [OF assms(1), of c] st cl by simp
    fix p assume "\<not> cf_forced c" "p \<in> set (at_participants (a\<lparr>at_participants := ?qs\<rparr>))"
    then show "drained (at_round (a\<lparr>at_participants := ?qs\<rparr>)) p"
      using c sub [of p] att_okD(7) [OF assms(1), of c] same cl pi by auto
  qed (use att_okD(1,4) [OF assms(1)] win in simp_all)
qed

lemma with_participant_ok:
  assumes "sd_ok s" "sc_attempt s = Some a"
    "i < length (at_participants a) \<Longrightarrow> att_ok (sc_state s) (a\<lparr>at_participants := (at_participants a)[i := f (at_participants a ! i)]\<rparr>)"
    "i < length (at_participants a) \<Longrightarrow> ap_definition (f (at_participants a ! i)) = ap_definition (at_participants a ! i) \<and>
       (ap_calls (f (at_participants a ! i)) = ap_calls (at_participants a ! i) \<or>
        ap_calls (f (at_participants a ! i)) = ap_calls (at_participants a ! i) @ [at_round a] \<and> ap_wait (f (at_participants a ! i)) \<noteq> WaitNone)"
  shows "sd_ok (with_participant i f s) \<and> sd_grows s (with_participant i f s)"
proof (cases "i < length (at_participants a)")
  case True
  have "calls_grow (at_round a) (at_participants a) ((at_participants a)[i := f (at_participants a ! i)])"
    using True assms(4) [OF True] by (auto simp: calls_grow_def list_all2_conv_all_nth nth_list_update)
  then show ?thesis using assms(1,2) assms(3) True by (auto simp: with_participant_def sd_ok_def sd_grows_def)
next
  case False
  then show ?thesis using assms(1,2) by (simp add: with_participant_def)
qed

lemma sd_settle_ok:
  assumes "sd_ok s"
  shows "sd_ok (sd_settle i ok t s) \<and> sd_grows s (sd_settle i ok t s)"
proof (cases "sc_attempt s")
  case None
  then show ?thesis using assms by (simp add: sd_settle_def)
next
  case (Some a)
  note att = sd_okD(3) [OF assms Some]
  have "sd_ok (with_participant i (settle_participant (at_closed a) ok t) s) \<and> sd_grows s (with_participant i (settle_participant (at_closed a) ok t) s)"
  proof (rule with_participant_ok [OF assms Some])
    let ?p = "at_participants a ! i"
    let ?q = "settle_participant (at_closed a) ok t ?p"
    assume i: "i < length (at_participants a)"
    have pi: "?p \<in> set (at_participants a)" using i by simp
    note p = att_okD(2) [OF att pi]
    have def': "ap_definition ?q = ap_definition ?p" "ap_calls ?q = ap_calls ?p" "ap_invocationRound ?q = ap_invocationRound ?p"
      by (simp_all add: settle_participant_def Let_def)
    have same: "ap_status ?q = ap_status ?p" if "at_closed a \<or> sc_state s = SdReady"
      using that att_okD(5) [OF att _ pi] part_okD(7) [OF p] by (auto simp: settle_participant_def Let_def drained_def done_status_def)
    have w: "ap_wait ?q = WaitNone \<longleftrightarrow> ap_wait ?p = WaitNone" "\<forall>e. ap_wait ?q = WaitTimer e \<longrightarrow> ap_wait ?p = WaitTimer e"
      by (auto simp: settle_participant_def Let_def split: drain_wait.splits)
    have en: "ended_status ?q \<or> \<not> ended_status ?p" by (auto simp: settle_participant_def Let_def ended_status_def)
    show "att_ok (sc_state s) (a\<lparr>at_participants := (at_participants a)[i := ?q]\<rparr>)"
    proof (rule att_update [OF att i settle_participant_ok [OF p] def'(1)])
      show "ap_status ?q = ap_status ?p \<and> ap_invocationRound ?q = ap_invocationRound ?p" if "at_closed a \<or> sc_state s = SdReady"
        using same that def'(3) by simp
      show "e \<le> d" if "at_window a = WindowGroup d rest" "ap_wait ?q = WaitTimer e" for d rest e
        using att_okD(3) [OF att] that w(2) pi by (auto simp: window_ok_def)
    qed (use w en in auto)
    show "ap_definition ?q = ap_definition ?p \<and> (ap_calls ?q = ap_calls ?p \<or> ap_calls ?q = ap_calls ?p @ [at_round a] \<and> ap_wait ?q \<noteq> WaitNone)"
      using def' by simp
  qed
  then show ?thesis using Some by (simp add: sd_settle_def)
qed

lemma sd_timer_ok:
  assumes "sd_ok s"
  shows "sd_ok (sd_timer i t s) \<and> sd_grows s (sd_timer i t s)"
proof (cases "sc_attempt s")
  case None
  then show ?thesis using assms by (simp add: sd_timer_def with_participant_def)
next
  case (Some a)
  note att = sd_okD(3) [OF assms Some]
  show ?thesis
    unfolding sd_timer_def
  proof (rule with_participant_ok [OF assms Some])
    let ?p = "at_participants a ! i"
    let ?q = "fire_timer t ?p"
    assume i: "i < length (at_participants a)"
    have pi: "?p \<in> set (at_participants a)" using i by simp
    have q: "ap_definition ?q = ap_definition ?p" "ap_calls ?q = ap_calls ?p" "ap_status ?q = ap_status ?p" "ap_invocationRound ?q = ap_invocationRound ?p"
      "ap_wait ?q = WaitNone \<longleftrightarrow> ap_wait ?p = WaitNone" "\<forall>e. ap_wait ?q = WaitTimer e \<longrightarrow> ap_wait ?p = WaitTimer e"
      by (auto simp: fire_timer_def split: drain_wait.splits)
    show "att_ok (sc_state s) (a\<lparr>at_participants := (at_participants a)[i := ?q]\<rparr>)"
    proof (rule att_update [OF att i fire_timer_ok [OF att_okD(2) [OF att pi]] q(1)])
      show "e \<le> d" if "at_window a = WindowGroup d rest" "ap_wait ?q = WaitTimer e" for d rest e
        using att_okD(3) [OF att] that q(6) pi by (auto simp: window_ok_def)
    qed (use q in \<open>auto simp: ended_status_def\<close>)
    show "ap_definition ?q = ap_definition ?p \<and> (ap_calls ?q = ap_calls ?p \<or> ap_calls ?q = ap_calls ?p @ [at_round a] \<and> ap_wait ?q \<noteq> WaitNone)"
      using q by simp
  qed
qed

lemma resume_calls:
  assumes "part_ok False rnd p" "resumeParticipant False rnd d t w p = Some q"
  shows "ap_calls q = ap_calls p \<or> ap_calls q = ap_calls p @ [rnd] \<and> ap_wait q \<noteq> WaitNone"
  using assms(2) run_once_calls [of rnd d t p] run_participant_once [OF assms(1), of d t]
  by (auto simp: resumeParticipant_def markTimedOut_def split: if_splits)

lemma sd_resume_ok:
  assumes "sd_ok s"
  shows "\<exists>s'. sd_resume i t s = Some s' \<and> sd_ok s' \<and> sd_grows s s'"
proof (cases "\<exists>a d rest w. sc_attempt s = Some a \<and> i < length (at_participants a) \<and> at_window a = WindowGroup d rest \<and> ap_wait (at_participants a ! i) = WaitWoken w")
  case True
  then obtain a d rest w where a: "sc_attempt s = Some a" "i < length (at_participants a)" "at_window a = WindowGroup d rest"
    "ap_wait (at_participants a ! i) = WaitWoken w" by blast
  let ?p = "at_participants a ! i"
  note att = sd_okD(3) [OF assms a(1)]
  have pi: "?p \<in> set (at_participants a)" using a(2) by simp
  have dr: "sc_state s = SdDraining" using att_okD(3) [OF att] a(3) by (simp add: window_ok_def)
  then have open_: "\<not> at_closed a" using att_okD(1) [OF att] by simp
  then have p: "part_ok False (at_round a) ?p" using att_okD(2) [OF att pi] by simp
  obtain q where q: "resumeParticipant False (at_round a) d t w ?p = Some q" "part_ok False (at_round a) q" "ap_definition q = ap_definition ?p"
    "ap_wait q = WaitNone \<longrightarrow> ap_status q \<in> {PsCompleted, PsFailed, PsTimedOut}" "\<forall>e. ap_wait q = WaitTimer e \<longrightarrow> e \<le> d"
    using resume_ok [OF p a(4), of d t] by blast
  have r: "sd_resume i t s = Some (with_participant i (\<lambda>_. q) s)" using a open_ q(1) by (simp add: sd_resume_def)
  have "sd_ok (with_participant i (\<lambda>_. q) s) \<and> sd_grows s (with_participant i (\<lambda>_. q) s)"
  proof (rule with_participant_ok [OF assms a(1)])
    show "att_ok (sc_state s) (a\<lparr>at_participants := (at_participants a)[i := q]\<rparr>)"
      by (rule att_update [OF att a(2)]) (use q a(3,4) open_ dr in \<open>auto simp: ended_status_def\<close>)
    show "ap_definition q = ap_definition ?p \<and> (ap_calls q = ap_calls ?p \<or> ap_calls q = ap_calls ?p @ [at_round a] \<and> ap_wait q \<noteq> WaitNone)"
      using q(3) resume_calls [OF p q(1)] by simp
  qed
  then show ?thesis using r by blast
next
  case False
  then have "sd_resume i t s = Some s" by (auto simp: sd_resume_def split: option.split drain_window.split drain_wait.split)
  then show ?thesis using assms by simp
qed

lemma sd_window_ok:
  assumes "sd_ok s"
  shows "\<exists>s'. sd_window t s = Some s' \<and> sd_ok s' \<and> sd_grows s s'"
proof (cases "sc_attempt s")
  case None
  then show ?thesis using assms by (simp add: sd_window_def)
next
  case (Some a)
  note att = sd_okD(3) [OF assms Some]
  have settled: "\<forall>r \<in> set (sc_settled s). \<not> isl r" using assms by (simp add: sd_ok_def)
  have out: "\<exists>s''. Some s' = Some s'' \<and> sd_ok s'' \<and> sd_grows s s''"
    if "sd_ok s'" "sc_attempt s' = Some b" "at_attemptId b = at_attemptId a" "calls_grow (at_round b) (at_participants a) (at_participants b)" for s' b
    using that Some by (simp add: sd_grows_def)
  show ?thesis
  proof (cases "at_window a")
    case WindowNone
    then show ?thesis using Some assms by (simp add: sd_window_def)
  next
    case WindowQueued
    then have req: "sc_state s = SdRequested" "\<forall>p \<in> set (at_participants a). ap_wait p = WaitNone"
      using att_okD(3) [OF att] by (simp_all add: window_ok_def)
    have open_: "\<not> at_closed a" "at_confirmation a = None" "at_cancellation a = None"
      using att_okD(1,4) [OF att] req(1) by (auto simp: decisions_ok_def)
    have tr: "sd_transition SdDraining s = Inr (enter SdDraining s)" using req(1) by (intro legal_transition) simp
    have path: "legal_path SdIdle (sc_history (enter SdDraining s)) (sc_state (enter SdDraining s))"
      using legal_enter [OF sd_ok_path [OF assms], of SdDraining] req(1) by simp
    have "drainable (at_round a) (descending_priorities (at_participants a)) (at_participants a)"
      using req(2) att_okD(2) [OF att] open_(1) by (intro descending_drainable) auto
    then obtain s' b where s': "continue_window t (t + SHUTDOWN_WAIT_LIMIT_MS) (descending_priorities (at_participants a)) a (enter SdDraining s) = Some s'"
      "sd_ok s'" "sc_attempt s' = Some b" "at_attemptId b = at_attemptId a" "calls_grow (at_round b) (at_participants a) (at_participants b)"
      using continue_window_ok [of a "descending_priorities (at_participants a)" "enter SdDraining s" t "t + SHUTDOWN_WAIT_LIMIT_MS"]
        open_ path settled by auto
    then show ?thesis using out [OF s'(2-5)] Some WindowQueued tr by (simp add: sd_window_def runDrainWindow_def)
  next
    case (WindowGroup d rest)
    have dr: "sc_state s = SdDraining" "group_order rest (at_participants a)" using att_okD(3) [OF att] WindowGroup by (simp_all add: window_ok_def)
    have open_: "\<not> at_closed a" "at_confirmation a = None" "at_cancellation a = None"
      using att_okD(1,4) [OF att] dr(1) by (auto simp: decisions_ok_def)
    show ?thesis
    proof (cases "list_all (\<lambda>p. ap_wait p = WaitNone) (at_participants a)")
      case True
      have "drainable (at_round a) rest (at_participants a)"
        using True dr(2) att_okD(2) [OF att] open_(1) by (fastforce simp: drainable_def group_order_def list_all_iff)
      then obtain s' b where s': "continue_window t d rest a s = Some s'"
        "sd_ok s'" "sc_attempt s' = Some b" "at_attemptId b = at_attemptId a" "calls_grow (at_round b) (at_participants a) (at_participants b)"
        using continue_window_ok [of a rest s t d] open_ dr(1) sd_ok_path [OF assms] settled by auto
      then show ?thesis using out [OF s'(2-5)] Some WindowGroup True by (simp add: sd_window_def)
    next
      case False
      then show ?thesis using assms Some WindowGroup by (simp add: sd_window_def)
    qed
  qed
qed

end
