(* ===== verification/ShutdownRuns.thy ===== *)
theory ShutdownRuns
  imports ShutdownSafety
begin

text \<open>
  Runs of the shutdown coordinator and its properties.
\<close>

section \<open>Steps\<close>

definition sd_steps :: "shutdown_coordinator \<Rightarrow> shutdown_event \<Rightarrow> shutdown_coordinator \<Rightarrow> bool" where
  "sd_steps s e s' \<longleftrightarrow> sd_step e s = Some s'"

lemma step_total:
  assumes "sd_ok s"
  shows "\<exists>s'. sd_step e s = Some s' \<and> sd_ok s' \<and> sd_grows s s'"
proof (cases e)
  case (SdWait i t)
  then show ?thesis using wait_ok [OF assms, of i t] by auto
qed (use assms sd_register_ok unregister_ok requestClose_ok cancel_ok acknowledgeCancellation_ok confirmExit_ok force_ok acknowledgeConfirmation_ok
      sd_window_ok sd_settle_ok sd_timer_ok sd_resume_ok in simp_all)

lemma step_ok: "sd_ok s \<Longrightarrow> sd_step e s = Some s' \<Longrightarrow> sd_ok s' \<and> sd_grows s s'"
  using step_total [of s e] by auto

interpretation shutdown: invariant_machine sd_steps "\<lambda>s. s = new_shutdown" sd_ok
  by unfold_locales (auto simp: sd_steps_def step_ok, simp add: sd_ok_def new_shutdown_def)

lemma run_reaches: "sd_run es s = Some t \<Longrightarrow> reaches sd_steps s t"
proof (induction es arbitrary: s)
  case (Cons e es)
  then obtain u where "sd_step e s = Some u" "sd_run es u = Some t" by (cases "sd_step e s") auto
  then show ?case using Cons.IH [of u] by (metis reaches_one reaches_trans sd_steps_def)
qed (simp add: reaches_refl)

lemma sd_run_ok: "sd_run es new_shutdown = Some s \<Longrightarrow> sd_ok s"
  by (rule shutdown.reachable_inv [OF refl run_reaches])

lemma sd_run_total: "sd_ok s \<Longrightarrow> \<exists>t. sd_run es s = Some t \<and> sd_ok t"
proof (induction es arbitrary: s)
  case (Cons e es)
  then obtain u where "sd_step e s = Some u" "sd_ok u" using step_total by blast
  then show ?case using Cons.IH by simp
qed simp

lemma new_ok: "sd_ok new_shutdown"
  by (rule shutdown.inv_start) simp

lemma run_append: "sd_run (es @ es') s = Option.bind (sd_run es s) (sd_run es')"
  by (induction es arbitrary: s) (auto split: bind_splits)

section \<open>Errors\<close>

lemma no_illegal_thrown: "no_illegal r \<Longrightarrow> thrown r \<noteq> Some (SdIllegal x y)" "no_illegal r \<Longrightarrow> thrown r \<noteq> Some SdClosedWhileRunning"
  by (auto simp: no_illegal_def thrown_def split: sum.splits)

lemma register_no_illegal: "no_illegal (fst (sd_register p s))"
  by (auto simp: sd_register_def validateParticipant_def Let_def)

lemma requestClose_no_illegal:
  assumes "sd_ok s"
  shows "no_illegal (fst (requestClose i t s))"
proof (cases "validateAttemptId i")
  case (Inl e)
  then show ?thesis by (auto simp: requestClose_def validateAttemptId_def Let_def split: if_splits)
next
  case (Inr j)
  show ?thesis
  proof (cases "sc_attempt s")
    case None
    then have "sc_state s = SdIdle" using assms by (simp add: sd_ok_def)
    then show ?thesis using Inr None by (simp add: requestClose_def sd_transition_def Let_def)
  qed (use Inr in \<open>simp add: requestClose_def\<close>)
qed

lemmas calls_no_illegal = register_no_illegal requestClose_no_illegal
  cancel_ok [THEN conjunct2, THEN conjunct2] acknowledgeCancellation_ok [THEN conjunct2, THEN conjunct2]
  confirmExit_ok [THEN conjunct2, THEN conjunct2] force_ok [THEN conjunct2, THEN conjunct2]
  acknowledgeConfirmation_ok [THEN conjunct2, THEN conjunct2]

lemma no_wrong_error:
  assumes "sd_ok s"
  shows "sd_error e s \<noteq> Some (SdIllegal x y) \<and> sd_error e s \<noteq> Some SdClosedWhileRunning"
proof (cases e)
  case (SdWait i t)
  obtain r s' where r: "sd_wait i t s = Some (r, s')" "\<forall>x y. r \<noteq> Inl (SdIllegal x y)" "r \<noteq> Inl SdClosedWhileRunning"
    using wait_ok [OF assms, of i t] by auto
  then show ?thesis using SdWait by (cases r) (auto simp: thrown_def)
qed (simp_all add: no_illegal_thrown calls_no_illegal assms)

text \<open>C16. The shutdown coordinator never goes wrong: whatever calls, settlements, timers and continuations come in
  whatever order and at whatever times, no loop runs forever, every transition is one of \<open>LEGAL_TRANSITIONS\<close> and
  the history is a path of them, no promise of a drain window is rejected, no further call fails with an illegal transition,
  and new work is accepted exactly while there is no attempt.\<close>

theorem shutdown_never_goes_wrong:
  "case sd_run es new_shutdown of
     None \<Rightarrow> False
   | Some s \<Rightarrow>
       legal_path SdIdle (sc_history s) (sc_state s) \<and> list_all (\<lambda>r. \<not> isl r) (sc_settled s) \<and>
       (acceptsNewWork s \<longleftrightarrow> sc_attempt s = None) \<and>
       (case sd_error e s of Some (SdIllegal x y) \<Rightarrow> False | Some SdClosedWhileRunning \<Rightarrow> False | _ \<Rightarrow> True)"
proof -
  obtain s where s: "sd_run es new_shutdown = Some s" "sd_ok s" using sd_run_total [OF new_ok] by blast
  have "acceptsNewWork s \<longleftrightarrow> sc_attempt s = None" using s(2) by (cases "sc_attempt s") (auto simp: sd_ok_def acceptsNewWork_def)
  moreover have "case sd_error e s of Some (SdIllegal x y) \<Rightarrow> False | Some SdClosedWhileRunning \<Rightarrow> False | _ \<Rightarrow> True"
    using no_wrong_error [OF s(2), of e] by (auto split: option.split shutdown_error.split)
  ultimately show ?thesis using s by (simp add: sd_ok_def list_all_iff)
qed

section \<open>Draining\<close>

lemma part_of: "sd_ok s \<Longrightarrow> sc_attempt s = Some a \<Longrightarrow> i < length (at_participants a) \<Longrightarrow> part_ok (at_closed a) (at_round a) (at_participants a ! i)"
  using att_okD(2) sd_okD(3) nth_mem by blast

lemma waited_group:
  assumes "sd_ok s" "sc_attempt s = Some a" "p \<in> set (at_participants a)" "ap_wait p \<noteq> WaitNone" "q \<in> set (at_participants a)" "prio p < prio q"
  shows "ap_wait q = WaitNone \<and> ended_status q"
proof -
  note w = att_okD(3) [OF sd_okD(3) [OF assms(1,2)]]
  obtain d rest where "at_window a = WindowGroup d rest" using w assms(3,4) by (auto simp: window_ok_def split: drain_window.splits)
  then have "group_order rest (at_participants a)" using w by (simp add: window_ok_def)
  then obtain cur where cur: "\<forall>r \<in> set rest. r < cur"
    "\<forall>p \<in> set (at_participants a). if prio p \<in> set rest then ap_wait p = WaitNone
       else cur \<le> prio p \<and> (if ap_wait p = WaitNone then ended_status p else prio p = cur)"
    unfolding group_order_def by blast
  have "prio p = cur" using bspec [OF cur(2) assms(3)] assms(4) by (simp split: if_splits)
  then show ?thesis using bspec [OF cur(2) assms(5)] cur(1) assms(6) by (auto split: if_splits)
qed

text \<open>Two participants, the first to be drained before the second, which is a barrier.\<close>

definition example_participant :: "string \<Rightarrow> int \<Rightarrow> bool \<Rightarrow> shutdown_participant" where
  "example_participant name priority barrier =
     \<lparr>pd_name = name, pd_priority = js_int priority, pd_timeoutMs = js_int 100, pd_repeatableBarrier = barrier\<rparr>"

definition example_events :: "shutdown_event list" where
  "example_events =
     [SdRegister (example_participant ''save'' 5 True), SdRegister (example_participant ''flush'' 10 False),
      SdRequestClose ''attempt-1'' 0, SdWindow 0, SdSettle 0 True 1, SdResume 0 1, SdWindow 1, SdSettle 1 True 2, SdResume 1 2,
      SdWindow 2, SdConfirmExit ''attempt-1'' 3]"

definition example_state :: "nat \<Rightarrow> shutdown_coordinator" where
  "example_state n = the (sd_run (take n example_events) new_shutdown)"

text \<open>C17. Participants are drained once and in the order of their priorities: the rounds in which a participant was called
  strictly increase, so a barrier is called at most once in a round, and any other participant at most once in the whole attempt;
  and when a step calls a participant, every participant of higher priority has already completed, failed or timed out
  and is not waited for.\<close>

theorem drained_once_and_in_order:
  assumes "sd_run es new_shutdown = Some s" "sc_attempt s = Some a" "sd_step e s = Some s'" "sc_attempt s' = Some b"
    "i < length (at_participants b)" "j < length (at_participants b)"
  shows "sorted_wrt (<) (ap_calls (at_participants b ! i)) \<and> list_all (\<lambda>r. r \<le> at_round b) (ap_calls (at_participants b ! i)) \<and>
    (if df_repeatableBarrier (ap_definition (at_participants b ! i)) then True else length (ap_calls (at_participants b ! i)) \<le> 1) \<and>
    (if ap_calls (at_participants b ! i) \<noteq> ap_calls (at_participants a ! i) \<and> prio (at_participants b ! i) < prio (at_participants b ! j)
     then ap_wait (at_participants b ! j) = WaitNone \<and> ap_status (at_participants b ! j) \<in> {PsCompleted, PsFailed, PsTimedOut} else True)"
proof -
  have ok: "sd_ok s'" "sd_grows s s'" using step_ok [OF sd_run_ok [OF assms(1)] assms(3)] by simp_all
  note p = part_okD(4-6) [OF part_of [OF ok(1) assms(4,5)]]
  have "ap_wait (at_participants b ! i) \<noteq> WaitNone" if "ap_calls (at_participants b ! i) \<noteq> ap_calls (at_participants a ! i)"
    using ok(2) assms(2,4,5) that by (auto simp: sd_grows_def calls_grow_def list_all2_conv_all_nth)
  then show ?thesis using p waited_group [OF ok(1) assms(4) nth_mem [OF assms(5)] _ nth_mem [OF assms(6)]]
    by (auto simp: list_all_iff ended_status_def)
qed

theorem drained_once_and_in_order_witness:
  "let s = example_state 7 in
     ap_calls (at_participants (the (sc_attempt s)) ! 1) = [0] \<and> ap_wait (at_participants (the (sc_attempt s)) ! 0) = WaitNone \<and>
     ap_status (at_participants (the (sc_attempt s)) ! 0) \<in> {PsCompleted, PsFailed, PsTimedOut}"
proof -
  have eval: "sd_run (take 6 example_events) new_shutdown = Some (example_state 6)"
    "sc_attempt (example_state 6) = Some (the (sc_attempt (example_state 6)))"
    "sd_step (SdWindow 1) (example_state 6) = Some (example_state 7)"
    "sc_attempt (example_state 7) = Some (the (sc_attempt (example_state 7)))"
    "length (at_participants (the (sc_attempt (example_state 7)))) = 2"
    "ap_calls (at_participants (the (sc_attempt (example_state 6))) ! 1) = []"
    "ap_calls (at_participants (the (sc_attempt (example_state 7))) ! 1) = [0]"
    "prio (at_participants (the (sc_attempt (example_state 7))) ! 1) < prio (at_participants (the (sc_attempt (example_state 7))) ! 0)"
    by code_simp+
  then show ?thesis
    using drained_once_and_in_order [OF eval(1-4), of 1 0] by (simp add: Let_def)
qed

section \<open>Decisions\<close>

lemma confirmation_of_call:
  assumes "confirmExit i t s = (Inr c, s')"
  shows "\<exists>a. sc_attempt s' = Some a \<and> at_confirmation a = Some c"
  using assms requireAttempt_Inr [of i s]
  by (auto simp: confirmExit_def sd_confirm_def sd_transition_def Let_def split: sum.splits option.splits if_splits)

text \<open>C18. A normal exit is confirmed only when everything is drained: if \<open>confirmExit\<close> returns a confirmation that is not
  forced, then every participant has completed, every barrier in the current round, and the report says so.\<close>

theorem normal_exit_is_drained:
  assumes "sd_run es new_shutdown = Some s" "confirmExit i t s = (Inr c, s')" "\<not> cf_forced c"
  shows "case sc_attempt s' of
      None \<Rightarrow> False
    | Some a \<Rightarrow>
        list_all (\<lambda>p. ap_status p = PsCompleted \<and> ap_settled p \<and>
          (if df_repeatableBarrier (ap_definition p) then at_round a \<in> set (ap_calls p) else ap_calls p \<noteq> [])) (at_participants a) \<and>
        map pp_name (rt_participants (cf_report c)) = map (\<lambda>p. df_name (ap_definition p)) (at_participants a) \<and>
        list_all (\<lambda>r. pp_status r = PsCompleted) (rt_participants (cf_report c))"
proof -
  have ok: "sd_ok s'" using confirmExit_ok [OF sd_run_ok [OF assms(1)], of i t] assms(2) by simp
  obtain a where a: "sc_attempt s' = Some a" "at_confirmation a = Some c" using confirmation_of_call [OF assms(2)] by blast
  note att = sd_okD(3) [OF ok a(1)]
  have dr: "drained (at_round a) p" "part_ok (at_closed a) (at_round a) p" if "p \<in> set (at_participants a)" for p
    using att_okD(7) [OF att a(2) assms(3) that] att_okD(2) [OF att that] by simp_all
  have one: "ap_status p = PsCompleted \<and> ap_settled p \<and>
      (if df_repeatableBarrier (ap_definition p) then at_round a \<in> set (ap_calls p) else ap_calls p \<noteq> [])" if "p \<in> set (at_participants a)" for p
  proof -
    have st: "ap_status p = PsCompleted" "ap_settled p" using dr [OF that] part_okD(7) [OF dr(2) [OF that]] by (simp_all add: drained_def done_status_def)
    then have "ap_calls p \<noteq> []" using part_okD(1,2) [OF dr(2) [OF that]] by simp
    moreover have "last (ap_calls p) = at_round a" if "df_repeatableBarrier (ap_definition p)"
      using dr(1) [OF \<open>p \<in> _\<close>] part_okD(3) [OF dr(2) [OF \<open>p \<in> _\<close>]] that \<open>ap_calls p \<noteq> []\<close> by (simp add: drained_def)
    ultimately show ?thesis using st last_in_set [of "ap_calls p"] by metis
  qed
  note rep = att_okD(6) [OF att a(2)]
  have names: "map pp_name (rt_participants (cf_report c)) = map (\<lambda>p. df_name (ap_definition p)) (at_participants a)"
    and stats: "map pp_status (rt_participants (cf_report c)) = map ap_status (at_participants a)"
    using arg_cong [OF rep, of "map fst"] arg_cong [OF rep, of "map snd"] by (simp_all add: comp_def)
  have "pp_status r = PsCompleted" if "r \<in> set (rt_participants (cf_report c))" for r
  proof -
    have "pp_status r \<in> set (map ap_status (at_participants a))" using that unfolding stats [symmetric] by simp
    then show ?thesis using one by auto
  qed
  then show ?thesis using a(1) one names by (simp add: list_all_iff)
qed

theorem normal_exit_is_drained_witness:
  "map pp_name (rt_participants (cf_report (the (at_confirmation (the (sc_attempt (example_state 11))))))) = [''flush'', ''save''] \<and>
   list_all (\<lambda>r. pp_status r = PsCompleted) (rt_participants (cf_report (the (at_confirmation (the (sc_attempt (example_state 11)))))))"
proof -
  have eval: "sd_run (take 10 example_events) new_shutdown = Some (example_state 10)"
    "confirmExit ''attempt-1'' 3 (example_state 10) = (Inr (the (at_confirmation (the (sc_attempt (example_state 11))))), example_state 11)"
    "\<not> cf_forced (the (at_confirmation (the (sc_attempt (example_state 11)))))"
    "sc_attempt (example_state 11) = Some (the (sc_attempt (example_state 11)))"
    "map (\<lambda>p. df_name (ap_definition p)) (at_participants (the (sc_attempt (example_state 11)))) = [''flush'', ''save'']"
    by code_simp+
  show ?thesis using normal_exit_is_drained [OF eval(1-3)] eval(4,5) by (simp split: option.splits)
qed

text \<open>A decision is final: once an attempt is confirmed it is not cancelled, the confirmation is returned again by every
  later call for the attempt and cancelling is refused; after the acknowledgement nothing changes the state or the confirmation.\<close>

theorem confirmation_is_final:
  assumes "sd_run es new_shutdown = Some s" "sc_attempt s = Some a" "at_confirmation a = Some c" "validateAttemptId i = Inr (at_attemptId a)"
    "sd_step e s = Some s'"
  shows "at_cancellation a = None \<and> confirmExit i t s = (Inr c, s) \<and> sd_force i t s = (Inr c, s) \<and>
    sd_cancel i t s = (Inl (SdNotAllowed (sc_state s)), s) \<and>
    sc_state s' \<in> {SdConfirming, SdConfirmed} \<and> (if sc_state s = SdConfirmed then sc_state s' = SdConfirmed else True) \<and>
    Option.bind (sc_attempt s') at_confirmation = Some c"
proof -
  note ok = sd_run_ok [OF assms(1)]
  note att = sd_okD(3) [OF ok assms(2)]
  have st: "sc_state s \<in> {SdConfirming, SdConfirmed}" "at_cancellation a = None"
    using att_okD(4) [OF att] assms(3) by (auto simp: decisions_ok_def split: if_splits)
  have req: "requireAttempt i s = Inr a" using assms(2,4) by (simp add: requireAttempt_def)
  have any: "requireAttempt k s = Inr x \<Longrightarrow> x = a" for k x using requireAttempt_Inr assms(2) by force
  have win: "at_window a = WindowNone" using decision_idle(1) [OF att] st(1) by auto
  have "sc_state s' \<in> {SdConfirming, SdConfirmed} \<and> (if sc_state s = SdConfirmed then sc_state s' = SdConfirmed else True) \<and>
      Option.bind (sc_attempt s') at_confirmation = Some c"
  proof (cases e)
    case (SdRegister p)
    then show ?thesis using assms(2,3,5) st by (auto simp: sd_register_def split: sum.splits)
  next
    case (SdUnregister n)
    then show ?thesis using assms(2,3,5) st by (auto simp: sd_unregister_def split: option.splits)
  next
    case (SdRequestClose k u)
    then show ?thesis using assms(2,3,5) st by (auto simp: requestClose_def split: sum.splits if_splits)
  next
    case (SdWait k u)
    then show ?thesis using assms(2,3,5) st by (auto simp: sd_wait_def split: sum.splits)
  next
    case (SdCancel k u)
    then show ?thesis using assms(2,3,5) st any [of k] by (auto simp: sd_cancel_def split: sum.splits)
  next
    case (SdAcknowledgeCancellation k)
    then show ?thesis using assms(2,3,5) st any [of k] by (auto simp: acknowledgeCancellation_def split: sum.splits)
  next
    case (SdConfirmExit k u)
    then show ?thesis using assms(2,3,5) st any [of k] by (auto simp: confirmExit_def split: sum.splits)
  next
    case (SdForce k u)
    then show ?thesis using assms(2,3,5) st any [of k] by (auto simp: sd_force_def split: sum.splits)
  next
    case (SdAcknowledgeConfirmation k)
    then show ?thesis using assms(2,3,5) st any [of k]
      by (auto simp: acknowledgeConfirmation_def sd_transition_def split: sum.splits if_splits)
  next
    case (SdWindow u)
    then show ?thesis using assms(2,3,5) st win by (auto simp: sd_window_def)
  next
    case (SdSettle n b u)
    then show ?thesis using assms(2,3,5) st by (auto simp: sd_settle_def with_participant_def split: if_splits)
  next
    case (SdTimer n u)
    then show ?thesis using assms(2,3,5) st by (auto simp: sd_timer_def with_participant_def split: if_splits)
  next
    case (SdResume n u)
    then show ?thesis using assms(2,3,5) st win by (auto simp: sd_resume_def split: if_splits)
  qed
  then show ?thesis using st req assms(3) by (auto simp: confirmExit_def sd_force_def sd_cancel_def)
qed

theorem confirmation_is_final_witness:
  "sc_state (example_state 11) = SdConfirming \<and>
   sc_state (the (sd_step (SdAcknowledgeConfirmation ''attempt-1'') (example_state 11))) \<in> {SdConfirming, SdConfirmed} \<and>
   fst (sd_cancel ''attempt-1'' 4 (example_state 11)) = Inl (SdNotAllowed SdConfirming)"
proof -
  have eval: "sd_run (take 11 example_events) new_shutdown = Some (example_state 11)"
    "sc_attempt (example_state 11) = Some (the (sc_attempt (example_state 11)))"
    "at_confirmation (the (sc_attempt (example_state 11))) = Some (the (at_confirmation (the (sc_attempt (example_state 11)))))"
    "validateAttemptId ''attempt-1'' = Inr (at_attemptId (the (sc_attempt (example_state 11))))"
    "sd_step (SdAcknowledgeConfirmation ''attempt-1'') (example_state 11) =
      Some (the (sd_step (SdAcknowledgeConfirmation ''attempt-1'') (example_state 11)))"
    "sc_state (example_state 11) = SdConfirming"
    by code_simp+
  show ?thesis using confirmation_is_final [OF eval(1-5), of 4] eval(6) by simp
qed

section \<open>A window ends\<close>

text \<open>All timers fire and all participants resume, at a time \<open>t\<close>, and then the window goes on.\<close>

definition deadline_events :: "int \<Rightarrow> nat \<Rightarrow> shutdown_event list" where
  "deadline_events t n = map (\<lambda>i. SdTimer i t) [0..<n] @ map (\<lambda>i. SdResume i t) [0..<n] @ [SdWindow t]"

definition waits :: "shutdown_coordinator \<Rightarrow> drain_wait list" where
  "waits s = (case sc_attempt s of None \<Rightarrow> [] | Some a \<Rightarrow> map ap_wait (at_participants a))"

definition draining :: "int \<Rightarrow> int list \<Rightarrow> nat \<Rightarrow> shutdown_coordinator \<Rightarrow> bool" where
  "draining d rest n s \<longleftrightarrow> sd_ok s \<and> (\<exists>a. sc_attempt s = Some a \<and> at_window a = WindowGroup d rest \<and> length (at_participants a) = n)"

definition not_timer :: "drain_wait \<Rightarrow> bool" where
  "not_timer w \<longleftrightarrow> (\<forall>e. w \<noteq> WaitTimer e)"

lemma timer_step:
  assumes "draining d rest n s" "d \<le> t" "i < n" "\<forall>j < i. not_timer (waits s ! j)"
  shows "draining d rest n (sd_timer i t s) \<and> (\<forall>j < Suc i. not_timer (waits (sd_timer i t s) ! j))"
proof -
  obtain a where a: "sc_attempt s = Some a" "at_window a = WindowGroup d rest" "length (at_participants a) = n" "sd_ok s"
    using assms(1) by (auto simp: draining_def)
  have "\<forall>p \<in> set (at_participants a). \<forall>e. ap_wait p = WaitTimer e \<longrightarrow> e \<le> d"
    using att_okD(3) [OF sd_okD(3) [OF a(4,1)]] a(2) by (simp add: window_ok_def)
  then have due: "ap_wait (at_participants a ! i) = WaitTimer e \<Longrightarrow> e \<le> t" for e
    using a(3) assms(2,3) nth_mem [of i "at_participants a"] by fastforce
  have "not_timer (ap_wait (fire_timer t (at_participants a ! i)))"
    using due by (auto simp: fire_timer_def not_timer_def split: drain_wait.split)
  then show ?thesis using sd_timer_ok [OF a(4), of i t] a assms(3,4)
    by (auto simp: draining_def waits_def sd_timer_def with_participant_def nth_list_update less_Suc_eq)
qed

lemma timers_run:
  assumes "draining d rest n s" "d \<le> t" "k \<le> n"
  shows "\<exists>u. sd_run (map (\<lambda>i. SdTimer i t) [0..<k]) s = Some u \<and> draining d rest n u \<and> (\<forall>j < k. not_timer (waits u ! j))"
  using assms(3)
proof (induction k)
  case (Suc k)
  then obtain u where "sd_run (map (\<lambda>i. SdTimer i t) [0..<k]) s = Some u" "draining d rest n u" "\<forall>j < k. not_timer (waits u ! j)" by auto
  then show ?case using timer_step [of d rest n u t k] Suc.prems assms(2) by (simp add: run_append)
qed (use assms(1) in simp)

lemma resume_step:
  assumes "draining d rest n s" "d \<le> t" "i < n" "\<forall>j < n. not_timer (waits s ! j)" "\<forall>j < i. waits s ! j = WaitNone"
  shows "\<exists>u. sd_resume i t s = Some u \<and> draining d rest n u \<and> (\<forall>j < n. not_timer (waits u ! j)) \<and> (\<forall>j < Suc i. waits u ! j = WaitNone)"
proof -
  obtain a where a: "sc_attempt s = Some a" "at_window a = WindowGroup d rest" "length (at_participants a) = n" "sd_ok s"
    using assms(1) by (auto simp: draining_def)
  let ?p = "at_participants a ! i"
  have w: "waits s ! j = ap_wait (at_participants a ! j)" if "j < n" for j using that a(1,3) by (simp add: waits_def)
  show ?thesis
  proof (cases "ap_wait ?p")
    case WaitNone
    then have "sd_resume i t s = Some s" using a by (simp add: sd_resume_def)
    then show ?thesis using assms w [of i] WaitNone by (auto simp: less_Suc_eq)
  next
    case (WaitTimer e)
    then show ?thesis using assms(3,4) w [of i] by (auto simp: not_timer_def)
  next
    case (WaitWoken v)
    have dr: "sc_state s = SdDraining" using att_okD(3) [OF sd_okD(3) [OF a(4,1)]] a(2) by (simp add: window_ok_def)
    then have open_: "\<not> at_closed a" using att_okD(1) [OF sd_okD(3) [OF a(4,1)]] by simp
    have "part_ok False (at_round a) ?p" using part_of [OF a(4,1), of i] a(3) assms(3) open_ by simp
    then obtain q where q: "resumeParticipant False (at_round a) d t v ?p = Some q" "ap_wait q = WaitNone"
      using resume_ok [OF _ WaitWoken, of "at_round a" d t] assms(2) by auto
    have r: "sd_resume i t s = Some (s\<lparr>sc_attempt := Some (a\<lparr>at_participants := (at_participants a)[i := q]\<rparr>)\<rparr>)"
      using a assms(3) WaitWoken open_ q(1) by (simp add: sd_resume_def with_participant_def)
    let ?u = "s\<lparr>sc_attempt := Some (a\<lparr>at_participants := (at_participants a)[i := q]\<rparr>)\<rparr>"
    have "sd_ok ?u" using sd_resume_ok [OF a(4), of i t] r by auto
    then have "draining d rest n ?u" using a(2,3) by (simp add: draining_def)
    moreover have "waits ?u ! j = (if j = i then WaitNone else waits s ! j)" if "j < n" for j
      using that a(1,3) q(2) by (simp add: waits_def nth_list_update)
    ultimately show ?thesis using r assms(3-5) by (intro exI [of _ ?u]) (auto simp: not_timer_def less_Suc_eq)
  qed
qed

lemma resumes_run:
  assumes "draining d rest n s" "d \<le> t" "k \<le> n" "\<forall>j < n. not_timer (waits s ! j)"
  shows "\<exists>u. sd_run (map (\<lambda>i. SdResume i t) [0..<k]) s = Some u \<and> draining d rest n u \<and> (\<forall>j < n. not_timer (waits u ! j)) \<and>
    (\<forall>j < k. waits u ! j = WaitNone)"
  using assms(3)
proof (induction k)
  case (Suc k)
  then obtain u where u: "sd_run (map (\<lambda>i. SdResume i t) [0..<k]) s = Some u" "draining d rest n u" "\<forall>j < n. not_timer (waits u ! j)"
    "\<forall>j < k. waits u ! j = WaitNone" by auto
  obtain v where "sd_resume k t u = Some v" "draining d rest n v" "\<forall>j < n. not_timer (waits v ! j)" "\<forall>j < Suc k. waits v ! j = WaitNone"
    using resume_step [OF u(2) assms(2) _ u(3,4)] Suc.prems by auto
  then show ?case using u(1) by (simp add: run_append)
qed (use assms(1,4) in simp)

lemma window_step:
  assumes "draining d rest n s" "d \<le> t" "\<forall>j < n. waits s ! j = WaitNone"
  shows "\<exists>u. sd_window t s = Some u \<and> sc_state u \<in> {SdReady, SdTimedOut, SdFailed}"
proof -
  obtain a where a: "sc_attempt s = Some a" "at_window a = WindowGroup d rest" "length (at_participants a) = n" "sd_ok s"
    using assms(1) by (auto simp: draining_def)
  note att = sd_okD(3) [OF a(4,1)]
  have dr: "sc_state s = SdDraining" "group_order rest (at_participants a)" using att_okD(3) [OF att] a(2) by (simp_all add: window_ok_def)
  have open_: "\<not> at_closed a" "at_confirmation a = None" "at_cancellation a = None"
    using att_okD(1,4) [OF att] dr(1) by (auto simp: decisions_ok_def)
  have none: "list_all (\<lambda>p. ap_wait p = WaitNone) (at_participants a)"
    using assms(3) a(1,3) by (auto simp: list_all_length waits_def)
  have "drainable (at_round a) rest (at_participants a)"
    using none dr(2) att_okD(2) [OF att] open_(1) by (fastforce simp: drainable_def group_order_def list_all_iff)
  then show ?thesis
    using continue_window_ok [of a rest s t d] open_ dr(1) sd_ok_path [OF a(4)] a(4) assms(2) none a(1,2)
    by (auto simp: sd_window_def sd_ok_def)
qed

text \<open>A window ends at its deadline whatever the participants do: from any reachable state in a window, even if no drain
  ever settles, once the deadline has passed the timers that are due, the resumptions and one continuation leave the
  coordinator in \<open>ready\<close>, \<open>timed-out\<close> or \<open>failed\<close>, where the user decides; and no timer runs past the deadline.\<close>

theorem window_ends_at_deadline:
  assumes "sd_run es new_shutdown = Some s" "sc_attempt s = Some a" "at_window a = WindowGroup d rest" "d \<le> t"
  shows "map_option (\<lambda>u. sc_state u \<in> {SdReady, SdTimedOut, SdFailed}) (sd_run (deadline_events t (length (at_participants a))) s) = Some True \<and>
    list_all (\<lambda>p. case ap_wait p of WaitTimer e \<Rightarrow> e \<le> d | _ \<Rightarrow> True) (at_participants a)"
proof -
  let ?n = "length (at_participants a)"
  have dr: "draining d rest ?n s" using sd_run_ok [OF assms(1)] assms(2,3) by (simp add: draining_def)
  obtain u where u: "sd_run (map (\<lambda>i. SdTimer i t) [0..<?n]) s = Some u" "draining d rest ?n u" "\<forall>j < ?n. not_timer (waits u ! j)"
    using timers_run [OF dr assms(4) order_refl] by blast
  obtain v where v: "sd_run (map (\<lambda>i. SdResume i t) [0..<?n]) u = Some v" "draining d rest ?n v" "\<forall>j < ?n. waits v ! j = WaitNone"
    using resumes_run [OF u(2) assms(4) order_refl u(3)] by blast
  obtain w where "sd_window t v = Some w" "sc_state w \<in> {SdReady, SdTimedOut, SdFailed}" using window_step [OF v(2) assms(4) v(3)] by blast
  then have "sd_run (deadline_events t ?n) s = Some w" using u(1) v(1) by (simp add: deadline_events_def run_append)
  moreover have "list_all (\<lambda>p. case ap_wait p of WaitTimer e \<Rightarrow> e \<le> d | _ \<Rightarrow> True) (at_participants a)"
    using att_okD(3) [OF sd_okD(3) [OF sd_run_ok [OF assms(1)] assms(2)]] assms(3)
    by (auto simp: window_ok_def list_all_iff split: drain_wait.split)
  ultimately show ?thesis using \<open>sc_state w \<in> _\<close> by simp
qed

theorem window_ends_at_deadline_witness:
  "map_option sc_state (sd_run (deadline_events 8000 2) (example_state 4)) \<in> {Some SdReady, Some SdTimedOut, Some SdFailed}"
proof -
  have eval: "sd_run (take 4 example_events) new_shutdown = Some (example_state 4)"
    "sc_attempt (example_state 4) = Some (the (sc_attempt (example_state 4)))"
    "at_window (the (sc_attempt (example_state 4))) = WindowGroup 8000 [5]"
    "length (at_participants (the (sc_attempt (example_state 4)))) = 2"
    by code_simp+
  show ?thesis using window_ends_at_deadline [OF eval(1-3), of 8000] eval(4) by auto
qed

end
