(* ===== verification/SaveBatches.thy ===== *)
theory SaveBatches
  imports JsStrings
begin

text \<open>
  Batches of workspace mutations, \<open>partitionWorkspaceMutationCommands\<close> in
  \<open>src/features/workspace/application/save-queues/index.ts\<close>: an estimate of the bytes a mutation takes on the
  wire, computed without serializing it, and the division of a list of mutations into batches within the
  native limits.

  A JavaScript value is a \<open>json\<close>, an object an association list in the order of its properties.  Strings
  are code units below 256; the byte counts are defined and proved for arbitrary UTF-16 code units.  How a
  number is printed is a parameter of the reference serializer.
\<close>

section \<open>Values\<close>

datatype json =
    JUndefined
  | JNull
  | JBool bool
  | JNumber jsnum
  | JString string
  | JTyped bytes
  | JArray "json list"
  | JObject "(string \<times> json) list"
  | JOther

definition jget :: "string \<Rightarrow> json \<Rightarrow> json" where
  "jget key v = (case v of JObject es \<Rightarrow> (case map_of es key of None \<Rightarrow> JUndefined | Some x \<Rightarrow> x) | _ \<Rightarrow> JUndefined)"

definition units :: "string \<Rightarrow> nat list" where
  "units s = map code s"

section \<open>The estimate\<close>

definition MAX_SAFE_INTEGER :: int where
  "MAX_SAFE_INTEGER = 2 ^ 53 - 1"

text \<open>The loop of \<open>jsonStringBytes\<close>; past the end \<open>charCodeAt\<close> is \<open>NaN\<close>, which no comparison accepts.\<close>

fun string_bytes :: "nat list \<Rightarrow> int" where
  "string_bytes [] = 0"
| "string_bytes (c # cs) =
     (if c = 0x22 \<or> c = 0x5c then 2 + string_bytes cs
      else if c < 0x20 then (if c = 8 \<or> c = 9 \<or> c = 10 \<or> c = 12 \<or> c = 13 then 2 else 6) + string_bytes cs
      else if c < 0x80 then 1 + string_bytes cs
      else if c < 0x800 then 2 + string_bytes cs
      else if 0xd800 \<le> c \<and> c \<le> 0xdfff
      then (case cs of
              [] \<Rightarrow> 6
            | n # cs' \<Rightarrow> if c \<le> 0xdbff \<and> 0xdc00 \<le> n \<and> n \<le> 0xdfff then 4 + string_bytes cs' else 6 + string_bytes cs)
      else 3 + string_bytes cs)"

definition jsonStringBytes :: "nat list \<Rightarrow> int" where
  "jsonStringBytes value = 2 + string_bytes value"

definition safe_sum :: "int \<Rightarrow> int option" where
  "safe_sum n = (if n > MAX_SAFE_INTEGER then None else Some n)"

fun estimateStructuredJsonBytes :: "json \<Rightarrow> nat \<Rightarrow> int option"
  and item_bytes :: "json list \<Rightarrow> nat \<Rightarrow> int \<Rightarrow> int option"
  and entry_bytes :: "(string \<times> json) list \<Rightarrow> nat \<Rightarrow> int \<Rightarrow> int option" where
  "estimateStructuredJsonBytes JNull depth = Some 4"
| "estimateStructuredJsonBytes JUndefined depth = Some 4"
| "estimateStructuredJsonBytes (JBool b) depth = Some 5"
| "estimateStructuredJsonBytes (JNumber n) depth = Some (if js_isFinite n then 24 else 4)"
| "estimateStructuredJsonBytes (JString s) depth = Some (jsonStringBytes (units s))"
| "estimateStructuredJsonBytes JOther depth = None"
| "estimateStructuredJsonBytes (JTyped bs) depth = (if depth > 64 then None else Some (2 + int (length bs) * 4))"
| "estimateStructuredJsonBytes (JArray xs) depth = (if depth > 64 then None else item_bytes xs depth 2)"
| "estimateStructuredJsonBytes (JObject es) depth = (if depth > 64 then None else entry_bytes es depth 2)"
| "item_bytes [] depth bytes = Some bytes"
| "item_bytes (x # xs) depth bytes =
     (case estimateStructuredJsonBytes x (depth + 1) of
        None \<Rightarrow> None
      | Some n \<Rightarrow> (case safe_sum (bytes + (n + 1)) of None \<Rightarrow> None | Some bytes \<Rightarrow> item_bytes xs depth bytes))"
| "entry_bytes [] depth bytes = Some bytes"
| "entry_bytes ((k, x) # es) depth bytes =
     (case estimateStructuredJsonBytes x (depth + 1) of
        None \<Rightarrow> None
      | Some n \<Rightarrow> (case safe_sum (bytes + (jsonStringBytes (units k) + 2 + n + 1)) of None \<Rightarrow> None | Some bytes \<Rightarrow> entry_bytes es depth bytes))"

section \<open>Commands\<close>

text \<open>\<open>WorkspaceMutationCommand\<close>; a mutation is a command with its sequence number.\<close>

datatype command =
    SetMetadata json
  | SetActiveSession "string option"
  | UpsertSession string json
  | RemoveSession string
  | AppendFrames string json
  | ReplaceCapture string json
  | TrimCapture string json
  | UpsertFeatureState string json
  | ReplaceSessionCollections string json
  | AppendAiMessages string json
  | ClearAiMessages string
  | ReplaceWaveformChannels string json
  | AppendWaveformSamples string json

fun command_kind :: "command \<Rightarrow> string" where
  "command_kind (SetMetadata p) = ''set-metadata''"
| "command_kind (SetActiveSession i) = ''set-active-session''"
| "command_kind (UpsertSession i p) = ''upsert-session''"
| "command_kind (RemoveSession i) = ''remove-session''"
| "command_kind (AppendFrames i p) = ''append-frames''"
| "command_kind (ReplaceCapture i p) = ''replace-capture''"
| "command_kind (TrimCapture i p) = ''trim-capture''"
| "command_kind (UpsertFeatureState i p) = ''upsert-feature-state''"
| "command_kind (ReplaceSessionCollections i p) = ''replace-session-collections''"
| "command_kind (AppendAiMessages i p) = ''append-ai-messages''"
| "command_kind (ClearAiMessages i) = ''clear-ai-messages''"
| "command_kind (ReplaceWaveformChannels i p) = ''replace-waveform-channels''"
| "command_kind (AppendWaveformSamples i p) = ''append-waveform-samples''"

text \<open>The properties of a command other than \<open>kind\<close>.\<close>

fun command_entries :: "command \<Rightarrow> (string \<times> json) list" where
  "command_entries (SetMetadata p) = [(''payload'', p)]"
| "command_entries (SetActiveSession i) = [(''sessionId'', case i of None \<Rightarrow> JNull | Some s \<Rightarrow> JString s)]"
| "command_entries (UpsertSession i p) = [(''sessionId'', JString i), (''payload'', p)]"
| "command_entries (RemoveSession i) = [(''sessionId'', JString i)]"
| "command_entries (AppendFrames i p) = [(''sessionId'', JString i), (''payload'', p)]"
| "command_entries (ReplaceCapture i p) = [(''sessionId'', JString i), (''payload'', p)]"
| "command_entries (TrimCapture i p) = [(''sessionId'', JString i), (''payload'', p)]"
| "command_entries (UpsertFeatureState i p) = [(''entityId'', JString i), (''payload'', p)]"
| "command_entries (ReplaceSessionCollections i p) = [(''sessionId'', JString i), (''payload'', p)]"
| "command_entries (AppendAiMessages i p) = [(''sessionId'', JString i), (''payload'', p)]"
| "command_entries (ClearAiMessages i) = [(''sessionId'', JString i)]"
| "command_entries (ReplaceWaveformChannels i p) = [(''sessionId'', JString i), (''payload'', p)]"
| "command_entries (AppendWaveformSamples i p) = [(''sessionId'', JString i), (''payload'', p)]"

section \<open>Weights\<close>

record logical_weight =
  wt_bytes :: int
  wt_frames :: nat
  wt_singleLargeFrame :: bool

definition MAX_WORKSPACE_MUTATIONS_PER_BATCH :: nat where "MAX_WORKSPACE_MUTATIONS_PER_BATCH = 256"
definition MAX_WORKSPACE_FRAMES_PER_BATCH :: nat where "MAX_WORKSPACE_FRAMES_PER_BATCH = 256"
definition MAX_WORKSPACE_BATCH_BYTES :: int where "MAX_WORKSPACE_BATCH_BYTES = 524288"
definition MAX_WORKSPACE_FRAME_BYTES :: int where "MAX_WORKSPACE_FRAME_BYTES = 2097152"

definition data_length :: "json \<Rightarrow> int option" where
  "data_length data = (case data of JArray xs \<Rightarrow> Some (int (length xs)) | JTyped bs \<Rightarrow> Some (int (length bs)) | _ \<Rightarrow> None)"

fun frame_bytes :: "json list \<Rightarrow> int \<Rightarrow> int option" where
  "frame_bytes [] bytes = Some bytes"
| "frame_bytes (f # fs) bytes =
     (case data_length (jget ''data'' f) of
        None \<Rightarrow> None
      | Some n \<Rightarrow> (case safe_sum (bytes + n) of None \<Rightarrow> None | Some bytes \<Rightarrow> frame_bytes fs bytes))"

definition frames_weight :: "json \<Rightarrow> logical_weight option" where
  "frames_weight payload =
     (case jget ''frames'' payload of
        JArray fs \<Rightarrow>
          (case frame_bytes fs 0 of
             None \<Rightarrow> None
           | Some bytes \<Rightarrow>
               Some \<lparr>wt_bytes = bytes, wt_frames = length fs,
                 wt_singleLargeFrame = (length fs = 1 \<and> bytes > MAX_WORKSPACE_BATCH_BYTES \<and> bytes \<le> MAX_WORKSPACE_FRAME_BYTES)\<rparr>)
      | _ \<Rightarrow> None)"

fun structured_bytes :: "(string \<times> json) list \<Rightarrow> int \<Rightarrow> int option" where
  "structured_bytes [] bytes = Some bytes"
| "structured_bytes ((key, value) # es) bytes =
     (case estimateStructuredJsonBytes value 0 of
        None \<Rightarrow> None
      | Some n \<Rightarrow> (case safe_sum (bytes + (jsonStringBytes (units key) + 3 + n + 1)) of None \<Rightarrow> None | Some bytes \<Rightarrow> structured_bytes es bytes))"

definition plain_weight :: "int \<Rightarrow> logical_weight" where
  "plain_weight bytes = \<lparr>wt_bytes = bytes, wt_frames = 0, wt_singleLargeFrame = False\<rparr>"

definition workspaceMutationLogicalWeight :: "command \<Rightarrow> logical_weight option" where
  "workspaceMutationLogicalWeight c =
     (case c of
        AppendFrames i payload \<Rightarrow> frames_weight payload
      | ReplaceCapture i payload \<Rightarrow> frames_weight payload
      | AppendWaveformSamples i payload \<Rightarrow>
          (case jget ''samples'' payload of
             JArray samples \<Rightarrow> Some (plain_weight (96 + int (length samples) * 96))
           | _ \<Rightarrow> None)
      | _ \<Rightarrow> map_option plain_weight (structured_bytes (command_entries c) (40 + int (length (command_kind c)))))"

section \<open>Batches\<close>

record batch_state =
  bt_batches :: "command list list"
  bt_batch :: "command list"
  bt_bytes :: int
  bt_frames :: nat

definition bt_release :: "batch_state \<Rightarrow> batch_state" where
  "bt_release b = (if bt_batch b = [] then b
     else b\<lparr>bt_batches := bt_batches b @ [bt_batch b], bt_batch := [], bt_bytes := 0, bt_frames := 0\<rparr>)"

definition bt_add :: "command \<Rightarrow> batch_state \<Rightarrow> batch_state option" where
  "bt_add c b =
     (case workspaceMutationLogicalWeight c of
        None \<Rightarrow> None
      | Some w \<Rightarrow>
          if wt_singleLargeFrame w then (let b = bt_release b in Some (b\<lparr>bt_batches := bt_batches b @ [[c]]\<rparr>))
          else if wt_bytes w > MAX_WORKSPACE_BATCH_BYTES \<or> wt_frames w > MAX_WORKSPACE_FRAMES_PER_BATCH then None
          else
            let b = (if bt_batch b \<noteq> [] \<and>
                        (length (bt_batch b) + 1 > MAX_WORKSPACE_MUTATIONS_PER_BATCH \<or>
                         bt_bytes b + wt_bytes w > MAX_WORKSPACE_BATCH_BYTES \<or>
                         bt_frames b + wt_frames w > MAX_WORKSPACE_FRAMES_PER_BATCH)
                     then bt_release b else b)
            in Some (b\<lparr>bt_batch := bt_batch b @ [c], bt_bytes := bt_bytes b + wt_bytes w, bt_frames := bt_frames b + wt_frames w\<rparr>))"

fun bt_all :: "command list \<Rightarrow> batch_state \<Rightarrow> batch_state option" where
  "bt_all [] b = Some b"
| "bt_all (c # cs) b = Option.bind (bt_add c b) (bt_all cs)"

definition partitionWorkspaceMutationCommands :: "command list \<Rightarrow> command list list option" where
  "partitionWorkspaceMutationCommands cs =
     map_option (\<lambda>b. bt_batches (bt_release b)) (bt_all cs \<lparr>bt_batches = [], bt_batch = [], bt_bytes = 0, bt_frames = 0\<rparr>)"

section \<open>The partition\<close>

definition weight_of :: "command \<Rightarrow> logical_weight" where
  "weight_of c = the (workspaceMutationLogicalWeight c)"

definition batch_bytes :: "command list \<Rightarrow> int" where
  "batch_bytes cs = sum_list (map (\<lambda>c. wt_bytes (weight_of c)) cs)"

definition batch_frames :: "command list \<Rightarrow> nat" where
  "batch_frames cs = sum_list (map (\<lambda>c. wt_frames (weight_of c)) cs)"

text \<open>What the native side accepts: a batch within the limits, or a single frame alone.\<close>

definition batch_fits :: "command list \<Rightarrow> bool" where
  "batch_fits cs \<longleftrightarrow> cs \<noteq> [] \<and>
     (length cs \<le> MAX_WORKSPACE_MUTATIONS_PER_BATCH \<and> batch_bytes cs \<le> MAX_WORKSPACE_BATCH_BYTES \<and>
      batch_frames cs \<le> MAX_WORKSPACE_FRAMES_PER_BATCH \<or>
      length cs = 1 \<and> batch_frames cs = 1 \<and> batch_bytes cs \<le> MAX_WORKSPACE_FRAME_BYTES)"

definition command_fits :: "command \<Rightarrow> bool" where
  "command_fits c \<longleftrightarrow> workspaceMutationLogicalWeight c \<noteq> None \<and> batch_fits [c]"

definition bt_ok :: "batch_state \<Rightarrow> bool" where
  "bt_ok b \<longleftrightarrow> list_all batch_fits (bt_batches b) \<and> bt_bytes b = batch_bytes (bt_batch b) \<and> bt_frames b = batch_frames (bt_batch b) \<and>
     (bt_batch b = [] \<or> length (bt_batch b) \<le> MAX_WORKSPACE_MUTATIONS_PER_BATCH \<and> bt_bytes b \<le> MAX_WORKSPACE_BATCH_BYTES \<and>
        bt_frames b \<le> MAX_WORKSPACE_FRAMES_PER_BATCH)"

lemma bt_release_ok: "bt_ok b \<Longrightarrow> bt_ok (bt_release b) \<and> bt_batch (bt_release b) = [] \<and> bt_bytes (bt_release b) = 0 \<and> bt_frames (bt_release b) = 0 \<and>
    concat (bt_batches (bt_release b)) = concat (bt_batches b) @ bt_batch b"
  by (auto simp: bt_release_def bt_ok_def batch_fits_def batch_bytes_def batch_frames_def)

lemma frames_weight_single: "frames_weight p = Some w \<Longrightarrow> wt_singleLargeFrame w \<longleftrightarrow>
    wt_frames w = 1 \<and> wt_bytes w > MAX_WORKSPACE_BATCH_BYTES \<and> wt_bytes w \<le> MAX_WORKSPACE_FRAME_BYTES"
  by (auto simp: frames_weight_def split: json.splits option.splits)

lemma weight_single:
  assumes "workspaceMutationLogicalWeight c = Some w"
  shows "wt_singleLargeFrame w \<longleftrightarrow> wt_frames w = 1 \<and> wt_bytes w > MAX_WORKSPACE_BATCH_BYTES \<and> wt_bytes w \<le> MAX_WORKSPACE_FRAME_BYTES"
  using assms frames_weight_single
  by (cases c) (auto simp: workspaceMutationLogicalWeight_def plain_weight_def split: json.splits)

lemma command_fits_iff:
  "command_fits c \<longleftrightarrow> (case workspaceMutationLogicalWeight c of None \<Rightarrow> False
     | Some w \<Rightarrow> wt_singleLargeFrame w \<or> wt_bytes w \<le> MAX_WORKSPACE_BATCH_BYTES \<and> wt_frames w \<le> MAX_WORKSPACE_FRAMES_PER_BATCH)"
  by (auto simp: command_fits_def batch_fits_def batch_bytes_def batch_frames_def weight_of_def weight_single MAX_WORKSPACE_MUTATIONS_PER_BATCH_def
      MAX_WORKSPACE_FRAMES_PER_BATCH_def split: option.split)

lemma bt_add_ok:
  assumes "bt_ok b"
  shows "case bt_add c b of None \<Rightarrow> \<not> command_fits c
    | Some b' \<Rightarrow> command_fits c \<and> bt_ok b' \<and> concat (bt_batches b') @ bt_batch b' = concat (bt_batches b) @ bt_batch b @ [c]"
proof (cases "workspaceMutationLogicalWeight c")
  case None
  then show ?thesis by (simp add: bt_add_def command_fits_def)
next
  case (Some w)
  note rel = bt_release_ok [OF assms]
  have wc: "weight_of c = w" using Some by (simp add: weight_of_def)
  consider "wt_singleLargeFrame w" | "\<not> wt_singleLargeFrame w" "wt_bytes w > MAX_WORKSPACE_BATCH_BYTES \<or> wt_frames w > MAX_WORKSPACE_FRAMES_PER_BATCH"
    | "\<not> wt_singleLargeFrame w" "wt_bytes w \<le> MAX_WORKSPACE_BATCH_BYTES" "wt_frames w \<le> MAX_WORKSPACE_FRAMES_PER_BATCH" by linarith
  then show ?thesis
  proof cases
    case 1
    then have "batch_fits [c]" using weight_single [OF Some] wc by (simp add: batch_fits_def batch_bytes_def batch_frames_def)
    then show ?thesis using 1 Some rel by (simp add: bt_add_def Let_def command_fits_def bt_ok_def batch_bytes_def batch_frames_def)
  next
    case 2
    then show ?thesis using Some by (auto simp: bt_add_def command_fits_iff)
  next
    case 3
    let ?b = "if bt_batch b \<noteq> [] \<and> (length (bt_batch b) + 1 > MAX_WORKSPACE_MUTATIONS_PER_BATCH \<or>
        bt_bytes b + wt_bytes w > MAX_WORKSPACE_BATCH_BYTES \<or> bt_frames b + wt_frames w > MAX_WORKSPACE_FRAMES_PER_BATCH) then bt_release b else b"
    have ok: "bt_ok ?b" and cat: "concat (bt_batches ?b) @ bt_batch ?b = concat (bt_batches b) @ bt_batch b" using rel assms by simp_all
    have room: "length (bt_batch ?b) + 1 \<le> MAX_WORKSPACE_MUTATIONS_PER_BATCH" "bt_bytes ?b + wt_bytes w \<le> MAX_WORKSPACE_BATCH_BYTES"
      "bt_frames ?b + wt_frames w \<le> MAX_WORKSPACE_FRAMES_PER_BATCH"
      using 3 rel assms by (auto simp: bt_ok_def batch_bytes_def batch_frames_def MAX_WORKSPACE_MUTATIONS_PER_BATCH_def)
    have "bt_add c b = Some (?b\<lparr>bt_batch := bt_batch ?b @ [c], bt_bytes := bt_bytes ?b + wt_bytes w, bt_frames := bt_frames ?b + wt_frames w\<rparr>)"
      using 3 Some by (simp add: bt_add_def Let_def)
    moreover have "command_fits c" using 3 Some by (simp add: command_fits_iff)
    ultimately show ?thesis using ok cat room wc by (simp add: bt_ok_def batch_bytes_def batch_frames_def)
  qed
qed

lemma bt_all_ok:
  "bt_ok b \<Longrightarrow> case bt_all cs b of None \<Rightarrow> \<not> list_all command_fits cs
    | Some b' \<Rightarrow> list_all command_fits cs \<and> bt_ok b' \<and> concat (bt_batches b') @ bt_batch b' = concat (bt_batches b) @ bt_batch b @ cs"
proof (induction cs arbitrary: b)
  case (Cons c cs)
  note add = bt_add_ok [OF Cons.prems, of c]
  show ?case
  proof (cases "bt_add c b")
    case (Some b')
    then show ?thesis using add Cons.IH [of b'] by (auto split: option.splits)
  qed (use add in simp)
qed simp

text \<open>C29. Batches keep every mutation, in order, within the native limits: the batches of a list of commands, put end to end,
  are the list; none is empty; each has at most 256 commands, 256 frames and 512 KiB of weight, or is a single frame
  of at most 2 MiB; and the partition is refused exactly when one of the commands by itself does not fit.\<close>

theorem partition_within_limits:
  "case partitionWorkspaceMutationCommands cs of
     None \<Rightarrow> \<not> list_all command_fits cs
   | Some bs \<Rightarrow> list_all command_fits cs \<and> concat bs = cs \<and> list_all batch_fits bs"
proof -
  let ?b = "\<lparr>bt_batches = [], bt_batch = [], bt_bytes = 0, bt_frames = 0\<rparr>"
  have start: "bt_ok ?b" by (simp add: bt_ok_def batch_bytes_def batch_frames_def)
  show ?thesis
  proof (cases "bt_all cs ?b")
    case None
    then show ?thesis using bt_all_ok [OF start, of cs] by (simp add: partitionWorkspaceMutationCommands_def)
  next
    case (Some b)
    then have b: "list_all command_fits cs" "bt_ok b" "concat (bt_batches b) @ bt_batch b = cs" using bt_all_ok [OF start, of cs] by simp_all
    then show ?thesis using Some bt_release_ok [OF b(2)] by (simp add: partitionWorkspaceMutationCommands_def bt_ok_def)
  qed
qed

end
