(* ===== verification/SaveQueues.thy ===== *)
theory SaveQueues
  imports SaveBatches Base64 Machine "HOL-Library.Sublist"
begin

text \<open>
  The two autosave queues of a workspace, \<open>ConfigSaveQueue\<close> and \<open>FrameSaveQueue\<close> in
  \<open>src/features/workspace/application/save-queues/\<close>: mutations of settings wait for a pause of 300 ms, captured
  frames for 250 ms or until a limit is reached; then they are handed over, in groups of one save context, to be
  saved.

  Timers are numbered; \<open>aq_live\<close> lists those that were set and neither cleared nor fired, \<open>aq_timer\<close> is the
  field of the queue.  \<open>aq_groups\<close> logs the calls of \<open>scheduleSaveGroup\<close>, \<open>aq_notified\<close> those of
  \<open>onNotify\<close>, each with whether items were queued at that moment; neither hook calls back.
\<close>

section \<open>Data\<close>

record save_context =
  sx_epoch :: nat
  sx_workspaceId :: string

record queued_payload =
  qp_id :: string
  qp_direction :: string
  qp_timestampMs :: jsnum
  qp_data :: bytes
  qp_txStatus :: "string option"
  qp_requestedBytes :: "jsnum option"
  qp_omittedBytes :: "jsnum option"

record pending_frame =
  qf_context :: save_context
  qf_sessionId :: string
  qf_sequence :: int
  qf_payload :: queued_payload

record pending_config =
  qc_context :: save_context
  qc_command :: command

definition WORKSPACE_CONFIG_AUTOSAVE_DELAY_MS :: nat where "WORKSPACE_CONFIG_AUTOSAVE_DELAY_MS = 300"
definition WORKSPACE_FRAME_AUTOSAVE_DELAY_MS :: nat where "WORKSPACE_FRAME_AUTOSAVE_DELAY_MS = 250"
definition WORKSPACE_FRAME_AUTOSAVE_MAX_FRAMES :: nat where "WORKSPACE_FRAME_AUTOSAVE_MAX_FRAMES = 256"
definition WORKSPACE_FRAME_AUTOSAVE_MAX_BYTES :: nat where "WORKSPACE_FRAME_AUTOSAVE_MAX_BYTES = 512 * 1024"

section \<open>Groups and commands\<close>

text \<open>\<open>groupFramesByContext\<close> and \<open>groupConfigMutationsByContext\<close>: an item joins the last group of its context.\<close>

definition add_to_groups :: "('a \<Rightarrow> save_context) \<Rightarrow> 'a \<Rightarrow> (save_context \<times> 'a list) list \<Rightarrow> (save_context \<times> 'a list) list" where
  "add_to_groups ctx x groups =
     (if groups \<noteq> [] \<and> sx_epoch (fst (last groups)) = sx_epoch (ctx x) \<and> sx_workspaceId (fst (last groups)) = sx_workspaceId (ctx x)
      then butlast groups @ [(fst (last groups), snd (last groups) @ [x])]
      else groups @ [(ctx x, [x])])"

definition group_by_context :: "('a \<Rightarrow> save_context) \<Rightarrow> 'a list \<Rightarrow> (save_context \<times> 'a list) list" where
  "group_by_context ctx xs = fold (add_to_groups ctx) xs []"

definition optional :: "string \<Rightarrow> json option \<Rightarrow> (string \<times> json) list" where
  "optional key v = (case v of None \<Rightarrow> [] | Some x \<Rightarrow> [(key, x)])"

definition toIpcFramePayload :: "queued_payload \<Rightarrow> json" where
  "toIpcFramePayload p = JObject
     ([(''id'', JString (qp_id p)), (''direction'', JString (qp_direction p)), (''timestampMs'', JNumber (qp_timestampMs p)),
       (''data'', JArray []), (''dataB64'', JString (bytesToBase64 (qp_data p)))] @
      optional ''txStatus'' (map_option JString (qp_txStatus p)) @
      optional ''requestedBytes'' (map_option JNumber (qp_requestedBytes p)) @
      optional ''omittedBytes'' (map_option JNumber (qp_omittedBytes p)))"

definition append_command :: "string \<Rightarrow> int \<Rightarrow> json list \<Rightarrow> command" where
  "append_command sessionId startSeq payloads =
     AppendFrames sessionId (JObject [(''startSeq'', JNumber (js_int startSeq)), (''frames'', JArray payloads)])"

text \<open>The loop of \<open>frameAppendCommands\<close> with its variables.\<close>

fun append_loop :: "pending_frame list \<Rightarrow> string \<Rightarrow> int \<Rightarrow> int \<Rightarrow> json list \<Rightarrow> command list" where
  "append_loop [] sessionId startSeq previousSeq payloads =
     (if payloads = [] then [] else [append_command sessionId startSeq payloads])"
| "append_loop (f # fs) sessionId startSeq previousSeq payloads =
     (if qf_sessionId f \<noteq> sessionId \<or> qf_sequence f \<noteq> previousSeq + 1
      then (if payloads = [] then [] else [append_command sessionId startSeq payloads]) @
           append_loop fs (qf_sessionId f) (qf_sequence f) (qf_sequence f) [toIpcFramePayload (qf_payload f)]
      else append_loop fs sessionId startSeq (qf_sequence f) (payloads @ [toIpcFramePayload (qf_payload f)]))"

definition frameAppendCommands :: "pending_frame list \<Rightarrow> command list" where
  "frameAppendCommands fs =
     (if fs = [] then [] else append_loop fs (qf_sessionId (hd fs)) (qf_sequence (hd fs)) (qf_sequence (hd fs) - 1) [])"

fun frame_breaks :: "pending_frame list \<Rightarrow> nat" where
  "frame_breaks (f # g # fs) =
     (if qf_sessionId g \<noteq> qf_sessionId f \<or> qf_sequence g \<noteq> qf_sequence f + 1 then 1 else 0) + frame_breaks (g # fs)"
| "frame_breaks fs = 0"

definition frameAppendCommandCount :: "pending_frame list \<Rightarrow> nat" where
  "frameAppendCommandCount fs = (if fs = [] then 0 else 1 + frame_breaks fs)"

section \<open>Queues\<close>

record 'a autosave =
  aq_queue :: "'a list"
  aq_timer :: "nat option"
  aq_live :: "nat list"
  aq_next :: nat
  aq_groups :: "(save_context \<times> command list) list"
  aq_notified :: "bool list"

definition new_autosave :: "'a autosave" where
  "new_autosave = \<lparr>aq_queue = [], aq_timer = None, aq_live = [], aq_next = 0, aq_groups = [], aq_notified = []\<rparr>"

definition set_timer :: "('a, 'b) autosave_scheme \<Rightarrow> ('a, 'b) autosave_scheme" where
  "set_timer q = q\<lparr>aq_timer := Some (aq_next q), aq_live := aq_next q # aq_live q, aq_next := Suc (aq_next q)\<rparr>"

text \<open>\<open>clearTimeout\<close> on the handle in the field, if there is one.\<close>

definition clear_live :: "('a, 'b) autosave_scheme \<Rightarrow> nat list" where
  "clear_live q = (case aq_timer q of None \<Rightarrow> aq_live q | Some t \<Rightarrow> filter (\<lambda>u. u \<noteq> t) (aq_live q))"

definition clear_timer :: "('a, 'b) autosave_scheme \<Rightarrow> ('a, 'b) autosave_scheme" where
  "clear_timer q = q\<lparr>aq_live := clear_live q, aq_timer := None\<rparr>"

definition notify_owner :: "('a, 'b) autosave_scheme \<Rightarrow> ('a, 'b) autosave_scheme" where
  "notify_owner q = q\<lparr>aq_notified := aq_notified q @ [aq_queue q \<noteq> []]\<rparr>"

subsection \<open>Settings\<close>

type_synonym config_queue = "pending_config autosave"

definition config_release :: "config_queue \<Rightarrow> config_queue" where
  "config_release q0 =
     (let q = clear_timer q0 in
      if aq_queue q = [] then q
      else
        let groups = map (\<lambda>(c, items). (c, map qc_command items)) (group_by_context qc_context (aq_queue q))
        in notify_owner (q\<lparr>aq_queue := [], aq_groups := aq_groups q @ groups\<rparr>))"

definition config_enqueue :: "save_context \<Rightarrow> command list \<Rightarrow> config_queue \<Rightarrow> config_queue" where
  "config_enqueue c commands q0 =
     (let q = q0\<lparr>aq_queue := aq_queue q0 @ map (\<lambda>x. \<lparr>qc_context = c, qc_command = x\<rparr>) commands\<rparr> in
      if commands = [] then q else notify_owner (set_timer (if aq_timer q \<noteq> None then q\<lparr>aq_live := clear_live q\<rparr> else q)))"

definition config_fire :: "nat \<Rightarrow> config_queue \<Rightarrow> config_queue" where
  "config_fire t q =
     (if t \<in> set (aq_live q) then config_release (q\<lparr>aq_live := filter (\<lambda>u. u \<noteq> t) (aq_live q), aq_timer := None\<rparr>) else q)"

definition config_abandon :: "config_queue \<Rightarrow> nat \<times> config_queue" where
  "config_abandon q = (length (aq_queue q), (clear_timer q)\<lparr>aq_queue := []\<rparr>)"

definition config_reset :: "config_queue \<Rightarrow> config_queue" where
  "config_reset q = q\<lparr>aq_queue := []\<rparr>"

datatype config_event = CqEnqueue save_context "command list" | CqFire nat | CqRelease | CqAbandon | CqReset

fun config_step :: "config_event \<Rightarrow> config_queue \<Rightarrow> config_queue" where
  "config_step (CqEnqueue c commands) q = config_enqueue c commands q"
| "config_step (CqFire t) q = config_fire t q"
| "config_step CqRelease q = config_release q"
| "config_step CqAbandon q = snd (config_abandon q)"
| "config_step CqReset q = config_reset q"

subsection \<open>Frames\<close>

text \<open>\<open>fq_released\<close> logs the frames of every release.\<close>

record frame_queue = "pending_frame autosave" +
  fq_queueBytes :: nat
  fq_released :: "pending_frame list list"

definition new_frame_queue :: frame_queue where
  "new_frame_queue = \<lparr>aq_queue = [], aq_timer = None, aq_live = [], aq_next = 0, aq_groups = [], aq_notified = [], fq_queueBytes = 0, fq_released = []\<rparr>"

definition frame_release :: "frame_queue \<Rightarrow> frame_queue" where
  "frame_release q0 =
     (let q = clear_timer q0 in
      if aq_queue q = [] then q
      else
        let groups = map (\<lambda>(c, frames). (c, frameAppendCommands frames)) (group_by_context qf_context (aq_queue q))
        in notify_owner (q\<lparr>aq_queue := [], fq_queueBytes := 0, aq_groups := aq_groups q @ groups, fq_released := fq_released q @ [aq_queue q]\<rparr>))"

definition frame_size :: "pending_frame \<Rightarrow> nat" where
  "frame_size f = length (qp_data (qf_payload f))"

definition frame_push :: "pending_frame \<Rightarrow> frame_queue \<Rightarrow> frame_queue" where
  "frame_push f q0 =
     (let q = q0\<lparr>aq_queue := aq_queue q0 @ [f], fq_queueBytes := fq_queueBytes q0 + frame_size f\<rparr>
      in if length (aq_queue q) = 1 then set_timer q else q)"

definition frame_enqueue :: "pending_frame \<Rightarrow> frame_queue \<Rightarrow> frame_queue" where
  "frame_enqueue f q0 =
     (let q = (if aq_queue q0 \<noteq> [] \<and> (length (aq_queue q0) + 1 > WORKSPACE_FRAME_AUTOSAVE_MAX_FRAMES \<or>
                  fq_queueBytes q0 + frame_size f > WORKSPACE_FRAME_AUTOSAVE_MAX_BYTES) then frame_release q0 else q0);
          q = frame_push f q;
          q = (if length (aq_queue q) \<ge> WORKSPACE_FRAME_AUTOSAVE_MAX_FRAMES \<or> fq_queueBytes q \<ge> WORKSPACE_FRAME_AUTOSAVE_MAX_BYTES
               then frame_release q else q)
      in notify_owner q)"

definition frame_fire :: "nat \<Rightarrow> frame_queue \<Rightarrow> frame_queue" where
  "frame_fire t q =
     (if t \<in> set (aq_live q) then frame_release (q\<lparr>aq_live := filter (\<lambda>u. u \<noteq> t) (aq_live q), aq_timer := None\<rparr>) else q)"

definition frame_abandon :: "frame_queue \<Rightarrow> nat \<times> frame_queue" where
  "frame_abandon q = (frameAppendCommandCount (aq_queue q), (clear_timer q)\<lparr>aq_queue := [], fq_queueBytes := 0\<rparr>)"

definition frame_reset :: "frame_queue \<Rightarrow> frame_queue" where
  "frame_reset q = q\<lparr>aq_queue := [], fq_queueBytes := 0\<rparr>"

datatype frame_event = FqEnqueue pending_frame | FqFire nat | FqRelease | FqAbandon | FqReset

fun frame_step :: "frame_event \<Rightarrow> frame_queue \<Rightarrow> frame_queue" where
  "frame_step (FqEnqueue f) q = frame_enqueue f q"
| "frame_step (FqFire t) q = frame_fire t q"
| "frame_step FqRelease q = frame_release q"
| "frame_step FqAbandon q = snd (frame_abandon q)"
| "frame_step FqReset q = frame_reset q"

section \<open>What the groups hold\<close>

text \<open>The frames that a command appends: session, sequence number and payload.\<close>

definition frames_of_command :: "command \<Rightarrow> (string \<times> int \<times> json) list" where
  "frames_of_command c =
     (case c of
        AppendFrames i p \<Rightarrow>
          (case (jget ''startSeq'' p, jget ''frames'' p) of
             (JNumber n, JArray fs) \<Rightarrow> map (\<lambda>(k, f). (i, js_floor n + int k, f)) (enumerate 0 fs)
           | _ \<Rightarrow> [])
      | _ \<Rightarrow> [])"

definition frame_item :: "pending_frame \<Rightarrow> string \<times> int \<times> json" where
  "frame_item f = (qf_sessionId f, qf_sequence f, toIpcFramePayload (qf_payload f))"

definition items_of_commands :: "command list \<Rightarrow> (string \<times> int \<times> json) list" where
  "items_of_commands cs = concat (map frames_of_command cs)"

lemma frames_of_append: "frames_of_command (append_command i n ps) = map (\<lambda>(k, f). (i, n + int k, f)) (enumerate 0 ps)"
  by (simp add: frames_of_command_def append_command_def jget_def)

lemma append_loop_items:
  assumes "previousSeq + 1 = startSeq + int (length payloads)"
  shows "items_of_commands (append_loop fs sessionId startSeq previousSeq payloads) =
    map (\<lambda>(k, f). (sessionId, startSeq + int k, f)) (enumerate 0 payloads) @ map frame_item fs"
  using assms
proof (induction fs sessionId startSeq previousSeq payloads rule: append_loop.induct)
  case (2 f fs sessionId startSeq previousSeq payloads)
  show ?case
  proof (cases "qf_sessionId f \<noteq> sessionId \<or> qf_sequence f \<noteq> previousSeq + 1")
    case True
    then show ?thesis using "2.IH"(1) by (auto simp: items_of_commands_def frames_of_append frame_item_def)
  next
    case False
    then show ?thesis using "2.IH"(2) "2.prems" by (simp add: frame_item_def enumerate_append_eq)
  qed
qed (simp add: items_of_commands_def frames_of_append)

lemma appended_items: "items_of_commands (frameAppendCommands fs) = map frame_item fs"
proof (cases fs)
  case (Cons f fs')
  then show ?thesis using append_loop_items [of "qf_sequence f - 1" "qf_sequence f" "[]" fs "qf_sessionId f"]
    by (simp add: frameAppendCommands_def)
qed (simp add: frameAppendCommands_def items_of_commands_def)

lemma append_loop_count:
  "payloads \<noteq> [] \<Longrightarrow> length (append_loop fs (qf_sessionId g) n (qf_sequence g) payloads) = Suc (frame_breaks (g # fs))"
proof (induction fs arbitrary: g n payloads)
  case (Cons f fs)
  show ?case
  proof (cases "qf_sessionId f \<noteq> qf_sessionId g \<or> qf_sequence f \<noteq> qf_sequence g + 1")
    case True
    then show ?thesis using Cons.IH [of "[toIpcFramePayload (qf_payload f)]" f "qf_sequence f"] Cons.prems by auto
  next
    case False
    then show ?thesis using Cons.IH [of "payloads @ [toIpcFramePayload (qf_payload f)]" f n] by simp
  qed
qed simp

lemma command_count: "frameAppendCommandCount fs = length (frameAppendCommands fs)"
  by (cases fs) (simp_all add: frameAppendCommandCount_def frameAppendCommands_def append_loop_count)

lemma count_le: "frameAppendCommandCount fs \<le> length fs"
proof -
  have "frame_breaks fs \<le> length fs - 1" by (induction fs rule: frame_breaks.induct) auto
  then show ?thesis by (cases fs) (simp_all add: frameAppendCommandCount_def)
qed

lemma add_to_groups_items:
  "concat (map (\<lambda>(c, xs). map (Pair c) xs) (add_to_groups ctx x groups)) = concat (map (\<lambda>(c, xs). map (Pair c) xs) groups) @ [(ctx x, x)]"
proof (cases "groups \<noteq> [] \<and> sx_epoch (fst (last groups)) = sx_epoch (ctx x) \<and> sx_workspaceId (fst (last groups)) = sx_workspaceId (ctx x)")
  case True
  then obtain gs c xs where g: "groups = gs @ [(c, xs)]" by (metis prod.collapse rev_exhaust)
  then have "c = ctx x" using True by (simp add: save_context.equality)
  then show ?thesis using True g by (simp add: add_to_groups_def)
qed (auto simp: add_to_groups_def)

lemma grouped_items: "concat (map (\<lambda>(c, xs). map (Pair c) xs) (group_by_context ctx xs)) = map (\<lambda>x. (ctx x, x)) xs"
proof -
  have "concat (map (\<lambda>(c, xs). map (Pair c) xs) (fold (add_to_groups ctx) xs gs)) =
      concat (map (\<lambda>(c, xs). map (Pair c) xs) gs) @ map (\<lambda>x. (ctx x, x)) xs" for gs
    by (induction xs arbitrary: gs) (simp_all add: add_to_groups_items)
  then show ?thesis by (simp add: group_by_context_def)
qed


lemma group_contents:
  "concat (map (\<lambda>(c, xs). map (\<lambda>x. (c, g x)) xs) (group_by_context ctx xs)) = map (\<lambda>x. (ctx x, g x)) xs"
proof -
  have "map (\<lambda>(c, x). (c, g x)) (concat (map (\<lambda>(c, xs). map (Pair c) xs) (group_by_context ctx xs))) = map (\<lambda>x. (ctx x, g x)) xs"
    unfolding grouped_items by simp
  then show ?thesis by (simp add: map_concat comp_def split_def)
qed

lemma group_members: "(c, xs) \<in> set (group_by_context ctx ys) \<Longrightarrow> xs \<noteq> [] \<and> set xs \<subseteq> set ys \<and> length xs \<le> length ys"
proof -
  have nonempty: "list_all (\<lambda>p. snd p \<noteq> []) gs \<Longrightarrow> list_all (\<lambda>p. snd p \<noteq> []) (fold (add_to_groups ctx) ys gs)" for gs
  proof (induction ys arbitrary: gs)
    case (Cons y ys)
    have "list_all (\<lambda>p. snd p \<noteq> []) (add_to_groups ctx y gs)"
      using Cons.prems by (auto simp: add_to_groups_def list_all_iff dest: in_set_butlastD)
    then show ?case using Cons.IH by simp
  qed simp
  assume m: "(c, xs) \<in> set (group_by_context ctx ys)"
  have "map snd (concat (map (\<lambda>(c, xs). map (Pair c) xs) (group_by_context ctx ys))) = ys" unfolding grouped_items by (simp add: comp_def)
  then have cat: "concat (map snd (group_by_context ctx ys)) = ys" by (simp add: map_concat comp_def split_def)
  have "xs \<in> set (map snd (group_by_context ctx ys))" using m by force
  then obtain us vs where "map snd (group_by_context ctx ys) = us @ xs # vs" by (metis split_list)
  then have "ys = concat us @ xs @ concat vs" using cat by simp
  then show ?thesis using nonempty [of "[]"] m by (auto simp: group_by_context_def list_all_iff)
qed

section \<open>The contract of an autosave queue\<close>

text \<open>An event brings items and may drop those that wait.  Nothing else loses, repeats or reorders an item; what waits
  has a timer that will release it.\<close>

locale autosave_contract =
  fixes step :: "'e \<Rightarrow> 's \<Rightarrow> 's" and start :: 's and taken :: "'e \<Rightarrow> 'i list" and drops :: "'e \<Rightarrow> bool"
    and saved :: "'s \<Rightarrow> 'i list" and waiting :: "'s \<Rightarrow> 'i list" and inv :: "'s \<Rightarrow> bool"
  assumes inv_start: "inv start"
    and empty_start: "saved start @ waiting start = []"
    and inv_step: "inv s \<Longrightarrow> inv (step e s)"
    and keeps: "\<not> drops e \<Longrightarrow> saved (step e s) @ waiting (step e s) = saved s @ waiting s @ taken e"
    and drops_waiting: "drops e \<Longrightarrow> saved (step e s) = saved s \<and> waiting (step e s) = []"
begin

lemma run_inv: "inv s \<Longrightarrow> inv (run_events step es s)"
  by (induction es arbitrary: s) (simp_all add: inv_step)

lemma reached_inv: "inv (run_events step es start)"
  by (rule run_inv [OF inv_start])

lemma run_keeps:
  "saved (run_events step (filter (\<lambda>e. \<not> drops e) es) s) @ waiting (run_events step (filter (\<lambda>e. \<not> drops e) es) s) =
   saved s @ waiting s @ concat (map taken (filter (\<lambda>e. \<not> drops e) es))"
proof (induction es arbitrary: s)
  case (Cons e es)
  then show ?case using keeps [of e s] by simp
qed simp

lemma all_kept:
  "saved (run_events step (filter (\<lambda>e. \<not> drops e) es) start) @ waiting (run_events step (filter (\<lambda>e. \<not> drops e) es) start) =
   concat (map taken (filter (\<lambda>e. \<not> drops e) es))"
  using run_keeps [of es start] empty_start by simp

lemma run_subseq:
  "subseq (saved s @ waiting s) before \<Longrightarrow>
   subseq (saved (run_events step es s) @ waiting (run_events step es s)) (before @ concat (map taken es))"
proof (induction es arbitrary: s before)
  case (Cons e es)
  have "subseq (saved (step e s) @ waiting (step e s)) (before @ taken e)"
  proof (cases "drops e")
    case True
    have "subseq (saved s) (saved s @ waiting s)" by (rule subseq_rev_drop_many) simp
    then have "subseq (saved s) before" using Cons.prems subseq_order.trans by blast
    then show ?thesis using drops_waiting [OF True] by (simp add: subseq_rev_drop_many)
  next
    case False
    have "subseq ((saved s @ waiting s) @ taken e) (before @ taken e)" using Cons.prems by (rule list_emb_append_mono) simp
    then show ?thesis using keeps [OF False, of s] by simp
  qed
  from Cons.IH [OF this] show ?case by simp
qed simp

lemma nothing_invented: "subseq (saved (run_events step es start) @ waiting (run_events step es start)) (concat (map taken es))"
  using run_subseq [of start "[]" es] empty_start by simp

end

section \<open>Both queues keep it\<close>

text \<open>What waits will be released: the field holds a timer that is live.\<close>

definition armed :: "('a, 'b) autosave_scheme \<Rightarrow> bool" where
  "armed q \<longleftrightarrow> (case aq_timer q of None \<Rightarrow> False | Some t \<Rightarrow> t \<in> set (aq_live q))"

lemma clear_timer_simps [simp]:
  "aq_queue (clear_timer q) = aq_queue q" "aq_groups (clear_timer q) = aq_groups q" "aq_timer (clear_timer q) = None"
  "aq_next (clear_timer q) = aq_next q"
  by (simp_all add: clear_timer_def)

lemma set_timer_simps [simp]:
  "aq_queue (set_timer q) = aq_queue q" "aq_groups (set_timer q) = aq_groups q" "armed (set_timer q)"
  by (simp_all add: set_timer_def armed_def)

lemma notify_owner_simps [simp]:
  "aq_queue (notify_owner q) = aq_queue q" "aq_groups (notify_owner q) = aq_groups q" "armed (notify_owner q) = armed q"
  by (auto simp: notify_owner_def armed_def split: option.split)

subsection \<open>Settings\<close>

definition config_item :: "pending_config \<Rightarrow> save_context \<times> command" where
  "config_item c = (qc_context c, qc_command c)"

definition config_saved :: "config_queue \<Rightarrow> (save_context \<times> command) list" where
  "config_saved q = concat (map (\<lambda>(c, cs). map (Pair c) cs) (aq_groups q))"

definition config_waiting :: "config_queue \<Rightarrow> (save_context \<times> command) list" where
  "config_waiting q = map config_item (aq_queue q)"

fun config_taken :: "config_event \<Rightarrow> (save_context \<times> command) list" where
  "config_taken (CqEnqueue c commands) = map (Pair c) commands"
| "config_taken _ = []"

fun config_drops :: "config_event \<Rightarrow> bool" where
  "config_drops CqAbandon = True"
| "config_drops CqReset = True"
| "config_drops _ = False"

definition config_ok :: "config_queue \<Rightarrow> bool" where
  "config_ok q \<longleftrightarrow> (aq_queue q \<noteq> [] \<longrightarrow> armed q)"

lemma config_release_saves:
  "config_saved (config_release q) = config_saved q @ config_waiting q \<and> aq_queue (config_release q) = []"
  using group_contents [of qc_command qc_context "aq_queue q"]
  by (simp add: config_release_def Let_def config_saved_def config_waiting_def config_item_def comp_def split_def)

lemma config_release_waits [simp]: "config_waiting (config_release q) = []" "config_saved (config_release q) = config_saved q @ config_waiting q"
  using config_release_saves [of q] by (simp_all add: config_waiting_def)

lemma config_fire_cases:
  "config_fire t q = (if t \<in> set (aq_live q) then config_release (q\<lparr>aq_live := filter (\<lambda>u. u \<noteq> t) (aq_live q), aq_timer := None\<rparr>) else q)"
  by (rule config_fire_def)

lemma config_items_upd [simp]:
  "config_saved (q\<lparr>aq_live := l, aq_timer := t\<rparr>) = config_saved q" "config_waiting (q\<lparr>aq_live := l, aq_timer := t\<rparr>) = config_waiting q"
  by (simp_all add: config_saved_def config_waiting_def)

lemma config_enqueue_items:
  "config_saved (config_enqueue c xs q) = config_saved q \<and> config_waiting (config_enqueue c xs q) = config_waiting q @ map (Pair c) xs"
  by (simp add: config_enqueue_def Let_def config_saved_def config_waiting_def config_item_def comp_def)

interpretation cq: autosave_contract config_step "new_autosave" config_taken config_drops config_saved config_waiting config_ok
proof
  fix q :: config_queue and e
  show "config_ok new_autosave" "config_saved new_autosave @ config_waiting new_autosave = []"
    by (simp_all add: config_ok_def new_autosave_def config_saved_def config_waiting_def)
  show "config_ok (config_step e q)" if "config_ok q"
    using that config_release_saves
    by (cases e) (auto simp: config_ok_def config_enqueue_def config_fire_def config_abandon_def config_reset_def Let_def)
  show "config_saved (config_step e q) @ config_waiting (config_step e q) = config_saved q @ config_waiting q @ config_taken e"
    if "\<not> config_drops e"
    using that by (cases e) (simp_all add: config_enqueue_items config_fire_def)
  show "config_saved (config_step e q) = config_saved q \<and> config_waiting (config_step e q) = []" if "config_drops e"
    using that by (cases e) (simp_all add: config_abandon_def config_reset_def config_saved_def config_waiting_def)
qed


lemma config_fire_armed:
  "armed q \<Longrightarrow> case aq_timer q of None \<Rightarrow> False
     | Some t \<Rightarrow> aq_queue (config_fire t q) = [] \<and> config_saved (config_fire t q) = config_saved q @ config_waiting q"
  using config_release_saves by (auto simp: armed_def config_fire_def split: option.splits)

text \<open>Settings reach the save path in order.  While nothing abandons or resets the queue, the commands handed over,
  followed by those that wait, are the commands enqueued, each with its context, in order; with abandons
  and resets they are a subsequence of them; and whenever commands wait, the queue's timer runs and its expiry hands all of
  them over.\<close>

theorem settings_saved_in_order:
  "(let kept = filter (\<lambda>e. \<not> config_drops e) es; q = run_events config_step kept new_autosave
    in config_saved q @ config_waiting q = concat (map config_taken kept)) \<and>
   (let q = run_events config_step es new_autosave
    in subseq (config_saved q @ config_waiting q) (concat (map config_taken es)) \<and>
       (if aq_queue q = [] then True
        else case aq_timer q of None \<Rightarrow> False
          | Some t \<Rightarrow> aq_queue (config_fire t q) = [] \<and> config_saved (config_fire t q) = config_saved q @ config_waiting q))"
  using cq.all_kept [of es] cq.nothing_invented [of es] cq.reached_inv [of es] config_fire_armed [of "run_events config_step es new_autosave"]
  by (simp add: Let_def config_ok_def)

end
