(* ===== verification/SaveFrames.thy ===== *)
theory SaveFrames
  imports SaveQueues
begin

text \<open>
  What the queue of captured frames guarantees: the contract of \<open>SaveQueues\<close> on frames with their bytes decoded,
  the limits of a release, and that each group it hands over is a single batch of \<open>partitionWorkspaceMutationCommands\<close>.
\<close>

section \<open>The contract\<close>

definition frame_pair :: "pending_frame \<Rightarrow> save_context \<times> string \<times> int \<times> json" where
  "frame_pair f = (qf_context f, frame_item f)"

definition group_items :: "(save_context \<times> command list) list \<Rightarrow> (save_context \<times> string \<times> int \<times> json) list" where
  "group_items gs = concat (map (\<lambda>(c, cs). map (Pair c) (items_of_commands cs)) gs)"

definition frame_saved :: "frame_queue \<Rightarrow> (save_context \<times> string \<times> int \<times> json) list" where
  "frame_saved q = group_items (aq_groups q)"

definition frame_waiting :: "frame_queue \<Rightarrow> (save_context \<times> string \<times> int \<times> json) list" where
  "frame_waiting q = map frame_pair (aq_queue q)"

fun frame_taken :: "frame_event \<Rightarrow> pending_frame list" where
  "frame_taken (FqEnqueue f) = [f]"
| "frame_taken _ = []"

fun frame_drops :: "frame_event \<Rightarrow> bool" where
  "frame_drops FqAbandon = True"
| "frame_drops FqReset = True"
| "frame_drops _ = False"

definition queue_size :: "pending_frame list \<Rightarrow> nat" where
  "queue_size fs = sum_list (map frame_size fs)"

definition release_fits :: "pending_frame list \<Rightarrow> bool" where
  "release_fits fs \<longleftrightarrow> fs \<noteq> [] \<and> length fs \<le> WORKSPACE_FRAME_AUTOSAVE_MAX_FRAMES \<and>
     (queue_size fs \<le> WORKSPACE_FRAME_AUTOSAVE_MAX_BYTES \<or> length fs = 1)"

definition groups_of_release :: "pending_frame list \<Rightarrow> (save_context \<times> command list) list" where
  "groups_of_release fs = map (\<lambda>(c, frames). (c, frameAppendCommands frames)) (group_by_context qf_context fs)"

text \<open>The queue between events: below both limits, counted exactly, armed when not empty, and its log of groups is
  that of its releases.\<close>

definition frame_counted :: "frame_queue \<Rightarrow> bool" where
  "frame_counted q \<longleftrightarrow> fq_queueBytes q = queue_size (aq_queue q) \<and> list_all release_fits (fq_released q) \<and>
     aq_groups q = concat (map groups_of_release (fq_released q))"

definition frame_queue_ok :: "frame_queue \<Rightarrow> bool" where
  "frame_queue_ok q \<longleftrightarrow> frame_counted q \<and> (aq_queue q \<noteq> [] \<longrightarrow> armed q) \<and> length (aq_queue q) < WORKSPACE_FRAME_AUTOSAVE_MAX_FRAMES \<and>
     fq_queueBytes q < WORKSPACE_FRAME_AUTOSAVE_MAX_BYTES"

lemmas frame_limits = WORKSPACE_FRAME_AUTOSAVE_MAX_FRAMES_def WORKSPACE_FRAME_AUTOSAVE_MAX_BYTES_def

lemma timer_keeps_frames [simp]:
  "fq_queueBytes (clear_timer q) = fq_queueBytes q" "fq_released (clear_timer q) = fq_released q"
  "fq_queueBytes (set_timer q) = fq_queueBytes q" "fq_released (set_timer q) = fq_released q"
  "fq_queueBytes (notify_owner q) = fq_queueBytes q" "fq_released (notify_owner q) = fq_released q"
  by (simp_all add: clear_timer_def set_timer_def notify_owner_def)

lemma no_groups [simp]: "groups_of_release [] = []"
  by (simp add: groups_of_release_def group_by_context_def)

lemma frame_release_fields:
  "aq_queue (frame_release q) = [] \<and>
   aq_groups (frame_release q) = aq_groups q @ groups_of_release (aq_queue q) \<and>
   fq_queueBytes (frame_release q) = (if aq_queue q = [] then fq_queueBytes q else 0) \<and>
   fq_released (frame_release q) = fq_released q @ (if aq_queue q = [] then [] else [aq_queue q])"
  by (simp add: frame_release_def Let_def groups_of_release_def group_by_context_def)

lemma release_items: "group_items (groups_of_release fs) = map frame_pair fs"
  using group_contents [of frame_item qf_context fs]
  by (simp add: group_items_def groups_of_release_def appended_items frame_pair_def comp_def split_def)

lemma frame_release_saves: "frame_saved (frame_release q) = frame_saved q @ frame_waiting q \<and> frame_waiting (frame_release q) = []"
  using frame_release_fields [of q] release_items [of "aq_queue q"] by (simp add: frame_saved_def frame_waiting_def group_items_def)

lemma frame_release_ok:
  assumes "frame_counted q" "aq_queue q \<noteq> [] \<longrightarrow> release_fits (aq_queue q)"
  shows "frame_queue_ok (frame_release q)"
  using assms frame_release_fields [of q] by (auto simp: frame_queue_ok_def frame_counted_def queue_size_def frame_limits)

lemma ok_release_fits: "frame_queue_ok q \<Longrightarrow> aq_queue q \<noteq> [] \<longrightarrow> release_fits (aq_queue q)"
  by (auto simp: frame_queue_ok_def frame_counted_def release_fits_def)

lemma frame_push_fields:
  "aq_queue (frame_push f q) = aq_queue q @ [f] \<and> aq_groups (frame_push f q) = aq_groups q \<and>
   fq_queueBytes (frame_push f q) = fq_queueBytes q + frame_size f \<and> fq_released (frame_push f q) = fq_released q"
  by (simp add: frame_push_def Let_def)

lemma frame_push_armed: "aq_queue q \<noteq> [] \<longrightarrow> armed q \<Longrightarrow> armed (frame_push f q)"
  by (cases "aq_queue q"; cases "aq_timer q") (simp_all add: frame_push_def Let_def armed_def set_timer_def)

lemma frame_notify_ok [simp]: "frame_queue_ok (notify_owner q) = frame_queue_ok q" "frame_saved (notify_owner q) = frame_saved q"
    "frame_waiting (notify_owner q) = frame_waiting q"
  by (simp_all add: frame_queue_ok_def frame_counted_def frame_saved_def frame_waiting_def)

definition needs_room :: "pending_frame \<Rightarrow> frame_queue \<Rightarrow> bool" where
  "needs_room f q \<longleftrightarrow> aq_queue q \<noteq> [] \<and> (length (aq_queue q) + 1 > WORKSPACE_FRAME_AUTOSAVE_MAX_FRAMES \<or>
     fq_queueBytes q + frame_size f > WORKSPACE_FRAME_AUTOSAVE_MAX_BYTES)"

definition is_full :: "frame_queue \<Rightarrow> bool" where
  "is_full q \<longleftrightarrow> length (aq_queue q) \<ge> WORKSPACE_FRAME_AUTOSAVE_MAX_FRAMES \<or> fq_queueBytes q \<ge> WORKSPACE_FRAME_AUTOSAVE_MAX_BYTES"

lemma frame_enqueue_eq:
  "frame_enqueue f q = (let q = frame_push f (if needs_room f q then frame_release q else q)
     in notify_owner (if is_full q then frame_release q else q))"
  by (simp add: frame_enqueue_def needs_room_def is_full_def Let_def)

lemma frame_enqueue_items:
  "frame_saved (frame_enqueue f q) @ frame_waiting (frame_enqueue f q) = frame_saved q @ frame_waiting q @ [frame_pair f]"
proof -
  have push: "frame_saved (frame_push f r) = frame_saved r" "frame_waiting (frame_push f r) = frame_waiting r @ [frame_pair f]" for r
    using frame_push_fields [of f r] by (simp_all add: frame_saved_def frame_waiting_def)
  show ?thesis using frame_release_saves by (simp add: frame_enqueue_eq Let_def push)
qed

lemma frame_enqueue_ok: "frame_queue_ok q \<Longrightarrow> frame_queue_ok (frame_enqueue f q)"
proof -
  assume ok: "frame_queue_ok q"
  define r where "r = (if needs_room f q then frame_release q else q)"
  have r: "frame_queue_ok r" using ok frame_release_ok ok_release_fits by (simp add: r_def frame_queue_ok_def)
  have room: "aq_queue r = [] \<or> queue_size (aq_queue r) + frame_size f \<le> WORKSPACE_FRAME_AUTOSAVE_MAX_BYTES"
    using ok frame_release_fields [of q] by (auto simp: r_def needs_room_def frame_queue_ok_def frame_counted_def)
  let ?p = "frame_push f r"
  have counted: "frame_counted ?p" using r frame_push_fields [of f r] by (simp add: frame_queue_ok_def frame_counted_def queue_size_def)
  have fits: "release_fits (aq_queue ?p)"
    using room r frame_push_fields [of f r] by (auto simp: release_fits_def frame_queue_ok_def queue_size_def)
  have "frame_queue_ok ?p" if "\<not> is_full ?p"
    using that counted r frame_push_armed [of r f] by (auto simp: frame_queue_ok_def is_full_def)
  then show ?thesis using frame_release_ok [OF counted] fits by (simp add: frame_enqueue_eq Let_def r_def [symmetric])
qed


lemma frame_fire_eq:
  "frame_fire t q = (if t \<in> set (aq_live q) then frame_release (q\<lparr>aq_live := filter (\<lambda>u. u \<noteq> t) (aq_live q), aq_timer := None\<rparr>) else q)"
  by (rule frame_fire_def)

lemma frame_upd [simp]:
  "frame_saved (q\<lparr>aq_live := l, aq_timer := t\<rparr>) = frame_saved q" "frame_waiting (q\<lparr>aq_live := l, aq_timer := t\<rparr>) = frame_waiting q"
  "frame_counted (q\<lparr>aq_live := l, aq_timer := t\<rparr>) = frame_counted q"
  by (simp_all add: frame_saved_def frame_waiting_def frame_counted_def)

lemma frame_fire_ok: "frame_queue_ok q \<Longrightarrow> frame_queue_ok (frame_fire t q)"
  using frame_release_ok [of "q\<lparr>aq_live := filter (\<lambda>u. u \<noteq> t) (aq_live q), aq_timer := None\<rparr>"] ok_release_fits [of q]
  by (simp add: frame_fire_def frame_queue_ok_def [of q])

lemma frame_emptied_ok: "frame_queue_ok q \<Longrightarrow> frame_queue_ok (snd (frame_abandon q)) \<and> frame_queue_ok (frame_reset q)"
  by (simp add: frame_queue_ok_def frame_counted_def frame_abandon_def frame_reset_def queue_size_def frame_limits)

lemma frame_emptied_items:
  "frame_saved (snd (frame_abandon q)) = frame_saved q \<and> frame_waiting (snd (frame_abandon q)) = [] \<and>
   frame_saved (frame_reset q) = frame_saved q \<and> frame_waiting (frame_reset q) = []"
  by (simp add: frame_saved_def frame_waiting_def frame_abandon_def frame_reset_def)

interpretation fq: autosave_contract frame_step new_frame_queue "\<lambda>e. map frame_pair (frame_taken e)" frame_drops frame_saved frame_waiting frame_queue_ok
proof
  fix q :: frame_queue and e
  show "frame_queue_ok new_frame_queue" "frame_saved new_frame_queue @ frame_waiting new_frame_queue = []"
    by (simp_all add: frame_queue_ok_def frame_counted_def new_frame_queue_def queue_size_def frame_limits frame_saved_def frame_waiting_def group_items_def)
  show "frame_queue_ok (frame_step e q)" if "frame_queue_ok q"
  proof (cases e)
    case FqRelease
    have "frame_counted q" using that by (simp add: frame_queue_ok_def)
    then show ?thesis using FqRelease frame_release_ok ok_release_fits [OF that] by simp
  qed (use that frame_enqueue_ok frame_fire_ok frame_emptied_ok in simp_all)
  show "frame_saved (frame_step e q) @ frame_waiting (frame_step e q) = frame_saved q @ frame_waiting q @ map frame_pair (frame_taken e)"
    if "\<not> frame_drops e"
    using that frame_release_saves by (cases e) (simp_all add: frame_enqueue_items frame_fire_def)
  show "frame_saved (frame_step e q) = frame_saved q \<and> frame_waiting (frame_step e q) = []" if "frame_drops e"
    using that frame_emptied_items by (cases e) simp_all
qed

section \<open>Frames as the native side reads them\<close>

text \<open>\<open>dataB64\<close> is decoded by the codec of \<open>Base64\<close>.\<close>

definition text_of :: "json \<Rightarrow> string" where
  "text_of v = (case v of JString s \<Rightarrow> s | _ \<Rightarrow> [])"

record stored_frame =
  st_context :: save_context
  st_sessionId :: string
  st_sequence :: int
  st_id :: string
  st_direction :: string
  st_data :: "bytes option"

definition read_item :: "save_context \<times> string \<times> int \<times> json \<Rightarrow> stored_frame" where
  "read_item = (\<lambda>(c, i, n, v). \<lparr>st_context = c, st_sessionId = i, st_sequence = n, st_id = text_of (jget ''id'' v),
     st_direction = text_of (jget ''direction'' v), st_data = base64ToBytes (text_of (jget ''dataB64'' v))\<rparr>)"

definition stored :: "pending_frame \<Rightarrow> stored_frame" where
  "stored f = \<lparr>st_context = qf_context f, st_sessionId = qf_sessionId f, st_sequence = qf_sequence f, st_id = qp_id (qf_payload f),
     st_direction = qp_direction (qf_payload f), st_data = Some (qp_data (qf_payload f))\<rparr>"

lemma read_pair: "read_item (frame_pair f) = stored f"
  by (simp add: read_item_def frame_pair_def frame_item_def stored_def toIpcFramePayload_def jget_def text_of_def
      base64ToBytes_eq bytesToBase64_eq canonical_btoa atob_btoa)

definition frames_saved :: "frame_queue \<Rightarrow> stored_frame list" where
  "frames_saved q = map read_item (group_items (aq_groups q))"

lemma frames_saved_waiting: "frames_saved q @ map stored (aq_queue q) = map read_item (frame_saved q @ frame_waiting q)"
  by (simp add: frames_saved_def frame_saved_def frame_waiting_def read_pair)

text \<open>C25. Captured frames reach the save path complete and in order.  While nothing abandons or resets the queue, the frames
  read back from the append commands handed over, with their context, session, sequence number, identifier,
  direction and decoded bytes, followed by the frames that wait, are the frames enqueued, in order; with abandons
  and resets they are a subsequence; and when frames wait, the queue's timer runs and its expiry hands all of them over.\<close>

theorem frames_saved_in_order:
  "(let kept = filter (\<lambda>e. \<not> frame_drops e) es; q = run_events frame_step kept new_frame_queue
    in frames_saved q @ map stored (aq_queue q) = map stored (concat (map frame_taken kept))) \<and>
   (let q = run_events frame_step es new_frame_queue
    in subseq (frames_saved q @ map stored (aq_queue q)) (map stored (concat (map frame_taken es))) \<and>
       (if aq_queue q = [] then True
        else case aq_timer q of None \<Rightarrow> False
          | Some t \<Rightarrow> aq_queue (frame_fire t q) = [] \<and> frames_saved (frame_fire t q) = frames_saved q @ map stored (aq_queue q)))"
proof -
  have read: "map read_item (concat (map (\<lambda>e. map frame_pair (frame_taken e)) xs)) = map stored (concat (map frame_taken xs))" for xs
    by (induction xs) (simp_all add: read_pair comp_def)
  have sub: "subseq (frames_saved q @ map stored (aq_queue q)) (map stored (concat (map frame_taken es)))"
    if "q = run_events frame_step es new_frame_queue" for q
    using subseq_map [OF fq.nothing_invented [of es], of read_item] that by (simp only: frames_saved_waiting read)
  have fire: "aq_queue (frame_fire t q) = [] \<and> frames_saved (frame_fire t q) = frames_saved q @ map stored (aq_queue q)"
    if "t \<in> set (aq_live q)" for t q
    using that frame_release_saves [of "q\<lparr>aq_live := filter (\<lambda>u. u \<noteq> t) (aq_live q), aq_timer := None\<rparr>"] frame_release_fields
    by (simp add: frames_saved_waiting frame_fire_def) (simp add: frames_saved_def frame_saved_def)
  show ?thesis
    using sub fire fq.all_kept [of es] fq.reached_inv [of es]
    by (auto simp add: Let_def frames_saved_waiting read frame_queue_ok_def armed_def split: option.splits simp del: map_append)
qed

section \<open>Limits\<close>

text \<open>The commands of the queue carry their bytes in \<open>dataB64\<close>, so the weight of an append is its number of frames.\<close>

definition light :: "command \<Rightarrow> bool" where
  "light c \<longleftrightarrow> (\<exists>i n ps. c = append_command i n ps \<and> set ps \<subseteq> range toIpcFramePayload)"

lemma payload_data: "data_length (jget ''data'' (toIpcFramePayload p)) = Some 0"
  by (simp add: toIpcFramePayload_def jget_def data_length_def)

lemma payload_bytes: "set ps \<subseteq> range toIpcFramePayload \<Longrightarrow> frame_bytes ps 0 = Some 0"
  by (induction ps) (auto simp: payload_data safe_sum_def MAX_SAFE_INTEGER_def)

lemma light_weight:
  "light c \<Longrightarrow> workspaceMutationLogicalWeight c = Some \<lparr>wt_bytes = 0, wt_frames = length (frames_of_command c), wt_singleLargeFrame = False\<rparr>"
  by (auto simp: light_def workspaceMutationLogicalWeight_def frames_weight_def jget_def payload_bytes frames_of_append append_command_def
      MAX_WORKSPACE_BATCH_BYTES_def frames_of_command_def)

lemma append_loop_light:
  "set ps \<subseteq> range toIpcFramePayload \<Longrightarrow> list_all light (append_loop fs i n m ps)"
proof (induction fs arbitrary: i n m ps)
  case (Cons f fs)
  then show ?case by (auto simp: light_def)
qed (auto simp: light_def)

lemma append_commands_light: "list_all light (frameAppendCommands fs)"
  by (simp add: frameAppendCommands_def append_loop_light)

lemma light_batches:
  assumes "list_all light cs" "bt_bytes b = 0" "length (bt_batch b) + length cs \<le> MAX_WORKSPACE_MUTATIONS_PER_BATCH"
    "bt_frames b + length (items_of_commands cs) \<le> MAX_WORKSPACE_FRAMES_PER_BATCH"
  shows "bt_all cs b = Some (b\<lparr>bt_batch := bt_batch b @ cs, bt_frames := bt_frames b + length (items_of_commands cs)\<rparr>)"
  using assms
proof (induction cs arbitrary: b)
  case (Cons c cs)
  let ?b = "b\<lparr>bt_batch := bt_batch b @ [c], bt_bytes := 0, bt_frames := bt_frames b + length (frames_of_command c)\<rparr>"
  have count: "length (items_of_commands (c # cs)) = length (frames_of_command c) + length (items_of_commands cs)"
    by (simp add: items_of_commands_def)
  have "bt_add c b = Some ?b"
    using Cons.prems count light_weight [of c] by (simp add: bt_add_def Let_def MAX_WORKSPACE_BATCH_BYTES_def)
  then show ?case using Cons.IH [of ?b] Cons.prems count by (simp add: add.assoc)
qed (simp add: items_of_commands_def)

lemma one_batch:
  assumes "fs \<noteq> []" "length fs \<le> 256"
  shows "partitionWorkspaceMutationCommands (frameAppendCommands fs) = Some [frameAppendCommands fs]"
proof -
  let ?cs = "frameAppendCommands fs"
  have "length ?cs \<le> 256" using count_le [of fs] assms command_count [of fs] by simp
  moreover have "?cs \<noteq> []" using command_count [of fs] assms(1) by (auto simp: frameAppendCommandCount_def)
  moreover have "length (items_of_commands ?cs) \<le> 256" using assms by (simp add: appended_items)
  ultimately show ?thesis
    using light_batches [OF append_commands_light [of fs]]
    by (simp add: partitionWorkspaceMutationCommands_def bt_release_def MAX_WORKSPACE_MUTATIONS_PER_BATCH_def MAX_WORKSPACE_FRAMES_PER_BATCH_def)
qed

lemma release_one_batch:
  assumes "release_fits fs"
  shows "list_all (\<lambda>g. partitionWorkspaceMutationCommands (snd g) = Some [snd g]) (groups_of_release fs)"
proof -
  have "partitionWorkspaceMutationCommands (frameAppendCommands xs) = Some [frameAppendCommands xs]"
    if "(c, xs) \<in> set (group_by_context qf_context fs)" for c xs
    using group_members [OF that] assms by (intro one_batch) (auto simp: release_fits_def frame_limits)
  then show ?thesis by (auto simp: groups_of_release_def list_all_iff)
qed

text \<open>C28. The frame queue stays within its limits and what it hands over needs no further division.  After any events at
  most 255 frames of less than 512 KiB wait, and the count of their bytes is exact; each release held at most 256 frames
  of together at most 512 KiB, or a single larger frame; the groups handed over are those of the releases, and each
  group is by itself one batch of \<open>partitionWorkspaceMutationCommands\<close>.\<close>

theorem frames_within_limits:
  "let q = run_events frame_step es new_frame_queue
   in length (aq_queue q) < 256 \<and> fq_queueBytes q = queue_size (aq_queue q) \<and> queue_size (aq_queue q) < 512 * 1024 \<and>
      list_all release_fits (fq_released q) \<and> aq_groups q = concat (map groups_of_release (fq_released q)) \<and>
      list_all (\<lambda>g. partitionWorkspaceMutationCommands (snd g) = Some [snd g]) (aq_groups q)"
proof -
  define q where "q = run_events frame_step es new_frame_queue"
  have ok: "frame_queue_ok q" unfolding q_def by (rule fq.reached_inv)
  then have "list_all release_fits (fq_released q)" "aq_groups q = concat (map groups_of_release (fq_released q))"
    by (simp_all add: frame_queue_ok_def frame_counted_def)
  moreover from this have "list_all (\<lambda>g. partitionWorkspaceMutationCommands (snd g) = Some [snd g]) (aq_groups q)"
    using release_one_batch by (auto simp: list_all_iff)
  ultimately show ?thesis using ok by (simp add: Let_def q_def [symmetric] frame_queue_ok_def frame_counted_def frame_limits)
qed

end
