(* ===== verification/SaveNotify.thy ===== *)
theory SaveNotify
  imports SaveFrames
begin

text \<open>
  Both queues behind one front, \<open>WorkspaceSaveQueues\<close> in \<open>src/features/workspace/application/save-queues/index.ts\<close>, with the
  throttle of its notifications, and \<open>SaveGate\<close>.

  While frames are queued the owner is notified at most once per 250 ms; \<open>sv_owed\<close> counts the notifications that the throttle has
  held back since the owner was last told.
\<close>

section \<open>State and operations\<close>

definition WORKSPACE_NOTIFY_THROTTLE_MS :: nat where "WORKSPACE_NOTIFY_THROTTLE_MS = 250"

record save_queues =
  sv_config :: config_queue
  sv_frames :: frame_queue
  sv_throttle :: "nat option"
  sv_pending :: bool
  sv_live :: "nat list"
  sv_next :: nat
  sv_emitted :: nat
  sv_owed :: nat

definition new_save_queues :: save_queues where
  "new_save_queues = \<lparr>sv_config = new_autosave, sv_frames = new_frame_queue, sv_throttle = None, sv_pending = False, sv_live = [],
     sv_next = 0, sv_emitted = 0, sv_owed = 0\<rparr>"

definition configQueued :: "save_queues \<Rightarrow> bool" where
  "configQueued s \<longleftrightarrow> aq_queue (sv_config s) \<noteq> []"

definition framesQueued :: "save_queues \<Rightarrow> bool" where
  "framesQueued s \<longleftrightarrow> aq_queue (sv_frames s) \<noteq> []"

definition queuedMutationCount :: "save_queues \<Rightarrow> nat" where
  "queuedMutationCount s = length (aq_queue (sv_config s)) + frameAppendCommandCount (aq_queue (sv_frames s))"

definition sv_emit :: "save_queues \<Rightarrow> save_queues" where
  "sv_emit s = s\<lparr>sv_emitted := Suc (sv_emitted s), sv_owed := 0\<rparr>"

text \<open>\<open>notify\<close>, given whether frames are queued when it is called.\<close>

definition sv_notify :: "bool \<Rightarrow> save_queues \<Rightarrow> save_queues" where
  "sv_notify queued s =
     (if queued
      then
        if sv_throttle s \<noteq> None then s\<lparr>sv_pending := True, sv_owed := Suc (sv_owed s)\<rparr>
        else
          let s = sv_emit s
          in s\<lparr>sv_throttle := Some (sv_next s), sv_live := sv_next s # sv_live s, sv_next := Suc (sv_next s)\<rparr>
      else
        let s = (case sv_throttle s of
                   None \<Rightarrow> s
                 | Some t \<Rightarrow> s\<lparr>sv_live := filter (\<lambda>u. u \<noteq> t) (sv_live s), sv_throttle := None\<rparr>)
        in sv_emit (s\<lparr>sv_pending := False\<rparr>))"

definition sv_timer :: "nat \<Rightarrow> save_queues \<Rightarrow> save_queues" where
  "sv_timer t s =
     (if t \<notin> set (sv_live s) then s
      else
        let s = s\<lparr>sv_live := filter (\<lambda>u. u \<noteq> t) (sv_live s), sv_throttle := None\<rparr>
        in if sv_pending s then sv_notify (framesQueued s) (s\<lparr>sv_pending := False\<rparr>) else s)"

text \<open>An operation of a queue and the notifications it makes.\<close>

definition on_config :: "(config_queue \<Rightarrow> config_queue) \<Rightarrow> save_queues \<Rightarrow> save_queues" where
  "on_config f s =
     (let q = f (sv_config s)
      in fold (\<lambda>_. sv_notify (framesQueued s)) (drop (length (aq_notified (sv_config s))) (aq_notified q)) (s\<lparr>sv_config := q\<rparr>))"

definition on_frames :: "(frame_queue \<Rightarrow> frame_queue) \<Rightarrow> save_queues \<Rightarrow> save_queues" where
  "on_frames f s =
     (let q = f (sv_frames s) in fold sv_notify (drop (length (aq_notified (sv_frames s))) (aq_notified q)) (s\<lparr>sv_frames := q\<rparr>))"

definition enqueueConfigMutations :: "save_context \<Rightarrow> command list \<Rightarrow> save_queues \<Rightarrow> save_queues" where
  "enqueueConfigMutations c commands = on_config (config_enqueue c commands)"

definition enqueueFrame :: "pending_frame \<Rightarrow> save_queues \<Rightarrow> save_queues" where
  "enqueueFrame f = on_frames (frame_enqueue f)"

definition releaseAll :: "save_queues \<Rightarrow> save_queues" where
  "releaseAll s = on_frames frame_release (on_config config_release s)"

definition sv_abandon :: "save_queues \<Rightarrow> nat \<times> save_queues" where
  "sv_abandon s =
     (let (n, c) = config_abandon (sv_config s); (m, f) = frame_abandon (sv_frames s)
      in (n + m, s\<lparr>sv_config := c, sv_frames := f\<rparr>))"

definition sv_reset :: "save_queues \<Rightarrow> save_queues" where
  "sv_reset s = s\<lparr>sv_config := config_reset (sv_config s), sv_frames := frame_reset (sv_frames s)\<rparr>"

datatype save_event =
    SvConfig save_context "command list" | SvFrame pending_frame | SvReleaseAll | SvAbandon | SvReset
  | SvConfigTimer nat | SvFrameTimer nat | SvThrottleTimer nat | SvNotify

fun sv_step :: "save_event \<Rightarrow> save_queues \<Rightarrow> save_queues" where
  "sv_step (SvConfig c commands) s = enqueueConfigMutations c commands s"
| "sv_step (SvFrame f) s = enqueueFrame f s"
| "sv_step SvReleaseAll s = releaseAll s"
| "sv_step SvAbandon s = snd (sv_abandon s)"
| "sv_step SvReset s = sv_reset s"
| "sv_step (SvConfigTimer t) s = on_config (config_fire t) s"
| "sv_step (SvFrameTimer t) s = on_frames (frame_fire t) s"
| "sv_step (SvThrottleTimer t) s = sv_timer t s"
| "sv_step SvNotify s = sv_notify (framesQueued s) s"

text \<open>\<open>SaveGate\<close> remembers one outcome.\<close>

definition gate_accepting :: "string \<Rightarrow> 'o \<Rightarrow> (string \<times> 'o) option \<Rightarrow> 'o \<times> (string \<times> 'o) option" where
  "gate_accepting key evaluated cache =
     (case cache of
        Some (k, outcome) \<Rightarrow> if k = key then (outcome, cache) else (evaluated, Some (key, evaluated))
      | None \<Rightarrow> (evaluated, Some (key, evaluated)))"

section \<open>Notifications\<close>

definition throttle_ok :: "save_queues \<Rightarrow> bool" where
  "throttle_ok s \<longleftrightarrow> sv_live s = (case sv_throttle s of None \<Rightarrow> [] | Some t \<Rightarrow> [t]) \<and> (sv_pending s \<longrightarrow> sv_throttle s \<noteq> None) \<and>
     (0 < sv_owed s \<longleftrightarrow> sv_pending s)"

lemma sv_notify_ok: "throttle_ok s \<Longrightarrow> throttle_ok (sv_notify queued s)"
  by (auto simp: throttle_ok_def sv_notify_def sv_emit_def Let_def split: option.splits)

lemma fold_ok: "(\<And>x s. throttle_ok s \<Longrightarrow> throttle_ok (f x s)) \<Longrightarrow> throttle_ok s \<Longrightarrow> throttle_ok (fold f xs s)"
  by (induction xs arbitrary: s) simp_all

lemma queues_upd_ok: "throttle_ok (s\<lparr>sv_config := c\<rparr>) = throttle_ok s" "throttle_ok (s\<lparr>sv_frames := f\<rparr>) = throttle_ok s"
  by (simp_all add: throttle_ok_def)

lemma on_queue_ok: "throttle_ok s \<Longrightarrow> throttle_ok (on_config f s)" "throttle_ok s \<Longrightarrow> throttle_ok (on_frames g s)"
  by (simp_all add: on_config_def on_frames_def Let_def fold_ok sv_notify_ok queues_upd_ok)

lemma sv_timer_tells:
  assumes "throttle_ok s" "sv_throttle s = Some t"
  shows "throttle_ok (sv_timer t s) \<and> sv_owed (sv_timer t s) = 0 \<and> sv_emitted (sv_timer t s) = sv_emitted s + (if sv_pending s then 1 else 0)"
  using assms by (auto simp: throttle_ok_def sv_timer_def sv_notify_def sv_emit_def Let_def)

lemma sv_timer_ok: "throttle_ok s \<Longrightarrow> throttle_ok (sv_timer t s)"
  using sv_timer_tells [of s t] by (auto simp: throttle_ok_def [of s] sv_timer_def [of t s] split: option.splits)

interpretation svq: invariant_machine "runs_by sv_step" "\<lambda>s. s = new_save_queues" throttle_ok
proof
  fix e s s'
  show "throttle_ok s" if "s = new_save_queues" using that by (simp add: throttle_ok_def new_save_queues_def)
  show "throttle_ok s'" if "throttle_ok s" "runs_by sv_step s e s'"
    using that by (cases e) (simp_all add: runs_by_def enqueueConfigMutations_def enqueueFrame_def releaseAll_def sv_abandon_def
        sv_reset_def split_def Let_def on_queue_ok sv_notify_ok sv_timer_ok queues_upd_ok)
qed

text \<open>No notification is swallowed by the throttle.  After any events, notifications are held back only while the throttle's timer
  runs, exactly one timer runs then, and its expiry tells the owner once and leaves nothing held back.\<close>

theorem notifications_not_lost:
  "let s = run_events sv_step es new_save_queues
   in (0 < sv_owed s \<longleftrightarrow> sv_pending s) \<and>
      (case sv_throttle s of
         None \<Rightarrow> sv_owed s = 0 \<and> sv_live s = []
       | Some t \<Rightarrow> sv_live s = [t] \<and> sv_owed (sv_timer t s) = 0 \<and>
           sv_emitted (sv_timer t s) = sv_emitted s + (if 0 < sv_owed s then 1 else 0))"
proof -
  define s where "s = run_events sv_step es new_save_queues"
  have ok: "throttle_ok s" unfolding s_def by (rule svq.reachable_inv [OF refl reaches_runs_by])
  then show ?thesis using sv_timer_tells [OF ok]
    by (auto simp: Let_def s_def [symmetric] throttle_ok_def split: option.splits)
qed

end
