(* ===== verification/SaveEstimate.thy ===== *)
theory SaveEstimate
  imports SaveBatches
begin

text \<open>
  The byte estimate of \<open>SaveBatches\<close> against the serialization it stands for: \<open>JSON.stringify\<close> in compact form,
  encoded in UTF-8.  How JavaScript prints a number is the parameter \<open>num\<close>.
\<close>

section \<open>UTF-8\<close>

definition high_surrogate :: "nat \<Rightarrow> bool" where "high_surrogate c \<longleftrightarrow> 0xd800 \<le> c \<and> c \<le> 0xdbff"
definition low_surrogate :: "nat \<Rightarrow> bool" where "low_surrogate c \<longleftrightarrow> 0xdc00 \<le> c \<and> c \<le> 0xdfff"

definition utf8_four :: "nat \<Rightarrow> nat \<Rightarrow> nat list" where
  "utf8_four c n = (let p = 0x10000 + (c - 0xd800) * 1024 + (n - 0xdc00)
     in [240 + p div 262144, 128 + p div 4096 mod 64, 128 + p div 64 mod 64, 128 + p mod 64])"

definition utf8_three :: "nat \<Rightarrow> nat list" where
  "utf8_three c = [224 + c div 4096, 128 + c div 64 mod 64, 128 + c mod 64]"

text \<open>A lone surrogate is encoded as U+FFFD.\<close>

fun utf8 :: "nat list \<Rightarrow> nat list" where
  "utf8 [] = []"
| "utf8 (c # cs) =
     (if c < 0x80 then c # utf8 cs
      else if c < 0x800 then [192 + c div 64, 128 + c mod 64] @ utf8 cs
      else if high_surrogate c
      then (case cs of n # cs' \<Rightarrow> if low_surrogate n then utf8_four c n @ utf8 cs' else utf8_three 0xfffd @ utf8 cs | [] \<Rightarrow> utf8_three 0xfffd)
      else utf8_three (if low_surrogate c then 0xfffd else c) @ utf8 cs)"

lemma utf8_append: "ys = [] \<or> hd ys < 0x80 \<Longrightarrow> utf8 (xs @ ys) = utf8 xs @ utf8 ys"
proof (induction xs rule: utf8.induct)
  case (2 c cs)
  then show ?case
    by (cases cs; cases ys) (auto simp: low_surrogate_def high_surrogate_def)
qed simp

lemma utf8_ascii: "\<forall>c \<in> set cs. c < 0x80 \<Longrightarrow> utf8 cs = cs"
  by (induction cs) auto

section \<open>Serialization\<close>

definition hex_unit :: "nat \<Rightarrow> nat" where
  "hex_unit d = (if d < 10 then 48 + d else 87 + d)"

definition unicode_escape :: "nat \<Rightarrow> nat list" where
  "unicode_escape c = [92, 117, hex_unit (c div 4096 mod 16), hex_unit (c div 256 mod 16), hex_unit (c div 16 mod 16), hex_unit (c mod 16)]"

fun json_escape :: "nat list \<Rightarrow> nat list" where
  "json_escape [] = []"
| "json_escape (c # cs) =
     (if c = 34 then [92, 34] @ json_escape cs
      else if c = 92 then [92, 92] @ json_escape cs
      else if c < 32
      then (if c = 8 then [92, 98] else if c = 9 then [92, 116] else if c = 10 then [92, 110] else if c = 12 then [92, 102]
            else if c = 13 then [92, 114] else unicode_escape c) @ json_escape cs
      else if high_surrogate c
      then (case cs of n # cs' \<Rightarrow> if low_surrogate n then c # n # json_escape cs' else unicode_escape c @ json_escape cs | [] \<Rightarrow> unicode_escape c)
      else if low_surrogate c then unicode_escape c @ json_escape cs
      else c # json_escape cs)"

definition json_quote :: "string \<Rightarrow> nat list" where
  "json_quote s = 34 # json_escape (units s) @ [34]"

fun commas :: "nat list list \<Rightarrow> nat list" where
  "commas [] = []"
| "commas [x] = x"
| "commas (x # y # xs) = x @ 44 # commas (y # xs)"

fun decimal :: "nat \<Rightarrow> string" where
  "decimal n = (if n < 10 then [char_of (48 + n)] else decimal (n div 10) @ [char_of (48 + n mod 10)])"

definition typed_text :: "bytes \<Rightarrow> nat list" where
  "typed_text bs = 123 # commas (map (\<lambda>(i, b). 34 # units (decimal i) @ [34, 58] @ units (decimal (unat b))) (enumerate 0 bs)) @ [125]"

fun stringify :: "(jsnum \<Rightarrow> string) \<Rightarrow> json \<Rightarrow> nat list"
  and stringify_items :: "(jsnum \<Rightarrow> string) \<Rightarrow> json list \<Rightarrow> nat list list"
  and stringify_entries :: "(jsnum \<Rightarrow> string) \<Rightarrow> (string \<times> json) list \<Rightarrow> nat list list" where
  "stringify num JUndefined = units ''null''"
| "stringify num JOther = units ''null''"
| "stringify num JNull = units ''null''"
| "stringify num (JBool b) = units (if b then ''true'' else ''false'')"
| "stringify num (JNumber n) = units (if js_isFinite n then num n else ''null'')"
| "stringify num (JString s) = json_quote s"
| "stringify num (JTyped bs) = typed_text bs"
| "stringify num (JArray xs) = 91 # commas (stringify_items num xs) @ [93]"
| "stringify num (JObject es) = 123 # commas (stringify_entries num es) @ [125]"
| "stringify_items num [] = []"
| "stringify_items num (x # xs) = stringify num x # stringify_items num xs"
| "stringify_entries num [] = []"
| "stringify_entries num ((k, x) # es) =
     (if x = JUndefined \<or> x = JOther then stringify_entries num es
      else (json_quote k @ 58 # stringify num x) # stringify_entries num es)"

text \<open>The mutation that the native side receives.\<close>

definition mutation_json :: "nat \<Rightarrow> command \<Rightarrow> json" where
  "mutation_json sequence c =
     JObject ((''kind'', JString (command_kind c)) # (''sequence'', JNumber (js_int (int sequence))) # command_entries c)"

definition json_length :: "nat list \<Rightarrow> int" where
  "json_length text = int (length (utf8 text))"

section \<open>Strings\<close>

lemma unicode_escape_ascii: "\<forall>d \<in> set (unicode_escape c). d < 0x80" "length (unicode_escape c) = 6"
proof -
  have "hex_unit (d mod 16) < 128" for d 
    by (cases "d mod 16 < 10") (simp_all add: hex_unit_def less_trans [OF mod_less_divisor [of 16 d]])
  then show "\<forall>d \<in> set (unicode_escape c). d < 0x80" by (simp add: unicode_escape_def)
qed (simp add: unicode_escape_def)

lemma utf8_ascii_append: "\<forall>c \<in> set xs. c < 0x80 \<Longrightarrow> utf8 (xs @ ys) = xs @ utf8 ys"
  by (induction xs) auto

lemma utf8_unicode_escape: "utf8 (unicode_escape c @ ys) = unicode_escape c @ utf8 ys" "utf8 (unicode_escape c) = unicode_escape c"
  using utf8_ascii_append [OF unicode_escape_ascii(1)] utf8_ascii [OF unicode_escape_ascii(1)] by simp_all

lemma escape_bytes: "json_length (json_escape cs) = string_bytes cs"
proof (induction cs rule: json_escape.induct)
  case (2 c cs)
  note u = utf8_unicode_escape unicode_escape_ascii(2)
  consider "c = 34 \<or> c = 92" | "c < 32" | "c \<noteq> 34" "c \<noteq> 92" "32 \<le> c" "c < 0xd800" | "high_surrogate c" | "low_surrogate c" | "0xdfff < c"
    unfolding high_surrogate_def low_surrogate_def by linarith
  then show ?case
  proof cases
    case 1
    then show ?thesis using 2 by (elim disjE) (simp_all add: json_length_def)
  next
    case 2
    then have c: "c \<noteq> 34" "c \<noteq> 92" by simp_all
    have IH: "json_length (json_escape cs) = string_bytes cs" using "2.IH"(3) c 2 by simp
    show ?thesis using IH c 2 by (simp add: json_length_def u)
  next
    case 3
    then have c: "\<not> high_surrogate c" "\<not> low_surrogate c" "\<not> c < 32" "\<not> 0xd800 \<le> c" by (simp_all add: high_surrogate_def low_surrogate_def)
    have IH: "json_length (json_escape cs) = string_bytes cs" using "2.IH"(7) c 3 by simp
    show ?thesis using IH c 3(1,2) by (simp add: json_length_def utf8_three_def)
  next
    case 4
    then have c: "\<not> c < 0x800" "c \<noteq> 34" "c \<noteq> 92" "\<not> c < 32" "\<not> c < 0x80" "0xd800 \<le> c \<and> c \<le> 0xdfff" "c \<le> 0xdbff"
      by (auto simp: high_surrogate_def)
    show ?thesis
    proof (cases "\<exists>n cs'. cs = n # cs' \<and> low_surrogate n")
      case True
      then obtain n cs' where cs: "cs = n # cs'" "low_surrogate n" by blast
      then have n: "0xdc00 \<le> n" "n \<le> 0xdfff" by (simp_all add: low_surrogate_def)
      have IH: "json_length (json_escape cs') = string_bytes cs'" using "2.IH"(4) c 4 cs by simp
      have "length (utf8_four c n) = 4" by (simp add: utf8_four_def Let_def)
      then show ?thesis using IH c 4 cs n by (simp add: json_length_def)
    next
      case False
      show ?thesis
      proof (cases cs)
        case Nil
        then show ?thesis using c 4 by (simp add: json_length_def u)
      next
        case (Cons n cs')
        then have n: "\<not> low_surrogate n" "\<not> (0xdc00 \<le> n \<and> n \<le> 0xdfff)" using False by (simp_all add: low_surrogate_def)
        have IH: "json_length (json_escape cs) = string_bytes cs" using "2.IH"(5) c 4 n(1) Cons by simp
        have "json_escape (c # cs) = unicode_escape c @ json_escape cs" using c 4 n(1) Cons by (simp del: json_escape.simps(2) add: json_escape.simps(2) [of c])
        moreover have "string_bytes (c # cs) = 6 + string_bytes cs" using c n(2) Cons
          by (cases "0xdc00 \<le> n") (simp_all del: string_bytes.simps(2) add: string_bytes.simps(2) [of c])
        ultimately show ?thesis using IH by (simp add: json_length_def u)
      qed
    qed
  next
    case 5
    then have c: "\<not> high_surrogate c" "\<not> c < 0x800" "c \<noteq> 34" "c \<noteq> 92" "\<not> c < 32" "\<not> c < 0x80" "0xd800 \<le> c \<and> c \<le> 0xdfff" "\<not> c \<le> 0xdbff"
      by (auto simp: high_surrogate_def low_surrogate_def)
    have IH: "json_length (json_escape cs) = string_bytes cs" using "2.IH"(6) c 5 by simp
    have "string_bytes (c # cs) = 6 + string_bytes cs" using c by (cases cs) simp_all
    then show ?thesis using IH c 5 by (simp add: json_length_def u)
  next
    case 6
    then have c: "\<not> high_surrogate c" "\<not> low_surrogate c" "\<not> c < 32" "c \<noteq> 34" "c \<noteq> 92" by (simp_all add: high_surrogate_def low_surrogate_def)
    have IH: "json_length (json_escape cs) = string_bytes cs" using "2.IH"(7) c by simp
    show ?thesis using IH c 6 by (simp add: json_length_def utf8_three_def)
  qed
qed (simp add: json_length_def)

lemma quote_bytes: "json_length (json_quote s) = jsonStringBytes (units s)"
  using escape_bytes [of "units s"] utf8_append [of "[34]" "json_escape (units s)"]
  by (simp add: json_quote_def json_length_def jsonStringBytes_def)

section \<open>Values\<close>

lemma json_quote_hd [simp]: "hd (json_quote s) = 34" "json_quote s \<noteq> []"
  by (simp_all add: json_quote_def)

text \<open>Values as \<open>JSON.parse\<close> gives them, whose numbers are printed with at most 24 characters.\<close>

definition short_number :: "(jsnum \<Rightarrow> string) \<Rightarrow> jsnum \<Rightarrow> bool" where
  "short_number num n \<longleftrightarrow> length (num n) \<le> 24 \<and> list_all (\<lambda>c. code c < 128) (num n)"

fun plain_json :: "(jsnum \<Rightarrow> string) \<Rightarrow> json \<Rightarrow> bool"
  and plain_items :: "(jsnum \<Rightarrow> string) \<Rightarrow> json list \<Rightarrow> bool"
  and plain_entries :: "(jsnum \<Rightarrow> string) \<Rightarrow> (string \<times> json) list \<Rightarrow> bool" where
  "plain_json num (JNumber n) \<longleftrightarrow> short_number num n"
| "plain_json num (JTyped bs) \<longleftrightarrow> False"
| "plain_json num (JArray xs) \<longleftrightarrow> plain_items num xs"
| "plain_json num (JObject es) \<longleftrightarrow> plain_entries num es"
| "plain_json num v \<longleftrightarrow> True"
| "plain_items num [] \<longleftrightarrow> True"
| "plain_items num (x # xs) \<longleftrightarrow> plain_json num x \<and> plain_items num xs"
| "plain_entries num [] \<longleftrightarrow> True"
| "plain_entries num ((k, x) # es) \<longleftrightarrow> plain_json num x \<and> plain_entries num es"

text \<open>The bytes of items with a separator after each.\<close>

definition items_size :: "nat list list \<Rightarrow> int" where
  "items_size xs = sum_list (map (\<lambda>x. json_length x + 1) xs)"

lemma commas_bytes: "json_length (commas xs) \<le> items_size xs"
proof (induction xs rule: commas.induct)
  case (3 x y xs)
  have "utf8 (x @ 44 # commas (y # xs)) = utf8 x @ utf8 (44 # commas (y # xs))" by (rule utf8_append) simp
  then show ?case using 3 by (simp add: items_size_def json_length_def)
qed (simp_all add: items_size_def json_length_def)

lemma bracket_bytes: "a < 128 \<Longrightarrow> b < 128 \<Longrightarrow> json_length (a # commas xs @ [b]) \<le> 2 + items_size xs"
  using commas_bytes [of xs] utf8_append [of "[b]" "commas xs"] by (simp add: json_length_def)

lemma entry_size: "json_length (json_quote k @ 58 # v) = jsonStringBytes (units k) + 1 + json_length v"
  using quote_bytes [of k] utf8_append [of "58 # v" "json_quote k"] by (simp add: json_length_def)

lemma short_number_bytes: "short_number num n \<Longrightarrow> json_length (units (num n)) \<le> 24"
  by (simp add: short_number_def json_length_def utf8_ascii units_def list_all_iff)

lemma safe_sum_Some [simp]: "safe_sum n = Some m \<longleftrightarrow> m = n \<and> n \<le> MAX_SAFE_INTEGER"
  by (auto simp: safe_sum_def)

lemma null_bytes: "json_length (units ''null'') = 4" "json_length (units ''true'') = 4" "json_length (units ''false'') = 5"
  by (simp_all add: json_length_def units_def code_def)

lemma estimate_covers:
  "estimateStructuredJsonBytes v depth = Some n \<Longrightarrow> plain_json num v \<Longrightarrow> json_length (stringify num v) \<le> n"
  "item_bytes xs depth b = Some m \<Longrightarrow> plain_items num xs \<Longrightarrow> b + items_size (stringify_items num xs) \<le> m"
  "entry_bytes es depth b = Some m \<Longrightarrow> plain_entries num es \<Longrightarrow> b + items_size (stringify_entries num es) \<le> m"
proof (induction v depth and xs depth b and es depth b arbitrary: n and m and m
    rule: estimateStructuredJsonBytes_item_bytes_entry_bytes.induct)
  case (4 x depth)
  then show ?case using short_number_bytes [of num x] by (auto simp: null_bytes split: if_splits)
next
  case (5 s depth)
  then show ?case by (simp add: quote_bytes)
next
  case (8 xs depth)
  then show ?case using bracket_bytes [of 91 93 "stringify_items num xs"] by (force split: if_splits)
next
  case (9 es depth)
  then show ?case using bracket_bytes [of 123 125 "stringify_entries num es"] by (force split: if_splits)
next
  case (11 x xs depth b)
  then obtain k where k: "estimateStructuredJsonBytes x (depth + 1) = Some k" "b + (k + 1) \<le> MAX_SAFE_INTEGER"
    "item_bytes xs depth (b + (k + 1)) = Some m" by (auto split: option.splits)
  then show ?case using 11 by (fastforce simp: items_size_def)
next
  case (13 key x es depth b)
  then obtain k where k: "estimateStructuredJsonBytes x (depth + 1) = Some k"
    "entry_bytes es depth (b + (jsonStringBytes (units key) + 2 + k + 1)) = Some m"
    by (auto split: option.splits)
  have x: "json_length (stringify num x) \<le> k" using "13.IH"(1) k(1) "13.prems"(2) by simp
  have rest_: "b + (jsonStringBytes (units key) + 2 + k + 1) + items_size (stringify_entries num es) \<le> m"
    using 13 k by (auto split: option.splits)
  have "0 \<le> json_length (stringify num x)" "0 \<le> jsonStringBytes (units key)"
    using quote_bytes [of key, symmetric] by (simp_all add: json_length_def)
  then show ?case using rest_ x by (simp add: items_size_def entry_size)
qed (auto simp: null_bytes items_size_def split: if_splits)

section \<open>Mutations\<close>

declare decimal.simps [simp del]

lemma decimal_length: "n < 10 ^ Suc k \<Longrightarrow> length (decimal n) \<le> Suc k"
proof (induction k arbitrary: n)
  case 0
  then show ?case by (simp add: decimal.simps [of n])
next
  case (Suc k)
  show ?case
  proof (cases "n < 10")
    case False
    have "n div 10 < 10 ^ Suc k" using Suc.prems by (simp add: less_mult_imp_div_less)
    then show ?thesis using Suc.IH [of "n div 10"] False by (simp add: decimal.simps [of n])
  qed (simp add: decimal.simps [of n])
qed

lemma decimal_ascii: "list_all (\<lambda>c. code c < 128) (decimal n)"
  by (induction n rule: decimal.induct) (subst decimal.simps, auto simp: code_def intro: less_trans [OF mod_less_divisor])

lemma structured_covers:
  "structured_bytes es b = Some m \<Longrightarrow> plain_entries num es \<Longrightarrow> b + items_size (stringify_entries num es) \<le> m"
proof (induction es b rule: structured_bytes.induct)
  case (2 key v es b)
  then obtain n where n: "estimateStructuredJsonBytes v 0 = Some n"
    "structured_bytes es (b + (jsonStringBytes (units key) + 3 + n + 1)) = Some m" by (auto split: option.splits)
  have "json_length (stringify num v) \<le> n" using estimate_covers(1) [OF n(1)] "2.prems"(2) by simp
  moreover have "b + (jsonStringBytes (units key) + 3 + n + 1) + items_size (stringify_entries num es) \<le> m"
    using 2 n by (auto split: option.splits)
  moreover have "0 \<le> json_length (stringify num v)" "0 \<le> jsonStringBytes (units key)"
    using quote_bytes [of key, symmetric] by (simp_all add: json_length_def)
  ultimately show ?case by (simp add: items_size_def entry_size)
qed (simp add: items_size_def)

lemma kind_bytes: "jsonStringBytes (units (command_kind c)) = int (length (command_kind c)) + 2"
  by (cases c) (simp_all add: jsonStringBytes_def units_def code_def)

fun structured :: "command \<Rightarrow> bool" where
  "structured (AppendFrames i p) = False"
| "structured (ReplaceCapture i p) = False"
| "structured (AppendWaveformSamples i p) = False"
| "structured c = True"

lemma structured_weight: "structured c \<Longrightarrow> workspaceMutationLogicalWeight c =
    map_option plain_weight (structured_bytes (command_entries c) (40 + int (length (command_kind c))))"
  by (cases c) (simp_all add: workspaceMutationLogicalWeight_def)

text \<open>C30. The estimate of a structured mutation is safe: if JavaScript prints every number of the mutation with at most 24
  ASCII characters, its payload has no typed array, and its sequence number is a safe integer printed in decimal, then the compact JSON of the mutation in UTF-8, under
  that sequence number, is no longer than the weight that the partition counts for it.\<close>

theorem weight_covers_wire:
  assumes "structured c" "workspaceMutationLogicalWeight c = Some w" "plain_entries num (command_entries c)"
    "num (js_int (int sequence)) = decimal sequence" "int sequence \<le> MAX_SAFE_INTEGER"
  shows "json_length (stringify num (mutation_json sequence c)) \<le> wt_bytes w"
proof -
  obtain m where m: "structured_bytes (command_entries c) (40 + int (length (command_kind c))) = Some m" "wt_bytes w = m"
    using assms(1,2) structured_weight by (auto simp: plain_weight_def)
  have "sequence < 10 ^ 16" using assms(5) by (simp add: MAX_SAFE_INTEGER_def)
  then have "length (decimal sequence) \<le> 16" using decimal_length [of sequence 15] by simp
  then have seq: "json_length (units (decimal sequence)) \<le> 16"
    using decimal_ascii [of sequence] by (simp add: json_length_def utf8_ascii units_def list_all_iff)
  have keys: "jsonStringBytes (units ''kind'') = 6" "jsonStringBytes (units ''sequence'') = 10"
    by (simp_all add: jsonStringBytes_def units_def code_def)
  let ?es = "(json_quote ''kind'' @ 58 # json_quote (command_kind c)) # (json_quote ''sequence'' @ 58 # units (decimal sequence)) #
      stringify_entries num (command_entries c)"
  have "json_length (stringify num (mutation_json sequence c)) \<le> 2 + items_size ?es"
    using bracket_bytes [of 123 125 ?es] assms(4) by (simp add: mutation_json_def)
  also have "\<dots> \<le> 40 + int (length (command_kind c)) + items_size (stringify_entries num (command_entries c))"
    using seq by (simp add: items_size_def entry_size quote_bytes kind_bytes keys)
  also have "\<dots> \<le> wt_bytes w" using structured_covers [OF m(1) assms(3)] m(2) by simp
  finally show ?thesis .
qed

definition example_num :: "jsnum \<Rightarrow> string" where
  "example_num n = (if js_isInteger n \<and> 0 \<le> js_floor n \<and> js_floor n < 10 ^ 16 then decimal (nat (js_floor n)) else ''0.5'')"

definition example_command :: command where
  "example_command = UpsertSession ''session-1'' (JObject [(''name'', JString ''port A''), (''sortOrder'', JNumber (js_int 3)),
     (''portConfig'', JObject [(''baudRate'', JNumber (js_int 115200)), (''flow'', JNull)])])"

theorem weight_covers_wire_witness:
  "json_length (stringify example_num (mutation_json 7 example_command)) \<le> wt_bytes (the (workspaceMutationLogicalWeight example_command)) \<and>
   workspaceMutationLogicalWeight example_command \<noteq> None"
proof -
  have w: "workspaceMutationLogicalWeight example_command = Some (the (workspaceMutationLogicalWeight example_command))"
    by code_simp
  have "plain_entries example_num (command_entries example_command)"
    by (simp add: example_command_def short_number_def example_num_def decimal.simps code_def)
  moreover have "example_num (js_int (int 7)) = decimal 7" by (simp add: example_num_def)
  moreover have "structured example_command" by (simp add: example_command_def)
  ultimately show ?thesis using weight_covers_wire [of example_command _ example_num 7] w by (auto simp: MAX_SAFE_INTEGER_def)
qed

text \<open>A value the estimate does not cover: a typed array, which \<open>JSON.stringify\<close> writes as an object.\<close>

lemma typed_array_underestimated:
  "estimateStructuredJsonBytes (JTyped [255, 255]) 0 = Some 10 \<and> json_length (stringify num (JTyped [255, 255])) = 17"
  by (simp add: typed_text_def decimal.simps units_def code_def json_length_def)

end
