(* ===== verification/WorkspaceValidation.thy ===== *)
theory WorkspaceValidation
  imports SaveEstimate SaveFrames
begin

text \<open>
  What the workspace accepts from the native side and sends to it, \<open>src/features/workspace/validation.ts\<close>:
  identifiers and names, catalogs, headers and layouts of responses, sequenced mutations, failures.

  Responses are \<open>json\<close> values: nothing is assumed of their shape.  Payloads are trees, so the tests for cycles never
  fail; no property is named \<open>__proto__\<close>.  A revision is returned as the integer it is.
\<close>

section \<open>Strings\<close>

definition js_lower_char :: "char \<Rightarrow> char" where
  "js_lower_char c = (if is_upper c \<or> 192 \<le> code c \<and> code c \<le> 222 \<and> code c \<noteq> 215 then char_of (code c + 32) else c)"

definition toLowerCase :: "string \<Rightarrow> string" where
  "toLowerCase s = map js_lower_char s"

definition js_startsWith :: "string \<Rightarrow> string \<Rightarrow> bool" where
  "js_startsWith t s \<longleftrightarrow> take (length t) s = t"

fun js_includes :: "string \<Rightarrow> string \<Rightarrow> bool" where
  "js_includes t s = (js_startsWith t s \<or> (case s of [] \<Rightarrow> False | c # cs \<Rightarrow> js_includes t cs))"

declare js_includes.simps [simp del]

definition BACKSLASH :: char where "BACKSLASH = CHR 0x5C"

text \<open>\<open>ID_PATTERN\<close>, \<open>/^file:/i\<close>, \<open>WINDOWS_DRIVE_PATTERN\<close>, \<open>MESSAGE_KEY_PATTERN\<close> (\<open>key_pattern\<close>).\<close>

definition id_pattern :: "string \<Rightarrow> bool" where
  "id_pattern s \<longleftrightarrow> identity_pattern s \<and> length s \<le> 128"

definition file_pattern :: "string \<Rightarrow> bool" where
  "file_pattern s \<longleftrightarrow> map to_lower (take 5 s) = ''file:''"

definition drive_pattern :: "string \<Rightarrow> bool" where
  "drive_pattern s = (case s of a # b # c # cs \<Rightarrow> is_letter a \<and> b = CHR '':'' \<and> (c = BACKSLASH \<or> c = CHR ''/'') | _ \<Rightarrow> False)"

section \<open>Identifiers and names\<close>

text \<open>\<open>InvalidWorkspaceResponseError\<close> with its field, and other errors.\<close>

datatype ws_error = InvalidResponse string | InvalidInput string | TypeFailure

definition workspaceOpaqueId :: "string \<Rightarrow> string \<Rightarrow> ws_error + string" where
  "workspaceOpaqueId v field =
     (let normalized = trim v in
      if \<not> id_pattern normalized then Inl (InvalidInput (field @ '' must be a stable path-free opaque identifier'')) else Inr normalized)"

definition workspaceGrantId :: "string \<Rightarrow> ws_error + string" where
  "workspaceGrantId v =
     bind_ok (workspaceOpaqueId v ''grantId'') (\<lambda>grantId.
       if file_pattern grantId then Inl (InvalidInput ''grantId must not be a file identifier'') else Inr grantId)"

definition validateWorkspaceId :: "string \<Rightarrow> ws_error + string" where
  "validateWorkspaceId v = workspaceOpaqueId v ''workspaceId''"

definition validateRequestId :: "string \<Rightarrow> ws_error + string" where
  "validateRequestId v = workspaceOpaqueId v ''requestId''"

definition project_name :: "string \<Rightarrow> bool" where
  "project_name s \<longleftrightarrow> s \<noteq> [] \<and> length s \<le> 256 \<and> CHR ''/'' \<notin> set s \<and> BACKSLASH \<notin> set s \<and> \<not> file_pattern s \<and> \<not> drive_pattern s"

definition validateProjectName :: "string \<Rightarrow> ws_error + string" where
  "validateProjectName v =
     (let normalized = trim v in
      if normalized = [] \<or> length normalized > 256 \<or> CHR ''/'' \<in> set normalized \<or> BACKSLASH \<in> set normalized \<or>
         file_pattern normalized \<or> drive_pattern normalized
      then Inl (InvalidInput ''project name must be a path-free display name of 1-256 characters'') else Inr normalized)"

definition as_response_error :: "string \<Rightarrow> ws_error + 'a \<Rightarrow> ws_error + 'a" where
  "as_response_error field r = (case r of Inl e \<Rightarrow> Inl (InvalidResponse field) | Inr x \<Rightarrow> Inr x)"

definition validateResponseId :: "json \<Rightarrow> string \<Rightarrow> ws_error + string" where
  "validateResponseId v field =
     (case v of JString s \<Rightarrow> as_response_error field (workspaceOpaqueId s field) | _ \<Rightarrow> Inl (InvalidResponse field))"

definition validateResponseName :: "json \<Rightarrow> ws_error + string" where
  "validateResponseName v = (case v of JString s \<Rightarrow> as_response_error ''name'' (validateProjectName s) | _ \<Rightarrow> Inl (InvalidResponse ''name''))"

definition validateRevision :: "json \<Rightarrow> string \<Rightarrow> ws_error + int" where
  "validateRevision v field =
     (case v of
        JNumber n \<Rightarrow> if \<not> js_safe n \<or> js_floor n < 0 then Inl (InvalidResponse field) else Inr (js_floor n)
      | _ \<Rightarrow> Inl (InvalidResponse field))"

definition js_negative :: "jsnum \<Rightarrow> bool" where
  "js_negative n = (case js_rat n of None \<Rightarrow> n = NegInf | Some r \<Rightarrow> r < 0)"

definition validateTimestamp :: "json \<Rightarrow> ws_error + jsnum" where
  "validateTimestamp v =
     (case v of
        JNumber n \<Rightarrow> if \<not> js_isFinite n \<or> js_negative n then Inl (InvalidResponse ''updatedAtMs'') else Inr n
      | _ \<Rightarrow> Inl (InvalidResponse ''updatedAtMs''))"

definition WORKSPACE_PROJECT_EXTENSION :: string where
  "WORKSPACE_PROJECT_EXTENSION = ''.bbcom''"

definition validateProjectFileDisplayName :: "json \<Rightarrow> ws_error + string" where
  "validateProjectFileDisplayName v =
     (case v of
        JString s \<Rightarrow>
          (let normalized = trim s in
           if normalized = [] \<or> length normalized > 256 \<or> CHR ''/'' \<in> set normalized \<or> BACKSLASH \<in> set normalized \<or>
              \<not> js_endsWith (toLowerCase normalized) WORKSPACE_PROJECT_EXTENSION
           then Inl (InvalidResponse ''displayName'') else Inr normalized)
      | _ \<Rightarrow> Inl (InvalidResponse ''displayName''))"

definition validateSuggestedProjectFileName :: "string \<Rightarrow> ws_error + string" where
  "validateSuggestedProjectFileName v =
     (case validateProjectFileDisplayName (JString v) of
        Inl e \<Rightarrow> Inl (InvalidInput ''project export name must be a path-free .bbcom filename'')
      | Inr s \<Rightarrow> Inr s)"

definition requireMatchingRequestId :: "json \<Rightarrow> string \<Rightarrow> ws_error + unit" where
  "requireMatchingRequestId actual expected = (if actual = JString expected then Inr () else Inl (InvalidResponse ''requestId''))"

section \<open>Responses\<close>

definition SAVE_HEALTHS :: "string list" where
  "SAVE_HEALTHS = [''clean'', ''pending'', ''saving'', ''degraded'', ''readOnly'']"

record project_view =
  pj_workspaceId :: string
  pj_name :: string
  pj_revision :: int
  pj_updatedAtMs :: jsnum
  pj_saveHealth :: string
  pj_active :: bool

record workspace_layout =
  ly_width :: int
  ly_collapsed :: bool

record active_view =
  av_workspaceId :: string
  av_name :: string
  av_revision :: int
  av_activeSessionId :: "string option"
  av_sessionIds :: "string list"
  av_saveHealth :: string
  av_layout :: workspace_layout

definition SIDEBAR_WIDTH_DEFAULT :: int where "SIDEBAR_WIDTH_DEFAULT = 292"
definition SIDEBAR_WIDTH_MIN :: int where "SIDEBAR_WIDTH_MIN = 252"
definition SIDEBAR_WIDTH_MAX :: int where "SIDEBAR_WIDTH_MAX = 340"

definition clampSidebarWidth :: "jsnum \<Rightarrow> int" where
  "clampSidebarWidth width =
     (let rounded = (case js_rat width of None \<Rightarrow> SIDEBAR_WIDTH_DEFAULT | Some r \<Rightarrow> \<lfloor>r + 1 / 2\<rfloor>)
      in max SIDEBAR_WIDTH_MIN (min SIDEBAR_WIDTH_MAX rounded))"

definition DEFAULT_WORKSPACE_LAYOUT :: workspace_layout where
  "DEFAULT_WORKSPACE_LAYOUT = \<lparr>ly_width = SIDEBAR_WIDTH_DEFAULT, ly_collapsed = False\<rparr>"

definition sanitizeWorkspaceLayout :: "json \<Rightarrow> ws_error + workspace_layout" where
  "sanitizeWorkspaceLayout v =
     (let sidebar_of = (\<lambda>s. case (jget ''width'' s, jget ''collapsed'' s) of
            (JNumber w, JBool b) \<Rightarrow>
              if js_isFinite w then Inr \<lparr>ly_width = clampSidebarWidth w, ly_collapsed = b\<rparr> else Inl (InvalidResponse ''layout'')
          | _ \<Rightarrow> Inl (InvalidResponse ''layout''))
      in case v of
           JObject es \<Rightarrow>
             if es = [] then Inr DEFAULT_WORKSPACE_LAYOUT
             else if jget ''version'' v \<noteq> JNumber (js_int 1) then Inl (InvalidResponse ''layout'')
             else (case jget ''sidebar'' v of JObject s \<Rightarrow> sidebar_of (JObject s) | _ \<Rightarrow> Inl (InvalidResponse ''layout''))
         | JTyped bs \<Rightarrow> if bs = [] then Inr DEFAULT_WORKSPACE_LAYOUT else Inl (InvalidResponse ''layout'')
         | _ \<Rightarrow> Inr DEFAULT_WORKSPACE_LAYOUT)"

definition is_object :: "json \<Rightarrow> bool" where
  "is_object v = (case v of JObject _ \<Rightarrow> True | JArray _ \<Rightarrow> True | JTyped _ \<Rightarrow> True | _ \<Rightarrow> False)"

definition sanitizeSummary :: "json \<Rightarrow> ws_error + project_view" where
  "sanitizeSummary summary =
     (if \<not> is_object summary then Inl (InvalidResponse ''workspace'')
      else
        case jget ''saveHealth'' summary of
          JString saveHealth \<Rightarrow>
            if saveHealth \<notin> set SAVE_HEALTHS then Inl (InvalidResponse ''saveHealth'')
            else
              bind_ok (validateResponseId (jget ''workspaceId'' summary) ''workspaceId'') (\<lambda>workspaceId.
              bind_ok (validateResponseName (jget ''name'' summary)) (\<lambda>name.
              bind_ok (validateRevision (jget ''revision'' summary) ''revision'') (\<lambda>revision.
              bind_ok (validateTimestamp (jget ''updatedAtMs'' summary)) (\<lambda>updatedAtMs.
                Inr \<lparr>pj_workspaceId = workspaceId, pj_name = name, pj_revision = revision, pj_updatedAtMs = updatedAtMs,
                  pj_saveHealth = saveHealth, pj_active = False\<rparr>))))
        | _ \<Rightarrow> Inl (InvalidResponse ''saveHealth''))"

text \<open>\<open>activeWorkspaceId\<close> or \<open>activeSessionId\<close> of a response, which must be among the ids listed.\<close>

definition optional_member :: "json \<Rightarrow> string list \<Rightarrow> string \<Rightarrow> ws_error + string option" where
  "optional_member v ids field =
     (if v = JUndefined then Inr None
      else bind_ok (validateResponseId v field) (\<lambda>i. if i \<noteq> [] \<and> i \<notin> set ids then Inl (InvalidResponse field) else Inr (Some i)))"

fun catalog_projects :: "json list \<Rightarrow> string list \<Rightarrow> ws_error + project_view list" where
  "catalog_projects [] seen = Inr []"
| "catalog_projects (s # ss) seen =
     bind_ok (sanitizeSummary s) (\<lambda>project.
       if pj_workspaceId project \<in> set seen then Inl (InvalidResponse ''workspaceId'')
       else bind_ok (catalog_projects ss (pj_workspaceId project # seen)) (\<lambda>ps. Inr (project # ps)))"

definition sanitizeCatalog :: "json \<Rightarrow> string \<Rightarrow> ws_error + project_view list \<times> string option" where
  "sanitizeCatalog response expectedRequestId =
     (case jget ''workspaces'' response of
        JArray ws \<Rightarrow>
          bind_ok (requireMatchingRequestId (jget ''requestId'' response) expectedRequestId) (\<lambda>_.
          bind_ok (catalog_projects ws []) (\<lambda>projects.
          bind_ok (optional_member (jget ''activeWorkspaceId'' response) (map pj_workspaceId projects) ''activeWorkspaceId'')
            (\<lambda>active. Inr (projects, active))))
      | _ \<Rightarrow> Inl (InvalidResponse ''catalog''))"

definition sanitizeHeader :: "json \<Rightarrow> ws_error + active_view" where
  "sanitizeHeader header =
     (case jget ''sessionIds'' header of
        JArray ids \<Rightarrow>
          bind_ok (validateResponseId (jget ''workspaceId'' header) ''workspaceId'') (\<lambda>workspaceId.
          bind_ok (validateResponseName (jget ''name'' header)) (\<lambda>name.
          bind_ok (validateRevision (jget ''revision'' header) ''revision'') (\<lambda>revision.
          bind_ok (mapM_ok (\<lambda>i. validateResponseId i ''sessionId'') ids) (\<lambda>sessionIds.
            if \<not> distinct sessionIds then Inl (InvalidResponse ''sessionIds'')
            else
              bind_ok (optional_member (jget ''activeSessionId'' header) sessionIds ''activeSessionId'') (\<lambda>activeSessionId.
              bind_ok (sanitizeWorkspaceLayout (jget ''layout'' header)) (\<lambda>layout.
                Inr \<lparr>av_workspaceId = workspaceId, av_name = name, av_revision = revision, av_activeSessionId = activeSessionId,
                  av_sessionIds = sessionIds, av_saveHealth = ''clean'', av_layout = layout\<rparr>))))))
      | _ \<Rightarrow> Inl (InvalidResponse ''header''))"

section \<open>Failures\<close>

definition ERROR_CODES :: "string list" where
  "ERROR_CODES =
     [''BUSY'', ''RATE_LIMITED'', ''CANCELLED'', ''TIMEOUT'', ''INVALID_INPUT'', ''LIMIT_EXCEEDED'', ''SECURITY_DENIED'',
      ''SERIAL_DISCONNECTED'', ''SERIAL_QUEUE_FULL'', ''SERIAL_PARTIAL_WRITE'', ''IO_PERMISSION_DENIED'', ''IO_DISK_FULL'',
      ''EXPORT_REPLACE_FAILED'', ''REVISION_CONFLICT'', ''WORKSPACE_READ_ONLY'', ''WORKSPACE_CORRUPT'', ''PORT_IN_USE'']"

definition stableIpcError :: "json \<Rightarrow> (string \<times> string) option" where
  "stableIpcError e =
     (case (jget ''code'' e, jget ''messageKey'' e) of
        (JString errorCode, JString key) \<Rightarrow> if errorCode \<in> set ERROR_CODES \<and> key_pattern key then Some (errorCode, key) else None
      | _ \<Rightarrow> None)"

definition isWorkspaceReadOnlyError :: "json \<Rightarrow> bool" where
  "isWorkspaceReadOnlyError e =
     (case stableIpcError e of None \<Rightarrow> False | Some (c, _) \<Rightarrow> c = ''REVISION_CONFLICT'' \<or> c = ''WORKSPACE_READ_ONLY'')"

text \<open>\<open>messageKey\<close> and \<open>code\<close> of a failure.\<close>

definition safeFailure :: "json \<Rightarrow> string \<Rightarrow> string \<times> string option" where
  "safeFailure e fallbackMessageKey =
     (case stableIpcError e of None \<Rightarrow> (fallbackMessageKey, None) | Some (c, key) \<Rightarrow> (key, Some c))"

section \<open>Mutations\<close>

text \<open>\<open>cloneJsonValue\<close>: a typed array becomes an object of its elements.\<close>

definition typed_entries :: "bytes \<Rightarrow> (string \<times> json) list" where
  "typed_entries bs = map (\<lambda>(i, b). (decimal i, JNumber (js_int (uint b)))) (enumerate 0 bs)"

fun cloneJsonValue :: "json \<Rightarrow> json" where
  "cloneJsonValue (JTyped bs) = JObject (typed_entries bs)"
| "cloneJsonValue (JArray xs) = JArray (map cloneJsonValue xs)"
| "cloneJsonValue (JObject es) = JObject (map (\<lambda>(k, x). (k, cloneJsonValue x)) es)"
| "cloneJsonValue v = v"

definition filesystem_location :: "string \<Rightarrow> bool" where
  "filesystem_location s \<longleftrightarrow> js_startsWith ''/'' s \<or> js_startsWith [BACKSLASH] s \<or> file_pattern s \<or> drive_pattern s"

definition forbidden_key :: "string \<Rightarrow> bool" where
  "forbidden_key key =
     (let normalized = toLowerCase key in
      js_includes ''path'' normalized \<or> normalized = ''portname'' \<or> js_includes ''handle'' normalized \<or> js_includes ''token'' normalized \<or>
      js_includes ''grant'' normalized \<or> normalized = ''key'' \<or> js_endsWith normalized ''apikey'' \<or> js_includes ''secret'' normalized)"

text \<open>\<open>rejectFilesystemData\<close>: the message it throws, if any.\<close>

fun rejectFilesystemData :: "json \<Rightarrow> string option"
  and reject_items :: "json list \<Rightarrow> string option"
  and reject_entries :: "(string \<times> json) list \<Rightarrow> string option" where
  "rejectFilesystemData (JString s) =
     (if filesystem_location s then Some ''workspace mutation must not contain a filesystem location'' else None)"
| "rejectFilesystemData (JArray xs) = reject_items xs"
| "rejectFilesystemData (JObject es) = reject_entries es"
| "rejectFilesystemData (JTyped bs) = None"
| "rejectFilesystemData JUndefined = None"
| "rejectFilesystemData JNull = None"
| "rejectFilesystemData (JBool b) = None"
| "rejectFilesystemData (JNumber n) = None"
| "rejectFilesystemData JOther = None"
| "reject_items [] = None"
| "reject_items (x # xs) = (case rejectFilesystemData x of Some e \<Rightarrow> Some e | None \<Rightarrow> reject_items xs)"
| "reject_entries [] = None"
| "reject_entries ((k, x) # es) =
     (if forbidden_key k then Some ''workspace mutation contains a forbidden capability field''
      else case rejectFilesystemData x of Some e \<Rightarrow> Some e | None \<Rightarrow> reject_entries es)"

record mutation =
  mt_sequence :: int
  mt_command :: command

definition no_throw :: "string option \<Rightarrow> ws_error + unit" where
  "no_throw r = (case r of None \<Rightarrow> Inr () | Some e \<Rightarrow> Inl (InvalidInput e))"

text \<open>A property of \<open>null\<close> or \<open>undefined\<close> is a \<open>TypeError\<close>.\<close>

definition prop_of :: "string \<Rightarrow> json \<Rightarrow> ws_error + json" where
  "prop_of key v = (if v = JNull \<or> v = JUndefined then Inl TypeFailure else Inr (jget key v))"

definition check_metadata :: "json \<Rightarrow> ws_error + unit" where
  "check_metadata payload =
     bind_ok (prop_of ''name'' payload) (\<lambda>name.
     bind_ok (case name of
                JUndefined \<Rightarrow> Inr ()
              | JString s \<Rightarrow> bind_ok (validateProjectName s) (\<lambda>_. Inr ())
              | _ \<Rightarrow> Inl TypeFailure)
       (\<lambda>_. no_throw (rejectFilesystemData payload)))"

definition check_trim :: "json \<Rightarrow> ws_error + unit" where
  "check_trim payload =
     bind_ok (prop_of ''frameCount'' payload) (\<lambda>n.
       case n of
         JNumber n \<Rightarrow>
           if \<not> js_safe n \<or> js_floor n < 1 \<or> js_floor n > 0xffffffff then Inl (InvalidInput ''workspace capture trim count is invalid'') else Inr ()
       | _ \<Rightarrow> Inl (InvalidInput ''workspace capture trim count is invalid''))"

definition with_id :: "string \<Rightarrow> string \<Rightarrow> command \<Rightarrow> ws_error + command" where
  "with_id i field c = bind_ok (workspaceOpaqueId i field) (\<lambda>_. Inr c)"

definition safe_payload :: "string \<Rightarrow> string \<Rightarrow> (json \<Rightarrow> command) \<Rightarrow> json \<Rightarrow> ws_error + command" where
  "safe_payload i field mk payload =
     bind_ok (workspaceOpaqueId i field) (\<lambda>_.
       let payload = cloneJsonValue payload in bind_ok (no_throw (rejectFilesystemData payload)) (\<lambda>_. Inr (mk payload)))"

definition plain_payload :: "string \<Rightarrow> (json \<Rightarrow> command) \<Rightarrow> json \<Rightarrow> ws_error + command" where
  "plain_payload i mk payload = with_id i ''sessionId'' (mk (cloneJsonValue payload))"

fun check_command :: "command \<Rightarrow> ws_error + command" where
  "check_command (SetMetadata p) =
     (let payload = cloneJsonValue p in bind_ok (check_metadata payload) (\<lambda>_. Inr (SetMetadata payload)))"
| "check_command (SetActiveSession i) =
     (case i of None \<Rightarrow> Inr (SetActiveSession None) | Some s \<Rightarrow> with_id s ''sessionId'' (SetActiveSession i))"
| "check_command (UpsertSession i p) = safe_payload i ''sessionId'' (UpsertSession i) p"
| "check_command (RemoveSession i) = with_id i ''sessionId'' (RemoveSession i)"
| "check_command (AppendFrames i p) = safe_payload i ''sessionId'' (AppendFrames i) p"
| "check_command (ReplaceCapture i p) = safe_payload i ''sessionId'' (ReplaceCapture i) p"
| "check_command (TrimCapture i p) =
     bind_ok (workspaceOpaqueId i ''sessionId'') (\<lambda>_.
       let payload = cloneJsonValue p in bind_ok (check_trim payload) (\<lambda>_. Inr (TrimCapture i payload)))"
| "check_command (UpsertFeatureState i p) = safe_payload i ''entityId'' (UpsertFeatureState i) p"
| "check_command (ReplaceSessionCollections i p) = plain_payload i (ReplaceSessionCollections i) p"
| "check_command (AppendAiMessages i p) = plain_payload i (AppendAiMessages i) p"
| "check_command (ClearAiMessages i) = with_id i ''sessionId'' (ClearAiMessages i)"
| "check_command (ReplaceWaveformChannels i p) = safe_payload i ''sessionId'' (ReplaceWaveformChannels i) p"
| "check_command (AppendWaveformSamples i p) = plain_payload i (AppendWaveformSamples i) p"

definition createSequencedMutation :: "command \<Rightarrow> int \<Rightarrow> ws_error + mutation" where
  "createSequencedMutation c n =
     (if n > MAX_SAFE_INTEGER \<or> n < 0 then Inl (InvalidInput ''workspace mutation command is invalid'')
      else bind_ok (check_command c) (\<lambda>c. Inr \<lparr>mt_sequence = n, mt_command = c\<rparr>))"

section \<open>What responses are let through\<close>

lemma workspaceOpaqueId_Inr: "workspaceOpaqueId v field = Inr s \<longleftrightarrow> s = trim v \<and> id_pattern s"
  by (auto simp: workspaceOpaqueId_def Let_def)

lemma validateResponseId_Inr: "validateResponseId v field = Inr s \<Longrightarrow> id_pattern s"
  by (auto simp: validateResponseId_def as_response_error_def workspaceOpaqueId_Inr split: json.splits sum.splits)

lemma validateProjectName_Inr: "validateProjectName v = Inr s \<longleftrightarrow> s = trim v \<and> project_name s"
  by (auto simp: validateProjectName_def project_name_def Let_def)

lemma validateResponseName_Inr: "validateResponseName v = Inr s \<Longrightarrow> project_name s"
  by (auto simp: validateResponseName_def as_response_error_def validateProjectName_Inr split: json.splits sum.splits)

lemma validateRevision_Inr: "validateRevision v field = Inr n \<Longrightarrow> 0 \<le> n \<and> n \<le> MAX_SAFE_INTEGER"
  by (auto simp: validateRevision_def js_safe_def MAX_SAFE_INTEGER_def split: json.splits if_splits)

lemma optional_member_Inr: "optional_member v ids field = Inr i \<Longrightarrow> case i of None \<Rightarrow> True | Some s \<Rightarrow> s \<in> set ids"
  using validateResponseId_Inr [of v field]
  by (auto simp: optional_member_def bind_ok_eq_Inr id_pattern_def identity_pattern_def split: if_splits)

definition layout_ok :: "workspace_layout \<Rightarrow> bool" where
  "layout_ok l \<longleftrightarrow> 252 \<le> ly_width l \<and> ly_width l \<le> 340"

lemma clamp_bounds: "252 \<le> clampSidebarWidth w \<and> clampSidebarWidth w \<le> 340"
  by (simp add: clampSidebarWidth_def Let_def SIDEBAR_WIDTH_MIN_def SIDEBAR_WIDTH_MAX_def)

lemma sanitizeWorkspaceLayout_Inr: "sanitizeWorkspaceLayout v = Inr l \<Longrightarrow> layout_ok l"
  using clamp_bounds
  by (auto simp: sanitizeWorkspaceLayout_def layout_ok_def DEFAULT_WORKSPACE_LAYOUT_def SIDEBAR_WIDTH_DEFAULT_def Let_def
      split: json.splits if_splits)

definition project_ok :: "project_view \<Rightarrow> bool" where
  "project_ok p \<longleftrightarrow> id_pattern (pj_workspaceId p) \<and> project_name (pj_name p) \<and> 0 \<le> pj_revision p \<and> pj_revision p \<le> MAX_SAFE_INTEGER \<and>
     js_isFinite (pj_updatedAtMs p) \<and> pj_saveHealth p \<in> set SAVE_HEALTHS \<and> \<not> pj_active p"

lemma validateTimestamp_Inr: "validateTimestamp v = Inr n \<Longrightarrow> js_isFinite n"
  by (auto simp: validateTimestamp_def split: json.splits if_splits)

lemma sanitizeSummary_Inr:
  assumes "sanitizeSummary v = Inr p"
  shows "project_ok p"
proof -
  obtain h where h: "jget ''saveHealth'' v = JString h" "h \<in> set SAVE_HEALTHS" "is_object v"
    using assms by (auto simp: sanitizeSummary_def split: if_splits json.splits)
  show ?thesis
    using assms h validateResponseId_Inr validateResponseName_Inr validateRevision_Inr validateTimestamp_Inr
    by (fastforce simp: sanitizeSummary_def project_ok_def bind_ok_eq_Inr)
qed

lemma catalog_projects_Inr:
  "catalog_projects ws seen = Inr ps \<Longrightarrow> distinct (map pj_workspaceId ps) \<and> set (map pj_workspaceId ps) \<inter> set seen = {} \<and> list_all project_ok ps"
proof (induction ws arbitrary: seen ps)
  case (Cons w ws)
  then obtain p qs where p: "sanitizeSummary w = Inr p" "pj_workspaceId p \<notin> set seen"
      "catalog_projects ws (pj_workspaceId p # seen) = Inr qs" "ps = p # qs"
    by (auto simp: bind_ok_eq_Inr split: if_splits)
  then show ?case using Cons.IH [OF p(3)] sanitizeSummary_Inr [OF p(1)] by auto
qed simp

definition header_ok :: "active_view \<Rightarrow> bool" where
  "header_ok v \<longleftrightarrow> id_pattern (av_workspaceId v) \<and> project_name (av_name v) \<and> 0 \<le> av_revision v \<and> av_revision v \<le> MAX_SAFE_INTEGER \<and>
     distinct (av_sessionIds v) \<and> list_all id_pattern (av_sessionIds v) \<and>
     (case av_activeSessionId v of None \<Rightarrow> True | Some i \<Rightarrow> i \<in> set (av_sessionIds v)) \<and> layout_ok (av_layout v)"

lemma mapM_ids: "mapM_ok (\<lambda>i. validateResponseId i f) xs = Inr ids \<Longrightarrow> list_all id_pattern ids"
  by (induction xs arbitrary: ids) (auto simp: bind_ok_eq_Inr dest: validateResponseId_Inr)

lemma sanitizeHeader_Inr:
  assumes "sanitizeHeader v = Inr h"
  shows "header_ok h"
proof -
  obtain ids where ids: "jget ''sessionIds'' v = JArray ids" using assms by (auto simp: sanitizeHeader_def split: json.splits)
  obtain i name rev sids act l where
    h: "validateResponseId (jget ''workspaceId'' v) ''workspaceId'' = Inr i" "validateResponseName (jget ''name'' v) = Inr name"
      "validateRevision (jget ''revision'' v) ''revision'' = Inr rev" "mapM_ok (\<lambda>i. validateResponseId i ''sessionId'') ids = Inr sids"
      "distinct sids" "optional_member (jget ''activeSessionId'' v) sids ''activeSessionId'' = Inr act"
      "sanitizeWorkspaceLayout (jget ''layout'' v) = Inr l"
    and eq: "h = \<lparr>av_workspaceId = i, av_name = name, av_revision = rev, av_activeSessionId = act, av_sessionIds = sids,
      av_saveHealth = ''clean'', av_layout = l\<rparr>"
    using assms ids by (auto simp: sanitizeHeader_def bind_ok_eq_Inr split: if_splits)
  then show ?thesis using validateResponseId_Inr [OF h(1)] validateResponseName_Inr [OF h(2)] validateRevision_Inr [OF h(3)]
      mapM_ids [OF h(4)] optional_member_Inr [OF h(6)] sanitizeWorkspaceLayout_Inr [OF h(7)]
    by (cases act) (simp_all add: header_ok_def)
qed

text \<open>C32. Nothing malformed gets past the sanitizers, whatever the native side answers.  A header that is accepted has a path-free
  identifier and name, a revision that is a safe integer, distinct session identifiers, an active session among them and a
  sidebar width between 252 and 340; an accepted catalog lists well-formed projects under distinct identifiers, answers the request that
  was made, and its active workspace is one of them.\<close>

theorem sanitized_responses_well_formed:
  "(case sanitizeHeader v of Inl _ \<Rightarrow> True | Inr h \<Rightarrow> header_ok h) \<and>
   (case sanitizeCatalog w expected of
      Inl _ \<Rightarrow> True
    | Inr (projects, active) \<Rightarrow>
        jget ''requestId'' w = JString expected \<and> distinct (map pj_workspaceId projects) \<and> list_all project_ok projects \<and>
        (case active of None \<Rightarrow> True | Some i \<Rightarrow> i \<in> set (map pj_workspaceId projects)))"
proof -
  have "case sanitizeHeader v of Inl _ \<Rightarrow> True | Inr h \<Rightarrow> header_ok h" using sanitizeHeader_Inr by (auto split: sum.split)
  moreover have "jget ''requestId'' w = JString expected \<and> distinct (map pj_workspaceId projects) \<and> list_all project_ok projects \<and>
      (case active of None \<Rightarrow> True | Some i \<Rightarrow> i \<in> set (map pj_workspaceId projects))"
    if r: "sanitizeCatalog w expected = Inr (projects, active)" for projects active
  proof -
    obtain ws where ws: "jget ''workspaces'' w = JArray ws"
      using r by (cases "jget ''workspaces'' w") (simp_all add: sanitizeCatalog_def)
    then have "requireMatchingRequestId (jget ''requestId'' w) expected = Inr ()" "catalog_projects ws [] = Inr projects"
        "optional_member (jget ''activeWorkspaceId'' w) (map pj_workspaceId projects) ''activeWorkspaceId'' = Inr active"
      using r by (auto simp: sanitizeCatalog_def bind_ok_eq_Inr)
    then show ?thesis using catalog_projects_Inr optional_member_Inr
      by (fastforce simp: requireMatchingRequestId_def split: if_splits)
  qed
  ultimately show ?thesis by (auto split: sum.split)
qed


section \<open>What mutations are let through\<close>

text \<open>All strings of a value, and all property names.\<close>

fun strings_of :: "json \<Rightarrow> string list" where
  "strings_of (JString s) = [s]"
| "strings_of (JArray xs) = concat (map strings_of xs)"
| "strings_of (JObject es) = concat (map (\<lambda>(k, x). strings_of x) es)"
| "strings_of _ = []"

fun keys_of :: "json \<Rightarrow> string list" where
  "keys_of (JArray xs) = concat (map keys_of xs)"
| "keys_of (JObject es) = concat (map (\<lambda>(k, x). k # keys_of x) es)"
| "keys_of _ = []"

definition location_free :: "json \<Rightarrow> bool" where
  "location_free v \<longleftrightarrow> list_all (\<lambda>s. \<not> filesystem_location s) (strings_of v) \<and> list_all (\<lambda>k. \<not> forbidden_key k) (keys_of v)"

lemma location_free_simps [simp]:
  "location_free (JString s) = (\<not> filesystem_location s)" "location_free (JArray xs) = list_all location_free xs"
  "location_free (JObject es) = list_all (\<lambda>(k, x). \<not> forbidden_key k \<and> location_free x) es"
  "location_free (JTyped bs)" "location_free JUndefined" "location_free JNull" "location_free (JBool b)" "location_free (JNumber n)"
  "location_free JOther"
  by (auto simp: location_free_def list_all_iff)

lemma reject_iff:
  "rejectFilesystemData v = None \<longleftrightarrow> location_free v"
  "reject_items xs = None \<longleftrightarrow> list_all location_free xs"
  "reject_entries es = None \<longleftrightarrow> list_all (\<lambda>(k, x). \<not> forbidden_key k \<and> location_free x) es"
  by (induction v and xs and es rule: rejectFilesystemData_reject_items_reject_entries.induct) (auto split: option.splits)

text \<open>The identifiers of a command and the payload that is searched for locations.\<close>

fun command_ids :: "command \<Rightarrow> string list" where
  "command_ids (SetMetadata p) = []"
| "command_ids (SetActiveSession i) = (case i of None \<Rightarrow> [] | Some s \<Rightarrow> [s])"
| "command_ids (UpsertSession i p) = [i]"
| "command_ids (RemoveSession i) = [i]"
| "command_ids (AppendFrames i p) = [i]"
| "command_ids (ReplaceCapture i p) = [i]"
| "command_ids (TrimCapture i p) = [i]"
| "command_ids (UpsertFeatureState i p) = [i]"
| "command_ids (ReplaceSessionCollections i p) = [i]"
| "command_ids (AppendAiMessages i p) = [i]"
| "command_ids (ClearAiMessages i) = [i]"
| "command_ids (ReplaceWaveformChannels i p) = [i]"
| "command_ids (AppendWaveformSamples i p) = [i]"

fun searched_payload :: "command \<Rightarrow> json option" where
  "searched_payload (SetMetadata p) = Some p"
| "searched_payload (UpsertSession i p) = Some p"
| "searched_payload (AppendFrames i p) = Some p"
| "searched_payload (ReplaceCapture i p) = Some p"
| "searched_payload (UpsertFeatureState i p) = Some p"
| "searched_payload (ReplaceWaveformChannels i p) = Some p"
| "searched_payload _ = None"

text \<open>The payload of a command, cloned.\<close>

fun clone_command :: "command \<Rightarrow> command" where
  "clone_command (SetMetadata p) = SetMetadata (cloneJsonValue p)"
| "clone_command (UpsertSession i p) = UpsertSession i (cloneJsonValue p)"
| "clone_command (AppendFrames i p) = AppendFrames i (cloneJsonValue p)"
| "clone_command (ReplaceCapture i p) = ReplaceCapture i (cloneJsonValue p)"
| "clone_command (TrimCapture i p) = TrimCapture i (cloneJsonValue p)"
| "clone_command (UpsertFeatureState i p) = UpsertFeatureState i (cloneJsonValue p)"
| "clone_command (ReplaceSessionCollections i p) = ReplaceSessionCollections i (cloneJsonValue p)"
| "clone_command (AppendAiMessages i p) = AppendAiMessages i (cloneJsonValue p)"
| "clone_command (ReplaceWaveformChannels i p) = ReplaceWaveformChannels i (cloneJsonValue p)"
| "clone_command (AppendWaveformSamples i p) = AppendWaveformSamples i (cloneJsonValue p)"
| "clone_command c = c"

lemma no_throw_Inr [simp]: "no_throw r = Inr () \<longleftrightarrow> r = None"
  by (simp add: no_throw_def split: option.split)

lemma workspaceOpaqueId_accepts: "(\<exists>s. workspaceOpaqueId v field = Inr s) \<longleftrightarrow> id_pattern (trim v)"
  by (simp add: workspaceOpaqueId_Inr)

lemma safe_payload_Inr:
  "safe_payload i field mk p = Inr c \<longleftrightarrow> id_pattern (trim i) \<and> location_free (cloneJsonValue p) \<and> c = mk (cloneJsonValue p)"
  by (auto simp: safe_payload_def Let_def bind_ok_eq_Inr workspaceOpaqueId_Inr reject_iff)

lemma with_id_Inr: "with_id i field c = Inr d \<longleftrightarrow> id_pattern (trim i) \<and> d = c"
  by (auto simp: with_id_def bind_ok_eq_Inr workspaceOpaqueId_Inr)

lemma check_metadata_Inr: "check_metadata p = Inr u \<Longrightarrow> location_free p"
  by (auto simp: check_metadata_def bind_ok_eq_Inr reject_iff)

lemma check_command_Inr:
  "check_command c = Inr d \<Longrightarrow> d = clone_command c \<and> list_all (\<lambda>i. id_pattern (trim i)) (command_ids c) \<and>
     (case searched_payload d of None \<Rightarrow> True | Some p \<Rightarrow> location_free p)"
  by (cases c) (auto simp: safe_payload_Inr with_id_Inr plain_payload_def bind_ok_eq_Inr Let_def workspaceOpaqueId_Inr
      dest: check_metadata_Inr split: option.splits)

text \<open>C31. What is written to a workspace names no place outside it.  A mutation that is accepted is its command with the payload
  cloned, under the sequence number asked for; its identifiers, trimmed, are path-free; and in the payloads
  that the code searches (metadata, session, appended frames, replaced capture, feature state and waveform channels) no string
  starts like a filesystem location, and no property is named like a path, a handle, a token, a grant, a key or a secret.
  The payloads of the other kinds (the capture that is trimmed to, session collections, chat messages and waveform samples)
  are cloned without a search, and nothing is claimed of them.\<close>

theorem accepted_mutations_are_safe:
  "case createSequencedMutation c n of
     Inl _ \<Rightarrow> True
   | Inr m \<Rightarrow>
       0 \<le> n \<and> n \<le> 2 ^ 53 - 1 \<and> m = \<lparr>mt_sequence = n, mt_command = clone_command c\<rparr> \<and>
       list_all (\<lambda>i. id_pattern (trim i)) (command_ids c) \<and>
       (case searched_payload (mt_command m) of
          None \<Rightarrow> True
        | Some p \<Rightarrow> list_all (\<lambda>s. \<not> filesystem_location s) (strings_of p) \<and> list_all (\<lambda>k. \<not> forbidden_key k) (keys_of p))"
  using check_command_Inr [of c]
  by (auto simp: createSequencedMutation_def MAX_SAFE_INTEGER_def bind_ok_eq_Inr location_free_def split: sum.split option.splits)

section \<open>Frames the workspace refuses\<close>

text \<open>\<open>dataB64\<close> is searched like every other string, and base64 text may begin with a slash.\<close>

lemma b64_not_special: "is_b64 c \<or> c = CHR ''='' \<Longrightarrow> c \<noteq> CHR '':'' \<and> c \<noteq> BACKSLASH"
  by (auto simp: is_b64_def char_classes BACKSLASH_def)

lemma canonical_chars: "canonical_base64 v \<Longrightarrow> list_all (\<lambda>c. is_b64 c \<or> c = CHR ''='') v"
  by (induction v rule: canonical_base64.induct) auto

lemma slash_code: "n < 64 \<Longrightarrow> b64_char n = CHR ''/'' \<longleftrightarrow> n = 63"
  by (auto simp: code_eq b64_code pad_code split: if_splits)

lemma btoa_hd: "\<exists>t. btoa (b # cs) = b64_char (unat b div 4) # t"
  by (cases "b # cs" rule: btoa.cases) auto

lemma base64_location: "filesystem_location (btoa bs) \<longleftrightarrow> (case bs of [] \<Rightarrow> False | b # _ \<Rightarrow> 252 \<le> unat b)"
proof -
  have chars: "list_all (\<lambda>c. c \<noteq> CHR '':'' \<and> c \<noteq> BACKSLASH) (btoa bs)"
    using canonical_chars [OF canonical_btoa [of bs]] b64_not_special by (auto simp: list_all_iff)
  have no_colon: "CHR '':'' \<notin> set (btoa bs)" using chars by (auto simp: list_all_iff)
  have "\<not> file_pattern (btoa bs)"
  proof
    assume "file_pattern (btoa bs)"
    then have "map to_lower (take 5 (btoa bs)) ! 4 = CHR '':''" "4 < length (btoa bs)"
      by (auto simp: file_pattern_def dest: arg_cong [where f = length])
    then have "to_lower (btoa bs ! 4) = CHR '':''" by simp
    then have "btoa bs ! 4 = CHR '':''"
      by (auto simp: to_lower_def char_classes code_eq split: if_splits)
    then show False using no_colon \<open>4 < length (btoa bs)\<close> nth_mem by metis
  qed
  moreover have "\<not> drive_pattern (btoa bs)" using no_colon by (auto simp: drive_pattern_def split: list.splits)
  moreover have "\<not> js_startsWith [BACKSLASH] (btoa bs)" using chars by (cases "btoa bs") (auto simp: js_startsWith_def)
  moreover have "js_startsWith ''/'' (btoa bs) \<longleftrightarrow> (case bs of [] \<Rightarrow> False | b # _ \<Rightarrow> 252 \<le> unat b)"
  proof (cases bs)
    case (Cons b cs)
    have "unat b div 4 < 64" using unat_byte [of b] by simp
    then have "b64_char (unat b div 4) = CHR ''/'' \<longleftrightarrow> 252 \<le> unat b" using slash_code unat_byte [of b] by auto
    then show ?thesis using Cons btoa_hd [of b cs] by (auto simp: js_startsWith_def)
  qed (simp add: js_startsWith_def)
  ultimately show ?thesis by (simp add: filesystem_location_def)
qed

definition command_accepted :: "command \<Rightarrow> bool" where
  "command_accepted c = (case check_command c of Inl _ \<Rightarrow> False | Inr _ \<Rightarrow> True)"

definition payload_savable :: "queued_payload \<Rightarrow> bool" where
  "payload_savable p \<longleftrightarrow> \<not> filesystem_location (qp_id p) \<and> \<not> filesystem_location (qp_direction p) \<and>
     (case qp_txStatus p of None \<Rightarrow> True | Some t \<Rightarrow> \<not> filesystem_location t) \<and>
     (case qp_data p of [] \<Rightarrow> True | b # _ \<Rightarrow> unat b < 252)"

definition frame_savable :: "pending_frame \<Rightarrow> bool" where
  "frame_savable f \<longleftrightarrow> id_pattern (trim (qf_sessionId f)) \<and> payload_savable (qf_payload f)"

lemma payload_keys:
  "\<not> forbidden_key ''id''" "\<not> forbidden_key ''direction''" "\<not> forbidden_key ''timestampMs''" "\<not> forbidden_key ''data''"
  "\<not> forbidden_key ''dataB64''" "\<not> forbidden_key ''txStatus''" "\<not> forbidden_key ''requestedBytes''" "\<not> forbidden_key ''omittedBytes''"
  "\<not> forbidden_key ''startSeq''" "\<not> forbidden_key ''frames''"
  by code_simp+

lemma payload_location_free: "location_free (cloneJsonValue (toIpcFramePayload p)) \<longleftrightarrow> payload_savable p"
proof -
  have data: "(case qp_data p of [] \<Rightarrow> True | b # _ \<Rightarrow> unat b < 252) \<longleftrightarrow> \<not> filesystem_location (bytesToBase64 (qp_data p))"
    by (simp add: bytesToBase64_eq base64_location not_le split: list.split)
  show ?thesis unfolding payload_savable_def data
    by (cases "qp_txStatus p"; cases "qp_requestedBytes p"; cases "qp_omittedBytes p")
      (auto simp add: toIpcFramePayload_def optional_def payload_keys)
qed

lemma append_accepted:
  "command_accepted (append_command i n ps) \<longleftrightarrow> id_pattern (trim i) \<and> list_all (\<lambda>p. location_free (cloneJsonValue p)) ps"
proof -
  have "command_accepted (append_command i n ps) \<longleftrightarrow> (\<exists>d. check_command (append_command i n ps) = Inr d)"
    by (simp add: command_accepted_def split: sum.split)
  also have "\<dots> \<longleftrightarrow> id_pattern (trim i) \<and> location_free (cloneJsonValue (JObject [(''startSeq'', JNumber (js_int n)), (''frames'', JArray ps)]))"
    by (simp add: append_command_def safe_payload_Inr)
  finally show ?thesis by (simp add: payload_keys list_all_iff)
qed

lemma append_loop_accepted:
  "list_all command_accepted (append_loop fs i n m ps) \<longleftrightarrow>
     list_all frame_savable fs \<and> (ps = [] \<or> id_pattern (trim i) \<and> list_all (\<lambda>p. location_free (cloneJsonValue p)) ps)"
proof (induction fs arbitrary: i n m ps)
  case (Cons f fs)
  then show ?case by (auto simp: append_accepted payload_location_free frame_savable_def)
qed (simp add: append_accepted)

text \<open>C19. Which captured frames can be saved.  The append commands of a list of frames all pass the validation exactly when every
  frame has a path-free session identifier, its identifier, direction and status do not look like a filesystem
  location, and its first byte is below 252: the base64 text of data that begins with a byte from 252 to 255 begins with a slash and is
  refused as a location.\<close>

theorem frames_accepted_iff:
  "list_all command_accepted (frameAppendCommands fs) = list_all frame_savable fs"
  by (cases fs) (auto simp add: frameAppendCommands_def append_loop_accepted payload_location_free frame_savable_def)

end
