(* ===== verification/WorkspaceWrites.thy ===== *)
theory WorkspaceWrites
  imports WorkspaceValidation Machine
begin

text \<open>
  The writer of the workspace document, \<open>WorkspaceWriteEpochEngine\<close> in
  \<open>src/features/workspace/workspace-write-epoch.ts\<close>, with the parts of \<open>WorkspaceCoordinator\<close>
  (\<open>src/features/workspace/workspace-coordinator.ts\<close>) that own the document: activation, removal, the catalog and the merge of
  the active document into the list of projects.

  Epochs are numbered by the order of their creation and never forgotten, so that writes of an abandoned epoch go on
  as they do in the code.  The promise chain \<open>tail\<close> of an epoch is its queue \<open>ep_queue\<close>; a method is cut at its one
  await: \<open>WrStart\<close> runs the next write of an epoch up to the call of the port, \<open>WrSettle\<close> is the settlement of that call and
  runs the rest.  \<open>ep_opened\<close> and \<open>ep_committed\<close> record, for the properties, the document the epoch began with and the mutations
  committed since.
\<close>

section \<open>State\<close>

datatype outcome = OcCompleted active_view | OcStale | OcFailed string "string option"

record ticket =
  tk_workspaceId :: string
  tk_mutations :: "mutation list"
  tk_clientBatchId :: string
  tk_number :: nat

text \<open>A write in the chain carries the number under which its outcome is reported.\<close>

datatype job = JobBatch ticket | JobFlush nat

datatype in_flight = RunBatch ticket int | RunFlush nat int

record write_epoch =
  ep_number :: nat
  ep_workspaceId :: string
  ep_aborted :: bool
  ep_pending :: nat
  ep_inFlight :: bool
  ep_sequence :: nat
  ep_queue :: "job list"
  ep_running :: "in_flight option"
  ep_opened :: active_view
  ep_committed :: "mutation list"

datatype write_request = ApplyBatch nat string string int "mutation list" | FlushTo nat string int

record writer =
  wr_epochs :: "write_epoch list"
  wr_current :: "nat option"
  wr_epochNumber :: nat
  wr_active :: "active_view option"
  wr_projects :: "project_view list"
  wr_catalogActive :: "string option"
  wr_requests :: "write_request list"
  wr_outcomes :: "(nat \<times> outcome) list"
  wr_calls :: nat
  wr_notified :: nat

definition new_writer :: writer where
  "new_writer = \<lparr>wr_epochs = [], wr_current = None, wr_epochNumber = 0, wr_active = None, wr_projects = [], wr_catalogActive = None,
     wr_requests = [], wr_outcomes = [], wr_calls = 0, wr_notified = 0\<rparr>"

abbreviation epoch_at :: "writer \<Rightarrow> nat \<Rightarrow> write_epoch" where
  "epoch_at w e \<equiv> wr_epochs w ! e"

definition upd_epoch :: "nat \<Rightarrow> (write_epoch \<Rightarrow> write_epoch) \<Rightarrow> writer \<Rightarrow> writer" where
  "upd_epoch e f w = w\<lparr>wr_epochs := (wr_epochs w)[e := f (epoch_at w e)]\<rparr>"

section \<open>The coordinator's part\<close>

definition wr_setSaveHealth :: "string \<Rightarrow> writer \<Rightarrow> writer" where
  "wr_setSaveHealth health w = (case wr_active w of None \<Rightarrow> w | Some a \<Rightarrow> w\<lparr>wr_active := Some (a\<lparr>av_saveHealth := health\<rparr>)\<rparr>)"

definition wr_notify :: "writer \<Rightarrow> writer" where
  "wr_notify w = w\<lparr>wr_notified := Suc (wr_notified w)\<rparr>"

text \<open>The entry of the active workspace, replaced in place or appended.\<close>

definition merged_project :: "active_view \<Rightarrow> project_view option \<Rightarrow> project_view option \<Rightarrow> project_view" where
  "merged_project a existing summary =
     \<lparr>pj_workspaceId = av_workspaceId a, pj_name = av_name a,
      pj_revision = max (av_revision a) (case existing of None \<Rightarrow> 0 | Some p \<Rightarrow> pj_revision p),
      pj_updatedAtMs = (case summary of Some p \<Rightarrow> pj_updatedAtMs p | None \<Rightarrow> (case existing of Some p \<Rightarrow> pj_updatedAtMs p | None \<Rightarrow> js_int 0)),
      pj_saveHealth = av_saveHealth a, pj_active = True\<rparr>"

fun merge_into :: "active_view \<Rightarrow> project_view option \<Rightarrow> project_view list \<Rightarrow> project_view list" where
  "merge_into a summary [] = [merged_project a None summary]"
| "merge_into a summary (p # ps) =
     (if pj_workspaceId p = av_workspaceId a then merged_project a (Some p) summary # ps else p # merge_into a summary ps)"

definition mergeActiveIntoProjects :: "project_view option \<Rightarrow> writer \<Rightarrow> writer" where
  "mergeActiveIntoProjects summary w =
     (case wr_active w of None \<Rightarrow> w | Some a \<Rightarrow> w\<lparr>wr_projects := merge_into a summary (wr_projects w)\<rparr>)"

section \<open>Epochs\<close>

definition abort_current :: "writer \<Rightarrow> writer" where
  "abort_current w = (case wr_current w of None \<Rightarrow> w | Some e \<Rightarrow> upd_epoch e (\<lambda>p. p\<lparr>ep_aborted := True\<rparr>) w)"

definition new_epoch :: "nat \<Rightarrow> active_view \<Rightarrow> write_epoch" where
  "new_epoch n header =
     \<lparr>ep_number = n, ep_workspaceId = av_workspaceId header, ep_aborted = False, ep_pending = 0, ep_inFlight = False, ep_sequence = 0,
      ep_queue = [], ep_running = None, ep_opened = header, ep_committed = []\<rparr>"

definition beginEpoch :: "active_view \<Rightarrow> writer \<Rightarrow> writer" where
  "beginEpoch header w0 =
     (let w = abort_current w0
      in w\<lparr>wr_epochNumber := Suc (wr_epochNumber w), wr_current := Some (length (wr_epochs w)),
           wr_epochs := wr_epochs w @ [new_epoch (Suc (wr_epochNumber w)) header]\<rparr>)"

definition clearEpoch :: "writer \<Rightarrow> writer" where
  "clearEpoch w0 = (let w = abort_current w0 in w\<lparr>wr_current := None, wr_epochNumber := Suc (wr_epochNumber w)\<rparr>)"

text \<open>\<open>activateHeader\<close>: \<open>None\<close> when it throws.\<close>

definition activateHeader :: "active_view \<Rightarrow> project_view \<Rightarrow> writer \<Rightarrow> writer option" where
  "activateHeader header project w =
     (if (case wr_active w of None \<Rightarrow> False | Some a \<Rightarrow> av_workspaceId a = av_workspaceId header \<and> av_revision header < av_revision a) then None
      else
        let w = (beginEpoch header w)\<lparr>wr_active := Some header, wr_catalogActive := Some (av_workspaceId header)\<rparr>
        in Some (mergeActiveIntoProjects (Some project) w))"

text \<open>The rest of \<open>deleteWorkspace\<close> after a successful answer, and of \<open>refreshCatalog\<close>.\<close>

definition workspace_deleted :: "string \<Rightarrow> writer \<Rightarrow> writer" where
  "workspace_deleted i w0 =
     (let w = w0\<lparr>wr_projects := filter (\<lambda>p. pj_workspaceId p \<noteq> i) (wr_projects w0)\<rparr>
      in wr_notify (if map_option av_workspaceId (wr_active w) = Some i \<or> wr_catalogActive w = Some i
           then clearEpoch (w\<lparr>wr_active := None, wr_catalogActive := None\<rparr>) else w))"

definition catalog_loaded :: "project_view list \<Rightarrow> string option \<Rightarrow> writer \<Rightarrow> writer" where
  "catalog_loaded projects active w0 =
     (let w = w0\<lparr>wr_projects := projects,
                 wr_catalogActive := (case wr_active w0 of Some a \<Rightarrow> Some (av_workspaceId a) | None \<Rightarrow> active)\<rparr>
      in wr_notify (mergeActiveIntoProjects None w))"

section \<open>Writes\<close>

definition isCurrentEpoch :: "nat \<Rightarrow> string \<Rightarrow> writer \<Rightarrow> bool" where
  "isCurrentEpoch e i w \<longleftrightarrow>
     wr_current w = Some e \<and> map_option av_workspaceId (wr_active w) = Some i \<and> \<not> ep_aborted (epoch_at w e)"

definition finishWrite :: "nat \<Rightarrow> string option \<Rightarrow> writer \<Rightarrow> writer" where
  "finishWrite e terminalHealth w0 =
     (let w = upd_epoch e (\<lambda>p. p\<lparr>ep_pending := ep_pending p - 1, ep_inFlight := False\<rparr>) w0 in
      if wr_current w \<noteq> Some e \<or> wr_active w = None then w
      else
        case terminalHealth of
          Some h \<Rightarrow>
            if h = ''readOnly'' \<or> h = ''degraded'' then wr_setSaveHealth h w
            else wr_setSaveHealth (if ep_pending (epoch_at w e) > 0 then ''pending'' else h) w
        | None \<Rightarrow> wr_setSaveHealth (if ep_pending (epoch_at w e) > 0 then ''pending'' else ''clean'') w)"

definition opt_string :: "json \<Rightarrow> string option" where
  "opt_string v = (case v of JString s \<Rightarrow> Some s | _ \<Rightarrow> None)"

fun applyCommittedDocumentMutation :: "command \<Rightarrow> active_view \<Rightarrow> ws_error + active_view" where
  "applyCommittedDocumentMutation (SetMetadata p) a =
     (let a = (case opt_string (jget ''name'' p) of None \<Rightarrow> a | Some s \<Rightarrow> a\<lparr>av_name := s\<rparr>)
      in if jget ''layout'' p = JUndefined then Inr a
         else bind_ok (sanitizeWorkspaceLayout (jget ''layout'' p)) (\<lambda>l. Inr (a\<lparr>av_layout := l\<rparr>)))"
| "applyCommittedDocumentMutation (SetActiveSession i) a = Inr (a\<lparr>av_activeSessionId := i\<rparr>)"
| "applyCommittedDocumentMutation (UpsertSession i p) a =
     Inr (if i \<in> set (av_sessionIds a) then a else a\<lparr>av_sessionIds := av_sessionIds a @ [i]\<rparr>)"
| "applyCommittedDocumentMutation (RemoveSession i) a =
     (let a = a\<lparr>av_sessionIds := filter (\<lambda>s. s \<noteq> i) (av_sessionIds a)\<rparr>
      in Inr (if av_activeSessionId a = Some i then a\<lparr>av_activeSessionId := None\<rparr> else a))"
| "applyCommittedDocumentMutation c a = Inr a"

fun apply_mutations :: "mutation list \<Rightarrow> active_view \<Rightarrow> ws_error + active_view" where
  "apply_mutations [] a = Inr a"
| "apply_mutations (m # ms) a = bind_ok (applyCommittedDocumentMutation (mt_command m) a) (apply_mutations ms)"

text \<open>The mutations of a batch, numbered from the epoch's sequence.\<close>

fun sequenced :: "command list \<Rightarrow> int \<Rightarrow> ws_error + mutation list" where
  "sequenced [] n = Inr []"
| "sequenced (c # cs) n = bind_ok (createSequencedMutation c n) (\<lambda>m. bind_ok (sequenced cs (n + 1)) (\<lambda>ms. Inr (m # ms)))"

definition report :: "nat \<Rightarrow> outcome \<Rightarrow> writer \<Rightarrow> writer" where
  "report k out w = w\<lparr>wr_outcomes := wr_outcomes w @ [(k, out)]\<rparr>"

text \<open>Why a write is refused at once, if it is.\<close>

definition refusal :: "writer \<Rightarrow> outcome option" where
  "refusal w =
     (case (wr_active w, wr_current w) of
        (Some a, Some e) \<Rightarrow> if av_saveHealth a = ''readOnly'' then Some (OcFailed ''error.workspace_read_only'' (Some ''WORKSPACE_READ_ONLY'')) else None
      | _ \<Rightarrow> Some (OcFailed ''workspace.no_active_project'' None))"

definition new_call :: "writer \<Rightarrow> writer" where
  "new_call w = w\<lparr>wr_calls := Suc (wr_calls w)\<rparr>"

text \<open>\<open>commitBatch\<close>, given what \<open>nextBatchId\<close> returns (\<open>None\<close> when it throws); the call is number \<open>wr_calls\<close>.\<close>

definition commitBatch :: "command list \<Rightarrow> string option \<Rightarrow> writer \<Rightarrow> writer" where
  "commitBatch commands batchId w =
     (let k = wr_calls w; w = new_call w in
      case refusal w of
        Some out \<Rightarrow> report k out w
      | None \<Rightarrow>
          let e = the (wr_current w); a = the (wr_active w); invalid = report k (OcFailed ''workspace.mutation.invalid'' None) w in
          if commands = [] then invalid
          else
            case sequenced commands (int (ep_sequence (epoch_at w e))) of
              Inl _ \<Rightarrow> invalid
            | Inr mutations \<Rightarrow>
                case batchId of
                  None \<Rightarrow> invalid
                | Some b \<Rightarrow>
                    let t = \<lparr>tk_workspaceId = av_workspaceId a, tk_mutations = mutations, tk_clientBatchId = b, tk_number = k\<rparr>;
                        w = upd_epoch e (\<lambda>p. p\<lparr>ep_sequence := ep_sequence p + length mutations, ep_pending := Suc (ep_pending p),
                              ep_queue := ep_queue p @ [JobBatch t]\<rparr>) w
                    in wr_notify (if ep_inFlight (epoch_at w e) then w else wr_setSaveHealth ''pending'' w))"

definition wr_flush :: "writer \<Rightarrow> writer" where
  "wr_flush w =
     (let k = wr_calls w; w = new_call w in
      case refusal w of
        Some out \<Rightarrow> report k out w
      | None \<Rightarrow> upd_epoch (the (wr_current w)) (\<lambda>p. p\<lparr>ep_queue := ep_queue p @ [JobFlush k]\<rparr>) w)"

definition read_only :: "writer \<Rightarrow> bool" where
  "read_only w = (case wr_active w of None \<Rightarrow> False | Some a \<Rightarrow> av_saveHealth a = ''readOnly'')"

text \<open>\<open>executeBatch\<close> and \<open>executeFlush\<close> up to the call of the port.\<close>

definition take_flight :: "nat \<Rightarrow> in_flight \<Rightarrow> write_request \<Rightarrow> writer \<Rightarrow> writer" where
  "take_flight e run req w =
     (let w = wr_notify (wr_setSaveHealth ''saving'' (upd_epoch e (\<lambda>p. p\<lparr>ep_inFlight := True, ep_running := Some run\<rparr>) w))
      in w\<lparr>wr_requests := wr_requests w @ [req]\<rparr>)"

definition executeBatch :: "nat \<Rightarrow> ticket \<Rightarrow> writer \<Rightarrow> writer" where
  "executeBatch e t w =
     (if \<not> isCurrentEpoch e (tk_workspaceId t) w then report (tk_number t) OcStale (finishWrite e None w)
      else if read_only w
      then report (tk_number t) (OcFailed ''error.workspace_read_only'' (Some ''WORKSPACE_READ_ONLY'')) (finishWrite e (Some ''readOnly'') w)
      else
        let base = av_revision (the (wr_active w))
        in take_flight e (RunBatch t base) (ApplyBatch e (tk_workspaceId t) (tk_clientBatchId t) base (tk_mutations t)) w)"

definition executeFlush :: "nat \<Rightarrow> nat \<Rightarrow> writer \<Rightarrow> writer" where
  "executeFlush e k w =
     (let i = ep_workspaceId (epoch_at w e) in
      if \<not> isCurrentEpoch e i w then report k OcStale w
      else if read_only w then report k (OcFailed ''error.workspace_read_only'' (Some ''WORKSPACE_READ_ONLY'')) w
      else let target = av_revision (the (wr_active w)) in take_flight e (RunFlush k target) (FlushTo e i target) w)"

definition wr_start :: "nat \<Rightarrow> writer \<Rightarrow> writer" where
  "wr_start e w0 =
     (if e \<ge> length (wr_epochs w0) \<or> ep_running (epoch_at w0 e) \<noteq> None then w0
      else
        case ep_queue (epoch_at w0 e) of
          [] \<Rightarrow> w0
        | job # rest \<Rightarrow>
            let w = upd_epoch e (\<lambda>p. p\<lparr>ep_queue := rest\<rparr>) w0
            in (case job of JobBatch t \<Rightarrow> executeBatch e t w | JobFlush k \<Rightarrow> executeFlush e k w))"

text \<open>What the port's promise settles with: an answer or an error, both arbitrary values.\<close>

datatype settlement = Answer json | Rejection json

text \<open>An error raised by the code itself has no \<open>code\<close>.\<close>

definition own_error :: json where "own_error = JObject []"

definition failure_of :: "json \<Rightarrow> string \<Rightarrow> outcome" where
  "failure_of e fallback = (case safeFailure e fallback of (key, c) \<Rightarrow> OcFailed key c)"

definition batch_failed :: "nat \<Rightarrow> ticket \<Rightarrow> json \<Rightarrow> writer \<Rightarrow> writer" where
  "batch_failed e t err w =
     (if \<not> isCurrentEpoch e (tk_workspaceId t) w then report (tk_number t) OcStale (finishWrite e None w)
      else
        let readOnly = isWorkspaceReadOnlyError err
        in report (tk_number t) (failure_of err (if readOnly then ''error.workspace_read_only'' else ''workspace.save.failed''))
             (wr_notify (mergeActiveIntoProjects None (finishWrite e (Some (if readOnly then ''readOnly'' else ''degraded'')) w))))"

text \<open>The new document, when the answer is the one expected.\<close>

definition committed_document :: "ticket \<Rightarrow> int \<Rightarrow> json \<Rightarrow> active_view \<Rightarrow> ws_error + active_view" where
  "committed_document t base response a =
     bind_ok (validateRevision (jget ''committedRevision'' response) ''committedRevision'') (\<lambda>committedRevision.
       if jget ''clientBatchId'' response \<noteq> JString (tk_clientBatchId t) \<or> committedRevision \<noteq> base + 1 \<or> committedRevision \<le> av_revision a
       then Inl (InvalidResponse ''committedRevision'')
       else bind_ok (apply_mutations (tk_mutations t) a) (\<lambda>d. Inr (d\<lparr>av_revision := committedRevision\<rparr>)))"

definition batch_answered :: "nat \<Rightarrow> ticket \<Rightarrow> int \<Rightarrow> json \<Rightarrow> writer \<Rightarrow> writer" where
  "batch_answered e t base response w =
     (if \<not> isCurrentEpoch e (tk_workspaceId t) w then report (tk_number t) OcStale (finishWrite e None w)
      else
        case committed_document t base response (the (wr_active w)) of
          Inl _ \<Rightarrow> batch_failed e t own_error w
        | Inr d \<Rightarrow>
            let w = upd_epoch e (\<lambda>p. p\<lparr>ep_committed := ep_committed p @ tk_mutations t\<rparr>) (w\<lparr>wr_active := Some d\<rparr>);
                w = wr_notify (mergeActiveIntoProjects None (finishWrite e (Some ''clean'') w))
            in report (tk_number t) (OcCompleted (the (wr_active w))) w)"

text \<open>\<open>applyFlushResponse\<close>.\<close>

definition applyFlushResponse :: "json \<Rightarrow> int \<Rightarrow> nat \<Rightarrow> writer \<Rightarrow> ws_error + writer" where
  "applyFlushResponse response target queued w =
     bind_ok (validateRevision (jget ''committedRevision'' response) ''committedRevision'') (\<lambda>committedRevision.
       let a = the (wr_active w) in
       if committedRevision < target \<or> committedRevision < av_revision a then Inl (InvalidResponse ''committedRevision'')
       else
         case jget ''saveHealth'' response of
           JString h \<Rightarrow>
             if h \<notin> set SAVE_HEALTHS then Inl (InvalidResponse ''saveHealth'')
             else Inr (wr_setSaveHealth (if h = ''clean'' \<and> queued > 0 then ''pending'' else h)
                    (w\<lparr>wr_active := Some (a\<lparr>av_revision := committedRevision\<rparr>)\<rparr>))
         | _ \<Rightarrow> Inl (InvalidResponse ''saveHealth''))"

definition flush_failed :: "nat \<Rightarrow> nat \<Rightarrow> json \<Rightarrow> writer \<Rightarrow> writer" where
  "flush_failed e k err w =
     (if \<not> isCurrentEpoch e (ep_workspaceId (epoch_at w e)) w then report k OcStale w
      else
        let readOnly = isWorkspaceReadOnlyError err;
            w = wr_setSaveHealth (if readOnly then ''readOnly'' else ''degraded'') (upd_epoch e (\<lambda>p. p\<lparr>ep_inFlight := False\<rparr>) w)
        in report k (failure_of err (if readOnly then ''error.workspace_read_only'' else ''workspace.flush.failed''))
             (wr_notify (mergeActiveIntoProjects None w)))"

definition flush_answered :: "nat \<Rightarrow> nat \<Rightarrow> int \<Rightarrow> json \<Rightarrow> writer \<Rightarrow> writer" where
  "flush_answered e k target response w =
     (if \<not> isCurrentEpoch e (ep_workspaceId (epoch_at w e)) w then report k OcStale w
      else
        case applyFlushResponse response target (ep_pending (epoch_at w e)) w of
          Inl _ \<Rightarrow> flush_failed e k own_error w
        | Inr w \<Rightarrow>
            let w = wr_notify (mergeActiveIntoProjects None (upd_epoch e (\<lambda>p. p\<lparr>ep_inFlight := False\<rparr>) w))
            in report k (OcCompleted (the (wr_active w))) w)"

definition wr_settle :: "nat \<Rightarrow> settlement \<Rightarrow> writer \<Rightarrow> writer" where
  "wr_settle e result w0 =
     (if e \<ge> length (wr_epochs w0) then w0
      else
        let w = upd_epoch e (\<lambda>p. p\<lparr>ep_running := None\<rparr>) w0 in
        case ep_running (epoch_at w0 e) of
          None \<Rightarrow> w0
        | Some (RunBatch t base) \<Rightarrow> (case result of Answer r \<Rightarrow> batch_answered e t base r w | Rejection err \<Rightarrow> batch_failed e t err w)
        | Some (RunFlush k target) \<Rightarrow> (case result of Answer r \<Rightarrow> flush_answered e k target r w | Rejection err \<Rightarrow> flush_failed e k err w))"

section \<open>Events\<close>

datatype writer_event =
    WrActivate active_view project_view
  | WrDeleted string
  | WrCatalog "project_view list" "string option"
  | WrCommit "command list" "string option"
  | WrFlush
  | WrStart nat
  | WrSettle nat settlement

fun wr_step :: "writer_event \<Rightarrow> writer \<Rightarrow> writer" where
  "wr_step (WrActivate h p) w = (case activateHeader h p w of None \<Rightarrow> w | Some w' \<Rightarrow> w')"
| "wr_step (WrDeleted i) w = workspace_deleted i w"
| "wr_step (WrCatalog ps a) w = catalog_loaded ps a w"
| "wr_step (WrCommit cs b) w = commitBatch cs b w"
| "wr_step WrFlush w = wr_flush w"
| "wr_step (WrStart e) w = wr_start e w"
| "wr_step (WrSettle e r) w = wr_settle e r w"

end
