(* ===== verification/WriteRuns.thy ===== *)
theory WriteRuns
  imports WorkspaceWrites "HOL-Library.Multiset"
begin

text \<open>
  The properties of the writer of \<open>WorkspaceWrites\<close> along its runs: the invariant that ties the current epoch to the active document,
  the order of what is sent and committed, the answers to every write.
\<close>

section \<open>Fields\<close>

lemma epoch_fields [simp]:
  "wr_current (upd_epoch e f w) = wr_current w" "wr_active (upd_epoch e f w) = wr_active w" "wr_projects (upd_epoch e f w) = wr_projects w"
  "wr_requests (upd_epoch e f w) = wr_requests w" "wr_outcomes (upd_epoch e f w) = wr_outcomes w" "wr_calls (upd_epoch e f w) = wr_calls w"
  "wr_epochs (upd_epoch e f w) = (wr_epochs w)[e := f (epoch_at w e)]" "wr_catalogActive (upd_epoch e f w) = wr_catalogActive w"
  by (simp_all add: upd_epoch_def)

lemma health_fields [simp]:
  "wr_current (wr_setSaveHealth h w) = wr_current w" "wr_projects (wr_setSaveHealth h w) = wr_projects w"
  "wr_requests (wr_setSaveHealth h w) = wr_requests w" "wr_outcomes (wr_setSaveHealth h w) = wr_outcomes w"
  "wr_calls (wr_setSaveHealth h w) = wr_calls w" "wr_epochs (wr_setSaveHealth h w) = wr_epochs w"
  "wr_active (wr_setSaveHealth h w) = map_option (\<lambda>a. a\<lparr>av_saveHealth := h\<rparr>) (wr_active w)"
  "wr_catalogActive (wr_setSaveHealth h w) = wr_catalogActive w"
  by (simp_all add: wr_setSaveHealth_def split: option.split)

lemma wr_notify_fields [simp]:
  "wr_current (wr_notify w) = wr_current w" "wr_active (wr_notify w) = wr_active w" "wr_projects (wr_notify w) = wr_projects w"
  "wr_requests (wr_notify w) = wr_requests w" "wr_outcomes (wr_notify w) = wr_outcomes w" "wr_calls (wr_notify w) = wr_calls w"
  "wr_epochs (wr_notify w) = wr_epochs w" "wr_catalogActive (wr_notify w) = wr_catalogActive w"
  by (simp_all add: wr_notify_def)

lemma report_fields [simp]:
  "wr_current (report k out w) = wr_current w" "wr_active (report k out w) = wr_active w" "wr_projects (report k out w) = wr_projects w"
  "wr_requests (report k out w) = wr_requests w" "wr_outcomes (report k out w) = wr_outcomes w @ [(k, out)]"
  "wr_calls (report k out w) = wr_calls w" "wr_epochs (report k out w) = wr_epochs w" "wr_catalogActive (report k out w) = wr_catalogActive w"
  by (simp_all add: report_def)

lemma call_fields [simp]:
  "wr_current (new_call w) = wr_current w" "wr_active (new_call w) = wr_active w" "wr_requests (new_call w) = wr_requests w"
  "wr_outcomes (new_call w) = wr_outcomes w" "wr_calls (new_call w) = Suc (wr_calls w)" "wr_epochs (new_call w) = wr_epochs w"
  "wr_catalogActive (new_call w) = wr_catalogActive w"
  by (simp_all add: new_call_def)

lemma merge_fields [simp]:
  "wr_current (mergeActiveIntoProjects s w) = wr_current w" "wr_active (mergeActiveIntoProjects s w) = wr_active w"
  "wr_requests (mergeActiveIntoProjects s w) = wr_requests w" "wr_outcomes (mergeActiveIntoProjects s w) = wr_outcomes w"
  "wr_calls (mergeActiveIntoProjects s w) = wr_calls w" "wr_epochs (mergeActiveIntoProjects s w) = wr_epochs w"
  "wr_catalogActive (mergeActiveIntoProjects s w) = wr_catalogActive w"
  by (simp_all add: mergeActiveIntoProjects_def split: option.split)

text \<open>The health that \<open>finishWrite\<close> leaves in the active document of the epoch.\<close>

definition finished_health :: "string option \<Rightarrow> nat \<Rightarrow> string" where
  "finished_health th pending =
     (case th of
        Some h \<Rightarrow> if h = ''readOnly'' \<or> h = ''degraded'' then h else if pending > 0 then ''pending'' else h
      | None \<Rightarrow> if pending > 0 then ''pending'' else ''clean'')"

definition finished :: "write_epoch \<Rightarrow> write_epoch" where
  "finished p = p\<lparr>ep_pending := ep_pending p - 1, ep_inFlight := False\<rparr>"

lemma finish_fields [simp]:
  "wr_current (finishWrite e th w) = wr_current w" "wr_requests (finishWrite e th w) = wr_requests w"
  "wr_outcomes (finishWrite e th w) = wr_outcomes w" "wr_calls (finishWrite e th w) = wr_calls w"
  "wr_epochs (finishWrite e th w) = (wr_epochs w)[e := finished (epoch_at w e)]" "wr_projects (finishWrite e th w) = wr_projects w"
  "wr_catalogActive (finishWrite e th w) = wr_catalogActive w"
  by (auto simp: finishWrite_def finished_def Let_def split: option.split)

lemma finish_active:
  "e < length (wr_epochs w) \<Longrightarrow> wr_active (finishWrite e th w) =
     (if wr_current w = Some e then map_option (\<lambda>a. a\<lparr>av_saveHealth := finished_health th (ep_pending (epoch_at w e) - 1)\<rparr>) (wr_active w)
      else wr_active w)"
  by (auto simp: finishWrite_def finished_health_def Let_def split: option.split)

lemma flight_fields [simp]:
  "wr_current (take_flight e run req w) = wr_current w" "wr_requests (take_flight e run req w) = wr_requests w @ [req]"
  "wr_outcomes (take_flight e run req w) = wr_outcomes w" "wr_calls (take_flight e run req w) = wr_calls w"
  "wr_epochs (take_flight e run req w) = (wr_epochs w)[e := (epoch_at w e)\<lparr>ep_inFlight := True, ep_running := Some run\<rparr>]"
  "wr_active (take_flight e run req w) = map_option (\<lambda>a. a\<lparr>av_saveHealth := ''saving''\<rparr>) (wr_active w)"
  "wr_catalogActive (take_flight e run req w) = wr_catalogActive w"
  by (simp_all add: take_flight_def Let_def)

section \<open>Old epochs\<close>

text \<open>What a write of an epoch that is not current does.\<close>

lemma not_current [simp]: "wr_current w \<noteq> Some e \<Longrightarrow> \<not> isCurrentEpoch e i w"
  by (simp add: isCurrentEpoch_def)

lemma finish_stale: "wr_current w \<noteq> Some e \<Longrightarrow> wr_active (finishWrite e th w) = wr_active w"
  by (simp add: finishWrite_def Let_def)

lemmas write_defs = executeBatch_def executeFlush_def batch_failed_def batch_answered_def flush_failed_def flush_answered_def

definition unchanged :: "writer \<Rightarrow> writer \<Rightarrow> bool" where
  "unchanged w w' \<longleftrightarrow> wr_active w' = wr_active w \<and> wr_projects w' = wr_projects w \<and> wr_requests w' = wr_requests w \<and>
     wr_current w' = wr_current w \<and>
     (\<exists>outs. wr_outcomes w' = wr_outcomes w @ outs \<and> list_all (\<lambda>(k, out). out = OcStale) outs)"

lemma stale_start: "wr_current w \<noteq> Some e \<Longrightarrow> unchanged w (wr_start e w)"
  by (auto simp: wr_start_def unchanged_def write_defs finish_stale Let_def split: list.splits job.splits)

lemma stale_settle: "wr_current w \<noteq> Some e \<Longrightarrow> unchanged w (wr_settle e r w)"
  by (auto simp: wr_settle_def unchanged_def write_defs finish_stale Let_def split: option.splits in_flight.splits settlement.splits)

section \<open>The invariant\<close>

fun job_is_batch :: "job \<Rightarrow> bool" where
  "job_is_batch (JobBatch t) = True"
| "job_is_batch (JobFlush k) = False"

fun run_is_batch :: "in_flight \<Rightarrow> bool" where
  "run_is_batch (RunBatch t n) = True"
| "run_is_batch (RunFlush k n) = False"

definition open_batches :: "write_epoch \<Rightarrow> nat" where
  "open_batches p = length (filter job_is_batch (ep_queue p)) + (case ep_running p of None \<Rightarrow> 0 | Some r \<Rightarrow> if run_is_batch r then 1 else 0)"

text \<open>The document apart from its revision and health.\<close>

definition doc_part :: "active_view \<Rightarrow> active_view" where
  "doc_part a = a\<lparr>av_revision := 0, av_saveHealth := []\<rparr>"

definition job_of :: "string \<Rightarrow> job \<Rightarrow> bool" where
  "job_of i j = (case j of JobBatch t \<Rightarrow> tk_workspaceId t = i | JobFlush k \<Rightarrow> True)"

definition flight_of :: "string \<Rightarrow> int \<Rightarrow> in_flight \<Rightarrow> bool" where
  "flight_of i n r = (case r of RunBatch t base \<Rightarrow> tk_workspaceId t = i \<and> base = n | RunFlush k target \<Rightarrow> target = n)"

definition current_ok :: "active_view \<Rightarrow> write_epoch \<Rightarrow> bool" where
  "current_ok a p \<longleftrightarrow>
     av_workspaceId a = ep_workspaceId p \<and> \<not> ep_aborted p \<and> list_all (job_of (ep_workspaceId p)) (ep_queue p) \<and>
     (ep_inFlight p \<longleftrightarrow> ep_running p \<noteq> None) \<and>
     (case ep_running p of None \<Rightarrow> True | Some r \<Rightarrow> flight_of (ep_workspaceId p) (av_revision a) r \<and> av_saveHealth a = ''saving'') \<and>
     (0 < ep_pending p \<longrightarrow> av_saveHealth a \<noteq> ''clean'') \<and>
     apply_mutations (ep_committed p) (doc_part (ep_opened p)) = Inr (doc_part a)"

definition epoch_ok :: "nat option \<Rightarrow> active_view option \<Rightarrow> nat \<Rightarrow> write_epoch \<Rightarrow> bool" where
  "epoch_ok cur act e p \<longleftrightarrow> ep_pending p = open_batches p \<and> (cur = Some e \<longrightarrow> (case act of None \<Rightarrow> False | Some a \<Rightarrow> current_ok a p))"

definition writer_ok :: "writer \<Rightarrow> bool" where
  "writer_ok w \<longleftrightarrow> (wr_current w = None \<longleftrightarrow> wr_active w = None) \<and>
     (case wr_current w of None \<Rightarrow> True | Some e \<Rightarrow> Suc e = length (wr_epochs w)) \<and>
     (case wr_active w of None \<Rightarrow> True | Some a \<Rightarrow> wr_catalogActive w = Some (av_workspaceId a)) \<and>
     (\<forall>e < length (wr_epochs w). epoch_ok (wr_current w) (wr_active w) e (epoch_at w e))"

text \<open>An operation that touches one epoch and the active document.\<close>

lemma touch_ok:
  assumes "writer_ok w" "e < length (wr_epochs w)" "wr_epochs w' = (wr_epochs w)[e := p]" "wr_current w' = wr_current w"
    "wr_catalogActive w' = wr_catalogActive w" "map_option av_workspaceId (wr_active w') = map_option av_workspaceId (wr_active w)"
    "wr_current w \<noteq> Some e \<Longrightarrow> wr_active w' = wr_active w" "epoch_ok (wr_current w) (wr_active w') e p"
  shows "writer_ok w'"
proof -
  have act: "wr_active w' = None \<longleftrightarrow> wr_active w = None" using assms(6) by (metis option.map_disc_iff)
  have cat: "case wr_active w' of None \<Rightarrow> True | Some a \<Rightarrow> wr_catalogActive w' = Some (av_workspaceId a)"
    using assms(1,5,6) by (auto simp: writer_ok_def split: option.splits)
  have "epoch_ok (wr_current w') (wr_active w') d (epoch_at w' d)" if d: "d < length (wr_epochs w')" for d
  proof (cases "d = e")
    case True
    then show ?thesis using assms(2,3,4,8) by simp
  next
    case False
    have ok: "epoch_ok (wr_current w) (wr_active w) d (epoch_at w d)" using assms(1,3) d by (simp add: writer_ok_def)
    show ?thesis
    proof (cases "wr_current w = Some e")
      case True
      then show ?thesis using ok False assms(3,4) by (simp add: epoch_ok_def)
    next
      case no: False
      then show ?thesis using ok False assms(3,4,7) by simp
    qed
  qed
  then show ?thesis using assms(1,3,4) act cat by (auto simp: writer_ok_def split: option.splits)
qed

lemma same_ok:
  assumes "writer_ok w" "wr_epochs w' = wr_epochs w" "wr_current w' = wr_current w" "wr_active w' = wr_active w" "wr_catalogActive w' = wr_catalogActive w"
  shows "writer_ok w'"
  using assms by (auto simp: writer_ok_def split: option.splits)

lemma the_epoch_ok: "writer_ok w \<Longrightarrow> e < length (wr_epochs w) \<Longrightarrow> epoch_ok (wr_current w) (wr_active w) e (epoch_at w e)"
  by (simp add: writer_ok_def)

lemma current_facts:
  assumes "writer_ok w" "wr_current w = Some e"
  obtains a where "wr_active w = Some a" "e < length (wr_epochs w)" "current_ok a (epoch_at w e)" "ep_pending (epoch_at w e) = open_batches (epoch_at w e)"
  using assms by (auto simp: writer_ok_def epoch_ok_def split: option.splits)

subsection \<open>Documents\<close>

lemma apply_doc_part:
  "applyCommittedDocumentMutation c a = Inr d \<Longrightarrow>
     applyCommittedDocumentMutation c (doc_part a) = Inr (doc_part d) \<and> av_workspaceId d = av_workspaceId a \<and> av_revision d = av_revision a \<and>
     av_saveHealth d = av_saveHealth a"
  by (cases c) (auto simp: doc_part_def Let_def bind_ok_eq_Inr split: option.splits if_splits)

lemma apply_mutations_doc_part:
  "apply_mutations ms a = Inr d \<Longrightarrow>
     apply_mutations ms (doc_part a) = Inr (doc_part d) \<and> av_workspaceId d = av_workspaceId a \<and> av_revision d = av_revision a \<and>
     av_saveHealth d = av_saveHealth a"
proof (induction ms arbitrary: a)
  case (Cons m ms)
  then obtain b where b: "applyCommittedDocumentMutation (mt_command m) a = Inr b" "apply_mutations ms b = Inr d"
    by (auto simp: bind_ok_eq_Inr)
  then show ?case using apply_doc_part [OF b(1)] Cons.IH [OF b(2)] by simp
qed simp

lemma apply_mutations_append: "apply_mutations (ms @ ns) a = bind_ok (apply_mutations ms a) (apply_mutations ns)"
  by (induction ms arbitrary: a) (simp_all add: bind_ok_def split: sum.split)

lemma doc_part_upd [simp]: "doc_part (a\<lparr>av_saveHealth := h\<rparr>) = doc_part a" "doc_part (a\<lparr>av_revision := n\<rparr>) = doc_part a" "doc_part (doc_part a) = doc_part a"
  by (simp_all add: doc_part_def)


subsection \<open>Kept by every step\<close>

lemma refusal_None:
  "refusal w = None \<longleftrightarrow> (\<exists>a e. wr_active w = Some a \<and> wr_current w = Some e \<and> av_saveHealth a \<noteq> ''readOnly'')"
  by (auto simp: refusal_def split: option.splits if_splits)

lemma epoch_lengths [simp]: "length (wr_epochs (abort_current w)) = length (wr_epochs w)"
  by (simp add: abort_current_def split: option.split)

lemma abort_fields [simp]:
  "wr_current (abort_current w) = wr_current w" "wr_active (abort_current w) = wr_active w" "wr_outcomes (abort_current w) = wr_outcomes w"
  "wr_calls (abort_current w) = wr_calls w" "wr_requests (abort_current w) = wr_requests w"
  by (simp_all add: abort_current_def split: option.split)

text \<open>What the properties use of an epoch, and aborting leaves alone.\<close>

lemma abort_epochs:
  "e < length (wr_epochs w) \<Longrightarrow> epoch_at (abort_current w) e = epoch_at w e \<or> epoch_at (abort_current w) e = (epoch_at w e)\<lparr>ep_aborted := True\<rparr>"
  by (cases "wr_current w"; cases "wr_current w = Some e") (auto simp: abort_current_def)

lemma aborted_counts [simp]: "open_batches (p\<lparr>ep_aborted := b\<rparr>) = open_batches p"
  by (simp add: open_batches_def)

lemma abort_pending:
  "writer_ok w \<Longrightarrow> e < length (wr_epochs w) \<Longrightarrow> ep_pending (epoch_at (abort_current w) e) = open_batches (epoch_at (abort_current w) e)"
  using abort_epochs [of e w] by (auto simp: writer_ok_def epoch_ok_def)

lemma wr_activate_ok:
  assumes "writer_ok w" "activateHeader h s w = Some w'"
  shows "writer_ok w'"
proof -
  let ?n = "length (wr_epochs w)"
  have f: "wr_current w' = Some ?n" "wr_active w' = Some h" "wr_catalogActive w' = Some (av_workspaceId h)"
    "wr_epochs w' = wr_epochs (abort_current w) @ [new_epoch (Suc (wr_epochNumber (abort_current w))) h]"
    using assms(2) by (auto simp: activateHeader_def beginEpoch_def Let_def split: if_splits)
  have "epoch_ok (Some ?n) (Some h) e (epoch_at w' e)" if "e < Suc ?n" for e
  proof (cases "e = ?n")
    case True
    then show ?thesis
      using f(4) by (simp add: nth_append epoch_ok_def current_ok_def new_epoch_def open_batches_def job_of_def)
  next
    case False
    then show ?thesis using that f(4) abort_pending [OF assms(1), of e] by (simp add: nth_append epoch_ok_def)
  qed
  then show ?thesis using f by (simp add: writer_ok_def)
qed

lemma deleted_ok:
  assumes "writer_ok w"
  shows "writer_ok (workspace_deleted i w)"
proof -
  let ?w = "w\<lparr>wr_projects := filter (\<lambda>p. pj_workspaceId p \<noteq> i) (wr_projects w)\<rparr>"
  have ok: "writer_ok ?w" by (rule same_ok [OF assms]) simp_all
  let ?v = "clearEpoch (?w\<lparr>wr_active := None, wr_catalogActive := None\<rparr>)"
  have eps: "wr_epochs ?v = wr_epochs (abort_current w)"
    by (simp add: clearEpoch_def Let_def abort_current_def upd_epoch_def split: option.split)
  have "writer_ok ?v"
    using abort_pending [OF assms] eps by (simp add: writer_ok_def epoch_ok_def) (simp add: clearEpoch_def Let_def)
  then show ?thesis using ok by (simp add: workspace_deleted_def Let_def same_ok [OF _ wr_notify_fields(7,1,2,8)])
qed

lemma catalog_ok: "writer_ok w \<Longrightarrow> writer_ok (catalog_loaded ps i w)"
  by (auto simp: catalog_loaded_def Let_def writer_ok_def split: option.splits)

lemma commit_ok:
  assumes "writer_ok w"
  shows "writer_ok (commitBatch cs b w)"
proof (cases "refusal w")
  case (Some out)
  have "refusal (new_call w) = refusal w" by (simp add: refusal_def)
  then show ?thesis using Some assms by (simp add: commitBatch_def Let_def) (rule same_ok [OF assms]; simp)
next
  case None
  obtain a e where a: "wr_active w = Some a" "wr_current w = Some e" "av_saveHealth a \<noteq> ''readOnly''" using None refusal_None by blast
  have f: "e < length (wr_epochs w)" "current_ok a (epoch_at w e)" "ep_pending (epoch_at w e) = open_batches (epoch_at w e)"
    using current_facts [OF assms a(2)] a(1) by (metis option.inject)+
  have ref: "refusal (new_call w) = None" using None by (simp add: refusal_def)
  show ?thesis
  proof (cases "cs = [] \<or> b = None \<or> (\<exists>x. sequenced cs (int (ep_sequence (epoch_at w e))) = Inl x)")
    case True
    then show ?thesis
      using ref a by (auto simp: commitBatch_def Let_def split: sum.splits option.splits intro!: same_ok [OF assms])
  next
    case False
    then obtain bid ms where b: "cs \<noteq> []" "b = Some bid" "sequenced cs (int (ep_sequence (epoch_at w e))) = Inr ms"
      by (cases "sequenced cs (int (ep_sequence (epoch_at w e)))") auto
    let ?t = "\<lparr>tk_workspaceId = av_workspaceId a, tk_mutations = ms, tk_clientBatchId = bid, tk_number = wr_calls w\<rparr>"
    let ?p = "(epoch_at w e)\<lparr>ep_sequence := ep_sequence (epoch_at w e) + length ms, ep_pending := Suc (ep_pending (epoch_at w e)),
                 ep_queue := ep_queue (epoch_at w e) @ [JobBatch ?t]\<rparr>"
    let ?a = "if ep_inFlight (epoch_at w e) then a else a\<lparr>av_saveHealth := ''pending''\<rparr>"
    have eq: "wr_epochs (commitBatch cs b w) = (wr_epochs w)[e := ?p] \<and> wr_current (commitBatch cs b w) = wr_current w \<and>
        wr_active (commitBatch cs b w) = Some ?a \<and> wr_catalogActive (commitBatch cs b w) = wr_catalogActive w"
      using ref a b f(1) by (simp add: commitBatch_def Let_def)
    have "epoch_ok (wr_current w) (Some ?a) e ?p"
      using f(2,3) a by (auto simp: epoch_ok_def open_batches_def current_ok_def job_of_def split: option.splits)
    then show ?thesis using eq a by (intro touch_ok [OF assms f(1), of _ ?p]) auto
  qed
qed

lemma flush_ok:
  assumes "writer_ok w"
  shows "writer_ok (wr_flush w)"
proof (cases "refusal w")
  case (Some out)
  have "refusal (new_call w) = refusal w" by (simp add: refusal_def)
  then show ?thesis using Some assms by (simp add: wr_flush_def Let_def) (rule same_ok [OF assms]; simp)
next
  case None
  obtain a e where a: "wr_active w = Some a" "wr_current w = Some e" using None refusal_None by blast
  have f: "e < length (wr_epochs w)" "current_ok a (epoch_at w e)" "ep_pending (epoch_at w e) = open_batches (epoch_at w e)"
    using current_facts [OF assms a(2)] a(1) by (metis option.inject)+
  have ref: "refusal (new_call w) = None" using None by (simp add: refusal_def)
  let ?p = "(epoch_at w e)\<lparr>ep_queue := ep_queue (epoch_at w e) @ [JobFlush (wr_calls w)]\<rparr>"
  have "epoch_ok (wr_current w) (wr_active w) e ?p"
    using f(2,3) a by (auto simp: epoch_ok_def open_batches_def current_ok_def job_of_def split: option.splits)
  then show ?thesis using ref a f(1) by (intro touch_ok [OF assms f(1), of _ ?p]) (simp_all add: wr_flush_def Let_def)
qed


text \<open>The end of a batch: the epoch is given back with one batch less.\<close>

lemma finish_ok:
  assumes "writer_ok w" "e < length (wr_epochs w)" and p: "p = finished q" "ep_pending q = Suc (open_batches p)" "wr_epochs w' = (wr_epochs w)[e := p]"
    and same: "wr_current w' = wr_current w" "wr_catalogActive w' = wr_catalogActive w"
    and old: "wr_current w \<noteq> Some e \<Longrightarrow> wr_active w' = wr_active w"
    and cur: "\<And>a. wr_current w = Some e \<Longrightarrow> wr_active w = Some a \<Longrightarrow>
        ep_workspaceId q = ep_workspaceId (epoch_at w e) \<and> ep_aborted q = ep_aborted (epoch_at w e) \<and>
        list_all (job_of (ep_workspaceId q)) (ep_queue q) \<and> ep_running q = None \<and>
        (\<exists>d. wr_active w' = Some (d\<lparr>av_saveHealth := finished_health th (ep_pending p)\<rparr>) \<and> av_workspaceId d = av_workspaceId a \<and>
          apply_mutations (ep_committed q) (doc_part (ep_opened q)) = Inr (doc_part d))"
  shows "writer_ok w'"
proof -
  have pend: "ep_pending p = open_batches p" using arg_cong [OF p(1), of ep_pending] p(2) by (simp add: finished_def)
  have current: "current_ok b p \<and> av_workspaceId b = av_workspaceId a"
    if c: "wr_current w = Some e" "wr_active w = Some a" "wr_active w' = Some b" for a b
  proof -
    obtain d where d: "b = d\<lparr>av_saveHealth := finished_health th (ep_pending p)\<rparr>" "av_workspaceId d = av_workspaceId a"
        "apply_mutations (ep_committed q) (doc_part (ep_opened q)) = Inr (doc_part d)"
      using cur [OF c(1,2)] c(3) by auto
    have h: "0 < ep_pending p \<Longrightarrow> finished_health th (ep_pending p) \<noteq> ''clean''" by (auto simp: finished_health_def split: option.split)
    have "current_ok a (epoch_at w e)" using assms(1) c by (auto simp: writer_ok_def epoch_ok_def split: option.splits)
    then show ?thesis using cur [OF c(1,2)] d h p(1) by (auto simp: current_ok_def finished_def)
  qed
  have ids: "map_option av_workspaceId (wr_active w') = map_option av_workspaceId (wr_active w)"
  proof (cases "wr_current w = Some e")
    case True
    then obtain a where a: "wr_active w = Some a" using assms(1) by (auto simp: writer_ok_def)
    then show ?thesis using cur [OF True a] by auto
  qed (simp add: old)
  have "epoch_ok (wr_current w) (wr_active w') e p"
  proof (cases "wr_current w = Some e")
    case True
    then obtain a where a: "wr_active w = Some a" using assms(1) by (auto simp: writer_ok_def)
    then obtain b where b: "wr_active w' = Some b" using ids by auto
    show ?thesis using current [OF True a b] pend b by (simp add: epoch_ok_def)
  qed (simp add: epoch_ok_def pend)
  then show ?thesis using touch_ok [OF assms(1,2) p(3) same ids old] by blast
qed

lemma executeBatch_ok:
  assumes ok: "writer_ok w" and e: "e < length (wr_epochs w)" and q: "ep_queue (epoch_at w e) = JobBatch t # rest" "ep_running (epoch_at w e) = None"
  shows "writer_ok (executeBatch e t (upd_epoch e (\<lambda>p. p\<lparr>ep_queue := rest\<rparr>) w))"
proof -
  let ?q = "(epoch_at w e)\<lparr>ep_queue := rest\<rparr>"
  let ?w = "upd_epoch e (\<lambda>p. p\<lparr>ep_queue := rest\<rparr>) w"
  have count: "ep_pending ?q = Suc (open_batches (finished ?q))"
    using the_epoch_ok [OF ok e] q by (simp add: epoch_ok_def open_batches_def finished_def)
  have stop: "writer_ok (report k out (finishWrite e th ?w))" for k out th
  proof (rule finish_ok [OF ok e refl count, where th = th])
    fix a assume c: "wr_current w = Some e" "wr_active w = Some a"
    then have "current_ok a (epoch_at w e)" using the_epoch_ok [OF ok e] by (simp add: epoch_ok_def)
    then show "ep_workspaceId ?q = ep_workspaceId (epoch_at w e) \<and> ep_aborted ?q = ep_aborted (epoch_at w e) \<and>
        list_all (job_of (ep_workspaceId ?q)) (ep_queue ?q) \<and> ep_running ?q = None \<and>
        (\<exists>d. wr_active (report k out (finishWrite e th ?w)) = Some (d\<lparr>av_saveHealth := finished_health th (ep_pending (finished ?q))\<rparr>) \<and>
          av_workspaceId d = av_workspaceId a \<and> apply_mutations (ep_committed ?q) (doc_part (ep_opened ?q)) = Inr (doc_part d))"
      using c q e by (auto simp: current_ok_def finish_active finished_def)
  qed (use e in \<open>simp_all add: finish_active\<close>)
  show ?thesis
  proof (cases "isCurrentEpoch e (tk_workspaceId t) ?w \<and> \<not> read_only ?w")
    case False
    then show ?thesis using stop by (auto simp: executeBatch_def)
  next
    case True
    then obtain a where a: "wr_current w = Some e" "wr_active w = Some a" "av_workspaceId a = tk_workspaceId t"
      by (auto simp: isCurrentEpoch_def)
    have c: "current_ok a (epoch_at w e)" "ep_pending (epoch_at w e) = open_batches (epoch_at w e)"
      using the_epoch_ok [OF ok e] a by (simp_all add: epoch_ok_def)
    let ?p = "?q\<lparr>ep_inFlight := True, ep_running := Some (RunBatch t (av_revision a))\<rparr>"
    have "epoch_ok (wr_current w) (Some (a\<lparr>av_saveHealth := ''saving''\<rparr>)) e ?p"
      using c q a by (simp add: epoch_ok_def current_ok_def open_batches_def flight_of_def)
    then show ?thesis using True a e by (intro touch_ok [OF ok e, of _ ?p]) (simp_all add: executeBatch_def Let_def)
  qed
qed

lemma executeFlush_ok:
  assumes ok: "writer_ok w" and e: "e < length (wr_epochs w)" and q: "ep_queue (epoch_at w e) = JobFlush k # rest" "ep_running (epoch_at w e) = None"
  shows "writer_ok (executeFlush e k (upd_epoch e (\<lambda>p. p\<lparr>ep_queue := rest\<rparr>) w))"
proof -
  let ?q = "(epoch_at w e)\<lparr>ep_queue := rest\<rparr>"
  let ?w = "upd_epoch e (\<lambda>p. p\<lparr>ep_queue := rest\<rparr>) w"
  have "epoch_ok (wr_current w) (wr_active w) e ?q"
    using the_epoch_ok [OF ok e] q by (auto simp: epoch_ok_def open_batches_def current_ok_def split: option.splits)
  then have stop: "writer_ok (report i out ?w)" for i out
    using e by (intro touch_ok [OF ok e, of _ ?q]) simp_all
  show ?thesis
  proof (cases "isCurrentEpoch e (ep_workspaceId (epoch_at w e)) ?w \<and> \<not> read_only ?w")
    case False
    then show ?thesis using stop e by (auto simp: executeFlush_def Let_def)
  next
    case True
    then obtain a where a: "wr_current w = Some e" "wr_active w = Some a" by (auto simp: isCurrentEpoch_def)
    have c: "current_ok a (epoch_at w e)" "ep_pending (epoch_at w e) = open_batches (epoch_at w e)"
      using the_epoch_ok [OF ok e] a by (simp_all add: epoch_ok_def)
    let ?p = "?q\<lparr>ep_inFlight := True, ep_running := Some (RunFlush k (av_revision a))\<rparr>"
    have "epoch_ok (wr_current w) (Some (a\<lparr>av_saveHealth := ''saving''\<rparr>)) e ?p"
      using c q a by (simp add: epoch_ok_def current_ok_def open_batches_def flight_of_def)
    then show ?thesis using True a e by (intro touch_ok [OF ok e, of _ ?p]) (simp_all add: executeFlush_def Let_def)
  qed
qed

lemma start_ok: "writer_ok w \<Longrightarrow> writer_ok (wr_start e w)"
  using executeBatch_ok executeFlush_ok by (auto simp: wr_start_def Let_def not_le split: list.split job.split)


lemma batch_failed_fields:
  assumes "e < length (wr_epochs w)"
  shows "\<exists>th. wr_epochs (batch_failed e t err w) = (wr_epochs w)[e := finished (epoch_at w e)] \<and>
     wr_current (batch_failed e t err w) = wr_current w \<and> wr_catalogActive (batch_failed e t err w) = wr_catalogActive w \<and>
     wr_active (batch_failed e t err w) = wr_active (finishWrite e th w)"
proof (cases "isCurrentEpoch e (tk_workspaceId t) w")
  case True
  then show ?thesis
    by (intro exI [of _ "Some (if isWorkspaceReadOnlyError err then ''readOnly'' else ''degraded'')"]) (simp add: batch_failed_def Let_def)
qed (auto simp: batch_failed_def)

text \<open>The epoch whose flight has been taken down.\<close>

abbreviation landed :: "nat \<Rightarrow> writer \<Rightarrow> writer" where
  "landed e w \<equiv> upd_epoch e (\<lambda>p. p\<lparr>ep_running := None\<rparr>) w"

lemma batch_failed_ok:
  assumes ok: "writer_ok w" and e: "e < length (wr_epochs w)" and r: "ep_running (epoch_at w e) = Some (RunBatch t base)"
  shows "writer_ok (batch_failed e t err (landed e w))"
proof -
  let ?q = "(epoch_at w e)\<lparr>ep_running := None\<rparr>"
  obtain th where f: "wr_epochs (batch_failed e t err (landed e w)) = (wr_epochs w)[e := finished ?q]"
    "wr_current (batch_failed e t err (landed e w)) = wr_current w" "wr_catalogActive (batch_failed e t err (landed e w)) = wr_catalogActive w"
    "wr_active (batch_failed e t err (landed e w)) = wr_active (finishWrite e th (landed e w))"
    using batch_failed_fields [of e "landed e w" t err] e by auto
  have count: "ep_pending ?q = Suc (open_batches (finished ?q))"
    using the_epoch_ok [OF ok e] r by (simp add: epoch_ok_def open_batches_def finished_def)
  show ?thesis
  proof (rule finish_ok [OF ok e refl count f(1-3), where th = th])
    fix a assume c: "wr_current w = Some e" "wr_active w = Some a"
    then have "current_ok a (epoch_at w e)" using the_epoch_ok [OF ok e] by (simp add: epoch_ok_def)
    then show "ep_workspaceId ?q = ep_workspaceId (epoch_at w e) \<and> ep_aborted ?q = ep_aborted (epoch_at w e) \<and>
        list_all (job_of (ep_workspaceId ?q)) (ep_queue ?q) \<and> ep_running ?q = None \<and>
        (\<exists>d. wr_active (batch_failed e t err (landed e w)) = Some (d\<lparr>av_saveHealth := finished_health th (ep_pending (finished ?q))\<rparr>) \<and>
          av_workspaceId d = av_workspaceId a \<and> apply_mutations (ep_committed ?q) (doc_part (ep_opened ?q)) = Inr (doc_part d))"
      using c e f(4) by (auto simp: current_ok_def finish_active finished_def)
  qed (use e f(4) in \<open>simp add: finish_active\<close>)
qed

lemma committed_document_Inr:
  assumes "committed_document t base response a = Inr d"
  shows "apply_mutations (tk_mutations t) (doc_part a) = Inr (doc_part d) \<and> av_workspaceId d = av_workspaceId a \<and> av_revision d = base + 1 \<and>
    av_revision a < av_revision d"
proof -
  obtain b where "apply_mutations (tk_mutations t) a = Inr b" "d = b\<lparr>av_revision := base + 1\<rparr>" "av_revision a < base + 1"
    using assms by (auto simp: committed_document_def bind_ok_eq_Inr split: if_splits)
  then show ?thesis using apply_mutations_doc_part [of "tk_mutations t" a b] by simp
qed

lemma batch_answered_ok:
  assumes ok: "writer_ok w" and e: "e < length (wr_epochs w)" and r: "ep_running (epoch_at w e) = Some (RunBatch t base)"
  shows "writer_ok (batch_answered e t base response (landed e w))"
proof (cases "isCurrentEpoch e (tk_workspaceId t) (landed e w)")
  case False
  then have "batch_answered e t base response (landed e w) = batch_failed e t own_error (landed e w)"
    by (simp add: batch_answered_def batch_failed_def)
  then show ?thesis using batch_failed_ok [OF ok e r] by simp
next
  case True
  then obtain a where a: "wr_current w = Some e" "wr_active w = Some a" "av_workspaceId a = tk_workspaceId t" by (auto simp: isCurrentEpoch_def)
  show ?thesis
  proof (cases "committed_document t base response a")
    case (Inl x)
    then have "batch_answered e t base response (landed e w) = batch_failed e t own_error (landed e w)"
      using True a by (simp add: batch_answered_def)
    then show ?thesis using batch_failed_ok [OF ok e r] by simp
  next
    case (Inr d)
    let ?q = "(epoch_at w e)\<lparr>ep_running := None, ep_committed := ep_committed (epoch_at w e) @ tk_mutations t\<rparr>"
    let ?w = "batch_answered e t base response (landed e w)"
    have f: "wr_epochs ?w = (wr_epochs w)[e := finished ?q]" "wr_current ?w = wr_current w" "wr_catalogActive ?w = wr_catalogActive w"
      "wr_active ?w = Some (d\<lparr>av_saveHealth := finished_health (Some ''clean'') (ep_pending (finished ?q))\<rparr>)"
      using True a Inr e by (simp_all add: batch_answered_def Let_def finish_active finished_def)
    have count: "ep_pending ?q = Suc (open_batches (finished ?q))"
      using the_epoch_ok [OF ok e] r by (simp add: epoch_ok_def open_batches_def finished_def)
    have c: "current_ok a (epoch_at w e)" using the_epoch_ok [OF ok e] a by (simp add: epoch_ok_def)
    note d = committed_document_Inr [OF Inr]
    have "apply_mutations (ep_committed ?q) (doc_part (ep_opened ?q)) = Inr (doc_part d)"
      using c d by (simp add: current_ok_def apply_mutations_append)
    then show ?thesis using c d a f
      by (intro finish_ok [OF ok e refl count f(1-3), where th = "Some ''clean''"]) (auto simp: current_ok_def)
  qed
qed

lemma flush_end_ok:
  assumes ok: "writer_ok w" and e: "e < length (wr_epochs w)" and r: "ep_running (epoch_at w e) = Some (RunFlush k target)"
    and f: "wr_epochs w' = (wr_epochs w)[e := (epoch_at w e)\<lparr>ep_running := None, ep_inFlight := False\<rparr>]" "wr_current w' = wr_current w"
      "wr_catalogActive w' = wr_catalogActive w"
    and cur: "wr_current w = Some e" "wr_active w = Some a" "wr_active w' = Some b" "av_workspaceId b = av_workspaceId a" "doc_part b = doc_part a"
      "0 < ep_pending (epoch_at w e) \<longrightarrow> av_saveHealth b \<noteq> ''clean''"
  shows "writer_ok w'"
proof -
  have c: "current_ok a (epoch_at w e)" "ep_pending (epoch_at w e) = open_batches (epoch_at w e)"
    using the_epoch_ok [OF ok e] cur by (simp_all add: epoch_ok_def)
  then have "epoch_ok (wr_current w) (wr_active w') e ((epoch_at w e)\<lparr>ep_running := None, ep_inFlight := False\<rparr>)"
    using cur r by (simp add: epoch_ok_def current_ok_def open_batches_def)
  then show ?thesis using cur f by (intro touch_ok [OF ok e f(1)]) simp_all
qed

lemma flush_stale_ok:
  assumes ok: "writer_ok w" and e: "e < length (wr_epochs w)" and r: "ep_running (epoch_at w e) = Some (RunFlush k target)"
    and stale: "\<not> isCurrentEpoch e (ep_workspaceId (epoch_at w e)) (landed e w)"
  shows "writer_ok (report i out (landed e w))"
proof -
  let ?p = "(epoch_at w e)\<lparr>ep_running := None\<rparr>"
  have ep: "epoch_ok (wr_current w) (wr_active w) e (epoch_at w e)" by (rule the_epoch_ok [OF ok e])
  have "wr_current w \<noteq> Some e"
  proof
    assume c: "wr_current w = Some e"
    then obtain a where "wr_active w = Some a" "current_ok a (epoch_at w e)" using ep by (auto simp: epoch_ok_def split: option.splits)
    then show False using stale c e by (simp add: isCurrentEpoch_def current_ok_def)
  qed
  then have "epoch_ok (wr_current w) (wr_active w) e ?p" using ep r by (simp add: epoch_ok_def open_batches_def)
  then show ?thesis using e by (intro touch_ok [OF ok e, of _ ?p]) simp_all
qed

lemma flush_failed_ok:
  assumes ok: "writer_ok w" and e: "e < length (wr_epochs w)" and r: "ep_running (epoch_at w e) = Some (RunFlush k target)"
  shows "writer_ok (flush_failed e k err (landed e w))"
proof (cases "isCurrentEpoch e (ep_workspaceId (epoch_at w e)) (landed e w)")
  case False
  then show ?thesis using flush_stale_ok [OF ok e r] e by (simp add: flush_failed_def)
next
  case True
  then obtain a where a: "wr_current w = Some e" "wr_active w = Some a" by (auto simp: isCurrentEpoch_def)
  show ?thesis
    by (rule flush_end_ok [OF ok e r _ _ _ a, where b = "a\<lparr>av_saveHealth := if isWorkspaceReadOnlyError err then ''readOnly'' else ''degraded''\<rparr>"])
      (use True a e in \<open>simp_all add: flush_failed_def Let_def\<close>)
qed

lemma applyFlushResponse_Inr:
  assumes "applyFlushResponse response target queued w = Inr v"
  shows "\<exists>n h. av_revision (the (wr_active w)) \<le> n \<and> v = wr_setSaveHealth (if h = ''clean'' \<and> 0 < queued then ''pending'' else h)
    (w\<lparr>wr_active := Some ((the (wr_active w))\<lparr>av_revision := n\<rparr>)\<rparr>)"
proof -
  obtain n where n: "validateRevision (jget ''committedRevision'' response) ''committedRevision'' = Inr n" "\<not> n < av_revision (the (wr_active w))"
    "\<not> n < target"
    using assms by (auto simp: applyFlushResponse_def bind_ok_eq_Inr Let_def split: if_splits)
  obtain h where h: "jget ''saveHealth'' response = JString h"
    using assms n by (cases "jget ''saveHealth'' response") (simp_all add: applyFlushResponse_def Let_def)
  have "h \<in> set SAVE_HEALTHS" using assms n h by (simp add: applyFlushResponse_def Let_def split: if_splits)
  then show ?thesis using assms n h by (intro exI [of _ n] exI [of _ h]) (simp add: applyFlushResponse_def Let_def)
qed

lemma applyFlush_same: "applyFlushResponse response target queued w = Inr v \<Longrightarrow> wr_epochs v = wr_epochs w \<and> wr_requests v = wr_requests w \<and>
    wr_outcomes v = wr_outcomes w \<and> wr_calls v = wr_calls w"
  by (drule applyFlushResponse_Inr) auto

lemma flush_answered_ok:
  assumes ok: "writer_ok w" and e: "e < length (wr_epochs w)" and r: "ep_running (epoch_at w e) = Some (RunFlush k target)"
  shows "writer_ok (flush_answered e k target response (landed e w))"
proof (cases "isCurrentEpoch e (ep_workspaceId (epoch_at w e)) (landed e w)")
  case False
  then show ?thesis using flush_stale_ok [OF ok e r] e by (simp add: flush_answered_def)
next
  case True
  then obtain a where a: "wr_current w = Some e" "wr_active w = Some a" by (auto simp: isCurrentEpoch_def)
  show ?thesis
  proof (cases "applyFlushResponse response target (ep_pending (epoch_at w e)) (landed e w)")
    case (Inl x)
    then have "flush_answered e k target response (landed e w) = flush_failed e k own_error (landed e w)"
      using True e by (simp add: flush_answered_def)
    then show ?thesis using flush_failed_ok [OF ok e r] by simp
  next
    case (Inr v)
    obtain n h where v: "v = wr_setSaveHealth (if h = ''clean'' \<and> 0 < ep_pending (epoch_at w e) then ''pending'' else h)
        ((landed e w)\<lparr>wr_active := Some (a\<lparr>av_revision := n\<rparr>)\<rparr>)"
      using applyFlushResponse_Inr [OF Inr] a by auto
    show ?thesis
      by (rule flush_end_ok [OF ok e r _ _ _ a, where b = "a\<lparr>av_revision := n, av_saveHealth := if h = ''clean'' \<and> 0 < ep_pending (epoch_at w e) then ''pending'' else h\<rparr>"])
        (use True a e Inr v in \<open>simp_all add: flush_answered_def Let_def\<close>)
  qed
qed

lemma settle_ok: "writer_ok w \<Longrightarrow> writer_ok (wr_settle e r w)"
  using batch_failed_ok batch_answered_ok flush_failed_ok flush_answered_ok
  by (auto simp: wr_settle_def Let_def not_le split: option.split in_flight.split settlement.split)

interpretation wrm: invariant_machine "runs_by wr_step" "\<lambda>w. w = new_writer" writer_ok
proof
  fix s e s'
  show "writer_ok s" if "s = new_writer" using that by (simp add: writer_ok_def new_writer_def)
  show "writer_ok s'" if "writer_ok s" "runs_by wr_step s e s'"
    using that wr_activate_ok deleted_ok catalog_ok commit_ok flush_ok start_ok settle_ok
    by (cases e) (auto simp: runs_by_def split: option.split)
qed

lemma writer_run_ok: "writer_ok (run_events wr_step es new_writer)"
  by (rule wrm.reachable_inv [OF refl reaches_runs_by])


section \<open>What it gives\<close>

text \<open>C20. The active document is what the commits made of it.  Whatever is activated, deleted, written, answered or refused, in
  any order: there is a current epoch exactly when there is an active document, it is the last one opened and belongs to that
  workspace, and the document, apart from its revision and health, is the header it was opened with after the mutations
  committed in that epoch, in their order.\<close>

theorem document_is_replay:
  "let w = run_events wr_step es new_writer
   in (case wr_current w of
         None \<Rightarrow> wr_active w = None
       | Some e \<Rightarrow>
           Suc e = length (wr_epochs w) \<and>
           (case wr_active w of
              None \<Rightarrow> False
            | Some a \<Rightarrow>
                av_workspaceId a = ep_workspaceId (epoch_at w e) \<and>
                apply_mutations (ep_committed (epoch_at w e)) (doc_part (ep_opened (epoch_at w e))) = Inr (doc_part a)))"
proof -
  define w where "w = run_events wr_step es new_writer"
  have ok: "writer_ok w" unfolding w_def by (rule writer_run_ok)
  show ?thesis
  proof (cases "wr_current w")
    case None
    then show ?thesis using ok by (simp add: w_def [symmetric] writer_ok_def)
  next
    case (Some e)
    then obtain a where "wr_active w = Some a" "current_ok a (epoch_at w e)" using current_facts [OF ok Some] by metis
    then show ?thesis using Some ok by (simp add: w_def [symmetric] writer_ok_def current_ok_def)
  qed
qed

lemma read_only_keeps:
  assumes ok: "writer_ok w" and ro: "read_only w"
  shows "case ev of WrActivate h p \<Rightarrow> True | WrDeleted i \<Rightarrow> True
    | _ \<Rightarrow> wr_requests (wr_step ev w) = wr_requests w \<and> wr_active (wr_step ev w) = wr_active w"
proof -
  obtain a where a: "wr_active w = Some a" "av_saveHealth a = ''readOnly''" using ro by (auto simp: read_only_def split: option.splits)
  then obtain e where e: "wr_current w = Some e" using ok by (auto simp: writer_ok_def)
  have cur: "e < length (wr_epochs w)" "current_ok a (epoch_at w e)" using current_facts [OF ok e] a(1) by (metis option.inject)+
  have idle: "ep_running (epoch_at w e) = None" using cur a(2) by (auto simp: current_ok_def split: option.splits)
  have ref: "refusal (new_call w) \<noteq> None" using a refusal_None [of "new_call w"] by auto
  have same: "a\<lparr>av_saveHealth := ''readOnly''\<rparr> = a" using a(2) by simp
  have start: "wr_requests (wr_start d w) = wr_requests w \<and> wr_active (wr_start d w) = wr_active w" for d
  proof (cases "d = e \<and> ep_queue (epoch_at w e) \<noteq> []")
    case True
    then obtain j rest where q: "ep_queue (epoch_at w e) = j # rest" by (cases "ep_queue (epoch_at w e)") auto
    have jw: "case j of JobBatch t \<Rightarrow> tk_workspaceId t = av_workspaceId a | JobFlush k \<Rightarrow> True"
      using cur(2) q by (auto simp: current_ok_def job_of_def split: job.splits)
    have alive: "av_workspaceId a = ep_workspaceId (epoch_at w e)" "\<not> ep_aborted (epoch_at w e)" using cur(2) by (simp_all add: current_ok_def)
    show ?thesis
    proof (cases j)
      case (JobBatch t)
      then show ?thesis using True q idle cur(1) a e jw alive same
        by (simp add: wr_start_def executeBatch_def isCurrentEpoch_def read_only_def finish_active finished_health_def)
    next
      case (JobFlush k)
      then show ?thesis using True q idle cur(1) a e alive
        by (simp add: wr_start_def executeFlush_def isCurrentEpoch_def read_only_def)
    qed
  next
    case False
    then consider "wr_current w \<noteq> Some d" | "d = e" "ep_queue (epoch_at w e) = []" using e by auto
    then show ?thesis
    proof cases
      case 1
      then show ?thesis using stale_start [of w d] by (simp add: unchanged_def)
    next
      case 2
      then show ?thesis by (simp add: wr_start_def)
    qed
  qed
  have settle: "wr_requests (wr_settle d r w) = wr_requests w \<and> wr_active (wr_settle d r w) = wr_active w" for d r
  proof (cases "d = e")
    case True
    then show ?thesis using idle by (simp add: wr_settle_def)
  next
    case False
    then show ?thesis using stale_settle [of w d r] e by (auto simp: unchanged_def)
  qed
  show ?thesis using start settle ref
    by (cases ev) (auto simp: commitBatch_def wr_flush_def catalog_loaded_def Let_def split: option.split)
qed

text \<open>C22. The save health tells the truth.  After any events, the batches an epoch counts as pending are exactly those that wait or are
  in flight; while a write of the current epoch is in flight the document is marked as saving, against the revision the write
  was based on; with a batch pending it is never marked clean; and once it is read-only, no call, no write that starts and no
  answer sends another request or changes the document, until a workspace is activated or the project is deleted.\<close>

theorem save_health_is_honest:
  "let w = run_events wr_step es new_writer
   in list_all (\<lambda>p. ep_pending p = open_batches p) (wr_epochs w) \<and>
      (case (wr_current w, wr_active w) of
         (Some e, Some a) \<Rightarrow>
           (case ep_running (epoch_at w e) of
              None \<Rightarrow> True
            | Some r \<Rightarrow> av_saveHealth a = ''saving'' \<and> flight_of (ep_workspaceId (epoch_at w e)) (av_revision a) r) \<and>
           (if 0 < open_batches (epoch_at w e) then av_saveHealth a \<noteq> ''clean'' else True)
       | _ \<Rightarrow> True) \<and>
      (if read_only w
       then (case ev of
               WrActivate h p \<Rightarrow> True
             | WrDeleted i \<Rightarrow> True
             | _ \<Rightarrow> wr_requests (wr_step ev w) = wr_requests w \<and> wr_active (wr_step ev w) = wr_active w)
       else True)"
proof -
  define w where "w = run_events wr_step es new_writer"
  have ok: "writer_ok w" unfolding w_def by (rule writer_run_ok)
  have counts: "list_all (\<lambda>p. ep_pending p = open_batches p) (wr_epochs w)"
    using ok by (auto simp: writer_ok_def epoch_ok_def list_all_length)
  have cur: "(case ep_running (epoch_at w e) of None \<Rightarrow> True
        | Some r \<Rightarrow> av_saveHealth a = ''saving'' \<and> flight_of (ep_workspaceId (epoch_at w e)) (av_revision a) r) \<and>
      (if 0 < open_batches (epoch_at w e) then av_saveHealth a \<noteq> ''clean'' else True)"
    if c: "wr_current w = Some e" "wr_active w = Some a" for e a
  proof -
    have "current_ok a (epoch_at w e)" "ep_pending (epoch_at w e) = open_batches (epoch_at w e)"
      using current_facts [OF ok c(1)] c(2) by (metis option.inject)+
    then show ?thesis by (auto simp: current_ok_def split: option.splits)
  qed
  show ?thesis unfolding Let_def w_def [symmetric]
    using counts cur read_only_keeps [OF ok, of ev] by (cases "wr_current w"; cases "wr_active w") simp_all
qed

text \<open>C21. Writes of a workspace that was left cannot touch the one that is open.  After any events, whenever a queued write of an epoch that
  is not the current one starts, or its request is answered, with whatever answer, the document, the list of projects and the
  current epoch stay as they are, nothing is sent, and the only outcome it can report is that it is stale; and an epoch that was left
  never becomes current again.\<close>

theorem stale_writes_change_nothing:
  "let w = run_events wr_step es new_writer
   in (if wr_current w = Some e then True else unchanged w (wr_start e w) \<and> unchanged w (wr_settle e r w)) \<and>
      (if Suc e < length (wr_epochs w) then wr_current (run_events wr_step es' w) \<noteq> Some e else True)"
proof -
  define w where "w = run_events wr_step es new_writer"
  have grow: "length (wr_epochs v) \<le> length (wr_epochs (wr_step ev v))" for v ev
  proof (cases ev)
    case (WrSettle d x)
    then show ?thesis
      by (auto simp: wr_settle_def write_defs Let_def applyFlush_same split: option.split in_flight.split settlement.split sum.split)
  qed (auto simp: activateHeader_def beginEpoch_def workspace_deleted_def clearEpoch_def catalog_loaded_def commitBatch_def wr_flush_def wr_start_def
      write_defs Let_def split: option.split sum.split list.split job.split)
  have run_grow: "length (wr_epochs v) \<le> length (wr_epochs (run_events wr_step xs v))" for v xs
    by (induction xs arbitrary: v) (auto intro: order_trans [OF grow])
  have "writer_ok (run_events wr_step es' w)" using writer_run_ok [of "es @ es'"] by (simp add: w_def run_events_append)
  then have "Suc e < length (wr_epochs w) \<Longrightarrow> wr_current (run_events wr_step es' w) \<noteq> Some e"
    using run_grow [of w es'] by (auto simp: writer_ok_def)
  then show ?thesis unfolding Let_def w_def [symmetric] using stale_start [of w e] stale_settle [of w e r] by simp
qed

end
