(* ===== verification/WriteOrder.thy ===== *)
theory WriteOrder
  imports WriteRuns
begin

text \<open>
  The order of writes and their answers: mutations are numbered, sent and committed in the order of the calls, and every call is
  answered exactly once.
\<close>

section \<open>One write\<close>

definition job_number :: "job \<Rightarrow> nat" where
  "job_number j = (case j of JobBatch t \<Rightarrow> tk_number t | JobFlush k \<Rightarrow> k)"

definition job_mutations :: "job \<Rightarrow> mutation list" where
  "job_mutations j = (case j of JobBatch t \<Rightarrow> tk_mutations t | JobFlush k \<Rightarrow> [])"

definition run_number :: "in_flight \<Rightarrow> nat" where
  "run_number r = (case r of RunBatch t n \<Rightarrow> tk_number t | RunFlush k n \<Rightarrow> k)"

definition run_mutations :: "in_flight \<Rightarrow> mutation list" where
  "run_mutations r = (case r of RunBatch t n \<Rightarrow> tk_mutations t | RunFlush k n \<Rightarrow> [])"

definition request_mutations :: "nat \<Rightarrow> write_request \<Rightarrow> mutation list" where
  "request_mutations e r = (case r of ApplyBatch d i b n ms \<Rightarrow> if d = e then ms else [] | FlushTo d i n \<Rightarrow> [])"

lemmas write_parts = job_number_def job_mutations_def run_number_def run_mutations_def request_mutations_def

text \<open>Starting the next write of an epoch, and the end of the one in flight.\<close>

lemma start_summary:
  assumes "e < length (wr_epochs w)" "ep_running (epoch_at w e) = None" "ep_queue (epoch_at w e) = j # rest"
  shows "let p = epoch_at (wr_start e w) e in wr_epochs (wr_start e w) = (wr_epochs w)[e := p] \<and> ep_queue p = rest \<and> ep_committed p = ep_committed (epoch_at w e) \<and>
    ep_sequence p = ep_sequence (epoch_at w e) \<and> wr_calls (wr_start e w) = wr_calls w \<and>
    (case ep_running p of
       None \<Rightarrow> wr_requests (wr_start e w) = wr_requests w \<and> (\<exists>out. wr_outcomes (wr_start e w) = wr_outcomes w @ [(job_number j, out)])
     | Some r \<Rightarrow> run_number r = job_number j \<and> run_mutations r = job_mutations j \<and> wr_outcomes (wr_start e w) = wr_outcomes w \<and>
         (\<exists>req. wr_requests (wr_start e w) = wr_requests w @ [req] \<and> request_mutations e req = job_mutations j \<and>
            (\<forall>d. d \<noteq> e \<longrightarrow> request_mutations d req = [])))"
proof (cases j)
  case (JobBatch t)
  then show ?thesis using assms by (simp add: wr_start_def executeBatch_def Let_def finished_def write_parts)
next
  case (JobFlush k)
  then show ?thesis using assms by (simp add: wr_start_def executeFlush_def Let_def write_parts)
qed

definition landing :: "nat \<Rightarrow> in_flight \<Rightarrow> writer \<Rightarrow> writer \<Rightarrow> bool" where
  "landing e r w w' \<longleftrightarrow>
     (let p = epoch_at w' e in wr_epochs w' = (wr_epochs w)[e := p] \<and> ep_queue p = ep_queue (epoch_at w e) \<and> ep_running p = None \<and>
        ep_sequence p = ep_sequence (epoch_at w e) \<and> wr_calls w' = wr_calls w \<and> wr_requests w' = wr_requests w \<and>
        (\<exists>out. wr_outcomes w' = wr_outcomes w @ [(run_number r, out)]) \<and>
        (ep_committed p = ep_committed (epoch_at w e) \<or> ep_committed p = ep_committed (epoch_at w e) @ run_mutations r))"

lemma batch_failed_lands: "e < length (wr_epochs w) \<Longrightarrow> landing e (RunBatch t n) w (batch_failed e t err (landed e w))"
  by (simp add: landing_def batch_failed_def Let_def finished_def write_parts)

lemma batch_answered_lands:
  assumes "e < length (wr_epochs w)"
  shows "landing e (RunBatch t n) w (batch_answered e t n resp (landed e w))"
proof (cases "isCurrentEpoch e (tk_workspaceId t) (landed e w)")
  case False
  then show ?thesis using batch_failed_lands [OF assms, of t n own_error] by (simp add: batch_answered_def batch_failed_def)
next
  case True
  then show ?thesis
  proof (cases "committed_document t n resp (the (wr_active (landed e w)))")
    case (Inl x)
    then show ?thesis using batch_failed_lands [OF assms, of t n own_error] True by (simp add: batch_answered_def)
  next
    case (Inr d)
    then show ?thesis using True assms by (simp add: landing_def batch_answered_def Let_def finished_def write_parts)
  qed
qed

lemma flush_failed_lands: "e < length (wr_epochs w) \<Longrightarrow> landing e (RunFlush k n) w (flush_failed e k err (landed e w))"
  by (simp add: landing_def flush_failed_def Let_def write_parts)

lemma flush_answered_lands:
  assumes "e < length (wr_epochs w)"
  shows "landing e (RunFlush k n) w (flush_answered e k n resp (landed e w))"
proof (cases "isCurrentEpoch e (ep_workspaceId (epoch_at (landed e w) e)) (landed e w)")
  case False
  then show ?thesis using flush_failed_lands [OF assms, of k n own_error] by (simp add: flush_answered_def flush_failed_def)
next
  case True
  then show ?thesis
  proof (cases "applyFlushResponse resp n (ep_pending (epoch_at (landed e w) e)) (landed e w)")
    case (Inl x)
    then show ?thesis using flush_failed_lands [OF assms, of k n own_error] True by (simp add: flush_answered_def)
  next
    case (Inr v)
    then show ?thesis using True assms applyFlush_same [OF Inr] by (simp add: landing_def flush_answered_def Let_def write_parts)
  qed
qed

lemma settle_summary:
  assumes "e < length (wr_epochs w)" "ep_running (epoch_at w e) = Some r"
  shows "landing e r w (wr_settle e x w)"
  using assms batch_failed_lands batch_answered_lands flush_failed_lands flush_answered_lands
  by (simp add: wr_settle_def Let_def split: in_flight.split settlement.split)

lemma start_idle: "\<not> (e < length (wr_epochs w) \<and> ep_running (epoch_at w e) = None \<and> ep_queue (epoch_at w e) \<noteq> []) \<Longrightarrow> wr_start e w = w"
  by (auto simp: wr_start_def split: list.split)

lemma settle_idle: "\<not> (e < length (wr_epochs w) \<and> ep_running (epoch_at w e) \<noteq> None) \<Longrightarrow> wr_settle e x w = w"
  by (auto simp: wr_settle_def)

section \<open>Every call is answered\<close>

text \<open>The numbers of the writes an epoch still owes an outcome for, in the order it will give them.\<close>

definition owed :: "write_epoch \<Rightarrow> nat list" where
  "owed p = (case ep_running p of None \<Rightarrow> [] | Some r \<Rightarrow> [run_number r]) @ map job_number (ep_queue p)"

definition rounds :: "nat \<Rightarrow> settlement list \<Rightarrow> writer_event list" where
  "rounds e rs = concat (map (\<lambda>r. [WrStart e, WrSettle e r]) rs)"

lemma one_round:
  assumes "e < length (wr_epochs w)"
  shows "\<exists>p. wr_epochs (wr_settle e r (wr_start e w)) = (wr_epochs w)[e := p] \<and> owed p = tl (owed (epoch_at w e)) \<and>
    map fst (wr_outcomes (wr_settle e r (wr_start e w))) = map fst (wr_outcomes w) @ take 1 (owed (epoch_at w e))"
proof (cases "ep_running (epoch_at w e)")
  case (Some run)
  then have "wr_start e w = w" by (simp add: start_idle)
  then show ?thesis using settle_summary [OF assms Some, of r] Some by (auto simp: landing_def Let_def owed_def)
next
  case None
  show ?thesis
  proof (cases "ep_queue (epoch_at w e)")
    case Nil
    then have "wr_start e w = w" "wr_settle e r w = w" using None by (simp_all add: start_idle settle_idle)
    then show ?thesis using None Nil by (intro exI [of _ "epoch_at w e"]) (simp add: owed_def)
  next
    case (Cons j rest)
    obtain p where p: "wr_epochs (wr_start e w) = (wr_epochs w)[e := p]" "ep_queue p = rest"
      "case ep_running p of None \<Rightarrow> \<exists>out. wr_outcomes (wr_start e w) = wr_outcomes w @ [(job_number j, out)]
        | Some r \<Rightarrow> run_number r = job_number j \<and> wr_outcomes (wr_start e w) = wr_outcomes w"
      using start_summary [OF assms None Cons] by (auto simp: Let_def split: option.splits)
    have e: "e < length (wr_epochs (wr_start e w))" using p assms by simp
    show ?thesis
    proof (cases "ep_running p")
      case None
      then have "wr_settle e r (wr_start e w) = wr_start e w" using p e assms by (intro settle_idle) simp
      then show ?thesis using p None Cons \<open>ep_running (epoch_at w e) = None\<close> by (auto simp: owed_def)
    next
      case (Some run)
      then have "ep_running (epoch_at (wr_start e w) e) = Some run" using p assms by simp
      then show ?thesis using settle_summary [OF e, of run r] p Some Cons assms \<open>ep_running (epoch_at w e) = None\<close>
        by (auto simp: landing_def Let_def owed_def)
    qed
  qed
qed

lemma all_rounds:
  "e < length (wr_epochs w) \<Longrightarrow> length (owed (epoch_at w e)) \<le> length rs \<Longrightarrow>
     owed (epoch_at (run_events wr_step (rounds e rs) w) e) = [] \<and>
     map fst (wr_outcomes (run_events wr_step (rounds e rs) w)) = map fst (wr_outcomes w) @ owed (epoch_at w e)"
proof (induction rs arbitrary: w)
  case (Cons r rs)
  let ?v = "wr_settle e r (wr_start e w)"
  obtain p where p: "wr_epochs ?v = (wr_epochs w)[e := p]" "owed p = tl (owed (epoch_at w e))"
    "map fst (wr_outcomes ?v) = map fst (wr_outcomes w) @ take 1 (owed (epoch_at w e))"
    using one_round [OF Cons.prems(1)] by blast
  have "owed (epoch_at ?v e) = tl (owed (epoch_at w e))" "e < length (wr_epochs ?v)" using p Cons.prems(1) by simp_all
  moreover have "run_events wr_step (rounds e (r # rs)) w = run_events wr_step (rounds e rs) ?v" by (simp add: rounds_def)
  ultimately show ?case using Cons.IH [of ?v] Cons.prems(2) p(3)
    by (cases "owed (epoch_at w e)") simp_all
qed (simp add: rounds_def)

definition answered_once :: "writer \<Rightarrow> bool" where
  "answered_once w \<longleftrightarrow> mset (map fst (wr_outcomes w)) + sum_list (map (\<lambda>p. mset (owed p)) (wr_epochs w)) = mset [0..<wr_calls w]"



lemma sum_list_replace:
  "e < length xs \<Longrightarrow> sum_list (map f (xs[e := y])) + f (xs ! e) = sum_list (map f xs) + (f y :: 'a multiset)"
proof (induction xs arbitrary: e)
  case (Cons x xs)
  then show ?case by (cases e) (simp_all add: ac_simps)
qed simp

lemma answered_update:
  assumes "answered_once w" "e < length (wr_epochs w)" "wr_epochs w' = (wr_epochs w)[e := p]"
    "mset (map fst (wr_outcomes w')) + mset (owed p) + mset [0..<wr_calls w] = mset (map fst (wr_outcomes w)) + mset (owed (epoch_at w e)) + mset [0..<wr_calls w']"
  shows "answered_once w'"
proof -
  let ?S = "\<lambda>v. sum_list (map (\<lambda>p. mset (owed p)) (wr_epochs v))"
  have "?S w' + mset (owed (epoch_at w e)) = ?S w + mset (owed p)"
    unfolding assms(3) by (rule sum_list_replace [OF assms(2)])
  moreover have "mset (map fst (wr_outcomes w)) + ?S w = mset [0..<wr_calls w]" using assms(1) by (simp add: answered_once_def)
  ultimately have "mset (map fst (wr_outcomes w')) + ?S w' + (mset (owed p) + mset (owed (epoch_at w e)) + mset [0..<wr_calls w]) =
      mset [0..<wr_calls w'] + (mset (owed p) + mset (owed (epoch_at w e)) + mset [0..<wr_calls w])"
    using assms(4) by (smt (verit) union_assoc union_commute)
  then show ?thesis by (simp add: answered_once_def)
qed

lemma aborted_map: "(\<And>p b. f (p\<lparr>ep_aborted := b\<rparr>) = f p) \<Longrightarrow> map f (wr_epochs (abort_current w)) = map f (wr_epochs w)"
proof (cases "wr_current w")
  case (Some e)
  assume f: "\<And>p b. f (p\<lparr>ep_aborted := b\<rparr>) = f p"
  have "map f (wr_epochs (abort_current w)) = (map f (wr_epochs w))[e := f (epoch_at w e)]"
    using Some by (simp add: abort_current_def map_update f)
  also have "\<dots> = map f (wr_epochs w)" by (cases "e < length (wr_epochs w)") (simp_all add: list_update_same_conv list_update_beyond)
  finally show ?thesis .
qed (simp add: abort_current_def)

lemma aborted_owed [simp]: "owed (p\<lparr>ep_aborted := b\<rparr>) = owed p"
  by (simp add: owed_def)

lemma start_answered: "answered_once w \<Longrightarrow> answered_once (wr_start e w)"
proof (cases "e < length (wr_epochs w) \<and> ep_running (epoch_at w e) = None \<and> ep_queue (epoch_at w e) \<noteq> []")
  case True
  assume ok: "answered_once w"
  obtain j rest where q: "ep_queue (epoch_at w e) = j # rest" using True by (cases "ep_queue (epoch_at w e)") auto
  show ?thesis using True start_summary [of e w j rest] q
    by (intro answered_update [OF ok, of e _ "epoch_at (wr_start e w) e"]) (auto simp: Let_def owed_def split: option.splits)
qed (simp add: start_idle)

lemma settle_answered: "answered_once w \<Longrightarrow> answered_once (wr_settle e x w)"
proof (cases "e < length (wr_epochs w) \<and> ep_running (epoch_at w e) \<noteq> None")
  case True
  assume ok: "answered_once w"
  obtain r where r: "ep_running (epoch_at w e) = Some r" using True by auto
  show ?thesis using True settle_summary [of e w r x] r
    by (intro answered_update [OF ok, of e _ "epoch_at (wr_settle e x w) e"]) (auto simp: Let_def owed_def landing_def)
qed (simp add: settle_idle)

text \<open>What a call to \<open>commitBatch\<close> or \<open>flush\<close> does: it is refused at once, or its write joins the queue of the current epoch.\<close>

definition joins :: "nat \<Rightarrow> job \<Rightarrow> writer \<Rightarrow> writer \<Rightarrow> bool" where
  "joins e j w w' \<longleftrightarrow>
     (let p = epoch_at w' e in e < length (wr_epochs w) \<and> wr_epochs w' = (wr_epochs w)[e := p] \<and> ep_queue p = ep_queue (epoch_at w e) @ [j] \<and>
        ep_running p = ep_running (epoch_at w e) \<and> ep_committed p = ep_committed (epoch_at w e) \<and> wr_requests w' = wr_requests w \<and>
        wr_outcomes w' = wr_outcomes w \<and> wr_calls w' = Suc (wr_calls w) \<and> job_number j = wr_calls w \<and>
        ep_sequence p = ep_sequence (epoch_at w e) + length (job_mutations j) \<and>
        (job_mutations j = [] \<or> (\<exists>cs. sequenced cs (int (ep_sequence (epoch_at w e))) = Inr (job_mutations j))))"

definition refused :: "writer \<Rightarrow> writer \<Rightarrow> bool" where
  "refused w w' \<longleftrightarrow> wr_epochs w' = wr_epochs w \<and> wr_requests w' = wr_requests w \<and> wr_calls w' = Suc (wr_calls w) \<and>
     (\<exists>out. wr_outcomes w' = wr_outcomes w @ [(wr_calls w, out)])"

lemma commit_cases:
  assumes ok: "writer_ok w"
  shows "refused w (commitBatch cs b w) \<or> (\<exists>e j. joins e j w (commitBatch cs b w))"
proof (cases "refusal (new_call w)")
  case (Some out)
  then show ?thesis by (simp add: commitBatch_def Let_def refused_def)
next
  case None
  then obtain a e where a: "wr_active w = Some a" "wr_current w = Some e" using refusal_None [of "new_call w"] by auto
  have e: "e < length (wr_epochs w)" using current_facts [OF ok a(2)] by metis
  let ?s = "sequenced cs (int (ep_sequence (epoch_at w e)))"
  show ?thesis
  proof (cases "cs = [] \<or> b = None \<or> (\<exists>x. ?s = Inl x)")
    case True
    then have "refused w (commitBatch cs b w)"
      using None a by (auto simp: commitBatch_def Let_def refused_def split: sum.split)
    then show ?thesis ..
  next
    case False
    then obtain bid ms where b: "cs \<noteq> []" "b = Some bid" "?s = Inr ms" by (cases ?s) auto
    have "joins e (JobBatch \<lparr>tk_workspaceId = av_workspaceId a, tk_mutations = ms, tk_clientBatchId = bid, tk_number = wr_calls w\<rparr>) w (commitBatch cs b w)"
      using None a b e by (auto simp: commitBatch_def Let_def joins_def write_parts)
    then show ?thesis by blast
  qed
qed

lemma flush_cases:
  assumes ok: "writer_ok w"
  shows "refused w (wr_flush w) \<or> (\<exists>e j. joins e j w (wr_flush w))"
proof (cases "refusal (new_call w)")
  case (Some out)
  then show ?thesis by (simp add: wr_flush_def Let_def refused_def)
next
  case None
  then obtain a e where a: "wr_active w = Some a" "wr_current w = Some e" using refusal_None [of "new_call w"] by auto
  have e: "e < length (wr_epochs w)" using current_facts [OF ok a(2)] by metis
  then have "joins e (JobFlush (wr_calls w)) w (wr_flush w)"
    using None a by (simp add: wr_flush_def Let_def joins_def write_parts)
  then show ?thesis by blast
qed

lemma refused_answered: "answered_once w \<Longrightarrow> refused w w' \<Longrightarrow> answered_once w'"
  by (auto simp: answered_once_def refused_def)

lemma joins_answered: "answered_once w \<Longrightarrow> joins e j w w' \<Longrightarrow> answered_once w'"
  by (rule answered_update [of w e w' "epoch_at w' e"]) (auto simp: joins_def Let_def owed_def split: option.split)

section \<open>Activation, removal, catalog\<close>

text \<open>These leave the epochs as they are, but for the abortion of the current one, and may open a new one.\<close>

definition reopened :: "writer \<Rightarrow> writer \<Rightarrow> bool" where
  "reopened w w' \<longleftrightarrow> wr_requests w' = wr_requests w \<and> wr_outcomes w' = wr_outcomes w \<and> wr_calls w' = wr_calls w \<and>
     (wr_epochs w' = wr_epochs w \<or> wr_epochs w' = wr_epochs (abort_current w) \<or> (\<exists>n h. wr_epochs w' = wr_epochs (abort_current w) @ [new_epoch n h]))"

lemma activate_reopens: "activateHeader h s w = Some w' \<Longrightarrow> reopened w w'"
  by (simp add: activateHeader_def beginEpoch_def Let_def reopened_def split: if_splits) (auto, metis)

lemma abort_ignores [simp]: "wr_epochs (abort_current (w\<lparr>wr_active := a, wr_catalogActive := c\<rparr>)) = wr_epochs (abort_current w)"
    "wr_epochs (abort_current (w\<lparr>wr_projects := ps\<rparr>)) = wr_epochs (abort_current w)"
  by (simp_all add: abort_current_def upd_epoch_def split: option.split)

lemma deleted_reopens: "reopened w (workspace_deleted i w)"
  by (simp add: workspace_deleted_def clearEpoch_def Let_def reopened_def)

lemma catalog_reopens: "reopened w (catalog_loaded ps i w)"
  by (simp add: catalog_loaded_def Let_def reopened_def)

lemma new_owed [simp]: "owed (new_epoch n h) = []"
  by (simp add: new_epoch_def owed_def)

lemma reopened_answered: "answered_once w \<Longrightarrow> reopened w w' \<Longrightarrow> answered_once w'"
  using aborted_map [of "\<lambda>p. mset (owed p)" w] by (auto simp: answered_once_def reopened_def)


section \<open>Mutations in order\<close>

lemma sequenced_numbers:
  "sequenced cs n = Inr ms \<Longrightarrow> map mt_sequence ms = map (\<lambda>i. n + int i) [0..<length ms]"
proof (induction cs arbitrary: n ms)
  case (Cons c cs)
  then obtain m ms' where m: "createSequencedMutation c n = Inr m" "sequenced cs (n + 1) = Inr ms'" "ms = m # ms'"
    by (auto simp: bind_ok_eq_Inr)
  have "mt_sequence m = n" using m(1) by (auto simp: createSequencedMutation_def bind_ok_eq_Inr split: if_splits)
  then show ?case using m Cons.IH [OF m(2)] by (simp add: map_upt_Suc del: upt_Suc)
qed simp

text \<open>The mutations sent for an epoch, those in flight, and those that wait.\<close>

definition sent :: "writer \<Rightarrow> nat \<Rightarrow> mutation list" where
  "sent w e = concat (map (request_mutations e) (wr_requests w))"

definition flying :: "write_epoch \<Rightarrow> mutation list" where
  "flying p = (case ep_running p of None \<Rightarrow> [] | Some r \<Rightarrow> run_mutations r)"

definition queued :: "write_epoch \<Rightarrow> mutation list" where
  "queued p = concat (map job_mutations (ep_queue p))"

definition in_order :: "mutation list \<Rightarrow> mutation list \<Rightarrow> mutation list \<Rightarrow> mutation list \<Rightarrow> nat \<Rightarrow> bool" where
  "in_order s q r c n \<longleftrightarrow> sorted_wrt (<) (map mt_sequence (s @ q)) \<and> list_all (\<lambda>m. 0 \<le> mt_sequence m \<and> mt_sequence m < int n) (s @ q) \<and>
     (\<exists>s0. s = s0 @ r \<and> subseq c s0)"

lemma in_order_drop: "in_order s (a @ q) r c n \<Longrightarrow> in_order s q r c n"
  by (auto simp: in_order_def sorted_wrt_append)

lemma in_order_fly: "in_order s (a @ q) [] c n \<Longrightarrow> in_order (s @ a) q a c n"
  by (simp add: in_order_def)

lemma in_order_land: "in_order s q r c n \<Longrightarrow> in_order s q [] c n"
  by (auto simp: in_order_def intro: list_emb_append2 subseq_rev_drop_many)

lemma in_order_commit: "in_order s q r c n \<Longrightarrow> in_order s q [] (c @ r) n"
  by (auto simp: in_order_def intro: list_emb_append_mono)

lemma in_order_add:
  assumes "in_order s q r c n" "map mt_sequence ms = map (\<lambda>i. int n + int i) [0..<length ms]"
  shows "in_order s (q @ ms) r c (n + length ms)"
proof -
  have new: "sorted_wrt (<) (map mt_sequence ms)" unfolding assms(2) by (simp add: sorted_wrt_map sorted_wrt_upt sorted_wrt_mono_rel [OF _ sorted_wrt_upt])
  have bounds: "int n \<le> mt_sequence m \<and> mt_sequence m < int (n + length ms)" if "m \<in> set ms" for m
  proof -
    have "mt_sequence m \<in> set (map mt_sequence ms)" using that by simp
    then show ?thesis unfolding assms(2) by auto
  qed
  have old: "sorted_wrt (<) (map mt_sequence (s @ q))" "list_all (\<lambda>m. 0 \<le> mt_sequence m \<and> mt_sequence m < int n) (s @ q)"
    "\<exists>s0. s = s0 @ r \<and> subseq c s0" using assms(1) by (simp_all only: in_order_def)
  have cross: "mt_sequence x < mt_sequence y" if "x \<in> set (s @ q)" "y \<in> set ms" for x y
  proof -
    have "mt_sequence x < int n" using old(2) that(1) unfolding list_all_iff by blast
    then show ?thesis using bounds [OF that(2)] by simp
  qed
  have "sorted_wrt (<) (map mt_sequence (s @ q) @ map mt_sequence ms)"
    unfolding sorted_wrt_append using old(1) new cross by auto
  then have "sorted_wrt (<) (map mt_sequence (s @ q @ ms))" by simp
  moreover have "list_all (\<lambda>m. 0 \<le> mt_sequence m \<and> mt_sequence m < int (n + length ms)) (s @ q @ ms)"
    unfolding list_all_iff
  proof
    fix m assume "m \<in> set (s @ q @ ms)"
    then consider "m \<in> set (s @ q)" | "m \<in> set ms" by auto
    then show "0 \<le> mt_sequence m \<and> mt_sequence m < int (n + length ms)"
    proof cases
      case 1
      then have "0 \<le> mt_sequence m \<and> mt_sequence m < int n" using old(2) unfolding list_all_iff by blast
      then show ?thesis by simp
    next
      case 2
      have "int n \<le> mt_sequence m \<and> mt_sequence m < int (n + length ms)" by (rule bounds [OF 2])
      then show ?thesis by linarith
    qed
  qed
  ultimately show ?thesis using old(3) by (simp only: in_order_def)
qed

definition epoch_in_order :: "writer \<Rightarrow> nat \<Rightarrow> write_epoch \<Rightarrow> bool" where
  "epoch_in_order w e p \<longleftrightarrow> in_order (sent w e) (queued p) (flying p) (ep_committed p) (ep_sequence p)"

definition writes_ordered :: "writer \<Rightarrow> bool" where
  "writes_ordered w \<longleftrightarrow> (\<forall>e < length (wr_epochs w). epoch_in_order w e (epoch_at w e)) \<and> (\<forall>e \<ge> length (wr_epochs w). sent w e = [])"

lemma ordered_update:
  assumes "writes_ordered w" "e < length (wr_epochs w)" "wr_epochs w' = (wr_epochs w)[e := p]" "epoch_in_order w' e p"
    "\<And>d. d \<noteq> e \<Longrightarrow> sent w' d = sent w d"
  shows "writes_ordered w'"
  using assms by (auto simp: writes_ordered_def epoch_in_order_def nth_list_update)

lemma start_ordered: "writes_ordered w \<Longrightarrow> writes_ordered (wr_start e w)"
proof (cases "e < length (wr_epochs w) \<and> ep_running (epoch_at w e) = None \<and> ep_queue (epoch_at w e) \<noteq> []")
  case True
  assume ok: "writes_ordered w"
  obtain j rest where q: "ep_queue (epoch_at w e) = j # rest" using True by (cases "ep_queue (epoch_at w e)") auto
  let ?w = "wr_start e w" and ?p = "epoch_at (wr_start e w) e"
  have s: "wr_epochs ?w = (wr_epochs w)[e := ?p]" "queued ?p = concat (map job_mutations rest)" "ep_committed ?p = ep_committed (epoch_at w e)"
    "ep_sequence ?p = ep_sequence (epoch_at w e)"
    "(flying ?p = [] \<and> wr_requests ?w = wr_requests w) \<or>
     (flying ?p = job_mutations j \<and> (\<exists>req. wr_requests ?w = wr_requests w @ [req] \<and> request_mutations e req = job_mutations j \<and>
        (\<forall>d. d \<noteq> e \<longrightarrow> request_mutations d req = [])))"
    using True start_summary [of e w j rest] q by (auto simp: Let_def queued_def flying_def split: option.splits)
  have old: "in_order (sent w e) (job_mutations j @ concat (map job_mutations rest)) [] (ep_committed (epoch_at w e)) (ep_sequence (epoch_at w e))"
    using ok True q by (auto simp: writes_ordered_def epoch_in_order_def queued_def flying_def)
  have "epoch_in_order ?w e ?p \<and> (\<forall>d. d \<noteq> e \<longrightarrow> sent ?w d = sent w d)"
    using s(5) in_order_drop [OF old] in_order_fly [OF old] s(2-4) by (auto simp: epoch_in_order_def sent_def)
  then show ?thesis using True by (intro ordered_update [OF ok _ s(1)]) auto
qed (simp add: start_idle)

lemma settle_ordered: "writes_ordered w \<Longrightarrow> writes_ordered (wr_settle e x w)"
proof (cases "e < length (wr_epochs w) \<and> ep_running (epoch_at w e) \<noteq> None")
  case True
  assume ok: "writes_ordered w"
  obtain r where r: "ep_running (epoch_at w e) = Some r" using True by auto
  let ?w = "wr_settle e x w" and ?p = "epoch_at (wr_settle e x w) e"
  have l: "landing e r w ?w" using settle_summary [of e w r x] True r by simp
  then have same: "sent ?w d = sent w d" for d by (simp add: landing_def Let_def sent_def)
  have old: "in_order (sent w e) (queued (epoch_at w e)) (run_mutations r) (ep_committed (epoch_at w e)) (ep_sequence (epoch_at w e))"
    using ok True r by (auto simp: writes_ordered_def epoch_in_order_def flying_def)
  have "epoch_in_order ?w e ?p"
    using l in_order_land [OF old] in_order_commit [OF old] same by (auto simp: landing_def Let_def epoch_in_order_def queued_def flying_def)
  then show ?thesis using True l same by (intro ordered_update [OF ok, of e _ ?p]) (auto simp: landing_def Let_def)
qed (simp add: settle_idle)

lemma refused_ordered: "writes_ordered w \<Longrightarrow> refused w w' \<Longrightarrow> writes_ordered w'"
  by (auto simp: writes_ordered_def refused_def epoch_in_order_def sent_def)

lemma joins_ordered:
  assumes ok: "writes_ordered w" and j: "joins e j w w'"
  shows "writes_ordered w'"
proof -
  let ?p = "epoch_at w' e"
  have f: "e < length (wr_epochs w)" "wr_epochs w' = (wr_epochs w)[e := ?p]" "queued ?p = queued (epoch_at w e) @ job_mutations j"
    "flying ?p = flying (epoch_at w e)" "ep_committed ?p = ep_committed (epoch_at w e)"
    "ep_sequence ?p = ep_sequence (epoch_at w e) + length (job_mutations j)" "wr_requests w' = wr_requests w"
    "job_mutations j = [] \<or> (\<exists>cs. sequenced cs (int (ep_sequence (epoch_at w e))) = Inr (job_mutations j))"
    using j by (auto simp: joins_def Let_def queued_def flying_def)
  have "map mt_sequence (job_mutations j) = map (\<lambda>i. int (ep_sequence (epoch_at w e)) + int i) [0..<length (job_mutations j)]"
    using f(8) sequenced_numbers by auto
  then have "epoch_in_order w' e ?p"
    using ok f in_order_add [of "sent w e" "queued (epoch_at w e)" _ _ _ "job_mutations j"]
    by (simp add: writes_ordered_def epoch_in_order_def sent_def)
  then show ?thesis using f by (intro ordered_update [OF ok f(1,2)]) (simp_all add: sent_def)
qed

lemma aborted_order [simp]: "epoch_in_order w e (p\<lparr>ep_aborted := b\<rparr>) = epoch_in_order w e p"
  by (simp add: epoch_in_order_def queued_def flying_def)

lemma abort_ordered: "e < length (wr_epochs w) \<Longrightarrow> epoch_in_order v e (epoch_at (abort_current w) e) = epoch_in_order v e (epoch_at w e)"
  using abort_epochs [of e w] by auto

lemma reopened_ordered:
  assumes ok: "writes_ordered w" and r: "reopened w w'"
  shows "writes_ordered w'"
proof -
  have same: "sent w' d = sent w d" for d using r by (simp add: reopened_def sent_def)
  then have v: "epoch_in_order w' e p = epoch_in_order w e p" for e p by (simp add: epoch_in_order_def)
  have new: "epoch_in_order w (length (wr_epochs w)) (new_epoch n h)" for n h
    using ok by (simp add: writes_ordered_def epoch_in_order_def new_epoch_def queued_def flying_def in_order_def)
  have old: "epoch_in_order w e (epoch_at w e)" "epoch_in_order w e (epoch_at (abort_current w) e)" if "e < length (wr_epochs w)" for e
    using ok that abort_ordered [OF that, of w] by (simp_all add: writes_ordered_def)
  have none: "sent w e = []" if "length (wr_epochs w) \<le> e" for e using ok that by (simp add: writes_ordered_def)
  consider "wr_epochs w' = wr_epochs w" | "wr_epochs w' = wr_epochs (abort_current w)"
    | n h where "wr_epochs w' = wr_epochs (abort_current w) @ [new_epoch n h]" using r by (auto simp: reopened_def)
  then show ?thesis
  proof cases
    case 3
    have "epoch_in_order w e (epoch_at w' e)" if "e < length (wr_epochs w')" for e
      using 3 that old(2) [of e] new [of n h] by (cases "e = length (wr_epochs w)") (simp_all add: nth_append)
    then show ?thesis using 3 none by (simp add: writes_ordered_def v same)
  qed (use old none in \<open>simp_all add: writes_ordered_def v same\<close>)
qed

definition written_ok :: "writer \<Rightarrow> bool" where
  "written_ok w \<longleftrightarrow> writer_ok w \<and> answered_once w \<and> writes_ordered w"

lemma call_kept:
  "answered_once w \<Longrightarrow> writes_ordered w \<Longrightarrow> refused w w' \<or> (\<exists>e j. joins e j w w') \<Longrightarrow> answered_once w' \<and> writes_ordered w'"
  using refused_answered refused_ordered joins_answered joins_ordered by blast

lemma reopen_kept: "answered_once w \<Longrightarrow> writes_ordered w \<Longrightarrow> reopened w w' \<Longrightarrow> answered_once w' \<and> writes_ordered w'"
  using reopened_answered reopened_ordered by blast

interpretation wro: invariant_machine "runs_by wr_step" "\<lambda>w. w = new_writer" written_ok
proof
  fix s ev s'
  show "written_ok s" if "s = new_writer"
    using that writer_run_ok [of "[]"] by (simp add: written_ok_def answered_once_def writes_ordered_def new_writer_def sent_def)
  show "written_ok s'" if "written_ok s" "runs_by wr_step s ev s'"
  proof -
    have ok: "writer_ok s" "answered_once s" "writes_ordered s" and s': "s' = wr_step ev s" using that by (simp_all add: written_ok_def runs_by_def)
    have "writer_ok s'" using wrm.inv_step [OF ok(1) that(2)] .
    moreover have "answered_once s' \<and> writes_ordered s'"
    proof (cases ev)
      case (WrActivate h p)
      then show ?thesis using ok s' reopen_kept [OF ok(2,3)] activate_reopens [of h p s] by (cases "activateHeader h p s") simp_all
    next
      case (WrDeleted i)
      then show ?thesis using s' reopen_kept [OF ok(2,3) deleted_reopens] by simp
    next
      case (WrCatalog ps a)
      then show ?thesis using s' reopen_kept [OF ok(2,3) catalog_reopens] by simp
    next
      case (WrCommit cs b)
      then show ?thesis using s' call_kept [OF ok(2,3) commit_cases [OF ok(1)]] by simp
    next
      case WrFlush
      then show ?thesis using s' call_kept [OF ok(2,3) flush_cases [OF ok(1)]] by simp
    qed (use ok s' start_answered start_ordered settle_answered settle_ordered in simp_all)
    ultimately show ?thesis by (simp add: written_ok_def)
  qed
qed

lemma written_run_ok: "written_ok (run_events wr_step es new_writer)"
  by (rule wro.reachable_inv [OF refl reaches_runs_by])

text \<open>C23. Mutations are sent and committed in the order of the calls.  After any events, for every epoch: the mutations sent so far
  followed by those that wait carry strictly increasing sequence numbers, all given out by the epoch; a batch is in flight
  only as the last thing sent; and the mutations committed are, in order, among those sent and answered before it.\<close>

theorem writes_go_out_in_order:
  "let w = run_events wr_step es new_writer
   in if e < length (wr_epochs w)
      then
        let p = epoch_at w e; s = sent w e
        in sorted_wrt (<) (map mt_sequence (s @ queued p)) \<and>
           list_all (\<lambda>m. 0 \<le> mt_sequence m \<and> mt_sequence m < int (ep_sequence p)) (s @ queued p) \<and>
           drop (length s - length (flying p)) s = flying p \<and> subseq (ep_committed p) (take (length s - length (flying p)) s)
      else sent w e = []"
proof -
  define w where "w = run_events wr_step es new_writer"
  have "writes_ordered w" using written_run_ok [of es] by (simp add: w_def written_ok_def)
  then show ?thesis unfolding Let_def w_def [symmetric] by (auto simp: writes_ordered_def epoch_in_order_def in_order_def)
qed

text \<open>C24. Every call is answered exactly once.  After any events, the outcomes reported and the writes that the epochs still owe an
  outcome for are together each call exactly once; and an epoch, current or left behind, whose writes start and whose requests
  are answered in any way as often as it owes outcomes, owes none in the end and has reported them in the order of the calls.\<close>

theorem every_call_is_answered:
  "let w = run_events wr_step es new_writer
   in mset (map fst (wr_outcomes w)) + sum_list (map (\<lambda>p. mset (owed p)) (wr_epochs w)) = mset [0..<wr_calls w] \<and>
      (if e < length (wr_epochs w) \<and> length (owed (epoch_at w e)) \<le> length rs
       then
         let w' = run_events wr_step (rounds e rs) w
         in owed (epoch_at w' e) = [] \<and> map fst (wr_outcomes w') = map fst (wr_outcomes w) @ owed (epoch_at w e)
       else True)"
proof -
  define w where "w = run_events wr_step es new_writer"
  have "answered_once w" using written_run_ok [of es] by (simp add: w_def written_ok_def)
  then show ?thesis unfolding Let_def w_def [symmetric] using all_rounds [of e w rs] by (simp add: answered_once_def)
qed

end
