(* ===== verification/FrameAdapter.thy ===== *)
theory FrameAdapter
  imports WorkspaceValidation
begin

text \<open>
  Captured frames on their way into and out of the workspace database,
  \<open>src/features/workspace/adapters/workspace-frame-adapter.ts\<close>: the projection of a frame to the payload that is queued, the
  hydration of a stored frame, and \<open>WorkspaceFrameMutationBuilder\<close>, which collects frames into append mutations under the
  capture limits of a workspace.

  Frames from outside are \<open>json\<close> values; integers that have been checked are \<open>int\<close>.
\<close>

section \<open>Checks\<close>

datatype adapter_error = AdapterInvalid string | AdapterLimit string int int

definition assertLimit :: "string \<Rightarrow> int \<Rightarrow> int \<Rightarrow> adapter_error + unit" where
  "assertLimit field limit actual = (if actual > limit then Inl (AdapterLimit field limit actual) else Inr ())"

definition assertExactKeys :: "json \<Rightarrow> string list \<Rightarrow> string \<Rightarrow> adapter_error + unit" where
  "assertExactKeys v allowed field =
     (case v of
        JObject es \<Rightarrow> if list_ex (\<lambda>(k, x). k \<notin> set allowed) es then Inl (AdapterInvalid field) else Inr ()
      | JTyped bs \<Rightarrow> if bs \<noteq> [] then Inl (AdapterInvalid field) else Inr ()
      | _ \<Rightarrow> Inl (AdapterInvalid field))"

definition validNonNegativeInteger :: "json \<Rightarrow> string \<Rightarrow> adapter_error + int" where
  "validNonNegativeInteger v field =
     (case v of
        JNumber n \<Rightarrow> if \<not> js_safe n \<or> js_floor n < 0 then Inl (AdapterInvalid field) else Inr (js_floor n)
      | _ \<Rightarrow> Inl (AdapterInvalid field))"

definition optionalNonNegativeInteger :: "json \<Rightarrow> string \<Rightarrow> adapter_error + int option" where
  "optionalNonNegativeInteger v field =
     (if v = JUndefined then Inr None else bind_ok (validNonNegativeInteger v field) (\<lambda>n. Inr (Some n)))"

definition validateWorkspaceIdentifier :: "json \<Rightarrow> string \<Rightarrow> adapter_error + string" where
  "validateWorkspaceIdentifier v field =
     (case v of
        JString s \<Rightarrow> (let normalized = trim s in if id_pattern normalized then Inr normalized else Inl (AdapterInvalid field))
      | _ \<Rightarrow> Inl (AdapterInvalid field))"

definition validateDirection :: "json \<Rightarrow> adapter_error + string" where
  "validateDirection v = (if v = JString ''TX'' then Inr ''TX'' else if v = JString ''RX'' then Inr ''RX'' else Inl (AdapterInvalid ''frame.direction''))"

definition validateTxStatus :: "json \<Rightarrow> adapter_error + string option" where
  "validateTxStatus v =
     (if v = JUndefined then Inr None
      else if v = JString ''complete'' then Inr (Some ''complete'')
      else if v = JString ''partial-unknown'' then Inr (Some ''partial-unknown'')
      else Inl (AdapterInvalid ''frame.txStatus''))"

text \<open>The two last checks of both directions.\<close>

definition check_sent :: "int \<Rightarrow> string \<Rightarrow> string option \<Rightarrow> int option \<Rightarrow> adapter_error + unit" where
  "check_sent sz direction txStatus requestedBytes =
     (if (case requestedBytes of None \<Rightarrow> False | Some n \<Rightarrow> n < sz) then Inl (AdapterInvalid ''frame.requestedBytes'')
      else if direction = ''RX'' \<and> (txStatus \<noteq> None \<or> requestedBytes \<noteq> None) then Inl (AdapterInvalid ''frame.txMetadata'')
      else Inr ())"

section \<open>Projection and hydration\<close>

definition frame_keys :: "string list" where
  "frame_keys = [''id'', ''direction'', ''timestamp'', ''data'', ''captureSeq'', ''origin'', ''contentVersion'', ''omittedBytes'', ''txStatus'', ''requestedBytes'']"

definition projectWorkspaceFrame :: "json \<Rightarrow> int \<Rightarrow> adapter_error + queued_payload" where
  "projectWorkspaceFrame frame maxFrameBytes =
     bind_ok (assertExactKeys frame frame_keys ''frame'') (\<lambda>_.
     if maxFrameBytes \<le> 0 \<or> maxFrameBytes > MAX_WORKSPACE_FRAME_BYTES then Inl (AdapterInvalid ''maxFrameBytes'')
     else
       bind_ok (validateWorkspaceIdentifier (jget ''id'' frame) ''frame.id'') (\<lambda>i.
       bind_ok (validateDirection (jget ''direction'' frame)) (\<lambda>direction.
       bind_ok (validNonNegativeInteger (jget ''timestamp'' frame) ''frame.timestamp'') (\<lambda>timestampMs.
       case jget ''data'' frame of
         JTyped bs \<Rightarrow>
           bind_ok (assertLimit ''frameBytes'' maxFrameBytes (int (length bs))) (\<lambda>_.
           bind_ok (validateTxStatus (jget ''txStatus'' frame)) (\<lambda>txStatus.
           bind_ok (optionalNonNegativeInteger (jget ''requestedBytes'' frame) ''frame.requestedBytes'') (\<lambda>requestedBytes.
           bind_ok (optionalNonNegativeInteger (jget ''omittedBytes'' frame) ''frame.omittedBytes'') (\<lambda>omittedBytes.
           bind_ok (check_sent (int (length bs)) direction txStatus requestedBytes) (\<lambda>_.
             Inr \<lparr>qp_id = i, qp_direction = direction, qp_timestampMs = js_int timestampMs, qp_data = bs, qp_txStatus = txStatus,
               qp_requestedBytes = map_option js_int requestedBytes, qp_omittedBytes = map_option js_int omittedBytes\<rparr>)))))
       | _ \<Rightarrow> Inl (AdapterInvalid ''frame.data'')))))"

record data_frame =
  df_id :: string
  df_direction :: string
  df_timestamp :: int
  df_data :: bytes
  df_captureSeq :: int
  df_txStatus :: "string option"
  df_requestedBytes :: "int option"
  df_omittedBytes :: "int option"

definition js_byte :: "json \<Rightarrow> byte option" where
  "js_byte v = (case v of JNumber n \<Rightarrow> if js_isInteger n \<and> 0 \<le> js_floor n \<and> js_floor n \<le> 255 then Some (to_byte (js_floor n)) else None | _ \<Rightarrow> None)"

fun js_bytes :: "json list \<Rightarrow> bytes option" where
  "js_bytes [] = Some []"
| "js_bytes (x # xs) = (case (js_byte x, js_bytes xs) of (Some b, Some bs) \<Rightarrow> Some (b # bs) | _ \<Rightarrow> None)"

definition decodeHydratedFrameData :: "json \<Rightarrow> adapter_error + bytes" where
  "decodeHydratedFrameData frame =
     (case jget ''dataB64'' frame of
        JUndefined \<Rightarrow>
          (case jget ''data'' frame of
             JArray xs \<Rightarrow> (case js_bytes xs of None \<Rightarrow> Inl (AdapterInvalid ''frame.data'') | Some bs \<Rightarrow> Inr bs)
           | _ \<Rightarrow> Inl (AdapterInvalid ''frame.data''))
      | JString s \<Rightarrow>
          if (case jget ''data'' frame of JArray xs \<Rightarrow> xs \<noteq> [] | _ \<Rightarrow> False) then Inl (AdapterInvalid ''frame.data'')
          else (case base64ToBytes s of None \<Rightarrow> Inl (AdapterInvalid ''frame.dataB64'') | Some bs \<Rightarrow> Inr bs)
      | _ \<Rightarrow> Inl (AdapterInvalid ''frame.dataB64''))"

definition stored_keys :: "string list" where
  "stored_keys = [''seq'', ''id'', ''direction'', ''timestampMs'', ''data'', ''dataB64'', ''txStatus'', ''requestedBytes'', ''omittedBytes'']"

definition hydrateWorkspaceFrame :: "json \<Rightarrow> adapter_error + data_frame" where
  "hydrateWorkspaceFrame frame =
     bind_ok (assertExactKeys frame stored_keys ''frame'') (\<lambda>_.
     bind_ok (validNonNegativeInteger (jget ''seq'' frame) ''frame.seq'') (\<lambda>captureSeq.
     bind_ok (validateWorkspaceIdentifier (jget ''id'' frame) ''frame.id'') (\<lambda>i.
     bind_ok (validateDirection (jget ''direction'' frame)) (\<lambda>direction.
     bind_ok (validNonNegativeInteger (jget ''timestampMs'' frame) ''frame.timestampMs'') (\<lambda>timestamp.
     bind_ok (decodeHydratedFrameData frame) (\<lambda>bs.
     bind_ok (assertLimit ''frameBytes'' MAX_WORKSPACE_FRAME_BYTES (int (length bs))) (\<lambda>_.
     bind_ok (validateTxStatus (jget ''txStatus'' frame)) (\<lambda>txStatus.
     bind_ok (optionalNonNegativeInteger (jget ''requestedBytes'' frame) ''frame.requestedBytes'') (\<lambda>requestedBytes.
     bind_ok (optionalNonNegativeInteger (jget ''omittedBytes'' frame) ''frame.omittedBytes'') (\<lambda>omittedBytes.
     bind_ok (check_sent (int (length bs)) direction txStatus requestedBytes) (\<lambda>_.
       Inr \<lparr>df_id = i, df_direction = direction, df_timestamp = timestamp, df_data = bs, df_captureSeq = captureSeq, df_txStatus = txStatus,
         df_requestedBytes = requestedBytes, df_omittedBytes = omittedBytes\<rparr>)))))))))))"

section \<open>The builder\<close>

definition MAX_WORKSPACE_FRAMES :: int where "MAX_WORKSPACE_FRAMES = 250000"
definition MAX_WORKSPACE_FRAMES_PER_SESSION :: int where "MAX_WORKSPACE_FRAMES_PER_SESSION = 100000"
definition MAX_WORKSPACE_CAPTURE_BYTES :: int where "MAX_WORKSPACE_CAPTURE_BYTES = 268435456"

record frame_policy =
  pl_maxDelayMs :: int
  pl_maxFrames :: int
  pl_maxPayloadBytes :: int
  pl_maxFrameBytes :: int

definition DEFAULT_WORKSPACE_FRAME_BATCH_POLICY :: frame_policy where
  "DEFAULT_WORKSPACE_FRAME_BATCH_POLICY =
     \<lparr>pl_maxDelayMs = 250, pl_maxFrames = 256, pl_maxPayloadBytes = 512 * 1024, pl_maxFrameBytes = MAX_WORKSPACE_FRAME_BYTES\<rparr>"

definition policy_ceilings :: "(string \<times> int) list" where
  "policy_ceilings =
     (let d = DEFAULT_WORKSPACE_FRAME_BATCH_POLICY
      in [(''maxDelayMs'', pl_maxDelayMs d), (''maxFrames'', pl_maxFrames d), (''maxPayloadBytes'', pl_maxPayloadBytes d),
          (''maxFrameBytes'', pl_maxFrameBytes d)])"

text \<open>The entries of \<open>{ ...DEFAULT, ...requested }\<close>.\<close>

definition merged_policy :: "(string \<times> json) list \<Rightarrow> (string \<times> json) list" where
  "merged_policy requested =
     map (\<lambda>(k, n). (k, case map_of requested k of Some v \<Rightarrow> v | None \<Rightarrow> JNumber (js_int n))) policy_ceilings @
     filter (\<lambda>(k, v). k \<notin> set (map fst policy_ceilings)) requested"

definition policy_number :: "json \<Rightarrow> int option" where
  "policy_number v = (case v of JNumber n \<Rightarrow> if js_safe n \<and> js_floor n > 0 then Some (js_floor n) else None | _ \<Rightarrow> None)"

definition normalizePolicy :: "(string \<times> json) list \<Rightarrow> adapter_error + frame_policy" where
  "normalizePolicy requested =
     (let policy = merged_policy requested; get = (\<lambda>k. the (policy_number (the (map_of policy k)))) in
      case filter (\<lambda>(k, v). policy_number v = None) policy of
        (k, v) # _ \<Rightarrow> Inl (AdapterInvalid (''policy.'' @ k))
      | [] \<Rightarrow>
          (case filter (\<lambda>(k, n). get k > n) policy_ceilings of
             (k, n) # _ \<Rightarrow> Inl (AdapterInvalid (''policy.'' @ k))
           | [] \<Rightarrow> Inr \<lparr>pl_maxDelayMs = get ''maxDelayMs'', pl_maxFrames = get ''maxFrames'', pl_maxPayloadBytes = get ''maxPayloadBytes'',
               pl_maxFrameBytes = get ''maxFrameBytes''\<rparr>))"

record frame_builder =
  fb_sessionId :: string
  fb_policy :: frame_policy
  fb_mutationSequence :: int
  fb_nextFrameSeq :: int
  fb_workspaceFrameCount :: int
  fb_sessionFrameCount :: int
  fb_workspacePayloadBytes :: int
  fb_pending :: "queued_payload list"
  fb_pendingBytes :: int
  fb_pendingStartedAtMs :: "int option"

definition new_builder ::
  "json \<Rightarrow> json \<Rightarrow> json \<Rightarrow> json \<Rightarrow> json \<Rightarrow> json \<Rightarrow> (string \<times> json) list \<Rightarrow> adapter_error + frame_builder" where
  "new_builder sessionId startSequence startFrameSeq workspaceFrames sessionFrames payloadBytes policy =
     bind_ok (validateWorkspaceIdentifier sessionId ''sessionId'') (\<lambda>i.
     bind_ok (validNonNegativeInteger startSequence ''startSequence'') (\<lambda>mutationSequence.
     bind_ok (validNonNegativeInteger startFrameSeq ''startFrameSeq'') (\<lambda>nextFrameSeq.
     bind_ok (validNonNegativeInteger workspaceFrames ''workspaceFrameCount'') (\<lambda>w.
     bind_ok (validNonNegativeInteger sessionFrames ''sessionFrameCount'') (\<lambda>s.
     bind_ok (validNonNegativeInteger payloadBytes ''workspacePayloadBytes'') (\<lambda>p.
     bind_ok (assertLimit ''workspaceFrames'' MAX_WORKSPACE_FRAMES w) (\<lambda>_.
     bind_ok (assertLimit ''sessionFrames'' MAX_WORKSPACE_FRAMES_PER_SESSION s) (\<lambda>_.
     if s > w then Inl (AdapterInvalid ''sessionFrameCount'')
     else
       bind_ok (assertLimit ''workspaceCaptureBytes'' MAX_WORKSPACE_CAPTURE_BYTES p) (\<lambda>_.
       bind_ok (normalizePolicy policy) (\<lambda>policy.
         Inr \<lparr>fb_sessionId = i, fb_policy = policy, fb_mutationSequence = mutationSequence, fb_nextFrameSeq = nextFrameSeq,
           fb_workspaceFrameCount = w, fb_sessionFrameCount = s, fb_workspacePayloadBytes = p, fb_pending = [], fb_pendingBytes = 0,
           fb_pendingStartedAtMs = None\<rparr>))))))))))"

definition assertTotalsAccept :: "int \<Rightarrow> frame_builder \<Rightarrow> adapter_error + unit" where
  "assertTotalsAccept frameBytes b =
     bind_ok (assertLimit ''workspaceFrames'' MAX_WORKSPACE_FRAMES (fb_workspaceFrameCount b + 1)) (\<lambda>_.
     bind_ok (assertLimit ''sessionFrames'' MAX_WORKSPACE_FRAMES_PER_SESSION (fb_sessionFrameCount b + 1)) (\<lambda>_.
       assertLimit ''workspaceCaptureBytes'' MAX_WORKSPACE_CAPTURE_BYTES (fb_workspacePayloadBytes b + frameBytes)))"

text \<open>A throw leaves the builder as it is at that point: the second component.\<close>

definition takeMutation :: "frame_builder \<Rightarrow> (adapter_error + mutation) \<times> frame_builder" where
  "takeMutation b =
     (if fb_pending b = [] then (Inl (AdapterInvalid ''pendingFrames''), b)
      else if fb_mutationSequence b > 0xffffffff then (Inl (AdapterLimit ''sequence'' 0xffffffff (fb_mutationSequence b)), b)
      else
        (Inr \<lparr>mt_sequence = fb_mutationSequence b,
              mt_command = append_command (fb_sessionId b) (fb_nextFrameSeq b) (map toIpcFramePayload (fb_pending b))\<rparr>,
         b\<lparr>fb_nextFrameSeq := fb_nextFrameSeq b + int (length (fb_pending b)), fb_pending := [], fb_pendingBytes := 0,
           fb_pendingStartedAtMs := None, fb_mutationSequence := fb_mutationSequence b + 1\<rparr>))"

definition take_if :: "bool \<Rightarrow> frame_builder \<Rightarrow> (adapter_error + mutation list) \<times> frame_builder" where
  "take_if now b =
     (if now then (case takeMutation b of (Inl e, b) \<Rightarrow> (Inl e, b) | (Inr m, b) \<Rightarrow> (Inr [m], b)) else (Inr [], b))"

definition size_of :: "queued_payload \<Rightarrow> int" where
  "size_of p = int (length (qp_data p))"

definition fb_push :: "queued_payload \<Rightarrow> int \<Rightarrow> frame_builder \<Rightarrow> frame_builder" where
  "fb_push p timestamp b =
     (let b = (if fb_pending b = [] then b\<lparr>fb_pendingStartedAtMs := Some timestamp\<rparr> else b)
      in b\<lparr>fb_pending := fb_pending b @ [p], fb_pendingBytes := fb_pendingBytes b + size_of p,
           fb_workspaceFrameCount := fb_workspaceFrameCount b + 1, fb_sessionFrameCount := fb_sessionFrameCount b + 1,
           fb_workspacePayloadBytes := fb_workspacePayloadBytes b + size_of p\<rparr>)"

definition must_make_room :: "queued_payload \<Rightarrow> frame_builder \<Rightarrow> bool" where
  "must_make_room p b \<longleftrightarrow> fb_pending b \<noteq> [] \<and>
     (int (length (fb_pending b)) + 1 > pl_maxFrames (fb_policy b) \<or> fb_pendingBytes b + size_of p > pl_maxPayloadBytes (fb_policy b))"

definition must_emit :: "frame_builder \<Rightarrow> bool" where
  "must_emit b \<longleftrightarrow> int (length (fb_pending b)) \<ge> pl_maxFrames (fb_policy b) \<or> fb_pendingBytes b \<ge> pl_maxPayloadBytes (fb_policy b)"

definition fb_append :: "json \<Rightarrow> json \<Rightarrow> frame_builder \<Rightarrow> (adapter_error + mutation list) \<times> frame_builder" where
  "fb_append frame nowMs b =
     (case bind_ok (validNonNegativeInteger nowMs ''nowMs'') (\<lambda>timestamp.
           bind_ok (projectWorkspaceFrame frame (pl_maxFrameBytes (fb_policy b))) (\<lambda>payload.
           bind_ok (assertTotalsAccept (size_of payload) b) (\<lambda>_. Inr (timestamp, payload)))) of
        Inl e \<Rightarrow> (Inl e, b)
      | Inr (timestamp, payload) \<Rightarrow>
          (case take_if (must_make_room payload b) b of
             (Inl e, b) \<Rightarrow> (Inl e, b)
           | (Inr ms, b) \<Rightarrow>
               let b = fb_push payload timestamp b
               in (case take_if (must_emit b) b of (Inl e, b) \<Rightarrow> (Inl e, b) | (Inr ns, b) \<Rightarrow> (Inr (ms @ ns), b))))"

definition fb_flushDue :: "json \<Rightarrow> frame_builder \<Rightarrow> (adapter_error + mutation list) \<times> frame_builder" where
  "fb_flushDue nowMs b =
     (case validNonNegativeInteger nowMs ''nowMs'' of
        Inl e \<Rightarrow> (Inl e, b)
      | Inr timestamp \<Rightarrow>
          take_if (case fb_pendingStartedAtMs b of None \<Rightarrow> False | Some t \<Rightarrow> timestamp - t \<ge> pl_maxDelayMs (fb_policy b)) b)"

definition fb_flush :: "frame_builder \<Rightarrow> (adapter_error + mutation list) \<times> frame_builder" where
  "fb_flush b = take_if (fb_pending b \<noteq> []) b"

text \<open>\<open>deadlineMs\<close> of a result (\<open>None\<close>: infinite) and \<open>snapshotTotals\<close>.\<close>

definition deadlineMs :: "frame_builder \<Rightarrow> int option" where
  "deadlineMs b = map_option (\<lambda>t. t + pl_maxDelayMs (fb_policy b)) (fb_pendingStartedAtMs b)"

definition snapshotTotals :: "frame_builder \<Rightarrow> int \<times> int \<times> int" where
  "snapshotTotals b = (fb_workspaceFrameCount b, fb_sessionFrameCount b, fb_workspacePayloadBytes b)"

section \<open>A stored frame comes back\<close>

lemma valid_int_Inr: "validNonNegativeInteger v f = Inr n \<longleftrightarrow> (\<exists>x. v = JNumber x \<and> js_safe x \<and> n = js_floor x \<and> 0 \<le> n)"
  by (auto simp: validNonNegativeInteger_def split: json.splits)

lemma safe_int [simp]: "js_safe (js_int n) \<longleftrightarrow> \<bar>n\<bar> \<le> 2 ^ 53 - 1"
  by (simp add: js_safe_def)

lemma optional_int_Inr:
  "optionalNonNegativeInteger v f = Inr r \<Longrightarrow> case r of None \<Rightarrow> True | Some n \<Rightarrow> 0 \<le> n \<and> n \<le> 2 ^ 53 - 1"
  by (auto simp: optionalNonNegativeInteger_def bind_ok_eq_Inr valid_int_Inr js_safe_def split: if_splits)

lemma identifier_Inr: "validateWorkspaceIdentifier v f = Inr i \<longleftrightarrow> (\<exists>s. v = JString s \<and> i = trim s \<and> id_pattern i)"
  by (auto simp: validateWorkspaceIdentifier_def Let_def split: json.splits)

lemma identifier_trim: "id_pattern i \<Longrightarrow> trim i = i"
  by (simp add: id_pattern_def identity_trim)

lemma direction_Inr: "validateDirection v = Inr d \<longleftrightarrow> v = JString d \<and> (d = ''TX'' \<or> d = ''RX'')"
  by (auto simp: validateDirection_def)

lemma txStatus_Inr: "validateTxStatus v = Inr r \<longleftrightarrow>
    (case r of None \<Rightarrow> v = JUndefined | Some s \<Rightarrow> v = JString s \<and> (s = ''complete'' \<or> s = ''partial-unknown''))"
  by (auto simp: validateTxStatus_def split: option.splits)

definition stored_frame_json :: "int \<Rightarrow> queued_payload \<Rightarrow> json" where
  "stored_frame_json n p = (case toIpcFramePayload p of JObject es \<Rightarrow> JObject ((''seq'', JNumber (js_int n)) # es) | v \<Rightarrow> v)"

lemma stored_fields:
  "jget ''seq'' (stored_frame_json n p) = JNumber (js_int n)" "jget ''id'' (stored_frame_json n p) = JString (qp_id p)"
  "jget ''direction'' (stored_frame_json n p) = JString (qp_direction p)" "jget ''timestampMs'' (stored_frame_json n p) = JNumber (qp_timestampMs p)"
  "jget ''data'' (stored_frame_json n p) = JArray []" "jget ''dataB64'' (stored_frame_json n p) = JString (bytesToBase64 (qp_data p))"
  "jget ''txStatus'' (stored_frame_json n p) = (case qp_txStatus p of None \<Rightarrow> JUndefined | Some s \<Rightarrow> JString s)"
  "jget ''requestedBytes'' (stored_frame_json n p) = (case qp_requestedBytes p of None \<Rightarrow> JUndefined | Some s \<Rightarrow> JNumber s)"
  "jget ''omittedBytes'' (stored_frame_json n p) = (case qp_omittedBytes p of None \<Rightarrow> JUndefined | Some s \<Rightarrow> JNumber s)"
  "assertExactKeys (stored_frame_json n p) stored_keys ''frame'' = Inr ()"
  by (simp_all add: stored_frame_json_def toIpcFramePayload_def jget_def optional_def assertExactKeys_def stored_keys_def split: option.split)

text \<open>The fields of a frame that was accepted.\<close>

definition number_of :: "json \<Rightarrow> int" where
  "number_of v = (case v of JNumber n \<Rightarrow> js_floor n | _ \<Rightarrow> 0)"

definition optional_number :: "json \<Rightarrow> int option" where
  "optional_number v = (case v of JUndefined \<Rightarrow> None | _ \<Rightarrow> Some (number_of v))"

definition optional_text :: "json \<Rightarrow> string option" where
  "optional_text v = (case v of JUndefined \<Rightarrow> None | _ \<Rightarrow> Some (text_of v))"

definition frame_as_stored :: "int \<Rightarrow> json \<Rightarrow> data_frame" where
  "frame_as_stored n v =
     \<lparr>df_id = trim (text_of (jget ''id'' v)), df_direction = text_of (jget ''direction'' v), df_timestamp = number_of (jget ''timestamp'' v),
      df_data = (case jget ''data'' v of JTyped bs \<Rightarrow> bs | _ \<Rightarrow> []), df_captureSeq = n, df_txStatus = optional_text (jget ''txStatus'' v),
      df_requestedBytes = optional_number (jget ''requestedBytes'' v), df_omittedBytes = optional_number (jget ''omittedBytes'' v)\<rparr>"

lemma optional_int_eq: "optionalNonNegativeInteger v f = Inr r \<Longrightarrow> r = optional_number v"
  by (auto simp: optionalNonNegativeInteger_def optional_number_def number_of_def bind_ok_eq_Inr valid_int_Inr split: if_splits json.splits)

lemma txStatus_eq: "validateTxStatus v = Inr r \<Longrightarrow> r = optional_text v"
  by (auto simp: txStatus_Inr optional_text_def text_of_def split: option.splits)

lemma projected:
  assumes "projectWorkspaceFrame v limit = Inr p"
  obtains s t bs where "jget ''id'' v = JString s" "id_pattern (trim s)" "validateDirection (jget ''direction'' v) = Inr (qp_direction p)"
    "jget ''timestamp'' v = JNumber t" "js_safe t" "0 \<le> js_floor t" "jget ''data'' v = JTyped bs" "int (length bs) \<le> limit"
    "limit \<le> MAX_WORKSPACE_FRAME_BYTES" "validateTxStatus (jget ''txStatus'' v) = Inr (qp_txStatus p)"
    "optionalNonNegativeInteger (jget ''requestedBytes'' v) ''frame.requestedBytes'' = Inr (optional_number (jget ''requestedBytes'' v))"
    "optionalNonNegativeInteger (jget ''omittedBytes'' v) ''frame.omittedBytes'' = Inr (optional_number (jget ''omittedBytes'' v))"
    "check_sent (int (length bs)) (qp_direction p) (qp_txStatus p) (optional_number (jget ''requestedBytes'' v)) = Inr ()"
    "p = \<lparr>qp_id = trim s, qp_direction = qp_direction p, qp_timestampMs = js_int (js_floor t), qp_data = bs, qp_txStatus = qp_txStatus p,
       qp_requestedBytes = map_option js_int (optional_number (jget ''requestedBytes'' v)),
       qp_omittedBytes = map_option js_int (optional_number (jget ''omittedBytes'' v))\<rparr>"
proof -
  obtain i d t where a: "validateWorkspaceIdentifier (jget ''id'' v) ''frame.id'' = Inr i" "validateDirection (jget ''direction'' v) = Inr d"
      "validNonNegativeInteger (jget ''timestamp'' v) ''frame.timestamp'' = Inr t" "\<not> limit > MAX_WORKSPACE_FRAME_BYTES"
    using assms by (auto simp: projectWorkspaceFrame_def bind_ok_eq_Inr split: if_splits)
  obtain bs where bs: "jget ''data'' v = JTyped bs"
    using assms a by (cases "jget ''data'' v") (auto simp: projectWorkspaceFrame_def bind_ok_eq_Inr split: if_splits)
  obtain x r om where b: "assertLimit ''frameBytes'' limit (int (length bs)) = Inr ()" "validateTxStatus (jget ''txStatus'' v) = Inr x"
      "optionalNonNegativeInteger (jget ''requestedBytes'' v) ''frame.requestedBytes'' = Inr r"
      "optionalNonNegativeInteger (jget ''omittedBytes'' v) ''frame.omittedBytes'' = Inr om" "check_sent (int (length bs)) d x r = Inr ()"
    and p: "p = \<lparr>qp_id = i, qp_direction = d, qp_timestampMs = js_int t, qp_data = bs, qp_txStatus = x,
       qp_requestedBytes = map_option js_int r, qp_omittedBytes = map_option js_int om\<rparr>"
    using assms a bs by (auto simp: projectWorkspaceFrame_def bind_ok_eq_Inr split: if_splits)
  have "r = optional_number (jget ''requestedBytes'' v)" "om = optional_number (jget ''omittedBytes'' v)"
    using optional_int_eq b(3,4) by simp_all
  then show thesis using a b p bs that
    by (auto simp: identifier_Inr valid_int_Inr assertLimit_def split: if_splits)
qed

lemma optional_stored:
  "(case r of None \<Rightarrow> True | Some n \<Rightarrow> 0 \<le> n \<and> n \<le> 2 ^ 53 - 1) \<Longrightarrow>
     optionalNonNegativeInteger (case map_option js_int r of None \<Rightarrow> JUndefined | Some s \<Rightarrow> JNumber s) f = Inr r"
  by (cases r) (auto simp: optionalNonNegativeInteger_def validNonNegativeInteger_def)

text \<open>C26. A captured frame survives its storage.  If a frame is accepted for saving, then its payload as the save queue sends it,
  stored with a capture sequence number and hydrated, gives back the frame: the same bytes, direction, times, counts and status,
  the identifier trimmed, under that sequence number.\<close>

theorem frame_survives_storage:
  "case projectWorkspaceFrame v limit of
     Inl _ \<Rightarrow> True
   | Inr p \<Rightarrow> (if 0 \<le> n \<and> n \<le> 2 ^ 53 - 1 then hydrateWorkspaceFrame (stored_frame_json n p) = Inr (frame_as_stored n v) else True)"
proof (cases "projectWorkspaceFrame v limit")
  case (Inr p)
  have "hydrateWorkspaceFrame (stored_frame_json n p) = Inr (frame_as_stored n v)" if n: "0 \<le> n" "n \<le> 2 ^ 53 - 1"
  proof -
    obtain s t bs where f: "jget ''id'' v = JString s" "id_pattern (trim s)" "validateDirection (jget ''direction'' v) = Inr (qp_direction p)"
      "jget ''timestamp'' v = JNumber t" "js_safe t" "0 \<le> js_floor t" "jget ''data'' v = JTyped bs" "int (length bs) \<le> limit"
      "limit \<le> MAX_WORKSPACE_FRAME_BYTES" "validateTxStatus (jget ''txStatus'' v) = Inr (qp_txStatus p)"
      "optionalNonNegativeInteger (jget ''requestedBytes'' v) ''frame.requestedBytes'' = Inr (optional_number (jget ''requestedBytes'' v))"
      "optionalNonNegativeInteger (jget ''omittedBytes'' v) ''frame.omittedBytes'' = Inr (optional_number (jget ''omittedBytes'' v))"
      "check_sent (int (length bs)) (qp_direction p) (qp_txStatus p) (optional_number (jget ''requestedBytes'' v)) = Inr ()"
      and p: "p = \<lparr>qp_id = trim s, qp_direction = qp_direction p, qp_timestampMs = js_int (js_floor t), qp_data = bs, qp_txStatus = qp_txStatus p,
       qp_requestedBytes = map_option js_int (optional_number (jget ''requestedBytes'' v)),
       qp_omittedBytes = map_option js_int (optional_number (jget ''omittedBytes'' v))\<rparr>"
      using projected [OF Inr] by blast
    have q: "qp_id p = trim s" "qp_timestampMs p = js_int (js_floor t)" "qp_data p = bs"
      "qp_requestedBytes p = map_option js_int (optional_number (jget ''requestedBytes'' v))"
      "qp_omittedBytes p = map_option js_int (optional_number (jget ''omittedBytes'' v))"
      by (subst p, simp)+
    have "validNonNegativeInteger (JNumber (js_int n)) ''frame.seq'' = Inr n" using n by (simp add: valid_int_Inr)
    moreover have "validateWorkspaceIdentifier (JString (trim s)) ''frame.id'' = Inr (trim s)"
      using identifier_trim [OF f(2)] f(2) by (simp add: identifier_Inr)
    moreover have "validateDirection (JString (qp_direction p)) = Inr (qp_direction p)" using f(3) by (simp add: direction_Inr)
    moreover have "validNonNegativeInteger (JNumber (js_int (js_floor t))) ''frame.timestampMs'' = Inr (js_floor t)"
      using f(5,6) by (simp add: valid_int_Inr js_safe_def)
    moreover have "decodeHydratedFrameData (stored_frame_json n p) = Inr bs"
      using q(3) by (simp add: decodeHydratedFrameData_def stored_fields base64ToBytes_eq bytesToBase64_eq canonical_btoa atob_btoa)
    moreover have "assertLimit ''frameBytes'' MAX_WORKSPACE_FRAME_BYTES (int (length bs)) = Inr ()" using f(8,9) by (simp add: assertLimit_def)
    moreover have "validateTxStatus (case qp_txStatus p of None \<Rightarrow> JUndefined | Some s \<Rightarrow> JString s) = Inr (qp_txStatus p)"
      using f(10) by (auto simp: txStatus_Inr split: option.splits)
    moreover note optional_stored [OF optional_int_Inr [OF f(11)], of "''frame.requestedBytes''"]
      optional_stored [OF optional_int_Inr [OF f(12)], of "''frame.omittedBytes''"]
    moreover have "text_of (jget ''direction'' v) = qp_direction p" using f(3) by (simp add: direction_Inr text_of_def)
    moreover have "optional_text (jget ''txStatus'' v) = qp_txStatus p" using txStatus_eq [OF f(10)] by simp
    ultimately show ?thesis using f(1,4,7,13)
      by (simp add: hydrateWorkspaceFrame_def stored_fields q frame_as_stored_def text_of_def number_of_def)
  qed
  then show ?thesis using Inr by simp
qed simp

end
