(* ===== verification/FrameBuilder.thy ===== *)
theory FrameBuilder
  imports FrameAdapter
begin

text \<open>
  Runs of \<open>WorkspaceFrameMutationBuilder\<close> (model in \<open>FrameAdapter\<close>): whatever frames and times it is called with, the
  mutations it hands out number the accepted frames without gaps, stay within the policy, and the totals count what was accepted.
\<close>

section \<open>Calls\<close>

datatype builder_call = BuilderAppend json json | BuilderFlushDue json | BuilderFlush

fun fb_step :: "builder_call \<Rightarrow> frame_builder \<Rightarrow> (adapter_error + mutation list) \<times> frame_builder" where
  "fb_step (BuilderAppend frame nowMs) b = fb_append frame nowMs b"
| "fb_step (BuilderFlushDue nowMs) b = fb_flushDue nowMs b"
| "fb_step BuilderFlush b = fb_flush b"

text \<open>The frames a call accepts: one if it is an \<open>append\<close> that returns.\<close>

fun fb_accepted :: "builder_call \<Rightarrow> frame_builder \<Rightarrow> queued_payload list" where
  "fb_accepted (BuilderAppend frame nowMs) b =
     (case (fst (fb_append frame nowMs b), projectWorkspaceFrame frame (pl_maxFrameBytes (fb_policy b))) of
        (Inr ms, Inr p) \<Rightarrow> [p]
      | _ \<Rightarrow> [])"
| "fb_accepted _ b = []"

definition returned :: "(adapter_error + mutation list) \<times> frame_builder \<Rightarrow> mutation list" where
  "returned r = (case fst r of Inl e \<Rightarrow> [] | Inr ms \<Rightarrow> ms)"

fun fb_run :: "builder_call list \<Rightarrow> frame_builder \<Rightarrow> mutation list \<times> queued_payload list \<times> frame_builder" where
  "fb_run [] b = ([], [], b)"
| "fb_run (e # es) b =
     (case fb_run es (snd (fb_step e b)) of
        (ms, ps, b') \<Rightarrow> (returned (fb_step e b) @ ms, fb_accepted e b @ ps, b'))"

section \<open>Numbering and limits\<close>

text \<open>Payloads as the frames of a session, numbered from \<open>n\<close>.\<close>

fun numbered :: "string \<Rightarrow> int \<Rightarrow> queued_payload list \<Rightarrow> (string \<times> int \<times> json) list" where
  "numbered i n [] = []"
| "numbered i n (p # ps) = (i, n, toIpcFramePayload p) # numbered i (n + 1) ps"

lemma numbered_append [simp]: "numbered i n (ps @ qs) = numbered i n ps @ numbered i (n + int (length ps)) qs"
  by (induction ps arbitrary: n) (simp_all add: add.assoc)

lemma numbered_enumerate: "map (\<lambda>(k, f). (i, n + int k, f)) (enumerate m (map toIpcFramePayload ps)) = numbered i (n + int m) ps"
  by (induction ps arbitrary: m) (simp_all add: algebra_simps)

definition payload_sum :: "queued_payload list \<Rightarrow> int" where
  "payload_sum ps = sum_list (map size_of ps)"

lemma payload_sum_simps [simp]: "payload_sum [] = 0" "payload_sum (p # ps) = size_of p + payload_sum ps"
  "payload_sum (ps @ qs) = payload_sum ps + payload_sum qs"
  by (simp_all add: payload_sum_def)

lemma size_nonneg [simp]: "0 \<le> size_of p"
  by (simp add: size_of_def)

lemma payload_sum_nonneg [simp]: "0 \<le> payload_sum ps"
  by (induction ps) simp_all

text \<open>The raw bytes of a frame of a mutation, and the limits of the policy.\<close>

definition raw_size :: "json \<Rightarrow> int" where
  "raw_size f = (case base64ToBytes (text_of (jget ''dataB64'' f)) of None \<Rightarrow> 0 | Some bs \<Rightarrow> int (length bs))"

definition mutation_fits :: "frame_policy \<Rightarrow> mutation \<Rightarrow> bool" where
  "mutation_fits pl m =
     (let fs = frames_of_command (mt_command m)
      in int (length fs) \<le> pl_maxFrames pl \<and> fs \<noteq> [] \<and>
         (length fs = 1 \<or> sum_list (map (\<lambda>(i, n, f). raw_size f) fs) \<le> pl_maxPayloadBytes pl))"

lemma raw_size_payload: "raw_size (toIpcFramePayload p) = size_of p"
  by (simp add: raw_size_def size_of_def toIpcFramePayload_def jget_def text_of_def base64ToBytes_eq bytesToBase64_eq canonical_btoa atob_btoa)

lemma numbered_sums [simp]: "length (numbered i n ps) = length ps" "sum_list (map (\<lambda>(i, n, f). raw_size f) (numbered i n ps)) = payload_sum ps"
    "numbered i n ps = [] \<longleftrightarrow> ps = []"
  by (induction ps arbitrary: n) (simp_all add: raw_size_payload)

section \<open>One mutation\<close>

definition mutation_of :: "frame_builder \<Rightarrow> mutation" where
  "mutation_of b = \<lparr>mt_sequence = fb_mutationSequence b,
     mt_command = append_command (fb_sessionId b) (fb_nextFrameSeq b) (map toIpcFramePayload (fb_pending b))\<rparr>"

definition emptied :: "frame_builder \<Rightarrow> frame_builder" where
  "emptied b = b\<lparr>fb_nextFrameSeq := fb_nextFrameSeq b + int (length (fb_pending b)), fb_pending := [], fb_pendingBytes := 0,
     fb_pendingStartedAtMs := None, fb_mutationSequence := fb_mutationSequence b + 1\<rparr>"

lemma frames_of_mutation: "frames_of_command (mt_command (mutation_of b)) = numbered (fb_sessionId b) (fb_nextFrameSeq b) (fb_pending b)"
  using numbered_enumerate [of "fb_sessionId b" "fb_nextFrameSeq b" 0 "fb_pending b"] by (simp add: mutation_of_def frames_of_append)

lemma take_if_eq:
  assumes "now \<Longrightarrow> fb_pending b \<noteq> []" "fb_mutationSequence b < 2 ^ 32"
  shows "take_if now b = (Inr (if now then [mutation_of b] else []), if now then emptied b else b)"
  using assms by (auto simp: take_if_def takeMutation_def mutation_of_def emptied_def)

definition builder_ok :: "frame_builder \<Rightarrow> bool" where
  "builder_ok b \<longleftrightarrow> fb_pendingBytes b = payload_sum (fb_pending b) \<and> (fb_pendingStartedAtMs b = None \<longleftrightarrow> fb_pending b = []) \<and>
     0 < pl_maxFrames (fb_policy b) \<and> 0 < pl_maxPayloadBytes (fb_policy b) \<and> \<not> must_emit b \<and>
     fb_workspaceFrameCount b \<le> MAX_WORKSPACE_FRAMES \<and> fb_sessionFrameCount b \<le> MAX_WORKSPACE_FRAMES_PER_SESSION \<and>
     fb_workspacePayloadBytes b \<le> MAX_WORKSPACE_CAPTURE_BYTES"

text \<open>What a call hands out and keeps: \<open>b\<close> before, \<open>ms\<close> handed out, \<open>ps\<close> accepted, \<open>b'\<close> after.\<close>

definition accounted :: "frame_builder \<Rightarrow> mutation list \<Rightarrow> queued_payload list \<Rightarrow> frame_builder \<Rightarrow> bool" where
  "accounted b ms ps b' \<longleftrightarrow>
     fb_sessionId b' = fb_sessionId b \<and> fb_policy b' = fb_policy b \<and>
     items_of_commands (map mt_command ms) @ numbered (fb_sessionId b) (fb_nextFrameSeq b') (fb_pending b') =
       numbered (fb_sessionId b) (fb_nextFrameSeq b) (fb_pending b @ ps) \<and>
     fb_nextFrameSeq b' + int (length (fb_pending b')) = fb_nextFrameSeq b + int (length (fb_pending b @ ps)) \<and>
     map mt_sequence ms = [fb_mutationSequence b .. fb_mutationSequence b' - 1] \<and>
     fb_mutationSequence b' = fb_mutationSequence b + int (length ms) \<and>
     list_all (mutation_fits (fb_policy b)) ms \<and>
     fb_workspaceFrameCount b' = fb_workspaceFrameCount b + int (length ps) \<and>
     fb_sessionFrameCount b' = fb_sessionFrameCount b + int (length ps) \<and>
     fb_workspacePayloadBytes b' = fb_workspacePayloadBytes b + payload_sum ps"

lemma items_append [simp]: "items_of_commands (cs @ ds) = items_of_commands cs @ items_of_commands ds"
  "items_of_commands [] = []" "items_of_commands [c] = frames_of_command c"
  by (simp_all add: items_of_commands_def)

lemma accounted_nothing: "accounted b [] [] b"
  by (simp add: accounted_def)

lemma accounted_trans:
  assumes 1: "accounted b ms ps b1" and 2: "accounted b1 ns qs b2"
  shows "accounted b (ms @ ns) (ps @ qs) b2"
proof -
  let ?i = "fb_sessionId b"
  have "items_of_commands (map mt_command (ms @ ns)) @ numbered ?i (fb_nextFrameSeq b2) (fb_pending b2) =
      items_of_commands (map mt_command ms) @ numbered ?i (fb_nextFrameSeq b1) (fb_pending b1 @ qs)"
    using assms by (simp add: accounted_def del: numbered_append)
  also have "\<dots> = numbered ?i (fb_nextFrameSeq b) (fb_pending b @ ps) @ numbered ?i (fb_nextFrameSeq b1 + int (length (fb_pending b1))) qs"
    using 1 unfolding accounted_def by (metis append.assoc numbered_append)
  also have "\<dots> = numbered ?i (fb_nextFrameSeq b) (fb_pending b @ ps @ qs)"
  proof -
    have "fb_nextFrameSeq b1 + int (length (fb_pending b1)) = fb_nextFrameSeq b + int (length (fb_pending b @ ps))"
      using 1 by (simp only: accounted_def)
    then show ?thesis by (simp add: add.assoc)
  qed
  finally have items: "items_of_commands (map mt_command (ms @ ns)) @ numbered ?i (fb_nextFrameSeq b2) (fb_pending b2) =
      numbered ?i (fb_nextFrameSeq b) (fb_pending b @ ps @ qs)" .
  have "[fb_mutationSequence b .. fb_mutationSequence b2 - 1] =
      [fb_mutationSequence b .. fb_mutationSequence b1 - 1] @ [fb_mutationSequence b1 .. fb_mutationSequence b2 - 1]"
    using assms upto_split1 [of "fb_mutationSequence b" "fb_mutationSequence b1" "fb_mutationSequence b2 - 1"]
    by (cases "ns = []") (auto simp: accounted_def)
  then show ?thesis using assms items by (simp add: accounted_def)
qed

lemma accounted_take:
  assumes "now \<Longrightarrow> mutation_fits (fb_policy b) (mutation_of b)"
  shows "accounted b (if now then [mutation_of b] else []) [] (if now then emptied b else b)"
  using assms frames_of_mutation [of b]
  by (simp add: accounted_def) (simp add: emptied_def mutation_of_def)

lemma accounted_push: "accounted b [] [p] (fb_push p t b)"
  by (simp add: accounted_def fb_push_def Let_def)

lemma mutation_fits_of:
  "mutation_fits pl (mutation_of b) \<longleftrightarrow> int (length (fb_pending b)) \<le> pl_maxFrames pl \<and> fb_pending b \<noteq> [] \<and>
     (length (fb_pending b) = 1 \<or> payload_sum (fb_pending b) \<le> pl_maxPayloadBytes pl)"
  by (simp add: mutation_fits_def frames_of_mutation Let_def)

lemma emptied_simps [simp]: "fb_policy (emptied b) = fb_policy b" "fb_pending (emptied b) = []" "fb_pendingBytes (emptied b) = 0"
  "fb_pendingStartedAtMs (emptied b) = None" "fb_mutationSequence (emptied b) = fb_mutationSequence b + 1"
  "fb_workspaceFrameCount (emptied b) = fb_workspaceFrameCount b" "fb_sessionFrameCount (emptied b) = fb_sessionFrameCount b"
  "fb_workspacePayloadBytes (emptied b) = fb_workspacePayloadBytes b" "fb_sessionId (emptied b) = fb_sessionId b"
  by (simp_all add: emptied_def)

lemma push_simps [simp]: "fb_policy (fb_push p t b) = fb_policy b" "fb_pending (fb_push p t b) = fb_pending b @ [p]"
  "fb_pendingBytes (fb_push p t b) = fb_pendingBytes b + size_of p" "fb_mutationSequence (fb_push p t b) = fb_mutationSequence b"
  "fb_pendingStartedAtMs (fb_push p t b) = (if fb_pending b = [] then Some t else fb_pendingStartedAtMs b)"
  "fb_workspaceFrameCount (fb_push p t b) = fb_workspaceFrameCount b + 1" "fb_sessionFrameCount (fb_push p t b) = fb_sessionFrameCount b + 1"
  "fb_workspacePayloadBytes (fb_push p t b) = fb_workspacePayloadBytes b + size_of p"
  by (simp_all add: fb_push_def Let_def)

lemma ok_emptied: "builder_ok b \<Longrightarrow> builder_ok (emptied b)"
  by (auto simp: builder_ok_def must_emit_def)

lemma fits_pending:
  assumes "builder_ok b" "fb_pending b \<noteq> []"
  shows "mutation_fits (fb_policy b) (mutation_of b)"
  using assms by (simp add: mutation_fits_of builder_ok_def must_emit_def)

lemma take_ok:
  assumes "builder_ok b" "now \<Longrightarrow> fb_pending b \<noteq> []" "fb_mutationSequence b < 2 ^ 32"
  shows "case take_if now b of (r, b') \<Rightarrow> (\<exists>ms. r = Inr ms \<and> length ms \<le> 1 \<and> accounted b ms [] b' \<and> builder_ok b')"
  using take_if_eq [OF assms(2,3)] accounted_take [of now b] fits_pending [OF assms(1)] ok_emptied [OF assms(1)] assms(1,2)
  by auto

section \<open>Calls keep the invariant\<close>

lemma totals_accept:
  "assertTotalsAccept n b = Inr () \<longleftrightarrow> fb_workspaceFrameCount b + 1 \<le> MAX_WORKSPACE_FRAMES \<and>
     fb_sessionFrameCount b + 1 \<le> MAX_WORKSPACE_FRAMES_PER_SESSION \<and> fb_workspacePayloadBytes b + n \<le> MAX_WORKSPACE_CAPTURE_BYTES"
  by (auto simp: assertTotalsAccept_def assertLimit_def bind_ok_eq_Inr split: if_splits)

lemma builder_append_ok:
  assumes ok: "builder_ok b" and room: "fb_mutationSequence b + 1 < 2 ^ 32"
    and acc: "validNonNegativeInteger nowMs ''nowMs'' = Inr t" "projectWorkspaceFrame frame (pl_maxFrameBytes (fb_policy b)) = Inr p"
      "assertTotalsAccept (size_of p) b = Inr ()"
  obtains ms b' where "fb_append frame nowMs b = (Inr ms, b')" "length ms \<le> 2" "accounted b ms [p] b'" "builder_ok b'"
proof -
  let ?now = "must_make_room p b"
  define ms where "ms = (if ?now then [mutation_of b] else [])"
  define b1 where "b1 = (if ?now then emptied b else b)"
  define b2 where "b2 = fb_push p t b1"
  define ns where "ns = (if must_emit b2 then [mutation_of b2] else [])"
  define b3 where "b3 = (if must_emit b2 then emptied b2 else b2)"
  have nonempty: "?now \<Longrightarrow> fb_pending b \<noteq> []" by (simp add: must_make_room_def)
  have 1: "take_if ?now b = (Inr ms, b1)" using take_if_eq [OF nonempty] room by (simp add: ms_def b1_def)
  have a1: "accounted b ms [] b1"
    using accounted_take [of ?now b] fits_pending [OF ok] nonempty by (simp add: ms_def b1_def)
  have ok1: "builder_ok b1" using ok ok_emptied by (simp add: b1_def)
  have same: "fb_policy b1 = fb_policy b" "fb_workspaceFrameCount b1 = fb_workspaceFrameCount b" "fb_sessionFrameCount b1 = fb_sessionFrameCount b"
    "fb_workspacePayloadBytes b1 = fb_workspacePayloadBytes b" "fb_mutationSequence b1 < 2 ^ 32" using room by (auto simp: b1_def)
  have limits: "fb_pending b1 = [] \<or> int (length (fb_pending b1)) + 1 \<le> pl_maxFrames (fb_policy b) \<and>
      fb_pendingBytes b1 + size_of p \<le> pl_maxPayloadBytes (fb_policy b)"
    by (auto simp: b1_def must_make_room_def)
  have fits: "mutation_fits (fb_policy b2) (mutation_of b2)"
    using limits ok1 same(1) by (auto simp: mutation_fits_of b2_def builder_ok_def)
  have 2: "take_if (must_emit b2) b2 = (Inr ns, b3)"
    using take_if_eq [of "must_emit b2" b2] same(5) by (simp add: ns_def b3_def b2_def)
  have "fb_append frame nowMs b = (Inr (ms @ ns), b3)"
    using acc 1 2 by (simp add: fb_append_def b2_def)
  moreover have "accounted b (ms @ ns) [p] b3"
    using accounted_trans [OF accounted_trans [OF a1 accounted_push [of b1 p t]], of ns "[]" b3]
      accounted_take [of "must_emit b2" b2] fits by (simp add: b2_def ns_def b3_def)
  moreover have "builder_ok b3"
  proof -
    have "builder_ok b2 \<or> must_emit b2" using ok1 acc(3) same by (auto simp: builder_ok_def b2_def totals_accept)
    moreover have "builder_ok (emptied b2)"
      using ok1 acc(3) same by (auto simp: builder_ok_def b2_def totals_accept must_emit_def)
    ultimately show ?thesis by (auto simp: b3_def)
  qed
  moreover have "length (ms @ ns) \<le> 2" by (simp add: ms_def ns_def)
  ultimately show thesis using that by blast
qed

lemma append_refused:
  assumes "\<And>t p. validNonNegativeInteger nowMs ''nowMs'' = Inr t \<Longrightarrow> projectWorkspaceFrame frame (pl_maxFrameBytes (fb_policy b)) = Inr p \<Longrightarrow>
      assertTotalsAccept (size_of p) b \<noteq> Inr ()"
  shows "\<exists>e. fb_append frame nowMs b = (Inl e, b)"
  using assms
  by (cases "validNonNegativeInteger nowMs ''nowMs''"; cases "projectWorkspaceFrame frame (pl_maxFrameBytes (fb_policy b))")
    (auto simp: fb_append_def bind_ok_def split: sum.split)

lemma builder_step_ok:
  assumes ok: "builder_ok b" and room: "fb_mutationSequence b + 1 < 2 ^ 32"
  shows "accounted b (returned (fb_step e b)) (fb_accepted e b) (snd (fb_step e b)) \<and> builder_ok (snd (fb_step e b)) \<and>
    length (returned (fb_step e b)) \<le> 2 \<and> (case fb_step e b of (Inl _, b') \<Rightarrow> b' = b | _ \<Rightarrow> True)"
proof (cases e)
  case (BuilderAppend frame nowMs)
  show ?thesis
  proof (cases "\<exists>t p. validNonNegativeInteger nowMs ''nowMs'' = Inr t \<and>
      projectWorkspaceFrame frame (pl_maxFrameBytes (fb_policy b)) = Inr p \<and> assertTotalsAccept (size_of p) b = Inr ()")
    case True
    then obtain t p where a: "validNonNegativeInteger nowMs ''nowMs'' = Inr t" "projectWorkspaceFrame frame (pl_maxFrameBytes (fb_policy b)) = Inr p"
      "assertTotalsAccept (size_of p) b = Inr ()" by blast
    obtain ms b' where "fb_append frame nowMs b = (Inr ms, b')" "length ms \<le> 2" "accounted b ms [p] b'" "builder_ok b'"
      using builder_append_ok [OF ok room a] .
    then show ?thesis using a by (simp add: BuilderAppend returned_def)
  next
    case False
    then obtain e' where "fb_append frame nowMs b = (Inl e', b)" using append_refused by blast
    then show ?thesis using ok by (simp add: BuilderAppend returned_def accounted_nothing)
  qed
next
  case (BuilderFlushDue nowMs)
  show ?thesis
  proof (cases "validNonNegativeInteger nowMs ''nowMs''")
    case (Inr t)
    have "case fb_step e b of (r, b') \<Rightarrow> (\<exists>ms. r = Inr ms \<and> length ms \<le> 1 \<and> accounted b ms [] b' \<and> builder_ok b')"
      unfolding BuilderFlushDue fb_step.simps fb_flushDue_def Inr sum.case
      using ok room by (intro take_ok) (auto simp: builder_ok_def split: option.splits)
    then show ?thesis by (auto simp: BuilderFlushDue returned_def)
  qed (simp add: BuilderFlushDue fb_flushDue_def returned_def accounted_nothing ok)
next
  case BuilderFlush
  have "case fb_step e b of (r, b') \<Rightarrow> (\<exists>ms. r = Inr ms \<and> length ms \<le> 1 \<and> accounted b ms [] b' \<and> builder_ok b')"
    unfolding BuilderFlush fb_step.simps fb_flush_def using ok room by (intro take_ok) auto
  then show ?thesis by (auto simp: BuilderFlush returned_def)
qed

lemma builder_run_ok:
  assumes "builder_ok b" "fb_mutationSequence b + 2 * int (length es) \<le> 2 ^ 32"
  shows "case fb_run es b of (ms, ps, b') \<Rightarrow> accounted b ms ps b' \<and> builder_ok b' \<and> length ms \<le> 2 * length es"
  using assms
proof (induction es arbitrary: b)
  case (Cons e es)
  let ?b = "snd (fb_step e b)"
  have room: "fb_mutationSequence b + 1 < 2 ^ 32" using Cons.prems(2) by simp
  note s = builder_step_ok [OF Cons.prems(1) room, of e]
  have "fb_mutationSequence ?b + 2 * int (length es) \<le> 2 ^ 32"
    using s Cons.prems(2) unfolding accounted_def by simp
  with s Cons.IH [of ?b] obtain ms ps b' where r: "fb_run es ?b = (ms, ps, b')" "accounted ?b ms ps b'" "builder_ok b'" "length ms \<le> 2 * length es"
    by (cases "fb_run es ?b") auto
  show ?case using s r accounted_trans [OF _ r(2), of b "returned (fb_step e b)" "fb_accepted e b"] by simp
qed (simp add: accounted_nothing)

section \<open>A new builder\<close>

lemma policy_number_pos: "policy_number v = Some n \<Longrightarrow> 0 < n"
  by (auto simp: policy_number_def split: json.splits if_splits)

lemma merged_known: "k \<in> set (map fst policy_ceilings) \<Longrightarrow> \<exists>v. map_of (merged_policy r) k = Some v"
  by (auto simp: merged_policy_def policy_ceilings_def Let_def)

lemma normalized_positive:
  assumes "normalizePolicy r = Inr pl"
  shows "0 < pl_maxFrames pl \<and> 0 < pl_maxPayloadBytes pl"
proof -
  let ?get = "\<lambda>k. the (policy_number (the (map_of (merged_policy r) k)))"
  have valid: "filter (\<lambda>(k, v). policy_number v = None) (merged_policy r) = []"
    using assms by (auto simp: normalizePolicy_def Let_def split: list.splits)
  have "0 < ?get k" if known: "k \<in> set (map fst policy_ceilings)" for k
  proof -
    obtain v where v: "map_of (merged_policy r) k = Some v" using merged_known [OF known] by blast
    then have "policy_number v \<noteq> None" using valid map_of_SomeD [OF v] by (auto simp: filter_empty_conv)
    then show ?thesis using policy_number_pos v by auto
  qed
  moreover have "''maxFrames'' \<in> set (map fst policy_ceilings)" "''maxPayloadBytes'' \<in> set (map fst policy_ceilings)"
    by (simp_all add: policy_ceilings_def Let_def)
  moreover have "pl_maxFrames pl = ?get ''maxFrames''" "pl_maxPayloadBytes pl = ?get ''maxPayloadBytes''"
    using assms by (auto simp: normalizePolicy_def Let_def split: list.splits)
  ultimately show ?thesis by simp
qed

lemma new_builder_ok:
  assumes "new_builder i sq fs w s p r = Inr b"
  shows "builder_ok b \<and> fb_pending b = []"
proof -
  obtain pl where pl: "normalizePolicy r = Inr pl" "fb_policy b = pl"
    using assms by (auto simp: new_builder_def bind_ok_eq_Inr split: if_splits)
  moreover have "fb_pending b = [] \<and> fb_pendingBytes b = 0 \<and> fb_pendingStartedAtMs b = None \<and>
      fb_workspaceFrameCount b \<le> MAX_WORKSPACE_FRAMES \<and> fb_sessionFrameCount b \<le> MAX_WORKSPACE_FRAMES_PER_SESSION \<and>
      fb_workspacePayloadBytes b \<le> MAX_WORKSPACE_CAPTURE_BYTES"
    using assms by (auto simp: new_builder_def bind_ok_eq_Inr assertLimit_def split: if_splits)
  ultimately show ?thesis using normalized_positive [OF pl(1)] by (simp add: builder_ok_def must_emit_def)
qed

text \<open>C27. The mutations of a builder.  Start it with any totals and policy it accepts and call it with any frames and times, in any
  order, as long as its 32-bit mutation sequence has room for two mutations a call.  Then the frames of the mutations handed out,
  followed by the pending ones, are exactly the accepted frames, numbered without gaps from the first sequence number; the mutations
  are numbered without gaps too; each is within the frame and byte limits of the policy or a single frame; what waits is below
  both limits and has a deadline; the totals count exactly the accepted frames and stay within the limits of a workspace; and
  a further call that throws leaves the builder as it was.\<close>

theorem builder_appends_accepted_frames:
  "case new_builder sessionId startSequence startFrameSeq workspaceFrames sessionFrames payloadBytes policy of
     Inl _ \<Rightarrow> True
   | Inr b \<Rightarrow>
       (if fb_mutationSequence b + 2 * (int (length es) + 1) \<le> 2 ^ 32
        then case fb_run es b of (ms, ps, b') \<Rightarrow>
          items_of_commands (map mt_command ms) @ numbered (fb_sessionId b) (fb_nextFrameSeq b') (fb_pending b') =
            numbered (fb_sessionId b) (fb_nextFrameSeq b) ps \<and>
          map mt_sequence ms = [fb_mutationSequence b .. fb_mutationSequence b' - 1] \<and>
          list_all (mutation_fits (fb_policy b)) ms \<and>
          \<not> must_emit b' \<and> (deadlineMs b' = None \<longleftrightarrow> fb_pending b' = []) \<and>
          snapshotTotals b' = (fb_workspaceFrameCount b + int (length ps), fb_sessionFrameCount b + int (length ps),
            fb_workspacePayloadBytes b + payload_sum ps) \<and>
          fb_workspaceFrameCount b' \<le> MAX_WORKSPACE_FRAMES \<and> fb_sessionFrameCount b' \<le> MAX_WORKSPACE_FRAMES_PER_SESSION \<and>
          fb_workspacePayloadBytes b' \<le> MAX_WORKSPACE_CAPTURE_BYTES \<and>
          (case fb_step e b' of (Inl _, b'') \<Rightarrow> b'' = b' | _ \<Rightarrow> True)
        else True)"
proof (cases "new_builder sessionId startSequence startFrameSeq workspaceFrames sessionFrames payloadBytes policy")
  case (Inr b)
  obtain ms ps b' where r: "fb_run es b = (ms, ps, b')" by (cases "fb_run es b") auto
  show ?thesis
  proof (cases "fb_mutationSequence b + 2 * (int (length es) + 1) \<le> 2 ^ 32")
    case True
    have a: "accounted b ms ps b'" "builder_ok b'" "length ms \<le> 2 * length es" "fb_pending b = []"
      using builder_run_ok [of b es] new_builder_ok [OF Inr] True r by auto
    then have "fb_mutationSequence b' + 1 < 2 ^ 32" using True by (simp add: accounted_def)
    then have "case fb_step e b' of (Inl _, b'') \<Rightarrow> b'' = b' | _ \<Rightarrow> True" using builder_step_ok [OF a(2), of e] by simp
    then show ?thesis using Inr True r a
      by (simp add: accounted_def builder_ok_def deadlineMs_def snapshotTotals_def)
  qed (simp add: Inr)
qed simp

text \<open>At the end of the sequence numbers an \<open>append\<close> can throw after it has changed the builder: with batches of one frame, this
  one pushes the frame and counts it, and then finds no sequence number.\<close>

definition last_frame :: json where
  "last_frame = JObject [(''id'', JString ''f''), (''direction'', JString ''RX''), (''timestamp'', JNumber (js_int 0)), (''data'', JTyped [1])]"

lemma append_throws_after_push:
  "case new_builder (JString ''s'') (JNumber (js_int 4294967296)) (JNumber (js_int 0)) (JNumber (js_int 0)) (JNumber (js_int 0))
      (JNumber (js_int 0)) [(''maxFrames'', JNumber (js_int 1))] of
     Inl _ \<Rightarrow> False
   | Inr b \<Rightarrow>
       (case fb_append last_frame (JNumber (js_int 0)) b of
          (r, b') \<Rightarrow> r = Inl (AdapterLimit ''sequence'' 4294967295 4294967296) \<and> length (fb_pending b') = 1 \<and> snapshotTotals b' = (1, 1, 1))"
  by code_simp

end
