(* ===== verification/Spec2Isabelle.thy ===== *)
theory Spec2Isabelle
  imports RxPipeline ProtocolParser ModbusValues ModbusRequests ModbusRunner ModbusPolling SerialWriteScheduler PortLeases OperationRegistry CaptureAccounting SmpConsole SmpLinks SmpTimers LeaseTokens LeaseRestore LeaseProgress MergedRope ShutdownRuns SaveNotify WriteOrder FrameBuilder 
begin

text \<open>
  A verification development for \<open>bbcom\<close>, a desktop serial-port workbench.  The program's core logic is
  TypeScript under \<open>src/\<close> (paths below are relative to that directory); the Rust side behind
  \<open>src-tauri\<close> only moves bytes between the webview and the operating system.

  \<^bold>\<open>The program and its theories.\<close>  Bytes come from the native side in batches, pass a bounded queue and
  are captured as frames of a session; a streaming parser cuts them into protocol frames; Modbus and
  MCUmgr masters send requests over the same port and match the answers; a write scheduler serialises what
  goes out; registries keep ports, operations and exclusive transactions apart.

  \<^item> Receive path.  \<open>SerialRxQueue\<close> (\<open>lib/serial-rx-queue.ts\<close>): the head-indexed
    array of chunks with its byte limit, refined from a plain queue.  \<open>RxPipeline\<close>: \<open>processChunk\<close>,
    \<open>flushQueue\<close> and the pending frames of \<open>features/serial/application/rx-pipeline.ts\<close> with the drain and
    publish schedulers of \<open>lib/serial-rx-scheduler.ts\<close>; timers and immediates are events, and so are the calls by which
    \<open>connect-lifecycle.ts\<close> resets the path before a connection.
    \<open>CaptureAccounting\<close> (\<open>features/platform/application/capture-accounting.ts\<close>): frame and byte limits of a workspace and the accounting of its captures.
  \<^item> Framing.  \<open>ProtocolParser\<close> (\<open>lib/protocol-parser.ts\<close>): the ring-like buffer and all four modes of
    the parser, against a byte-at-a-time specification.
  \<^item> Modbus.  \<open>Crc16\<close>, \<open>ModbusCore\<close> (request builders, response parser), \<open>ModbusValues\<close> (register words and
    typed values), \<open>ModbusTransport\<close> (the two transports of the code, RTU frames and bare PDUs, and the response scanner), \<open>ModbusBatches\<close> (slicing of
    rows into requests), \<open>ModbusRequests\<close> (rows to requests to values, against a bus of devices with a table per function code), \<open>ModbusRunner\<close> (the transaction runner),
    \<open>ModbusPolling\<close> (backoff and outcome tracker): \<open>lib/modbus/\<close> and \<open>features/terminal/domain/modbus.ts\<close>.
  \<^item> MCUmgr.  \<open>Base64\<close>, \<open>SmpCbor\<close> and \<open>SmpCodec\<close> (payloads and metadata), \<open>SmpParser\<close> (the stream parser of
    \<open>lib/mcumgr-smp-parser.ts\<close>), \<open>SmpRecords\<close>, \<open>SmpStore\<close> (what every operation keeps of the records),
    \<open>SmpRaw\<close>, \<open>SmpRawFrames\<close>, \<open>SmpConsole\<close>, \<open>SmpLinks\<close>, \<open>SmpTimers\<close> (its properties).
  \<^item> Transmit path.  \<open>SerialWriteScheduler\<close> (\<open>lib/serial-write-scheduler.ts\<close>): the
    queue of write operations, the driver's partial writes, cancellation, deadlines and shutdown.
  \<^item> Exclusive transactions.  \<open>RxMirror\<close>, \<open>LeaseModel\<close>, \<open>LeaseCoordinator\<close>
    (\<open>features/serial/application/serial-transaction-lease.ts\<close>): acquisition with drained writes and paused
    automations, device operations, the receive mirror, release and restoration, connection changes and
    disposal; \<open>LeaseSafety\<close>, \<open>LeaseTokens\<close>, \<open>LeaseRestore\<close>, \<open>LeaseProgress\<close> are its properties.
  \<^item> Registries.  \<open>PortLeases\<close> (\<open>features/serial/application/port-lease-registry.ts\<close>, over \<open>JsStrings\<close>) and
    \<open>OperationRegistry\<close> (\<open>features/platform/application/operation-registry.ts\<close>).
  \<^item> Shutdown.  \<open>ShutdownModel\<close> (\<open>features/platform/shutdown/shutdown-coordinator.ts\<close>): registration, drain windows,
    waiting, cancelling, confirming; \<open>ShutdownSafety\<close> is its invariant, \<open>ShutdownRuns\<close> its properties.
  \<^item> Presentation.  \<open>MergedRope\<close> (\<open>lib/merged-frame-rope.ts\<close>): merged terminal rows with their tail cache.
  \<^item> Workspace persistence.  \<open>SaveBatches\<close> (\<open>features/workspace/application/save-queues/index.ts\<close>): weights of mutations and their
    division into native batches; \<open>SaveEstimate\<close> compares the weights with a JSON serializer.  \<open>SaveQueues\<close>, \<open>SaveFrames\<close>,
    \<open>SaveNotify\<close> (the same directory): the autosave queues of settings and frames, their timers and throttled
    notifications.  \<open>WorkspaceValidation\<close> (\<open>features/workspace/validation.ts\<close>): what is accepted from and sent to the native side.
    \<open>WorkspaceWrites\<close> (\<open>features/workspace/workspace-write-epoch.ts\<close> with the document and the project list of
    \<open>workspace-coordinator.ts\<close>): write epochs; \<open>WriteRuns\<close> and \<open>WriteOrder\<close> are its properties.  A frame goes from the frame
    queue through the partition and the validation into a write.  \<open>FrameAdapter\<close> (\<open>features/workspace/adapters/workspace-frame-adapter.ts\<close>):
    projection and hydration of frames; \<open>FrameBuilder\<close>: the runs of its append-mutation builder.
  \<open>Prelude\<close> holds bytes, JavaScript numbers and the 32-bit operators, \<open>Machine\<close> the step relations with
  their invariants.  Each theory begins with what it models and how its state corresponds to the code.

  \<^bold>\<open>How the code is modelled.\<close>  A class is a record of its fields, a method a function of that record, a
  throw the left side of a sum or an option; a callback, a timer or the settlement of a promise is an event
  of a step function, so that every order of them is covered.  An asynchronous method is cut at its awaits:
  the state records which one it is at.  What belongs to the environment (the port, the driver, the
  automations, clocks, the CBOR package) is an argument of a definition or the contents of an event;
  what the code asks of it is appended to a log in the state.  Numbers that are only ever integers are
  \<open>int\<close> or \<open>nat\<close>; where the code tests for NaN or fractions they are \<open>jsnum\<close>; rounding of inexact
  doubles is not modelled.  Strings are lists of code units below 256.

  \<^bold>\<open>What the lemmas show.\<close>
  \<^item> Refinement and equivalence: the parser against its specification and for any chunking, the queue against
    a plain queue, the tracker against the history, the lease coordinator against the protocol of
    suspension and restoration.
  \<^item> Round trips: frames, Modbus requests and responses, register values, SMP packets over both transports, Base64.
  \<^item> Invariants and safety over all reachable states: no byte lost unaccounted, bounded buffers, single
    flight, exclusivity of ports and leases, life cycles that only go forward, links of requests and responses.
  \<^item> Progress and termination: schedulers drain, pending work always has a live timer or callback,
    acquisitions and releases end in boundedly many answers.

  The locales \<open>invariant_machine\<close> and \<open>monotone_machine\<close> of \<open>Machine\<close> state what a component must show of
  its steps; they, \<open>direction_store\<close> and \<open>store_invariant\<close> of the SMP parser, \<open>lease_view\<close> of the lease and \<open>autosave_contract\<close> of the save queues
  are interpreted on the model's own definitions, and the properties rest on those interpretations.

  \<^bold>\<open>Fuel and bounds.\<close>  No definition runs on fuel that a caller has to guess: loops are structural recursions
  or have a termination proof.  Limits of the code (buffer sizes, batch sizes, delays) are its constants or
  arguments with the code's own checks as hypotheses.  \<open>work\<close> of \<open>LeaseProgress\<close> bounds the answers an
  acquisition or a release still takes.

  \<^bold>\<open>Not modelled.\<close>  The user interface (Vue components, composables, rendering of waveforms and packet lists), the
  localised texts, the AI assistant, the navigation, hydration, import and export of workspaces, the adapters of sessions and collections, the generated IPC contracts and
  the calls into Tauri, and the Rust side.  These present, store or transport what the modelled
  components decide.
\<close>

end
